(* ===== verification/Prelude.thy ===== *)
theory Prelude
  imports Main "HOL-Library.Word"
begin

text \<open>
  Shared vocabulary of the development: the outcome of a Rust call (\<open>Ok\<close>, \<open>Err\<close>,
  or a panic), machine arithmetic with overflow checks, checked indexing, loops over
  lists that may fail, and the generic lemmas and fact collections the components use.

  A panic is an outcome of its own. It stands for a failed \<open>assert!\<close> or
  \<open>debug_assert!\<close>, an out-of-range index, an \<open>unwrap\<close> of \<open>None\<close> and an overflowing
  arithmetic operation, as in a build with debug assertions and overflow checks.
  Where a theorem says that no panic occurs, release and debug builds agree.
\<close>

section \<open>Outcomes\<close>

datatype ('a, 'e) res = Ok 'a | Err 'e | Panic

primrec rbind :: "('a, 'e) res \<Rightarrow> ('a \<Rightarrow> ('b, 'e) res) \<Rightarrow> ('b, 'e) res" where
  "rbind (Ok x) f = f x"
| "rbind (Err e) f = Err e"
| "rbind Panic f = Panic"

primrec map_err :: "('e \<Rightarrow> 'g) \<Rightarrow> ('a, 'e) res \<Rightarrow> ('a, 'g) res" where
  "map_err g (Ok x) = Ok x"
| "map_err g (Err e) = Err (g e)"
| "map_err g Panic = Panic"

definition assert_that :: "bool \<Rightarrow> (unit, 'e) res" where
  "assert_that b = (if b then Ok () else Panic)"

definition ensure_that :: "bool \<Rightarrow> 'e \<Rightarrow> (unit, 'e) res" where
  "ensure_that b e = (if b then Ok () else Err e)"

primrec unwrap :: "'a option \<Rightarrow> ('a, 'e) res" where
  "unwrap None = Panic"
| "unwrap (Some x) = Ok x"

definition index :: "'a list \<Rightarrow> nat \<Rightarrow> ('a, 'e) res" where
  "index xs i = (if i < length xs then Ok (xs ! i) else Panic)"

named_theorems res_simps \<open>equations that evaluate outcomes\<close>
named_theorems res_elims \<open>inversion of outcomes\<close>

lemma rbind_Ok_iff [res_simps]: "rbind m f = Ok y \<longleftrightarrow> (\<exists>x. m = Ok x \<and> f x = Ok y)"
  by (cases m) auto

lemma rbind_Err_iff: "rbind m f = Err e \<longleftrightarrow> m = Err e \<or> (\<exists>x. m = Ok x \<and> f x = Err e)"
  by (cases m) auto

lemma rbind_Panic_iff: "rbind m f = Panic \<longleftrightarrow> m = Panic \<or> (\<exists>x. m = Ok x \<and> f x = Panic)"
  by (cases m) auto

lemma rbind_OkE [res_elims]:
  assumes "rbind m f = Ok y"
  obtains x where "m = Ok x" and "f x = Ok y"
  using assms by (auto simp: rbind_Ok_iff)

lemma rbind_assoc: "rbind (rbind m f) g = rbind m (\<lambda>x. rbind (f x) g)"
  by (cases m) auto

lemma rbind_cong [fundef_cong]:
  "m = m' \<Longrightarrow> (\<And>x. m' = Ok x \<Longrightarrow> f x = f' x) \<Longrightarrow> rbind m f = rbind m' f'"
  by (cases m') auto

lemma map_err_Ok_iff [res_simps]: "map_err g m = Ok x \<longleftrightarrow> m = Ok x"
  by (cases m) auto

lemma map_err_Panic_iff [res_simps]: "map_err g m = Panic \<longleftrightarrow> m = Panic"
  by (cases m) auto

lemma assert_that_simps [simp, res_simps]:
  "assert_that True = Ok ()" "assert_that False = Panic"
  "(assert_that b = Ok u) = b" "(assert_that b = Panic) = (\<not> b)" "assert_that b \<noteq> Err e"
  by (auto simp: assert_that_def)

lemma ensure_that_simps [simp, res_simps]:
  "ensure_that True e = Ok ()" "ensure_that False e = Err e"
  "(ensure_that b e = Ok u) = b" "ensure_that b e \<noteq> Panic"
  by (auto simp: ensure_that_def)

lemma unwrap_Ok_iff [res_simps]: "unwrap m = Ok x \<longleftrightarrow> m = Some x"
  by (cases m) auto

lemma index_Ok_iff [res_simps]: "index xs i = Ok x \<longleftrightarrow> i < length xs \<and> x = xs ! i"
  by (auto simp: index_def)

lemma index_in_range [simp]: "i < length xs \<Longrightarrow> index xs i = Ok (xs ! i)"
  by (simp add: index_def)

section \<open>Machine integers\<close>

text \<open>
  A \<open>usize\<close> or \<open>u64\<close> value is a natural number below \<open>2 ^ 64\<close>; each operation that can
  leave that range is one of the checked ones below. \<open>shl64\<close> is Rust's \<open>\<lless>\<close>: it panics
  when the shift amount is 64 or more, and drops the bits shifted out without a panic.
\<close>

definition add64 :: "nat \<Rightarrow> nat \<Rightarrow> (nat, 'e) res" where
  "add64 a b = (if a + b < 2 ^ 64 then Ok (a + b) else Panic)"

definition sub64 :: "nat \<Rightarrow> nat \<Rightarrow> (nat, 'e) res" where
  "sub64 a b = (if b \<le> a then Ok (a - b) else Panic)"

definition mul64 :: "nat \<Rightarrow> nat \<Rightarrow> (nat, 'e) res" where
  "mul64 a b = (if a * b < 2 ^ 64 then Ok (a * b) else Panic)"

definition shl64 :: "nat \<Rightarrow> nat \<Rightarrow> (nat, 'e) res" where
  "shl64 a k = (if k < 64 then Ok ((a * 2 ^ k) mod 2 ^ 64) else Panic)"

lemma add64_Ok_iff [res_simps]: "add64 a b = Ok c \<longleftrightarrow> a + b < 2 ^ 64 \<and> c = a + b"
  by (auto simp: add64_def)

lemma sub64_Ok_iff [res_simps]: "sub64 a b = Ok c \<longleftrightarrow> b \<le> a \<and> c = a - b"
  by (auto simp: sub64_def)

lemma mul64_Ok_iff [res_simps]: "mul64 a b = Ok c \<longleftrightarrow> a * b < 2 ^ 64 \<and> c = a * b"
  by (auto simp: mul64_def)

lemma shl64_one [simp]: "k < 64 \<Longrightarrow> shl64 (Suc 0) k = Ok (2 ^ k)" "k < 64 \<Longrightarrow> shl64 1 k = Ok (2 ^ k)"
proof -
  have "(2::nat) ^ k < 2 ^ 64" if "k < 64" using that by (rule power_strict_increasing) simp
  then show "k < 64 \<Longrightarrow> shl64 (Suc 0) k = Ok (2 ^ k)" "k < 64 \<Longrightarrow> shl64 1 k = Ok (2 ^ k)"
    by (simp_all add: shl64_def)
qed

section \<open>Loops that may fail\<close>

fun rmap :: "('a \<Rightarrow> ('b, 'e) res) \<Rightarrow> 'a list \<Rightarrow> ('b list, 'e) res" where
  "rmap f [] = Ok []"
| "rmap f (x # xs) = rbind (f x) (\<lambda>y. rbind (rmap f xs) (\<lambda>ys. Ok (y # ys)))"

fun rfold :: "('a \<Rightarrow> 's \<Rightarrow> ('s, 'e) res) \<Rightarrow> 'a list \<Rightarrow> 's \<Rightarrow> ('s, 'e) res" where
  "rfold f [] s = Ok s"
| "rfold f (x # xs) s = rbind (f x s) (rfold f xs)"

fun rall :: "('a \<Rightarrow> (unit, 'e) res) \<Rightarrow> 'a list \<Rightarrow> (unit, 'e) res" where
  "rall f [] = Ok ()"
| "rall f (x # xs) = rbind (f x) (\<lambda>_. rall f xs)"

lemma rmap_Ok_iff: "rmap f xs = Ok ys \<longleftrightarrow> list_all2 (\<lambda>x y. f x = Ok y) xs ys"
  by (induction xs arbitrary: ys) (auto simp: rbind_Ok_iff list_all2_Cons1)

lemma rmap_Ok_length: "rmap f xs = Ok ys \<Longrightarrow> length ys = length xs"
  by (simp add: rmap_Ok_iff list_all2_lengthD)

lemma rmap_Ok_nth: "rmap f xs = Ok ys \<Longrightarrow> i < length xs \<Longrightarrow> f (xs ! i) = Ok (ys ! i)"
  by (auto simp: rmap_Ok_iff dest: list_all2_nthD)

lemma rmap_total: "(\<And>x. x \<in> set xs \<Longrightarrow> f x = Ok (g x)) \<Longrightarrow> rmap f xs = Ok (map g xs)"
  by (induction xs) auto

lemma rall_Ok_iff: "rall f xs = Ok u \<longleftrightarrow> (\<forall>x \<in> set xs. f x = Ok ())"
  by (induction xs) (auto simp: rbind_Ok_iff)

lemma rall_Panic: "rall f xs = Panic \<Longrightarrow> \<exists>x \<in> set xs. f x = Panic"
  by (induction xs) (auto simp: rbind_Panic_iff)

lemma rmap_Panic: "rmap f xs = Panic \<Longrightarrow> \<exists>x \<in> set xs. f x = Panic"
  by (induction xs) (auto simp: rbind_Panic_iff)

lemma rbind_total: "m \<noteq> Panic \<Longrightarrow> (\<And>x. m = Ok x \<Longrightarrow> f x \<noteq> Panic) \<Longrightarrow> rbind m f \<noteq> Panic"
  by (cases m) auto

lemma rall_total: "(\<And>x. x \<in> set xs \<Longrightarrow> f x \<noteq> Panic) \<Longrightarrow> rall f xs \<noteq> Panic"
  using rall_Panic [of f xs] by auto

lemma rfold_append: "rfold f (xs @ ys) s = rbind (rfold f xs s) (rfold f ys)"
  by (induction xs arbitrary: s) (auto simp: rbind_assoc intro!: rbind_cong)

section \<open>Lists\<close>

text \<open>\<open>enumerate_from\<close> pairs each element with its position, as \<open>iter().enumerate()\<close> does.\<close>

abbreviation enumerated :: "'a list \<Rightarrow> (nat \<times> 'a) list" where
  "enumerated xs \<equiv> zip [0..<length xs] xs"

lemma enumerated_mem: "(i, x) \<in> set (enumerated xs) \<longleftrightarrow> i < length xs \<and> x = xs ! i"
  by (auto simp: in_set_zip intro: exI [of _ i])

lemma rall_enumerated_Ok_iff: "rall f (enumerated xs) = Ok u \<longleftrightarrow> (\<forall>i < length xs. f (i, xs ! i) = Ok ())"
  unfolding rall_Ok_iff by (force simp: enumerated_mem)

text \<open>A loop over positions with an invariant.\<close>

lemma rfold_enumerated_inv:
  assumes "\<And>i s. i < length xs \<Longrightarrow> J i s \<Longrightarrow> \<exists>s'. f (i, xs ! i) s = Ok s' \<and> J (Suc i) s'" and "J 0 s"
  shows "\<exists>s'. rfold f (enumerated xs) s = Ok s' \<and> J (length xs) s'"
proof -
  have "k \<le> length xs \<Longrightarrow> \<exists>s'. rfold f (map (\<lambda>i. (i, xs ! i)) [0..<k]) s = Ok s' \<and> J k s'" for k
  proof (induction k)
    case (Suc k)
    then obtain s1 where s1: "rfold f (map (\<lambda>i. (i, xs ! i)) [0..<k]) s = Ok s1" "J k s1" by auto
    with assms(1) [of k s1] Suc.prems obtain s2 where "f (k, xs ! k) s1 = Ok s2" "J (Suc k) s2" by auto
    with s1 show ?case by (simp add: rfold_append)
  qed (simp add: assms(2))
  moreover have "enumerated xs = map (\<lambda>i. (i, xs ! i)) [0..<length xs]"
    by (rule nth_equalityI) simp_all
  ultimately show ?thesis by auto
qed

text \<open>\<open>chunks(n)\<close>: consecutive pieces of length \<open>n\<close>, the last one possibly shorter.\<close>

function chunks :: "nat \<Rightarrow> 'a list \<Rightarrow> 'a list list" where
  "chunks n xs = (if n = 0 \<or> xs = [] then [] else take n xs # chunks n (drop n xs))"
  by auto
termination by (relation "measure (\<lambda>(n, xs). length xs)") auto

declare chunks.simps [simp del]

lemma length_chunks: "0 < n \<Longrightarrow> length (chunks n xs) = (length xs + n - 1) div n"
proof (induction n xs rule: chunks.induct)
  case (1 n xs)
  show ?case
  proof (cases "xs = []")
    case False
    then have "length (chunks n xs) = Suc ((length xs - n + n - 1) div n)"
      using 1 by (simp add: chunks.simps [of n xs])
    also have "\<dots> = (length xs + n - 1) div n"
    proof (cases "length xs < n")
      case True
      with False have "(length xs + n - 1) div n = 1"
        by (intro div_nat_eqI) (cases xs; simp)+
      with True 1(2) show ?thesis by simp
    next
      case ge: False
      then have "length xs + n - 1 = (length xs - n + n - 1) + n" using 1(2) by simp
      with 1(2) show ?thesis by (metis Suc_eq_plus1 div_add_self2 less_not_refl)
    qed
    finally show ?thesis .
  next
    case True
    have "(n - 1) div n = 0" using 1(2) by (intro div_less) simp
    with True show ?thesis by (simp add: chunks.simps)
  qed
qed

lemma chunks_elem: "c \<in> set (chunks n xs) \<Longrightarrow> c \<noteq> [] \<and> length c \<le> n"
proof (induction n xs rule: chunks.induct)
  case (1 n xs)
  from 1(2) have "n \<noteq> 0 \<and> xs \<noteq> [] \<and> c \<in> set (take n xs # chunks n (drop n xs))"
    by (subst (asm) chunks.simps) (simp split: if_splits)
  with 1(1) show ?case by auto
qed

lemma concat_chunks: "0 < n \<Longrightarrow> concat (chunks n xs) = xs"
  by (induction n xs rule: chunks.induct) (subst chunks.simps, simp)

lemma chunks_exact:
  "0 < n \<Longrightarrow> length xs = k * n \<Longrightarrow> chunks n xs = map (\<lambda>i. take n (drop (i * n) xs)) [0..<k]"
proof (induction k arbitrary: xs)
  case (Suc k)
  then have "xs \<noteq> []" "length (drop n xs) = k * n" by auto
  with Suc show ?case
    by (simp add: chunks.simps [of n xs] upt_conv_Cons map_Suc_upt [symmetric] add.commute del: upt_Suc)
qed (simp add: chunks.simps)

lemma length_concat_blocks: "\<forall>x \<in> set xs. length x = d \<Longrightarrow> length (concat xs) = length xs * d"
  by (induction xs) auto

lemma concat_nth_block:
  "\<forall>x \<in> set xs. length x = d \<Longrightarrow> c < length xs \<Longrightarrow> r < d \<Longrightarrow> concat xs ! (c * d + r) = xs ! c ! r"
proof (induction xs arbitrary: c)
  case (Cons x xs)
  show ?case
  proof (cases c)
    case (Suc k)
    have "concat (x # xs) ! (d + (k * d + r)) = concat xs ! (k * d + r)"
      using Cons.prems(1) by (metis concat.simps(2) list.set_intros(1) nth_append_length_plus)
    with Cons Suc show ?thesis by (simp add: add.assoc)
  qed (use Cons.prems in \<open>simp add: nth_append\<close>)
qed simp

section \<open>Powers of two\<close>

text \<open>\<open>is_power_of_two\<close>, \<open>log2_strict_usize\<close> (which panics on other arguments),
  \<open>next_power_of_two\<close> and \<open>div_ceil\<close>.\<close>

function is_pow2 :: "nat \<Rightarrow> bool" where
  "is_pow2 n = (if n \<le> 1 then n = 1 else even n \<and> is_pow2 (n div 2))"
  by auto
termination by (relation "measure id") auto

function log2_floor :: "nat \<Rightarrow> nat" where
  "log2_floor n = (if n \<le> 1 then 0 else Suc (log2_floor (n div 2)))"
  by auto
termination by (relation "measure id") auto

declare is_pow2.simps [simp del] log2_floor.simps [simp del]

definition log2_strict :: "nat \<Rightarrow> (nat, 'e) res" where
  "log2_strict n = (if is_pow2 n then Ok (log2_floor n) else Panic)"

definition next_pow2 :: "nat \<Rightarrow> nat" where
  "next_pow2 n = (if n \<le> 1 then 1 else 2 ^ Suc (log2_floor (n - 1)))"

definition div_ceil :: "nat \<Rightarrow> nat \<Rightarrow> nat" where
  "div_ceil a b = (a + b - 1) div b"

lemma is_pow2_power [simp]: "is_pow2 (2 ^ k)"
proof (induction k)
  case (Suc k)
  have "\<not> (2 :: nat) ^ Suc k \<le> 1" using one_less_power [of "2::nat" "Suc k"] by simp
  with Suc show ?case by (subst is_pow2.simps) simp
qed (simp add: is_pow2.simps)

lemma is_pow2_one [simp]: "is_pow2 1" "is_pow2 (Suc 0)"
  using is_pow2_power [of 0] by simp_all

lemma log2_floor_power [simp]: "log2_floor (2 ^ k) = k"
proof (induction k)
  case (Suc k)
  have "\<not> (2 :: nat) ^ Suc k \<le> 1" using one_less_power [of "2::nat" "Suc k"] by simp
  with Suc show ?case by (subst log2_floor.simps) simp
qed (simp add: log2_floor.simps)

lemma is_pow2_iff: "is_pow2 n \<longleftrightarrow> (\<exists>k. n = 2 ^ k)"
proof
  show "is_pow2 n \<Longrightarrow> \<exists>k. n = 2 ^ k"
  proof (induction n rule: is_pow2.induct)
    case (1 n)
    from 1(2) consider "n = 1" | "\<not> n \<le> 1" "even n" "is_pow2 (n div 2)"
      by (subst (asm) is_pow2.simps) (auto split: if_splits)
    then show ?case
    proof cases
      case 1
      then show ?thesis by (intro exI [of _ 0]) simp
    next
      case 2
      with 1(1) obtain k where "n div 2 = 2 ^ k" by blast
      with \<open>even n\<close> have "n = 2 ^ Suc k" by (auto elim!: evenE)
      then show ?thesis ..
    qed
  qed
qed auto

lemma log2_strict_power [simp]: "log2_strict (2 ^ k) = Ok k"
  by (simp add: log2_strict_def)

lemma log2_strict_Ok_iff [res_simps]: "log2_strict n = Ok k \<longleftrightarrow> n = 2 ^ k"
  by (auto simp: log2_strict_def is_pow2_iff)

lemma log2_floor_bounds: "0 < n \<Longrightarrow> 2 ^ log2_floor n \<le> n \<and> n < 2 ^ Suc (log2_floor n)"
proof (induction n rule: log2_floor.induct)
  case (1 n)
  show ?case
  proof (cases "n \<le> 1")
    case False
    with 1 have "2 ^ log2_floor (n div 2) \<le> n div 2 \<and> n div 2 < 2 ^ Suc (log2_floor (n div 2))" by simp
    with False show ?thesis by (subst (1 2) log2_floor.simps) auto
  qed (use 1(2) in \<open>auto simp: log2_floor.simps\<close>)
qed

lemma next_pow2_power [simp]: "next_pow2 (2 ^ k) = 2 ^ k"
proof (cases k)
  case (Suc j)
  have gt: "(1 :: nat) < 2 ^ k" using Suc one_less_power [of "2::nat" k] by simp
  define l where "l = log2_floor (2 ^ k - 1)"
  from log2_floor_bounds [of "2 ^ k - 1"] gt have b: "2 ^ l \<le> (2::nat) ^ k - 1" "(2::nat) ^ k - 1 < 2 ^ Suc l"
    by (simp_all add: l_def)
  from b(1) gt have "(2::nat) ^ l < 2 ^ k" by linarith
  moreover from b(2) have "(2::nat) ^ k \<le> 2 ^ Suc l" by linarith
  ultimately have "Suc l = k" by (simp add: power_strict_increasing_iff power_increasing_iff del: power_Suc)
  with gt show ?thesis by (simp add: next_pow2_def l_def del: power_Suc)
qed (simp add: next_pow2_def)

lemma div_ceil_mult: "0 < b \<Longrightarrow> a \<le> div_ceil a b * b"
proof -
  assume b: "0 < b"
  have "(a + b - 1) div b * b + (a + b - 1) mod b = a + b - 1" by simp
  moreover have "(a + b - 1) mod b < b" using b by simp
  ultimately show ?thesis using b unfolding div_ceil_def by linarith
qed

end
