(* ===== verification/Codec.thy ===== *)
theory Codec
  imports Prelude
begin

text \<open>
  The binary codec of \<open>codec.rs\<close>: encoders write bytes, decoders read a value from the
  front of the input and return the rest, as a \<open>Read\<close> cursor does. The two laws every
  codec is judged by are stated as the locales \<open>codec\<close> (what was written is read back)
  and \<open>canonical_codec\<close> (only what would be written is accepted); the combinators for
  sequences, options and pairs are proved once inside them and interpreted for the
  code's primitive codecs.
\<close>

unbundle bit_operations_syntax

type_synonym u8 = "8 word"
type_synonym u32 = "32 word"

datatype io_error =
    UnexpectedEof
  | TryFromIntError
  | TrailingBytes
  | FieldOutOfRange nat nat
  | FromBasisFailed
  | CodecVersionMismatch nat nat
  | PaddingBitsSet
  | SumcheckRoundsNotMultiple
  | NumCommitsZero

type_synonym bytes_result = "(u8 list, io_error) res"
type_synonym 'a decoder = "u8 list \<Rightarrow> ('a \<times> u8 list, io_error) res"

section \<open>Sequencing\<close>

definition enc_then :: "bytes_result \<Rightarrow> bytes_result \<Rightarrow> bytes_result" where
  "enc_then m m' = rbind m (\<lambda>b. rbind m' (\<lambda>b'. Ok (b @ b')))"

definition dret :: "'a \<Rightarrow> 'a decoder" where
  "dret x bs = Ok (x, bs)"

definition dfail :: "io_error \<Rightarrow> 'a decoder" where
  "dfail e bs = Err e"

definition dlift :: "('a, io_error) res \<Rightarrow> 'a decoder" where
  "dlift m bs = rbind m (\<lambda>x. Ok (x, bs))"

definition dbind :: "'a decoder \<Rightarrow> ('a \<Rightarrow> 'b decoder) \<Rightarrow> 'b decoder" where
  "dbind d f bs = rbind (d bs) (\<lambda>(x, bs'). f x bs')"

text \<open>\<open>encode_iter\<close>: each element, no length. \<open>encode_slice\<close>: the length first.\<close>

fun encode_iter :: "('a \<Rightarrow> bytes_result) \<Rightarrow> 'a list \<Rightarrow> bytes_result" where
  "encode_iter enc [] = Ok []"
| "encode_iter enc (x # xs) = enc_then (enc x) (encode_iter enc xs)"

fun decode_n :: "nat \<Rightarrow> 'a decoder \<Rightarrow> 'a list decoder" where
  "decode_n 0 d = dret []"
| "decode_n (Suc n) d = dbind d (\<lambda>x. dbind (decode_n n d) (\<lambda>xs. dret (x # xs)))"

section \<open>Primitive codecs\<close>

definition encode_bool :: "bool \<Rightarrow> bytes_result" where
  "encode_bool b = Ok [if b then 1 else 0]"

definition encode_u8 :: "u8 \<Rightarrow> bytes_result" where
  "encode_u8 b = Ok [b]"

definition u32_to_le_bytes :: "u32 \<Rightarrow> u8 list" where
  "u32_to_le_bytes w = [ucast w, ucast (drop_bit 8 w), ucast (drop_bit 16 w), ucast (drop_bit 24 w)]"

definition u32_from_le_bytes :: "u8 \<Rightarrow> u8 \<Rightarrow> u8 \<Rightarrow> u8 \<Rightarrow> u32" where
  "u32_from_le_bytes a b c d =
     ucast a OR push_bit 8 (ucast b) OR push_bit 16 (ucast c) OR push_bit 24 (ucast d)"

definition encode_u32 :: "u32 \<Rightarrow> bytes_result" where
  "encode_u32 w = Ok (u32_to_le_bytes w)"

definition encode_usize :: "nat \<Rightarrow> bytes_result" where
  "encode_usize n = (if n < 2 ^ 32 then encode_u32 (of_nat n) else Err TryFromIntError)"

fun decode_u8 :: "u8 decoder" where
  "decode_u8 [] = Err UnexpectedEof"
| "decode_u8 (b # bs) = Ok (b, bs)"

definition decode_bool :: "bool decoder" where
  "decode_bool = dbind decode_u8 (\<lambda>b. dret (b \<noteq> 0))"

fun decode_u32 :: "u32 decoder" where
  "decode_u32 (a # b # c # d # bs) = Ok (u32_from_le_bytes a b c d, bs)"
| "decode_u32 _ = Err UnexpectedEof"

definition decode_usize :: "nat decoder" where
  "decode_usize = dbind decode_u32 (\<lambda>w. dret (unat w))"

section \<open>Generic containers\<close>

definition encode_slice :: "('a \<Rightarrow> bytes_result) \<Rightarrow> 'a list \<Rightarrow> bytes_result" where
  "encode_slice enc xs = enc_then (encode_usize (length xs)) (encode_iter enc xs)"

definition decode_vec :: "'a decoder \<Rightarrow> 'a list decoder" where
  "decode_vec d = dbind decode_usize (\<lambda>len. decode_n len d)"

definition encode_pair :: "('a \<Rightarrow> bytes_result) \<Rightarrow> ('b \<Rightarrow> bytes_result) \<Rightarrow> 'a \<times> 'b \<Rightarrow> bytes_result" where
  "encode_pair e1 e2 p = enc_then (e1 (fst p)) (e2 (snd p))"

definition decode_pair :: "'a decoder \<Rightarrow> 'b decoder \<Rightarrow> ('a \<times> 'b) decoder" where
  "decode_pair d1 d2 = dbind d1 (\<lambda>x. dbind d2 (\<lambda>y. dret (x, y)))"

definition encode_option :: "('a \<Rightarrow> bytes_result) \<Rightarrow> 'a option \<Rightarrow> bytes_result" where
  "encode_option enc v = enc_then (encode_bool (v \<noteq> None))
     (case v of None \<Rightarrow> Ok [] | Some x \<Rightarrow> enc x)"

definition decode_option :: "'a decoder \<Rightarrow> 'a option decoder" where
  "decode_option d = dbind decode_bool (\<lambda>is_some.
     if is_some then dbind d (\<lambda>x. dret (Some x)) else dret None)"

text \<open>\<open>decode_from_bytes\<close> accepts only when the whole input was read.\<close>

definition decode_from_bytes :: "'a decoder \<Rightarrow> u8 list \<Rightarrow> ('a, io_error) res" where
  "decode_from_bytes d bytes =
     rbind (d bytes) (\<lambda>(x, rest). if rest \<noteq> [] then Err TrailingBytes else Ok x)"

section \<open>The laws\<close>

definition round_trips :: "bytes_result \<Rightarrow> 'a decoder \<Rightarrow> 'a \<Rightarrow> bool" where
  "round_trips m d x \<longleftrightarrow> (\<exists>bs. m = Ok bs \<and> (\<forall>r. d (bs @ r) = Ok (x, r)))"

lemma round_tripsI: "m = Ok bs \<Longrightarrow> (\<And>r. d (bs @ r) = Ok (x, r)) \<Longrightarrow> round_trips m d x"
  by (auto simp: round_trips_def)

lemma round_tripsE:
  assumes "round_trips m d x"
  obtains bs where "m = Ok bs" and "\<And>r. d (bs @ r) = Ok (x, r)"
  using assms by (auto simp: round_trips_def)

named_theorems round_trip_intros \<open>round trips of the sequencing operators\<close>

lemma round_trips_dret [round_trip_intros]: "round_trips (Ok []) (dret x) x"
  by (auto simp: round_trips_def dret_def)

lemma round_trips_then:
  assumes "round_trips m d x" and "round_trips m' (f x) y"
  shows "round_trips (enc_then m m') (dbind d f) y"
proof -
  from assms obtain b b' where "m = Ok b" "\<And>r. d (b @ r) = Ok (x, r)"
    and "m' = Ok b'" "\<And>r. f x (b' @ r) = Ok (y, r)"
    by (auto elim!: round_tripsE)
  then show ?thesis
    by (intro round_tripsI [of _ "b @ b'"]) (simp_all add: enc_then_def dbind_def)
qed

lemma round_trips_last:
  assumes "round_trips m d x" and "f x = dret y"
  shows "round_trips m (dbind d f) y"
  using assms by (auto simp: round_trips_def dbind_def dret_def)

lemma enc_then_Ok_Nil [simp]: "enc_then m (Ok []) = m"
  by (cases m) (simp_all add: enc_then_def)

lemma enc_then_Nil_left [simp]: "enc_then (Ok []) m = m"
  by (cases m) (simp_all add: enc_then_def)

lemma enc_then_assoc: "enc_then (enc_then a b) c = enc_then a (enc_then b c)"
  by (cases a; cases b; cases c) (simp_all add: enc_then_def)

lemma enc_then_Ok: "m = Ok a \<Longrightarrow> m' = Ok b \<Longrightarrow> enc_then m m' = Ok (a @ b)"
  by (simp add: enc_then_def)

lemma dbind_OkE:
  assumes "dbind d f bs = Ok (y, r)"
  obtains x r' where "d bs = Ok (x, r')" and "f x r' = Ok (y, r)"
  using assms by (auto simp: dbind_def rbind_Ok_iff)

lemma dret_Ok_iff [simp]: "dret x bs = Ok (y, r) \<longleftrightarrow> y = x \<and> r = bs"
  by (auto simp: dret_def)

lemma dfail_Ok [simp]: "dfail e bs \<noteq> Ok z"
  by (simp add: dfail_def)

lemma dlift_Ok_iff [simp]: "dlift m bs = Ok (y, r) \<longleftrightarrow> m = Ok y \<and> r = bs"
  by (auto simp: dlift_def rbind_Ok_iff)

locale codec =
  fixes enc :: "'a \<Rightarrow> bytes_result" and dec :: "'a decoder" and wf :: "'a \<Rightarrow> bool"
  assumes round_trip: "wf x \<Longrightarrow> round_trips (enc x) dec x"
begin

lemma iter_round_trip: "list_all wf xs \<Longrightarrow> round_trips (encode_iter enc xs) (decode_n (length xs) dec) xs"
proof (induction xs)
  case (Cons x xs)
  then have "round_trips (enc x) dec x" and "round_trips (encode_iter enc xs) (decode_n (length xs) dec) xs"
    by (auto intro: round_trip)
  then show ?case
    by simp (rule round_trips_then, assumption, erule round_trips_last, simp)
qed (simp add: round_trip_intros)

lemma iter_round_trip_n:
  "list_all wf xs \<Longrightarrow> n = length xs \<Longrightarrow> round_trips (encode_iter enc xs) (decode_n n dec) xs"
  by (simp add: iter_round_trip)

lemma option_round_trip:
  "(\<And>x. v = Some x \<Longrightarrow> wf x) \<Longrightarrow> round_trips (encode_option enc v) (decode_option dec) v"
  unfolding encode_option_def decode_option_def
  by (rule round_trips_then [of _ _ "v \<noteq> None"])
    (auto simp: round_trips_def encode_bool_def decode_bool_def dbind_def dret_def
       split: option.splits dest!: round_trip)

lemma from_bytes_round_trip: "wf x \<Longrightarrow> \<exists>bs. enc x = Ok bs \<and> decode_from_bytes dec bs = Ok x"
  using round_trip [of x] by (fastforce simp: round_trips_def decode_from_bytes_def dest: spec [of _ "[]"])

lemma prefix_free:
  assumes "wf x" "wf y" and "enc x = Ok a" "enc y = Ok b" and "a @ r = b @ s"
  shows "x = y"
proof -
  have "dec (a @ r) = Ok (x, r)" and "dec (b @ s) = Ok (y, s)"
    using assms(1-4) by (auto simp: round_trips_def dest: round_trip)
  with assms(5) show ?thesis by simp
qed

end

locale canonical_codec = codec +
  assumes canonical: "dec bs = Ok (x, r) \<Longrightarrow> wf x \<and> (\<exists>e. enc x = Ok e \<and> bs = e @ r)"
begin

lemma n_canonical:
  "decode_n n dec bs = Ok (xs, r) \<Longrightarrow>
     length xs = n \<and> list_all wf xs \<and> (\<exists>e. encode_iter enc xs = Ok e \<and> bs = e @ r)"
proof (induction n arbitrary: bs xs)
  case (Suc n)
  from Suc.prems obtain x r1 ys where x: "dec bs = Ok (x, r1)"
    and ys: "decode_n n dec r1 = Ok (ys, r)" and xs: "xs = x # ys"
    by (auto elim!: dbind_OkE)
  from canonical [OF x] Suc.IH [OF ys] xs show ?case
    by (auto simp: enc_then_def)
qed simp

lemma from_bytes_canonical:
  "decode_from_bytes dec bs = Ok x \<Longrightarrow> wf x \<and> enc x = Ok bs"
  using canonical [of bs] by (auto simp: decode_from_bytes_def rbind_Ok_iff split: if_splits)

end

section \<open>The primitive codecs satisfy the laws\<close>

lemma u32_of_le_of_bytes:
  "u32_from_le_bytes (ucast w) (ucast (drop_bit 8 w)) (ucast (drop_bit 16 w)) (ucast (drop_bit 24 w)) = w"
proof (rule bit_word_eqI)
  fix n assume n: "n < LENGTH(32)"
  consider "n < 8" | "8 \<le> n \<and> n < 16" | "16 \<le> n \<and> n < 24" | "24 \<le> n \<and> n < 32"
    using n by fastforce
  then show "bit (u32_from_le_bytes (ucast w) (ucast (drop_bit 8 w)) (ucast (drop_bit 16 w))
      (ucast (drop_bit 24 w))) n = bit w n"
    by cases (auto simp: u32_from_le_bytes_def bit_simps dest: bit_imp_le_length)
qed

lemma bit_u8_ge: "8 \<le> n \<Longrightarrow> \<not> bit (a :: u8) n"
  using bit_imp_le_length [of a n] by auto

lemma u32_bytes_of_le: "u32_to_le_bytes (u32_from_le_bytes a b c d) = [a, b, c, d]"
  unfolding u32_to_le_bytes_def u32_from_le_bytes_def
  by (auto intro!: bit_word_eqI simp: bit_simps bit_u8_ge)

interpretation u8_codec: canonical_codec encode_u8 decode_u8 "\<lambda>_. True"
proof
  show "round_trips (encode_u8 x) decode_u8 x" for x
    by (auto simp: round_trips_def encode_u8_def)
  show "True \<and> (\<exists>e. encode_u8 x = Ok e \<and> bs = e @ r)" if "decode_u8 bs = Ok (x, r)" for bs x r
    using that by (cases bs) (auto simp: encode_u8_def)
qed

interpretation bool_codec: codec encode_bool decode_bool "\<lambda>_. True"
  by unfold_locales
    (auto simp: round_trips_def encode_bool_def decode_bool_def dbind_def dret_def)

interpretation u32_codec: canonical_codec encode_u32 decode_u32 "\<lambda>_. True"
proof
  show "round_trips (encode_u32 x) decode_u32 x" for x
    by (auto simp: round_trips_def encode_u32_def u32_to_le_bytes_def u32_of_le_of_bytes)
  show "True \<and> (\<exists>e. encode_u32 x = Ok e \<and> bs = e @ r)" if "decode_u32 bs = Ok (x, r)" for bs x r
    using that by (cases bs rule: decode_u32.cases) (auto simp: encode_u32_def u32_bytes_of_le)
qed

lemma decode_usize_Ok:
  "decode_usize bs = Ok (n, r) \<longleftrightarrow> (\<exists>w. decode_u32 bs = Ok (w, r) \<and> n = unat w)"
  by (auto simp: decode_usize_def dbind_def rbind_Ok_iff)

interpretation usize_codec: canonical_codec encode_usize decode_usize "\<lambda>n. n < 2 ^ 32"
proof
  show "round_trips (encode_usize n) decode_usize n" if "n < 2 ^ 32" for n
    using u32_codec.round_trip [of "of_nat n"] that
    by (auto simp: round_trips_def encode_usize_def decode_usize_def dbind_def unsigned_of_nat take_bit_nat_eq_self)
  show "n < 2 ^ 32 \<and> (\<exists>e. encode_usize n = Ok e \<and> bs = e @ r)" if "decode_usize bs = Ok (n, r)" for bs n r
  proof -
    from that obtain w where w: "decode_u32 bs = Ok (w, r)" "n = unat w" by (auto simp: decode_usize_Ok)
    have "unat w < 2 ^ 32" using unsigned_less [of w] by simp
    with w u32_codec.canonical [OF w(1)] show ?thesis by (auto simp: encode_usize_def)
  qed
qed

end
