(* ===== verification/FieldCodec.thy ===== *)
theory FieldCodec
  imports Codec
begin

text \<open>
  Codecs of field elements and digests: the \<open>PrimeField32\<close> and extension-field helpers
  of \<open>codec.rs\<close>, the \<open>EncodableConfig\<close> and \<open>DecodableConfig\<close> traits with their default
  methods, and the configuration \<open>BabyBearPoseidon2Config\<close> of the SDK. The field itself
  (Plonky3's \<open>PrimeField32\<close> and \<open>BasedVectorSpace\<close>) is a parameter; the locales
  \<open>prime_field32\<close> and \<open>extension_field32\<close> state what the codec relies on.
\<close>

record 'f prime_field32_ops =
  order_u32 :: nat
  as_canonical_u32 :: "'f \<Rightarrow> nat"
  from_u32 :: "nat \<Rightarrow> 'f"

record ('f, 'ef) basis_ops =
  ext_dimension :: nat
  as_basis_coefficients :: "'ef \<Rightarrow> 'f list"
  from_basis_coefficients :: "'f list \<Rightarrow> 'ef option"

definition encode_prime_field32 :: "'f prime_field32_ops \<Rightarrow> 'f \<Rightarrow> bytes_result" where
  "encode_prime_field32 P val = encode_u32 (of_nat (as_canonical_u32 P val))"

definition decode_prime_field32 :: "'f prime_field32_ops \<Rightarrow> 'f decoder" where
  "decode_prime_field32 P = dbind decode_u32 (\<lambda>value.
     if unat value < order_u32 P then dret (from_u32 P (unat value))
     else dfail (FieldOutOfRange (unat value) (order_u32 P)))"

definition encode_extension_field32 ::
    "'f prime_field32_ops \<Rightarrow> ('f, 'ef) basis_ops \<Rightarrow> 'ef \<Rightarrow> bytes_result" where
  "encode_extension_field32 P E val = encode_iter (encode_prime_field32 P) (as_basis_coefficients E val)"

definition decode_extension_field32 ::
    "'f prime_field32_ops \<Rightarrow> ('f, 'ef) basis_ops \<Rightarrow> 'ef decoder" where
  "decode_extension_field32 P E =
     dbind (decode_n (ext_dimension E) (decode_prime_field32 P)) (\<lambda>base_vec.
       case from_basis_coefficients E base_vec of
         None \<Rightarrow> dfail FromBasisFailed
       | Some x \<Rightarrow> dret x)"

section \<open>EncodableConfig and DecodableConfig\<close>

record ('f, 'ef, 'd) codec_config =
  encode_base_field :: "'f \<Rightarrow> bytes_result"
  encode_extension_field :: "'ef \<Rightarrow> bytes_result"
  encode_digest :: "'d \<Rightarrow> bytes_result"
  decode_base_field :: "'f decoder"
  decode_extension_field :: "'ef decoder"
  decode_digest :: "'d decoder"

definition encode_base_field_iter :: "('f, 'ef, 'd) codec_config \<Rightarrow> 'f list \<Rightarrow> bytes_result" where
  "encode_base_field_iter C vals = encode_iter (encode_base_field C) vals"

definition encode_extension_field_iter :: "('f, 'ef, 'd) codec_config \<Rightarrow> 'ef list \<Rightarrow> bytes_result" where
  "encode_extension_field_iter C vals = encode_iter (encode_extension_field C) vals"

definition encode_digest_iter :: "('f, 'ef, 'd) codec_config \<Rightarrow> 'd list \<Rightarrow> bytes_result" where
  "encode_digest_iter C vals = encode_iter (encode_digest C) vals"

definition encode_base_field_slice :: "('f, 'ef, 'd) codec_config \<Rightarrow> 'f list \<Rightarrow> bytes_result" where
  "encode_base_field_slice C vals =
     enc_then (encode_usize (length vals)) (encode_base_field_iter C vals)"

definition encode_extension_field_slice :: "('f, 'ef, 'd) codec_config \<Rightarrow> 'ef list \<Rightarrow> bytes_result" where
  "encode_extension_field_slice C vals =
     enc_then (encode_usize (length vals)) (encode_extension_field_iter C vals)"

definition encode_digest_slice :: "('f, 'ef, 'd) codec_config \<Rightarrow> 'd list \<Rightarrow> bytes_result" where
  "encode_digest_slice C vals =
     enc_then (encode_usize (length vals)) (encode_digest_iter C vals)"

definition decode_base_field_n :: "('f, 'ef, 'd) codec_config \<Rightarrow> nat \<Rightarrow> 'f list decoder" where
  "decode_base_field_n C n = decode_n n (decode_base_field C)"

definition decode_extension_field_n :: "('f, 'ef, 'd) codec_config \<Rightarrow> nat \<Rightarrow> 'ef list decoder" where
  "decode_extension_field_n C n = decode_n n (decode_extension_field C)"

definition decode_digest_n :: "('f, 'ef, 'd) codec_config \<Rightarrow> nat \<Rightarrow> 'd list decoder" where
  "decode_digest_n C n = decode_n n (decode_digest C)"

definition decode_base_field_vec :: "('f, 'ef, 'd) codec_config \<Rightarrow> 'f list decoder" where
  "decode_base_field_vec C = dbind decode_usize (decode_base_field_n C)"

definition decode_extension_field_vec :: "('f, 'ef, 'd) codec_config \<Rightarrow> 'ef list decoder" where
  "decode_extension_field_vec C = dbind decode_usize (decode_extension_field_n C)"

definition decode_digest_vec :: "('f, 'ef, 'd) codec_config \<Rightarrow> 'd list decoder" where
  "decode_digest_vec C = dbind decode_usize (decode_digest_n C)"

lemmas config_codec_defs =
  encode_base_field_iter_def encode_extension_field_iter_def encode_digest_iter_def
  encode_base_field_slice_def encode_extension_field_slice_def encode_digest_slice_def
  decode_base_field_n_def decode_extension_field_n_def decode_digest_n_def
  decode_base_field_vec_def decode_extension_field_vec_def decode_digest_vec_def

text \<open>\<open>BabyBearPoseidon2Config\<close>: a digest is an array of \<open>DIGEST_SIZE = 8\<close> base-field elements.\<close>

definition baby_bear_poseidon2_codec ::
    "'f prime_field32_ops \<Rightarrow> ('f, 'ef) basis_ops \<Rightarrow> ('f, 'ef, 'f list) codec_config" where
  "baby_bear_poseidon2_codec P E =
     \<lparr>encode_base_field = encode_prime_field32 P,
      encode_extension_field = encode_extension_field32 P E,
      encode_digest = encode_iter (encode_prime_field32 P),
      decode_base_field = decode_prime_field32 P,
      decode_extension_field = decode_extension_field32 P E,
      decode_digest = decode_n 8 (decode_prime_field32 P)\<rparr>"

section \<open>Laws of the field and of the configuration\<close>

locale prime_field32 =
  fixes P :: "'f prime_field32_ops"
  assumes as_canonical_less: "as_canonical_u32 P x < order_u32 P"
    and order_u32_le: "order_u32 P \<le> 2 ^ 32"
    and from_as_canonical: "from_u32 P (as_canonical_u32 P x) = x"
    and as_canonical_from: "n < order_u32 P \<Longrightarrow> as_canonical_u32 P (from_u32 P n) = n"
begin

lemma unat_canonical [simp]: "unat (of_nat (as_canonical_u32 P x) :: u32) = as_canonical_u32 P x"
proof -
  have "as_canonical_u32 P x < 2 ^ 32"
    using as_canonical_less [of x] order_u32_le by (rule less_le_trans)
  then show ?thesis by (simp add: unsigned_of_nat take_bit_nat_eq_self)
qed

lemma field_round_trip: "round_trips (encode_prime_field32 P x) (decode_prime_field32 P) x"
  unfolding encode_prime_field32_def decode_prime_field32_def
  using u32_codec.round_trip [of "of_nat (as_canonical_u32 P x)"]
  by (intro round_trips_last) (auto simp: as_canonical_less from_as_canonical)

lemma field_canonical:
  assumes "decode_prime_field32 P bs = Ok (x, r)"
  shows "\<exists>e. encode_prime_field32 P x = Ok e \<and> bs = e @ r"
proof -
  from assms obtain w r' where w: "decode_u32 bs = Ok (w, r')" and "unat w < order_u32 P"
    and "x = from_u32 P (unat w)" "r' = r"
    by (auto simp: decode_prime_field32_def elim!: dbind_OkE split: if_splits)
  with u32_codec.canonical [OF w] show ?thesis
    by (auto simp: encode_prime_field32_def as_canonical_from)
qed

end

sublocale prime_field32 \<subseteq> base: canonical_codec "encode_prime_field32 P" "decode_prime_field32 P" "\<lambda>_. True"
  by unfold_locales (simp_all add: field_round_trip field_canonical)

locale extension_field32 = prime_field32 P for P :: "'f prime_field32_ops" +
  fixes E :: "('f, 'ef) basis_ops"
  assumes length_basis: "length (as_basis_coefficients E x) = ext_dimension E"
    and from_basis_iff: "from_basis_coefficients E xs = Some x \<longleftrightarrow> as_basis_coefficients E x = xs"
begin

lemma ext_round_trip: "round_trips (encode_extension_field32 P E x) (decode_extension_field32 P E) x"
  unfolding encode_extension_field32_def decode_extension_field32_def
proof (rule round_trips_last)
  show "round_trips (encode_iter (encode_prime_field32 P) (as_basis_coefficients E x))
          (decode_n (ext_dimension E) (decode_prime_field32 P)) (as_basis_coefficients E x)"
    by (rule base.iter_round_trip_n) (simp_all add: length_basis list_all_iff)
  have "from_basis_coefficients E (as_basis_coefficients E x) = Some x"
    by (simp add: from_basis_iff)
  then show "(case from_basis_coefficients E (as_basis_coefficients E x) of
      None \<Rightarrow> dfail FromBasisFailed | Some x \<Rightarrow> dret x) = dret x" by simp
qed

lemma ext_canonical:
  assumes "decode_extension_field32 P E bs = Ok (x, r)"
  shows "\<exists>e. encode_extension_field32 P E x = Ok e \<and> bs = e @ r"
proof -
  from assms obtain xs where xs: "decode_n (ext_dimension E) (decode_prime_field32 P) bs = Ok (xs, r)"
    and "from_basis_coefficients E xs = Some x"
    by (auto simp: decode_extension_field32_def elim!: dbind_OkE split: option.splits)
  with base.n_canonical [OF xs] show ?thesis
    by (auto simp: encode_extension_field32_def from_basis_iff)
qed

lemma digest_round_trip:
  "length d = 8 \<Longrightarrow>
     round_trips (encode_iter (encode_prime_field32 P) d) (decode_n 8 (decode_prime_field32 P)) d"
  by (rule base.iter_round_trip_n) (simp_all add: list_all_iff)

lemma digest_canonical:
  "decode_n 8 (decode_prime_field32 P) bs = Ok (d, r) \<Longrightarrow>
     length d = 8 \<and> (\<exists>e. encode_iter (encode_prime_field32 P) d = Ok e \<and> bs = e @ r)"
  using base.n_canonical [of 8 bs d r] by auto

end

text \<open>
  \<open>stark_codec C wf\<close>: the three element codecs of a configuration are canonical, digests
  being the values that satisfy \<open>wf\<close>. This is all the proof codec relies on.
\<close>

locale stark_codec =
  base: canonical_codec "encode_base_field C" "decode_base_field C" "\<lambda>_. True" +
  ext: canonical_codec "encode_extension_field C" "decode_extension_field C" "\<lambda>_. True" +
  digest: canonical_codec "encode_digest C" "decode_digest C" wf_digest
  for C :: "('f, 'ef, 'd) codec_config" and wf_digest :: "'d \<Rightarrow> bool"
begin

lemma base_iter: "n = length xs \<Longrightarrow> round_trips (encode_base_field_iter C xs) (decode_base_field_n C n) xs"
  unfolding config_codec_defs by (rule base.iter_round_trip_n) (simp_all add: list_all_iff)

lemma ext_iter: "n = length xs \<Longrightarrow> round_trips (encode_extension_field_iter C xs) (decode_extension_field_n C n) xs"
  unfolding config_codec_defs by (rule ext.iter_round_trip_n) (simp_all add: list_all_iff)

lemma digest_iter:
  "n = length xs \<Longrightarrow> list_all wf_digest xs \<Longrightarrow> round_trips (encode_digest_iter C xs) (decode_digest_n C n) xs"
  unfolding config_codec_defs by (rule digest.iter_round_trip_n)

lemma base_vec:
  "length xs < 2 ^ 32 \<Longrightarrow> round_trips (encode_base_field_slice C xs) (decode_base_field_vec C) xs"
  unfolding encode_base_field_slice_def decode_base_field_vec_def
  by (intro round_trips_then [OF usize_codec.round_trip] base_iter) simp_all

lemma ext_vec:
  "length xs < 2 ^ 32 \<Longrightarrow> round_trips (encode_extension_field_slice C xs) (decode_extension_field_vec C) xs"
  unfolding encode_extension_field_slice_def decode_extension_field_vec_def
  by (intro round_trips_then [OF usize_codec.round_trip] ext_iter) simp_all

lemma digest_vec:
  "length xs < 2 ^ 32 \<Longrightarrow> list_all wf_digest xs \<Longrightarrow>
     round_trips (encode_digest_slice C xs) (decode_digest_vec C) xs"
  unfolding encode_digest_slice_def decode_digest_vec_def
  by (intro round_trips_then [OF usize_codec.round_trip] digest_iter) simp_all

lemma base_n_canonical:
  "decode_base_field_n C n bs = Ok (xs, r) \<Longrightarrow>
     length xs = n \<and> (\<exists>e. encode_base_field_iter C xs = Ok e \<and> bs = e @ r)"
  using base.n_canonical [of n bs xs r] by (simp add: config_codec_defs)

lemma ext_n_canonical:
  "decode_extension_field_n C n bs = Ok (xs, r) \<Longrightarrow>
     length xs = n \<and> (\<exists>e. encode_extension_field_iter C xs = Ok e \<and> bs = e @ r)"
  using ext.n_canonical [of n bs xs r] by (simp add: config_codec_defs)

lemma digest_n_canonical:
  "decode_digest_n C n bs = Ok (xs, r) \<Longrightarrow>
     length xs = n \<and> list_all wf_digest xs \<and> (\<exists>e. encode_digest_iter C xs = Ok e \<and> bs = e @ r)"
  using digest.n_canonical [of n bs xs r] by (simp add: config_codec_defs)

lemma base_vec_canonical:
  "decode_base_field_vec C bs = Ok (xs, r) \<Longrightarrow>
     length xs < 2 ^ 32 \<and> (\<exists>e. encode_base_field_slice C xs = Ok e \<and> bs = e @ r)"
  by (force simp: decode_base_field_vec_def encode_base_field_slice_def enc_then_def
        elim!: dbind_OkE dest!: usize_codec.canonical base_n_canonical)

lemma ext_vec_canonical:
  "decode_extension_field_vec C bs = Ok (xs, r) \<Longrightarrow>
     length xs < 2 ^ 32 \<and> (\<exists>e. encode_extension_field_slice C xs = Ok e \<and> bs = e @ r)"
  by (force simp: decode_extension_field_vec_def encode_extension_field_slice_def enc_then_def
        elim!: dbind_OkE dest!: usize_codec.canonical ext_n_canonical)

lemma digest_vec_canonical:
  "decode_digest_vec C bs = Ok (xs, r) \<Longrightarrow>
     length xs < 2 ^ 32 \<and> list_all wf_digest xs \<and> (\<exists>e. encode_digest_slice C xs = Ok e \<and> bs = e @ r)"
  by (force simp: decode_digest_vec_def encode_digest_slice_def enc_then_def
        elim!: dbind_OkE dest!: usize_codec.canonical digest_n_canonical)

end

sublocale extension_field32 \<subseteq> baby_bear: stark_codec "baby_bear_poseidon2_codec P E" "\<lambda>d. length d = 8"
  by unfold_locales
    (simp_all add: baby_bear_poseidon2_codec_def field_round_trip field_canonical
       ext_round_trip ext_canonical digest_round_trip digest_canonical)

section \<open>BabyBear\<close>

text \<open>
  The field is a parameter of everything above. Here it is given by the canonical
  representatives of BabyBear, the residues below \<open>2 ^ 31 - 2 ^ 27 + 1\<close>, with extension
  elements as four coefficients, and the laws are discharged for it.
\<close>

typedef baby_bear = "{n :: nat. n < 2013265921}"
  by (rule exI [of _ 0]) simp

definition baby_bear_ops :: "baby_bear prime_field32_ops" where
  "baby_bear_ops =
     \<lparr>order_u32 = 2013265921, as_canonical_u32 = Rep_baby_bear,
      from_u32 = (\<lambda>n. Abs_baby_bear (n mod 2013265921))\<rparr>"

type_synonym baby_bear4 = "baby_bear \<times> baby_bear \<times> baby_bear \<times> baby_bear"

definition baby_bear4_ops :: "(baby_bear, baby_bear4) basis_ops" where
  "baby_bear4_ops =
     \<lparr>ext_dimension = 4,
      as_basis_coefficients = (\<lambda>(a, b, c, d). [a, b, c, d]),
      from_basis_coefficients = (\<lambda>xs. case xs of [a, b, c, d] \<Rightarrow> Some (a, b, c, d) | _ \<Rightarrow> None)\<rparr>"

lemma Rep_baby_bear_less: "Rep_baby_bear x < 2013265921"
  using Rep_baby_bear [of x] by simp

lemma Rep_Abs_baby_bear: "n < 2013265921 \<Longrightarrow> Rep_baby_bear (Abs_baby_bear n) = n"
  by (simp add: Abs_baby_bear_inverse)

interpretation baby_bear_field: extension_field32 baby_bear_ops baby_bear4_ops
  by unfold_locales
    (auto simp: baby_bear_ops_def baby_bear4_ops_def Rep_baby_bear_less Rep_Abs_baby_bear
       Rep_baby_bear_inverse split: list.splits)

end
