(* ===== verification/ProofTypes.thy ===== *)
theory ProofTypes
  imports Prelude
begin

text \<open>
  The proof object of \<open>proof.rs\<close>. The type parameters are the base field \<open>'f\<close>, the
  extension field \<open>'ef\<close> and the digest \<open>'d\<close> of the protocol configuration. A field
  name that two structs of the source share carries a prefix here. Fixed-size arrays
  \<open>[EF; 2]\<close> and \<open>[EF; 3]\<close> are tuples.
\<close>

record 'd trace_vdata =
  log_height :: nat
  cached_commitments :: "'d list"

record 'ef gkr_layer_claims =
  p_xi_0 :: 'ef
  p_xi_1 :: 'ef
  q_xi_0 :: 'ef
  q_xi_1 :: 'ef

record ('f, 'ef) gkr_proof =
  logup_pow_witness :: 'f
  q0_claim :: 'ef
  claims_per_layer :: "'ef gkr_layer_claims list"
  sumcheck_polys :: "('ef \<times> 'ef \<times> 'ef) list list"

record 'ef batch_constraint_proof =
  numerator_term_per_air :: "'ef list"
  denominator_term_per_air :: "'ef list"
  batch_univariate_round_coeffs :: "'ef list"
  batch_sumcheck_round_polys :: "'ef list list"
  column_openings :: "'ef list list list"

record 'ef stacking_proof =
  stacking_univariate_round_coeffs :: "'ef list"
  stacking_sumcheck_round_polys :: "('ef \<times> 'ef) list"
  stacking_openings :: "'ef list list"

record ('f, 'ef, 'd) whir_proof =
  mu_pow_witness :: 'f
  whir_sumcheck_polys :: "('ef \<times> 'ef) list"
  codeword_commits :: "'d list"
  ood_values :: "'ef list"
  folding_pow_witnesses :: "'f list"
  query_phase_pow_witnesses :: "'f list"
  initial_round_opened_rows :: "'f list list list list"
  initial_round_merkle_proofs :: "'d list list list"
  codeword_opened_values :: "'ef list list list"
  codeword_merkle_proofs :: "'d list list list"
  final_poly :: "'ef list"

record ('f, 'ef, 'd) stark_proof =
  common_main_commit :: 'd
  proof_trace_vdata :: "'d trace_vdata option list"
  proof_public_values :: "'f list list"
  proof_gkr :: "('f, 'ef) gkr_proof"
  proof_batch_constraint :: "'ef batch_constraint_proof"
  proof_stacking :: "'ef stacking_proof"
  proof_whir :: "('f, 'ef, 'd) whir_proof"

text \<open>
  \<open>column_openings_by_rot\<close>: with rotations, the openings come in pairs
  \<open>(col, rot)\<close>; without, the rotated claim is zero. \<open>chunks_exact(2)\<close> drops a last
  unpaired element.
\<close>

fun pair_up :: "'a list \<Rightarrow> ('a \<times> 'a) list" where
  "pair_up (x # y # xs) = (x, y) # pair_up xs"
| "pair_up _ = []"

definition column_openings_by_rot :: "('ef::zero) list \<Rightarrow> bool \<Rightarrow> ('ef \<times> 'ef) list" where
  "column_openings_by_rot openings need_rot =
     (if need_rot then pair_up openings else map (\<lambda>claim. (claim, 0)) openings)"

lemma length_pair_up: "length (pair_up xs) = length xs div 2"
  by (induction xs rule: pair_up.induct) auto

lemma pair_up_nth: "i < length xs div 2 \<Longrightarrow> pair_up xs ! i = (xs ! (2 * i), xs ! (2 * i + 1))"
proof (induction xs arbitrary: i rule: pair_up.induct)
  case (1 x y xs)
  then show ?case by (cases i) auto
qed auto

lemma length_column_openings_by_rot:
  "length (column_openings_by_rot xs need_rot) = (if need_rot then length xs div 2 else length xs)"
  by (simp add: column_openings_by_rot_def length_pair_up)

end
