(* ===== verification/ProofCodec.thy ===== *)
theory ProofCodec
  imports FieldCodec ProofTypes
begin

text \<open>
  Serialisation of proofs (\<open>proof.rs\<close>): one encoder and one decoder per struct of the
  proof. The parts of the format that are not plain sequences are the presence bitmap of
  the trace data, the lengths that the decoder derives from other lengths, and the Merkle
  depths of the WHIR rounds, which decrease by one per round.
\<close>

section \<open>Loops whose body depends on the position\<close>

fun decode_each :: "('b \<Rightarrow> 'a decoder) \<Rightarrow> 'b list \<Rightarrow> 'a list decoder" where
  "decode_each f [] = dret []"
| "decode_each f (b # bs) = dbind (f b) (\<lambda>x. dbind (decode_each f bs) (\<lambda>xs. dret (x # xs)))"

definition enc_guard :: "(unit, io_error) res \<Rightarrow> bytes_result" where
  "enc_guard m = rbind m (\<lambda>_. Ok [])"

lemma each_round_trip:
  "list_all2 (\<lambda>b x. round_trips (enc x) (f b) x) bs xs \<Longrightarrow>
     round_trips (encode_iter enc xs) (decode_each f bs) xs"
proof (induction rule: list_all2_induct)
  case (Cons b bs x xs)
  then show ?case
    by simp (rule round_trips_then, assumption, erule round_trips_last, simp)
qed (simp add: round_trip_intros)

lemma each_canonical:
  assumes "\<And>b inp x r. b \<in> set bs \<Longrightarrow> f b inp = Ok (x, r) \<Longrightarrow> Q b x \<and> (\<exists>e. enc x = Ok e \<and> inp = e @ r)"
    and "decode_each f bs inp = Ok (xs, r)"
  shows "list_all2 Q bs xs \<and> (\<exists>e. encode_iter enc xs = Ok e \<and> inp = e @ r)"
  using assms
proof (induction bs arbitrary: inp xs)
  case (Cons b bs)
  from Cons.prems(2) obtain x r1 ys where x: "f b inp = Ok (x, r1)"
    and ys: "decode_each f bs r1 = Ok (ys, r)" and xs: "xs = x # ys"
    by (auto elim!: dbind_OkE)
  have "list_all2 Q bs ys \<and> (\<exists>e. encode_iter enc ys = Ok e \<and> r1 = e @ r)"
  proof (rule Cons.IH [OF _ ys])
    show "Q b' x' \<and> (\<exists>e. enc x' = Ok e \<and> inp' = e @ r')"
      if "b' \<in> set bs" "f b' inp' = Ok (x', r')" for b' inp' x' r'
      using that by (intro Cons.prems(1)) simp_all
  qed
  moreover from x have "Q b x \<and> (\<exists>e. enc x = Ok e \<and> inp = e @ r1)"
    by (intro Cons.prems(1)) simp_all
  ultimately show ?case
    using xs by (auto simp: enc_then_def)
qed simp

section \<open>TraceVData and the presence bitmap\<close>

definition encode_trace_vdata :: "('f, 'ef, 'd) codec_config \<Rightarrow> 'd trace_vdata \<Rightarrow> bytes_result" where
  "encode_trace_vdata C v =
     enc_then (encode_usize (log_height v)) (encode_digest_slice C (cached_commitments v))"

definition decode_trace_vdata :: "('f, 'ef, 'd) codec_config \<Rightarrow> 'd trace_vdata decoder" where
  "decode_trace_vdata C =
     dbind decode_usize (\<lambda>lh. dbind (decode_digest_vec C) (\<lambda>cs.
       dret \<lparr>log_height = lh, cached_commitments = cs\<rparr>))"

fun chunks8 :: "'a list \<Rightarrow> 'a list list" where
  "chunks8 [] = []"
| "chunks8 (x # xs) = take 8 (x # xs) # chunks8 (drop 7 xs)"

definition bitmap_byte :: "'a option list \<Rightarrow> u8" where
  "bitmap_byte chunk =
     fold (\<lambda>(i, vdata) ret. ret OR push_bit i (if vdata \<noteq> None then 1 else 0)) (enumerated chunk) 0"

definition flatten :: "'a option list \<Rightarrow> 'a list" where
  "flatten vs = map the (filter (\<lambda>v. v \<noteq> None) vs)"

definition encode_trace_vdatas ::
    "('f, 'ef, 'd) codec_config \<Rightarrow> 'd trace_vdata option list \<Rightarrow> bytes_result" where
  "encode_trace_vdatas C vs =
     enc_then (encode_usize (length vs))
     (enc_then (encode_iter (\<lambda>chunk. encode_u8 (bitmap_byte chunk)) (chunks8 vs))
     (encode_iter (encode_trace_vdata C) (flatten vs)))"

text \<open>
  The bits of one bitmap byte, from bit \<open>i\<close> on: once \<open>num_airs\<close> entries are there, the
  remaining bits must be zero and the loop over the byte ends.
\<close>

fun decode_vdata_bits ::
    "('f, 'ef, 'd) codec_config \<Rightarrow> nat \<Rightarrow> u8 \<Rightarrow> nat list \<Rightarrow> 'd trace_vdata option list
       \<Rightarrow> 'd trace_vdata option list decoder" where
  "decode_vdata_bits C num_airs byte [] acc = dret acc"
| "decode_vdata_bits C num_airs byte (i # is) acc =
     (if num_airs \<le> length acc then
        (if drop_bit i byte \<noteq> 0 then dfail PaddingBitsSet else dret acc)
      else if byte AND push_bit i 1 \<noteq> 0 then
        dbind (decode_trace_vdata C) (\<lambda>v. decode_vdata_bits C num_airs byte is (acc @ [Some v]))
      else decode_vdata_bits C num_airs byte is (acc @ [None]))"

fun decode_vdata_bytes ::
    "('f, 'ef, 'd) codec_config \<Rightarrow> nat \<Rightarrow> u8 list \<Rightarrow> 'd trace_vdata option list
       \<Rightarrow> 'd trace_vdata option list decoder" where
  "decode_vdata_bytes C num_airs [] acc = dret acc"
| "decode_vdata_bytes C num_airs (byte # bytes) acc =
     dbind (decode_vdata_bits C num_airs byte [0..<8] acc) (decode_vdata_bytes C num_airs bytes)"

definition decode_trace_vdatas ::
    "('f, 'ef, 'd) codec_config \<Rightarrow> 'd trace_vdata option list decoder" where
  "decode_trace_vdatas C =
     dbind decode_usize (\<lambda>num_airs.
     dbind (decode_n ((num_airs + 7) div 8) decode_u8) (\<lambda>bitmap.
     decode_vdata_bytes C num_airs bitmap []))"

section \<open>GKR proof\<close>

definition encode_gkr_layer_claims :: "('f, 'ef, 'd) codec_config \<Rightarrow> 'ef gkr_layer_claims \<Rightarrow> bytes_result" where
  "encode_gkr_layer_claims C c =
     enc_then (encode_extension_field C (p_xi_0 c))
     (enc_then (encode_extension_field C (p_xi_1 c))
     (enc_then (encode_extension_field C (q_xi_0 c))
     (encode_extension_field C (q_xi_1 c))))"

definition decode_gkr_layer_claims :: "('f, 'ef, 'd) codec_config \<Rightarrow> 'ef gkr_layer_claims decoder" where
  "decode_gkr_layer_claims C =
     dbind (decode_extension_field C) (\<lambda>p0. dbind (decode_extension_field C) (\<lambda>p1.
     dbind (decode_extension_field C) (\<lambda>q0. dbind (decode_extension_field C) (\<lambda>q1.
       dret \<lparr>p_xi_0 = p0, p_xi_1 = p1, q_xi_0 = q0, q_xi_1 = q1\<rparr>))))"

definition encode_ext3 :: "('f, 'ef, 'd) codec_config \<Rightarrow> 'ef \<times> 'ef \<times> 'ef \<Rightarrow> bytes_result" where
  "encode_ext3 C t = (case t of (a, b, c) \<Rightarrow> encode_extension_field_iter C [a, b, c])"

definition decode_ext3 :: "('f, 'ef, 'd) codec_config \<Rightarrow> ('ef \<times> 'ef \<times> 'ef) decoder" where
  "decode_ext3 C =
     dbind (decode_extension_field C) (\<lambda>a. dbind (decode_extension_field C) (\<lambda>b.
     dbind (decode_extension_field C) (\<lambda>c. dret (a, b, c))))"

definition encode_ext2 :: "('f, 'ef, 'd) codec_config \<Rightarrow> 'ef \<times> 'ef \<Rightarrow> bytes_result" where
  "encode_ext2 C t = (case t of (a, b) \<Rightarrow> encode_extension_field_iter C [a, b])"

definition decode_ext2 :: "('f, 'ef, 'd) codec_config \<Rightarrow> ('ef \<times> 'ef) decoder" where
  "decode_ext2 C =
     dbind (decode_extension_field C) (\<lambda>a. dbind (decode_extension_field C) (\<lambda>b. dret (a, b)))"

definition encode_gkr_proof :: "('f, 'ef, 'd) codec_config \<Rightarrow> ('f, 'ef) gkr_proof \<Rightarrow> bytes_result" where
  "encode_gkr_proof C g =
     enc_then (encode_base_field C (logup_pow_witness g))
     (enc_then (encode_extension_field C (q0_claim g))
     (enc_then (encode_slice (encode_gkr_layer_claims C) (claims_per_layer g))
     (encode_iter (encode_iter (encode_ext3 C)) (sumcheck_polys g))))"

definition decode_gkr_proof :: "('f, 'ef, 'd) codec_config \<Rightarrow> ('f, 'ef) gkr_proof decoder" where
  "decode_gkr_proof C =
     dbind (decode_base_field C) (\<lambda>w.
     dbind (decode_extension_field C) (\<lambda>q0.
     dbind (decode_vec (decode_gkr_layer_claims C)) (\<lambda>claims.
     dbind (decode_each (\<lambda>round_idx_minus_one. decode_n (round_idx_minus_one + 1) (decode_ext3 C))
              [0..<length claims - 1]) (\<lambda>polys.
       dret \<lparr>logup_pow_witness = w, q0_claim = q0, claims_per_layer = claims, sumcheck_polys = polys\<rparr>))))"

section \<open>Batch constraint and stacking proofs\<close>

definition encode_batch_proof :: "('f, 'ef, 'd) codec_config \<Rightarrow> 'ef batch_constraint_proof \<Rightarrow> bytes_result" where
  "encode_batch_proof C b =
     (let polys = batch_sumcheck_round_polys b; n_max = length polys in
      enc_then (encode_extension_field_slice C (numerator_term_per_air b))
      (enc_then (encode_extension_field_iter C (denominator_term_per_air b))
      (enc_then (encode_extension_field_slice C (batch_univariate_round_coeffs b))
      (enc_then (encode_usize n_max)
      (enc_then
        (if 0 < n_max
         then enc_then (encode_usize (length (polys ! 0)))
                (encode_iter (encode_extension_field_iter C) polys)
         else Ok [])
      (encode_iter (\<lambda>parts. enc_then (encode_usize (length parts))
                      (encode_iter (encode_extension_field_slice C) parts))
         (column_openings b)))))))"

definition decode_batch_proof :: "('f, 'ef, 'd) codec_config \<Rightarrow> 'ef batch_constraint_proof decoder" where
  "decode_batch_proof C =
     dbind (decode_extension_field_vec C) (\<lambda>numer.
     dbind (decode_extension_field_n C (length numer)) (\<lambda>denom.
     dbind (decode_extension_field_vec C) (\<lambda>coeffs.
     dbind decode_usize (\<lambda>n_max.
     dbind (if 0 < n_max
            then dbind decode_usize (\<lambda>max_degree_plus_one.
                   decode_n n_max (decode_extension_field_n C max_degree_plus_one))
            else dret []) (\<lambda>polys.
     dbind (decode_n (length numer)
              (dbind decode_usize (\<lambda>num_parts. decode_n num_parts (decode_extension_field_vec C)))) (\<lambda>cols.
       dret \<lparr>numerator_term_per_air = numer, denominator_term_per_air = denom,
             batch_univariate_round_coeffs = coeffs, batch_sumcheck_round_polys = polys,
             column_openings = cols\<rparr>))))))"

definition encode_stacking_proof :: "('f, 'ef, 'd) codec_config \<Rightarrow> 'ef stacking_proof \<Rightarrow> bytes_result" where
  "encode_stacking_proof C s =
     enc_then (encode_extension_field_slice C (stacking_univariate_round_coeffs s))
     (enc_then (encode_usize (length (stacking_sumcheck_round_polys s)))
     (enc_then (encode_iter (encode_ext2 C) (stacking_sumcheck_round_polys s))
     (enc_then (encode_usize (length (stacking_openings s)))
     (encode_iter (encode_extension_field_slice C) (stacking_openings s)))))"

definition decode_stacking_proof :: "('f, 'ef, 'd) codec_config \<Rightarrow> 'ef stacking_proof decoder" where
  "decode_stacking_proof C =
     dbind (decode_extension_field_vec C) (\<lambda>coeffs.
     dbind decode_usize (\<lambda>num_rounds.
     dbind (decode_n num_rounds (decode_ext2 C)) (\<lambda>polys.
     dbind decode_usize (\<lambda>num_openings.
     dbind (decode_n num_openings (decode_extension_field_vec C)) (\<lambda>openings.
       dret \<lparr>stacking_univariate_round_coeffs = coeffs, stacking_sumcheck_round_polys = polys,
             stacking_openings = openings\<rparr>)))))"

section \<open>WHIR proof\<close>

text \<open>
  The first depth is read off the first Merkle proof, the width of a commitment off its
  first opened row; both index into vectors that may be empty.
\<close>

definition first_proof_len :: "'d list list list \<Rightarrow> (nat, io_error) res" where
  "first_proof_len proofs = rbind (index proofs 0) (\<lambda>ps. rbind (index ps 0) (\<lambda>p. Ok (length p)))"

definition commit_width :: "'f list list list \<Rightarrow> nat" where
  "commit_width commit_rows =
     (case commit_rows of
        [] \<Rightarrow> 0
      | q # _ \<Rightarrow> (case q of [] \<Rightarrow> 0 | row # _ \<Rightarrow> length row))"

definition encode_opened_rows ::
    "('f, 'ef, 'd) codec_config \<Rightarrow> nat \<Rightarrow> 'f list list list \<times> nat \<Rightarrow> bytes_result" where
  "encode_opened_rows C num_queries = (\<lambda>(commit_rows, width).
     enc_then (enc_guard (assert_that (length commit_rows = num_queries)))
       (encode_iter (encode_iter (\<lambda>row.
          enc_then (enc_guard (assert_that (length row = width))) (encode_base_field_iter C row)))
        commit_rows))"

definition encode_initial_round :: "('f, 'ef, 'd) codec_config \<Rightarrow> ('f, 'ef, 'd) whir_proof \<Rightarrow> bytes_result" where
  "encode_initial_round C w =
     (let rows = initial_round_opened_rows w;
          proofs = initial_round_merkle_proofs w;
          num_queries = length (rows ! 0);
          widths = map commit_width rows in
      if 0 < num_queries then
        rbind (first_proof_len proofs) (\<lambda>merkle_depth.
          enc_then (encode_usize merkle_depth)
          (enc_then (encode_iter encode_usize widths)
          (enc_then (encode_iter (encode_opened_rows C num_queries) (zip rows widths))
          (encode_iter (encode_iter (encode_digest_iter C)) proofs))))
      else Ok [])"

definition encode_whir_proof :: "('f, 'ef, 'd) codec_config \<Rightarrow> ('f, 'ef, 'd) whir_proof \<Rightarrow> bytes_result" where
  "encode_whir_proof C w =
     (let num_sumcheck_rounds = length (whir_sumcheck_polys w);
          num_whir_rounds = length (codeword_commits w) + 1;
          rows = initial_round_opened_rows w in
      enc_then (encode_base_field C (mu_pow_witness w))
      (enc_then (encode_usize num_sumcheck_rounds)
      (enc_then (encode_iter (encode_ext2 C) (whir_sumcheck_polys w))
      (enc_then (encode_digest_slice C (codeword_commits w))
      (enc_then (encode_extension_field_iter C (ood_values w))
      (enc_then (enc_guard (ensure_that (num_sumcheck_rounds mod num_whir_rounds = 0) SumcheckRoundsNotMultiple))
      (enc_then (enc_guard (assert_that (num_whir_rounds = length (query_phase_pow_witnesses w))))
      (enc_then (encode_base_field_iter C (folding_pow_witnesses w))
      (enc_then (encode_base_field_iter C (query_phase_pow_witnesses w))
      (enc_then (enc_guard (assert_that (0 < length rows)))
      (enc_then (encode_usize (length rows))
      (enc_then (encode_usize (length (rows ! 0)))
      (enc_then (encode_initial_round C w)
      (enc_then (encode_iter (\<lambda>round. enc_then (encode_usize (length round))
                    (encode_iter (encode_extension_field_iter C) round)) (codeword_opened_values w))
      (enc_then (rbind (if 1 < num_whir_rounds \<and> 0 < length (rows ! 0)
                        then first_proof_len (codeword_merkle_proofs w) else Ok 0) encode_usize)
      (enc_then (encode_iter (encode_iter (encode_digest_iter C)) (codeword_merkle_proofs w))
      (encode_extension_field_slice C (final_poly w))))))))))))))))))"

text \<open>One Merkle proof list per non-initial round; the depth is decremented after each round.\<close>

fun decode_codeword_proofs ::
    "('f, 'ef, 'd) codec_config \<Rightarrow> nat \<Rightarrow> nat list \<Rightarrow> 'd list list list decoder" where
  "decode_codeword_proofs C merkle_depth [] = dret []"
| "decode_codeword_proofs C merkle_depth (num_queries # rest) =
     dbind (decode_n num_queries (decode_digest_n C merkle_depth)) (\<lambda>merkle_proof.
     dbind (dlift (sub64 merkle_depth 1)) (\<lambda>next_depth.
     dbind (decode_codeword_proofs C next_depth rest) (\<lambda>proofs.
       dret (merkle_proof # proofs))))"

definition decode_whir_proof :: "('f, 'ef, 'd) codec_config \<Rightarrow> ('f, 'ef, 'd) whir_proof decoder" where
  "decode_whir_proof C =
     dbind (decode_base_field C) (\<lambda>mu_pow.
     dbind decode_usize (\<lambda>num_sumcheck_rounds.
     dbind (decode_n num_sumcheck_rounds (decode_ext2 C)) (\<lambda>polys.
     dbind (decode_digest_vec C) (\<lambda>commits.
     let num_whir_rounds = length commits + 1 in
     dbind (dlift (ensure_that (num_sumcheck_rounds mod num_whir_rounds = 0) SumcheckRoundsNotMultiple)) (\<lambda>_.
     let k_whir = num_sumcheck_rounds div num_whir_rounds in
     dbind (decode_extension_field_n C (num_whir_rounds - 1)) (\<lambda>ood.
     dbind (decode_base_field_n C num_sumcheck_rounds) (\<lambda>folding.
     dbind (decode_base_field_n C num_whir_rounds) (\<lambda>query_phase.
     dbind decode_usize (\<lambda>num_commits.
     dbind (dlift (ensure_that (num_commits \<noteq> 0) NumCommitsZero)) (\<lambda>_.
     dbind decode_usize (\<lambda>num_queries.
     dbind (dlift (shl64 1 k_whir)) (\<lambda>k_whir_exp.
     dbind (if 0 < num_queries then decode_usize else dret 0) (\<lambda>merkle_depth.
     dbind (if 0 < num_queries then decode_n num_commits decode_usize else dret []) (\<lambda>widths.
     dbind (decode_each (\<lambda>width. decode_n num_queries (decode_n k_whir_exp (decode_base_field_n C width)))
              (widths @ replicate (num_commits - length widths) 0)) (\<lambda>rows.
     dbind (decode_n num_commits (decode_n num_queries (decode_digest_n C merkle_depth))) (\<lambda>proofs.
     dbind (decode_n (num_whir_rounds - 1) (dbind decode_usize (\<lambda>n.
              decode_n n (decode_extension_field_n C k_whir_exp)))) (\<lambda>opened.
     dbind decode_usize (\<lambda>codeword_depth.
     dbind (decode_codeword_proofs C codeword_depth (map length opened)) (\<lambda>codeword_proofs.
     dbind (decode_extension_field_vec C) (\<lambda>final.
       dret \<lparr>mu_pow_witness = mu_pow, whir_sumcheck_polys = polys, codeword_commits = commits,
             ood_values = ood, folding_pow_witnesses = folding, query_phase_pow_witnesses = query_phase,
             initial_round_opened_rows = rows, initial_round_merkle_proofs = proofs,
             codeword_opened_values = opened, codeword_merkle_proofs = codeword_proofs,
             final_poly = final\<rparr>))))))))))))))))))))"

section \<open>The whole proof\<close>

definition codec_version :: u32 where
  "codec_version = 3"

definition encode_proof :: "('f, 'ef, 'd) codec_config \<Rightarrow> ('f, 'ef, 'd) stark_proof \<Rightarrow> bytes_result" where
  "encode_proof C p =
     enc_then (encode_u32 codec_version)
     (enc_then (encode_digest C (common_main_commit p))
     (enc_then (encode_trace_vdatas C (proof_trace_vdata p))
     (enc_then (encode_usize (length (proof_public_values p)))
     (enc_then (encode_iter (encode_base_field_slice C) (proof_public_values p))
     (enc_then (encode_gkr_proof C (proof_gkr p))
     (enc_then (encode_batch_proof C (proof_batch_constraint p))
     (enc_then (encode_stacking_proof C (proof_stacking p))
     (encode_whir_proof C (proof_whir p)))))))))"

definition decode_proof :: "('f, 'ef, 'd) codec_config \<Rightarrow> ('f, 'ef, 'd) stark_proof decoder" where
  "decode_proof C =
     dbind decode_u32 (\<lambda>version.
     dbind (dlift (ensure_that (version = codec_version)
              (CodecVersionMismatch (unat codec_version) (unat version)))) (\<lambda>_.
     dbind (decode_digest C) (\<lambda>commit.
     dbind (decode_trace_vdatas C) (\<lambda>vdata.
     dbind decode_usize (\<lambda>num_pvs.
     dbind (decode_n num_pvs (decode_base_field_vec C)) (\<lambda>pvs.
     dbind (decode_gkr_proof C) (\<lambda>gkr.
     dbind (decode_batch_proof C) (\<lambda>batch.
     dbind (decode_stacking_proof C) (\<lambda>stacking.
     dbind (decode_whir_proof C) (\<lambda>whir.
       dret \<lparr>common_main_commit = commit, proof_trace_vdata = vdata, proof_public_values = pvs,
             proof_gkr = gkr, proof_batch_constraint = batch, proof_stacking = stacking,
             proof_whir = whir\<rparr>))))))))))"

end
