(* ===== verification/ProofRoundTrip.thy ===== *)
theory ProofRoundTrip
  imports ProofCodec
begin

text \<open>
  What \<open>proof.rs\<close> promises of the proof codec: every well-shaped proof is read back from
  its own encoding, and (but for the Merkle depth of a WHIR proof without later rounds)
  the decoder accepts only encodings. Both are proved for any configuration that
  satisfies \<open>stark_codec\<close>; the laws of each struct's codec are sublocale facts of it.
\<close>

section \<open>Well-shaped proofs\<close>

definition wf_trace_vdata :: "('d \<Rightarrow> bool) \<Rightarrow> 'd trace_vdata \<Rightarrow> bool" where
  "wf_trace_vdata wfd v \<longleftrightarrow>
     log_height v < 2 ^ 32 \<and> length (cached_commitments v) < 2 ^ 32 \<and> list_all wfd (cached_commitments v)"

definition wf_trace_vdatas :: "('d \<Rightarrow> bool) \<Rightarrow> 'd trace_vdata option list \<Rightarrow> bool" where
  "wf_trace_vdatas wfd vs \<longleftrightarrow> length vs < 2 ^ 32 \<and> list_all (pred_option (wf_trace_vdata wfd)) vs"

definition wf_gkr_proof :: "('f, 'ef) gkr_proof \<Rightarrow> bool" where
  "wf_gkr_proof g \<longleftrightarrow>
     length (claims_per_layer g) < 2 ^ 32 \<and>
     map length (sumcheck_polys g) = [1..<length (claims_per_layer g)]"

definition wf_batch_proof :: "'ef batch_constraint_proof \<Rightarrow> bool" where
  "wf_batch_proof b \<longleftrightarrow>
     length (numerator_term_per_air b) < 2 ^ 32 \<and>
     length (denominator_term_per_air b) = length (numerator_term_per_air b) \<and>
     length (batch_univariate_round_coeffs b) < 2 ^ 32 \<and>
     length (batch_sumcheck_round_polys b) < 2 ^ 32 \<and>
     list_all (\<lambda>poly. length poly = length (batch_sumcheck_round_polys b ! 0) \<and> length poly < 2 ^ 32)
       (batch_sumcheck_round_polys b) \<and>
     length (column_openings b) = length (numerator_term_per_air b) \<and>
     list_all (\<lambda>parts. length parts < 2 ^ 32 \<and> list_all (\<lambda>part. length part < 2 ^ 32) parts)
       (column_openings b)"

definition wf_stacking_proof :: "'ef stacking_proof \<Rightarrow> bool" where
  "wf_stacking_proof s \<longleftrightarrow>
     length (stacking_univariate_round_coeffs s) < 2 ^ 32 \<and>
     length (stacking_sumcheck_round_polys s) < 2 ^ 32 \<and>
     length (stacking_openings s) < 2 ^ 32 \<and>
     list_all (\<lambda>vals. length vals < 2 ^ 32) (stacking_openings s)"

definition wf_opened_rows :: "nat \<Rightarrow> nat \<Rightarrow> nat \<Rightarrow> 'f list list list \<Rightarrow> bool" where
  "wf_opened_rows num_queries k_exp width commit_rows \<longleftrightarrow>
     length commit_rows = num_queries \<and> width < 2 ^ 32 \<and>
     list_all (\<lambda>rows. length rows = k_exp \<and> list_all (\<lambda>row. length row = width) rows) commit_rows"

definition wf_merkle_proofs :: "('d \<Rightarrow> bool) \<Rightarrow> nat \<Rightarrow> nat \<Rightarrow> 'd list list \<Rightarrow> bool" where
  "wf_merkle_proofs wfd num_queries depth ps \<longleftrightarrow>
     length ps = num_queries \<and> list_all (\<lambda>p. length p = depth \<and> list_all wfd p) ps"

fun wf_codeword_proofs :: "('d \<Rightarrow> bool) \<Rightarrow> nat \<Rightarrow> nat list \<Rightarrow> 'd list list list \<Rightarrow> bool" where
  "wf_codeword_proofs wfd depth [] [] = True"
| "wf_codeword_proofs wfd depth (q # qs) (ps # pss) =
     (0 < depth \<and> wf_merkle_proofs wfd q depth ps \<and> wf_codeword_proofs wfd (depth - 1) qs pss)"
| "wf_codeword_proofs wfd depth _ _ = False"

definition wf_whir_proof :: "('d \<Rightarrow> bool) \<Rightarrow> ('f, 'ef, 'd) whir_proof \<Rightarrow> bool" where
  "wf_whir_proof wfd w \<longleftrightarrow>
     (let num_rounds = length (codeword_commits w) + 1;
          num_sumcheck = length (whir_sumcheck_polys w);
          k = num_sumcheck div num_rounds;
          rows = initial_round_opened_rows w;
          q = length (rows ! 0);
          opened = codeword_opened_values w;
          cw = codeword_merkle_proofs w in
      num_sumcheck < 2 ^ 32 \<and> num_rounds \<le> 2 ^ 32 \<and> list_all wfd (codeword_commits w) \<and>
      num_sumcheck mod num_rounds = 0 \<and> k < 64 \<and>
      length (ood_values w) = num_rounds - 1 \<and>
      length (folding_pow_witnesses w) = num_sumcheck \<and>
      length (query_phase_pow_witnesses w) = num_rounds \<and>
      0 < length rows \<and> length rows < 2 ^ 32 \<and> q < 2 ^ 32 \<and>
      list_all (\<lambda>cr. wf_opened_rows q (2 ^ k) (commit_width cr) cr) rows \<and>
      length (initial_round_merkle_proofs w) = length rows \<and>
      (0 < q \<longrightarrow> length (initial_round_merkle_proofs w ! 0 ! 0) < 2 ^ 32) \<and>
      list_all (wf_merkle_proofs wfd q (length (initial_round_merkle_proofs w ! 0 ! 0)))
        (initial_round_merkle_proofs w) \<and>
      length opened = num_rounds - 1 \<and>
      list_all (\<lambda>vals. length vals < 2 ^ 32 \<and> list_all (\<lambda>v. length v = 2 ^ k) vals) opened \<and>
      (1 < num_rounds \<longrightarrow> 0 < q \<and> opened ! 0 \<noteq> [] \<and> length (cw ! 0 ! 0) < 2 ^ 32) \<and>
      wf_codeword_proofs wfd (length (cw ! 0 ! 0)) (map length opened) cw \<and>
      length (final_poly w) < 2 ^ 32)"

definition wf_proof :: "('d \<Rightarrow> bool) \<Rightarrow> ('f, 'ef, 'd) stark_proof \<Rightarrow> bool" where
  "wf_proof wfd p \<longleftrightarrow>
     wfd (common_main_commit p) \<and> wf_trace_vdatas wfd (proof_trace_vdata p) \<and>
     length (proof_public_values p) < 2 ^ 32 \<and>
     list_all (\<lambda>pvs. length pvs < 2 ^ 32) (proof_public_values p) \<and>
     wf_gkr_proof (proof_gkr p) \<and> wf_batch_proof (proof_batch_constraint p) \<and>
     wf_stacking_proof (proof_stacking p) \<and> wf_whir_proof wfd (proof_whir p)"

section \<open>Generic facts\<close>

lemma decode_n_dret: "decode_n n (dret x) = dret (replicate n x)"
  by (induction n) (auto simp: dbind_def dret_def fun_eq_iff)

lemma decode_each_dret: "decode_each (\<lambda>_. dret x) bs = dret (map (\<lambda>_. x) bs)"
  by (induction bs) (auto simp: dbind_def dret_def fun_eq_iff)

lemma enc_guard_simps [simp]:
  "enc_guard (Ok u) = Ok []" "enc_guard (ensure_that b e) = (if b then Ok [] else Err e)"
  "enc_guard (assert_that b) = (if b then Ok [] else Panic)"
  by (auto simp: enc_guard_def ensure_that_def assert_that_def)

lemma round_trips_dlift: "g = Ok x \<Longrightarrow> round_trips m (f x) y \<Longrightarrow> round_trips m (dbind (dlift g) f) y"
  by (simp add: round_trips_def dbind_def dlift_def)

lemma round_trips_dret_left: "round_trips m (f x) y \<Longrightarrow> round_trips m (dbind (dret x) f) y"
  by (simp add: round_trips_def dbind_def dret_def)

lemma round_trips_ret: "round_trips m d x \<Longrightarrow> g x = y \<Longrightarrow> round_trips m (dbind d (\<lambda>x. dret (g x))) y"
  by (auto intro: round_trips_last)

text \<open>A length-prefixed sequence, written as the length and then the elements.\<close>

lemma prefixed_round_trip:
  assumes "length xs < 2 ^ 32" and "round_trips (encode_iter e xs) (decode_n (length xs) d) xs"
  shows "round_trips (enc_then (encode_usize (length xs)) (encode_iter e xs))
           (dbind decode_usize (\<lambda>n. decode_n n d)) xs"
  using assms by (intro round_trips_then [OF usize_codec.round_trip]) simp_all

lemma prefixed_canonical:
  assumes "dbind decode_usize (\<lambda>n. decode_n n d) bs = Ok (xs, r)"
    and "\<And>n bs xs r. decode_n n d bs = Ok (xs, r) \<Longrightarrow>
           length xs = n \<and> P xs \<and> (\<exists>b. encode_iter e xs = Ok b \<and> bs = b @ r)"
  shows "length xs < 2 ^ 32 \<and> P xs \<and>
           (\<exists>b. enc_then (encode_usize (length xs)) (encode_iter e xs) = Ok b \<and> bs = b @ r)"
proof -
  from assms(1) obtain n r1 where n: "decode_usize bs = Ok (n, r1)" and xs: "decode_n n d r1 = Ok (xs, r)"
    by (rule dbind_OkE)
  from usize_codec.canonical [OF n] assms(2) [OF xs] show ?thesis
    by (auto simp: enc_then_def)
qed

text \<open>Sequences of a codec whose elements satisfy a shape.\<close>

lemma n_round_trip:
  assumes "\<And>x. x \<in> set xs \<Longrightarrow> round_trips (e x) d x" and "n = length xs"
  shows "round_trips (encode_iter e xs) (decode_n n d) xs"
  using assms by (intro codec.iter_round_trip_n [of e d "\<lambda>x. x \<in> set xs"])
    (auto simp: codec_def list_all_iff)

lemma n_canonical_of:
  assumes "decode_n n d bs = Ok (xs, r)"
    and "\<And>bs x r. d bs = Ok (x, r) \<Longrightarrow> P x \<and> (\<exists>b. e x = Ok b \<and> bs = b @ r)"
  shows "length xs = n \<and> list_all P xs \<and> (\<exists>b. encode_iter e xs = Ok b \<and> bs = b @ r)"
  using assms(1)
proof (induction n arbitrary: bs xs)
  case (Suc n)
  then obtain x r1 ys where x: "d bs = Ok (x, r1)" and ys: "decode_n n d r1 = Ok (ys, r)" "xs = x # ys"
    by (auto elim!: dbind_OkE)
  from assms(2) [OF x] Suc.IH [OF ys(1)] ys(2) show ?case
    by (auto simp: enc_then_def)
qed simp

section \<open>The presence bitmap\<close>

lemma bit_bitmap_fold:
  "bit (fold (\<lambda>(i, v) ret. ret OR push_bit i (if v \<noteq> None then 1 else 0)) xs (a :: u8)) k \<longleftrightarrow>
     bit a k \<or> (k < 8 \<and> (\<exists>v. (k, v) \<in> set xs \<and> v \<noteq> None))"
proof (induction xs arbitrary: a)
  case (Cons x xs)
  obtain i v where x: "x = (i, v)" by force
  have "bit (a OR push_bit i (if v \<noteq> None then 1 else 0)) k \<longleftrightarrow> bit a k \<or> (k < 8 \<and> k = i \<and> v \<noteq> None)"
    by (cases "v = None") (auto simp: bit_or_iff bit_push_bit_iff bit_1_iff simp del: push_bit_of_1)
  with Cons.IH show ?case by (auto simp: x simp del: push_bit_of_1)
qed simp

lemma bit_bitmap_byte:
  "length chunk \<le> 8 \<Longrightarrow> bit (bitmap_byte chunk) k \<longleftrightarrow> k < length chunk \<and> chunk ! k \<noteq> None"
  unfolding bitmap_byte_def bit_bitmap_fold by (auto simp: enumerated_mem)

lemma chunks8_append: "length c = 8 \<Longrightarrow> chunks8 (c @ vs) = c # chunks8 vs"
  by (cases c) auto

lemma chunks8_short: "c \<noteq> [] \<Longrightarrow> length c \<le> 8 \<Longrightarrow> chunks8 c = [c]"
  by (cases c) auto

lemma length_chunks8: "length (chunks8 vs) = (length vs + 7) div 8"
proof (induction vs rule: chunks8.induct)
  case (2 x xs)
  have "length (chunks8 (x # xs)) = Suc ((length xs - 7 + 7) div 8)" using 2 by simp
  also have "\<dots> = (length (x # xs) + 7) div 8" by (cases "length xs < 7") (simp_all add: div_nat_eqI div_add_self1)
  finally show ?case .
qed simp

lemma drop_bit_bitmap_byte: "length c \<le> 8 \<Longrightarrow> drop_bit (length c) (bitmap_byte c) = 0"
  by (rule bit_word_eqI) (simp add: bit_simps bit_bitmap_byte)

lemma flatten_simps [simp]:
  "flatten [] = []" "flatten (None # vs) = flatten vs" "flatten (Some v # vs) = v # flatten vs"
  "flatten (vs @ ws) = flatten vs @ flatten ws"
  by (simp_all add: flatten_def)

lemma encode_iter_append: "encode_iter e (xs @ ys) = enc_then (encode_iter e xs) (encode_iter e ys)"
  by (induction xs) (simp_all add: enc_then_assoc)

text \<open>The encoder of a WHIR proof around the codeword depth, and of a proof before its WHIR part.\<close>

definition whir_before_depth :: "('f, 'ef, 'd) codec_config \<Rightarrow> ('f, 'ef, 'd) whir_proof \<Rightarrow> bytes_result" where
  "whir_before_depth C w =
     (let rows = initial_round_opened_rows w in
      enc_then (encode_base_field C (mu_pow_witness w))
      (enc_then (encode_usize (length (whir_sumcheck_polys w)))
      (enc_then (encode_iter (encode_ext2 C) (whir_sumcheck_polys w))
      (enc_then (encode_digest_slice C (codeword_commits w))
      (enc_then (encode_extension_field_iter C (ood_values w))
      (enc_then (encode_base_field_iter C (folding_pow_witnesses w))
      (enc_then (encode_base_field_iter C (query_phase_pow_witnesses w))
      (enc_then (encode_usize (length rows))
      (enc_then (encode_usize (length (rows ! 0)))
      (enc_then (encode_initial_round C w)
      (encode_iter (\<lambda>round. enc_then (encode_usize (length round))
                    (encode_iter (encode_extension_field_iter C) round)) (codeword_opened_values w))))))))))))"

definition whir_after_depth :: "('f, 'ef, 'd) codec_config \<Rightarrow> ('f, 'ef, 'd) whir_proof \<Rightarrow> bytes_result" where
  "whir_after_depth C w =
     enc_then (encode_iter (encode_iter (encode_digest_iter C)) (codeword_merkle_proofs w))
       (encode_extension_field_slice C (final_poly w))"

definition proof_before_whir :: "('f, 'ef, 'd) codec_config \<Rightarrow> ('f, 'ef, 'd) stark_proof \<Rightarrow> bytes_result" where
  "proof_before_whir C p =
     enc_then (encode_u32 codec_version)
     (enc_then (encode_digest C (common_main_commit p))
     (enc_then (encode_trace_vdatas C (proof_trace_vdata p))
     (enc_then (encode_usize (length (proof_public_values p)))
     (enc_then (encode_iter (encode_base_field_slice C) (proof_public_values p))
     (enc_then (encode_gkr_proof C (proof_gkr p))
     (enc_then (encode_batch_proof C (proof_batch_constraint p))
     (encode_stacking_proof C (proof_stacking p))))))))"

lemma encode_proof_split: "encode_proof C p = enc_then (proof_before_whir C p) (encode_whir_proof C (proof_whir p))"
  by (simp add: encode_proof_def proof_before_whir_def enc_then_assoc)

context stark_codec
begin

lemma vdata_round_trip:
  "wf_trace_vdata wf_digest v \<Longrightarrow> round_trips (encode_trace_vdata C v) (decode_trace_vdata C) v"
  unfolding encode_trace_vdata_def decode_trace_vdata_def
  by (intro round_trips_then [OF usize_codec.round_trip] round_trips_last [OF digest_vec])
    (auto simp: wf_trace_vdata_def intro: arg_cong [of _ _ dret])

lemma vdata_canonical:
  assumes "decode_trace_vdata C bs = Ok (v, r)"
  shows "wf_trace_vdata wf_digest v \<and> (\<exists>e. encode_trace_vdata C v = Ok e \<and> bs = e @ r)"
  using assms unfolding decode_trace_vdata_def encode_trace_vdata_def
  by (auto simp: wf_trace_vdata_def enc_then_def elim!: dbind_OkE
        dest!: usize_codec.canonical digest_vec_canonical)

lemma vdata_bits_round_trip:
  assumes "list_all (pred_option (wf_trace_vdata wf_digest)) c"
    and "\<And>i. i < length c \<Longrightarrow> bit byte (j + i) \<longleftrightarrow> c ! i \<noteq> None"
    and "drop_bit (j + length c) byte = 0" and "j + length c \<le> 8" and "length acc + length c \<le> n"
    and "j + length c = 8 \<or> length acc + length c = n"
  shows "round_trips (encode_iter (encode_trace_vdata C) (flatten c))
           (decode_vdata_bits C n byte [j..<8] acc) (acc @ c)"
  using assms
proof (induction c arbitrary: j acc)
  case Nil
  then show ?case
    by (cases "j = 8") (auto simp: upt_rec [of j] round_trips_dret)
next
  case (Cons v c)
  have j: "[j..<8] = j # [Suc j..<8]" using Cons.prems(4) by (simp add: upt_conv_Cons)
  have acc: "\<not> n \<le> length acc" using Cons.prems(5) by simp
  have v: "byte AND push_bit j 1 \<noteq> 0 \<longleftrightarrow> v \<noteq> None"
    using Cons.prems(2) [of 0] bit_iff_and_push_bit_not_eq_0 [of byte j] by simp
  have IH: "round_trips (encode_iter (encode_trace_vdata C) (flatten c))
      (decode_vdata_bits C n byte [Suc j..<8] (acc @ [v])) (acc @ v # c)"
    using Cons.IH [of "Suc j" "acc @ [v]"] Cons.prems(1,3-6)
    by (simp add: Cons.prems(2) [of "Suc _", simplified])
  show ?case
  proof (cases v)
    case None
    with IH j acc v show ?thesis by simp
  next
    case (Some x)
    with Cons.prems(1) have "round_trips (encode_trace_vdata C x) (decode_trace_vdata C) x"
      by (simp add: vdata_round_trip)
    with IH j acc v Some show ?thesis by (simp add: round_trips_then)
  qed
qed

lemma vdata_bytes_round_trip:
  assumes "list_all (pred_option (wf_trace_vdata wf_digest)) vs" and "length acc + length vs = n"
  shows "round_trips (encode_iter (encode_trace_vdata C) (flatten vs))
           (decode_vdata_bytes C n (map bitmap_byte (chunks8 vs)) acc) (acc @ vs)"
  using assms
proof (induction vs arbitrary: acc rule: chunks8.induct)
  case 1
  then show ?case by (simp add: round_trips_dret)
next
  case (2 x xs)
  let ?c = "take 8 (x # xs)" and ?rest = "drop 7 xs"
  have wfd: "list_all (pred_option (wf_trace_vdata wf_digest)) ?c"
      "list_all (pred_option (wf_trace_vdata wf_digest)) ?rest"
    using 2(2) by (auto simp: list_all_iff dest: in_set_takeD in_set_dropD)
  have "round_trips (encode_iter (encode_trace_vdata C) (flatten ?c))
      (decode_vdata_bits C n (bitmap_byte ?c) [0..<8] acc) (acc @ ?c)"
  proof (rule vdata_bits_round_trip [OF wfd(1)])
    show "drop_bit (0 + length ?c) (bitmap_byte ?c) = 0"
      unfolding add_0 by (rule drop_bit_bitmap_byte) simp
  qed (use 2(3) in \<open>auto simp: bit_bitmap_byte min_def simp del: take_Suc_Cons\<close>)
  moreover have "round_trips (encode_iter (encode_trace_vdata C) (flatten ?rest))
      (decode_vdata_bytes C n (map bitmap_byte (chunks8 ?rest)) (acc @ ?c)) ((acc @ ?c) @ ?rest)"
    using wfd(2) 2(3) by (intro 2(1)) auto
  ultimately have "round_trips (encode_iter (encode_trace_vdata C) (flatten ?c @ flatten ?rest))
      (decode_vdata_bytes C n (map bitmap_byte (chunks8 (x # xs))) acc) ((acc @ ?c) @ ?rest)"
    unfolding encode_iter_append chunks8.simps list.map decode_vdata_bytes.simps
    by (rule round_trips_then)
  moreover have "?c @ ?rest = x # xs" by simp
  ultimately show ?case
    by (simp only: append_assoc flip: flatten_simps(4))
qed

lemma trace_vdatas_round_trip:
  assumes "wf_trace_vdatas wf_digest vs"
  shows "round_trips (encode_trace_vdatas C vs) (decode_trace_vdatas C) vs"
proof -
  have map: "encode_iter (\<lambda>chunk. encode_u8 (bitmap_byte chunk)) xs = encode_iter encode_u8 (map bitmap_byte xs)"
    for xs :: "'c trace_vdata option list list"
    by (induction xs) auto
  have "round_trips (encode_iter encode_u8 (map bitmap_byte (chunks8 vs)))
      (decode_n ((length vs + 7) div 8) decode_u8) (map bitmap_byte (chunks8 vs))"
    by (rule u8_codec.iter_round_trip_n) (simp_all add: length_chunks8 list_all_iff)
  moreover have "round_trips (encode_iter (encode_trace_vdata C) (flatten vs))
      (decode_vdata_bytes C (length vs) (map bitmap_byte (chunks8 vs)) []) vs"
    using vdata_bytes_round_trip [of vs "[]" "length vs"] assms by (simp add: wf_trace_vdatas_def)
  ultimately show ?thesis
    unfolding encode_trace_vdatas_def decode_trace_vdatas_def map using assms
    by (intro round_trips_then [OF usize_codec.round_trip]) (auto simp: wf_trace_vdatas_def intro: round_trips_then)
qed

section \<open>Round trip of each struct\<close>

lemmas base_elem = base.round_trip [OF TrueI] and ext_elem = ext.round_trip [OF TrueI]

lemma layer_claims_round_trip:
  "round_trips (encode_gkr_layer_claims C c) (decode_gkr_layer_claims C) c"
  unfolding encode_gkr_layer_claims_def decode_gkr_layer_claims_def
  by (rule round_trips_then round_trips_ret ext_elem)+ simp

lemma ext3_round_trip: "round_trips (encode_ext3 C t) (decode_ext3 C) t"
  unfolding encode_ext3_def decode_ext3_def encode_extension_field_iter_def
  by (cases t, simp) ((rule round_trips_then round_trips_ret ext_elem)+, simp)

lemma ext2_round_trip: "round_trips (encode_ext2 C t) (decode_ext2 C) t"
  unfolding encode_ext2_def decode_ext2_def encode_extension_field_iter_def
  by (cases t, simp) ((rule round_trips_then round_trips_ret ext_elem)+, simp)

lemma gkr_polys_round_trip:
  assumes "map length polys = [1..<n]"
  shows "round_trips (encode_iter (encode_iter (encode_ext3 C)) polys)
           (decode_each (\<lambda>i. decode_n (i + 1) (decode_ext3 C)) [0..<n - 1]) polys"
proof (rule each_round_trip, rule list_all2_all_nthI)
  have len: "length polys = n - 1" using arg_cong [OF assms, of length] by simp
  then show "length [0..<n - 1] = length polys" by simp
  fix i assume i: "i < length [0..<n - 1]"
  then have "length (polys ! i) = i + 1"
    using arg_cong [OF assms, of "\<lambda>xs. xs ! i"] len by simp
  then show "round_trips (encode_iter (encode_ext3 C) (polys ! i))
      (decode_n ([0..<n - 1] ! i + 1) (decode_ext3 C)) (polys ! i)"
    using i by (intro n_round_trip ext3_round_trip) simp
qed

lemma gkr_round_trip:
  assumes "wf_gkr_proof g"
  shows "round_trips (encode_gkr_proof C g) (decode_gkr_proof C) g"
proof -
  have "round_trips (encode_slice (encode_gkr_layer_claims C) (claims_per_layer g))
      (decode_vec (decode_gkr_layer_claims C)) (claims_per_layer g)"
    using assms unfolding encode_slice_def decode_vec_def
    by (intro prefixed_round_trip n_round_trip layer_claims_round_trip) (simp_all add: wf_gkr_proof_def)
  then show ?thesis
    unfolding encode_gkr_proof_def decode_gkr_proof_def using assms
    by (intro round_trips_then [OF base_elem] round_trips_then [OF ext_elem]
        round_trips_then [of "encode_slice e xs" for e xs] round_trips_ret [OF gkr_polys_round_trip])
      (cases g, simp_all add: wf_gkr_proof_def)+
qed

lemma batch_polys_round_trip:
  assumes "list_all (\<lambda>poly. length poly = length (polys ! 0) \<and> length poly < 2 ^ 32) polys"
  shows "round_trips
     (if 0 < length polys
      then enc_then (encode_usize (length (polys ! 0))) (encode_iter (encode_extension_field_iter C) polys)
      else Ok [])
     (if 0 < length polys
      then dbind decode_usize (\<lambda>max_degree_plus_one.
             decode_n (length polys) (decode_extension_field_n C max_degree_plus_one))
      else dret []) polys"
proof (cases "polys = []")
  case False
  then have "polys ! 0 \<in> set polys" by simp
  with assms have "length (polys ! 0) < 2 ^ 32"
    and len: "x \<in> set polys \<Longrightarrow> length x = length (polys ! 0)" for x
    unfolding list_all_iff by blast+
  have "round_trips
      (enc_then (encode_usize (length (polys ! 0))) (encode_iter (encode_extension_field_iter C) polys))
      (dbind decode_usize (\<lambda>d. decode_n (length polys) (decode_extension_field_n C d))) polys"
  proof (rule round_trips_then [OF usize_codec.round_trip])
    show "length (polys ! 0) < 2 ^ 32" by fact
    show "round_trips (encode_iter (encode_extension_field_iter C) polys)
        (decode_n (length polys) (decode_extension_field_n C (length (polys ! 0)))) polys"
      by (rule n_round_trip, rule ext_iter, simp only: len, rule refl)
  qed
  moreover from False have "0 < length polys" by simp
  ultimately show ?thesis by (simp only: if_True)
qed (simp add: round_trips_dret)

lemma columns_round_trip:
  assumes "length parts < 2 ^ 32 \<and> list_all (\<lambda>part. length part < 2 ^ 32) parts"
  shows "round_trips (enc_then (encode_usize (length parts)) (encode_iter (encode_extension_field_slice C) parts))
           (dbind decode_usize (\<lambda>n. decode_n n (decode_extension_field_vec C))) parts"
  using assms by (intro prefixed_round_trip n_round_trip ext_vec) (auto simp: list_all_iff)

lemma batch_round_trip:
  assumes "wf_batch_proof b"
  shows "round_trips (encode_batch_proof C b) (decode_batch_proof C) b"
  unfolding encode_batch_proof_def decode_batch_proof_def Let_def
  apply (rule round_trips_then [OF ext_vec])
   apply (use assms in \<open>simp add: wf_batch_proof_def\<close>)
  apply (rule round_trips_then [OF ext_iter])
   apply (use assms in \<open>simp add: wf_batch_proof_def\<close>)
  apply (rule round_trips_then [OF ext_vec])
   apply (use assms in \<open>simp add: wf_batch_proof_def\<close>)
  apply (rule round_trips_then [OF usize_codec.round_trip])
   apply (use assms in \<open>simp add: wf_batch_proof_def\<close>)
  apply (rule round_trips_then [OF batch_polys_round_trip])
   apply (use assms in \<open>simp add: wf_batch_proof_def\<close>)
  apply (rule round_trips_ret [OF n_round_trip])
    apply (rule columns_round_trip)
    apply (use assms in \<open>auto simp: wf_batch_proof_def list_all_iff\<close>)
  done

lemma stacking_round_trip:
  assumes "wf_stacking_proof s"
  shows "round_trips (encode_stacking_proof C s) (decode_stacking_proof C) s"
  unfolding encode_stacking_proof_def decode_stacking_proof_def
  apply (rule round_trips_then [OF ext_vec])
   apply (use assms in \<open>simp add: wf_stacking_proof_def\<close>)
  apply (rule round_trips_then [OF usize_codec.round_trip])
   apply (use assms in \<open>simp add: wf_stacking_proof_def\<close>)
  apply (rule round_trips_then [OF n_round_trip])
    apply (rule ext2_round_trip)
   apply simp
  apply (rule round_trips_then [OF usize_codec.round_trip])
   apply (use assms in \<open>simp add: wf_stacking_proof_def\<close>)
  apply (rule round_trips_ret [OF n_round_trip])
    apply (rule ext_vec)
    apply (use assms in \<open>auto simp: wf_stacking_proof_def list_all_iff\<close>)
  done

section \<open>Round trip of the WHIR proof\<close>

lemma opened_rows_round_trip:
  assumes "wf_opened_rows q k_exp width cr"
  shows "round_trips (encode_opened_rows C q (cr, width))
           (decode_n q (decode_n k_exp (decode_base_field_n C width))) cr"
proof -
  have eq: "encode_iter (\<lambda>row. enc_then (enc_guard (assert_that (length row = width))) (encode_base_field_iter C row)) rows
      = encode_iter (encode_base_field_iter C) rows" if "list_all (\<lambda>row. length row = width) rows" for rows
    using that by (induction rows) simp_all
  have "round_trips (encode_iter (\<lambda>row. enc_then (enc_guard (assert_that (length row = width)))
          (encode_base_field_iter C row)) rows)
      (decode_n k_exp (decode_base_field_n C width)) rows" if "rows \<in> set cr" for rows
  proof -
    have rows: "list_all (\<lambda>row. length row = width) rows" "length rows = k_exp"
      using that assms by (auto simp: wf_opened_rows_def list_all_iff)
    then show ?thesis
      unfolding eq [OF rows(1)] by (intro n_round_trip base_iter) (auto simp: list_all_iff)
  qed
  then show ?thesis
    using assms unfolding encode_opened_rows_def split_conv
    by (simp add: wf_opened_rows_def) (rule n_round_trip, simp_all)
qed

lemma merkle_proofs_round_trip:
  assumes "wf_merkle_proofs wf_digest q depth ps"
  shows "round_trips (encode_iter (encode_digest_iter C) ps) (decode_n q (decode_digest_n C depth)) ps"
  using assms by (intro n_round_trip digest_iter) (auto simp: wf_merkle_proofs_def list_all_iff)

lemma codeword_proofs_round_trip:
  "wf_codeword_proofs wf_digest depth qs pss \<Longrightarrow>
     round_trips (encode_iter (encode_iter (encode_digest_iter C)) pss) (decode_codeword_proofs C depth qs) pss"
proof (induction qs arbitrary: depth pss)
  case Nil
  then show ?case by (cases pss) (simp_all add: round_trips_dret)
next
  case (Cons q qs)
  then obtain ps rest where pss: "pss = ps # rest" and "0 < depth"
    and ps: "wf_merkle_proofs wf_digest q depth ps" and "wf_codeword_proofs wf_digest (depth - 1) qs rest"
    by (cases pss) auto
  then have "round_trips (encode_iter (encode_iter (encode_digest_iter C)) rest)
      (decode_codeword_proofs C (depth - 1) qs) rest" and "sub64 depth 1 = Ok (depth - 1)"
    using Cons.IH by (auto simp: sub64_def)
  with merkle_proofs_round_trip [OF ps] show ?case
    by (auto simp: pss intro!: round_trips_then round_trips_dlift round_trips_ret)
qed

lemma widths_round_trip:
  "list_all (\<lambda>cr. commit_width cr < 2 ^ 32) rows \<Longrightarrow> n = length rows \<Longrightarrow>
     round_trips (encode_iter encode_usize (map commit_width rows)) (decode_n n decode_usize) (map commit_width rows)"
  by (rule usize_codec.iter_round_trip_n) (simp_all add: list_all_iff)

text \<open>
  The initial round: its depth and widths are present only when there are queries; with
  none, the decoder produces the empty rows and proofs without reading.
\<close>

lemma initial_round_round_trip:
  fixes w :: "('f, 'ef, 'd) whir_proof"
  defines "rows \<equiv> initial_round_opened_rows w" and "proofs \<equiv> initial_round_merkle_proofs w"
  assumes rows: "0 < length rows" "list_all (\<lambda>cr. wf_opened_rows (length (rows ! 0)) k_exp (commit_width cr) cr) rows"
    and proofs: "length proofs = length rows" "0 < length (rows ! 0) \<longrightarrow> length (proofs ! 0 ! 0) < 2 ^ 32"
      "list_all (wf_merkle_proofs wf_digest (length (rows ! 0)) (length (proofs ! 0 ! 0))) proofs"
    and rest: "round_trips m (f rows proofs) y"
  shows "round_trips (enc_then (encode_initial_round C w) m)
     (dbind (if 0 < length (rows ! 0) then decode_usize else dret 0) (\<lambda>merkle_depth.
      dbind (if 0 < length (rows ! 0) then decode_n (length rows) decode_usize else dret []) (\<lambda>widths.
      dbind (decode_each (\<lambda>width. decode_n (length (rows ! 0)) (decode_n k_exp (decode_base_field_n C width)))
              (widths @ replicate (length rows - length widths) 0)) (\<lambda>rows'.
      dbind (decode_n (length rows) (decode_n (length (rows ! 0)) (decode_digest_n C merkle_depth))) (\<lambda>proofs'.
        f rows' proofs'))))) y"
proof (cases "0 < length (rows ! 0)")
  case True
  let ?q = "length (rows ! 0)" and ?d = "length (proofs ! 0 ! 0)"
  have first: "first_proof_len proofs = Ok ?d"
  proof -
    have ne: "0 < length proofs" using proofs(1) rows(1) by simp
    then have "length (proofs ! 0) = ?q" using proofs(3) by (auto simp: list_all_length wf_merkle_proofs_def)
    with ne True show ?thesis by (simp add: first_proof_len_def)
  qed
  have "round_trips (encode_iter (encode_opened_rows C ?q) (zip rows (map commit_width rows)))
      (decode_each (\<lambda>width. decode_n ?q (decode_n k_exp (decode_base_field_n C width))) (map commit_width rows)) rows"
  proof -
    have "list_all2 (\<lambda>width x. round_trips (encode_opened_rows C ?q (x, commit_width x))
        (decode_n ?q (decode_n k_exp (decode_base_field_n C width))) x) (map commit_width rows) rows"
      using rows(2) by (auto simp: list_all2_map1 list_all2_same list_all_iff intro: opened_rows_round_trip)
    then have "round_trips (encode_iter (\<lambda>x. encode_opened_rows C ?q (x, commit_width x)) rows)
        (decode_each (\<lambda>width. decode_n ?q (decode_n k_exp (decode_base_field_n C width))) (map commit_width rows)) rows"
      by (rule each_round_trip)
    moreover have "encode_iter (\<lambda>x. encode_opened_rows C ?q (x, commit_width x)) xs
        = encode_iter (encode_opened_rows C ?q) (zip xs (map commit_width xs))" for xs
      by (induction xs) simp_all
    ultimately show ?thesis by simp
  qed
  moreover have "round_trips (encode_iter (encode_iter (encode_digest_iter C)) proofs)
      (decode_n (length rows) (decode_n ?q (decode_digest_n C ?d))) proofs"
    using proofs by (intro n_round_trip merkle_proofs_round_trip) (auto simp: list_all_iff)
  moreover have "list_all (\<lambda>cr. commit_width cr < 2 ^ 32) rows"
    using rows(2) by (auto simp: list_all_iff wf_opened_rows_def)
  ultimately show ?thesis
    using True proofs(2) rest first
    unfolding encode_initial_round_def rows_def [symmetric] proofs_def [symmetric] Let_def
    by (simp add: enc_then_assoc)
      (intro round_trips_then [OF usize_codec.round_trip] round_trips_then [OF widths_round_trip]
        round_trips_then [of _ _ proofs]  round_trips_then [of _ _ rows], simp_all)
next
  case False
  from rows(2) False have "x \<in> set rows \<Longrightarrow> x = []" for x
    unfolding list_all_iff wf_opened_rows_def by (metis length_greater_0_conv)
  then have r: "replicate (length rows) [] = rows"
    by (intro replicate_eqI [symmetric] refl)
  from proofs(3) False have "x \<in> set proofs \<Longrightarrow> x = []" for x
    unfolding list_all_iff wf_merkle_proofs_def by (metis length_greater_0_conv)
  then have p: "replicate (length rows) [] = proofs"
    by (intro replicate_eqI [symmetric] proofs(1))
  have enc: "encode_initial_round C w = Ok []"
    using False by (simp add: encode_initial_round_def rows_def)
  from False have "length (rows ! 0) = 0" by simp
  then show ?thesis
    unfolding enc enc_then_Nil_left
    by (simp only: if_False less_irrefl decode_n.simps(1) decode_each_dret decode_n_dret append_Nil
          list.size diff_zero map_replicate r p)
      (intro round_trips_dret_left, simp add: r rest map_replicate)
qed

lemma opened_values_round_trip:
  assumes "list_all (\<lambda>vals. length vals < 2 ^ 32 \<and> list_all (\<lambda>v. length v = k_exp) vals) opened"
    and "n = length opened"
  shows "round_trips (encode_iter (\<lambda>round. enc_then (encode_usize (length round))
            (encode_iter (encode_extension_field_iter C) round)) opened)
     (decode_n n (dbind decode_usize (\<lambda>n. decode_n n (decode_extension_field_n C k_exp)))) opened"
  using assms by (intro n_round_trip prefixed_round_trip ext_iter) (auto simp: list_all_iff)

lemma first_codeword_depth:
  assumes "wf_codeword_proofs wf_digest d (map length opened) cw" and "opened ! 0 \<noteq> []" and "0 < length opened"
  shows "first_proof_len cw = Ok (length (cw ! 0 ! 0))"
proof -
  from assms(3) obtain o1 os where opened: "opened = o1 # os" by (cases opened) auto
  with assms(1) obtain c1 cs where "cw = c1 # cs" "wf_merkle_proofs wf_digest (length o1) d c1"
    by (cases cw) auto
  with assms(2) opened show ?thesis by (auto simp: first_proof_len_def wf_merkle_proofs_def)
qed

lemma whir_round_trip_depth:
  assumes "wf_whir_proof wf_digest w" and "d < 2 ^ 32"
    and d: "wf_codeword_proofs wf_digest d (map length (codeword_opened_values w)) (codeword_merkle_proofs w)"
  shows "round_trips (enc_then (whir_before_depth C w) (enc_then (encode_usize d) (whir_after_depth C w)))
     (decode_whir_proof C) w"
proof -
  define R where "R = length (codeword_commits w) + 1"
  define S where "S = length (whir_sumcheck_polys w)"
  define k where "k = S div R"
  define rows where "rows = initial_round_opened_rows w"
  define proofs where "proofs = initial_round_merkle_proofs w"
  have wfw: "S < 2 ^ 32" "length (codeword_commits w) < 2 ^ 32" "list_all wf_digest (codeword_commits w)"
      "S mod R = 0" "k < 64" "length (ood_values w) = R - 1" "length (folding_pow_witnesses w) = S"
      "length (query_phase_pow_witnesses w) = R" "0 < length rows" "length rows < 2 ^ 32"
      "length (rows ! 0) < 2 ^ 32" "length (codeword_opened_values w) = R - 1" "length (final_poly w) < 2 ^ 32"
    and rows: "list_all (\<lambda>cr. wf_opened_rows (length (rows ! 0)) (2 ^ k) (commit_width cr) cr) rows"
    and proofs: "length proofs = length rows" "0 < length (rows ! 0) \<longrightarrow> length (proofs ! 0 ! 0) < 2 ^ 32"
      "list_all (wf_merkle_proofs wf_digest (length (rows ! 0)) (length (proofs ! 0 ! 0))) proofs"
    and opened: "list_all (\<lambda>vals. length vals < 2 ^ 32 \<and> list_all (\<lambda>v. length v = 2 ^ k) vals)
      (codeword_opened_values w)"
    using assms(1) unfolding wf_whir_proof_def Let_def R_def [symmetric] S_def [symmetric] k_def [symmetric]
      rows_def [symmetric] proofs_def [symmetric]
    by (simp_all add: R_def)
  have guards: "ensure_that (S mod R = 0) SumcheckRoundsNotMultiple = Ok ()"
      "ensure_that (length rows \<noteq> 0) NumCommitsZero = Ok ()" "shl64 1 k = Ok (2 ^ k)"
    using wfw(4,5,9) by simp_all
  note rp = wfw(9) [unfolded rows_def] rows [unfolded rows_def] proofs [unfolded rows_def proofs_def]
  show ?thesis
    unfolding whir_before_depth_def whir_after_depth_def decode_whir_proof_def Let_def enc_then_assoc
      rows_def [symmetric]
    apply (rule round_trips_then [OF base_elem])
    apply (rule round_trips_then [OF usize_codec.round_trip], use wfw S_def in simp)
    apply (rule round_trips_then [OF n_round_trip [OF ext2_round_trip]], rule refl)
    apply (rule round_trips_then [OF digest_vec], fact wfw, fact wfw)
    apply (unfold R_def [symmetric] S_def [symmetric] k_def [symmetric])
    apply (rule round_trips_dlift [OF guards(1)])
    apply (rule round_trips_then [OF ext_iter], simp only: wfw)
    apply (rule round_trips_then [OF base_iter], simp only: wfw)
    apply (rule round_trips_then [OF base_iter], simp only: wfw)
    apply (rule round_trips_then [OF usize_codec.round_trip], fact wfw)
    apply (rule round_trips_dlift [OF guards(2)])
    apply (rule round_trips_then [OF usize_codec.round_trip], fact wfw)
    apply (rule round_trips_dlift [OF guards(3)])
    apply (unfold rows_def)
    apply (rule initial_round_round_trip)
         apply (rule rp)+
    apply (rule round_trips_then [OF opened_values_round_trip [OF opened]], simp only: wfw)
    apply (rule round_trips_then [OF usize_codec.round_trip], fact assms)
    apply (rule round_trips_then [OF codeword_proofs_round_trip], fact d)
    apply (rule round_trips_ret [OF ext_vec], fact wfw)
    apply simp
    done
qed

text \<open>The depth that the encoder writes, and that it is one the decoder can use.\<close>

lemma encode_whir_split:
  assumes "wf_whir_proof wf_digest w"
  shows "\<exists>d. encode_whir_proof C w = enc_then (whir_before_depth C w) (enc_then (encode_usize d) (whir_after_depth C w))
     \<and> d < 2 ^ 32
     \<and> wf_codeword_proofs wf_digest d (map length (codeword_opened_values w)) (codeword_merkle_proofs w)
     \<and> (codeword_commits w = [] \<longrightarrow> d = 0)"
proof (cases "codeword_commits w = []")
  case True
  with assms have "codeword_opened_values w = []" "codeword_merkle_proofs w = []"
    by (auto simp: wf_whir_proof_def Let_def elim: wf_codeword_proofs.elims)
  with assms True show ?thesis
    by (intro exI [of _ 0])
      (simp add: encode_whir_proof_def whir_before_depth_def whir_after_depth_def wf_whir_proof_def Let_def enc_then_assoc)
next
  case False
  with assms have w: "wf_codeword_proofs wf_digest (length (codeword_merkle_proofs w ! 0 ! 0))
      (map length (codeword_opened_values w)) (codeword_merkle_proofs w)"
      "codeword_opened_values w ! 0 \<noteq> []" "0 < length (codeword_opened_values w)"
      "length (codeword_merkle_proofs w ! 0 ! 0) < 2 ^ 32"
    by (simp_all add: wf_whir_proof_def Let_def)
  with assms False first_codeword_depth [OF w(1-3)] show ?thesis
    by (intro exI [of _ "length (codeword_merkle_proofs w ! 0 ! 0)"])
      (simp add: encode_whir_proof_def whir_before_depth_def whir_after_depth_def wf_whir_proof_def Let_def enc_then_assoc)
qed

lemma whir_round_trip:
  assumes "wf_whir_proof wf_digest w"
  shows "round_trips (encode_whir_proof C w) (decode_whir_proof C) w"
  using encode_whir_split [OF assms] whir_round_trip_depth [OF assms] by auto

lemma proof_round_trip_whir:
  assumes "wf_proof wf_digest p" and "round_trips m (decode_whir_proof C) (proof_whir p)"
  shows "round_trips (enc_then (proof_before_whir C p) m) (decode_proof C) p"
  unfolding proof_before_whir_def enc_then_assoc decode_proof_def
  apply (rule round_trips_then [OF u32_codec.round_trip], simp)
  apply (rule round_trips_dlift [of _ "()"], simp)
  apply (rule round_trips_then [OF digest.round_trip], use assms(1) in \<open>simp add: wf_proof_def\<close>)
  apply (rule round_trips_then [OF trace_vdatas_round_trip], use assms(1) in \<open>simp add: wf_proof_def\<close>)
  apply (rule round_trips_then [OF usize_codec.round_trip], use assms(1) in \<open>simp add: wf_proof_def\<close>)
  apply (rule round_trips_then [OF n_round_trip [OF base_vec]])
    apply (use assms(1) in \<open>simp add: wf_proof_def list_all_iff\<close>)
   apply (rule refl)
  apply (rule round_trips_then [OF gkr_round_trip], use assms(1) in \<open>simp add: wf_proof_def\<close>)
  apply (rule round_trips_then [OF batch_round_trip], use assms(1) in \<open>simp add: wf_proof_def\<close>)
  apply (rule round_trips_then [OF stacking_round_trip], use assms(1) in \<open>simp add: wf_proof_def\<close>)
  apply (rule round_trips_ret [OF assms(2)], simp)
  done

lemma whole_proof_round_trip:
  assumes "wf_proof wf_digest p"
  shows "round_trips (encode_proof C p) (decode_proof C) p"
  unfolding encode_proof_split using assms
  by (intro proof_round_trip_whir whir_round_trip) (simp_all add: wf_proof_def)

text \<open>Without a later WHIR round, any codeword depth in the input is read as this proof.\<close>

lemma depth_ignored:
  assumes "wf_proof wf_digest p" and "codeword_commits (proof_whir p) = []" and "d < 2 ^ 32"
  shows "\<exists>a b e0 e. encode_usize 0 = Ok e0 \<and> encode_usize d = Ok e \<and> encode_proof C p = Ok (a @ e0 @ b) \<and>
     (\<forall>r. decode_proof C ((a @ e @ b) @ r) = Ok (p, r))"
proof -
  let ?w = "proof_whir p"
  have w: "wf_whir_proof wf_digest ?w" using assms(1) by (simp add: wf_proof_def)
  then have "codeword_opened_values ?w = []" "codeword_merkle_proofs ?w = []"
    using assms(2) by (auto simp: wf_whir_proof_def Let_def elim: wf_codeword_proofs.elims)
  then have rt: "round_trips (enc_then (proof_before_whir C p)
      (enc_then (whir_before_depth C ?w) (enc_then (encode_usize n) (whir_after_depth C ?w)))) (decode_proof C) p"
    if "n < 2 ^ 32" for n
    using that w assms(1) by (intro proof_round_trip_whir whir_round_trip_depth) simp_all
  from encode_whir_split [OF w] assms(2)
  have enc: "encode_proof C p = enc_then (proof_before_whir C p)
      (enc_then (whir_before_depth C ?w) (enc_then (encode_usize 0) (whir_after_depth C ?w)))"
    by (auto simp: encode_proof_split)
  from rt [of 0] rt [OF assms(3)] enc show ?thesis
    unfolding round_trips_def enc_then_def rbind_Ok_iff
    by (clarsimp simp: rbind_Ok_iff) (metis append.assoc)
qed

end

sublocale stark_codec \<subseteq> whole: codec "encode_proof C" "decode_proof C" "wf_proof wf_digest"
  by unfold_locales (rule whole_proof_round_trip)

end
