(* ===== verification/ProofCanonical.thy ===== *)
theory ProofCanonical
  imports ProofRoundTrip
begin

text \<open>
  Which inputs the proof decoder accepts: what it reads is well shaped, and encoding it
  again gives the bytes that were read. The exception is a WHIR proof without a later
  round, or whose first rounds make no query: its codeword depth is read and not used.
\<close>

lemma dbind_dretE:
  assumes "dbind d (\<lambda>x. dret (g x)) bs = Ok (y, r)"
  obtains x where "d bs = Ok (x, r)" and "y = g x"
  using assms by (auto elim!: dbind_OkE)

lemma dbind_dliftE:
  assumes "dbind (dlift m) f bs = Ok (y, r)"
  obtains x where "m = Ok x" and "f x bs = Ok (y, r)"
  using assms by (auto elim!: dbind_OkE)

lemma encode_iter_cong: "(\<And>x. x \<in> set xs \<Longrightarrow> e x = e' x) \<Longrightarrow> encode_iter e xs = encode_iter e' xs"
  by (induction xs) auto

text \<open>What has to hold of a WHIR proof for its codeword depth to be used by the decoder.\<close>

definition whir_depth_used :: "('f, 'ef, 'd) whir_proof \<Rightarrow> bool" where
  "whir_depth_used w \<longleftrightarrow> codeword_commits w \<noteq> [] \<and> initial_round_opened_rows w ! 0 \<noteq> [] \<and>
     codeword_opened_values w ! 0 \<noteq> []"

context stark_codec
begin

lemmas base_elem_canonical = base.canonical [THEN conjunct2]
  and ext_elem_canonical = ext.canonical [THEN conjunct2]

section \<open>The presence bitmap\<close>

lemma vdata_bits_canonical:
  assumes "decode_vdata_bits C n byte [j..<8] acc inp = Ok (acc', r)" and "j \<le> 8" and "length acc \<le> n"
  shows "\<exists>c e. acc' = acc @ c \<and> list_all (pred_option (wf_trace_vdata wf_digest)) c \<and>
     encode_iter (encode_trace_vdata C) (flatten c) = Ok e \<and> inp = e @ r \<and>
     (\<forall>i < length c. bit byte (j + i) \<longleftrightarrow> c ! i \<noteq> None) \<and> drop_bit (j + length c) byte = 0 \<and>
     j + length c \<le> 8 \<and> length acc' \<le> n \<and> (j + length c = 8 \<or> length acc' = n)"
  using assms
proof (induction "8 - j" arbitrary: j acc inp)
  case 0
  then have j: "j = 8" by simp
  have "drop_bit 8 byte = 0" by (rule bit_word_eqI) (simp add: bit_simps)
  with 0 j show ?case by (intro exI [of _ "[]"]) simp
next
  case (Suc m)
  then have upt: "[j..<8] = j # [Suc j..<8]" and m: "m = 8 - Suc j" "Suc j \<le> 8"
    by (simp_all add: upt_conv_Cons)
  have bit_j: "byte AND push_bit j 1 \<noteq> 0 \<longleftrightarrow> bit byte j"
    by (simp only: bit_iff_and_push_bit_not_eq_0)
  have shift: "(\<forall>i < length (v # c). bit byte (j + i) \<longleftrightarrow> (v # c) ! i \<noteq> None)"
    if "bit byte j \<longleftrightarrow> v \<noteq> None" "\<forall>i < length c. bit byte (Suc j + i) \<longleftrightarrow> c ! i \<noteq> None"
    for v and c :: "'d trace_vdata option list"
    using that by (auto simp: less_Suc_eq_0_disj)
  show ?case
  proof (cases "n \<le> length acc")
    case True
    with Suc.prems show ?thesis
      unfolding upt by (intro exI [of _ "[]"]) (auto split: if_splits)
  next
    case False
    show ?thesis
    proof (cases "bit byte j")
      case True
      with Suc.prems(1) upt False bit_j obtain v r1 where v: "decode_trace_vdata C inp = Ok (v, r1)"
        and rest: "decode_vdata_bits C n byte [Suc j..<8] (acc @ [Some v]) r1 = Ok (acc', r)"
        by (auto elim!: dbind_OkE simp del: upt_Suc)
      from vdata_canonical [OF v] obtain e1 where
        "wf_trace_vdata wf_digest v" "encode_trace_vdata C v = Ok e1" "inp = e1 @ r1" by blast
      moreover have "length (acc @ [Some v]) \<le> n" using False by simp
      with Suc.hyps(1) [OF m(1) rest m(2)] obtain c e where
        "acc' = (acc @ [Some v]) @ c" "list_all (pred_option (wf_trace_vdata wf_digest)) c"
        "encode_iter (encode_trace_vdata C) (flatten c) = Ok e" "r1 = e @ r"
        "\<forall>i < length c. bit byte (Suc j + i) \<longleftrightarrow> c ! i \<noteq> None" "drop_bit (Suc j + length c) byte = 0"
        "Suc j + length c \<le> 8" "length acc' \<le> n" "Suc j + length c = 8 \<or> length acc' = n" by blast
      ultimately show ?thesis
        using shift [of "Some v" c] True
        by (intro exI [of _ "Some v # c"] exI [of _ "e1 @ e"]) (simp add: enc_then_def)
    next
      case bit: False
      with Suc.prems(1) upt False bit_j
      have rest: "decode_vdata_bits C n byte [Suc j..<8] (acc @ [None]) inp = Ok (acc', r)"
        by (simp del: upt_Suc)
      have "length (acc @ [None]) \<le> n" using False by simp
      with Suc.hyps(1) [OF m(1) rest m(2)] obtain c e where
        "acc' = (acc @ [None]) @ c" "list_all (pred_option (wf_trace_vdata wf_digest)) c"
        "encode_iter (encode_trace_vdata C) (flatten c) = Ok e" "inp = e @ r"
        "\<forall>i < length c. bit byte (Suc j + i) \<longleftrightarrow> c ! i \<noteq> None" "drop_bit (Suc j + length c) byte = 0"
        "Suc j + length c \<le> 8" "length acc' \<le> n" "Suc j + length c = 8 \<or> length acc' = n" by blast
      then show ?thesis
        using shift [of None c] bit
        by (intro exI [of _ "None # c"] exI [of _ e]) simp
    qed
  qed
qed

lemma bitmap_byte_unique:
  assumes "\<forall>i < length c. bit byte i \<longleftrightarrow> c ! i \<noteq> None" and "drop_bit (length c) byte = 0" and "length c \<le> 8"
  shows "bitmap_byte c = (byte :: u8)"
proof (rule bit_word_eqI)
  fix i
  have "\<not> bit byte i" if "length c \<le> i"
    using arg_cong [OF assms(2), of "\<lambda>b. bit b (i - length c)"] that by (simp add: bit_simps)
  with assms(1,3) show "bit (bitmap_byte c) i \<longleftrightarrow> bit byte i"
    by (cases "i < length c") (auto simp: bit_bitmap_byte)
qed

lemma vdata_bytes_canonical:
  assumes "decode_vdata_bytes C n bytes acc inp = Ok (vs', r)" and "length acc \<le> n"
    and "length bytes = (n - length acc + 7) div 8"
  shows "\<exists>vs e. vs' = acc @ vs \<and> length vs' = n \<and> list_all (pred_option (wf_trace_vdata wf_digest)) vs \<and>
     encode_iter (encode_trace_vdata C) (flatten vs) = Ok e \<and> inp = e @ r \<and>
     map bitmap_byte (chunks8 vs) = bytes"
  using assms
proof (induction bytes arbitrary: acc inp)
  case Nil
  then show ?case by (intro exI [of _ "[]"]) auto
next
  case (Cons byte bytes)
  then obtain acc1 r1 where bits: "decode_vdata_bits C n byte [0..<8] acc inp = Ok (acc1, r1)"
    and rest: "decode_vdata_bytes C n bytes acc1 r1 = Ok (vs', r)"
    by (auto elim!: dbind_OkE)
  from vdata_bits_canonical [OF bits] Cons.prems(2) obtain c e where c: "acc1 = acc @ c"
      "list_all (pred_option (wf_trace_vdata wf_digest)) c"
      "encode_iter (encode_trace_vdata C) (flatten c) = Ok e" "inp = e @ r1"
      "\<forall>i < length c. bit byte i \<longleftrightarrow> c ! i \<noteq> None" "drop_bit (length c) byte = 0" "length c \<le> 8"
      "length acc1 \<le> n" "length c = 8 \<or> length acc1 = n"
    by auto
  have len: "length bytes = (n - length acc1 + 7) div 8"
  proof -
    have "(length c + 7) div 8 \<le> 1" using c(7) by presburger
    then show ?thesis using Cons.prems(3) c(1,7-9) by (auto simp flip: length_0_conv)
  qed
  from Cons.IH [OF rest c(8) len] obtain vs e' where vs: "vs' = acc1 @ vs" "length vs' = n"
      "list_all (pred_option (wf_trace_vdata wf_digest)) vs"
      "encode_iter (encode_trace_vdata C) (flatten vs) = Ok e'" "r1 = e' @ r"
      "map bitmap_byte (chunks8 vs) = bytes"
    by blast
  have "c \<noteq> []" using Cons.prems(2,3) c(1,9) by auto
  then have "chunks8 (c @ vs) = c # chunks8 vs"
    using c(1,7,9) vs(1,2) by (cases "length c = 8") (auto simp: chunks8_append chunks8_short)
  moreover have "bitmap_byte c = byte" by (rule bitmap_byte_unique) fact+
  ultimately show ?case
    using c vs by (intro exI [of _ "c @ vs"] exI [of _ "e @ e'"]) (simp add: encode_iter_append enc_then_def)
qed

lemma trace_vdatas_canonical:
  assumes "decode_trace_vdatas C bs = Ok (vs, r)"
  shows "wf_trace_vdatas wf_digest vs \<and> (\<exists>e. encode_trace_vdatas C vs = Ok e \<and> bs = e @ r)"
proof -
  have map: "encode_iter (\<lambda>chunk. encode_u8 (bitmap_byte chunk)) xs = encode_iter encode_u8 (map bitmap_byte xs)"
    for xs :: "'d trace_vdata option list list"
    by (induction xs) auto
  from assms obtain n r1 bytes r2 where n: "decode_usize bs = Ok (n, r1)"
    and bytes: "decode_n ((n + 7) div 8) decode_u8 r1 = Ok (bytes, r2)"
    and vs: "decode_vdata_bytes C n bytes [] r2 = Ok (vs, r)"
    unfolding decode_trace_vdatas_def by (auto elim!: dbind_OkE)
  from u8_codec.n_canonical [OF bytes] obtain e2 where
    "length bytes = (n + 7) div 8" "encode_iter encode_u8 bytes = Ok e2" "r1 = e2 @ r2" by blast
  with vdata_bytes_canonical [OF vs] usize_codec.canonical [OF n] show ?thesis
    by (auto simp: wf_trace_vdatas_def encode_trace_vdatas_def map enc_then_def)
qed

section \<open>The other structs\<close>

lemma layer_claims_canonical:
  assumes "decode_gkr_layer_claims C bs = Ok (c, r)"
  shows "\<exists>e. encode_gkr_layer_claims C c = Ok e \<and> bs = e @ r"
  using assms unfolding decode_gkr_layer_claims_def encode_gkr_layer_claims_def
  by (auto elim!: dbind_OkE dest!: ext_elem_canonical simp: enc_then_def)

lemma ext3_canonical:
  "decode_ext3 C bs = Ok (t, r) \<Longrightarrow> \<exists>e. encode_ext3 C t = Ok e \<and> bs = e @ r"
  unfolding decode_ext3_def encode_ext3_def encode_extension_field_iter_def
  by (auto elim!: dbind_OkE dest!: ext_elem_canonical simp: enc_then_def)

lemma ext2_canonical:
  "decode_ext2 C bs = Ok (t, r) \<Longrightarrow> \<exists>e. encode_ext2 C t = Ok e \<and> bs = e @ r"
  unfolding decode_ext2_def encode_ext2_def encode_extension_field_iter_def
  by (auto elim!: dbind_OkE dest!: ext_elem_canonical simp: enc_then_def)

lemma n_canonical_simple:
  assumes "decode_n n d bs = Ok (xs, r)"
    and "\<And>bs x r. d bs = Ok (x, r) \<Longrightarrow> \<exists>b. e x = Ok b \<and> bs = b @ r"
  shows "length xs = n \<and> (\<exists>b. encode_iter e xs = Ok b \<and> bs = b @ r)"
  using n_canonical_of [OF assms(1), of "\<lambda>_. True" e] assms(2) by blast

lemma gkr_polys_canonical:
  assumes "decode_each (\<lambda>i. decode_n (i + 1) (decode_ext3 C)) [0..<n - 1] bs = Ok (polys, r)"
  shows "map length polys = [1..<n] \<and> (\<exists>e. encode_iter (encode_iter (encode_ext3 C)) polys = Ok e \<and> bs = e @ r)"
proof -
  have "list_all2 (\<lambda>i poly. length poly = i + 1) [0..<n - 1] polys \<and>
      (\<exists>e. encode_iter (encode_iter (encode_ext3 C)) polys = Ok e \<and> bs = e @ r)"
    by (rule each_canonical [OF _ assms]) (rule n_canonical_simple [OF _ ext3_canonical])
  then have "length polys = n - 1" and "\<And>i. i < n - 1 \<Longrightarrow> length (polys ! i) = i + 1"
    by (auto simp: list_all2_conv_all_nth)
  then have "map length polys = [1..<n]"
    by (intro nth_equalityI) simp_all
  with \<open>list_all2 _ _ _ \<and> _\<close> show ?thesis by blast
qed

lemma gkr_canonical:
  assumes "decode_gkr_proof C bs = Ok (g, r)"
  shows "wf_gkr_proof g \<and> (\<exists>e. encode_gkr_proof C g = Ok e \<and> bs = e @ r)"
proof -
  from assms obtain w r1 q0 r2 claims r3 polys where "decode_base_field C bs = Ok (w, r1)"
    and "decode_extension_field C r1 = Ok (q0, r2)"
    and claims: "decode_vec (decode_gkr_layer_claims C) r2 = Ok (claims, r3)"
    and polys: "decode_each (\<lambda>i. decode_n (i + 1) (decode_ext3 C)) [0..<length claims - 1] r3 = Ok (polys, r)"
    and g: "g = \<lparr>logup_pow_witness = w, q0_claim = q0, claims_per_layer = claims, sumcheck_polys = polys\<rparr>"
    unfolding decode_gkr_proof_def by (auto elim!: dbind_OkE)
  have "length claims < 2 ^ 32 \<and> True \<and> (\<exists>b. encode_slice (encode_gkr_layer_claims C) claims = Ok b \<and> r2 = b @ r3)"
    using claims unfolding decode_vec_def encode_slice_def
    by (rule prefixed_canonical) (simp add: n_canonical_simple [OF _ layer_claims_canonical])
  with gkr_polys_canonical [OF polys] base_elem_canonical [OF \<open>decode_base_field C bs = Ok (w, r1)\<close>]
    ext_elem_canonical [OF \<open>decode_extension_field C r1 = Ok (q0, r2)\<close>]
  show ?thesis by (auto simp: g wf_gkr_proof_def encode_gkr_proof_def enc_then_def)
qed

lemma batch_polys_canonical:
  assumes "(if 0 < n then dbind decode_usize (\<lambda>d. decode_n n (decode_extension_field_n C d)) else dret []) bs
     = Ok (polys, r)"
  shows "length polys = n \<and>
     list_all (\<lambda>poly. length poly = length (polys ! 0) \<and> length poly < 2 ^ 32) polys \<and>
     (\<exists>e. (if 0 < n then enc_then (encode_usize (length (polys ! 0)))
              (encode_iter (encode_extension_field_iter C) polys) else Ok []) = Ok e \<and> bs = e @ r)"
proof (cases "n = 0")
  case True
  with assms show ?thesis by simp
next
  case False
  with assms obtain d r1 where d: "decode_usize bs = Ok (d, r1)"
    and polys: "decode_n n (decode_extension_field_n C d) r1 = Ok (polys, r)"
    by (auto elim!: dbind_OkE)
  have "length polys = n \<and> list_all (\<lambda>poly. length poly = d) polys \<and>
      (\<exists>b. encode_iter (encode_extension_field_iter C) polys = Ok b \<and> r1 = b @ r)"
    by (rule n_canonical_of [OF polys]) (rule ext_n_canonical)
  then obtain b where
    "length polys = n" "list_all (\<lambda>poly. length poly = d) polys"
    "encode_iter (encode_extension_field_iter C) polys = Ok b" "r1 = b @ r" by blast
  moreover have "length (polys ! 0) = d"
    using calculation(1,2) False by (simp add: list_all_length)
  ultimately show ?thesis
    using usize_codec.canonical [OF d] False by (auto simp: enc_then_def list_all_iff)
qed

lemma ext_vecs_canonical:
  assumes "decode_n n (decode_extension_field_vec C) bs = Ok (xs, r)"
  shows "length xs = n \<and> list_all (\<lambda>v. length v < 2 ^ 32) xs \<and>
     (\<exists>e. encode_iter (encode_extension_field_slice C) xs = Ok e \<and> bs = e @ r)"
  by (rule n_canonical_of [OF assms]) (rule ext_vec_canonical)

lemma ext2s_canonical:
  assumes "decode_n n (decode_ext2 C) bs = Ok (xs, r)"
  shows "length xs = n \<and> (\<exists>e. encode_iter (encode_ext2 C) xs = Ok e \<and> bs = e @ r)"
  by (rule n_canonical_simple [OF assms]) (rule ext2_canonical)

lemma columns_canonical:
  assumes "dbind decode_usize (\<lambda>n. decode_n n (decode_extension_field_vec C)) bs = Ok (parts, r)"
  shows "(length parts < 2 ^ 32 \<and> list_all (\<lambda>part. length part < 2 ^ 32) parts) \<and>
     (\<exists>e. enc_then (encode_usize (length parts)) (encode_iter (encode_extension_field_slice C) parts) = Ok e
        \<and> bs = e @ r)"
proof -
  from assms obtain n r1 where n: "decode_usize bs = Ok (n, r1)"
    and parts: "decode_n n (decode_extension_field_vec C) r1 = Ok (parts, r)"
    by (rule dbind_OkE)
  from usize_codec.canonical [OF n] ext_vecs_canonical [OF parts] show ?thesis
    by (auto simp: enc_then_def)
qed

lemma columns_n_canonical:
  assumes "decode_n m (dbind decode_usize (\<lambda>n. decode_n n (decode_extension_field_vec C))) bs = Ok (cols, r)"
  shows "length cols = m \<and>
     list_all (\<lambda>parts. length parts < 2 ^ 32 \<and> list_all (\<lambda>part. length part < 2 ^ 32) parts) cols \<and>
     (\<exists>e. encode_iter (\<lambda>parts. enc_then (encode_usize (length parts))
             (encode_iter (encode_extension_field_slice C) parts)) cols = Ok e \<and> bs = e @ r)"
  by (rule n_canonical_of [OF assms]) (rule columns_canonical)

lemma batch_canonical:
  assumes "decode_batch_proof C bs = Ok (b, r)"
  shows "wf_batch_proof b \<and> (\<exists>e. encode_batch_proof C b = Ok e \<and> bs = e @ r)"
proof -
  from assms obtain numer r1 denom r2 coeffs r3 n r4 polys r5 cols where
    numer: "decode_extension_field_vec C bs = Ok (numer, r1)"
    and denom: "decode_extension_field_n C (length numer) r1 = Ok (denom, r2)"
    and coeffs: "decode_extension_field_vec C r2 = Ok (coeffs, r3)"
    and n: "decode_usize r3 = Ok (n, r4)"
    and polys: "(if 0 < n then dbind decode_usize (\<lambda>d. decode_n n (decode_extension_field_n C d)) else dret []) r4
      = Ok (polys, r5)"
    and cols: "decode_n (length numer) (dbind decode_usize (\<lambda>n. decode_n n (decode_extension_field_vec C))) r5
      = Ok (cols, r)"
    and b: "b = \<lparr>numerator_term_per_air = numer, denominator_term_per_air = denom,
       batch_univariate_round_coeffs = coeffs, batch_sumcheck_round_polys = polys, column_openings = cols\<rparr>"
    unfolding decode_batch_proof_def
    by (elim dbind_dretE dbind_OkE) (rule that)
  note parts = ext_vec_canonical [OF numer] ext_n_canonical [OF denom] ext_vec_canonical [OF coeffs]
    usize_codec.canonical [OF n] batch_polys_canonical [OF polys]
    columns_n_canonical [OF cols]
  then have "wf_batch_proof b" by (simp add: wf_batch_proof_def b)
  moreover from parts obtain e1 e2 e3 e4 e5 e6 where
    "encode_extension_field_slice C numer = Ok e1" "bs = e1 @ r1"
    "encode_extension_field_iter C denom = Ok e2" "r1 = e2 @ r2"
    "encode_extension_field_slice C coeffs = Ok e3" "r2 = e3 @ r3"
    "encode_usize n = Ok e4" "r3 = e4 @ r4" "length polys = n"
    "(if 0 < n then enc_then (encode_usize (length (polys ! 0)))
        (encode_iter (encode_extension_field_iter C) polys) else Ok []) = Ok e5" "r4 = e5 @ r5"
    "encode_iter (\<lambda>parts. enc_then (encode_usize (length parts))
        (encode_iter (encode_extension_field_slice C) parts)) cols = Ok e6" "r5 = e6 @ r"
    by blast
  then have "encode_batch_proof C b = Ok (e1 @ e2 @ e3 @ e4 @ e5 @ e6) \<and>
      bs = (e1 @ e2 @ e3 @ e4 @ e5 @ e6) @ r"
    unfolding encode_batch_proof_def b Let_def by (simp only: enc_then_Ok batch_constraint_proof.simps append_assoc)
  ultimately show ?thesis by blast
qed

lemma stacking_canonical:
  assumes "decode_stacking_proof C bs = Ok (s, r)"
  shows "wf_stacking_proof s \<and> (\<exists>e. encode_stacking_proof C s = Ok e \<and> bs = e @ r)"
proof -
  from assms obtain coeffs r1 n r2 polys r3 m r4 openings where
    coeffs: "decode_extension_field_vec C bs = Ok (coeffs, r1)"
    and n: "decode_usize r1 = Ok (n, r2)" and polys: "decode_n n (decode_ext2 C) r2 = Ok (polys, r3)"
    and m: "decode_usize r3 = Ok (m, r4)"
    and openings: "decode_n m (decode_extension_field_vec C) r4 = Ok (openings, r)"
    and s: "s = \<lparr>stacking_univariate_round_coeffs = coeffs, stacking_sumcheck_round_polys = polys,
       stacking_openings = openings\<rparr>"
    unfolding decode_stacking_proof_def by (auto elim!: dbind_OkE)
  note parts = ext_vec_canonical [OF coeffs] usize_codec.canonical [OF n] ext2s_canonical [OF polys]
    usize_codec.canonical [OF m] ext_vecs_canonical [OF openings]
  then have "wf_stacking_proof s" by (simp add: wf_stacking_proof_def s)
  moreover from parts have "\<exists>e. encode_stacking_proof C s = Ok e \<and> bs = e @ r"
    by (auto simp: encode_stacking_proof_def s enc_then_def)
  ultimately show ?thesis ..
qed

section \<open>The WHIR proof\<close>

lemma opened_rows_canonical:
  assumes "decode_n q (decode_n k_exp (decode_base_field_n C width)) bs = Ok (cr, r)" and "width < 2 ^ 32"
  shows "wf_opened_rows q k_exp width cr \<and>
     (\<exists>e. encode_iter (encode_iter (encode_base_field_iter C)) cr = Ok e \<and> bs = e @ r)"
proof -
  have "length rows = k_exp \<and> list_all (\<lambda>row. length row = width) rows \<and>
      (\<exists>e. encode_iter (encode_base_field_iter C) rows = Ok e \<and> bs = e @ r)"
    if "decode_n k_exp (decode_base_field_n C width) bs = Ok (rows, r)" for bs rows r
    by (rule n_canonical_of [OF that]) (rule base_n_canonical)
  then have "length cr = q \<and> list_all (\<lambda>rows. length rows = k_exp \<and> list_all (\<lambda>row. length row = width) rows) cr \<and>
      (\<exists>e. encode_iter (encode_iter (encode_base_field_iter C)) cr = Ok e \<and> bs = e @ r)"
    by (intro n_canonical_of [OF assms(1)]) simp
  with assms(2) show ?thesis by (simp add: wf_opened_rows_def)
qed

lemma encode_opened_rows_wf:
  assumes "wf_opened_rows q k_exp width cr"
  shows "encode_opened_rows C q (cr, width) = encode_iter (encode_iter (encode_base_field_iter C)) cr"
  using assms unfolding encode_opened_rows_def split_conv
  by (auto simp: wf_opened_rows_def list_all_iff intro!: encode_iter_cong)

lemma merkle_proofs_canonical:
  assumes "decode_n q (decode_digest_n C depth) bs = Ok (ps, r)"
  shows "wf_merkle_proofs wf_digest q depth ps \<and> (\<exists>e. encode_iter (encode_digest_iter C) ps = Ok e \<and> bs = e @ r)"
proof -
  have "length ps = q \<and> list_all (\<lambda>p. length p = depth \<and> list_all wf_digest p) ps \<and>
      (\<exists>e. encode_iter (encode_digest_iter C) ps = Ok e \<and> bs = e @ r)"
    by (rule n_canonical_of [OF assms]) (use digest_n_canonical in blast)
  then show ?thesis by (simp add: wf_merkle_proofs_def)
qed

lemma all_merkle_proofs_canonical:
  assumes "decode_n m (decode_n q (decode_digest_n C depth)) bs = Ok (pss, r)"
  shows "length pss = m \<and> list_all (wf_merkle_proofs wf_digest q depth) pss \<and>
     (\<exists>e. encode_iter (encode_iter (encode_digest_iter C)) pss = Ok e \<and> bs = e @ r)"
  by (rule n_canonical_of [OF assms]) (rule merkle_proofs_canonical)

lemma codeword_proofs_canonical:
  "decode_codeword_proofs C depth qs bs = Ok (pss, r) \<Longrightarrow> wf_codeword_proofs wf_digest depth qs pss \<and>
     (\<exists>e. encode_iter (encode_iter (encode_digest_iter C)) pss = Ok e \<and> bs = e @ r)"
proof (induction qs arbitrary: depth bs pss)
  case (Cons q qs)
  then obtain ps r1 next_depth rest where ps: "decode_n q (decode_digest_n C depth) bs = Ok (ps, r1)"
    and "sub64 depth 1 = (Ok next_depth :: (nat, io_error) res)"
    and rest: "decode_codeword_proofs C next_depth qs r1 = Ok (rest, r)" and "pss = ps # rest"
    by (auto elim!: dbind_OkE)
  with merkle_proofs_canonical [OF ps] Cons.IH [OF rest] show ?case
    by (auto simp: enc_then_def sub64_Ok_iff)
qed simp

lemma opened_values_canonical:
  assumes "decode_n m (dbind decode_usize (\<lambda>n. decode_n n (decode_extension_field_n C k_exp))) bs = Ok (opened, r)"
  shows "length opened = m \<and>
     list_all (\<lambda>vals. length vals < 2 ^ 32 \<and> list_all (\<lambda>v. length v = k_exp) vals) opened \<and>
     (\<exists>e. encode_iter (\<lambda>round. enc_then (encode_usize (length round))
             (encode_iter (encode_extension_field_iter C) round)) opened = Ok e \<and> bs = e @ r)"
proof (rule n_canonical_of [OF assms])
  fix bs vals r
  assume "dbind decode_usize (\<lambda>n. decode_n n (decode_extension_field_n C k_exp)) bs = Ok (vals, r)"
  then obtain n r1 where n: "decode_usize bs = Ok (n, r1)"
    and vals: "decode_n n (decode_extension_field_n C k_exp) r1 = Ok (vals, r)" by (rule dbind_OkE)
  have "length vals = n \<and> list_all (\<lambda>v. length v = k_exp) vals \<and>
      (\<exists>e. encode_iter (encode_extension_field_iter C) vals = Ok e \<and> r1 = e @ r)"
    by (rule n_canonical_of [OF vals]) (rule ext_n_canonical)
  with usize_codec.canonical [OF n]
  show "(length vals < 2 ^ 32 \<and> list_all (\<lambda>v. length v = k_exp) vals) \<and>
     (\<exists>e. enc_then (encode_usize (length vals)) (encode_iter (encode_extension_field_iter C) vals) = Ok e
        \<and> bs = e @ r)"
    by (auto simp: enc_then_def)
qed

text \<open>The initial round, when there are queries: depth, widths, rows and Merkle proofs.\<close>

lemma initial_round_canonical:
  fixes w :: "('f, 'ef, 'd) whir_proof"
  assumes depth: "decode_usize bs = Ok (depth, r1)" and widths: "decode_n m decode_usize r1 = Ok (widths, r2)"
    and rows: "decode_each (\<lambda>width. decode_n q (decode_n k_exp (decode_base_field_n C width))) widths r2 = Ok (rows, r3)"
    and proofs: "decode_n m (decode_n q (decode_digest_n C depth)) r3 = Ok (proofs, r)"
    and pos: "0 < q" "0 < m" "0 < k_exp"
    and w: "initial_round_opened_rows w = rows" "initial_round_merkle_proofs w = proofs"
  shows "length rows = m \<and> list_all (\<lambda>cr. wf_opened_rows q k_exp (commit_width cr) cr) rows \<and>
     length proofs = m \<and> length (proofs ! 0 ! 0) < 2 ^ 32 \<and>
     list_all (wf_merkle_proofs wf_digest q (length (proofs ! 0 ! 0))) proofs \<and>
     (\<exists>e. encode_initial_round C w = Ok e \<and> bs = e @ r)"
proof -
  from usize_codec.n_canonical [OF widths] obtain e2 where widths': "length widths = m"
    "list_all (\<lambda>n. n < 2 ^ 32) widths" "encode_iter encode_usize widths = Ok e2" "r1 = e2 @ r2" by blast
  have "list_all2 (wf_opened_rows q k_exp) widths rows \<and>
      (\<exists>e. encode_iter (encode_iter (encode_iter (encode_base_field_iter C))) rows = Ok e \<and> r2 = e @ r3)"
    by (rule each_canonical [OF _ rows], rule opened_rows_canonical)
      (use widths'(2) in \<open>auto simp: list_all_iff\<close>)
  then obtain e3 where rows2: "list_all2 (wf_opened_rows q k_exp) widths rows"
    and e3: "encode_iter (encode_iter (encode_iter (encode_base_field_iter C))) rows = Ok e3" "r2 = e3 @ r3"
    by blast
  have cw: "commit_width cr = width" if "wf_opened_rows q k_exp width cr" for width cr
    using that pos by (cases cr) (auto simp: commit_width_def wf_opened_rows_def list_all_iff split: list.splits)
  from rows2 have widths_eq: "widths = map commit_width rows"
    by (auto simp: list_all2_conv_all_nth intro!: nth_equalityI cw [symmetric])
  with rows2 have wf_rows: "list_all (\<lambda>cr. wf_opened_rows q k_exp (commit_width cr) cr) rows"
    by (simp add: list_all2_map1 list_all2_same list_all_iff)
  have len_rows: "length rows = m" using widths_eq widths'(1) by simp
  then have q: "length (rows ! 0) = q"
    using wf_rows pos(2) by (auto simp: list_all_length wf_opened_rows_def)
  from all_merkle_proofs_canonical [OF proofs] obtain e4 where pr: "length proofs = m"
    "list_all (wf_merkle_proofs wf_digest q depth) proofs"
    "encode_iter (encode_iter (encode_digest_iter C)) proofs = Ok e4" "r3 = e4 @ r" by blast
  then have p0: "wf_merkle_proofs wf_digest q depth (proofs ! 0)" using pos(2) by (simp add: list_all_length)
  then have depth_eq: "length (proofs ! 0 ! 0) = depth"
    using pos(1) by (auto simp: wf_merkle_proofs_def list_all_length)
  have first: "first_proof_len proofs = Ok depth"
    using p0 depth_eq pr(1) pos by (auto simp: first_proof_len_def wf_merkle_proofs_def)
  have "encode_iter (encode_opened_rows C q) (zip rows widths) = Ok e3"
    unfolding e3(1) [symmetric] widths_eq using wf_rows
    by (induction rows) (auto simp: encode_opened_rows_wf)
  with usize_codec.canonical [OF depth] first e3(2) pr widths' q pos(1) wf_rows len_rows depth_eq
  show ?thesis
    by (auto simp: encode_initial_round_def w widths_eq [symmetric] enc_then_def)
qed

lemma wf_codeword_depth:
  assumes "wf_codeword_proofs wf_digest d (map length opened) cw" and "opened ! 0 \<noteq> []" and "0 < length opened"
  shows "length (cw ! 0 ! 0) = d"
proof -
  from assms(3) obtain o1 os where opened: "opened = o1 # os" by (cases opened) auto
  with assms(1) obtain c1 cs where "cw = c1 # cs" "wf_merkle_proofs wf_digest (length o1) d c1"
    by (cases cw) auto
  with assms(2) opened show ?thesis by (auto simp: wf_merkle_proofs_def list_all_length)
qed

lemma whir_canonical:
  assumes "decode_whir_proof C bs = Ok (w, r)" and used: "whir_depth_used w"
  shows "wf_whir_proof wf_digest w \<and> (\<exists>e. encode_whir_proof C w = Ok e \<and> bs = e @ r)"
proof -
  from assms(1) obtain mu r1 S r2 polys r3 commits r4 ood r5 folding r6 phase r7 m r8 q r9 k_exp
      depth r10 widths r11 rows r12 proofs r13 opened r14 cd r15 cw r16 final u1 u2 where
    mu: "decode_base_field C bs = Ok (mu, r1)" and S: "decode_usize r1 = Ok (S, r2)"
    and polys: "decode_n S (decode_ext2 C) r2 = Ok (polys, r3)"
    and commits: "decode_digest_vec C r3 = Ok (commits, r4)"
    and guard: "ensure_that (S mod (length commits + 1) = 0) SumcheckRoundsNotMultiple = Ok u1"
    and ood: "decode_extension_field_n C (length commits + 1 - 1) r4 = Ok (ood, r5)"
    and folding: "decode_base_field_n C S r5 = Ok (folding, r6)"
    and phase: "decode_base_field_n C (length commits + 1) r6 = Ok (phase, r7)"
    and m: "decode_usize r7 = Ok (m, r8)" and m0: "ensure_that (m \<noteq> 0) NumCommitsZero = Ok u2"
    and q: "decode_usize r8 = Ok (q, r9)"
    and shl: "shl64 1 (S div (length commits + 1)) = (Ok k_exp :: (nat, io_error) res)"
    and depth: "(if 0 < q then decode_usize else dret 0) r9 = Ok (depth, r10)"
    and widths: "(if 0 < q then decode_n m decode_usize else dret []) r10 = Ok (widths, r11)"
    and rows: "decode_each (\<lambda>width. decode_n q (decode_n k_exp (decode_base_field_n C width)))
      (widths @ replicate (m - length widths) 0) r11 = Ok (rows, r12)"
    and proofs: "decode_n m (decode_n q (decode_digest_n C depth)) r12 = Ok (proofs, r13)"
    and opened: "decode_n (length commits + 1 - 1) (dbind decode_usize (\<lambda>n.
      decode_n n (decode_extension_field_n C k_exp))) r13 = Ok (opened, r14)"
    and cd: "decode_usize r14 = Ok (cd, r15)"
    and cw: "decode_codeword_proofs C cd (map length opened) r15 = Ok (cw, r16)"
    and final: "decode_extension_field_vec C r16 = Ok (final, r)"
    and w: "w = \<lparr>mu_pow_witness = mu, whir_sumcheck_polys = polys, codeword_commits = commits,
       ood_values = ood, folding_pow_witnesses = folding, query_phase_pow_witnesses = phase,
       initial_round_opened_rows = rows, initial_round_merkle_proofs = proofs,
       codeword_opened_values = opened, codeword_merkle_proofs = cw, final_poly = final\<rparr>"
    unfolding decode_whir_proof_def Let_def
    by (elim dbind_dretE dbind_dliftE dbind_OkE) (rule that)
  define R where "R = length commits + 1"
  have "S div R < 64" using shl by (simp add: shl64_def R_def split: if_splits)
  with shl have k: "S div R < 64" "k_exp = 2 ^ (S div R)"
    by (simp_all add: R_def)
  from used have ne: "commits \<noteq> []" "rows ! 0 \<noteq> []" "opened ! 0 \<noteq> []"
    by (simp_all add: whir_depth_used_def w)
  have "m \<noteq> 0" using m0 by simp
  have q_pos: "0 < q"
  proof (rule ccontr)
    assume "\<not> 0 < q"
    with widths have "rows = map (\<lambda>_. []) (replicate m (0 :: nat))"
      using rows by (simp add: decode_each_dret)
    with \<open>m \<noteq> 0\<close> ne(2) show False by simp
  qed
  have widths_m: "decode_n m decode_usize r10 = Ok (widths, r11)" and depth': "decode_usize r9 = Ok (depth, r10)"
    using widths depth q_pos by simp_all
  with usize_codec.n_canonical [OF widths_m] rows
  have rows': "decode_each (\<lambda>width. decode_n q (decode_n k_exp (decode_base_field_n C width))) widths r11 = Ok (rows, r12)"
    by simp
  have "0 < k_exp" using k(2) by simp
  note init = initial_round_canonical [OF depth' widths_m rows' proofs q_pos _ this, of w, simplified w whir_proof.simps]
  with \<open>m \<noteq> 0\<close> obtain ei where len_rows: "length rows = m"
    and wf_rows: "list_all (\<lambda>cr. wf_opened_rows q k_exp (commit_width cr) cr) rows"
    and wf_proofs: "length proofs = m" "length (proofs ! 0 ! 0) < 2 ^ 32"
      "list_all (wf_merkle_proofs wf_digest q (length (proofs ! 0 ! 0))) proofs"
    and ei: "encode_initial_round C w = Ok ei" "r9 = ei @ r13"
    unfolding w by auto
  have q0: "length (rows ! 0) = q"
    using wf_rows len_rows \<open>m \<noteq> 0\<close> by (auto simp: list_all_length wf_opened_rows_def)
  from codeword_proofs_canonical [OF cw] have wf_cw: "wf_codeword_proofs wf_digest cd (map length opened) cw" ..
  have len_opened: "length opened = length commits" using opened_values_canonical [OF opened] by simp
  have cw0: "length (cw ! 0 ! 0) = cd" "first_proof_len cw = Ok (length (cw ! 0 ! 0))"
    using wf_codeword_depth [OF wf_cw ne(3)] first_codeword_depth [OF wf_cw ne(3)] ne(1) len_opened by simp_all
  note parts = base_elem_canonical [OF mu] usize_codec.canonical [OF S] ext2s_canonical [OF polys]
    digest_vec_canonical [OF commits] ext_n_canonical [OF ood] base_n_canonical [OF folding]
    base_n_canonical [OF phase] usize_codec.canonical [OF m] usize_codec.canonical [OF q]
    opened_values_canonical [OF opened] usize_codec.canonical [OF cd]
    codeword_proofs_canonical [OF cw] ext_vec_canonical [OF final]
  have guard': "S mod R = 0" using guard by (simp add: R_def)
  have "wf_whir_proof wf_digest w"
    unfolding wf_whir_proof_def Let_def
    using parts wf_rows wf_proofs len_rows q0 cw0 wf_cw q_pos ne k guard' \<open>m \<noteq> 0\<close>
    by (simp add: w R_def)
  moreover have "\<exists>e. encode_whir_proof C w = Ok e \<and> bs = e @ r"
    unfolding encode_whir_proof_def Let_def
    using parts q0 cw0 ei q_pos ne guard' len_rows \<open>m \<noteq> 0\<close>
    by (auto simp: w R_def enc_then_def)
  ultimately show ?thesis ..
qed

section \<open>The whole proof\<close>

lemma base_vecs_canonical:
  assumes "decode_n n (decode_base_field_vec C) bs = Ok (xs, r)"
  shows "length xs = n \<and> list_all (\<lambda>v. length v < 2 ^ 32) xs \<and>
     (\<exists>e. encode_iter (encode_base_field_slice C) xs = Ok e \<and> bs = e @ r)"
  by (rule n_canonical_of [OF assms]) (rule base_vec_canonical)

lemma whole_proof_canonical:
  assumes "decode_proof C bs = Ok (p, r)" and used: "whir_depth_used (proof_whir p)"
  shows "wf_proof wf_digest p \<and> (\<exists>e. encode_proof C p = Ok e \<and> bs = e @ r)"
proof -
  from assms(1) obtain v r1 u commit r2 vdata r3 n r4 pvs r5 gkr r6 batch r7 stacking r8 whir where
    v: "decode_u32 bs = Ok (v, r1)"
    and version: "ensure_that (v = codec_version) (CodecVersionMismatch (unat codec_version) (unat v)) = Ok u"
    and commit: "decode_digest C r1 = Ok (commit, r2)" and vdata: "decode_trace_vdatas C r2 = Ok (vdata, r3)"
    and n: "decode_usize r3 = Ok (n, r4)" and pvs: "decode_n n (decode_base_field_vec C) r4 = Ok (pvs, r5)"
    and gkr: "decode_gkr_proof C r5 = Ok (gkr, r6)" and batch: "decode_batch_proof C r6 = Ok (batch, r7)"
    and stacking: "decode_stacking_proof C r7 = Ok (stacking, r8)" and whir: "decode_whir_proof C r8 = Ok (whir, r)"
    and p: "p = \<lparr>common_main_commit = commit, proof_trace_vdata = vdata, proof_public_values = pvs,
       proof_gkr = gkr, proof_batch_constraint = batch, proof_stacking = stacking, proof_whir = whir\<rparr>"
    unfolding decode_proof_def by (elim dbind_dretE dbind_dliftE dbind_OkE) (rule that)
  have "whir_depth_used whir" using used by (simp add: p)
  note parts = u32_codec.canonical [OF v] digest.canonical [OF commit] trace_vdatas_canonical [OF vdata]
    usize_codec.canonical [OF n] base_vecs_canonical [OF pvs] gkr_canonical [OF gkr] batch_canonical [OF batch]
    stacking_canonical [OF stacking] whir_canonical [OF whir this]
  then have "wf_proof wf_digest p" by (simp add: wf_proof_def p)
  moreover have "\<exists>e. encode_proof C p = Ok e \<and> bs = e @ r"
    using parts version by (auto simp: encode_proof_def p enc_then_def)
  ultimately show ?thesis ..
qed

end

lemma codeword_depth_needed:
  "decode_codeword_proofs C d qs bs = Ok (pss, r) \<Longrightarrow> length qs \<le> d"
proof (induction qs arbitrary: d bs pss)
  case (Cons q qs)
  from Cons.prems obtain next_depth r1 rest where "sub64 d 1 = (Ok next_depth :: (nat, io_error) res)"
    and "decode_codeword_proofs C next_depth qs r1 = Ok (rest, r)"
    by (auto elim!: dbind_OkE)
  with Cons.IH show ?case by (fastforce simp: sub64_Ok_iff)
qed simp

section \<open>Properties\<close>

text \<open>A proof with two WHIR rounds, used by the examples below.\<close>

definition bb :: "nat \<Rightarrow> baby_bear" where
  "bb n = from_u32 baby_bear_ops n"

definition sample_whir :: "(baby_bear, baby_bear4, baby_bear list) whir_proof" where
  "sample_whir =
     (let x = (bb 1, bb 2, bb 3, bb 4); d = replicate 8 (bb 7) in
      \<lparr>mu_pow_witness = bb 5, whir_sumcheck_polys = [(x, x), (x, x)], codeword_commits = [d],
       ood_values = [x], folding_pow_witnesses = [bb 0, bb 1], query_phase_pow_witnesses = [bb 2, bb 3],
       initial_round_opened_rows = [[[[bb 8], [bb 9]]]], initial_round_merkle_proofs = [[[d]]],
       codeword_opened_values = [[[x, x]]], codeword_merkle_proofs = [[[d]]], final_poly = [x]\<rparr>)"

definition sample_proof :: "(baby_bear, baby_bear4, baby_bear list) stark_proof" where
  "sample_proof =
     (let x = (bb 1, bb 2, bb 3, bb 4); d = replicate 8 (bb 7);
          layer = \<lparr>p_xi_0 = x, p_xi_1 = x, q_xi_0 = x, q_xi_1 = x\<rparr> in
      \<lparr>common_main_commit = d,
       proof_trace_vdata = [None, Some \<lparr>log_height = 3, cached_commitments = [d]\<rparr>, None],
       proof_public_values = [[bb 1, bb 2], []],
       proof_gkr = \<lparr>logup_pow_witness = bb 3, q0_claim = x, claims_per_layer = [layer, layer, layer],
         sumcheck_polys = [[(x, x, x)], [(x, x, x), (x, x, x)]]\<rparr>,
       proof_batch_constraint = \<lparr>numerator_term_per_air = [x], denominator_term_per_air = [x],
         batch_univariate_round_coeffs = [x, x], batch_sumcheck_round_polys = [[x, x]],
         column_openings = [[[x], [x, x]]]\<rparr>,
       proof_stacking = \<lparr>stacking_univariate_round_coeffs = [x], stacking_sumcheck_round_polys = [(x, x)],
         stacking_openings = [[x]]\<rparr>,
       proof_whir = sample_whir\<rparr>)"

definition sample_one_round :: "(baby_bear, baby_bear4, baby_bear list) stark_proof" where
  "sample_one_round =
     (let x = (bb 1, bb 2, bb 3, bb 4); d = replicate 8 (bb 7) in
      sample_proof\<lparr>proof_whir :=
        \<lparr>mu_pow_witness = bb 5, whir_sumcheck_polys = [(x, x)], codeword_commits = [], ood_values = [],
         folding_pow_witnesses = [bb 0], query_phase_pow_witnesses = [bb 2],
         initial_round_opened_rows = [[[[bb 8], [bb 9]]]], initial_round_merkle_proofs = [[[d]]],
         codeword_opened_values = [], codeword_merkle_proofs = [], final_poly = [x]\<rparr>\<rparr>)"

abbreviation "bb_codec \<equiv> baby_bear_poseidon2_codec baby_bear_ops baby_bear4_ops"

lemma wf_sample_proof: "wf_proof (\<lambda>d. length d = 8) sample_proof"
  by (simp add: sample_proof_def sample_whir_def Let_def wf_proof_def wf_trace_vdatas_def wf_trace_vdata_def
      wf_gkr_proof_def wf_batch_proof_def wf_stacking_proof_def wf_whir_proof_def wf_opened_rows_def
      wf_merkle_proofs_def commit_width_def upt_rec_numeral)

lemma wf_sample_one_round: "wf_proof (\<lambda>d. length d = 8) sample_one_round"
  by (simp add: sample_one_round_def sample_proof_def Let_def wf_proof_def wf_trace_vdatas_def wf_trace_vdata_def
      wf_gkr_proof_def wf_batch_proof_def wf_stacking_proof_def wf_whir_proof_def wf_opened_rows_def
      wf_merkle_proofs_def commit_width_def upt_rec_numeral)

text \<open>C6. Round trip: every well-shaped proof is encoded without an error, and
  \<open>decode_from_bytes\<close> reads the same proof back, consuming the whole input.\<close>
theorem proof_codec_round_trip:
  assumes "stark_codec C wf_digest" and "wf_proof wf_digest p"
  shows "\<exists>bs. encode_proof C p = Ok bs \<and> decode_from_bytes (decode_proof C) bs = Ok p"
proof -
  from stark_codec.whole_proof_round_trip [OF assms] obtain bs where
    "encode_proof C p = Ok bs" "decode_proof C (bs @ []) = Ok (p, [])" by (blast elim: round_tripsE)
  then show ?thesis by (intro exI [of _ bs]) (simp add: decode_from_bytes_def)
qed

theorem proof_codec_round_trip_witness:
  "\<exists>bs. encode_proof bb_codec sample_proof = Ok bs \<and> decode_from_bytes (decode_proof bb_codec) bs = Ok sample_proof"
  by (rule proof_codec_round_trip [OF baby_bear_field.baby_bear.stark_codec_axioms wf_sample_proof])

text \<open>C7. Canonicity: an input that \<open>decode_from_bytes\<close> accepts is the encoding of the proof it
  returns, and that proof is well shaped, when the WHIR proof has a later round and its first
  two rounds make a query. The condition is needed: for a well-shaped WHIR proof of a single round the encoder writes the
  codeword depth 0, and any other depth in its place is accepted as the same proof.\<close>
theorem proof_codec_canonical:
  fixes C :: "('f, 'ef, 'd) codec_config"
  assumes "stark_codec C wf_digest"
  shows "(\<forall>bs p. decode_from_bytes (decode_proof C) bs = Ok p \<and> whir_depth_used (proof_whir p) \<longrightarrow>
       wf_proof wf_digest p \<and> encode_proof C p = Ok bs) \<and>
    (\<forall>p d. wf_proof wf_digest p \<and> codeword_commits (proof_whir p) = [] \<and> d < 2 ^ 32 \<longrightarrow>
       (\<exists>a b e0 e. encode_usize 0 = Ok e0 \<and> encode_usize d = Ok e \<and> encode_proof C p = Ok (a @ e0 @ b) \<and>
          decode_from_bytes (decode_proof C) (a @ e @ b) = Ok p))"
proof (intro conjI allI impI; elim conjE)
  fix bs p
  assume "decode_from_bytes (decode_proof C) bs = Ok p" and used: "whir_depth_used (proof_whir p)"
  then have "decode_proof C bs = Ok (p, [])"
    by (auto simp: decode_from_bytes_def rbind_Ok_iff split: if_splits)
  from stark_codec.whole_proof_canonical [OF assms this used] show "wf_proof wf_digest p" "encode_proof C p = Ok bs" by auto
next
  fix p :: "('f, 'ef, 'd) stark_proof" and d :: nat
  assume "wf_proof wf_digest p" "codeword_commits (proof_whir p) = []" "d < 2 ^ 32"
  from stark_codec.depth_ignored [OF assms this] obtain a b e0 e where "encode_usize 0 = Ok e0" "encode_usize d = Ok e"
    "encode_proof C p = Ok (a @ e0 @ b)" "decode_proof C ((a @ e @ b) @ []) = Ok (p, [])" by blast
  then show "\<exists>a b e0 e. encode_usize 0 = Ok e0 \<and> encode_usize d = Ok e \<and> encode_proof C p = Ok (a @ e0 @ b) \<and>
      decode_from_bytes (decode_proof C) (a @ e @ b) = Ok p"
    by (intro exI [of _ a] exI [of _ b] exI [of _ e0] exI [of _ e]) (simp add: decode_from_bytes_def)
qed

theorem proof_codec_canonical_witness:
  "(\<exists>bs. decode_from_bytes (decode_proof bb_codec) bs = Ok sample_proof \<and>
     wf_proof (\<lambda>d. length d = 8) sample_proof \<and> encode_proof bb_codec sample_proof = Ok bs) \<and>
   (\<exists>a b e0 e. encode_usize 0 = Ok e0 \<and> encode_usize 5 = Ok e \<and>
     encode_proof bb_codec sample_one_round = Ok (a @ e0 @ b) \<and>
     decode_from_bytes (decode_proof bb_codec) (a @ e @ b) = Ok sample_one_round)"
proof -
  from baby_bear_field.baby_bear.whole.from_bytes_round_trip [OF wf_sample_proof] obtain bs where
    bs: "decode_from_bytes (decode_proof bb_codec) bs = Ok sample_proof" by blast
  have used: "whir_depth_used (proof_whir sample_proof)"
    by (simp add: sample_proof_def sample_whir_def whir_depth_used_def Let_def)
  have one: "codeword_commits (proof_whir sample_one_round) = []" "(5 :: nat) < 2 ^ 32"
    by (simp_all add: sample_one_round_def Let_def)
  note canonical = proof_codec_canonical [OF baby_bear_field.baby_bear.stark_codec_axioms]
  from canonical bs used show ?thesis
    using conjunct2 [OF canonical, rule_format, of sample_one_round 5] wf_sample_one_round one by blast
qed

text \<open>C39. The depth of the codeword Merkle proofs is decremented once per round, the last one
  included: a depth below the number of later rounds is never accepted, and when those rounds
  carry no query (so nothing is left to read) the decoder panics on the underflow.\<close>
theorem codeword_depth_underflow:
  assumes "d < length qs"
  shows "decode_codeword_proofs C d qs bs \<noteq> Ok z \<and>
     decode_codeword_proofs C d (replicate (length qs) 0) bs = Panic"
proof
  show "decode_codeword_proofs C d qs bs \<noteq> Ok z"
    using codeword_depth_needed [of C d qs bs "fst z" "snd z"] assms by auto
  have "decode_codeword_proofs C d (replicate n 0) bs = Panic" if "d < n" for n
    using that
  proof (induction n arbitrary: d)
    case (Suc n)
    then show ?case
      by (cases d) (auto simp: dbind_def dret_def dlift_def sub64_def)
  qed simp
  from this [OF assms] show "decode_codeword_proofs C d (replicate (length qs) 0) bs = Panic" .
qed

theorem codeword_depth_underflow_witness:
  "\<forall>z. decode_codeword_proofs bb_codec 1 [0, 3] [] \<noteq> Ok z \<and>
     decode_codeword_proofs bb_codec 1 (replicate (length [0 :: nat, 3]) 0) [] = Panic"
  by (rule allI, rule codeword_depth_underflow) simp

end
