(* ===== verification/Transcript.thy ===== *)
theory Transcript
  imports Prelude "HOL-Library.Monad_Syntax"
begin

text \<open>
  The Fiat-Shamir transcript (\<open>transcript/\<close>). A transcript is a state with three operations
  (\<open>FiatShamirTranscript\<close>); \<open>None\<close> is a panic. The methods with a default body are
  defined over these operations. \<open>DuplexSponge\<close>, the recorder, the validator and the
  read-only replay are the implementations; the locale \<open>transcript\<close> is the contract the
  verifier relies on.
\<close>

section \<open>FiatShamirTranscript\<close>

record ('ts, 'f, 'd) transcript_ops =
  t_observe :: "'ts \<Rightarrow> 'f \<Rightarrow> 'ts option"
  t_sample :: "'ts \<Rightarrow> ('f \<times> 'ts) option"
  t_observe_commit :: "'ts \<Rightarrow> 'd \<Rightarrow> 'ts option"

text \<open>The Plonky3 field as the transcript sees it: basis coefficients, canonical \<open>u64\<close>, order.\<close>

record ('f, 'ef) field_ops =
  f_order :: nat
  f_as_u64 :: "'f \<Rightarrow> nat"
  f_from_u64 :: "nat \<Rightarrow> 'f"
  ef_dimension :: nat
  ef_coefficients :: "'ef \<Rightarrow> 'f list"
  ef_from_coefficients :: "'f list \<Rightarrow> 'ef"

fun observe_all :: "('ts, 'f, 'd) transcript_ops \<Rightarrow> 'f list \<Rightarrow> 'ts \<Rightarrow> 'ts option" where
  "observe_all T [] s = Some s"
| "observe_all T (v # vs) s = do { s' \<leftarrow> t_observe T s v; observe_all T vs s' }"

definition observe_ext ::
    "('ts, 'f, 'd) transcript_ops \<Rightarrow> ('f, 'ef) field_ops \<Rightarrow> 'ts \<Rightarrow> 'ef \<Rightarrow> 'ts option" where
  "observe_ext T K s v = observe_all T (ef_coefficients K v) s"

fun sample_n :: "('ts, 'f, 'd) transcript_ops \<Rightarrow> nat \<Rightarrow> 'ts \<Rightarrow> ('f list \<times> 'ts) option" where
  "sample_n T 0 s = Some ([], s)"
| "sample_n T (Suc n) s = do { (x, s') \<leftarrow> t_sample T s; (xs, s'') \<leftarrow> sample_n T n s'; Some (x # xs, s'') }"

definition sample_ext ::
    "('ts, 'f, 'd) transcript_ops \<Rightarrow> ('f, 'ef) field_ops \<Rightarrow> 'ts \<Rightarrow> ('ef \<times> 'ts) option" where
  "sample_ext T K s = do { (xs, s') \<leftarrow> sample_n T (ef_dimension K) s; Some (ef_from_coefficients K xs, s') }"

text \<open>\<open>x & ((1 << bits) - 1)\<close> is written as the remainder, which it is for a power of two.\<close>

definition sample_bits ::
    "('ts, 'f, 'd) transcript_ops \<Rightarrow> ('f, 'ef) field_ops \<Rightarrow> 'ts \<Rightarrow> nat \<Rightarrow> (nat \<times> 'ts) option" where
  "sample_bits T K s bits =
     (if bits < 32 \<and> 2 ^ bits < f_order K
      then do { (x, s') \<leftarrow> t_sample T s; Some (and (f_as_u64 K x) (2 ^ bits - 1), s') }
      else None)"

definition check_witness ::
    "('ts, 'f, 'd) transcript_ops \<Rightarrow> ('f, 'ef) field_ops \<Rightarrow> 'ts \<Rightarrow> nat \<Rightarrow> 'f \<Rightarrow> (bool \<times> 'ts) option" where
  "check_witness T K s bits witness =
     (if bits = 0 then Some (True, s)
      else do { s1 \<leftarrow> t_observe T s witness; (r, s2) \<leftarrow> sample_bits T K s1 bits; Some (r = 0, s2) })"

text \<open>
  \<open>grind\<close> takes any of the accepted witnesses (\<open>find_any\<close> of a parallel iterator): which
  one is the argument \<open>pick\<close>. No witness is the panic of \<open>expect\<close>.
\<close>

definition accepted_witness ::
    "('ts, 'f, 'd) transcript_ops \<Rightarrow> ('f, 'ef) field_ops \<Rightarrow> 'ts \<Rightarrow> nat \<Rightarrow> 'f \<Rightarrow> bool" where
  "accepted_witness T K s bits w = (case check_witness T K s bits w of Some (True, _) \<Rightarrow> True | _ \<Rightarrow> False)"

definition grind ::
    "('ts, 'f, 'd) transcript_ops \<Rightarrow> ('f, 'ef) field_ops \<Rightarrow> ('f list \<Rightarrow> 'f) \<Rightarrow> 'f \<Rightarrow> 'ts \<Rightarrow> nat \<Rightarrow> ('f \<times> 'ts) option" where
  "grind T K pick zero s bits =
     (if \<not> (bits < 32 \<and> 2 ^ bits < f_order K) then None
      else if bits = 0 then Some (zero, s)
      else case filter (accepted_witness T K s bits) (map (f_from_u64 K) [0..<f_order K]) of
             [] \<Rightarrow> None
           | ws \<Rightarrow> do { (ok, s') \<leftarrow> check_witness T K s bits (pick ws);
                        if ok then Some (pick ws, s') else None })"

section \<open>DuplexSponge\<close>

record 'f sponge_config =
  sp_perm :: "'f list \<Rightarrow> 'f list"
  sp_width :: nat
  sp_rate :: nat
  sp_default :: 'f

record 'f duplex_sponge =
  sponge_state :: "'f list"
  absorb_idx :: nat
  sample_idx :: nat
  last_op_perm :: bool

definition sponge_from :: "'f sponge_config \<Rightarrow> 'f duplex_sponge" where
  "sponge_from G = \<lparr>sponge_state = replicate (sp_width G) (sp_default G), absorb_idx = 0,
     sample_idx = 0, last_op_perm = False\<rparr>"

definition sponge_permute :: "'f sponge_config \<Rightarrow> 'f duplex_sponge \<Rightarrow> 'f duplex_sponge" where
  "sponge_permute G s = s\<lparr>sponge_state := sp_perm G (sponge_state s), absorb_idx := 0, sample_idx := sp_rate G\<rparr>"

definition absorb :: "'f sponge_config \<Rightarrow> 'f duplex_sponge \<Rightarrow> 'f \<Rightarrow> 'f duplex_sponge option" where
  "absorb G s v =
     (if absorb_idx s < length (sponge_state s) then
        let s1 = s\<lparr>sponge_state := (sponge_state s)[absorb_idx s := v], absorb_idx := absorb_idx s + 1,
                   last_op_perm := (absorb_idx s + 1 = sp_rate G)\<rparr> in
        Some (if last_op_perm s1 then sponge_permute G s1 else s1)
      else None)"

definition squeeze :: "'f sponge_config \<Rightarrow> 'f duplex_sponge \<Rightarrow> ('f \<times> 'f duplex_sponge) option" where
  "squeeze G s =
     (let s1 = s\<lparr>last_op_perm := (absorb_idx s \<noteq> 0 \<or> sample_idx s = 0)\<rparr>;
          s2 = (if last_op_perm s1 then sponge_permute G s1 else s1) in
      if 0 < sample_idx s2 \<and> sample_idx s2 - 1 < length (sponge_state s2)
      then Some (sponge_state s2 ! (sample_idx s2 - 1), s2\<lparr>sample_idx := sample_idx s2 - 1\<rparr>)
      else None)"

fun absorb_all :: "'f sponge_config \<Rightarrow> 'f duplex_sponge \<Rightarrow> 'f list \<Rightarrow> 'f duplex_sponge option" where
  "absorb_all G s [] = Some s"
| "absorb_all G s (v # vs) = do { s' \<leftarrow> absorb G s v; absorb_all G s' vs }"

definition sponge_ops :: "'f sponge_config \<Rightarrow> ('f duplex_sponge, 'f, 'f list) transcript_ops" where
  "sponge_ops G = \<lparr>t_observe = absorb G, t_sample = squeeze G, t_observe_commit = absorb_all G\<rparr>"

text \<open>The permutation is Plonky3 code: all that is used is that it keeps the state's length.\<close>

definition wf_sponge_config :: "'f sponge_config \<Rightarrow> bool" where
  "wf_sponge_config G \<longleftrightarrow> 0 < sp_rate G \<and> sp_rate G \<le> sp_width G \<and>
     (\<forall>s. length s = sp_width G \<longrightarrow> length (sp_perm G s) = sp_width G)"

text \<open>The invariant written at the fields of the struct.\<close>

definition sponge_inv :: "'f sponge_config \<Rightarrow> 'f duplex_sponge \<Rightarrow> bool" where
  "sponge_inv G s \<longleftrightarrow> length (sponge_state s) = sp_width G \<and> absorb_idx s < sp_rate G \<and> sample_idx s \<le> sp_rate G"

lemma sponge_inv_from: "wf_sponge_config G \<Longrightarrow> sponge_inv G (sponge_from G)"
  by (simp add: wf_sponge_config_def sponge_inv_def sponge_from_def)

lemma sponge_inv_absorb:
  assumes "wf_sponge_config G" and "sponge_inv G s"
  shows "\<exists>s'. absorb G s v = Some s' \<and> sponge_inv G s'"
  using assms
  by (auto simp: absorb_def sponge_inv_def wf_sponge_config_def sponge_permute_def Let_def)

lemma sponge_inv_squeeze:
  assumes "wf_sponge_config G" and "sponge_inv G s"
  shows "\<exists>x s'. squeeze G s = Some (x, s') \<and> sponge_inv G s'"
  using assms
  by (auto simp: squeeze_def sponge_inv_def wf_sponge_config_def sponge_permute_def Let_def)

section \<open>The contract of a transcript\<close>

text \<open>
  \<open>inv\<close> is a property of the transcript states that every operation keeps and under which
  no operation panics, for digests that satisfy \<open>wf_digest\<close>. This is what the verifier
  needs in order not to panic itself.
\<close>

locale transcript =
  fixes T :: "('ts, 'f, 'd) transcript_ops" and inv :: "'ts \<Rightarrow> bool" and wf_digest :: "'d \<Rightarrow> bool"
  assumes observe_total: "inv s \<Longrightarrow> \<exists>s'. t_observe T s v = Some s' \<and> inv s'"
    and sample_total: "inv s \<Longrightarrow> \<exists>x s'. t_sample T s = Some (x, s') \<and> inv s'"
    and observe_commit_total: "inv s \<Longrightarrow> wf_digest d \<Longrightarrow> \<exists>s'. t_observe_commit T s d = Some s' \<and> inv s'"
begin

lemma observe_all_total: "inv s \<Longrightarrow> \<exists>s'. observe_all T vs s = Some s' \<and> inv s'"
proof (induction vs arbitrary: s)
  case (Cons v vs)
  from observe_total [OF Cons.prems] obtain s1 where "t_observe T s v = Some s1" "inv s1" by blast
  with Cons.IH [of s1] show ?case by simp
qed simp

lemma observe_ext_total: "inv s \<Longrightarrow> \<exists>s'. observe_ext T K s v = Some s' \<and> inv s'"
  by (simp add: observe_ext_def observe_all_total)

lemma sample_n_total: "inv s \<Longrightarrow> \<exists>xs s'. sample_n T n s = Some (xs, s') \<and> length xs = n \<and> inv s'"
proof (induction n arbitrary: s)
  case (Suc n)
  from sample_total [OF Suc.prems] obtain x s1 where "t_sample T s = Some (x, s1)" "inv s1" by blast
  with Suc.IH [of s1] show ?case by auto
qed simp

lemma sample_ext_total: "inv s \<Longrightarrow> \<exists>x s'. sample_ext T K s = Some (x, s') \<and> inv s'"
  using sample_n_total [of s "ef_dimension K"] by (auto simp: sample_ext_def)

lemma sample_bits_total:
  assumes "inv s" and "bits < 32" and "2 ^ bits < f_order K"
  shows "\<exists>r s'. sample_bits T K s bits = Some (r, s') \<and> r < 2 ^ bits \<and> inv s'"
proof -
  from sample_total [OF assms(1)] obtain x s1 where "t_sample T s = Some (x, s1)" "inv s1" by blast
  moreover have "and n (2 ^ bits - 1) = n mod 2 ^ bits" for n :: nat
    by (simp add: take_bit_eq_mask mask_eq_exp_minus_1 flip: take_bit_eq_mod)
  ultimately show ?thesis using assms by (simp add: sample_bits_def)
qed

lemma check_witness_total:
  assumes "inv s" and "bits < 32" and "2 ^ bits < f_order K"
  shows "\<exists>ok s'. check_witness T K s bits w = Some (ok, s') \<and> inv s'"
proof (cases "bits = 0")
  case False
  from observe_total [OF assms(1)] obtain s1 where "t_observe T s w = Some s1" "inv s1" by blast
  with sample_bits_total [of s1 bits K] assms False show ?thesis by (auto simp: check_witness_def)
qed (auto simp: check_witness_def assms)

end

lemma absorb_all_total:
  assumes "wf_sponge_config G"
  shows "sponge_inv G s \<Longrightarrow> \<exists>s'. absorb_all G s vs = Some s' \<and> sponge_inv G s'"
proof (induction vs arbitrary: s)
  case (Cons v vs)
  from sponge_inv_absorb [OF assms Cons.prems] obtain s1 where "absorb G s v = Some s1" "sponge_inv G s1"
    by blast
  with Cons.IH [of s1] show ?case by simp
qed simp

text \<open>The sponge keeps the contract whatever the permutation is, as long as it keeps the length.\<close>

locale duplex =
  fixes G :: "'f sponge_config"
  assumes wf_config: "wf_sponge_config G"

sublocale duplex \<subseteq> transcript "sponge_ops G" "sponge_inv G" "\<lambda>_. True"
  using wf_config by unfold_locales
    (simp_all add: sponge_ops_def sponge_inv_absorb sponge_inv_squeeze absorb_all_total)

definition mix_config :: "nat sponge_config" where
  "mix_config = \<lparr>sp_perm = (\<lambda>s. map (\<lambda>x. sum_list s + 3 * x) s), sp_width = 3, sp_rate = 2, sp_default = 0\<rparr>"

lemma wf_mix_config: "wf_sponge_config mix_config"
  by (simp add: wf_sponge_config_def mix_config_def)

interpretation mix_sponge: duplex mix_config
  by unfold_locales (rule wf_mix_config)

section \<open>The buffered challenger that the sponge has to be equivalent to\<close>

text \<open>
  The reference is a challenger with an input and an output buffer: observing empties the
  output buffer, a full input buffer or a sample with nothing to hand out triggers a
  duplexing, which overwrites the front of the state with the inputs, permutes it, and
  refills the outputs from the first \<open>RATE\<close> elements, handed out from the back.
\<close>

record 'f challenger =
  ch_state :: "'f list"
  ch_input :: "'f list"
  ch_output :: "'f list"

definition ch_new :: "'f sponge_config \<Rightarrow> 'f challenger" where
  "ch_new G = \<lparr>ch_state = replicate (sp_width G) (sp_default G), ch_input = [], ch_output = []\<rparr>"

definition duplexing :: "'f sponge_config \<Rightarrow> 'f challenger \<Rightarrow> 'f challenger" where
  "duplexing G c =
     (let st = sp_perm G (ch_input c @ drop (length (ch_input c)) (ch_state c)) in
      \<lparr>ch_state = st, ch_input = [], ch_output = take (sp_rate G) st\<rparr>)"

definition ch_observe :: "'f sponge_config \<Rightarrow> 'f challenger \<Rightarrow> 'f \<Rightarrow> 'f challenger" where
  "ch_observe G c v =
     (let c1 = c\<lparr>ch_input := ch_input c @ [v], ch_output := []\<rparr> in
      if length (ch_input c1) = sp_rate G then duplexing G c1 else c1)"

definition ch_sample :: "'f sponge_config \<Rightarrow> 'f challenger \<Rightarrow> 'f \<times> 'f challenger" where
  "ch_sample G c =
     (let c1 = (if ch_input c \<noteq> [] \<or> ch_output c = [] then duplexing G c else c) in
      (last (ch_output c1), c1\<lparr>ch_output := butlast (ch_output c1)\<rparr>))"

text \<open>The abstraction relation between the sponge and the challenger.\<close>

definition represents :: "'f sponge_config \<Rightarrow> 'f duplex_sponge \<Rightarrow> 'f challenger \<Rightarrow> bool" where
  "represents G s c \<longleftrightarrow> sponge_inv G s \<and> length (ch_state c) = sp_width G \<and>
     length (ch_input c) = absorb_idx s \<and>
     sponge_state s = ch_input c @ drop (absorb_idx s) (ch_state c) \<and>
     (absorb_idx s = 0 \<longrightarrow> ch_output c = take (sample_idx s) (sponge_state s)) \<and>
     (absorb_idx s \<noteq> 0 \<longrightarrow> ch_output c = [])"

lemma represents_new: "wf_sponge_config G \<Longrightarrow> represents G (sponge_from G) (ch_new G)"
  by (simp add: represents_def sponge_inv_from) (simp add: sponge_from_def ch_new_def)

lemma list_update_at_append: "n = length xs \<Longrightarrow> ys \<noteq> [] \<Longrightarrow> (xs @ ys)[n := v] = (xs @ [v]) @ drop 1 ys"
  by (cases ys) simp_all

lemma represents_observe:
  assumes wf: "wf_sponge_config G" and r: "represents G s c"
  shows "\<exists>s'. absorb G s v = Some s' \<and> represents G s' (ch_observe G c v)"
proof -
  let ?n = "absorb_idx s"
  from wf r have n: "?n < sp_rate G" "?n < sp_width G" "length (sponge_state s) = sp_width G"
    and perm: "\<And>x. length x = sp_width G \<Longrightarrow> length (sp_perm G x) = sp_width G"
    and inp: "length (ch_input c) = ?n" "length (ch_state c) = sp_width G" "0 < sp_rate G"
    by (auto simp: represents_def sponge_inv_def wf_sponge_config_def)
  have upd: "(sponge_state s)[?n := v] = (ch_input c @ [v]) @ drop (?n + 1) (ch_state c)"
    using r n inp by (simp add: represents_def list_update_at_append)
  show ?thesis
    using wf r n inp perm upd
    by (auto simp: absorb_def ch_observe_def represents_def sponge_inv_def sponge_permute_def duplexing_def
        wf_sponge_config_def Let_def)
qed

lemma represents_sample:
  assumes wf: "wf_sponge_config G" and r: "represents G s c"
  shows "\<exists>s'. squeeze G s = Some (fst (ch_sample G c), s') \<and> represents G s' (snd (ch_sample G c))"
proof -
  from wf r have len: "length (sponge_state s) = sp_width G" "sample_idx s \<le> sp_rate G"
    and perm: "length (sp_perm G (sponge_state s)) = sp_width G"
    and rate: "0 < sp_rate G" "sp_rate G \<le> sp_width G"
    by (auto simp: represents_def sponge_inv_def wf_sponge_config_def)
  have out: "last (take k x) = x ! (k - 1)" "butlast (take k x) = take (k - 1) x"
    if "0 < k" "k \<le> length x" for k and x :: "'a list"
  proof -
    from that have "take k x \<noteq> []" by auto
    with that show "last (take k x) = x ! (k - 1)" "butlast (take k x) = take (k - 1) x"
      by (simp_all add: last_conv_nth butlast_take)
  qed
  have dup: "absorb_idx s \<noteq> 0 \<or> sample_idx s = 0 \<longleftrightarrow> ch_input c \<noteq> [] \<or> ch_output c = []"
    using r len rate by (auto simp: represents_def)
  show ?thesis
  proof (cases "absorb_idx s \<noteq> 0 \<or> sample_idx s = 0")
    case True
    moreover have "sp_rate G - 1 < sp_width G" using rate by linarith
    ultimately show ?thesis
      using dup r len perm rate
      by (simp add: squeeze_def ch_sample_def sponge_permute_def duplexing_def represents_def sponge_inv_def
          Let_def out)
  next
    case False
    with dup r len perm rate show ?thesis
      by (auto simp: squeeze_def ch_sample_def represents_def sponge_inv_def Let_def out)
  qed
qed

section \<open>Runs of observe and sample\<close>

datatype 'f t_op = Observe 'f | Sample

fun run_ops :: "('ts, 'f, 'd) transcript_ops \<Rightarrow> 'f t_op list \<Rightarrow> 'ts \<Rightarrow> ('f list \<times> 'ts) option" where
  "run_ops T [] s = Some ([], s)"
| "run_ops T (Observe v # ops) s = do { s' \<leftarrow> t_observe T s v; run_ops T ops s' }"
| "run_ops T (Sample # ops) s =
     do { (x, s') \<leftarrow> t_sample T s; (xs, s'') \<leftarrow> run_ops T ops s'; Some (x # xs, s'') }"

fun ch_run :: "'f sponge_config \<Rightarrow> 'f t_op list \<Rightarrow> 'f challenger \<Rightarrow> 'f list" where
  "ch_run G [] c = []"
| "ch_run G (Observe v # ops) c = ch_run G ops (ch_observe G c v)"
| "ch_run G (Sample # ops) c = fst (ch_sample G c) # ch_run G ops (snd (ch_sample G c))"

lemma sponge_run:
  assumes "wf_sponge_config G"
  shows "represents G s c \<Longrightarrow>
     \<exists>s'. run_ops (sponge_ops G) ops s = Some (ch_run G ops c, s') \<and> sponge_inv G s'"
proof (induction ops arbitrary: s c)
  case (Cons x ops)
  show ?case
  proof (cases x)
    case (Observe v)
    from represents_observe [OF assms Cons.prems, of v] Cons.IH Observe show ?thesis
      by (fastforce simp: sponge_ops_def)
  next
    case Sample
    from represents_sample [OF assms Cons.prems] Cons.IH Sample show ?thesis
      by (fastforce simp: sponge_ops_def)
  qed
qed (simp add: represents_def)

context transcript
begin

lemma run_ops_total: "inv s \<Longrightarrow> \<exists>outs s'. run_ops T ops s = Some (outs, s') \<and> inv s'"
proof (induction ops arbitrary: s)
  case (Cons x ops)
  show ?case
  proof (cases x)
    case (Observe v)
    with observe_total [OF Cons.prems, of v] Cons.IH show ?thesis by fastforce
  next
    case Sample
    with sample_total [OF Cons.prems] Cons.IH show ?thesis by fastforce
  qed
qed simp

end

section \<open>Recording, validating and replaying\<close>

record ('f, 'st) transcript_log =
  log_values :: "'f list"
  log_is_sample :: "bool list"
  log_perm_results :: "'st list"

definition empty_log :: "('f, 'st) transcript_log" where
  "empty_log = \<lparr>log_values = [], log_is_sample = [], log_perm_results = []\<rparr>"

definition push_observe :: "('f, 'st) transcript_log \<Rightarrow> 'f \<Rightarrow> ('f, 'st) transcript_log" where
  "push_observe l v = l\<lparr>log_values := log_values l @ [v], log_is_sample := log_is_sample l @ [False]\<rparr>"

definition push_sample :: "('f, 'st) transcript_log \<Rightarrow> 'f \<Rightarrow> ('f, 'st) transcript_log" where
  "push_sample l v = l\<lparr>log_values := log_values l @ [v], log_is_sample := log_is_sample l @ [True]\<rparr>"

definition push_perm_result :: "('f, 'st) transcript_log \<Rightarrow> 'st \<Rightarrow> ('f, 'st) transcript_log" where
  "push_perm_result l st = l\<lparr>log_perm_results := log_perm_results l @ [st]\<rparr>"

record 'f recorder =
  rec_inner :: "'f duplex_sponge"
  rec_log :: "('f, 'f list) transcript_log"

definition recorder_from :: "'f sponge_config \<Rightarrow> 'f recorder" where
  "recorder_from G = \<lparr>rec_inner = sponge_from G,
     rec_log = push_perm_result empty_log (replicate (sp_width G) (sp_default G))\<rparr>"

definition log_perm :: "'f recorder \<Rightarrow> 'f recorder" where
  "log_perm r = (if last_op_perm (rec_inner r)
     then r\<lparr>rec_log := push_perm_result (rec_log r) (sponge_state (rec_inner r))\<rparr> else r)"

definition rec_observe :: "'f sponge_config \<Rightarrow> 'f recorder \<Rightarrow> 'f \<Rightarrow> 'f recorder option" where
  "rec_observe G r x = do {
     i \<leftarrow> absorb G (rec_inner r) x;
     Some (log_perm \<lparr>rec_inner = i, rec_log = push_observe (rec_log r) x\<rparr>) }"

definition rec_sample :: "'f sponge_config \<Rightarrow> 'f recorder \<Rightarrow> ('f \<times> 'f recorder) option" where
  "rec_sample G r = do {
     (x, i) \<leftarrow> squeeze G (rec_inner r);
     Some (x, log_perm \<lparr>rec_inner = i, rec_log = push_sample (rec_log r) x\<rparr>) }"

fun rec_observe_all :: "'f sponge_config \<Rightarrow> 'f recorder \<Rightarrow> 'f list \<Rightarrow> 'f recorder option" where
  "rec_observe_all G r [] = Some r"
| "rec_observe_all G r (x # xs) = do { r' \<leftarrow> rec_observe G r x; rec_observe_all G r' xs }"

definition recorder_ops :: "'f sponge_config \<Rightarrow> ('f recorder, 'f, 'f list) transcript_ops" where
  "recorder_ops G = \<lparr>t_observe = rec_observe G, t_sample = rec_sample G, t_observe_commit = rec_observe_all G\<rparr>"

record 'f validator =
  val_inner :: "'f recorder"
  val_idx :: nat
  val_log :: "('f, 'f list) transcript_log"

definition validator_new :: "'f sponge_config \<Rightarrow> ('f, 'f list) transcript_log \<Rightarrow> 'f validator option" where
  "validator_new G l =
     (if length (log_values l) = length (log_is_sample l)
      then Some \<lparr>val_inner = recorder_from G, val_idx = 0, val_log = l\<rparr> else None)"

definition val_observe :: "'f sponge_config \<Rightarrow> 'f validator \<Rightarrow> 'f \<Rightarrow> 'f validator option" where
  "val_observe G v x =
     (if val_idx v < length (log_values (val_log v)) \<and> val_idx v < length (log_is_sample (val_log v))
         \<and> \<not> log_is_sample (val_log v) ! val_idx v \<and> x = log_values (val_log v) ! val_idx v
      then do { r \<leftarrow> rec_observe G (val_inner v) x; Some (v\<lparr>val_inner := r, val_idx := val_idx v + 1\<rparr>) }
      else None)"

definition val_sample :: "'f sponge_config \<Rightarrow> 'f validator \<Rightarrow> ('f \<times> 'f validator) option" where
  "val_sample G v =
     (if val_idx v < length (log_values (val_log v)) \<and> val_idx v < length (log_is_sample (val_log v))
         \<and> log_is_sample (val_log v) ! val_idx v
      then do { (x, r) \<leftarrow> rec_sample G (val_inner v);
                if x = log_values (val_log v) ! val_idx v
                then Some (x, v\<lparr>val_inner := r, val_idx := val_idx v + 1\<rparr>) else None }
      else None)"

fun val_observe_all :: "'f sponge_config \<Rightarrow> 'f validator \<Rightarrow> 'f list \<Rightarrow> 'f validator option" where
  "val_observe_all G v [] = Some v"
| "val_observe_all G v (x # xs) = do { v' \<leftarrow> val_observe G v x; val_observe_all G v' xs }"

definition validator_ops :: "'f sponge_config \<Rightarrow> ('f validator, 'f, 'f list) transcript_ops" where
  "validator_ops G = \<lparr>t_observe = val_observe G, t_sample = val_sample G, t_observe_commit = val_observe_all G\<rparr>"

text \<open>\<open>into_log\<close> of the validator: both logs have to be consumed to the end.\<close>

definition val_into_log :: "'f validator \<Rightarrow> ('f, 'f list) transcript_log option" where
  "val_into_log v =
     (let n = length (log_values (rec_log (val_inner v))) in
      if n = length (log_values (val_log v)) \<and> n = val_idx v \<and> length (log_values (val_log v)) = val_idx v
      then Some (rec_log (val_inner v)) else None)"

text \<open>The read-only transcript: a log and a position in it.\<close>

definition ro_observe :: "('f, 'st) transcript_log \<Rightarrow> nat \<Rightarrow> 'f \<Rightarrow> nat option" where
  "ro_observe l pos v =
     (if pos < length (log_is_sample l) \<and> \<not> log_is_sample l ! pos \<and>
         pos < length (log_values l) \<and> log_values l ! pos = v
      then Some (pos + 1) else None)"

definition ro_sample :: "('f, 'st) transcript_log \<Rightarrow> nat \<Rightarrow> ('f \<times> nat) option" where
  "ro_sample l pos =
     (if pos < length (log_is_sample l) \<and> log_is_sample l ! pos \<and> pos < length (log_values l)
      then Some (log_values l ! pos, pos + 1) else None)"

fun ro_observe_all :: "('f, 'st) transcript_log \<Rightarrow> nat \<Rightarrow> 'f list \<Rightarrow> nat option" where
  "ro_observe_all l pos [] = Some pos"
| "ro_observe_all l pos (v # vs) = do { pos' \<leftarrow> ro_observe l pos v; ro_observe_all l pos' vs }"

definition read_only_ops :: "('f, 'st) transcript_log \<Rightarrow> (nat, 'f, 'f list) transcript_ops" where
  "read_only_ops l = \<lparr>t_observe = ro_observe l, t_sample = ro_sample l, t_observe_commit = ro_observe_all l\<rparr>"

text \<open>The entries that a run leaves in the log.\<close>

fun log_entries :: "'f t_op list \<Rightarrow> 'f list \<Rightarrow> ('f \<times> bool) list" where
  "log_entries [] outs = []"
| "log_entries (Observe v # ops) outs = (v, False) # log_entries ops outs"
| "log_entries (Sample # ops) outs = (hd outs, True) # log_entries ops (tl outs)"

lemma log_perm_simps [simp]:
  "log_values (rec_log (log_perm r)) = log_values (rec_log r)"
  "log_is_sample (rec_log (log_perm r)) = log_is_sample (rec_log r)"
  "rec_inner (log_perm r) = rec_inner r"
  by (simp_all add: log_perm_def push_perm_result_def)

text \<open>The recorder runs the sponge and appends the entries; in particular both vectors keep one length.\<close>

lemma recorder_run:
  assumes "run_ops (recorder_ops G) ops r = Some (outs, r')"
  shows "\<exists>s'. run_ops (sponge_ops G) ops (rec_inner r) = Some (outs, s') \<and> rec_inner r' = s' \<and>
     length (log_entries ops outs) = length ops \<and>
     log_values (rec_log r') = log_values (rec_log r) @ map fst (log_entries ops outs) \<and>
     log_is_sample (rec_log r') = log_is_sample (rec_log r) @ map snd (log_entries ops outs)"
  using assms
proof (induction ops arbitrary: r outs)
  case (Cons x ops)
  show ?case
  proof (cases x)
    case (Observe v)
    with Cons.prems obtain i where i: "absorb G (rec_inner r) v = Some i"
      and rest: "run_ops (recorder_ops G) ops (log_perm \<lparr>rec_inner = i, rec_log = push_observe (rec_log r) v\<rparr>)
        = Some (outs, r')"
      by (auto simp: recorder_ops_def rec_observe_def split: Option.bind_splits)
    from Cons.IH [OF rest] i Observe show ?thesis
      by (simp add: sponge_ops_def push_observe_def)
  next
    case Sample
    with Cons.prems obtain y i ys where i: "squeeze G (rec_inner r) = Some (y, i)" and outs: "outs = y # ys"
      and rest: "run_ops (recorder_ops G) ops (log_perm \<lparr>rec_inner = i, rec_log = push_sample (rec_log r) y\<rparr>)
        = Some (ys, r')"
      by (auto simp: recorder_ops_def rec_sample_def split: Option.bind_splits)
    from Cons.IH [OF rest] i Sample show ?thesis
      by (simp add: sponge_ops_def push_sample_def outs)
  qed
qed simp

lemma entry_at:
  assumes "map fst es = vs" and "map snd es = fs" and "es = pre @ e # rest"
  shows "vs ! length pre = fst e \<and> fs ! length pre = snd e \<and> length pre < length vs \<and> length pre < length fs"
  using nth_map [of "length pre" es fst] nth_map [of "length pre" es snd] assms(3)
  by (simp add: nth_append del: nth_map flip: assms(1,2))

text \<open>Replaying the log from the position where a run started reproduces its samples.\<close>

lemma read_only_run:
  assumes "map fst es = log_values l" and "map snd es = log_is_sample l"
    and "run_ops T ops s = Some (outs, s')" and "es = pre @ log_entries ops outs @ post"
  shows "run_ops (read_only_ops l) ops (length pre) = Some (outs, length pre + length ops)"
  using assms(3,4)
proof (induction ops arbitrary: s outs pre)
  case (Cons x ops)
  have nth: "log_values l ! length pre = fst e \<and> log_is_sample l ! length pre = snd e \<and>
      length pre < length (log_values l) \<and> length pre < length (log_is_sample l)"
    if "es = pre @ e # rest" for e rest
    using entry_at assms(1,2) that by metis
  show ?case
  proof (cases x)
    case (Observe v)
    with Cons.prems obtain s1 where "run_ops T ops s1 = Some (outs, s')"
      and es: "es = pre @ (v, False) # log_entries ops outs @ post"
      by (auto split: Option.bind_splits)
    with Cons.IH [of s1 outs "pre @ [(v, False)]"] nth [OF es] Observe show ?thesis
      by (simp add: read_only_ops_def ro_observe_def)
  next
    case Sample
    with Cons.prems obtain y s1 ys where "run_ops T ops s1 = Some (ys, s')" and outs: "outs = y # ys"
      and es: "es = pre @ (y, True) # log_entries ops ys @ post"
      by (auto split: Option.bind_splits)
    with Cons.IH [of s1 ys "pre @ [(y, True)]"] nth [OF es] Sample show ?thesis
      by (simp add: read_only_ops_def ro_sample_def)
  qed
qed simp

text \<open>The validator, run on a log that the recorder made, follows the recorder.\<close>

lemma validator_run:
  assumes "map fst es = log_values l" and "map snd es = log_is_sample l"
    and "run_ops (recorder_ops G) ops r = Some (outs, r')" and "es = pre @ log_entries ops outs @ post"
  shows "run_ops (validator_ops G) ops \<lparr>val_inner = r, val_idx = length pre, val_log = l\<rparr>
     = Some (outs, \<lparr>val_inner = r', val_idx = length pre + length ops, val_log = l\<rparr>)"
  using assms(3,4)
proof (induction ops arbitrary: r outs pre)
  case (Cons x ops)
  have nth: "log_values l ! length pre = fst e \<and> log_is_sample l ! length pre = snd e \<and>
      length pre < length (log_values l) \<and> length pre < length (log_is_sample l)"
    if "es = pre @ e # rest" for e rest
    using entry_at assms(1,2) that by metis
  show ?case
  proof (cases x)
    case (Observe v)
    with Cons.prems obtain r1 where r1: "rec_observe G r v = Some r1"
      and "run_ops (recorder_ops G) ops r1 = Some (outs, r')"
      and es: "es = pre @ (v, False) # log_entries ops outs @ post"
      by (auto simp: recorder_ops_def split: Option.bind_splits)
    with Cons.IH [of r1 outs "pre @ [(v, False)]"] nth [OF es] Observe show ?thesis
      by (simp add: validator_ops_def val_observe_def)
  next
    case Sample
    with Cons.prems obtain y r1 ys where r1: "rec_sample G r = Some (y, r1)"
      and "run_ops (recorder_ops G) ops r1 = Some (ys, r')" and outs: "outs = y # ys"
      and es: "es = pre @ (y, True) # log_entries ops ys @ post"
      by (auto simp: recorder_ops_def split: Option.bind_splits)
    with Cons.IH [of r1 ys "pre @ [(y, True)]"] nth [OF es] Sample show ?thesis
      by (simp add: validator_ops_def val_sample_def)
  qed
qed simp

section \<open>Properties\<close>

text \<open>C12. The sponge is equivalent to the buffered challenger: from a fresh state, any sequence of
  observations and samples runs without a panic, returns the challenger's samples, and keeps
  the invariant written at the fields \<open>absorb_idx\<close> and \<open>sample_idx\<close>.\<close>
theorem sponge_refines_challenger:
  assumes "wf_sponge_config G"
  shows "\<exists>s'. run_ops (sponge_ops G) ops (sponge_from G) = Some (ch_run G ops (ch_new G), s') \<and> sponge_inv G s'"
  by (rule sponge_run [OF assms represents_new [OF assms]])

theorem sponge_refines_challenger_witness:
  "\<exists>s'. run_ops (sponge_ops mix_config) [Observe 5, Sample, Observe 7, Observe 9, Sample, Sample, Sample]
      (sponge_from mix_config)
    = Some (ch_run mix_config [Observe 5, Sample, Observe 7, Observe 9, Sample, Sample, Sample]
        (ch_new mix_config), s') \<and> sponge_inv mix_config s'"
  by (rule sponge_refines_challenger [OF wf_mix_config])

text \<open>C30. What a recorder logged is replayed: the read-only transcript on the log returns the same
  samples and ends at its end, and the validator accepts the same run and hands the log back.\<close>
theorem recorded_log_replays:
  assumes "run_ops (recorder_ops G) ops (recorder_from G) = Some (outs, r)"
  shows "run_ops (read_only_ops (rec_log r)) ops 0 = Some (outs, length (log_values (rec_log r))) \<and>
     (\<exists>v v'. validator_new G (rec_log r) = Some v \<and> run_ops (validator_ops G) ops v = Some (outs, v') \<and>
        val_into_log v' = Some (rec_log r))"
proof -
  let ?es = "log_entries ops outs"
  from recorder_run [OF assms] have es: "length ?es = length ops"
    "map fst ?es = log_values (rec_log r)" "map snd ?es = log_is_sample (rec_log r)"
    by (simp_all add: recorder_from_def empty_log_def push_perm_result_def)
  have lens: "length (log_values (rec_log r)) = length ops" "length (log_is_sample (rec_log r)) = length ops"
    using es by (metis length_map)+
  show ?thesis
    using read_only_run [OF es(2,3) assms, of "[]" "[]"] validator_run [OF es(2,3) assms, of "[]" "[]"] lens
    by (simp add: validator_new_def val_into_log_def)
qed

theorem recorded_log_replays_witness:
  "\<exists>outs r. run_ops (recorder_ops mix_config) [Observe 5, Sample, Observe 7] (recorder_from mix_config)
      = Some (outs, r) \<and>
    run_ops (read_only_ops (rec_log r)) [Observe 5, Sample, Observe 7] 0
      = Some (outs, length (log_values (rec_log r)))"
proof -
  have "\<exists>outs r. run_ops (recorder_ops mix_config) [Observe 5, Sample, Observe 7] (recorder_from mix_config)
      = Some (outs, r)"
    by (simp add: recorder_ops_def recorder_from_def rec_observe_def rec_sample_def absorb_def squeeze_def
        sponge_permute_def sponge_from_def mix_config_def log_perm_def Let_def numeral_eq_Suc)
  then show ?thesis using recorded_log_replays by blast
qed

text \<open>C37. Grinding: the witness that \<open>grind\<close> returns is accepted by \<open>check_witness\<close> from the same
  state, which moves to the same next state, and grinding panics only when no field element is
  an accepted witness.\<close>
theorem grind_sound:
  assumes "transcript T I wf_digest" and "I s" and "\<And>ws. ws \<noteq> [] \<Longrightarrow> pick ws \<in> set ws"
    and "bits < 32" and "2 ^ bits < f_order K"
  shows "(\<forall>w s'. grind T K pick zero s bits = Some (w, s') \<longrightarrow> check_witness T K s bits w = Some (True, s')) \<and>
     (grind T K pick zero s bits = None \<longrightarrow>
        (\<forall>n < f_order K. \<not> accepted_witness T K s bits (f_from_u64 K n)))"
proof (cases "bits = 0")
  case True
  with assms(4,5) show ?thesis by (auto simp: grind_def check_witness_def)
next
  case False
  define ws where "ws = filter (accepted_witness T K s bits) (map (f_from_u64 K) [0..<f_order K])"
  show ?thesis
  proof (cases "ws = []")
    case True
    with False assms(4,5) show ?thesis
      by (auto simp: grind_def ws_def [symmetric]) (auto simp: ws_def filter_empty_conv)
  next
    case ne: False
    from assms(3) [OF ne] have "accepted_witness T K s bits (pick ws)" by (simp add: ws_def)
    then obtain s' where "check_witness T K s bits (pick ws) = Some (True, s')"
      by (auto simp: accepted_witness_def split: option.splits prod.splits bool.splits)
    with False ne assms(4,5) show ?thesis
      by (auto simp: grind_def ws_def [symmetric] split: list.splits)
  qed
qed

definition nat17_field :: "(nat, nat) field_ops" where
  "nat17_field = \<lparr>f_order = 17, f_as_u64 = (\<lambda>x. x mod 17), f_from_u64 = id, ef_dimension = 1,
     ef_coefficients = (\<lambda>x. [x]), ef_from_coefficients = hd\<rparr>"

theorem grind_sound_witness:
  "\<exists>w s'. grind (sponge_ops mix_config) nat17_field hd 0 (sponge_from mix_config) 2 = Some (w, s') \<and>
     check_witness (sponge_ops mix_config) nat17_field (sponge_from mix_config) 2 w = Some (True, s')"
proof -
  have acc: "accepted_witness (sponge_ops mix_config) nat17_field (sponge_from mix_config) 2 (f_from_u64 nat17_field 0)"
    by code_simp
  have "(\<forall>w s'. grind (sponge_ops mix_config) nat17_field hd 0 (sponge_from mix_config) 2 = Some (w, s') \<longrightarrow>
       check_witness (sponge_ops mix_config) nat17_field (sponge_from mix_config) 2 w = Some (True, s')) \<and>
     (grind (sponge_ops mix_config) nat17_field hd 0 (sponge_from mix_config) 2 = None \<longrightarrow>
       (\<forall>n < f_order nat17_field. \<not> accepted_witness (sponge_ops mix_config) nat17_field (sponge_from mix_config) 2
          (f_from_u64 nat17_field n)))"
    by (rule grind_sound [OF mix_sponge.transcript_axioms sponge_inv_from [OF wf_mix_config]])
      (simp_all add: nat17_field_def)
  moreover have "0 < f_order nat17_field" by (simp add: nat17_field_def)
  ultimately show ?thesis using acc
    by (cases "grind (sponge_ops mix_config) nat17_field hd 0 (sponge_from mix_config) 2") auto
qed

end
