(* ===== verification/MultiField.thy ===== *)
theory MultiField
  imports Transcript ProofCanonical
begin

text \<open>
  The transcript and the hasher that work over a large sponge field \<open>SF\<close> while the protocol
  uses a small field \<open>F\<close> (\<open>transcript/multi_field.rs\<close>, \<open>multi_field_packing.rs\<close>,
  \<open>hasher.rs\<close>). Both fields are parameters; the locale \<open>multi_field\<close> says what is relied on.
\<close>

record ('f, 'sf) multi_field_ops =
  mf_order :: nat
  mf_bits :: nat
  mf_canonical :: "'f \<Rightarrow> nat"
  mf_from_int :: "nat \<Rightarrow> 'f"
  sf_order :: nat
  sf_bits :: nat
  sf_canonical :: "'sf \<Rightarrow> nat"
  sf_from_int :: "nat \<Rightarrow> 'sf"
  sf_zero :: 'sf
  sf_add :: "'sf \<Rightarrow> 'sf \<Rightarrow> 'sf"
  sf_mul :: "'sf \<Rightarrow> 'sf \<Rightarrow> 'sf"

section \<open>Packing\<close>

definition checked_num_packed_f_elms :: "('f, 'sf) multi_field_ops \<Rightarrow> nat option" where
  "checked_num_packed_f_elms M =
     (if mf_order M < sf_order M \<and> mf_bits M \<noteq> 0 then
        let n = sf_bits M div mf_bits M in
        if 2 ^ (mf_bits M * n) \<le> sf_order M then Some n else None
      else None)"

definition pack_f_to_sf :: "('f, 'sf) multi_field_ops \<Rightarrow> 'f list \<Rightarrow> 'sf" where
  "pack_f_to_sf M buf =
     foldl (\<lambda>acc val. sf_add M (sf_mul M acc (sf_from_int M (2 ^ mf_bits M))) (sf_from_int M (mf_canonical M val)))
       (sf_zero M) (rev buf)"

text \<open>The number that a list of digits stands for, least significant digit first.\<close>

fun digits_value :: "nat \<Rightarrow> nat list \<Rightarrow> nat" where
  "digits_value b [] = 0"
| "digits_value b (d # ds) = d + b * digits_value b ds"

lemma digits_value_less: "\<forall>d \<in> set ds. d < b \<Longrightarrow> digits_value b ds < b ^ length ds"
proof (induction ds)
  case (Cons d ds)
  then have "d < b" and le: "digits_value b ds + 1 \<le> b ^ length ds" by simp_all
  from mult_le_mono2 [OF le, of b] \<open>d < b\<close> show ?case by simp
qed simp

lemma digits_value_inject:
  "length ds = length es \<Longrightarrow> \<forall>d \<in> set ds. d < b \<Longrightarrow> \<forall>e \<in> set es. e < b \<Longrightarrow>
     digits_value b ds = digits_value b es \<Longrightarrow> ds = es"
proof (induction ds es rule: list_induct2)
  case (Cons d ds e es)
  then have lt: "d < b" "e < b" by simp_all
  from Cons.prems(3) have eq: "d + b * digits_value b ds = e + b * digits_value b es" by simp
  have "(d + b * digits_value b ds) mod b = d" "(e + b * digits_value b es) mod b = e"
    using lt by simp_all
  with eq have "d = e" by metis
  moreover from this eq lt have "digits_value b ds = digits_value b es" by simp
  ultimately show ?case using Cons by simp
qed simp

section \<open>How many samples one sponge element gives\<close>

definition bias_bits :: nat where
  "bias_bits = 100"

partial_function (option) count_samples :: "nat \<Rightarrow> nat \<Rightarrow> nat \<Rightarrow> nat \<Rightarrow> nat option" where
  "count_samples p q k p_pow =
     (let nxt = p_pow * p in
      if q < nxt * 2 ^ (bias_bits - 2) then Some k else count_samples p q (k + 1) nxt)"

definition compute_num_samples_per_elem :: "('f, 'sf) multi_field_ops \<Rightarrow> nat option" where
  "compute_num_samples_per_elem M = count_samples (mf_order M) (sf_order M) 0 1"

text \<open>The loop ends, and at the largest \<open>k\<close> with \<open>p ^ k * 2 ^ 98 \<le> q\<close> (or at 0).\<close>

lemma count_samples_ends:
  assumes "2 \<le> p" and "0 < k \<longrightarrow> p ^ k * 2 ^ 98 \<le> q"
  shows "\<exists>k'. count_samples p q k (p ^ k) = Some k' \<and> k \<le> k' \<and>
     (0 < k' \<longrightarrow> p ^ k' * 2 ^ 98 \<le> q) \<and> q < p ^ (k' + 1) * 2 ^ 98"
  using assms(2)
proof (induction "q - p ^ k" arbitrary: k rule: less_induct)
  case less
  have "p ^ k < p ^ Suc k" using assms(1) by (simp add: power_strict_increasing)
  show ?case
  proof (cases "q < p ^ k * p * 2 ^ 98")
    case True
    then show ?thesis
      using less.prems by (intro exI [of _ k]) (simp add: count_samples.simps bias_bits_def mult.commute)
  next
    case False
    then have le: "p ^ Suc k * 2 ^ 98 \<le> q" by (simp add: mult.commute)
    then have "p ^ Suc k \<le> q" by (rule order.trans [rotated]) simp
    with \<open>p ^ k < p ^ Suc k\<close> have "q - p ^ Suc k < q - p ^ k" by linarith
    with less.hyps [of "Suc k"] le obtain k' where "count_samples p q (Suc k) (p ^ Suc k) = Some k'"
      "Suc k \<le> k'" "0 < k' \<longrightarrow> p ^ k' * 2 ^ 98 \<le> q" "q < p ^ (k' + 1) * 2 ^ 98" by blast
    with False show ?thesis
      by (intro exI [of _ k'])
        (simp add: count_samples.simps [of p q k] bias_bits_def mult.commute)
  qed
qed

section \<open>MultiFieldTranscript\<close>

record ('f, 'sf) multi_field_transcript =
  mft_sponge :: "'sf duplex_sponge"
  mft_observe_buf :: "'f list"
  mft_sample_buf :: "'f list"
  mft_num_obs :: nat
  mft_num_samples :: nat

definition mft_new ::
    "('f, 'sf) multi_field_ops \<Rightarrow> 'sf sponge_config \<Rightarrow> ('f, 'sf) multi_field_transcript option" where
  "mft_new M G = do {
     num_obs \<leftarrow> checked_num_packed_f_elms M;
     num_samples \<leftarrow> compute_num_samples_per_elem M;
     if 0 < num_samples
     then Some \<lparr>mft_sponge = sponge_from G, mft_observe_buf = [], mft_sample_buf = [],
                mft_num_obs = num_obs, mft_num_samples = num_samples\<rparr>
     else None }"

definition invalidate_samples :: "('f, 'sf) multi_field_transcript \<Rightarrow> ('f, 'sf) multi_field_transcript" where
  "invalidate_samples t = t\<lparr>mft_sample_buf := []\<rparr>"

definition flush_observe_buf ::
    "('f, 'sf) multi_field_ops \<Rightarrow> 'sf sponge_config \<Rightarrow> ('f, 'sf) multi_field_transcript
       \<Rightarrow> ('f, 'sf) multi_field_transcript option" where
  "flush_observe_buf M G t =
     (if mft_observe_buf t \<noteq> [] then do {
        sp \<leftarrow> absorb G (mft_sponge t) (pack_f_to_sf M (mft_observe_buf t));
        Some (t\<lparr>mft_sponge := sp, mft_observe_buf := []\<rparr>) }
      else Some t)"

definition mft_observe ::
    "('f, 'sf) multi_field_ops \<Rightarrow> 'sf sponge_config \<Rightarrow> ('f, 'sf) multi_field_transcript \<Rightarrow> 'f
       \<Rightarrow> ('f, 'sf) multi_field_transcript option" where
  "mft_observe M G t v =
     (let t1 = invalidate_samples t; t2 = t1\<lparr>mft_observe_buf := mft_observe_buf t1 @ [v]\<rparr> in
      if length (mft_observe_buf t2) = mft_num_obs t2 then do {
        sp \<leftarrow> absorb G (mft_sponge t2) (pack_f_to_sf M (mft_observe_buf t2));
        Some (t2\<lparr>mft_sponge := sp, mft_observe_buf := []\<rparr>) }
      else Some t2)"

fun base_digits :: "nat \<Rightarrow> nat \<Rightarrow> nat \<Rightarrow> nat list" where
  "base_digits p 0 x = []"
| "base_digits p (Suc k) x = (x mod p) # base_digits p k (x div p)"

definition extract_samples :: "('f, 'sf) multi_field_ops \<Rightarrow> nat \<Rightarrow> 'sf \<Rightarrow> 'f list" where
  "extract_samples M k val = map (mf_from_int M) (base_digits (mf_order M) k (sf_canonical M val))"

definition mft_sample ::
    "('f, 'sf) multi_field_ops \<Rightarrow> 'sf sponge_config \<Rightarrow> ('f, 'sf) multi_field_transcript
       \<Rightarrow> ('f \<times> ('f, 'sf) multi_field_transcript) option" where
  "mft_sample M G t =
     (if mft_sample_buf t \<noteq> []
      then Some (last (mft_sample_buf t), t\<lparr>mft_sample_buf := butlast (mft_sample_buf t)\<rparr>)
      else do {
        t1 \<leftarrow> flush_observe_buf M G t;
        (squeezed, sp) \<leftarrow> squeeze G (mft_sponge t1);
        let buf = rev (extract_samples M (mft_num_samples t1) squeezed);
        if buf \<noteq> [] then Some (last buf, t1\<lparr>mft_sponge := sp, mft_sample_buf := butlast buf\<rparr>) else None })"

definition mft_absorb_slice ::
    "('f, 'sf) multi_field_ops \<Rightarrow> 'sf sponge_config \<Rightarrow> ('f, 'sf) multi_field_transcript \<Rightarrow> 'sf list
       \<Rightarrow> ('f, 'sf) multi_field_transcript option" where
  "mft_absorb_slice M G t slc = do {
     t1 \<leftarrow> flush_observe_buf M G (invalidate_samples t);
     sp \<leftarrow> absorb_all G (mft_sponge t1) slc;
     Some (t1\<lparr>mft_sponge := sp\<rparr>) }"

definition multi_field_transcript_ops ::
    "('f, 'sf) multi_field_ops \<Rightarrow> 'sf sponge_config
       \<Rightarrow> (('f, 'sf) multi_field_transcript, 'f, 'sf list) transcript_ops" where
  "multi_field_transcript_ops M G =
     \<lparr>t_observe = mft_observe M G, t_sample = mft_sample M G, t_observe_commit = mft_absorb_slice M G\<rparr>"

section \<open>The laws of the two fields, and the transcript's invariant\<close>

text \<open>
  \<open>bits\<close> is the bit length of the order. The sponge field's operations are those of the
  integers modulo its order.
\<close>

locale multi_field =
  fixes M :: "('f, 'sf) multi_field_ops"
  assumes order_bits: "mf_order M \<le> 2 ^ mf_bits M" "0 < mf_bits M" "mf_bits M < 64" "2 \<le> mf_order M"
    and bits_mono: "mf_order M < sf_order M \<Longrightarrow> mf_bits M \<le> sf_bits M"
    and canonical_less: "mf_canonical M x < mf_order M"
    and canonical_inject: "mf_canonical M x = mf_canonical M y \<Longrightarrow> x = y"
    and canonical_from_int: "n < mf_order M \<Longrightarrow> mf_canonical M (mf_from_int M n) = n"
    and sf_zero: "sf_canonical M (sf_zero M) = 0"
    and sf_int: "n < 2 ^ 64 \<Longrightarrow> sf_canonical M (sf_from_int M n) = n mod sf_order M"
    and sf_add: "sf_canonical M (sf_add M u w) = (sf_canonical M u + sf_canonical M w) mod sf_order M"
    and sf_mul: "sf_canonical M (sf_mul M u w) = (sf_canonical M u * sf_canonical M w) mod sf_order M"
begin

lemma canonical_less_64: "mf_canonical M x < 2 ^ 64"
proof -
  have "(2::nat) ^ mf_bits M < 2 ^ 64" using order_bits(3) by (rule power_strict_increasing) simp
  with canonical_less [of x] order_bits(1) show ?thesis by linarith
qed

lemma pack_value_mod:
  "sf_canonical M (pack_f_to_sf M buf) mod sf_order M
     = digits_value (2 ^ mf_bits M) (map (mf_canonical M) buf) mod sf_order M"
proof (induction buf)
  case (Cons v buf)
  have lt: "(2::nat) ^ mf_bits M < 2 ^ 64" using order_bits(3) by (rule power_strict_increasing) simp
  let ?q = "sf_order M" and ?c = "sf_canonical M (pack_f_to_sf M buf)" and ?b = "2 ^ mf_bits M"
  have "sf_canonical M (pack_f_to_sf M (v # buf)) = ((?c * (?b mod ?q)) mod ?q + mf_canonical M v mod ?q) mod ?q"
    using lt canonical_less_64 by (simp add: pack_f_to_sf_def sf_add sf_mul sf_int)
  also have "\<dots> = (mf_canonical M v + ?b * (?c mod ?q)) mod ?q"
    by (metis (no_types, lifting) add.commute mod_add_eq mod_mult_right_eq mod_mult_left_eq mult.commute mod_mod_trivial)
  also have "\<dots> = (mf_canonical M v + ?b * digits_value ?b (map (mf_canonical M) buf)) mod ?q"
    by (metis Cons.IH mod_add_right_eq mod_mult_right_eq)
  finally show ?case by simp
qed (simp add: pack_f_to_sf_def sf_zero)

lemma pack_value:
  assumes "checked_num_packed_f_elms M = Some n" and "length buf \<le> n"
  shows "sf_canonical M (pack_f_to_sf M buf) mod sf_order M = digits_value (2 ^ mf_bits M) (map (mf_canonical M) buf)"
proof -
  have "\<forall>d \<in> set (map (mf_canonical M) buf). d < 2 ^ mf_bits M"
    using canonical_less order_bits(1) by (auto intro: less_le_trans)
  from digits_value_less [OF this] have "digits_value (2 ^ mf_bits M) (map (mf_canonical M) buf)
      < 2 ^ (mf_bits M * length buf)" by (simp add: power_mult)
  also have "\<dots> \<le> 2 ^ (mf_bits M * n)" using assms(2) by (intro power_increasing) simp_all
  also have "\<dots> \<le> sf_order M"
    using assms(1) by (auto simp: checked_num_packed_f_elms_def Let_def split: if_splits)
  finally show ?thesis by (simp add: pack_value_mod)
qed

lemma pack_inject:
  assumes "checked_num_packed_f_elms M = Some n" and "length xs \<le> n" and "length xs = length ys"
    and "pack_f_to_sf M xs = pack_f_to_sf M ys"
  shows "xs = ys"
proof -
  have less: "\<forall>d \<in> set (map (mf_canonical M) zs). d < 2 ^ mf_bits M" for zs
    using canonical_less order_bits(1) by (auto intro: less_le_trans)
  have "map (mf_canonical M) xs = map (mf_canonical M) ys"
    using pack_value [OF assms(1), of xs] pack_value [OF assms(1), of ys] assms(2-4)
    by (intro digits_value_inject [OF _ less less]) simp_all
  then show ?thesis
    using canonical_inject by (auto simp: list_eq_iff_nth_eq assms(3))
qed

lemma base_digits_value: "digits_value p (base_digits p k x) = x mod p ^ k"
proof (induction k arbitrary: x)
  case (Suc k)
  have "x mod p ^ Suc k = p * (x div p mod p ^ k) + x mod p"
    by (simp add: mod_mult2_eq)
  with Suc show ?case by simp
qed simp

lemma base_digits_bounds: "length (base_digits p k x) = k" "0 < p \<Longrightarrow> \<forall>d \<in> set (base_digits p k x). d < p"
  by (induction k arbitrary: x) auto

lemma extract_samples_digits:
  "length (extract_samples M k v) = k \<and>
     digits_value (mf_order M) (map (mf_canonical M) (extract_samples M k v)) = sf_canonical M v mod mf_order M ^ k"
proof -
  have "map (mf_canonical M) (extract_samples M k v) = base_digits (mf_order M) k (sf_canonical M v)"
    using base_digits_bounds(2) [of "mf_order M"] order_bits(4)
    by (auto simp: extract_samples_def intro!: map_idI canonical_from_int)
  then show ?thesis by (simp add: base_digits_value extract_samples_def base_digits_bounds)
qed

end

definition mft_inv :: "'sf sponge_config \<Rightarrow> ('f, 'sf) multi_field_transcript \<Rightarrow> bool" where
  "mft_inv G t \<longleftrightarrow> sponge_inv G (mft_sponge t) \<and> 0 < mft_num_obs t \<and> 0 < mft_num_samples t \<and>
     length (mft_observe_buf t) < mft_num_obs t \<and> length (mft_sample_buf t) < mft_num_samples t \<and>
     (mft_observe_buf t = [] \<or> mft_sample_buf t = [])"

lemma base_digits_length: "length (base_digits p k x) = k"
  by (induction k arbitrary: x) auto

lemma mft_observe_total:
  assumes "wf_sponge_config G" and "mft_inv G t"
  shows "\<exists>t'. mft_observe M G t v = Some t' \<and> mft_inv G t' \<and> mft_sample_buf t' = []"
  using assms(2) sponge_inv_absorb [OF assms(1), of "mft_sponge t" "pack_f_to_sf M (mft_observe_buf t @ [v])"]
  by (auto simp: mft_observe_def invalidate_samples_def mft_inv_def Let_def)

lemma flush_total:
  assumes "wf_sponge_config G" and "mft_inv G t"
  shows "\<exists>t'. flush_observe_buf M G t = Some t' \<and> mft_inv G t' \<and> mft_observe_buf t' = [] \<and>
     mft_sample_buf t' = mft_sample_buf t \<and> mft_num_samples t' = mft_num_samples t"
  using assms(2) sponge_inv_absorb [OF assms(1), of "mft_sponge t" "pack_f_to_sf M (mft_observe_buf t)"]
  by (auto simp: flush_observe_buf_def mft_inv_def)

lemma mft_sample_total:
  assumes "wf_sponge_config G" and "mft_inv G t"
  shows "\<exists>x t'. mft_sample M G t = Some (x, t') \<and> mft_inv G t'"
proof (cases "mft_sample_buf t = []")
  case True
  from flush_total [OF assms, of M] obtain t1 where t1: "flush_observe_buf M G t = Some t1" "mft_inv G t1"
    "mft_observe_buf t1 = []" "mft_num_samples t1 = mft_num_samples t" by blast
  from sponge_inv_squeeze [OF assms(1), of "mft_sponge t1"] t1(2) obtain x sp where
    sq: "squeeze G (mft_sponge t1) = Some (x, sp)" "sponge_inv G sp" by (auto simp: mft_inv_def)
  let ?buf = "rev (extract_samples M (mft_num_samples t1) x)"
  have "length ?buf = mft_num_samples t1" by (simp add: extract_samples_def base_digits_length)
  moreover have "0 < mft_num_samples t1" using t1(2) by (simp add: mft_inv_def)
  ultimately have "?buf \<noteq> []" "length (butlast ?buf) < mft_num_samples t1" by auto
  with True t1 sq show ?thesis by (auto simp: mft_sample_def mft_inv_def Let_def)
next
  case False
  with assms(2) show ?thesis by (auto simp: mft_sample_def mft_inv_def)
qed

lemma mft_absorb_slice_total:
  assumes "wf_sponge_config G" and "mft_inv G t"
  shows "\<exists>t'. mft_absorb_slice M G t slc = Some t' \<and> mft_inv G t' \<and> mft_observe_buf t' = [] \<and> mft_sample_buf t' = []"
proof -
  have inv: "mft_inv G (invalidate_samples t)"
    using assms(2) by (simp add: mft_inv_def invalidate_samples_def)
  from flush_total [OF assms(1) inv, of M] obtain t1 where "flush_observe_buf M G (invalidate_samples t) = Some t1"
    "mft_inv G t1" "mft_observe_buf t1 = []" "mft_sample_buf t1 = []" by (auto simp: invalidate_samples_def)
  with absorb_all_total [OF assms(1), of "mft_sponge t1" slc] show ?thesis
    by (auto simp: mft_absorb_slice_def mft_inv_def)
qed

locale multi_field_duplex = multi_field M for M :: "('f, 'sf) multi_field_ops" +
  fixes G :: "'sf sponge_config"
  assumes wf_sponge: "wf_sponge_config G"
begin

lemma new_total:
  assumes "checked_num_packed_f_elms M = Some n" and "mf_order M * 2 ^ 98 \<le> sf_order M"
  shows "\<exists>t. mft_new M G = Some t \<and> mft_inv G t"
proof -
  from count_samples_ends [OF order_bits(4), of 0 "sf_order M"] obtain k where
    k: "count_samples (mf_order M) (sf_order M) 0 1 = Some k" "sf_order M < mf_order M ^ (k + 1) * 2 ^ 98" by auto
  with assms(2) have "0 < k" by (cases k) auto
  have "mf_order M < sf_order M" "n = sf_bits M div mf_bits M"
    using assms(1) by (auto simp: checked_num_packed_f_elms_def Let_def split: if_splits)
  with bits_mono order_bits(2) have "0 < n" by (simp add: div_greater_zero_iff)
  with k \<open>0 < k\<close> assms(1) show ?thesis
    by (simp add: mft_new_def compute_num_samples_per_elem_def mft_inv_def sponge_inv_from [OF wf_sponge])
qed

end

sublocale multi_field_duplex \<subseteq> transcript "multi_field_transcript_ops M G" "mft_inv G" "\<lambda>_. True"
proof
  show "\<exists>s'. t_observe (multi_field_transcript_ops M G) s v = Some s' \<and> mft_inv G s'" if "mft_inv G s" for s v
    using mft_observe_total [OF wf_sponge that] by (auto simp: multi_field_transcript_ops_def)
  show "\<exists>x s'. t_sample (multi_field_transcript_ops M G) s = Some (x, s') \<and> mft_inv G s'" if "mft_inv G s" for s
    using mft_sample_total [OF wf_sponge that] by (auto simp: multi_field_transcript_ops_def)
  show "\<exists>s'. t_observe_commit (multi_field_transcript_ops M G) s d = Some s' \<and> mft_inv G s'"
    if "mft_inv G s" for s d
    using mft_absorb_slice_total [OF wf_sponge that] by (auto simp: multi_field_transcript_ops_def)
qed

text \<open>The calls of the transcript interface in any order: single elements, commitments, samples.\<close>

datatype ('f, 'd) t_call = Observe_value 'f | Observe_commit 'd | Sample_value

fun run_calls :: "('ts, 'f, 'd) transcript_ops \<Rightarrow> ('f, 'd) t_call list \<Rightarrow> 'ts \<Rightarrow> ('f list \<times> 'ts) option" where
  "run_calls T [] s = Some ([], s)"
| "run_calls T (Observe_value v # cs) s = do { s' \<leftarrow> t_observe T s v; run_calls T cs s' }"
| "run_calls T (Observe_commit d # cs) s = do { s' \<leftarrow> t_observe_commit T s d; run_calls T cs s' }"
| "run_calls T (Sample_value # cs) s =
     do { (x, s') \<leftarrow> t_sample T s; (xs, s'') \<leftarrow> run_calls T cs s'; Some (x # xs, s'') }"

context transcript
begin

lemma run_calls_total:
  "inv s \<Longrightarrow> \<forall>d. Observe_commit d \<in> set cs \<longrightarrow> wf_digest d \<Longrightarrow>
     \<exists>outs s'. run_calls T cs s = Some (outs, s') \<and> inv s' \<and> length outs = length (filter (\<lambda>c. c = Sample_value) cs)"
proof (induction cs arbitrary: s)
  case (Cons c cs)
  show ?case
  proof (cases c)
    case (Observe_value v)
    from observe_total [OF Cons.prems(1), of v] obtain s1 where "t_observe T s v = Some s1" "inv s1" by blast
    with Cons.IH [of s1] Cons.prems(2) Observe_value show ?thesis by auto
  next
    case (Observe_commit d)
    with Cons.prems(2) have "wf_digest d" by simp
    from observe_commit_total [OF Cons.prems(1) this] obtain s1 where "t_observe_commit T s d = Some s1" "inv s1" by blast
    with Cons.IH [of s1] Cons.prems(2) Observe_commit show ?thesis by auto
  next
    case Sample_value
    from sample_total [OF Cons.prems(1)] obtain x s1 where x: "t_sample T s = Some (x, s1)" "inv s1" by blast
    from Cons.IH [OF x(2)] Cons.prems(2) obtain outs s' where "run_calls T cs s1 = Some (outs, s')" "inv s'"
      "length outs = length (filter (\<lambda>c. c = Sample_value) cs)" by auto
    with x(1) Sample_value show ?thesis by (intro exI [of _ "x # outs"] exI [of _ s']) simp
  qed
qed simp

end

context multi_field_duplex
begin

lemma mft_run_total:
  "mft_inv G t \<Longrightarrow> \<exists>outs t'. run_calls (multi_field_transcript_ops M G) cs t = Some (outs, t') \<and> mft_inv G t' \<and>
     length outs = length (filter (\<lambda>c. c = Sample_value) cs)"
  by (rule run_calls_total) simp_all

end

text \<open>
  The two fields given by canonical residues: a small prime field, and the integers modulo
  the order of the BN254 scalar field, whose bit length is 254.
\<close>

definition bn254_order :: nat where
  "bn254_order = 21888242871839275222246405745257275088548364400416034343698204186575808495617"

definition baby_bear_bn254 :: "(baby_bear, nat) multi_field_ops" where
  "baby_bear_bn254 =
     \<lparr>mf_order = 2013265921, mf_bits = 31, mf_canonical = Rep_baby_bear,
      mf_from_int = (\<lambda>n. Abs_baby_bear (n mod 2013265921)),
      sf_order = bn254_order, sf_bits = 254, sf_canonical = (\<lambda>x. x mod bn254_order), sf_from_int = id,
      sf_zero = 0, sf_add = (+), sf_mul = (*)\<rparr>"

definition bn254_sponge :: "nat sponge_config" where
  "bn254_sponge = \<lparr>sp_perm = map (\<lambda>x. x * x + 1), sp_width = 3, sp_rate = 2, sp_default = 0\<rparr>"

interpretation bn254: multi_field_duplex baby_bear_bn254 bn254_sponge
  by unfold_locales
    (auto simp: baby_bear_bn254_def bn254_sponge_def wf_sponge_config_def Rep_baby_bear_less Rep_Abs_baby_bear
       Rep_baby_bear_inject mod_add_eq mod_mult_eq)

section \<open>MultiFieldHasher\<close>

text \<open>
  A block of \<open>RATE\<close> base-field elements is packed in pieces of \<open>num_f_elms\<close>, each piece
  overwriting one element of the state from the front, and then the state is permuted.
\<close>

fun overwrite_chunks :: "('f, 'sf) multi_field_ops \<Rightarrow> nat \<Rightarrow> 'f list list \<Rightarrow> 'sf list \<Rightarrow> 'sf list option" where
  "overwrite_chunks M i [] st = Some st"
| "overwrite_chunks M i (c # cs) st =
     (if i < length st then overwrite_chunks M (i + 1) cs (st[i := pack_f_to_sf M c]) else None)"

fun hash_blocks ::
    "('f, 'sf) multi_field_ops \<Rightarrow> 'sf sponge_config \<Rightarrow> nat \<Rightarrow> 'f list list \<Rightarrow> 'sf list \<Rightarrow> 'sf list option" where
  "hash_blocks M G num_f_elms [] st = Some st"
| "hash_blocks M G num_f_elms (block # blocks) st = do {
     st' \<leftarrow> overwrite_chunks M 0 (chunks num_f_elms block) st;
     hash_blocks M G num_f_elms blocks (sp_perm G st') }"

definition hash_iter ::
    "('f, 'sf) multi_field_ops \<Rightarrow> 'sf sponge_config \<Rightarrow> nat \<Rightarrow> nat \<Rightarrow> 'f list \<Rightarrow> 'sf list option" where
  "hash_iter M G num_f_elms out xs = do {
     st \<leftarrow> hash_blocks M G num_f_elms (chunks (sp_rate G) xs) (replicate (sp_width G) (sp_default G));
     if out \<le> length st then Some (take out st) else None }"

lemma overwrite_chunks_total:
  "i + length cs \<le> length st \<Longrightarrow> \<exists>st'. overwrite_chunks M i cs st = Some st' \<and> length st' = length st"
  by (induction M i cs st rule: overwrite_chunks.induct) auto

lemma hash_blocks_total:
  assumes "wf_sponge_config G" and "0 < n"
  shows "\<forall>b \<in> set bs. length b \<le> sp_rate G \<Longrightarrow> length st = sp_width G \<Longrightarrow>
     \<exists>st'. hash_blocks M G n bs st = Some st' \<and> length st' = sp_width G"
proof (induction bs arbitrary: st)
  case (Cons b bs)
  have "length (chunks n b) \<le> length b"
  proof (cases "b = []")
    case False
    have "(length b + n - 1) div n \<le> (n * length b) div n"
      using assms(2) False by (intro div_le_mono) (cases n; cases b, auto)
    with assms(2) show ?thesis by (simp add: length_chunks)
  qed (simp add: chunks.simps)
  also have "length b \<le> length st" using Cons.prems assms(1) by (simp add: wf_sponge_config_def)
  finally obtain st1 where "overwrite_chunks M 0 (chunks n b) st = Some st1" "length st1 = sp_width G"
    using overwrite_chunks_total [of 0 "chunks n b" st M] Cons.prems(2) by auto
  with Cons assms(1) show ?case by (auto simp: wf_sponge_config_def)
qed simp

section \<open>Properties\<close>

text \<open>Packing is injective: two buffers of the same length, at most the checked number of base-field
  elements, that pack to the same sponge-field element are equal.\<close>
theorem packing_injective:
  assumes "multi_field M" and "checked_num_packed_f_elms M = Some n" and "length xs \<le> n"
    and "length xs = length ys" and "pack_f_to_sf M xs = pack_f_to_sf M ys"
  shows "xs = ys"
  using assms by (rule multi_field.pack_inject)

theorem packing_injective_witness:
  "checked_num_packed_f_elms baby_bear_bn254 = Some 8 \<and>
     pack_f_to_sf baby_bear_bn254 [bb 1, bb 2] \<noteq> pack_f_to_sf baby_bear_bn254 [bb 2, bb 1]"
proof -
  have n: "checked_num_packed_f_elms baby_bear_bn254 = Some 8"
    by (simp add: checked_num_packed_f_elms_def baby_bear_bn254_def bn254_order_def Let_def)
  have "bb 1 \<noteq> bb 2" by (simp add: bb_def baby_bear_ops_def Abs_baby_bear_inject)
  with packing_injective [OF bn254.multi_field_axioms n, of "[bb 1, bb 2]" "[bb 2, bb 1]"] n show ?thesis by auto
qed

text \<open>The number of samples per squeeze: the loop returns, for any order of at least 2, the largest
  \<open>k\<close> whose bias bound \<open>p ^ k * 2 ^ (BIAS_BITS - 2) \<le> q\<close> holds (0 when not even one digit fits).\<close>
theorem num_samples_largest:
  assumes "2 \<le> mf_order M"
  shows "\<exists>k. compute_num_samples_per_elem M = Some k \<and>
     (0 < k \<longrightarrow> mf_order M ^ k * 2 ^ (bias_bits - 2) \<le> sf_order M) \<and>
     sf_order M < mf_order M ^ (k + 1) * 2 ^ (bias_bits - 2)"
  using count_samples_ends [OF assms, of 0 "sf_order M"]
  by (simp add: compute_num_samples_per_elem_def bias_bits_def)

theorem num_samples_largest_witness:
  "\<exists>k. compute_num_samples_per_elem baby_bear_bn254 = Some k \<and>
     sf_order baby_bear_bn254 < mf_order baby_bear_bn254 ^ (k + 1) * 2 ^ (bias_bits - 2)"
  using num_samples_largest [of baby_bear_bn254] by (auto simp: baby_bear_bn254_def)

text \<open>C36. A multi-field transcript never panics: it is created for fields that pass the size checks,
  and any sequence of its operations, the observation of an element, the observation of a commitment of any
  length and a sample, then runs to its end with one value per sample, and leaves both buffers below
  their capacity and never both in use.\<close>
theorem multi_field_never_panics:
  assumes "multi_field_duplex M G" and "checked_num_packed_f_elms M = Some n"
    and "mf_order M * 2 ^ 98 \<le> sf_order M"
  shows "\<exists>t outs t'. mft_new M G = Some t \<and> run_calls (multi_field_transcript_ops M G) cs t = Some (outs, t') \<and>
     mft_inv G t' \<and> length outs = length (filter (\<lambda>c. c = Sample_value) cs)"
proof -
  from multi_field_duplex.new_total [OF assms] obtain t where "mft_new M G = Some t" "mft_inv G t" by blast
  with multi_field_duplex.mft_run_total [OF assms(1) this(2), of cs] show ?thesis by blast
qed

theorem multi_field_never_panics_witness:
  "\<exists>t outs t'. mft_new baby_bear_bn254 bn254_sponge = Some t \<and>
     run_calls (multi_field_transcript_ops baby_bear_bn254 bn254_sponge)
       [Sample_value, Observe_value (bb 3), Observe_commit [1, 2, 3], Sample_value] t = Some (outs, t') \<and>
     mft_inv bn254_sponge t' \<and> length outs = length (filter (\<lambda>c. c = Sample_value)
       [Sample_value, Observe_value (bb 3), Observe_commit [1, 2, 3 :: nat], Sample_value])"
  by (rule multi_field_never_panics [OF bn254.multi_field_duplex_axioms, of 8])
    (simp_all add: checked_num_packed_f_elms_def baby_bear_bn254_def bn254_order_def Let_def)

text \<open>Samples are the base-\<open>p\<close> digits of the squeezed element: \<open>k\<close> of them, least significant
  first, and together they are its canonical value modulo \<open>p ^ k\<close>.\<close>
theorem samples_are_digits:
  assumes "multi_field M"
  shows "length (extract_samples M k v) = k \<and>
     digits_value (mf_order M) (map (mf_canonical M) (extract_samples M k v)) = sf_canonical M v mod mf_order M ^ k"
  using assms by (rule multi_field.extract_samples_digits)

theorem samples_are_digits_witness:
  "length (extract_samples baby_bear_bn254 3 12345678901234567890) = 3 \<and>
     digits_value (mf_order baby_bear_bn254) (map (mf_canonical baby_bear_bn254)
       (extract_samples baby_bear_bn254 3 12345678901234567890))
     = sf_canonical baby_bear_bn254 12345678901234567890 mod mf_order baby_bear_bn254 ^ 3"
  by (rule samples_are_digits [OF bn254.multi_field_axioms])

end
