(* ===== verification/SmallField.thy ===== *)
theory SmallField
  imports Prelude Complex_Main
begin

text \<open>
  The field of 17 elements, whose multiplicative group has order \<open>2 ^ 4\<close>: a field with a
  two-adic subgroup of order 16 in which the development's examples are computed.
\<close>

typedef f17 = "{n :: int. 0 \<le> n \<and> n < 17}"
  by (rule exI [of _ 0]) simp

setup_lifting type_definition_f17

instantiation f17 :: field
begin

lift_definition zero_f17 :: f17 is 0 by simp
lift_definition one_f17 :: f17 is 1 by simp
lift_definition plus_f17 :: "f17 \<Rightarrow> f17 \<Rightarrow> f17" is "\<lambda>a b. (a + b) mod 17" by simp
lift_definition minus_f17 :: "f17 \<Rightarrow> f17 \<Rightarrow> f17" is "\<lambda>a b. (a - b) mod 17" by simp
lift_definition uminus_f17 :: "f17 \<Rightarrow> f17" is "\<lambda>a. (- a) mod 17" by simp
lift_definition times_f17 :: "f17 \<Rightarrow> f17 \<Rightarrow> f17" is "\<lambda>a b. (a * b) mod 17" by simp
lift_definition inverse_f17 :: "f17 \<Rightarrow> f17" is "\<lambda>a. a ^ 15 mod 17" by simp

definition divide_f17 :: "f17 \<Rightarrow> f17 \<Rightarrow> f17" where
  "divide_f17 a b = a * inverse b"

instance
proof
  fix a b c :: f17
  show "a + b + c = a + (b + c)" by transfer (simp add: mod_simps add.assoc)
  show "a + b = b + a" by transfer (simp add: add.commute)
  show "0 + a = a" by transfer simp
  show "- a + a = 0" by transfer (simp add: mod_simps)
  show "a - b = a + - b" by transfer (simp add: mod_simps)
  show "a * b * c = a * (b * c)" by transfer (simp add: mod_simps mult.assoc)
  show "a * b = b * a" by transfer (simp add: mult.commute)
  show "1 * a = a" by transfer simp
  show "(a + b) * c = a * c + b * c" by transfer (simp add: mod_simps distrib_right)
  show "(0 :: f17) \<noteq> 1" by transfer simp
  show "a \<noteq> 0 \<Longrightarrow> inverse a * a = 1"
  proof transfer
    fix n :: int assume "0 \<le> n \<and> n < 17" and "n \<noteq> 0"
    then have "n \<in> set [1..16]" by simp
    moreover have "\<forall>m \<in> set [1..16]. m ^ 15 mod 17 * m mod 17 = (1 :: int)" by code_simp
    ultimately show "n ^ 15 mod 17 * n mod 17 = 1" by blast
  qed
  show "a div b = a * inverse b" by (simp add: divide_f17_def)
  show "inverse (0 :: f17) = 0" by transfer simp
qed

end

instantiation f17 :: equal
begin

definition equal_f17 :: "f17 \<Rightarrow> f17 \<Rightarrow> bool" where
  "equal_f17 a b \<longleftrightarrow> Rep_f17 a = Rep_f17 b"

instance by standard (simp add: equal_f17_def Rep_f17_inject)

end

lift_definition f17 :: "int \<Rightarrow> f17" is "\<lambda>n. n mod 17" by simp

lemma f17_of_nat: "of_nat n = f17 (int n)"
proof (induction n)
  case 0
  have "0 = f17 0" by transfer simp
  then show ?case by simp
next
  case (Suc n)
  have "f17 (int (Suc n)) = 1 + f17 (int n)" by transfer (simp add: mod_simps)
  with Suc show ?case by simp
qed

lemma f17_numeral: "numeral k = f17 (numeral k)"
  using f17_of_nat [of "numeral k"] by simp

lemma f17_one: "1 = f17 1"
  using f17_numeral [of Num.One] by simp

lemma f17_zero_iff: "f17 n = 0 \<longleftrightarrow> n mod 17 = 0"
  by transfer simp

lemma f17_eq_iff: "f17 m = f17 n \<longleftrightarrow> m mod 17 = n mod 17"
  by transfer simp

lemma f17_mult: "f17 m * f17 n = f17 (m * n)"
  by transfer (simp add: mod_simps)

lemma f17_power: "f17 m ^ k = f17 (m ^ k)"
  by (induction k) (simp_all add: f17_mult, transfer, simp)

lemma f17_nonzero: "(2 :: f17) \<noteq> 0" "(6 :: f17) \<noteq> 0"
  by (simp_all add: f17_numeral f17_zero_iff)

definition f17_gen :: "nat \<Rightarrow> f17" where
  "f17_gen l = f17 3 ^ (2 ^ (4 - l))"

end
