(* ===== verification/PolyCommon.thy ===== *)
theory PolyCommon
  imports SmallField
begin

text \<open>
  The polynomial helpers of \<open>poly_common.rs\<close>, over any field in which 2 is not 0 (Plonky3's
  \<open>halve\<close> is division by 2, \<open>inverse\<close> the inverse); an argument of the base field enters as
  its embedding in the extension field. A function with a \<open>debug_assert\<close> on lengths is
  \<open>Panic\<close> when it fails, and its value is named by a second definition.
\<close>

section \<open>Definitions\<close>

definition eq_mle_value :: "'a::field list \<Rightarrow> 'a list \<Rightarrow> 'a" where
  "eq_mle_value x y = fold (\<lambda>(x_i, y_i) acc. acc * (1 - y_i - x_i + 2 * (x_i * y_i))) (zip x y) 1"

definition eval_eq_mle :: "'a::field list \<Rightarrow> 'a list \<Rightarrow> ('a, 'e) res" where
  "eval_eq_mle x y = (if length x = length y then Ok (eq_mle_value x y) else Panic)"

definition eval_mobius_eq_mle :: "'a::field list \<Rightarrow> 'a list \<Rightarrow> ('a, 'e) res" where
  "eval_mobius_eq_mle u x =
     (if length u = length x
      then Ok (fold (\<lambda>(u_i, x_i) acc. acc * ((1 - 2 * u_i) * (1 - x_i) + u_i * x_i)) (zip u x) 1)
      else Panic)"

text \<open>One pass of the in-place loop: the lower half of the live prefix is folded with the upper half.\<close>

definition mle_fold :: "'a::field \<Rightarrow> 'a list \<Rightarrow> 'a list" where
  "mle_fold xj evals = (let len = length evals div 2 in
     map (\<lambda>(lo, hi). lo * (1 - xj) + hi * xj) (zip (take len evals) (drop len evals)))"

definition eval_mle_evals_at_point :: "'a::field list \<Rightarrow> 'a list \<Rightarrow> ('a, 'e) res" where
  "eval_mle_evals_at_point evals x =
     (if length evals = 2 ^ length x then index (fold mle_fold (rev x) evals) 0 else Panic)"

fun exp_powers_of_2 :: "nat \<Rightarrow> 'a::field \<Rightarrow> 'a list" where
  "exp_powers_of_2 0 x = []"
| "exp_powers_of_2 (Suc n) x = x # exp_powers_of_2 n (x * x)"

definition eval_eq_uni :: "nat \<Rightarrow> 'a::field \<Rightarrow> 'a \<Rightarrow> 'a" where
  "eval_eq_uni l_skip x y =
     fold (\<lambda>(x_pow, y_pow) res. (x_pow + y_pow) * res + (x_pow - 1) * (y_pow - 1))
       (zip (exp_powers_of_2 l_skip x) (exp_powers_of_2 l_skip y)) 1 * (1 / 2) ^ l_skip"

definition eval_eq_uni_at_one :: "nat \<Rightarrow> 'a::field \<Rightarrow> 'a" where
  "eval_eq_uni_at_one l_skip x =
     fold (\<lambda>x_pow res. res * (x_pow + 1)) (exp_powers_of_2 l_skip x) 1 * (1 / 2) ^ l_skip"

definition eq_uni_poly :: "nat \<Rightarrow> 'a::field \<Rightarrow> 'a list" where
  "eq_uni_poly l_skip x =
     (let n_inv = (1 / 2) ^ l_skip in
      (rev (map (\<lambda>k. x ^ k * n_inv) [1..<2 ^ l_skip + 1]))[0 := n_inv])"

definition eval_in_uni :: "nat \<Rightarrow> int \<Rightarrow> 'a::field \<Rightarrow> ('a, 'e) res" where
  "eval_in_uni l_skip n z =
     (if - int l_skip \<le> n then
        Ok (if n < 0 then eval_eq_uni_at_one (nat \<bar>n\<bar>) (z ^ 2 ^ nat (int l_skip + n)) else 1)
      else Panic)"

definition eval_eq_prism :: "nat \<Rightarrow> 'a::field list \<Rightarrow> 'a list \<Rightarrow> ('a, 'e) res" where
  "eval_eq_prism l_skip x y =
     rbind (index x 0) (\<lambda>x0. rbind (index y 0) (\<lambda>y0.
       rbind (eval_eq_mle (drop 1 x) (drop 1 y)) (\<lambda>e. Ok (eval_eq_uni l_skip x0 y0 * e))))"

text \<open>The vector is filled from the front: after \<open>i\<close> steps its first \<open>2 ^ i\<close> entries are this list.\<close>

definition evals_eq_hypercube_serial :: "'a::field list \<Rightarrow> 'a list" where
  "evals_eq_hypercube_serial x =
     fold (\<lambda>x_i out. map (\<lambda>lo. lo * (1 - x_i)) out @ map (\<lambda>lo. lo * x_i) out) x [1]"

definition eq_sharp_value :: "'a::field list \<Rightarrow> 'a list \<Rightarrow> 'a \<Rightarrow> 'a" where
  "eq_sharp_value omega_skip_pows xi_1 z =
     fold (\<lambda>(omega_pow, eq_xi_eval) res. res + eval_eq_uni (length xi_1) z omega_pow * eq_xi_eval)
       (zip omega_skip_pows (evals_eq_hypercube_serial xi_1)) 0"

text \<open>The value that the debug assertion of \<open>eval_eq_sharp_uni\<close> compares with.\<close>

definition eq_sharp_other :: "'a::field list \<Rightarrow> 'a list \<Rightarrow> 'a \<Rightarrow> 'a" where
  "eq_sharp_other omega_skip_pows xi_1 z =
     (let l_skip = length xi_1; n = 2 ^ l_skip;
          coeffs = map (\<lambda>k. fold (\<lambda>i c. c * (1 - xi_1 ! i
                     + xi_1 ! i * omega_skip_pows ! ((n - (k * 2 ^ i) mod n) mod n))) [0..<l_skip] 1) [0..<n]
      in snd (fold (\<lambda>c (rpow, other). (rpow * z, other + rpow * c)) coeffs (1, 0)) * (inverse 2) ^ l_skip)"

definition eval_eq_sharp_uni :: "'a::field list \<Rightarrow> 'a list \<Rightarrow> 'a \<Rightarrow> ('a, 'e) res" where
  "eval_eq_sharp_uni omega_skip_pows xi_1 z =
     (if length omega_skip_pows = 2 ^ length xi_1 \<and>
         eq_sharp_other omega_skip_pows xi_1 z = eq_sharp_value omega_skip_pows xi_1 z
      then Ok (eq_sharp_value omega_skip_pows xi_1 z) else Panic)"

definition eq_rot_cube_value :: "'a::field list \<Rightarrow> 'a list \<Rightarrow> 'a \<times> 'a" where
  "eq_rot_cube_value x y =
     fold (\<lambda>i (eq, rot).
         (eq * (x ! i * y ! i + (1 - x ! i) * (1 - y ! i)),
          x ! i * (1 - y ! i) * eq + (1 - x ! i) * y ! i * rot))
       (rev [0..<length x]) (1, 1)"

definition eval_eq_rot_cube :: "'a::field list \<Rightarrow> 'a list \<Rightarrow> ('a \<times> 'a, 'e) res" where
  "eval_eq_rot_cube x y = (if length x = length y then Ok (eq_rot_cube_value x y) else Panic)"

text \<open>\<open>gen l\<close> is the generator of the subgroup of order \<open>2 ^ l\<close> (\<open>two_adic_generator\<close>).\<close>

definition eval_rot_kernel_prism :: "(nat \<Rightarrow> 'a::field) \<Rightarrow> nat \<Rightarrow> 'a list \<Rightarrow> 'a list \<Rightarrow> ('a, 'e) res" where
  "eval_rot_kernel_prism gen l_skip x y =
     rbind (index x 0) (\<lambda>x0. rbind (index y 0) (\<lambda>y0.
     rbind (eval_eq_rot_cube (drop 1 x) (drop 1 y)) (\<lambda>(eq_cube, rot_cube).
       Ok (eval_eq_uni l_skip x0 (y0 * gen l_skip) * eq_cube
         + eval_eq_uni_at_one l_skip x0 * eval_eq_uni_at_one l_skip (y0 * gen l_skip)
           * (rot_cube - eq_cube)))))"

definition horner_eval :: "'a::field list \<Rightarrow> 'a \<Rightarrow> 'a" where
  "horner_eval coeffs x = foldr (\<lambda>coeff acc. acc * x + coeff) coeffs 0"

definition interpolate_linear_at_01 :: "'a::field \<times> 'a \<Rightarrow> 'a \<Rightarrow> 'a" where
  "interpolate_linear_at_01 evals x = (case evals of (e0, e1) \<Rightarrow> (e1 - e0) * x + e0)"

definition interpolate_quadratic_at_012 :: "'a::field \<times> 'a \<times> 'a \<Rightarrow> 'a \<Rightarrow> 'a" where
  "interpolate_quadratic_at_012 evals x = (case evals of (e0, e1, e2) \<Rightarrow>
     let s1 = e1 - e0; s2 = e2 - e1; p = (s2 - s1) / 2; q = s1 - p in (p * x + q) * x + e0)"

definition interpolate_cubic_at_0123 :: "'a::field \<times> 'a \<times> 'a \<times> 'a \<Rightarrow> 'a \<Rightarrow> 'a" where
  "interpolate_cubic_at_0123 evals x = (case evals of (e0, e1, e2, e3) \<Rightarrow>
     let inv6 = inverse 6; s1 = e1 - e0; s2 = e2 - e0; s3 = e3 - e0;
         d3 = s3 - (s2 - s1) * 3; p = d3 * inv6; q = (s2 - d3) / 2 - s1; r = s1 - p - q
     in ((p * x + q) * x + r) * x + e0)"

section \<open>The hypercube\<close>

text \<open>The corner with index \<open>i\<close>, least significant bit first.\<close>

fun cube_point :: "nat \<Rightarrow> nat \<Rightarrow> 'a::field list" where
  "cube_point 0 i = []"
| "cube_point (Suc n) i = (if odd i then 1 else 0) # cube_point n (i div 2)"

lemma length_cube_point [simp]: "length (cube_point n i) = n"
  by (induction n arbitrary: i) auto

lemma div2_eq_iff: "i div 2 = j div 2 \<and> (odd i \<longleftrightarrow> odd j) \<longleftrightarrow> i = (j::nat)"
  by (metis even_iff_mod_2_eq_zero mod_div_mult_eq odd_iff_mod_2_eq_one)

lemma fold_mult_init:
  fixes a :: "'a::comm_ring_1"
  shows "fold (\<lambda>p acc. acc * f p) xs a = a * fold (\<lambda>p acc. acc * f p) xs 1"
proof (induction xs arbitrary: a)
  case (Cons x xs)
  from Cons [of "a * f x"] Cons [of "f x"] show ?case by (simp add: mult.assoc)
qed simp

lemma eq_mle_value_simps [simp]:
  "eq_mle_value [] y = 1"
  "eq_mle_value (a # x) (b # y) = (1 - b - a + 2 * (a * b)) * eq_mle_value x y"
proof -
  have f: "(\<lambda>(x_i, y_i) acc. acc * (1 - y_i - x_i + 2 * (x_i * y_i)))
      = (\<lambda>p acc. acc * (case p of (x_i, y_i) \<Rightarrow> 1 - y_i - x_i + 2 * (x_i * y_i)))" for dummy :: 'a
    by (auto simp: fun_eq_iff)
  show "eq_mle_value (a # x) (b # y) = (1 - b - a + 2 * (a * b)) * eq_mle_value x y"
    unfolding eq_mle_value_def f by (simp add: fold_mult_init [of _ _ "1 - b - a + 2 * (a * b)"])
qed (simp add: eq_mle_value_def)

text \<open>On the corners of the cube, \<open>eq\<close> is equality of the indices.\<close>

lemma eq_mle_cube:
  "i < 2 ^ n \<Longrightarrow> j < 2 ^ n \<Longrightarrow> eq_mle_value (cube_point n i) (cube_point n j) = (if i = j then 1 else 0 :: 'a::field)"
proof (induction n arbitrary: i j)
  case (Suc n)
  then have "i div 2 < 2 ^ n" "j div 2 < 2 ^ n" by auto
  with Suc.IH have "eq_mle_value (cube_point n (i div 2)) (cube_point n (j div 2)) = (if i div 2 = j div 2 then 1 else 0 :: 'a)"
    by simp
  with div2_eq_iff [of i j] show ?case by auto
qed simp

lemma eq_mle_commute: "length x = length y \<Longrightarrow> eq_mle_value x y = eq_mle_value y (x :: 'a::field list)"
  by (induction x y rule: list_induct2) (simp_all add: algebra_simps)

section \<open>Hypercube evaluations\<close>

lemma hypercube_fold_append:
  "evals_eq_hypercube_serial (x @ [a])
     = map (\<lambda>lo. lo * (1 - a)) (evals_eq_hypercube_serial x) @ map (\<lambda>lo. lo * a) (evals_eq_hypercube_serial x)"
  by (simp add: evals_eq_hypercube_serial_def)

lemma length_hypercube [simp]: "length (evals_eq_hypercube_serial x) = 2 ^ length x"
  by (induction x rule: rev_induct) (simp_all add: hypercube_fold_append, simp add: evals_eq_hypercube_serial_def)

lemma cube_point_append:
  "i < 2 ^ Suc n \<Longrightarrow>
     (cube_point (Suc n) i :: 'a::field list) = cube_point n (i mod 2 ^ n) @ [if i < 2 ^ n then 0 else 1]"
proof (induction n arbitrary: i)
  case (Suc n)
  then have "i div 2 < 2 ^ Suc n" by simp
  from Suc.IH [OF this] have "(cube_point (Suc n) (i div 2) :: 'a list) =
      cube_point n (i div 2 mod 2 ^ n) @ [if i div 2 < 2 ^ n then 0 else 1]" .
  moreover have "i mod 2 ^ Suc n div 2 = i div 2 mod 2 ^ n"
    by (simp add: mod_mult2_eq)
  moreover have "odd (i mod 2 ^ Suc n) \<longleftrightarrow> odd i" by (simp add: dvd_mod_iff)
  moreover have "i div 2 < 2 ^ n \<longleftrightarrow> i < 2 ^ Suc n" by auto
  ultimately show ?case by (simp del: power_Suc)
qed auto

lemma eq_mle_append:
  "length x = length y \<Longrightarrow> eq_mle_value (x @ [a]) (y @ [b]) = eq_mle_value x y * (1 - b - a + 2 * (a * b :: 'a::field))"
  by (induction x y rule: list_induct2) (simp_all add: mult.assoc)

lemma hypercube_nth:
  "i < 2 ^ length x \<Longrightarrow> evals_eq_hypercube_serial x ! i = eq_mle_value x (cube_point (length x) i)"
proof (induction x arbitrary: i rule: rev_induct)
  case Nil
  then show ?case by (simp add: evals_eq_hypercube_serial_def)
next
  case (snoc a x)
  let ?n = "length x"
  have i: "i < 2 ^ Suc ?n" using snoc.prems by simp
  have eq: "eq_mle_value (x @ [a]) (cube_point (Suc ?n) i)
      = eq_mle_value x (cube_point ?n (i mod 2 ^ ?n)) * (if i < 2 ^ ?n then 1 - a else a)"
    unfolding cube_point_append [OF i] by (simp add: eq_mle_append)
  have IH: "evals_eq_hypercube_serial x ! (i mod 2 ^ ?n) = eq_mle_value x (cube_point ?n (i mod 2 ^ ?n))"
    by (rule snoc.IH) simp
  show ?case
  proof (cases "i < 2 ^ ?n")
    case True
    with IH eq show ?thesis by (simp add: hypercube_fold_append nth_append)
  next
    case False
    then have m: "i mod 2 ^ ?n = i - 2 ^ ?n" using i by (simp add: mod_if)
    have "i - 2 ^ ?n < 2 ^ ?n" using i by simp
    with False IH eq show ?thesis by (simp add: hypercube_fold_append nth_append m)
  qed
qed

text \<open>The evaluation of a multilinear extension is the weighted sum of the corner values.\<close>

definition mle_sum :: "'a::field list \<Rightarrow> 'a list \<Rightarrow> 'a" where
  "mle_sum evals x = (\<Sum>i < 2 ^ length x. evals ! i * eq_mle_value x (cube_point (length x) i))"

lemma length_mle_fold: "length evals = 2 * m \<Longrightarrow> length (mle_fold a evals) = m"
  by (simp add: mle_fold_def)

lemma mle_fold_nth:
  "length evals = 2 * m \<Longrightarrow> i < m \<Longrightarrow> mle_fold a evals ! i = evals ! i * (1 - a) + evals ! (m + i) * a"
  by (simp add: mle_fold_def)

lemma sum_split_double: "(\<Sum>i < 2 * m. f i) = (\<Sum>i < m. f i) + (\<Sum>i < m. f (m + i :: nat))"
  for f :: "nat \<Rightarrow> 'a::comm_monoid_add"
proof -
  have "{..<2 * m} = {..<m} \<union> {m..<m + m}" by auto
  then have "sum f {..<2 * m} = sum f {..<m} + sum f {m..<m + m}"
    by (simp add: sum.union_disjoint ivl_disj_int)
  also have "sum f {m..<m + m} = (\<Sum>i < m. f (m + i))"
    using sum.shift_bounds_nat_ivl [of f 0 m m] by (simp add: lessThan_atLeast0 add.commute)
  finally show ?thesis .
qed

lemma mle_sum_snoc:
  assumes "length evals = 2 ^ Suc (length x)"
  shows "mle_sum evals (x @ [a]) = mle_sum (mle_fold a evals) x"
proof -
  let ?n = "length x"
  have len: "length evals = 2 * 2 ^ ?n" using assms by simp
  have lo: "eq_mle_value (x @ [a]) (cube_point (Suc ?n) i) = eq_mle_value x (cube_point ?n i) * (1 - a)"
    if "i < 2 ^ ?n" for i
    using that cube_point_append [of i ?n, where ?'a = 'a] by (simp add: eq_mle_append)
  have hi: "eq_mle_value (x @ [a]) (cube_point (Suc ?n) (2 ^ ?n + i)) = eq_mle_value x (cube_point ?n i) * a"
    if "i < 2 ^ ?n" for i
    using that cube_point_append [of "2 ^ ?n + i" ?n, where ?'a = 'a] by (simp add: eq_mle_append)
  have "mle_sum evals (x @ [a]) = (\<Sum>i < 2 * 2 ^ ?n. evals ! i * eq_mle_value (x @ [a]) (cube_point (Suc ?n) i))"
    by (simp add: mle_sum_def)
  also have "\<dots> = (\<Sum>i < 2 ^ ?n. (evals ! i * (1 - a) + evals ! (2 ^ ?n + i) * a) * eq_mle_value x (cube_point ?n i))"
    unfolding sum_split_double sum.distrib [symmetric]
    by (rule sum.cong) (simp_all add: lo hi [unfolded add.commute [of "2 ^ _"]] hi algebra_simps del: cube_point.simps)
  also have "\<dots> = mle_sum (mle_fold a evals) x"
    unfolding mle_sum_def by (rule sum.cong) (simp_all add: mle_fold_nth [OF len])
  finally show ?thesis .
qed

lemma mle_fold_all:
  "length evals = 2 ^ length x \<Longrightarrow> fold mle_fold (rev x) evals = [mle_sum evals x]"
proof (induction x arbitrary: evals rule: rev_induct)
  case Nil
  then show ?case by (cases evals) (auto simp: mle_sum_def)
next
  case (snoc a x)
  then have "length (mle_fold a evals) = 2 ^ length x" by (simp add: length_mle_fold)
  from snoc.IH [OF this] snoc.prems show ?case by (simp add: mle_sum_snoc)
qed

lemma eval_mle_sum:
  "length evals = 2 ^ length x \<Longrightarrow> eval_mle_evals_at_point evals x = Ok (mle_sum evals x)"
  by (simp add: eval_mle_evals_at_point_def mle_fold_all)

section \<open>The univariate skip domain\<close>

text \<open>The closed form of \<open>eq_D\<close> before the division: \<open>1 + (\<Sum>k. x ^ (m - k) * y ^ k)\<close>.\<close>

definition eq_uni_sum :: "nat \<Rightarrow> 'a::field \<Rightarrow> 'a \<Rightarrow> 'a" where
  "eq_uni_sum m x y = 1 + (\<Sum>k = 1..<m. x ^ (m - k) * y ^ k)"

lemma eq_uni_sum_double:
  assumes "1 \<le> m"
  shows "eq_uni_sum (2 * m) x y = (x ^ m + y ^ m) * eq_uni_sum m x y + (x ^ m - 1) * (y ^ m - 1)"
proof -
  have set: "{1..<2 * m} = {1..<m} \<union> ({m} \<union> {m + 1..<2 * m})" using assms by auto
  have "(\<Sum>k = 1..<2 * m. x ^ (2 * m - k) * y ^ k) =
      (\<Sum>k = 1..<m. x ^ (2 * m - k) * y ^ k) + (x ^ m * y ^ m + (\<Sum>k = m + 1..<2 * m. x ^ (2 * m - k) * y ^ k))"
    unfolding set by (subst sum.union_disjoint; (subst sum.union_disjoint)?) auto
  also have "(\<Sum>k = 1..<m. x ^ (2 * m - k) * y ^ k) = x ^ m * (\<Sum>k = 1..<m. x ^ (m - k) * y ^ k)"
    unfolding sum_distrib_left
    by (rule sum.cong) (auto simp: mult_2 mult.assoc [symmetric] simp flip: power_add)
  also have "(\<Sum>k = m + 1..<2 * m. x ^ (2 * m - k) * y ^ k) = (\<Sum>k = 1..<m. x ^ (2 * m - (k + m)) * y ^ (k + m))"
    using sum.shift_bounds_nat_ivl [of "\<lambda>k. x ^ (2 * m - k) * y ^ k" 1 m m] by (simp add: mult_2 add.commute)
  also have "\<dots> = y ^ m * (\<Sum>k = 1..<m. x ^ (m - k) * y ^ k)"
    unfolding sum_distrib_left
    by (rule sum.cong) (auto simp: mult_2 power_add)
  finally show ?thesis by (simp add: eq_uni_sum_def algebra_simps)
qed

lemma eq_uni_loop:
  assumes "1 \<le> m"
  shows "fold (\<lambda>(x_pow, y_pow) res. (x_pow + y_pow) * res + (x_pow - 1) * (y_pow - 1))
      (zip (exp_powers_of_2 l (x ^ m)) (exp_powers_of_2 l (y ^ m))) (eq_uni_sum m x y)
     = eq_uni_sum (m * 2 ^ l) x (y :: 'a::field)"
  using assms
proof (induction l arbitrary: m)
  case (Suc l)
  have sq: "z ^ m * z ^ m = z ^ (2 * m)" for z :: 'a by (simp add: mult_2 power_add)
  from Suc.IH [of "2 * m"] Suc.prems show ?case
    by (simp add: sq eq_uni_sum_double [OF Suc.prems] mult.assoc mult.left_commute)
qed simp

lemma eval_eq_uni_sum: "eval_eq_uni l x y = eq_uni_sum (2 ^ l) x y / 2 ^ l"
  using eq_uni_loop [of 1 l x y] by (simp add: eval_eq_uni_def eq_uni_sum_def power_divide)

lemma eq_uni_at_one_loop:
  "fold (\<lambda>(x_pow, y_pow) res. (x_pow + y_pow) * res + (x_pow - 1) * (y_pow - 1))
      (zip (exp_powers_of_2 l x) (exp_powers_of_2 l 1)) a
     = fold (\<lambda>x_pow res. res * (x_pow + 1)) (exp_powers_of_2 l x) (a :: 'a::field)"
  by (induction l arbitrary: x a) (simp_all add: mult.commute)

lemma eq_uni_at_one: "eval_eq_uni_at_one l x = eval_eq_uni l x 1"
  by (simp add: eval_eq_uni_def eval_eq_uni_at_one_def eq_uni_at_one_loop)

text \<open>On the domain, \<open>eq_D\<close> is equality.\<close>

lemma eq_uni_sum_domain:
  assumes "x ^ m = 1" and "y ^ m = 1" and "1 \<le> m"
  shows "eq_uni_sum m x y = (if x = y then of_nat m else 0 :: 'a::field)"
proof -
  have "eq_uni_sum m x y = (\<Sum>k < m. x ^ (m - k) * y ^ k)"
  proof -
    have "{..<m} = insert 0 {1..<m}" using assms(3) by auto
    then show ?thesis using assms(1) by (simp add: eq_uni_sum_def)
  qed
  also have "\<dots> = x * (\<Sum>k < m. x ^ (m - Suc k) * y ^ k)"
    unfolding sum_distrib_left
    by (rule sum.cong) (auto simp: mult.assoc [symmetric] Suc_diff_Suc simp flip: power_Suc)
  finally have s: "eq_uni_sum m x y = x * (\<Sum>k < m. x ^ (m - Suc k) * y ^ k)" .
  show ?thesis
  proof (cases "x = y")
    case True
    have "x ^ (m - k) * x ^ k = 1" if "k < m" for k
      using that assms(1) by (simp flip: power_add)
    with True assms(1,3) show ?thesis
      unfolding \<open>eq_uni_sum m x y = (\<Sum>k < m. x ^ (m - k) * y ^ k)\<close> by simp
  next
    case False
    have "(y - x) * (\<Sum>k < m. x ^ (m - Suc k) * y ^ k) = y ^ m - x ^ m"
      by (rule power_diff_sumr2 [symmetric])
    with False assms have "(\<Sum>k < m. x ^ (m - Suc k) * y ^ k) = 0" by simp
    with s False show ?thesis by simp
  qed
qed

lemma eq_uni_domain:
  assumes "(2 :: 'a::field) \<noteq> 0" and "x ^ 2 ^ l = 1" and "y ^ 2 ^ l = 1"
  shows "eval_eq_uni l x y = (if x = y then 1 else 0 :: 'a)"
  using eq_uni_sum_domain [OF assms(2,3)] assms(1) by (simp add: eval_eq_uni_sum)

section \<open>Coefficient form, interpolation\<close>

lemma horner_eval_sum: "horner_eval cs x = (\<Sum>i < length cs. cs ! i * x ^ i)"
proof (induction cs)
  case (Cons c cs)
  have "(\<Sum>i < length (c # cs). (c # cs) ! i * x ^ i) = c + (\<Sum>i < length cs. cs ! i * x ^ Suc i)"
    by (simp only: length_Cons sum.lessThan_Suc_shift) simp
  also have "(\<Sum>i < length cs. cs ! i * x ^ Suc i) = (\<Sum>i < length cs. cs ! i * x ^ i) * x"
    unfolding sum_distrib_right by (rule sum.cong) (simp_all add: mult_ac)
  finally show ?case using Cons by (simp add: horner_eval_def add.commute)
qed (simp add: horner_eval_def)

lemma length_eq_uni_poly: "length (eq_uni_poly l x) = 2 ^ l"
  by (simp add: eq_uni_poly_def Let_def)

lemma eq_uni_poly_nth:
  "i < 2 ^ l \<Longrightarrow> eq_uni_poly l x ! i = (if i = 0 then 1 else x ^ (2 ^ l - i)) * (1 / 2) ^ l"
  by (auto simp: eq_uni_poly_def Let_def rev_nth nth_list_update Suc_diff_Suc simp del: upt_Suc)

lemma eq_uni_poly_eval: "horner_eval (eq_uni_poly l x) z = eval_eq_uni l x z"
proof -
  have ne: "{..<(2::nat) ^ l} = insert 0 {1..<2 ^ l}" by auto
  have "horner_eval (eq_uni_poly l x) z
      = (\<Sum>i < 2 ^ l. (if i = 0 then 1 else x ^ (2 ^ l - i)) * (1 / 2) ^ l * z ^ i)"
    unfolding horner_eval_sum length_eq_uni_poly
    by (rule sum.cong) (simp_all add: eq_uni_poly_nth)
  also have "\<dots> = (1 / 2) ^ l + (\<Sum>i = 1..<2 ^ l. x ^ (2 ^ l - i) * (1 / 2) ^ l * z ^ i)"
    unfolding ne by (subst sum.insert) (auto intro!: sum.cong)
  also have "\<dots> = (1 + (\<Sum>i = 1..<2 ^ l. x ^ (2 ^ l - i) * z ^ i)) * (1 / 2) ^ l"
    by (simp only: distrib_right sum_distrib_right mult_1_left) (simp add: mult_ac)
  finally show ?thesis by (simp add: eval_eq_uni_sum eq_uni_sum_def power_divide)
qed

lemma interpolate_linear_exact:
  "interpolate_linear_at_01 (horner_eval [a, b] 0, horner_eval [a, b] 1) x = horner_eval [a, b] x"
  by (simp add: interpolate_linear_at_01_def horner_eval_def algebra_simps)

lemma interpolate_quadratic_exact:
  assumes "(2 :: 'a::field) \<noteq> 0"
  shows "interpolate_quadratic_at_012 (horner_eval [a, b, c] 0, horner_eval [a, b, c] 1, horner_eval [a, b, c] 2) x
     = horner_eval [a, b, c] (x :: 'a)"
proof -
  let ?h = "horner_eval [a, b, c]"
  have "(?h 2 - ?h 1) - (?h 1 - ?h 0) = 2 * c" by (simp add: horner_eval_def algebra_simps)
  then have p: "((?h 2 - ?h 1) - (?h 1 - ?h 0)) / 2 = c" using assms by simp
  show ?thesis
    unfolding interpolate_quadratic_at_012_def Let_def prod.case p
    by (simp add: horner_eval_def algebra_simps)
qed

lemma interpolate_cubic_exact:
  assumes "(6 :: 'a::field) \<noteq> 0"
  shows "interpolate_cubic_at_0123 (horner_eval [a, b, c, d] 0, horner_eval [a, b, c, d] 1,
       horner_eval [a, b, c, d] 2, horner_eval [a, b, c, d] 3) x = horner_eval [a, b, c, d] (x :: 'a)"
proof -
  have two: "(2 :: 'a) \<noteq> 0"
  proof
    assume "(2 :: 'a) = 0"
    then have "(2 :: 'a) * 3 = 0" by simp
    with assms show False by simp
  qed
  let ?h = "horner_eval [a, b, c, d]"
  have d3: "(?h 3 - ?h 0) - ((?h 2 - ?h 0) - (?h 1 - ?h 0)) * 3 = 6 * d"
    by (simp add: horner_eval_def algebra_simps)
  have "?h 2 - ?h 0 - 6 * d = 2 * (d + 2 * c + b)" by (simp add: horner_eval_def algebra_simps)
  then have q: "(?h 2 - ?h 0 - 6 * d) / 2 = d + 2 * c + b" using two by simp
  have p: "6 * d * inverse 6 = d" using assms by simp
  show ?thesis
    unfolding interpolate_cubic_at_0123_def Let_def prod.case d3 q p
    by (simp add: horner_eval_def algebra_simps)
qed

section \<open>Roots\<close>

lemma horner_Cons: "horner_eval (c # cs) x = c + x * horner_eval cs x"
  by (simp add: horner_eval_def mult.commute add.commute)

lemma horner_Nil [simp]: "horner_eval [] x = 0"
  by (simp add: horner_eval_def)

text \<open>Division by \<open>x - a\<close>; a quotient of zeros comes only from zero coefficients.\<close>

lemma synthetic_division:
  "\<exists>ds. length ds = length cs - 1 \<and> (\<forall>x. horner_eval cs x = (x - a) * horner_eval ds x + horner_eval cs a) \<and>
     (horner_eval cs a = 0 \<and> (\<forall>d \<in> set ds. d = 0) \<longrightarrow> (\<forall>c \<in> set cs. c = (0 :: 'a::field)))"
proof (induction cs)
  case Nil
  then show ?case by (simp add: horner_eval_def)
next
  case (Cons c cs)
  from Cons obtain ds where ds: "length ds = length cs - 1"
    "\<forall>x. horner_eval cs x = (x - a) * horner_eval ds x + horner_eval cs a"
    "horner_eval cs a = 0 \<and> (\<forall>d \<in> set ds. d = 0) \<longrightarrow> (\<forall>c \<in> set cs. c = 0)" by blast
  show ?case
  proof (cases "cs = []")
    case True
    then show ?thesis by (intro exI [of _ "[]"]) (simp add: horner_eval_def)
  next
    case False
    have alg: "c + x * ((x - a) * D + A) = (x - a) * (A + x * D) + (c + a * A)" for D A x
      by (simp add: algebra_simps)
    have div: "horner_eval (c # cs) x = (x - a) * horner_eval (horner_eval cs a # ds) x + horner_eval (c # cs) a" for x
    proof -
      have "c + x * horner_eval cs x = c + x * ((x - a) * horner_eval ds x + horner_eval cs a)"
        by (rule arg_cong [OF ds(2) [rule_format]])
      also have "\<dots> = (x - a) * (horner_eval cs a + x * horner_eval ds x) + (c + a * horner_eval cs a)"
        by (rule alg)
      finally show ?thesis by (simp only: horner_Cons)
    qed
    have zero: "\<forall>e \<in> set (c # cs). e = 0"
      if "horner_eval (c # cs) a = 0" "\<forall>d \<in> set (horner_eval cs a # ds). d = 0"
    proof -
      from that(2) have "horner_eval cs a = 0" "\<forall>d \<in> set ds. d = 0" by simp_all
      with ds(3) that(1) show ?thesis by (simp add: horner_Cons)
    qed
    show ?thesis
    proof (intro exI [of _ "horner_eval cs a # ds"] conjI allI impI)
      show "length (horner_eval cs a # ds) = length (c # cs) - 1" using False ds(1) by simp
    qed (use div zero in blast)+
  qed
qed

lemma root_count:
  assumes "\<exists>c \<in> set cs. c \<noteq> (0 :: 'a::field)"
  shows "finite {x. horner_eval cs x = 0} \<and> card {x. horner_eval cs x = 0} \<le> length cs - 1"
  using assms
proof (induction "length cs" arbitrary: cs)
  case 0
  then show ?case by simp
next
  case (Suc n)
  show ?case
  proof (cases "\<exists>a. horner_eval cs a = 0")
    case True
    then obtain a where a: "horner_eval cs a = 0" by blast
    with synthetic_division [of cs a] Suc.prems obtain ds where ds: "length ds = length cs - 1"
      "\<forall>x. horner_eval cs x = (x - a) * horner_eval ds x" "\<exists>d \<in> set ds. d \<noteq> 0" by auto
    then have IH: "finite {x. horner_eval ds x = 0}" "card {x. horner_eval ds x = 0} \<le> length ds - 1"
      using Suc.hyps(1) [of ds] Suc.hyps(2) by simp_all
    have eq: "{x. horner_eval cs x = 0} = insert a {x. horner_eval ds x = 0}" using ds(2) by auto
    have "0 < length ds" using ds(3) by auto
    then have "card {x. horner_eval cs x = 0} \<le> length cs - 1"
      unfolding eq using IH card_insert_le_m1 [of "length ds" "{x. horner_eval ds x = 0}" a] ds(1) by simp
    with IH(1) show ?thesis by (simp add: eq)
  next
    case False
    then have "{x. horner_eval cs x = 0} = {}" by auto
    then show ?thesis by simp
  qed
qed

text \<open>Two polynomials of the same length that differ somewhere agree at fewer points than their length.\<close>

lemma agreement_count:
  assumes "length cs = length ds" and "horner_eval cs y \<noteq> horner_eval ds (y :: 'a::field)"
  shows "finite {x. horner_eval cs x = horner_eval ds x} \<and> card {x. horner_eval cs x = horner_eval ds x} \<le> length cs - 1"
proof -
  let ?d = "map2 (-) cs ds"
  have diff: "horner_eval ?d x = horner_eval cs x - horner_eval ds x" for x
    using assms(1) by (induction cs ds rule: list_induct2) (simp_all add: horner_Cons right_diff_distrib)
  have "\<exists>c \<in> set ?d. c \<noteq> 0"
  proof (rule ccontr)
    assume "\<not> (\<exists>c \<in> set ?d. c \<noteq> 0)"
    then have "horner_eval ?d y = 0" unfolding horner_eval_sum by (intro sum.neutral) (metis lessThan_iff mult_zero_left nth_mem)
    with diff assms(2) show False by simp
  qed
  from root_count [OF this] assms(1) show ?thesis by (simp add: diff)
qed

section \<open>The rotation kernel\<close>

lemma rot_cube_rec:
  "eq_rot_cube_value (a # x) (b # y) = (let (eq, rot) = eq_rot_cube_value x y in
     (eq * (a * b + (1 - a) * (1 - b)), a * (1 - b) * eq + (1 - a) * b * rot))"
  if "length x = length y" for a :: "'a::field"
proof -
  have up: "rev [0..<length (a # x)] = map Suc (rev [0..<length x]) @ [0]"
    by (simp add: rev_map [symmetric] map_Suc_upt upt_conv_Cons del: upt_Suc)
  show ?thesis
    unfolding eq_rot_cube_value_def up fold_append fold_map o_def
    by (simp add: Let_def split: prod.splits)
qed

lemma rot_cube:
  "i < 2 ^ n \<Longrightarrow> j < 2 ^ n \<Longrightarrow> eq_rot_cube_value (cube_point n i) (cube_point n j)
     = (if i = j then 1 else 0 :: 'a::field, if i = (j + 1) mod 2 ^ n then 1 else 0)"
proof (induction n arbitrary: i j)
  case 0
  then show ?case by (simp add: eq_rot_cube_value_def)
next
  case (Suc n)
  then have lt: "i div 2 < 2 ^ n" "j div 2 < 2 ^ n" by auto
  have odd_j: "(j + 1) mod 2 ^ Suc n = 2 * ((j div 2 + 1) mod 2 ^ n)" if "odd j"
  proof -
    have "j + 1 = 2 * (j div 2 + 1)" using that by (simp add: odd_two_times_div_two_succ)
    then show ?thesis by (metis mult_mod_right power_Suc)
  qed
  have even_j: "(j + 1) mod 2 ^ Suc n = 2 * (j div 2) + 1" if "even j"
  proof -
    have "j + 1 \<noteq> 2 ^ Suc n" using that by (metis even_plus_one_iff power_Suc dvd_triv_left)
    then have "j + 1 < 2 ^ Suc n" using Suc.prems(2) by linarith
    with that show ?thesis by simp
  qed
  have half: "i = 2 * k \<longleftrightarrow> even i \<and> i div 2 = k" "i = 2 * k + 1 \<longleftrightarrow> odd i \<and> i div 2 = k" for k
    by auto
  show ?case
  proof (cases "odd j")
    case True
    show ?thesis
      unfolding cube_point.simps rot_cube_rec [OF length_cube_point [THEN trans, OF length_cube_point [symmetric]]]
        Suc.IH [OF lt] odd_j [OF True] half
      using True div2_eq_iff [of i j] by auto
  next
    case False
    then have even: "even j" by simp
    show ?thesis
      unfolding cube_point.simps rot_cube_rec [OF length_cube_point [THEN trans, OF length_cube_point [symmetric]]]
        Suc.IH [OF lt] even_j [OF even] half
      using even div2_eq_iff [of i j] by auto
  qed
qed

section \<open>Two-adic subgroups\<close>

text \<open>The point of the prism with index \<open>b * 2 ^ l + i\<close>: \<open>i\<close> in the domain, \<open>b\<close> in the cube.\<close>

definition prism_point :: "(nat \<Rightarrow> 'a::field) \<Rightarrow> nat \<Rightarrow> nat \<Rightarrow> nat \<Rightarrow> 'a list" where
  "prism_point gen l n r = gen l ^ (r mod 2 ^ l) # cube_point n (r div 2 ^ l)"

text \<open>What is relied on of \<open>two_adic_generator\<close>: a generator of the subgroup of order \<open>2 ^ l\<close>.\<close>

locale two_adic =
  fixes gen :: "nat \<Rightarrow> 'a::field" and adicity :: nat
  assumes two_nonzero: "(2 :: 'a) \<noteq> 0"
    and gen_order: "l \<le> adicity \<Longrightarrow> gen l ^ 2 ^ l = 1"
    and gen_inject: "l \<le> adicity \<Longrightarrow> i < 2 ^ l \<Longrightarrow> j < 2 ^ l \<Longrightarrow> gen l ^ i = gen l ^ j \<Longrightarrow> i = j"
begin

lemma gen_pow_order: "l \<le> adicity \<Longrightarrow> (gen l ^ i) ^ 2 ^ l = 1"
  by (metis gen_order mult.commute power_mult power_one)

lemma gen_pow_mod: "l \<le> adicity \<Longrightarrow> gen l ^ (i mod 2 ^ l) = gen l ^ i"
proof -
  assume l: "l \<le> adicity"
  have "gen l ^ i = gen l ^ (2 ^ l * (i div 2 ^ l) + i mod 2 ^ l)" by simp
  also have "\<dots> = (gen l ^ 2 ^ l) ^ (i div 2 ^ l) * gen l ^ (i mod 2 ^ l)"
    by (simp only: power_add power_mult)
  finally show ?thesis using l by (simp add: gen_order)
qed

lemma gen_pow_eq_iff: "l \<le> adicity \<Longrightarrow> gen l ^ i = gen l ^ j \<longleftrightarrow> i mod 2 ^ l = j mod 2 ^ l"
  by (metis gen_inject gen_pow_mod mod_less_divisor zero_less_numeral zero_less_power)

lemma eq_uni_gen:
  assumes "l \<le> adicity"
  shows "eval_eq_uni l (gen l ^ i) (gen l ^ j) = (if i mod 2 ^ l = j mod 2 ^ l then 1 else 0)"
  using assms by (simp add: eq_uni_domain [OF two_nonzero] gen_pow_order gen_pow_eq_iff)

lemma rot_kernel:
  assumes l: "l \<le> adicity" and "r < 2 ^ (l + n)" and "s < 2 ^ (l + n)"
  shows "eval_rot_kernel_prism gen l (prism_point gen l n r) (prism_point gen l n s)
     = Ok (if r = (s + 1) mod 2 ^ (l + n) then 1 else 0)"
proof -
  define N :: nat where "N = 2 ^ l"
  define i j b c where "i = r mod N" and "j = s mod N" and "b = r div N" and "c = s div N"
  have N: "0 < N" by (simp add: N_def)
  have lt: "b < 2 ^ n" "c < 2 ^ n" "i < N" "j < N"
    using assms N by (simp_all add: b_def c_def i_def j_def N_def power_add less_mult_imp_div_less mult.commute)
  have r: "r = b * N + i" and s: "s = c * N + j" by (simp_all add: b_def c_def i_def j_def)
  have succ: "gen l ^ j * gen l = gen l ^ Suc j" by (simp add: mult.commute)
  have one: "eval_eq_uni_at_one l (gen l ^ k) = (if k mod N = 0 then 1 else 0)" for k
    using eq_uni_gen [OF l, of k 0] by (simp add: eq_uni_at_one N_def)
  have uni: "eval_eq_uni l (gen l ^ i) (gen l ^ Suc j) = (if i = Suc j mod N then 1 else 0)"
    using eq_uni_gen [OF l, of i "Suc j"] lt(3) by (simp add: N_def)
  have pr: "prism_point gen l n r = gen l ^ i # cube_point n b"
    and ps: "prism_point gen l n s = gen l ^ j # cube_point n c"
    by (simp_all add: prism_point_def i_def j_def b_def c_def N_def)
  have val: "eval_rot_kernel_prism gen l (prism_point gen l n r) (prism_point gen l n s)
      = Ok ((if i = (j + 1) mod N then 1 else 0) * (if b = c then 1 else 0)
          + (if i = 0 then 1 else 0) * (if (j + 1) mod N = 0 then 1 else 0)
            * ((if b = (c + 1) mod 2 ^ n then 1 else 0) - (if b = c then 1 else 0)))"
    unfolding eval_rot_kernel_prism_def pr ps eval_eq_rot_cube_def
    using lt(3) by (simp add: index_def rot_cube [OF lt(1,2)] succ one uni del: power_Suc)
  show ?thesis
  proof (cases "j + 1 < N")
    case True
    then have "s + 1 = c * N + (j + 1)" using s by simp
    moreover have "c * N + (j + 1) < 2 ^ (l + n)"
    proof -
      have "c * N + (j + 1) < (c + 1) * N" using True by simp
      also have "\<dots> \<le> 2 ^ n * N" using lt(2) by (intro mult_le_mono1) simp
      finally show ?thesis by (simp add: N_def power_add mult.commute)
    qed
    ultimately have "r = (s + 1) mod 2 ^ (l + n) \<longleftrightarrow> b * N + i = c * N + (j + 1)" using r by simp
    also have "\<dots> \<longleftrightarrow> b = c \<and> i = j + 1"
      using lt(3) True N by (metis add_left_cancel div_mult_self3 div_less add_cancel_left_right mult.commute neq0_conv)
    finally show ?thesis using True by (auto simp: val)
  next
    case False
    then have j: "j + 1 = N" using lt(4) by simp
    then have "s + 1 = (c + 1) * N" using s by (simp add: algebra_simps)
    then have "(s + 1) mod (2 ^ n * N) = ((c + 1) mod 2 ^ n) * N"
      by (simp only: mult_mod_left)
    then have "(s + 1) mod 2 ^ (l + n) = ((c + 1) mod 2 ^ n) * N"
      by (simp only: N_def power_add mult.commute)
    then have "r = (s + 1) mod 2 ^ (l + n) \<longleftrightarrow> b * N + i = ((c + 1) mod 2 ^ n) * N" using r by simp
    also have "\<dots> \<longleftrightarrow> b = (c + 1) mod 2 ^ n \<and> i = 0"
      using lt(3) N by (metis add.right_neutral add_left_cancel div_mult_self3 div_less mult.commute neq0_conv)
    finally show ?thesis using j by (auto simp: val)
  qed
qed

text \<open>The debug assertion of \<open>eval_eq_sharp_uni\<close> holds: both sides are the same character sum.\<close>

lemma eq_uni_character_sum:
  assumes "l \<le> adicity" and "i < 2 ^ l"
  shows "eval_eq_uni l z (gen l ^ i) = (\<Sum>k < 2 ^ l. z ^ k * gen l ^ ((2 ^ l - (k * i) mod 2 ^ l) mod 2 ^ l)) / 2 ^ l"
proof -
  let ?N = "2 ^ l :: nat"
  have conj: "gen l ^ ((?N - (k * i) mod ?N) mod ?N) = gen l ^ ((?N - k) * i)" if "k \<le> ?N" for k
  proof -
    have "((?N - (k * i) mod ?N) + k * i) mod ?N = 0"
      by (metis add.commute le_add_diff_inverse2 less_imp_le_nat mod_add_left_eq mod_less_divisor mod_self pos2 zero_less_power)
    moreover have "((?N - k) * i + k * i) mod ?N = 0" using that by (simp flip: distrib_right)
    ultimately have "gen l ^ (?N - (k * i) mod ?N) * gen l ^ (k * i) = gen l ^ ((?N - k) * i) * gen l ^ (k * i)"
      unfolding power_add [symmetric] by (simp only: gen_pow_eq_iff [OF assms(1)])
    moreover have "gen l \<noteq> 0" using gen_order [OF assms(1)] by (auto simp: power_0_left)
    then have "gen l ^ (k * i) \<noteq> 0" by simp
    ultimately show ?thesis
      unfolding gen_pow_mod [OF assms(1)] by (metis mult_right_cancel)
  qed
  have set: "{..<?N} = insert 0 {1..<?N}" by auto
  have "(\<Sum>k < ?N. z ^ k * gen l ^ ((?N - (k * i) mod ?N) mod ?N))
      = 1 + (\<Sum>k = 1..<?N. z ^ k * gen l ^ ((?N - k) * i))"
    unfolding set by (subst sum.insert) (auto intro!: sum.cong simp: conj)
  also have "(\<Sum>k = 1..<?N. z ^ k * gen l ^ ((?N - k) * i)) = (\<Sum>k = 1..<?N. z ^ (?N - k) * gen l ^ (k * i))"
    by (rule sum.reindex_bij_witness [of _ "\<lambda>k. ?N - k" "\<lambda>k. ?N - k"]) auto
  finally show ?thesis
    by (simp add: eval_eq_uni_sum eq_uni_sum_def power_mult [symmetric] mult.commute)
qed

lemma gen_conj:
  assumes "l \<le> adicity"
  shows "gen l ^ ((2 ^ l - m mod 2 ^ l) mod 2 ^ l) = (gen l ^ (2 ^ l - 1)) ^ m"
proof -
  let ?N = "2 ^ l :: nat"
  have "((?N - m mod ?N) + m) mod ?N = 0"
    by (metis add.commute le_add_diff_inverse2 less_imp_le_nat mod_add_left_eq mod_less_divisor mod_self pos2 zero_less_power)
  moreover have "((?N - 1) * m + m) mod ?N = 0"
  proof -
    have "(?N - 1) * m + m = ?N * m"
      by (metis One_nat_def Suc_pred add.commute mult_Suc pos2 zero_less_power)
    then show ?thesis by simp
  qed
  ultimately have "gen l ^ (?N - m mod ?N) * gen l ^ m = gen l ^ ((?N - 1) * m) * gen l ^ m"
    unfolding power_add [symmetric] by (simp only: gen_pow_eq_iff [OF assms])
  moreover have "gen l \<noteq> 0" using gen_order [OF assms] by (auto simp: power_0_left)
  then have "gen l ^ m \<noteq> 0" by simp
  ultimately show ?thesis
    unfolding gen_pow_mod [OF assms] power_mult [symmetric] by (metis mult_right_cancel)
qed

end

lemma horner_append: "horner_eval (a @ b) t = horner_eval a t + t ^ length a * horner_eval b t"
proof (induction a)
  case (Cons x a)
  then show ?case by (simp add: horner_eval_def algebra_simps)
qed (simp add: horner_eval_def)

lemma horner_map_mult: "horner_eval (map (\<lambda>lo. lo * c) xs) t = horner_eval xs t * c"
  by (induction xs) (simp_all add: horner_eval_def algebra_simps)

lemma horner_map_upt: "horner_eval (map f [0..<n]) z = (\<Sum>k < n. f k * z ^ k)"
  by (simp add: horner_eval_sum)

lemma horner_hypercube:
  "horner_eval (evals_eq_hypercube_serial x) t = fold (\<lambda>i c. c * (1 - x ! i + x ! i * t ^ 2 ^ i)) [0..<length x] 1"
proof (induction x rule: rev_induct)
  case Nil
  then show ?case by (simp add: evals_eq_hypercube_serial_def horner_eval_def)
next
  case (snoc a x)
  have "fold (\<lambda>i c. c * (1 - (x @ [a]) ! i + (x @ [a]) ! i * t ^ 2 ^ i)) [0..<length x] 1
      = fold (\<lambda>i c. c * (1 - x ! i + x ! i * t ^ 2 ^ i)) [0..<length x] 1"
    by (rule fold_cong) (auto simp: nth_append)
  then have "fold (\<lambda>i c. c * (1 - (x @ [a]) ! i + (x @ [a]) ! i * t ^ 2 ^ i)) [0..<length (x @ [a])] 1
      = horner_eval (evals_eq_hypercube_serial x) t * (1 - a + a * t ^ 2 ^ length x)"
    by (simp add: snoc)
  then show ?case
    unfolding hypercube_fold_append horner_append horner_map_mult
    by (simp add: algebra_simps)
qed

lemma fold_add_zip:
  "length xs = length ys \<Longrightarrow>
     fold (\<lambda>(a, b) r. r + f a b) (zip xs ys) c = c + (\<Sum>i < length xs. f (xs ! i) (ys ! i))"
  for f :: "'a \<Rightarrow> 'b \<Rightarrow> 'c::comm_monoid_add"
proof (induction xs ys arbitrary: c rule: list_induct2)
  case (Cons x xs y ys)
  then show ?case
    by (simp only: zip_Cons_Cons fold.simps o_apply prod.case length_Cons sum.lessThan_Suc_shift)
      (simp add: add.assoc)
qed simp

lemma fold_rpow:
  "fold (\<lambda>c (rpow, other). (rpow * z, other + rpow * c)) cs (p, a) = (p * z ^ length cs, a + p * horner_eval cs z)"
proof (induction cs arbitrary: p a)
  case (Cons c cs)
  then show ?case by (simp add: horner_eval_def algebra_simps)
qed (simp add: horner_eval_def)

context two_adic
begin

lemma eq_sharp_assertion:
  assumes l: "length xi \<le> adicity"
  defines "pows \<equiv> map (\<lambda>i. gen (length xi) ^ i) [0..<2 ^ length xi]"
  shows "eq_sharp_other pows xi z = eq_sharp_value pows xi z"
proof -
  let ?l = "length xi" and ?N = "2 ^ length xi :: nat"
  let ?w = "evals_eq_hypercube_serial xi" and ?bar = "gen ?l ^ (?N - 1)"
  have pows: "pows ! i = gen ?l ^ i" if "i < ?N" for i using that by (simp add: pows_def)
  have coeff: "fold (\<lambda>i c. c * (1 - xi ! i + xi ! i * pows ! ((?N - (k * 2 ^ i) mod ?N) mod ?N))) [0..<?l] 1
      = horner_eval ?w (?bar ^ k)" for k
  proof -
    have eq: "1 - xi ! i + xi ! i * pows ! ((?N - (k * 2 ^ i) mod ?N) mod ?N) = 1 - xi ! i + xi ! i * (?bar ^ k) ^ 2 ^ i" for i
    proof -
      have "pows ! ((?N - (k * 2 ^ i) mod ?N) mod ?N) = gen ?l ^ ((?N - (k * 2 ^ i) mod ?N) mod ?N)"
        by (rule pows) simp
      then show ?thesis by (simp only: gen_conj [OF l] power_mult)
    qed
    then show ?thesis unfolding horner_hypercube by (intro fold_cong refl) (simp only: eq)
  qed
  have "eq_sharp_other pows xi z = horner_eval (map (\<lambda>k. horner_eval ?w (?bar ^ k)) [0..<?N]) z * inverse 2 ^ ?l"
    unfolding eq_sharp_other_def Let_def coeff by (simp add: fold_rpow)
  also have "\<dots> = (\<Sum>k < ?N. horner_eval ?w (?bar ^ k) * z ^ k) / 2 ^ ?l"
    by (simp only: horner_map_upt divide_inverse power_inverse)
  also have "(\<Sum>k < ?N. horner_eval ?w (?bar ^ k) * z ^ k) = (\<Sum>k < ?N. \<Sum>i < ?N. ?w ! i * (?bar ^ k) ^ i * z ^ k)"
    by (simp add: horner_eval_sum sum_distrib_right)
  also have "\<dots> = (\<Sum>i < ?N. \<Sum>k < ?N. ?w ! i * (?bar ^ k) ^ i * z ^ k)"
    by (rule sum.swap)
  also have "\<dots> / 2 ^ ?l = (\<Sum>i < ?N. (\<Sum>k < ?N. ?w ! i * (?bar ^ k) ^ i * z ^ k) / 2 ^ ?l)"
    by (rule sum_divide_distrib)
  also have "\<dots> = (\<Sum>i < ?N. eval_eq_uni ?l z (pows ! i) * ?w ! i)"
  proof (rule sum.cong [OF refl])
    fix i assume "i \<in> {..<?N}"
    then have i: "i < ?N" by simp
    have "(\<Sum>k < ?N. ?w ! i * (?bar ^ k) ^ i * z ^ k) = ?w ! i * (\<Sum>k < ?N. z ^ k * ?bar ^ (k * i))"
      by (simp add: sum_distrib_left power_mult mult_ac)
    then show "(\<Sum>k < ?N. ?w ! i * (?bar ^ k) ^ i * z ^ k) / 2 ^ ?l = eval_eq_uni ?l z (pows ! i) * ?w ! i"
      unfolding pows [OF i] eq_uni_character_sum [OF l i] gen_conj [OF l] by simp
  qed
  also have "\<dots> = eq_sharp_value pows xi z"
    unfolding eq_sharp_value_def by (subst fold_add_zip) (simp_all add: pows_def)
  finally show ?thesis .
qed

end

text \<open>The domain of 17 elements has a two-adic subgroup of order \<open>2 ^ 4\<close>.\<close>

lemma f17_gen_table: "l \<le> 4 \<Longrightarrow> f17_gen l ^ i = f17 (3 ^ (2 ^ (4 - l) * i) mod 17)"
  by (simp add: f17_gen_def f17_power f17_eq_iff power_mult)

interpretation f17_two_adic: two_adic f17_gen 4
proof
  show "(2 :: f17) \<noteq> 0" by (rule f17_nonzero)
  show "f17_gen l ^ 2 ^ l = 1" if "l \<le> 4" for l
  proof -
    have "(2 :: nat) ^ (4 - l) * 2 ^ l = 16" using that by (simp flip: power_add)
    moreover have "(1 :: f17) = f17 1" using f17_numeral [of Num.One] by simp
    ultimately show ?thesis using that by (simp add: f17_gen_table f17_eq_iff)
  qed
  show "i = j" if "l \<le> 4" "i < 2 ^ l" "j < 2 ^ l" "f17_gen l ^ i = f17_gen l ^ j" for l i j
  proof -
    have "\<forall>l \<in> set [0..<5]. \<forall>i \<in> set [0..<2 ^ l]. \<forall>j \<in> set [0..<2 ^ l].
        (3 :: int) ^ (2 ^ (4 - l) * i) mod 17 = 3 ^ (2 ^ (4 - l) * j) mod 17 \<longrightarrow> i = j"
      by code_simp
    moreover have "l < 5" using that(1) by simp
    moreover have "(3 :: int) ^ (2 ^ (4 - l) * i) mod 17 = 3 ^ (2 ^ (4 - l) * j) mod 17"
      using that by (simp add: f17_gen_table f17_eq_iff)
    ultimately show ?thesis using that(2,3) by simp
  qed
qed

section \<open>Properties\<close>

text \<open>A multilinear extension given by its hypercube evaluations: the in-place folding returns the sum
  of the evaluations weighted by \<open>eq(x, corner)\<close>, these weights are what
  \<open>evals_eq_hypercube_serial\<close> computes, and at a corner the value is the evaluation itself.\<close>
theorem mle_evaluation:
  assumes "length evals = 2 ^ length x"
  shows "eval_mle_evals_at_point evals x
       = Ok (\<Sum>i < 2 ^ length x. evals ! i * evals_eq_hypercube_serial x ! i) \<and>
     (\<forall>i < 2 ^ length x. evals_eq_hypercube_serial x ! i = eq_mle_value x (cube_point (length x) i)) \<and>
     (\<forall>j < 2 ^ length x. eval_mle_evals_at_point evals (cube_point (length x) j) = Ok (evals ! j))"
proof -
  have "mle_sum evals (cube_point (length x) j) = evals ! j" if "j < 2 ^ length x" for j
  proof -
    have "mle_sum evals (cube_point (length x) j) = (\<Sum>i < 2 ^ length x. if i = j then evals ! i else 0)"
      unfolding mle_sum_def length_cube_point by (rule sum.cong) (use that in \<open>auto simp: eq_mle_cube\<close>)
    with that show ?thesis by simp
  qed
  moreover have "mle_sum evals x = (\<Sum>i < 2 ^ length x. evals ! i * evals_eq_hypercube_serial x ! i)"
    unfolding mle_sum_def by (rule sum.cong) (simp_all add: hypercube_nth)
  ultimately show ?thesis using assms by (simp add: eval_mle_sum hypercube_nth)
qed

theorem mle_evaluation_witness:
  "eval_mle_evals_at_point [1, 2, 3, 4 :: f17] [5, 6]
       = Ok (\<Sum>i < 2 ^ length [5, 6 :: f17]. [1, 2, 3, 4] ! i * evals_eq_hypercube_serial [5, 6] ! i)"
  by (rule mle_evaluation [THEN conjunct1]) simp

text \<open>\<open>eq_D\<close> on the univariate skip domain: it is 1 on equal elements and 0 on different ones, the
  version at 1 is its restriction, and the coefficient form \<open>eq_uni_poly\<close> evaluates to it everywhere.\<close>
theorem eq_uni_on_domain:
  assumes "(2 :: 'a::field) \<noteq> 0" and "x ^ 2 ^ l = 1" and "y ^ 2 ^ l = (1 :: 'a)"
  shows "eval_eq_uni l x y = (if x = y then 1 else 0) \<and> eval_eq_uni_at_one l x = eval_eq_uni l x 1 \<and>
     (\<forall>z. horner_eval (eq_uni_poly l x) z = eval_eq_uni l x z)"
  using assms by (simp add: eq_uni_domain eq_uni_at_one eq_uni_poly_eval)

theorem eq_uni_on_domain_witness:
  "eval_eq_uni 4 (f17 3) (f17 5) = (if f17 3 = f17 5 then 1 else 0) \<and>
     eval_eq_uni_at_one 4 (f17 3) = eval_eq_uni 4 (f17 3) 1 \<and>
     (\<forall>z. horner_eval (eq_uni_poly 4 (f17 3)) z = eval_eq_uni 4 (f17 3) z)"
proof -
  have "f17 3 ^ 2 ^ 4 = 1" "f17 5 ^ 2 ^ 4 = 1"
    unfolding f17_one f17_power f17_eq_iff by simp_all
  with eq_uni_on_domain [OF f17_nonzero(1)] show ?thesis by blast
qed

text \<open>C27. The rotation kernel: on the points of the prism (an element of the domain and a corner of the
  cube, together an index below \<open>2 ^ (l + n)\<close>) it is 1 when the first index is the cyclic
  successor of the second, and 0 otherwise.\<close>
theorem rot_kernel_indicator:
  assumes "two_adic gen adicity" and "l \<le> adicity" and "r < 2 ^ (l + n)" and "s < 2 ^ (l + n)"
  shows "eval_rot_kernel_prism gen l (prism_point gen l n r) (prism_point gen l n s)
     = Ok (if r = (s + 1) mod 2 ^ (l + n) then 1 else 0)"
  using assms by (rule two_adic.rot_kernel)

theorem rot_kernel_indicator_witness:
  "eval_rot_kernel_prism f17_gen 2 (prism_point f17_gen 2 3 0) (prism_point f17_gen 2 3 31)
     = (Ok (if 0 = (31 + 1) mod (2 :: nat) ^ (2 + 3) then 1 else 0) :: (f17, unit) res)"
  by (rule rot_kernel_indicator [OF f17_two_adic.two_adic_axioms]) simp_all

text \<open>The debug assertion of \<open>eval_eq_sharp_uni\<close> never fires: with the powers of the generator as
  its domain, the function returns the interpolation of \<open>eq(xi, .)\<close> from the domain.\<close>
theorem eq_sharp_never_panics:
  assumes "two_adic gen adicity" and "length xi \<le> adicity"
  shows "eval_eq_sharp_uni (map (\<lambda>i. gen (length xi) ^ i) [0..<2 ^ length xi]) xi z
     = Ok (\<Sum>i < 2 ^ length xi. eval_eq_uni (length xi) z (gen (length xi) ^ i)
             * eq_mle_value xi (cube_point (length xi) i))"
proof -
  let ?pows = "map (\<lambda>i. gen (length xi) ^ i) [0..<2 ^ length xi]"
  have "eq_sharp_value ?pows xi z = (\<Sum>i < 2 ^ length xi. eval_eq_uni (length xi) z (gen (length xi) ^ i)
             * eq_mle_value xi (cube_point (length xi) i))"
    unfolding eq_sharp_value_def by (subst fold_add_zip) (simp_all add: hypercube_nth)
  with two_adic.eq_sharp_assertion [OF assms, of z] show ?thesis
    by (simp add: eval_eq_sharp_uni_def)
qed

theorem eq_sharp_never_panics_witness:
  "eval_eq_sharp_uni (map (\<lambda>i. f17_gen (length [f17 7, f17 9]) ^ i) [0..<2 ^ length [f17 7, f17 9]]) [f17 7, f17 9] (f17 5)
     = (Ok (\<Sum>i < 2 ^ length [f17 7, f17 9]. eval_eq_uni (length [f17 7, f17 9]) (f17 5) (f17_gen (length [f17 7, f17 9]) ^ i)
             * eq_mle_value [f17 7, f17 9] (cube_point (length [f17 7, f17 9]) i)) :: (f17, unit) res)"
  by (rule eq_sharp_never_panics [OF f17_two_adic.two_adic_axioms]) simp

text \<open>Interpolation is exact: from its values at 0, 1, 2 (and 3), a polynomial of degree at most 2
  (3) is recovered at every point.\<close>
theorem interpolation_exact:
  assumes "(6 :: 'a::field) \<noteq> 0"
  shows "interpolate_quadratic_at_012 (horner_eval [a, b, c] 0, horner_eval [a, b, c] 1, horner_eval [a, b, c] 2) x
       = horner_eval [a, b, c] (x :: 'a) \<and>
     interpolate_cubic_at_0123 (horner_eval [a, b, c, d] 0, horner_eval [a, b, c, d] 1,
       horner_eval [a, b, c, d] 2, horner_eval [a, b, c, d] 3) x = horner_eval [a, b, c, d] x"
proof -
  have "(2 :: 'a) \<noteq> 0"
  proof
    assume "(2 :: 'a) = 0"
    then have "(2 :: 'a) * 3 = 0" by simp
    with assms show False by simp
  qed
  then show ?thesis by (simp add: interpolate_quadratic_exact interpolate_cubic_exact [OF assms])
qed

theorem interpolation_exact_witness:
  "interpolate_quadratic_at_012 (horner_eval [1, 2, 3] 0, horner_eval [1, 2, 3] 1, horner_eval [1, 2, 3] 2) (f17 11)
       = horner_eval [1, 2, 3] (f17 11) \<and>
     interpolate_cubic_at_0123 (horner_eval [1, 2, 3, 4] 0, horner_eval [1, 2, 3, 4] 1,
       horner_eval [1, 2, 3, 4] 2, horner_eval [1, 2, 3, 4] 3) (f17 11) = horner_eval [1, 2, 3, 4] (f17 11)"
  by (rule interpolation_exact [OF f17_nonzero(2)])

end
