(* ===== verification/VerifierMonad.thy ===== *)
theory VerifierMonad
  imports Transcript PolyCommon
begin

text \<open>
  The verifier's code threads a mutable transcript through calls that may return an error
  or panic. A step is a function from the transcript state to an outcome with the next
  state. \<open>vsafe I m Q\<close> says that \<open>m\<close>, started in a state with \<open>I\<close>, does not panic, and when
  it returns, keeps \<open>I\<close> and returns a value with \<open>Q\<close>; its rules follow the code.
\<close>

type_synonym ('a, 'ts, 'e) vm = "'ts \<Rightarrow> ('a \<times> 'ts, 'e) res"

definition vret :: "'a \<Rightarrow> ('a, 'ts, 'e) vm" where
  "vret x ts = Ok (x, ts)"

definition vbind :: "('a, 'ts, 'e) vm \<Rightarrow> ('a \<Rightarrow> ('b, 'ts, 'e) vm) \<Rightarrow> ('b, 'ts, 'e) vm" where
  "vbind m f ts = rbind (m ts) (\<lambda>(x, ts'). f x ts')"

definition vlift :: "('a, 'e) res \<Rightarrow> ('a, 'ts, 'e) vm" where
  "vlift r ts = rbind r (\<lambda>x. Ok (x, ts))"

definition vcheck :: "bool \<Rightarrow> 'e \<Rightarrow> (unit, 'ts, 'e) vm" where
  "vcheck b e = vlift (ensure_that b e)"

definition vassert :: "bool \<Rightarrow> (unit, 'ts, 'e) vm" where
  "vassert b = vlift (assert_that b)"

text \<open>A transcript operation, which panics or returns.\<close>

definition vop :: "('ts \<Rightarrow> ('a \<times> 'ts) option) \<Rightarrow> ('a, 'ts, 'e) vm" where
  "vop f ts = unwrap (f ts)"

definition vact :: "('ts \<Rightarrow> 'ts option) \<Rightarrow> (unit, 'ts, 'e) vm" where
  "vact f ts = rbind (unwrap (f ts)) (\<lambda>ts'. Ok ((), ts'))"

definition vmap_err :: "('e \<Rightarrow> 'g) \<Rightarrow> ('a, 'ts, 'e) vm \<Rightarrow> ('a, 'ts, 'g) vm" where
  "vmap_err g m ts = map_err g (m ts)"

fun vfor :: "('a \<Rightarrow> 's \<Rightarrow> ('s, 'ts, 'e) vm) \<Rightarrow> 'a list \<Rightarrow> 's \<Rightarrow> ('s, 'ts, 'e) vm" where
  "vfor f [] s = vret s"
| "vfor f (x # xs) s = vbind (f x s) (vfor f xs)"

fun vmapM :: "('a \<Rightarrow> ('b, 'ts, 'e) vm) \<Rightarrow> 'a list \<Rightarrow> ('b list, 'ts, 'e) vm" where
  "vmapM f [] = vret []"
| "vmapM f (x # xs) = vbind (f x) (\<lambda>y. vbind (vmapM f xs) (\<lambda>ys. vret (y # ys)))"

definition vdo_all :: "('a \<Rightarrow> (unit, 'ts, 'e) vm) \<Rightarrow> 'a list \<Rightarrow> (unit, 'ts, 'e) vm" where
  "vdo_all f xs = vfor (\<lambda>x _. f x) xs ()"

section \<open>The transcript operations as steps\<close>

abbreviation v_observe :: "('ts, 'f, 'd) transcript_ops \<Rightarrow> 'f \<Rightarrow> (unit, 'ts, 'e) vm" where
  "v_observe T x \<equiv> vact (\<lambda>s. t_observe T s x)"

abbreviation v_observe_commit :: "('ts, 'f, 'd) transcript_ops \<Rightarrow> 'd \<Rightarrow> (unit, 'ts, 'e) vm" where
  "v_observe_commit T d \<equiv> vact (\<lambda>s. t_observe_commit T s d)"

abbreviation v_observe_ext ::
    "('ts, 'f, 'd) transcript_ops \<Rightarrow> ('f, 'ef) field_ops \<Rightarrow> 'ef \<Rightarrow> (unit, 'ts, 'e) vm" where
  "v_observe_ext T K x \<equiv> vact (\<lambda>s. observe_ext T K s x)"

abbreviation v_sample_ext :: "('ts, 'f, 'd) transcript_ops \<Rightarrow> ('f, 'ef) field_ops \<Rightarrow> ('ef, 'ts, 'e) vm" where
  "v_sample_ext T K \<equiv> vop (sample_ext T K)"

abbreviation v_sample_bits ::
    "('ts, 'f, 'd) transcript_ops \<Rightarrow> ('f, 'ef) field_ops \<Rightarrow> nat \<Rightarrow> (nat, 'ts, 'e) vm" where
  "v_sample_bits T K bits \<equiv> vop (\<lambda>s. sample_bits T K s bits)"

abbreviation v_check_witness ::
    "('ts, 'f, 'd) transcript_ops \<Rightarrow> ('f, 'ef) field_ops \<Rightarrow> nat \<Rightarrow> 'f \<Rightarrow> (bool, 'ts, 'e) vm" where
  "v_check_witness T K bits w \<equiv> vop (\<lambda>s. check_witness T K s bits w)"

section \<open>Running a step\<close>

lemma vbind_Ok_iff: "vbind m f ts = Ok (y, ts2) \<longleftrightarrow> (\<exists>x ts1. m ts = Ok (x, ts1) \<and> f x ts1 = Ok (y, ts2))"
  by (auto simp: vbind_def rbind_Ok_iff)

lemma vret_Ok_iff [simp]: "vret x ts = Ok (y, ts') \<longleftrightarrow> y = x \<and> ts' = ts"
  by (auto simp: vret_def)

lemma vlift_Ok_iff [simp]: "vlift r ts = Ok (y, ts') \<longleftrightarrow> r = Ok y \<and> ts' = ts"
  by (auto simp: vlift_def rbind_Ok_iff)

lemma vcheck_Ok_iff [simp]: "vcheck b e ts = Ok (u, ts') \<longleftrightarrow> b \<and> ts' = ts"
  by (auto simp: vcheck_def)

lemma vassert_Ok_iff [simp]: "vassert b ts = Ok (u, ts') \<longleftrightarrow> b \<and> ts' = ts"
  by (auto simp: vassert_def)

lemma vbind_OkE:
  assumes "vbind m f ts = Ok (y, ts2)"
  obtains x ts1 where "m ts = Ok (x, ts1)" and "f x ts1 = Ok (y, ts2)"
  using assms by (auto simp: vbind_Ok_iff)

text \<open>A step that returns; the simplification rules of the proofs that follow one run.\<close>

lemma vbind_run: "m ts = Ok (x, ts') \<Longrightarrow> vbind m f ts = f x ts'"
  by (simp add: vbind_def)

lemma vlift_run: "vlift (Ok x) ts = Ok (x, ts)"
  by (simp add: vlift_def)

lemma vret_run: "vret x ts = Ok (x, ts)"
  by (simp add: vret_def)

lemma vassert_run: "b \<Longrightarrow> vassert b ts = Ok ((), ts)"
  by (simp add: vassert_def)

lemma vcheck_run: "b \<Longrightarrow> vcheck b e ts = Ok ((), ts)"
  by (simp add: vcheck_def)

lemma vbind_lift_run: "vbind (vlift (Ok x)) f ts = f x ts"
  by (simp add: vbind_run vlift_run vret_run)

lemma vbind_ret_run: "vbind (vret x) f ts = f x ts"
  by (simp add: vbind_run vlift_run vret_run)

lemma vbind_assert_run: "b \<Longrightarrow> vbind (vassert b) f ts = f () ts"
  by (rule vbind_run) (rule vassert_run)

lemma vbind_check_run: "b \<Longrightarrow> vbind (vcheck b e) f ts = f () ts"
  by (rule vbind_run) (rule vcheck_run)

lemmas run_simps = vlift_run vret_run vbind_lift_run vbind_ret_run vbind_assert_run vbind_check_run

section \<open>Safety\<close>

definition vsafe :: "('ts \<Rightarrow> bool) \<Rightarrow> ('a, 'ts, 'e) vm \<Rightarrow> ('a \<Rightarrow> bool) \<Rightarrow> bool" where
  "vsafe I m Q \<longleftrightarrow> (\<forall>ts. I ts \<longrightarrow> (case m ts of Ok (x, ts') \<Rightarrow> I ts' \<and> Q x | Err e \<Rightarrow> True | Panic \<Rightarrow> False))"

named_theorems vsafe_intros \<open>safety of the steps\<close>

lemma vsafeD: "vsafe I m Q \<Longrightarrow> I ts \<Longrightarrow> m ts \<noteq> Panic"
  by (auto simp: vsafe_def)

lemma vsafe_OkD: "vsafe I m Q \<Longrightarrow> I ts \<Longrightarrow> m ts = Ok (x, ts') \<Longrightarrow> I ts' \<and> Q x"
  by (fastforce simp: vsafe_def)

lemma vsafe_weaken: "vsafe I m Q \<Longrightarrow> (\<And>x. Q x \<Longrightarrow> R x) \<Longrightarrow> vsafe I m R"
  by (fastforce simp: vsafe_def split: res.splits)

lemma vsafe_ret: "Q x \<Longrightarrow> vsafe I (vret x) Q"
  by (simp add: vsafe_def vret_def)

lemma vsafe_bind:
  assumes "vsafe I m R" and "\<And>x. R x \<Longrightarrow> vsafe I (f x) Q"
  shows "vsafe I (vbind m f) Q"
  unfolding vsafe_def
proof (intro allI impI)
  fix ts assume "I ts"
  with assms(1) have "case m ts of Ok (x, ts') \<Rightarrow> I ts' \<and> R x | Err e \<Rightarrow> True | Panic \<Rightarrow> False"
    by (simp add: vsafe_def)
  then show "case vbind m f ts of Ok (x, ts') \<Rightarrow> I ts' \<and> Q x | Err e \<Rightarrow> True | Panic \<Rightarrow> False"
  proof (cases "m ts")
    case (Ok p)
    obtain x ts1 where p: "p = (x, ts1)" by force
    with Ok \<open>case m ts of Ok (x, ts') \<Rightarrow> I ts' \<and> R x | Err e \<Rightarrow> True | Panic \<Rightarrow> False\<close>
    have "I ts1" "R x" by simp_all
    with assms(2) [of x] Ok p show ?thesis by (simp add: vsafe_def vbind_def)
  qed (simp_all add: vbind_def)
qed

lemma vsafe_bind2:
  "vsafe I m R \<Longrightarrow> (\<And>a b. R (a, b) \<Longrightarrow> vsafe I (f a b) Q) \<Longrightarrow> vsafe I (vbind m (\<lambda>(a, b). f a b)) Q"
  by (rule vsafe_bind [where R = R]) auto

lemma vsafe_bind3:
  "vsafe I m R \<Longrightarrow> (\<And>a b c. R (a, b, c) \<Longrightarrow> vsafe I (f a b c) Q) \<Longrightarrow> vsafe I (vbind m (\<lambda>(a, b, c). f a b c)) Q"
  by (rule vsafe_bind [where R = R]) auto

lemma vsafe_lift: "r \<noteq> Panic \<Longrightarrow> (\<And>x. r = Ok x \<Longrightarrow> Q x) \<Longrightarrow> vsafe I (vlift r) Q"
  by (cases r) (auto simp: vsafe_def vlift_def)

lemma vsafe_lift_Ok: "r = Ok x \<Longrightarrow> Q x \<Longrightarrow> vsafe I (vlift r) Q"
  by (simp add: vsafe_def vlift_def)

lemma vsafe_check: "vsafe I (vcheck b e) (\<lambda>_. b)"
  by (auto simp: vsafe_def vcheck_def vlift_def ensure_that_def)

lemma vsafe_assert: "b \<Longrightarrow> vsafe I (vassert b) (\<lambda>_. True)"
  by (simp add: vsafe_def vassert_def vlift_def)

lemma vsafe_check_bind: "(b \<Longrightarrow> vsafe I (f ()) Q) \<Longrightarrow> vsafe I (vbind (vcheck b e) f) Q"
  by (rule vsafe_bind [OF vsafe_check]) simp

lemma vsafe_assert_bind: "b \<Longrightarrow> vsafe I (f ()) Q \<Longrightarrow> vsafe I (vbind (vassert b) f) Q"
  by (rule vsafe_bind [OF vsafe_assert]) simp_all

lemma vsafe_lift_bind: "r = Ok x \<Longrightarrow> vsafe I (f x) Q \<Longrightarrow> vsafe I (vbind (vlift r) f) Q"
  by (rule vsafe_bind [of _ _ "\<lambda>y. y = x"]) (auto intro: vsafe_lift_Ok)

lemma vsafe_op:
  "(\<And>s. I s \<Longrightarrow> \<exists>x s'. f s = Some (x, s') \<and> I s' \<and> Q x) \<Longrightarrow> vsafe I (vop f) Q"
  by (fastforce simp: vsafe_def vop_def)

lemma vsafe_act: "(\<And>s. I s \<Longrightarrow> \<exists>s'. f s = Some s' \<and> I s') \<Longrightarrow> vsafe I (vact f) (\<lambda>_. True)"
  by (fastforce simp: vsafe_def vact_def)

lemma vsafe_map_err: "vsafe I m Q \<Longrightarrow> vsafe I (vmap_err g m) Q"
  by (force simp: vsafe_def vmap_err_def map_err_Panic_iff map_err_Ok_iff split: res.splits)

text \<open>The same for outcomes without a transcript.\<close>

definition rsafe :: "('a, 'e) res \<Rightarrow> ('a \<Rightarrow> bool) \<Rightarrow> bool" where
  "rsafe r Q \<longleftrightarrow> r \<noteq> Panic \<and> (\<forall>x. r = Ok x \<longrightarrow> Q x)"

lemma rsafe_Ok [simp]: "rsafe (Ok x) Q \<longleftrightarrow> Q x"
  by (simp add: rsafe_def)

lemma rsafe_weaken: "rsafe r Q \<Longrightarrow> (\<And>x. Q x \<Longrightarrow> R x) \<Longrightarrow> rsafe r R"
  by (auto simp: rsafe_def)

lemma rsafe_bind: "rsafe r R \<Longrightarrow> (\<And>x. R x \<Longrightarrow> rsafe (f x) Q) \<Longrightarrow> rsafe (rbind r f) Q"
  by (cases r) (auto simp: rsafe_def)

lemma rsafe_bind_Ok: "r = Ok x \<Longrightarrow> rsafe (f x) Q \<Longrightarrow> rsafe (rbind r f) Q"
  by simp

lemma rsafe_fold:
  assumes "\<And>x ys zs s. xs = ys @ x # zs \<Longrightarrow> J ys s \<Longrightarrow> rsafe (f x s) (J (ys @ [x]))" and "J [] s"
  shows "rsafe (rfold f xs s) (J xs)"
  using assms(1)
proof (induction xs rule: rev_induct)
  case Nil
  then show ?case using assms(2) by simp
next
  case (snoc x xs)
  have "rsafe (rfold f xs s) (J xs)" by (rule snoc.IH) (simp add: snoc.prems)
  moreover have "rsafe (rfold f [x] s') (J (xs @ [x]))" if "J xs s'" for s'
    using rsafe_bind [OF snoc.prems [of xs x "[]" s'], of "rfold f []" "J (xs @ [x])"] that by simp
  ultimately show ?case unfolding rfold_append by (rule rsafe_bind)
qed

lemma vsafe_lift_safe: "rsafe r Q \<Longrightarrow> vsafe I (vlift r) Q"
  by (rule vsafe_lift) (auto simp: rsafe_def)

text \<open>A loop with an invariant that may depend on the elements still to be processed.\<close>

lemma vsafe_for:
  assumes "\<And>x ys zs s. xs = ys @ x # zs \<Longrightarrow> J ys s \<Longrightarrow> vsafe I (f x s) (J (ys @ [x]))" and "J [] s"
  shows "vsafe I (vfor f xs s) (J xs)"
proof -
  have "vsafe I (vfor f zs s) (J xs)" if "xs = ys @ zs" "J ys s" for ys zs s
    using that
  proof (induction zs arbitrary: ys s)
    case Nil
    then show ?case by (simp add: vsafe_ret)
  next
    case (Cons z zs)
    have "vsafe I (vfor f zs s') (J xs)" if "J (ys @ [z]) s'" for s'
      using Cons.IH [of "ys @ [z]" s'] Cons.prems that by simp
    moreover have "vsafe I (f z s) (J (ys @ [z]))" using assms(1) Cons.prems by blast
    ultimately show ?case by (simp add: vsafe_bind)
  qed
  from this [of "[]" xs s] assms(2) show ?thesis by simp
qed

lemma vsafe_for_enumerated:
  assumes "\<And>i s. i < length xs \<Longrightarrow> J i s \<Longrightarrow> vsafe I (f (i, xs ! i) s) (J (Suc i))" and "J 0 s"
  shows "vsafe I (vfor f (enumerated xs) s) (J (length xs))"
proof -
  have "vsafe I (vfor f (enumerated xs) s) ((\<lambda>done. J (length done)) (enumerated xs))"
  proof (rule vsafe_for)
    fix x ys zs s' assume split: "enumerated xs = ys @ x # zs" and J: "J (length ys) s'"
    from split have "length (enumerated xs) = length (ys @ x # zs)" by (rule arg_cong)
    then have i: "length ys < length xs" by simp
    from split have "enumerated xs ! length ys = x" by simp
    with i have "x = (length ys, xs ! length ys)" by simp
    with assms(1) [OF i J] show "vsafe I (f x s') (J (length (ys @ [x])))" by simp
  qed (simp add: assms(2))
  then show ?thesis by simp
qed

lemma vsafe_for_simple:
  assumes "\<And>x s. x \<in> set xs \<Longrightarrow> P s \<Longrightarrow> vsafe I (f x s) P" and "P s"
  shows "vsafe I (vfor f xs s) P"
  using vsafe_for [of xs "\<lambda>_. P" I f s] assms by auto

lemma vsafe_do_all:
  assumes "\<And>x. x \<in> set xs \<Longrightarrow> vsafe I (f x) (\<lambda>_. True)"
  shows "vsafe I (vdo_all f xs) (\<lambda>_. True)"
  unfolding vdo_all_def by (rule vsafe_for_simple) (simp_all add: assms)

lemma vsafe_mapM:
  assumes "\<And>x. x \<in> set xs \<Longrightarrow> vsafe I (f x) Q"
  shows "vsafe I (vmapM f xs) (\<lambda>ys. length ys = length xs \<and> (\<forall>y \<in> set ys. Q y))"
  using assms
proof (induction xs)
  case (Cons x xs)
  then have "vsafe I (f x) Q"
    and "vsafe I (vmapM f xs) (\<lambda>ys. length ys = length xs \<and> (\<forall>y \<in> set ys. Q y))" by simp_all
  then show ?case by (auto intro!: vsafe_bind vsafe_ret)
qed (simp add: vsafe_ret)

lemma vsafe_if: "(b \<Longrightarrow> vsafe I m Q) \<Longrightarrow> (\<not> b \<Longrightarrow> vsafe I m' Q) \<Longrightarrow> vsafe I (if b then m else m') Q"
  by simp

context transcript
begin

text \<open>A prover and a verifier that do the same to the transcript stay together, whatever their error types are.\<close>

lemma both_observe: "inv ts \<Longrightarrow> \<exists>ts'. v_observe_ext T K x ts = (Ok ((), ts') :: (_, 'e) res) \<and> v_observe_ext T K x ts = (Ok ((), ts') :: (_, 'g) res) \<and> inv ts'"
  using observe_ext_total [of ts K x] by (auto simp: vact_def)

lemma both_sample: "inv ts \<Longrightarrow> \<exists>x ts'. v_sample_ext T K ts = (Ok (x, ts') :: (_, 'e) res) \<and> v_sample_ext T K ts = (Ok (x, ts') :: (_, 'g) res) \<and> inv ts'"
  using sample_ext_total [of ts K] by (auto simp: vop_def)

lemma observe_exts_run: "inv ts \<Longrightarrow> \<exists>ts'. vdo_all (v_observe_ext T K) xs ts = (Ok ((), ts') :: (_, 'e) res) \<and> inv ts'"
proof (induction xs arbitrary: ts)
  case (Cons x xs)
  from both_observe [OF Cons.prems, of K x] obtain ts1 where "v_observe_ext T K x ts = (Ok ((), ts1) :: (_, 'e) res)" "inv ts1" by blast
  moreover from Cons.IH [OF this(2)] obtain ts' where "vdo_all (v_observe_ext T K) xs ts1 = (Ok ((), ts') :: (_, 'e) res)" "inv ts'" by blast
  ultimately show ?case by (simp add: vdo_all_def vbind_def)
qed (simp add: vdo_all_def vret_def)

lemma safe_observe: "vsafe inv (v_observe T x) (\<lambda>_. True)"
  by (rule vsafe_act) (rule observe_total)

lemma safe_observe_commit: "wf_digest d \<Longrightarrow> vsafe inv (v_observe_commit T d) (\<lambda>_. True)"
  by (rule vsafe_act) (rule observe_commit_total)

lemma safe_observe_ext: "vsafe inv (v_observe_ext T K x) (\<lambda>_. True)"
  by (rule vsafe_act) (rule observe_ext_total)

lemma safe_sample_ext: "vsafe inv (v_sample_ext T K) (\<lambda>_. True)"
  by (rule vsafe_op) (simp add: sample_ext_total)

lemma safe_sample_bits:
  "bits < 32 \<Longrightarrow> 2 ^ bits < f_order K \<Longrightarrow> vsafe inv (v_sample_bits T K bits) (\<lambda>r. r < 2 ^ bits)"
  by (rule vsafe_op) (meson sample_bits_total)

lemma safe_check_witness:
  "bits < 32 \<Longrightarrow> 2 ^ bits < f_order K \<Longrightarrow> vsafe inv (v_check_witness T K bits w) (\<lambda>_. True)"
  by (rule vsafe_op) (meson check_witness_total)

lemmas safe_ops = safe_observe safe_observe_ext safe_sample_ext

lemma safe_observe_exts: "vsafe inv (vdo_all (v_observe_ext T K) xs) (\<lambda>_. True)"
  by (rule vsafe_do_all) (rule safe_observe_ext)

end

end
