(* ===== verification/GkrVerifier.thy ===== *)
theory GkrVerifier
  imports VerifierMonad ProofTypes
begin

text \<open>
  The verifier of the GKR protocol for the fractional sumcheck
  (\<open>verifier/fractional_sumcheck_gkr.rs\<close>). The proof reduces the claim that a sum of
  fractions is zero to one evaluation of the numerator and of the denominator.
\<close>

datatype 'ef gkr_error =
    InvalidZeroRoundValue 'ef
  | ZeroCheckFailed 'ef
  | RootConsistencyCheckFailed 'ef 'ef
  | LayerConsistencyCheckFailed nat 'ef 'ef
  | IncorrectLayerCount nat nat
  | IncorrectSumcheckPolyCount nat nat
  | IncorrectSubroundCount nat nat nat

definition observe_layer_claims ::
    "('ts, 'f, 'd) transcript_ops \<Rightarrow> ('f, 'ef) field_ops \<Rightarrow> 'ef gkr_layer_claims \<Rightarrow> (unit, 'ts, 'e) vm" where
  "observe_layer_claims T K claims =
     vbind (v_observe_ext T K (p_xi_0 claims)) (\<lambda>_.
     vbind (v_observe_ext T K (q_xi_0 claims)) (\<lambda>_.
     vbind (v_observe_ext T K (p_xi_1 claims)) (\<lambda>_.
     v_observe_ext T K (q_xi_1 claims))))"

definition compute_recursive_relations :: "'ef::field gkr_layer_claims \<Rightarrow> 'ef \<times> 'ef" where
  "compute_recursive_relations claims =
     (p_xi_0 claims * q_xi_1 claims + p_xi_1 claims * q_xi_0 claims, q_xi_0 claims * q_xi_1 claims)"

definition reduce_to_single_evaluation :: "'ef::field gkr_layer_claims \<Rightarrow> 'ef \<Rightarrow> 'ef \<times> 'ef" where
  "reduce_to_single_evaluation claims mu =
     (interpolate_linear_at_01 (p_xi_0 claims, p_xi_1 claims) mu,
      interpolate_linear_at_01 (q_xi_0 claims, q_xi_1 claims) mu)"

definition gkr_subround ::
    "('ts, 'f, 'd) transcript_ops \<Rightarrow> ('f, 'ef::field) field_ops \<Rightarrow> 'ef list \<Rightarrow> nat \<times> ('ef \<times> 'ef \<times> 'ef)
       \<Rightarrow> 'ef \<times> 'ef list \<times> 'ef \<Rightarrow> ('ef \<times> 'ef list \<times> 'ef, 'ts, 'e) vm" where
  "gkr_subround T K gkr_r = (\<lambda>(sumcheck_round, (e1, e2, e3)) (claim, gkr_r_prime, eq).
     vbind (vdo_all (v_observe_ext T K) [e1, e2, e3]) (\<lambda>_.
     vbind (v_sample_ext T K) (\<lambda>ri.
     vbind (vlift (index gkr_r sumcheck_round)) (\<lambda>xi.
       vret (interpolate_cubic_at_0123 (claim - e1, e1, e2, e3) ri,
             gkr_r_prime @ [ri],
             eq * (xi * ri + (1 - xi) * (1 - ri)))))))"

definition verify_gkr_sumcheck ::
    "('ts, 'f, 'd) transcript_ops \<Rightarrow> ('f, 'ef::field) field_ops \<Rightarrow> ('f, 'ef) gkr_proof \<Rightarrow> nat \<Rightarrow> 'ef \<Rightarrow> 'ef list
       \<Rightarrow> ('ef \<times> 'ef list \<times> 'ef, 'ts, 'ef gkr_error) vm" where
  "verify_gkr_sumcheck T K proof rnd claim gkr_r =
     vbind (vassert (0 < rnd)) (\<lambda>_.
     vbind (vassert (length gkr_r = rnd)) (\<lambda>_.
     vbind (vlift (index (sumcheck_polys proof) (rnd - 1))) (\<lambda>polys.
     vbind (vcheck (length polys = rnd) (IncorrectSubroundCount rnd rnd (length polys))) (\<lambda>_.
     vfor (gkr_subround T K gkr_r) (enumerated polys) (claim, [], 1)))))"

definition gkr_round ::
    "('ts, 'f, 'd) transcript_ops \<Rightarrow> ('f, 'ef::field) field_ops \<Rightarrow> ('f, 'ef) gkr_proof \<Rightarrow> nat
       \<Rightarrow> 'ef \<times> 'ef \<times> 'ef list \<Rightarrow> ('ef \<times> 'ef \<times> 'ef list, 'ts, 'ef gkr_error) vm" where
  "gkr_round T K proof rnd = (\<lambda>(numer_claim, denom_claim, gkr_r).
     vbind (v_sample_ext T K) (\<lambda>lambda.
     vbind (verify_gkr_sumcheck T K proof rnd (numer_claim + lambda * denom_claim) gkr_r)
       (\<lambda>(new_claim, round_r, eq_at_r_prime).
     vbind (vlift (eval_eq_mle gkr_r round_r)) (\<lambda>eq_mle.
     vbind (vassert (eq_at_r_prime = eq_mle)) (\<lambda>_.
     vbind (vlift (index (claims_per_layer proof) rnd)) (\<lambda>layer_claims.
     vbind (observe_layer_claims T K layer_claims) (\<lambda>_.
     let (p_cross, q_cross) = compute_recursive_relations layer_claims;
         expected_claim = (p_cross + lambda * q_cross) * eq_at_r_prime in
     vbind (vcheck (expected_claim = new_claim) (LayerConsistencyCheckFailed rnd expected_claim new_claim)) (\<lambda>_.
     vbind (v_sample_ext T K) (\<lambda>mu.
     let (numer, denom) = reduce_to_single_evaluation layer_claims mu in
       vret (numer, denom, mu # round_r))))))))))"

definition verify_gkr ::
    "('ts, 'f, 'd) transcript_ops \<Rightarrow> ('f, 'ef::field) field_ops \<Rightarrow> ('f, 'ef) gkr_proof \<Rightarrow> nat
       \<Rightarrow> ('ef \<times> 'ef \<times> 'ef list, 'ts, 'ef gkr_error) vm" where
  "verify_gkr T K proof total_rounds =
     vbind (vassert (0 < total_rounds)) (\<lambda>_.
     vbind (vcheck (length (claims_per_layer proof) = total_rounds)
              (IncorrectLayerCount total_rounds (length (claims_per_layer proof)))) (\<lambda>_.
     vbind (vcheck (length (sumcheck_polys proof) = total_rounds - 1)
              (IncorrectSumcheckPolyCount (total_rounds - 1) (length (sumcheck_polys proof)))) (\<lambda>_.
     vbind (v_observe_ext T K (q0_claim proof)) (\<lambda>_.
     vbind (vlift (index (claims_per_layer proof) 0)) (\<lambda>layer_claims.
     vbind (observe_layer_claims T K layer_claims) (\<lambda>_.
     let (p_cross_term, q_cross_term) = compute_recursive_relations layer_claims in
     vbind (vcheck (p_cross_term = 0) (ZeroCheckFailed p_cross_term)) (\<lambda>_.
     vbind (vcheck (q_cross_term = q0_claim proof)
              (RootConsistencyCheckFailed (q0_claim proof) q_cross_term)) (\<lambda>_.
     vbind (v_sample_ext T K) (\<lambda>mu.
     let (numer_claim, denom_claim) = reduce_to_single_evaluation layer_claims mu in
     vfor (gkr_round T K proof) [1..<total_rounds] (numer_claim, denom_claim, [mu]))))))))))"

section \<open>The verifier does not panic\<close>

lemma eval_eq_mle_Ok: "length x = length y \<Longrightarrow> eval_eq_mle x y = Ok (eq_mle_value x y)"
  by (simp add: eval_eq_mle_def)

lemma eq_mle_value_snoc:
  "length x = length y \<Longrightarrow> eq_mle_value (x @ [a]) (y @ [b]) = eq_mle_value x y * (a * b + (1 - a) * (1 - b))"
  by (simp add: eq_mle_append algebra_simps)

context transcript
begin

lemma safe_layer_claims: "vsafe inv (observe_layer_claims T K claims) (\<lambda>_. True)"
  unfolding observe_layer_claims_def by (intro vsafe_bind [OF safe_observe_ext] safe_observe_ext)

text \<open>The sub-rounds produce one challenge each, and their \<open>eq\<close> is the one of the debug assertion.\<close>

lemma safe_sumcheck:
  fixes K :: "('f, 'ef::field) field_ops"
  assumes "0 < rnd" and "length gkr_r = rnd" and "rnd - 1 < length (sumcheck_polys p)"
  shows "vsafe inv (verify_gkr_sumcheck T K p rnd claim gkr_r)
     (\<lambda>(new_claim, round_r, eq). length round_r = rnd \<and> eq = eq_mle_value gkr_r round_r)"
proof -
  let ?polys = "sumcheck_polys p ! (rnd - 1)"
  let ?J = "\<lambda>done (claim, rp, eq). length rp = length done \<and> eq = eq_mle_value (take (length rp) gkr_r) rp"
  have loop: "vsafe inv (vfor (gkr_subround T K gkr_r) (enumerated ?polys) (claim, [], 1)) (?J (enumerated ?polys))"
    if len: "length ?polys = rnd"
  proof (rule vsafe_for)
    fix x ys zs and s :: "'ef \<times> 'ef list \<times> 'ef"
    assume split: "enumerated ?polys = ys @ x # zs" and J: "?J ys s"
    obtain i e1 e2 e3 where x: "x = (i, e1, e2, e3)" by (cases x) auto
    obtain c rp eq where s: "s = (c, rp, eq)" by (cases s) auto
    have i: "i = length ys" "length ys < length gkr_r"
    proof -
      from split have "length (enumerated ?polys) = length (ys @ x # zs)" by (rule arg_cong)
      then have lt: "length ys < length ?polys" by simp
      moreover from split have "enumerated ?polys ! length ys = x" by simp
      ultimately show "i = length ys" "length ys < length gkr_r" using x len assms(2) by simp_all
    qed
    have J': "length rp = length ys" "eq = eq_mle_value (take (length rp) gkr_r) rp" using J s by auto
    have take: "take (Suc (length ys)) gkr_r = take (length ys) gkr_r @ [gkr_r ! length ys]"
      using i by (simp add: take_Suc_conv_app_nth)
    show "vsafe inv (gkr_subround T K gkr_r x s) (?J (ys @ [x]))"
      unfolding gkr_subround_def x s prod.case
      apply (rule vsafe_bind [OF safe_observe_exts])
      apply (rule vsafe_bind [OF safe_sample_ext])
      apply (rule vsafe_lift_bind [of _ "gkr_r ! length rp"])
       apply (use i J' in simp)
      apply (rule vsafe_ret)
      using i J' by (simp add: take eq_mle_value_snoc)
  qed (simp add: eq_mle_value_def)
  show ?thesis
    unfolding verify_gkr_sumcheck_def
    apply (rule vsafe_assert_bind [OF assms(1)])
    apply (rule vsafe_assert_bind [OF assms(2)])
    apply (rule vsafe_lift_bind [of _ ?polys])
     apply (use assms(3) in simp)
    apply (rule vsafe_check_bind)
    apply (rule vsafe_weaken [OF loop])
     apply assumption
    using assms(2) by auto
qed

lemma safe_gkr_round:
  assumes "0 < rnd" and "rnd < length (claims_per_layer p)" and "rnd - 1 < length (sumcheck_polys p)"
    and "case s of (_, _, gkr_r) \<Rightarrow> length gkr_r = rnd"
  shows "vsafe inv (gkr_round T K p rnd s) (\<lambda>(_, _, gkr_r). length gkr_r = Suc rnd)"
proof -
  obtain n d r where s: "s = (n, d, r)" by (cases s) auto
  with assms(4) have len: "length r = rnd" by simp
  show ?thesis
    unfolding gkr_round_def s prod.case
    apply (rule vsafe_bind [OF safe_sample_ext])
    apply (rule vsafe_bind [OF safe_sumcheck [OF assms(1) len assms(3)]])
    apply (clarsimp simp: Let_def compute_recursive_relations_def reduce_to_single_evaluation_def)
    apply (rule vsafe_lift_bind)
     apply (rule eval_eq_mle_Ok)
     apply (simp add: len)
    apply (rule vsafe_assert_bind)
     apply simp
    apply (rule vsafe_lift_bind)
     apply (rule index_in_range)
     apply (use assms(2) in simp)
    apply (rule vsafe_bind [OF safe_layer_claims])
    apply (rule vsafe_check_bind)
    apply (rule vsafe_bind [OF safe_sample_ext])
    apply (rule vsafe_ret)
    apply simp
    done
qed

lemma safe_verify_gkr:
  fixes K :: "('f, 'ef::field) field_ops"
  assumes "0 < total_rounds"
  shows "vsafe inv (verify_gkr T K p total_rounds) (\<lambda>(_, _, xi). length xi = total_rounds)"
proof -
  have loop: "vsafe inv (vfor (gkr_round T K p) [1..<total_rounds] (n, d, [mu])) (\<lambda>(_, _, xi). length xi = total_rounds)"
    if len: "length (claims_per_layer p) = total_rounds" "length (sumcheck_polys p) = total_rounds - 1" for n d mu
  proof -
    have "vsafe inv (vfor (gkr_round T K p) [1..<total_rounds] (n, d, [mu]))
        ((\<lambda>done (_, _, xi). length xi = Suc (length done)) [1..<total_rounds])"
    proof (rule vsafe_for)
      fix x ys zs and s :: "'ef \<times> 'ef \<times> 'ef list"
      assume split: "[1..<total_rounds] = ys @ x # zs" and J: "case s of (_, _, xi) \<Rightarrow> length xi = Suc (length ys)"
      from split have "length [1..<total_rounds] = length (ys @ x # zs)" by (rule arg_cong)
      then have "length ys < total_rounds - 1" by simp
      moreover from split have "[1..<total_rounds] ! length ys = x" by simp
      ultimately have "[1..<total_rounds] ! length ys = x" "length ys < total_rounds - 1" by simp_all
      then have x: "x = Suc (length ys)" "x < total_rounds" by auto
      then have "0 < x" "x < length (claims_per_layer p)" "x - 1 < length (sumcheck_polys p)"
        using len by simp_all
      from safe_gkr_round [OF this] J x(1)
      show "vsafe inv (gkr_round T K p x s) (\<lambda>(_, _, xi). length xi = Suc (length (ys @ [x])))"
        by simp
    qed simp
    with assms show ?thesis by simp
  qed
  show ?thesis
    unfolding verify_gkr_def
    apply (rule vsafe_assert_bind [OF assms])
    apply (rule vsafe_check_bind)
    apply (rule vsafe_check_bind)
    apply (rule vsafe_bind [OF safe_observe_ext])
    apply (rule vsafe_lift_bind)
     apply (rule index_in_range)
     apply (use assms in simp)
    apply (rule vsafe_bind [OF safe_layer_claims])
    apply (simp only: Let_def compute_recursive_relations_def reduce_to_single_evaluation_def prod.case)
    apply (rule vsafe_check_bind)
    apply (rule vsafe_check_bind)
    apply (rule vsafe_bind [OF safe_sample_ext])
    apply (rule loop)
     apply assumption+
    done
qed

end

section \<open>What an accepted proof satisfies\<close>

lemma vact_OkE:
  assumes "vbind (vact f) g ts = Ok r"
  obtains ts' where "f ts = Some ts'" and "g () ts' = Ok r"
  using assms by (auto simp: vbind_def vact_def rbind_Ok_iff unwrap_Ok_iff)

lemma verify_gkr_OkD:
  assumes "verify_gkr T K p total_rounds ts = Ok ((numer, denom, xi), ts')"
  shows "length (claims_per_layer p) = total_rounds \<and> length (sumcheck_polys p) = total_rounds - 1 \<and>
     0 < total_rounds \<and>
     compute_recursive_relations (claims_per_layer p ! 0) = (0, q0_claim p)"
  using assms unfolding verify_gkr_def
  by (auto elim!: vbind_OkE simp: compute_recursive_relations_def index_Ok_iff)

text \<open>
  The cubic that the verifier interpolates in a sub-round has the prover's values, so its
  values at 0 and 1 add up to the claim; its coefficients are these.
\<close>

lemma cubic_coefficients:
  assumes "(6 :: 'a::field) \<noteq> 0"
  shows "\<exists>cs. length cs = 4 \<and> (\<forall>x. interpolate_cubic_at_0123 (e0, e1, e2, e3) x = horner_eval cs (x :: 'a)) \<and>
     horner_eval cs 0 = e0 \<and> horner_eval cs 1 = e1"
proof -
  define d3 where "d3 = (e3 - e0) - ((e2 - e0) - (e1 - e0)) * 3"
  define p where "p = d3 * inverse 6"
  define q where "q = ((e2 - e0) - d3) / 2 - (e1 - e0)"
  define r where "r = (e1 - e0) - p - q"
  show ?thesis
  proof (intro exI [of _ "[e0, r, q, p]"] conjI allI)
    show "interpolate_cubic_at_0123 (e0, e1, e2, e3) x = horner_eval [e0, r, q, p] x" for x
      unfolding interpolate_cubic_at_0123_def Let_def prod.case d3_def [symmetric] p_def [symmetric]
        q_def [symmetric] r_def [symmetric] by (simp add: horner_eval_def)
  qed (simp_all add: horner_eval_def r_def)
qed

section \<open>Properties\<close>

text \<open>C32. The GKR verifier never panics, whatever proof it is given: with a transcript that keeps its
  contract it returns an error or an evaluation point of \<open>total_rounds\<close> coordinates. In particular
  the debug assertion that the incrementally computed \<open>eq\<close> is \<open>eval_eq_mle\<close> holds.\<close>
theorem gkr_never_panics:
  assumes "transcript T I wf_digest" and "I ts" and "0 < total_rounds"
  shows "verify_gkr T K p total_rounds ts \<noteq> Panic \<and>
     (\<forall>numer denom xi ts'. verify_gkr T K p total_rounds ts = Ok ((numer, denom, xi), ts') \<longrightarrow>
        length xi = total_rounds \<and> I ts')"
proof -
  note safe = transcript.safe_verify_gkr [OF assms(1,3), of K p]
  from vsafeD [OF safe assms(2)] vsafe_OkD [OF safe assms(2)] show ?thesis by fastforce
qed

definition f17_ops :: "(f17, f17) field_ops" where
  "f17_ops = \<lparr>f_order = 17, f_as_u64 = (\<lambda>x. nat (Rep_f17 x)), f_from_u64 = (\<lambda>n. f17 (int n)),
     ef_dimension = 1, ef_coefficients = (\<lambda>x. [x]), ef_from_coefficients = hd\<rparr>"

definition f17_sponge :: "f17 sponge_config" where
  "f17_sponge = \<lparr>sp_perm = (\<lambda>s. map (\<lambda>x. sum_list s + f17 3 * x + 1) s), sp_width = 3, sp_rate = 2, sp_default = 0\<rparr>"

lemma wf_f17_sponge: "wf_sponge_config f17_sponge"
  by (simp add: wf_sponge_config_def f17_sponge_def)

interpretation f17_duplex: duplex f17_sponge
  by unfold_locales (rule wf_f17_sponge)

definition sample_gkr :: "(f17, f17) gkr_proof" where
  "sample_gkr = \<lparr>logup_pow_witness = 0, q0_claim = 1,
     claims_per_layer = [\<lparr>p_xi_0 = 0, p_xi_1 = 0, q_xi_0 = 1, q_xi_1 = 1\<rparr>], sumcheck_polys = []\<rparr>"

theorem gkr_never_panics_witness:
  "verify_gkr (sponge_ops f17_sponge) f17_ops sample_gkr 1 (sponge_from f17_sponge) \<noteq> Panic"
  using gkr_never_panics [OF f17_duplex.transcript_axioms sponge_inv_from [OF wf_f17_sponge], of 1 f17_ops sample_gkr]
  by simp

text \<open>Acceptance fixes the root: a proof that the GKR verifier accepts has one claim per layer and one
  sumcheck per layer after the first, the numerator of the root fraction recomputed from the first
  layer is 0, and its denominator is the claimed \<open>q0\<close>.\<close>
theorem gkr_accepts_zero_root:
  assumes "verify_gkr T K p total_rounds ts = Ok ((numer, denom, xi), ts')"
  shows "0 < total_rounds \<and> length (claims_per_layer p) = total_rounds \<and>
     length (sumcheck_polys p) = total_rounds - 1 \<and>
     (let c = claims_per_layer p ! 0 in
        p_xi_0 c * q_xi_1 c + p_xi_1 c * q_xi_0 c = 0 \<and> q_xi_0 c * q_xi_1 c = q0_claim p)"
  using verify_gkr_OkD [OF assms] by (simp add: compute_recursive_relations_def Let_def)

theorem gkr_accepts_zero_root_witness:
  "\<exists>numer denom xi ts'.
     verify_gkr (sponge_ops f17_sponge) f17_ops sample_gkr 1 (sponge_from f17_sponge) = Ok ((numer, denom, xi), ts') \<and>
     0 < (1::nat) \<and> length (claims_per_layer sample_gkr) = 1 \<and> length (sumcheck_polys sample_gkr) = 1 - 1 \<and>
     (let c = claims_per_layer sample_gkr ! 0 in
        p_xi_0 c * q_xi_1 c + p_xi_1 c * q_xi_0 c = 0 \<and> q_xi_0 c * q_xi_1 c = q0_claim sample_gkr)"
proof -
  have "case verify_gkr (sponge_ops f17_sponge) f17_ops sample_gkr 1 (sponge_from f17_sponge) of
      Ok _ \<Rightarrow> True | _ \<Rightarrow> False"
    by code_simp
  then obtain numer denom xi ts' where ok:
    "verify_gkr (sponge_ops f17_sponge) f17_ops sample_gkr 1 (sponge_from f17_sponge) = Ok ((numer, denom, xi), ts')"
    by (auto split: res.splits)
  from gkr_accepts_zero_root [OF ok] ok show ?thesis by blast
qed

text \<open>One run of the sub-round: the three values are observed, then the challenge is sampled.\<close>

lemma gkr_subround_run:
  assumes "vdo_all (v_observe_ext T K) [e1, e2, e3] ts = (Ok ((), ts1) :: (_, 'e) res)"
    and "v_sample_ext T K ts1 = (Ok (r, ts2) :: (_, 'e) res)" and "i < length gkr_r"
  shows "gkr_subround T K gkr_r (i, e1, e2, e3) (claim, rp, eq) ts
     = (Ok ((interpolate_cubic_at_0123 (claim - e1, e1, e2, e3) r, rp @ [r],
             eq * (gkr_r ! i * r + (1 - gkr_r ! i) * (1 - r))), ts2) :: (_, 'e) res)"
proof -
  have "index gkr_r i = (Ok (gkr_r ! i) :: (_, 'e) res)" using assms(3) by simp
  then show ?thesis
    unfolding gkr_subround_def prod.case by (simp only: vbind_def vlift_def assms(1,2) rbind.simps prod.case vret_def)
qed

lemma wrong_cubic_claim:
  assumes "(6 :: 'ef::field) \<noteq> 0" and "length s = 4" and "claim \<noteq> horner_eval s 0 + horner_eval s (1 :: 'ef)"
  shows "finite {r. interpolate_cubic_at_0123 (claim - e1, e1, e2, e3) r = horner_eval s r} \<and>
     card {r. interpolate_cubic_at_0123 (claim - e1, e1, e2, e3) r = horner_eval s r} \<le> 3"
proof -
  from cubic_coefficients [OF assms(1), of "claim - e1" e1 e2 e3] obtain cs where cs: "length cs = 4"
    "\<And>x. interpolate_cubic_at_0123 (claim - e1, e1, e2, e3) x = horner_eval cs x"
    "horner_eval cs 0 = claim - e1" "horner_eval cs 1 = e1" by blast
  have "horner_eval cs 0 + horner_eval cs 1 \<noteq> horner_eval s 0 + horner_eval s 1" using cs(3,4) assms(3) by simp
  then have "horner_eval cs 0 \<noteq> horner_eval s 0 \<or> horner_eval cs 1 \<noteq> horner_eval s 1" by auto
  with agreement_count [of cs s] cs(1) assms(2) show ?thesis by (auto simp: cs(2))
qed

lemma true_cubic_claim:
  assumes "(6 :: 'ef::field) \<noteq> 0" and "length s = 4"
  shows "interpolate_cubic_at_0123 (horner_eval s 0, horner_eval s 1, horner_eval s 2, horner_eval s 3) r = horner_eval s (r :: 'ef)"
proof -
  obtain a b c d where "s = [a, b, c, d]"
    using assms(2) by (auto simp: numeral_eq_Suc length_Suc_conv)
  then show ?thesis by (simp only: interpolate_cubic_exact [OF assms(1)])
qed

text \<open>C33. Soundness and completeness of one sumcheck sub-round of the GKR verifier. Let \<open>s\<close> be the true round polynomial, of
  degree at most 3. The sub-round on three values never fails: it observes the values, then samples the challenge \<open>r\<close>,
  appends it to the point, multiplies the running \<open>eq\<close> by its factor at \<open>r\<close>, and goes on with a new claim. If the claim
  is \<open>s(0) + s(1)\<close> and the values are \<open>s(1), s(2), s(3)\<close>, the new claim is \<open>s(r)\<close>. If the claim is not \<open>s(0) + s(1)\<close>, then
  whatever the values are, the new claim differs from \<open>s(r)\<close> unless \<open>r\<close> is in a set of at most three elements that is
  fixed by the claim and the values alone, for every transcript and every state of it.\<close>
theorem gkr_subround_sound:
  fixes K :: "('f, 'ef::field) field_ops"
  assumes "(6 :: 'ef) \<noteq> 0" and "length s = 4" and "i < length gkr_r"
  shows "\<exists>B. finite B \<and> card B \<le> 3 \<and>
    (\<forall>(T :: ('ts, 'f, 'd) transcript_ops) I wf_digest ts rp eq. transcript T I wf_digest \<and> I ts \<longrightarrow>
      (\<exists>ts1 r ts2 c. vdo_all (v_observe_ext T K) [e1, e2, e3] ts = (Ok ((), ts1) :: (_, 'e) res) \<and>
         v_sample_ext T K ts1 = (Ok (r, ts2) :: (_, 'e) res) \<and> I ts2 \<and>
         gkr_subround T K gkr_r (i, e1, e2, e3) (claim, rp, eq) ts
           = (Ok ((c, rp @ [r], eq * (gkr_r ! i * r + (1 - gkr_r ! i) * (1 - r))), ts2) :: (_, 'e) res) \<and>
         (claim = horner_eval s 0 + horner_eval s 1 \<and> [e1, e2, e3] = map (horner_eval s) [1, 2, 3] \<longrightarrow> c = horner_eval s r) \<and>
         (claim \<noteq> horner_eval s 0 + horner_eval s 1 \<and> r \<notin> B \<longrightarrow> c \<noteq> horner_eval s r)))"
proof -
  let ?true = "horner_eval s 0 + horner_eval s 1" and ?next = "interpolate_cubic_at_0123 (claim - e1, e1, e2, e3)"
  define B where "B = (if claim = ?true then {} else {r. ?next r = horner_eval s r})"
  have small: "finite B \<and> card B \<le> 3"
    using wrong_cubic_claim [OF assms(1,2), of claim] by (simp add: B_def)
  have "\<exists>ts1 r ts2 c. vdo_all (v_observe_ext T K) [e1, e2, e3] ts = (Ok ((), ts1) :: (_, 'e) res) \<and>
         v_sample_ext T K ts1 = (Ok (r, ts2) :: (_, 'e) res) \<and> I ts2 \<and>
         gkr_subround T K gkr_r (i, e1, e2, e3) (claim, rp, eq) ts
           = (Ok ((c, rp @ [r], eq * (gkr_r ! i * r + (1 - gkr_r ! i) * (1 - r))), ts2) :: (_, 'e) res) \<and>
         (claim = ?true \<and> [e1, e2, e3] = map (horner_eval s) [1, 2, 3] \<longrightarrow> c = horner_eval s r) \<and>
         (claim \<noteq> ?true \<and> r \<notin> B \<longrightarrow> c \<noteq> horner_eval s r)"
    if T: "transcript T I wf_digest" "I ts" for T :: "('ts, 'f, 'd) transcript_ops" and I wf_digest ts rp eq
  proof -
    from transcript.observe_exts_run [OF T, where K = K and 'e = 'e, of "[e1, e2, e3]"] obtain ts1 where
      ts1: "vdo_all (v_observe_ext T K) [e1, e2, e3] ts = (Ok ((), ts1) :: (_, 'e) res)" "I ts1" by blast
    from transcript.both_sample [OF T(1) ts1(2), where K = K and 'e = 'e and 'g = 'e] obtain r ts2 where
      ts2: "v_sample_ext T K ts1 = (Ok (r, ts2) :: (_, 'e) res)" "I ts2" by blast
    have "?next r = horner_eval s r" if "claim = ?true \<and> [e1, e2, e3] = map (horner_eval s) [1, 2, 3]"
      using true_cubic_claim [OF assms(1,2), of r] that by simp
    moreover have "?next r \<noteq> horner_eval s r" if "claim \<noteq> ?true \<and> r \<notin> B" using that by (auto simp: B_def)
    ultimately show ?thesis using ts1(1) ts2 gkr_subround_run [OF ts1(1) ts2(1) assms(3)] by blast
  qed
  with small show ?thesis by (intro exI [of _ B] conjI allI impI) (elim conjE, assumption | simp)+
qed

theorem gkr_subround_sound_witness:
  "\<exists>B :: f17 set. card B \<le> 3 \<and>
    (\<exists>r ts2 c eq. gkr_subround (sponge_ops f17_sponge) f17_ops [2] (0, 1, 2, 3) (5, [], 1) (sponge_from f17_sponge)
         = (Ok ((c, [r], eq), ts2) :: (_, unit) res) \<and> (r \<notin> B \<longrightarrow> c \<noteq> horner_eval [1, 0, 0, 0] r))"
proof -
  have ne: "f17 5 \<noteq> horner_eval [1, 0, 0, 0] 0 + horner_eval [1, 0, 0, 0] 1"
    by (simp add: horner_eval_def f17_numeral f17_eq_iff)
  have run: "transcript (sponge_ops f17_sponge) (sponge_inv f17_sponge) (\<lambda>_. True) \<and> sponge_inv f17_sponge (sponge_from f17_sponge)"
    by (intro conjI f17_duplex.transcript_axioms sponge_inv_from [OF wf_f17_sponge])
  have "\<exists>B. finite B \<and> card B \<le> 3 \<and> (\<forall>(T :: (f17 duplex_sponge, f17, f17 list) transcript_ops) I wf_digest ts rp eq.
      transcript T I wf_digest \<and> I ts \<longrightarrow>
      (\<exists>ts1 r ts2 c. gkr_subround T f17_ops [2] (0, 1, 2, 3) (5, rp, eq) ts
           = (Ok ((c, rp @ [r], eq * (2 * r + (1 - 2) * (1 - r))), ts2) :: (_, unit) res) \<and>
         (r \<notin> B \<longrightarrow> c \<noteq> horner_eval [1, 0, 0, 0] r)))"
    using gkr_subround_sound [OF f17_nonzero(2), where s = "[1, 0, 0, 0]" and i = 0 and gkr_r = "[2]" and K = f17_ops and claim = 5
        and ?e1.0 = 1 and ?e2.0 = 2 and ?e3.0 = 3 and 'e = unit and 'ts = "f17 duplex_sponge" and 'd = "f17 list"] ne
    apply (simp add: f17_numeral)
    apply (elim exE conjE)
    subgoal for B
      apply (rule exI [of _ B])
      apply (intro conjI)
        apply assumption
       apply assumption
      apply blast
      done
    done
  then obtain B where "card B \<le> 3" and all: "\<And>(T :: (f17 duplex_sponge, f17, f17 list) transcript_ops) I wf_digest ts rp eq.
      transcript T I wf_digest \<and> I ts \<Longrightarrow>
      \<exists>ts1 r ts2 c. gkr_subround T f17_ops [2] (0, 1, 2, 3) (5, rp, eq) ts
           = (Ok ((c, rp @ [r], eq * (2 * r + (1 - 2) * (1 - r))), ts2) :: (_, unit) res) \<and>
         (r \<notin> B \<longrightarrow> c \<noteq> horner_eval [1, 0, 0, 0] r)"
    by blast
  from all [OF run, of "[]" 1] have "\<exists>r ts2 c eq. gkr_subround (sponge_ops f17_sponge) f17_ops [2] (0, 1, 2, 3) (5, [], 1) (sponge_from f17_sponge)
      = (Ok ((c, [r], eq), ts2) :: (_, unit) res) \<and> (r \<notin> B \<longrightarrow> c \<noteq> horner_eval [1, 0, 0, 0] r)"
    unfolding append_Nil by blast
  with \<open>card B \<le> 3\<close> show ?thesis by blast
qed

end
