(* ===== verification/FieldTower.thy ===== *)
theory FieldTower
  imports PolyCommon VerifierMonad
begin

text \<open>
  The base field and its extension as the verifier uses them together: the embedding, the
  two-adic generators of both and the transcript's view of them (\<open>fe_ops\<close>). Plonky3
  implements them; the locale \<open>field_tower\<close> states the laws the verifier relies on.
\<close>

record ('f, 'ef) field_ext =
  fe_ops :: "('f, 'ef) field_ops"
  fe_embed :: "'f \<Rightarrow> 'ef"
  fe_adicity :: nat
  fe_gen :: "nat \<Rightarrow> 'f"
  fe_ext_adicity :: nat
  fe_ext_gen :: "nat \<Rightarrow> 'ef"

text \<open>Plonky3 asserts that the requested subgroup exists and that an inverted element is not zero.\<close>

definition two_adic_generator :: "('f, 'ef) field_ext \<Rightarrow> nat \<Rightarrow> ('f, 'e) res" where
  "two_adic_generator X bits = rbind (assert_that (bits \<le> fe_adicity X)) (\<lambda>_. Ok (fe_gen X bits))"

definition ext_two_adic_generator :: "('f, 'ef) field_ext \<Rightarrow> nat \<Rightarrow> ('ef, 'e) res" where
  "ext_two_adic_generator X bits = rbind (assert_that (bits \<le> fe_ext_adicity X)) (\<lambda>_. Ok (fe_ext_gen X bits))"

definition checked_inverse :: "'f::field \<Rightarrow> ('f, 'e) res" where
  "checked_inverse x = (if x = 0 then Panic else Ok (inverse x))"

text \<open>The first \<open>n\<close> powers of an element: \<open>x.powers().take(n)\<close>.\<close>

definition powers :: "nat \<Rightarrow> 'a::field \<Rightarrow> 'a list" where
  "powers n x = map (\<lambda>i. x ^ i) [0..<n]"

locale field_tower =
  fixes X :: "('f::field, 'ef::field) field_ext"
  assumes base_two_adic: "two_adic (fe_gen X) (fe_adicity X)"
    and embed_add [simp]: "fe_embed X (a + b) = fe_embed X a + fe_embed X b"
    and embed_mult [simp]: "fe_embed X (a * b) = fe_embed X a * fe_embed X b"
    and embed_one [simp]: "fe_embed X 1 = 1"
begin

sublocale base: two_adic "fe_gen X" "fe_adicity X"
  by (rule base_two_adic)

lemma embed_zero [simp]: "fe_embed X 0 = 0"
  using embed_add [of 0 0] by (metis add_0 add_right_cancel)

lemma embed_uminus [simp]: "fe_embed X (- a) = - fe_embed X a"
  using embed_add [of a "- a"] by (simp add: eq_neg_iff_add_eq_0 add.commute)

lemma embed_diff [simp]: "fe_embed X (a - b) = fe_embed X a - fe_embed X b"
  using embed_add [of a "- b"] by simp

lemma embed_power [simp]: "fe_embed X (a ^ n) = fe_embed X a ^ n"
  by (induction n) simp_all

lemma embed_of_nat [simp]: "fe_embed X (of_nat n) = of_nat n"
  by (induction n) simp_all

lemma embed_numeral [simp]: "fe_embed X (numeral k) = numeral k"
  using embed_of_nat [of "numeral k"] by simp

lemma embed_zero_iff [simp]: "fe_embed X a = 0 \<longleftrightarrow> a = 0"
proof
  assume e: "fe_embed X a = 0"
  show "a = 0"
  proof (rule ccontr)
    assume "a \<noteq> 0"
    then have "fe_embed X (a * inverse a) = 1" by simp
    with e show False by simp
  qed
qed simp

lemma embed_eq_iff [simp]: "fe_embed X a = fe_embed X b \<longleftrightarrow> a = b"
  using embed_zero_iff [of "a - b"] by simp

lemma embed_inverse [simp]: "fe_embed X (inverse a) = inverse (fe_embed X a)"
proof (cases "a = 0")
  case False
  then have "fe_embed X (a * inverse a) = 1" by simp
  then show ?thesis by (simp add: inverse_unique)
qed simp

lemma ext_two_nonzero: "(2 :: 'ef) \<noteq> 0"
proof -
  have "fe_embed X 2 \<noteq> 0" using base.two_nonzero by (simp del: embed_numeral)
  then show ?thesis by simp
qed

text \<open>The generators of the base field are generators in the extension.\<close>

sublocale ext: two_adic "\<lambda>l. fe_embed X (fe_gen X l)" "fe_adicity X"
proof
  show "fe_embed X (fe_gen X l) ^ 2 ^ l = 1" if "l \<le> fe_adicity X" for l
    using base.gen_order [OF that] by (metis embed_one embed_power)
  show "i = j" if "l \<le> fe_adicity X" "i < 2 ^ l" "j < 2 ^ l"
    "fe_embed X (fe_gen X l) ^ i = fe_embed X (fe_gen X l) ^ j" for l i j
    using that base.gen_inject [of l i j] by (metis embed_eq_iff embed_power)
qed (rule ext_two_nonzero)

lemma generator_Ok: "l \<le> fe_adicity X \<Longrightarrow> two_adic_generator X l = Ok (fe_gen X l)"
  by (simp add: two_adic_generator_def)

lemma gen_nonzero: "l \<le> fe_adicity X \<Longrightarrow> fe_gen X l \<noteq> 0"
  using base.gen_order [of l] by (auto simp: power_0_left)

lemma power2_inverse_Ok: "checked_inverse (of_nat (2 ^ l) :: 'f) = Ok (1 / 2 ^ l)"
  using base.two_nonzero by (simp add: checked_inverse_def divide_inverse)

end

lemma checked_inverse_Ok: "x \<noteq> 0 \<Longrightarrow> checked_inverse x = Ok (inverse x)"
  by (simp add: checked_inverse_def)

lemma length_powers [simp]: "length (powers n x) = n"
  by (simp add: powers_def)

lemma nth_powers [simp]: "i < n \<Longrightarrow> powers n x ! i = x ^ i"
  by (simp add: powers_def)

text \<open>Summing every \<open>n\<close>-th coefficient sums the polynomial over the \<open>n\<close>-th roots of unity.\<close>

definition step_by :: "nat \<Rightarrow> 'a list \<Rightarrow> 'a list" where
  "step_by n xs = map (\<lambda>i. xs ! (i * n)) [0..<div_ceil (length xs) n]"

section \<open>The field of 17 elements over itself\<close>

definition f17_tower :: "(f17, f17) field_ext" where
  "f17_tower = \<lparr>fe_ops = \<lparr>f_order = 17, f_as_u64 = (\<lambda>x. nat (Rep_f17 x)), f_from_u64 = (\<lambda>n. f17 (int n)),
       ef_dimension = 1, ef_coefficients = (\<lambda>x. [x]), ef_from_coefficients = hd\<rparr>,
     fe_embed = (\<lambda>x. x), fe_adicity = 4, fe_gen = f17_gen, fe_ext_adicity = 4, fe_ext_gen = f17_gen\<rparr>"

interpretation f17_tower: field_tower f17_tower
  by unfold_locales (simp_all add: f17_tower_def f17_two_adic.gen_order f17_two_adic.gen_inject f17_nonzero)

end
