(* ===== verification/Symbolic.thy ===== *)
theory Symbolic
  imports Prelude
begin

text \<open>
  Symbolic expressions of AIR constraints (\<open>air_builders/symbolic/\<close>): variables,
  expression trees, their degrees and their evaluation. An \<open>Arc\<close> child is a pair of
  arguments, the address it points to and the expression found there, because the
  equality of expressions and the cache of the DAG builder look at addresses. Degrees are
  naturals: they are bounded by the size of an expression.
\<close>

section \<open>Variables\<close>

datatype entry =
    Preprocessed nat
  | Main nat nat
  | Public
  | Challenge

fun entry_offset :: "entry \<Rightarrow> nat option" where
  "entry_offset (Preprocessed offset) = Some offset"
| "entry_offset (Main _ offset) = Some offset"
| "entry_offset Public = None"
| "entry_offset Challenge = None"

fun entry_rotate :: "nat \<Rightarrow> entry \<Rightarrow> entry" where
  "entry_rotate offset (Preprocessed old_offset) = Preprocessed (old_offset + offset)"
| "entry_rotate offset (Main part_index old_offset) = Main part_index (old_offset + offset)"
| "entry_rotate offset e = e"

datatype symbolic_variable = SymbolicVariable (var_entry: entry) (var_index: nat)

fun var_degree_multiple :: "symbolic_variable \<Rightarrow> nat" where
  "var_degree_multiple (SymbolicVariable (Preprocessed _) _) = 1"
| "var_degree_multiple (SymbolicVariable (Main _ _) _) = 1"
| "var_degree_multiple (SymbolicVariable _ _) = 0"

definition var_rotate :: "nat \<Rightarrow> symbolic_variable \<Rightarrow> symbolic_variable" where
  "var_rotate offset v = SymbolicVariable (entry_rotate offset (var_entry v)) (var_index v)"

section \<open>Expressions\<close>

datatype 'f symbolic_expression =
    Variable symbolic_variable
  | IsFirstRow
  | IsLastRow
  | IsTransition
  | Constant 'f
  | Add nat "'f symbolic_expression" nat "'f symbolic_expression" nat
  | Sub nat "'f symbolic_expression" nat "'f symbolic_expression" nat
  | Neg nat "'f symbolic_expression" nat
  | Mul nat "'f symbolic_expression" nat "'f symbolic_expression" nat

fun degree_multiple :: "'f symbolic_expression \<Rightarrow> nat" where
  "degree_multiple (Variable v) = var_degree_multiple v"
| "degree_multiple IsFirstRow = 1"
| "degree_multiple IsLastRow = 1"
| "degree_multiple IsTransition = 1"
| "degree_multiple (Constant _) = 0"
| "degree_multiple (Add _ _ _ _ d) = d"
| "degree_multiple (Sub _ _ _ _ d) = d"
| "degree_multiple (Neg _ _ d) = d"
| "degree_multiple (Mul _ _ _ _ d) = d"

text \<open>The operators build a node over two freshly allocated children.\<close>

definition expr_add :: "nat \<Rightarrow> 'f symbolic_expression \<Rightarrow> nat \<Rightarrow> 'f symbolic_expression \<Rightarrow> 'f symbolic_expression" where
  "expr_add p x q y = Add p x q y (max (degree_multiple x) (degree_multiple y))"

definition expr_sub :: "nat \<Rightarrow> 'f symbolic_expression \<Rightarrow> nat \<Rightarrow> 'f symbolic_expression \<Rightarrow> 'f symbolic_expression" where
  "expr_sub p x q y = Sub p x q y (max (degree_multiple x) (degree_multiple y))"

definition expr_neg :: "nat \<Rightarrow> 'f symbolic_expression \<Rightarrow> 'f symbolic_expression" where
  "expr_neg p x = Neg p x (degree_multiple x)"

definition expr_mul :: "nat \<Rightarrow> 'f symbolic_expression \<Rightarrow> nat \<Rightarrow> 'f symbolic_expression \<Rightarrow> 'f symbolic_expression" where
  "expr_mul p x q y = Mul p x q y (degree_multiple x + degree_multiple y)"

text \<open>\<open>PartialEq\<close>: compound expressions are compared by the addresses of their children.\<close>

definition expr_eq :: "'f symbolic_expression \<Rightarrow> 'f symbolic_expression \<Rightarrow> bool" where
  "expr_eq a b = (case a of
       Variable v1 \<Rightarrow> (case b of Variable v2 \<Rightarrow> v1 = v2 | _ \<Rightarrow> False)
     | IsFirstRow \<Rightarrow> b = IsFirstRow
     | IsLastRow \<Rightarrow> b = IsLastRow
     | IsTransition \<Rightarrow> b = IsTransition
     | Constant c1 \<Rightarrow> (case b of Constant c2 \<Rightarrow> c1 = c2 | _ \<Rightarrow> False)
     | Add x1 _ y1 _ _ \<Rightarrow> (case b of Add x2 _ y2 _ _ \<Rightarrow> x1 = x2 \<and> y1 = y2 | _ \<Rightarrow> False)
     | Sub x1 _ y1 _ _ \<Rightarrow> (case b of Sub x2 _ y2 _ _ \<Rightarrow> x1 = x2 \<and> y1 = y2 | _ \<Rightarrow> False)
     | Neg x1 _ _ \<Rightarrow> (case b of Neg x2 _ _ \<Rightarrow> x1 = x2 | _ \<Rightarrow> False)
     | Mul x1 _ y1 _ _ \<Rightarrow> (case b of Mul x2 _ y2 _ _ \<Rightarrow> x1 = x2 \<and> y1 = y2 | _ \<Rightarrow> False))"

section \<open>Evaluation\<close>

text \<open>\<open>SymbolicEvaluator\<close>: evaluating a variable may panic (\<open>None\<close>).\<close>

record ('f, 'e) symbolic_evaluator =
  eval_const :: "'f \<Rightarrow> 'e"
  eval_var :: "symbolic_variable \<Rightarrow> 'e option"
  eval_is_first_row :: 'e
  eval_is_last_row :: 'e
  eval_is_transition :: 'e

fun eval_expr :: "('f, 'e::comm_ring_1) symbolic_evaluator \<Rightarrow> 'f symbolic_expression \<Rightarrow> ('e, 'x) res" where
  "eval_expr ev (Variable var) = unwrap (eval_var ev var)"
| "eval_expr ev (Constant c) = Ok (eval_const ev c)"
| "eval_expr ev (Add _ x _ y _) = rbind (eval_expr ev x) (\<lambda>a. rbind (eval_expr ev y) (\<lambda>b. Ok (a + b)))"
| "eval_expr ev (Sub _ x _ y _) = rbind (eval_expr ev x) (\<lambda>a. rbind (eval_expr ev y) (\<lambda>b. Ok (a - b)))"
| "eval_expr ev (Neg _ x _) = rbind (eval_expr ev x) (\<lambda>a. Ok (- a))"
| "eval_expr ev (Mul _ x _ y _) = rbind (eval_expr ev x) (\<lambda>a. rbind (eval_expr ev y) (\<lambda>b. Ok (a * b)))"
| "eval_expr ev IsFirstRow = Ok (eval_is_first_row ev)"
| "eval_expr ev IsLastRow = Ok (eval_is_last_row ev)"
| "eval_expr ev IsTransition = Ok (eval_is_transition ev)"

section \<open>The expression DAG\<close>

datatype 'f symbolic_expression_node =
    VariableNode symbolic_variable
  | IsFirstRowNode
  | IsLastRowNode
  | IsTransitionNode
  | ConstantNode 'f
  | AddNode nat nat nat
  | SubNode nat nat nat
  | NegNode nat nat
  | MulNode nat nat nat

fun eval_node :: "('f, 'e::comm_ring_1) symbolic_evaluator \<Rightarrow> 'e list \<Rightarrow> 'f symbolic_expression_node \<Rightarrow> ('e, 'x) res" where
  "eval_node ev exprs (VariableNode var) = unwrap (eval_var ev var)"
| "eval_node ev exprs (ConstantNode c) = Ok (eval_const ev c)"
| "eval_node ev exprs (AddNode l r _) = rbind (index exprs l) (\<lambda>a. rbind (index exprs r) (\<lambda>b. Ok (a + b)))"
| "eval_node ev exprs (SubNode l r _) = rbind (index exprs l) (\<lambda>a. rbind (index exprs r) (\<lambda>b. Ok (a - b)))"
| "eval_node ev exprs (NegNode i _) = rbind (index exprs i) (\<lambda>a. Ok (- a))"
| "eval_node ev exprs (MulNode l r _) = rbind (index exprs l) (\<lambda>a. rbind (index exprs r) (\<lambda>b. Ok (a * b)))"
| "eval_node ev exprs IsFirstRowNode = Ok (eval_is_first_row ev)"
| "eval_node ev exprs IsLastRowNode = Ok (eval_is_last_row ev)"
| "eval_node ev exprs IsTransitionNode = Ok (eval_is_transition ev)"

definition eval_nodes ::
  "('f, 'e::comm_ring_1) symbolic_evaluator \<Rightarrow> 'f symbolic_expression_node list \<Rightarrow> ('e list, 'x) res" where
  "eval_nodes ev nodes = rfold (\<lambda>node exprs. rbind (eval_node ev exprs node) (\<lambda>expr. Ok (exprs @ [expr]))) nodes []"

record 'f symbolic_expression_dag =
  dag_nodes :: "'f symbolic_expression_node list"
  constraint_idx :: "nat list"

definition max_rotation :: "'f symbolic_expression_dag \<Rightarrow> nat" where
  "max_rotation dag = fold (\<lambda>node rotation. case node of
       VariableNode v \<Rightarrow> max rotation (case entry_offset (var_entry v) of None \<Rightarrow> 0 | Some k \<Rightarrow> k)
     | _ \<Rightarrow> rotation) (dag_nodes dag) 0"

definition num_constraints :: "'f symbolic_expression_dag \<Rightarrow> nat" where
  "num_constraints dag = length (constraint_idx dag)"

record 'e interaction =
  message :: "'e list"
  count :: 'e
  bus_index :: nat
  count_weight :: nat

record 'f symbolic_constraints_dag =
  dag_constraints :: "'f symbolic_expression_dag"
  dag_interactions :: "nat interaction list"

record 'f symbolic_constraints =
  sc_constraints :: "'f symbolic_expression list"
  sc_interactions :: "'f symbolic_expression interaction list"

definition max_of :: "nat list \<Rightarrow> nat" where
  "max_of xs = fold max xs 0"

definition max_constraint_degree_of :: "'f symbolic_constraints \<Rightarrow> nat" where
  "max_constraint_degree_of sc = max_of (map degree_multiple
     (sc_constraints sc @ concat (map (\<lambda>i. count i # message i) (sc_interactions sc))))"

definition max_interaction_degrees :: "'f symbolic_constraints \<Rightarrow> nat \<times> nat" where
  "max_interaction_degrees sc =
     (max_of (map (\<lambda>i. max_of (map degree_multiple (message i))) (sc_interactions sc)),
      max_of (map (\<lambda>i. degree_multiple (count i)) (sc_interactions sc)))"

text \<open>The DAG back as expressions. The address of a child is the index of its node.\<close>

fun node_expr :: "'f symbolic_expression list \<Rightarrow> 'f symbolic_expression_node \<Rightarrow> ('f symbolic_expression, 'x) res" where
  "node_expr exprs (VariableNode var) = Ok (Variable var)"
| "node_expr exprs IsFirstRowNode = Ok IsFirstRow"
| "node_expr exprs IsLastRowNode = Ok IsLastRow"
| "node_expr exprs IsTransitionNode = Ok IsTransition"
| "node_expr exprs (ConstantNode c) = Ok (Constant c)"
| "node_expr exprs (AddNode l r d) = rbind (index exprs l) (\<lambda>x. rbind (index exprs r) (\<lambda>y. Ok (Add l x r y d)))"
| "node_expr exprs (SubNode l r d) = rbind (index exprs l) (\<lambda>x. rbind (index exprs r) (\<lambda>y. Ok (Sub l x r y d)))"
| "node_expr exprs (NegNode i d) = rbind (index exprs i) (\<lambda>x. Ok (Neg i x d))"
| "node_expr exprs (MulNode l r d) = rbind (index exprs l) (\<lambda>x. rbind (index exprs r) (\<lambda>y. Ok (Mul l x r y d)))"

definition to_symbolic_expressions :: "'f symbolic_expression_dag \<Rightarrow> ('f symbolic_expression list, 'x) res" where
  "to_symbolic_expressions dag =
     rfold (\<lambda>node exprs. rbind (node_expr exprs node) (\<lambda>expr. Ok (exprs @ [expr]))) (dag_nodes dag) []"

definition symbolic_constraints_of :: "'f symbolic_constraints_dag \<Rightarrow> ('f symbolic_constraints, 'x) res" where
  "symbolic_constraints_of dag =
     rbind (to_symbolic_expressions (dag_constraints dag)) (\<lambda>exprs.
     rbind (rmap (index exprs) (constraint_idx (dag_constraints dag))) (\<lambda>constraints.
     rbind (rmap (\<lambda>i. rbind (rmap (index exprs) (message i)) (\<lambda>fields.
         rbind (index exprs (count i)) (\<lambda>c.
         Ok \<lparr>message = fields, count = c, bus_index = bus_index i, count_weight = count_weight i\<rparr>)))
       (dag_interactions dag)) (\<lambda>interactions.
     Ok \<lparr>sc_constraints = constraints, sc_interactions = interactions\<rparr>)))"

section \<open>The DAG builder\<close>

record 'f dag_builder =
  expr_to_idx :: "nat \<rightharpoonup> nat"
  node_to_idx :: "'f symbolic_expression_node \<rightharpoonup> nat"
  builder_nodes :: "'f symbolic_expression_node list"

definition dag_builder_new :: "'f dag_builder" where
  "dag_builder_new = \<lparr>expr_to_idx = Map.empty, node_to_idx = Map.empty, builder_nodes = []\<rparr>"

definition intern_node :: "'f symbolic_expression_node \<Rightarrow> 'f dag_builder \<Rightarrow> nat \<times> 'f dag_builder" where
  "intern_node node b = (case node_to_idx b node of
       Some idx \<Rightarrow> (idx, b)
     | None \<Rightarrow> (let idx = length (builder_nodes b) in
         (idx, b\<lparr>node_to_idx := (node_to_idx b)(node \<mapsto> idx), builder_nodes := builder_nodes b @ [node]\<rparr>)))"

definition is_const :: "'f dag_builder \<Rightarrow> nat \<Rightarrow> 'f \<Rightarrow> (bool, 'x) res" where
  "is_const b idx val = rbind (index (builder_nodes b) idx) (\<lambda>n. Ok (n = ConstantNode val))"

definition get_const :: "'f dag_builder \<Rightarrow> nat \<Rightarrow> ('f option, 'x) res" where
  "get_const b idx = rbind (index (builder_nodes b) idx) (\<lambda>n. Ok (case n of ConstantNode c \<Rightarrow> Some c | _ \<Rightarrow> None))"

definition get_neg_child :: "'f dag_builder \<Rightarrow> nat \<Rightarrow> (nat option, 'x) res" where
  "get_neg_child b idx = rbind (index (builder_nodes b) idx) (\<lambda>n. Ok (case n of NegNode i _ \<Rightarrow> Some i | _ \<Rightarrow> None))"

text \<open>The simplifications at an inner node, once its children have been added.\<close>

definition simplify_add :: "nat \<Rightarrow> nat \<Rightarrow> nat \<Rightarrow> 'f::field dag_builder \<Rightarrow> (nat \<times> 'f dag_builder, 'x) res" where
  "simplify_add l r d b =
     rbind (get_const b l) (\<lambda>ca. rbind (get_const b r) (\<lambda>cb.
     case (ca, cb) of
       (Some x, Some y) \<Rightarrow> Ok (intern_node (ConstantNode (x + y)) b)
     | _ \<Rightarrow> rbind (is_const b l 0) (\<lambda>l0. if l0 then Ok (r, b)
         else rbind (is_const b r 0) (\<lambda>r0. if r0 then Ok (l, b)
         else rbind (get_neg_child b r) (\<lambda>nc. case nc of
             Some i \<Rightarrow> Ok (intern_node (SubNode l i d) b)
           | None \<Rightarrow> Ok (intern_node (AddNode l r d) b))))))"

definition simplify_sub :: "nat \<Rightarrow> nat \<Rightarrow> nat \<Rightarrow> 'f::field dag_builder \<Rightarrow> (nat \<times> 'f dag_builder, 'x) res" where
  "simplify_sub l r d b =
     rbind (get_const b l) (\<lambda>ca. rbind (get_const b r) (\<lambda>cb.
     case (ca, cb) of
       (Some x, Some y) \<Rightarrow> Ok (intern_node (ConstantNode (x - y)) b)
     | _ \<Rightarrow> rbind (is_const b r 0) (\<lambda>r0. if r0 then Ok (l, b)
         else rbind (get_neg_child b r) (\<lambda>nc. case nc of
             Some i \<Rightarrow> Ok (intern_node (AddNode l i d) b)
           | None \<Rightarrow> Ok (intern_node (SubNode l r d) b)))))"

definition simplify_neg :: "nat \<Rightarrow> nat \<Rightarrow> 'f::field dag_builder \<Rightarrow> (nat \<times> 'f dag_builder, 'x) res" where
  "simplify_neg i d b =
     rbind (get_const b i) (\<lambda>c. case c of
       Some x \<Rightarrow> Ok (intern_node (ConstantNode (- x)) b)
     | None \<Rightarrow> Ok (intern_node (NegNode i d) b))"

definition simplify_mul :: "nat \<Rightarrow> nat \<Rightarrow> nat \<Rightarrow> 'f::field dag_builder \<Rightarrow> (nat \<times> 'f dag_builder, 'x) res" where
  "simplify_mul l r d b =
     rbind (get_const b l) (\<lambda>ca. rbind (get_const b r) (\<lambda>cb.
     case (ca, cb) of
       (Some x, Some y) \<Rightarrow> Ok (intern_node (ConstantNode (x * y)) b)
     | _ \<Rightarrow> rbind (is_const b l 0) (\<lambda>l0. rbind (is_const b r 1) (\<lambda>r1. if l0 \<or> r1 then Ok (l, b)
         else rbind (is_const b r 0) (\<lambda>r0. rbind (is_const b l 1) (\<lambda>l1. if r0 \<or> l1 then Ok (r, b)
         else Ok (intern_node (MulNode l r d) b)))))))"

fun add_expr :: "nat \<Rightarrow> 'f::field symbolic_expression \<Rightarrow> 'f dag_builder \<Rightarrow> (nat \<times> 'f dag_builder, 'x) res" where
  "add_expr ptr expr b = (case expr_to_idx b ptr of Some idx \<Rightarrow> Ok (idx, b) | None \<Rightarrow>
     rbind (case expr of
         Variable var \<Rightarrow> Ok (intern_node (VariableNode var) b)
       | IsFirstRow \<Rightarrow> Ok (intern_node IsFirstRowNode b)
       | IsLastRow \<Rightarrow> Ok (intern_node IsLastRowNode b)
       | IsTransition \<Rightarrow> Ok (intern_node IsTransitionNode b)
       | Constant c \<Rightarrow> Ok (intern_node (ConstantNode c) b)
       | Add p x q y d \<Rightarrow> rbind (add_expr p x b) (\<lambda>(l, b). rbind (add_expr q y b) (\<lambda>(r, b). simplify_add l r d b))
       | Sub p x q y d \<Rightarrow> rbind (add_expr p x b) (\<lambda>(l, b). rbind (add_expr q y b) (\<lambda>(r, b). simplify_sub l r d b))
       | Neg p x d \<Rightarrow> rbind (add_expr p x b) (\<lambda>(i, b). simplify_neg i d b)
       | Mul p x q y d \<Rightarrow> rbind (add_expr p x b) (\<lambda>(l, b). rbind (add_expr q y b) (\<lambda>(r, b). simplify_mul l r d b)))
     (\<lambda>(idx, b). Ok (idx, b\<lparr>expr_to_idx := (expr_to_idx b)(ptr \<mapsto> idx)\<rparr>)))"

declare add_expr.simps [simp del]

text \<open>A slice of expressions: each element with its address.\<close>

fun add_exprs :: "(nat \<times> 'f::field symbolic_expression) list \<Rightarrow> 'f dag_builder \<Rightarrow> (nat list \<times> 'f dag_builder, 'x) res" where
  "add_exprs [] b = Ok ([], b)"
| "add_exprs ((p, e) # es) b = rbind (add_expr p e b) (\<lambda>(i, b). rbind (add_exprs es b) (\<lambda>(is, b). Ok (i # is, b)))"

definition add_interaction ::
  "(nat \<times> 'f::field symbolic_expression) interaction \<Rightarrow> 'f dag_builder \<Rightarrow> (nat interaction \<times> 'f dag_builder, 'x) res" where
  "add_interaction i b =
     rbind (add_exprs (message i) b) (\<lambda>(fields, b).
     rbind (add_expr (fst (count i)) (snd (count i)) b) (\<lambda>(c, b).
     Ok (\<lparr>message = fields, count = c, bus_index = bus_index i, count_weight = count_weight i\<rparr>, b)))"

fun add_interactions ::
  "(nat \<times> 'f::field symbolic_expression) interaction list \<Rightarrow> 'f dag_builder \<Rightarrow> (nat interaction list \<times> 'f dag_builder, 'x) res" where
  "add_interactions [] b = Ok ([], b)"
| "add_interactions (i # is) b =
     rbind (add_interaction i b) (\<lambda>(j, b). rbind (add_interactions is b) (\<lambda>(js, b). Ok (j # js, b)))"

definition build_symbolic_constraints_dag ::
  "(nat \<times> 'f::field symbolic_expression) list \<Rightarrow> (nat \<times> 'f symbolic_expression) interaction list
   \<Rightarrow> ('f symbolic_constraints_dag, 'x) res" where
  "build_symbolic_constraints_dag constraints interactions =
     rbind (add_exprs constraints dag_builder_new) (\<lambda>(idxs, b).
     let idxs = remdups_adj (sort idxs) in
     rbind (add_interactions interactions b) (\<lambda>(ints, b).
     Ok \<lparr>dag_constraints = \<lparr>dag_nodes = builder_nodes b, constraint_idx = idxs\<rparr>, dag_interactions = ints\<rparr>))"

end
