(* ===== verification/SymbolicDag.thy ===== *)
theory SymbolicDag
  imports Symbolic SmallField
begin

text \<open>
  Correctness of the DAG builder: deduplication, the address cache and the algebraic
  simplifications keep the values of all expressions, the nodes are in topological order
  and no lookup fails. Expressions rebuilt from a DAG have the values of its nodes.
\<close>

section \<open>Evaluating a list of nodes\<close>

lemma eval_nodes_snoc:
  "eval_nodes ev (ns @ [n]) = rbind (eval_nodes ev ns) (\<lambda>vs. rbind (eval_node ev vs n) (\<lambda>v. Ok (vs @ [v])))"
  unfolding eval_nodes_def rfold_append by (rule rbind_cong) (auto simp: rbind_assoc intro!: rbind_cong)

lemma eval_nodes_Nil [simp]: "eval_nodes ev [] = Ok []"
  by (simp add: eval_nodes_def)

lemma eval_nodes_length: "eval_nodes ev ns = Ok vs \<Longrightarrow> length vs = length ns"
proof (induction ns arbitrary: vs rule: rev_induct)
  case (snoc n ns)
  then show ?case by (auto simp: eval_nodes_snoc res_simps)
qed (auto simp: eval_nodes_def)

text \<open>A node that can be evaluated keeps its value when more values are appended.\<close>

lemma eval_node_append: "eval_node ev vs n = Ok v \<Longrightarrow> eval_node ev (vs @ ws) n = Ok v"
  by (cases n) (auto simp: res_simps nth_append)

lemma eval_nodes_nth:
  "eval_nodes ev ns = (Ok vs :: (_, 'x) res) \<Longrightarrow> i < length ns \<Longrightarrow> eval_node ev vs (ns ! i) = (Ok (vs ! i) :: (_, 'x) res)"
proof (induction ns arbitrary: vs rule: rev_induct)
  case (snoc n ns)
  then obtain us v where vs: "eval_nodes ev ns = (Ok us :: (_, 'x) res)" "eval_node ev us n = (Ok v :: (_, 'x) res)" "vs = us @ [v]"
    by (auto simp: eval_nodes_snoc res_simps)
  have len: "length us = length ns" using eval_nodes_length [OF vs(1)] .
  show ?case
  proof (cases "i < length ns")
    case True
    with snoc.IH [OF vs(1)] have "eval_node ev us (ns ! i) = (Ok (us ! i) :: (_, 'x) res)" by blast
    from eval_node_append [OF this, of "[v]"] True len show ?thesis by (simp add: nth_append vs(3))
  next
    case False
    with snoc.prems(2) have "i = length ns" by simp
    with eval_node_append [OF vs(2), of "[v]"] len show ?thesis by (simp add: nth_append vs(3))
  qed
qed simp

text \<open>Topological order: the children of a node come before it.\<close>

fun node_children :: "'f symbolic_expression_node \<Rightarrow> nat list" where
  "node_children (AddNode l r _) = [l, r]"
| "node_children (SubNode l r _) = [l, r]"
| "node_children (NegNode i _) = [i]"
| "node_children (MulNode l r _) = [l, r]"
| "node_children _ = []"

definition topological :: "'f symbolic_expression_node list \<Rightarrow> bool" where
  "topological ns \<longleftrightarrow> (\<forall>i < length ns. \<forall>c \<in> set (node_children (ns ! i)). c < i)"

lemma topological_snoc: "topological (ns @ [n]) \<longleftrightarrow> topological ns \<and> (\<forall>c \<in> set (node_children n). c < length ns)"
  by (auto simp: topological_def nth_append less_Suc_eq)

section \<open>The invariant of the builder\<close>

text \<open>
  \<open>heap p e\<close> says that the expression \<open>e\<close> lives at the address \<open>p\<close> of the memory \<open>\<sigma>\<close>; it is the
  only fact about addresses that the cache needs.
\<close>

fun in_heap :: "(nat \<rightharpoonup> 'f symbolic_expression) \<Rightarrow> nat \<Rightarrow> 'f symbolic_expression \<Rightarrow> bool" where
  "in_heap \<sigma> p (Add q x r y d) = (\<sigma> p = Some (Add q x r y d) \<and> in_heap \<sigma> q x \<and> in_heap \<sigma> r y)"
| "in_heap \<sigma> p (Sub q x r y d) = (\<sigma> p = Some (Sub q x r y d) \<and> in_heap \<sigma> q x \<and> in_heap \<sigma> r y)"
| "in_heap \<sigma> p (Neg q x d) = (\<sigma> p = Some (Neg q x d) \<and> in_heap \<sigma> q x)"
| "in_heap \<sigma> p (Mul q x r y d) = (\<sigma> p = Some (Mul q x r y d) \<and> in_heap \<sigma> q x \<and> in_heap \<sigma> r y)"
| "in_heap \<sigma> p e = (\<sigma> p = Some e)"

lemma in_heap_at: "in_heap \<sigma> p e \<Longrightarrow> \<sigma> p = Some e"
  by (cases e) auto

text \<open>The constants of the evaluator form a ring homomorphism.\<close>

definition const_hom :: "('f::field, 'e::comm_ring_1) symbolic_evaluator \<Rightarrow> bool" where
  "const_hom ev \<longleftrightarrow> eval_const ev 0 = 0 \<and> eval_const ev 1 = 1 \<and>
     (\<forall>a b. eval_const ev (a + b) = eval_const ev a + eval_const ev b) \<and>
     (\<forall>a b. eval_const ev (a - b) = eval_const ev a - eval_const ev b) \<and>
     (\<forall>a b. eval_const ev (a * b) = eval_const ev a * eval_const ev b) \<and>
     (\<forall>a. eval_const ev (- a) = - eval_const ev a)"

definition builder_inv ::
  "('f::field, 'e::comm_ring_1) symbolic_evaluator \<Rightarrow> (nat \<rightharpoonup> 'f symbolic_expression) \<Rightarrow> 'f dag_builder \<Rightarrow> 'e list \<Rightarrow> bool" where
  "builder_inv ev \<sigma> b vs \<longleftrightarrow>
     eval_nodes ev (builder_nodes b) = (Ok vs :: (_, unit) res) \<and> topological (builder_nodes b) \<and> distinct (builder_nodes b) \<and>
     (\<forall>n i. node_to_idx b n = Some i \<longleftrightarrow> i < length (builder_nodes b) \<and> builder_nodes b ! i = n) \<and>
     (\<forall>p i. expr_to_idx b p = Some i \<longrightarrow> i < length (builder_nodes b) \<and>
        (\<exists>e. \<sigma> p = Some e \<and> eval_expr ev e = (Ok (vs ! i) :: (_, unit) res)))"

definition extends :: "'a list \<Rightarrow> 'a list \<Rightarrow> bool" where
  "extends xs ys \<longleftrightarrow> (\<exists>zs. ys = xs @ zs)"

lemma extends_refl [simp]: "extends xs xs"
  by (simp add: extends_def)

lemma extends_trans: "extends xs ys \<Longrightarrow> extends ys zs \<Longrightarrow> extends xs zs"
  by (auto simp: extends_def)

lemma extends_nth: "extends xs ys \<Longrightarrow> i < length xs \<Longrightarrow> i < length ys \<and> ys ! i = xs ! i"
  by (auto simp: extends_def nth_append)

lemma builder_inv_length: "builder_inv ev \<sigma> b vs \<Longrightarrow> length (builder_nodes b) = length vs"
  by (auto simp: builder_inv_def dest: eval_nodes_length)

lemma builder_inv_new: "builder_inv ev \<sigma> dag_builder_new []"
  by (simp add: builder_inv_def dag_builder_new_def topological_def)

lemma builder_inv_node:
  "builder_inv ev \<sigma> b vs \<Longrightarrow> i < length vs \<Longrightarrow> eval_node ev vs (builder_nodes b ! i) = (Ok (vs ! i) :: (_, unit) res)"
proof -
  assume inv: "builder_inv ev \<sigma> b vs" and i: "i < length vs"
  from inv have "eval_nodes ev (builder_nodes b) = (Ok vs :: (_, unit) res)" by (simp add: builder_inv_def)
  from eval_nodes_nth [OF this] i builder_inv_length [OF inv] show ?thesis by simp
qed

text \<open>Interning a node whose value is known.\<close>

lemma intern_node_inv:
  assumes "builder_inv ev \<sigma> b vs" and "eval_node ev vs n = (Ok v :: (_, unit) res)"
    and "\<forall>c \<in> set (node_children n). c < length vs" and "intern_node n b = (i, b')"
  shows "\<exists>vs'. builder_inv ev \<sigma> b' vs' \<and> extends vs vs' \<and> i < length vs' \<and> vs' ! i = v \<and> expr_to_idx b' = expr_to_idx b"
proof (cases "node_to_idx b n")
  case None
  then have b': "i = length (builder_nodes b)"
    "b' = b\<lparr>node_to_idx := (node_to_idx b)(n \<mapsto> length (builder_nodes b)), builder_nodes := builder_nodes b @ [n]\<rparr>"
    using assms(4) by (auto simp: intern_node_def Let_def)
  have len: "length (builder_nodes b) = length vs" using builder_inv_length [OF assms(1)] .
  have fresh: "n \<notin> set (builder_nodes b)"
    using None assms(1) unfolding builder_inv_def in_set_conv_nth by (metis option.distinct(1))
  have inv: "eval_nodes ev (builder_nodes b) = (Ok vs :: (_, unit) res)" "topological (builder_nodes b)" "distinct (builder_nodes b)"
    "\<And>m k. node_to_idx b m = Some k \<longleftrightarrow> k < length (builder_nodes b) \<and> builder_nodes b ! k = m"
    "\<And>p k. expr_to_idx b p = Some k \<Longrightarrow> k < length (builder_nodes b) \<and>
        (\<exists>e. \<sigma> p = Some e \<and> eval_expr ev e = (Ok (vs ! k) :: (_, unit) res))"
    using assms(1) unfolding builder_inv_def by blast+
  have nodes: "eval_nodes ev (builder_nodes b @ [n]) = (Ok (vs @ [v]) :: (_, unit) res)"
    unfolding eval_nodes_snoc inv(1) by (simp add: assms(2))
  have map: "((node_to_idx b)(n \<mapsto> length (builder_nodes b))) m = Some k \<longleftrightarrow>
      k < Suc (length (builder_nodes b)) \<and> (builder_nodes b @ [n]) ! k = m" for m k
    using inv(4) [of m k] fresh by (auto simp: nth_append less_Suc_eq)
  have cache: "k < Suc (length (builder_nodes b)) \<and> (\<exists>e. \<sigma> p = Some e \<and> eval_expr ev e = (Ok ((vs @ [v]) ! k) :: (_, unit) res))"
    if "expr_to_idx b p = Some k" for p k
    using inv(5) [OF that] len by (auto simp: nth_append)
  have topo: "topological (builder_nodes b @ [n])" using inv(2) assms(3) len by (simp add: topological_snoc)
  have "builder_inv ev \<sigma> b' (vs @ [v])"
    unfolding builder_inv_def b'(2) using nodes map cache topo inv(3) fresh by simp
  with b' len show ?thesis by (intro exI [of _ "vs @ [v]"]) (auto simp: extends_def)
next
  case (Some k)
  then have k: "k < length (builder_nodes b)" "builder_nodes b ! k = n" and eqs: "i = k" "b' = b"
    using assms(1,4) by (auto simp: builder_inv_def intern_node_def)
  have len: "length (builder_nodes b) = length vs" using builder_inv_length [OF assms(1)] .
  have "eval_node ev vs n = (Ok (vs ! k) :: (_, unit) res)"
    using builder_inv_node [OF assms(1), of k] k len by simp
  with assms(1,2) k len eqs show ?thesis by auto
qed

lemma get_const_Ok: "builder_inv ev \<sigma> b vs \<Longrightarrow> i < length vs \<Longrightarrow>
    get_const b i = Ok (case builder_nodes b ! i of ConstantNode c \<Rightarrow> Some c | _ \<Rightarrow> None)"
  by (frule builder_inv_length) (simp add: get_const_def)

lemma is_const_Ok: "builder_inv ev \<sigma> b vs \<Longrightarrow> i < length vs \<Longrightarrow> is_const b i c = Ok (builder_nodes b ! i = ConstantNode c)"
  by (frule builder_inv_length) (simp add: is_const_def)

lemma get_neg_child_Ok: "builder_inv ev \<sigma> b vs \<Longrightarrow> i < length vs \<Longrightarrow>
    get_neg_child b i = Ok (case builder_nodes b ! i of NegNode k _ \<Rightarrow> Some k | _ \<Rightarrow> None)"
  by (frule builder_inv_length) (simp add: get_neg_child_def)

lemma const_value: "builder_inv ev \<sigma> b vs \<Longrightarrow> i < length vs \<Longrightarrow> builder_nodes b ! i = ConstantNode c \<Longrightarrow> vs ! i = eval_const ev c"
  using builder_inv_node [of ev \<sigma> b vs i] by simp

lemma neg_value:
  assumes "builder_inv ev \<sigma> b vs" and "i < length vs" and "builder_nodes b ! i = NegNode k d"
  shows "k < length vs \<and> vs ! i = - (vs ! k)"
  using builder_inv_node [OF assms(1,2)] assms(3) by (auto simp: res_simps)

definition added ::
  "('f::field, 'e::comm_ring_1) symbolic_evaluator \<Rightarrow> (nat \<rightharpoonup> 'f symbolic_expression) \<Rightarrow> 'f dag_builder \<Rightarrow> 'e list
   \<Rightarrow> (nat \<times> 'f dag_builder, 'x) res \<Rightarrow> 'e \<Rightarrow> bool" where
  "added ev \<sigma> b vs r v \<longleftrightarrow> (\<exists>i b' vs'. r = Ok (i, b') \<and> builder_inv ev \<sigma> b' vs' \<and> extends vs vs' \<and> i < length vs' \<and> vs' ! i = v)"

lemma added_same: "builder_inv ev \<sigma> b vs \<Longrightarrow> i < length vs \<Longrightarrow> vs ! i = v \<Longrightarrow> added ev \<sigma> b vs (Ok (i, b)) v"
  by (auto simp: added_def)

lemma added_intern:
  "builder_inv ev \<sigma> b vs \<Longrightarrow> eval_node ev vs n = (Ok v :: (_, unit) res) \<Longrightarrow> \<forall>c \<in> set (node_children n). c < length vs \<Longrightarrow>
   added ev \<sigma> b vs (Ok (intern_node n b)) v"
  using intern_node_inv [of ev \<sigma> b vs n v] unfolding added_def by (metis prod.exhaust)

lemma simplify_add_added:
  assumes "const_hom ev" and inv: "builder_inv ev \<sigma> b vs" and l: "l < length vs" and r: "r < length vs"
  shows "added ev \<sigma> b vs (simplify_add l r d b) (vs ! l + vs ! r)"
proof -
  note ok = get_const_Ok [OF inv] is_const_Ok [OF inv] get_neg_child_Ok [OF inv]
  note vals = const_value [OF inv] neg_value [OF inv]
  have z: "eval_const ev 0 = 0" "\<And>x y. eval_const ev (x + y) = eval_const ev x + eval_const ev y"
    using assms(1) by (auto simp: const_hom_def)
  show ?thesis using l r vals(1) [of l] vals(1) [of r] vals(2) [of r]
    by (auto simp: simplify_add_def ok z split: symbolic_expression_node.splits
        intro!: added_same [OF inv] added_intern [OF inv])
qed

lemma simplify_sub_added:
  assumes "const_hom ev" and inv: "builder_inv ev \<sigma> b vs" and l: "l < length vs" and r: "r < length vs"
  shows "added ev \<sigma> b vs (simplify_sub l r d b) (vs ! l - vs ! r)"
proof -
  note ok = get_const_Ok [OF inv] is_const_Ok [OF inv] get_neg_child_Ok [OF inv]
  note vals = const_value [OF inv] neg_value [OF inv]
  have z: "eval_const ev 0 = 0" "\<And>x y. eval_const ev (x - y) = eval_const ev x - eval_const ev y"
    using assms(1) by (auto simp: const_hom_def)
  show ?thesis using l r vals(1) [of l] vals(1) [of r] vals(2) [of r]
    by (auto simp: simplify_sub_def ok z split: symbolic_expression_node.splits
        intro!: added_same [OF inv] added_intern [OF inv])
qed

lemma simplify_neg_added:
  assumes "const_hom ev" and inv: "builder_inv ev \<sigma> b vs" and i: "i < length vs"
  shows "added ev \<sigma> b vs (simplify_neg i d b) (- (vs ! i))"
proof -
  have z: "\<And>x. eval_const ev (- x) = - eval_const ev x" using assms(1) by (auto simp: const_hom_def)
  show ?thesis using i const_value [OF inv, of i]
    by (auto simp: simplify_neg_def get_const_Ok [OF inv] z split: symbolic_expression_node.splits
        intro!: added_intern [OF inv])
qed

lemma simplify_mul_added:
  assumes "const_hom ev" and inv: "builder_inv ev \<sigma> b vs" and l: "l < length vs" and r: "r < length vs"
  shows "added ev \<sigma> b vs (simplify_mul l r d b) (vs ! l * vs ! r)"
proof -
  note ok = get_const_Ok [OF inv] is_const_Ok [OF inv]
  have z: "eval_const ev 0 = 0" "eval_const ev 1 = 1" "\<And>x y. eval_const ev (x * y) = eval_const ev x * eval_const ev y"
    using assms(1) by (auto simp: const_hom_def)
  show ?thesis using l r const_value [OF inv, of l] const_value [OF inv, of r]
    by (auto simp: simplify_mul_def ok z split: symbolic_expression_node.splits
        intro!: added_same [OF inv] added_intern [OF inv])
qed

section \<open>Adding expressions\<close>

lemma addedE:
  assumes "added ev \<sigma> b vs r v"
  obtains i b' vs' where "r = Ok (i, b')" and "builder_inv ev \<sigma> b' vs'" and "extends vs vs'" and "i < length vs'" and "vs' ! i = v"
  using assms by (auto simp: added_def)

lemma added_bind2:
  assumes "added ev \<sigma> b vs r1 x" and "\<And>b vs. builder_inv ev \<sigma> b vs \<Longrightarrow> added ev \<sigma> b vs (r2 b) y"
    and "\<And>b vs l r. builder_inv ev \<sigma> b vs \<Longrightarrow> l < length vs \<Longrightarrow> r < length vs \<Longrightarrow> added ev \<sigma> b vs (f l r b) (g (vs ! l) (vs ! r))"
  shows "added ev \<sigma> b vs (rbind r1 (\<lambda>(l, b). rbind (r2 b) (\<lambda>(r, b). f l r b))) (g x y)"
proof -
  from assms(1) obtain l b1 vs1 where 1: "r1 = Ok (l, b1)" "builder_inv ev \<sigma> b1 vs1" "extends vs vs1" "l < length vs1" "vs1 ! l = x"
    by (rule addedE)
  from assms(2) [OF 1(2)] obtain r b2 vs2 where 2: "r2 b1 = Ok (r, b2)" "builder_inv ev \<sigma> b2 vs2" "extends vs1 vs2"
    "r < length vs2" "vs2 ! r = y" by (rule addedE)
  have l: "l < length vs2" "vs2 ! l = x" using extends_nth [OF 2(3) 1(4)] 1(5) by auto
  from assms(3) [OF 2(2) l(1) 2(4)] obtain i b3 vs3 where 3: "f l r b2 = Ok (i, b3)" "builder_inv ev \<sigma> b3 vs3"
    "extends vs2 vs3" "i < length vs3" "vs3 ! i = g x y" using l(2) 2(5) by (auto elim: addedE)
  show ?thesis using 1 2 3 extends_trans unfolding added_def by (auto intro!: extends_trans [OF 1(3)] extends_trans [OF 2(3)])
qed

lemma added_cache:
  assumes "added ev \<sigma> b vs r v" and "\<sigma> p = Some e" and "eval_expr ev e = (Ok v :: (_, unit) res)"
  shows "added ev \<sigma> b vs (rbind r (\<lambda>(idx, b). Ok (idx, b\<lparr>expr_to_idx := (expr_to_idx b)(p \<mapsto> idx)\<rparr>))) v"
proof -
  from assms(1) obtain i b' vs' where 1: "r = Ok (i, b')" "builder_inv ev \<sigma> b' vs'" "extends vs vs'" "i < length vs'" "vs' ! i = v"
    by (rule addedE)
  have "builder_inv ev \<sigma> (b'\<lparr>expr_to_idx := (expr_to_idx b')(p \<mapsto> i)\<rparr>) vs'"
    using 1(2,4,5) assms(2,3) builder_inv_length [OF 1(2)] by (auto simp: builder_inv_def)
  with 1 show ?thesis by (auto simp: added_def)
qed

lemma added_cache_Ok:
  assumes "added ev \<sigma> b vs (Ok z :: (_, 'x) res) v" and "\<sigma> p = Some e" and "eval_expr ev e = (Ok v :: (_, unit) res)"
  shows "added ev \<sigma> b vs ((case z of (idx, b) \<Rightarrow> Ok (idx, b\<lparr>expr_to_idx := (expr_to_idx b)(p \<mapsto> idx)\<rparr>)) :: (_, 'x) res) v"
  using added_cache [OF assms] by simp

lemma cached_added:
  assumes "builder_inv ev \<sigma> b vs" and "expr_to_idx b p = Some i" and "\<sigma> p = Some e" and "eval_expr ev e = (Ok v :: (_, unit) res)"
  shows "added ev \<sigma> b vs (Ok (i, b)) v"
proof -
  from assms(1,2) have "i < length (builder_nodes b) \<and> (\<exists>e. \<sigma> p = Some e \<and> eval_expr ev e = (Ok (vs ! i) :: (_, unit) res))"
    unfolding builder_inv_def by blast
  with assms builder_inv_length [OF assms(1)] show ?thesis by (auto intro: added_same)
qed

lemma add_expr_added:
  assumes "const_hom ev"
  shows "in_heap \<sigma> p e \<Longrightarrow> builder_inv ev \<sigma> b vs \<Longrightarrow> eval_expr ev e = (Ok v :: (_, unit) res) \<Longrightarrow>
    added ev \<sigma> b vs (add_expr p e b :: (_, 'x) res) v"
proof (induction e arbitrary: p b vs v)
  case (Add q x r y d)
  from Add.prems(3) obtain a c where ac: "eval_expr ev x = (Ok a :: (_, unit) res)" "eval_expr ev y = (Ok c :: (_, unit) res)" "v = a + c"
    by (auto simp: res_simps)
  have "added ev \<sigma> b vs (rbind (add_expr q x b) (\<lambda>(l, b). rbind (add_expr r y b) (\<lambda>(r, b). simplify_add l r d b)) :: (_, 'x) res) (a + c)"
    by (rule added_bind2 [where g = plus]) (use Add ac assms in \<open>auto intro: simplify_add_added\<close>)
  with Add.prems ac show ?case
    by (subst add_expr.simps) (auto split: option.split intro: cached_added added_cache)
next
  case (Sub q x r y d)
  from Sub.prems(3) obtain a c where ac: "eval_expr ev x = (Ok a :: (_, unit) res)" "eval_expr ev y = (Ok c :: (_, unit) res)" "v = a - c"
    by (auto simp: res_simps)
  have "added ev \<sigma> b vs (rbind (add_expr q x b) (\<lambda>(l, b). rbind (add_expr r y b) (\<lambda>(r, b). simplify_sub l r d b)) :: (_, 'x) res) (a - c)"
    by (rule added_bind2 [where g = minus]) (use Sub ac assms in \<open>auto intro: simplify_sub_added\<close>)
  with Sub.prems ac show ?case
    by (subst add_expr.simps) (auto split: option.split intro: cached_added added_cache)
next
  case (Mul q x r y d)
  from Mul.prems(3) obtain a c where ac: "eval_expr ev x = (Ok a :: (_, unit) res)" "eval_expr ev y = (Ok c :: (_, unit) res)" "v = a * c"
    by (auto simp: res_simps)
  have "added ev \<sigma> b vs (rbind (add_expr q x b) (\<lambda>(l, b). rbind (add_expr r y b) (\<lambda>(r, b). simplify_mul l r d b)) :: (_, 'x) res) (a * c)"
    by (rule added_bind2 [where g = times]) (use Mul ac assms in \<open>auto intro: simplify_mul_added\<close>)
  with Mul.prems ac show ?case
    by (subst add_expr.simps) (auto split: option.split intro: cached_added added_cache)
next
  case (Neg q x d)
  from Neg.prems(3) obtain a where a: "eval_expr ev x = (Ok a :: (_, unit) res)" "v = - a" by (auto simp: res_simps)
  have "added ev \<sigma> b vs (add_expr q x b :: (_, 'x) res) a" by (rule Neg.IH) (use Neg.prems a in auto)
  then obtain i b' vs' where 1: "add_expr q x b = (Ok (i, b') :: (_, 'x) res)" "builder_inv ev \<sigma> b' vs'" "extends vs vs'" "i < length vs'" "vs' ! i = a"
    by (rule addedE)
  from simplify_neg_added [OF assms 1(2,4), of d] 1 have
    "added ev \<sigma> b vs (rbind (add_expr q x b) (\<lambda>(i, b). simplify_neg i d b) :: (_, 'x) res) (- a)"
    by (auto simp: added_def intro: extends_trans)
  with Neg.prems a show ?case
    by (subst add_expr.simps) (auto split: option.split intro: cached_added added_cache)
next
  case (Variable var)
  have "eval_node ev vs (VariableNode var) = (Ok v :: (_, unit) res)" using Variable.prems(3) by simp
  with added_intern [OF Variable.prems(2) this] Variable.prems show ?case
    by (subst add_expr.simps) (auto split: option.split intro: cached_added added_cache_Ok)
next
  case IsFirstRow
  have "eval_node ev vs IsFirstRowNode = (Ok v :: (_, unit) res)" using IsFirstRow.prems(3) by simp
  with added_intern [OF IsFirstRow.prems(2) this] IsFirstRow.prems show ?case
    by (subst add_expr.simps) (auto split: option.split intro: cached_added added_cache_Ok)
next
  case IsLastRow
  have "eval_node ev vs IsLastRowNode = (Ok v :: (_, unit) res)" using IsLastRow.prems(3) by simp
  with added_intern [OF IsLastRow.prems(2) this] IsLastRow.prems show ?case
    by (subst add_expr.simps) (auto split: option.split intro: cached_added added_cache_Ok)
next
  case IsTransition
  have "eval_node ev vs IsTransitionNode = (Ok v :: (_, unit) res)" using IsTransition.prems(3) by simp
  with added_intern [OF IsTransition.prems(2) this] IsTransition.prems show ?case
    by (subst add_expr.simps) (auto split: option.split intro: cached_added added_cache_Ok)
next
  case (Constant c)
  have "eval_node ev vs (ConstantNode c) = (Ok v :: (_, unit) res)" using Constant.prems(3) by simp
  with added_intern [OF Constant.prems(2) this] Constant.prems show ?case
    by (subst add_expr.simps) (auto split: option.split intro: cached_added added_cache_Ok)
qed

text \<open>Lists of expressions and interactions.\<close>

definition values_at :: "'e list \<Rightarrow> nat list \<Rightarrow> 'e list \<Rightarrow> bool" where
  "values_at vs is xs \<longleftrightarrow> list_all2 (\<lambda>i x. i < length vs \<and> vs ! i = x) is xs"

lemma values_at_extends: "values_at vs is xs \<Longrightarrow> extends vs vs' \<Longrightarrow> values_at vs' is xs"
  unfolding values_at_def by (erule list_all2_mono) (auto dest: extends_nth)

lemma add_exprs_values:
  assumes "const_hom ev"
  shows "\<forall>(p, e) \<in> set es. in_heap \<sigma> p e \<Longrightarrow> rmap (\<lambda>(p, e). eval_expr ev e) es = (Ok xs :: (_, unit) res) \<Longrightarrow>
    builder_inv ev \<sigma> b vs \<Longrightarrow>
    \<exists>is b' vs'. add_exprs es b = (Ok (is, b') :: (_, 'x) res) \<and> builder_inv ev \<sigma> b' vs' \<and> extends vs vs' \<and> values_at vs' is xs"
proof (induction es arbitrary: b vs xs)
  case Nil
  then show ?case by (auto simp: values_at_def)
next
  case (Cons pe es)
  obtain p e where pe: "pe = (p, e)" by fastforce
  from Cons.prems(2) obtain x ys where x: "eval_expr ev e = (Ok x :: (_, unit) res)"
    "rmap (\<lambda>(p, e). eval_expr ev e) es = (Ok ys :: (_, unit) res)" "xs = x # ys" by (auto simp: pe res_simps)
  have "in_heap \<sigma> p e" using Cons.prems(1) by (auto simp: pe)
  from add_expr_added [OF assms this Cons.prems(3) x(1)]
  obtain i b1 vs1 where 1: "add_expr p e b = (Ok (i, b1) :: (_, 'x) res)" "builder_inv ev \<sigma> b1 vs1" "extends vs vs1"
    "i < length vs1" "vs1 ! i = x" by (rule addedE)
  from Cons.IH [OF _ x(2) 1(2)] Cons.prems(1) obtain js b2 vs2 where 2: "add_exprs es b1 = (Ok (js, b2) :: (_, 'x) res)"
    "builder_inv ev \<sigma> b2 vs2" "extends vs1 vs2" "values_at vs2 js ys" by auto
  have "values_at vs2 (i # js) xs" using 2(4) extends_nth [OF 2(3) 1(4)] 1(5) by (simp add: values_at_def x(3))
  with 1 2 show ?case by (auto simp: pe intro: extends_trans)
qed

definition eval_interaction ::
  "('f, 'e::comm_ring_1) symbolic_evaluator \<Rightarrow> (nat \<times> 'f symbolic_expression) interaction \<Rightarrow> ('e list \<times> 'e, unit) res" where
  "eval_interaction ev i = rbind (rmap (\<lambda>(p, e). eval_expr ev e) (message i)) (\<lambda>xs.
     rbind (eval_expr ev (snd (count i))) (\<lambda>c. Ok (xs, c)))"

definition interaction_at :: "'e list \<Rightarrow> (nat \<times> 'f symbolic_expression) interaction \<Rightarrow> nat interaction \<Rightarrow> 'e list \<times> 'e \<Rightarrow> bool" where
  "interaction_at vs i j xc \<longleftrightarrow> values_at vs (message j) (fst xc) \<and> values_at vs [count j] [snd xc] \<and>
     bus_index j = bus_index i \<and> count_weight j = count_weight i"

lemma add_interactions_values:
  assumes "const_hom ev"
  shows "\<forall>i \<in> set is. \<forall>(p, e) \<in> set (count i # message i). in_heap \<sigma> p e \<Longrightarrow>
    rmap (eval_interaction ev) is = Ok xs \<Longrightarrow> builder_inv ev \<sigma> b vs \<Longrightarrow>
    \<exists>js b' vs'. add_interactions is b = (Ok (js, b') :: (_, 'x) res) \<and> builder_inv ev \<sigma> b' vs' \<and> extends vs vs' \<and>
      length js = length is \<and> length xs = length is \<and>
      (\<forall>k < length is. interaction_at vs' (is ! k) (js ! k) (xs ! k))"
proof (induction "is" arbitrary: b vs xs)
  case Nil
  then show ?case by auto
next
  case (Cons i "is")
  obtain p e where c: "count i = (p, e)" by fastforce
  from Cons.prems(2) obtain xc ys where xc: "eval_interaction ev i = Ok xc" "rmap (eval_interaction ev) is = Ok ys" "xs = xc # ys"
    by (auto simp: res_simps)
  from xc(1) obtain ms cv where mc: "rmap (\<lambda>(p, e). eval_expr ev e) (message i) = (Ok ms :: (_, unit) res)"
    "eval_expr ev e = (Ok cv :: (_, unit) res)" "xc = (ms, cv)" by (auto simp: res_simps eval_interaction_def c)
  note i = mc(1,2) xc(2) xc(3) [unfolded mc(3)]
  have heap: "\<forall>(p, e) \<in> set (message i). in_heap \<sigma> p e" "in_heap \<sigma> p e"
    "\<forall>i \<in> set is. \<forall>(p, e) \<in> set (count i # message i). in_heap \<sigma> p e" using Cons.prems(1) by (auto simp: c)
  from add_exprs_values [OF assms heap(1) i(1) Cons.prems(3)] obtain fs b1 vs1 where 1:
    "add_exprs (message i) b = (Ok (fs, b1) :: (_, 'x) res)" "builder_inv ev \<sigma> b1 vs1" "extends vs vs1" "values_at vs1 fs ms" by blast
  from add_expr_added [OF assms heap(2) 1(2) i(2)] obtain k b2 vs2 where 2: "add_expr p e b1 = (Ok (k, b2) :: (_, 'x) res)"
    "builder_inv ev \<sigma> b2 vs2" "extends vs1 vs2" "k < length vs2" "vs2 ! k = cv" by (rule addedE)
  from Cons.IH [OF heap(3) i(3) 2(2)] obtain js b3 vs3 where 3: "add_interactions is b2 = (Ok (js, b3) :: (_, 'x) res)"
    "builder_inv ev \<sigma> b3 vs3" "extends vs2 vs3" "length js = length is" "length ys = length is"
    "\<forall>k < length is. interaction_at vs3 (is ! k) (js ! k) (ys ! k)" by blast
  let ?j = "\<lparr>message = fs, count = k, bus_index = bus_index i, count_weight = count_weight i\<rparr>"
  have "values_at vs3 fs ms" using 1(4) 2(3) 3(3) by (blast intro: values_at_extends)
  moreover have "values_at vs3 [k] [cv]" using extends_nth [OF 3(3) 2(4)] 2(5) by (simp add: values_at_def)
  ultimately have "interaction_at vs3 i ?j (ms, cv)" by (simp add: interaction_at_def)
  then have "\<forall>k < length (i # is). interaction_at vs3 ((i # is) ! k) ((?j # js) ! k) (xs ! k)"
    using 3(6) by (auto simp: i(4) nth_Cons split: nat.split)
  moreover have "add_interactions (i # is) b = (Ok (?j # js, b3) :: (_, 'x) res)"
    using 1(1) 2(1) 3(1) by (simp add: add_interaction_def c)
  moreover have "extends vs vs3" using 1(3) 2(3) 3(3) by (blast intro: extends_trans)
  moreover have "length (?j # js) = length (i # is)" "length xs = length (i # is)" using 3(4,5) i(4) by simp_all
  ultimately show ?case using 3(2) by blast
qed

section \<open>Expressions rebuilt from a DAG\<close>

lemma rebuild_snoc:
  "to_symbolic_expressions \<lparr>dag_nodes = ns @ [n], constraint_idx = cs\<rparr> =
     rbind (to_symbolic_expressions \<lparr>dag_nodes = ns, constraint_idx = cs'\<rparr>) (\<lambda>es. rbind (node_expr es n) (\<lambda>e. Ok (es @ [e])))"
  unfolding to_symbolic_expressions_def symbolic_expression_dag.simps rfold_append
  by (rule rbind_cong) (auto simp: rbind_assoc intro!: rbind_cong)

lemma node_expr_value:
  assumes "eval_node ev vs n = (Ok v :: (_, unit) res)" and "length es = length vs"
    and "\<forall>i < length vs. eval_expr ev (es ! i) = (Ok (vs ! i) :: (_, unit) res)"
  shows "\<exists>e. node_expr es n = (Ok e :: (_, 'x) res) \<and> eval_expr ev e = (Ok v :: (_, unit) res)"
  using assms by (cases n) (auto simp: res_simps)

lemma rebuild_values:
  "eval_nodes ev ns = (Ok vs :: (_, unit) res) \<Longrightarrow>
   \<exists>es. to_symbolic_expressions \<lparr>dag_nodes = ns, constraint_idx = cs\<rparr> = (Ok es :: (_, 'x) res) \<and> length es = length vs \<and>
     (\<forall>i < length vs. eval_expr ev (es ! i) = (Ok (vs ! i) :: (_, unit) res))"
proof (induction ns arbitrary: vs rule: rev_induct)
  case Nil
  then show ?case by (simp add: to_symbolic_expressions_def)
next
  case (snoc n ns)
  from snoc.prems obtain us v where vs: "eval_nodes ev ns = (Ok us :: (_, unit) res)" "eval_node ev us n = (Ok v :: (_, unit) res)"
    "vs = us @ [v]" by (auto simp: eval_nodes_snoc res_simps)
  from snoc.IH [OF vs(1)] obtain es where es: "to_symbolic_expressions \<lparr>dag_nodes = ns, constraint_idx = cs\<rparr> = (Ok es :: (_, 'x) res)"
    "length es = length us" "\<forall>i < length us. eval_expr ev (es ! i) = (Ok (us ! i) :: (_, unit) res)" by blast
  from node_expr_value [OF vs(2) es(2,3)] obtain e where e: "node_expr es n = (Ok e :: (_, 'x) res)"
    "eval_expr ev e = (Ok v :: (_, unit) res)" by blast
  have "to_symbolic_expressions \<lparr>dag_nodes = ns @ [n], constraint_idx = cs\<rparr> = (Ok (es @ [e]) :: (_, 'x) res)"
    unfolding rebuild_snoc [of ns n cs cs] es(1) by (simp add: e(1))
  with es(2,3) e(2) vs(3) show ?case by (auto simp: nth_append less_Suc_eq)
qed

section \<open>Properties\<close>

lemma build_values:
  assumes "const_hom ev" and "\<forall>(p, e) \<in> set cs. in_heap \<sigma> p e"
    and "\<forall>i \<in> set is. \<forall>(p, e) \<in> set (count i # message i). in_heap \<sigma> p e"
    and "rmap (\<lambda>(p, e). eval_expr ev e) cs = (Ok xs :: (_, unit) res)" and "rmap (eval_interaction ev) is = Ok ys"
  shows "\<exists>dag vs idxs. build_symbolic_constraints_dag cs is = (Ok dag :: (_, 'x) res) \<and>
     eval_nodes ev (dag_nodes (dag_constraints dag)) = (Ok vs :: (_, unit) res) \<and>
     topological (dag_nodes (dag_constraints dag)) \<and> distinct (dag_nodes (dag_constraints dag)) \<and>
     values_at vs idxs xs \<and> constraint_idx (dag_constraints dag) = remdups_adj (sort idxs) \<and>
     length (dag_interactions dag) = length is \<and> length ys = length is \<and>
     (\<forall>k < length is. interaction_at vs (is ! k) (dag_interactions dag ! k) (ys ! k))"
proof -
  from add_exprs_values [OF assms(1,2,4) builder_inv_new] obtain idxs b1 vs1 where 1:
    "add_exprs cs dag_builder_new = (Ok (idxs, b1) :: (_, 'x) res)" "builder_inv ev \<sigma> b1 vs1" "values_at vs1 idxs xs" by blast
  from add_interactions_values [OF assms(1,3,5) 1(2)] obtain js b2 vs2 where 2:
    "add_interactions is b1 = (Ok (js, b2) :: (_, 'x) res)" "builder_inv ev \<sigma> b2 vs2" "extends vs1 vs2" "length js = length is"
    "length ys = length is" "\<forall>k < length is. interaction_at vs2 (is ! k) (js ! k) (ys ! k)" by blast
  have "build_symbolic_constraints_dag cs is = (Ok \<lparr>dag_constraints = \<lparr>dag_nodes = builder_nodes b2,
      constraint_idx = remdups_adj (sort idxs)\<rparr>, dag_interactions = js\<rparr> :: (_, 'x) res)"
    using 1(1) 2(1) by (simp add: build_symbolic_constraints_dag_def Let_def)
  moreover have "values_at vs2 idxs xs" using 1(3) 2(3) by (rule values_at_extends)
  ultimately show ?thesis using 2 by (auto simp: builder_inv_def)
qed

lemma distinct_remdups_adj: "sorted xs \<Longrightarrow> distinct (remdups_adj xs)" for xs :: "'a::linorder list"
  by (induction xs rule: remdups_adj.induct) auto

text \<open>C9. The DAG of an AIR is equivalent to its symbolic constraints. For every evaluator whose constants form
  a ring homomorphism and that can evaluate the expressions, building the DAG and evaluating its
  nodes succeed; the nodes are in topological order and without duplicates; every constraint has a node (\<open>idxs ! k\<close> for the
  \<open>k\<close>-th one) with the value of its expression, and the constraint indices of the DAG are these nodes, sorted and without
  duplicates; and every interaction has the values it had before, on the same bus. The cache by address, the
  deduplication, the constant folding and the simplifications change no value. The premise on addresses says that one
  memory holds all the expressions.\<close>
theorem dag_equivalent:
  fixes ev :: "('f::field, 'e::comm_ring_1) symbolic_evaluator"
  assumes "const_hom ev" and "\<forall>(p, e) \<in> set cs. in_heap \<sigma> p e"
    and "\<forall>i \<in> set is. \<forall>(p, e) \<in> set (count i # message i). in_heap \<sigma> p e"
    and "rmap (\<lambda>(p, e). eval_expr ev e) cs = (Ok xs :: (_, unit) res)" and "rmap (eval_interaction ev) is = Ok ys"
  shows "\<exists>dag vs idxs. build_symbolic_constraints_dag cs is = (Ok dag :: (_, unit) res) \<and>
     eval_nodes ev (dag_nodes (dag_constraints dag)) = (Ok vs :: (_, unit) res) \<and>
     topological (dag_nodes (dag_constraints dag)) \<and> distinct (dag_nodes (dag_constraints dag)) \<and>
     length idxs = length cs \<and> (\<forall>k < length cs. idxs ! k < length vs \<and> vs ! (idxs ! k) = xs ! k) \<and>
     constraint_idx (dag_constraints dag) = sorted_list_of_set (set idxs) \<and>
     ((\<forall>i \<in> set (constraint_idx (dag_constraints dag)). vs ! i = 0) \<longleftrightarrow> (\<forall>x \<in> set xs. x = 0)) \<and>
     length (dag_interactions dag) = length is \<and>
     (\<forall>k < length is. map ((!) vs) (message (dag_interactions dag ! k)) = fst (ys ! k) \<and>
        vs ! count (dag_interactions dag ! k) = snd (ys ! k) \<and> bus_index (dag_interactions dag ! k) = bus_index (is ! k))"
proof -
  from build_values [OF assms, where 'x = unit] obtain dag vs idxs where d:
    "build_symbolic_constraints_dag cs is = (Ok dag :: (_, unit) res)"
    "eval_nodes ev (dag_nodes (dag_constraints dag)) = (Ok vs :: (_, unit) res)"
    "topological (dag_nodes (dag_constraints dag))" "distinct (dag_nodes (dag_constraints dag))" "values_at vs idxs xs"
    "constraint_idx (dag_constraints dag) = remdups_adj (sort idxs)" "length (dag_interactions dag) = length is"
    "\<forall>k < length is. interaction_at vs (is ! k) (dag_interactions dag ! k) (ys ! k)" by blast
  have xs: "xs = map ((!) vs) idxs" and at: "\<And>k. values_at vs k zs \<Longrightarrow> map ((!) vs) k = zs" for zs
    using d(5) by (auto simp: values_at_def list_all2_conv_all_nth intro: nth_equalityI)
  have len: "length idxs = length cs"
    using rmap_Ok_length [OF assms(4)] by (simp add: xs)
  moreover have "\<forall>k < length cs. idxs ! k < length vs \<and> vs ! (idxs ! k) = xs ! k"
    using d(5) len by (auto simp: values_at_def list_all2_conv_all_nth)
  moreover have "constraint_idx (dag_constraints dag) = sorted_list_of_set (set idxs)"
    unfolding d(6) by (rule sorted_distinct_set_unique) (simp_all add: distinct_remdups_adj)
  moreover have "(\<forall>i \<in> set (constraint_idx (dag_constraints dag)). vs ! i = 0) \<longleftrightarrow> (\<forall>x \<in> set xs. x = 0)"
    by (simp add: d(6) xs)
  moreover have "map ((!) vs) (message (dag_interactions dag ! k)) = fst (ys ! k) \<and>
        vs ! count (dag_interactions dag ! k) = snd (ys ! k) \<and> bus_index (dag_interactions dag ! k) = bus_index (is ! k)"
    if "k < length is" for k
    using d(8) that at unfolding interaction_at_def by fastforce
  ultimately show ?thesis using d by blast
qed

definition sample_ev :: "(f17, f17) symbolic_evaluator" where
  "sample_ev = \<lparr>eval_const = id, eval_var = (\<lambda>v. Some (f17 (int (var_index v) + 3))), eval_is_first_row = 1,
     eval_is_last_row = 0, eval_is_transition = 1\<rparr>"

definition sample_square :: "f17 symbolic_expression" where
  "sample_square = (let x = Variable (SymbolicVariable (Main 0 0) 4) in expr_sub 2 (expr_mul 1 x 1 x) 3 (Constant (f17 15)))"

theorem dag_equivalent_witness:
  "\<exists>dag vs i. build_symbolic_constraints_dag [(4, sample_square)] [] = (Ok dag :: (_, unit) res) \<and>
     eval_nodes sample_ev (dag_nodes (dag_constraints dag)) = (Ok vs :: (_, unit) res) \<and>
     topological (dag_nodes (dag_constraints dag)) \<and> constraint_idx (dag_constraints dag) = [i] \<and> i < length vs \<and> vs ! i = 0"
proof -
  let ?x = "Variable (SymbolicVariable (Main 0 0) 4) :: f17 symbolic_expression"
  let ?\<sigma> = "[1 \<mapsto> ?x, 2 \<mapsto> expr_mul 1 ?x 1 ?x, 3 \<mapsto> Constant (f17 15), 4 \<mapsto> sample_square]"
  have hom: "const_hom sample_ev" by (simp add: const_hom_def sample_ev_def)
  have heap: "\<forall>(p, e) \<in> set [(4, sample_square)]. in_heap ?\<sigma> p e"
    by (simp add: sample_square_def expr_sub_def expr_mul_def Let_def)
  have "f17 7 * f17 7 = f17 15" by (simp add: f17_mult f17_eq_iff)
  then have ev: "rmap (\<lambda>(p, e). eval_expr sample_ev e) [(4, sample_square)] = (Ok [0] :: (_, unit) res)"
    by (simp add: sample_square_def expr_sub_def expr_mul_def sample_ev_def Let_def)
  from dag_equivalent [OF hom heap _ ev, of "[]" "[]"] show ?thesis by (auto simp: length_Suc_conv)
qed

text \<open>A DAG converts back to expressions with the values of its nodes: whenever its nodes can be evaluated,
  rebuilding the expressions succeeds and each evaluates to the value of its node.\<close>
theorem dag_rebuild:
  assumes "eval_nodes ev (dag_nodes dag) = (Ok vs :: (_, unit) res)"
  shows "\<exists>es. to_symbolic_expressions dag = (Ok es :: (_, unit) res) \<and> length es = length vs \<and>
     (\<forall>i < length vs. eval_expr ev (es ! i) = (Ok (vs ! i) :: (_, unit) res))"
  using rebuild_values [OF assms, of "constraint_idx dag", where 'x = unit] by (cases dag) simp

theorem dag_rebuild_witness:
  "\<exists>es. to_symbolic_expressions \<lparr>dag_nodes = [ConstantNode (f17 2), NegNode 0 0, MulNode 0 1 0], constraint_idx = [2]\<rparr> = (Ok es :: (_, unit) res) \<and>
     length es = 3"
proof -
  have "eval_nodes sample_ev (dag_nodes \<lparr>dag_nodes = [ConstantNode (f17 2), NegNode 0 0, MulNode 0 1 0], constraint_idx = [2]\<rparr>)
      = (Ok [f17 2, - f17 2, f17 2 * - f17 2] :: (_, unit) res)"
    by (simp add: eval_nodes_def sample_ev_def)
  from dag_rebuild [OF this] show ?thesis by auto
qed

end
