(* ===== verification/Evaluator.thy ===== *)
theory Evaluator
  imports FieldTower SymbolicDag
begin

text \<open>
  The evaluator of the constraints at the opening point (\<open>verifier/evaluator.rs\<close>): column
  openings as pairs of the local and the rotated value, the row selectors in closed form,
  and the public values.
\<close>

definition progression_exp_2 :: "'ef::field \<Rightarrow> nat \<Rightarrow> 'ef" where
  "progression_exp_2 m l = snd (fold (\<lambda>_ (pow, sum). (pow * pow, sum * (1 + pow))) [0..<l] (m, 1))"

type_synonym 'ef view_pair = "('ef \<times> 'ef) list"

record ('f, 'ef) constraint_evaluator =
  ce_preprocessed :: "'ef view_pair option"
  ce_partitioned_main :: "'ef view_pair list"
  ce_is_first_row :: 'ef
  ce_is_last_row :: 'ef
  ce_public_values :: "'f list"

definition evaluator_new ::
  "('f::field, 'ef::field) field_ext \<Rightarrow> 'ef view_pair option \<Rightarrow> 'ef view_pair list \<Rightarrow> 'f list \<Rightarrow> 'ef list \<Rightarrow> nat
     \<Rightarrow> (('f, 'ef) constraint_evaluator, 'e) res" where
  "evaluator_new X preprocessed partitioned_main public_values rs skip =
     rbind (two_adic_generator X skip) (\<lambda>omega.
     rbind (shl64 1 skip) (\<lambda>n.
     rbind (checked_inverse (of_nat n)) (\<lambda>inv_n.
     rbind (index rs 0) (\<lambda>r0.
     let inv = fe_embed X inv_n;
         is_first_row = inv * progression_exp_2 r0 skip * fold (\<lambda>x acc. acc * (1 - x)) (drop 1 rs) 1;
         is_last_row = inv * progression_exp_2 (r0 * fe_embed X omega) skip * fold (\<lambda>x acc. acc * x) (drop 1 rs) 1 in
     Ok \<lparr>ce_preprocessed = preprocessed, ce_partitioned_main = partitioned_main,
         ce_is_first_row = is_first_row, ce_is_last_row = is_last_row, ce_public_values = public_values\<rparr>))))"

definition view_at :: "'ef view_pair \<Rightarrow> nat \<Rightarrow> nat \<Rightarrow> 'ef option" where
  "view_at vp i offset =
     (if i < length vp then Some (if offset = 0 then fst (vp ! i) else snd (vp ! i)) else None)"

definition ce_eval_var ::
  "('f, 'ef) field_ext \<Rightarrow> ('f, 'ef) constraint_evaluator \<Rightarrow> symbolic_variable \<Rightarrow> 'ef option" where
  "ce_eval_var X ce symbolic_var = (let i = var_index symbolic_var in
     case var_entry symbolic_var of
       Preprocessed offset \<Rightarrow> (case ce_preprocessed ce of Some vp \<Rightarrow> view_at vp i offset | None \<Rightarrow> None)
     | Main part_index offset \<Rightarrow>
         if part_index < length (ce_partitioned_main ce) then view_at (ce_partitioned_main ce ! part_index) i offset
         else None
     | Public \<Rightarrow> if i < length (ce_public_values ce) then Some (fe_embed X (ce_public_values ce ! i)) else None
     | Challenge \<Rightarrow> None)"

definition evaluator_of ::
  "('f, 'ef::field) field_ext \<Rightarrow> ('f, 'ef) constraint_evaluator \<Rightarrow> ('f, 'ef) symbolic_evaluator" where
  "evaluator_of X ce = \<lparr>eval_const = fe_embed X, eval_var = ce_eval_var X ce,
     eval_is_first_row = ce_is_first_row ce, eval_is_last_row = ce_is_last_row ce,
     eval_is_transition = 1 - ce_is_last_row ce\<rparr>"

section \<open>The row selectors\<close>

lemma progression_fold:
  "snd (fold (\<lambda>_ (pow, sum). (pow * pow, sum * (1 + pow))) is (m, a))
     = fold (\<lambda>x_pow res. res * (x_pow + 1)) (exp_powers_of_2 (length is) m) (a :: 'a::field)"
  by (induction "is" arbitrary: m a) (simp_all add: add.commute)

lemma progression_at_one: "progression_exp_2 m l / 2 ^ l = eval_eq_uni_at_one l m"
  unfolding progression_exp_2_def progression_fold
  by (simp add: eval_eq_uni_at_one_def power_divide)

lemma fold_one_minus_cube:
  "b < 2 ^ n \<Longrightarrow> fold (\<lambda>x acc. acc * (1 - x)) (cube_point n b) a = (if b = 0 then a else (0 :: 'a::field))"
proof (induction n arbitrary: b a)
  case (Suc n)
  then have "b div 2 < 2 ^ n" by auto
  from Suc.IH [OF this, of "a * (1 - (if odd b then 1 else 0))"] show ?case
    by (cases "odd b") (auto elim!: oddE evenE)
qed simp

lemma fold_cube:
  "b < 2 ^ n \<Longrightarrow> fold (\<lambda>x acc. acc * x) (cube_point n b) a = (if b = 2 ^ n - 1 then a else (0 :: 'a::field))"
proof (induction n arbitrary: b a)
  case (Suc n)
  then have "b div 2 < 2 ^ n" by auto
  from Suc.IH [OF this, of "a * (if odd b then 1 else 0)"] Suc.prems show ?case
    by (cases "odd b") (auto elim!: oddE evenE)
qed simp

lemma last_index:
  fixes i b M N :: nat
  assumes "i < N" and "b < M"
  shows "i = N - 1 \<and> b = M - 1 \<longleftrightarrow> b * N + i = M * N - 1"
proof -
  obtain m k where mk: "M = Suc m" "N = Suc k" using assms by (metis less_imp_Suc_add)
  show ?thesis
  proof (cases "b = m")
    case True
    with mk show ?thesis by auto
  next
    case False
    with assms(2) mk have "Suc b \<le> m" by simp
    then have "Suc b * Suc k \<le> m * Suc k" by (rule mult_le_mono1)
    with assms(1) mk False show ?thesis by simp
  qed
qed

context field_tower
begin

lemma evaluator_new_Ok:
  assumes "l \<le> fe_adicity X" and "l < 64"
  shows "evaluator_new X prep main pvs (r0 # rest) l = Ok
    \<lparr>ce_preprocessed = prep, ce_partitioned_main = main,
     ce_is_first_row = eval_eq_uni_at_one l r0 * fold (\<lambda>x acc. acc * (1 - x)) rest 1,
     ce_is_last_row = eval_eq_uni_at_one l (r0 * fe_embed X (fe_gen X l)) * fold (\<lambda>x acc. acc * x) rest 1,
     ce_public_values = pvs\<rparr>"
proof -
  have inv: "fe_embed X (1 / 2 ^ l) = 1 / 2 ^ l" by (simp add: divide_inverse)
  show ?thesis
    unfolding evaluator_new_def progression_at_one [symmetric]
    using assms by (simp add: generator_Ok power2_inverse_Ok [simplified] inv Let_def)
qed

lemma row_selectors:
  assumes l: "l \<le> fe_adicity X" "l < 64" and r: "r < 2 ^ (l + n)"
    and ce: "evaluator_new X prep main pvs (prism_point (\<lambda>l. fe_embed X (fe_gen X l)) l n r) l = Ok ce"
  shows "ce_is_first_row ce = (if r = 0 then 1 else 0)"
    and "ce_is_last_row ce = (if r = 2 ^ (l + n) - 1 then 1 else 0)"
proof -
  let ?g = "fe_embed X (fe_gen X l)" and ?i = "r mod 2 ^ l" and ?b = "r div 2 ^ l"
  have b: "?b < 2 ^ n" using r by (simp add: power_add less_mult_imp_div_less mult.commute)
  have one: "eval_eq_uni_at_one l (?g ^ k) = (if k mod 2 ^ l = 0 then 1 else 0)" for k
    using ext.eq_uni_gen [OF l(1), of k 0] by (simp add: eq_uni_at_one)
  note [simp] = evaluator_new_Ok [OF l] fold_one_minus_cube [OF b] fold_cube [OF b]
  have "?g ^ ?i * ?g = ?g ^ Suc ?i" by (simp add: mult.commute)
  then have vals: "ce_is_first_row ce = (if ?i = 0 then 1 else 0) * (if ?b = 0 then 1 else 0)"
    "ce_is_last_row ce = (if Suc ?i mod 2 ^ l = 0 then 1 else 0) * (if ?b = 2 ^ n - 1 then 1 else 0)"
    using ce by (auto simp: prism_point_def one simp del: power_Suc)
  have split: "r = ?b * 2 ^ l + ?i" by (rule div_mult_mod_eq [symmetric])
  have "r = 0 \<longleftrightarrow> ?i = 0 \<and> ?b = 0" using split by auto
  with vals(1) show "ce_is_first_row ce = (if r = 0 then 1 else 0)" by simp
  have "Suc ?i mod 2 ^ l = 0 \<longleftrightarrow> ?i = 2 ^ l - 1"
  proof -
    have "Suc ?i \<le> 2 ^ l" by (simp add: Suc_leI)
    then show ?thesis by (cases "Suc ?i = 2 ^ l") auto
  qed
  moreover have "?i = 2 ^ l - 1 \<and> ?b = 2 ^ n - 1 \<longleftrightarrow> r = 2 ^ (l + n) - 1"
    using last_index [of ?i "2 ^ l" ?b "2 ^ n"] b split by (simp add: power_add mult.commute)
  ultimately show "ce_is_last_row ce = (if r = 2 ^ (l + n) - 1 then 1 else 0)" using vals(2) by auto
qed

end

text \<open>Evaluating the nodes of a DAG in order does not panic when every variable has a value.\<close>

lemma eval_nodes_total:
  assumes "topological ns" and "\<forall>v. VariableNode v \<in> set ns \<longrightarrow> eval_var ev v \<noteq> None"
  shows "\<exists>vs. eval_nodes ev ns = (Ok vs :: (_, 'x) res) \<and> length vs = length ns"
  using assms
proof (induction ns rule: rev_induct)
  case (snoc n ns)
  then obtain vs where vs: "eval_nodes ev ns = (Ok vs :: (_, 'x) res)" "length vs = length ns"
    by (auto simp: topological_snoc)
  have "\<forall>c \<in> set (node_children n). c < length vs" using snoc.prems(1) vs(2) by (simp add: topological_snoc)
  moreover have "eval_var ev v \<noteq> None" if "n = VariableNode v" for v using snoc.prems(2) that by simp
  ultimately have "\<exists>v. eval_node ev vs n = (Ok v :: (_, 'x) res)" by (cases n) auto
  with vs show ?case by (auto simp: eval_nodes_snoc)
qed simp

section \<open>Properties\<close>

text \<open>C25. The row selectors of the verifier are the multilinear selectors: at the point of the prism that is
  the row \<open>r\<close>, \<open>is_first_row\<close> is 1 exactly on row 0 and \<open>is_last_row\<close> exactly on the last row, and
  both are 0 elsewhere. Building the evaluator does not fail.\<close>
theorem row_selectors_indicator:
  assumes "field_tower X" and "l \<le> fe_adicity X" and "l < 64" and "r < 2 ^ (l + n)"
  shows "\<exists>ce. evaluator_new X prep main pvs (prism_point (\<lambda>l. fe_embed X (fe_gen X l)) l n r) l = (Ok ce :: (_, 'e) res) \<and>
     eval_is_first_row (evaluator_of X ce) = (if r = 0 then 1 else 0) \<and>
     eval_is_last_row (evaluator_of X ce) = (if r = 2 ^ (l + n) - 1 then 1 else 0) \<and>
     eval_is_transition (evaluator_of X ce) = (if r = 2 ^ (l + n) - 1 then 0 else 1)"
proof -
  obtain ce where ce: "evaluator_new X prep main pvs (prism_point (\<lambda>l. fe_embed X (fe_gen X l)) l n r) l = (Ok ce :: (_, 'e) res)"
    unfolding prism_point_def field_tower.evaluator_new_Ok [OF assms(1-3)] by simp
  from field_tower.row_selectors [OF assms ce] ce show ?thesis by (auto simp: evaluator_of_def)
qed

theorem row_selectors_indicator_witness:
  "\<exists>ce. evaluator_new f17_tower None [] [] (prism_point (\<lambda>l. fe_embed f17_tower (fe_gen f17_tower l)) 2 3 31) 2 = (Ok ce :: (_, unit) res) \<and>
     eval_is_first_row (evaluator_of f17_tower ce) = (if 31 = (0::nat) then 1 else 0) \<and>
     eval_is_last_row (evaluator_of f17_tower ce) = (if 31 = (2 :: nat) ^ (2 + 3) - 1 then 1 else 0) \<and>
     eval_is_transition (evaluator_of f17_tower ce) = (if 31 = (2 :: nat) ^ (2 + 3) - 1 then 0 else 1)"
  by (rule row_selectors_indicator [OF f17_tower.field_tower_axioms]) (simp_all add: f17_tower_def)

end
