(* ===== verification/Config.thy ===== *)
theory Config
  imports Prelude
begin

text \<open>
  The system parameters of \<open>config.rs\<close> and the LogUp parameters of \<open>interaction/mod.rs\<close>,
  with the derived quantities of the WHIR schedule. The number of queries of a round is
  computed by floating-point arithmetic and is a parameter of \<open>whir_config_new\<close>.
\<close>

datatype proximity_regime = RegimeUniqueDecoding | RegimeListDecoding nat

datatype whir_proximity_strategy =
    UniqueDecoding
  | SplitUniqueList nat nat
  | ListDecoding nat

fun in_round :: "whir_proximity_strategy \<Rightarrow> nat \<Rightarrow> proximity_regime" where
  "in_round UniqueDecoding _ = RegimeUniqueDecoding"
| "in_round (SplitUniqueList m list_start_round) whir_round =
     (if whir_round < list_start_round then RegimeUniqueDecoding else RegimeListDecoding m)"
| "in_round (ListDecoding m) _ = RegimeListDecoding m"

definition initial_round :: "whir_proximity_strategy \<Rightarrow> proximity_regime" where
  "initial_round s = in_round s 0"

record whir_params =
  wp_k :: nat
  wp_log_final_poly_len :: nat
  wp_query_phase_pow_bits :: nat
  wp_proximity :: whir_proximity_strategy
  wp_folding_pow_bits :: nat
  wp_mu_pow_bits :: nat

record whir_round_config =
  num_queries :: nat

record whir_config =
  whir_k :: nat
  whir_rounds :: "whir_round_config list"
  mu_pow_bits :: nat
  query_phase_pow_bits :: nat
  folding_pow_bits :: nat
  whir_proximity :: whir_proximity_strategy

record logup_params =
  max_interaction_count :: nat
  log_max_message_length :: nat
  logup_pow_bits :: nat

record system_params =
  l_skip :: nat
  n_stack :: nat
  w_stack :: nat
  log_blowup :: nat
  whir :: whir_config
  logup :: logup_params
  max_constraint_degree :: nat

text \<open>\<open>2usize.checked_pow\<close>\<close>

definition max_message_length :: "logup_params \<Rightarrow> (nat, 'e) res" where
  "max_message_length p = (if log_max_message_length p < 64 then Ok (2 ^ log_max_message_length p) else Panic)"

definition k_whir :: "system_params \<Rightarrow> nat" where
  "k_whir p = whir_k (whir p)"

definition log_stacked_height :: "system_params \<Rightarrow> nat" where
  "log_stacked_height p = l_skip p + n_stack p"

definition num_whir_rounds :: "system_params \<Rightarrow> nat" where
  "num_whir_rounds p = length (whir_rounds (whir p))"

definition num_whir_sumcheck_rounds :: "system_params \<Rightarrow> nat" where
  "num_whir_sumcheck_rounds p = num_whir_rounds p * whir_k (whir p)"

definition log_final_poly_len :: "system_params \<Rightarrow> (nat, 'e) res" where
  "log_final_poly_len p = sub64 (log_stacked_height p) (num_whir_rounds p * whir_k (whir p))"

definition whir_config_new ::
  "(proximity_regime \<Rightarrow> nat \<Rightarrow> nat \<Rightarrow> nat) \<Rightarrow> nat \<Rightarrow> nat \<Rightarrow> whir_params \<Rightarrow> nat \<Rightarrow> (whir_config, 'e) res" where
  "whir_config_new queries blowup stacked_height wp security_bits =
     (let protocol_security_level = security_bits - wp_query_phase_pow_bits wp; k = wp_k wp in
      rbind (assert_that (k \<noteq> 0)) (\<lambda>_.
      let num_rounds = div_ceil (stacked_height - wp_log_final_poly_len wp) k in
      rbind (rfold (\<lambda>rnd (log_inv_rate, rounds). rbind (sub64 k 1) (\<lambda>k1.
          let next_rate = log_inv_rate + k1;
              n = queries (in_round (wp_proximity wp) rnd) protocol_security_level log_inv_rate in
          Ok (next_rate, rounds @ [\<lparr>num_queries = n\<rparr>]))) [0..<num_rounds] (blowup, []))
        (\<lambda>(_, rounds).
      Ok \<lparr>whir_k = k, whir_rounds = rounds, mu_pow_bits = wp_mu_pow_bits wp,
          query_phase_pow_bits = wp_query_phase_pow_bits wp, folding_pow_bits = wp_folding_pow_bits wp,
          whir_proximity = wp_proximity wp\<rparr>)))"

definition system_params_new ::
  "(proximity_regime \<Rightarrow> nat \<Rightarrow> nat \<Rightarrow> nat) \<Rightarrow> nat \<Rightarrow> nat \<Rightarrow> nat \<Rightarrow> nat \<Rightarrow> nat \<Rightarrow> nat \<Rightarrow> nat \<Rightarrow>
   whir_proximity_strategy \<Rightarrow> nat \<Rightarrow> logup_params \<Rightarrow> nat \<Rightarrow> nat \<Rightarrow> nat \<Rightarrow> (system_params, 'e) res" where
  "system_params_new queries blowup skip stack width final_poly_len folding_bits mu_bits proximity security_bits
     lp max_degree query_bits k =
     rbind (whir_config_new queries blowup (skip + stack)
       \<lparr>wp_k = k, wp_log_final_poly_len = final_poly_len, wp_query_phase_pow_bits = query_bits,
        wp_proximity = proximity, wp_folding_pow_bits = folding_bits, wp_mu_pow_bits = mu_bits\<rparr> security_bits) (\<lambda>wc.
     Ok \<lparr>l_skip = skip, n_stack = stack, w_stack = width, log_blowup = blowup, whir = wc, logup = lp,
         max_constraint_degree = max_degree\<rparr>)"

section \<open>\<open>calculate_n_logup\<close>\<close>

text \<open>\<open>u64::BITS - leading_zeros\<close> of a non-zero number is its number of binary digits.\<close>

definition bit_length :: "nat \<Rightarrow> nat" where
  "bit_length n = (if n = 0 then 0 else Suc (log2_floor n))"

definition log2_ceil :: "nat \<Rightarrow> nat" where
  "log2_ceil n = (if n \<le> 1 then 0 else bit_length (n - 1))"

definition calculate_n_logup :: "nat \<Rightarrow> nat \<Rightarrow> (nat, 'e) res" where
  "calculate_n_logup skip total_interactions =
     (if total_interactions \<noteq> 0 then
        rbind (sub64 (bit_length total_interactions) skip) (\<lambda>n_logup.
        rbind (add64 total_interactions 1) (\<lambda>t.
        rbind (assert_that (n_logup + skip = log2_ceil t)) (\<lambda>_. Ok n_logup)))
      else Ok 0)"

lemma bit_length_bounds: "0 < n \<Longrightarrow> 2 ^ (bit_length n - 1) \<le> n \<and> n < 2 ^ bit_length n"
  using log2_floor_bounds [of n] by (simp add: bit_length_def)

lemma bit_length_le_iff: "bit_length n \<le> k \<longleftrightarrow> n < 2 ^ k"
proof (cases "n = 0")
  case False
  then have b: "2 ^ (bit_length n - 1) \<le> n" "n < 2 ^ bit_length n" "0 < bit_length n"
    using bit_length_bounds [of n] by (simp_all add: bit_length_def)
  show ?thesis
  proof
    assume "bit_length n \<le> k"
    then have "(2::nat) ^ bit_length n \<le> 2 ^ k" by (rule power_increasing) simp
    with b(2) show "n < 2 ^ k" by linarith
  next
    assume "n < 2 ^ k"
    with b(1) have "(2::nat) ^ (bit_length n - 1) < 2 ^ k" by linarith
    then have "bit_length n - 1 < k" by (simp add: power_strict_increasing_iff)
    with b(3) show "bit_length n \<le> k" by linarith
  qed
qed (simp add: bit_length_def)

lemma calculate_n_logup_Ok:
  assumes "tot = 0 \<or> 2 ^ skip \<le> tot" and "tot < 2 ^ 64 - 1"
  shows "calculate_n_logup skip tot = Ok (bit_length tot - skip)"
proof (cases "tot = 0")
  case False
  have "\<not> bit_length tot \<le> skip" using assms(1) False by (simp add: bit_length_le_iff)
  with False assms(2) show ?thesis by (simp add: calculate_n_logup_def sub64_def add64_def log2_ceil_def)
qed (simp add: calculate_n_logup_def bit_length_def)

section \<open>The WHIR schedule\<close>

lemma whir_rounds_loop:
  "0 < k \<Longrightarrow> \<exists>r rounds. rfold (\<lambda>rnd (log_inv_rate, rounds). rbind (sub64 k 1) (\<lambda>k1.
          let next_rate = log_inv_rate + k1; n = q rnd log_inv_rate in
          Ok (next_rate, rounds @ [\<lparr>num_queries = n\<rparr>]))) rs (b, acc) = (Ok (r, rounds) :: (_, 'e) res) \<and>
      length rounds = length acc + length rs"
proof (induction rs arbitrary: b acc)
  case (Cons r rs)
  from Cons.IH [OF Cons.prems, of "b + (k - 1)" "acc @ [\<lparr>num_queries = q r b\<rparr>]"] Cons.prems
  show ?case by (auto simp: sub64_def Let_def)
qed auto

lemma whir_config_new_rounds:
  assumes "0 < wp_k wp"
  shows "\<exists>wc. whir_config_new queries blowup h wp sec = (Ok wc :: (_, 'e) res) \<and> whir_k wc = wp_k wp \<and>
     length (whir_rounds wc) = div_ceil (h - wp_log_final_poly_len wp) (wp_k wp)"
proof -
  let ?n = "div_ceil (h - wp_log_final_poly_len wp) (wp_k wp)"
  from whir_rounds_loop [OF assms, of "\<lambda>rnd r. queries (in_round (wp_proximity wp) rnd) (sec - wp_query_phase_pow_bits wp) r"
      "[0..<?n]" blowup "[]", where 'e = 'e] assms
  show ?thesis by (auto simp: whir_config_new_def Let_def)
qed

section \<open>Properties\<close>

text \<open>The WHIR schedule fits: when the folding factor is positive and at most one more than the requested
  final length, the parameters are built, folding never goes below a polynomial of one
  coefficient, and the final polynomial is no longer than requested (or than the whole
  stacked matrix, if that is shorter).\<close>
theorem whir_schedule_fits:
  assumes "0 < k" and "k \<le> final_len + 1"
  shows "\<exists>p n. system_params_new queries blowup skip stack width final_len fb mb prox sec lp md qb k = (Ok p :: (_, unit) res) \<and>
     log_final_poly_len p = (Ok n :: (_, unit) res) \<and> n \<le> final_len \<and>
     n + num_whir_sumcheck_rounds p = log_stacked_height p"
proof -
  let ?wp = "\<lparr>wp_k = k, wp_log_final_poly_len = final_len, wp_query_phase_pow_bits = qb, wp_proximity = prox,
    wp_folding_pow_bits = fb, wp_mu_pow_bits = mb\<rparr>"
  let ?h = "skip + stack"
  have "0 < wp_k ?wp" using assms(1) by simp
  from whir_config_new_rounds [OF this, of queries blowup ?h sec, where 'e = unit] obtain wc where wc:
    "whir_config_new queries blowup ?h ?wp sec = (Ok wc :: (_, unit) res)" "whir_k wc = k"
    "length (whir_rounds wc) = div_ceil (?h - final_len) k" by auto
  have up: "?h - final_len \<le> div_ceil (?h - final_len) k * k" using assms(1) by (rule div_ceil_mult)
  have "div_ceil (?h - final_len) k * k \<le> ?h - final_len + k - 1" by (simp add: div_ceil_def)
  then have fit: "div_ceil (?h - final_len) k * k \<le> ?h"
  proof (cases "?h \<le> final_len")
    case True
    then show ?thesis using assms by (simp add: div_ceil_def)
  next
    case False
    with \<open>div_ceil (?h - final_len) k * k \<le> ?h - final_len + k - 1\<close> assms show ?thesis by linarith
  qed
  then show ?thesis using wc up
    by (auto simp: system_params_new_def log_final_poly_len_def num_whir_rounds_def num_whir_sumcheck_rounds_def
        log_stacked_height_def sub64_def)
qed

theorem whir_schedule_fits_witness:
  "\<exists>p n. system_params_new (\<lambda>_ _ _. 3) 1 2 8 10 4 0 0 UniqueDecoding 20 \<lparr>max_interaction_count = 9, log_max_message_length = 3, logup_pow_bits = 5\<rparr> 3 0 4 = (Ok p :: (_, unit) res) \<and>
     log_final_poly_len p = (Ok n :: (_, unit) res) \<and> n \<le> 4 \<and> n + num_whir_sumcheck_rounds p = log_stacked_height p"
  by (rule whir_schedule_fits) simp_all

text \<open>The premise on the folding factor is needed: with a folding factor larger than the requested final
  length allows, the parameters are built but folding overshoots the stacked height, and the
  length of the final polynomial is a subtraction that overflows.\<close>
theorem whir_schedule_overshoots:
  assumes "final_len < skip + stack" and "skip + stack < k"
  shows "\<exists>p. system_params_new queries blowup skip stack width final_len fb mb prox sec lp md qb k = (Ok p :: (_, unit) res) \<and>
     log_final_poly_len p = (Panic :: (nat, unit) res)"
proof -
  let ?wp = "\<lparr>wp_k = k, wp_log_final_poly_len = final_len, wp_query_phase_pow_bits = qb, wp_proximity = prox,
    wp_folding_pow_bits = fb, wp_mu_pow_bits = mb\<rparr>"
  have "0 < wp_k ?wp" using assms by simp
  from whir_config_new_rounds [OF this, of queries blowup "skip + stack" sec, where 'e = unit] obtain wc where wc:
    "whir_config_new queries blowup (skip + stack) ?wp sec = (Ok wc :: (_, unit) res)" "whir_k wc = k"
    "length (whir_rounds wc) = div_ceil (skip + stack - final_len) k" by auto
  have "0 < k" using assms by simp
  from div_ceil_mult [OF this, of "skip + stack - final_len"] have "0 < div_ceil (skip + stack - final_len) k"
    using assms(1) by (cases "div_ceil (skip + stack - final_len) k") auto
  then have "k \<le> div_ceil (skip + stack - final_len) k * k" by simp
  with assms(2) have "\<not> div_ceil (skip + stack - final_len) k * k \<le> skip + stack" by linarith
  then show ?thesis using wc
    by (auto simp: system_params_new_def log_final_poly_len_def num_whir_rounds_def log_stacked_height_def sub64_def)
qed

theorem whir_schedule_overshoots_witness:
  "\<exists>p. system_params_new (\<lambda>_ _ _. 3) 1 1 2 10 0 0 0 UniqueDecoding 20 \<lparr>max_interaction_count = 9, log_max_message_length = 3, logup_pow_bits = 5\<rparr> 3 0 4 = (Ok p :: (_, unit) res) \<and>
     log_final_poly_len p = (Panic :: (nat, unit) res)"
  by (rule whir_schedule_overshoots) simp_all

end
