(* ===== verification/DagShape.thy ===== *)
theory DagShape
  imports SymbolicDag
begin

text \<open>
  The shape of the DAG that the builder makes: the indices it hands out are in range, nodes
  come after their children, and every variable of the DAG is one of the expressions added.
  Unlike the values of the nodes, this does not depend on the memory the addresses point to.
\<close>

fun expr_vars :: "'f symbolic_expression \<Rightarrow> symbolic_variable set" where
  "expr_vars (Variable v) = {v}"
| "expr_vars (Add _ x _ y _) = expr_vars x \<union> expr_vars y"
| "expr_vars (Sub _ x _ y _) = expr_vars x \<union> expr_vars y"
| "expr_vars (Neg _ x _) = expr_vars x"
| "expr_vars (Mul _ x _ y _) = expr_vars x \<union> expr_vars y"
| "expr_vars _ = {}"

definition builder_ok :: "symbolic_variable set \<Rightarrow> 'f dag_builder \<Rightarrow> bool" where
  "builder_ok V b \<longleftrightarrow> topological (builder_nodes b) \<and>
     (\<forall>p i. expr_to_idx b p = Some i \<longrightarrow> i < length (builder_nodes b)) \<and>
     (\<forall>n i. node_to_idx b n = Some i \<longrightarrow> i < length (builder_nodes b)) \<and>
     (\<forall>v. VariableNode v \<in> set (builder_nodes b) \<longrightarrow> v \<in> V)"

text \<open>A step returns an index of a grown builder that is still in order.\<close>

definition grows :: "symbolic_variable set \<Rightarrow> 'f dag_builder \<Rightarrow> (nat \<times> 'f dag_builder, 'x) res \<Rightarrow> bool" where
  "grows V b r \<longleftrightarrow> (\<exists>i b'. r = Ok (i, b') \<and> builder_ok V b' \<and> i < length (builder_nodes b') \<and>
     length (builder_nodes b) \<le> length (builder_nodes b'))"

lemma builder_ok_new: "builder_ok V dag_builder_new"
  by (simp add: builder_ok_def dag_builder_new_def topological_def)

lemma growsE:
  assumes "grows V b r"
  obtains i b' where "r = Ok (i, b')" and "builder_ok V b'" and "i < length (builder_nodes b')"
    and "length (builder_nodes b) \<le> length (builder_nodes b')"
  using assms by (auto simp: grows_def)

lemma grows_same: "builder_ok V b \<Longrightarrow> i < length (builder_nodes b) \<Longrightarrow> grows V b (Ok (i, b))"
  by (simp add: grows_def)

lemma grows_intern:
  assumes ok: "builder_ok V b" and "\<forall>c \<in> set (node_children n). c < length (builder_nodes b)"
    and "\<And>v. n = VariableNode v \<Longrightarrow> v \<in> V"
  shows "grows V b (Ok (intern_node n b))"
proof (cases "node_to_idx b n")
  case None
  let ?b = "b\<lparr>node_to_idx := (node_to_idx b)(n \<mapsto> length (builder_nodes b)), builder_nodes := builder_nodes b @ [n]\<rparr>"
  have "topological (builder_nodes b @ [n])" using ok assms(2) by (simp add: topological_snoc builder_ok_def)
  with ok assms(3) have "builder_ok V ?b" by (auto simp: builder_ok_def intro: less_SucI)
  with None show ?thesis by (simp add: grows_def intern_node_def Let_def)
next
  case (Some i)
  with ok show ?thesis by (auto simp: intern_node_def builder_ok_def intro!: grows_same)
qed

lemma neg_child_in_range:
  assumes "builder_ok V b" and "i < length (builder_nodes b)" and "builder_nodes b ! i = NegNode k d"
  shows "k < length (builder_nodes b)"
proof -
  from assms have "\<forall>c \<in> set (node_children (builder_nodes b ! i)). c < i"
    by (simp add: builder_ok_def topological_def)
  with assms show ?thesis by simp
qed

lemma builder_reads:
  assumes "i < length (builder_nodes b)"
  shows "get_const b i = Ok (case builder_nodes b ! i of ConstantNode c \<Rightarrow> Some c | _ \<Rightarrow> None)"
    and "is_const b i c = Ok (builder_nodes b ! i = ConstantNode c)"
    and "get_neg_child b i = Ok (case builder_nodes b ! i of NegNode k _ \<Rightarrow> Some k | _ \<Rightarrow> None)"
  using assms by (simp_all add: get_const_def is_const_def get_neg_child_def)

lemma simplify_grows:
  assumes ok: "builder_ok V b" and l: "l < length (builder_nodes b)" and r: "r < length (builder_nodes b)"
  shows "grows V b (simplify_add l r d b)" and "grows V b (simplify_sub l r d b)"
    and "grows V b (simplify_neg l d b)" and "grows V b (simplify_mul l r d b)"
  using l r neg_child_in_range [OF ok r]
  by (auto simp: simplify_add_def simplify_sub_def simplify_neg_def simplify_mul_def builder_reads
      split: symbolic_expression_node.splits intro!: grows_same [OF ok] grows_intern [OF ok])

lemma grows_bind2:
  assumes "grows V b r1" and "\<And>b. builder_ok V b \<Longrightarrow> grows V b (r2 b)"
    and "\<And>b l r. builder_ok V b \<Longrightarrow> l < length (builder_nodes b) \<Longrightarrow> r < length (builder_nodes b) \<Longrightarrow> grows V b (f l r b)"
  shows "grows V b (rbind r1 (\<lambda>(l, b). rbind (r2 b) (\<lambda>(r, b). f l r b)))"
proof -
  from assms(1) obtain l b1 where 1: "r1 = Ok (l, b1)" "builder_ok V b1" "l < length (builder_nodes b1)"
    "length (builder_nodes b) \<le> length (builder_nodes b1)" by (rule growsE)
  from assms(2) [OF 1(2)] obtain r b2 where 2: "r2 b1 = Ok (r, b2)" "builder_ok V b2" "r < length (builder_nodes b2)"
    "length (builder_nodes b1) \<le> length (builder_nodes b2)" by (rule growsE)
  have "grows V b2 (f l r b2)" using 1 2 by (intro assms(3)) auto
  with 1 2 show ?thesis by (auto simp: grows_def)
qed

lemma grows_cache:
  assumes "grows V b r"
  shows "grows V b (rbind r (\<lambda>(idx, b). Ok (idx, b\<lparr>expr_to_idx := (expr_to_idx b)(p \<mapsto> idx)\<rparr>)))"
  using assms by (auto simp: grows_def builder_ok_def)

lemma grows_cached: "builder_ok V b \<Longrightarrow> expr_to_idx b p = Some i \<Longrightarrow> grows V b (Ok (i, b))"
  by (auto simp: builder_ok_def intro!: grows_same)

lemma add_expr_step:
  assumes "builder_ok V b" and "expr_to_idx b p = None \<Longrightarrow> grows V b r"
  shows "grows V b (case expr_to_idx b p of Some idx \<Rightarrow> Ok (idx, b) | None \<Rightarrow>
     rbind r (\<lambda>(idx, b). Ok (idx, b\<lparr>expr_to_idx := (expr_to_idx b)(p \<mapsto> idx)\<rparr>)))"
  using assms by (auto split: option.split intro: grows_cached grows_cache)

lemma add_expr_grows: "expr_vars e \<subseteq> V \<Longrightarrow> builder_ok V b \<Longrightarrow> grows V b (add_expr p e b :: (_, 'x) res)"
proof (induction e arbitrary: p b)
  case (Neg q x d)
  then have "grows V b (add_expr q x b :: (_, 'x) res)" by simp
  then obtain i b' where 1: "add_expr q x b = (Ok (i, b') :: (_, 'x) res)" "builder_ok V b'" "i < length (builder_nodes b')"
    "length (builder_nodes b) \<le> length (builder_nodes b')" by (rule growsE)
  have "grows V b' (simplify_neg i d b' :: (_, 'x) res)" by (rule simplify_grows(3) [OF 1(2,3,3)])
  with 1 have "grows V b (rbind (add_expr q x b) (\<lambda>(i, b). simplify_neg i d b) :: (_, 'x) res)"
    by (auto simp: grows_def)
  with Neg.prems show ?case by (subst add_expr.simps) (auto intro!: add_expr_step)
qed ((subst add_expr.simps; rule add_expr_step; auto intro!: grows_bind2 simplify_grows grows_intern)+)

lemma add_exprs_grows:
  "(\<Union>(p, e) \<in> set es. expr_vars e) \<subseteq> V \<Longrightarrow> builder_ok V b \<Longrightarrow>
   \<exists>is b'. add_exprs es b = (Ok (is, b') :: (_, 'x) res) \<and> builder_ok V b' \<and> length is = length es \<and>
     (\<forall>i \<in> set is. i < length (builder_nodes b')) \<and> length (builder_nodes b) \<le> length (builder_nodes b')"
proof (induction es arbitrary: b)
  case (Cons pe es)
  obtain p e where pe: "pe = (p, e)" by force
  with Cons.prems have "expr_vars e \<subseteq> V" by auto
  from add_expr_grows [OF this Cons.prems(2)] obtain i b1 where 1: "add_expr p e b = (Ok (i, b1) :: (_, 'x) res)" "builder_ok V b1"
    "i < length (builder_nodes b1)" "length (builder_nodes b) \<le> length (builder_nodes b1)" by (rule growsE)
  from Cons.prems(1) have "(\<Union>(p, e) \<in> set es. expr_vars e) \<subseteq> V" by auto
  from Cons.IH [OF this 1(2)] obtain "is" b2 where 2: "add_exprs es b1 = (Ok (is, b2) :: (_, 'x) res)" "builder_ok V b2"
    "length is = length es" "\<forall>i \<in> set is. i < length (builder_nodes b2)" "length (builder_nodes b1) \<le> length (builder_nodes b2)"
    by blast
  with 1 pe show ?case by auto
qed auto

definition interaction_vars :: "(nat \<times> 'f symbolic_expression) interaction \<Rightarrow> symbolic_variable set" where
  "interaction_vars i = (\<Union>(p, e) \<in> set (count i # message i). expr_vars e)"

definition interaction_in_range :: "nat \<Rightarrow> nat interaction \<Rightarrow> bool" where
  "interaction_in_range n j \<longleftrightarrow> (\<forall>k \<in> set (count j # message j). k < n)"

lemma add_interaction_grows:
  assumes "interaction_vars i \<subseteq> V" and "builder_ok V b"
  shows "\<exists>j b'. add_interaction i b = (Ok (j, b') :: (_, 'x) res) \<and> builder_ok V b' \<and> length (message j) = length (message i) \<and>
     bus_index j = bus_index i \<and> count_weight j = count_weight i \<and> interaction_in_range (length (builder_nodes b')) j \<and>
     length (builder_nodes b) \<le> length (builder_nodes b')"
proof -
  from assms(1) have "(\<Union>(p, e) \<in> set (message i). expr_vars e) \<subseteq> V" "expr_vars (snd (count i)) \<subseteq> V"
    by (auto simp: interaction_vars_def split: prod.splits)
  note v = this
  from add_exprs_grows [OF v(1) assms(2)] obtain fs b1 where 1: "add_exprs (message i) b = (Ok (fs, b1) :: (_, 'x) res)" "builder_ok V b1"
    "length fs = length (message i)" "\<forall>i \<in> set fs. i < length (builder_nodes b1)" "length (builder_nodes b) \<le> length (builder_nodes b1)"
    by blast
  from add_expr_grows [OF v(2) 1(2)] obtain c b2 where 2: "add_expr (fst (count i)) (snd (count i)) b1 = (Ok (c, b2) :: (_, 'x) res)"
    "builder_ok V b2" "c < length (builder_nodes b2)" "length (builder_nodes b1) \<le> length (builder_nodes b2)" by (rule growsE)
  from 1 2 show ?thesis by (auto simp: add_interaction_def interaction_in_range_def intro: less_le_trans)
qed

lemma add_interactions_grows:
  "\<forall>i \<in> set is. interaction_vars i \<subseteq> V \<Longrightarrow> builder_ok V b \<Longrightarrow>
   \<exists>js b'. add_interactions is b = (Ok (js, b') :: (_, 'x) res) \<and> builder_ok V b' \<and>
     map (\<lambda>j. (length (message j), bus_index j, count_weight j)) js
       = map (\<lambda>i. (length (message i), bus_index i, count_weight i)) is \<and>
     (\<forall>j \<in> set js. interaction_in_range (length (builder_nodes b')) j) \<and>
     length (builder_nodes b) \<le> length (builder_nodes b')"
proof (induction "is" arbitrary: b)
  case (Cons i "is")
  from Cons.prems have "interaction_vars i \<subseteq> V" by simp
  from add_interaction_grows [OF this Cons.prems(2)] obtain j b1 where 1: "add_interaction i b = (Ok (j, b1) :: (_, 'x) res)" "builder_ok V b1"
    "length (message j) = length (message i)" "bus_index j = bus_index i" "count_weight j = count_weight i"
    "interaction_in_range (length (builder_nodes b1)) j" "length (builder_nodes b) \<le> length (builder_nodes b1)" by blast
  from Cons.prems have "\<forall>i \<in> set is. interaction_vars i \<subseteq> V" by simp
  from Cons.IH [OF this 1(2)] obtain js b2 where 2: "add_interactions is b1 = (Ok (js, b2) :: (_, 'x) res)" "builder_ok V b2"
    "map (\<lambda>j. (length (message j), bus_index j, count_weight j)) js
       = map (\<lambda>i. (length (message i), bus_index i, count_weight i)) is"
    "\<forall>j \<in> set js. interaction_in_range (length (builder_nodes b2)) j"
    "length (builder_nodes b1) \<le> length (builder_nodes b2)" by (elim exE conjE) (rule that)
  have "interaction_in_range (length (builder_nodes b2)) j"
    using 1(6) 2(5) by (auto simp: interaction_in_range_def)
  with 1 2 show ?case by simp
qed auto

text \<open>What key generation and the verifier rely on.\<close>

definition wf_dag :: "symbolic_variable set \<Rightarrow> 'f symbolic_constraints_dag \<Rightarrow> bool" where
  "wf_dag V dag \<longleftrightarrow> topological (dag_nodes (dag_constraints dag)) \<and>
     (\<forall>v. VariableNode v \<in> set (dag_nodes (dag_constraints dag)) \<longrightarrow> v \<in> V) \<and>
     (\<forall>i \<in> set (constraint_idx (dag_constraints dag)). i < length (dag_nodes (dag_constraints dag))) \<and>
     (\<forall>j \<in> set (dag_interactions dag). interaction_in_range (length (dag_nodes (dag_constraints dag))) j)"

definition air_vars ::
  "(nat \<times> 'f symbolic_expression) list \<Rightarrow> (nat \<times> 'f symbolic_expression) interaction list \<Rightarrow> symbolic_variable set" where
  "air_vars constraints interactions = (\<Union>(p, e) \<in> set constraints. expr_vars e) \<union> (\<Union>i \<in> set interactions. interaction_vars i)"

lemma build_dag_shape:
  "\<exists>dag. build_symbolic_constraints_dag constraints interactions = (Ok dag :: (_, 'x) res) \<and> wf_dag (air_vars constraints interactions) dag \<and>
     map (\<lambda>j. (length (message j), bus_index j, count_weight j)) (dag_interactions dag)
       = map (\<lambda>i. (length (message i), bus_index i, count_weight i)) interactions"
proof -
  let ?V = "air_vars constraints interactions"
  have V: "(\<Union>(p, e) \<in> set constraints. expr_vars e) \<subseteq> ?V" "\<forall>i \<in> set interactions. interaction_vars i \<subseteq> ?V"
    by (auto simp: air_vars_def)
  from add_exprs_grows [OF V(1) builder_ok_new] obtain cs b1 where 1: "add_exprs constraints dag_builder_new = (Ok (cs, b1) :: (_, 'x) res)"
    "builder_ok ?V b1" "\<forall>i \<in> set cs. i < length (builder_nodes b1)" by blast
  from add_interactions_grows [OF V(2) 1(2)] obtain js b2 where 2: "add_interactions interactions b1 = (Ok (js, b2) :: (_, 'x) res)"
    "builder_ok ?V b2"
    "map (\<lambda>j. (length (message j), bus_index j, count_weight j)) js
       = map (\<lambda>i. (length (message i), bus_index i, count_weight i)) interactions"
    "\<forall>j \<in> set js. interaction_in_range (length (builder_nodes b2)) j"
    "length (builder_nodes b1) \<le> length (builder_nodes b2)" by blast
  have "\<forall>i \<in> set (remdups_adj (sort cs)). i < length (builder_nodes b2)" using 1(3) 2(5) by auto
  with 1 2 show ?thesis
    by (auto simp: build_symbolic_constraints_dag_def wf_dag_def builder_ok_def Let_def)
qed

end
