(* ===== verification/Keygen.thy ===== *)
theory Keygen
  imports Config DagShape ProofCodec
begin

text \<open>
  Key generation (\<open>keygen/\<close>): the verifying keys, the checks of an AIR, the unused variables
  and the linear constraints on the trace heights. What \<open>Air::eval\<close> leaves in the symbolic
  builder and the commitment to a preprocessed trace are inputs (\<open>air_keygen\<close>): they come
  from code outside this component. Widths are lengths of vectors in memory and are naturals.
\<close>

section \<open>Keys\<close>

record trace_width =
  tw_preprocessed :: "nat option"
  tw_cached_mains :: "nat list"
  tw_common_main :: nat

definition main_widths :: "trace_width \<Rightarrow> nat list" where
  "main_widths w = tw_cached_mains w @ (if tw_common_main w \<noteq> 0 then [tw_common_main w] else [])"

definition main_width :: "trace_width \<Rightarrow> nat" where
  "main_width w = sum_list (tw_cached_mains w) + tw_common_main w"

definition total_width :: "trace_width \<Rightarrow> nat" where
  "total_width w = (case tw_preprocessed w of None \<Rightarrow> 0 | Some p \<Rightarrow> p) + main_width w"

record linear_constraint =
  coefficients :: "nat list"
  threshold :: nat

definition is_implied_by :: "linear_constraint \<Rightarrow> linear_constraint \<Rightarrow> bool" where
  "is_implied_by c other \<longleftrightarrow> threshold other \<le> threshold c \<and>
     list_all (\<lambda>(a, b). a \<le> b) (zip (coefficients c) (coefficients other))"

datatype keygen_error =
    AirWidthZero string
  | AirNoConstraintsOrInteractions string
  | InteractionMessageEmpty string nat
  | MaxConstraintDegreeExceeded string nat nat

record stark_verifying_params =
  vp_width :: trace_width
  num_public_values :: nat
  need_rot :: bool

record 'd preprocessed_vdata =
  prep_commit :: 'd
  hypercube_dim :: int
  stacking_width :: nat

record ('f, 'd) stark_verifying_key =
  preprocessed_data :: "'d preprocessed_vdata option"
  vk_params :: stark_verifying_params
  vk_constraints :: "'f symbolic_constraints_dag"
  vk_max_constraint_degree :: nat
  is_required :: bool
  unused_variables :: "symbolic_variable list"

record ('f, 'd) multi_stark_vk0 =
  mvk_params :: system_params
  per_air :: "('f, 'd) stark_verifying_key list"
  trace_height_constraints :: "linear_constraint list"

record ('f, 'd) multi_stark_vk =
  mvk_inner :: "('f, 'd) multi_stark_vk0"
  mvk_pre_hash :: 'd

text \<open>The prover's data of the preprocessed trace is not part of the model of a proving key.\<close>

record ('f, 'd) stark_proving_key =
  air_name :: string
  pk_vk :: "('f, 'd) stark_verifying_key"

record ('f, 'd) multi_stark_pk =
  mpk_per_air :: "('f, 'd) stark_proving_key list"
  mpk_trace_height_constraints :: "linear_constraint list"
  mpk_max_constraint_degree :: nat
  mpk_params :: system_params
  vk_pre_hash :: 'd

definition num_cached_mains :: "('f, 'd) stark_verifying_key \<Rightarrow> nat" where
  "num_cached_mains vk = length (tw_cached_mains (vp_width (vk_params vk)))"

definition num_parts :: "('f, 'd) stark_verifying_key \<Rightarrow> nat" where
  "num_parts vk = 1 + num_cached_mains vk + of_bool (preprocessed_data vk \<noteq> None)"

definition has_interaction :: "('f, 'd) stark_verifying_key \<Rightarrow> bool" where
  "has_interaction vk \<longleftrightarrow> dag_interactions (vk_constraints vk) \<noteq> []"

definition num_interactions :: "('f, 'd) stark_verifying_key \<Rightarrow> nat" where
  "num_interactions vk = length (dag_interactions (vk_constraints vk))"

definition dag_main_part_index_to_commit_index :: "('f, 'd) stark_verifying_key \<Rightarrow> nat \<Rightarrow> nat" where
  "dag_main_part_index_to_commit_index vk i =
     (if i = num_cached_mains vk then 0 else i + 1 + of_bool (preprocessed_data vk \<noteq> None))"

definition get_vk0 :: "('f, 'd) multi_stark_pk \<Rightarrow> ('f, 'd) multi_stark_vk0" where
  "get_vk0 pk = \<lparr>mvk_params = mpk_params pk, per_air = map pk_vk (mpk_per_air pk),
     trace_height_constraints = mpk_trace_height_constraints pk\<rparr>"

definition get_vk :: "('f, 'd) multi_stark_pk \<Rightarrow> ('f, 'd) multi_stark_vk" where
  "get_vk pk = \<lparr>mvk_inner = get_vk0 pk, mvk_pre_hash = vk_pre_hash pk\<rparr>"

section \<open>Unused variables\<close>

text \<open>A table row per column, with a flag for the local and one for the next row.\<close>

type_synonym presence = "bool list list"

definition mark_cell :: "presence \<Rightarrow> nat \<Rightarrow> nat \<Rightarrow> (presence, 'e) res" where
  "mark_cell tbl i offset =
     rbind (index tbl i) (\<lambda>row. rbind (assert_that (offset < length row)) (\<lambda>_.
     Ok (tbl[i := row[offset := True]])))"

definition mark_present ::
  "'f symbolic_expression_node \<Rightarrow> presence \<times> presence list \<Rightarrow> (presence \<times> presence list, 'e) res" where
  "mark_present node = (\<lambda>(prep, main). case node of
       VariableNode var \<Rightarrow> (case var_entry var of
           Preprocessed offset \<Rightarrow> rbind (mark_cell prep (var_index var) offset) (\<lambda>prep. Ok (prep, main))
         | Main part_index offset \<Rightarrow>
             rbind (index main part_index) (\<lambda>part.
             rbind (mark_cell part (var_index var) offset) (\<lambda>part. Ok (prep, main[part_index := part])))
         | Public \<Rightarrow> Ok (prep, main)
         | Challenge \<Rightarrow> Panic)
     | _ \<Rightarrow> Ok (prep, main))"

definition absent_cells :: "bool \<Rightarrow> (nat \<Rightarrow> entry) \<Rightarrow> presence \<Rightarrow> symbolic_variable list" where
  "absent_cells rot mk tbl =
     concat (map (\<lambda>(i, presents). concat (map (\<lambda>(offset, present).
         if \<not> present \<and> (offset = 0 \<or> rot) then [SymbolicVariable (mk offset) i] else [])
       (enumerated presents))) (enumerated tbl))"

definition find_unused_vars ::
  "'f symbolic_constraints_dag \<Rightarrow> trace_width \<Rightarrow> bool \<Rightarrow> (symbolic_variable list, 'e) res" where
  "find_unused_vars constraints width rot =
     (let preprocessed_width = (case tw_preprocessed width of None \<Rightarrow> 0 | Some w \<Rightarrow> w);
          prep = replicate preprocessed_width [False, False];
          main = map (\<lambda>w. replicate w [False, False]) (main_widths width) in
      rbind (rfold mark_present (dag_nodes (dag_constraints constraints)) (prep, main)) (\<lambda>(prep, main).
      Ok (absent_cells rot Preprocessed prep @
          concat (map (\<lambda>(part_index, tbl). absent_cells rot (Main part_index) tbl) (enumerated main)))))"

section \<open>The key of one AIR\<close>

text \<open>
  An AIR as key generation sees it: its widths, the verifier data and the width of its
  preprocessed trace, the number of its public values, and the constraints and interactions
  its \<open>eval\<close> has pushed to the symbolic builder, each expression with its address.
\<close>

record ('f, 'd) air_keygen =
  ak_name :: string
  ak_is_required :: bool
  ak_prep :: "('d preprocessed_vdata \<times> nat) option"
  ak_cached_mains :: "nat list"
  ak_common_main :: nat
  ak_num_public_values :: nat
  ak_constraints :: "(nat \<times> 'f symbolic_expression) list"
  ak_interactions :: "(nat \<times> 'f symbolic_expression) interaction list"

definition air_trace_width :: "('f, 'd) air_keygen \<Rightarrow> trace_width" where
  "air_trace_width a = \<lparr>tw_preprocessed = map_option snd (ak_prep a), tw_cached_mains = ak_cached_mains a,
     tw_common_main = ak_common_main a\<rparr>"

definition drop_address :: "(nat \<times> 'f symbolic_expression) interaction \<Rightarrow> 'f symbolic_expression interaction" where
  "drop_address i = \<lparr>message = map snd (message i), count = snd (count i), bus_index = bus_index i,
     count_weight = count_weight i\<rparr>"

definition air_generate_pk ::
  "('f::field, 'd) air_keygen \<Rightarrow> nat \<Rightarrow> (('f, 'd) stark_proving_key, keygen_error) res" where
  "air_generate_pk a max_degree =
     (let width = air_trace_width a in
      rbind (ensure_that (main_width width \<noteq> 0) (AirWidthZero (ak_name a))) (\<lambda>_.
      rbind (ensure_that (\<not> (ak_constraints a = [] \<and> ak_interactions a = []))
              (AirNoConstraintsOrInteractions (ak_name a))) (\<lambda>_.
      rbind (case find (\<lambda>(_, i). message i = []) (enumerated (ak_interactions a)) of
               Some (interaction_index, _) \<Rightarrow> Err (InteractionMessageEmpty (ak_name a) interaction_index)
             | None \<Rightarrow> Ok ()) (\<lambda>_.
      let degree = max_constraint_degree_of \<lparr>sc_constraints = map snd (ak_constraints a),
                     sc_interactions = map drop_address (ak_interactions a)\<rparr> in
      rbind (ensure_that (degree \<le> max_degree) (MaxConstraintDegreeExceeded (ak_name a) degree max_degree)) (\<lambda>_.
      rbind (build_symbolic_constraints_dag (ak_constraints a) (ak_interactions a)) (\<lambda>dag.
      let rotation = max_rotation (dag_constraints dag) in
      rbind (assert_that (rotation \<le> 1)) (\<lambda>_.
      let rot = (rotation = 1) in
      rbind (find_unused_vars dag width rot) (\<lambda>unused.
      rbind (assert_that (degree < 2 ^ 8)) (\<lambda>_.
      Ok \<lparr>air_name = ak_name a,
          pk_vk = \<lparr>preprocessed_data = map_option fst (ak_prep a),
            vk_params = \<lparr>vp_width = width, num_public_values = ak_num_public_values a, need_rot = rot\<rparr>,
            vk_constraints = dag, vk_max_constraint_degree = degree, is_required = ak_is_required a,
            unused_variables = unused\<rparr>\<rparr>)))))))))"

section \<open>Constraints on the trace heights\<close>

definition add32 :: "nat \<Rightarrow> nat \<Rightarrow> (nat, 'e) res" where
  "add32 a b = (if a + b < 2 ^ 32 then Ok (a + b) else Panic)"

text \<open>The hash map from buses to constraints, as the list of its entries.\<close>

type_synonym bus_constraints = "(nat \<times> linear_constraint) list"

fun bus_entry ::
  "nat \<Rightarrow> linear_constraint \<Rightarrow> (linear_constraint \<Rightarrow> (linear_constraint, 'e) res) \<Rightarrow> bus_constraints
     \<Rightarrow> (bus_constraints, 'e) res" where
  "bus_entry b fresh upd [] = rbind (upd fresh) (\<lambda>c. Ok [(b, c)])"
| "bus_entry b fresh upd ((b', c) # m) =
     (if b' = b then rbind (upd c) (\<lambda>c. Ok ((b', c) # m))
      else rbind (bus_entry b fresh upd m) (\<lambda>m. Ok ((b', c) # m)))"

definition bump_coefficient :: "nat \<Rightarrow> nat \<Rightarrow> linear_constraint \<Rightarrow> (linear_constraint, 'e) res" where
  "bump_coefficient air_idx weight c =
     rbind (index (coefficients c) air_idx) (\<lambda>old.
     rbind (add32 old weight) (\<lambda>new. Ok (c\<lparr>coefficients := (coefficients c)[air_idx := new]\<rparr>)))"

definition add_interaction_weight ::
  "logup_params \<Rightarrow> nat \<Rightarrow> nat \<Rightarrow> nat \<Rightarrow> nat interaction \<Rightarrow> bus_constraints \<Rightarrow> (bus_constraints, 'e) res" where
  "add_interaction_weight lp num_airs base_order air_idx i m =
     rbind (max_message_length lp) (\<lambda>max_msg_len.
     rbind (assert_that (length (message i) + 1 \<le> max_msg_len)) (\<lambda>_.
     bus_entry (bus_index i) \<lparr>coefficients = replicate num_airs 0, threshold = base_order\<rparr>
       (bump_coefficient air_idx (count_weight i)) m))"

definition add_air_weights ::
  "logup_params \<Rightarrow> nat \<Rightarrow> nat \<Rightarrow> nat \<times> ('f, 'd) stark_proving_key \<Rightarrow> nat list \<times> bus_constraints
     \<Rightarrow> (nat list \<times> bus_constraints, 'e) res" where
  "add_air_weights lp num_airs base_order = (\<lambda>(air_idx, pk) (num_per_air, m).
     let interactions = dag_interactions (vk_constraints (pk_vk pk)) in
     rbind (assert_that (length interactions < 2 ^ 32)) (\<lambda>_.
     rbind (rfold (add_interaction_weight lp num_airs base_order air_idx) interactions m) (\<lambda>m.
     Ok (num_per_air @ [length interactions], m))))"

text \<open>One step of the minimisation loop.\<close>

definition minimize_step :: "linear_constraint \<Rightarrow> linear_constraint list \<Rightarrow> linear_constraint list" where
  "minimize_step c kept =
     (if list_ex (is_implied_by c) kept then kept
      else filter (\<lambda>k. \<not> is_implied_by k c) kept @ [c])"

definition minimize_constraints :: "linear_constraint list \<Rightarrow> linear_constraint list" where
  "minimize_constraints all_constraints = fold minimize_step all_constraints []"

definition all_height_constraints ::
  "logup_params \<Rightarrow> nat \<Rightarrow> ('f, 'd) stark_proving_key list \<Rightarrow> (linear_constraint list, 'e) res" where
  "all_height_constraints lp base_order pks =
     rbind (rfold (add_air_weights lp (length pks) base_order) (enumerated pks) ([], [])) (\<lambda>(num_per_air, m).
     Ok (map snd (sort_key fst m) @ [\<lparr>coefficients = num_per_air, threshold = max_interaction_count lp\<rparr>]))"

text \<open>
  The hash of the key: the codec version and the length of the serialised key, then its
  bytes, each as a field element. The serialiser and the hasher are libraries.
\<close>

definition u64_to_le_bytes :: "nat \<Rightarrow> u8 list" where
  "u64_to_le_bytes n = map (\<lambda>i. of_nat (n div 256 ^ i)) [0..<8]"

definition pre_hash_of ::
  "('f::field list \<Rightarrow> 'd) \<Rightarrow> (('f, 'd) multi_stark_vk0 \<Rightarrow> u8 list) \<Rightarrow> ('f, 'd) multi_stark_vk0 \<Rightarrow> 'd" where
  "pre_hash_of hash_slice postcard pre_vk =
     (let vk_bytes = postcard pre_vk in
      hash_slice (map (\<lambda>b. of_nat (unat b)) (u32_to_le_bytes codec_version @
        u64_to_le_bytes (length vk_bytes) @ vk_bytes)))"

definition generate_pk ::
  "('f::field list \<Rightarrow> 'd) \<Rightarrow> (('f, 'd) multi_stark_vk0 \<Rightarrow> u8 list) \<Rightarrow> nat \<Rightarrow> system_params
     \<Rightarrow> ('f, 'd) air_keygen list \<Rightarrow> (('f, 'd) multi_stark_pk, keygen_error) res" where
  "generate_pk hash_slice postcard field_order params airs =
     rbind (rmap (\<lambda>a. air_generate_pk a (max_constraint_degree params)) airs) (\<lambda>pks.
     rbind (all_height_constraints (logup params) (field_order mod 2 ^ 32) pks) (\<lambda>all_constraints.
     let kept = minimize_constraints all_constraints;
         pre_vk = \<lparr>mvk_params = params, per_air = map pk_vk pks, trace_height_constraints = kept\<rparr> in
     Ok \<lparr>mpk_per_air = pks, mpk_trace_height_constraints = kept,
         mpk_max_constraint_degree = max_constraint_degree params, mpk_params = params,
         vk_pre_hash = pre_hash_of hash_slice postcard pre_vk\<rparr>))"

section \<open>The minimised constraints\<close>

text \<open>What a constraint says of the lifted trace heights.\<close>

definition satisfies :: "nat list \<Rightarrow> linear_constraint \<Rightarrow> bool" where
  "satisfies ns c \<longleftrightarrow> sum_list (map2 (*) (coefficients c) ns) < threshold c"

lemma sum_list_map2_mono:
  "length xs = length ys \<Longrightarrow> list_all (\<lambda>(a, b). a \<le> b) (zip xs ys) \<Longrightarrow>
   sum_list (map2 (*) xs ns) \<le> (sum_list (map2 (*) ys ns) :: nat)"
proof (induction xs ys arbitrary: ns rule: list_induct2)
  case (Cons x xs y ys)
  then show ?case by (cases ns) (auto intro: add_mono)
qed simp

lemma implied_satisfies:
  assumes "is_implied_by c other" and "length (coefficients c) = length (coefficients other)" and "satisfies ns other"
  shows "satisfies ns c"
proof -
  have "sum_list (map2 (*) (coefficients c) ns) \<le> sum_list (map2 (*) (coefficients other) ns)"
    using assms(1,2) by (intro sum_list_map2_mono) (auto simp: is_implied_by_def)
  with assms(1,3) show ?thesis by (auto simp: satisfies_def is_implied_by_def)
qed

definition same_length :: "nat \<Rightarrow> linear_constraint list \<Rightarrow> bool" where
  "same_length n cs \<longleftrightarrow> (\<forall>c \<in> set cs. length (coefficients c) = n)"

definition irredundant :: "linear_constraint list \<Rightarrow> bool" where
  "irredundant cs \<longleftrightarrow> sorted_wrt (\<lambda>c d. \<not> is_implied_by c d \<and> \<not> is_implied_by d c) cs"

lemma minimize_step_satisfies:
  assumes "same_length n (c # kept)"
  shows "(\<forall>k \<in> set (minimize_step c kept). satisfies ns k) \<longleftrightarrow> (\<forall>k \<in> set (c # kept). satisfies ns k)"
proof (cases "list_ex (is_implied_by c) kept")
  case True
  then obtain k where "k \<in> set kept" "is_implied_by c k" by (auto simp: list_ex_iff)
  with assms True show ?thesis by (auto simp: minimize_step_def same_length_def intro: implied_satisfies)
next
  case False
  then show ?thesis using assms by (auto simp: minimize_step_def same_length_def intro: implied_satisfies)
qed

lemma minimize_step_keeps:
  assumes "same_length n (c # kept)" and "irredundant kept"
  shows "same_length n (minimize_step c kept)" and "irredundant (minimize_step c kept)"
  using assms by (auto simp: minimize_step_def same_length_def irredundant_def sorted_wrt_append list_ex_iff
      intro: sorted_wrt_filter)

lemma minimize_fold:
  "same_length n (cs @ kept) \<Longrightarrow> irredundant kept \<Longrightarrow>
   irredundant (fold minimize_step cs kept) \<and> same_length n (fold minimize_step cs kept) \<and>
   ((\<forall>k \<in> set (fold minimize_step cs kept). satisfies ns k) \<longleftrightarrow> (\<forall>k \<in> set (cs @ kept). satisfies ns k))"
proof (induction cs arbitrary: kept)
  case (Cons c cs)
  then have len: "same_length n (c # kept)" by (auto simp: same_length_def)
  note keeps = minimize_step_keeps [OF len Cons.prems(2)]
  have "same_length n (cs @ minimize_step c kept)" using Cons.prems(1) keeps(1) by (auto simp: same_length_def)
  from Cons.IH [OF this keeps(2)] minimize_step_satisfies [OF len, of ns] show ?case by auto
qed simp

lemma minimize_constraints_equivalent:
  assumes "same_length n cs"
  shows "(\<forall>c \<in> set (minimize_constraints cs). satisfies ns c) \<longleftrightarrow> (\<forall>c \<in> set cs. satisfies ns c)"
    and "irredundant (minimize_constraints cs)" and "same_length n (minimize_constraints cs)"
  using minimize_fold [of n cs "[]" ns] assms by (simp_all add: minimize_constraints_def irredundant_def)

section \<open>The weights per bus\<close>

text \<open>The interactions seen so far, each with the index of its AIR, and what the map holds for them.\<close>

definition bus_weight :: "(nat \<times> nat interaction) list \<Rightarrow> nat \<Rightarrow> nat \<Rightarrow> nat" where
  "bus_weight done b a = sum_list (map (\<lambda>(a', i). if a' = a \<and> bus_index i = b then count_weight i else 0) done)"

definition bus_map_inv :: "nat \<Rightarrow> nat \<Rightarrow> (nat \<times> nat interaction) list \<Rightarrow> bus_constraints \<Rightarrow> bool" where
  "bus_map_inv n base done m \<longleftrightarrow> distinct (map fst m) \<and>
     (\<forall>b. map_of m b = (if b \<in> (\<lambda>(_, i). bus_index i) ` set done
        then Some \<lparr>coefficients = map (bus_weight done b) [0..<n], threshold = base\<rparr> else None))"

lemma bus_entry_keys:
  "bus_entry b fresh upd m = Ok m' \<Longrightarrow> distinct (map fst m) \<Longrightarrow>
   distinct (map fst m') \<and> set (map fst m') = insert b (set (map fst m))"
proof (induction m arbitrary: m')
  case (Cons bc m)
  obtain b' c where bc: "bc = (b', c)" by force
  show ?case
  proof (cases "b' = b")
    case False
    with Cons.prems(1) bc obtain m1 where m1: "bus_entry b fresh upd m = Ok m1" "m' = (b', c) # m1"
      by (auto simp: res_simps)
    from Cons.IH [OF m1(1)] Cons.prems(2) bc False m1(2) show ?thesis by auto
  qed (use Cons.prems bc in \<open>auto simp: res_simps\<close>)
qed (auto simp: res_simps)

lemma bus_entry_map_of:
  "bus_entry b fresh upd m = Ok m' \<Longrightarrow>
   \<exists>c. upd (case map_of m b of None \<Rightarrow> fresh | Some c \<Rightarrow> c) = Ok c \<and> map_of m' = (map_of m)(b \<mapsto> c)"
proof (induction m arbitrary: m')
  case (Cons bc m)
  obtain b' c where bc: "bc = (b', c)" by force
  show ?case
  proof (cases "b' = b")
    case False
    with Cons.prems(1) bc obtain m1 where m1: "bus_entry b fresh upd m = Ok m1" "m' = (b', c) # m1"
      by (auto simp: res_simps)
    from Cons.IH [OF m1(1)] bc False m1(2) show ?thesis by (auto simp: fun_eq_iff)
  qed (use Cons.prems bc in \<open>auto simp: res_simps fun_eq_iff\<close>)
qed (auto simp: res_simps)

lemma bus_weight_snoc: "bus_weight (done @ [(a, i)]) b a' =
    bus_weight done b a' + (if a = a' \<and> bus_index i = b then count_weight i else 0)"
  by (simp add: bus_weight_def)

lemma bus_weight_absent: "b \<notin> (\<lambda>(_, i). bus_index i) ` set done \<Longrightarrow> bus_weight done b a = 0"
  by (induction "done") (auto simp: bus_weight_def split: if_splits)

lemma bus_map_step:
  assumes inv: "bus_map_inv n base done m"
    and step: "bus_entry (bus_index i) \<lparr>coefficients = replicate n 0, threshold = base\<rparr> (bump_coefficient a (count_weight i)) m = (Ok m' :: (_, 'e) res)"
  shows "bus_map_inv n base (done @ [(a, i)]) m'"
proof -
  let ?b = "bus_index i"
  have "(case map_of m ?b of None \<Rightarrow> \<lparr>coefficients = replicate n 0, threshold = base\<rparr> | Some c \<Rightarrow> c)
      = \<lparr>coefficients = map (bus_weight done ?b) [0..<n], threshold = base\<rparr>"
  proof (cases "?b \<in> (\<lambda>(_, i). bus_index i) ` set done")
    case False
    have "replicate n 0 = map (bus_weight done ?b) [0..<n]"
      by (rule nth_equalityI) (simp_all add: bus_weight_absent [OF False])
    with False inv show ?thesis by (simp add: bus_map_inv_def)
  qed (use inv in \<open>simp add: bus_map_inv_def\<close>)
  with bus_entry_map_of [OF step] obtain c where
    c: "bump_coefficient a (count_weight i) \<lparr>coefficients = map (bus_weight done ?b) [0..<n], threshold = base\<rparr> = (Ok c :: (_, 'e) res)"
      "map_of m' = (map_of m)(?b \<mapsto> c)"
    by (elim exE conjE) (rule that, simp_all)
  have dist: "distinct (map fst m')" using bus_entry_keys [OF step] inv by (simp add: bus_map_inv_def)
  from c(1) have "c = \<lparr>coefficients = (map (bus_weight done ?b) [0..<n])[a := bus_weight done ?b a + count_weight i], threshold = base\<rparr>"
    "a < n"
    by (auto simp: bump_coefficient_def res_simps add32_def split: if_splits)
  moreover have "(map (bus_weight done ?b) [0..<n])[a := bus_weight done ?b a + count_weight i]
      = map (bus_weight (done @ [(a, i)]) ?b) [0..<n]" if "a < n"
    by (rule nth_equalityI) (use that in \<open>auto simp: bus_weight_snoc nth_list_update\<close>)
  ultimately have "c = \<lparr>coefficients = map (bus_weight (done @ [(a, i)]) ?b) [0..<n], threshold = base\<rparr>" by simp
  with c(2) dist inv show ?thesis by (auto simp: bus_map_inv_def bus_weight_snoc image_iff)
qed

lemma air_weights:
  "rfold (add_interaction_weight lp n base a) is m = (Ok m' :: (_, 'e) res) \<Longrightarrow> bus_map_inv n base done m \<Longrightarrow>
   bus_map_inv n base (done @ map (Pair a) is) m'"
proof (induction "is" arbitrary: "done" m)
  case (Cons i "is")
  from Cons.prems(1) obtain m1 where m1: "add_interaction_weight lp n base a i m = (Ok m1 :: (_, 'e) res)"
    "rfold (add_interaction_weight lp n base a) is m1 = (Ok m' :: (_, 'e) res)" by (auto simp: res_simps)
  from m1(1) obtain k where "bus_entry (bus_index i) \<lparr>coefficients = replicate n 0, threshold = base\<rparr>
      (bump_coefficient a (count_weight i)) m = (Ok m1 :: (_, 'e) res)"
    by (auto simp: add_interaction_weight_def res_simps)
  from Cons.IH [OF m1(2) bus_map_step [OF Cons.prems(2) this]] show ?case by simp
qed simp

definition key_interactions :: "('f, 'd) stark_proving_key \<Rightarrow> nat interaction list" where
  "key_interactions pk = dag_interactions (vk_constraints (pk_vk pk))"

definition indexed_interactions :: "(nat \<times> ('f, 'd) stark_proving_key) list \<Rightarrow> (nat \<times> nat interaction) list" where
  "indexed_interactions ips = concat (map (\<lambda>(a, pk). map (Pair a) (key_interactions pk)) ips)"

lemma all_weights:
  "rfold (add_air_weights lp n base) ips (nums, m) = (Ok (nums', m') :: (_, 'e) res) \<Longrightarrow> bus_map_inv n base done m \<Longrightarrow>
   bus_map_inv n base (done @ indexed_interactions ips) m' \<and> nums' = nums @ map (\<lambda>(a, pk). length (key_interactions pk)) ips"
proof (induction ips arbitrary: nums m "done")
  case (Cons ip ips)
  obtain a pk where ip: "ip = (a, pk)" by force
  from Cons.prems(1) ip obtain m1 where m1: "rfold (add_interaction_weight lp n base a) (key_interactions pk) m = (Ok m1 :: (_, 'e) res)"
    "rfold (add_air_weights lp n base) ips (nums @ [length (key_interactions pk)], m1) = (Ok (nums', m') :: (_, 'e) res)"
    using that by (auto simp: add_air_weights_def [of lp n base, THEN fun_cong, of "(a, pk)"] res_simps Let_def key_interactions_def)
  from Cons.IH [OF m1(2) air_weights [OF m1(1) Cons.prems(2)]] ip show ?case
    by (simp add: indexed_interactions_def)
qed (simp add: indexed_interactions_def)

text \<open>The weights of a bus in the AIR itself, and the sum over all the AIRs that a constraint bounds.\<close>

definition air_bus_weight :: "('f, 'd) air_keygen \<Rightarrow> nat \<Rightarrow> nat" where
  "air_bus_weight a b = sum_list (map (\<lambda>i. if bus_index i = b then count_weight i else 0) (ak_interactions a))"

definition key_bus_weight :: "('f, 'd) stark_proving_key \<Rightarrow> nat \<Rightarrow> nat" where
  "key_bus_weight pk b = sum_list (map (\<lambda>i. if bus_index i = b then count_weight i else 0) (key_interactions pk))"

lemma bus_weight_append: "bus_weight (xs @ ys) b a = bus_weight xs b a + bus_weight ys b a"
  by (simp add: bus_weight_def)

lemma bus_weight_pairs:
  "bus_weight (map (Pair a) (key_interactions pk)) b a' = (if a = a' then key_bus_weight pk b else 0)"
  by (simp add: bus_weight_def key_bus_weight_def comp_def)

lemma bus_weight_indexed:
  "bus_weight (indexed_interactions (zip [k..<k + length pks] pks)) b a =
     (if k \<le> a \<and> a < k + length pks then key_bus_weight (pks ! (a - k)) b else 0)"
proof (induction pks arbitrary: k)
  case Nil
  then show ?case by (simp add: indexed_interactions_def bus_weight_def)
next
  case (Cons pk pks)
  have "[k..<k + length (pk # pks)] = k # [Suc k..<Suc k + length pks]" by (simp add: upt_conv_Cons del: upt_Suc)
  then have "indexed_interactions (zip [k..<k + length (pk # pks)] (pk # pks))
      = map (Pair k) (key_interactions pk) @ indexed_interactions (zip [Suc k..<Suc k + length pks] pks)"
    by (simp add: indexed_interactions_def)
  with Cons.IH [of "Suc k"] show ?case
    by (auto simp: bus_weight_append bus_weight_pairs nth_Cons' Suc_le_eq)
qed

lemma sum_list_map2_upt:
  "length ns = n \<Longrightarrow> sum_list (map2 (*) (map f [0..<n]) ns) = (\<Sum>a < n. f a * ns ! a :: nat)"
proof (induction ns arbitrary: n rule: rev_induct)
  case (snoc x ns)
  then obtain m where n: "n = Suc m" "length ns = m" by (cases n) auto
  have "(\<Sum>a < m. f a * (ns @ [x]) ! a) = (\<Sum>a < m. f a * ns ! a)"
    by (rule sum.cong) (use n in \<open>auto simp: nth_append\<close>)
  moreover have "(ns @ [x]) ! m = x" using n(2) by (simp add: nth_append)
  ultimately show ?case using snoc.IH [OF n(2)] n by simp
qed simp

lemma snd_image_graph: "(\<And>b c. (b, c) \<in> M \<longleftrightarrow> b \<in> B \<and> c = f b) \<Longrightarrow> snd ` M = f ` B"
  by force

lemma all_height_constraints_mean:
  assumes ok: "all_height_constraints lp base pks = (Ok cs :: (_, 'e) res)" and len: "length ns = length pks" and pos: "0 < base"
  shows "same_length (length pks) cs"
    and "(\<forall>c \<in> set cs. satisfies ns c) \<longleftrightarrow>
      (\<forall>b. (\<Sum>a < length pks. key_bus_weight (pks ! a) b * ns ! a) < base) \<and>
      (\<Sum>a < length pks. length (key_interactions (pks ! a)) * ns ! a) < max_interaction_count lp"
proof -
  let ?n = "length pks"
  let ?done = "indexed_interactions (enumerated pks)"
  let ?last = "\<lparr>coefficients = map (\<lambda>a. length (key_interactions (pks ! a))) [0..<?n], threshold = max_interaction_count lp\<rparr>"
  let ?bus = "\<lambda>b. \<lparr>coefficients = map (bus_weight ?done b) [0..<?n], threshold = base\<rparr>"
  from ok obtain nums m where m: "rfold (add_air_weights lp ?n base) (enumerated pks) ([], []) = (Ok (nums, m) :: (_, 'e) res)"
    "cs = map snd (sort_key fst m) @ [\<lparr>coefficients = nums, threshold = max_interaction_count lp\<rparr>]"
    by (auto simp: all_height_constraints_def res_simps)
  have "bus_map_inv ?n base [] []" by (simp add: bus_map_inv_def)
  from all_weights [OF m(1) this] have inv: "bus_map_inv ?n base ?done m"
    and nums: "nums = map (\<lambda>(a, pk). length (key_interactions pk)) (enumerated pks)" by simp_all
  have nums': "nums = map (\<lambda>a. length (key_interactions (pks ! a))) [0..<?n]"
    unfolding nums by (rule nth_equalityI) simp_all
  have m_entries: "(b, c) \<in> set m \<longleftrightarrow> b \<in> (\<lambda>(_, i). bus_index i) ` set ?done \<and> c = ?bus b" for b c
  proof -
    from inv have d: "distinct (map fst m)"
      and mo: "map_of m b = (if b \<in> (\<lambda>(_, i). bus_index i) ` set ?done then Some (?bus b) else None)"
      unfolding bus_map_inv_def by blast+
    have "(b, c) \<in> set m \<longleftrightarrow> map_of m b = Some c" by (rule map_of_eq_Some_iff [OF d, symmetric])
    then show ?thesis unfolding mo by (simp only: option.inject split: if_split) blast
  qed
  have entries: "set cs = insert ?last (?bus ` (\<lambda>(_, i). bus_index i) ` set ?done)"
  proof -
    have "snd ` set m = ?bus ` (\<lambda>(_, i). bus_index i) ` set ?done"
      by (rule snd_image_graph) (rule m_entries)
    with m(2) nums' show ?thesis by simp
  qed
  show "same_length ?n cs" unfolding same_length_def entries by auto
  have weight: "bus_weight ?done b a = key_bus_weight (pks ! a) b" if "a < ?n" for a b
    using bus_weight_indexed [of 0 pks b a] that by simp
  have sat_bus: "satisfies ns (?bus b) \<longleftrightarrow> (\<Sum>a < ?n. key_bus_weight (pks ! a) b * ns ! a) < base" for b
    using len weight by (simp add: satisfies_def sum_list_map2_upt)
  have quiet: "(\<Sum>a < ?n. key_bus_weight (pks ! a) b * ns ! a) = 0" if "b \<notin> (\<lambda>(_, i). bus_index i) ` set ?done" for b
  proof (rule sum.neutral, rule ballI)
    fix a assume "a \<in> {..<?n}"
    then have "key_bus_weight (pks ! a) b = bus_weight ?done b a" using weight by simp
    then show "key_bus_weight (pks ! a) b * ns ! a = 0" using bus_weight_absent [OF that, of a] by simp
  qed
  show "(\<forall>c \<in> set cs. satisfies ns c) \<longleftrightarrow>
      (\<forall>b. (\<Sum>a < ?n. key_bus_weight (pks ! a) b * ns ! a) < base) \<and>
      (\<Sum>a < ?n. length (key_interactions (pks ! a)) * ns ! a) < max_interaction_count lp"
    (is "?L \<longleftrightarrow> ?B \<and> ?T")
  proof -
    have "satisfies ns ?last \<longleftrightarrow> ?T" using len by (simp add: satisfies_def sum_list_map2_upt)
    moreover have "(\<forall>b \<in> (\<lambda>(_, i). bus_index i) ` set ?done. satisfies ns (?bus b)) \<longleftrightarrow> ?B"
      unfolding sat_bus using quiet pos by metis
    ultimately show ?thesis unfolding entries by blast
  qed
qed

section \<open>The presence tables\<close>

definition present_table :: "'f symbolic_expression_node list \<Rightarrow> (nat \<Rightarrow> entry) \<Rightarrow> nat \<Rightarrow> presence" where
  "present_table done mk w = map (\<lambda>i. map (\<lambda>offset. VariableNode (SymbolicVariable (mk offset) i) \<in> set done) [0..<2]) [0..<w]"

text \<open>A variable that has a cell in the tables of these widths.\<close>

fun has_cell :: "nat \<Rightarrow> nat list \<Rightarrow> symbolic_variable \<Rightarrow> bool" where
  "has_cell w ws (SymbolicVariable (Preprocessed offset) i) = (i < w \<and> offset < 2)"
| "has_cell w ws (SymbolicVariable (Main p offset) i) = (p < length ws \<and> i < ws ! p \<and> offset < 2)"
| "has_cell w ws _ = False"

lemma mark_cell_present:
  assumes "mark_cell (present_table done mk w) i offset = Ok t" and "inj mk"
  shows "i < w \<and> offset < 2 \<and> t = present_table (done @ [VariableNode (SymbolicVariable (mk offset) i)]) mk w"
proof -
  let ?row = "\<lambda>ns. map (\<lambda>offset. VariableNode (SymbolicVariable (mk offset) i) \<in> set ns) [0..<2]"
  let ?n = "VariableNode (SymbolicVariable (mk offset) i)"
  from assms(1) have i: "i < w" and o2: "offset < 2"
    and t: "t = (present_table done mk w)[i := (?row done)[offset := True]]"
    by (auto simp: mark_cell_def res_simps present_table_def)
  have row: "(?row done)[offset := True] = ?row (done @ [?n])"
    by (rule nth_equalityI) (use assms(2) o2 in \<open>auto simp: nth_list_update inj_eq\<close>)
  have "t = present_table (done @ [?n]) mk w"
    unfolding t row by (rule nth_equalityI) (use i in \<open>auto simp: present_table_def nth_list_update\<close>)
  with i o2 show ?thesis by simp
qed

lemma present_table_other:
  "(\<And>offset i. n \<noteq> VariableNode (SymbolicVariable (mk offset) i)) \<Longrightarrow> present_table (done @ [n]) mk w = present_table done mk w"
  by (auto simp: present_table_def)

definition present_tables :: "'f symbolic_expression_node list \<Rightarrow> nat \<Rightarrow> nat list \<Rightarrow> presence \<times> presence list" where
  "present_tables done w ws = (present_table done Preprocessed w, map (\<lambda>p. present_table done (Main p) (ws ! p)) [0..<length ws])"

lemma mark_present_step:
  assumes "mark_present n (present_tables done w ws) = (Ok r :: (_, 'e) res)"
  shows "r = present_tables (done @ [n]) w ws \<and>
     (\<forall>v. n = VariableNode v \<longrightarrow> has_cell w ws v \<or> var_entry v = Public)"
proof (cases "\<exists>v. n = VariableNode v")
  case False
  then have "r = present_tables done w ws" using assms
    by (cases n) (auto simp: mark_present_def present_tables_def)
  with False show ?thesis by (auto simp: present_tables_def present_table_other)
next
  case True
  then obtain e i where n: "n = VariableNode (SymbolicVariable e i)" by (metis symbolic_variable.exhaust)
  show ?thesis
  proof (cases e)
    case (Preprocessed offset)
    with assms n obtain t where t: "mark_cell (present_table done Preprocessed w) i offset = (Ok t :: (_, 'e) res)"
      "r = (t, snd (present_tables done w ws))"
      by (auto simp: mark_present_def present_tables_def res_simps)
    have "inj Preprocessed" by (simp add: inj_def)
    from mark_cell_present [OF t(1) this] t(2) n Preprocessed show ?thesis
      by (auto simp: present_tables_def present_table_other)
  next
    case (Main p offset)
    with assms n obtain part t where t: "index (snd (present_tables done w ws)) p = (Ok part :: (_, 'e) res)"
      "mark_cell part i offset = (Ok t :: (_, 'e) res)"
      "r = (fst (present_tables done w ws), (snd (present_tables done w ws))[p := t])"
      by (auto simp: mark_present_def present_tables_def res_simps)
    then have p: "p < length ws" and part: "part = present_table done (Main p) (ws ! p)"
      by (auto simp: res_simps present_tables_def)
    have "inj (Main p)" by (simp add: inj_def)
    from mark_cell_present [OF t(2) [unfolded part] this]
    have i: "i < ws ! p" "offset < 2" and t': "t = present_table (done @ [n]) (Main p) (ws ! p)" using n Main by simp_all
    have "(snd (present_tables done w ws))[p := t] = snd (present_tables (done @ [n]) w ws)"
      by (rule nth_equalityI) (use p n Main in \<open>auto simp: present_tables_def t' nth_list_update present_table_other\<close>)
    with t(3) i p n Main show ?thesis by (auto simp: present_tables_def present_table_other)
  next
    case Public
    then have "r = present_tables done w ws" using assms n
      by (simp add: mark_present_def present_tables_def)
    with n Public show ?thesis by (auto simp: present_tables_def present_table_other)
  next
    case Challenge
    then show ?thesis using assms n by (simp add: mark_present_def present_tables_def)
  qed
qed

lemma mark_present_fold:
  "rfold mark_present ns (present_tables done w ws) = (Ok r :: (_, 'e) res) \<Longrightarrow>
   r = present_tables (done @ ns) w ws \<and> (\<forall>v. VariableNode v \<in> set ns \<longrightarrow> has_cell w ws v \<or> var_entry v = Public)"
proof (induction ns arbitrary: "done")
  case (Cons n ns)
  from Cons.prems obtain r1 where r1: "mark_present n (present_tables done w ws) = (Ok r1 :: (_, 'e) res)"
    "rfold mark_present ns r1 = (Ok r :: (_, 'e) res)" by (auto simp: res_simps)
  note step = mark_present_step [OF r1(1)]
  from r1(2) step have "rfold mark_present ns (present_tables (done @ [n]) w ws) = (Ok r :: (_, 'e) res)" by simp
  from Cons.IH [OF this] step show ?case by auto
qed simp

lemma zip_upt_map: "zip [0..<n] (map f [0..<n]) = map (\<lambda>i. (i, f i)) [0..<n]"
  by (rule nth_equalityI) simp_all

lemma in_concat_if:
  "x \<in> set (concat (map (\<lambda>(i, p). if Q i p then [f i] else []) (map (\<lambda>i. (i, g i)) [0..<n])))
     \<longleftrightarrow> (\<exists>i < n. x = f i \<and> Q i (g i))"
  by (induction n) (auto simp: less_Suc_eq)

lemma absent_cells_present:
  "SymbolicVariable e i \<in> set (absent_cells rot mk (present_table done mk w)) \<longleftrightarrow>
   i < w \<and> VariableNode (SymbolicVariable e i) \<notin> set done \<and> (\<exists>offset < 2. e = mk offset \<and> (offset = 0 \<or> rot))"
proof -
  have "SymbolicVariable e i \<in> set (absent_cells rot mk (present_table done mk w)) \<longleftrightarrow>
      (\<exists>k < w. SymbolicVariable e i \<in> set (concat (map (\<lambda>(offset, present).
         if \<not> present \<and> (offset = 0 \<or> rot) then [SymbolicVariable (mk offset) k] else [])
       (zip [0..<2] (map (\<lambda>offset. VariableNode (SymbolicVariable (mk offset) k) \<in> set done) [0..<2])))))"
    by (simp add: absent_cells_def present_table_def zip_upt_map)
  also have "\<dots> \<longleftrightarrow> (\<exists>k < w. \<exists>offset < 2. SymbolicVariable e i = SymbolicVariable (mk offset) k \<and>
      VariableNode (SymbolicVariable (mk offset) k) \<notin> set done \<and> (offset = 0 \<or> rot))"
    unfolding zip_upt_map in_concat_if ..
  also have "\<dots> \<longleftrightarrow> i < w \<and> VariableNode (SymbolicVariable e i) \<notin> set done \<and> (\<exists>offset < 2. e = mk offset \<and> (offset = 0 \<or> rot))"
    unfolding symbolic_variable.inject by blast
  finally show ?thesis .
qed

text \<open>The cells of the columns that the verifier opens: the next row only with rotations.\<close>

definition opened_cell :: "trace_width \<Rightarrow> bool \<Rightarrow> symbolic_variable \<Rightarrow> bool" where
  "opened_cell width rot v \<longleftrightarrow>
     has_cell (case tw_preprocessed width of None \<Rightarrow> 0 | Some w \<Rightarrow> w) (main_widths width) v \<and>
     (entry_offset (var_entry v) = Some 0 \<or> rot)"

lemma find_unused_vars_exact:
  assumes "find_unused_vars (dag :: 'f symbolic_constraints_dag) width rot = (Ok unused :: (_, 'e) res)"
  shows "set unused = {v. opened_cell width rot v \<and> VariableNode v \<notin> set (dag_nodes (dag_constraints dag))}"
    and "VariableNode v \<in> set (dag_nodes (dag_constraints dag)) \<Longrightarrow>
      has_cell (case tw_preprocessed width of None \<Rightarrow> 0 | Some w \<Rightarrow> w) (main_widths width) v \<or> var_entry v = Public"
proof -
  let ?w = "case tw_preprocessed width of None \<Rightarrow> 0 | Some w \<Rightarrow> w"
  let ?ws = "main_widths width"
  let ?ns = "dag_nodes (dag_constraints dag)"
  have row: "present_table ([] :: 'f symbolic_expression_node list) mk w = replicate w [False, False]" for mk :: "nat \<Rightarrow> entry" and w
    by (simp add: present_table_def map_replicate_const numeral_2_eq_2)
  have "map (\<lambda>w. replicate w [False, False]) ?ws
      = map (\<lambda>p. present_table ([] :: 'f symbolic_expression_node list) (Main p) (?ws ! p)) [0..<length ?ws]"
    by (rule nth_equalityI) (simp_all add: row)
  then have start: "(replicate ?w [False, False], map (\<lambda>w. replicate w [False, False]) ?ws)
      = present_tables ([] :: 'f symbolic_expression_node list) ?w ?ws"
    by (simp add: present_tables_def row)
  from assms obtain pm where pm: "rfold mark_present ?ns (present_tables ([] :: 'f symbolic_expression_node list) ?w ?ws) = (Ok pm :: (_, 'e) res)"
    "(case pm of (prep, main) \<Rightarrow> Ok (absent_cells rot Preprocessed prep @
        concat (map (\<lambda>(p, tbl). absent_cells rot (Main p) tbl) (enumerated main)))) = (Ok unused :: (_, 'e) res)"
    unfolding find_unused_vars_def Let_def start by (rule rbind_OkE)
  obtain prep main where split: "pm = (prep, main)" by force
  with pm have m: "rfold mark_present ?ns (present_tables ([] :: 'f symbolic_expression_node list) ?w ?ws) = (Ok (prep, main) :: (_, 'e) res)"
    "unused = absent_cells rot Preprocessed prep @ concat (map (\<lambda>(p, tbl). absent_cells rot (Main p) tbl) (enumerated main))"
    by simp_all
  note fold = mark_present_fold [OF m(1)]
  then have prep: "prep = present_table ?ns Preprocessed ?w"
    and main: "main = map (\<lambda>p. present_table ?ns (Main p) (?ws ! p)) [0..<length ?ws]"
    by (simp_all add: present_tables_def)
  show "has_cell ?w ?ws v \<or> var_entry v = Public" if "VariableNode v \<in> set ?ns" using fold that by blast
  have "v \<in> set unused \<longleftrightarrow> opened_cell width rot v \<and> VariableNode v \<notin> set ?ns" for v
  proof -
    obtain e i where v: "v = SymbolicVariable e i" by (cases v)
    have "v \<in> set (concat (map (\<lambda>(p, tbl). absent_cells rot (Main p) tbl) (enumerated main))) \<longleftrightarrow>
        (\<exists>p < length ?ws. v \<in> set (absent_cells rot (Main p) (present_table ?ns (Main p) (?ws ! p))))"
      unfolding main length_map length_upt diff_zero zip_upt_map by (simp add: Bex_def)
    then have "v \<in> set unused \<longleftrightarrow> v \<in> set (absent_cells rot Preprocessed (present_table ?ns Preprocessed ?w)) \<or>
        (\<exists>p < length ?ws. v \<in> set (absent_cells rot (Main p) (present_table ?ns (Main p) (?ws ! p))))"
      unfolding m(2) prep set_append Un_iff by blast
    note mem = this [unfolded v absent_cells_present]
    show ?thesis unfolding v mem
      by (cases e) (simp_all add: opened_cell_def conj_ac)
  qed
  then show "set unused = {v. opened_cell width rot v \<and> VariableNode v \<notin> set ?ns}" by blast
qed

section \<open>Well-formed keys\<close>

text \<open>What the verifier needs of a key in order to evaluate its constraints.\<close>

definition wf_var :: "('f, 'd) stark_verifying_key \<Rightarrow> symbolic_variable \<Rightarrow> bool" where
  "wf_var vk v \<longleftrightarrow> opened_cell (vp_width (vk_params vk)) (need_rot (vk_params vk)) v \<or>
     (var_entry v = Public \<and> var_index v < num_public_values (vk_params vk))"

definition wf_key :: "('f, 'd) stark_verifying_key \<Rightarrow> bool" where
  "wf_key vk \<longleftrightarrow> (tw_preprocessed (vp_width (vk_params vk)) = None \<longleftrightarrow> preprocessed_data vk = None) \<and>
     main_width (vp_width (vk_params vk)) \<noteq> 0 \<and> wf_dag {v. wf_var vk v} (vk_constraints vk)"

lemma max_rotation_fold:
  assumes "0 < k"
  shows "k \<le> fold (\<lambda>node rotation. case node of
       VariableNode v \<Rightarrow> max rotation (case entry_offset (var_entry v) of None \<Rightarrow> 0 | Some k \<Rightarrow> k)
     | _ \<Rightarrow> rotation) ns r \<longleftrightarrow>
     k \<le> r \<or> (\<exists>v offset. VariableNode v \<in> set ns \<and> entry_offset (var_entry v) = Some offset \<and> k \<le> offset)"
proof (induction ns arbitrary: r)
  case (Cons n ns)
  show ?case
  proof (cases "\<exists>v. n = VariableNode v")
    case True
    then obtain v where "n = VariableNode v" ..
    with Cons assms show ?thesis by (cases "entry_offset (var_entry v)") (auto simp: le_max_iff_disj)
  next
    case False
    with Cons show ?thesis by (cases n) auto
  qed
qed simp

lemma max_rotation_iff:
  "0 < k \<Longrightarrow> k \<le> max_rotation dag \<longleftrightarrow>
     (\<exists>v offset. VariableNode v \<in> set (dag_nodes dag) \<and> entry_offset (var_entry v) = Some offset \<and> k \<le> offset)"
  by (simp add: max_rotation_def max_rotation_fold)

lemma air_generate_pk_OkE:
  assumes "air_generate_pk (a :: ('f::field, 'd) air_keygen) d = Ok pk"
  obtains dag unused where
    "build_symbolic_constraints_dag (ak_constraints a) (ak_interactions a) = (Ok dag :: (_, keygen_error) res)"
    and "find_unused_vars dag (air_trace_width a) (max_rotation (dag_constraints dag) = 1) = (Ok unused :: (_, keygen_error) res)"
    and "max_rotation (dag_constraints dag) \<le> 1" and "main_width (air_trace_width a) \<noteq> 0"
    and "max_constraint_degree_of \<lparr>sc_constraints = map snd (ak_constraints a),
           sc_interactions = map drop_address (ak_interactions a)\<rparr> \<le> d"
    and "pk = \<lparr>air_name = ak_name a,
          pk_vk = \<lparr>preprocessed_data = map_option fst (ak_prep a),
            vk_params = \<lparr>vp_width = air_trace_width a, num_public_values = ak_num_public_values a,
              need_rot = (max_rotation (dag_constraints dag) = 1)\<rparr>,
            vk_constraints = dag,
            vk_max_constraint_degree = max_constraint_degree_of \<lparr>sc_constraints = map snd (ak_constraints a),
               sc_interactions = map drop_address (ak_interactions a)\<rparr>,
            is_required = ak_is_required a, unused_variables = unused\<rparr>\<rparr>"
  using assms unfolding air_generate_pk_def Let_def
  by (elim rbind_OkE) (simp add: that)

lemma air_generate_pk_wf:
  assumes ok: "air_generate_pk (a :: ('f::field, 'd) air_keygen) d = Ok pk"
    and public: "\<forall>v \<in> air_vars (ak_constraints a) (ak_interactions a). var_entry v = Public \<longrightarrow> var_index v < ak_num_public_values a"
  shows "wf_key (pk_vk pk)"
    and "set (unused_variables (pk_vk pk)) = {v. opened_cell (vp_width (vk_params (pk_vk pk))) (need_rot (vk_params (pk_vk pk))) v \<and>
       VariableNode v \<notin> set (dag_nodes (dag_constraints (vk_constraints (pk_vk pk))))}"
    and "need_rot (vk_params (pk_vk pk)) \<longleftrightarrow>
       (\<exists>v. VariableNode v \<in> set (dag_nodes (dag_constraints (vk_constraints (pk_vk pk)))) \<and> entry_offset (var_entry v) = Some 1)"
    and "vk_max_constraint_degree (pk_vk pk) \<le> d"
    and "map (\<lambda>j. (length (message j), bus_index j, count_weight j)) (key_interactions pk)
       = map (\<lambda>i. (length (message i), bus_index i, count_weight i)) (ak_interactions a)"
proof -
  from ok obtain dag unused where
    dag: "build_symbolic_constraints_dag (ak_constraints a) (ak_interactions a) = (Ok dag :: (_, keygen_error) res)"
    and unused: "find_unused_vars dag (air_trace_width a) (max_rotation (dag_constraints dag) = 1) = (Ok unused :: (_, keygen_error) res)"
    and rot: "max_rotation (dag_constraints dag) \<le> 1" and w: "main_width (air_trace_width a) \<noteq> 0"
    and deg: "max_constraint_degree_of \<lparr>sc_constraints = map snd (ak_constraints a),
           sc_interactions = map drop_address (ak_interactions a)\<rparr> \<le> d"
    and pk: "pk = \<lparr>air_name = ak_name a,
          pk_vk = \<lparr>preprocessed_data = map_option fst (ak_prep a),
            vk_params = \<lparr>vp_width = air_trace_width a, num_public_values = ak_num_public_values a,
              need_rot = (max_rotation (dag_constraints dag) = 1)\<rparr>,
            vk_constraints = dag,
            vk_max_constraint_degree = max_constraint_degree_of \<lparr>sc_constraints = map snd (ak_constraints a),
               sc_interactions = map drop_address (ak_interactions a)\<rparr>,
            is_required = ak_is_required a, unused_variables = unused\<rparr>\<rparr>"
    by (rule air_generate_pk_OkE)
  note exact = find_unused_vars_exact [OF unused]
  from build_dag_shape [of "ak_constraints a" "ak_interactions a", where 'x = keygen_error] dag
  have shape: "wf_dag (air_vars (ak_constraints a) (ak_interactions a)) dag"
    and ints: "map (\<lambda>j. (length (message j), bus_index j, count_weight j)) (dag_interactions dag)
       = map (\<lambda>i. (length (message i), bus_index i, count_weight i)) (ak_interactions a)" by auto
  note rotation = max_rotation_iff [of _ "dag_constraints dag"]
  have "wf_var (pk_vk pk) v" if v: "VariableNode v \<in> set (dag_nodes (dag_constraints dag))" for v
  proof (cases "var_entry v = Public")
    case True
    from shape v have "v \<in> air_vars (ak_constraints a) (ak_interactions a)" by (simp add: wf_dag_def)
    with public True show ?thesis by (simp add: wf_var_def pk)
  next
    case False
    with exact(2) [OF v] have cell: "has_cell (case tw_preprocessed (air_trace_width a) of None \<Rightarrow> 0 | Some w \<Rightarrow> w)
        (main_widths (air_trace_width a)) v" by simp
    then obtain offset where offset: "entry_offset (var_entry v) = Some offset" "offset < 2"
      by (cases v; cases "var_entry v") auto
    have "offset = 0 \<or> max_rotation (dag_constraints dag) = 1"
    proof (cases "offset = 0")
      case no: False
      then have "1 \<le> offset" by simp
      with rotation [OF zero_less_one] v offset(1) have "1 \<le> max_rotation (dag_constraints dag)" by blast
      with rot show ?thesis by simp
    qed simp
    with cell offset show ?thesis by (simp add: wf_var_def opened_cell_def pk)
  qed
  with shape w show "wf_key (pk_vk pk)" by (auto simp: wf_key_def wf_dag_def pk air_trace_width_def)
  show "set (unused_variables (pk_vk pk)) = {v. opened_cell (vp_width (vk_params (pk_vk pk))) (need_rot (vk_params (pk_vk pk))) v \<and>
       VariableNode v \<notin> set (dag_nodes (dag_constraints (vk_constraints (pk_vk pk))))}"
    using exact(1) by (simp add: pk)
  have "max_rotation (dag_constraints dag) = 1 \<longleftrightarrow> 1 \<le> max_rotation (dag_constraints dag)" using rot by auto
  also have "\<dots> \<longleftrightarrow> (\<exists>v. VariableNode v \<in> set (dag_nodes (dag_constraints dag)) \<and> entry_offset (var_entry v) = Some 1)"
  proof -
    have "offset = 1" if "VariableNode v \<in> set (dag_nodes (dag_constraints dag))" "entry_offset (var_entry v) = Some offset" "1 \<le> offset"
      for v offset
    proof (rule ccontr)
      assume "offset \<noteq> 1"
      with that(3) have "2 \<le> offset" by simp
      with rotation [of 2, OF pos2] that(1,2) have "2 \<le> max_rotation (dag_constraints dag)" by blast
      with rot show False by simp
    qed
    with rotation [OF zero_less_one] show ?thesis by (metis order_refl)
  qed
  finally show "need_rot (vk_params (pk_vk pk)) \<longleftrightarrow>
       (\<exists>v. VariableNode v \<in> set (dag_nodes (dag_constraints (vk_constraints (pk_vk pk)))) \<and> entry_offset (var_entry v) = Some 1)"
    by (simp add: pk)
  show "vk_max_constraint_degree (pk_vk pk) \<le> d" using deg by (simp add: pk)
  show "map (\<lambda>j. (length (message j), bus_index j, count_weight j)) (key_interactions pk)
       = map (\<lambda>i. (length (message i), bus_index i, count_weight i)) (ak_interactions a)"
    using ints by (simp add: pk key_interactions_def)
qed

section \<open>An example\<close>

text \<open>An AIR with two columns, a constraint \<open>next(x) * y\<close> and one interaction on bus 5.\<close>

definition sample_air :: "(f17, nat) air_keygen" where
  "sample_air = \<lparr>ak_name = ''sample'', ak_is_required = True, ak_prep = None, ak_cached_mains = [], ak_common_main = 2,
     ak_num_public_values = 0,
     ak_constraints = [(3, Mul 1 (Variable (SymbolicVariable (Main 0 1) 0)) 2 (Variable (SymbolicVariable (Main 0 0) 1)) 2)],
     ak_interactions = [\<lparr>message = [(4, Variable (SymbolicVariable (Main 0 0) 1))], count = (5, IsTransition), bus_index = 5,
       count_weight = 2\<rparr>]\<rparr>"

definition sample_params :: "system_params" where
  "sample_params = \<lparr>l_skip = 2, n_stack = 2, w_stack = 8, log_blowup = 1,
     whir = \<lparr>whir_k = 1, whir_rounds = [\<lparr>num_queries = 1\<rparr>], mu_pow_bits = 0, query_phase_pow_bits = 0,
       folding_pow_bits = 0, whir_proximity = UniqueDecoding\<rparr>,
     logup = \<lparr>max_interaction_count = 100, log_max_message_length = 3, logup_pow_bits = 0\<rparr>, max_constraint_degree = 3\<rparr>"

lemma sample_air_key: "\<exists>pk. air_generate_pk sample_air 3 = Ok pk"
  by (simp add: air_generate_pk_def sample_air_def air_trace_width_def main_width_def main_widths_def
      build_symbolic_constraints_dag_def add_expr.simps add_interaction_def dag_builder_new_def intern_node_def Let_def
      simplify_mul_def get_const_def is_const_def max_rotation_def find_unused_vars_def mark_present_def mark_cell_def
      max_constraint_degree_of_def max_of_def drop_address_def)

lemma sample_generate: "\<exists>pk. generate_pk (\<lambda>_. 0) (\<lambda>_. []) 17 sample_params [sample_air] = Ok pk"
  by (simp add: generate_pk_def all_height_constraints_def add_air_weights_def add_interaction_weight_def
      max_message_length_def bump_coefficient_def add32_def sample_params_def
      air_generate_pk_def sample_air_def air_trace_width_def main_width_def main_widths_def
      build_symbolic_constraints_dag_def add_expr.simps add_interaction_def dag_builder_new_def intern_node_def Let_def
      simplify_mul_def get_const_def is_const_def max_rotation_def find_unused_vars_def mark_present_def mark_cell_def
      max_constraint_degree_of_def max_of_def drop_address_def)

section \<open>The constraints of a generated key\<close>

lemma generated_constraints:
  assumes "generate_pk hash_slice postcard field_order params airs = Ok pk"
    and "length ns = length airs" and "0 < field_order mod 2 ^ 32"
  shows "((\<forall>c \<in> set (mpk_trace_height_constraints pk). satisfies ns c) \<longleftrightarrow>
      (\<forall>b. (\<Sum>a < length airs. air_bus_weight (airs ! a) b * ns ! a) < field_order mod 2 ^ 32) \<and>
      (\<Sum>a < length airs. length (ak_interactions (airs ! a)) * ns ! a) < max_interaction_count (logup params)) \<and>
    irredundant (mpk_trace_height_constraints pk) \<and>
    same_length (length airs) (mpk_trace_height_constraints pk)"
proof -
  from assms(1) obtain pks cs where ok: "rmap (\<lambda>a. air_generate_pk a (max_constraint_degree params)) airs = Ok pks"
    "all_height_constraints (logup params) (field_order mod 2 ^ 32) pks = (Ok cs :: (_, keygen_error) res)"
    "mpk_trace_height_constraints pk = minimize_constraints cs"
    by (auto simp: generate_pk_def res_simps Let_def)
  have len: "length pks = length airs" by (rule rmap_Ok_length [OF ok(1)])
  with assms(2) have "length ns = length pks" by simp
  note mean = all_height_constraints_mean [OF ok(2) this assms(3)]
  have ints: "map (\<lambda>j. (length (message j), bus_index j, count_weight j)) (key_interactions (pks ! a))
       = map (\<lambda>i. (length (message i), bus_index i, count_weight i)) (ak_interactions (airs ! a))" if "a < length airs" for a
  proof -
    have "air_generate_pk (airs ! a) (max_constraint_degree params) = Ok (pks ! a)" by (rule rmap_Ok_nth [OF ok(1) that])
    then obtain dag where "build_symbolic_constraints_dag (ak_constraints (airs ! a)) (ak_interactions (airs ! a)) = (Ok dag :: (_, keygen_error) res)"
      "key_interactions (pks ! a) = dag_interactions dag"
      by (rule air_generate_pk_OkE) (simp add: key_interactions_def)
    with build_dag_shape [of "ak_constraints (airs ! a)" "ak_interactions (airs ! a)", where 'x = keygen_error] show ?thesis by auto
  qed
  have weight: "key_bus_weight (pks ! a) b = air_bus_weight (airs ! a) b" if "a < length airs" for a b
    using arg_cong [OF ints [OF that], of "\<lambda>xs. sum_list (map (\<lambda>(_, bus, w). if bus = b then w else 0) xs)"]
    by (simp add: key_bus_weight_def air_bus_weight_def comp_def)
  have number: "length (key_interactions (pks ! a)) = length (ak_interactions (airs ! a))" if "a < length airs" for a
    using arg_cong [OF ints [OF that], of length] by simp
  show ?thesis
    unfolding ok(3) minimize_constraints_equivalent(1) [OF mean(1)] mean(2) len
    using minimize_constraints_equivalent(2,3) [OF mean(1)] by (simp add: weight number len)
qed

section \<open>Properties\<close>

text \<open>C10. The trace height constraints in the key bound exactly what they are for: lifted heights satisfy the
  minimised constraints if and only if, on every bus, the weighted number of interactions stays
  below the field order, and the total number of interactions below the security limit. No
  constraint that is kept is implied by another one.\<close>
theorem height_constraints_exact:
  assumes "generate_pk hash_slice postcard field_order params airs = Ok pk"
    and "length ns = length airs" and "0 < field_order mod 2 ^ 32"
  shows "((\<forall>c \<in> set (mpk_trace_height_constraints pk). satisfies ns c) \<longleftrightarrow>
      (\<forall>b. (\<Sum>a < length airs. air_bus_weight (airs ! a) b * ns ! a) < field_order mod 2 ^ 32) \<and>
      (\<Sum>a < length airs. length (ak_interactions (airs ! a)) * ns ! a) < max_interaction_count (logup params)) \<and>
    irredundant (mpk_trace_height_constraints pk)"
  using generated_constraints [OF assms] by blast

theorem height_constraints_exact_witness:
  "\<exists>pk. generate_pk (\<lambda>_. 0) (\<lambda>_. []) 17 sample_params [sample_air] = Ok pk \<and>
     (list_all (satisfies [8]) (mpk_trace_height_constraints pk) \<longleftrightarrow>
      (\<forall>b. (\<Sum>a < length [sample_air]. air_bus_weight ([sample_air] ! a) b * [8] ! a) < 17 mod 2 ^ 32) \<and>
      (\<Sum>a < length [sample_air]. length (ak_interactions ([sample_air] ! a)) * [8] ! a)
        < max_interaction_count (logup sample_params))"
proof -
  from sample_generate obtain pk where pk: "generate_pk (\<lambda>_. 0) (\<lambda>_. []) 17 sample_params [sample_air] = Ok pk" ..
  have "length [8 :: nat] = length [sample_air]" "0 < (17 :: nat) mod 2 ^ 32" by simp_all
  from height_constraints_exact [OF pk this] pk show ?thesis unfolding list_all_iff by blast
qed

text \<open>C28. Key generation gives well-formed keys: if an AIR refers to declared public values only and its key
  is generated, then every variable of the constraint DAG is a column the verifier opens or a
  public value, the DAG is topologically ordered and all indices into it are in range; the unused
  variables are exactly the opened columns that do not occur, and rotations are opened exactly
  when some constraint or interaction reads the next row.\<close>
theorem keygen_well_formed:
  assumes "air_generate_pk a max_degree = Ok pk"
    and "\<forall>v \<in> air_vars (ak_constraints a) (ak_interactions a). var_entry v = Public \<longrightarrow> var_index v < ak_num_public_values a"
  shows "wf_key (pk_vk pk) \<and> vk_max_constraint_degree (pk_vk pk) \<le> max_degree \<and>
     set (unused_variables (pk_vk pk)) = {v. opened_cell (vp_width (vk_params (pk_vk pk))) (need_rot (vk_params (pk_vk pk))) v \<and>
       VariableNode v \<notin> set (dag_nodes (dag_constraints (vk_constraints (pk_vk pk))))} \<and>
     (need_rot (vk_params (pk_vk pk)) \<longleftrightarrow>
       (\<exists>v. VariableNode v \<in> set (dag_nodes (dag_constraints (vk_constraints (pk_vk pk)))) \<and> entry_offset (var_entry v) = Some 1))"
  using air_generate_pk_wf [OF assms] by blast

theorem keygen_well_formed_witness:
  "\<exists>pk. air_generate_pk sample_air 3 = Ok pk \<and> wf_key (pk_vk pk)"
proof -
  from sample_air_key obtain pk where pk: "air_generate_pk sample_air 3 = Ok pk" ..
  moreover have "wf_key (pk_vk pk)"
    by (rule keygen_well_formed [OF pk, THEN conjunct1]) (simp add: sample_air_def air_vars_def interaction_vars_def)
  ultimately show ?thesis by blast
qed

end
