(* ===== verification/Matrix.thy ===== *)
theory Matrix
  imports Prelude
begin

text \<open>
  The column-major matrices of \<open>prover/matrix.rs\<close>: the owned matrix, its columns and
  the strided view. Positions inside a value vector are plain naturals: they are
  below its length, which fits a \<open>usize\<close>.
\<close>

record 'f col_matrix =
  cm_values :: "'f list"
  cm_width :: nat
  cm_height :: nat

record 'f strided_view =
  sv_values :: "'f list"
  sv_width :: nat
  sv_height :: nat
  sv_stride :: nat

text \<open>A slice \<open>xs[start..end]\<close>.\<close>

definition slice :: "'a list \<Rightarrow> nat \<Rightarrow> nat \<Rightarrow> ('a list, 'e) res" where
  "slice xs a b = (if a \<le> b \<and> b \<le> length xs then Ok (take (b - a) (drop a xs)) else Panic)"

definition col_maj_idx :: "nat \<Rightarrow> nat \<Rightarrow> nat \<Rightarrow> nat" where
  "col_maj_idx row_idx col_idx height = col_idx * height + row_idx"

text \<open>\<open>ColMajorMatrix::new\<close>; the remainder by a width of zero panics.\<close>

definition col_matrix_new :: "'f list \<Rightarrow> nat \<Rightarrow> ('f col_matrix, 'e) res" where
  "col_matrix_new vals width =
     rbind (assert_that (width \<noteq> 0)) (\<lambda>_.
     rbind (assert_that (length vals mod width = 0)) (\<lambda>_.
     let height = length vals div width in
     rbind (assert_that (is_pow2 height)) (\<lambda>_.
     Ok \<lparr>cm_values = vals, cm_width = width, cm_height = height\<rparr>)))"

definition cm_column :: "'f col_matrix \<Rightarrow> nat \<Rightarrow> ('f list, 'e) res" where
  "cm_column M col_idx =
     (let start = col_idx * cm_height M; fin = start + cm_height M in slice (cm_values M) start fin)"

text \<open>\<open>MatrixView::get\<close> with the layout of the owned matrix.\<close>

definition cm_get :: "'f col_matrix \<Rightarrow> nat \<Rightarrow> nat \<Rightarrow> ('f option, 'e) res" where
  "cm_get M row_idx col_idx =
     (if cm_width M \<le> col_idx \<or> cm_height M \<le> row_idx then Ok None
      else rbind (index (cm_values M) (col_idx * cm_height M + row_idx)) (\<lambda>x. Ok (Some x)))"

definition strided_new :: "'f list \<Rightarrow> nat \<Rightarrow> nat \<Rightarrow> ('f strided_view, 'e) res" where
  "strided_new vals width stride =
     rbind (assert_that (width * stride \<noteq> 0)) (\<lambda>_.
     rbind (assert_that (length vals mod (width * stride) = 0)) (\<lambda>_.
     let height = length vals div (width * stride) in
     rbind (assert_that (height = 0 \<or> is_pow2 height)) (\<lambda>_.
     Ok \<lparr>sv_values = vals, sv_width = width, sv_height = height, sv_stride = stride\<rparr>)))"

definition sv_get_unchecked :: "'f strided_view \<Rightarrow> nat \<Rightarrow> nat \<Rightarrow> ('f, 'e) res" where
  "sv_get_unchecked V row_idx col_idx =
     rbind (assert_that (col_idx < sv_width V)) (\<lambda>_.
     rbind (assert_that (row_idx < sv_height V)) (\<lambda>_.
     index (sv_values V) (col_maj_idx (row_idx * sv_stride V) col_idx (sv_height V * sv_stride V))))"

definition to_matrix :: "'f strided_view \<Rightarrow> ('f col_matrix, 'e) res" where
  "to_matrix V =
     rbind (rmap (\<lambda>i. let r = i mod sv_height V; c = i div sv_height V in sv_get_unchecked V r c)
       [0..<sv_width V * sv_height V]) (\<lambda>vals.
     col_matrix_new vals (sv_width V))"

section \<open>Well-formed matrices\<close>

definition wf_col_matrix :: "'f col_matrix \<Rightarrow> bool" where
  "wf_col_matrix M \<longleftrightarrow> 0 < cm_width M \<and> is_pow2 (cm_height M) \<and> length (cm_values M) = cm_width M * cm_height M"

definition columns_of :: "'f col_matrix \<Rightarrow> 'f list list" where
  "columns_of M = map (\<lambda>c. take (cm_height M) (drop (c * cm_height M) (cm_values M))) [0..<cm_width M]"

lemma col_matrix_new_Ok:
  "col_matrix_new vals w = Ok M \<longleftrightarrow>
     M = \<lparr>cm_values = vals, cm_width = w, cm_height = length vals div w\<rparr> \<and> wf_col_matrix M"
proof -
  have "length vals mod w = 0 \<longleftrightarrow> length vals = w * (length vals div w)"
    by (metis add.right_neutral minus_mult_div_eq_mod mult_div_mod_eq diff_self_eq_0)
  then show ?thesis by (auto simp: col_matrix_new_def wf_col_matrix_def res_simps Let_def)
qed

lemma col_matrix_new_total:
  "0 < w \<Longrightarrow> is_pow2 h \<Longrightarrow> length vals = w * h \<Longrightarrow>
     col_matrix_new vals w = Ok \<lparr>cm_values = vals, cm_width = w, cm_height = h\<rparr>"
  by (simp add: col_matrix_new_Ok wf_col_matrix_def)

lemma col_matrix_new_self:
  "wf_col_matrix M \<Longrightarrow> col_matrix_new (cm_values M) (cm_width M) = Ok M"
  using col_matrix_new_total [of "cm_width M" "cm_height M" "cm_values M"]
  by (cases M) (simp add: wf_col_matrix_def)

lemma column_in_range:
  assumes "wf_col_matrix M" and "c < cm_width M"
  shows "c * cm_height M + cm_height M \<le> length (cm_values M)"
proof -
  have "Suc c * cm_height M \<le> cm_width M * cm_height M" using assms(2) by (intro mult_right_mono) auto
  with assms(1) show ?thesis by (simp add: wf_col_matrix_def)
qed

lemma cm_column_Ok:
  "wf_col_matrix M \<Longrightarrow> c < cm_width M \<Longrightarrow> cm_column M c = Ok (columns_of M ! c)"
  by (frule (1) column_in_range) (simp add: cm_column_def slice_def columns_of_def)

lemma length_column:
  "wf_col_matrix M \<Longrightarrow> c < cm_width M \<Longrightarrow> length (columns_of M ! c) = cm_height M"
  by (frule (1) column_in_range) (simp add: columns_of_def)

lemma length_columns_of [simp]: "length (columns_of M) = cm_width M"
  by (simp add: columns_of_def)

lemma concat_columns_aux:
  "length xs = w * h \<Longrightarrow> concat (map (\<lambda>c. take h (drop (c * h) xs)) [0..<w]) = xs"
proof (induction w arbitrary: xs)
  case (Suc w)
  have "concat (map (\<lambda>c. take h (drop (c * h) xs)) [0..<Suc w])
      = take h xs @ concat (map (\<lambda>c. take h (drop (c * h) (drop h xs))) [0..<w])"
    by (simp add: upt_conv_Cons map_Suc_upt [symmetric] comp_def add.commute del: upt_Suc)
  also have "\<dots> = take h xs @ drop h xs" using Suc.IH [of "drop h xs"] Suc.prems by simp
  finally show ?case by simp
qed simp

lemma concat_columns: "wf_col_matrix M \<Longrightarrow> concat (columns_of M) = cm_values M"
  by (simp add: columns_of_def wf_col_matrix_def concat_columns_aux)

lemma cell_index_less: "r < h \<Longrightarrow> c < w \<Longrightarrow> c * h + r < w * (h :: nat)"
proof -
  assume "r < h" "c < w"
  then have "c * h + r < Suc c * h" by simp
  also have "\<dots> \<le> w * h" using \<open>c < w\<close> by (intro mult_right_mono) auto
  finally show ?thesis .
qed

lemma cm_get_Ok:
  "wf_col_matrix M \<Longrightarrow> c < cm_width M \<Longrightarrow> r < cm_height M \<Longrightarrow>
     cm_get M r c = Ok (Some (columns_of M ! c ! r))"
  by (frule (1) column_in_range)
    (simp add: cm_get_def columns_of_def wf_col_matrix_def cell_index_less)

end
