(* ===== verification/StackedLayout.thy ===== *)
theory StackedLayout
  imports Matrix
begin

text \<open>
  The stacking of columns of different heights into one matrix (\<open>StackedLayout\<close>,
  \<open>StackedSlice\<close> and \<open>stacked_matrix\<close> of \<open>prover/stacked_pcs.rs\<close>). The greedy loop of
  \<open>StackedLayout::new\<close> is related to a closed form, in which the slice of a column
  starts at the sum of the lengths of the columns before it; from it follow the bounds
  and the disjointness of the slices, the round trip between \<open>stacked_matrix\<close> and
  \<open>mat_view\<close>, and the agreement with \<open>from_raw_parts\<close>.
\<close>

section \<open>Data\<close>

datatype stacked_pcs_error =
    LayoutHeightExceeded nat nat
  | LayoutRowOverflow nat nat
  | LayoutRawPartsMatIdx nat nat
  | MerkleTreeEmptyMatrix
  | MerkleTreeRowsPerQueryNotPow2 nat
  | MerkleTreeRowsPerQueryExceeded nat nat
  | MerkleTreeNoRoot
  | MerkleTreeQueryOutOfBounds nat nat
  | MerkleTreeOpenedRowsOutOfBounds nat nat
  | StackedMatrixOverflow
  | RsCodeShiftOverflow nat nat

record stacked_slice =
  slice_col_idx :: nat
  slice_row_idx :: nat
  slice_log_height :: nat

record stacked_layout =
  layout_l_skip :: nat
  layout_height :: nat
  layout_width :: nat
  sorted_cols :: "(nat \<times> nat \<times> stacked_slice) list"
  mat_starts :: "nat list"

section \<open>Operations\<close>

definition slice_len_of :: "nat \<Rightarrow> nat \<Rightarrow> (nat, 'e) res" where
  "slice_len_of log_height l_skip = (if l_skip \<le> log_height then shl64 1 log_height else shl64 1 l_skip)"

definition slice_len :: "stacked_slice \<Rightarrow> nat \<Rightarrow> (nat, 'e) res" where
  "slice_len s l_skip = slice_len_of (slice_log_height s) l_skip"

definition slice_stride :: "stacked_slice \<Rightarrow> nat \<Rightarrow> (nat, 'e) res" where
  "slice_stride s l_skip = shl64 1 (l_skip - slice_log_height s)"

text \<open>The body of the inner loop: place column \<open>j\<close> of matrix \<open>mat_idx\<close>.\<close>

definition place_column ::
  "nat \<Rightarrow> nat \<Rightarrow> nat \<Rightarrow> nat \<Rightarrow> nat \<Rightarrow> (nat \<times> nat \<times> stacked_slice) list \<times> nat \<times> nat
   \<Rightarrow> ((nat \<times> nat \<times> stacked_slice) list \<times> nat \<times> nat, stacked_pcs_error) res" where
  "place_column l_skip log_stacked_height mat_idx log_ht j = (\<lambda>(cols, col_idx, row_idx).
     rbind (slice_len_of log_ht l_skip) (\<lambda>len.
     rbind (add64 row_idx len) (\<lambda>row_end.
     rbind (shl64 1 log_stacked_height) (\<lambda>height.
     rbind (if height < row_end
            then (if row_idx \<noteq> height then Err (LayoutRowOverflow col_idx height) else Ok (col_idx + 1, 0))
            else Ok (col_idx, row_idx)) (\<lambda>(col_idx, row_idx).
     Ok (cols @ [(mat_idx, j, \<lparr>slice_col_idx = col_idx, slice_row_idx = row_idx, slice_log_height = log_ht\<rparr>)],
         col_idx, row_idx + len))))))"

text \<open>The body of the outer loop: one matrix.\<close>

definition place_matrix ::
  "nat \<Rightarrow> nat \<Rightarrow> nat \<times> nat \<times> nat \<Rightarrow> nat list \<times> (nat \<times> nat \<times> stacked_slice) list \<times> nat \<times> nat
   \<Rightarrow> (nat list \<times> (nat \<times> nat \<times> stacked_slice) list \<times> nat \<times> nat, stacked_pcs_error) res" where
  "place_matrix l_skip log_stacked_height = (\<lambda>(mat_idx, width, log_ht) (starts, cols, col_idx, row_idx).
     let starts = starts @ [length cols] in
     if width = 0 then Ok (starts, cols, col_idx, row_idx)
     else if log_stacked_height < log_ht then Err (LayoutHeightExceeded log_ht log_stacked_height)
     else rbind (rfold (place_column l_skip log_stacked_height mat_idx log_ht) [0..<width] (cols, col_idx, row_idx))
       (\<lambda>r. Ok (starts, r)))"

definition max_width :: "(nat \<times> nat \<times> stacked_slice) list \<Rightarrow> nat" where
  "max_width cols = fold max (map (\<lambda>(_, _, s). slice_col_idx s + 1) cols) 0"

definition stacked_layout_new ::
  "nat \<Rightarrow> nat \<Rightarrow> (nat \<times> nat) list \<Rightarrow> (stacked_layout, stacked_pcs_error) res" where
  "stacked_layout_new l_skip log_stacked_height metas =
     rbind (assert_that (l_skip \<le> log_stacked_height)) (\<lambda>_.
     rbind (assert_that (sorted_wrt (\<lambda>a b. snd b \<le> snd a) metas)) (\<lambda>_.
     rbind (rfold (place_matrix l_skip log_stacked_height) (enumerated metas) ([], [], 0, 0))
       (\<lambda>(starts, cols, col_idx, row_idx).
     let stacked_width = col_idx + of_bool (row_idx \<noteq> 0) in
     rbind (assert_that (stacked_width = max_width cols)) (\<lambda>_.
     rbind (shl64 1 log_stacked_height) (\<lambda>height.
     Ok \<lparr>layout_l_skip = l_skip, layout_height = height, layout_width = stacked_width,
         sorted_cols = cols, mat_starts = starts\<rparr>)))))"

definition raw_start :: "nat \<times> nat \<times> nat \<times> stacked_slice \<Rightarrow> nat list \<Rightarrow> (nat list, stacked_pcs_error) res" where
  "raw_start = (\<lambda>(idx, mat_idx, _) starts.
     if idx = 0 \<or> mat_idx + 1 \<noteq> length starts then
       (if mat_idx \<noteq> length starts then Err (LayoutRawPartsMatIdx mat_idx (length starts)) else Ok (starts @ [idx]))
     else Ok starts)"

definition stacked_layout_from_raw_parts ::
  "nat \<Rightarrow> nat \<Rightarrow> (nat \<times> nat \<times> stacked_slice) list \<Rightarrow> (stacked_layout, stacked_pcs_error) res" where
  "stacked_layout_from_raw_parts l_skip log_stacked_height cols =
     rbind (shl64 1 log_stacked_height) (\<lambda>height.
     rbind (rfold raw_start (enumerated cols) []) (\<lambda>starts.
     Ok \<lparr>layout_l_skip = l_skip, layout_height = height, layout_width = max_width cols,
         sorted_cols = cols, mat_starts = starts\<rparr>))"

definition unstacked_slices :: "stacked_layout \<Rightarrow> stacked_slice list" where
  "unstacked_slices L = map (\<lambda>(_, _, s). s) (sorted_cols L)"

definition layout_get :: "stacked_layout \<Rightarrow> nat \<Rightarrow> nat \<Rightarrow> (stacked_slice option, 'e) res" where
  "layout_get L mat_idx col_idx =
     rbind (index (mat_starts L) mat_idx) (\<lambda>idx.
     if length (sorted_cols L) \<le> idx + col_idx then Ok None
     else rbind (index (sorted_cols L) (idx + col_idx)) (\<lambda>(mat_idx1, col_idx1, s).
       rbind (assert_that (mat_idx1 = mat_idx)) (\<lambda>_.
       rbind (assert_that (col_idx1 = col_idx)) (\<lambda>_. Ok (Some s)))))"

definition width_of :: "stacked_layout \<Rightarrow> nat \<Rightarrow> (nat, 'e) res" where
  "width_of L mat_idx =
     rbind (index (mat_starts L) mat_idx) (\<lambda>start_idx.
     rbind (index (sorted_cols L) start_idx) (\<lambda>(m, c, _).
     rbind (assert_that (m = mat_idx)) (\<lambda>_.
     rbind (assert_that (c = 0)) (\<lambda>_.
     let next_idx = (if mat_idx + 1 < length (mat_starts L) then mat_starts L ! (mat_idx + 1)
                     else length (sorted_cols L)) in
     sub64 next_idx start_idx))))"

definition mat_view :: "stacked_layout \<Rightarrow> nat \<Rightarrow> 'f col_matrix \<Rightarrow> ('f strided_view, 'e) res" where
  "mat_view L unstacked_mat_idx stacked =
     (let col_slices = filter (\<lambda>(m, _, _). m = unstacked_mat_idx) (sorted_cols L);
          width = length col_slices in
     rbind (index col_slices 0) (\<lambda>(_, _, s).
     rbind (slice_len s (layout_l_skip L)) (\<lambda>lifted_height.
     rbind (slice_stride s (layout_l_skip L)) (\<lambda>stride.
     let start = col_maj_idx (slice_row_idx s) (slice_col_idx s) (cm_height stacked) in
     rbind (slice (cm_values stacked) start (start + lifted_height * width)) (\<lambda>vals.
     strided_new vals width stride)))))"

text \<open>\<open>q[start..start + col.len()].copy_from_slice(col)\<close>\<close>

definition copy_from_slice :: "'f list \<Rightarrow> nat \<Rightarrow> 'f list \<Rightarrow> ('f list, 'e) res" where
  "copy_from_slice q start col =
     (if start + length col \<le> length q then Ok (take start q @ col @ drop (start + length col) q) else Panic)"

definition set_index :: "'f list \<Rightarrow> nat \<Rightarrow> 'f \<Rightarrow> ('f list, 'e) res" where
  "set_index q i x = (if i < length q then Ok (q[i := x]) else Panic)"

text \<open>One iteration of the loop of \<open>stacked_matrix\<close>: write one column of a trace.\<close>

definition stack_column ::
  "nat \<Rightarrow> nat \<Rightarrow> 'f col_matrix list \<Rightarrow> nat \<times> nat \<times> stacked_slice \<Rightarrow> 'f list \<Rightarrow> ('f list, 'e) res" where
  "stack_column l_skip height traces = (\<lambda>(mat_idx, j, s) q_mat.
     let start = slice_col_idx s * height + slice_row_idx s in
     rbind (index traces mat_idx) (\<lambda>trace.
     rbind (cm_column trace j) (\<lambda>t_col.
     rbind (shl64 1 (slice_log_height s)) (\<lambda>len.
     rbind (assert_that (length t_col = len)) (\<lambda>_.
     if l_skip \<le> slice_log_height s then copy_from_slice q_mat start t_col
     else rbind (slice_stride s l_skip) (\<lambda>stride.
       rfold (\<lambda>(i, val) q. set_index q (start + i * stride) val) (enumerated t_col) q_mat))))))"

definition stacked_matrix ::
  "nat \<Rightarrow> nat \<Rightarrow> 'f::zero col_matrix list \<Rightarrow> ('f col_matrix \<times> stacked_layout, stacked_pcs_error) res" where
  "stacked_matrix l_skip n_stack traces =
     rbind (rmap (\<lambda>trace. rbind (log2_strict (cm_height trace)) (\<lambda>log_height. Ok (cm_width trace, log_height))) traces)
       (\<lambda>sorted_meta.
     rbind (stacked_layout_new l_skip (l_skip + n_stack) sorted_meta) (\<lambda>layout.
     rbind (rfold (\<lambda>t acc. rbind (shl64 1 l_skip) (\<lambda>min_height.
       rbind (mul64 (max (cm_height t) min_height) (cm_width t)) (add64 acc))) traces 0) (\<lambda>total_cells.
     rbind (shl64 1 (l_skip + n_stack)) (\<lambda>height.
     let width = div_ceil total_cells height in
     rbind (ensure_that (width * height < 2 ^ 64) StackedMatrixOverflow) (\<lambda>_.
     rbind (rfold (stack_column l_skip height traces) (sorted_cols layout) (replicate (width * height) 0)) (\<lambda>q_mat.
     rbind (col_matrix_new q_mat width) (\<lambda>M.
     Ok (M, layout))))))))"

section \<open>The closed form of the layout\<close>

text \<open>
  The greedy cursor \<open>(col_idx, row_idx)\<close> is a function of the number of cells placed so
  far: it is wrapped to the next column lazily, so that it rests at \<open>(c, H)\<close> and not at
  \<open>(c + 1, 0)\<close> after a column of the stacked matrix is full.
\<close>

definition lifted_len :: "nat \<Rightarrow> nat \<Rightarrow> nat" where
  "lifted_len l_skip log_ht = 2 ^ max l_skip log_ht"

definition slice_at :: "nat \<Rightarrow> nat \<Rightarrow> nat \<Rightarrow> stacked_slice" where
  "slice_at H off log_ht = \<lparr>slice_col_idx = off div H, slice_row_idx = off mod H, slice_log_height = log_ht\<rparr>"

fun place_all :: "nat \<Rightarrow> nat \<Rightarrow> nat \<Rightarrow> (nat \<times> nat \<times> nat) list \<Rightarrow> (nat \<times> nat \<times> stacked_slice) list" where
  "place_all l_skip H off [] = []"
| "place_all l_skip H off ((m, j, lh) # cs) = (m, j, slice_at H off lh) # place_all l_skip H (off + lifted_len l_skip lh) cs"

definition mat_columns :: "nat \<times> nat \<times> nat \<Rightarrow> (nat \<times> nat \<times> nat) list" where
  "mat_columns = (\<lambda>(m, w, lh). map (\<lambda>j. (m, j, lh)) [0..<w])"

definition all_columns :: "(nat \<times> nat) list \<Rightarrow> (nat \<times> nat \<times> nat) list" where
  "all_columns metas = concat (map mat_columns (enumerated metas))"

definition total_len :: "nat \<Rightarrow> (nat \<times> nat \<times> nat) list \<Rightarrow> nat" where
  "total_len l_skip cs = sum_list (map (\<lambda>(_, _, lh). lifted_len l_skip lh) cs)"

definition cursor :: "nat \<Rightarrow> nat \<Rightarrow> nat \<times> nat" where
  "cursor H off = (if off = 0 then (0, 0) else ((off - 1) div H, Suc ((off - 1) mod H)))"

lemma total_len_simps [simp]:
  "total_len l [] = 0" "total_len l ((m, j, lh) # cs) = lifted_len l lh + total_len l cs"
  "total_len l (xs @ ys) = total_len l xs + total_len l ys"
  by (simp_all add: total_len_def)

lemma place_all_append:
  "place_all l H off (xs @ ys) = place_all l H off xs @ place_all l H (off + total_len l xs) ys"
  by (induction l H off xs rule: place_all.induct) (simp_all add: add.assoc)

lemma length_place_all [simp]: "length (place_all l H off cs) = length cs"
  by (induction l H off cs rule: place_all.induct) simp_all

lemma total_len_mat_columns: "total_len l (mat_columns (m, w, lh)) = w * lifted_len l lh"
  by (induction w) (simp_all add: mat_columns_def)

lemma lifted_len_pos [simp]: "0 < lifted_len l lh"
  by (simp add: lifted_len_def)

lemma slice_len_of_Ok: "max l lh < 64 \<Longrightarrow> slice_len_of lh l = Ok (lifted_len l lh)"
  by (auto simp: slice_len_of_def lifted_len_def max_def)

lemma slot_fits:
  assumes "d dvd off" and "d dvd H" and "0 < (H :: nat)"
  shows "off mod H + d \<le> H"
proof -
  have "d dvd off mod H" using assms(1,2) by (simp add: dvd_mod)
  then obtain k where k: "off mod H = d * k" ..
  from assms(2) obtain n where n: "H = d * n" ..
  have "d * k < d * n" using mod_less_divisor [OF assms(3), of off] k n by simp
  then have "k < n" by simp
  then have "d * Suc k \<le> d * n" by (intro mult_left_mono) auto
  with k n show ?thesis by simp
qed

lemma div_mod_parts: "n = q * H + s \<Longrightarrow> s < (H :: nat) \<Longrightarrow> n div H = q \<and> n mod H = s"
  by simp

lemma cursor_next:
  assumes "d dvd off" and "d dvd H" and "0 < H" and "0 < d"
  shows "cursor H (off + d) = (off div H, off mod H + d)"
proof -
  have fits: "off mod H + d \<le> H" using slot_fits [OF assms(1,2,3)] .
  have eq: "off + d - 1 = off div H * H + (off mod H + (d - 1))" using assms(4) by simp
  have lt: "off mod H + (d - 1) < H" using fits assms(4) by simp
  from div_mod_parts [OF eq lt] show ?thesis using assms(4) by (simp add: cursor_def)
qed

text \<open>Normalising a full cursor gives the position of the next slice.\<close>

lemma cursor_wrap:
  assumes "d dvd off" and "d dvd H" and "0 < H" and "0 < d"
  shows "(if H < snd (cursor H off) + d then snd (cursor H off) = H \<and> (fst (cursor H off) + 1, 0) = (off div H, off mod H)
          else cursor H off = (off div H, off mod H))"
proof (cases "off = 0")
  case True
  then show ?thesis using slot_fits [OF assms(1-3)] by (simp add: cursor_def)
next
  case nz: False
  define q r where "q = (off - 1) div H" and "r = (off - 1) mod H"
  have r: "r < H" using assms(3) by (simp add: r_def)
  have off: "off = q * H + Suc r" using nz by (simp add: q_def r_def)
  have c: "cursor H off = (q, Suc r)" using nz by (simp add: cursor_def q_def r_def)
  show ?thesis
  proof (cases "Suc r = H")
    case True
    then have "off = Suc q * H" using off by simp
    then have "off div H = Suc q" "off mod H = 0" using assms(3) by simp_all
    with True c assms(4) show ?thesis by simp
  next
    case False
    then have lt: "Suc r < H" using r by simp
    with div_mod_parts [OF off] have "off div H = q" "off mod H = Suc r" by simp_all
    with c slot_fits [OF assms(1-3)] show ?thesis by simp
  qed
qed

lemma place_column_step:
  assumes "lifted_len l lh dvd off" and "max l lh \<le> ls" and "ls < 63"
  shows "place_column l ls m lh j (cols, cursor (2 ^ ls) off)
     = Ok (cols @ [(m, j, slice_at (2 ^ ls) off lh)], cursor (2 ^ ls) (off + lifted_len l lh))"
proof -
  define H d where "H = (2::nat) ^ ls" and "d = lifted_len l lh"
  have dH: "d dvd H" using assms(2) by (simp add: d_def H_def lifted_len_def le_imp_power_dvd)
  have pos: "0 < H" "0 < d" by (simp_all add: H_def d_def)
  have dvd: "d dvd off" using assms(1) by (simp add: d_def)
  obtain c r where cr: "cursor H off = (c, r)" by fastforce
  have "r \<le> H" using cr pos(1) by (auto simp: cursor_def Suc_le_eq split: if_splits)
  moreover have "d \<le> H" using dH pos(1) by (simp add: dvd_imp_le)
  moreover have "H < 2 ^ 63" unfolding H_def using assms(3) by (rule power_strict_increasing) simp
  ultimately have ov: "r + d < 2 ^ 64" by simp
  have len: "slice_len_of lh l = Ok d" using assms(2,3) by (simp add: slice_len_of_Ok d_def)
  have H: "shl64 (Suc 0) ls = Ok H" using assms(3) by (simp add: H_def)
  have add: "add64 r d = Ok (r + d)" using ov by (simp add: add64_def)
  from cursor_wrap [OF dvd dH pos] cursor_next [OF dvd dH pos] show ?thesis
    unfolding H_def [symmetric] d_def [symmetric]
    by (auto simp: place_column_def len H cr add slice_at_def split: if_splits)
qed

lemma place_columns:
  assumes "lifted_len l lh dvd off" and "max l lh \<le> ls" and "ls < 63"
  shows "rfold (place_column l ls m lh) js (cols, cursor (2 ^ ls) off)
     = Ok (cols @ place_all l (2 ^ ls) off (map (\<lambda>j. (m, j, lh)) js),
           cursor (2 ^ ls) (off + length js * lifted_len l lh))"
  using assms(1)
proof (induction js arbitrary: cols off)
  case (Cons j js)
  have "lifted_len l lh dvd off + lifted_len l lh" using Cons.prems by simp
  from Cons.IH [OF this] place_column_step [OF Cons.prems assms(2,3), of m j cols] show ?case
    by (simp add: add.assoc)
qed simp

text \<open>The starts are the numbers of columns before each matrix.\<close>

fun starts_from :: "nat \<Rightarrow> (nat \<times> nat) list \<Rightarrow> nat list" where
  "starts_from n [] = []"
| "starts_from n ((w, lh) # ms) = n # starts_from (n + w) ms"

lemma length_starts_from [simp]: "length (starts_from n ms) = length ms"
  by (induction n ms rule: starts_from.induct) simp_all

definition columns_from :: "nat \<Rightarrow> (nat \<times> nat) list \<Rightarrow> (nat \<times> nat \<times> nat) list" where
  "columns_from n ms = concat (map mat_columns (zip [n..<n + length ms] ms))"

lemma columns_from_simps [simp]:
  "columns_from n [] = []"
  "columns_from n ((w, lh) # ms) = mat_columns (n, w, lh) @ columns_from (Suc n) ms"
  by (simp_all add: columns_from_def upt_conv_Cons del: upt_Suc)

lemma all_columns_from: "all_columns ms = columns_from 0 ms"
  by (simp add: all_columns_def columns_from_def)

lemma lifted_len_dvd: "lh' \<le> lh \<Longrightarrow> lifted_len l lh' dvd lifted_len l lh"
  by (auto simp: lifted_len_def intro!: le_imp_power_dvd)

lemma later_columns_dvd:
  assumes "sorted_wrt (\<lambda>a b. snd b \<le> snd a) ((w, lh) # metas)" and "\<forall>(w, lh) \<in> set metas. lifted_len l lh dvd off"
  shows "\<forall>(w', lh') \<in> set metas. lifted_len l lh' dvd off + w * lifted_len l lh"
proof (clarify)
  fix w' lh' assume mem: "(w', lh') \<in> set metas"
  then have "lh' \<le> lh" using assms(1) by force
  moreover have "lifted_len l lh' dvd off" using mem assms(2) by auto
  ultimately show "lifted_len l lh' dvd off + w * lifted_len l lh" by (simp add: lifted_len_dvd)
qed

lemma place_matrices:
  assumes "sorted_wrt (\<lambda>a b. snd b \<le> snd a) metas" and "\<forall>(w, lh) \<in> set metas. w = 0 \<or> lh \<le> ls"
    and "\<forall>(w, lh) \<in> set metas. lifted_len l lh dvd off" and "l \<le> ls" and "ls < 63"
  shows "rfold (place_matrix l ls) (zip [n..<n + length metas] metas) (starts, cols, cursor (2 ^ ls) off)
     = Ok (starts @ starts_from (length cols) metas, cols @ place_all l (2 ^ ls) off (columns_from n metas),
           cursor (2 ^ ls) (off + total_len l (columns_from n metas)))"
  using assms(1-3)
proof (induction metas arbitrary: n starts cols off)
  case (Cons a metas)
  obtain w lh where a: "a = (w, lh)" by fastforce
  have dvd: "lifted_len l lh dvd off" using Cons.prems(3) by (simp add: a)
  have later: "\<forall>(w', lh') \<in> set metas. lifted_len l lh' dvd off + w * lifted_len l lh"
    by (rule later_columns_dvd) (use Cons.prems in \<open>simp_all add: a\<close>)
  have step: "place_matrix l ls (n, w, lh) (starts, cols, cursor (2 ^ ls) off)
     = Ok (starts @ [length cols], cols @ place_all l (2 ^ ls) off (mat_columns (n, w, lh)),
           cursor (2 ^ ls) (off + w * lifted_len l lh))"
  proof (cases "w = 0")
    case True
    obtain c r where "cursor (2 ^ ls) off = (c, r)" by fastforce
    with True show ?thesis by (simp add: place_matrix_def mat_columns_def)
  next
    case False
    then have "lh \<le> ls" using Cons.prems(2) by (auto simp: a)
    with place_columns [OF dvd _ assms(5), of n "[0..<w]" cols] assms(4) False show ?thesis
      by (cases "cursor (2 ^ ls) off") (simp add: place_matrix_def mat_columns_def not_less)
  qed
  have len: "length (mat_columns (n, w, lh)) = w" by (simp add: mat_columns_def)
  have IH: "rfold (place_matrix l ls) (zip [Suc n..<Suc n + length metas] metas)
      (starts @ [length cols], cols @ place_all l (2 ^ ls) off (mat_columns (n, w, lh)), cursor (2 ^ ls) (off + w * lifted_len l lh))
     = Ok ((starts @ [length cols]) @ starts_from (length (cols @ place_all l (2 ^ ls) off (mat_columns (n, w, lh)))) metas,
           (cols @ place_all l (2 ^ ls) off (mat_columns (n, w, lh))) @
             place_all l (2 ^ ls) (off + w * lifted_len l lh) (columns_from (Suc n) metas),
           cursor (2 ^ ls) (off + w * lifted_len l lh + total_len l (columns_from (Suc n) metas)))"
    by (rule Cons.IH) (use Cons.prems later in \<open>auto simp: a\<close>)
  have z: "zip [n..<n + length (a # metas)] (a # metas) = (n, w, lh) # zip [Suc n..<Suc n + length metas] metas"
    by (simp add: a upt_conv_Cons del: upt_Suc)
  show ?case unfolding z rfold.simps step rbind.simps IH
    by (simp add: a place_all_append total_len_mat_columns len add.assoc)
qed simp

text \<open>Alignment: every column starts at a multiple of its length.\<close>

fun aligned :: "nat \<Rightarrow> nat \<Rightarrow> (nat \<times> nat \<times> nat) list \<Rightarrow> bool" where
  "aligned l off [] = True"
| "aligned l off ((m, j, lh) # cs) = (lifted_len l lh dvd off \<and> aligned l (off + lifted_len l lh) cs)"

definition wf_metas :: "nat \<Rightarrow> nat \<Rightarrow> (nat \<times> nat) list \<Rightarrow> bool" where
  "wf_metas l ls metas \<longleftrightarrow> l \<le> ls \<and> ls < 63 \<and> sorted_wrt (\<lambda>a b. snd b \<le> snd a) metas \<and>
     (\<forall>(w, lh) \<in> set metas. w = 0 \<or> lh \<le> ls)"

lemma aligned_append: "aligned l off (xs @ ys) \<longleftrightarrow> aligned l off xs \<and> aligned l (off + total_len l xs) ys"
  by (induction l off xs rule: aligned.induct) (auto simp: add.assoc)

lemma aligned_mat_columns: "lifted_len l lh dvd off \<Longrightarrow> aligned l off (mat_columns (m, w, lh))"
  by (induction w) (simp_all add: mat_columns_def aligned_append
      total_len_mat_columns [unfolded mat_columns_def, simplified])

lemma aligned_columns_from:
  "sorted_wrt (\<lambda>a b. snd b \<le> snd a) metas \<Longrightarrow> \<forall>(w, lh) \<in> set metas. lifted_len l lh dvd off \<Longrightarrow>
     aligned l off (columns_from n metas)"
proof (induction metas arbitrary: n off)
  case (Cons a metas)
  obtain w lh where a: "a = (w, lh)" by fastforce
  have "\<forall>(w', lh') \<in> set metas. lifted_len l lh' dvd off + w * lifted_len l lh"
    by (rule later_columns_dvd) (use Cons.prems in \<open>simp_all add: a\<close>)
  with Cons show ?case
    by (auto simp: a aligned_append total_len_mat_columns aligned_mat_columns)
qed simp

lemma aligned_all_columns: "wf_metas l ls metas \<Longrightarrow> aligned l 0 (all_columns metas)"
  by (auto simp: wf_metas_def all_columns_from intro: aligned_columns_from)

lemma columns_bounded: "wf_metas l ls metas \<Longrightarrow> (m, j, lh) \<in> set (all_columns metas) \<Longrightarrow> max l lh \<le> ls"
  by (force simp: wf_metas_def all_columns_def mat_columns_def dest: set_zip_rightD)

lemma aligned_nth:
  "aligned l off cs \<Longrightarrow> k < length cs \<Longrightarrow> cs ! k = (m, j, lh) \<Longrightarrow> lifted_len l lh dvd off + total_len l (take k cs)"
proof (induction cs arbitrary: off k)
  case (Cons c cs)
  show ?case
  proof (cases k)
    case (Suc i)
    with Cons.IH [of "off + lifted_len l (snd (snd c))" i] Cons.prems show ?thesis
      by (cases c) (simp add: add.assoc)
  qed (use Cons.prems in \<open>cases c; simp\<close>)
qed simp

lemma place_all_nth:
  "k < length cs \<Longrightarrow> cs ! k = (m, j, lh) \<Longrightarrow>
     place_all l H off cs ! k = (m, j, slice_at H (off + total_len l (take k cs)) lh)"
proof (induction cs arbitrary: off k)
  case (Cons c cs)
  show ?case
  proof (cases k)
    case (Suc i)
    with Cons.IH [of i "off + lifted_len l (snd (snd c))"] Cons.prems show ?thesis
      by (cases c) (simp add: add.assoc)
  qed (use Cons.prems in \<open>cases c; simp\<close>)
qed simp

lemma div_ceil_step:
  assumes "d dvd off" and "d dvd H" and "0 < H" and "0 < d"
  shows "div_ceil (off + d) H = off div H + 1"
proof -
  have fits: "off mod H + d \<le> H" using slot_fits [OF assms(1-3)] .
  have "off + d + H - 1 = (off div H + 1) * H + (off mod H + d - 1)"
    using assms(4) by (simp add: algebra_simps)
  from div_mod_parts [OF this] fits assms(4) show ?thesis by (simp add: div_ceil_def)
qed

lemma div_ceil_le: "0 < H \<Longrightarrow> div_ceil off H \<le> off div H + 1"
proof -
  assume "0 < H"
  then have "(off + H - 1) div H \<le> (off + H) div H" by (intro div_le_mono) simp
  also have "\<dots> = off div H + 1" using div_add_self2 [of H off] \<open>0 < H\<close> by simp
  finally show ?thesis by (simp add: div_ceil_def)
qed

lemma cursor_width: "0 < H \<Longrightarrow> fst (cursor H off) + of_bool (snd (cursor H off) \<noteq> 0) = div_ceil off H"
proof (cases "off = 0")
  case False
  assume "0 < H"
  then have "(off + H - 1) div H = (off - 1 + H) div H" using False by simp
  also have "\<dots> = (off - 1) div H + 1" using div_add_self2 [of H "off - 1"] \<open>0 < H\<close> by simp
  finally show ?thesis using False by (simp add: cursor_def div_ceil_def)
qed (simp add: cursor_def div_ceil_def)

lemma max_width_place_all:
  assumes "0 < H"
  shows "aligned l off cs \<Longrightarrow> \<forall>(m, j, lh) \<in> set cs. lifted_len l lh dvd H \<Longrightarrow>
    fold max (map (\<lambda>(_, _, s). slice_col_idx s + 1) (place_all l H off cs)) (div_ceil off H)
      = div_ceil (off + total_len l cs) H"
proof (induction l off cs rule: aligned.induct)
  case (2 l off m j lh cs)
  have "max (off div H + 1) (div_ceil off H) = off div H + 1" using div_ceil_le [OF assms, of off] by simp
  moreover have "div_ceil (off + lifted_len l lh) H = off div H + 1"
    by (rule div_ceil_step) (use 2 assms in auto)
  ultimately show ?case using 2 by (simp add: slice_at_def add.assoc)
qed simp

lemma layout_new_closed:
  assumes "wf_metas l ls metas"
  shows "stacked_layout_new l ls metas =
     Ok \<lparr>layout_l_skip = l, layout_height = 2 ^ ls, layout_width = div_ceil (total_len l (all_columns metas)) (2 ^ ls),
         sorted_cols = place_all l (2 ^ ls) 0 (all_columns metas), mat_starts = starts_from 0 metas\<rparr>"
proof -
  from assms have wf: "l \<le> ls" "ls < 63" "sorted_wrt (\<lambda>a b. snd b \<le> snd a) metas"
    "\<forall>(w, lh) \<in> set metas. w = 0 \<or> lh \<le> ls" by (simp_all add: wf_metas_def)
  have loop: "rfold (place_matrix l ls) (enumerated metas) ([], [], 0, 0)
     = Ok (starts_from 0 metas, place_all l (2 ^ ls) 0 (all_columns metas), cursor (2 ^ ls) (total_len l (all_columns metas)))"
    using place_matrices [OF wf(3,4) _ wf(1,2), of 0 0 "[]" "[]"] by (simp add: cursor_def all_columns_from)
  have dvd: "\<forall>(m, j, lh) \<in> set (all_columns metas). lifted_len l lh dvd 2 ^ ls"
    using columns_bounded [OF assms] by (fastforce simp: lifted_len_def intro: le_imp_power_dvd)
  have "max_width (place_all l (2 ^ ls) 0 (all_columns metas)) = div_ceil (total_len l (all_columns metas)) (2 ^ ls)"
    using max_width_place_all [OF _ aligned_all_columns [OF assms] dvd] by (simp add: max_width_def div_ceil_def)
  with loop wf cursor_width [of "2 ^ ls" "total_len l (all_columns metas)"] show ?thesis
    by (cases "cursor (2 ^ ls) (total_len l (all_columns metas))") (simp add: stacked_layout_new_def)
qed

section \<open>Looking up slices\<close>

lemma columns_from_append:
  "columns_from n (xs @ ys) = columns_from n xs @ columns_from (n + length xs) ys"
proof (induction xs arbitrary: n)
  case (Cons a xs)
  then show ?case by (cases a) simp
qed simp

lemma columns_split:
  assumes "i < length ms" and "ms ! i = (w, lh)"
  shows "columns_from n ms = columns_from n (take i ms) @ mat_columns (n + i, w, lh) @ columns_from (Suc (n + i)) (drop (Suc i) ms)"
proof -
  have "ms = take i ms @ (w, lh) # drop (Suc i) ms" using assms id_take_nth_drop by metis
  then have "columns_from n ms = columns_from n (take i ms @ (w, lh) # drop (Suc i) ms)" by simp
  also have "\<dots> = columns_from n (take i ms) @ mat_columns (n + i, w, lh) @ columns_from (Suc (n + i)) (drop (Suc i) ms)"
    using assms(1) by (simp add: columns_from_append)
  finally show ?thesis .
qed

lemma columns_from_index: "(m, j, lh) \<in> set (columns_from n ms) \<Longrightarrow> n \<le> m \<and> m < n + length ms"
  by (auto simp: columns_from_def mat_columns_def dest!: set_zip_leftD)

lemma place_all_map: "map (\<lambda>(m, j, s). (m, j, slice_log_height s)) (place_all l H off cs) = cs"
  by (induction l H off cs rule: place_all.induct) (simp_all add: slice_at_def)

lemma place_all_fst: "(m, j, s) \<in> set (place_all l H off cs) \<Longrightarrow> (m, j, slice_log_height s) \<in> set cs"
  using place_all_map [of l H off cs] by (metis (mono_tags, lifting) case_prod_conv image_eqI set_map)

lemma starts_nth: "i < length ms \<Longrightarrow> starts_from c ms ! i = c + length (columns_from n (take i ms))"
proof (induction ms arbitrary: i c n)
  case (Cons a ms)
  obtain w lh where a: "a = (w, lh)" by fastforce
  show ?case
  proof (cases i)
    case (Suc k)
    with Cons.IH [of k "c + w" "Suc n"] Cons.prems show ?thesis by (simp add: a mat_columns_def)
  qed (simp add: a)
qed simp

lemma filter_place_all:
  assumes "i < length ms" and "ms ! i = (w, lh)"
  shows "filter (\<lambda>(m, _, _). m = i) (place_all l H 0 (all_columns ms))
     = place_all l H (total_len l (columns_from 0 (take i ms))) (mat_columns (i, w, lh))"
proof -
  let ?P = "\<lambda>(m :: nat, j :: nat, s :: stacked_slice). m = i"
  have "filter ?P (place_all l H off (columns_from 0 (take i ms))) = []" for off
    using assms(1) by (auto simp: filter_empty_conv dest!: place_all_fst columns_from_index)
  moreover have "filter ?P (place_all l H off (columns_from (Suc i) ms')) = []" for off ms'
    by (auto simp: filter_empty_conv dest!: place_all_fst columns_from_index)
  moreover have "filter ?P (place_all l H off (mat_columns (i, w, lh))) = place_all l H off (mat_columns (i, w, lh))" for off
    by (auto simp: filter_id_conv mat_columns_def dest!: place_all_fst)
  ultimately show ?thesis
    by (simp add: all_columns_from columns_split [OF assms, of 0] place_all_append)
qed

definition col_start :: "nat \<Rightarrow> (nat \<times> nat) list \<Rightarrow> nat \<Rightarrow> nat \<Rightarrow> nat" where
  "col_start l ms m j = total_len l (columns_from 0 (take m ms)) + j * lifted_len l (snd (ms ! m))"

lemma column_at:
  assumes "i < length ms" and "ms ! i = (w, lh)" and "j < w"
  shows "starts_from 0 ms ! i + j < length (all_columns ms) \<and>
     place_all l H 0 (all_columns ms) ! (starts_from 0 ms ! i + j) = (i, j, slice_at H (col_start l ms i j) lh)"
proof -
  let ?k = "starts_from 0 ms ! i + j"
  have k: "?k = length (columns_from 0 (take i ms)) + j" using starts_nth [OF assms(1), of 0 0] by simp
  have split: "all_columns ms = columns_from 0 (take i ms) @ mat_columns (i, w, lh) @ columns_from (Suc i) (drop (Suc i) ms)"
    using columns_split [OF assms(1,2), of 0] by (simp add: all_columns_from)
  have len: "length (mat_columns (i, w, lh)) = w" by (simp add: mat_columns_def)
  have lt: "?k < length (all_columns ms)" using assms(3) by (simp add: split k len)
  have at: "all_columns ms ! ?k = (i, j, lh)"
    using assms(3) by (simp add: split k nth_append len) (simp add: mat_columns_def)
  have tk: "take ?k (all_columns ms) = columns_from 0 (take i ms) @ take j (mat_columns (i, w, lh))"
    using assms(3) by (simp add: split k len)
  have "take j (mat_columns (i, w, lh)) = mat_columns (i, j, lh)"
    using assms(3) by (simp add: mat_columns_def take_map)
  then have "total_len l (take ?k (all_columns ms)) = col_start l ms i j"
    using assms(2) by (simp add: tk total_len_mat_columns col_start_def)
  with place_all_nth [OF lt at, of l H 0] lt show ?thesis by simp
qed

lemma place_all_in_range:
  assumes "wf_metas l ls metas" and "k < length (all_columns metas)"
    and "place_all l (2 ^ ls) 0 (all_columns metas) ! k = (m, j, s)"
  shows "slice_row_idx s + lifted_len l (slice_log_height s) \<le> 2 ^ ls \<and>
     slice_col_idx s < div_ceil (total_len l (all_columns metas)) (2 ^ ls) \<and>
     slice_col_idx s * 2 ^ ls + slice_row_idx s = total_len l (take k (all_columns metas))"
proof -
  let ?cs = "all_columns metas" and ?H = "(2::nat) ^ ls"
  obtain m' j' lh where c: "?cs ! k = (m', j', lh)" by (cases "?cs ! k")
  define off where "off = total_len l (take k ?cs)"
  have s: "s = slice_at ?H off lh"
    using place_all_nth [OF assms(2) c, of l ?H 0] assms(3) by (simp add: off_def)
  have "max l lh \<le> ls" using columns_bounded [OF assms(1)] assms(2) c by (metis nth_mem)
  then have dH: "lifted_len l lh dvd ?H" by (simp add: lifted_len_def le_imp_power_dvd)
  have dvd: "lifted_len l lh dvd off"
    using aligned_nth [OF aligned_all_columns [OF assms(1)] assms(2) c] by (simp add: off_def)
  have le: "off + lifted_len l lh \<le> total_len l ?cs"
  proof -
    have "total_len l (take (Suc k) ?cs) = off + lifted_len l lh"
      using assms(2) c by (simp add: take_Suc_conv_app_nth off_def)
    moreover have "total_len l ?cs = total_len l (take (Suc k) ?cs) + total_len l (drop (Suc k) ?cs)"
      by (simp flip: total_len_simps(3))
    ultimately show ?thesis by simp
  qed
  then have "div_ceil (off + lifted_len l lh) ?H \<le> div_ceil (total_len l ?cs) ?H"
    by (simp add: div_ceil_def div_le_mono diff_le_mono)
  with div_ceil_step [OF dvd dH] slot_fits [OF dvd dH] div_mult_mod_eq [of off ?H] show ?thesis
    by (simp add: s slice_at_def off_def)
qed

lemma place_all_disjoint:
  assumes "i < k" and "k < length cs" and "place_all l H 0 cs ! i = (m, j, s)" and "place_all l H 0 cs ! k = (m', j', s')"
  shows "slice_col_idx s * H + slice_row_idx s + lifted_len l (slice_log_height s) \<le> slice_col_idx s' * H + slice_row_idx s'"
proof -
  obtain m1 j1 lh where c: "cs ! i = (m1, j1, lh)" by (cases "cs ! i")
  obtain m2 j2 lh' where c': "cs ! k = (m2, j2, lh')" by (cases "cs ! k")
  have i: "i < length cs" using assms(1,2) by simp
  have s: "s = slice_at H (total_len l (take i cs)) lh" "s' = slice_at H (total_len l (take k cs)) lh'"
    using place_all_nth [OF i c, of l H 0] place_all_nth [OF assms(2) c', of l H 0] assms(3,4) by simp_all
  have "take k cs = take (Suc i) cs @ drop (Suc i) (take k cs)"
    using assms(1,2) by (metis Suc_leI append_take_drop_id min.absorb1 take_take)
  then have "total_len l (take (Suc i) cs) \<le> total_len l (take k cs)" by (metis le_add1 total_len_simps(3))
  moreover have "total_len l (take (Suc i) cs) = total_len l (take i cs) + lifted_len l lh"
    using i c by (simp add: take_Suc_conv_app_nth)
  ultimately show ?thesis by (simp add: s slice_at_def)
qed

section \<open>Rebuilding a layout from its columns\<close>

lemma raw_start_simps:
  "idx \<noteq> 0 \<Longrightarrow> length starts = Suc m \<Longrightarrow> raw_start (idx, m, r) starts = Ok starts"
  "length starts = m \<Longrightarrow> raw_start (idx, m, r) starts = Ok (starts @ [idx])"
  by (simp_all add: raw_start_def)

lemma raw_start_columns:
  "0 < w \<Longrightarrow> length starts = n \<Longrightarrow> (idx = 0 \<longrightarrow> n = 0) \<Longrightarrow>
   rfold raw_start (zip [idx..<idx + w] (place_all l H off (mat_columns (n, w, lh)))) starts = Ok (starts @ [idx])"
proof -
  assume a: "0 < w" "length starts = n" "idx = 0 \<longrightarrow> n = 0"
  have rest: "rfold raw_start (zip [k..<k + length js] (place_all l H off' (map (\<lambda>j. (n, j, lh)) js))) (starts @ [idx])
      = Ok (starts @ [idx])" if "0 < k" for k js off'
    using that
  proof (induction js arbitrary: k off')
    case (Cons j js)
    from Cons.IH [of "Suc k" "off' + lifted_len l lh"] Cons.prems a(2) show ?case
      by (simp add: upt_conv_Cons raw_start_simps del: upt_Suc)
  qed simp
  obtain w' where w: "w = Suc w'" using a(1) by (cases w) auto
  have cols: "mat_columns (n, w, lh) = (n, 0, lh) # map (\<lambda>j. (n, j, lh)) [1..<w]"
    by (simp add: mat_columns_def w upt_conv_Cons del: upt_Suc)
  show ?thesis using rest [of "Suc idx" "[1..<w]"] a(2,3)
    unfolding cols by (simp add: w upt_conv_Cons raw_start_simps del: upt_Suc)
qed

lemma raw_starts:
  "\<forall>(w, lh) \<in> set ms. w \<noteq> 0 \<Longrightarrow> length starts = n \<Longrightarrow> (idx = 0 \<longrightarrow> n = 0) \<Longrightarrow>
   rfold raw_start (zip [idx..<idx + length (columns_from n ms)] (place_all l H off (columns_from n ms))) starts
     = Ok (starts @ starts_from idx ms)"
proof (induction ms arbitrary: starts n idx off)
  case (Cons a ms)
  obtain w lh where a: "a = (w, lh)" by fastforce
  have w: "0 < w" using Cons.prems(1) by (auto simp: a)
  have len: "length (mat_columns (n, w, lh)) = w" by (simp add: mat_columns_def)
  have z: "zip [idx..<idx + length (columns_from n (a # ms))] (place_all l H off (columns_from n (a # ms)))
      = zip [idx..<idx + w] (place_all l H off (mat_columns (n, w, lh))) @
        zip [idx + w..<idx + w + length (columns_from (Suc n) ms)]
          (place_all l H (off + total_len l (mat_columns (n, w, lh))) (columns_from (Suc n) ms))"
    using upt_add_eq_append [of idx "idx + w" "length (columns_from (Suc n) ms)"]
    by (simp add: a place_all_append len add.assoc)
  show ?case
    unfolding z rfold_append raw_start_columns [OF w Cons.prems(2,3)] rbind.simps
    using Cons.IH [of "starts @ [idx]" "Suc n" "idx + w" "off + total_len l (mat_columns (n, w, lh))"] Cons.prems w
    by (simp add: a)
qed simp

lemma from_raw_parts_closed:
  assumes "wf_metas l ls metas" and "\<forall>(w, lh) \<in> set metas. w \<noteq> 0" and "stacked_layout_new l ls metas = Ok L"
  shows "stacked_layout_from_raw_parts l ls (sorted_cols L) = Ok L"
proof -
  have ls: "ls < 64" using assms(1) by (simp add: wf_metas_def)
  have L: "L = \<lparr>layout_l_skip = l, layout_height = 2 ^ ls,
      layout_width = div_ceil (total_len l (all_columns metas)) (2 ^ ls),
      sorted_cols = place_all l (2 ^ ls) 0 (all_columns metas), mat_starts = starts_from 0 metas\<rparr>"
    using layout_new_closed [OF assms(1)] assms(3) by simp
  have mw: "max_width (sorted_cols L) = layout_width L"
    using assms(3) by (auto simp: stacked_layout_new_def L Let_def res_simps)
  have "rfold raw_start (enumerated (sorted_cols L)) [] = Ok (starts_from 0 metas)"
    using raw_starts [OF assms(2), of "[]" 0 0 l "2 ^ ls" 0] by (simp add: L all_columns_from)
  with ls mw show ?thesis by (simp add: stacked_layout_from_raw_parts_def L)
qed

section \<open>The stacked matrix\<close>

text \<open>A column lifted to its slice: spread with a stride when it is shorter than \<open>2 ^ l_skip\<close>.\<close>

definition spread :: "nat \<Rightarrow> 'f::zero list \<Rightarrow> 'f list" where
  "spread stride col = concat (map (\<lambda>x. x # replicate (stride - 1) 0) col)"

definition lift_column :: "nat \<Rightarrow> nat \<Rightarrow> 'f::zero list \<Rightarrow> 'f list" where
  "lift_column l lh col = spread (2 ^ (l - lh)) col"

lemma spread_one [simp]: "spread (Suc 0) col = col"
  by (induction col) (simp_all add: spread_def)

lemma length_spread: "0 < stride \<Longrightarrow> length (spread stride col) = length col * stride"
  by (induction col) (simp_all add: spread_def)

lemma length_lift_column: "length col = 2 ^ lh \<Longrightarrow> length (lift_column l lh col) = lifted_len l lh"
  by (simp add: lift_column_def length_spread lifted_len_def max_def flip: power_add)

lemma spread_nth:
  "0 < stride \<Longrightarrow> r < length col \<Longrightarrow> spread stride col ! (r * stride) = col ! r"
proof (induction col arbitrary: r)
  case (Cons x col)
  have sp: "spread stride (x # col) = (x # replicate (stride - 1) 0) @ spread stride col" by (simp add: spread_def)
  show ?case
  proof (cases r)
    case (Suc k)
    have "length (x # replicate (stride - 1) (0 :: 'a)) = stride" using Cons.prems(1) by simp
    then have "spread stride (x # col) ! (stride + k * stride) = spread stride col ! (k * stride)"
      unfolding sp by (metis nth_append_length_plus)
    with Cons Suc show ?thesis by simp
  qed (simp add: sp)
qed simp

lemma write_strided:
  assumes "0 < stride"
  shows "length pre = start + n * stride \<Longrightarrow>
   rfold (\<lambda>(i, val) q. set_index q (start + i * stride) val) (zip [n..<n + length col] col)
     (pre @ replicate (length col * stride) 0 @ post) = Ok (pre @ spread stride col @ post)"
proof (induction col arbitrary: pre n)
  case (Cons x col)
  have z: "zip [n..<n + length (x # col)] (x # col) = (n, x) # zip [Suc n..<Suc n + length col] col"
    by (simp add: upt_conv_Cons del: upt_Suc)
  have rep: "replicate (length (x # col) * stride) 0 = 0 # replicate (stride - 1) 0 @ replicate (length col * stride) (0 :: 'a)"
  proof -
    have "length (x # col) * stride = Suc (stride - 1) + length col * stride" using assms by simp
    then show ?thesis by (simp only: replicate_add replicate_Suc append_Cons)
  qed
  have one: "set_index (pre @ replicate (length (x # col) * stride) 0 @ post) (start + n * stride) x
     = Ok ((pre @ x # replicate (stride - 1) 0) @ replicate (length col * stride) 0 @ post)"
    unfolding rep using Cons.prems by (simp add: set_index_def list_update_append flip: Cons.prems)
  have "length (pre @ x # replicate (stride - 1) (0 :: 'a)) = start + Suc n * stride" using Cons.prems assms by simp
  from Cons.IH [OF this] show ?case
    unfolding z rfold.simps(2) prod.case one rbind.simps by (simp add: spread_def)
qed (simp add: spread_def)

definition wf_traces :: "nat \<Rightarrow> nat \<Rightarrow> 'f col_matrix list \<Rightarrow> (nat \<times> nat) list \<Rightarrow> bool" where
  "wf_traces l ls traces metas \<longleftrightarrow>
     list_all2 (\<lambda>t (w, lh). wf_col_matrix t \<and> cm_width t = w \<and> cm_height t = 2 ^ lh) traces metas \<and>
     wf_metas l ls metas"

definition trace_column :: "'f::zero col_matrix list \<Rightarrow> nat \<times> nat \<times> nat \<Rightarrow> 'f list" where
  "trace_column traces = (\<lambda>(m, j, lh). columns_of (traces ! m) ! j)"

definition lifted :: "nat \<Rightarrow> 'f::zero col_matrix list \<Rightarrow> (nat \<times> nat \<times> nat) list \<Rightarrow> 'f list" where
  "lifted l traces cs = concat (map (\<lambda>c. lift_column l (snd (snd c)) (trace_column traces c)) cs)"

definition cols_ok :: "'f col_matrix list \<Rightarrow> (nat \<times> nat \<times> nat) list \<Rightarrow> bool" where
  "cols_ok traces cs \<longleftrightarrow> (\<forall>(m, j, lh) \<in> set cs. m < length traces \<and> wf_col_matrix (traces ! m) \<and>
     j < cm_width (traces ! m) \<and> cm_height (traces ! m) = 2 ^ lh)"

lemma length_lifted: "cols_ok traces cs \<Longrightarrow> length (lifted l traces cs) = total_len l cs"
  by (induction cs) (auto simp: lifted_def cols_ok_def trace_column_def length_column length_lift_column)

lemma cols_ok_metas: "wf_traces l ls traces metas \<Longrightarrow> cols_ok traces (all_columns metas)"
  by (fastforce simp: wf_traces_def cols_ok_def all_columns_def mat_columns_def in_set_zip
      dest: list_all2_lengthD list_all2_nthD2)

lemma stack_column_step:
  assumes "cols_ok traces [(m, j, lh)]" and "max l lh \<le> ls" and "ls < 63" and "0 < H"
    and "length pre = off" and "lifted_len l lh \<le> n"
  shows "stack_column l H traces (m, j, slice_at H off lh) (pre @ replicate n 0)
     = (Ok ((pre @ lift_column l lh (trace_column traces (m, j, lh))) @ replicate (n - lifted_len l lh) 0) :: ('f::zero list, 'e) res)"
proof -
  let ?col = "columns_of (traces ! m) ! j"
  have c: "m < length traces" "wf_col_matrix (traces ! m)" "j < cm_width (traces ! m)" "cm_height (traces ! m) = 2 ^ lh"
    using assms(1) by (auto simp: cols_ok_def)
  have len: "length ?col = 2 ^ lh" using length_column [OF c(2,3)] c(4) by simp
  have off: "off div H * H + off mod H = off" by simp
  have n: "replicate n (0 :: 'f) = replicate (lifted_len l lh) 0 @ replicate (n - lifted_len l lh) 0"
    using assms(6) by (simp flip: replicate_add)
  show ?thesis
  proof (cases "l \<le> lh")
    case True
    then have "lifted_len l lh = 2 ^ lh" by (simp add: lifted_len_def max_absorb2)
    with True c len assms show ?thesis
      by (simp add: stack_column_def slice_at_def off cm_column_Ok copy_from_slice_def trace_column_def lift_column_def)
  next
    case False
    define stride where "stride = (2::nat) ^ (l - lh)"
    have st: "0 < stride" "lifted_len l lh = length ?col * stride"
      using False by (simp_all add: stride_def lifted_len_def len max_absorb1 flip: power_add)
    have "l - lh < 64" using assms(2,3) by linarith
    then have "slice_stride (slice_at H off lh) l = (Ok stride :: (nat, 'e) res)"
      by (simp add: slice_stride_def slice_at_def stride_def)
    with False c len assms(2,3,5) write_strided [OF st(1), of pre off 0 ?col "replicate (n - lifted_len l lh) 0"] st(2) show ?thesis
      by (simp add: stack_column_def slice_at_def off cm_column_Ok trace_column_def lift_column_def n flip: stride_def)
  qed
qed

lemma stack_columns:
  assumes "ls < 63" and "0 < H"
  shows "cols_ok traces cs \<Longrightarrow> \<forall>(m, j, lh) \<in> set cs. max l lh \<le> ls \<Longrightarrow> length pre = off \<Longrightarrow> total_len l cs \<le> n \<Longrightarrow>
    rfold (stack_column l H traces) (place_all l H off cs) (pre @ replicate n 0)
      = Ok (pre @ lifted l traces cs @ replicate (n - total_len l cs) 0)"
proof (induction cs arbitrary: pre off n)
  case (Cons c cs)
  obtain m j lh where c: "c = (m, j, lh)" by (cases c)
  have ok: "cols_ok traces [(m, j, lh)]" "cols_ok traces cs" using Cons.prems(1) by (auto simp: c cols_ok_def)
  have step: "stack_column l H traces (m, j, slice_at H off lh) (pre @ replicate n 0)
     = Ok ((pre @ lift_column l lh (trace_column traces (m, j, lh))) @ replicate (n - lifted_len l lh) 0)"
    by (rule stack_column_step [OF ok(1) _ assms]) (use Cons.prems in \<open>auto simp: c\<close>)
  have len: "length (lift_column l lh (trace_column traces (m, j, lh))) = lifted_len l lh"
    using ok(1) by (auto simp: cols_ok_def trace_column_def length_column length_lift_column)
  show ?case
    using Cons.IH [OF ok(2), of "pre @ lift_column l lh (trace_column traces (m, j, lh))" "off + lifted_len l lh" "n - lifted_len l lh"]
      Cons.prems by (simp add: c step len lifted_def)
qed (simp add: lifted_def)

lemma stacked_meta:
  assumes "wf_traces l ls traces metas"
  shows "rmap (\<lambda>trace. rbind (log2_strict (cm_height trace)) (\<lambda>log_height. Ok (cm_width trace, log_height))) traces = Ok metas"
  using assms unfolding wf_traces_def rmap_Ok_iff by (auto simp: res_simps elim!: list_all2_mono)

lemma total_cells:
  assumes "wf_traces l ls traces metas" and "total_len l (all_columns metas) < 2 ^ 64"
  shows "rfold (\<lambda>t acc. rbind (shl64 1 l) (\<lambda>min_height. rbind (mul64 (max (cm_height t) min_height) (cm_width t)) (add64 acc))) traces 0
     = (Ok (total_len l (all_columns metas)) :: (nat, 'e) res)"
proof -
  have l: "l < 64" using assms(1) by (simp add: wf_traces_def wf_metas_def)
  have "list_all2 (\<lambda>t (w, lh). cm_width t = w \<and> cm_height t = 2 ^ lh) traces metas"
    using assms(1) by (auto simp: wf_traces_def elim!: list_all2_mono)
  then have "acc + total_len l (columns_from n metas) < 2 ^ 64 \<Longrightarrow>
     rfold (\<lambda>t acc. rbind (shl64 1 l) (\<lambda>min_height. rbind (mul64 (max (cm_height t) min_height) (cm_width t)) (add64 acc))) traces acc
       = (Ok (acc + total_len l (columns_from n metas)) :: (nat, 'e) res)" for acc n
  proof (induction traces metas arbitrary: acc n rule: list_all2_induct)
    case (Cons t ts a ms)
    obtain w lh where a: "a = (w, lh)" by fastforce
    have "max ((2::nat) ^ lh) (2 ^ l) = lifted_len l lh" by (auto simp: lifted_len_def max_def)
    with Cons l show ?case
      by (simp add: a total_len_mat_columns mul64_def add64_def add.assoc mult.commute [of "lifted_len _ _"])
  qed simp
  from this [of 0 0] assms(2) show ?thesis by (simp add: all_columns_from)
qed

lemma stacked_matrix_closed:
  assumes "wf_traces l (l + n_stack) traces metas" and "traces \<noteq> []" and H: "H = 2 ^ (l + n_stack)"
    and tot: "tot = total_len l (all_columns metas)" and w: "w = div_ceil tot H" and "w * H < 2 ^ 64" and "0 < tot"
  shows "\<exists>L. stacked_layout_new l (l + n_stack) metas = Ok L \<and>
     stacked_matrix l n_stack traces =
       Ok (\<lparr>cm_values = lifted l traces (all_columns metas) @ replicate (w * H - tot) 0, cm_width = w, cm_height = H\<rparr>, L)"
proof -
  have wf: "wf_metas l (l + n_stack) metas" and ls: "l + n_stack < 63"
    using assms(1) by (auto simp: wf_traces_def wf_metas_def)
  have Hpos: "0 < H" by (simp add: H)
  have le: "tot \<le> w * H" using div_ceil_mult [OF Hpos, of tot] by (simp add: w)
  have wpos: "0 < w" using le assms(7) by (cases w) auto
  have Hs: "shl64 (Suc 0) (l + n_stack) = Ok H" using ls by (simp add: H)
  have tot64: "total_len l (all_columns metas) < 2 ^ 64" using le assms(6) tot by linarith
  define L where "L = \<lparr>layout_l_skip = l, layout_height = H, layout_width = w,
    sorted_cols = place_all l H 0 (all_columns metas), mat_starts = starts_from 0 metas\<rparr>"
  have L: "stacked_layout_new l (l + n_stack) metas = Ok L"
    using layout_new_closed [OF wf] by (simp add: L_def H tot w)
  have bound: "\<forall>(m, j, lh) \<in> set (all_columns metas). max l lh \<le> l + n_stack"
    using columns_bounded [OF wf] by fastforce
  have cols: "rfold (stack_column l H traces) (sorted_cols L) (replicate (w * H) 0)
     = (Ok (lifted l traces (all_columns metas) @ replicate (w * H - tot) 0) :: ('a list, stacked_pcs_error) res)"
    using stack_columns [OF ls Hpos cols_ok_metas [OF assms(1)] bound, of "[]" 0 "w * H"] le
    by (simp add: L_def tot)
  have len: "length (lifted l traces (all_columns metas) @ replicate (w * H - tot) 0) = w * H"
    using length_lifted [OF cols_ok_metas [OF assms(1)]] le by (simp add: tot)
  have new: "col_matrix_new (lifted l traces (all_columns metas) @ replicate (w * H - tot) 0) w
     = (Ok \<lparr>cm_values = lifted l traces (all_columns metas) @ replicate (w * H - tot) 0, cm_width = w, cm_height = H\<rparr>
        :: ('a col_matrix, stacked_pcs_error) res)"
    by (rule col_matrix_new_total [OF wpos _ len]) (simp add: H)
  show ?thesis
    using cols new assms(6) total_cells [OF assms(1) tot64, where 'e = stacked_pcs_error]
    by (simp add: stacked_matrix_def stacked_meta [OF assms(1)] L Hs flip: tot w)
qed

text \<open>The view of one matrix: its lifted columns are contiguous.\<close>

lemma lifted_append [simp]: "lifted l traces (xs @ ys) = lifted l traces xs @ lifted l traces ys"
  by (simp add: lifted_def)

lemma lifted_mat_columns:
  assumes "wf_col_matrix (traces ! i)" and "cm_width (traces ! i) = w"
  shows "lifted l traces (mat_columns (i, w, lh)) = concat (map (lift_column l lh) (columns_of (traces ! i)))"
proof -
  have "map (\<lambda>c. columns_of (traces ! i) ! c) [0..<w] = columns_of (traces ! i)"
    using assms(2) by (intro nth_equalityI) auto
  then have "map (lift_column l lh \<circ> (\<lambda>c. columns_of (traces ! i) ! c)) [0..<w] = map (lift_column l lh) (columns_of (traces ! i))"
    by (metis map_map)
  then show ?thesis by (simp add: lifted_def mat_columns_def trace_column_def comp_def)
qed

text \<open>\<open>to_matrix\<close> of a strided view of lifted columns gives the columns back.\<close>

lemma to_matrix_lifted:
  fixes t :: "'f::zero col_matrix"
  assumes "wf_col_matrix t" and "cm_height t = 2 ^ lh" and "st = 2 ^ (l - lh)"
  shows "to_matrix \<lparr>sv_values = concat (map (lift_column l lh) (columns_of t)), sv_width = cm_width t,
      sv_height = cm_height t, sv_stride = st\<rparr> = (Ok t :: (_, 'e) res)"
proof -
  define V where "V = \<lparr>sv_values = concat (map (lift_column l lh) (columns_of t)), sv_width = cm_width t,
      sv_height = cm_height t, sv_stride = st\<rparr>"
  define h where "h = cm_height t"
  have h: "0 < h" "h * st = lifted_len l lh" "0 < st"
    using assms(2,3) by (simp_all add: h_def lifted_len_def max_def flip: power_add)
  have col: "length (columns_of t ! c) = h" if "c < cm_width t" for c
    using length_column [OF assms(1) that] by (simp add: h_def)
  have blocks: "\<forall>x \<in> set (map (lift_column l lh) (columns_of t)). length x = h * st"
    using col by (auto simp: in_set_conv_nth lift_column_def length_spread h(3) simp flip: assms(3))
  have cell: "sv_get_unchecked V r c = (Ok (columns_of t ! c ! r) :: ('f, 'e) res)" if "c < cm_width t" "r < h" for r c
  proof -
    have lt: "r * st < h * st" using that(2) h(3) by simp
    have "length (sv_values V) = cm_width t * (h * st)"
      using length_concat_blocks [OF blocks] by (simp add: V_def)
    then have "c * (h * st) + r * st < length (sv_values V)" using cell_index_less [OF lt that(1)] by simp
    moreover have "sv_values V ! (c * (h * st) + r * st) = columns_of t ! c ! r"
      using concat_nth_block [OF blocks, of c "r * st"] that lt spread_nth [OF h(3), of r "columns_of t ! c"] col
      by (simp add: V_def lift_column_def flip: assms(3))
    ultimately show ?thesis using that
      by (simp add: sv_get_unchecked_def V_def col_maj_idx_def h_def)
  qed
  have "rmap (\<lambda>i. let r = i mod sv_height V; c = i div sv_height V in sv_get_unchecked V r c) [0..<sv_width V * sv_height V]
     = (Ok (map (\<lambda>i. columns_of t ! (i div h) ! (i mod h)) [0..<cm_width t * h]) :: ('f list, 'e) res)" (is "_ = (Ok ?vals :: _)")
    by (rule rmap_total [THEN trans])
      (auto simp: V_def h_def Let_def intro!: cell [unfolded V_def h_def] less_mult_imp_div_less mod_less_divisor h(1) [unfolded h_def])
  moreover have "?vals = cm_values t"
  proof (rule nth_equalityI)
    show "length ?vals = length (cm_values t)" using assms(1) by (simp add: wf_col_matrix_def h_def)
    fix i assume "i < length ?vals"
    then have i: "i < cm_width t * h" by simp
    then have "i div h < cm_width t" "i mod h < h" using h(1) by (simp_all add: less_mult_imp_div_less)
    moreover have "\<forall>x \<in> set (columns_of t). length x = h" using col by (auto simp: in_set_conv_nth)
    ultimately have "concat (columns_of t) ! i = columns_of t ! (i div h) ! (i mod h)"
      using concat_nth_block [of "columns_of t" h "i div h" "i mod h"] by simp
    with i show "?vals ! i = cm_values t ! i" by (simp add: concat_columns [OF assms(1)])
  qed
  ultimately show ?thesis
    using col_matrix_new_self [OF assms(1)] unfolding to_matrix_def V_def [symmetric] by (simp add: V_def)
qed

lemma mat_view_closed:
  fixes traces :: "'f::zero col_matrix list"
  assumes "wf_traces l ls traces metas" and "i < length traces" and "H = 2 ^ ls"
    and "sorted_cols L = place_all l H 0 (all_columns metas)" and "layout_l_skip L = l"
    and "cm_values M = lifted l traces (all_columns metas) @ rest" and "cm_height M = H"
  shows "mat_view L i M = Ok \<lparr>sv_values = concat (map (lift_column l (snd (metas ! i))) (columns_of (traces ! i))),
     sv_width = cm_width (traces ! i), sv_height = cm_height (traces ! i), sv_stride = 2 ^ (l - snd (metas ! i))\<rparr>"
proof -
  obtain w lh where m: "metas ! i = (w, lh)" by fastforce
  have i: "i < length metas" using assms(1,2) by (auto simp: wf_traces_def dest: list_all2_lengthD)
  have t: "wf_col_matrix (traces ! i)" "cm_width (traces ! i) = w" "cm_height (traces ! i) = 2 ^ lh"
    using assms(1,2) m by (auto simp: wf_traces_def dest!: list_all2_nthD)
  have w: "0 < w" using t(1,2) by (simp add: wf_col_matrix_def)
  define cs where "cs = all_columns metas"
  define off where "off = total_len l (columns_from 0 (take i metas))"
  have split: "cs = columns_from 0 (take i metas) @ mat_columns (i, w, lh) @ columns_from (Suc i) (drop (Suc i) metas)"
    using columns_split [OF i m, of 0] by (simp add: all_columns_from cs_def)
  have ok: "cols_ok traces (columns_from 0 (take i metas))"
    using cols_ok_metas [OF assms(1)] by (auto simp: split cols_ok_def simp flip: cs_def)
  have bound: "max l lh < 64"
  proof -
    have "(i, 0, lh) \<in> set (all_columns metas)" using w by (auto simp: split mat_columns_def simp flip: cs_def)
    with columns_bounded have "max l lh \<le> ls" using assms(1) unfolding wf_traces_def by blast
    with assms(1) show ?thesis by (simp add: wf_traces_def wf_metas_def)
  qed
  define block where "block = concat (map (lift_column l lh) (columns_of (traces ! i)))"
  define stride where "stride = (2::nat) ^ (l - lh)"
  have h: "lifted_len l lh = 2 ^ lh * stride" by (simp add: lifted_len_def stride_def max_def flip: power_add)
  have "\<forall>x \<in> set (map (lift_column l lh) (columns_of (traces ! i))). length x = lifted_len l lh"
    using length_column [OF t(1)] t(2,3) by (auto simp: in_set_conv_nth length_lift_column)
  from length_concat_blocks [OF this] have len: "length block = lifted_len l lh * w"
    using t(2) by (simp add: block_def)
  have vals: "cm_values M = lifted l traces (columns_from 0 (take i metas)) @ block @
      (lifted l traces (columns_from (Suc i) (drop (Suc i) metas)) @ rest)"
    by (simp add: assms(6) split block_def lifted_mat_columns [OF t(1,2)] flip: cs_def)
  have off_len: "length (lifted l traces (columns_from 0 (take i metas))) = off"
    by (simp add: off_def length_lifted [OF ok])
  have sl: "slice (cm_values M) off (off + lifted_len l lh * w) = (Ok block :: ('f list, 'e) res)"
    by (simp add: slice_def vals off_len len)
  obtain w' where w': "w = Suc w'" using w by (cases w) auto
  have filt: "filter (\<lambda>(m, _, _). m = i) (sorted_cols L) = place_all l H off (mat_columns (i, w, lh))"
    by (simp add: assms(4) filter_place_all [OF i m] off_def)
  have hd: "index (place_all l H off (mat_columns (i, w, lh))) 0 = (Ok (i, 0, slice_at H off lh) :: (_, 'e) res)"
    by (simp add: w' mat_columns_def upt_conv_Cons del: upt_Suc)
  have view: "strided_new block w stride = (Ok \<lparr>sv_values = block, sv_width = w, sv_height = 2 ^ lh, sv_stride = stride\<rparr> :: (_, 'e) res)"
  proof -
    have "length block = 2 ^ lh * (w * stride)" using len h by simp
    then have "length block mod (w * stride) = 0" "length block div (w * stride) = 2 ^ lh"
      using w by (simp_all add: stride_def)
    with w show ?thesis by (simp add: strided_new_def stride_def)
  qed
  have st: "slice_stride (slice_at H off lh) l = (Ok stride :: (nat, 'e) res)"
  proof -
    have "l - lh < 64" using bound by linarith
    then show ?thesis by (simp add: slice_stride_def slice_at_def stride_def)
  qed
  have ln: "slice_len (slice_at H off lh) l = (Ok (lifted_len l lh) :: (nat, 'e) res)"
    using slice_len_of_Ok [OF bound] by (simp add: slice_len_def slice_at_def)
  have start: "col_maj_idx (slice_row_idx (slice_at H off lh)) (slice_col_idx (slice_at H off lh)) H = off"
    by (simp add: col_maj_idx_def slice_at_def)
  have wlen: "length (mat_columns (i, w, lh)) = w" by (simp add: mat_columns_def)
  show ?thesis
    unfolding mat_view_def filt Let_def hd rbind.simps prod.case assms(5) ln st assms(7) start length_place_all wlen sl view
    by (simp add: m t(2,3) block_def stride_def)
qed

section \<open>Properties\<close>

definition metas_of :: "'f col_matrix list \<Rightarrow> (nat \<times> nat) list" where
  "metas_of traces = map (\<lambda>t. (cm_width t, log2_floor (cm_height t))) traces"

text \<open>C8. The layout of a stacked matrix: for matrices in descending height that fit, the greedy loop neither
  fails nor panics. It lists the columns of all matrices in order, each column of a matrix is found
  by \<open>get\<close>, every slice lies inside one column of the stacked matrix, slices of different columns
  do not overlap, and the stacked matrix is no wider than the total length requires.\<close>
theorem layout_sound:
  assumes "wf_metas l ls metas"
  shows "\<exists>L. stacked_layout_new l ls metas = Ok L \<and>
     map (\<lambda>(m, j, s). (m, j, slice_log_height s)) (sorted_cols L) = all_columns metas \<and>
     (\<forall>m j. m < length metas \<and> j < fst (metas ! m) \<longrightarrow> (\<exists>s. layout_get L m j = (Ok (Some s) :: (_, unit) res) \<and>
        slice_log_height s = snd (metas ! m))) \<and>
     (\<forall>(m, j, s) \<in> set (sorted_cols L). slice_row_idx s + lifted_len l (slice_log_height s) \<le> layout_height L \<and>
        slice_col_idx s < layout_width L) \<and>
     sorted_wrt (\<lambda>(_, _, s) (_, _, s'). slice_col_idx s * layout_height L + slice_row_idx s + lifted_len l (slice_log_height s)
        \<le> slice_col_idx s' * layout_height L + slice_row_idx s') (sorted_cols L) \<and>
     layout_height L = 2 ^ ls \<and>
     layout_width L = div_ceil (sum_list (map (\<lambda>(w, lh). w * lifted_len l lh) metas)) (layout_height L)"
proof -
  let ?H = "(2::nat) ^ ls" and ?cs = "all_columns metas"
  let ?cols = "place_all l ?H 0 ?cs"
  define L where "L = \<lparr>layout_l_skip = l, layout_height = ?H, layout_width = div_ceil (total_len l ?cs) ?H,
     sorted_cols = ?cols, mat_starts = starts_from 0 metas\<rparr>"
  have new: "stacked_layout_new l ls metas = Ok L" using layout_new_closed [OF assms] by (simp add: L_def)
  have get: "\<exists>s. layout_get L m j = (Ok (Some s) :: (_, unit) res) \<and> slice_log_height s = snd (metas ! m)"
    if "m < length metas" "j < fst (metas ! m)" for m j
    using column_at [OF that(1) _ that(2), of "snd (metas ! m)" l ?H] that(1)
    by (simp add: layout_get_def L_def slice_at_def)
  have range: "\<forall>(m, j, s) \<in> set ?cols. slice_row_idx s + lifted_len l (slice_log_height s) \<le> ?H \<and>
      slice_col_idx s < div_ceil (total_len l ?cs) ?H"
    by (auto simp: in_set_conv_nth dest!: place_all_in_range [OF assms])
  have disj: "sorted_wrt (\<lambda>(_, _, s) (_, _, s'). slice_col_idx s * ?H + slice_row_idx s + lifted_len l (slice_log_height s)
      \<le> slice_col_idx s' * ?H + slice_row_idx s') ?cols"
    by (auto simp: sorted_wrt_iff_nth_less split: prod.splits intro: place_all_disjoint)
  have "total_len l (columns_from n metas) = sum_list (map (\<lambda>(w, lh). w * lifted_len l lh) metas)" for n
    by (induction metas arbitrary: n) (auto simp: total_len_mat_columns)
  then have tot: "total_len l ?cs = sum_list (map (\<lambda>(w, lh). w * lifted_len l lh) metas)"
    by (simp add: all_columns_from)
  show ?thesis
    by (rule exI [of _ L]) (use new get range disj tot in \<open>simp add: L_def place_all_map\<close>)
qed

theorem layout_sound_witness:
  "\<exists>L. stacked_layout_new 2 3 [(2, 3), (1, 1)] = Ok L \<and> layout_width L = 3"
proof -
  have "wf_metas 2 3 [(2, 3), (1, 1)]" by (simp add: wf_metas_def)
  from layout_sound [OF this] show ?thesis by (auto simp: lifted_len_def div_ceil_def)
qed

text \<open>A layout is determined by its columns: \<open>from_raw_parts\<close> applied to the columns of a layout that
  \<open>new\<close> built, for matrices that are not empty, rebuilds that layout.\<close>
theorem raw_parts_rebuild:
  assumes "wf_metas l ls metas" and "\<forall>(w, lh) \<in> set metas. w \<noteq> 0" and "stacked_layout_new l ls metas = Ok L"
  shows "stacked_layout_from_raw_parts l ls (sorted_cols L) = Ok L"
  using assms by (rule from_raw_parts_closed)

theorem raw_parts_rebuild_witness:
  "\<exists>L. stacked_layout_new 2 3 [(2, 3), (1, 1)] = Ok L \<and> stacked_layout_from_raw_parts 2 3 (sorted_cols L) = Ok L"
proof -
  have wf: "wf_metas 2 3 [(2, 3), (1, 1)]" by (simp add: wf_metas_def)
  then obtain L where "stacked_layout_new 2 3 [(2, 3), (1, 1)] = Ok L" using layout_new_closed by blast
  with raw_parts_rebuild [OF wf _ this] show ?thesis by simp
qed

text \<open>Traces sorted by height meet the preconditions of the layout.\<close>

lemma wf_traces_of_sorted:
  fixes traces :: "'f::zero col_matrix list"
  assumes "\<forall>t \<in> set traces. wf_col_matrix t" and "sorted_wrt (\<lambda>a b. cm_height b \<le> cm_height a) traces"
    and "\<forall>t \<in> set traces. cm_height t \<le> 2 ^ (l + n_stack)" and "l + n_stack < 63"
  shows "wf_traces l (l + n_stack) traces (metas_of traces)"
proof -
  let ?ms = "metas_of traces"
  have pow: "cm_height t = 2 ^ log2_floor (cm_height t)" if "t \<in> set traces" for t
    using assms(1) that by (auto simp: wf_col_matrix_def is_pow2_iff)
  have mono: "sorted_wrt (\<lambda>a b. snd b \<le> snd a) ?ms"
  proof -
    have "sorted_wrt (\<lambda>a b. log2_floor (cm_height b) \<le> log2_floor (cm_height a)) traces"
      using assms(2) by (rule sorted_wrt_mono_rel [rotated]) (metis pow power_increasing_iff one_less_numeral_iff semiring_norm(76))
    then show ?thesis by (simp add: metas_of_def sorted_wrt_map)
  qed
  have le: "log2_floor (cm_height t) \<le> l + n_stack" if "t \<in> set traces" for t
    using assms(3) that pow [OF that] by (metis power_increasing_iff one_less_numeral_iff semiring_norm(76))
  show ?thesis
    using assms(1,4) mono le pow by (auto simp: wf_traces_def wf_metas_def metas_of_def list_all2_conv_all_nth)
qed

lemma total_len_positive:
  fixes traces :: "'f::zero col_matrix list"
  assumes "\<forall>t \<in> set traces. wf_col_matrix t" and "traces \<noteq> []"
  shows "0 < total_len l (all_columns (metas_of traces))"
proof -
  let ?ms = "metas_of traces"
  have i: "0 < length ?ms" using assms(2) by (simp add: metas_of_def)
  have "0 < fst (?ms ! 0)" using assms by (simp add: metas_of_def wf_col_matrix_def)
  from column_at [OF i _ this, of "snd (?ms ! 0)" l 1] have "all_columns ?ms \<noteq> []" by auto
  then show ?thesis by (cases "all_columns ?ms") (auto simp: total_len_def split: prod.splits)
qed

lemma stacked_matrix_Ok:
  fixes traces :: "'f::zero col_matrix list"
  assumes "\<forall>t \<in> set traces. wf_col_matrix t" and "sorted_wrt (\<lambda>a b. cm_height b \<le> cm_height a) traces"
    and "\<forall>t \<in> set traces. cm_height t \<le> 2 ^ (l + n_stack)" and "l + n_stack < 63" and "traces \<noteq> []"
    and "div_ceil (total_len l (all_columns (metas_of traces))) (2 ^ (l + n_stack)) * 2 ^ (l + n_stack) < 2 ^ 64"
  shows "\<exists>M L. stacked_matrix l n_stack traces = Ok (M, L) \<and> wf_col_matrix M \<and> cm_height M = 2 ^ (l + n_stack)"
proof -
  let ?H = "(2::nat) ^ (l + n_stack)" and ?ms = "metas_of traces"
  let ?tot = "total_len l (all_columns ?ms)"
  let ?w = "div_ceil ?tot ?H"
  note wf = wf_traces_of_sorted [OF assms(1-4)]
  note tot = total_len_positive [OF assms(1,5), of l]
  from stacked_matrix_closed [OF wf assms(5) refl refl refl assms(6) tot] obtain L where
    L: "stacked_matrix l n_stack traces = Ok (\<lparr>cm_values = lifted l traces (all_columns ?ms) @
        replicate (?w * ?H - ?tot) 0, cm_width = ?w, cm_height = ?H\<rparr>, L)" by blast
  have le: "?tot \<le> ?w * ?H" by (rule div_ceil_mult) simp
  with tot have "0 < ?w" by (cases ?w) auto
  with le length_lifted [OF cols_ok_metas [OF wf], of l]
  have "wf_col_matrix \<lparr>cm_values = lifted l traces (all_columns ?ms) @ replicate (?w * ?H - ?tot) 0, cm_width = ?w, cm_height = ?H\<rparr>"
    by (simp add: wf_col_matrix_def)
  with L show ?thesis by force
qed

text \<open>C29. Stacking loses nothing: the matrix that \<open>stacked_matrix\<close> builds from height-sorted traces holds each
  of them, and \<open>mat_view\<close> at the layout it returns, copied out by \<open>to_matrix\<close>, is the trace.\<close>
theorem stack_round_trip:
  fixes traces :: "'f::zero col_matrix list"
  assumes "\<forall>t \<in> set traces. wf_col_matrix t" and "sorted_wrt (\<lambda>a b. cm_height b \<le> cm_height a) traces"
    and "\<forall>t \<in> set traces. cm_height t \<le> 2 ^ (l + n_stack)" and "l + n_stack < 63" and "i < length traces"
    and "div_ceil (total_len l (all_columns (metas_of traces))) (2 ^ (l + n_stack)) * 2 ^ (l + n_stack) < 2 ^ 64"
  shows "\<exists>M L V. stacked_matrix l n_stack traces = Ok (M, L) \<and> mat_view L i M = Ok V \<and>
     to_matrix V = (Ok (traces ! i) :: (_, stacked_pcs_error) res)"
proof -
  let ?H = "(2::nat) ^ (l + n_stack)" and ?ms = "metas_of traces"
  let ?tot = "total_len l (all_columns ?ms)"
  have pow: "cm_height t = 2 ^ log2_floor (cm_height t)" if "t \<in> set traces" for t
    using assms(1) that by (auto simp: wf_col_matrix_def is_pow2_iff)
  note wf = wf_traces_of_sorted [OF assms(1-4)]
  have "traces \<noteq> []" using assms(5) by auto
  note tot = total_len_positive [OF assms(1) this, of l]
  from stacked_matrix_closed [OF wf _ refl refl refl assms(6) tot] assms(5) obtain L where L:
    "stacked_layout_new l (l + n_stack) ?ms = Ok L"
    "stacked_matrix l n_stack traces = Ok (\<lparr>cm_values = lifted l traces (all_columns ?ms) @
        replicate (div_ceil ?tot ?H * ?H - ?tot) 0, cm_width = div_ceil ?tot ?H, cm_height = ?H\<rparr>, L)" by fastforce
  have eqs: "sorted_cols L = place_all l ?H 0 (all_columns ?ms)" "layout_l_skip L = l"
    using L(1) layout_new_closed wf by (auto simp: wf_traces_def)
  have lh: "snd (?ms ! i) = log2_floor (cm_height (traces ! i))" using assms(5) by (simp add: metas_of_def)
  from mat_view_closed [OF wf assms(5) refl eqs, of "\<lparr>cm_values = _, cm_width = _, cm_height = _\<rparr>"] L(2)
    to_matrix_lifted [of "traces ! i" "snd (?ms ! i)" _ l] assms(1,5) pow [of "traces ! i"] lh
  show ?thesis by fastforce
qed

theorem stack_round_trip_witness:
  "\<exists>M L V. stacked_matrix 2 0 [\<lparr>cm_values = [1, 2, 3, 4 :: int], cm_width = 1, cm_height = 4\<rparr>,
       \<lparr>cm_values = [5, 6], cm_width = 1, cm_height = 2\<rparr>] = Ok (M, L) \<and> mat_view L 1 M = Ok V \<and>
     to_matrix V = (Ok \<lparr>cm_values = [5, 6], cm_width = 1, cm_height = 2\<rparr> :: (_, stacked_pcs_error) res)"
proof -
  let ?t = "[\<lparr>cm_values = [1, 2, 3, 4 :: int], cm_width = 1, cm_height = 4\<rparr>, \<lparr>cm_values = [5, 6], cm_width = 1, cm_height = 2\<rparr>]"
  have p: "is_pow2 4" "is_pow2 2" using is_pow2_power [of 2] is_pow2_power [of 1] by simp_all
  have l: "log2_floor 4 = 2" "log2_floor 2 = 1" using log2_floor_power [of 2] log2_floor_power [of 1] by simp_all
  have "total_len 2 (all_columns (metas_of ?t)) = 8"
    by (simp add: metas_of_def l all_columns_from total_len_mat_columns lifted_len_def)
  then show ?thesis
    using stack_round_trip [of ?t 2 0 1] p by (auto simp: wf_col_matrix_def div_ceil_def)
qed

end
