(* ===== verification/ProofShape.thy ===== *)
theory ProofShape
  imports Keygen StackedLayout ProofTypes
begin

text \<open>
  The shape check of a proof (\<open>verifier/proof_shape.rs\<close>): every length in the proof is
  compared with what the verifying key and the heights of the present traces prescribe, and
  the stacked layouts of the commitments are computed. The verifier proper indexes into the
  proof without further checks and relies on this one.
\<close>

section \<open>Errors\<close>

datatype vdata_shape_error =
    InvalidVDataLength nat nat
  | InvalidPublicValuesLength nat nat
  | RequiredAirNoVData nat
  | PublicValuesNoVData nat
  | InvalidCachedCommitments nat nat nat
  | LogHeightOutOfBounds nat nat nat nat
  | InvalidPublicValues nat nat nat

datatype gkr_shape_error =
    InvalidClaimsPerLayer nat nat
  | InvalidGkrSumcheckPolys nat nat
  | InvalidSumcheckPolyEvals nat nat nat

datatype batch_shape_error =
    InvalidNumeratorTerms nat nat
  | InvalidDenominatorTerms nat nat
  | InvalidBatchUnivariateRoundCoeffs nat nat
  | InvalidBatchSumcheckRoundPolys nat nat
  | InvalidColumnOpeningsAirs nat nat
  | InvalidSumcheckRoundPolyEvals nat nat nat
  | InvalidColumnOpeningsPerAir nat nat nat
  | InvalidColumnOpeningsPerAirMain nat nat nat
  | InvalidColumnOpeningsPerAirPreprocessed nat nat nat
  | InvalidColumnOpeningsPerAirCached nat nat nat nat

datatype stacking_shape_error =
    InvalidStackingUnivariateRoundCoeffs nat nat
  | InvalidStackingSumcheckRoundPolys nat nat
  | InvalidStackOpenings nat nat
  | InvalidStackOpeningsPerMatrix nat nat nat
  | TotalStackedWidthOutOfBounds nat nat

datatype whir_shape_error =
    InvalidWhirSumcheckPolys nat nat
  | InvalidFinalPolyLen nat nat
  | InvalidCodewordCommits nat nat
  | InvalidOodValues nat nat
  | InvalidFoldingPowWitnesses nat nat
  | InvalidQueryPhasePowWitnesses nat nat
  | InvalidInitialRoundOpenedRows nat nat
  | InvalidInitialRoundMerkleProofs nat nat
  | InvalidCodewordOpenedRows nat nat
  | InvalidCodewordMerkleProofs nat nat
  | InvalidInitialRoundOpenedRowsQueries nat nat nat
  | InvalidInitialRoundMerkleProofsQueries nat nat nat
  | InvalidInitialRoundOpenedRowK nat nat nat nat
  | InvalidInitialRoundOpenedRowWidth nat nat nat nat
  | InvalidInitialRoundMerkleProofDepth nat nat nat nat
  | InvalidCodewordOpenedRowsQueries nat nat nat
  | InvalidCodewordMerkleProofsQueries nat nat nat
  | InvalidCodewordOpenedValues nat nat nat nat
  | InvalidCodewordMerkleProofDepth nat nat nat nat

datatype proof_shape_error =
    InvalidVData vdata_shape_error
  | InvalidGkrProofShape gkr_shape_error
  | InvalidBatchConstraintProofShape batch_shape_error
  | InvalidStackingProofShape stacking_shape_error
  | InvalidWhirProofShape whir_shape_error

definition unwrap_res :: "('a, 'e) res \<Rightarrow> ('a, 'g) res" where
  "unwrap_res r = (case r of Ok x \<Rightarrow> Ok x | _ \<Rightarrow> Panic)"

section \<open>Trace heights and public values\<close>

definition check_air_vdata ::
  "system_params \<Rightarrow> nat \<times> ('f, 'd) stark_verifying_key \<times> 'd trace_vdata option \<times> 'f list \<Rightarrow> (unit, vdata_shape_error) res" where
  "check_air_vdata p = (\<lambda>(air_idx, vk, vdata, pvs). case vdata of
       None \<Rightarrow>
         rbind (ensure_that (\<not> is_required vk) (RequiredAirNoVData air_idx)) (\<lambda>_.
         ensure_that (pvs = []) (PublicValuesNoVData air_idx))
     | Some vdata \<Rightarrow>
         rbind (ensure_that (length (cached_commitments vdata) = num_cached_mains vk)
           (InvalidCachedCommitments air_idx (num_cached_mains vk) (length (cached_commitments vdata)))) (\<lambda>_.
         rbind (ensure_that (log_height vdata \<le> l_skip p + n_stack p)
           (LogHeightOutOfBounds air_idx (l_skip p) (n_stack p) (log_height vdata))) (\<lambda>_.
         ensure_that (num_public_values (vk_params vk) = length pvs)
           (InvalidPublicValues air_idx (num_public_values (vk_params vk)) (length pvs)))))"

definition check_vdata :: "('f, 'd) multi_stark_vk0 \<Rightarrow> ('f, 'ef, 'd) stark_proof \<Rightarrow> (unit, vdata_shape_error) res" where
  "check_vdata mvk pr =
     (let num_airs = length (per_air mvk) in
      rbind (ensure_that (length (proof_trace_vdata pr) = num_airs)
        (InvalidVDataLength (length (proof_trace_vdata pr)) num_airs)) (\<lambda>_.
      rbind (ensure_that (length (proof_public_values pr) = num_airs)
        (InvalidPublicValuesLength (length (proof_public_values pr)) num_airs)) (\<lambda>_.
      rall (check_air_vdata (mvk_params mvk))
        (enumerated (zip (per_air mvk) (zip (proof_trace_vdata pr) (proof_public_values pr)))))))"

text \<open>The present traces with their AIR index and key, by descending height; the sort is stable.\<close>

definition per_trace :: "('f, 'd) multi_stark_vk0 \<Rightarrow> ('f, 'ef, 'd) stark_proof
    \<Rightarrow> (nat \<times> ('f, 'd) stark_verifying_key \<times> 'd trace_vdata) list" where
  "per_trace mvk pr = sort_key (\<lambda>(_, _, vdata). - int (log_height vdata))
     (List.map_filter (\<lambda>(air_idx, vk, vdata). map_option (\<lambda>vdata. (air_idx, vk, vdata)) vdata)
       (enumerated (zip (per_air mvk) (proof_trace_vdata pr))))"

section \<open>The GKR proof\<close>

definition count_interactions ::
  "nat \<Rightarrow> (nat \<times> ('f, 'd) stark_verifying_key \<times> 'd trace_vdata) list \<Rightarrow> (nat, 'e) res" where
  "count_interactions skip traces = rfold (\<lambda>(_, vk, vdata) acc.
     rbind (shl64 (num_interactions vk) (max (log_height vdata) skip)) (add64 acc)) traces 0"

definition check_gkr_shape :: "nat \<Rightarrow> ('f, 'ef) gkr_proof \<Rightarrow> (unit, gkr_shape_error) res" where
  "check_gkr_shape num_gkr_rounds gkr =
     rbind (ensure_that (length (claims_per_layer gkr) = num_gkr_rounds)
       (InvalidClaimsPerLayer num_gkr_rounds (length (claims_per_layer gkr)))) (\<lambda>_.
     rbind (ensure_that (length (sumcheck_polys gkr) = num_gkr_rounds - 1)
       (InvalidGkrSumcheckPolys (num_gkr_rounds - 1) (length (sumcheck_polys gkr)))) (\<lambda>_.
     rall (\<lambda>(i, poly). ensure_that (length poly = i + 1) (InvalidSumcheckPolyEvals (i + 1) (i + 1) (length poly)))
       (enumerated (sumcheck_polys gkr))))"

section \<open>The batch constraint proof\<close>

text \<open>\<open>k * (2 ^ l_skip - 1)\<close>, the degree of a univariate round polynomial.\<close>

definition univariate_degree :: "nat \<Rightarrow> nat \<Rightarrow> (nat, 'e) res" where
  "univariate_degree k skip = rbind (shl64 1 skip) (\<lambda>s. rbind (sub64 s 1) (mul64 k))"

definition check_cached_openings ::
  "nat \<Rightarrow> nat \<Rightarrow> nat \<times> 'ef list \<times> nat \<Rightarrow> (unit, batch_shape_error) res" where
  "check_cached_openings air_idx openings_per_col = (\<lambda>(cached_idx, col_opening, width).
     ensure_that (length col_opening = width * openings_per_col)
       (InvalidColumnOpeningsPerAirCached air_idx cached_idx width (length col_opening)))"

definition check_column_openings ::
  "('f, 'd) multi_stark_vk0 \<Rightarrow> 'ef list list \<times> nat \<times> ('f, 'd) stark_verifying_key \<times> 'd trace_vdata \<Rightarrow> (unit, batch_shape_error) res" where
  "check_column_openings mvk = (\<lambda>(part_openings, air_idx, vk, _).
     rbind (index (per_air mvk) air_idx) (\<lambda>air_vk.
     let openings_per_col = (if need_rot (vk_params air_vk) then 2 else 1);
         width = vp_width (vk_params vk) in
     rbind (ensure_that (length part_openings = num_parts vk)
       (InvalidColumnOpeningsPerAir air_idx (num_parts vk) (length part_openings))) (\<lambda>_.
     rbind (index part_openings 0) (\<lambda>main.
     rbind (ensure_that (length main = tw_common_main width * openings_per_col)
       (InvalidColumnOpeningsPerAirMain air_idx (tw_common_main width) (length main))) (\<lambda>_.
     rbind (case tw_preprocessed width of None \<Rightarrow> Ok () | Some preprocessed_width \<Rightarrow>
         rbind (index part_openings 1) (\<lambda>prep.
         ensure_that (length prep = preprocessed_width * openings_per_col)
           (InvalidColumnOpeningsPerAirPreprocessed air_idx preprocessed_width (length prep)))) (\<lambda>_.
     let first_cached = 1 + of_bool (preprocessed_data vk \<noteq> None) in
     rbind (assert_that (first_cached \<le> length part_openings)) (\<lambda>_.
     rall (check_cached_openings air_idx openings_per_col)
       (enumerated (zip (drop first_cached part_openings) (tw_cached_mains width))))))))))"

definition check_batch_shape ::
  "('f, 'd) multi_stark_vk0 \<Rightarrow> (nat \<times> ('f, 'd) stark_verifying_key \<times> 'd trace_vdata) list
     \<Rightarrow> 'ef batch_constraint_proof \<Rightarrow> (unit, batch_shape_error) res" where
  "check_batch_shape mvk traces bp =
     (let num_airs_present = length traces; skip = l_skip (mvk_params mvk);
          degree = max_constraint_degree (mvk_params mvk) in
      rbind (index traces 0) (\<lambda>(_, _, vdata0).
      let n_max = log_height vdata0 - skip in
      rbind (univariate_degree (degree + 1) skip) (\<lambda>s_0_deg.
      rbind (ensure_that (length (numerator_term_per_air bp) = num_airs_present)
        (InvalidNumeratorTerms num_airs_present (length (numerator_term_per_air bp)))) (\<lambda>_.
      rbind (ensure_that (length (denominator_term_per_air bp) = num_airs_present)
        (InvalidDenominatorTerms num_airs_present (length (denominator_term_per_air bp)))) (\<lambda>_.
      rbind (ensure_that (length (batch_univariate_round_coeffs bp) = s_0_deg + 1)
        (InvalidBatchUnivariateRoundCoeffs (s_0_deg + 1) (length (batch_univariate_round_coeffs bp)))) (\<lambda>_.
      rbind (ensure_that (length (batch_sumcheck_round_polys bp) = n_max)
        (InvalidBatchSumcheckRoundPolys n_max (length (batch_sumcheck_round_polys bp)))) (\<lambda>_.
      rbind (ensure_that (length (column_openings bp) = num_airs_present)
        (InvalidColumnOpeningsAirs num_airs_present (length (column_openings bp)))) (\<lambda>_.
      rbind (rall (\<lambda>(i, evals). ensure_that (length evals = degree + 1)
          (InvalidSumcheckRoundPolyEvals i (degree + 1) (length evals))) (enumerated (batch_sumcheck_round_polys bp))) (\<lambda>_.
      rall (check_column_openings mvk) (zip (column_openings bp) traces))))))))))"

section \<open>The stacking proof and the layouts\<close>

definition stacked_new_unwrap :: "system_params \<Rightarrow> (nat \<times> nat) list \<Rightarrow> (stacked_layout, 'e) res" where
  "stacked_new_unwrap p metas = unwrap_res (stacked_layout_new (l_skip p) (n_stack p + l_skip p) metas)"

definition common_main_metas :: "(nat \<times> ('f, 'd) stark_verifying_key \<times> 'd trace_vdata) list \<Rightarrow> (nat \<times> nat) list" where
  "common_main_metas = map (\<lambda>(_, vk, vdata). (tw_common_main (vp_width (vk_params vk)), log_height vdata))"

definition other_metas :: "(nat \<times> ('f, 'd) stark_verifying_key \<times> 'd trace_vdata) list \<Rightarrow> (nat \<times> nat) list" where
  "other_metas traces = concat (map (\<lambda>(_, vk, vdata). let width = vp_width (vk_params vk) in
     map (\<lambda>w. (w, log_height vdata))
       ((case tw_preprocessed width of None \<Rightarrow> [] | Some w \<Rightarrow> [w]) @ tw_cached_mains width)) traces)"

definition proof_layouts ::
  "system_params \<Rightarrow> (nat \<times> ('f, 'd) stark_verifying_key \<times> 'd trace_vdata) list \<Rightarrow> (stacked_layout list, 'e) res" where
  "proof_layouts p traces =
     rbind (stacked_new_unwrap p (common_main_metas traces)) (\<lambda>common_main_layout.
     rbind (rmap (\<lambda>m. stacked_new_unwrap p [m]) (other_metas traces)) (\<lambda>other_layouts.
     Ok (common_main_layout # other_layouts)))"

definition check_stacking_rounds :: "system_params \<Rightarrow> 'ef stacking_proof \<Rightarrow> (unit, stacking_shape_error) res" where
  "check_stacking_rounds p sp =
     rbind (univariate_degree 2 (l_skip p)) (\<lambda>s_0_deg.
     rbind (ensure_that (length (stacking_univariate_round_coeffs sp) = s_0_deg + 1)
       (InvalidStackingUnivariateRoundCoeffs (s_0_deg + 1) (length (stacking_univariate_round_coeffs sp)))) (\<lambda>_.
     ensure_that (length (stacking_sumcheck_round_polys sp) = n_stack p)
       (InvalidStackingSumcheckRoundPolys (n_stack p) (length (stacking_sumcheck_round_polys sp)))))"

definition check_stack_openings ::
  "system_params \<Rightarrow> stacked_layout list \<Rightarrow> 'ef stacking_proof \<Rightarrow> (unit, stacking_shape_error) res" where
  "check_stack_openings p layouts sp =
     (let total_stacked_width = sum_list (map layout_width layouts) in
      rbind (ensure_that (total_stacked_width \<le> w_stack p)
        (TotalStackedWidthOutOfBounds (w_stack p) total_stacked_width)) (\<lambda>_.
      rbind (ensure_that (length (stacking_openings sp) = length layouts)
        (InvalidStackOpenings (length layouts) (length (stacking_openings sp)))) (\<lambda>_.
      rall (\<lambda>(commit_idx, openings, layout). ensure_that (length openings = layout_width layout)
          (InvalidStackOpeningsPerMatrix commit_idx (layout_width layout) (length openings)))
        (enumerated (zip (stacking_openings sp) layouts)))))"

section \<open>The WHIR proof\<close>

definition check_whir_lengths ::
  "system_params \<Rightarrow> nat \<Rightarrow> ('f, 'ef, 'd) whir_proof \<Rightarrow> (unit, whir_shape_error) res" where
  "check_whir_lengths p num_layouts w =
     (let num_rounds = num_whir_rounds p; num_sumcheck_rounds = num_whir_sumcheck_rounds p in
      rbind (ensure_that (length (whir_sumcheck_polys w) = num_sumcheck_rounds)
        (InvalidWhirSumcheckPolys num_sumcheck_rounds (length (whir_sumcheck_polys w)))) (\<lambda>_.
      rbind (sub64 num_rounds 1) (\<lambda>later_rounds.
      rbind (ensure_that (length (codeword_commits w) = later_rounds)
        (InvalidCodewordCommits later_rounds (length (codeword_commits w)))) (\<lambda>_.
      rbind (ensure_that (length (ood_values w) = later_rounds)
        (InvalidOodValues later_rounds (length (ood_values w)))) (\<lambda>_.
      rbind (ensure_that (length (folding_pow_witnesses w) = num_sumcheck_rounds)
        (InvalidFoldingPowWitnesses num_sumcheck_rounds (length (folding_pow_witnesses w)))) (\<lambda>_.
      rbind (ensure_that (length (query_phase_pow_witnesses w) = num_rounds)
        (InvalidQueryPhasePowWitnesses num_rounds (length (query_phase_pow_witnesses w)))) (\<lambda>_.
      rbind (ensure_that (length (initial_round_opened_rows w) = num_layouts)
        (InvalidInitialRoundOpenedRows num_layouts (length (initial_round_opened_rows w)))) (\<lambda>_.
      rbind (ensure_that (length (initial_round_merkle_proofs w) = num_layouts)
        (InvalidInitialRoundMerkleProofs num_layouts (length (initial_round_merkle_proofs w)))) (\<lambda>_.
      rbind (ensure_that (length (codeword_opened_values w) = later_rounds)
        (InvalidCodewordOpenedRows later_rounds (length (codeword_opened_values w)))) (\<lambda>_.
      rbind (ensure_that (length (codeword_merkle_proofs w) = later_rounds)
        (InvalidCodewordMerkleProofs later_rounds (length (codeword_merkle_proofs w)))) (\<lambda>_.
      rbind (log_final_poly_len p) (\<lambda>final_len.
      rbind (shl64 1 final_len) (\<lambda>final_size.
      ensure_that (length (final_poly w) = final_size)
        (InvalidFinalPolyLen final_size (length (final_poly w))))))))))))))))"

definition check_opened_rows ::
  "system_params \<Rightarrow> nat \<Rightarrow> nat \<Rightarrow> nat \<times> 'f list list \<Rightarrow> (unit, whir_shape_error) res" where
  "check_opened_rows p commit_idx width = (\<lambda>(opened_idx, rows).
     rbind (shl64 1 (k_whir p)) (\<lambda>k_size.
     rbind (ensure_that (length rows = k_size) (InvalidInitialRoundOpenedRowK opened_idx commit_idx k_size (length rows))) (\<lambda>_.
     rall (\<lambda>(row_idx, row). ensure_that (length row = width)
         (InvalidInitialRoundOpenedRowWidth row_idx commit_idx width (length row))) (enumerated rows))))"

definition check_initial_round ::
  "system_params \<Rightarrow> 'ef list list \<Rightarrow> nat \<times> 'f list list list \<times> 'd list list \<Rightarrow> (unit, whir_shape_error) res" where
  "check_initial_round p openings = (\<lambda>(commit_idx, opened_rows, merkle_proofs).
     rbind (index (whir_rounds (whir p)) 0) (\<lambda>rnd0.
     rbind (ensure_that (length opened_rows = num_queries rnd0)
       (InvalidInitialRoundOpenedRowsQueries commit_idx (num_queries rnd0) (length opened_rows))) (\<lambda>_.
     rbind (ensure_that (length merkle_proofs = num_queries rnd0)
       (InvalidInitialRoundMerkleProofsQueries commit_idx (num_queries rnd0) (length merkle_proofs))) (\<lambda>_.
     rbind (index openings commit_idx) (\<lambda>opening.
     rbind (rall (check_opened_rows p commit_idx (length opening)) (enumerated opened_rows)) (\<lambda>_.
     let depth = log_stacked_height p + log_blowup p - k_whir p in
     rall (\<lambda>(opened_idx, path). ensure_that (length path = depth)
         (InvalidInitialRoundMerkleProofDepth opened_idx commit_idx depth (length path))) (enumerated merkle_proofs)))))))"

definition check_codeword_round ::
  "system_params \<Rightarrow> nat \<times> 'ef list list \<times> 'd list list \<Rightarrow> (unit, whir_shape_error) res" where
  "check_codeword_round p = (\<lambda>(round_minus_one, opened_values_per_query, merkle_proofs).
     let rnd = round_minus_one + 1 in
     rbind (index (whir_rounds (whir p)) rnd) (\<lambda>cfg.
     rbind (ensure_that (length opened_values_per_query = num_queries cfg)
       (InvalidCodewordOpenedRowsQueries rnd (num_queries cfg) (length opened_values_per_query))) (\<lambda>_.
     rbind (ensure_that (length merkle_proofs = num_queries cfg)
       (InvalidCodewordMerkleProofsQueries rnd (num_queries cfg) (length merkle_proofs))) (\<lambda>_.
     rbind (rall (\<lambda>(opened_idx, opened_values). rbind (shl64 1 (k_whir p)) (\<lambda>k_size.
         ensure_that (length opened_values = k_size)
           (InvalidCodewordOpenedValues rnd opened_idx k_size (length opened_values)))) (enumerated opened_values_per_query)) (\<lambda>_.
     rbind (sub64 (log_stacked_height p + log_blowup p) (k_whir p)) (\<lambda>d. rbind (sub64 d rnd) (\<lambda>depth.
     rall (\<lambda>(opened_idx, path). ensure_that (length path = depth)
         (InvalidCodewordMerkleProofDepth rnd opened_idx depth (length path))) (enumerated merkle_proofs))))))))"

definition check_whir_shape ::
  "system_params \<Rightarrow> nat \<Rightarrow> 'ef list list \<Rightarrow> ('f, 'ef, 'd) whir_proof \<Rightarrow> (unit, whir_shape_error) res" where
  "check_whir_shape p num_layouts openings w =
     rbind (assert_that (num_whir_rounds p \<noteq> 0)) (\<lambda>_.
     rbind (check_whir_lengths p num_layouts w) (\<lambda>_.
     rbind (index (whir_rounds (whir p)) 0) (\<lambda>_.
     rbind (rall (check_initial_round p openings)
       (enumerated (zip (initial_round_opened_rows w) (initial_round_merkle_proofs w)))) (\<lambda>_.
     rall (check_codeword_round p)
       (enumerated (take (num_whir_rounds p - 1) (zip (codeword_opened_values w) (codeword_merkle_proofs w))))))))"

section \<open>The whole check\<close>

definition verify_proof_shape ::
  "('f, 'd) multi_stark_vk0 \<Rightarrow> ('f, 'ef, 'd) stark_proof \<Rightarrow> (stacked_layout list, proof_shape_error) res" where
  "verify_proof_shape mvk pr =
     (let p = mvk_params mvk; traces = per_trace mvk pr in
      rbind (map_err InvalidVData (check_vdata mvk pr)) (\<lambda>_.
      rbind (count_interactions (l_skip p) traces) (\<lambda>total_interactions.
      rbind (calculate_n_logup (l_skip p) total_interactions) (\<lambda>n_logup.
      let num_gkr_rounds = (if total_interactions = 0 then 0 else l_skip p + n_logup) in
      rbind (map_err InvalidGkrProofShape (check_gkr_shape num_gkr_rounds (proof_gkr pr))) (\<lambda>_.
      rbind (map_err InvalidBatchConstraintProofShape (check_batch_shape mvk traces (proof_batch_constraint pr))) (\<lambda>_.
      rbind (map_err InvalidStackingProofShape (check_stacking_rounds p (proof_stacking pr))) (\<lambda>_.
      rbind (proof_layouts p traces) (\<lambda>layouts.
      rbind (map_err InvalidStackingProofShape (check_stack_openings p layouts (proof_stacking pr))) (\<lambda>_.
      rbind (map_err InvalidWhirProofShape
        (check_whir_shape p (length layouts) (stacking_openings (proof_stacking pr)) (proof_whir pr))) (\<lambda>_.
      Ok layouts))))))))))"

section \<open>Well-shaped proofs\<close>

definition wf_params :: "system_params \<Rightarrow> bool" where
  "wf_params p \<longleftrightarrow> l_skip p + n_stack p + log_blowup p < 63 \<and> 0 < k_whir p \<and> 0 < num_whir_rounds p \<and>
     num_whir_sumcheck_rounds p \<le> log_stacked_height p \<and> (max_constraint_degree p + 1) * 2 ^ l_skip p < 2 ^ 64"

definition wf_mvk :: "('f, 'd) multi_stark_vk0 \<Rightarrow> bool" where
  "wf_mvk mvk \<longleftrightarrow> wf_params (mvk_params mvk) \<and> (\<forall>vk \<in> set (per_air mvk). wf_key vk) \<and>
     sum_list (map num_interactions (per_air mvk)) * 2 ^ (l_skip (mvk_params mvk) + n_stack (mvk_params mvk)) < 2 ^ 64 - 1"

definition shaped_vdata :: "('f, 'd) multi_stark_vk0 \<Rightarrow> ('f, 'ef, 'd) stark_proof \<Rightarrow> bool" where
  "shaped_vdata mvk pr \<longleftrightarrow> length (proof_trace_vdata pr) = length (per_air mvk) \<and>
     length (proof_public_values pr) = length (per_air mvk) \<and>
     (\<forall>i < length (per_air mvk). case proof_trace_vdata pr ! i of
        None \<Rightarrow> \<not> is_required (per_air mvk ! i) \<and> proof_public_values pr ! i = []
      | Some v \<Rightarrow> length (cached_commitments v) = num_cached_mains (per_air mvk ! i) \<and>
          log_height v \<le> log_stacked_height (mvk_params mvk) \<and>
          length (proof_public_values pr ! i) = num_public_values (vk_params (per_air mvk ! i)))"

definition interaction_total :: "nat \<Rightarrow> (nat \<times> ('f, 'd) stark_verifying_key \<times> 'd trace_vdata) list \<Rightarrow> nat" where
  "interaction_total skip traces = sum_list (map (\<lambda>(_, vk, v). num_interactions vk * 2 ^ max (log_height v) skip) traces)"

definition shaped_gkr :: "nat \<Rightarrow> ('f, 'ef) gkr_proof \<Rightarrow> bool" where
  "shaped_gkr n gkr \<longleftrightarrow> length (claims_per_layer gkr) = n \<and> map length (sumcheck_polys gkr) = [1..<n]"

definition rot_factor :: "('f, 'd) stark_verifying_key \<Rightarrow> nat" where
  "rot_factor vk = (if need_rot (vk_params vk) then 2 else 1)"

definition other_widths :: "('f, 'd) stark_verifying_key \<Rightarrow> nat list" where
  "other_widths vk = (let width = vp_width (vk_params vk) in
     (case tw_preprocessed width of None \<Rightarrow> [] | Some w \<Rightarrow> [w]) @ tw_cached_mains width)"

text \<open>One opening per column, or two with rotations: common main first, then preprocessed and cached.\<close>

definition shaped_parts :: "('f, 'd) stark_verifying_key \<Rightarrow> 'ef list list \<Rightarrow> bool" where
  "shaped_parts vk parts \<longleftrightarrow>
     map length parts = map (\<lambda>w. w * rot_factor vk) (tw_common_main (vp_width (vk_params vk)) # other_widths vk)"

definition shaped_batch ::
  "system_params \<Rightarrow> (nat \<times> ('f, 'd) stark_verifying_key \<times> 'd trace_vdata) list \<Rightarrow> 'ef batch_constraint_proof \<Rightarrow> bool" where
  "shaped_batch p traces bp \<longleftrightarrow> length (numerator_term_per_air bp) = length traces \<and>
     length (denominator_term_per_air bp) = length traces \<and>
     length (batch_univariate_round_coeffs bp) = (max_constraint_degree p + 1) * (2 ^ l_skip p - 1) + 1 \<and>
     length (batch_sumcheck_round_polys bp) = log_height (snd (snd (hd traces))) - l_skip p \<and>
     (\<forall>evals \<in> set (batch_sumcheck_round_polys bp). length evals = max_constraint_degree p + 1) \<and>
     list_all2 (\<lambda>parts (_, vk, _). shaped_parts vk parts) (column_openings bp) traces"

definition shaped_stacking :: "system_params \<Rightarrow> stacked_layout list \<Rightarrow> 'ef stacking_proof \<Rightarrow> bool" where
  "shaped_stacking p layouts sp \<longleftrightarrow>
     length (stacking_univariate_round_coeffs sp) = 2 * (2 ^ l_skip p - 1) + 1 \<and>
     length (stacking_sumcheck_round_polys sp) = n_stack p \<and>
     sum_list (map layout_width layouts) \<le> w_stack p \<and>
     map length (stacking_openings sp) = map layout_width layouts"

definition shaped_whir :: "system_params \<Rightarrow> 'ef list list \<Rightarrow> ('f, 'ef, 'd) whir_proof \<Rightarrow> bool" where
  "shaped_whir p openings w \<longleftrightarrow>
     length (whir_sumcheck_polys w) = num_whir_sumcheck_rounds p \<and>
     length (folding_pow_witnesses w) = num_whir_sumcheck_rounds p \<and>
     length (query_phase_pow_witnesses w) = num_whir_rounds p \<and>
     length (codeword_commits w) = num_whir_rounds p - 1 \<and>
     length (ood_values w) = num_whir_rounds p - 1 \<and>
     length (final_poly w) = 2 ^ (log_stacked_height p - num_whir_sumcheck_rounds p) \<and>
     length (initial_round_opened_rows w) = length openings \<and>
     length (initial_round_merkle_proofs w) = length openings \<and>
     (\<forall>c < length openings.
        length (initial_round_opened_rows w ! c) = num_queries (whir_rounds (whir p) ! 0) \<and>
        length (initial_round_merkle_proofs w ! c) = num_queries (whir_rounds (whir p) ! 0) \<and>
        (\<forall>rows \<in> set (initial_round_opened_rows w ! c). length rows = 2 ^ k_whir p \<and>
           (\<forall>row \<in> set rows. length row = length (openings ! c))) \<and>
        (\<forall>path \<in> set (initial_round_merkle_proofs w ! c). length path = log_stacked_height p + log_blowup p - k_whir p)) \<and>
     length (codeword_opened_values w) = num_whir_rounds p - 1 \<and>
     length (codeword_merkle_proofs w) = num_whir_rounds p - 1 \<and>
     (\<forall>r < num_whir_rounds p - 1.
        length (codeword_opened_values w ! r) = num_queries (whir_rounds (whir p) ! (r + 1)) \<and>
        length (codeword_merkle_proofs w ! r) = num_queries (whir_rounds (whir p) ! (r + 1)) \<and>
        (\<forall>vals \<in> set (codeword_opened_values w ! r). length vals = 2 ^ k_whir p) \<and>
        (\<forall>path \<in> set (codeword_merkle_proofs w ! r). length path = log_stacked_height p + log_blowup p - k_whir p - (r + 1)))"

definition commit_metas :: "(nat \<times> ('f, 'd) stark_verifying_key \<times> 'd trace_vdata) list \<Rightarrow> (nat \<times> nat) list list" where
  "commit_metas traces = common_main_metas traces # map (\<lambda>m. [m]) (other_metas traces)"

text \<open>The layouts are those of the common main commitment and of each preprocessed or cached trace.\<close>

definition layouts_for ::
  "system_params \<Rightarrow> (nat \<times> ('f, 'd) stark_verifying_key \<times> 'd trace_vdata) list \<Rightarrow> stacked_layout list \<Rightarrow> bool" where
  "layouts_for p traces layouts \<longleftrightarrow>
     map (stacked_layout_new (l_skip p) (log_stacked_height p)) (commit_metas traces) = map Ok layouts"

definition well_shaped :: "('f, 'd) multi_stark_vk0 \<Rightarrow> ('f, 'ef, 'd) stark_proof \<Rightarrow> stacked_layout list \<Rightarrow> bool" where
  "well_shaped mvk pr layouts \<longleftrightarrow>
     (let p = mvk_params mvk; traces = per_trace mvk pr in
      shaped_vdata mvk pr \<and> shaped_gkr (bit_length (interaction_total (l_skip p) traces)) (proof_gkr pr) \<and>
      shaped_batch p traces (proof_batch_constraint pr) \<and> layouts_for p traces layouts \<and>
      shaped_stacking p layouts (proof_stacking pr) \<and>
      shaped_whir p (stacking_openings (proof_stacking pr)) (proof_whir pr))"

section \<open>Each check decides its part\<close>

lemma check_vdata_iff: "check_vdata mvk pr = Ok () \<longleftrightarrow> shaped_vdata mvk pr"
proof (cases "length (proof_trace_vdata pr) = length (per_air mvk) \<and> length (proof_public_values pr) = length (per_air mvk)")
  case True
  have "check_air_vdata (mvk_params mvk) (i, per_air mvk ! i, proof_trace_vdata pr ! i, proof_public_values pr ! i) = Ok () \<longleftrightarrow>
     (case proof_trace_vdata pr ! i of
        None \<Rightarrow> \<not> is_required (per_air mvk ! i) \<and> proof_public_values pr ! i = []
      | Some v \<Rightarrow> length (cached_commitments v) = num_cached_mains (per_air mvk ! i) \<and>
          log_height v \<le> log_stacked_height (mvk_params mvk) \<and>
          length (proof_public_values pr ! i) = num_public_values (vk_params (per_air mvk ! i)))" for i
    by (auto simp: check_air_vdata_def rbind_Ok_iff log_stacked_height_def split: option.splits)
  with True show ?thesis
    by (simp add: check_vdata_def shaped_vdata_def rall_enumerated_Ok_iff Let_def del: length_zip)
       (simp add: True)
qed (auto simp: check_vdata_def shaped_vdata_def rbind_Ok_iff Let_def)

lemma check_vdata_total: "check_vdata mvk pr \<noteq> Panic"
  unfolding check_vdata_def Let_def
  by (intro rbind_total rall_total) (auto simp: check_air_vdata_def rbind_Panic_iff split: option.splits)

lemma check_gkr_shape_iff: "check_gkr_shape n (gkr :: ('f, 'ef) gkr_proof) = Ok () \<longleftrightarrow> shaped_gkr n gkr"
proof -
  have "map length xs = [1..<n] \<longleftrightarrow> length xs = n - 1 \<and> (\<forall>i < length xs. length (xs ! i) = Suc i)" for xs :: "('ef \<times> 'ef \<times> 'ef) list list"
    by (auto simp: list_eq_iff_nth_eq)
  then show ?thesis
    by (simp add: check_gkr_shape_def shaped_gkr_def rbind_Ok_iff rall_enumerated_Ok_iff)
qed

lemma check_gkr_shape_total: "check_gkr_shape n gkr \<noteq> Panic"
  unfolding check_gkr_shape_def by (intro rbind_total rall_total) auto

lemma power2_bound: "k < 64 \<Longrightarrow> (2::nat) ^ k < 2 ^ 64"
  by (rule power_strict_increasing) simp_all

lemma univariate_degree_Ok:
  assumes "skip < 63" and "k * 2 ^ skip < 2 ^ 64"
  shows "univariate_degree k skip = Ok (k * (2 ^ skip - 1))"
proof -
  have "k * (2 ^ skip - 1) \<le> k * 2 ^ skip" by (rule mult_le_mono2) simp
  with assms(2) have "k * (2 ^ skip - 1) < 2 ^ 64" by linarith
  with assms(1) show ?thesis by (simp add: univariate_degree_def sub64_def mul64_def)
qed

lemma length_other_widths:
  "wf_key vk \<Longrightarrow> 1 + length (other_widths vk) = num_parts vk"
  by (auto simp: wf_key_def other_widths_def num_parts_def num_cached_mains_def Let_def split: option.splits)

lemma check_column_openings_iff:
  assumes "wf_key vk" and "i < length (per_air mvk)" and "per_air mvk ! i = vk"
  shows "check_column_openings mvk (parts, i, vk, v) = Ok () \<longleftrightarrow> shaped_parts vk parts"
    and "check_column_openings mvk (parts, i, vk, v) \<noteq> Panic"
proof -
  let ?k = "rot_factor vk"
  let ?width = "vp_width (vk_params vk)"
  have prep: "preprocessed_data vk \<noteq> None \<longleftrightarrow> tw_preprocessed ?width \<noteq> None" using assms(1) by (auto simp: wf_key_def)
  have cached: "rall (check_cached_openings i ?k) (enumerated (zip ps (tw_cached_mains ?width))) = Ok () \<longleftrightarrow>
      map length ps = map (\<lambda>w. w * ?k) (tw_cached_mains ?width)"
    if "length ps = length (tw_cached_mains ?width)" for ps :: "'ef list list"
    unfolding rall_enumerated_Ok_iff using that by (auto simp: check_cached_openings_def list_eq_iff_nth_eq)
  have cached_total: "rall (check_cached_openings i ?k) xs \<noteq> Panic" for xs :: "(nat \<times> 'ef list \<times> nat) list"
    by (intro rall_total) (auto simp: check_cached_openings_def)
  have "(check_column_openings mvk (parts, i, vk, v) = Ok () \<longleftrightarrow> shaped_parts vk parts) \<and>
     check_column_openings mvk (parts, i, vk, v) \<noteq> Panic"
  proof (cases "length parts = num_parts vk")
    case len: True
    then obtain main rest where parts: "parts = main # rest" by (cases parts) (auto simp: num_parts_def)
    with len have np: "num_parts vk = Suc (length rest)" by simp
    show ?thesis
    proof (cases "tw_preprocessed ?width")
      case None
      with prep len parts have "length rest = length (tw_cached_mains ?width)"
        by (simp add: num_parts_def num_cached_mains_def)
      note ok = cached [OF this]
      have "preprocessed_data vk = None" using None prep by blast
      with None parts np ok cached_total show ?thesis
        by (cases "length main = tw_common_main ?width * ?k")
          (auto simp: check_column_openings_def shaped_parts_def other_widths_def assms Let_def rot_factor_def [symmetric])
    next
      case (Some pw)
      with prep len parts obtain p cs where rest: "rest = p # cs" "length cs = length (tw_cached_mains ?width)"
        by (cases rest) (auto simp: num_parts_def num_cached_mains_def)
      note ok = cached [OF rest(2)]
      obtain pd where "preprocessed_data vk = Some pd" using Some prep by blast
      with Some parts rest np ok cached_total show ?thesis
        by (cases "length main = tw_common_main ?width * ?k"; cases "length p = pw * ?k")
          (auto simp: check_column_openings_def shaped_parts_def other_widths_def assms Let_def rot_factor_def [symmetric])
    qed
  next
    case False
    have "length parts \<noteq> Suc (length (other_widths vk))" using False length_other_widths [OF assms(1)] by simp
    then have "\<not> shaped_parts vk parts" by (auto simp: shaped_parts_def dest: arg_cong [of _ _ length])
    with False show ?thesis by (simp add: check_column_openings_def assms Let_def)
  qed
  then show "check_column_openings mvk (parts, i, vk, v) = Ok () \<longleftrightarrow> shaped_parts vk parts"
    and "check_column_openings mvk (parts, i, vk, v) \<noteq> Panic" by blast+
qed

text \<open>What the trace list says of the key, once the trace data has the right shape.\<close>

definition traces_of_key ::
  "('f, 'd) multi_stark_vk0 \<Rightarrow> (nat \<times> ('f, 'd) stark_verifying_key \<times> 'd trace_vdata) list \<Rightarrow> bool" where
  "traces_of_key mvk traces \<longleftrightarrow> traces \<noteq> [] \<and> sorted_wrt (\<lambda>a b. log_height (snd (snd b)) \<le> log_height (snd (snd a))) traces \<and>
     (\<forall>(i, vk, v) \<in> set traces. i < length (per_air mvk) \<and> per_air mvk ! i = vk \<and>
        log_height v \<le> log_stacked_height (mvk_params mvk))"

lemma map_filter_mem: "y \<in> set (List.map_filter f xs) \<longleftrightarrow> (\<exists>x \<in> set xs. f x = Some y)"
  by (induction xs) (auto simp: map_filter_simps split: option.splits)

lemma per_trace_mem:
  assumes len: "length (proof_trace_vdata pr) = length (per_air mvk)"
  shows "(i, vk, v) \<in> set (per_trace mvk pr) \<longleftrightarrow>
     i < length (per_air mvk) \<and> per_air mvk ! i = vk \<and> proof_trace_vdata pr ! i = Some v"
proof -
  have "(i, vk, v) \<in> set (per_trace mvk pr) \<longleftrightarrow>
      (\<exists>x \<in> set (enumerated (zip (per_air mvk) (proof_trace_vdata pr))).
         (case x of (air_idx, vk, vdata) \<Rightarrow> map_option (\<lambda>vdata. (air_idx, vk, vdata)) vdata) = Some (i, vk, v))"
    by (simp add: per_trace_def map_filter_mem)
  also have "\<dots> \<longleftrightarrow> (i, vk, Some v) \<in> set (enumerated (zip (per_air mvk) (proof_trace_vdata pr)))"
    by (auto split: prod.splits intro!: bexI [of _ "(i, vk, Some v)"])
  also have "\<dots> \<longleftrightarrow> i < length (per_air mvk) \<and> per_air mvk ! i = vk \<and> proof_trace_vdata pr ! i = Some v"
    unfolding enumerated_mem using len by auto
  finally show ?thesis .
qed

lemma sorted_key_desc: "sorted_wrt (\<lambda>a b. h b \<le> (h a :: nat)) (sort_key (\<lambda>x. - int (h x)) xs)"
proof -
  have "sorted (map (\<lambda>x. - int (h x)) (sort_key (\<lambda>x. - int (h x)) xs))" by (rule sorted_sort_key)
  then show ?thesis by (simp add: sorted_map)
qed

lemma per_trace_desc: "sorted_wrt (\<lambda>a b. log_height (snd (snd b)) \<le> log_height (snd (snd a))) (per_trace mvk pr)"
proof -
  have "(\<lambda>(_, _, vdata). - int (log_height vdata)) = (\<lambda>x :: nat \<times> ('a, 'b) stark_verifying_key \<times> 'b trace_vdata. - int (log_height (snd (snd x))))"
    by (auto simp: fun_eq_iff)
  then show ?thesis unfolding per_trace_def
    using sorted_key_desc [of "\<lambda>x. log_height (snd (snd x))"] by auto
qed

lemma per_trace_of_key:
  assumes "shaped_vdata mvk pr" and "\<exists>v. Some v \<in> set (proof_trace_vdata pr)"
  shows "traces_of_key mvk (per_trace mvk pr)"
proof -
  have len: "length (proof_trace_vdata pr) = length (per_air mvk)" using assms(1) by (simp add: shaped_vdata_def)
  from assms(2) obtain i v where "i < length (per_air mvk)" "proof_trace_vdata pr ! i = Some v"
    using len by (metis in_set_conv_nth)
  with per_trace_mem [OF len, of i "per_air mvk ! i" v] have "per_trace mvk pr \<noteq> []" by auto
  moreover have "\<forall>(i, vk, v) \<in> set (per_trace mvk pr). i < length (per_air mvk) \<and> per_air mvk ! i = vk \<and>
        log_height v \<le> log_stacked_height (mvk_params mvk)"
  proof (clarify, intro conjI)
    fix i vk v assume "(i, vk, v) \<in> set (per_trace mvk pr)"
    then have m: "i < length (per_air mvk)" "per_air mvk ! i = vk" "proof_trace_vdata pr ! i = Some v"
      using per_trace_mem [OF len] by blast+
    show "i < length (per_air mvk)" and "per_air mvk ! i = vk" using m by simp_all
    from assms(1) m(1) have "case proof_trace_vdata pr ! i of
        None \<Rightarrow> \<not> is_required (per_air mvk ! i) \<and> proof_public_values pr ! i = []
      | Some v \<Rightarrow> length (cached_commitments v) = num_cached_mains (per_air mvk ! i) \<and>
          log_height v \<le> log_stacked_height (mvk_params mvk) \<and>
          length (proof_public_values pr ! i) = num_public_values (vk_params (per_air mvk ! i))"
      by (simp add: shaped_vdata_def)
    with m(3) show "log_height v \<le> log_stacked_height (mvk_params mvk)" by simp
  qed
  ultimately show ?thesis using per_trace_desc by (auto simp: traces_of_key_def)
qed

lemma check_batch_shape_iff:
  assumes "wf_mvk mvk" and key: "traces_of_key mvk traces"
  shows "check_batch_shape mvk traces (bp :: 'ef batch_constraint_proof) = Ok () \<longleftrightarrow> shaped_batch (mvk_params mvk) traces bp"
    and "check_batch_shape mvk traces bp \<noteq> Panic"
proof -
  let ?p = "mvk_params mvk"
  obtain i0 vk0 v0 rest where traces: "traces = (i0, vk0, v0) # rest"
    using key by (cases traces) (auto simp: traces_of_key_def)
  have column: "(check_column_openings mvk (parts, i, vk, v) = Ok () \<longleftrightarrow> shaped_parts vk parts) \<and>
      check_column_openings mvk (parts, i, vk, v) \<noteq> Panic" if "(i, vk, v) \<in> set traces" for parts :: "'ef list list" and i vk v
  proof -
    from that key have i: "i < length (per_air mvk)" "per_air mvk ! i = vk" by (auto simp: traces_of_key_def)
    then have "wf_key vk" using assms(1) by (auto simp: wf_mvk_def)
    from check_column_openings_iff [OF this i] show ?thesis by blast
  qed
  have columns_total: "rall (check_column_openings mvk) (zip (column_openings bp) traces) \<noteq> Panic"
    using column by (intro rall_total) (auto dest: set_zip_rightD)
  have columns: "rall (check_column_openings mvk) (zip (column_openings bp) traces) = Ok () \<longleftrightarrow>
      list_all2 (\<lambda>parts (_, vk, _). shaped_parts vk parts) (column_openings bp) traces"
    if "length (column_openings bp) = length traces"
  proof -
    have "check_column_openings mvk (column_openings bp ! k, traces ! k) = Ok () \<longleftrightarrow>
        (case traces ! k of (_, vk, _) \<Rightarrow> shaped_parts vk (column_openings bp ! k))" if "k < length traces" for k
      using column [of "fst (traces ! k)" "fst (snd (traces ! k))" "snd (snd (traces ! k))"] that
      by (cases "traces ! k") (metis fst_conv nth_mem snd_conv split_conv)
    note one = this
    have "rall (check_column_openings mvk) (zip (column_openings bp) traces) = Ok () \<longleftrightarrow>
        (\<forall>k < length traces. check_column_openings mvk (column_openings bp ! k, traces ! k) = Ok ())"
      unfolding rall_Ok_iff all_set_conv_all_nth using that by simp
    with one that show ?thesis by (simp add: list_all2_conv_all_nth case_prod_beta)
  qed
  have "l_skip ?p < 63" "(max_constraint_degree ?p + 1) * 2 ^ l_skip ?p < 2 ^ 64"
    using assms(1) by (auto simp: wf_mvk_def wf_params_def)
  note deg = univariate_degree_Ok [OF this]
  have first: "index traces 0 = Ok (i0, vk0, v0)" and hd_first: "log_height (snd (snd (hd traces))) = log_height v0"
    by (simp_all add: traces)
  have rounds: "rall (\<lambda>(i, evals). ensure_that (length evals = max_constraint_degree ?p + 1)
          (InvalidSumcheckRoundPolyEvals i (max_constraint_degree ?p + 1) (length evals))) (enumerated (batch_sumcheck_round_polys bp)) = Ok u
      \<longleftrightarrow> (\<forall>evals \<in> set (batch_sumcheck_round_polys bp). length evals = max_constraint_degree ?p + 1)" for u
    unfolding rall_enumerated_Ok_iff by (auto simp: all_set_conv_all_nth)
  show "check_batch_shape mvk traces bp = Ok () \<longleftrightarrow> shaped_batch ?p traces bp"
  proof (cases "length (column_openings bp) = length traces")
    case True
    show ?thesis
      unfolding check_batch_shape_def Let_def deg first rbind.simps prod.case rbind_Ok_iff ensure_that_simps
        rounds columns [OF True] shaped_batch_def hd_first using True by auto
  next
    case False
    then show ?thesis
      unfolding check_batch_shape_def Let_def deg first rbind.simps prod.case
      by (auto simp: rbind_Ok_iff shaped_batch_def dest: list_all2_lengthD)
  qed
  show "check_batch_shape mvk traces bp \<noteq> Panic"
    unfolding check_batch_shape_def Let_def deg first rbind.simps prod.case
    by (intro rbind_total columns_total rall_total) auto
qed

lemma other_metas_widths:
  "other_metas traces = concat (map (\<lambda>(_, vk, v). map (\<lambda>w. (w, log_height v)) (other_widths vk)) traces)"
  unfolding other_metas_def other_widths_def Let_def by (rule refl)

lemma commit_metas_wf:
  assumes "wf_params (mvk_params mvk)" and key: "traces_of_key mvk traces" and "metas \<in> set (commit_metas traces)"
  shows "wf_metas (l_skip (mvk_params mvk)) (log_stacked_height (mvk_params mvk)) metas"
proof -
  let ?p = "mvk_params mvk"
  have ls: "l_skip ?p \<le> log_stacked_height ?p" "log_stacked_height ?p < 63"
    using assms(1) by (auto simp: wf_params_def log_stacked_height_def)
  have h: "log_height v \<le> log_stacked_height ?p" if "(i, vk, v) \<in> set traces" for i vk v
    using key that by (auto simp: traces_of_key_def)
  from assms(3) consider "metas = common_main_metas traces" | m where "m \<in> set (other_metas traces)" "metas = [m]"
    by (auto simp: commit_metas_def)
  then show ?thesis
  proof cases
    case 1
    have "sorted_wrt (\<lambda>a b. snd b \<le> snd a) metas"
      using key unfolding 1 common_main_metas_def sorted_wrt_map traces_of_key_def
      by (elim conjE) (erule sorted_wrt_mono_rel [rotated], auto)
    with ls h show ?thesis by (auto simp: wf_metas_def 1 common_main_metas_def)
  next
    case 2
    with ls h show ?thesis by (auto simp: wf_metas_def other_metas_widths)
  qed
qed

lemma stacked_new_unwrap_Ok:
  assumes "stacked_layout_new (l_skip p) (log_stacked_height p) metas = Ok L"
  shows "stacked_new_unwrap p metas = Ok L"
  using assms by (simp add: stacked_new_unwrap_def unwrap_res_def log_stacked_height_def add.commute)

lemma proof_layouts_iff:
  assumes "wf_params (mvk_params mvk)" and "traces_of_key mvk traces"
  shows "proof_layouts (mvk_params mvk) traces = (Ok layouts :: (_, 'e) res) \<longleftrightarrow> layouts_for (mvk_params mvk) traces layouts"
    and "proof_layouts (mvk_params mvk) traces \<noteq> (Panic :: (_, 'e) res)"
    and "\<exists>layouts. layouts_for (mvk_params mvk) traces layouts"
proof -
  let ?p = "mvk_params mvk"
  let ?new = "stacked_layout_new (l_skip ?p) (log_stacked_height ?p)"
  have "\<forall>metas \<in> set (commit_metas traces). \<exists>L. ?new metas = Ok L"
  proof
    fix metas assume "metas \<in> set (commit_metas traces)"
    from layout_new_closed [OF commit_metas_wf [OF assms this]] show "\<exists>L. ?new metas = Ok L" by blast
  qed
  then obtain f where f: "?new metas = Ok (f metas)" if "metas \<in> set (commit_metas traces)" for metas by metis
  have one: "stacked_new_unwrap ?p metas = (Ok (f metas) :: (_, 'e) res)" if "metas \<in> set (commit_metas traces)" for metas
    by (rule stacked_new_unwrap_Ok [OF f [OF that]])
  have "rmap (\<lambda>m. stacked_new_unwrap ?p [m]) (other_metas traces) = (Ok (map (\<lambda>m. f [m]) (other_metas traces)) :: (_, 'e) res)"
    by (rule rmap_total) (rule one, simp add: commit_metas_def)
  moreover have "stacked_new_unwrap ?p (common_main_metas traces) = (Ok (f (common_main_metas traces)) :: (_, 'e) res)"
    by (rule one) (simp add: commit_metas_def)
  ultimately have pl: "proof_layouts ?p traces = (Ok (map f (commit_metas traces)) :: (_, 'e) res)"
    by (simp add: proof_layouts_def commit_metas_def comp_def)
  have lf: "layouts_for ?p traces layouts \<longleftrightarrow> layouts = map f (commit_metas traces)" for layouts
  proof -
    have new: "map ?new (commit_metas traces) = map Ok (map f (commit_metas traces))" using f by simp
    have "inj (Ok :: stacked_layout \<Rightarrow> (stacked_layout, stacked_pcs_error) res)" by (simp add: inj_def)
    then show ?thesis unfolding layouts_for_def new by (metis inj_map_eq_map)
  qed
  show "proof_layouts ?p traces = (Ok layouts :: (_, 'e) res) \<longleftrightarrow> layouts_for ?p traces layouts" unfolding pl lf by auto
  show "proof_layouts ?p traces \<noteq> (Panic :: (_, 'e) res)" unfolding pl by simp
  show "\<exists>layouts. layouts_for ?p traces layouts" unfolding lf by blast
qed

lemma check_stacking_iff:
  assumes "wf_params p"
  shows "check_stacking_rounds p sp = Ok () \<and> check_stack_openings p layouts sp = Ok () \<longleftrightarrow> shaped_stacking p layouts sp"
    and "check_stacking_rounds p sp \<noteq> Panic" and "check_stack_openings p layouts sp \<noteq> Panic"
proof -
  have skip: "l_skip p < 63" "2 * 2 ^ l_skip p < (2 :: nat) ^ 64"
  proof -
    show "l_skip p < 63" using assms by (simp add: wf_params_def)
    then have "(2 :: nat) ^ Suc (l_skip p) < 2 ^ 64" by (intro power2_bound) simp
    then show "2 * 2 ^ l_skip p < (2 :: nat) ^ 64" by simp
  qed
  note deg = univariate_degree_Ok [OF skip]
  have "rall (\<lambda>(commit_idx, openings, layout). ensure_that (length openings = layout_width layout)
          (InvalidStackOpeningsPerMatrix commit_idx (layout_width layout) (length openings)))
        (enumerated (zip (stacking_openings sp) layouts)) = Ok u \<longleftrightarrow>
      map length (stacking_openings sp) = map layout_width layouts" if "length (stacking_openings sp) = length layouts" for u
    unfolding rall_enumerated_Ok_iff using that by (auto simp: list_eq_iff_nth_eq)
  note widths = this
  show "check_stacking_rounds p sp = Ok () \<and> check_stack_openings p layouts sp = Ok () \<longleftrightarrow> shaped_stacking p layouts sp"
  proof (cases "length (stacking_openings sp) = length layouts")
    case True
    show ?thesis
      unfolding check_stacking_rounds_def check_stack_openings_def deg rbind.simps Let_def rbind_Ok_iff ensure_that_simps
        widths [OF True] shaped_stacking_def using True by auto
  next
    case False
    then show ?thesis unfolding check_stacking_rounds_def check_stack_openings_def deg Let_def
      by (auto simp: rbind_Ok_iff shaped_stacking_def dest: arg_cong [of _ _ length])
  qed
  show "check_stacking_rounds p sp \<noteq> Panic"
    unfolding check_stacking_rounds_def deg rbind.simps by (intro rbind_total) auto
  show "check_stack_openings p layouts sp \<noteq> Panic"
    unfolding check_stack_openings_def Let_def by (intro rbind_total rall_total) auto
qed

section \<open>The WHIR part\<close>

lemma wf_params_bounds:
  assumes "wf_params p"
  shows "k_whir p < 63" and "log_stacked_height p < 63" and "0 < num_whir_rounds p"
    and "k_whir p \<le> log_stacked_height p" and "whir_rounds (whir p) \<noteq> []"
    and "num_whir_rounds p + k_whir p \<le> log_stacked_height p + 1"
    and "log_final_poly_len p = (Ok (log_stacked_height p - num_whir_sumcheck_rounds p) :: (_, 'e) res)"
proof -
  have rk: "num_whir_rounds p * k_whir p \<le> log_stacked_height p" "0 < num_whir_rounds p" "0 < k_whir p"
    using assms by (simp_all add: wf_params_def num_whir_sumcheck_rounds_def k_whir_def)
  have "1 * k_whir p \<le> num_whir_rounds p * k_whir p" using rk(2) by (intro mult_le_mono1) simp
  with rk(1) show k: "k_whir p \<le> log_stacked_height p" by linarith
  show "log_stacked_height p < 63" using assms by (simp add: wf_params_def log_stacked_height_def)
  with k show "k_whir p < 63" by simp
  show "0 < num_whir_rounds p" by (rule rk(2))
  then show "whir_rounds (whir p) \<noteq> []" by (simp add: num_whir_rounds_def)
  obtain r k where rk': "num_whir_rounds p = Suc r" "k_whir p = Suc k" using rk(2,3) by (metis gr0_implies_Suc)
  with rk(1) show "num_whir_rounds p + k_whir p \<le> log_stacked_height p + 1" by simp
  show "log_final_poly_len p = (Ok (log_stacked_height p - num_whir_sumcheck_rounds p) :: (_, 'e) res)"
    using assms by (simp add: log_final_poly_len_def sub64_def wf_params_def num_whir_sumcheck_rounds_def)
qed

lemma rall_const_iff:
  "rall (\<lambda>(i, x). ensure_that (P x) (err i x)) (enumerated xs) = Ok u \<longleftrightarrow> (\<forall>x \<in> set xs. P x)"
  unfolding rall_enumerated_Ok_iff by (auto simp: all_set_conv_all_nth)

lemma check_whir_lengths_iff:
  assumes "wf_params p"
  shows "check_whir_lengths p n w = Ok () \<longleftrightarrow>
     length (whir_sumcheck_polys w) = num_whir_sumcheck_rounds p \<and>
     length (codeword_commits w) = num_whir_rounds p - 1 \<and> length (ood_values w) = num_whir_rounds p - 1 \<and>
     length (folding_pow_witnesses w) = num_whir_sumcheck_rounds p \<and>
     length (query_phase_pow_witnesses w) = num_whir_rounds p \<and>
     length (initial_round_opened_rows w) = n \<and> length (initial_round_merkle_proofs w) = n \<and>
     length (codeword_opened_values w) = num_whir_rounds p - 1 \<and>
     length (codeword_merkle_proofs w) = num_whir_rounds p - 1 \<and>
     length (final_poly w) = 2 ^ (log_stacked_height p - num_whir_sumcheck_rounds p)"
    and "check_whir_lengths p n w \<noteq> Panic"
proof -
  note b = wf_params_bounds [OF assms]
  have sub: "sub64 (num_whir_rounds p) 1 = (Ok (num_whir_rounds p - 1) :: (_, 'e) res)"
    using b(3) by (simp add: sub64_def)
  have shl: "shl64 1 (log_stacked_height p - num_whir_sumcheck_rounds p)
      = (Ok (2 ^ (log_stacked_height p - num_whir_sumcheck_rounds p)) :: (_, 'e) res)"
    using b(2) by (intro shl64_one) simp
  show "check_whir_lengths p n w = Ok () \<longleftrightarrow>
     length (whir_sumcheck_polys w) = num_whir_sumcheck_rounds p \<and>
     length (codeword_commits w) = num_whir_rounds p - 1 \<and> length (ood_values w) = num_whir_rounds p - 1 \<and>
     length (folding_pow_witnesses w) = num_whir_sumcheck_rounds p \<and>
     length (query_phase_pow_witnesses w) = num_whir_rounds p \<and>
     length (initial_round_opened_rows w) = n \<and> length (initial_round_merkle_proofs w) = n \<and>
     length (codeword_opened_values w) = num_whir_rounds p - 1 \<and>
     length (codeword_merkle_proofs w) = num_whir_rounds p - 1 \<and>
     length (final_poly w) = 2 ^ (log_stacked_height p - num_whir_sumcheck_rounds p)"
    unfolding check_whir_lengths_def Let_def b(7) sub shl rbind.simps rbind_Ok_iff ensure_that_simps by auto
  show "check_whir_lengths p n w \<noteq> Panic"
    unfolding check_whir_lengths_def Let_def b(7) sub shl rbind.simps by (intro rbind_total) auto
qed

lemma check_initial_round_iff:
  assumes "wf_params p" and "c < length openings"
  shows "check_initial_round p openings (c, rows, paths) = Ok () \<longleftrightarrow>
     length rows = num_queries (whir_rounds (whir p) ! 0) \<and> length paths = num_queries (whir_rounds (whir p) ! 0) \<and>
     (\<forall>rs \<in> set rows. length rs = 2 ^ k_whir p \<and> (\<forall>row \<in> set rs. length row = length (openings ! c))) \<and>
     (\<forall>path \<in> set paths. length path = log_stacked_height p + log_blowup p - k_whir p)"
    and "check_initial_round p openings (c, rows, paths) \<noteq> Panic"
proof -
  note b = wf_params_bounds [OF assms(1)]
  have k: "shl64 1 (k_whir p) = (Ok (2 ^ k_whir p) :: (_, 'e) res)" using b(1) by (intro shl64_one) simp
  have rnd0: "index (whir_rounds (whir p)) 0 = (Ok (whir_rounds (whir p) ! 0) :: (_, 'e) res)" using b(5) by simp
  have claim: "index openings c = (Ok (openings ! c) :: (_, 'e) res)" using assms(2) by simp
  have one: "check_opened_rows p c w (i, rs) = Ok u \<longleftrightarrow> length rs = 2 ^ k_whir p \<and> (\<forall>row \<in> set rs. length row = w)" for w i rs u
    unfolding check_opened_rows_def prod.case k rbind.simps rbind_Ok_iff ensure_that_simps rall_const_iff by auto
  have one_total: "check_opened_rows p c w (i, rs) \<noteq> Panic" for w i rs
    unfolding check_opened_rows_def prod.case k rbind.simps by (intro rbind_total rall_total) auto
  have rs: "rall (check_opened_rows p c (length (openings ! c))) (enumerated rows) = Ok u \<longleftrightarrow>
      (\<forall>rs \<in> set rows. length rs = 2 ^ k_whir p \<and> (\<forall>row \<in> set rs. length row = length (openings ! c)))" for u
    unfolding rall_enumerated_Ok_iff one by (auto simp: all_set_conv_all_nth)
  have rs_total: "rall (check_opened_rows p c (length (openings ! c))) (enumerated rows) \<noteq> Panic"
    by (rule rall_total) (use one_total in auto)
  show "check_initial_round p openings (c, rows, paths) = Ok () \<longleftrightarrow>
     length rows = num_queries (whir_rounds (whir p) ! 0) \<and> length paths = num_queries (whir_rounds (whir p) ! 0) \<and>
     (\<forall>rs \<in> set rows. length rs = 2 ^ k_whir p \<and> (\<forall>row \<in> set rs. length row = length (openings ! c))) \<and>
     (\<forall>path \<in> set paths. length path = log_stacked_height p + log_blowup p - k_whir p)"
    unfolding check_initial_round_def prod.case rnd0 claim rbind.simps Let_def rbind_Ok_iff ensure_that_simps rs rall_const_iff
    by auto
  show "check_initial_round p openings (c, rows, paths) \<noteq> Panic"
    unfolding check_initial_round_def prod.case rnd0 claim rbind.simps Let_def
    by (intro rbind_total rs_total rall_total) auto
qed

lemma check_codeword_round_iff:
  assumes "wf_params p" and "r < num_whir_rounds p - 1"
  shows "check_codeword_round p (r, vals, paths) = Ok () \<longleftrightarrow>
     length vals = num_queries (whir_rounds (whir p) ! (r + 1)) \<and> length paths = num_queries (whir_rounds (whir p) ! (r + 1)) \<and>
     (\<forall>vs \<in> set vals. length vs = 2 ^ k_whir p) \<and>
     (\<forall>path \<in> set paths. length path = log_stacked_height p + log_blowup p - k_whir p - (r + 1))"
    and "check_codeword_round p (r, vals, paths) \<noteq> Panic"
proof -
  note b = wf_params_bounds [OF assms(1)]
  have k: "shl64 1 (k_whir p) = (Ok (2 ^ k_whir p) :: (_, 'e) res)" using b(1) by (intro shl64_one) simp
  have cfg: "index (whir_rounds (whir p)) (r + 1) = (Ok (whir_rounds (whir p) ! (r + 1)) :: (_, 'e) res)"
    using assms(2) by (intro index_in_range) (simp add: num_whir_rounds_def)
  have sub: "sub64 (log_stacked_height p + log_blowup p) (k_whir p) = (Ok (log_stacked_height p + log_blowup p - k_whir p) :: (_, 'e) res)"
    "sub64 (log_stacked_height p + log_blowup p - k_whir p) (r + 1) = (Ok (log_stacked_height p + log_blowup p - k_whir p - (r + 1)) :: (_, 'e) res)"
    using b(4,6) assms(2) by (simp_all add: sub64_def)
  show "check_codeword_round p (r, vals, paths) = Ok () \<longleftrightarrow>
     length vals = num_queries (whir_rounds (whir p) ! (r + 1)) \<and> length paths = num_queries (whir_rounds (whir p) ! (r + 1)) \<and>
     (\<forall>vs \<in> set vals. length vs = 2 ^ k_whir p) \<and>
     (\<forall>path \<in> set paths. length path = log_stacked_height p + log_blowup p - k_whir p - (r + 1))"
    unfolding check_codeword_round_def prod.case Let_def cfg sub k rbind.simps rbind_Ok_iff ensure_that_simps rall_const_iff
    by auto
  show "check_codeword_round p (r, vals, paths) \<noteq> Panic"
    unfolding check_codeword_round_def prod.case Let_def cfg sub k rbind.simps by (intro rbind_total rall_total) auto
qed

lemma check_whir_shape_iff:
  assumes "wf_params p"
  shows "check_whir_shape p (length openings) openings w = Ok () \<longleftrightarrow> shaped_whir p openings w"
    and "check_whir_shape p (length openings) openings w \<noteq> Panic"
proof -
  note b = wf_params_bounds [OF assms]
  note lengths = check_whir_lengths_iff [OF assms, of "length openings" w]
  have rnd0: "index (whir_rounds (whir p)) 0 = (Ok (whir_rounds (whir p) ! 0) :: (_, 'e) res)" using b(5) by simp
  let ?initial = "rall (check_initial_round p openings) (enumerated (zip (initial_round_opened_rows w) (initial_round_merkle_proofs w)))"
  let ?later = "rall (check_codeword_round p)
       (enumerated (take (num_whir_rounds p - 1) (zip (codeword_opened_values w) (codeword_merkle_proofs w))))"
  have initial: "check_whir_lengths p (length openings) w = Ok () \<Longrightarrow> ?initial = Ok () \<longleftrightarrow>
     (\<forall>c < length openings.
        length (initial_round_opened_rows w ! c) = num_queries (whir_rounds (whir p) ! 0) \<and>
        length (initial_round_merkle_proofs w ! c) = num_queries (whir_rounds (whir p) ! 0) \<and>
        (\<forall>rows \<in> set (initial_round_opened_rows w ! c). length rows = 2 ^ k_whir p \<and>
           (\<forall>row \<in> set rows. length row = length (openings ! c))) \<and>
        (\<forall>path \<in> set (initial_round_merkle_proofs w ! c). length path = log_stacked_height p + log_blowup p - k_whir p))"
    unfolding lengths rall_enumerated_Ok_iff by (simp add: check_initial_round_iff(1) [OF assms])
  have initial_total: "?initial \<noteq> Panic" if "check_whir_lengths p (length openings) w = Ok ()"
    using that unfolding lengths
    by (intro rall_total) (auto simp: in_set_zip dest: check_initial_round_iff(2) [OF assms])
  have later: "check_whir_lengths p (length openings) w = Ok () \<Longrightarrow> ?later = Ok () \<longleftrightarrow>
     (\<forall>r < num_whir_rounds p - 1.
        length (codeword_opened_values w ! r) = num_queries (whir_rounds (whir p) ! (r + 1)) \<and>
        length (codeword_merkle_proofs w ! r) = num_queries (whir_rounds (whir p) ! (r + 1)) \<and>
        (\<forall>vals \<in> set (codeword_opened_values w ! r). length vals = 2 ^ k_whir p) \<and>
        (\<forall>path \<in> set (codeword_merkle_proofs w ! r). length path = log_stacked_height p + log_blowup p - k_whir p - (r + 1)))"
    unfolding lengths rall_enumerated_Ok_iff by (simp add: check_codeword_round_iff(1) [OF assms])
  have later_total: "?later \<noteq> Panic" if "check_whir_lengths p (length openings) w = Ok ()"
    using that unfolding lengths
    by (intro rall_total) (auto simp: in_set_zip simp: check_codeword_round_iff(2) [OF assms])
  show "check_whir_shape p (length openings) openings w = Ok () \<longleftrightarrow> shaped_whir p openings w"
  proof (cases "check_whir_lengths p (length openings) w = Ok ()")
    case True
    then have "check_whir_shape p (length openings) openings w = Ok () \<longleftrightarrow> ?initial = Ok () \<and> ?later = Ok ()"
      using b(3) by (simp add: check_whir_shape_def rnd0 rbind_Ok_iff)
    then show ?thesis unfolding initial [OF True] later [OF True] using True [unfolded lengths]
      by (auto simp: shaped_whir_def)
  next
    case False
    then have "check_whir_shape p (length openings) openings w \<noteq> Ok ()"
      using b(3) by (simp add: check_whir_shape_def rbind_Ok_iff)
    moreover from False have "\<not> shaped_whir p openings w" unfolding lengths shaped_whir_def by blast
    ultimately show ?thesis by blast
  qed
  show "check_whir_shape p (length openings) openings w \<noteq> Panic"
    unfolding check_whir_shape_def rnd0 rbind.simps using b(3)
    by (intro rbind_total lengths(2) initial_total later_total) auto
qed

section \<open>Counting the interactions\<close>

lemma shl64_exact: "k < 64 \<Longrightarrow> n * 2 ^ k < 2 ^ 64 \<Longrightarrow> shl64 n k = Ok (n * 2 ^ k)"
  by (simp add: shl64_def)

lemma count_interactions_fold:
  assumes "\<forall>(_, _, v) \<in> set traces. max (log_height v) skip < 64" and "acc + interaction_total skip traces < 2 ^ 64"
  shows "rfold (\<lambda>(_, vk, vdata) acc. rbind (shl64 (num_interactions vk) (max (log_height vdata) skip)) (add64 acc)) traces acc
     = (Ok (acc + interaction_total skip traces) :: (_, 'e) res)"
  using assms
proof (induction traces arbitrary: acc)
  case (Cons t traces)
  obtain i vk v where t: "t = (i, vk, v)" by (cases t)
  let ?n = "num_interactions vk * 2 ^ max (log_height v) skip"
  have tot: "interaction_total skip (t # traces) = ?n + interaction_total skip traces"
    by (simp add: interaction_total_def t)
  have "max (log_height v) skip < 64" using Cons.prems(1) t by auto
  moreover have n: "acc + ?n < 2 ^ 64" using Cons.prems(2) tot by linarith
  ultimately have "shl64 (num_interactions vk) (max (log_height v) skip) = (Ok ?n :: (_, 'e) res)"
    by (intro shl64_exact) linarith+
  moreover have "add64 acc ?n = (Ok (acc + ?n) :: (_, 'e) res)" using n by (simp add: add64_def)
  moreover have "acc + ?n + interaction_total skip traces < 2 ^ 64" using Cons.prems(2) tot by linarith
  moreover have "\<forall>(_, _, v) \<in> set traces. max (log_height v) skip < 64" using Cons.prems(1) by simp
  ultimately show ?case using Cons.IH [of "acc + ?n"] by (simp add: t tot [unfolded t] add.assoc)
qed (simp add: interaction_total_def)

lemma interaction_total_dvd: "2 ^ skip dvd interaction_total skip traces"
proof (induction traces)
  case (Cons t traces)
  have "(2::nat) ^ skip dvd num_interactions vk * 2 ^ max (log_height v) skip" for vk :: "('a, 'b) stark_verifying_key" and v :: "'b trace_vdata"
    by (rule dvd_mult) (simp add: le_imp_power_dvd)
  with Cons show ?case by (cases t) (auto simp: interaction_total_def intro!: dvd_add)
qed (simp add: interaction_total_def)

lemma sum_list_sort_key: "sum_list (map f (sort_key k xs)) = (sum_list (map f xs) :: nat)"
proof (induction xs)
  case (Cons x xs)
  have "sum_list (map f (insort_key k x ys)) = f x + sum_list (map f ys)" for ys by (induction ys) simp_all
  with Cons show ?case by simp
qed simp

lemma interaction_total_bound:
  assumes "traces = per_trace mvk pr" and "\<forall>(_, _, v) \<in> set traces. log_height v \<le> log_stacked_height (mvk_params mvk)"
  shows "interaction_total (l_skip (mvk_params mvk)) traces
    \<le> sum_list (map num_interactions (per_air mvk)) * 2 ^ (l_skip (mvk_params mvk) + n_stack (mvk_params mvk))"
proof -
  let ?p = "mvk_params mvk"
  let ?ls = "l_skip ?p + n_stack ?p"
  have "interaction_total (l_skip ?p) traces \<le> sum_list (map (\<lambda>(_, vk, _). num_interactions vk * 2 ^ ?ls) traces)"
    unfolding interaction_total_def
  proof (rule sum_list_mono)
    fix t assume "t \<in> set traces"
    moreover obtain i vk v where t: "t = (i, vk, v)" by (cases t)
    ultimately have "max (log_height v) (l_skip ?p) \<le> ?ls" using assms(2) by (auto simp: log_stacked_height_def)
    then have "(2::nat) ^ max (log_height v) (l_skip ?p) \<le> 2 ^ ?ls" by (rule power_increasing) simp
    with t show "(case t of (_, vk, v) \<Rightarrow> num_interactions vk * 2 ^ max (log_height v) (l_skip ?p))
        \<le> (case t of (_, vk, _) \<Rightarrow> num_interactions vk * 2 ^ ?ls)" by simp
  qed
  also have "\<dots> = sum_list (map (\<lambda>(_, vk, _). num_interactions vk) traces) * 2 ^ ?ls"
    by (induction traces) (auto simp: distrib_right)
  also have "sum_list (map (\<lambda>(_, vk, _). num_interactions vk) traces) \<le> sum_list (map num_interactions (per_air mvk))"
  proof -
    have "sum_list (map (\<lambda>(_, vk, _). num_interactions vk) (List.map_filter
        (\<lambda>(air_idx, vk, vdata). map_option (\<lambda>vdata. (air_idx, vk, vdata)) vdata) (zip is (zip vks vds))))
        \<le> sum_list (map num_interactions vks)" for "is" :: "nat list" and vks :: "('a, 'b) stark_verifying_key list" and vds :: "'b trace_vdata option list"
    proof (induction vks arbitrary: "is" vds)
      case (Cons vk vks)
      show ?case
      proof (cases "is"; cases vds)
        fix i is' vd vds' assume c: "is = i # is'" "vds = vd # vds'"
        from Cons.IH [of is' vds'] show ?thesis by (cases vd) (simp_all add: c map_filter_simps)
      qed (simp_all add: map_filter_simps)
    qed (simp add: map_filter_simps)
    then show ?thesis unfolding assms(1) per_trace_def sum_list_sort_key .
  qed
  finally show ?thesis by simp
qed

lemma trace_interactions:
  assumes "wf_mvk mvk" and "traces = per_trace mvk pr" and "traces_of_key mvk traces"
  shows "count_interactions (l_skip (mvk_params mvk)) traces = (Ok (interaction_total (l_skip (mvk_params mvk)) traces) :: (_, 'e) res)"
    and "calculate_n_logup (l_skip (mvk_params mvk)) (interaction_total (l_skip (mvk_params mvk)) traces)
      = (Ok (bit_length (interaction_total (l_skip (mvk_params mvk)) traces) - l_skip (mvk_params mvk)) :: (_, 'e) res)"
    and "interaction_total (l_skip (mvk_params mvk)) traces = 0 \<or>
      l_skip (mvk_params mvk) < bit_length (interaction_total (l_skip (mvk_params mvk)) traces)"
    and "interaction_total (l_skip (mvk_params mvk)) traces < 2 ^ 64 - 1"
proof -
  let ?p = "mvk_params mvk"
  let ?t = "interaction_total (l_skip ?p) traces"
  have h: "\<forall>(_, _, v) \<in> set traces. log_height v \<le> log_stacked_height ?p"
    using assms(3) by (auto simp: traces_of_key_def)
  have p: "log_stacked_height ?p < 63" "l_skip ?p < 63"
    using assms(1) by (auto simp: wf_mvk_def wf_params_def log_stacked_height_def)
  show small: "?t < 2 ^ 64 - 1"
    using interaction_total_bound [OF assms(2) h] assms(1) by (auto simp: wf_mvk_def)
  have "\<forall>(_, _, v) \<in> set traces. max (log_height v) (l_skip ?p) < 64" using h p by fastforce
  from count_interactions_fold [OF this, of 0] small
  show "count_interactions (l_skip ?p) traces = (Ok ?t :: (_, 'e) res)" by (simp add: count_interactions_def)
  have big: "?t = 0 \<or> 2 ^ l_skip ?p \<le> ?t"
    using interaction_total_dvd [of "l_skip ?p" traces] by (auto dest: dvd_imp_le)
  show "calculate_n_logup (l_skip ?p) ?t = (Ok (bit_length ?t - l_skip ?p) :: (_, 'e) res)"
    by (rule calculate_n_logup_Ok [OF big small])
  show "?t = 0 \<or> l_skip ?p < bit_length ?t"
    using big bit_length_le_iff [of ?t "l_skip ?p"] by auto
qed

section \<open>The whole check decides well-shapedness\<close>

lemma layouts_for_length: "layouts_for p traces layouts \<Longrightarrow> length layouts = length (commit_metas traces)"
  by (auto simp: layouts_for_def dest: arg_cong [of _ _ length])

lemma verify_proof_shape_decides:
  fixes pr :: "('f, 'ef, 'd) stark_proof"
  assumes wf: "wf_mvk mvk" and some: "\<exists>v. Some v \<in> set (proof_trace_vdata pr)"
  shows "(verify_proof_shape mvk pr = Ok layouts \<longleftrightarrow> well_shaped mvk pr layouts) \<and> verify_proof_shape mvk pr \<noteq> Panic"
proof (cases "shaped_vdata mvk pr")
  case False
  then have "check_vdata mvk pr \<noteq> Ok ()" by (simp add: check_vdata_iff)
  then obtain e where "check_vdata mvk pr = Err e" using check_vdata_total [of mvk pr] by (cases "check_vdata mvk pr") auto
  with False show ?thesis by (simp add: verify_proof_shape_def well_shaped_def Let_def)
next
  case True
  let ?p = "mvk_params mvk"
  let ?traces = "per_trace mvk pr"
  let ?t = "interaction_total (l_skip ?p) ?traces"
  let ?stack = "proof_stacking pr"
  note key = per_trace_of_key [OF True some]
  have params: "wf_params ?p" using wf by (simp add: wf_mvk_def)
  note ints = trace_interactions [OF wf refl key]
  have rounds: "(if ?t = 0 then 0 else l_skip ?p + (bit_length ?t - l_skip ?p)) = bit_length ?t"
    using ints(3) by (auto simp: bit_length_def)
  have vdata: "check_vdata mvk pr = Ok ()" using True by (simp add: check_vdata_iff)
  note layouts = proof_layouts_iff [OF params key]
  obtain Ls where Ls: "layouts_for ?p ?traces Ls" using layouts(3) by blast
  then have pl: "proof_layouts ?p ?traces = (Ok Ls :: (_, proof_shape_error) res)" using layouts(1) by blast
  have same: "L = Ls" if "layouts_for ?p ?traces L" for L
  proof -
    from that have "proof_layouts ?p ?traces = (Ok L :: (_, proof_shape_error) res)" using layouts(1) by blast
    with pl show ?thesis by simp
  qed
  let ?gkr = "check_gkr_shape (bit_length ?t) (proof_gkr pr)"
  let ?batch = "check_batch_shape mvk ?traces (proof_batch_constraint pr)"
  let ?rnds = "check_stacking_rounds ?p ?stack"
  let ?open = "check_stack_openings ?p Ls ?stack"
  let ?whir = "check_whir_shape ?p (length Ls) (stacking_openings ?stack) (proof_whir pr)"
  have run: "verify_proof_shape mvk pr =
      rbind (map_err InvalidGkrProofShape ?gkr) (\<lambda>_.
      rbind (map_err InvalidBatchConstraintProofShape ?batch) (\<lambda>_.
      rbind (map_err InvalidStackingProofShape ?rnds) (\<lambda>_.
      rbind (map_err InvalidStackingProofShape ?open) (\<lambda>_.
      rbind (map_err InvalidWhirProofShape ?whir) (\<lambda>_. Ok Ls)))))"
    unfolding verify_proof_shape_def Let_def vdata map_err.simps rbind.simps ints(1,2) rounds pl ..
  note batch = check_batch_shape_iff [OF wf key, of "proof_batch_constraint pr"]
  note stack = check_stacking_iff [OF params]
  have whir: "(?whir = Ok () \<longleftrightarrow> shaped_whir ?p (stacking_openings ?stack) (proof_whir pr)) \<and> ?whir \<noteq> Panic"
    if "?open = Ok ()"
  proof -
    from that have "length Ls = length (stacking_openings ?stack)"
      by (auto simp: check_stack_openings_def Let_def rbind_Ok_iff)
    with check_whir_shape_iff [OF params, of "stacking_openings ?stack" "proof_whir pr"] show ?thesis by simp
  qed
  have "verify_proof_shape mvk pr = Ok layouts \<longleftrightarrow>
      ?gkr = Ok () \<and> ?batch = Ok () \<and> ?rnds = Ok () \<and> ?open = Ok () \<and> ?whir = Ok () \<and> layouts = Ls"
    unfolding run rbind_Ok_iff map_err_Ok_iff by auto
  also have "\<dots> \<longleftrightarrow> well_shaped mvk pr layouts"
    unfolding well_shaped_def Let_def check_gkr_shape_iff batch(1)
    using True Ls same whir stack(1) by blast
  finally have "verify_proof_shape mvk pr = Ok layouts \<longleftrightarrow> well_shaped mvk pr layouts" .
  moreover have "verify_proof_shape mvk pr \<noteq> Panic"
    unfolding run using check_gkr_shape_total batch(2) stack(2,3) whir
    by (intro rbind_total) (simp_all add: map_err_Panic_iff map_err_Ok_iff)
  ultimately show ?thesis by blast
qed

section \<open>An example\<close>

text \<open>The key of the sample AIR, and a proof of the right shape for a trace of height 8.\<close>

definition sample_vk :: "(f17, f17 list) stark_verifying_key" where
  "sample_vk = \<lparr>preprocessed_data = None,
     vk_params = \<lparr>vp_width = \<lparr>tw_preprocessed = None, tw_cached_mains = [], tw_common_main = 2\<rparr>, num_public_values = 0, need_rot = True\<rparr>,
     vk_constraints = \<lparr>dag_constraints = \<lparr>dag_nodes = [VariableNode (SymbolicVariable (Main 0 1) 0), VariableNode (SymbolicVariable (Main 0 0) 1),
         MulNode 0 1 2, IsTransitionNode], constraint_idx = [2]\<rparr>,
       dag_interactions = [\<lparr>message = [1], count = 3, bus_index = 5, count_weight = 2\<rparr>]\<rparr>,
     vk_max_constraint_degree = 2, is_required = True,
     unused_variables = [SymbolicVariable (Main 0 0) 0, SymbolicVariable (Main 0 1) 1]\<rparr>"

definition sample_mvk :: "(f17, f17 list) multi_stark_vk0" where
  "sample_mvk = \<lparr>mvk_params = sample_params, per_air = [sample_vk],
     trace_height_constraints = [\<lparr>coefficients = [2], threshold = 17\<rparr>]\<rparr>"

definition sample_proof :: "(f17, f17, f17 list) stark_proof" where
  "sample_proof = \<lparr>common_main_commit = [3], proof_trace_vdata = [Some \<lparr>log_height = 3, cached_commitments = []\<rparr>],
     proof_public_values = [[]],
     proof_gkr = \<lparr>logup_pow_witness = 0, q0_claim = 1,
       claims_per_layer = replicate 4 \<lparr>p_xi_0 = 0, p_xi_1 = 0, q_xi_0 = 1, q_xi_1 = 1\<rparr>,
       sumcheck_polys = [[(0, 0, 0)], [(0, 0, 0), (0, 0, 0)], [(0, 0, 0), (0, 0, 0), (0, 0, 0)]]\<rparr>,
     proof_batch_constraint = \<lparr>numerator_term_per_air = [0], denominator_term_per_air = [0],
       batch_univariate_round_coeffs = replicate 13 0, batch_sumcheck_round_polys = [[0, 0, 0, 0]],
       column_openings = [[[1, 2, 3, 4]]]\<rparr>,
     proof_stacking = \<lparr>stacking_univariate_round_coeffs = replicate 7 0, stacking_sumcheck_round_polys = [(0, 0), (0, 0)],
       stacking_openings = [[5]]\<rparr>,
     proof_whir = \<lparr>mu_pow_witness = 0, whir_sumcheck_polys = [(0, 0)], codeword_commits = [], ood_values = [],
       folding_pow_witnesses = [0], query_phase_pow_witnesses = [0],
       initial_round_opened_rows = [[[[1], [2]]]], initial_round_merkle_proofs = [[[[1], [2], [3], [4]]]],
       codeword_opened_values = [], codeword_merkle_proofs = [], final_poly = replicate 8 0\<rparr>\<rparr>"

lemma wf_sample_params: "wf_params sample_params"
  by (simp add: wf_params_def sample_params_def k_whir_def num_whir_rounds_def num_whir_sumcheck_rounds_def log_stacked_height_def)

lemma wf_sample_key: "wf_key sample_vk"
  by (auto simp: wf_key_def sample_vk_def main_width_def wf_dag_def wf_var_def opened_cell_def main_widths_def
      interaction_in_range_def topological_def less_Suc_eq nth_Cons')

lemma wf_sample_mvk: "wf_mvk sample_mvk"
  using wf_sample_params wf_sample_key
  by (simp add: wf_mvk_def sample_mvk_def sample_vk_def num_interactions_def sample_params_def)

lemma sample_has_trace: "\<exists>v. Some v \<in> set (proof_trace_vdata sample_proof)"
  by (simp add: sample_proof_def)

lemma sample_shape: "\<exists>layouts. verify_proof_shape sample_mvk sample_proof = Ok layouts"
proof -
  have traces: "per_trace sample_mvk sample_proof = [(0, sample_vk, \<lparr>log_height = 3, cached_commitments = []\<rparr>)]"
    by (simp add: per_trace_def sample_mvk_def sample_proof_def map_filter_simps)
  have "log2_floor 8 = 3" using log2_floor_power [of 3] by simp
  then have "interaction_total 2 (per_trace sample_mvk sample_proof) = 8" and "bit_length 8 = 4"
    unfolding traces by (simp_all add: interaction_total_def sample_vk_def num_interactions_def bit_length_def)
  moreover have "l_skip (mvk_params sample_mvk) = 2" by (simp add: sample_mvk_def sample_params_def)
  ultimately have gkr: "shaped_gkr (bit_length (interaction_total (l_skip (mvk_params sample_mvk)) (per_trace sample_mvk sample_proof)))
      (proof_gkr sample_proof)"
    by (simp add: shaped_gkr_def sample_proof_def upt_rec)
  have vdata: "shaped_vdata sample_mvk sample_proof"
    by (simp add: shaped_vdata_def sample_mvk_def sample_proof_def sample_vk_def num_cached_mains_def sample_params_def log_stacked_height_def)
  have batch: "shaped_batch (mvk_params sample_mvk) (per_trace sample_mvk sample_proof) (proof_batch_constraint sample_proof)"
    unfolding traces
    by (simp add: shaped_batch_def sample_mvk_def sample_proof_def sample_params_def shaped_parts_def sample_vk_def other_widths_def rot_factor_def)
  have whir: "shaped_whir (mvk_params sample_mvk) (stacking_openings (proof_stacking sample_proof)) (proof_whir sample_proof)"
    by (simp add: shaped_whir_def sample_mvk_def sample_proof_def sample_params_def k_whir_def num_whir_rounds_def
        num_whir_sumcheck_rounds_def log_stacked_height_def)
  have metas: "commit_metas (per_trace sample_mvk sample_proof) = [[(2, 3)]]"
    unfolding traces by (simp add: commit_metas_def common_main_metas_def other_metas_def sample_vk_def)
  have "wf_metas 2 4 [(2, 3)]" by (simp add: wf_metas_def)
  from layout_new_closed [OF this] obtain L where L: "stacked_layout_new 2 4 [(2, 3)] = Ok L" "layout_width L = 1"
    by (auto simp: all_columns_def mat_columns_def lifted_len_def div_ceil_def upt_rec)
  have "layouts_for (mvk_params sample_mvk) (per_trace sample_mvk sample_proof) [L]"
    unfolding layouts_for_def metas using L by (simp add: sample_mvk_def sample_params_def log_stacked_height_def)
  moreover have "shaped_stacking (mvk_params sample_mvk) [L] (proof_stacking sample_proof)"
    using L by (simp add: shaped_stacking_def sample_mvk_def sample_params_def sample_proof_def)
  ultimately have "well_shaped sample_mvk sample_proof [L]"
    using gkr vdata batch whir by (simp add: well_shaped_def)
  with verify_proof_shape_decides [OF wf_sample_mvk sample_has_trace] show ?thesis by blast
qed

section \<open>Properties\<close>

text \<open>C11. The shape check accepts exactly the well-shaped proofs: for a well-formed key and a proof with at
  least one trace, it returns layouts if and only if every length in the proof is the one that
  the key and the trace heights prescribe, and the layouts are those of the prescribed
  commitments, in order.\<close>
theorem shape_check_exact:
  assumes "wf_mvk mvk" and "\<exists>v. Some v \<in> set (proof_trace_vdata pr)"
  shows "verify_proof_shape mvk pr = Ok layouts \<longleftrightarrow> well_shaped mvk pr layouts"
  using verify_proof_shape_decides [OF assms] by blast

theorem shape_check_exact_witness:
  "\<exists>layouts. verify_proof_shape sample_mvk sample_proof = Ok layouts \<and> well_shaped sample_mvk sample_proof layouts"
proof -
  from sample_shape obtain layouts where "verify_proof_shape sample_mvk sample_proof = Ok layouts" ..
  with shape_check_exact [OF wf_sample_mvk sample_has_trace, of layouts] show ?thesis by blast
qed

text \<open>C31. The shape check itself cannot panic, whatever the proof is: none of its index operations,
  subtractions, shifts and sums fails, and no \<open>unwrap\<close> of a layout does.\<close>
theorem shape_check_never_panics:
  assumes "wf_mvk mvk" and "\<exists>v. Some v \<in> set (proof_trace_vdata pr)"
  shows "verify_proof_shape mvk pr \<noteq> Panic"
  using verify_proof_shape_decides [OF assms] by blast

theorem shape_check_never_panics_witness:
  "verify_proof_shape sample_mvk sample_proof \<noteq> Panic"
  by (rule shape_check_never_panics [OF wf_sample_mvk sample_has_trace])

end
