(* ===== verification/BatchConstraints.thy ===== *)
theory BatchConstraints
  imports GkrVerifier Evaluator ProofShape
begin

text \<open>
  The batched zerocheck and LogUp verifier (\<open>verifier/batch_constraints.rs\<close>): the GKR claims
  are reduced, by a univariate and then multilinear sumcheck rounds, to the constraint and
  interaction expressions at one point, which the verifier evaluates from the openings.
  \<open>ids\<close> and \<open>ns\<close> are \<open>trace_id_to_air_id\<close> and \<open>n_per_trace\<close>; the transcript is threaded.
\<close>

datatype 'ef batch_error =
    InvalidLogupPowWitness
  | GkrVerificationFailed "'ef gkr_error"
  | GkrNumeratorMismatch 'ef
  | GkrDenominatorMismatch 'ef
  | SumClaimMismatch 'ef 'ef
  | InconsistentClaims

text \<open>\<open>n.max(0) as usize\<close>.\<close>

definition lift_n :: "int \<Rightarrow> nat" where
  "lift_n n = nat (max n 0)"

section \<open>The GKR claims\<close>

definition total_interactions ::
  "('f, 'd) multi_stark_vk0 \<Rightarrow> nat list \<Rightarrow> int list \<Rightarrow> (nat, 'e) res" where
  "total_interactions mvk ids ns = rfold (\<lambda>(air_idx, n) acc.
     rbind (index (per_air mvk) air_idx) (\<lambda>vk.
     rbind (shl64 (num_interactions vk) (l_skip (mvk_params mvk) + lift_n n)) (add64 acc))) (zip ids ns) 0"

definition gkr_claims ::
  "('ts, 'f, 'd) transcript_ops \<Rightarrow> ('f, 'ef::field) field_ops \<Rightarrow> ('f, 'ef) gkr_proof \<Rightarrow> nat \<Rightarrow> nat \<Rightarrow> 'ef
     \<Rightarrow> ('ef \<times> 'ef \<times> 'ef list, 'ts, 'ef batch_error) vm" where
  "gkr_claims T K gkr tot rounds alpha_logup =
     (if 0 < tot then
        vbind (vmap_err GkrVerificationFailed (verify_gkr T K gkr rounds)) (\<lambda>(p_xi_claim, q_xi_claim, xi).
        vbind (vassert (length xi = rounds)) (\<lambda>_. vret (p_xi_claim, q_xi_claim, xi)))
      else
        vbind (vcheck (q0_claim gkr = 1) (GkrVerificationFailed (InvalidZeroRoundValue (q0_claim gkr)))) (\<lambda>_.
        vret (0, alpha_logup, [])))"

text \<open>
  \<open>while xi.len() != l_skip + n_global\<close>: the loop pushes one sample per missing coordinate
  (\<open>xi\<close> is never longer: it is empty or has \<open>l_skip + n_logup\<close> coordinates).
\<close>

definition extend_xi ::
  "('ts, 'f, 'd) transcript_ops \<Rightarrow> ('f, 'ef) field_ops \<Rightarrow> nat \<Rightarrow> 'ef list \<Rightarrow> ('ef list, 'ts, 'e) vm" where
  "extend_xi T K len xi =
     vfor (\<lambda>_ xi. vbind (v_sample_ext T K) (\<lambda>x. vret (xi @ [x]))) [length xi..<len] xi"

definition subtract_terms ::
  "('ts, 'f, 'd) transcript_ops \<Rightarrow> ('f, 'ef::field) field_ops \<Rightarrow> 'ef list \<Rightarrow> 'ef list \<Rightarrow> 'ef \<times> 'ef \<Rightarrow> ('ef \<times> 'ef, 'ts, 'e) vm" where
  "subtract_terms T K numerators denominators =
     vfor (\<lambda>(sum_claim_p, sum_claim_q) (p_xi_claim, q_xi_claim).
       vbind (v_observe_ext T K sum_claim_p) (\<lambda>_.
       vbind (v_observe_ext T K sum_claim_q) (\<lambda>_.
       vret (p_xi_claim - sum_claim_p, q_xi_claim - sum_claim_q)))) (zip numerators denominators)"

definition mu_hash :: "'ef::field \<Rightarrow> 'ef list \<Rightarrow> 'ef list \<Rightarrow> 'ef" where
  "mu_hash mu numerators denominators =
     fst (fold (\<lambda>(sum_claim_p, sum_claim_q) (sum_claim, cur_mu_pow).
       (sum_claim + sum_claim_p * cur_mu_pow + sum_claim_q * (cur_mu_pow * mu), cur_mu_pow * mu * mu))
       (zip numerators denominators) (0, 1))"

section \<open>The sumcheck rounds\<close>

text \<open>The sum of the univariate polynomial over the skip domain, from its coefficients.\<close>

definition sum_univ_domain :: "nat \<Rightarrow> 'ef::field list \<Rightarrow> ('ef, 'e) res" where
  "sum_univ_domain skip coeffs =
     rbind (shl64 1 skip) (\<lambda>n. Ok (sum_list (step_by n coeffs) * of_nat n))"

definition univariate_round ::
  "('ts, 'f, 'd) transcript_ops \<Rightarrow> ('f, 'ef::field) field_ops \<Rightarrow> system_params \<Rightarrow> 'ef list \<Rightarrow> 'ef
     \<Rightarrow> ('ef \<times> 'ef, 'ts, 'ef batch_error) vm" where
  "univariate_round T K p coeffs sum_claim =
     vbind (vdo_all (v_observe_ext T K) coeffs) (\<lambda>_.
     vbind (v_sample_ext T K) (\<lambda>r_0.
     vbind (vlift (univariate_degree (max_constraint_degree p + 1) (l_skip p))) (\<lambda>s_0_deg.
     vbind (vassert (length coeffs = s_0_deg + 1)) (\<lambda>_.
     vbind (vlift (sum_univ_domain (l_skip p) coeffs)) (\<lambda>sum_univ_domain_s_0.
     vbind (vcheck (sum_claim = sum_univ_domain_s_0) (SumClaimMismatch sum_claim sum_univ_domain_s_0)) (\<lambda>_.
     vret (r_0, horner_eval coeffs r_0)))))))"

text \<open>A vector of \<open>n + 1\<close> running products: entry \<open>i + 1\<close> is entry \<open>i\<close> times \<open>g i\<close>.\<close>

definition running_products :: "(nat \<Rightarrow> 'a::field) \<Rightarrow> nat \<Rightarrow> 'a list" where
  "running_products g n = fold (\<lambda>i ps. ps @ [last ps * g i]) [0..<n] [1]"

definition interpolate_at_integers ::
  "('f::field, 'ef::field) field_ext \<Rightarrow> nat \<Rightarrow> 'ef list \<Rightarrow> 'ef \<Rightarrow> ('ef, 'e) res" where
  "interpolate_at_integers X s_deg batch_s_evals r =
     (let factorials = running_products (\<lambda>i. of_nat (i + 1) :: 'f) s_deg in
      rbind (rmap checked_inverse factorials) (\<lambda>invfact.
      let pref_product = running_products (\<lambda>i. r - of_nat i) s_deg;
          suf_product = running_products (\<lambda>i. of_nat (s_deg - i) - r) s_deg in
      rbind (rmap (\<lambda>i. rbind (index batch_s_evals i) (\<lambda>e.
         Ok (e * pref_product ! i * suf_product ! (s_deg - i) * fe_embed X (invfact ! i)
               * fe_embed X (invfact ! (s_deg - i))))) [0..<s_deg + 1]) (\<lambda>terms.
      Ok (sum_list terms))))"

definition sumcheck_round ::
  "('ts, 'f, 'd) transcript_ops \<Rightarrow> ('f::field, 'ef::field) field_ext \<Rightarrow> nat \<Rightarrow> 'ef list list \<Rightarrow> nat
     \<Rightarrow> 'ef \<times> 'ef list \<Rightarrow> ('ef \<times> 'ef list, 'ts, 'e) vm" where
  "sumcheck_round T X s_deg polys rnd = (\<lambda>(cur_sum, rs).
     vbind (vlift (index polys rnd)) (\<lambda>batch_s_evals.
     vbind (vdo_all (v_observe_ext T (fe_ops X)) batch_s_evals) (\<lambda>_.
     vbind (vlift (index batch_s_evals 0)) (\<lambda>s_1.
     vbind (v_sample_ext T (fe_ops X)) (\<lambda>r.
     vbind (vlift (interpolate_at_integers X s_deg ((cur_sum - s_1) # batch_s_evals) r)) (\<lambda>cur_sum.
     vret (cur_sum, rs @ [r])))))))"

section \<open>The weights of the interactions and of the constraints\<close>

text \<open>\<open>usize::trailing_zeros\<close>\<close>

function trailing_zeros :: "nat \<Rightarrow> nat" where
  "trailing_zeros n = (if n = 0 then 64 else if odd n then 0 else Suc (trailing_zeros (n div 2)))"
  by auto
termination by (relation "measure id") auto

declare trailing_zeros.simps [simp del]

definition eq_3b_interaction ::
  "('f::field, 'ef::field) field_ext \<Rightarrow> nat \<Rightarrow> nat \<Rightarrow> 'ef list \<Rightarrow> nat \<Rightarrow> nat \<times> 'ef list \<Rightarrow> (nat \<times> 'ef list, 'e) res" where
  "eq_3b_interaction X skip n_logup xi n_lift = (\<lambda>(stacked_idx, acc).
     rbind (shl64 1 (skip + n_logup)) (\<lambda>total.
     rbind (assert_that (stacked_idx < total)) (\<lambda>_.
     rbind (assert_that (skip + n_lift \<le> trailing_zeros stacked_idx)) (\<lambda>_.
     rbind (assert_that (skip + n_lift < 64)) (\<lambda>_.
     let b_int = stacked_idx div 2 ^ (skip + n_lift);
         b_vec = map (\<lambda>j. fe_embed X (of_bool (odd (b_int div 2 ^ j)))) [0..<n_logup - n_lift] in
     rbind (shl64 1 (skip + n_lift)) (\<lambda>step.
     rbind (add64 stacked_idx step) (\<lambda>stacked_idx.
     rbind (slice xi (skip + n_lift) (skip + n_logup)) (\<lambda>xi_slice.
     rbind (eval_eq_mle xi_slice b_vec) (\<lambda>eq.
     Ok (stacked_idx, acc @ [eq]))))))))))"

definition eq_3b_trace ::
  "('f::field, 'ef::field) field_ext \<Rightarrow> ('f, 'd) multi_stark_vk0 \<Rightarrow> nat list \<Rightarrow> nat \<Rightarrow> 'ef list \<Rightarrow> nat \<times> int
     \<Rightarrow> nat \<times> 'ef list list \<Rightarrow> (nat \<times> 'ef list list, 'e) res" where
  "eq_3b_trace X mvk ids n_logup xi = (\<lambda>(trace_idx, n) (stacked_idx, acc).
     rbind (index ids trace_idx) (\<lambda>air_idx.
     rbind (index (per_air mvk) air_idx) (\<lambda>vk.
     if num_interactions vk = 0 then Ok (stacked_idx, acc @ [[]])
     else rbind (sub64 n_logup (lift_n n)) (\<lambda>_.
       rbind (rfold (\<lambda>_. eq_3b_interaction X (l_skip (mvk_params mvk)) n_logup xi (lift_n n))
                [0..<num_interactions vk] (stacked_idx, [])) (\<lambda>(stacked_idx, eqs).
       Ok (stacked_idx, acc @ [eqs]))))))"

definition eq_3b_per_trace ::
  "('f::field, 'ef::field) field_ext \<Rightarrow> ('f, 'd) multi_stark_vk0 \<Rightarrow> nat list \<Rightarrow> int list \<Rightarrow> nat \<Rightarrow> 'ef list
     \<Rightarrow> ('ef list list, 'e) res" where
  "eq_3b_per_trace X mvk ids ns n_logup xi =
     rbind (rfold (eq_3b_trace X mvk ids n_logup xi) (enumerated ns) (0, [])) (\<lambda>(_, eqs). Ok eqs)"

text \<open>\<open>eq_ns\<close> and \<open>eq_sharp_ns\<close>: first the running products, then the factors of the later coordinates.\<close>

definition eq_ns_step ::
  "nat \<Rightarrow> 'ef::field list \<Rightarrow> nat \<times> 'ef \<Rightarrow> 'ef list \<times> 'ef list \<Rightarrow> ('ef list \<times> 'ef list, 'e) res" where
  "eq_ns_step skip xi = (\<lambda>(i, r) (eq_ns, eq_sharp_ns).
     rbind (index xi (skip + i - 1)) (\<lambda>x.
     rbind (eval_eq_mle [x] [r]) (\<lambda>eq_mle.
     Ok (eq_ns @ [last eq_ns * eq_mle], eq_sharp_ns @ [last eq_sharp_ns * eq_mle]))))"

definition scale_by_later :: "'ef::field list \<Rightarrow> 'ef list \<Rightarrow> 'ef list" where
  "scale_by_later rs es =
     fst (fold (\<lambda>i (es, r_rev_prod). (es[i := es ! i * r_rev_prod], r_rev_prod * rs ! i))
       (rev [0..<length rs - 1]) (es, rs ! (length rs - 1)))"

definition eq_ns ::
  "('f::field, 'ef::field) field_ext \<Rightarrow> nat \<Rightarrow> 'f list \<Rightarrow> 'ef list \<Rightarrow> 'ef list \<Rightarrow> nat \<Rightarrow> ('ef list \<times> 'ef list, 'e) res" where
  "eq_ns X skip omega_skip_pows xi rs n_max =
     rbind (index rs 0) (\<lambda>r_0.
     rbind (index xi 0) (\<lambda>xi_0.
     rbind (slice xi 0 skip) (\<lambda>xi_skip.
     rbind (eval_eq_sharp_uni (map (fe_embed X) omega_skip_pows) xi_skip r_0) (\<lambda>eq_sharp.
     rbind (assert_that (length rs = n_max + 1)) (\<lambda>_.
     rbind (rfold (eq_ns_step skip xi) (drop 1 (enumerated rs)) ([eval_eq_uni skip xi_0 r_0], [eq_sharp])) (\<lambda>(es, sharps).
     Ok (scale_by_later rs es, scale_by_later rs sharps)))))))"

section \<open>The expressions of one trace at the opening point\<close>

text \<open>The point, the domain and the normalisation of a trace of height below \<open>2 ^ l_skip\<close> differ.\<close>

definition trace_point :: "nat \<Rightarrow> 'ef::field list \<Rightarrow> int \<Rightarrow> (nat \<times> 'ef list \<times> 'f::field, 'e) res" where
  "trace_point skip rs n =
     (if n < 0 then
        rbind (index rs 0) (\<lambda>r0.
        rbind (shl64 1 (nat \<bar>n\<bar>)) (\<lambda>m.
        rbind (checked_inverse (of_nat m)) (\<lambda>norm_factor.
        Ok (nat ((int skip + n) mod 2 ^ 64), [r0 ^ 2 ^ nat (- n)], norm_factor))))
      else rbind (slice rs 0 (nat n + 1)) (\<lambda>rs_n. Ok (skip, rs_n, 1)))"

definition trace_views ::
  "('f, 'd) stark_verifying_key \<Rightarrow> 'ef::field list list \<Rightarrow> ('ef view_pair option \<times> 'ef view_pair list, 'e) res" where
  "trace_views vk air_openings =
     (let rot = need_rot (vk_params vk); has_preprocessed = (preprocessed_data vk \<noteq> None) in
      rbind (index air_openings 0) (\<lambda>main.
      let common_main = column_openings_by_rot main rot in
      rbind (if has_preprocessed then rbind (index air_openings 1) (\<lambda>prep. Ok (Some (column_openings_by_rot prep rot)))
             else Ok None) (\<lambda>preprocessed.
      let cached_idx = 1 + of_bool has_preprocessed in
      rbind (slice air_openings cached_idx (length air_openings)) (\<lambda>cached.
      Ok (preprocessed, map (\<lambda>claims. column_openings_by_rot claims rot) cached @ [common_main])))))"

definition eval_num_denom ::
  "('f::field, 'ef::field) symbolic_evaluator \<Rightarrow> 'ef \<Rightarrow> 'f symbolic_expression interaction \<Rightarrow> ('ef \<times> 'ef, 'e) res" where
  "eval_num_denom ev beta_logup i =
     rbind (eval_expr ev (count i)) (\<lambda>num.
     rbind (rmap (eval_expr ev) (message i)) (\<lambda>vals.
     Ok (num, fold (\<lambda>(k, x) acc. acc + x * beta_logup ^ k)
                (enumerated (vals @ [of_nat (bus_index i) + 1])) 0)))"

text \<open>The constraints of a trace folded with \<open>lambda\<close>, and its interactions weighted by \<open>eq_3b\<close>.\<close>

definition eval_constraints ::
  "('f::field, 'ef::field) symbolic_evaluator \<Rightarrow> 'ef \<Rightarrow> 'f symbolic_expression_dag \<Rightarrow> ('ef, 'e) res" where
  "eval_constraints ev lambda dag =
     rbind (eval_nodes ev (dag_nodes dag)) (\<lambda>nodes.
     rbind (rmap (\<lambda>(k, idx). rbind (index nodes idx) (\<lambda>v. Ok (v * lambda ^ k))) (enumerated (constraint_idx dag))) (\<lambda>terms.
     Ok (sum_list terms)))"

definition eval_interactions ::
  "('f::field, 'ef::field) symbolic_evaluator \<Rightarrow> 'ef \<Rightarrow> 'f symbolic_constraints_dag \<Rightarrow> 'ef list \<Rightarrow> ('ef \<times> 'ef, 'e) res" where
  "eval_interactions ev beta_logup dag eq_3bs =
     rbind (symbolic_constraints_of dag) (\<lambda>sc.
     rbind (rmap (eval_num_denom ev beta_logup) (sc_interactions sc)) (\<lambda>evals.
     rbind (assert_that (length eq_3bs = length evals)) (\<lambda>_.
     Ok (fold (\<lambda>(eq_3b, n, d) (num, denom). (num + eq_3b * n, denom + eq_3b * d)) (zip eq_3bs evals) (0, 0)))))"

definition eval_trace ::
  "('f::field, 'ef::field) field_ext \<Rightarrow> ('f, 'd) multi_stark_vk0 \<Rightarrow> 'f list list \<Rightarrow> 'ef \<Rightarrow> 'ef \<Rightarrow> 'ef list
     \<Rightarrow> 'ef list list \<Rightarrow> 'ef list \<times> 'ef list \<Rightarrow> nat \<Rightarrow> nat \<Rightarrow> int \<Rightarrow> 'ef list list \<Rightarrow> ('ef \<times> 'ef \<times> 'ef, 'e) res" where
  "eval_trace X mvk public_values lambda beta_logup rs eq_3bs = (\<lambda>(eqs, sharps) trace_idx air_idx n air_openings.
     rbind (index (per_air mvk) air_idx) (\<lambda>vk.
     rbind (trace_views vk air_openings) (\<lambda>(preprocessed, partitioned_main).
     rbind (trace_point (l_skip (mvk_params mvk)) rs n) (\<lambda>(l, rs_n, norm_factor).
     rbind (index public_values air_idx) (\<lambda>pvs.
     rbind (evaluator_new X preprocessed partitioned_main pvs rs_n l) (\<lambda>ce.
     let ev = evaluator_of X ce in
     rbind (eval_constraints ev lambda (dag_constraints (vk_constraints vk))) (\<lambda>expr.
     rbind (index eqs (lift_n n)) (\<lambda>eq_xi_r.
     rbind (index eq_3bs trace_idx) (\<lambda>eq_3b.
     rbind (eval_interactions ev beta_logup (vk_constraints vk) eq_3b) (\<lambda>(num, denom).
     rbind (index sharps (lift_n n)) (\<lambda>sharp.
     Ok (num * fe_embed X norm_factor * sharp, denom * sharp, eq_xi_r * expr))))))))))))"

definition observe_pairs ::
  "('ts, 'f, 'd) transcript_ops \<Rightarrow> ('f, 'ef::field) field_ops \<Rightarrow> 'ef list \<Rightarrow> bool \<Rightarrow> (unit, 'ts, 'e) vm" where
  "observe_pairs T K claims rot =
     vdo_all (\<lambda>(claim, claim_rot). vbind (v_observe_ext T K claim) (\<lambda>_. v_observe_ext T K claim_rot))
       (column_openings_by_rot claims rot)"

definition observe_common_main ::
  "('ts, 'f, 'd) transcript_ops \<Rightarrow> ('f, 'ef::field) field_ops \<Rightarrow> bool list \<Rightarrow> 'ef list list list \<Rightarrow> (unit, 'ts, 'e) vm" where
  "observe_common_main T K need_rots openings =
     vdo_all (\<lambda>(trace_idx, air_openings).
       vbind (vlift (index need_rots trace_idx)) (\<lambda>rot.
       vbind (vlift (index air_openings 0)) (\<lambda>main. observe_pairs T K main rot))) (enumerated openings)"

definition trace_round ::
  "('ts, 'f, 'd) transcript_ops \<Rightarrow> ('f::field, 'ef::field) field_ext \<Rightarrow> nat list \<Rightarrow> int list \<Rightarrow> bool list
     \<Rightarrow> (nat \<Rightarrow> nat \<Rightarrow> int \<Rightarrow> 'ef list list \<Rightarrow> ('ef \<times> 'ef \<times> 'ef, 'e) res) \<Rightarrow> nat \<times> 'ef list list
     \<Rightarrow> 'ef list \<times> 'ef list \<Rightarrow> ('ef list \<times> 'ef list, 'ts, 'e) vm" where
  "trace_round T X ids ns need_rots evaluate = (\<lambda>(trace_idx, air_openings) (interactions_evals, constraints_evals).
     vbind (vlift (index ids trace_idx)) (\<lambda>air_idx.
     vbind (vlift (index ns trace_idx)) (\<lambda>n.
     vbind (vlift (index need_rots trace_idx)) (\<lambda>rot.
     vbind (vdo_all (\<lambda>claims. observe_pairs T (fe_ops X) claims rot) (drop 1 air_openings)) (\<lambda>_.
     vbind (vlift (evaluate trace_idx air_idx n air_openings)) (\<lambda>(num, denom, constraint).
     vret (interactions_evals @ [num, denom], constraints_evals @ [constraint])))))))"

section \<open>The whole verifier\<close>

text \<open>Steps 7 to 9: the claims of the sumcheck are compared with the expressions at the point \<open>rs\<close>.\<close>

definition final_evaluation ::
  "('ts, 'f, 'd) transcript_ops \<Rightarrow> ('f::field, 'ef::field) field_ext \<Rightarrow> ('f, 'd) multi_stark_vk0 \<Rightarrow> 'f list list
     \<Rightarrow> 'ef batch_constraint_proof \<Rightarrow> nat list \<Rightarrow> int list \<Rightarrow> 'f list \<Rightarrow> nat \<Rightarrow> nat \<Rightarrow> 'ef list \<Rightarrow> 'ef list
     \<Rightarrow> 'ef \<Rightarrow> 'ef \<Rightarrow> 'ef \<Rightarrow> 'ef \<Rightarrow> ('ef list, 'ts, 'ef batch_error) vm" where
  "final_evaluation T X mvk public_values bp ids ns omega_skip_pows n_logup n_max xi rs lambda beta_logup mu cur_sum =
     vbind (vlift (eq_3b_per_trace X mvk ids ns n_logup xi)) (\<lambda>eq_3bs.
     vbind (vlift (eq_ns X (l_skip (mvk_params mvk)) omega_skip_pows xi rs n_max)) (\<lambda>eqs.
     vbind (vlift (rmap (\<lambda>air_idx. rbind (index (per_air mvk) air_idx) (\<lambda>vk. Ok (need_rot (vk_params vk)))) ids)) (\<lambda>need_rots.
     vbind (observe_common_main T (fe_ops X) need_rots (column_openings bp)) (\<lambda>_.
     vbind (vfor (trace_round T X ids ns need_rots (eval_trace X mvk public_values lambda beta_logup rs eq_3bs eqs))
              (enumerated (column_openings bp)) ([], [])) (\<lambda>(interactions_evals, constraints_evals).
     vbind (vcheck (cur_sum = sum_list (map (\<lambda>(k, x). x * mu ^ k) (enumerated (interactions_evals @ constraints_evals))))
              InconsistentClaims) (\<lambda>_.
     vret rs))))))"

definition verify_zerocheck_and_logup ::
  "('ts, 'f, 'd) transcript_ops \<Rightarrow> ('f::field, 'ef::field) field_ext \<Rightarrow> ('f, 'd) multi_stark_vk0 \<Rightarrow> 'f list list
     \<Rightarrow> ('f, 'ef) gkr_proof \<Rightarrow> 'ef batch_constraint_proof \<Rightarrow> nat list \<Rightarrow> int list \<Rightarrow> 'f list
     \<Rightarrow> ('ef list, 'ts, 'ef batch_error) vm" where
  "verify_zerocheck_and_logup T X mvk public_values gkr bp ids ns omega_skip_pows =
     (let K = fe_ops X; p = mvk_params mvk; skip = l_skip p;
          numerators = numerator_term_per_air bp; denominators = denominator_term_per_air bp in
      vbind (v_check_witness T K (logup_pow_bits (logup p)) (logup_pow_witness gkr)) (\<lambda>ok.
      vbind (vcheck ok InvalidLogupPowWitness) (\<lambda>_.
      vbind (v_sample_ext T K) (\<lambda>alpha_logup.
      vbind (v_sample_ext T K) (\<lambda>beta_logup.
      vbind (vlift (total_interactions mvk ids ns)) (\<lambda>tot.
      vbind (vlift (calculate_n_logup skip tot)) (\<lambda>n_logup.
      vbind (gkr_claims T K gkr tot (skip + n_logup) alpha_logup) (\<lambda>(p_xi_claim, q_xi_claim, xi).
      vbind (vassert (ns \<noteq> [])) (\<lambda>_.
      let n_max = lift_n (Max (set ns)); n_global = max n_max n_logup in
      vbind (extend_xi T K (skip + n_global) xi) (\<lambda>xi.
      vbind (v_sample_ext T K) (\<lambda>lambda.
      vbind (subtract_terms T K numerators denominators (p_xi_claim, q_xi_claim)) (\<lambda>(p_xi_claim, q_xi_claim).
      vbind (vcheck (p_xi_claim = 0) (GkrNumeratorMismatch p_xi_claim)) (\<lambda>_.
      vbind (vcheck (q_xi_claim = alpha_logup) (GkrDenominatorMismatch q_xi_claim)) (\<lambda>_.
      vbind (v_sample_ext T K) (\<lambda>mu.
      vbind (univariate_round T K p (batch_univariate_round_coeffs bp) (mu_hash mu numerators denominators)) (\<lambda>(r_0, cur_sum).
      vbind (vfor (sumcheck_round T X (max_constraint_degree p + 1) (batch_sumcheck_round_polys bp)) [0..<n_max]
               (cur_sum, [r_0])) (\<lambda>(cur_sum, rs).
      final_evaluation T X mvk public_values bp ids ns omega_skip_pows n_logup n_max xi rs lambda beta_logup mu cur_sum)))))))))))))))))"

end
