(* ===== verification/SumcheckRound.thy ===== *)
theory SumcheckRound
  imports BatchConstraints
begin

text \<open>
  The interpolation in a multilinear round of the batched sumcheck: running products give
  the Lagrange formula on the nodes \<open>0, ..., s_deg\<close>, which is exact, and the univariate
  round sums a polynomial over the skip domain from its coefficients.
\<close>

section \<open>Polynomial functions of bounded degree\<close>

definition poly_fn :: "nat \<Rightarrow> ('a::field \<Rightarrow> 'a) \<Rightarrow> bool" where
  "poly_fn n f \<longleftrightarrow> (\<exists>cs. length cs = Suc n \<and> (\<forall>x. horner_eval cs x = f x))"

lemma poly_fn_const: "poly_fn 0 (\<lambda>_. c)"
  unfolding poly_fn_def by (rule exI [of _ "[c]"]) (simp add: horner_Cons)

lemma horner_map_smult: "horner_eval (map (\<lambda>c. a * c) cs) x = a * horner_eval cs x"
  using horner_map_mult [of a cs x] by (simp add: mult.commute)

lemma horner_map2_add:
  "length cs = length ds \<Longrightarrow> horner_eval (map2 (+) cs ds) x = horner_eval cs x + horner_eval ds x"
  by (induction cs ds rule: list_induct2) (simp_all add: horner_Cons algebra_simps)

lemma poly_fn_smult: "poly_fn n f \<Longrightarrow> poly_fn n (\<lambda>x. a * f x)"
  unfolding poly_fn_def
  by (elim exE conjE, rule_tac x = "map (\<lambda>c. a * c) cs" in exI) (simp add: horner_map_smult)

lemma poly_fn_add: "poly_fn n f \<Longrightarrow> poly_fn n g \<Longrightarrow> poly_fn n (\<lambda>x. f x + g x)"
  unfolding poly_fn_def
  by (elim exE conjE, rule_tac x = "map2 (+) cs csa" in exI) (simp add: horner_map2_add)

lemma poly_fn_zero: "poly_fn n (\<lambda>_. 0)"
  unfolding poly_fn_def by (rule exI [of _ "replicate (Suc n) 0"]) (simp add: horner_eval_sum sum.neutral del: replicate_Suc)

lemma poly_fn_sum: "finite A \<Longrightarrow> (\<And>i. i \<in> A \<Longrightarrow> poly_fn n (f i)) \<Longrightarrow> poly_fn n (\<lambda>x. \<Sum>i \<in> A. f i x)"
  by (induction A rule: finite_induct) (simp_all add: poly_fn_zero poly_fn_add)

lemma poly_fn_linear:
  assumes "poly_fn n f"
  shows "poly_fn (Suc n) (\<lambda>x. f x * (a * x + b))"
proof -
  from assms obtain cs where cs: "length cs = Suc n" "\<And>x. horner_eval cs x = f x" by (auto simp: poly_fn_def)
  let ?ds = "map2 (+) (map (\<lambda>c. a * c) (0 # cs)) (map (\<lambda>c. b * c) (cs @ [0]))"
  have "horner_eval ?ds x = f x * (a * x + b)" for x
    using cs by (subst horner_map2_add) (simp_all only: horner_map_smult, simp_all add: horner_append horner_Cons algebra_simps)
  moreover have "length ?ds = Suc (Suc n)" using cs by simp
  ultimately show ?thesis unfolding poly_fn_def by blast
qed

lemma poly_fn_prod:
  assumes "poly_fn m f"
  shows "poly_fn (m + n) (\<lambda>x. f x * (\<Prod>j < n. a j * x + b j))"
proof (induction n)
  case (Suc n)
  from poly_fn_linear [OF this, of "a n" "b n"] show ?case by (simp add: mult.assoc)
qed (simp add: assms)

text \<open>A polynomial function is determined by its values at one more point than its degree.\<close>

lemma poly_fn_unique:
  assumes "poly_fn n f" and "poly_fn n g" and "inj_on p {..n}" and "\<And>i. i \<le> n \<Longrightarrow> f (p i) = g (p i)"
  shows "f x = g x"
proof (rule ccontr)
  assume ne: "f x \<noteq> g x"
  from assms(1,2) obtain cs ds where cs: "length cs = Suc n" "\<And>x. horner_eval cs x = f x"
    and ds: "length ds = Suc n" "\<And>x. horner_eval ds x = g x" by (auto simp: poly_fn_def)
  from agreement_count [of cs ds x] ne have fin: "finite {x. f x = g x}" and card: "card {x. f x = g x} \<le> n"
    by (simp_all add: cs ds)
  have "p ` {..n} \<subseteq> {x. f x = g x}" using assms(4) by auto
  then have "card (p ` {..n}) \<le> n" using card_mono [OF fin] card by (meson le_trans)
  then show False using card_image [OF assms(3)] by simp
qed

section \<open>The Lagrange formula\<close>

lemma running_products_nth: "running_products g n = map (\<lambda>k. \<Prod>j < k. g j) [0..<Suc n]"
  by (induction n) (simp_all add: running_products_def)

lemma running_products_fact: "running_products (\<lambda>i. of_nat (i + 1)) n = map (\<lambda>k. of_nat (fact k) :: 'a::field) [0..<Suc n]"
proof -
  have "(\<Prod>j < k. of_nat (j + 1)) = (of_nat (fact k) :: 'a)" for k
    by (induction k) (simp_all add: algebra_simps)
  then show ?thesis by (simp add: running_products_nth del: upt_Suc)
qed

definition nodes_distinct :: "'f::field itself \<Rightarrow> nat \<Rightarrow> bool" where
  "nodes_distinct _ d \<longleftrightarrow> (\<forall>i. 0 < i \<and> i \<le> d \<longrightarrow> of_nat i \<noteq> (0 :: 'f))"

lemma fact_nonzero: "nodes_distinct TYPE('f::field) d \<Longrightarrow> k \<le> d \<Longrightarrow> of_nat (fact k) \<noteq> (0 :: 'f)"
proof (induction k)
  case (Suc k)
  then have "of_nat (Suc k) \<noteq> (0 :: 'f)" unfolding nodes_distinct_def by blast
  with Suc show ?case by (metis Suc_leD fact_Suc mult_eq_0_iff of_nat_mult of_nat_id)
qed simp

definition lagrange_term :: "nat \<Rightarrow> nat \<Rightarrow> 'ef::field \<Rightarrow> 'ef" where
  "lagrange_term d i r = (\<Prod>j < i. r - of_nat j) * (\<Prod>j < d - i. of_nat (d - j) - r)
     * inverse (of_nat (fact i)) * inverse (of_nat (fact (d - i)))"

context field_tower
begin

lemma interpolate_Ok:
  assumes "nodes_distinct TYPE('f) d" and "length es = Suc d"
  shows "interpolate_at_integers X d es r = Ok (\<Sum>i \<le> d. es ! i * lagrange_term d i r)"
proof -
  have inv: "rmap checked_inverse (running_products (\<lambda>i. of_nat (i + 1) :: 'f) d)
      = (Ok (map (\<lambda>k. inverse (of_nat (fact k))) [0..<Suc d]) :: (_, 'e) res)"
    unfolding running_products_fact
    by (subst rmap_total [where g = inverse])
      (use fact_nonzero [OF assms(1)] in \<open>auto simp: comp_def simp del: upt_Suc intro!: checked_inverse_Ok\<close>)
  have sum: "sum_list (map g [0..<Suc d]) = (\<Sum>i \<le> d. g i :: 'ef)" for g
    by (simp only: interv_sum_list_conv_sum_set_nat set_upt atLeast0LessThan lessThan_Suc_atMost)
  have terms: "rmap (\<lambda>i. rbind (index es i) (\<lambda>e.
         Ok (e * running_products (\<lambda>i. r - of_nat i) d ! i * running_products (\<lambda>i. of_nat (d - i) - r) d ! (d - i)
               * fe_embed X (map (\<lambda>k. inverse (of_nat (fact k))) [0..<Suc d] ! i)
               * fe_embed X (map (\<lambda>k. inverse (of_nat (fact k))) [0..<Suc d] ! (d - i))))) [0..<d + 1]
      = (Ok (map (\<lambda>i. es ! i * lagrange_term d i r) [0..<Suc d]) :: (_, 'e) res)"
    unfolding Suc_eq_plus1 [symmetric]
    by (rule rmap_total)
      (use assms(2) in \<open>simp add: running_products_nth lagrange_term_def mult.assoc del: upt_Suc of_nat_fact\<close>)
  show ?thesis
    unfolding interpolate_at_integers_def Let_def inv rbind.simps terms sum ..
qed

lemma nodes_inj: "nodes_distinct TYPE('f) d \<Longrightarrow> inj_on (of_nat :: nat \<Rightarrow> 'ef) {..d}"
proof (rule inj_onI)
  fix i j :: nat assume nd: "nodes_distinct TYPE('f) d" and ij: "i \<in> {..d}" "j \<in> {..d}" "of_nat i = (of_nat j :: 'ef)"
  have "fe_embed X (of_nat i) = fe_embed X (of_nat j)" using ij(3) by simp
  then have eq: "of_nat i = (of_nat j :: 'f)" by (simp only: embed_eq_iff)
  have "m = n" if "m \<le> n" "n \<le> d" "of_nat m = (of_nat n :: 'f)" for m n
  proof (rule ccontr)
    assume "m \<noteq> n"
    with that have "0 < n - m" "n - m \<le> d" by auto
    with nd have "of_nat (n - m) \<noteq> (0 :: 'f)" unfolding nodes_distinct_def by blast
    with that show False by (simp add: of_nat_diff)
  qed
  with ij eq show "i = j" by (metis atMost_iff nle_le)
qed

lemma lagrange_at_node:
  assumes nd: "nodes_distinct TYPE('f) d" and "i \<le> d" and "k \<le> d"
  shows "lagrange_term d i (of_nat k :: 'ef) = (if i = k then 1 else 0)"
proof -
  consider "k < i" | "i < k" | "i = k" by linarith
  then show ?thesis
  proof cases
    case 1
    then have "(\<Prod>j < i. of_nat k - of_nat j :: 'ef) = 0" by (auto intro!: bexI [of _ k])
    with 1 show ?thesis by (simp add: lagrange_term_def)
  next
    case 2
    then have "d - (d - k) = k" "d - k < d - i" using assms(3) by auto
    then have "(\<Prod>j < d - i. of_nat (d - j) - of_nat k :: 'ef) = 0" by (auto intro!: bexI [of _ "d - k"])
    with 2 show ?thesis by (simp add: lagrange_term_def)
  next
    case 3
    have fact: "(\<Prod>j < n. of_nat n - of_nat j :: 'ef) = of_nat (fact n)" for n
    proof -
      have "(\<Prod>j < n. of_nat n - of_nat j :: 'ef) = (\<Prod>j < n. of_nat (n - j))" by (rule prod.cong) (auto simp: of_nat_diff)
      also have "\<dots> = of_nat (\<Prod>j < n. n - j)" by simp
      also have "(\<Prod>j < n. n - j) = fact n"
        by (simp add: fact_prod_rev atLeast0LessThan)
      finally show ?thesis .
    qed
    have "(\<Prod>j < d - i. of_nat (d - j) - of_nat k :: 'ef) = (\<Prod>j < d - i. of_nat (d - i) - of_nat j)"
      by (rule prod.cong) (use 3 assms in \<open>auto simp: of_nat_diff\<close>)
    then have second: "(\<Prod>j < d - i. of_nat (d - j) - of_nat k :: 'ef) = of_nat (fact (d - i))" by (simp only: fact)
    have nz: "of_nat (fact n) \<noteq> (0 :: 'ef)" if "n \<le> d" for n
      using fact_nonzero [OF nd that] embed_zero_iff [of "of_nat (fact n)"] by (simp del: of_nat_fact)
    have alg: "a * b * inverse a * inverse b = 1" if "a \<noteq> 0" "b \<noteq> (0 :: 'ef)" for a b
      using that by (simp add: field_simps)
    have "lagrange_term d i (of_nat k :: 'ef)
        = of_nat (fact i) * of_nat (fact (d - i)) * inverse (of_nat (fact i)) * inverse (of_nat (fact (d - i)))"
      unfolding lagrange_term_def second using fact [of i] 3 by simp
    also have "\<dots> = 1" by (rule alg) (use nz assms(2) in simp_all)
    finally show ?thesis using 3 by simp
  qed
qed

lemma lagrange_poly: "i \<le> d \<Longrightarrow> poly_fn d (\<lambda>r :: 'ef. a * lagrange_term d i r)"
proof -
  assume i: "i \<le> d"
  let ?c = "inverse (of_nat (fact i)) * inverse (of_nat (fact (d - i))) :: 'ef"
  have "poly_fn (0 + i) (\<lambda>r :: 'ef. (a * ?c) * (\<Prod>j < i. 1 * r + (- of_nat j)))"
    by (rule poly_fn_prod) (rule poly_fn_const)
  from poly_fn_prod [OF this, of "d - i" "\<lambda>_. - 1" "\<lambda>j. of_nat (d - j)"] i
  have "poly_fn d (\<lambda>r. a * ?c * (\<Prod>j < i. 1 * r + (- of_nat j)) * (\<Prod>j < d - i. - 1 * r + of_nat (d - j)))" by simp
  moreover have "(\<lambda>r. a * ?c * (\<Prod>j < i. 1 * r + (- of_nat j)) * (\<Prod>j < d - i. - 1 * r + of_nat (d - j)))
      = (\<lambda>r. a * lagrange_term d i r)"
    by (rule ext) (simp add: lagrange_term_def mult_ac del: of_nat_fact)
  ultimately show ?thesis by simp
qed

lemma interpolate_poly:
  assumes "nodes_distinct TYPE('f) d" and "length es = Suc d"
  shows "\<exists>cs. length cs = Suc d \<and> (\<forall>r. interpolate_at_integers X d es r = (Ok (horner_eval cs (r :: 'ef)) :: (_, 'e) res)) \<and>
     (\<forall>k \<le> d. horner_eval cs (of_nat k) = es ! k)"
proof -
  have "poly_fn d (\<lambda>r. \<Sum>i \<le> d. es ! i * lagrange_term d i r)"
    by (rule poly_fn_sum) (simp_all add: lagrange_poly)
  then obtain cs where cs: "length cs = Suc d" "\<And>r. horner_eval cs r = (\<Sum>i \<le> d. es ! i * lagrange_term d i r)"
    by (auto simp: poly_fn_def)
  have "horner_eval cs (of_nat k) = es ! k" if "k \<le> d" for k
  proof -
    have "horner_eval cs (of_nat k) = (\<Sum>i \<le> d. if i = k then es ! i else 0)"
      unfolding cs by (rule sum.cong) (use that in \<open>auto simp: lagrange_at_node [OF assms(1)]\<close>)
    with that show ?thesis by simp
  qed
  then show ?thesis by (intro exI [of _ cs]) (simp add: cs interpolate_Ok [OF assms])
qed

end

section \<open>The sum over the skip domain\<close>

lemma length_step_by: "length (step_by n xs) = div_ceil (length xs) n"
  by (simp add: step_by_def)

lemma div_ceil_less: "0 < n \<Longrightarrow> i < div_ceil m n \<longleftrightarrow> i * n < m"
proof -
  assume n: "0 < n"
  have "i < (m + n - 1) div n \<longleftrightarrow> Suc i * n \<le> m + n - 1"
    using n by (simp add: less_eq_div_iff_mult_less_eq Suc_le_eq [symmetric])
  also have "\<dots> \<longleftrightarrow> i * n < m" using n by (cases n) auto
  finally show ?thesis by (simp add: div_ceil_def)
qed

lemma sum_step_by:
  assumes "0 < n"
  shows "sum_list (step_by n xs) = (\<Sum>k < length xs. if n dvd k then xs ! k else (0 :: 'a::field))"
proof -
  have "sum_list (step_by n xs) = (\<Sum>i < div_ceil (length xs) n. xs ! (i * n))"
    by (simp only: step_by_def interv_sum_list_conv_sum_set_nat set_upt atLeast0LessThan)
  also have "\<dots> = (\<Sum>k \<in> (\<lambda>i. i * n) ` {..<div_ceil (length xs) n}. xs ! k)"
    by (subst sum.reindex) (use assms in \<open>auto simp: inj_on_def\<close>)
  also have "(\<lambda>i. i * n) ` {..<div_ceil (length xs) n} = {k \<in> {..<length xs}. n dvd k}"
    using div_ceil_less [OF assms] by (auto simp: dvd_def mult.commute image_iff)
  also have "(\<Sum>k \<in> {k \<in> {..<length xs}. n dvd k}. xs ! k) = (\<Sum>k < length xs. if n dvd k then xs ! k else 0)"
    by (rule sum.inter_filter) simp
  finally show ?thesis .
qed

context two_adic
begin

lemma character_sum:
  assumes "l \<le> adicity"
  shows "(\<Sum>i < 2 ^ l. (gen l ^ i) ^ k) = (if 2 ^ l dvd k then 2 ^ l else 0)"
proof (cases "2 ^ l dvd k")
  case True
  then obtain m where k: "k = 2 ^ l * m" by blast
  have "(gen l ^ i) ^ k = 1" for i
    unfolding k power_mult by (simp add: gen_pow_order [OF assms])
  with True show ?thesis by simp
next
  case False
  have swap: "(gen l ^ i) ^ k = (gen l ^ k) ^ i" for i by (simp add: power_mult [symmetric] mult.commute)
  have "gen l ^ k \<noteq> 1"
    using gen_pow_eq_iff [OF assms, of k 0] False by (simp add: dvd_eq_mod_eq_0)
  moreover have "(gen l ^ k) ^ 2 ^ l = 1" by (rule gen_pow_order [OF assms])
  ultimately have "(\<Sum>i < 2 ^ l. (gen l ^ k) ^ i) = 0" by (simp add: geometric_sum)
  with False show ?thesis by (simp add: swap)
qed

lemma domain_sum:
  assumes "l \<le> adicity"
  shows "(\<Sum>i < 2 ^ l. horner_eval cs (gen l ^ i)) = sum_list (step_by (2 ^ l) cs) * 2 ^ l"
proof -
  have "(\<Sum>i < 2 ^ l. horner_eval cs (gen l ^ i)) = (\<Sum>i < 2 ^ l. \<Sum>k < length cs. cs ! k * (gen l ^ i) ^ k)"
    by (simp add: horner_eval_sum)
  also have "\<dots> = (\<Sum>k < length cs. \<Sum>i < 2 ^ l. cs ! k * (gen l ^ i) ^ k)" by (rule sum.swap)
  also have "\<dots> = (\<Sum>k < length cs. (if 2 ^ l dvd k then cs ! k else 0) * 2 ^ l)"
    by (rule sum.cong) (simp_all add: sum_distrib_left [symmetric] character_sum [OF assms])
  finally show ?thesis by (simp add: sum_step_by sum_distrib_right)
qed

end

context field_tower
begin

lemma interpolate_exact:
  assumes "nodes_distinct TYPE('f) d" and "length s = Suc d"
  shows "interpolate_at_integers X d (map (\<lambda>i. horner_eval s (of_nat i)) [0..<Suc d]) r = (Ok (horner_eval s r) :: (_, 'e) res)"
proof -
  have len: "length (map (\<lambda>i. horner_eval s (of_nat i)) [0..<Suc d]) = Suc d" by simp
  from interpolate_poly [OF assms(1) len, where 'e = 'e] obtain cs where cs: "length cs = Suc d"
    "\<And>r. interpolate_at_integers X d (map (\<lambda>i. horner_eval s (of_nat i)) [0..<Suc d]) r = (Ok (horner_eval cs r) :: (_, 'e) res)"
    "\<And>k. k \<le> d \<Longrightarrow> horner_eval cs (of_nat k) = horner_eval s (of_nat k)"
    by (auto simp del: upt_Suc)
  have "horner_eval cs r = horner_eval s r"
  proof (rule poly_fn_unique [of d "horner_eval cs" "horner_eval s" of_nat])
    show "poly_fn d (horner_eval cs)" "poly_fn d (horner_eval s)" using cs(1) assms(2) by (auto simp: poly_fn_def)
  qed (use nodes_inj [OF assms(1)] cs(3) in auto)
  with cs(2) show "interpolate_at_integers X d (map (\<lambda>i. horner_eval s (of_nat i)) [0..<Suc d]) r = (Ok (horner_eval s r) :: (_, 'e) res)"
    by simp
qed

lemma wrong_claim_survives:
  assumes "nodes_distinct TYPE('f) d" and "length s = Suc d" and "0 < d"
    and len: "length evals = d" and ne: "claim \<noteq> horner_eval s 0 + horner_eval s 1"
  shows "finite {r. interpolate_at_integers X d ((claim - evals ! 0) # evals) r = (Ok (horner_eval s r) :: (_, 'e) res)} \<and>
    card {r. interpolate_at_integers X d ((claim - evals ! 0) # evals) r = (Ok (horner_eval s r) :: (_, 'e) res)} \<le> d"
proof -
  from len have "length ((claim - evals ! 0) # evals) = Suc d" by simp
  from interpolate_poly [OF assms(1) this, where 'e = 'e] obtain cs where cs: "length cs = Suc d"
    "\<And>r. interpolate_at_integers X d ((claim - evals ! 0) # evals) r = (Ok (horner_eval cs r) :: (_, 'e) res)"
    "\<And>k. k \<le> d \<Longrightarrow> horner_eval cs (of_nat k) = ((claim - evals ! 0) # evals) ! k"
    by auto
  from cs(3) [of 0] cs(3) [of 1] assms(3) have "horner_eval cs 0 + horner_eval cs 1 = claim" by simp
  with ne have "horner_eval cs 0 \<noteq> horner_eval s 0 \<or> horner_eval cs 1 \<noteq> horner_eval s 1" by auto
  then show ?thesis using agreement_count [of cs s] cs(1) assms(2) by (auto simp: cs(2))
qed

text \<open>What the interpolation returns when it is given one value per node.\<close>

lemma interpolate_returns:
  assumes "nodes_distinct TYPE('f) d" and "length evals = Suc d"
  shows "\<exists>c. interpolate_at_integers X d evals r = (Ok c :: (_, 'e) res)"
  using interpolate_poly [OF assms, where 'e = 'e] by blast

lemma skip_domain_sum:
  assumes "l \<le> fe_adicity X" and "l < 64"
  shows "sum_univ_domain l cs = (Ok (\<Sum>z \<leftarrow> powers (2 ^ l) (fe_embed X (fe_gen X l)). horner_eval cs z) :: (_, 'e) res)"
proof -
  have "(\<Sum>z \<leftarrow> powers (2 ^ l) (fe_embed X (fe_gen X l)). horner_eval cs z)
      = (\<Sum>i < 2 ^ l. horner_eval cs (fe_embed X (fe_gen X l) ^ i))"
    by (simp only: powers_def map_map comp_def interv_sum_list_conv_sum_set_nat set_upt atLeast0LessThan)
  then show ?thesis using assms(2) by (simp add: sum_univ_domain_def ext.domain_sum [OF assms(1)])
qed

end

section \<open>Properties\<close>

text \<open>One run of the round: the evaluations are observed, then the challenge is sampled.\<close>

lemma sumcheck_round_run:
  assumes "vdo_all (v_observe_ext T (fe_ops X)) (polys ! rnd) ts = (Ok ((), ts1) :: (_, 'e) res)"
    and "v_sample_ext T (fe_ops X) ts1 = (Ok (r, ts2) :: (_, 'e) res)" and "rnd < length polys" and "polys ! rnd \<noteq> []"
    and "interpolate_at_integers X d ((claim - polys ! rnd ! 0) # polys ! rnd) r = (Ok c :: (_, 'e) res)"
  shows "sumcheck_round T X d polys rnd (claim, rs) ts = (Ok ((c, rs @ [r]), ts2) :: (_, 'e) res)"
proof -
  have "index polys rnd = (Ok (polys ! rnd) :: (_, 'e) res)" "index (polys ! rnd) 0 = (Ok (polys ! rnd ! 0) :: (_, 'e) res)"
    using assms(3,4) by simp_all
  then show ?thesis
    unfolding sumcheck_round_def prod.case by (simp only: vbind_def vlift_def assms(1,2,5) rbind.simps prod.case vret_def)
qed

text \<open>C16. Soundness and completeness of a multilinear round of the batched sumcheck. Let \<open>s\<close> be the true round polynomial, of
  degree at most \<open>d\<close>, and let the nodes \<open>0, ..., d\<close> be distinct in the field. The verifier's round on the \<open>d\<close> values that the
  prover sends never fails: it observes them, then samples the challenge \<open>r\<close>, appends it to the point, and goes on with a new
  claim. If the claim is \<open>s(0) + s(1)\<close> and the values are \<open>s(1), ..., s(d)\<close>, the new claim is \<open>s(r)\<close>. If the claim is not
  \<open>s(0) + s(1)\<close>, then whatever the values are, the new claim differs from \<open>s(r)\<close> unless \<open>r\<close> is in a set of
  at most \<open>d\<close> elements that is fixed by the claim and the values alone, for every transcript and every state of it.\<close>
theorem batch_round_sound:
  fixes X :: "('f::field, 'ef::field) field_ext" and s :: "'ef list"
  assumes "field_tower X" and "nodes_distinct TYPE('f) d" and "length s = Suc d" and "0 < d"
    and "rnd < length polys" and "length (polys ! rnd) = d"
  shows "\<exists>B. finite B \<and> card B \<le> d \<and>
    (\<forall>(T :: ('ts, 'f, 'd) transcript_ops) I wf_digest ts rs. transcript T I wf_digest \<and> I ts \<longrightarrow>
      (\<exists>ts1 r ts2 c. vdo_all (v_observe_ext T (fe_ops X)) (polys ! rnd) ts = (Ok ((), ts1) :: (_, 'e) res) \<and>
         v_sample_ext T (fe_ops X) ts1 = (Ok (r, ts2) :: (_, 'e) res) \<and> I ts2 \<and>
         sumcheck_round T X d polys rnd (claim, rs) ts = (Ok ((c, rs @ [r]), ts2) :: (_, 'e) res) \<and>
         (claim = horner_eval s 0 + horner_eval s 1 \<and> polys ! rnd = map (\<lambda>i. horner_eval s (of_nat (Suc i))) [0..<d] \<longrightarrow> c = horner_eval s r) \<and>
         (claim \<noteq> horner_eval s 0 + horner_eval s 1 \<and> r \<notin> B \<longrightarrow> c \<noteq> horner_eval s r)))"
proof -
  let ?evals = "polys ! rnd" and ?true = "horner_eval s 0 + horner_eval s 1"
  let ?next = "\<lambda>r. interpolate_at_integers X d ((claim - ?evals ! 0) # ?evals) r :: (_, 'e) res"
  define B where "B = (if claim = ?true then {} else {r. ?next r = Ok (horner_eval s r)})"
  have small: "finite B \<and> card B \<le> d"
    using field_tower.wrong_claim_survives [OF assms(1-4,6), of claim, where 'e = 'e] by (simp add: B_def)
  have honest: "(claim - ?evals ! 0) # ?evals = map (\<lambda>i. horner_eval s (of_nat i)) [0..<Suc d]"
    if "claim = ?true" "?evals = map (\<lambda>i. horner_eval s (of_nat (Suc i))) [0..<d]"
    unfolding that(2) using that(1) assms(4) by (simp add: map_upt_Suc del: upt_Suc)
  have "\<exists>ts1 r ts2 c. vdo_all (v_observe_ext T (fe_ops X)) ?evals ts = (Ok ((), ts1) :: (_, 'e) res) \<and>
      v_sample_ext T (fe_ops X) ts1 = (Ok (r, ts2) :: (_, 'e) res) \<and> I ts2 \<and>
      sumcheck_round T X d polys rnd (claim, rs) ts = (Ok ((c, rs @ [r]), ts2) :: (_, 'e) res) \<and>
      (claim = ?true \<and> ?evals = map (\<lambda>i. horner_eval s (of_nat (Suc i))) [0..<d] \<longrightarrow> c = horner_eval s r) \<and>
      (claim \<noteq> ?true \<and> r \<notin> B \<longrightarrow> c \<noteq> horner_eval s r)"
    if T: "transcript T I wf_digest" "I ts" for T :: "('ts, 'f, 'd) transcript_ops" and I wf_digest ts rs
  proof -
    from transcript.observe_exts_run [OF T, where K = "fe_ops X" and 'e = 'e] obtain ts1 where
      ts1: "vdo_all (v_observe_ext T (fe_ops X)) ?evals ts = (Ok ((), ts1) :: (_, 'e) res)" "I ts1" by blast
    from transcript.both_sample [OF T(1) ts1(2), where K = "fe_ops X" and 'e = 'e and 'g = 'e] obtain r ts2 where
      ts2: "v_sample_ext T (fe_ops X) ts1 = (Ok (r, ts2) :: (_, 'e) res)" "I ts2" by blast
    have "length ((claim - ?evals ! 0) # ?evals) = Suc d" using assms(6) by simp
    from field_tower.interpolate_returns [OF assms(1,2) this, where 'e = 'e] obtain c where c: "?next r = Ok c" by blast
    have "?evals \<noteq> []" using assms(4,6) by auto
    from sumcheck_round_run [OF ts1(1) ts2(1) assms(5) this c] have run: "sumcheck_round T X d polys rnd (claim, rs) ts = (Ok ((c, rs @ [r]), ts2) :: (_, 'e) res)" .
    have "c = horner_eval s r" if "claim = ?true \<and> ?evals = map (\<lambda>i. horner_eval s (of_nat (Suc i))) [0..<d]"
      using c field_tower.interpolate_exact [OF assms(1-3), of r, where 'e = 'e] honest that by simp
    moreover have "c \<noteq> horner_eval s r" if "claim \<noteq> ?true \<and> r \<notin> B" using that c by (auto simp: B_def)
    ultimately show ?thesis using ts1(1) ts2 run by blast
  qed
  with small show ?thesis by (intro exI [of _ B] conjI allI impI) (elim conjE, assumption | simp)+
qed

lemma f17_nodes: "d < 17 \<Longrightarrow> nodes_distinct TYPE(f17) d"
  by (simp add: nodes_distinct_def f17_of_nat f17_zero_iff)

theorem batch_round_sound_witness:
  "\<exists>B :: f17 set. card B \<le> 3 \<and>
    (\<exists>r ts2 c. sumcheck_round (sponge_ops f17_sponge) f17_tower 3 [[1, 2, 3]] 0 (5, []) (sponge_from f17_sponge)
         = (Ok ((c, [r]), ts2) :: (_, unit) res) \<and> (r \<notin> B \<longrightarrow> c \<noteq> horner_eval [1, 0, 0, 0] r))"
proof -
  have ne: "(5 :: f17) \<noteq> horner_eval [1, 0, 0, 0] 0 + horner_eval [1, 0, 0, 0] 1"
    by (simp add: horner_eval_def f17_numeral f17_eq_iff)
  have nd: "nodes_distinct TYPE(f17) 3" by (rule f17_nodes) simp
  have "transcript (sponge_ops f17_sponge) (sponge_inv f17_sponge) (\<lambda>_. True) \<and> sponge_inv f17_sponge (sponge_from f17_sponge)"
    by (intro conjI f17_duplex.transcript_axioms sponge_inv_from [OF wf_f17_sponge])
  note run = this
  have "\<exists>B. finite B \<and> card B \<le> 3 \<and> (\<forall>(T :: (f17 duplex_sponge, f17, f17 list) transcript_ops) I wf_digest ts rs.
      transcript T I wf_digest \<and> I ts \<longrightarrow>
      (\<exists>ts1 r ts2 c. sumcheck_round T f17_tower 3 [[1, 2, 3]] 0 (5, rs) ts = (Ok ((c, rs @ [r]), ts2) :: (_, unit) res) \<and>
         (r \<notin> B \<longrightarrow> c \<noteq> horner_eval [1, 0, 0, 0] r)))"
    using batch_round_sound [OF f17_tower.field_tower_axioms nd, of "[1, 0, 0, 0]" 0 "[[1, 2, 3]]" 5, where 'e = unit and 'ts = "f17 duplex_sponge" and 'd = "f17 list"] ne
    apply simp
    apply (elim exE conjE)
    subgoal for B
      apply (rule exI [of _ B])
      apply (intro conjI)
        apply assumption
       apply assumption
      apply blast
      done
    done
  then obtain B where "card B \<le> 3" and all: "\<And>(T :: (f17 duplex_sponge, f17, f17 list) transcript_ops) I wf_digest ts rs.
      transcript T I wf_digest \<and> I ts \<Longrightarrow>
      \<exists>ts1 r ts2 c. sumcheck_round T f17_tower 3 [[1, 2, 3]] 0 (5, rs) ts = (Ok ((c, rs @ [r]), ts2) :: (_, unit) res) \<and>
         (r \<notin> B \<longrightarrow> c \<noteq> horner_eval [1, 0, 0, 0] r)"
    by blast
  note B = all [OF run, of "[]"]
  from B have "\<exists>r ts2 c. sumcheck_round (sponge_ops f17_sponge) f17_tower 3 [[1, 2, 3]] 0 (5, []) (sponge_from f17_sponge)
      = (Ok ((c, [r]), ts2) :: (_, unit) res) \<and> (r \<notin> B \<longrightarrow> c \<noteq> horner_eval [1, 0, 0, 0] r)" by simp
  with \<open>card B \<le> 3\<close> show ?thesis by blast
qed

text \<open>The check of the univariate rounds: the sum of a polynomial over the skip domain, that is over the
  \<open>2 ^ l_skip\<close> powers of the generator, is the number of powers times the sum of every
  \<open>2 ^ l_skip\<close>-th coefficient, and this is what the verifier computes.\<close>
theorem univariate_sum_exact:
  assumes "field_tower X" and "l \<le> fe_adicity X" and "l < 64"
  shows "sum_univ_domain l cs = (Ok (\<Sum>z \<leftarrow> powers (2 ^ l) (fe_embed X (fe_gen X l)). horner_eval cs z) :: (_, 'e) res)"
  by (rule field_tower.skip_domain_sum [OF assms])

theorem univariate_sum_exact_witness:
  "sum_univ_domain 2 [1, 2, 3, 4, 5, 6, 7]
     = (Ok (\<Sum>z \<leftarrow> powers (2 ^ 2) (fe_embed f17_tower (fe_gen f17_tower 2)). horner_eval [1, 2, 3, 4, 5, 6, 7] z) :: (_, unit) res)"
  by (rule univariate_sum_exact [OF f17_tower.field_tower_axioms]) (simp_all add: f17_tower_def)

end
