(* ===== verification/BatchSafety.thy ===== *)
theory BatchSafety
  imports SumcheckRound
begin

text \<open>
  The batched zerocheck and LogUp verifier does not panic on a proof of the right shape:
  every index, slice, length and debug assertion of \<open>verifier/batch_constraints.rs\<close>
  follows from the shape check and from the way the traces are ordered.
\<close>

section \<open>What the verifier needs of the field and of the parameters\<close>

definition grindable :: "('f, 'ef) field_ext \<Rightarrow> nat \<Rightarrow> bool" where
  "grindable X bits \<longleftrightarrow> bits < 32 \<and> 2 ^ bits < f_order (fe_ops X)"

definition wf_protocol :: "('f::field, 'ef::field) field_ext \<Rightarrow> system_params \<Rightarrow> bool" where
  "wf_protocol X p \<longleftrightarrow> 0 < l_skip p \<and> log_stacked_height p < 31 \<and>
     log_stacked_height p + log_blowup p \<le> fe_adicity X \<and> l_skip p \<le> fe_ext_adicity X \<and>
     nodes_distinct TYPE('f) (max_constraint_degree p + 1) \<and>
     grindable X (logup_pow_bits (logup p)) \<and> grindable X (mu_pow_bits (whir p)) \<and>
     grindable X (folding_pow_bits (whir p)) \<and> grindable X (query_phase_pow_bits (whir p)) \<and>
     grindable X (log_stacked_height p + log_blowup p - k_whir p)"

text \<open>The verifier's environment: a transcript that keeps its contract over a tower of fields.\<close>

locale verifier_env = transcript T inv wf_digest + field_tower X
  for T :: "('ts, 'f::field, 'd) transcript_ops" and inv :: "'ts \<Rightarrow> bool" and wf_digest :: "'d \<Rightarrow> bool"
    and X :: "('f, 'ef::field) field_ext"
begin

lemma safe_witness: "grindable X bits \<Longrightarrow> vsafe inv (v_check_witness T (fe_ops X) bits w) (\<lambda>_. True)"
  unfolding grindable_def by (rule safe_check_witness) simp_all

lemma safe_bits: "grindable X bits \<Longrightarrow> vsafe inv (v_sample_bits T (fe_ops X) bits) (\<lambda>r. r < 2 ^ bits)"
  unfolding grindable_def by (rule safe_sample_bits) simp_all

section \<open>The transcript steps\<close>

lemma safe_gkr_claims:
  assumes "0 < tot \<Longrightarrow> 0 < rounds"
  shows "vsafe inv (gkr_claims T K gkr tot rounds alpha) (\<lambda>(_, _, xi). length xi = (if 0 < tot then rounds else 0))"
proof (cases "0 < tot")
  case True
  note safe = vsafe_map_err [OF safe_verify_gkr [OF assms [OF True], of K gkr], of GkrVerificationFailed]
  from True show ?thesis
    unfolding gkr_claims_def by (auto intro!: vsafe_bind [OF safe] vsafe_assert_bind vsafe_ret)
qed (auto simp: gkr_claims_def intro!: vsafe_check_bind vsafe_ret)

lemma safe_extend_xi: "vsafe inv (extend_xi T K len xi) (\<lambda>xi'. length xi' = max len (length xi))"
proof -
  have "vsafe inv (extend_xi T K len xi) ((\<lambda>done xi'. length xi' = length xi + length done) [length xi..<len])"
    unfolding extend_xi_def
    by (rule vsafe_for) (auto intro!: vsafe_bind [OF safe_sample_ext] vsafe_ret)
  then show ?thesis by (rule vsafe_weaken) auto
qed

lemma safe_subtract_terms: "vsafe inv (subtract_terms T K ns ds s) (\<lambda>_. True)"
  unfolding subtract_terms_def
  by (rule vsafe_for_simple) (auto intro!: vsafe_bind [OF safe_observe_ext] vsafe_ret)

lemma safe_univariate_round:
  assumes "wf_params p" and "length coeffs = (max_constraint_degree p + 1) * (2 ^ l_skip p - 1) + 1"
  shows "vsafe inv (univariate_round T K p coeffs sum_claim) (\<lambda>_. True)"
proof -
  have p: "l_skip p < 63" "(max_constraint_degree p + 1) * 2 ^ l_skip p < 2 ^ 64"
    using assms(1) by (auto simp: wf_params_def)
  show ?thesis
    unfolding univariate_round_def
    apply (rule vsafe_bind [OF safe_observe_exts])
    apply (rule vsafe_bind [OF safe_sample_ext])
    apply (rule vsafe_lift_bind [OF univariate_degree_Ok [OF p]])
    apply (rule vsafe_assert_bind [OF assms(2)])
    apply (rule vsafe_bind [of _ _ "\<lambda>_. True"])
     apply (rule vsafe_lift)
    using p(1) by (auto simp: sum_univ_domain_def intro!: vsafe_check_bind vsafe_ret)
qed

lemma safe_sumcheck_round:
  assumes "nodes_distinct TYPE('f) d" and "0 < d"
    and rnd: "rnd < length polys" and polys: "\<forall>evals \<in> set polys. length evals = d"
  shows "vsafe inv (sumcheck_round T X d polys rnd s)
     (\<lambda>(_, rs). length rs = Suc (length (snd s)))"
proof -
  obtain cur rs where s: "s = (cur, rs)" by force
  have len: "length (polys ! rnd) = d" using rnd polys by simp
  show ?thesis
    unfolding sumcheck_round_def s prod.case snd_conv
    apply (rule vsafe_lift_bind [of _ "polys ! rnd"])
     apply (use rnd in simp)
    apply (rule vsafe_bind [OF safe_observe_exts])
    apply (rule vsafe_lift_bind [of _ "polys ! rnd ! 0"])
     apply (use assms(2) len in simp)
    apply (rule vsafe_bind [OF safe_sample_ext])
    apply (rule vsafe_lift_bind)
     apply (rule interpolate_Ok [OF assms(1)])
     apply (simp add: len)
    apply (rule vsafe_ret)
    by simp
qed

lemma safe_sumcheck_rounds:
  assumes "nodes_distinct TYPE('f) d" and "0 < d"
    and n: "length polys = n" and polys: "\<forall>evals \<in> set polys. length evals = d"
  shows "vsafe inv (vfor (sumcheck_round T X d polys) [0..<n] (cur, [r0]))
     (\<lambda>(_, rs). length rs = Suc n)"
proof -
  have "vsafe inv (vfor (sumcheck_round T X d polys) [0..<n] (cur, [r0]))
      ((\<lambda>done (_, rs). length rs = Suc (length done)) [0..<n])"
  proof (rule vsafe_for)
    fix x ys zs and s :: "'ef \<times> 'ef list"
    assume split: "[0..<n] = ys @ x # zs" and J: "case s of (_, rs) \<Rightarrow> length rs = Suc (length ys)"
    from split have "x \<in> set [0..<n]" by simp
    then have "x < length polys" using n by simp
    from J have len: "length (snd s) = Suc (length ys)" by (cases s) auto
    show "vsafe inv (sumcheck_round T X d polys x s) (\<lambda>(_, rs). length rs = Suc (length (ys @ [x])))"
      by (rule vsafe_weaken [OF safe_sumcheck_round [OF assms(1,2) \<open>x < length polys\<close> polys]]) (auto simp: len)
  qed simp
  then show ?thesis by simp
qed

lemma safe_observe_pairs: "vsafe inv (observe_pairs T K claims rot) (\<lambda>_. True)"
  unfolding observe_pairs_def
  by (rule vsafe_do_all) (auto intro!: vsafe_bind [OF safe_observe_ext] safe_observe_ext split: prod.splits)

lemma safe_observe_common_main:
  assumes "length openings \<le> length need_rots" and "\<forall>o' \<in> set openings. o' \<noteq> []"
  shows "vsafe inv (observe_common_main T K need_rots openings) (\<lambda>_. True)"
  unfolding observe_common_main_def
proof (rule vsafe_do_all)
  fix x assume x: "x \<in> set (enumerated openings)"
  obtain i os where io: "x = (i, os)" by force
  with x have i: "i < length openings" "os = openings ! i" by (simp_all only: enumerated_mem)
  then have "os \<noteq> []" using assms(2) by simp
  then show "vsafe inv (case x of (trace_idx, air_openings) \<Rightarrow> vbind (vlift (index need_rots trace_idx)) (\<lambda>rot.
       vbind (vlift (index air_openings 0)) (\<lambda>main. observe_pairs T K main rot))) (\<lambda>_. True)"
    using i(1) assms(1) unfolding io prod.case
    by (intro vsafe_lift_bind [of _ "need_rots ! i"] vsafe_lift_bind [of _ "os ! 0"] safe_observe_pairs) auto
qed

end

section \<open>The weights\<close>

lemma trailing_zeros_zero [simp]: "trailing_zeros 0 = 64"
  by (simp add: trailing_zeros.simps)

lemma trailing_zeros_dvd: "0 < n \<Longrightarrow> 2 ^ k dvd n \<Longrightarrow> k \<le> trailing_zeros n"
proof (induction k arbitrary: n)
  case (Suc k)
  then obtain m where n: "n = 2 * m" by (auto simp: dvd_def)
  with Suc.prems have "0 < m" "2 ^ k dvd m" by auto
  with Suc.IH [of m] n show ?case by (subst trailing_zeros.simps) simp
qed simp

lemma lift_n_height: "skip + lift_n (int h - int skip) = max h skip"
  by (auto simp: lift_n_def)

lemma eq_3b_interactions:
  fixes X :: "('f::field, 'ef::field) field_ext"
  assumes "skip + n_logup < 64" and "n_lift \<le> n_logup" and "skip + n_logup \<le> length xi"
    and "2 ^ (skip + n_lift) dvd idx" and "idx + m * 2 ^ (skip + n_lift) \<le> tot" and "tot < 2 ^ (skip + n_logup)"
  shows "\<exists>es. rfold (\<lambda>_. eq_3b_interaction X skip n_logup xi n_lift) [0..<m] (idx, [])
      = (Ok (idx + m * 2 ^ (skip + n_lift), es) :: (_, 'e) res) \<and> length es = m"
  using assms(5)
proof (induction m)
  case (Suc m)
  let ?u = "2 ^ (skip + n_lift) :: nat"
  let ?i = "idx + m * ?u"
  from Suc obtain es where es: "rfold (\<lambda>_. eq_3b_interaction X skip n_logup xi n_lift) [0..<m] (idx, [])
      = (Ok (?i, es) :: (_, 'e) res)" "length es = m" by auto
  have lt: "?i + ?u \<le> tot" using Suc.prems by (simp add: add.assoc)
  have small: "?i < 2 ^ (skip + n_logup)" using lt assms(6) by linarith
  have "(2::nat) ^ (skip + n_logup) < 2 ^ 64" using assms(1) by (rule power2_bound)
  then have fit: "?i + ?u < 2 ^ 64" using lt assms(6) by linarith
  have "?u dvd ?i" using assms(4) by (intro dvd_add dvd_triv_right)
  then have tz: "skip + n_lift \<le> trailing_zeros ?i"
    using trailing_zeros_dvd [of ?i "skip + n_lift"] assms(1,2) by (cases "?i = 0") auto
  have sl: "slice xi (skip + n_lift) (skip + n_logup) = (Ok (take (n_logup - n_lift) (drop (skip + n_lift) xi)) :: (_, 'e) res)"
    using assms(2,3) by (simp add: slice_def)
  have len: "length (take (n_logup - n_lift) (drop (skip + n_lift) xi)) = n_logup - n_lift" using assms(2,3) by simp
  have sh: "shl64 1 (skip + n_lift) = (Ok ?u :: (_, 'e) res)" "shl64 1 (skip + n_logup) = (Ok (2 ^ (skip + n_logup)) :: (_, 'e) res)"
    using assms(1,2) by simp_all
  have s64: "skip + n_lift < 64" using assms(1,2) by simp
  have ad: "add64 ?i ?u = (Ok (?i + ?u) :: (_, 'e) res)" using fit by (simp add: add64_def)
  have "\<exists>e. eq_3b_interaction X skip n_logup xi n_lift (?i, es) = (Ok (?i + ?u, es @ [e]) :: (_, 'e) res)"
    unfolding eq_3b_interaction_def prod.case sh rbind.simps ad sl Let_def
    using small tz s64 len by (simp add: eval_eq_mle_def)
  then obtain e where "eq_3b_interaction X skip n_logup xi n_lift (?i, es) = (Ok (?i + ?u, es @ [e]) :: (_, 'e) res)" ..
  with es show ?case by (simp add: rfold_append add.assoc add.commute [of ?u])
qed simp

text \<open>The trace list as the verifier passes it on: \<open>trace_id_to_air_id\<close> and \<open>n_per_trace\<close>.\<close>

type_synonym ('f, 'd) traces = "(nat \<times> ('f, 'd) stark_verifying_key \<times> 'd trace_vdata) list"

definition air_ids :: "('f, 'd) traces \<Rightarrow> nat list" where
  "air_ids traces = map fst traces"

definition hypercube_dims :: "nat \<Rightarrow> ('f, 'd) traces \<Rightarrow> int list" where
  "hypercube_dims skip traces = map (\<lambda>(_, _, v). int (log_height v) - int skip) traces"

lemma length_air_ids [simp]: "length (air_ids traces) = length traces"
  and length_hypercube_dims [simp]: "length (hypercube_dims skip traces) = length traces"
  by (simp_all add: air_ids_def hypercube_dims_def)

lemma air_ids_nth: "traces ! i = (a, vk, v) \<Longrightarrow> i < length traces \<Longrightarrow> air_ids traces ! i = a"
  and hypercube_dims_nth: "traces ! i = (a, vk, v) \<Longrightarrow> i < length traces \<Longrightarrow> hypercube_dims skip traces ! i = int (log_height v) - int skip"
  by (simp_all add: air_ids_def hypercube_dims_def)

lemma traces_of_key_nth:
  assumes "traces_of_key mvk traces" and "i < length traces" and "traces ! i = (a, vk, v)"
  shows "a < length (per_air mvk)" and "per_air mvk ! a = vk" and "log_height v \<le> log_stacked_height (mvk_params mvk)"
    and "\<And>j b wk w. j < i \<Longrightarrow> traces ! j = (b, wk, w) \<Longrightarrow> log_height v \<le> log_height w"
proof -
  have "(a, vk, v) \<in> set traces" using assms(2,3) nth_mem by force
  then show "a < length (per_air mvk)" "per_air mvk ! a = vk" "log_height v \<le> log_stacked_height (mvk_params mvk)"
    using assms(1) by (auto simp: traces_of_key_def)
  show "log_height v \<le> log_height w" if "j < i" "traces ! j = (b, wk, w)" for j b wk w
  proof -
    have "sorted_wrt (\<lambda>a b. log_height (snd (snd b)) \<le> log_height (snd (snd a))) traces"
      using assms(1) by (simp add: traces_of_key_def)
    from sorted_wrt_nth_less [OF this that(1) assms(2)] show ?thesis by (simp add: that(2) assms(3))
  qed
qed

lemma total_interactions_Ok:
  assumes "traces_of_key mvk traces"
  shows "total_interactions mvk (air_ids traces) (hypercube_dims (l_skip (mvk_params mvk)) traces)
     = (count_interactions (l_skip (mvk_params mvk)) traces :: (_, 'e) res)"
proof -
  let ?skip = "l_skip (mvk_params mvk)"
  let ?f = "\<lambda>(air_idx, n) acc. rbind (index (per_air mvk) air_idx) (\<lambda>vk.
     rbind (shl64 (num_interactions vk) (?skip + lift_n n)) (add64 acc))"
  let ?g = "\<lambda>(_, vk, vdata) acc. rbind (shl64 (num_interactions vk) (max (log_height vdata) ?skip)) (add64 acc)"
  have "rfold ?f (zip (map fst ts) (hypercube_dims ?skip ts)) acc = (rfold ?g ts acc :: (_, 'e) res)"
    if "\<forall>(i, vk, v) \<in> set ts. i < length (per_air mvk) \<and> per_air mvk ! i = vk" for ts acc
    using that
  proof (induction ts arbitrary: acc)
    case (Cons t ts)
    obtain a vk v where t: "t = (a, vk, v)" by (cases t)
    with Cons.prems have "a < length (per_air mvk)" "per_air mvk ! a = vk" by auto
    with Cons t show ?case by (simp add: hypercube_dims_def lift_n_height cong: rbind_cong)
  qed (simp add: hypercube_dims_def)
  moreover have "\<forall>(i, vk, v) \<in> set traces. i < length (per_air mvk) \<and> per_air mvk ! i = vk"
    using assms by (auto simp: traces_of_key_def)
  ultimately show ?thesis by (simp add: total_interactions_def count_interactions_def air_ids_def)
qed

lemma interaction_total_take:
  assumes "i < length traces" and "traces ! i = (a, vk, v)"
  shows "interaction_total skip (take (Suc i) traces)
     = interaction_total skip (take i traces) + num_interactions vk * 2 ^ max (log_height v) skip"
  using assms by (simp add: take_Suc_conv_app_nth interaction_total_def)

lemma interaction_total_take_le: "interaction_total skip (take i traces) \<le> interaction_total skip traces"
proof -
  have "interaction_total skip (take i traces @ drop i traces)
      = interaction_total skip (take i traces) + interaction_total skip (drop i traces)"
    by (simp only: interaction_total_def map_append sum_list_append)
  then show ?thesis by simp
qed

lemma interaction_total_take_dvd:
  assumes "traces_of_key mvk traces" and "i < length traces" and "traces ! i = (a, vk, v)"
  shows "2 ^ max (log_height v) skip dvd interaction_total skip (take i traces)"
proof -
  have "j \<le> i \<Longrightarrow> 2 ^ max (log_height v) skip dvd interaction_total skip (take j traces)" for j
  proof (induction j)
    case (Suc j)
    obtain b wk w where t: "traces ! j = (b, wk, w)" by (cases "traces ! j")
    have "log_height v \<le> log_height w" using traces_of_key_nth(4) [OF assms, of j] t Suc.prems by simp
    then have "(2::nat) ^ max (log_height v) skip dvd 2 ^ max (log_height w) skip"
      by (intro le_imp_power_dvd) simp
    with Suc t assms(2) show ?case by (simp add: interaction_total_take [of j])
  qed (simp add: interaction_total_def)
  then show ?thesis by simp
qed

lemma eq_3b_Ok:
  fixes X :: "('f::field, 'ef::field) field_ext"
  assumes key: "traces_of_key mvk traces"
    and tot: "tot = interaction_total (l_skip (mvk_params mvk)) traces" "tot < 2 ^ 63"
    and n_logup: "n_logup = bit_length tot - l_skip (mvk_params mvk)" "tot = 0 \<or> l_skip (mvk_params mvk) < bit_length tot"
    and xi: "l_skip (mvk_params mvk) + n_logup \<le> length xi"
  shows "\<exists>eqs. eq_3b_per_trace X mvk (air_ids traces) (hypercube_dims (l_skip (mvk_params mvk)) traces) n_logup xi
      = (Ok eqs :: (_, 'e) res) \<and> length eqs = length traces \<and>
      (\<forall>i < length traces. length (eqs ! i) = num_interactions (fst (snd (traces ! i))))"
proof -
  let ?skip = "l_skip (mvk_params mvk)"
  let ?J = "\<lambda>i (idx, acc :: 'ef list list). idx = interaction_total ?skip (take i traces) \<and> length acc = i \<and>
      (\<forall>j < i. length (acc ! j) = num_interactions (fst (snd (traces ! j))))"
  have "\<exists>s'. rfold (eq_3b_trace X mvk (air_ids traces) n_logup xi) (enumerated (hypercube_dims ?skip traces)) (0, [])
      = (Ok s' :: (_, 'e) res) \<and> ?J (length (hypercube_dims ?skip traces)) s'"
  proof (rule rfold_enumerated_inv)
    fix i s assume "i < length (hypercube_dims ?skip traces)" and J: "?J i s"
    then have i: "i < length traces" by simp
    obtain a vk v where t: "traces ! i = (a, vk, v)" by (cases "traces ! i")
    obtain idx acc where s: "s = (idx, acc)" by force
    from J s have J': "idx = interaction_total ?skip (take i traces)" "length acc = i"
      "\<forall>j < i. length (acc ! j) = num_interactions (fst (snd (traces ! j)))" by auto
    note nth = air_ids_nth [OF t i] hypercube_dims_nth [OF t i, of ?skip]
    note vk = traces_of_key_nth(1,2) [OF key i t]
    let ?n = "int (log_height v) - int ?skip"
    show "\<exists>s'. eq_3b_trace X mvk (air_ids traces) n_logup xi (i, hypercube_dims ?skip traces ! i) s = (Ok s' :: (_, 'e) res) \<and> ?J (Suc i) s'"
    proof (cases "num_interactions vk = 0")
      case True
      with J' t show ?thesis
        by (auto simp: s eq_3b_trace_def nth i vk interaction_total_take [OF i t] nth_append less_Suc_eq)
    next
      case False
      let ?u = "2 ^ max (log_height v) ?skip :: nat"
      have fit: "idx + num_interactions vk * ?u \<le> tot"
        using interaction_total_take_le [of ?skip "Suc i" traces] by (simp add: J' tot interaction_total_take [OF i t])
      then have "?u \<le> tot" using False by (cases "num_interactions vk") auto
      then have "\<not> bit_length tot \<le> max (log_height v) ?skip" by (simp only: bit_length_le_iff not_less)
      then have lt: "max (log_height v) ?skip < bit_length tot" by (simp only: not_le)
      have "0 < ?u" by simp
      with \<open>?u \<le> tot\<close> have "0 < tot" by linarith
      with n_logup have bl: "?skip + n_logup = bit_length tot" by simp
      have "tot < 2 ^ bit_length tot" using bit_length_le_iff [of tot "bit_length tot"] by simp
      moreover have "bit_length tot < 64" using tot(2) bit_length_le_iff [of tot 63] by simp
      moreover have "lift_n ?n \<le> n_logup" using lift_n_height [of ?skip "log_height v"] lt bl by linarith
      moreover have "2 ^ (?skip + lift_n ?n) dvd idx"
        using interaction_total_take_dvd [OF key i t, of ?skip] by (simp add: J' lift_n_height)
      ultimately obtain es where es: "rfold (\<lambda>_. eq_3b_interaction X ?skip n_logup xi (lift_n ?n)) [0..<num_interactions vk] (idx, [])
          = (Ok (idx + num_interactions vk * ?u, es) :: (_, 'e) res)" "length es = num_interactions vk"
        using eq_3b_interactions [of ?skip n_logup "lift_n ?n" xi idx "num_interactions vk" tot X, where 'e = 'e] xi fit bl
        by (auto simp: lift_n_height)
      have "eq_3b_trace X mvk (air_ids traces) n_logup xi (i, ?n) (idx, acc)
          = (Ok (idx + num_interactions vk * ?u, acc @ [es]) :: (_, 'e) res)"
        using \<open>lift_n ?n \<le> n_logup\<close> False by (simp add: eq_3b_trace_def nth i vk es sub64_def)
      with J' t es(2) show ?thesis
        by (auto simp: s nth interaction_total_take [OF i t] nth_append less_Suc_eq)
    qed
  qed (simp add: interaction_total_def)
  then show ?thesis by (auto simp: eq_3b_per_trace_def)
qed

lemma length_scale_by_later [simp]: "length (scale_by_later rs es) = length es"
proof -
  have "length (fst (fold (\<lambda>i (es, r_rev_prod). (es[i := es ! i * r_rev_prod], r_rev_prod * rs ! i)) is (es, r))) = length es" for "is" r
    by (induction "is" arbitrary: es r) simp_all
  then show ?thesis by (simp add: scale_by_later_def)
qed

context field_tower
begin

lemma eq_ns_Ok:
  assumes "skip \<le> fe_adicity X" and "length rs = Suc n_max" and "skip + n_max \<le> length xi" and "0 < length xi"
  shows "\<exists>es sharps. eq_ns X skip (powers (2 ^ skip) (fe_gen X skip)) xi rs n_max = (Ok (es, sharps) :: (_, 'e) res) \<and>
     length es = Suc n_max \<and> length sharps = Suc n_max"
proof -
  let ?pows = "map (fe_embed X) (powers (2 ^ skip) (fe_gen X skip))"
  let ?xs = "take skip xi"
  have len: "length ?xs = skip" using assms(3) by simp
  have "?pows = map (\<lambda>i. fe_embed X (fe_gen X skip) ^ i) [0..<2 ^ skip]" by (simp add: powers_def)
  with ext.eq_sharp_assertion [of ?xs "rs ! 0"] assms(1) len
  have sharp: "eval_eq_sharp_uni ?pows ?xs (rs ! 0) = (Ok (eq_sharp_value ?pows ?xs (rs ! 0)) :: (_, 'e) res)"
    by (simp add: eval_eq_sharp_uni_def)
  have "\<exists>es' sharps'. rfold (eq_ns_step skip xi) ys (es, sharps) = (Ok (es', sharps') :: (_, 'e) res) \<and>
      length es' = length es + length ys \<and> length sharps' = length sharps + length ys"
    if "\<forall>(i, r) \<in> set ys. skip + i - 1 < length xi" for ys es sharps
    using that
  proof (induction ys arbitrary: es sharps)
    case (Cons y ys)
    obtain i r where y: "y = (i, r)" by force
    with Cons.prems have "skip + i - 1 < length xi" by simp
    then have "eq_ns_step skip xi y (es, sharps)
        = (Ok (es @ [last es * eq_mle_value [xi ! (skip + i - 1)] [r]], sharps @ [last sharps * eq_mle_value [xi ! (skip + i - 1)] [r]]) :: (_, 'e) res)"
      unfolding y eq_ns_step_def prod.case by (simp add: eval_eq_mle_def)
    with Cons.IH [of "es @ [last es * eq_mle_value [xi ! (skip + i - 1)] [r]]" "sharps @ [last sharps * eq_mle_value [xi ! (skip + i - 1)] [r]]"]
      Cons.prems show ?case by auto
  qed simp
  note loop = this
  have "\<forall>(i, r) \<in> set (drop 1 (enumerated rs)). skip + i - 1 < length xi"
  proof (clarify)
    fix i r assume "(i, r) \<in> set (drop 1 (enumerated rs))"
    then obtain k where "k < length rs - 1" "(i, r) = drop 1 (enumerated rs) ! k" by (auto simp: in_set_conv_nth)
    then have "i = Suc k" "k < n_max" using assms(2) by (auto simp del: upt_Suc)
    with assms(3) show "skip + i - 1 < length xi" by simp
  qed
  from loop [OF this] obtain es sharps where es:
    "rfold (eq_ns_step skip xi) (drop 1 (enumerated rs)) ([eval_eq_uni skip (xi ! 0) (rs ! 0)], [eq_sharp_value ?pows ?xs (rs ! 0)])
      = (Ok (es, sharps) :: (_, 'e) res)" "length es = Suc n_max" "length sharps = Suc n_max"
    using assms(2) by fastforce
  have sl: "slice xi 0 skip = (Ok ?xs :: (_, 'e) res)" using assms(3) by (simp add: slice_def)
  show ?thesis
    unfolding eq_ns_def sl using assms(2,4) es by (simp add: sharp)
qed

end

end
