(* ===== verification/BatchEval.thy ===== *)
theory BatchEval
  imports BatchSafety
begin

text \<open>
  The evaluation of the constraints and interactions of one trace at the opening point does
  not panic for a well-formed key and openings of the right shape, and with it the whole
  batched zerocheck and LogUp verifier.
\<close>

section \<open>Expressions of a well-formed DAG\<close>

lemma eval_expr_error_free:
  "eval_expr ev e = (Ok v :: (_, 'x) res) \<Longrightarrow> eval_expr ev e = (Ok v :: (_, 'y) res)"
  by (induction e arbitrary: v) (auto simp: res_simps)

lemma eval_nodes_error_free:
  "eval_nodes ev ns = (Ok vs :: (_, 'x) res) \<Longrightarrow> eval_nodes ev ns = (Ok vs :: (_, 'y) res)"
proof (induction ns arbitrary: vs rule: rev_induct)
  case (snoc n ns)
  have "eval_node ev us n = (Ok v :: (_, 'x) res) \<Longrightarrow> eval_node ev us n = (Ok v :: (_, 'y) res)" for us v
    by (cases n) (auto simp: res_simps)
  with snoc show ?case by (auto simp: eval_nodes_snoc res_simps)
qed simp

lemma rmap_index_Ok: "\<forall>i \<in> set is. i < length xs \<Longrightarrow> rmap (index xs) is = Ok (map ((!) xs) is)"
  by (rule rmap_total) simp

lemma eval_constraints_Ok:
  assumes dag: "wf_dag V dag" and vars: "\<And>v. v \<in> V \<Longrightarrow> eval_var ev v \<noteq> None"
  shows "\<exists>x. eval_constraints ev lambda (dag_constraints dag) = (Ok x :: (_, 'x) res)"
proof -
  let ?ns = "dag_nodes (dag_constraints dag)" and ?cs = "constraint_idx (dag_constraints dag)"
  obtain vs where vs: "eval_nodes ev ?ns = (Ok vs :: (_, 'x) res)" "length vs = length ?ns"
    using eval_nodes_total [of ?ns ev, where 'x = 'x] dag vars by (auto simp: wf_dag_def)
  have "rmap (\<lambda>(k, idx). rbind (index vs idx) (\<lambda>v. Ok (v * lambda ^ k))) (enumerated ?cs)
      = (Ok (map (\<lambda>(k, idx). vs ! idx * lambda ^ k) (enumerated ?cs)) :: (_, 'x) res)"
  proof (rule rmap_total)
    fix x assume x: "x \<in> set (enumerated ?cs)"
    obtain k idx where k: "x = (k, idx)" by force
    with x have "idx \<in> set ?cs" by (auto simp only: enumerated_mem nth_mem)
    then have "idx < length vs" using dag vs(2) by (simp add: wf_dag_def)
    with k show "(case x of (k, idx) \<Rightarrow> rbind (index vs idx) (\<lambda>v. Ok (v * lambda ^ k)))
        = (Ok (case x of (k, idx) \<Rightarrow> vs ! idx * lambda ^ k) :: (_, 'x) res)" by simp
  qed
  with vs(1) show ?thesis by (simp add: eval_constraints_def del: length_zip)
qed

lemma eval_interactions_Ok:
  assumes dag: "wf_dag V dag" and vars: "\<And>v. v \<in> V \<Longrightarrow> eval_var ev v \<noteq> None"
    and len: "length eqs = length (dag_interactions dag)"
  shows "\<exists>x. eval_interactions ev beta dag eqs = (Ok x :: (_, 'x) res)"
proof -
  let ?ns = "dag_nodes (dag_constraints dag)"
  obtain vs where vs: "eval_nodes ev ?ns = (Ok vs :: (_, unit) res)" "length vs = length ?ns"
    using eval_nodes_total [of ?ns ev, where 'x = unit] dag vars by (auto simp: wf_dag_def)
  have "dag_constraints dag = \<lparr>dag_nodes = ?ns, constraint_idx = constraint_idx (dag_constraints dag)\<rparr>" by simp
  with rebuild_values [OF vs(1), of "constraint_idx (dag_constraints dag)", where 'x = 'x] obtain es where
    es: "to_symbolic_expressions (dag_constraints dag) = (Ok es :: (_, 'x) res)" "length es = length vs"
    "\<forall>i < length vs. eval_expr ev (es ! i) = (Ok (vs ! i) :: (_, unit) res)" by auto
  have val: "eval_expr ev (es ! i) = (Ok (vs ! i) :: (_, 'x) res)" if "i < length ?ns" for i
    using es(3) that vs(2) by (auto intro: eval_expr_error_free)
  let ?conv = "\<lambda>i. \<lparr>message = map ((!) es) (message i), count = es ! count i, bus_index = bus_index i, count_weight = count_weight i\<rparr>"
  have range: "\<forall>k \<in> set (count i # message i). k < length ?ns" if "i \<in> set (dag_interactions dag)" for i
    using dag that by (auto simp: wf_dag_def interaction_in_range_def)
  have cs: "rmap (index es) (constraint_idx (dag_constraints dag)) = (Ok (map ((!) es) (constraint_idx (dag_constraints dag))) :: (_, 'x) res)"
    using dag es(2) vs(2) by (intro rmap_index_Ok) (simp add: wf_dag_def)
  have ints: "rmap (\<lambda>i. rbind (rmap (index es) (message i)) (\<lambda>fields.
         rbind (index es (count i)) (\<lambda>c.
         Ok \<lparr>message = fields, count = c, bus_index = bus_index i, count_weight = count_weight i\<rparr>))) (dag_interactions dag)
      = (Ok (map ?conv (dag_interactions dag)) :: (_, 'x) res)"
  proof (rule rmap_total)
    fix i assume "i \<in> set (dag_interactions dag)"
    from range [OF this] have r: "\<forall>k \<in> set (message i). k < length es" "count i < length es"
      using es(2) vs(2) by simp_all
    show "rbind (rmap (index es) (message i)) (\<lambda>fields. rbind (index es (count i)) (\<lambda>c.
         Ok \<lparr>message = fields, count = c, bus_index = bus_index i, count_weight = count_weight i\<rparr>)) = (Ok (?conv i) :: (_, 'x) res)"
      unfolding rmap_index_Ok [OF r(1)] using r(2) by simp
  qed
  have "rmap (eval_num_denom ev beta) (map ?conv (dag_interactions dag))
      = (Ok (map (\<lambda>i. (vs ! count (i :: nat interaction), fold (\<lambda>(k, x) acc. acc + x * beta ^ k)
                (enumerated (map ((!) vs) (message i) @ [of_nat (bus_index i) + 1])) 0)) (dag_interactions dag)) :: (_, 'x) res)"
    unfolding rmap_Ok_iff list_all2_map1 list_all2_map2
  proof (rule list.rel_refl_strong)
    fix i assume "i \<in> set (dag_interactions dag)"
    from range [OF this] have r: "\<forall>k \<in> set (message i). k < length ?ns" "count i < length ?ns" by simp_all
    have "rmap (eval_expr ev) (map ((!) es) (message i)) = (Ok (map ((!) vs) (message i)) :: (_, 'x) res)"
      unfolding rmap_Ok_iff list_all2_map1 list_all2_map2 using r(1) val by (auto intro: list.rel_refl_strong)
    with val [OF r(2)] show "eval_num_denom ev beta (?conv i) = (Ok (vs ! count i, fold (\<lambda>(k, x) acc. acc + x * beta ^ k)
                (enumerated (map ((!) vs) (message i) @ [of_nat (bus_index i) + 1])) 0) :: (_, 'x) res)"
      by (simp add: eval_num_denom_def del: zip_upt_map length_zip length_map length_append)
  qed
  then show ?thesis using len
    by (simp add: eval_interactions_def symbolic_constraints_of_def es(1) cs ints del: length_zip)
qed

section \<open>The evaluator of a trace\<close>

lemma length_view: "length o' = w * rot_factor vk \<Longrightarrow> length (column_openings_by_rot o' (need_rot (vk_params vk))) = w"
  by (simp add: length_column_openings_by_rot rot_factor_def split: if_splits)

lemma view_at_some: "i < length vp \<Longrightarrow> view_at vp i offset \<noteq> None"
  by (simp add: view_at_def)

lemma trace_views_Ok:
  fixes parts :: "'ef::field list list"
  assumes "wf_key vk" and "shaped_parts vk parts"
  shows "\<exists>prep main. trace_views vk parts = (Ok (prep, main) :: (_, 'x) res) \<and>
     map_option length prep = tw_preprocessed (vp_width (vk_params vk)) \<and>
     map length main = tw_cached_mains (vp_width (vk_params vk)) @ [tw_common_main (vp_width (vk_params vk))]"
proof -
  let ?w = "vp_width (vk_params vk)" and ?rot = "need_rot (vk_params vk)"
  have prep: "preprocessed_data vk \<noteq> None \<longleftrightarrow> tw_preprocessed ?w \<noteq> None" using assms(1) by (auto simp: wf_key_def)
  from assms(2) have lens: "map length parts = map (\<lambda>w. w * rot_factor vk) (tw_common_main ?w # other_widths vk)"
    by (simp add: shaped_parts_def)
  then obtain main rest where parts: "parts = main # rest" by (cases parts) auto
  have views: "map (length \<circ> (\<lambda>claims. column_openings_by_rot claims ?rot)) cs = ws"
    if "map length cs = map (\<lambda>w. w * rot_factor vk) ws" for cs :: "'ef list list" and ws
    using that by (auto simp: list_eq_iff_nth_eq length_view)
  have main: "length (column_openings_by_rot main ?rot) = tw_common_main ?w"
    using lens by (intro length_view) (simp add: parts)
  show ?thesis
  proof (cases "tw_preprocessed ?w")
    case None
    with prep have "preprocessed_data vk = None" by blast
    moreover have "map length rest = map (\<lambda>w. w * rot_factor vk) (tw_cached_mains ?w)"
      using lens None by (simp add: parts other_widths_def)
    note views [OF this]
    ultimately show ?thesis using None main by (simp add: trace_views_def parts slice_def comp_def Let_def)
  next
    case (Some pw)
    with prep obtain pd where pd: "preprocessed_data vk = Some pd" by blast
    from lens Some obtain p cs where rest: "rest = p # cs" by (cases rest) (auto simp: parts other_widths_def)
    have "map length cs = map (\<lambda>w. w * rot_factor vk) (tw_cached_mains ?w)" "length p = pw * rot_factor vk"
      using lens Some by (simp_all add: parts rest other_widths_def)
    note views [OF this(1)] length_view [OF this(2)]
    with Some main pd show ?thesis by (simp add: trace_views_def parts rest slice_def comp_def Let_def)
  qed
qed

lemma wf_var_value:
  assumes "wf_var vk v" and "map_option length prep = tw_preprocessed (vp_width (vk_params vk))"
    and "map length main = tw_cached_mains (vp_width (vk_params vk)) @ [tw_common_main (vp_width (vk_params vk))]"
    and "length pvs = num_public_values (vk_params vk)"
    and ce: "ce_preprocessed ce = prep" "ce_partitioned_main ce = main" "ce_public_values ce = pvs"
  shows "eval_var (evaluator_of X ce) v \<noteq> None"
proof -
  let ?w = "vp_width (vk_params vk)"
  obtain e i where v: "v = SymbolicVariable e i" by (cases v)
  have main: "p < length main \<and> i < length (main ! p)" if "p < length (main_widths ?w)" "i < main_widths ?w ! p" for p
  proof -
    have len: "length main = Suc (length (tw_cached_mains ?w))" using assms(3) by (metis length_map length_append_singleton)
    with that(1) have p: "p < length main" by (auto simp: main_widths_def split: if_splits)
    have "length (main ! p) = (tw_cached_mains ?w @ [tw_common_main ?w]) ! p"
      using assms(3) p by (metis nth_map)
    with that p show ?thesis by (auto simp: main_widths_def nth_append split: if_splits)
  qed
  show ?thesis
  proof (cases e)
    case (Preprocessed offset)
    with assms(1) v have i: "i < (case tw_preprocessed ?w of None \<Rightarrow> 0 | Some w \<Rightarrow> w)"
      by (auto simp: wf_var_def opened_cell_def)
    then obtain vp where "prep = Some vp" "i < length vp" using assms(2) by (cases prep; cases "tw_preprocessed ?w") auto
    with v Preprocessed show ?thesis by (simp add: evaluator_of_def ce_eval_var_def ce view_at_def Let_def)
  next
    case (Main p offset)
    with assms(1) v have "p < length (main_widths ?w)" "i < main_widths ?w ! p"
      by (auto simp: wf_var_def opened_cell_def)
    with main v Main show ?thesis by (auto simp: evaluator_of_def ce_eval_var_def ce view_at_def Let_def)
  qed (use assms v ce in \<open>auto simp: wf_var_def opened_cell_def evaluator_of_def ce_eval_var_def Let_def\<close>)
qed

lemma trace_point_Ok:
  assumes "(2 :: 'f::field) \<noteq> 0" and "rs \<noteq> []" and "skip < 64" and "lift_n (int h - int skip) < length rs"
  shows "\<exists>l r0 rest c. trace_point skip rs (int h - int skip) = (Ok (l, r0 # rest, c :: 'f) :: (_, 'x) res) \<and> l \<le> skip"
proof (cases "h < skip")
  case True
  have "(int skip + (int h - int skip)) mod 2 ^ 64 = int h" using True assms(3) by simp
  moreover have "nat \<bar>int h - int skip\<bar> < 64" using True assms(3) by simp
  then have "shl64 1 (nat \<bar>int h - int skip\<bar>) = (Ok (2 ^ nat \<bar>int h - int skip\<bar>) :: (_, 'x) res)" by simp
  moreover have "of_nat (2 ^ nat \<bar>int h - int skip\<bar>) \<noteq> (0 :: 'f)" using assms(1) by simp
  ultimately show ?thesis using True assms(2)
    by (simp add: trace_point_def checked_inverse_def)
next
  case False
  then have n: "nat (int h - int skip) = h - skip" "\<not> int h - int skip < 0" by auto
  with assms(4) have "h - skip < length rs" by (simp add: lift_n_def)
  moreover obtain r0 rest where "take (h - skip + 1) rs = r0 # rest"
    using assms(2) by (cases rs) auto
  ultimately show ?thesis using n by (simp add: trace_point_def slice_def Suc_le_eq)
qed

definition public_values_fit :: "('f, 'd) traces \<Rightarrow> 'f list list \<Rightarrow> bool" where
  "public_values_fit traces public_values \<longleftrightarrow>
     (\<forall>(a, vk, _) \<in> set traces. a < length public_values \<and> length (public_values ! a) = num_public_values (vk_params vk))"

text \<open>The heights descend, so the first trace has the largest dimension.\<close>

lemma n_max_first:
  assumes "traces_of_key mvk traces"
  shows "lift_n (Max (set (hypercube_dims skip traces))) = log_height (snd (snd (hd traces))) - skip"
    and "traces ! i = (a, vk, v) \<Longrightarrow> i < length traces \<Longrightarrow> lift_n (int (log_height v) - int skip) \<le> log_height (snd (snd (hd traces))) - skip"
proof -
  from assms obtain a0 vk0 v0 ts where ts: "traces = (a0, vk0, v0) # ts"
    by (cases traces) (auto simp: traces_of_key_def)
  have le: "log_height v \<le> log_height v0" if "(a, vk, v) \<in> set traces" for a vk v
    using assms that by (auto simp: traces_of_key_def ts)
  have "Max (set (hypercube_dims skip traces)) = int (log_height v0) - int skip"
  proof (rule Max_eqI)
    show "x \<le> int (log_height v0) - int skip" if "x \<in> set (hypercube_dims skip traces)" for x
      using that le by (auto simp: hypercube_dims_def)
  qed (auto simp: hypercube_dims_def ts)
  then show "lift_n (Max (set (hypercube_dims skip traces))) = log_height (snd (snd (hd traces))) - skip"
    by (auto simp: lift_n_def ts)
  show "lift_n (int (log_height v) - int skip) \<le> log_height (snd (snd (hd traces))) - skip"
    if "traces ! i = (a, vk, v)" "i < length traces"
  proof -
    have "(a, vk, v) \<in> set traces" using that nth_mem by force
    from le [OF this] show ?thesis by (auto simp: lift_n_def ts)
  qed
qed

context field_tower
begin

lemma eval_trace_Ok:
  fixes mvk :: "('f, 'd) multi_stark_vk0" and rs :: "'ef list"
  assumes key: "traces_of_key mvk traces" and i: "i < length traces" "traces ! i = (a, vk, v)"
    and wf: "wf_key vk" and parts: "shaped_parts vk parts"
    and skip: "l_skip (mvk_params mvk) \<le> fe_adicity X" "l_skip (mvk_params mvk) < 64"
    and lift: "lift_n (int (log_height v) - int (l_skip (mvk_params mvk))) < length rs"
    and lens: "length es = length rs" "length sharps = length rs"
    and pvs: "a < length public_values" "length (public_values ! a) = num_public_values (vk_params vk)"
    and eq_3bs: "i < length eq_3bs" "length (eq_3bs ! i) = num_interactions vk"
  shows "\<exists>x. eval_trace X mvk public_values lambda beta rs eq_3bs (es, sharps) i a
      (int (log_height v) - int (l_skip (mvk_params mvk))) parts = (Ok x :: (_, 'x) res)"
proof -
  let ?skip = "l_skip (mvk_params mvk)"
  let ?n = "int (log_height v) - int ?skip"
  note vk = traces_of_key_nth(1,2) [OF key i]
  from trace_views_Ok [OF wf parts, where 'x = 'x] obtain prep main where views:
    "trace_views vk parts = (Ok (prep, main) :: (_, 'x) res)"
    "map_option length prep = tw_preprocessed (vp_width (vk_params vk))"
    "map length main = tw_cached_mains (vp_width (vk_params vk)) @ [tw_common_main (vp_width (vk_params vk))]" by blast
  have "rs \<noteq> []" using lift by auto
  from trace_point_Ok [OF base.two_nonzero this skip(2) lift, where 'x = 'x] obtain l r0 rest c where point:
    "trace_point ?skip rs ?n = (Ok (l, r0 # rest, c :: 'f) :: (_, 'x) res)" "l \<le> ?skip" by blast
  let ?pvs = "public_values ! a"
  obtain ce where ce: "evaluator_new X prep main ?pvs (r0 # rest) l = (Ok ce :: (_, 'x) res)"
    "ce_preprocessed ce = prep" "ce_partitioned_main ce = main" "ce_public_values ce = ?pvs"
    using evaluator_new_Ok [of l prep main ?pvs r0 rest] point(2) skip by fastforce
  have vars: "eval_var (evaluator_of X ce) v \<noteq> None" if "v \<in> {v. wf_var vk v}" for v
    using that by (intro wf_var_value [OF _ views(2,3) pvs(2) ce(2-4)]) simp
  have dag: "wf_dag {v. wf_var vk v} (vk_constraints vk)" using wf by (simp add: wf_key_def)
  from eval_constraints_Ok [OF dag vars, where 'x = 'x] obtain expr where expr:
    "eval_constraints (evaluator_of X ce) lambda (dag_constraints (vk_constraints vk)) = (Ok expr :: (_, 'x) res)" by blast
  have "length (eq_3bs ! i) = length (dag_interactions (vk_constraints vk))"
    using eq_3bs(2) by (simp add: num_interactions_def)
  from eval_interactions_Ok [OF dag vars this, where 'x = 'x] obtain num denom where ints:
    "eval_interactions (evaluator_of X ce) beta (vk_constraints vk) (eq_3bs ! i) = (Ok (num, denom) :: (_, 'x) res)"
    by fastforce
  show ?thesis
    using lift lens eq_3bs(1) pvs(1)
    by (simp add: eval_trace_def vk views(1) point(1) ce(1) expr ints)
qed

end

context verifier_env
begin

lemma safe_trace_rounds:
  fixes mvk :: "('f, 'd) multi_stark_vk0" and rs :: "'ef list" and bp :: "'ef batch_constraint_proof"
  assumes key: "traces_of_key mvk traces" and wf: "\<forall>vk \<in> set (per_air mvk). wf_key vk"
    and parts: "list_all2 (\<lambda>parts (_, vk, _). shaped_parts vk parts) openings traces"
    and skip: "l_skip (mvk_params mvk) \<le> fe_adicity X" "l_skip (mvk_params mvk) < 64"
    and rs: "length rs = Suc (log_height (snd (snd (hd traces))) - l_skip (mvk_params mvk))"
    and lens: "length (fst eqs) = length rs" "length (snd eqs) = length rs"
    and pvs: "public_values_fit traces public_values"
    and eq_3bs: "length eq_3bs = length traces" "\<forall>i < length traces. length (eq_3bs ! i) = num_interactions (fst (snd (traces ! i)))"
    and rots: "length need_rots = length traces"
  shows "vsafe inv (vfor (trace_round T X (air_ids traces) (hypercube_dims (l_skip (mvk_params mvk)) traces) need_rots
      (eval_trace X mvk public_values lambda beta rs eq_3bs eqs)) (enumerated openings) s :: (_, 'ts, 'x) vm) (\<lambda>_. True)"
proof -
  let ?skip = "l_skip (mvk_params mvk)"
  have "length openings = length traces" using parts by (rule list_all2_lengthD)
  note len = this
  have step: "vsafe inv (trace_round T X (air_ids traces) (hypercube_dims ?skip traces) need_rots
      (eval_trace X mvk public_values lambda beta rs eq_3bs eqs) (i, openings ! i) s :: (_, 'ts, 'x) vm) (\<lambda>_. True)"
    if i: "i < length openings" for i s
  proof -
    obtain a vk v where t: "traces ! i = (a, vk, v)" by (cases "traces ! i")
    have i': "i < length traces" using i len by simp
    obtain ie ce where s: "s = (ie, ce)" by force
    obtain es sharps where eqs: "eqs = (es, sharps)" by force
    note vk = traces_of_key_nth(1,2) [OF key i' t]
    have "wf_key vk" using wf vk nth_mem by blast
    moreover have "shaped_parts vk (openings ! i)" using list_all2_nthD2 [OF parts i'] t by simp
    moreover have "lift_n (int (log_height v) - int ?skip) < length rs"
      using n_max_first(2) [OF key t i', of ?skip] rs by simp
    moreover have "a < length public_values" "length (public_values ! a) = num_public_values (vk_params vk)"
      using pvs nth_mem [OF i'] t by (auto simp: public_values_fit_def)
    moreover have "length (eq_3bs ! i) = num_interactions vk" "i < length eq_3bs" using eq_3bs i' t by auto
    ultimately have "\<exists>x. eval_trace X mvk public_values lambda beta rs eq_3bs (es, sharps) i a
      (int (log_height v) - int ?skip) (openings ! i) = (Ok x :: (_, 'x) res)"
      using lens by (intro eval_trace_Ok [OF key i' t _ _ skip]) (simp_all add: eqs)
    then obtain x y z where x: "eval_trace X mvk public_values lambda beta rs eq_3bs (es, sharps) i a
      (int (log_height v) - int ?skip) (openings ! i) = (Ok (x, y, z) :: (_, 'x) res)" by auto
    show ?thesis
      unfolding trace_round_def s eqs prod.case
      apply (rule vsafe_lift_bind [of _ a])
       apply (use i' t in \<open>simp add: air_ids_nth\<close>)
      apply (rule vsafe_lift_bind [of _ "int (log_height v) - int ?skip"])
       apply (use i' t in \<open>simp add: hypercube_dims_nth\<close>)
      apply (rule vsafe_lift_bind [of _ "need_rots ! i"])
       apply (use i' rots in simp)
      apply (rule vsafe_bind [OF vsafe_do_all [OF safe_observe_pairs]])
      apply (rule vsafe_lift_bind [OF x])
      by (simp add: vsafe_ret)
  qed
  show ?thesis by (rule vsafe_for_enumerated [where J = "\<lambda>_ _. True"]) (use step in auto)
qed

lemma safe_final_evaluation:
  fixes mvk :: "('f, 'd) multi_stark_vk0" and bp :: "'ef batch_constraint_proof" and rs :: "'ef list"
  assumes wf: "wf_mvk mvk" and prot: "wf_protocol X (mvk_params mvk)"
    and traces: "traces = per_trace mvk pr" and key: "traces_of_key mvk traces"
    and t: "t = interaction_total (l_skip (mvk_params mvk)) traces" "t < 2 ^ 63"
    and n_logup: "n_logup = bit_length t - l_skip (mvk_params mvk)"
    and n_max: "n_max = log_height (snd (snd (hd traces))) - l_skip (mvk_params mvk)"
    and batch: "shaped_batch (mvk_params mvk) traces bp" and pvs: "public_values_fit traces public_values"
    and rs: "length rs = Suc n_max" and xi: "l_skip (mvk_params mvk) + max n_max n_logup \<le> length xi"
  shows "vsafe inv (final_evaluation T X mvk public_values bp (air_ids traces) (hypercube_dims (l_skip (mvk_params mvk)) traces)
      (powers (2 ^ l_skip (mvk_params mvk)) (fe_gen X (l_skip (mvk_params mvk)))) n_logup n_max xi rs lambda beta mu cur_sum)
     (\<lambda>rs'. length rs' = Suc n_max)"
proof -
  let ?skip = "l_skip (mvk_params mvk)"
  have wfk: "\<forall>vk \<in> set (per_air mvk). wf_key vk" using wf by (simp add: wf_mvk_def)
  have p: "0 < ?skip" "?skip \<le> fe_adicity X" "?skip < 64" using prot by (auto simp: wf_protocol_def log_stacked_height_def)
  have logup: "t = 0 \<or> ?skip < bit_length t" using trace_interactions(3) [OF wf traces key] by (simp add: t)
  have "?skip + n_logup \<le> length xi" "?skip + n_max \<le> length xi" using xi by simp_all
  note xi' = this
  have "0 < length xi" using p(1) xi'(1) by linarith
  note xi' = xi' this
  from eq_3b_Ok [OF key t n_logup logup xi'(1), of X, where 'e = "'ef batch_error"] obtain eq_3bs where eq_3bs:
    "eq_3b_per_trace X mvk (air_ids traces) (hypercube_dims ?skip traces) n_logup xi = (Ok eq_3bs :: (_, 'ef batch_error) res)"
    "length eq_3bs = length traces" "\<forall>i < length traces. length (eq_3bs ! i) = num_interactions (fst (snd (traces ! i)))" by blast
  from eq_ns_Ok [OF p(2) rs xi'(2,3), where 'e = "'ef batch_error"] obtain es sharps where eqs:
    "eq_ns X ?skip (powers (2 ^ ?skip) (fe_gen X ?skip)) xi rs n_max = (Ok (es, sharps) :: (_, 'ef batch_error) res)"
    "length es = Suc n_max" "length sharps = Suc n_max" by blast
  let ?rots = "map (\<lambda>air_idx. need_rot (vk_params (per_air mvk ! air_idx))) (air_ids traces)"
  have rots: "rmap (\<lambda>air_idx. rbind (index (per_air mvk) air_idx) (\<lambda>vk. Ok (need_rot (vk_params vk)))) (air_ids traces)
      = (Ok ?rots :: (_, 'ef batch_error) res)"
    by (rule rmap_total) (use key in \<open>auto simp: traces_of_key_def air_ids_def\<close>)
  have parts: "list_all2 (\<lambda>parts (_, vk, _). shaped_parts vk parts) (column_openings bp) traces"
    using batch by (auto simp: shaped_batch_def)
  have "\<forall>o' \<in> set (column_openings bp). o' \<noteq> []"
    using parts by (fastforce simp: shaped_parts_def list_all2_conv_all_nth in_set_conv_nth)
  then have common: "vsafe inv (observe_common_main T (fe_ops X) ?rots (column_openings bp) :: (_, 'ts, 'ef batch_error) vm) (\<lambda>_. True)"
    using list_all2_lengthD [OF parts] by (intro safe_observe_common_main) simp_all
  have rs': "length rs = Suc (log_height (snd (snd (hd traces))) - ?skip)" using rs n_max by simp
  show ?thesis
    unfolding final_evaluation_def
    apply (rule vsafe_lift_bind [OF eq_3bs(1)])
    apply (rule vsafe_lift_bind [OF eqs(1)])
    apply (rule vsafe_lift_bind [OF rots])
    apply (rule vsafe_bind [OF common])
    apply (rule vsafe_bind2 [OF safe_trace_rounds [OF key wfk parts p(2,3) rs' _ _ pvs eq_3bs(2,3)]])
       apply (simp_all add: eqs(2,3) rs)
    by (intro vsafe_check_bind vsafe_ret) (rule rs)
qed

lemma safe_zerocheck:
  fixes mvk :: "('f, 'd) multi_stark_vk0" and bp :: "'ef batch_constraint_proof" and gkr :: "('f, 'ef) gkr_proof"
  assumes wf: "wf_mvk mvk" and prot: "wf_protocol X (mvk_params mvk)"
    and traces: "traces = per_trace mvk pr" and key: "traces_of_key mvk traces"
    and tot: "interaction_total (l_skip (mvk_params mvk)) traces < 2 ^ 63"
    and batch: "shaped_batch (mvk_params mvk) traces bp" and pvs: "public_values_fit traces public_values"
  shows "vsafe inv (verify_zerocheck_and_logup T X mvk public_values gkr bp (air_ids traces)
      (hypercube_dims (l_skip (mvk_params mvk)) traces) (powers (2 ^ l_skip (mvk_params mvk)) (fe_gen X (l_skip (mvk_params mvk)))))
     (\<lambda>rs. length rs = Suc (log_height (snd (snd (hd traces))) - l_skip (mvk_params mvk)))"
proof -
  let ?p = "mvk_params mvk"
  let ?skip = "l_skip ?p"
  let ?n_max = "log_height (snd (snd (hd traces))) - ?skip"
  have p: "wf_params ?p" using wf by (auto simp: wf_mvk_def)
  have pr: "0 < ?skip" "nodes_distinct TYPE('f) (max_constraint_degree ?p + 1)" "grindable X (logup_pow_bits (logup ?p))"
    using prot by (auto simp: wf_protocol_def)
  note ints = trace_interactions [OF wf traces key]
  have total: "total_interactions mvk (air_ids traces) (hypercube_dims ?skip traces)
      = (Ok (interaction_total ?skip traces) :: (_, 'ef batch_error) res)"
    unfolding total_interactions_Ok [OF key] by (rule ints(1))
  have ns: "hypercube_dims ?skip traces \<noteq> []" using key by (auto simp: traces_of_key_def hypercube_dims_def)
  have b: "length (batch_univariate_round_coeffs bp) = (max_constraint_degree ?p + 1) * (2 ^ ?skip - 1) + 1"
    "length (batch_sumcheck_round_polys bp) = ?n_max"
    "\<forall>evals \<in> set (batch_sumcheck_round_polys bp). length evals = max_constraint_degree ?p + 1"
    using batch by (auto simp: shaped_batch_def)
  show ?thesis
    unfolding verify_zerocheck_and_logup_def Let_def n_max_first(1) [OF key]
    apply (rule vsafe_bind [OF safe_witness [OF pr(3)]])
    apply (rule vsafe_check_bind)
    apply (rule vsafe_bind [OF safe_sample_ext])
    apply (rule vsafe_bind [OF safe_sample_ext])
    apply (rule vsafe_lift_bind [OF total])
    apply (rule vsafe_lift_bind [OF ints(2)])
    apply (rule vsafe_bind3 [OF safe_gkr_claims])
     apply (use pr(1) in simp)
    apply (rule vsafe_assert_bind [OF ns])
    apply (rule vsafe_bind [OF safe_extend_xi])
    apply (rule vsafe_bind [OF safe_sample_ext])
    apply (rule vsafe_bind2 [OF safe_subtract_terms])
    apply (rule vsafe_check_bind)
    apply (rule vsafe_check_bind)
    apply (rule vsafe_bind [OF safe_sample_ext])
    apply (rule vsafe_bind2 [OF safe_univariate_round [OF p b(1)]])
    apply (rule vsafe_bind2 [OF safe_sumcheck_rounds [OF pr(2) _ b(2,3)]])
     apply simp
    apply (rule safe_final_evaluation [OF wf prot traces key refl tot refl refl batch pvs])
     apply simp
    apply simp
    done
qed

end

section \<open>A skip domain of one point\<close>

text \<open>\<open>vruns I m Q\<close>: from a state with \<open>I\<close> the step returns; \<open>vpanics I m\<close>: it panics.\<close>

definition vruns :: "('ts \<Rightarrow> bool) \<Rightarrow> ('a, 'ts, 'e) vm \<Rightarrow> ('a \<Rightarrow> bool) \<Rightarrow> bool" where
  "vruns I m Q \<longleftrightarrow> (\<forall>ts. I ts \<longrightarrow> (\<exists>x ts'. m ts = Ok (x, ts') \<and> I ts' \<and> Q x))"

definition vpanics :: "('ts \<Rightarrow> bool) \<Rightarrow> ('a, 'ts, 'e) vm \<Rightarrow> bool" where
  "vpanics I m \<longleftrightarrow> (\<forall>ts. I ts \<longrightarrow> m ts = Panic)"

lemma vpanics_bind: "vruns I m Q \<Longrightarrow> (\<And>x. Q x \<Longrightarrow> vpanics I (f x)) \<Longrightarrow> vpanics I (vbind m f)"
  by (fastforce simp: vruns_def vpanics_def vbind_def)

lemma vpanics_bind2: "vruns I m Q \<Longrightarrow> (\<And>a b. Q (a, b) \<Longrightarrow> vpanics I (f a b)) \<Longrightarrow> vpanics I (vbind m (\<lambda>(a, b). f a b))"
  by (rule vpanics_bind [where Q = Q]) auto

lemma vpanics_lift_bind: "r = Ok x \<Longrightarrow> vpanics I (f x) \<Longrightarrow> vpanics I (vbind (vlift r) f)"
  by (simp add: vpanics_def vbind_def vlift_def)

lemma vpanics_lift: "r = Panic \<Longrightarrow> vpanics I (vbind (vlift r) f)"
  by (simp add: vpanics_def vbind_def vlift_def)

lemma vpanics_check_bind: "b \<Longrightarrow> vpanics I (f ()) \<Longrightarrow> vpanics I (vbind (vcheck b e) f)"
  by (simp add: vpanics_def vbind_def vlift_def vcheck_def)

lemma vpanics_assert_bind: "b \<Longrightarrow> vpanics I (f ()) \<Longrightarrow> vpanics I (vbind (vassert b) f)"
  by (simp add: vpanics_def vbind_def vlift_def vassert_def)

lemma vpanics_ret_bind: "vpanics I (f x) \<Longrightarrow> vpanics I (vbind (vret x) f)"
  by (simp add: vpanics_def vbind_def vret_def)

lemma vruns_ret: "Q x \<Longrightarrow> vruns I (vret x) Q"
  by (simp add: vruns_def vret_def)

lemma vruns_bind: "vruns I m R \<Longrightarrow> (\<And>x. R x \<Longrightarrow> vruns I (f x) Q) \<Longrightarrow> vruns I (vbind m f) Q"
  by (fastforce simp: vruns_def vbind_def)

context verifier_env
begin

lemma runs_sample: "vruns inv (v_sample_ext T K) (\<lambda>_. True)"
  unfolding vruns_def
proof (intro allI impI)
  fix s assume "inv s"
  from sample_ext_total [OF this, of K] obtain x s' where "sample_ext T K s = Some (x, s')" "inv s'" by blast
  then show "\<exists>x ts'. v_sample_ext T K s = Ok (x, ts') \<and> inv ts' \<and> True" by (simp add: vop_def)
qed

lemma runs_observe: "vruns inv (v_observe_ext T K x) (\<lambda>_. True)"
  unfolding vruns_def
proof (intro allI impI)
  fix s assume "inv s"
  from observe_ext_total [OF this, of K x] obtain s' where "observe_ext T K s x = Some s'" "inv s'" by blast
  then show "\<exists>u ts'. v_observe_ext T K x s = Ok (u, ts') \<and> inv ts' \<and> True" by (simp add: vact_def)
qed

lemma zero_skip:
  fixes mvk :: "('f, 'd) multi_stark_vk0" and bp :: "'ef batch_constraint_proof" and gkr :: "('f, 'ef) gkr_proof"
  assumes p: "l_skip (mvk_params mvk) = 0" "logup_pow_bits (logup (mvk_params mvk)) = 0"
      "max_constraint_degree (mvk_params mvk) < 2 ^ 63"
    and vk: "per_air mvk = [vk]" "num_interactions vk = 0"
    and pr: "q0_claim gkr = 1" "numerator_term_per_air bp = [0]" "denominator_term_per_air bp = [0]"
      "batch_univariate_round_coeffs bp = [0]"
  shows "vpanics inv (verify_zerocheck_and_logup T X mvk pvs gkr bp [0] [0] pows)"
proof -
  have tot: "total_interactions mvk [0] [0] = (Ok 0 :: (_, 'ef batch_error) res)"
    by (simp add: total_interactions_def vk p lift_n_def shl64_def add64_def)
  have logup: "calculate_n_logup 0 0 = (Ok 0 :: (_, 'ef batch_error) res)" by (simp add: calculate_n_logup_def)
  have wit: "vruns inv (v_check_witness T (fe_ops X) 0 w) (\<lambda>b. b)" for w
    by (auto simp: vruns_def vop_def check_witness_def)
  have claims: "vruns inv (gkr_claims T (fe_ops X) gkr 0 (0 + 0) alpha) (\<lambda>y. y = (0, alpha, []))" for alpha
    unfolding gkr_claims_def pr(1) by (simp add: vruns_def vbind_def vcheck_def vlift_def vret_def)
  have xi: "extend_xi T (fe_ops X) (0 + max (lift_n (Max (set [0]))) 0) [] = vret []"
    by (simp add: extend_xi_def lift_n_def)
  have terms: "vruns inv (subtract_terms T (fe_ops X) [0] [0] (0, alpha)) (\<lambda>y. y = (0, alpha))" for alpha :: 'ef
    unfolding subtract_terms_def
    apply simp
    apply (rule vruns_bind [where R = "\<lambda>y. y = (0, alpha)"])
     apply (rule vruns_bind [OF runs_observe], rule vruns_bind [OF runs_observe], rule vruns_ret, simp)
    apply (simp add: vruns_ret)
    done
  have "univariate_degree (max_constraint_degree (mvk_params mvk) + 1) 0 = (Ok 0 :: (_, 'ef batch_error) res)"
    using univariate_degree_Ok [of 0 "max_constraint_degree (mvk_params mvk) + 1"] p(3) by simp
  note deg = this [unfolded Suc_eq_plus1 [symmetric]]
  have uni: "vruns inv (univariate_round T (fe_ops X) (mvk_params mvk) [0] 0) (\<lambda>_. True)"
    unfolding univariate_round_def p(1)
    apply (rule vruns_bind [of _ _ "\<lambda>_. True"])
     apply (simp add: vdo_all_def vruns_bind [OF runs_observe] vruns_ret)
    apply (rule vruns_bind [OF runs_sample])
    by (simp add: vruns_def vbind_def vlift_def vassert_def vcheck_def vret_def deg sum_univ_domain_def step_by_def div_ceil_def)
  have hash: "mu_hash mu [0] [0] = 0" for mu :: 'ef by (simp add: mu_hash_def)
  have eq3b: "eq_3b_per_trace X mvk [0] [0] 0 [] = (Ok [[]] :: (_, 'ef batch_error) res)"
    by (simp add: eq_3b_per_trace_def eq_3b_trace_def vk)
  have ns: "eq_ns X 0 pows [] rs 0 = (Panic :: (_, 'ef batch_error) res)" for rs
    by (cases rs) (simp_all add: eq_ns_def index_def)
  show ?thesis
    unfolding verify_zerocheck_and_logup_def Let_def p pr
    apply (rule vpanics_bind [OF wit])
    apply (rule vpanics_check_bind, assumption)
    apply (rule vpanics_bind [OF runs_sample])
    apply (rule vpanics_bind [OF runs_sample])
    apply (rule vpanics_lift_bind [OF tot])
    apply (rule vpanics_lift_bind [OF logup])
    apply (rule vpanics_bind [OF claims], simp only: prod.case)
    apply (rule vpanics_assert_bind, simp)
    unfolding xi
    apply (rule vpanics_ret_bind)
    apply (rule vpanics_bind [OF runs_sample])
    apply (rule vpanics_bind [OF terms], simp only: prod.case)
    apply (rule vpanics_check_bind, simp)
    apply (rule vpanics_check_bind, simp)
    apply (rule vpanics_bind [OF runs_sample])
    unfolding hash
    apply (rule vpanics_bind2 [OF uni], simp only: lift_n_def)
    by (simp add: vpanics_ret_bind vpanics_def final_evaluation_def eq3b ns p vbind_def vlift_def vret_def)
qed

end

interpretation f17_env: verifier_env "sponge_ops f17_sponge" "sponge_inv f17_sponge" "\<lambda>_. True" f17_tower
  by unfold_locales

section \<open>Properties\<close>

definition zero_skip_vk :: "(f17, f17 list) stark_verifying_key" where
  "zero_skip_vk = sample_vk\<lparr>vk_constraints := (vk_constraints sample_vk)\<lparr>dag_interactions := []\<rparr>\<rparr>"

definition zero_skip_mvk :: "(f17, f17 list) multi_stark_vk0" where
  "zero_skip_mvk = sample_mvk\<lparr>mvk_params := sample_params\<lparr>l_skip := 0\<rparr>,
     per_air := [zero_skip_vk]\<rparr>"

definition zero_skip_batch :: "f17 batch_constraint_proof" where
  "zero_skip_batch = \<lparr>numerator_term_per_air = [0], denominator_term_per_air = [0], batch_univariate_round_coeffs = [0],
     batch_sumcheck_round_polys = [], column_openings = [[[0, 0, 0, 0]]]\<rparr>"

text \<open>C40. A skip domain of one point is not supported. The parameters may have \<open>l_skip = 0\<close>; then, for one AIR
  without interactions whose trace has height 1, the verifier panics on a proof that has passed all
  checks so far (such as the honest one): no coordinate of \<open>xi\<close> has been sampled when \<open>xi[0]\<close> is read.\<close>
theorem zero_skip_panics:
  assumes "verifier_env T I wf_digest X" and "I ts"
    and "l_skip (mvk_params mvk) = 0" and "logup_pow_bits (logup (mvk_params mvk)) = 0"
    and "max_constraint_degree (mvk_params mvk) < 2 ^ 63"
    and "per_air mvk = [vk]" and "num_interactions vk = 0"
    and "q0_claim gkr = 1" and "numerator_term_per_air bp = [0]" and "denominator_term_per_air bp = [0]"
    and "batch_univariate_round_coeffs bp = [0]"
  shows "verify_zerocheck_and_logup T X mvk public_values gkr bp [0] [0] omega_skip_pows ts = Panic"
  using verifier_env.zero_skip [OF assms(1,3-11)] assms(2) by (auto simp: vpanics_def)

theorem zero_skip_panics_witness:
  "verify_zerocheck_and_logup (sponge_ops f17_sponge) f17_tower zero_skip_mvk [[]] sample_gkr zero_skip_batch [0] [0] [1]
     (sponge_from f17_sponge) = Panic"
  by (rule zero_skip_panics [OF f17_env.verifier_env_axioms sponge_inv_from [OF wf_f17_sponge], where vk = zero_skip_vk])
    (simp_all add: zero_skip_mvk_def zero_skip_vk_def zero_skip_batch_def sample_gkr_def sample_params_def sample_mvk_def num_interactions_def)

end
