(* ===== verification/StackedReduction.thy ===== *)
theory StackedReduction
  imports BatchEval
begin

text \<open>
  The stacked reduction (\<open>verifier/stacked_reduction.rs\<close>): the claims about the columns of
  all traces are reduced, by one more sumcheck, to claims about the columns of the stacked
  matrices. The order in which the column openings of the proof are matched with the
  columns of the layouts is the subject of the first lemmas.
\<close>

datatype 'ef stacked_error =
    S0Mismatch 'ef 'ef
  | FinalSumMismatch 'ef 'ef

section \<open>The claims\<close>

definition layout_lambdas ::
  "bool list list \<Rightarrow> nat \<times> stacked_layout \<Rightarrow> nat \<times> (nat \<times> bool) list list \<Rightarrow> (nat \<times> (nat \<times> bool) list list, 'e) res" where
  "layout_lambdas need_rot_per_commit = (\<lambda>(commit_idx, layout) (lambda_idx, acc).
     rbind (index need_rot_per_commit commit_idx) (\<lambda>need_rot_for_commit.
     rbind (assert_that (length need_rot_for_commit = length (mat_starts layout))) (\<lambda>_.
     rbind (rmap (\<lambda>(k, mat_idx, _). rbind (index need_rot_for_commit mat_idx) (\<lambda>rot. Ok (lambda_idx + k, rot)))
              (enumerated (sorted_cols layout))) (\<lambda>indices.
     Ok (lambda_idx + length (sorted_cols layout), acc @ [indices])))))"

definition lambda_indices_per_layout ::
  "stacked_layout list \<Rightarrow> bool list list \<Rightarrow> (nat \<times> (nat \<times> bool) list list, 'e) res" where
  "lambda_indices_per_layout layouts need_rot_per_commit =
     rbind (assert_that (length layouts = length need_rot_per_commit)) (\<lambda>_.
     rfold (layout_lambdas need_rot_per_commit) (enumerated layouts) (0, []))"

definition common_claims ::
  "bool list list \<Rightarrow> 'ef::zero list list list \<Rightarrow> (('ef \<times> 'ef) list, 'e) res" where
  "common_claims need_rot_per_commit openings =
     rbind (rmap (\<lambda>(trace_idx, parts).
       rbind (index need_rot_per_commit 0) (\<lambda>rots.
       rbind (index rots trace_idx) (\<lambda>rot.
       rbind (index parts 0) (\<lambda>cols. Ok (column_openings_by_rot cols rot))))) (enumerated openings)) (\<lambda>claims.
     Ok (concat claims))"

definition other_claims ::
  "bool list list \<Rightarrow> 'ef::zero list list list \<Rightarrow> (('ef \<times> 'ef) list, 'e) res" where
  "other_claims need_rot_per_commit openings =
     rbind (rmap (\<lambda>(k, cols).
       rbind (index need_rot_per_commit (k + 1)) (\<lambda>rots.
       rbind (index rots 0) (\<lambda>rot. Ok (column_openings_by_rot cols rot))))
       (enumerated (concat (map (drop 1) openings)))) (\<lambda>claims.
     Ok (concat claims))"

definition stacked_claims ::
  "bool list list \<Rightarrow> 'ef::zero list list list \<Rightarrow> nat \<Rightarrow> (('ef \<times> 'ef) list, 'e) res" where
  "stacked_claims need_rot_per_commit openings t_claims_len =
     rbind (common_claims need_rot_per_commit openings) (\<lambda>common.
     rbind (other_claims need_rot_per_commit openings) (\<lambda>others.
     rbind (assert_that (length (common @ others) = t_claims_len)) (\<lambda>_.
     Ok (common @ others))))"

definition claims_sum :: "'ef::field \<Rightarrow> ('ef \<times> 'ef) list \<Rightarrow> 'ef list \<Rightarrow> 'ef" where
  "claims_sum lambda t_claims lambda_sqr_powers =
     sum_list (map (\<lambda>((t, t_rot), lambda_i). (t + t_rot * lambda) * lambda_i) (zip t_claims lambda_sqr_powers))"

section \<open>The sumcheck\<close>

definition stacking_round ::
  "('ts, 'f, 'd) transcript_ops \<Rightarrow> ('f, 'ef::field) field_ops \<Rightarrow> ('ef \<times> 'ef) list \<Rightarrow> nat
     \<Rightarrow> 'ef \<times> 'ef list \<Rightarrow> ('ef \<times> 'ef list, 'ts, 'e) vm" where
  "stacking_round T K polys j = (\<lambda>(claim, u).
     vbind (vlift (index polys j)) (\<lambda>(s_j_1, s_j_2).
     vbind (v_observe_ext T K s_j_1) (\<lambda>_.
     vbind (v_observe_ext T K s_j_2) (\<lambda>_.
     vbind (v_sample_ext T K) (\<lambda>u_j.
     vret (interpolate_quadratic_at_012 (claim - s_j_1, s_j_1, s_j_2) u_j, u @ [u_j]))))))"

section \<open>The coefficients of the stacked columns\<close>

definition slice_coefficient ::
  "('f, 'ef::field) field_ext \<Rightarrow> nat \<Rightarrow> nat \<Rightarrow> 'ef list \<Rightarrow> 'ef list \<Rightarrow> 'ef \<Rightarrow> 'ef list \<Rightarrow> nat \<times> bool \<Rightarrow> stacked_slice
     \<Rightarrow> ('ef, 'e) res" where
  "slice_coefficient X skip stack u r lambda lambda_sqr_powers = (\<lambda>(lambda_idx, rot) s.
     let n = int (slice_log_height s) - int skip; n_lift = lift_n n in
     rbind (rmap (\<lambda>j. rbind (assert_that (j < 64)) (\<lambda>_. Ok (of_bool (odd (slice_row_idx s div 2 ^ j)))))
              [skip + n_lift..<skip + stack]) (\<lambda>b.
     rbind (slice u (n_lift + 1) (length u)) (\<lambda>u_rest.
     rbind (eval_eq_mle u_rest b) (\<lambda>eq_mle.
     rbind (index u 0) (\<lambda>u_0.
     rbind (eval_in_uni skip n u_0) (\<lambda>ind.
     rbind (if n < 0 then rbind (index r 0) (\<lambda>r0. Ok (nat ((int skip + n) mod 2 ^ 64), [r0 ^ 2 ^ nat (- n)]))
            else rbind (slice r 0 (n_lift + 1)) (\<lambda>rs. Ok (skip, rs))) (\<lambda>(l, rs_n).
     rbind (slice u 0 (n_lift + 1)) (\<lambda>u_n.
     rbind (eval_eq_prism l u_n rs_n) (\<lambda>eq_prism.
     rbind (index lambda_sqr_powers lambda_idx) (\<lambda>lambda_pow.
     rbind (if rot then
              rbind (ext_two_adic_generator X l) (\<lambda>_.
              rbind (eval_rot_kernel_prism (fe_ext_gen X) l u_n rs_n) (\<lambda>rot_kernel_prism.
              Ok (lambda_pow * eq_prism + lambda_pow * lambda * rot_kernel_prism)))
            else Ok (lambda_pow * eq_prism)) (\<lambda>batched.
     Ok (eq_mle * batched * ind))))))))))))"

definition layout_coefficients ::
  "('f, 'ef::field) field_ext \<Rightarrow> nat \<Rightarrow> nat \<Rightarrow> 'ef list \<Rightarrow> 'ef list \<Rightarrow> 'ef \<Rightarrow> 'ef list \<Rightarrow> (nat \<times> bool) list list
     \<Rightarrow> nat \<times> stacked_layout \<times> 'ef list \<Rightarrow> ('ef list, 'e) res" where
  "layout_coefficients X skip stack u r lambda lambda_sqr_powers lambda_indices = (\<lambda>(commit_idx, layout, q_j_vec).
     rbind (index lambda_indices commit_idx) (\<lambda>indices.
     rfold (\<lambda>(col_idx, _, _, s) coeffs.
         rbind (index indices col_idx) (\<lambda>lambda_rot.
         rbind (slice_coefficient X skip stack u r lambda lambda_sqr_powers lambda_rot s) (\<lambda>x.
         rbind (index coeffs (slice_col_idx s)) (\<lambda>old.
         Ok (coeffs[slice_col_idx s := old + x])))))
       (enumerated (sorted_cols layout)) (replicate (length q_j_vec) 0)))"

text \<open>A layout without a vector of openings is not visited, and an opening without a layout has coefficient 0.\<close>

definition q_coefficients ::
  "('f, 'ef::field) field_ext \<Rightarrow> nat \<Rightarrow> nat \<Rightarrow> stacked_layout list \<Rightarrow> 'ef list list \<Rightarrow> 'ef list \<Rightarrow> 'ef list \<Rightarrow> 'ef \<Rightarrow> 'ef list
     \<Rightarrow> (nat \<times> bool) list list \<Rightarrow> ('ef list list, 'e) res" where
  "q_coefficients X skip stack layouts openings u r lambda lambda_sqr_powers lambda_indices =
     rbind (rmap (layout_coefficients X skip stack u r lambda lambda_sqr_powers lambda_indices)
              (enumerated (zip layouts openings))) (\<lambda>coeffs.
     Ok (coeffs @ map (\<lambda>q_j_vec. replicate (length q_j_vec) 0) (drop (length layouts) openings)))"

definition observe_openings ::
  "('ts, 'f, 'd) transcript_ops \<Rightarrow> ('f, 'ef::field) field_ops \<Rightarrow> 'ef list list \<Rightarrow> 'ef list list \<Rightarrow> ('ef, 'ts, 'e) vm" where
  "observe_openings T K q_coeffs openings =
     vfor (\<lambda>(q_coeff_vec, q_j_vec) acc.
       vbind (vfor (\<lambda>(q_coeff, q_j) acc.
           vbind (v_observe_ext T K q_j) (\<lambda>_. vret (acc + q_coeff * q_j))) (zip q_coeff_vec q_j_vec) 0) (\<lambda>inner.
       vret (acc + inner))) (zip q_coeffs openings) 0"

section \<open>The whole reduction\<close>

definition verify_stacked_reduction ::
  "('ts, 'f, 'd) transcript_ops \<Rightarrow> ('f, 'ef::field) field_ext \<Rightarrow> 'ef stacking_proof \<Rightarrow> stacked_layout list
     \<Rightarrow> bool list list \<Rightarrow> nat \<Rightarrow> nat \<Rightarrow> 'ef list list list \<Rightarrow> 'ef list \<Rightarrow> 'f list \<Rightarrow> ('ef list, 'ts, 'ef stacked_error) vm" where
  "verify_stacked_reduction T X sp layouts need_rot_per_commit skip stack openings r omega_shift_pows =
     (let K = fe_ops X; omega_order = length omega_shift_pows; coeffs = stacking_univariate_round_coeffs sp in
      vbind (vlift (lambda_indices_per_layout layouts need_rot_per_commit)) (\<lambda>(t_claims_len, lambda_indices).
      vbind (vlift (stacked_claims need_rot_per_commit openings t_claims_len)) (\<lambda>t_claims.
      vbind (v_sample_ext T K) (\<lambda>lambda.
      let lambda_sqr_powers = powers t_claims_len (lambda * lambda); s_0 = claims_sum lambda t_claims lambda_sqr_powers in
      vbind (vassert (omega_order \<noteq> 0)) (\<lambda>_.
      let s_0_sum_eval = sum_list (step_by omega_order coeffs) * of_nat omega_order in
      vbind (vcheck (s_0 = s_0_sum_eval) (S0Mismatch s_0 s_0_sum_eval)) (\<lambda>_.
      vbind (vdo_all (v_observe_ext T K) coeffs) (\<lambda>_.
      vbind (v_sample_ext T K) (\<lambda>u_0.
      vbind (vfor (stacking_round T K (stacking_sumcheck_round_polys sp)) [0..<stack] (horner_eval coeffs u_0, [u_0])) (\<lambda>(claim, u).
      vbind (vlift (q_coefficients X skip stack layouts (stacking_openings sp) u r lambda lambda_sqr_powers lambda_indices)) (\<lambda>q_coeffs.
      vbind (observe_openings T K q_coeffs (stacking_openings sp)) (\<lambda>final_sum.
      vbind (vcheck (claim = final_sum) (FinalSumMismatch claim final_sum)) (\<lambda>_.
      vret u))))))))))))"

end
