(* ===== verification/StackedSafety.thy ===== *)
theory StackedSafety
  imports StackedReduction
begin

text \<open>
  The stacked reduction matches every column opening with the column of the layout that it
  opens, and does not panic for openings, layouts and rounds of the right shape.
\<close>

section \<open>The commitments of a proof\<close>

text \<open>The rotation flags per commitment, as \<open>verify\<close> builds them, and the other parts in that order.\<close>

definition commit_rots :: "('f, 'd) traces \<Rightarrow> bool list list" where
  "commit_rots traces = map (\<lambda>(_, vk, _). need_rot (vk_params vk)) traces #
     concat (map (\<lambda>(_, vk, _). map (\<lambda>_. [need_rot (vk_params vk)]) (other_widths vk)) traces)"

definition other_parts :: "'ef list list list \<Rightarrow> 'ef list list" where
  "other_parts openings = concat (map (drop 1) openings)"

text \<open>The openings of matrix \<open>m\<close> of commitment \<open>c\<close>, in pairs.\<close>

definition matrix_claims :: "bool list list \<Rightarrow> 'ef::zero list list list \<Rightarrow> nat \<Rightarrow> nat \<Rightarrow> ('ef \<times> 'ef) list" where
  "matrix_claims rots openings c m =
     column_openings_by_rot (if c = 0 then openings ! m ! 0 else other_parts openings ! (c - 1)) (rots ! c ! m)"

lemma length_commit_rots: "length (commit_rots traces) = length (commit_metas traces)"
proof -
  have "length (concat (map (\<lambda>(_, vk, _). map (\<lambda>_. [need_rot (vk_params vk)]) (other_widths vk)) traces)) = length (other_metas traces)"
    unfolding other_metas_widths by (induction traces) auto
  then show ?thesis by (simp add: commit_rots_def commit_metas_def)
qed

text \<open>Widths, flags and other parts run in step over the traces.\<close>

lemma other_parts_shape:
  fixes openings :: "'ef::zero list list list"
  assumes "list_all2 (\<lambda>parts (_, vk, _). shaped_parts vk parts) openings traces"
  shows "list_all2 (\<lambda>cols (rot, w, _). length (column_openings_by_rot cols (rot ! 0)) = w \<and> length rot = 1) (other_parts openings)
     (zip (concat (map (\<lambda>(_, vk, _). map (\<lambda>_. [need_rot (vk_params vk)]) (other_widths vk)) traces)) (other_metas traces))"
  using assms
proof (induction openings traces rule: list_all2_induct)
  case Nil
  then show ?case by (simp add: other_parts_def other_metas_def)
next
  case (Cons parts openings t traces)
  obtain a vk v where t: "t = (a, vk, v)" by (cases t)
  from Cons.hyps(1) t obtain main rest where parts: "parts = main # rest"
    "map length rest = map (\<lambda>w. w * rot_factor vk) (other_widths vk)"
    by (cases parts) (auto simp: shaped_parts_def)
  let ?rots = "map (\<lambda>_. [need_rot (vk_params vk)]) (other_widths vk)" and ?metas = "map (\<lambda>w. (w, log_height v)) (other_widths vk)"
  have len: "length rest = length (other_widths vk)" using parts(2) by (metis length_map)
  have "length (column_openings_by_rot (rest ! i) (need_rot (vk_params vk))) = other_widths vk ! i" if "i < length rest" for i
    using parts(2) that len by (intro length_view) (metis nth_map)
  then have "list_all2 (\<lambda>cols (rot, w, _). length (column_openings_by_rot cols (rot ! 0)) = w \<and> length rot = 1) rest (zip ?rots ?metas)"
    using len by (simp add: list_all2_conv_all_nth)
  with Cons.IH have "list_all2 (\<lambda>cols (rot, w, _). length (column_openings_by_rot cols (rot ! 0)) = w \<and> length rot = 1)
      (rest @ other_parts openings)
      (zip ?rots ?metas @ zip (concat (map (\<lambda>(_, vk, _). map (\<lambda>_. [need_rot (vk_params vk)]) (other_widths vk)) traces)) (other_metas traces))"
    by (rule list_all2_appendI [rotated])
  moreover have "zip (?rots @ ys) (?metas @ zs) = zip ?rots ?metas @ zip ys zs" for ys zs by (rule zip_append) simp
  ultimately show ?case by (simp add: t parts other_parts_def other_metas_widths)
qed

lemma matrix_claims_length:
  fixes openings :: "'ef::zero list list list"
  assumes parts: "list_all2 (\<lambda>parts (_, vk, _). shaped_parts vk parts) openings traces"
    and c: "c < length (commit_metas traces)" and m: "m < length (commit_metas traces ! c)"
  shows "length (matrix_claims (commit_rots traces) openings c m) = fst (commit_metas traces ! c ! m)"
    and "length (commit_rots traces ! c) = length (commit_metas traces ! c)"
    and "c \<noteq> 0 \<Longrightarrow> m = 0 \<and> c - 1 < length (other_parts openings)"
proof -
  have "length (matrix_claims (commit_rots traces) openings c m) = fst (commit_metas traces ! c ! m) \<and>
     length (commit_rots traces ! c) = length (commit_metas traces ! c) \<and>
     (c \<noteq> 0 \<longrightarrow> m = 0 \<and> c - 1 < length (other_parts openings))"
  proof (cases c)
    case 0
    then have m': "m < length traces" using m by (simp add: commit_metas_def common_main_metas_def)
    obtain a vk v where t: "traces ! m = (a, vk, v)" by (cases "traces ! m")
    have "shaped_parts vk (openings ! m)" using list_all2_nthD2 [OF parts m'] t by simp
    then obtain main rest where "openings ! m = main # rest" "length main = tw_common_main (vp_width (vk_params vk)) * rot_factor vk"
      by (cases "openings ! m") (auto simp: shaped_parts_def)
    with 0 m' t show ?thesis
      by (simp add: matrix_claims_def commit_rots_def commit_metas_def common_main_metas_def length_view)
  next
    case (Suc k)
    then have k: "k < length (other_metas traces)" using c by (simp add: commit_metas_def)
    let ?rots = "concat (map (\<lambda>(_, vk, _). map (\<lambda>_. [need_rot (vk_params vk)]) (other_widths vk)) traces)"
    have len: "length ?rots = length (other_metas traces)" using length_commit_rots [of traces]
      by (simp add: commit_rots_def commit_metas_def)
    note shape = other_parts_shape [OF parts]
    have k': "k < length (other_parts openings)" using list_all2_lengthD [OF shape] len k by simp
    from list_all2_nthD [OF shape k'] k len
    have "length (column_openings_by_rot (other_parts openings ! k) (?rots ! k ! 0)) = fst (other_metas traces ! k) \<and> length (?rots ! k) = 1"
      by (simp split: prod.splits)
    with Suc k k' m show ?thesis
      by (simp add: matrix_claims_def commit_rots_def commit_metas_def)
  qed
  then show "length (matrix_claims (commit_rots traces) openings c m) = fst (commit_metas traces ! c ! m)"
    and "length (commit_rots traces ! c) = length (commit_metas traces ! c)"
    and "c \<noteq> 0 \<Longrightarrow> m = 0 \<and> c - 1 < length (other_parts openings)" by auto
qed

section \<open>Columns of a layout\<close>

lemma columns_claims:
  assumes "\<forall>i < length ms. length (V (n + i)) = fst (ms ! i)"
  shows "map (\<lambda>(m, j, _). V m ! j) (columns_from n ms) = concat (map V [n..<n + length ms])"
  using assms
proof (induction ms arbitrary: n)
  case (Cons a ms)
  obtain w lh where a: "a = (w, lh)" by force
  have "length (V n) = w" using Cons.prems by (auto simp: a dest: spec [of _ 0])
  then have "map (\<lambda>(m, j, _). V m ! j) (mat_columns (n, w, lh)) = V n"
    using map_nth [of "V n"] by (simp add: mat_columns_def comp_def)
  moreover have "\<forall>i < length ms. length (V (Suc n + i)) = fst (ms ! i)"
    using Cons.prems by (metis Suc_less_eq add_Suc_shift length_Cons nth_Cons_Suc)
  from Cons.IH [OF this] have "map (\<lambda>(m, j, _). V m ! j) (columns_from (Suc n) ms) = concat (map V [Suc n..<Suc n + length ms])" .
  ultimately show ?case by (simp add: a upt_conv_Cons del: upt_Suc)
qed simp

lemma columns_from_mem: "(m, j, lh) \<in> set (columns_from n ms) \<Longrightarrow> n \<le> m \<and> m < n + length ms \<and> lh = snd (ms ! (m - n))"
proof (induction ms arbitrary: n)
  case (Cons a ms)
  obtain w lh' where a: "a = (w, lh')" by force
  with Cons.prems consider "m = n" "lh = lh'" | "(m, j, lh) \<in> set (columns_from (Suc n) ms)"
    by (auto simp: mat_columns_def)
  then show ?case
  proof cases
    case 2
    from Cons.IH [OF this] show ?thesis by (auto simp: nth_Cons split: nat.split)
      (metis Suc_diff_Suc Suc_le_lessD diff_Suc_Suc nat.inject)
  qed (simp add: a)
qed simp

lemma layout_facts:
  assumes "wf_metas l ls metas" and "stacked_layout_new l ls metas = Ok L"
  shows "length (mat_starts L) = length metas"
    and "(m, j, s) \<in> set (sorted_cols L) \<Longrightarrow>
      m < length metas \<and> slice_log_height s = snd (metas ! m) \<and> slice_col_idx s < layout_width L"
    and "\<forall>i < length metas. length (V i) = fst (metas ! i) \<Longrightarrow>
      map (\<lambda>(m, j, _). V m ! j) (sorted_cols L) = concat (map V [0..<length metas])"
proof -
  let ?cs = "all_columns metas"
  have L: "L = \<lparr>layout_l_skip = l, layout_height = 2 ^ ls, layout_width = div_ceil (total_len l ?cs) (2 ^ ls),
         sorted_cols = place_all l (2 ^ ls) 0 ?cs, mat_starts = starts_from 0 metas\<rparr>"
    using layout_new_closed [OF assms(1)] assms(2) by simp
  show "length (mat_starts L) = length metas" by (simp add: L)
  show "m < length metas \<and> slice_log_height s = snd (metas ! m) \<and> slice_col_idx s < layout_width L"
    if mem: "(m, j, s) \<in> set (sorted_cols L)"
  proof -
    from mem have "(m, j, slice_log_height s) \<in> set (columns_from 0 metas)"
      by (auto simp: L all_columns_from dest: place_all_fst)
    from columns_from_mem [OF this] have 1: "m < length metas" "slice_log_height s = snd (metas ! m)" by auto
    from mem obtain k where "k < length ?cs" "place_all l (2 ^ ls) 0 ?cs ! k = (m, j, s)"
      by (auto simp: L in_set_conv_nth)
    from place_all_in_range [OF assms(1) this] 1 show ?thesis by (simp add: L)
  qed
  show "map (\<lambda>(m, j, _). V m ! j) (sorted_cols L) = concat (map V [0..<length metas])"
    if "\<forall>i < length metas. length (V i) = fst (metas ! i)"
  proof -
    have "map (\<lambda>(m, j, _). V m ! j) (sorted_cols L)
        = map (\<lambda>(m, j, _). V m ! j) (map (\<lambda>(m, j, s). (m, j, slice_log_height s)) (place_all l (2 ^ ls) 0 ?cs))"
      by (simp add: L comp_def case_prod_beta)
    also have "\<dots> = map (\<lambda>(m, j, _). V m ! j) (columns_from 0 metas)"
      unfolding place_all_map all_columns_from ..
    also have "\<dots> = concat (map V [0..<length metas])"
      using columns_claims [of metas V 0] that by simp
    finally show ?thesis .
  qed
qed

section \<open>The indices of the batching challenge\<close>

definition cols_before :: "stacked_layout list \<Rightarrow> nat \<Rightarrow> nat" where
  "cols_before layouts c = sum_list (map (\<lambda>L. length (sorted_cols L)) (take c layouts))"

lemma cols_before_Suc: "c < length layouts \<Longrightarrow> cols_before layouts (Suc c) = cols_before layouts c + length (sorted_cols (layouts ! c))"
  by (simp add: cols_before_def take_Suc_conv_app_nth)

lemma cols_before_total: "c < length layouts \<Longrightarrow> k < length (sorted_cols (layouts ! c)) \<Longrightarrow>
    cols_before layouts c + k < cols_before layouts (length layouts)"
proof -
  assume c: "c < length layouts" and k: "k < length (sorted_cols (layouts ! c))"
  have "cols_before layouts (Suc c) \<le> cols_before layouts (length layouts)"
  proof -
    have "take (length layouts) layouts = take (Suc c) layouts @ drop (Suc c) layouts" by simp
    then have "cols_before layouts (length layouts)
        = cols_before layouts (Suc c) + sum_list (map (\<lambda>L. length (sorted_cols L)) (drop (Suc c) layouts))"
      unfolding cols_before_def by (metis map_append sum_list_append)
    then show ?thesis by simp
  qed
  with k show ?thesis by (simp add: cols_before_Suc [OF c])
qed

definition layout_indices :: "bool list list \<Rightarrow> stacked_layout list \<Rightarrow> nat \<Rightarrow> (nat \<times> bool) list" where
  "layout_indices rots layouts c =
     map (\<lambda>(k, m, _). (cols_before layouts c + k, rots ! c ! m)) (enumerated (sorted_cols (layouts ! c)))"

lemma lambda_indices_Ok:
  assumes "length rots = length layouts"
    and "\<forall>c < length layouts. length (rots ! c) = length (mat_starts (layouts ! c))"
    and "\<forall>c < length layouts. \<forall>(m, _, _) \<in> set (sorted_cols (layouts ! c)). m < length (rots ! c)"
  shows "lambda_indices_per_layout layouts rots
     = (Ok (cols_before layouts (length layouts), map (layout_indices rots layouts) [0..<length layouts]) :: (_, 'e) res)"
proof -
  let ?J = "\<lambda>c (idx, acc). idx = cols_before layouts c \<and> acc = map (layout_indices rots layouts) [0..<c]"
  have "\<exists>s. rfold (layout_lambdas rots) (enumerated layouts) (0, []) = (Ok s :: (_, 'e) res) \<and> ?J (length layouts) s"
  proof (rule rfold_enumerated_inv)
    fix c s assume c: "c < length layouts" and J: "?J c s"
    let ?L = "layouts ! c"
    have "rmap (\<lambda>(k, mat_idx, _). rbind (index (rots ! c) mat_idx) (\<lambda>rot. Ok (cols_before layouts c + k, rot))) (enumerated (sorted_cols ?L))
        = (Ok (layout_indices rots layouts c) :: (_, 'e) res)"
      unfolding layout_indices_def
    proof (rule rmap_total)
      fix x assume x: "x \<in> set (enumerated (sorted_cols ?L))"
      obtain k m r where k: "x = (k, m, r)" by (cases x) auto
      with x have "(m, r) \<in> set (sorted_cols ?L)" by (auto simp only: enumerated_mem nth_mem)
      then have "m < length (rots ! c)" using assms(3) c by (cases r) force
      with k show "(case x of (k, mat_idx, _) \<Rightarrow> rbind (index (rots ! c) mat_idx) (\<lambda>rot. Ok (cols_before layouts c + k, rot)))
          = (Ok (case x of (k, m, _) \<Rightarrow> (cols_before layouts c + k, rots ! c ! m)) :: (_, 'e) res)" by simp
    qed
    with assms(1,2) c J show "\<exists>s'. layout_lambdas rots (c, ?L) s = (Ok s' :: (_, 'e) res) \<and> ?J (Suc c) s'"
      by (auto simp: layout_lambdas_def cols_before_Suc split: prod.splits)
  qed (simp add: cols_before_def)
  then show ?thesis using assms(1) by (auto simp: lambda_indices_per_layout_def)
qed

section \<open>The claims in the order of the layouts\<close>

lemma common_claims_Ok:
  assumes "rots = common # rest" and "length openings \<le> length common" and "\<forall>parts \<in> set openings. parts \<noteq> []"
  shows "common_claims rots openings = (Ok (concat (map (matrix_claims rots openings 0) [0..<length openings])) :: (_, 'e) res)"
proof -
  have "rmap (\<lambda>(trace_idx, parts). rbind (index rots 0) (\<lambda>rots. rbind (index rots trace_idx) (\<lambda>rot.
       rbind (index parts 0) (\<lambda>cols. Ok (column_openings_by_rot cols rot))))) (enumerated openings)
      = (Ok (map (\<lambda>(i, parts). matrix_claims rots openings 0 i) (enumerated openings)) :: (_, 'e) res)"
  proof (rule rmap_total)
    fix x assume x: "x \<in> set (enumerated openings)"
    obtain i parts where i: "x = (i, parts)" by force
    with x have p: "i < length openings" "parts = openings ! i" by (simp_all only: enumerated_mem)
    then have "parts \<noteq> []" using assms(3) by simp
    with i p assms(1,2) show "(case x of (trace_idx, parts) \<Rightarrow> rbind (index rots 0) (\<lambda>rots. rbind (index rots trace_idx) (\<lambda>rot.
       rbind (index parts 0) (\<lambda>cols. Ok (column_openings_by_rot cols rot)))))
       = (Ok (case x of (i, parts) \<Rightarrow> matrix_claims rots openings 0 i) :: (_, 'e) res)" by (simp add: matrix_claims_def)
  qed
  moreover have "map (\<lambda>(i, parts). matrix_claims rots openings 0 i) (enumerated openings)
      = map (matrix_claims rots openings 0) [0..<length openings]"
    by (rule nth_equalityI) simp_all
  ultimately show ?thesis by (simp add: common_claims_def)
qed

lemma other_claims_Ok:
  assumes "length rots = Suc (length (other_parts openings))" and "\<forall>c < length rots. 0 < c \<longrightarrow> length (rots ! c) = 1"
  shows "other_claims rots openings = (Ok (concat (map (\<lambda>k. matrix_claims rots openings (Suc k) 0) [0..<length (other_parts openings)])) :: (_, 'e) res)"
proof -
  let ?os = "other_parts openings"
  have "rmap (\<lambda>(k, cols). rbind (index rots (k + 1)) (\<lambda>rots. rbind (index rots 0) (\<lambda>rot. Ok (column_openings_by_rot cols rot)))) (enumerated ?os)
      = (Ok (map (\<lambda>(k, cols). matrix_claims rots openings (Suc k) 0) (enumerated ?os)) :: (_, 'e) res)"
  proof (rule rmap_total)
    fix x assume x: "x \<in> set (enumerated ?os)"
    obtain k cols where k: "x = (k, cols)" by force
    with x have p: "k < length ?os" "cols = ?os ! k" by (simp_all only: enumerated_mem)
    with assms have "k + 1 < length rots" "length (rots ! (k + 1)) = 1" by simp_all
    with k p show "(case x of (k, cols) \<Rightarrow> rbind (index rots (k + 1)) (\<lambda>rots. rbind (index rots 0) (\<lambda>rot. Ok (column_openings_by_rot cols rot))))
        = (Ok (case x of (k, cols) \<Rightarrow> matrix_claims rots openings (Suc k) 0) :: (_, 'e) res)" by (simp add: matrix_claims_def)
  qed
  moreover have "map (\<lambda>(k, cols). matrix_claims rots openings (Suc k) 0) (enumerated ?os)
      = map (\<lambda>k. matrix_claims rots openings (Suc k) 0) [0..<length ?os]"
    by (rule nth_equalityI) simp_all
  ultimately show ?thesis by (simp add: other_claims_def other_parts_def)
qed

text \<open>The claim of one column, as the code of the prover numbers them.\<close>

definition column_claims :: "bool list list \<Rightarrow> 'ef::zero list list list \<Rightarrow> stacked_layout list \<Rightarrow> nat \<Rightarrow> ('ef \<times> 'ef) list" where
  "column_claims rots openings layouts c = map (\<lambda>(m, j, _). matrix_claims rots openings c m ! j) (sorted_cols (layouts ! c))"

lemma layouts_new:
  assumes "layouts_for p traces layouts" and "c < length layouts"
  shows "stacked_layout_new (l_skip p) (log_stacked_height p) (commit_metas traces ! c) = Ok (layouts ! c)"
    and "length layouts = length (commit_metas traces)"
proof -
  show len: "length layouts = length (commit_metas traces)" by (rule layouts_for_length [OF assms(1)])
  from assms have "map (stacked_layout_new (l_skip p) (log_stacked_height p)) (commit_metas traces) ! c = map Ok layouts ! c"
    by (simp add: layouts_for_def)
  with assms(2) len show "stacked_layout_new (l_skip p) (log_stacked_height p) (commit_metas traces ! c) = Ok (layouts ! c)"
    by simp
qed

lemma stacked_claims_order:
  fixes openings :: "'ef::zero list list list"
  assumes params: "wf_params (mvk_params mvk)" and key: "traces_of_key mvk traces"
    and parts: "list_all2 (\<lambda>parts (_, vk, _). shaped_parts vk parts) openings traces"
    and layouts: "layouts_for (mvk_params mvk) traces layouts"
  shows "lambda_indices_per_layout layouts (commit_rots traces) = (Ok (cols_before layouts (length layouts),
        map (layout_indices (commit_rots traces) layouts) [0..<length layouts]) :: (_, 'e) res)"
    and "stacked_claims (commit_rots traces) openings (cols_before layouts (length layouts))
      = (Ok (concat (map (column_claims (commit_rots traces) openings layouts) [0..<length layouts])) :: (_, 'e) res)"
proof -
  let ?rots = "commit_rots traces" and ?metas = "commit_metas traces"
  have len: "length layouts = length ?metas" by (rule layouts_for_length [OF layouts])
  have new: "stacked_layout_new (l_skip (mvk_params mvk)) (log_stacked_height (mvk_params mvk)) (?metas ! c) = Ok (layouts ! c)"
    and wfm: "wf_metas (l_skip (mvk_params mvk)) (log_stacked_height (mvk_params mvk)) (?metas ! c)" if "c < length layouts" for c
    using layouts_new(1) [OF layouts that] commit_metas_wf [OF params key, of "?metas ! c"] that len by auto
  note facts = layout_facts [OF wfm new]
  have rots: "length (?rots ! c) = length (?metas ! c)" if "c < length layouts" for c
  proof (cases "c = 0")
    case True
    then show ?thesis by (simp add: commit_rots_def commit_metas_def common_main_metas_def)
  next
    case False
    with that len have "length (?metas ! c) = 1" by (cases c) (auto simp: commit_metas_def)
    with matrix_claims_length(2) [OF parts, of c 0] that len show ?thesis by simp
  qed
  show "lambda_indices_per_layout layouts ?rots = (Ok (cols_before layouts (length layouts),
        map (layout_indices ?rots layouts) [0..<length layouts]) :: (_, 'e) res)"
    by (rule lambda_indices_Ok) (use rots facts(1,2) len in \<open>fastforce simp: length_commit_rots\<close>)+
  have cols: "column_claims ?rots openings layouts c = concat (map (matrix_claims ?rots openings c) [0..<length (?metas ! c)])"
    if "c < length layouts" for c
    unfolding column_claims_def
    by (rule facts(3) [OF that that]) (use matrix_claims_length(1) [OF parts] that len in simp)
  have opn: "length openings = length traces" by (rule list_all2_lengthD [OF parts])
  have nonempty: "\<forall>parts \<in> set openings. parts \<noteq> []"
    using parts by (fastforce simp: shaped_parts_def list_all2_conv_all_nth in_set_conv_nth)
  obtain common rest where split: "?rots = common # rest" "length openings \<le> length common"
    using opn by (simp add: commit_rots_def)
  have others: "length (other_parts openings) = length (other_metas traces)"
    using list_all2_lengthD [OF other_parts_shape [OF parts]] length_commit_rots [of traces]
    by (simp add: commit_rots_def commit_metas_def)
  have "\<forall>c < length ?rots. 0 < c \<longrightarrow> length (?rots ! c) = 1"
    using rots len by (auto simp: length_commit_rots commit_metas_def nth_Cons split: nat.splits)
  moreover have "length ?rots = Suc (length (other_parts openings))"
    using others by (simp add: length_commit_rots commit_metas_def)
  ultimately have claims: "common_claims ?rots openings = (Ok (concat (map (matrix_claims ?rots openings 0) [0..<length openings])) :: (_, 'e) res)"
    "other_claims ?rots openings = (Ok (concat (map (\<lambda>k. matrix_claims ?rots openings (Suc k) 0) [0..<length (other_parts openings)])) :: (_, 'e) res)"
    by (simp_all only: common_claims_Ok [OF split nonempty] other_claims_Ok)
  let ?cols = "column_claims ?rots openings layouts"
  have zero: "?cols 0 = concat (map (matrix_claims ?rots openings 0) [0..<length openings])"
    using cols [of 0] len opn by (simp add: commit_metas_def common_main_metas_def)
  have suc: "?cols (Suc k) = matrix_claims ?rots openings (Suc k) 0" if "k < length (other_metas traces)" for k
    using cols [of "Suc k"] len that by (simp add: commit_metas_def)
  have all: "concat (map ?cols [0..<length layouts])
      = ?cols 0 @ concat (map (\<lambda>k. matrix_claims ?rots openings (Suc k) 0) [0..<length (other_metas traces)])"
  proof -
    have "[0..<length layouts] = 0 # map Suc [0..<length (other_metas traces)]"
      using len by (simp add: commit_metas_def upt_conv_Cons map_Suc_upt del: upt_Suc)
    moreover have "map (?cols \<circ> Suc) [0..<length (other_metas traces)]
        = map (\<lambda>k. matrix_claims ?rots openings (Suc k) 0) [0..<length (other_metas traces)]"
      by (rule map_cong) (use suc in auto)
    ultimately show ?thesis by (simp only: list.map map_map concat.simps)
  qed
  have "length (concat (map ?cols [0..<c])) = cols_before layouts c" if "c \<le> length layouts" for c
    using that by (induction c) (simp_all add: cols_before_def take_Suc_conv_app_nth column_claims_def)
  from this [of "length layouts"] have "length (concat (map ?cols [0..<length layouts])) = cols_before layouts (length layouts)" by simp
  then show "stacked_claims ?rots openings (cols_before layouts (length layouts))
      = (Ok (concat (map ?cols [0..<length layouts])) :: (_, 'e) res)"
    using claims others unfolding all stacked_claims_def
    by (simp add: length_commit_rots commit_metas_def zero)
qed

section \<open>The coefficients\<close>

lemma slice_coefficient_Ok:
  fixes X :: "('f, 'ef::field) field_ext"
  assumes "skip + stack < 64" and "skip \<le> fe_ext_adicity X"
    and "length u = Suc stack" and "length r = Suc (h - skip)" and "h \<le> skip + stack"
    and lh: "slice_log_height s \<le> h" and "lambda_idx < length pows"
  shows "\<exists>x. slice_coefficient X skip stack u r lambda pows (lambda_idx, rot) s = (Ok x :: (_, 'e) res)"
proof -
  let ?lh = "slice_log_height s"
  let ?n = "int ?lh - int skip" and ?l = "?lh - skip"
  have lift: "lift_n ?n = ?l" by (auto simp: lift_n_def)
  have le: "?l \<le> stack" "?l \<le> h - skip" using lh assms(5) by auto
  have bits: "rmap (\<lambda>j. rbind (assert_that (j < 64)) (\<lambda>_. Ok (of_bool (odd (slice_row_idx s div 2 ^ j)) :: 'ef))) [skip + ?l..<skip + stack]
      = (Ok (map (\<lambda>j. of_bool (odd (slice_row_idx s div 2 ^ j))) [skip + ?l..<skip + stack]) :: (_, 'e) res)"
    by (rule rmap_total) (use assms(1) in auto)
  have u: "slice u (?l + 1) (length u) = (Ok (drop (?l + 1) u) :: (_, 'e) res)" "slice u 0 (?l + 1) = (Ok (take (?l + 1) u) :: (_, 'e) res)"
    using le assms(3) by (simp_all add: slice_def)
  have mle: "eval_eq_mle (drop (?l + 1) u) (map (\<lambda>j. of_bool (odd (slice_row_idx s div 2 ^ j))) [skip + ?l..<skip + stack])
      = (Ok (eq_mle_value (drop (?l + 1) u) (map (\<lambda>j. of_bool (odd (slice_row_idx s div 2 ^ j))) [skip + ?l..<skip + stack])) :: (_, 'e) res)"
    using le assms(3) by (simp add: eval_eq_mle_def)
  obtain ind where ind: "eval_in_uni skip ?n (u ! 0) = (Ok ind :: (_, 'e) res)" by (simp add: eval_in_uni_def)
  obtain l rs where point: "(if ?n < 0 then rbind (index r 0) (\<lambda>r0. Ok (nat ((int skip + ?n) mod 2 ^ 64), [r0 ^ 2 ^ nat (- ?n)]))
            else rbind (slice r 0 (?l + 1)) (\<lambda>rs. Ok (skip, rs))) = (Ok (l, rs) :: (_, 'e) res)"
    "l \<le> skip" "length rs = ?l + 1"
  proof (cases "?lh < skip")
    case True
    then have "(int skip + ?n) mod 2 ^ 64 = int ?lh" using assms(1) by simp
    with True assms(4) show ?thesis by (intro that [of ?lh "[r ! 0 ^ 2 ^ nat (- ?n)]"]) simp_all
  next
    case False
    with le assms(4) show ?thesis by (intro that [of skip "take (?l + 1) r"]) (simp_all add: slice_def)
  qed
  let ?u = "take (?l + 1) u"
  have "length ?u = ?l + 1" using le assms(3) by simp
  note prism = this point(3)
  obtain e where e: "eval_eq_prism l ?u rs = (Ok e :: (_, 'e) res)"
    using prism by (simp add: eval_eq_prism_def eval_eq_mle_def)
  obtain k where k: "eval_rot_kernel_prism (fe_ext_gen X) l ?u rs = (Ok k :: (_, 'e) res)"
    using prism by (cases "eq_rot_cube_value (drop 1 ?u) (drop 1 rs)") (simp add: eval_rot_kernel_prism_def eval_eq_rot_cube_def)
  have idx: "index u 0 = (Ok (u ! 0) :: (_, 'e) res)" "index pows lambda_idx = (Ok (pows ! lambda_idx) :: (_, 'e) res)"
    "ext_two_adic_generator X l = (Ok (fe_ext_gen X l) :: (_, 'e) res)"
    using assms(2,3,7) point(2) by (simp_all add: ext_two_adic_generator_def)
  show ?thesis
    unfolding slice_coefficient_def prod.case Let_def lift bits rbind.simps u mle idx ind point(1) e k by simp
qed

lemma layout_coefficients_Ok:
  fixes X :: "('f, 'ef::field) field_ext"
  assumes "skip + stack < 64" and "skip \<le> fe_ext_adicity X"
    and "length u = Suc stack" and "length r = Suc (h - skip)" and "h \<le> skip + stack"
    and c: "c < length layouts" and slices: "\<forall>(m, j, s) \<in> set (sorted_cols (layouts ! c)). slice_log_height s \<le> h \<and> slice_col_idx s < length q"
    and pows: "length pows = cols_before layouts (length layouts)"
  shows "\<exists>cs. layout_coefficients X skip stack u r lambda pows (map (layout_indices rots layouts) [0..<length layouts]) (c, layouts ! c, q)
      = (Ok cs :: (_, 'e) res) \<and> length cs = length q"
proof -
  let ?L = "layouts ! c" and ?idx = "layout_indices rots layouts c"
  have "\<exists>cs. rfold (\<lambda>(col_idx, _, _, s) coeffs.
         rbind (index ?idx col_idx) (\<lambda>lambda_rot.
         rbind (slice_coefficient X skip stack u r lambda pows lambda_rot s) (\<lambda>x.
         rbind (index coeffs (slice_col_idx s)) (\<lambda>old.
         Ok (coeffs[slice_col_idx s := old + x])))))
       (enumerated (sorted_cols ?L)) (replicate (length q) 0) = (Ok cs :: (_, 'e) res) \<and> length cs = length q"
  proof (rule rfold_enumerated_inv [where J = "\<lambda>_ cs. length cs = length q"])
    fix k and cs :: "'ef list" assume k: "k < length (sorted_cols ?L)" and len: "length cs = length q"
    obtain m j s where col: "sorted_cols ?L ! k = (m, j, s)" by (cases "sorted_cols ?L ! k")
    then have "(m, j, s) \<in> set (sorted_cols ?L)" using k by (metis nth_mem)
    then have s: "slice_log_height s \<le> h" "slice_col_idx s < length q" using slices by auto
    have idx: "?idx ! k = (cols_before layouts c + k, rots ! c ! m)" "k < length ?idx"
      using k col by (simp_all add: layout_indices_def)
    have "cols_before layouts c + k < length pows" using cols_before_total [OF c k] pows by simp
    from slice_coefficient_Ok [OF assms(1-5) s(1) this, of lambda "rots ! c ! m", where 'e = 'e] obtain x where
      x: "slice_coefficient X skip stack u r lambda pows (?idx ! k) s = (Ok x :: (_, 'e) res)" by (auto simp: idx)
    show "\<exists>cs'. (case (k, sorted_cols ?L ! k) of (col_idx, _, _, s) \<Rightarrow> \<lambda>coeffs.
         rbind (index ?idx col_idx) (\<lambda>lambda_rot.
         rbind (slice_coefficient X skip stack u r lambda pows lambda_rot s) (\<lambda>x.
         rbind (index coeffs (slice_col_idx s)) (\<lambda>old.
         Ok (coeffs[slice_col_idx s := old + x]))))) cs = (Ok cs' :: (_, 'e) res) \<and> length cs' = length q"
      using s(2) idx(2) len by (simp add: col x)
  qed simp
  then show ?thesis using c by (simp add: layout_coefficients_def)
qed

lemma q_coefficients_Ok:
  fixes X :: "('f, 'ef::field) field_ext"
  assumes "skip + stack < 64" and "skip \<le> fe_ext_adicity X"
    and "length u = Suc stack" and "length r = Suc (h - skip)" and "h \<le> skip + stack"
    and len: "length openings = length layouts"
    and slices: "\<forall>c < length layouts. \<forall>(m, j, s) \<in> set (sorted_cols (layouts ! c)). slice_log_height s \<le> h \<and> slice_col_idx s < length (openings ! c)"
    and pows: "length pows = cols_before layouts (length layouts)"
  shows "\<exists>qs. q_coefficients X skip stack layouts openings u r lambda pows (map (layout_indices rots layouts) [0..<length layouts])
      = (Ok qs :: (_, 'e) res)"
proof -
  let ?f = "layout_coefficients X skip stack u r lambda pows (map (layout_indices rots layouts) [0..<length layouts])"
  have "\<exists>cs. ?f x = (Ok cs :: (_, 'e) res)" if x: "x \<in> set (enumerated (zip layouts openings))" for x
  proof -
    obtain c L q where c: "x = (c, L, q)" by (cases x) auto
    with x have "c < length (zip layouts openings)" "(L, q) = zip layouts openings ! c" by (simp_all only: enumerated_mem)
    then have "c < length layouts" "L = layouts ! c" "q = openings ! c" using len by auto
    with layout_coefficients_Ok [OF assms(1-5) _ _ pows, of c "openings ! c" lambda rots, where 'e = 'e] slices
    show ?thesis by (auto simp: c)
  qed
  then obtain g where "?f x = (Ok (g x) :: (_, 'e) res)" if "x \<in> set (enumerated (zip layouts openings))" for x by metis
  then have "rmap ?f (enumerated (zip layouts openings)) = (Ok (map g (enumerated (zip layouts openings))) :: (_, 'e) res)"
    by (rule rmap_total)
  then show ?thesis by (simp add: q_coefficients_def del: length_zip)
qed

section \<open>Safety\<close>

context verifier_env
begin

lemma safe_stacking_rounds:
  fixes K :: "('f, 'ef) field_ops"
  assumes "length polys = n"
  shows "vsafe inv (vfor (stacking_round T K polys) [0..<n] (cl, [u0])) (\<lambda>(_, u). length u = Suc n)"
proof -
  have "vsafe inv (vfor (stacking_round T K polys) [0..<n] (cl, [u0])) ((\<lambda>done (_, u). length u = Suc (length done)) [0..<n])"
  proof (rule vsafe_for)
    fix x ys zs and s :: "'ef \<times> 'ef list"
    assume split: "[0..<n] = ys @ x # zs" and J: "case s of (_, u) \<Rightarrow> length u = Suc (length ys)"
    from split have "x \<in> set [0..<n]" by simp
    then have x: "index polys x = Ok (polys ! x)" using assms by simp
    obtain c u where s: "s = (c, u)" by force
    obtain e1 e2 where e: "polys ! x = (e1, e2)" by force
    show "vsafe inv (stacking_round T K polys x s) (\<lambda>(_, u). length u = Suc (length (ys @ [x])))"
      unfolding stacking_round_def s prod.case
      apply (rule vsafe_lift_bind [OF x])
      unfolding e prod.case
      apply (rule vsafe_bind [OF safe_observe_ext])
      apply (rule vsafe_bind [OF safe_observe_ext])
      apply (rule vsafe_bind [OF safe_sample_ext])
      apply (rule vsafe_ret)
      using J by (simp add: s)
  qed simp
  then show ?thesis by simp
qed

lemma safe_observe_openings:
  fixes K :: "('f, 'ef) field_ops"
  shows "vsafe inv (observe_openings T K qs openings) (\<lambda>_. True)"
proof -
  have inner: "vsafe inv (vfor (\<lambda>(q_coeff, q_j) acc. vbind (v_observe_ext T K q_j) (\<lambda>_. vret (acc + q_coeff * q_j))) xs a) (\<lambda>_. True)"
    for xs and a :: 'ef
    by (rule vsafe_for_simple [where P = "\<lambda>_. True"]) (auto intro!: vsafe_bind [OF safe_observe_ext] vsafe_ret)
  show ?thesis
    unfolding observe_openings_def
    by (rule vsafe_for_simple [where P = "\<lambda>_. True"]) (auto intro!: vsafe_bind [OF inner] vsafe_ret)
qed

lemma safe_stacked_reduction:
  fixes mvk :: "('f, 'd) multi_stark_vk0" and bp :: "'ef batch_constraint_proof"
  assumes params: "wf_params (mvk_params mvk)" and prot: "wf_protocol X (mvk_params mvk)"
    and key: "traces_of_key mvk traces" and batch: "shaped_batch (mvk_params mvk) traces bp"
    and layouts: "layouts_for (mvk_params mvk) traces layouts" and stack: "shaped_stacking (mvk_params mvk) layouts sp"
    and r: "length r = Suc (log_height (snd (snd (hd traces))) - l_skip (mvk_params mvk))"
    and pows: "length pows = 2 ^ l_skip (mvk_params mvk)"
  shows "vsafe inv (verify_stacked_reduction T X sp layouts (commit_rots traces) (l_skip (mvk_params mvk)) (n_stack (mvk_params mvk))
      (column_openings bp) r pows) (\<lambda>u. length u = Suc (n_stack (mvk_params mvk)))"
proof -
  let ?p = "mvk_params mvk"
  let ?skip = "l_skip ?p" and ?stack = "n_stack ?p" and ?h = "log_height (snd (snd (hd traces)))"
  have parts: "list_all2 (\<lambda>parts (_, vk, _). shaped_parts vk parts) (column_openings bp) traces"
    using batch by (auto simp: shaped_batch_def)
  note order = stacked_claims_order [OF params key parts layouts, where 'e = "'ef stacked_error"]
  have st: "length (stacking_sumcheck_round_polys sp) = ?stack" "map length (stacking_openings sp) = map layout_width layouts"
    using stack by (auto simp: shaped_stacking_def)
  then have len: "length (stacking_openings sp) = length layouts" by (metis length_map)
  have fit: "?skip + ?stack < 64" "?skip \<le> fe_ext_adicity X"
    using params prot by (auto simp: wf_params_def wf_protocol_def)
  have h: "?h \<le> ?skip + ?stack"
  proof -
    obtain i vk v where hd: "hd traces = (i, vk, v)" by (cases "hd traces")
    then have "(i, vk, v) \<in> set traces" using key hd_in_set [of traces] by (simp add: traces_of_key_def)
    with key hd show ?thesis by (auto simp: traces_of_key_def log_stacked_height_def)
  qed
  have heights: "log_height v \<le> ?h" if "(i, vk, v) \<in> set traces" for i vk v
  proof -
    from that obtain k where k: "k < length traces" "traces ! k = (i, vk, v)" by (auto simp: in_set_conv_nth)
    obtain b wk w where t0: "traces ! 0 = (b, wk, w)" by (cases "traces ! 0")
    have "log_height v \<le> log_height w"
      using traces_of_key_nth(4) [OF key k, of 0] t0 k by (cases "k = 0") auto
    moreover have "hd traces = traces ! 0" using k by (cases traces) auto
    ultimately show ?thesis by (simp add: t0)
  qed
  have slices: "\<forall>c < length layouts. \<forall>(m, j, s) \<in> set (sorted_cols (layouts ! c)).
      slice_log_height s \<le> ?h \<and> slice_col_idx s < length (stacking_openings sp ! c)"
  proof (intro allI impI, clarify)
    fix c m j s assume c: "c < length layouts" and mem: "(m, j, s) \<in> set (sorted_cols (layouts ! c))"
    have lm: "length layouts = length (commit_metas traces)" by (rule layouts_for_length [OF layouts])
    have "commit_metas traces ! c \<in> set (commit_metas traces)" using c lm by simp
    note metas = this
    note facts = layout_facts(2) [OF commit_metas_wf [OF params key metas] layouts_new(1) [OF layouts c] mem]
    have "snd x \<le> ?h" if "x \<in> set (commit_metas traces ! c)" for x
      using metas that heights
      by (auto simp: commit_metas_def common_main_metas_def other_metas_widths)
    with facts have "slice_log_height s \<le> ?h" by (metis nth_mem)
    moreover have "length (stacking_openings sp ! c) = layout_width (layouts ! c)" using st(2) c len by (metis nth_map)
    ultimately show "slice_log_height s \<le> ?h \<and> slice_col_idx s < length (stacking_openings sp ! c)" using facts by simp
  qed
  show ?thesis
    unfolding verify_stacked_reduction_def Let_def
    apply (rule vsafe_lift_bind [OF order(1)], unfold prod.case)
    apply (rule vsafe_lift_bind [OF order(2)])
    apply (rule vsafe_bind [OF safe_sample_ext])
    apply (rule vsafe_assert_bind)
     apply (simp add: pows)
    apply (rule vsafe_check_bind)
    apply (rule vsafe_bind [OF safe_observe_exts])
    apply (rule vsafe_bind [OF safe_sample_ext])
    apply (rule vsafe_bind2 [OF safe_stacking_rounds [OF st(1)]])
    subgoal for lambda _ u0 c u
      using q_coefficients_Ok [OF fit, of u r ?h "stacking_openings sp" layouts
          "powers (cols_before layouts (length layouts)) (lambda * lambda)" lambda "commit_rots traces", where 'e = "'ef stacked_error"]
        r h len slices
      by (auto intro!: vsafe_lift_bind vsafe_bind [OF safe_observe_openings] vsafe_check_bind vsafe_ret)
    done
qed

end

section \<open>Properties\<close>

text \<open>C26. Every claim is about the right column. The proof lists the column openings per trace and part, the
  layouts list columns per commitment; for a proof of the right shape the verifier's claims are, in
  the order of the columns of all layouts, the openings of exactly these columns (trace or part,
  column and rotation), the length assertion holds, and the batching indices number the same
  columns one by one with the rotation flags of their traces.\<close>
theorem claims_in_layout_order:
  fixes openings :: "'ef::zero list list list"
  assumes "wf_params (mvk_params mvk)" and "traces_of_key mvk traces"
    and "list_all2 (\<lambda>parts (_, vk, _). shaped_parts vk parts) openings traces"
    and "layouts_for (mvk_params mvk) traces layouts"
  shows "\<exists>n indices. lambda_indices_per_layout layouts (commit_rots traces) = (Ok (n, indices) :: (_, 'e) res) \<and>
     stacked_claims (commit_rots traces) openings n
       = (Ok (concat (map (\<lambda>c. map (\<lambda>(m, j, _). matrix_claims (commit_rots traces) openings c m ! j) (sorted_cols (layouts ! c)))
                 [0..<length layouts])) :: (_, 'e) res) \<and>
     concat indices = zip [0..<n] (concat (map (\<lambda>c. map (\<lambda>(m, _). commit_rots traces ! c ! m) (sorted_cols (layouts ! c)))
                 [0..<length layouts]))"
proof -
  let ?rots = "commit_rots traces"
  let ?flags = "\<lambda>c. map (\<lambda>(m, _). ?rots ! c ! m) (sorted_cols (layouts ! c))"
  have index: "layout_indices ?rots layouts c = zip [cols_before layouts c..<cols_before layouts (Suc c)] (?flags c)" if "c < length layouts" for c
    by (rule nth_equalityI) (auto simp: layout_indices_def cols_before_Suc [OF that] split: prod.splits)
  have "concat (map (layout_indices ?rots layouts) [0..<k]) = zip [0..<cols_before layouts k] (concat (map ?flags [0..<k])) \<and>
      length (concat (map ?flags [0..<k])) = cols_before layouts k" if "k \<le> length layouts" for k
    using that
  proof (induction k)
    case 0
    then show ?case by (simp add: cols_before_def)
  next
    case (Suc k)
    then have IH: "concat (map (layout_indices ?rots layouts) [0..<k]) = zip [0..<cols_before layouts k] (concat (map ?flags [0..<k]))"
      "length (concat (map ?flags [0..<k])) = cols_before layouts k" and k: "k < length layouts" by auto
    have "[0..<cols_before layouts (Suc k)] = [0..<cols_before layouts k] @ [cols_before layouts k..<cols_before layouts (Suc k)]"
      unfolding cols_before_Suc [OF k] by (rule upt_add_eq_append) simp
    with IH show ?case by (simp add: index [OF k] zip_append cols_before_Suc [OF k])
  qed
  note numbered = this [of "length layouts"]
  have cols: "column_claims ?rots openings layouts = (\<lambda>c. map (\<lambda>(m, j, _). matrix_claims ?rots openings c m ! j) (sorted_cols (layouts ! c)))"
    by (rule ext) (rule column_claims_def)
  show ?thesis
    using numbered stacked_claims_order [OF assms, where 'e = 'e, unfolded cols] by auto
qed

theorem claims_in_layout_order_witness:
  "\<exists>layouts n indices. lambda_indices_per_layout layouts (commit_rots (per_trace sample_mvk sample_proof)) = (Ok (n, indices) :: (_, unit) res) \<and>
     stacked_claims (commit_rots (per_trace sample_mvk sample_proof)) (column_openings (proof_batch_constraint sample_proof)) n
       = (Ok (concat (map (\<lambda>c. map (\<lambda>(m, j, _). matrix_claims (commit_rots (per_trace sample_mvk sample_proof))
            (column_openings (proof_batch_constraint sample_proof)) c m ! j) (sorted_cols (layouts ! c))) [0..<length layouts])) :: (_, unit) res)"
proof -
  from sample_shape obtain layouts where "verify_proof_shape sample_mvk sample_proof = Ok layouts" ..
  then have shaped: "well_shaped sample_mvk sample_proof layouts"
    using verify_proof_shape_decides [OF wf_sample_mvk sample_has_trace] by blast
  then have "traces_of_key sample_mvk (per_trace sample_mvk sample_proof)"
    using per_trace_of_key [OF _ sample_has_trace] by (simp add: well_shaped_def Let_def)
  moreover have "wf_params (mvk_params sample_mvk)" using wf_sample_mvk by (simp add: wf_mvk_def)
  ultimately show ?thesis
    using claims_in_layout_order [of sample_mvk "per_trace sample_mvk sample_proof" "column_openings (proof_batch_constraint sample_proof)" layouts, where 'e = unit]
      shaped by (auto simp: well_shaped_def shaped_batch_def Let_def)
qed

end
