(* ===== verification/Merkle.thy ===== *)
theory Merkle
  imports StackedLayout
begin

text \<open>
  Merkle commitments: \<open>tree_compress\<close> of \<open>hasher.rs\<close>, the tree of \<open>prover/stacked_pcs.rs\<close>
  with its query operations, and \<open>merkle_verify\<close> of \<open>verifier/whir.rs\<close>. The hash and the
  compression function are a parameter. The openings of a tree verify, and two different
  openings of one position that both verify exhibit a collision.
\<close>

unbundle bit_operations_syntax

section \<open>The hasher\<close>

record ('f, 'd) merkle_hasher =
  hash_slice :: "'f list \<Rightarrow> 'd"
  compress :: "'d \<Rightarrow> 'd \<Rightarrow> 'd"

fun compress_pairs :: "('f, 'd) merkle_hasher \<Rightarrow> 'd list \<Rightarrow> 'd list" where
  "compress_pairs h (a # b # ds) = compress h a b # compress_pairs h ds"
| "compress_pairs h ds = []"

lemma length_compress_pairs [simp]: "length (compress_pairs h ds) = length ds div 2"
  by (induction h ds rule: compress_pairs.induct) auto

function compress_levels :: "('f, 'd) merkle_hasher \<Rightarrow> 'd list \<Rightarrow> 'd list" where
  "compress_levels h hashes = (if 1 < length hashes then compress_levels h (compress_pairs h hashes) else hashes)"
  by auto
termination by (relation "measure (\<lambda>(h, ds). length ds)") auto

declare compress_levels.simps [simp del]

lemma compress_levels_step: "1 < length ds \<Longrightarrow> compress_levels h ds = compress_levels h (compress_pairs h ds)"
  by (subst compress_levels.simps) simp

lemma compress_levels_end: "length ds = 1 \<Longrightarrow> compress_levels h ds = ds"
  by (subst compress_levels.simps) simp

definition tree_compress :: "('f, 'd) merkle_hasher \<Rightarrow> 'd list \<Rightarrow> ('d, 'e) res" where
  "tree_compress h hashes =
     rbind (assert_that (is_pow2 (length hashes))) (\<lambda>_.
     let hashes = compress_levels h hashes in
     unwrap (if hashes = [] then None else Some (last hashes)))"

section \<open>The tree\<close>

record ('ef, 'd) merkle_tree =
  backing_matrix :: "'ef col_matrix"
  digest_layers :: "'d list list"
  rows_per_query :: nat

definition query_stride :: "('ef, 'd) merkle_tree \<Rightarrow> (nat, 'e) res" where
  "query_stride t = rbind (index (digest_layers t) 0) (\<lambda>l. Ok (length l))"

definition proof_depth :: "('ef, 'd) merkle_tree \<Rightarrow> (nat, 'e) res" where
  "proof_depth t = sub64 (length (digest_layers t)) 1"

definition merkle_root :: "('ef, 'd) merkle_tree \<Rightarrow> ('d, stacked_pcs_error) res" where
  "merkle_root t = (if digest_layers t = [] then Err MerkleTreeNoRoot else index (last (digest_layers t)) 0)"

definition row_iter :: "'ef::zero col_matrix \<Rightarrow> nat \<Rightarrow> ('ef list, 'e) res" where
  "row_iter M i = rmap (\<lambda>c. rbind (cm_get M i c) (\<lambda>v. Ok (case v of Some x \<Rightarrow> x | None \<Rightarrow> 0))) [0..<cm_width M]"

text \<open>One of the first layers, which pair rows that are \<open>query_stride\<close> apart.\<close>

definition query_layer :: "('f, 'd) merkle_hasher \<Rightarrow> nat \<Rightarrow> 'd list \<Rightarrow> ('d list, 'e) res" where
  "query_layer h stride prev =
     rmap (\<lambda>i. rbind (assert_that (stride \<noteq> 0)) (\<lambda>_.
       let x = i div stride; y = i mod stride in
       rbind (index prev (2 * x * stride + y)) (\<lambda>left.
       rbind (index prev ((2 * x + 1) * stride + y)) (\<lambda>right.
       Ok (compress h left right))))) [0..<length prev div 2]"

text \<open>The remaining layers, up to the root.\<close>

function upper_layers :: "('f, 'd) merkle_hasher \<Rightarrow> 'd list \<Rightarrow> 'd list list" where
  "upper_layers h layer = (if 1 < length layer then layer # upper_layers h (compress_pairs h layer) else [layer])"
  by auto
termination by (relation "measure (\<lambda>(h, ds). length ds)") auto

declare upper_layers.simps [simp del]

definition merkle_tree_new ::
  "('f, 'd) merkle_hasher \<Rightarrow> ('ef::zero \<Rightarrow> 'f list) \<Rightarrow> 'ef col_matrix \<Rightarrow> nat \<Rightarrow> (('ef, 'd) merkle_tree, stacked_pcs_error) res" where
  "merkle_tree_new h coeffs M rows =
     (let height = cm_height M in
      if height = 0 then Err MerkleTreeEmptyMatrix
      else if \<not> is_pow2 rows then Err (MerkleTreeRowsPerQueryNotPow2 rows)
      else let num_leaves = next_pow2 height in
      if num_leaves < rows then Err (MerkleTreeRowsPerQueryExceeded rows num_leaves)
      else
        rbind (rmap (\<lambda>r. rbind (row_iter M r) (\<lambda>row. Ok (hash_slice h (concat (map coeffs row))))) [0..<num_leaves])
          (\<lambda>row_hashes.
        let stride = num_leaves div rows in
        rbind (log2_strict rows) (\<lambda>log_rows.
        rbind (rfold (\<lambda>_. query_layer h stride) [0..<log_rows] row_hashes) (\<lambda>digests.
        Ok \<lparr>backing_matrix = M, digest_layers = upper_layers h digests, rows_per_query = rows\<rparr>))))"

definition query_merkle_proof :: "('ef, 'd) merkle_tree \<Rightarrow> nat \<Rightarrow> ('d list, stacked_pcs_error) res" where
  "query_merkle_proof t query_idx =
     rbind (query_stride t) (\<lambda>stride.
     if stride \<le> query_idx then Err (MerkleTreeQueryOutOfBounds query_idx stride)
     else rbind (proof_depth t) (\<lambda>depth.
       rbind (rfold (\<lambda>layer (idx, pf). rbind (index layer (idx XOR 1)) (\<lambda>sibling. Ok (drop_bit 1 idx, pf @ [sibling])))
         (take depth (digest_layers t)) (query_idx, [])) (\<lambda>(idx, pf). Ok pf)))"

definition get_opened_rows :: "('ef::zero, 'd) merkle_tree \<Rightarrow> nat \<Rightarrow> ('ef list list, stacked_pcs_error) res" where
  "get_opened_rows t i =
     rbind (query_stride t) (\<lambda>stride.
     if stride \<le> i then Err (MerkleTreeOpenedRowsOutOfBounds i stride)
     else rmap (\<lambda>row_offset. rbind (row_iter (backing_matrix t) (row_offset * stride + i)) (\<lambda>row.
            rbind (assert_that (length row = cm_width (backing_matrix t))) (\<lambda>_. Ok row)))
          [0..<rows_per_query t])"

section \<open>The verifier\<close>

datatype verify_whir_error =
    FinalPolyDegree
  | MuPoWInvalid
  | FoldingPoWInvalid
  | QueryPhasePoWInvalid
  | FinalPolyQueryMismatch
  | FinalPolyConstraint
  | MerkleVerify

definition merkle_step :: "('f, 'd) merkle_hasher \<Rightarrow> 'd \<Rightarrow> 'd \<times> nat \<Rightarrow> 'd \<times> nat" where
  "merkle_step h sibling = (\<lambda>(cur, idx).
     (if idx AND 1 = 0 then compress h cur sibling else compress h sibling cur, drop_bit 1 idx))"

definition merkle_verify ::
  "('f, 'd) merkle_hasher \<Rightarrow> 'd \<Rightarrow> nat \<Rightarrow> 'd \<Rightarrow> 'd list \<Rightarrow> (unit, verify_whir_error) res" where
  "merkle_verify h root idx leaf_hash merkle_proof =
     (let (cur, _) = fold (merkle_step h) merkle_proof (leaf_hash, idx) in
      if root \<noteq> cur then Err MerkleVerify else Ok ())"

section \<open>Completeness\<close>

lemma merkle_step_parity:
  "merkle_step h s (cur, idx) = (if even idx then compress h cur s else compress h s cur, idx div 2)"
  by (simp add: merkle_step_def drop_bit_Suc even_iff_mod_2_eq_zero and_one_eq)

lemma compress_pairs_nth:
  "2 * i + 1 < length ds \<Longrightarrow> compress_pairs h ds ! i = compress h (ds ! (2 * i)) (ds ! (2 * i + 1))"
proof (induction h ds arbitrary: i rule: compress_pairs.induct)
  case (1 h a b ds)
  then show ?case by (cases i) auto
qed auto

lemma xor_one_nat: "(n :: nat) XOR 1 = (if even n then n + 1 else n - 1)"
  using xor_one_eq [of n] by (auto simp: of_bool_def)

lemma sibling_index: "i < 2 ^ Suc k \<Longrightarrow> (i XOR 1) < (2 :: nat) ^ Suc k"
  unfolding xor_one_nat by (cases "even i") (auto elim!: evenE)

lemma upper_layers_power:
  "length ds = 2 ^ Suc k \<Longrightarrow> upper_layers h ds = ds # upper_layers h (compress_pairs h ds)"
  using one_less_power [of "2::nat" "Suc k"] by (subst upper_layers.simps) simp

lemma upper_layers_one: "length ds = 1 \<Longrightarrow> upper_layers h ds = [ds]"
  by (subst upper_layers.simps) simp

lemma length_upper_layers: "length ds = 2 ^ k \<Longrightarrow> length (upper_layers h ds) = Suc k"
proof (induction k arbitrary: ds)
  case (Suc k)
  from Suc.IH [of "compress_pairs h ds"] Suc.prems show ?case by (simp add: upper_layers_power)
qed (simp add: upper_layers_one)

lemma last_upper_layers: "length ds = 2 ^ k \<Longrightarrow> last (upper_layers h ds) = compress_levels h ds \<and> length (compress_levels h ds) = 1"
proof (induction k arbitrary: ds)
  case (Suc k)
  have gt: "1 < length ds" using Suc.prems one_less_power [of "2::nat" "Suc k"] by simp
  have "upper_layers h (compress_pairs h ds) \<noteq> []"
    using length_upper_layers [of "compress_pairs h ds" k h] Suc.prems by auto
  with Suc.IH [of "compress_pairs h ds"] Suc.prems gt show ?case
    by (simp add: upper_layers_power compress_levels.simps [of h ds])
qed (simp add: upper_layers_one compress_levels.simps [of h])

definition sibling_step :: "'d list \<Rightarrow> nat \<times> 'd list \<Rightarrow> (nat \<times> 'd list, stacked_pcs_error) res" where
  "sibling_step = (\<lambda>layer (idx, pf). rbind (index layer (idx XOR 1)) (\<lambda>sibling. Ok (drop_bit 1 idx, pf @ [sibling])))"

lemma open_path:
  assumes "length ds = 2 ^ k" and "idx < 2 ^ k"
  shows "\<exists>pf. (\<forall>acc. rfold sibling_step (take k (upper_layers h ds)) (idx, acc) = Ok (0, acc @ pf)) \<and> length pf = k \<and>
     fst (fold (merkle_step h) pf (ds ! idx, idx)) = hd (compress_levels h ds)"
  using assms
proof (induction k arbitrary: ds idx)
  case 0
  then show ?case by (cases ds) (simp_all add: compress_levels.simps)
next
  case (Suc k)
  let ?ps = "compress_pairs h ds"
  have i2: "idx div 2 < 2 ^ k" using Suc.prems(2) by simp
  have gt: "1 < length ds" using Suc.prems(1) one_less_power [of "2::nat" "Suc k"] by simp
  from Suc.IH [of ?ps "idx div 2"] Suc.prems(1) i2 obtain pf where pf:
    "\<And>acc. rfold sibling_step (take k (upper_layers h ?ps)) (idx div 2, acc) = Ok (0, acc @ pf)" "length pf = k"
    "fst (fold (merkle_step h) pf (?ps ! (idx div 2), idx div 2)) = hd (compress_levels h ?ps)" by auto
  let ?s = "ds ! (idx XOR 1)"
  have sib: "idx XOR 1 < length ds" using sibling_index [OF Suc.prems(2)] Suc.prems(1) by simp
  have step: "sibling_step ds (idx, acc) = Ok (idx div 2, acc @ [?s])" for acc
    using sib by (simp add: sibling_step_def drop_bit_Suc)
  have pair: "?ps ! (idx div 2) = compress h (ds ! (2 * (idx div 2))) (ds ! (2 * (idx div 2) + 1))"
    using Suc.prems(1) i2 by (intro compress_pairs_nth) simp
  have node: "merkle_step h ?s (ds ! idx, idx) = (?ps ! (idx div 2), idx div 2)"
    unfolding merkle_step_parity pair xor_one_nat by (cases "even idx") (auto elim!: evenE oddE)
  show ?case
  proof (intro exI [of _ "?s # pf"] conjI allI)
    show "rfold sibling_step (take (Suc k) (upper_layers h ds)) (idx, acc) = Ok (0, acc @ ?s # pf)" for acc
      using pf(1) [of "acc @ [?s]"] by (simp add: upper_layers_power [OF Suc.prems(1)] step)
    show "fst (fold (merkle_step h) (?s # pf) (ds ! idx, idx)) = hd (compress_levels h ds)"
      unfolding fold_simps node using pf(3) gt by (simp add: compress_levels.simps [of h ds])
  qed (simp add: pf(2))
qed

text \<open>The rows that one query opens are those at one position of the strided layers.\<close>

definition strided_column :: "nat \<Rightarrow> nat \<Rightarrow> 'd list \<Rightarrow> 'd list" where
  "strided_column stride y ds = map (\<lambda>x. ds ! (x * stride + y)) [0..<length ds div stride]"

lemma query_layer_Ok:
  assumes "0 < stride" and "length prev = 2 * n * stride"
  shows "query_layer h stride prev = Ok (map (\<lambda>i. compress h (prev ! (2 * (i div stride) * stride + i mod stride))
     (prev ! ((2 * (i div stride) + 1) * stride + i mod stride))) [0..<n * stride])"
proof -
  have "rbind (assert_that (stride \<noteq> 0)) (\<lambda>_. let x = i div stride; y = i mod stride in
       rbind (index prev (2 * x * stride + y)) (\<lambda>left. rbind (index prev ((2 * x + 1) * stride + y)) (\<lambda>right.
       Ok (compress h left right))))
     = Ok (compress h (prev ! (2 * (i div stride) * stride + i mod stride)) (prev ! ((2 * (i div stride) + 1) * stride + i mod stride)))"
    if "i < n * stride" for i
  proof -
    have x: "i div stride < n" using that by (simp add: less_mult_imp_div_less)
    have "i mod stride < stride" using assms(1) by simp
    then have "2 * (i div stride) * stride + i mod stride < length prev"
      "(2 * (i div stride) + 1) * stride + i mod stride < length prev"
      using cell_index_less [of "i mod stride" stride "2 * (i div stride)" "2 * n"]
        cell_index_less [of "i mod stride" stride "2 * (i div stride) + 1" "2 * n"] x assms(2) by simp_all
    with assms(1) show ?thesis by (simp add: Let_def)
  qed
  then show ?thesis
    unfolding query_layer_def by (intro rmap_total [THEN trans]) (auto simp: assms(2))
qed

lemma strided_column_query_layer:
  assumes "length prev = 2 * n * stride" and "query_layer h stride prev = Ok nxt" and "y < stride"
  shows "length nxt = n * stride \<and> strided_column stride y nxt = compress_pairs h (strided_column stride y prev)"
proof -
  have st: "0 < stride" using assms(3) by simp
  have nx: "nxt = map (\<lambda>i. compress h (prev ! (2 * (i div stride) * stride + i mod stride))
     (prev ! ((2 * (i div stride) + 1) * stride + i mod stride))) [0..<n * stride]"
    using assms(2) unfolding query_layer_Ok [OF st assms(1)] by simp
  have len: "length nxt div stride = n" "length prev div stride = 2 * n" using st nx assms(1) by simp_all
  have "strided_column stride y nxt ! x = compress_pairs h (strided_column stride y prev) ! x" if x: "x < n" for x
  proof -
    have lt: "x * stride + y < n * stride" using cell_index_less [OF assms(3) x] .
    have "(x * stride + y) div stride = x" "(x * stride + y) mod stride = y"
      using assms(3) by simp_all
    then have "nxt ! (x * stride + y) = compress h (prev ! (2 * x * stride + y)) (prev ! ((2 * x + 1) * stride + y))"
      using lt by (simp add: nx)
    moreover have "compress_pairs h (strided_column stride y prev) ! x
        = compress h (strided_column stride y prev ! (2 * x)) (strided_column stride y prev ! (2 * x + 1))"
      using x by (intro compress_pairs_nth) (simp add: strided_column_def len)
    ultimately show ?thesis using x by (simp add: strided_column_def len)
  qed
  then show ?thesis
    using st by (auto simp: nx list_eq_iff_nth_eq strided_column_def len)
qed

lemma query_layers:
  assumes "0 < stride"
  shows "length ls = k \<Longrightarrow> length prev = 2 ^ k * stride \<Longrightarrow>
     \<exists>ds. rfold (\<lambda>_. query_layer h stride) ls prev = (Ok ds :: ('d list, 'e) res) \<and> length ds = stride \<and>
       (\<forall>y < stride. ds ! y = hd (compress_levels h (strided_column stride y prev)))"
proof (induction k arbitrary: ls prev)
  case 0
  then show ?case using assms by (auto simp: strided_column_def compress_levels.simps)
next
  case (Suc k)
  then obtain l ls' where ls: "ls = l # ls'" "length ls' = k" by (cases ls) auto
  have two: "length prev = 2 * 2 ^ k * stride" using Suc.prems(2) by simp
  define nxt where "nxt = map (\<lambda>i. compress h (prev ! (2 * (i div stride) * stride + i mod stride))
     (prev ! ((2 * (i div stride) + 1) * stride + i mod stride))) [0..<2 ^ k * stride]"
  have q: "query_layer h stride prev = (Ok nxt :: ('d list, 'e) res)" unfolding query_layer_Ok [OF assms two] nxt_def ..
  have nl: "length nxt = 2 ^ k * stride" by (simp add: nxt_def)
  from Suc.IH [OF ls(2) nl] obtain ds where ds: "rfold (\<lambda>_. query_layer h stride) ls' nxt = (Ok ds :: ('d list, 'e) res)" "length ds = stride"
    "\<forall>y < stride. ds ! y = hd (compress_levels h (strided_column stride y nxt))" by blast
  have "1 < length (strided_column stride y prev)" for y
    using assms one_less_power [of "2::nat" "Suc k"] by (simp add: strided_column_def two)
  then have "compress_levels h (strided_column stride y nxt) = compress_levels h (strided_column stride y prev)" if "y < stride" for y
    using strided_column_query_layer [OF two q that] by (simp add: compress_levels.simps [of h "strided_column stride y prev"])
  with ds q show ?case by (simp add: ls)
qed

definition row_of :: "'ef::zero col_matrix \<Rightarrow> nat \<Rightarrow> 'ef list" where
  "row_of M i = map (\<lambda>c. columns_of M ! c ! i) [0..<cm_width M]"

lemma row_iter_Ok: "wf_col_matrix M \<Longrightarrow> i < cm_height M \<Longrightarrow> row_iter M i = Ok (row_of M i)"
  unfolding row_iter_def row_of_def by (intro rmap_total [THEN trans]) (auto simp: cm_get_Ok)

definition leaf_hash :: "('f, 'd) merkle_hasher \<Rightarrow> ('ef \<Rightarrow> 'f list) \<Rightarrow> 'ef list \<Rightarrow> 'd" where
  "leaf_hash h coeffs row = hash_slice h (concat (map coeffs row))"

lemma compress_levels_one: "length ds = 2 ^ k \<Longrightarrow> \<exists>d. compress_levels h ds = [d]"
  using last_upper_layers [of ds k h] by (auto simp: length_Suc_conv)

lemma tree_compress_power: "length ds = 2 ^ k \<Longrightarrow> tree_compress h ds = Ok (hd (compress_levels h ds))"
  using compress_levels_one [of ds k h] by (auto simp: tree_compress_def)

lemma merkle_opening_complete:
  fixes M :: "'ef::zero col_matrix" and h :: "('f, 'd) merkle_hasher"
  assumes "wf_col_matrix M" and a: "cm_height M = 2 ^ a" and r: "rows = 2 ^ r" "r \<le> a" and q: "q < 2 ^ (a - r)"
  shows "\<exists>t root pf d. merkle_tree_new h coeffs M rows = Ok t \<and> merkle_root t = Ok root \<and>
     backing_matrix t = M \<and> length (digest_layers t) = Suc (a - r) \<and>
     get_opened_rows t q = Ok (map (\<lambda>k. row_of M (k * 2 ^ (a - r) + q)) [0..<rows]) \<and>
     query_merkle_proof t q = Ok pf \<and> length pf = a - r \<and>
     tree_compress h (map (\<lambda>k. leaf_hash h coeffs (row_of M (k * 2 ^ (a - r) + q))) [0..<rows]) = (Ok d :: ('d, verify_whir_error) res) \<and>
     merkle_verify h root q d pf = Ok ()"
proof -
  define stride where "stride = (2::nat) ^ (a - r)"
  have st: "0 < stride" "2 ^ a = 2 ^ r * stride" using r(2) by (simp_all add: stride_def flip: power_add)
  define leaves where "leaves = map (\<lambda>i. leaf_hash h coeffs (row_of M i)) [0..<2 ^ a]"
  have len: "length leaves = 2 ^ r * stride" by (simp add: leaves_def st(2))
  have le: "rows \<le> 2 ^ a" using r by simp
  have np: "next_pow2 (cm_height M) = 2 ^ a" "2 ^ a div rows = stride"
    by (simp add: a, simp add: r(1) st(2))
  have "rmap (\<lambda>r. rbind (row_iter M r) (\<lambda>row. Ok (hash_slice h (concat (map coeffs row))))) [0..<2 ^ a]
      = (Ok leaves :: ('d list, stacked_pcs_error) res)"
    unfolding leaves_def leaf_hash_def by (intro rmap_total) (simp add: row_iter_Ok assms(1) a)
  moreover obtain ds where ds: "rfold (\<lambda>_. query_layer h stride) [0..<r] leaves = (Ok ds :: ('d list, stacked_pcs_error) res)"
    "length ds = stride" "\<forall>y < stride. ds ! y = hd (compress_levels h (strided_column stride y leaves))"
    using query_layers [OF st(1) _ len, of "[0..<r]" h] by auto
  moreover define t where "t = \<lparr>backing_matrix = M, digest_layers = upper_layers h ds, rows_per_query = rows\<rparr>"
  ultimately have new: "merkle_tree_new h coeffs M rows = Ok t"
    using le np by (simp add: merkle_tree_new_def Let_def r(1)) (simp add: r(1) a)
  have dl: "length ds = 2 ^ (a - r)" using ds(2) by (simp add: stride_def)
  from upper_layers.simps [of h ds] have hd: "hd (upper_layers h ds) = ds" "upper_layers h ds \<noteq> []" by auto
  then have ix: "index (digest_layers t) 0 = (Ok ds :: (_, 'e) res)" by (simp add: t_def hd_conv_nth)
  have root: "merkle_root t = Ok (hd (compress_levels h ds))"
    using last_upper_layers [OF dl, of h] hd(2) by (cases "compress_levels h ds") (auto simp: merkle_root_def t_def)
  have qs: "query_stride t = (Ok stride :: (_, 'e) res)" unfolding query_stride_def ix by (simp add: ds(2))
  have row_lt: "k * stride + q < 2 ^ a" if "k < rows" for k
    using cell_index_less [of q stride k rows] that q by (simp add: st(2) r(1) stride_def)
  have opened: "get_opened_rows t q = Ok (map (\<lambda>k. row_of M (k * stride + q)) [0..<rows])"
  proof -
    have "rmap (\<lambda>k. rbind (row_iter M (k * stride + q)) (\<lambda>row. rbind (assert_that (length row = cm_width M)) (\<lambda>_. Ok row))) [0..<rows]
        = (Ok (map (\<lambda>k. row_of M (k * stride + q)) [0..<rows]) :: ('ef list list, stacked_pcs_error) res)"
      by (intro rmap_total) (simp add: row_iter_Ok assms(1) a row_lt, simp add: row_of_def)
    with q show ?thesis unfolding get_opened_rows_def qs by (simp add: t_def stride_def)
  qed
  from open_path [OF dl q, of h] obtain pf where pf: "\<And>acc. rfold sibling_step (take (a - r) (upper_layers h ds)) (q, acc) = Ok (0, acc @ pf)"
    "length pf = a - r" "fst (fold (merkle_step h) pf (ds ! q, q)) = hd (compress_levels h ds)" by blast
  have path: "query_merkle_proof t q = Ok pf"
    using pf(1) [of "[]"] q length_upper_layers [OF dl, of h]
    unfolding query_merkle_proof_def qs sibling_step_def [symmetric]
    by (simp add: t_def proof_depth_def sub64_def stride_def)
  have col: "strided_column stride q leaves = map (\<lambda>k. leaf_hash h coeffs (row_of M (k * stride + q))) [0..<rows]"
    using st row_lt by (simp add: strided_column_def len r(1)) (simp add: leaves_def)
  have tc: "tree_compress h (map (\<lambda>k. leaf_hash h coeffs (row_of M (k * stride + q))) [0..<rows]) = (Ok (ds ! q) :: ('d, verify_whir_error) res)"
  proof -
    have "length (strided_column stride q leaves) = 2 ^ r" by (simp add: col r(1))
    moreover have "ds ! q = hd (compress_levels h (strided_column stride q leaves))" using ds(3) q by (simp add: stride_def)
    ultimately show ?thesis unfolding col [symmetric] by (simp add: tree_compress_power)
  qed
  have "merkle_verify h (hd (compress_levels h ds)) q (ds ! q) pf = Ok ()"
    using pf(3) by (cases "fold (merkle_step h) pf (ds ! q, q)") (simp add: merkle_verify_def)
  moreover have "backing_matrix t = M" "length (digest_layers t) = Suc (a - r)"
    using length_upper_layers [OF dl, of h] by (simp_all add: t_def)
  ultimately show ?thesis using new root opened path pf(2) tc unfolding stride_def by blast
qed

section \<open>Binding\<close>

text \<open>
  The calls of the compression function: \<open>tree_calls\<close> those of \<open>tree_compress\<close> on a list of digests,
  \<open>path_calls\<close> those of \<open>merkle_verify\<close> on a leaf digest and a proof. An opening calls it on the digests of its rows
  and then along its path.
\<close>

fun pairs_of :: "'d list \<Rightarrow> ('d \<times> 'd) list" where
  "pairs_of (a # b # ds) = (a, b) # pairs_of ds"
| "pairs_of ds = []"

function tree_calls :: "('f, 'd) merkle_hasher \<Rightarrow> 'd list \<Rightarrow> ('d \<times> 'd) list" where
  "tree_calls h ds = (if 1 < length ds then pairs_of ds @ tree_calls h (compress_pairs h ds) else [])"
  by auto
termination by (relation "measure (\<lambda>(h, ds). length ds)") auto

declare tree_calls.simps [simp del]

fun path_calls :: "('f, 'd) merkle_hasher \<Rightarrow> 'd list \<Rightarrow> 'd \<Rightarrow> nat \<Rightarrow> ('d \<times> 'd) list" where
  "path_calls h [] cur idx = []"
| "path_calls h (s # pf) cur idx =
     (let call = (if even idx then (cur, s) else (s, cur)) in call # path_calls h pf (compress h (fst call) (snd call)) (idx div 2))"

definition opening_calls :: "('f, 'd) merkle_hasher \<Rightarrow> 'f list list \<Rightarrow> 'd \<Rightarrow> 'd list \<Rightarrow> nat \<Rightarrow> ('d \<times> 'd) list" where
  "opening_calls h rows d pf idx = tree_calls h (map (hash_slice h) rows) @ path_calls h pf d idx"

text \<open>Two different inputs among the calls of two runs with the same output.\<close>

definition calls_collide :: "('f, 'd) merkle_hasher \<Rightarrow> ('d \<times> 'd) list \<Rightarrow> ('d \<times> 'd) list \<Rightarrow> bool" where
  "calls_collide h P Q \<longleftrightarrow> (\<exists>(a, b) \<in> set P. \<exists>(c, d) \<in> set Q. (a, b) \<noteq> (c, d) \<and> compress h a b = compress h c d)"

definition rows_collide :: "('f, 'd) merkle_hasher \<Rightarrow> 'f list list \<Rightarrow> 'f list list \<Rightarrow> bool" where
  "rows_collide h rows rows' \<longleftrightarrow> (\<exists>r \<in> set rows. \<exists>r' \<in> set rows'. r \<noteq> r' \<and> hash_slice h r = hash_slice h r')"

lemma calls_inject:
  "\<not> calls_collide h P Q \<Longrightarrow> (a, b) \<in> set P \<Longrightarrow> (c, d) \<in> set Q \<Longrightarrow> compress h a b = compress h c d \<Longrightarrow> a = c \<and> b = d"
  unfolding calls_collide_def by blast

lemma calls_collide_mono: "\<not> calls_collide h P Q \<Longrightarrow> set P' \<subseteq> set P \<Longrightarrow> set Q' \<subseteq> set Q \<Longrightarrow> \<not> calls_collide h P' Q'"
  unfolding calls_collide_def by blast

lemma compress_pairs_inject:
  "\<not> calls_collide h (pairs_of xs) (pairs_of ys) \<Longrightarrow> length xs = length ys \<Longrightarrow> even (length xs) \<Longrightarrow>
   compress_pairs h xs = compress_pairs h ys \<Longrightarrow> xs = ys"
proof (induction h xs arbitrary: ys rule: compress_pairs.induct)
  case (1 h a b ds)
  from 1(3) obtain c d ys' where ys: "ys = c # d # ys'" by (cases ys; cases "tl ys") auto
  have "\<not> calls_collide h (pairs_of ds) (pairs_of ys')" using 1(2) by (rule calls_collide_mono) (auto simp: ys)
  with 1 have "ds = ys'" by (simp add: ys)
  moreover from 1(5) have "a = c \<and> b = d" by (intro calls_inject [OF 1(2)]) (simp_all add: ys)
  ultimately show ?case by (simp add: ys)
qed auto

lemma compress_levels_inject:
  "\<not> calls_collide h (tree_calls h xs) (tree_calls h ys) \<Longrightarrow> length xs = 2 ^ k \<Longrightarrow> length ys = 2 ^ k \<Longrightarrow>
   compress_levels h xs = compress_levels h ys \<Longrightarrow> xs = ys"
proof (induction k arbitrary: xs ys)
  case (Suc k)
  have gt: "1 < length xs" "1 < length ys" using Suc.prems(2,3) one_less_power [of "2::nat" "Suc k"] by simp_all
  have calls: "tree_calls h xs = pairs_of xs @ tree_calls h (compress_pairs h xs)" "tree_calls h ys = pairs_of ys @ tree_calls h (compress_pairs h ys)"
    using gt by (simp_all add: tree_calls.simps [of h xs] tree_calls.simps [of h ys])
  have nc: "\<not> calls_collide h (pairs_of xs) (pairs_of ys)" "\<not> calls_collide h (tree_calls h (compress_pairs h xs)) (tree_calls h (compress_pairs h ys))"
    using Suc.prems(1) by (rule calls_collide_mono; simp add: calls)+
  have "compress_levels h (compress_pairs h xs) = compress_levels h (compress_pairs h ys)"
    using Suc.prems(4) unfolding compress_levels_step [OF gt(1)] compress_levels_step [OF gt(2)] .
  from Suc.IH [OF nc(2) _ _ this] Suc.prems(2,3) have "compress_pairs h xs = compress_pairs h ys" by simp
  from compress_pairs_inject [OF nc(1) _ _ this] Suc.prems(2,3) show ?case by simp
qed (simp add: compress_levels_end)

lemma merkle_path_inject:
  "\<not> calls_collide h (path_calls h pf d idx) (path_calls h pf' d' idx) \<Longrightarrow> length pf = length pf' \<Longrightarrow>
   fst (fold (merkle_step h) pf (d, idx)) = fst (fold (merkle_step h) pf' (d', idx)) \<Longrightarrow> d = d' \<and> pf = pf'"
proof (induction pf arbitrary: pf' d d' idx)
  case (Cons s pf)
  then obtain s' pf'' where pf': "pf' = s' # pf''" "length pf'' = length pf" by (cases pf') auto
  define p where "p = (if even idx then (d, s) else (s, d))"
  define p' where "p' = (if even idx then (d', s') else (s', d'))"
  have c: "merkle_step h s (d, idx) = (compress h (fst p) (snd p), idx div 2)" by (simp add: merkle_step_parity p_def)
  have c': "merkle_step h s' (d', idx) = (compress h (fst p') (snd p'), idx div 2)" by (simp add: merkle_step_parity p'_def)
  have calls: "path_calls h (s # pf) d idx = p # path_calls h pf (compress h (fst p) (snd p)) (idx div 2)"
    "path_calls h pf' d' idx = p' # path_calls h pf'' (compress h (fst p') (snd p')) (idx div 2)"
    by (simp_all add: p_def p'_def pf'(1) Let_def)
  have nc: "\<not> calls_collide h (path_calls h pf (compress h (fst p) (snd p)) (idx div 2)) (path_calls h pf'' (compress h (fst p') (snd p')) (idx div 2))"
    using Cons.prems(1) by (rule calls_collide_mono) (unfold calls, auto)
  from Cons.IH [OF nc] Cons.prems(3) pf' have "compress h (fst p) (snd p) = compress h (fst p') (snd p')" "pf = pf''" by (simp_all add: c c')
  moreover from calls_inject [OF Cons.prems(1) _ _ this(1)] have "p = p'" unfolding calls by (simp add: prod_eq_iff)
  ultimately show ?case by (auto simp: pf'(1) p_def p'_def split: if_splits)
qed simp

section \<open>Properties\<close>

text \<open>C14. Merkle openings are complete: for a matrix whose height is a power of two and a power-of-two number of
  rows per query, the tree is built, and at every query position the opened rows are the rows of
  the matrix at that position of each stride, and the proof verifies against the root.\<close>
theorem merkle_complete:
  fixes M :: "'ef::zero col_matrix" and h :: "('f, 'd) merkle_hasher"
  assumes "wf_col_matrix M" and "cm_height M = 2 ^ a" and "r \<le> a" and "q < 2 ^ (a - r)"
  shows "\<exists>t root pf d. merkle_tree_new h coeffs M (2 ^ r) = Ok t \<and> merkle_root t = Ok root \<and>
     get_opened_rows t q = Ok (map (\<lambda>k. row_of M (k * 2 ^ (a - r) + q)) [0..<2 ^ r]) \<and>
     query_merkle_proof t q = Ok pf \<and> length pf = a - r \<and>
     tree_compress h (map (\<lambda>k. leaf_hash h coeffs (row_of M (k * 2 ^ (a - r) + q))) [0..<2 ^ r]) = (Ok d :: ('d, verify_whir_error) res) \<and>
     merkle_verify h root q d pf = Ok ()"
  using merkle_opening_complete [OF assms(1,2) refl assms(3,4), of h coeffs] by blast

definition sum_hasher :: "(nat, nat) merkle_hasher" where
  "sum_hasher = \<lparr>hash_slice = (\<lambda>xs. foldl (\<lambda>a x. 31 * a + x) 7 xs), compress = (\<lambda>a b. 3 * a + 5 * b + 1)\<rparr>"

theorem merkle_complete_witness:
  "\<exists>t root pf d. merkle_tree_new sum_hasher (\<lambda>x. [x]) \<lparr>cm_values = [1, 2, 3, 4], cm_width = 1, cm_height = 4\<rparr> (2 ^ 1) = Ok t \<and>
     merkle_root t = Ok root \<and> query_merkle_proof t 1 = Ok pf \<and> length pf = 2 - 1 \<and>
     merkle_verify sum_hasher root 1 d pf = Ok ()"
proof -
  have "is_pow2 4" using is_pow2_power [of 2] by simp
  then show ?thesis
    using merkle_complete [of "\<lparr>cm_values = [1, 2, 3, 4], cm_width = 1, cm_height = 4\<rparr>" 2 1 1 sum_hasher "\<lambda>x. [x]"]
    by (auto simp: wf_col_matrix_def)
qed

text \<open>C13. Merkle openings bind: if the verifier accepts two different openings (rows and proof) of one position of one
  commitment, with the same number of rows and proofs of the same length, then the two accepted runs
  themselves exhibit a collision: two different opened rows with the same leaf hash, or two different inputs with the same output
  among the calls of the compression function that the two runs make.\<close>
theorem merkle_binding:
  assumes "tree_compress h (map (hash_slice h) rows) = (Ok d :: ('d, verify_whir_error) res)" and "merkle_verify h root idx d pf = Ok ()"
    and "tree_compress h (map (hash_slice h) rows') = (Ok d' :: ('d, verify_whir_error) res)" and "merkle_verify h root idx d' pf' = Ok ()"
    and "length pf = length pf'" and "length rows = length rows'" and "(rows, pf) \<noteq> (rows', pf')"
  shows "calls_collide h (opening_calls h rows d pf idx) (opening_calls h rows' d' pf' idx) \<or> rows_collide h rows rows'"
proof (rule ccontr)
  assume "\<not> ?thesis"
  then have nc: "\<not> calls_collide h (opening_calls h rows d pf idx) (opening_calls h rows' d' pf' idx)" "\<not> rows_collide h rows rows'" by auto
  let ?hs = "map (hash_slice h) rows" and ?hs' = "map (hash_slice h) rows'"
  have path: "\<not> calls_collide h (path_calls h pf d idx) (path_calls h pf' d' idx)" and tree: "\<not> calls_collide h (tree_calls h ?hs) (tree_calls h ?hs')"
    using nc(1) by (rule calls_collide_mono; simp add: opening_calls_def)+
  have "fst (fold (merkle_step h) pf (d, idx)) = fst (fold (merkle_step h) pf' (d', idx))"
    using assms(2,4) by (auto simp: merkle_verify_def split: prod.splits if_splits)
  from merkle_path_inject [OF path assms(5) this] have same: "d = d'" "pf = pf'" by simp_all
  obtain k where k: "length rows = 2 ^ k"
    using assms(1) by (auto simp: tree_compress_def res_simps is_pow2_iff)
  with same have "hd (compress_levels h ?hs) = hd (compress_levels h ?hs')"
    using assms(1,3,6) by (simp add: tree_compress_power [of _ k])
  then have "compress_levels h ?hs = compress_levels h ?hs'"
    using compress_levels_one [of ?hs k h] compress_levels_one [of ?hs' k h] k assms(6) by auto
  from compress_levels_inject [OF tree _ _ this, of k] k assms(6) have hs: "?hs = ?hs'" by simp
  have "rows = rows'"
  proof (rule nth_equalityI)
    fix i assume i: "i < length rows"
    with hs assms(6) have "hash_slice h (rows ! i) = hash_slice h (rows' ! i)" by (metis nth_map)
    with nc(2) i assms(6) show "rows ! i = rows' ! i" unfolding rows_collide_def by (metis nth_mem)
  qed (rule assms(6))
  with assms(7) same show False by simp
qed

theorem merkle_binding_witness:
  "calls_collide sum_hasher (opening_calls sum_hasher [[5], [0]] 1752 [] 0) (opening_calls sum_hasher [[0], [3]] 1752 [] 0) \<or>
   rows_collide sum_hasher [[5], [0]] [[0], [3]]"
proof -
  have p: "is_pow2 (Suc (Suc 0))" using is_pow2_power [of 1] by (simp add: numeral_2_eq_2)
  have l: "compress_levels sum_hasher [a, b] = [compress sum_hasher a b]" for a b
    by (simp add: compress_levels_step compress_levels_end)
  have t: "tree_compress sum_hasher (map (hash_slice sum_hasher) [[5], [0]]) = (Ok 1752 :: (nat, verify_whir_error) res)"
    "tree_compress sum_hasher (map (hash_slice sum_hasher) [[0], [3]]) = (Ok 1752 :: (nat, verify_whir_error) res)"
    by (simp_all add: tree_compress_def l p) (simp_all add: sum_hasher_def)
  from merkle_binding [OF t(1) _ t(2), of 1752 0 "[]" "[]"] show ?thesis by (simp add: merkle_verify_def)
qed

end
