(* ===== verification/BinaryFold.thy ===== *)
theory BinaryFold
  imports FieldTower
begin

text \<open>
  The folding step of WHIR (\<open>binary_k_fold\<close> in \<open>verifier/whir.rs\<close>): from the values of a
  polynomial on a coset of the \<open>2 ^ k\<close>-th roots of unity, in place, the value of the folded
  polynomial. The specification folds coefficients: \<open>c\<^sub>0, c\<^sub>1, c\<^sub>2, \<dots>\<close> becomes
  \<open>c\<^sub>0 + \<alpha> c\<^sub>1, c\<^sub>2 + \<alpha> c\<^sub>3, \<dots>\<close>.
\<close>

section \<open>The code\<close>

text \<open>One butterfly: \<open>lo[i]\<close> is \<open>values[i]\<close> and \<open>hi[i]\<close> is \<open>values[m + i]\<close>.\<close>

definition fold_entry ::
  "('f::field, 'ef::field) field_ext \<Rightarrow> 'f list \<Rightarrow> 'f list \<Rightarrow> nat \<Rightarrow> nat \<Rightarrow> 'ef \<Rightarrow> 'f \<Rightarrow> 'f \<Rightarrow> nat \<Rightarrow> 'ef list \<Rightarrow> ('ef list, 'e) res" where
  "fold_entry X tw inv_tw m j alpha x_pow x_inv_pow i values =
     rbind (index tw (i * 2 ^ j)) (\<lambda>w.
     rbind (index inv_tw (i * 2 ^ j)) (\<lambda>w_inv.
     let t = w * x_pow; t_inv = w_inv * x_inv_pow in
     rbind (index values i) (\<lambda>lo.
     rbind (index values (m + i)) (\<lambda>hi.
     Ok (values[i := lo + (alpha - fe_embed X t) * (lo - hi) * fe_embed X (t_inv / 2)])))))"

definition fold_layer ::
  "('f::field, 'ef::field) field_ext \<Rightarrow> 'f list \<Rightarrow> 'f list \<Rightarrow> nat \<Rightarrow> nat \<times> 'ef \<times> 'f \<times> 'f \<Rightarrow> 'ef list \<Rightarrow> ('ef list, 'e) res" where
  "fold_layer X tw inv_tw n = (\<lambda>(j, alpha, x_pow, x_inv_pow) values.
     let m = n div 2 ^ (j + 1) in rfold (fold_entry X tw inv_tw m j alpha x_pow x_inv_pow) [0..<m] values)"

definition binary_k_fold ::
  "('f::field, 'ef::field) field_ext \<Rightarrow> 'ef list \<Rightarrow> 'ef list \<Rightarrow> 'f \<Rightarrow> ('ef, 'e) res" where
  "binary_k_fold X values alphas x =
     (let n = length values; k = length alphas in
      rbind (shl64 1 k) (\<lambda>size.
      rbind (assert_that (n = size)) (\<lambda>_.
      rbind (two_adic_generator X k) (\<lambda>omega_k.
      rbind (checked_inverse omega_k) (\<lambda>omega_k_inv.
      rbind (sub64 k 1) (\<lambda>k'.
      rbind (shl64 1 k') (\<lambda>half.
      let tw = powers half omega_k; inv_tw = powers half omega_k_inv in
      rbind (checked_inverse x) (\<lambda>x_inv.
      rbind (rfold (fold_layer X tw inv_tw n)
               (enumerated (zip alphas (zip (exp_powers_of_2 k x) (exp_powers_of_2 k x_inv)))) values) (\<lambda>values.
      index values 0)))))))))"

section \<open>Folding coefficients\<close>

fun fold_even_odd :: "'a::field \<Rightarrow> 'a list \<Rightarrow> 'a list" where
  "fold_even_odd a (c # d # cs) = (c + a * d) # fold_even_odd a cs"
| "fold_even_odd a cs = cs"

lemma fold_even_odd_eval:
  fixes t :: "'a::field"
  assumes "t \<noteq> 0" and "(2 :: 'a::field) \<noteq> 0"
  shows "horner_eval (fold_even_odd a cs) (t * t)
     = horner_eval cs t + (a - t) * (horner_eval cs t - horner_eval cs (- t)) / (2 * t)"
proof (induction a cs rule: fold_even_odd.induct)
  case (1 a c d cs)
  let ?p = "horner_eval cs t" and ?q = "horner_eval cs (- t)"
  have "(a - t) * ((d * t + t * t * ?p) - (- d * t + t * t * ?q)) / (2 * t) = (a - t) * d + t * t * ((a - t) * (?p - ?q) / (2 * t))"
    using assms by (simp add: field_simps)
  with 1 show ?case by (simp add: horner_Cons algebra_simps)
qed (use assms in \<open>simp_all add: horner_Cons\<close>)

lemma length_exp_powers [simp]: "length (exp_powers_of_2 n x) = n"
  by (induction n arbitrary: x) auto

lemma exp_powers_nth: "i < n \<Longrightarrow> exp_powers_of_2 n x ! i = x ^ 2 ^ i"
proof (induction n arbitrary: i x)
  case (Suc n)
  then show ?case by (cases i) (auto simp: power_mult_distrib power_add [symmetric] mult_2)
qed simp

section \<open>One layer\<close>

context field_tower
begin

lemma gen_half:
  assumes "0 < k" and "k \<le> fe_adicity X"
  shows "fe_gen X k ^ 2 ^ (k - 1) = - 1"
proof -
  let ?y = "fe_gen X k ^ 2 ^ (k - 1)"
  have "?y * ?y = 1"
    using base.gen_order [OF assms(2)] assms(1) by (cases k) (simp_all add: power_add [symmetric] mult_2)
  moreover have "?y \<noteq> 1"
  proof
    assume "?y = 1"
    then have "fe_gen X k ^ 2 ^ (k - 1) = fe_gen X k ^ 0" by simp
    moreover have "(2::nat) ^ (k - 1) < 2 ^ k" using assms(1) by simp
    ultimately have "(2::nat) ^ (k - 1) = 0" using base.gen_inject [OF assms(2)] by fastforce
    then show False by simp
  qed
  ultimately show ?thesis by (metis square_eq_1_iff)
qed

lemma embed_inverse_half: "fe_embed X (inverse y / 2) = 1 / (2 * fe_embed X y)"
  by (simp only: divide_inverse embed_mult embed_inverse embed_numeral inverse_mult_distrib mult_1_left) (rule mult.commute)

lemma fold_entries:
  fixes alpha :: 'ef
  assumes "length tw = N" and "length inv_tw = N" and "(m - 1) * 2 ^ j < N" and "2 * m \<le> length vals" and "i \<le> m"
  shows "rfold (fold_entry X tw inv_tw m j alpha p q) [0..<i] vals
     = (Ok (map (\<lambda>i. vals ! i + (alpha - fe_embed X (tw ! (i * 2 ^ j) * p)) * (vals ! i - vals ! (m + i))
                * fe_embed X (inv_tw ! (i * 2 ^ j) * q / 2)) [0..<i] @ drop i vals) :: (_, 'e) res)"
  using assms(5)
proof (induction i)
  case (Suc i)
  let ?g = "\<lambda>i. vals ! i + (alpha - fe_embed X (tw ! (i * 2 ^ j) * p)) * (vals ! i - vals ! (m + i))
                * fe_embed X (inv_tw ! (i * 2 ^ j) * q / 2)"
  have "i * 2 ^ j \<le> (m - 1) * 2 ^ j" using Suc.prems by (intro mult_le_mono1) simp
  then have i: "i * 2 ^ j < N" using assms(3) by linarith
  have len: "i < length vals" "m + i < length vals" using Suc.prems assms(4) by simp_all
  have cur: "(map ?g [0..<i] @ drop i vals) ! i = vals ! i" "(map ?g [0..<i] @ drop i vals) ! (m + i) = vals ! (m + i)"
    using len by (simp_all add: nth_append add.commute)
  have "(map ?g [0..<i] @ drop i vals)[i := ?g i] = map ?g [0..<Suc i] @ drop (Suc i) vals"
    using len(1) by (simp add: list_update_append Cons_nth_drop_Suc [symmetric])
  then have "fold_entry X tw inv_tw m j alpha p q i (map ?g [0..<i] @ drop i vals) = (Ok (map ?g [0..<Suc i] @ drop (Suc i) vals) :: (_, 'e) res)"
    using i len cur assms(1,2) by (simp add: fold_entry_def Let_def del: upt_Suc)
  with Suc show ?case by (simp add: rfold_append)
qed simp

lemma fold_layer_eval:
  fixes alpha :: 'ef
  assumes k: "j < k" "k \<le> fe_adicity X" and x: "x \<noteq> 0" and len: "length vals = 2 ^ k"
    and vals: "\<forall>i < 2 ^ (k - j). vals ! i = horner_eval cs (fe_embed X ((fe_gen X k ^ i * x) ^ 2 ^ j))"
  shows "\<exists>vals'. fold_layer X (powers (2 ^ (k - 1)) (fe_gen X k)) (powers (2 ^ (k - 1)) (inverse (fe_gen X k))) (2 ^ k)
       (j, alpha, x ^ 2 ^ j, inverse x ^ 2 ^ j) vals = (Ok vals' :: (_, 'e) res) \<and> length vals' = 2 ^ k \<and>
     (\<forall>i < 2 ^ (k - Suc j). vals' ! i = horner_eval (fold_even_odd alpha cs) (fe_embed X ((fe_gen X k ^ i * x) ^ 2 ^ Suc j)))"
proof -
  let ?w = "fe_gen X k" and ?m = "2 ^ (k - Suc j) :: nat"
  have m: "2 ^ k div 2 ^ (j + 1) = ?m" using k(1) by (simp add: power_diff)
  have half: "?m * 2 ^ j = 2 ^ (k - 1)" using k(1) by (simp add: power_add [symmetric])
  have two_m: "2 * ?m = 2 ^ (k - j)" using k(1) by (simp add: Suc_diff_Suc power_Suc [symmetric] del: power_Suc)
  have bound: "(?m - 1) * 2 ^ j < 2 ^ (k - 1)"
    unfolding half [symmetric] by (rule mult_strict_right_mono) simp_all
  have fits: "2 * ?m \<le> length vals" unfolding two_m len by (rule power_increasing) simp_all
  note run = fold_entries [OF length_powers length_powers bound fits order_refl, of ?w "inverse ?w" alpha "x ^ 2 ^ j" "inverse x ^ 2 ^ j", where 'e = 'e]
  have idx: "i * 2 ^ j < 2 ^ (k - 1)" if "i < ?m" for i
  proof -
    from that have "i * 2 ^ j < ?m * 2 ^ j" by simp
    then show ?thesis unfolding half .
  qed
  have w: "?w \<noteq> 0" by (rule gen_nonzero [OF k(2)])
  have step: "vals ! i + (alpha - fe_embed X (powers (2 ^ (k - 1)) ?w ! (i * 2 ^ j) * x ^ 2 ^ j)) * (vals ! i - vals ! (?m + i))
        * fe_embed X (powers (2 ^ (k - 1)) (inverse ?w) ! (i * 2 ^ j) * inverse x ^ 2 ^ j / 2)
      = horner_eval (fold_even_odd alpha cs) (fe_embed X ((?w ^ i * x) ^ 2 ^ Suc j))" if i: "i < ?m" for i
  proof -
    let ?t = "(?w ^ i * x) ^ 2 ^ j"
    have t: "?t \<noteq> 0" using w x by simp
    have tw: "powers (2 ^ (k - 1)) ?w ! (i * 2 ^ j) * x ^ 2 ^ j = ?t"
      "powers (2 ^ (k - 1)) (inverse ?w) ! (i * 2 ^ j) * inverse x ^ 2 ^ j = inverse ?t"
      using idx [OF i] by (simp_all add: power_mult_distrib power_mult power_inverse)
    have "(?w ^ (?m + i) * x) ^ 2 ^ j = (?w ^ ?m) ^ 2 ^ j * ?t" by (simp add: power_add power_mult_distrib mult.assoc)
    also have "(?w ^ ?m) ^ 2 ^ j = -1"
      using gen_half [of k] k by (simp add: power_mult [symmetric] half)
    finally have neg: "(?w ^ (?m + i) * x) ^ 2 ^ j = - ?t" by simp
    have at: "vals ! i = horner_eval cs (fe_embed X ?t)" "vals ! (?m + i) = horner_eval cs (- fe_embed X ?t)"
      using vals i two_m neg by (simp_all del: embed_power embed_mult)
    have sq: "(?w ^ i * x) ^ 2 ^ Suc j = ?t * ?t" by (simp add: mult_2 power_add)
    have inv: "fe_embed X (inverse ?t / 2) = 1 / (2 * fe_embed X ?t)" by (rule embed_inverse_half)
    define T where "T = fe_embed X ?t"
    have "T \<noteq> 0" using t by (simp add: T_def del: embed_power embed_mult)
    from fold_even_odd_eval [OF this ext_two_nonzero, of alpha cs] show ?thesis
      unfolding tw inv at sq embed_mult [of ?t ?t] T_def [symmetric] by (simp only: times_divide_eq_right mult_1_right)
  qed
  show ?thesis
    unfolding fold_layer_def prod.case m Let_def run using step len by (auto simp: nth_append)
qed

lemma fold_layers_eval:
  fixes alphas :: "'ef list"
  assumes "length alphas = k" and "k \<le> fe_adicity X" and "x \<noteq> 0"
    and vals: "vals = map (\<lambda>i. horner_eval cs (fe_embed X (fe_gen X k ^ i * x))) [0..<2 ^ k]" and "n \<le> k"
  shows "\<exists>vals'. rfold (fold_layer X (powers (2 ^ (k - 1)) (fe_gen X k)) (powers (2 ^ (k - 1)) (inverse (fe_gen X k))) (2 ^ k))
       (take n (enumerated (zip alphas (zip (exp_powers_of_2 k x) (exp_powers_of_2 k (inverse x)))))) vals = (Ok vals' :: (_, 'e) res) \<and>
     length vals' = 2 ^ k \<and>
     (\<forall>i < 2 ^ (k - n). vals' ! i = horner_eval (fold fold_even_odd (take n alphas) cs) (fe_embed X ((fe_gen X k ^ i * x) ^ 2 ^ n)))"
  using assms(5)
proof (induction n)
  case 0
  then show ?case by (simp add: vals)
next
  case (Suc n)
  let ?steps = "enumerated (zip alphas (zip (exp_powers_of_2 k x) (exp_powers_of_2 k (inverse x))))"
  from Suc obtain vals' where IH: "rfold (fold_layer X (powers (2 ^ (k - 1)) (fe_gen X k)) (powers (2 ^ (k - 1)) (inverse (fe_gen X k))) (2 ^ k))
       (take n ?steps) vals = (Ok vals' :: (_, 'e) res)" "length vals' = 2 ^ k"
     "\<forall>i < 2 ^ (k - n). vals' ! i = horner_eval (fold fold_even_odd (take n alphas) cs) (fe_embed X ((fe_gen X k ^ i * x) ^ 2 ^ n))"
    by auto
  have n: "n < k" using Suc.prems by simp
  have "?steps ! n = (n, alphas ! n, x ^ 2 ^ n, inverse x ^ 2 ^ n)"
    using n assms(1) by (simp add: exp_powers_nth)
  then have "take (Suc n) ?steps = take n ?steps @ [(n, alphas ! n, x ^ 2 ^ n, inverse x ^ 2 ^ n)]"
    using n assms(1) by (simp add: take_Suc_conv_app_nth)
  moreover have "take (Suc n) alphas = take n alphas @ [alphas ! n]"
    using n assms(1) by (simp add: take_Suc_conv_app_nth)
  ultimately show ?case
    using fold_layer_eval [OF n assms(2,3) IH(2,3), of "alphas ! n", where 'e = 'e] IH(1)
    by (auto simp: rfold_append)
qed

lemma binary_k_fold_Ok:
  fixes alphas :: "'ef list"
  assumes "length alphas = k" and "0 < k" and "k \<le> fe_adicity X" and "k < 64" and "x \<noteq> 0"
    and "vals = map (\<lambda>i. horner_eval cs (fe_embed X (fe_gen X k ^ i * x))) [0..<2 ^ k]"
  shows "binary_k_fold X vals alphas x = (Ok (horner_eval (fold fold_even_odd alphas cs) (fe_embed X (x ^ 2 ^ k))) :: (_, 'e) res)"
proof -
  have len: "length vals = 2 ^ k" using assms(6) by simp
  have inv: "checked_inverse (fe_gen X k) = Ok (inverse (fe_gen X k))" "checked_inverse x = Ok (inverse x)"
    using gen_nonzero [OF assms(3)] assms(5) by (simp_all add: checked_inverse_Ok)
  have sub: "sub64 k (Suc 0) = Ok (k - 1)" using assms(2) by (simp add: sub64_def)
  have half: "shl64 (Suc 0) (k - Suc 0) = Ok (2 ^ (k - Suc 0))" "shl64 (Suc 0) k = Ok (2 ^ k)" using assms(4) by simp_all
  show ?thesis
    using fold_layers_eval [OF assms(1,3,5,6) order_refl, where 'e = 'e]
    unfolding binary_k_fold_def Let_def len assms(1)
    by (auto simp: generator_Ok [OF assms(3)] inv sub half assms(1) simp del: shl64_one embed_power)
qed

text \<open>Whatever the values, folding does not fail.\<close>

lemma binary_k_fold_total:
  fixes alphas :: "'ef list"
  assumes "length alphas = k" and "0 < k" and "k \<le> fe_adicity X" and "k < 64" and "x \<noteq> 0" and len: "length vals = 2 ^ k"
  shows "\<exists>v. binary_k_fold X vals alphas x = (Ok v :: (_, 'e) res)"
proof -
  have inv: "checked_inverse (fe_gen X k) = Ok (inverse (fe_gen X k))" "checked_inverse x = Ok (inverse x)"
    using gen_nonzero [OF assms(3)] assms(5) by (simp_all add: checked_inverse_Ok)
  have sub: "sub64 k (Suc 0) = Ok (k - 1)" using assms(2) by (simp add: sub64_def)
  have half: "shl64 (Suc 0) (k - Suc 0) = Ok (2 ^ (k - Suc 0))" "shl64 (Suc 0) k = Ok (2 ^ k)" using assms(4) by simp_all
  let ?tw = "powers (2 ^ (k - Suc 0)) (fe_gen X k)" and ?inv_tw = "powers (2 ^ (k - Suc 0)) (inverse (fe_gen X k))"
  let ?steps = "zip alphas (zip (exp_powers_of_2 k x) (exp_powers_of_2 k (inverse x)))"
  have "\<exists>vals'. rfold (fold_layer X ?tw ?inv_tw (2 ^ k)) (enumerated ?steps) vals = (Ok vals' :: (_, 'e) res) \<and> length vals' = 2 ^ k"
  proof (rule rfold_enumerated_inv [where J = "\<lambda>_ vs. length vs = 2 ^ k", OF _ len])
    fix j and vs :: "'ef list" assume j: "j < length ?steps" and vs: "length vs = 2 ^ k"
    then have j': "j < k" using assms(1) by simp
    obtain alpha p q where st: "?steps ! j = (alpha, p, q)" by (cases "?steps ! j") auto
    let ?m = "2 ^ (k - Suc j) :: nat"
    have m: "2 ^ k div 2 ^ (j + 1) = ?m" using j' by (simp add: power_diff)
    have "?m * 2 ^ j = 2 ^ (k - Suc 0)" using j' by (simp add: power_add [symmetric])
    then have bound: "(?m - 1) * 2 ^ j < 2 ^ (k - Suc 0)"
      by (metis diff_less mult_less_cancel2 zero_less_numeral zero_less_one zero_less_power)
    have "2 * ?m = 2 ^ (k - j)" using j' by (simp add: Suc_diff_Suc power_Suc [symmetric] del: power_Suc)
    then have "2 * ?m \<le> length vs" unfolding vs by (simp add: power_increasing)
    from fold_entries [OF length_powers length_powers bound this order_refl, of "fe_gen X k" "inverse (fe_gen X k)" alpha p q, where 'e = 'e]
    show "\<exists>vs'. fold_layer X ?tw ?inv_tw (2 ^ k) (j, ?steps ! j) vs = (Ok vs' :: (_, 'e) res) \<and> length vs' = 2 ^ k"
      unfolding fold_layer_def st prod.case m Let_def using vs by (simp add: power_increasing)
  qed
  then show ?thesis
    unfolding binary_k_fold_def Let_def len assms(1)
    by (auto simp: generator_Ok [OF assms(3)] inv sub half assms(1) simp del: shl64_one embed_power)
qed

end

section \<open>Properties\<close>

text \<open>C15. \<open>binary_k_fold\<close> computes the folded polynomial: given the values of a polynomial (of any degree) on the
  coset of the \<open>2 ^ k\<close>-th roots of unity through \<open>x\<close>, it returns, without a panic, the value at \<open>x ^ 2 ^ k\<close> of the
  polynomial whose coefficients are folded pairwise with each \<open>alpha\<close> in turn.\<close>
theorem binary_k_fold_folds:
  fixes alphas :: "'ef::field list"
  assumes "field_tower X" and "length alphas = k" and "0 < k" and "k \<le> fe_adicity X" and "k < 64" and "x \<noteq> 0"
    and "values = map (\<lambda>i. horner_eval cs (fe_embed X (fe_gen X k ^ i * x))) [0..<2 ^ k]"
  shows "binary_k_fold X values alphas x = (Ok (horner_eval (fold fold_even_odd alphas cs) (fe_embed X (x ^ 2 ^ k))) :: (_, 'e) res)"
  by (rule field_tower.binary_k_fold_Ok [OF assms])

theorem binary_k_fold_folds_witness:
  "binary_k_fold f17_tower (map (\<lambda>i. horner_eval [1, 2, 3, 4, 5] (f17_gen 2 ^ i * 3)) [0..<4]) [6, 7] 3
     = (Ok (horner_eval (fold_even_odd 7 (fold_even_odd 6 [1, 2, 3, 4, 5])) (3 ^ 4)) :: (_, unit) res)"
proof -
  have "(3 :: f17) \<noteq> 0" by (simp add: f17_numeral f17_zero_iff)
  then show ?thesis
    using binary_k_fold_folds [OF f17_tower.field_tower_axioms, of "[6, 7]" 2 3 _ "[1, 2, 3, 4, 5]", where 'e = unit]
    by (simp add: f17_tower_def del: fold_even_odd.simps upt_rec_numeral)
qed

end
