(* ===== verification/Whir.thy ===== *)
theory Whir
  imports StackedSafety Merkle BinaryFold
begin

text \<open>
  The WHIR opening verifier (\<open>verify_whir\<close> in \<open>verifier/whir.rs\<close>). The consumed iterators of
  the code are the lists of what is left; the vectors the rounds push to are fields of
  \<open>whir_state\<close>. The hasher of the protocol configuration is the parameter \<open>h\<close>.
\<close>

record ('f, 'ef) whir_state =
  ws_claim :: 'ef
  ws_log_rs_domain_size :: nat
  ws_sumcheck_polys :: "('ef \<times> 'ef) list"
  ws_folding_pows :: "'f list"
  ws_gammas :: "'ef list"
  ws_zs :: "'f list list"
  ws_z0s :: "'ef list"
  ws_alphas :: "'ef list"

section \<open>The sumcheck of a round\<close>

definition whir_fold_round ::
  "('ts, 'f, 'd) transcript_ops \<Rightarrow> ('f, 'ef::field) field_ops \<Rightarrow> system_params
     \<Rightarrow> 'ef \<times> 'ef list \<times> ('ef \<times> 'ef) list \<times> 'f list
     \<Rightarrow> ('ef \<times> 'ef list \<times> ('ef \<times> 'ef) list \<times> 'f list, 'ts, verify_whir_error) vm" where
  "whir_fold_round T K p = (\<lambda>(claim, alphas_round, polys, pows).
     case polys of
       [] \<Rightarrow> vret (claim, alphas_round, polys, pows)
     | (ev1, ev2) # polys' \<Rightarrow>
         vbind (v_observe_ext T K ev1) (\<lambda>_.
         vbind (v_observe_ext T K ev2) (\<lambda>_.
         vbind (vlift (index pows 0)) (\<lambda>pow_witness.
         vbind (v_check_witness T K (folding_pow_bits (whir p)) pow_witness) (\<lambda>ok.
         vbind (vcheck ok FoldingPoWInvalid) (\<lambda>_.
         vbind (v_sample_ext T K) (\<lambda>alpha.
         vret (interpolate_quadratic_at_012 (claim - ev1, ev1, ev2) alpha, alphas_round @ [alpha], polys', drop 1 pows))))))))"

text \<open>The commitment to the next codeword and its out-of-domain value; in the final round the polynomial itself.\<close>

definition whir_commit_phase ::
  "('ts, 'f, 'd) transcript_ops \<Rightarrow> ('f, 'ef) field_ops \<Rightarrow> ('f, 'ef, 'd) whir_proof \<Rightarrow> bool \<Rightarrow> nat
     \<Rightarrow> (('ef \<times> 'ef) option, 'ts, 'e) vm" where
  "whir_commit_phase T K w is_final_round rnd =
     (if is_final_round then
        vbind (vdo_all (v_observe_ext T K) (final_poly w)) (\<lambda>_. vret None)
      else
        vbind (vlift (index (codeword_commits w) rnd)) (\<lambda>commit.
        vbind (v_observe_commit T commit) (\<lambda>_.
        vbind (v_sample_ext T K) (\<lambda>z0.
        vbind (vlift (index (ood_values w) rnd)) (\<lambda>y0.
        vbind (v_observe_ext T K y0) (\<lambda>_.
        vret (Some (z0, y0))))))))"

section \<open>The queries\<close>

text \<open>Column \<open>c\<close> of the opened rows, weighted with the next power of \<open>mu\<close>.\<close>

definition add_opened_column ::
  "('f, 'ef::field) field_ext \<Rightarrow> nat \<Rightarrow> 'f list list \<Rightarrow> nat \<Rightarrow> 'ef list \<times> 'ef list \<Rightarrow> ('ef list \<times> 'ef list, 'e) res" where
  "add_opened_column X k opened_rows c = (\<lambda>(codeword_vals, mu_pow_iter).
     rbind (index mu_pow_iter 0) (\<lambda>mu_pow.
     rbind (shl64 1 k) (\<lambda>n.
     rbind (rfold (\<lambda>j vals.
         rbind (index opened_rows j) (\<lambda>row.
         rbind (index row c) (\<lambda>x.
         rbind (index vals j) (\<lambda>v.
         Ok (vals[j := v + mu_pow * fe_embed X x]))))) [0..<n] codeword_vals) (\<lambda>codeword_vals.
     Ok (codeword_vals, drop 1 mu_pow_iter)))))"

definition open_commitment ::
  "('f, 'ef::field) field_ext \<Rightarrow> ('f, 'd) merkle_hasher \<Rightarrow> nat \<Rightarrow> nat \<Rightarrow> nat
     \<Rightarrow> 'd \<times> nat \<times> 'f list list list \<times> 'd list list \<Rightarrow> 'ef list \<times> 'ef list \<Rightarrow> ('ef list \<times> 'ef list, verify_whir_error) res" where
  "open_commitment X h k query_idx idx = (\<lambda>(commit, width, opened_rows_per_query, merkle_proofs) s.
     rbind (index opened_rows_per_query query_idx) (\<lambda>opened_rows.
     rbind (tree_compress h (map (hash_slice h) opened_rows)) (\<lambda>query_digest.
     rbind (index merkle_proofs query_idx) (\<lambda>path.
     rbind (merkle_verify h commit (idx mod 2 ^ 32) query_digest path) (\<lambda>_.
     rfold (add_opened_column X k opened_rows) [0..<width] s)))))"

definition initial_query_value ::
  "('f::field, 'ef::field) field_ext \<Rightarrow> ('f, 'd) merkle_hasher \<Rightarrow> nat \<Rightarrow> ('f, 'ef, 'd) whir_proof \<Rightarrow> 'd list \<Rightarrow> nat list
     \<Rightarrow> 'ef list \<Rightarrow> 'ef list \<Rightarrow> nat \<Rightarrow> nat \<Rightarrow> 'f \<Rightarrow> ('ef, verify_whir_error) res" where
  "initial_query_value X h k w commitments widths mu_pows alphas_round query_idx idx zi_root =
     rbind (shl64 1 k) (\<lambda>n.
     rbind (rfold (open_commitment X h k query_idx idx)
              (zip commitments (zip widths (zip (initial_round_opened_rows w) (initial_round_merkle_proofs w))))
              (replicate n 0, mu_pows)) (\<lambda>(codeword_vals, _).
     binary_k_fold X codeword_vals alphas_round zi_root))"

definition codeword_query_value ::
  "('f::field, 'ef::field) field_ext \<Rightarrow> ('f, 'd) merkle_hasher \<Rightarrow> ('f, 'ef, 'd) whir_proof \<Rightarrow> 'ef list
     \<Rightarrow> nat \<Rightarrow> nat \<Rightarrow> nat \<Rightarrow> 'f \<Rightarrow> ('ef, verify_whir_error) res" where
  "codeword_query_value X h w alphas_round rnd query_idx idx zi_root =
     rbind (sub64 rnd 1) (\<lambda>prev.
     rbind (index (codeword_opened_values w) prev) (\<lambda>opened.
     rbind (index opened query_idx) (\<lambda>opened_values.
     rbind (index (codeword_merkle_proofs w) prev) (\<lambda>paths.
     rbind (index paths query_idx) (\<lambda>path.
     rbind (tree_compress h (map (\<lambda>v. hash_slice h (ef_coefficients (fe_ops X) v)) opened_values)) (\<lambda>query_digest.
     rbind (index (codeword_commits w) prev) (\<lambda>commit.
     rbind (merkle_verify h commit (idx mod 2 ^ 32) query_digest path) (\<lambda>_.
     binary_k_fold X opened_values alphas_round zi_root))))))))"

definition whir_query ::
  "('ts, 'f, 'd) transcript_ops \<Rightarrow> ('f::field, 'ef::field) field_ext \<Rightarrow> nat \<Rightarrow> nat \<Rightarrow> 'f
     \<Rightarrow> (nat \<Rightarrow> nat \<Rightarrow> 'f \<Rightarrow> ('ef, verify_whir_error) res) \<Rightarrow> nat \<Rightarrow> 'f list \<times> 'ef list
     \<Rightarrow> ('f list \<times> 'ef list, 'ts, verify_whir_error) vm" where
  "whir_query T X k log_rs_domain_size omega query_value query_idx = (\<lambda>(zs_round, ys_round).
     vbind (vlift (sub64 log_rs_domain_size k)) (\<lambda>bits.
     vbind (v_sample_bits T (fe_ops X) bits) (\<lambda>idx.
     let zi_root = omega ^ idx; zi = zi_root ^ 2 ^ k in
     vbind (vlift (query_value query_idx idx zi_root)) (\<lambda>yi.
     vret (zs_round @ [zi], ys_round @ [yi])))))"

section \<open>A round\<close>

definition whir_round ::
  "('ts, 'f, 'd) transcript_ops \<Rightarrow> ('f::field, 'ef::field) field_ext \<Rightarrow> ('f, 'd) merkle_hasher \<Rightarrow> system_params
     \<Rightarrow> ('f, 'ef, 'd) whir_proof \<Rightarrow> 'd list \<Rightarrow> nat list \<Rightarrow> 'ef list \<Rightarrow> nat \<times> 'f \<times> whir_round_config
     \<Rightarrow> ('f, 'ef) whir_state \<Rightarrow> (('f, 'ef) whir_state, 'ts, verify_whir_error) vm" where
  "whir_round T X h p w commitments widths mu_pows = (\<lambda>(rnd, query_phase_pow_witness, round_params) s.
     (let K = fe_ops X; k = k_whir p; log_rs = ws_log_rs_domain_size s in
      vbind (vlift (sub64 (num_whir_rounds p) 1)) (\<lambda>last_round.
      vbind (vfor (\<lambda>_. whir_fold_round T K p) [0..<k] (ws_claim s, [], ws_sumcheck_polys s, ws_folding_pows s))
        (\<lambda>(claim, alphas_round, polys, pows).
      vbind (whir_commit_phase T K w (rnd = last_round) rnd) (\<lambda>ood.
      vbind (v_check_witness T K (query_phase_pow_bits (whir p)) query_phase_pow_witness) (\<lambda>ok.
      vbind (vcheck ok QueryPhasePoWInvalid) (\<lambda>_.
      vbind (vlift (two_adic_generator X log_rs)) (\<lambda>omega.
      vbind (vfor (whir_query T X k log_rs omega
                (if rnd = 0 then initial_query_value X h k w commitments widths mu_pows alphas_round
                 else codeword_query_value X h w alphas_round rnd))
              [0..<num_queries round_params] ([], [])) (\<lambda>(zs_round, ys_round).
      vbind (v_sample_ext T K) (\<lambda>gamma.
      let claim = (case ood of None \<Rightarrow> claim | Some (z0, y0) \<Rightarrow> claim + y0 * gamma);
          claim = fold (\<lambda>(i, yi) acc. acc + yi * gamma ^ (i + 2)) (enumerated ys_round) claim in
      vbind (vlift (sub64 log_rs 1)) (\<lambda>log_rs'.
      vret \<lparr>ws_claim = claim, ws_log_rs_domain_size = log_rs', ws_sumcheck_polys = polys, ws_folding_pows = pows,
            ws_gammas = ws_gammas s @ [gamma], ws_zs = ws_zs s @ [zs_round],
            ws_z0s = ws_z0s s @ (case ood of None \<Rightarrow> [] | Some (z0, y0) \<Rightarrow> [z0]),
            ws_alphas = ws_alphas s @ alphas_round\<rparr>)))))))))))"

section \<open>The final check\<close>

text \<open>
  The weight of a constraint point \<open>z\<close> on the final polynomial: \<open>z\<close> is raised to the powers
  \<open>1, 2, 4, \<dots>\<close>; all but the last are matched with the remaining folding challenges, the last
  is where the final polynomial is evaluated.
\<close>

definition constraint_weight :: "'ef::field list \<Rightarrow> 'ef list \<Rightarrow> 'ef \<Rightarrow> ('ef, 'e) res" where
  "constraint_weight coeffs alpha_slc z =
     (let pows = exp_powers_of_2 (length alpha_slc + 1) z in
      rbind (eval_eq_mle alpha_slc (butlast pows)) (\<lambda>eq. Ok (eq * horner_eval coeffs (last pows))))"

definition final_round_terms ::
  "('f, 'ef::field) field_ext \<Rightarrow> system_params \<Rightarrow> 'ef list \<Rightarrow> ('f, 'ef) whir_state \<Rightarrow> nat \<Rightarrow> nat \<Rightarrow> 'ef \<times> nat \<Rightarrow> ('ef \<times> nat, 'e) res" where
  "final_round_terms X p coeffs s t i = (\<lambda>(acc, j).
     rbind (index (ws_zs s) i) (\<lambda>zis.
     rbind (index (ws_gammas s) i) (\<lambda>gamma.
     rbind (slice (ws_alphas s) j t) (\<lambda>alpha_slc.
     rbind (sub64 (num_whir_rounds p) 1) (\<lambda>last_round.
     rbind (if i \<noteq> last_round then
              rbind (index (ws_z0s s) i) (\<lambda>z0.
              rbind (constraint_weight coeffs alpha_slc z0) (\<lambda>x. Ok (acc + gamma * x)))
            else Ok acc) (\<lambda>acc.
     rbind (index (whir_rounds (whir p)) i) (\<lambda>round_params.
     rbind (assert_that (length zis = num_queries round_params)) (\<lambda>_.
     rbind (rfold (\<lambda>(n, zi) acc.
         rbind (constraint_weight coeffs alpha_slc (fe_embed X zi)) (\<lambda>x. Ok (acc + gamma ^ (n + 2) * x)))
         (enumerated zis) acc) (\<lambda>acc.
     Ok (acc, j + k_whir p))))))))))"

definition whir_final_value ::
  "('f, 'ef::field) field_ext \<Rightarrow> system_params \<Rightarrow> 'ef list \<Rightarrow> 'ef list \<Rightarrow> ('f, 'ef) whir_state \<Rightarrow> ('ef, 'e) res" where
  "whir_final_value X p coeffs u s =
     (let t = k_whir p * num_whir_rounds p in
      rbind (slice u 0 t) (\<lambda>u_prefix.
      rbind (slice (ws_alphas s) 0 t) (\<lambda>alphas.
      rbind (eval_mobius_eq_mle u_prefix alphas) (\<lambda>prefix.
      rbind (slice u t (length u)) (\<lambda>u_suffix.
      rbind (eval_mle_evals_at_point coeffs u_suffix) (\<lambda>suffix_sum.
      rbind (rfold (final_round_terms X p coeffs s t) [0..<num_whir_rounds p] (prefix * suffix_sum, k_whir p)) (\<lambda>(acc, _).
      Ok acc)))))))"

section \<open>The verifier\<close>

text \<open>The debug assertions before the rounds.\<close>

definition whir_preconditions :: "system_params \<Rightarrow> ('f, 'ef, 'd) whir_proof \<Rightarrow> (unit, 'e) res" where
  "whir_preconditions p w =
     rbind (log_final_poly_len p) (\<lambda>final_len.
     rbind (sub64 (log_stacked_height p) final_len) (\<lambda>d.
     rbind (assert_that (k_whir p \<noteq> 0 \<and> d mod k_whir p = 0)) (\<lambda>_.
     rbind (assert_that (num_whir_sumcheck_rounds p \<le> log_stacked_height p)) (\<lambda>_.
     rbind (assert_that (length (folding_pow_witnesses w) = num_whir_sumcheck_rounds p)) (\<lambda>_.
     assert_that (length (query_phase_pow_witnesses w) = num_whir_rounds p))))))"

definition whir_conclusion ::
  "('f, 'ef::field) field_ext \<Rightarrow> system_params \<Rightarrow> ('f, 'ef, 'd) whir_proof \<Rightarrow> 'ef list \<Rightarrow> ('f, 'ef) whir_state \<Rightarrow> (unit, verify_whir_error) res" where
  "whir_conclusion X p w u s =
     rbind (assert_that (ws_sumcheck_polys s = [])) (\<lambda>_.
     rbind (log_final_poly_len p) (\<lambda>final_len.
     rbind (shl64 1 final_len) (\<lambda>n.
     rbind (ensure_that (length (final_poly w) = n) FinalPolyDegree) (\<lambda>_.
     rbind (sub64 (num_whir_rounds p) 1) (\<lambda>last_round.
     rbind (assert_that (length (ws_alphas s) = k_whir p * num_whir_rounds p \<and> length (ws_z0s s) = last_round \<and>
              length (ws_zs s) = num_whir_rounds p \<and> length (ws_gammas s) = num_whir_rounds p)) (\<lambda>_.
     rbind (whir_final_value X p (final_poly w) u s) (\<lambda>acc.
     ensure_that (acc = ws_claim s) FinalPolyConstraint)))))))"

definition batched_claim :: "'ef::field list list \<Rightarrow> 'ef list \<Rightarrow> 'ef" where
  "batched_claim openings mu_pows =
     fold (\<lambda>(opening, mu_pow) acc. acc + mu_pow * opening) (zip (concat openings) mu_pows) 0"

definition verify_whir ::
  "('ts, 'f, 'd) transcript_ops \<Rightarrow> ('f::field, 'ef::field) field_ext \<Rightarrow> ('f, 'd) merkle_hasher \<Rightarrow> system_params
     \<Rightarrow> ('f, 'ef, 'd) whir_proof \<Rightarrow> 'ef list list \<Rightarrow> 'd list \<Rightarrow> 'ef list \<Rightarrow> (unit, 'ts, verify_whir_error) vm" where
  "verify_whir T X h p w openings commitments u =
     (let K = fe_ops X; widths = map length openings in
      vbind (v_check_witness T K (mu_pow_bits (whir p)) (mu_pow_witness w)) (\<lambda>ok.
      vbind (vcheck ok MuPoWInvalid) (\<lambda>_.
      vbind (v_sample_ext T K) (\<lambda>mu.
      vbind (vlift (whir_preconditions p w)) (\<lambda>_.
      let mu_pows = powers (sum_list widths) mu in
      vbind (vfor (whir_round T X h p w commitments widths mu_pows)
               (enumerated (zip (query_phase_pow_witnesses w) (whir_rounds (whir p))))
               \<lparr>ws_claim = batched_claim openings mu_pows, ws_log_rs_domain_size = log_stacked_height p + log_blowup p,
                ws_sumcheck_polys = whir_sumcheck_polys w, ws_folding_pows = folding_pow_witnesses w,
                ws_gammas = [], ws_zs = [], ws_z0s = [], ws_alphas = []\<rparr>) (\<lambda>s.
      vlift (whir_conclusion X p w u s)))))))"

end
