(* ===== verification/WhirSafety.thy ===== *)
theory WhirSafety
  imports Whir
begin

text \<open>
  \<open>verify_whir\<close> returns or reports an error, but does not panic, on a proof of the right
  shape. The invariant of the rounds counts what is consumed of the sumcheck polynomials
  and what is pushed to the vectors of challenges.
\<close>

lemma grindable_mono:
  assumes "grindable X b" and "a \<le> b"
  shows "grindable X a"
proof -
  have "(2::nat) ^ a \<le> 2 ^ b" using assms(2) by (rule power_increasing) simp
  also have "\<dots> < f_order (fe_ops X)" using assms(1) by (simp add: grindable_def)
  finally show ?thesis using assms by (simp add: grindable_def)
qed

section \<open>The openings\<close>

lemma safe_add_opened_columns:
  fixes X :: "('f, 'ef::field) field_ext" and vals mus :: "'ef list"
  assumes "length rows = 2 ^ k" and "\<forall>row \<in> set rows. length row = width" and "k < 64"
    and "length vals = 2 ^ k" and "width \<le> length mus"
  shows "rsafe (rfold (add_opened_column X k rows) [0..<width] (vals, mus))
     (\<lambda>(vals', mus'). length vals' = 2 ^ k \<and> length mus' = length mus - width)"
proof -
  have "rsafe (rfold (add_opened_column X k rows) [0..<width] (vals, mus))
     ((\<lambda>done (vals', mus'). length vals' = 2 ^ k \<and> length mus' = length mus - length done) [0..<width])"
  proof (rule rsafe_fold)
    fix c ys zs and s :: "'ef list \<times> 'ef list"
    assume split: "[0..<width] = ys @ c # zs" and J: "case s of (vs, ms) \<Rightarrow> length vs = 2 ^ k \<and> length ms = length mus - length ys"
    from split have "c \<in> set [0..<width]" by simp
    then have c: "c < width" by simp
    from split have "length [0..<width] = length (ys @ c # zs)" by (rule arg_cong)
    then have ys: "length ys < width" by simp
    obtain vs ms where s: "s = (vs, ms)" by force
    with J ys assms(5) have ms: "0 < length ms" and vs: "length vs = 2 ^ k" and lms: "length ms = length mus - length ys" by auto
    have "rsafe (rfold (\<lambda>j vals. rbind (index rows j) (\<lambda>row. rbind (index row c) (\<lambda>x. rbind (index vals j) (\<lambda>v.
        Ok (vals[j := v + ms ! 0 * fe_embed X x]))))) [0..<2 ^ k] vs) ((\<lambda>_ vs. length vs = 2 ^ k) [0..<2 ^ k])"
    proof (rule rsafe_fold)
      fix j ys' zs' and vs' :: "'ef list" assume "[0..<2 ^ k] = ys' @ j # zs'" and vs': "length vs' = 2 ^ k"
      then have "j \<in> set [0..<2 ^ k]" by simp
      then have j: "j < 2 ^ k" by simp
      then have "length (rows ! j) = width" using assms(1,2) by simp
      with j vs' c assms(1) show "rsafe (rbind (index rows j) (\<lambda>row. rbind (index row c) (\<lambda>x. rbind (index vs' j) (\<lambda>v.
        Ok (vs'[j := v + ms ! 0 * fe_embed X x]))))) (\<lambda>vs. length vs = 2 ^ k)" by simp
    qed (rule vs)
    note inner = this
    show "rsafe (add_opened_column X k rows c s) (\<lambda>(vals', mus'). length vals' = 2 ^ k \<and> length mus' = length mus - length (ys @ [c]))"
      unfolding add_opened_column_def s prod.case
      apply (rule rsafe_bind_Ok [of _ "ms ! 0"])
       apply (use ms in simp)
      apply (rule rsafe_bind_Ok [of _ "2 ^ k"])
       apply (use assms(3) in simp)
      apply (rule rsafe_bind [OF inner])
      using lms by simp
  qed (use assms(4) in simp)
  then show ?thesis by simp
qed

text \<open>One commitment with its width, its opened rows and its Merkle paths has the shape of the query.\<close>

definition opening_fits :: "nat \<Rightarrow> nat \<Rightarrow> 'd \<times> nat \<times> 'f list list list \<times> 'd list list \<Rightarrow> bool" where
  "opening_fits k query_idx = (\<lambda>(_, width, rows, paths). query_idx < length rows \<and> query_idx < length paths \<and>
     length (rows ! query_idx) = 2 ^ k \<and> (\<forall>row \<in> set (rows ! query_idx). length row = width))"

lemma merkle_verify_safe: "rsafe (merkle_verify h commit idx leaf path) (\<lambda>_. True)"
  by (auto simp: rsafe_def merkle_verify_def split: prod.splits)

lemma safe_open_commitments:
  fixes X :: "('f, 'ef::field) field_ext"
  assumes "\<forall>o' \<in> set os. opening_fits k query_idx o'" and "k < 64" and "length vals = 2 ^ k"
    and "sum_list (map (\<lambda>(_, width, _). width) os) \<le> length mus"
  shows "rsafe (rfold (open_commitment X h k query_idx idx) os (vals, mus)) (\<lambda>(vals', _). length vals' = 2 ^ k)"
  using assms(1,3,4)
proof (induction os arbitrary: vals mus)
  case Nil
  then show ?case by simp
next
  case (Cons o' os)
  obtain commit width rows paths where o': "o' = (commit, width, rows, paths)" by (cases o')
  have fits: "query_idx < length rows" "query_idx < length paths" "length (rows ! query_idx) = 2 ^ k"
    "\<forall>row \<in> set (rows ! query_idx). length row = width"
    using Cons.prems(1) by (auto simp: o' opening_fits_def)
  have mus: "width \<le> length mus" "sum_list (map (\<lambda>(_, width, _). width) os) \<le> length mus - width"
    using Cons.prems(3) by (simp_all add: o')
  have tree: "tree_compress h (map (hash_slice h) (rows ! query_idx)) = Ok (hd (compress_levels h (map (hash_slice h) (rows ! query_idx))))"
    by (rule tree_compress_power [of _ k]) (simp add: fits(3))
  have one: "rsafe (open_commitment X h k query_idx idx o' (vals, mus)) (\<lambda>(vals', mus'). length vals' = 2 ^ k \<and> length mus' = length mus - width)"
    unfolding open_commitment_def o' prod.case
    apply (rule rsafe_bind_Ok [of _ "rows ! query_idx"])
     apply (use fits in simp)
    apply (rule rsafe_bind_Ok [OF tree])
    apply (rule rsafe_bind_Ok [of _ "paths ! query_idx"])
     apply (use fits in simp)
    apply (rule rsafe_bind, rule merkle_verify_safe)
    apply (rule safe_add_opened_columns [OF fits(3,4) assms(2) Cons.prems(2) mus(1)])
    done
  show ?case
    unfolding rfold.simps
    apply (rule rsafe_bind [OF one])
    subgoal for s
      using Cons.IH [of "fst s" "snd s"] Cons.prems(1) mus(2) by (cases s) auto
    done
qed

lemma sum_widths_zip: "sum_list (map (\<lambda>(_, width, _). width) (zip cs (zip ws rs))) \<le> sum_list (ws :: nat list)"
proof (induction cs arbitrary: ws rs)
  case (Cons c cs)
  show ?case
  proof (cases ws)
    case (Cons w ws')
    with Cons.IH show ?thesis by (cases rs) auto
  qed simp
qed simp

context field_tower
begin

lemma safe_initial_query_value:
  fixes alphas :: "'ef list" and w :: "('f, 'ef, 'd) whir_proof"
  assumes k: "length alphas = k" "0 < k" "k \<le> fe_adicity X" "k < 64" and "zi_root \<noteq> 0"
    and "\<forall>o' \<in> set (zip commitments (zip widths (zip (initial_round_opened_rows w) (initial_round_merkle_proofs w)))).
           opening_fits k query_idx o'"
    and mus: "length mus = sum_list widths"
  shows "rsafe (initial_query_value X h k w commitments widths mus alphas query_idx idx zi_root) (\<lambda>_. True)"
  unfolding initial_query_value_def
  apply (rule rsafe_bind_Ok [of _ "2 ^ k"])
   apply (use k(4) in simp)
  apply (rule rsafe_bind)
   apply (rule safe_open_commitments [OF assms(6) k(4)])
    apply simp
   apply (simp only: mus sum_widths_zip)
  subgoal for s
    using binary_k_fold_total [OF k assms(5), of "fst s", where 'e = verify_whir_error] by (cases s) auto
  done

lemma safe_codeword_query_value:
  fixes alphas :: "'ef list" and w :: "('f, 'ef, 'd) whir_proof"
  assumes k: "length alphas = k" "0 < k" "k \<le> fe_adicity X" "k < 64" and "zi_root \<noteq> 0"
    and rnd: "0 < rnd" "rnd - 1 < length (codeword_opened_values w)" "rnd - 1 < length (codeword_merkle_proofs w)"
      "rnd - 1 < length (codeword_commits w)"
    and q: "query_idx < length (codeword_opened_values w ! (rnd - 1))" "query_idx < length (codeword_merkle_proofs w ! (rnd - 1))"
      "length (codeword_opened_values w ! (rnd - 1) ! query_idx) = 2 ^ k"
  shows "rsafe (codeword_query_value X h w alphas rnd query_idx idx zi_root) (\<lambda>_. True)"
proof -
  let ?vals = "codeword_opened_values w ! (rnd - 1) ! query_idx"
  have tree: "tree_compress h (map (\<lambda>v. hash_slice h (ef_coefficients (fe_ops X) v)) ?vals)
      = Ok (hd (compress_levels h (map (\<lambda>v. hash_slice h (ef_coefficients (fe_ops X) v)) ?vals)))"
    by (rule tree_compress_power [of _ k]) (use q(3) in simp)
  obtain v where v: "binary_k_fold X ?vals alphas zi_root = (Ok v :: (_, verify_whir_error) res)"
    using binary_k_fold_total [OF k assms(5) q(3)] by blast
  show ?thesis
    unfolding codeword_query_value_def
    apply (rule rsafe_bind_Ok [of _ "rnd - 1"])
     apply (use rnd(1) in \<open>simp add: sub64_def\<close>)
    apply (rule rsafe_bind_Ok [OF index_in_range [OF rnd(2)]])
    apply (rule rsafe_bind_Ok [OF index_in_range [OF q(1)]])
    apply (rule rsafe_bind_Ok [OF index_in_range [OF rnd(3)]])
    apply (rule rsafe_bind_Ok [OF index_in_range [OF q(2)]])
    apply (rule rsafe_bind_Ok [OF tree])
    apply (rule rsafe_bind_Ok [OF index_in_range [OF rnd(4)]])
    apply (rule rsafe_bind [OF merkle_verify_safe])
    apply (simp only: v rsafe_Ok)
    done
qed

end

section \<open>The rounds\<close>

text \<open>The state before round \<open>n\<close>.\<close>

definition whir_inv :: "system_params \<Rightarrow> nat \<Rightarrow> ('f, 'ef) whir_state \<Rightarrow> bool" where
  "whir_inv p n s \<longleftrightarrow> ws_log_rs_domain_size s = log_stacked_height p + log_blowup p - n \<and>
     length (ws_sumcheck_polys s) = (num_whir_rounds p - n) * k_whir p \<and>
     length (ws_folding_pows s) = (num_whir_rounds p - n) * k_whir p \<and>
     length (ws_gammas s) = n \<and> map length (ws_zs s) = map num_queries (take n (whir_rounds (whir p))) \<and>
     length (ws_z0s s) = min n (num_whir_rounds p - 1) \<and> length (ws_alphas s) = n * k_whir p"

context verifier_env
begin

lemma safe_fold_rounds:
  fixes polys :: "('ef \<times> 'ef) list"
  assumes "grindable X (folding_pow_bits (whir p))" and "length polys = M" and "length pows = M" and "n \<le> M"
  shows "vsafe inv (vfor (\<lambda>_. whir_fold_round T (fe_ops X) p) [0..<n] (cl, [], polys, pows))
     (\<lambda>(_, alphas, polys', pows'). length alphas = n \<and> length polys' = M - n \<and> length pows' = M - n)"
proof -
  have "vsafe inv (vfor (\<lambda>_. whir_fold_round T (fe_ops X) p) [0..<n] (cl, [], polys, pows))
     ((\<lambda>done (_, alphas, polys', pows'). length alphas = length done \<and> length polys' = M - length done \<and> length pows' = M - length done) [0..<n])"
  proof (rule vsafe_for)
    fix x ys zs and s :: "'ef \<times> 'ef list \<times> ('ef \<times> 'ef) list \<times> 'f list"
    assume split: "[0..<n] = ys @ x # zs"
      and J: "case s of (_, alphas, polys', pows') \<Rightarrow> length alphas = length ys \<and> length polys' = M - length ys \<and> length pows' = M - length ys"
    from split have "length [0..<n] = length (ys @ x # zs)" by (rule arg_cong)
    then have ys: "length ys < M" using assms(4) by simp
    obtain c alphas ps ws where s: "s = (c, alphas, ps, ws)" by (cases s) auto
    with J ys obtain ev1 ev2 ps' where ps: "ps = (ev1, ev2) # ps'" by (cases ps) auto
    have ws: "index ws 0 = Ok (ws ! 0)" using J ys s by simp
    show "vsafe inv (whir_fold_round T (fe_ops X) p s)
        (\<lambda>(_, alphas, polys', pows'). length alphas = length (ys @ [x]) \<and> length polys' = M - length (ys @ [x]) \<and> length pows' = M - length (ys @ [x]))"
      unfolding whir_fold_round_def s ps prod.case list.case
      apply (rule vsafe_bind [OF safe_observe_ext])
      apply (rule vsafe_bind [OF safe_observe_ext])
      apply (rule vsafe_lift_bind [OF ws])
      apply (rule vsafe_bind [OF safe_witness [OF assms(1)]])
      apply (rule vsafe_check_bind)
      apply (rule vsafe_bind [OF safe_sample_ext])
      apply (rule vsafe_ret)
      using J by (auto simp: s ps)
  qed (use assms(2,3) in simp)
  then show ?thesis by simp
qed

lemma safe_commit_phase:
  fixes w :: "('f, 'ef, 'd) whir_proof"
  assumes "\<not> is_final \<Longrightarrow> rnd < length (codeword_commits w) \<and> rnd < length (ood_values w)"
    and "\<forall>d \<in> set (codeword_commits w). wf_digest d"
  shows "vsafe inv (whir_commit_phase T (fe_ops X) w is_final rnd) (\<lambda>ood. ood = None \<longleftrightarrow> is_final)"
proof (cases is_final)
  case True
  then show ?thesis
    by (auto simp: whir_commit_phase_def intro!: vsafe_bind [OF safe_observe_exts] vsafe_ret)
next
  case False
  then have r: "rnd < length (codeword_commits w)" "rnd < length (ood_values w)" using assms(1) by auto
  with assms(2) have d: "wf_digest (codeword_commits w ! rnd)" by simp
  show ?thesis
    unfolding whir_commit_phase_def if_not_P [OF False]
    apply (rule vsafe_lift_bind [OF index_in_range [OF r(1)]])
    apply (rule vsafe_bind [OF safe_observe_commit [OF d]])
    apply (rule vsafe_bind [OF safe_sample_ext])
    apply (rule vsafe_lift_bind [OF index_in_range [OF r(2)]])
    apply (rule vsafe_bind [OF safe_observe_ext])
    apply (rule vsafe_ret)
    using False by simp
qed

lemma safe_queries:
  fixes query_value :: "nat \<Rightarrow> nat \<Rightarrow> 'f \<Rightarrow> ('ef, verify_whir_error) res"
  assumes "k \<le> log_rs" and "grindable X (log_rs - k)"
    and value_safe: "\<And>q idx. q < n \<Longrightarrow> rsafe (query_value q idx (omega ^ idx)) (\<lambda>_. True)"
  shows "vsafe inv (vfor (whir_query T X k log_rs omega query_value) [0..<n] ([], [])) (\<lambda>(zs, ys). length zs = n)"
proof -
  have "vsafe inv (vfor (whir_query T X k log_rs omega query_value) [0..<n] ([], [])) ((\<lambda>done (zs, ys). length zs = length done) [0..<n])"
  proof (rule vsafe_for)
    fix q ys zs and s :: "'f list \<times> 'ef list"
    assume split: "[0..<n] = ys @ q # zs" and J: "case s of (zs, _) \<Rightarrow> length zs = length ys"
    from split have "q \<in> set [0..<n]" by simp
    then have q: "q < n" by simp
    show "vsafe inv (whir_query T X k log_rs omega query_value q s) (\<lambda>(zs, _). length zs = length (ys @ [q]))"
      unfolding whir_query_def Let_def case_prod_beta
      apply (rule vsafe_lift_bind [of _ "log_rs - k"])
       apply (use assms(1) in \<open>simp add: sub64_def\<close>)
      apply (rule vsafe_bind [OF safe_bits [OF assms(2)]])
      apply (rule vsafe_bind [OF vsafe_lift_safe [OF value_safe [OF q]]])
      apply (rule vsafe_ret)
      using J by (cases s) simp
  qed simp
  then show ?thesis by simp
qed

lemma safe_query_value:
  fixes w :: "('f, 'ef, 'd) whir_proof" and alphas :: "'ef list"
  assumes "wf_params p" and shape: "shaped_whir p openings w" and rnd: "rnd < num_whir_rounds p"
    and k: "length alphas = k_whir p" "k_whir p \<le> fe_adicity X" and "z \<noteq> 0"
    and q: "q < num_queries (whir_rounds (whir p) ! rnd)" and mus: "length mus = sum_list (map length openings)"
  shows "rsafe ((if rnd = 0 then initial_query_value X h (k_whir p) w commitments (map length openings) mus alphas
       else codeword_query_value X h w alphas rnd) q idx z) (\<lambda>_. True)"
proof -
  have k0: "0 < k_whir p" "k_whir p < 64" using assms(1) wf_params_bounds(1) [OF assms(1)] by (auto simp: wf_params_def)
  show ?thesis
  proof (cases "rnd = 0")
    case True
    have "opening_fits (k_whir p) q o'"
      if "o' \<in> set (zip commitments (zip (map length openings) (zip (initial_round_opened_rows w) (initial_round_merkle_proofs w))))" for o'
    proof -
      from that obtain c where c: "c < length openings" "c < length (initial_round_opened_rows w)" "c < length (initial_round_merkle_proofs w)"
        "o' = (commitments ! c, length (openings ! c), initial_round_opened_rows w ! c, initial_round_merkle_proofs w ! c)"
        by (auto simp: in_set_conv_nth)
      from shape c(1) have rows: "length (initial_round_opened_rows w ! c) = num_queries (whir_rounds (whir p) ! 0)"
        "length (initial_round_merkle_proofs w ! c) = num_queries (whir_rounds (whir p) ! 0)"
        "\<forall>rows \<in> set (initial_round_opened_rows w ! c). length rows = 2 ^ k_whir p \<and> (\<forall>row \<in> set rows. length row = length (openings ! c))"
        by (auto simp: shaped_whir_def)
      from rows(1) q True have "initial_round_opened_rows w ! c ! q \<in> set (initial_round_opened_rows w ! c)" by simp
      with rows(3) have "length (initial_round_opened_rows w ! c ! q) = 2 ^ k_whir p \<and>
          (\<forall>row \<in> set (initial_round_opened_rows w ! c ! q). length row = length (openings ! c))" by (rule bspec)
      with rows(1,2) q True show ?thesis by (simp add: c(4) opening_fits_def)
    qed
    then have "rsafe (initial_query_value X h (k_whir p) w commitments (map length openings) mus alphas q idx z) (\<lambda>_. True)"
      by (intro safe_initial_query_value [OF k(1) k0(1) k(2) k0(2) assms(6) _ mus] ballI)
    with True show ?thesis by simp
  next
    case False
    then have r: "rnd - 1 < num_whir_rounds p - 1" "rnd - 1 + 1 = rnd" using rnd by simp_all
    with shape have len: "length (codeword_opened_values w ! (rnd - 1)) = num_queries (whir_rounds (whir p) ! rnd)"
      "length (codeword_merkle_proofs w ! (rnd - 1)) = num_queries (whir_rounds (whir p) ! rnd)"
      "\<forall>vals \<in> set (codeword_opened_values w ! (rnd - 1)). length vals = 2 ^ k_whir p"
      by (auto simp: shaped_whir_def)
    have lens: "rnd - 1 < length (codeword_opened_values w)" "rnd - 1 < length (codeword_merkle_proofs w)" "rnd - 1 < length (codeword_commits w)"
      using shape r by (simp_all add: shaped_whir_def)
    have "length (codeword_opened_values w ! (rnd - 1) ! q) = 2 ^ k_whir p" using len q by simp
    from safe_codeword_query_value [OF k(1) k0(1) k(2) k0(2) assms(6) _ lens, where query_idx = q and h = h and idx = idx] this False len q
    show ?thesis by simp
  qed
qed

lemma safe_whir_round:
  fixes w :: "('f, 'ef, 'd) whir_proof"
  assumes params: "wf_params p" and prot: "wf_protocol X p" and shape: "shaped_whir p openings w"
    and digests: "\<forall>d \<in> set (codeword_commits w). wf_digest d" and rnd: "rnd < num_whir_rounds p"
    and mus: "length mus = sum_list (map length openings)" and s: "whir_inv p rnd s"
  shows "vsafe inv (whir_round T X h p w commitments (map length openings) mus (rnd, pow, whir_rounds (whir p) ! rnd) s)
     (whir_inv p (Suc rnd))"
proof -
  let ?k = "k_whir p" and ?R = "num_whir_rounds p" and ?L = "log_stacked_height p + log_blowup p"
  let ?M = "(?R - rnd) * ?k"
  have Rk: "?R * ?k \<le> log_stacked_height p" "0 < ?k"
    using params by (simp_all add: wf_params_def num_whir_sumcheck_rounds_def k_whir_def)
  note bounds = wf_params_bounds [OF params]
  have fold: "?k \<le> ?M" using rnd by (simp add: Suc_leI)
  have rest: "?M - ?k = (?R - Suc rnd) * ?k" by (simp add: diff_mult_distrib)
  have log_rs: "?k \<le> ?L - rnd" "?L - rnd \<le> fe_adicity X" "0 < ?L - rnd" "?L - rnd - ?k \<le> ?L - ?k"
    using bounds(6) rnd Rk(2) prot by (auto simp: wf_protocol_def)
  have gr: "grindable X (?L - rnd - ?k)"
  proof (rule grindable_mono [OF _ log_rs(4)])
    show "grindable X (?L - ?k)" using prot by (simp add: wf_protocol_def)
  qed
  have kad: "?k \<le> fe_adicity X" using log_rs by simp
  have nz: "fe_gen X (?L - rnd) ^ idx \<noteq> 0" for idx using gen_nonzero [OF log_rs(2)] by simp
  have com: "\<not> rnd = ?R - 1 \<Longrightarrow> rnd < length (codeword_commits w) \<and> rnd < length (ood_values w)"
    using shape rnd by (auto simp: shaped_whir_def)
  have grind: "grindable X (folding_pow_bits (whir p))" "grindable X (query_phase_pow_bits (whir p))"
    using prot by (simp_all add: wf_protocol_def)
  have st: "ws_log_rs_domain_size s = ?L - rnd" "length (ws_sumcheck_polys s) = ?M" "length (ws_folding_pows s) = ?M"
    using s by (simp_all add: whir_inv_def)
  have zs: "length (ws_zs s) = rnd" using s rnd by (auto simp: whir_inv_def num_whir_rounds_def dest: map_eq_imp_length_eq)
  have take: "take (Suc rnd) (whir_rounds (whir p)) = take rnd (whir_rounds (whir p)) @ [whir_rounds (whir p) ! rnd]"
    using rnd by (simp add: num_whir_rounds_def take_Suc_conv_app_nth)
  show ?thesis
    unfolding whir_round_def prod.case Let_def st(1)
    apply (rule vsafe_lift_bind [of _ "?R - 1"])
     apply (use bounds(3) in \<open>simp add: sub64_def\<close>)
    apply (rule vsafe_bind [OF safe_fold_rounds [OF grind(1) st(2,3) fold]])
    apply (simp only: case_prod_beta)
    apply (rule vsafe_bind [OF safe_commit_phase [OF com digests]])
     apply assumption
    apply (rule vsafe_bind [OF safe_witness [OF grind(2)]])
    apply (rule vsafe_check_bind)
    apply (rule vsafe_lift_bind [OF generator_Ok [OF log_rs(2)]])
    apply (rule vsafe_bind2)
     apply (rule safe_queries [OF log_rs(1) gr])
     apply (rule safe_query_value [OF params shape rnd _ kad nz _ mus])
      apply simp
     apply assumption
    apply (rule vsafe_bind [OF safe_sample_ext])
    apply (rule vsafe_lift_bind [of _ "?L - rnd - 1"])
     apply (use log_rs(3) in \<open>simp add: sub64_def\<close>)
    apply (rule vsafe_ret)
    using s rnd take by (auto simp: whir_inv_def rest split: option.splits)
qed

end

section \<open>The final check\<close>

lemma constraint_weight_Ok:
  "constraint_weight coeffs alpha_slc z
     = Ok (eq_mle_value alpha_slc (butlast (exp_powers_of_2 (length alpha_slc + 1) z))
           * horner_eval coeffs (z ^ 2 ^ length alpha_slc))"
proof -
  have "last (exp_powers_of_2 (Suc n) y) = y ^ 2 ^ n" for n and y :: 'a
    by (metis diff_Suc_1 exp_powers_nth last_conv_nth length_exp_powers lessI list.size(3) nat.distinct(1))
  then show ?thesis by (simp add: constraint_weight_def eval_eq_mle_def del: exp_powers_of_2.simps)
qed

lemma safe_final_round_terms:
  assumes params: "wf_params p" and s: "whir_inv p (num_whir_rounds p) s" and i: "i < num_whir_rounds p"
  shows "rsafe (final_round_terms X p coeffs s (k_whir p * num_whir_rounds p) i (acc, Suc i * k_whir p))
     (\<lambda>(_, j). j = Suc (Suc i) * k_whir p)"
proof -
  let ?k = "k_whir p" and ?R = "num_whir_rounds p"
  have zs: "map length (ws_zs s) = map num_queries (whir_rounds (whir p))" and len: "length (ws_gammas s) = ?R"
    "length (ws_alphas s) = ?R * ?k" "length (ws_z0s s) = ?R - 1"
    using s by (auto simp: whir_inv_def num_whir_rounds_def)
  have lz: "length (ws_zs s) = ?R" using zs by (auto simp: num_whir_rounds_def dest: map_eq_imp_length_eq)
  have nq: "length (ws_zs s ! i) = num_queries (whir_rounds (whir p) ! i)"
    using arg_cong [OF zs, of "\<lambda>xs. xs ! i"] i lz by (simp add: num_whir_rounds_def)
  have jt: "Suc i * ?k \<le> ?k * ?R" using i by (metis Suc_leI mult.commute mult_le_mono1)
  have slc: "slice (ws_alphas s) (Suc i * ?k) (?k * ?R) = Ok (take (?k * ?R - Suc i * ?k) (drop (Suc i * ?k) (ws_alphas s)))"
    using jt len(2) by (simp add: slice_def mult.commute)
  have queries: "rsafe (rfold (\<lambda>(n, zi) acc. rbind (constraint_weight coeffs slc (fe_embed X zi)) (\<lambda>x. Ok (acc + gamma ^ (n + 2) * x))) xs a) (\<lambda>_. True)"
    for slc gamma xs a
    by (rule rsafe_fold [where J = "\<lambda>_ _. True"]) (auto simp: constraint_weight_Ok)
  show ?thesis
    unfolding final_round_terms_def prod.case
    apply (rule rsafe_bind_Ok [OF index_in_range])
     apply (simp only: lz i)
    apply (rule rsafe_bind_Ok [OF index_in_range])
     apply (simp only: len i)
    apply (rule rsafe_bind_Ok [OF slc])
    apply (rule rsafe_bind_Ok [of _ "?R - 1"])
     apply (use i in \<open>simp add: sub64_def\<close>)
    apply (rule rsafe_bind [where R = "\<lambda>_. True"])
     apply (use i len(3) in \<open>auto simp: constraint_weight_Ok\<close>)[1]
    apply (rule rsafe_bind_Ok [OF index_in_range])
     apply (use i in \<open>simp add: num_whir_rounds_def\<close>)
    apply (rule rsafe_bind_Ok [of _ "()"])
     apply (simp add: nq)
    apply (rule rsafe_bind [OF queries])
    apply simp
    done
qed

lemma safe_whir_final_value:
  assumes params: "wf_params p" and s: "whir_inv p (num_whir_rounds p) s"
    and u: "length u = log_stacked_height p" and coeffs: "length coeffs = 2 ^ (log_stacked_height p - num_whir_sumcheck_rounds p)"
  shows "rsafe (whir_final_value X p coeffs u s) (\<lambda>_. True)"
proof -
  let ?k = "k_whir p" and ?R = "num_whir_rounds p"
  let ?t = "?k * ?R"
  have t: "?t \<le> log_stacked_height p" "num_whir_sumcheck_rounds p = ?t"
    using params by (simp_all add: wf_params_def num_whir_sumcheck_rounds_def k_whir_def mult.commute)
  have la: "length (ws_alphas s) = ?t" using s by (simp add: whir_inv_def mult.commute)
  have sl: "slice u 0 ?t = Ok (take ?t u)" "slice (ws_alphas s) 0 ?t = Ok (ws_alphas s)"
    "slice u ?t (length u) = Ok (drop ?t u)"
    using t(1) la u by (simp_all add: slice_def)
  have suffix: "eval_mle_evals_at_point coeffs (drop ?t u) = Ok (mle_sum coeffs (drop ?t u))"
    using eval_mle_sum [of coeffs "drop ?t u"] coeffs u t(2) by simp
  have terms: "rsafe (rfold (final_round_terms X p coeffs s ?t) [0..<?R] (a, ?k)) ((\<lambda>done (_, j). j = Suc (length done) * ?k) [0..<?R])" for a
  proof (rule rsafe_fold)
    fix i ys zs and r :: "'b \<times> nat"
    assume split: "[0..<?R] = ys @ i # zs" and J: "case r of (_, j) \<Rightarrow> j = Suc (length ys) * ?k"
    from split have "[0..<?R] ! length ys = i" by simp
    moreover from split have "length [0..<?R] = length (ys @ i # zs)" by (rule arg_cong)
    moreover have "length ys + Suc (length zs) = ?R" using calculation(2) by simp
    ultimately have i: "i = length ys" "i < ?R" using nth_upt [of 0 "length ys" ?R] by linarith+
    obtain acc j where r: "r = (acc, j)" by force
    with J i show "rsafe (final_round_terms X p coeffs s ?t i r) (\<lambda>(_, j). j = Suc (length (ys @ [i])) * ?k)"
      using safe_final_round_terms [OF params s i(2), of X coeffs acc] by simp
  qed simp
  show ?thesis
    unfolding whir_final_value_def Let_def sl rbind.simps
    apply (rule rsafe_bind [where R = "\<lambda>_. True"])
     apply (use la t u in \<open>simp add: eval_mobius_eq_mle_def\<close>)
    apply (rule rsafe_bind_Ok [OF suffix])
    apply (rule rsafe_bind [OF terms])
    by auto
qed

lemma safe_whir_conclusion:
  assumes params: "wf_params p" and shape: "shaped_whir p openings w" and s: "whir_inv p (num_whir_rounds p) s"
    and u: "length u = log_stacked_height p"
  shows "rsafe (whir_conclusion X p w u s) (\<lambda>_. True)"
proof -
  let ?f = "log_stacked_height p - num_whir_sumcheck_rounds p"
  note bounds = wf_params_bounds [OF params]
  have fp: "length (final_poly w) = 2 ^ ?f" using shape by (simp add: shaped_whir_def)
  have zs: "length (ws_zs s) = num_whir_rounds p"
    using s by (auto simp: whir_inv_def num_whir_rounds_def dest: map_eq_imp_length_eq)
  show ?thesis
    unfolding whir_conclusion_def
    apply (rule rsafe_bind_Ok [of _ "()"])
     apply (use s in \<open>simp add: whir_inv_def\<close>)
    apply (rule rsafe_bind_Ok [OF bounds(7)])
    apply (rule rsafe_bind_Ok [of _ "2 ^ ?f"])
     apply (use bounds(2) in simp)
    apply (rule rsafe_bind [where R = "\<lambda>_. True"])
     apply (simp add: fp)
    apply (rule rsafe_bind_Ok [of _ "num_whir_rounds p - 1"])
     apply (use bounds(3) in \<open>simp add: sub64_def\<close>)
    apply (rule rsafe_bind_Ok [of _ "()"])
     apply (use s zs in \<open>simp add: whir_inv_def mult.commute\<close>)
    apply (rule rsafe_bind [OF safe_whir_final_value [OF params s u fp]])
    by (simp add: rsafe_def ensure_that_def)
qed

section \<open>The verifier\<close>

context verifier_env
begin

lemma safe_verify_whir:
  fixes w :: "('f, 'ef, 'd) whir_proof"
  assumes params: "wf_params p" and prot: "wf_protocol X p" and shape: "shaped_whir p openings w"
    and digests: "\<forall>d \<in> set (codeword_commits w). wf_digest d" and u: "length u = log_stacked_height p"
  shows "vsafe inv (verify_whir T X h p w openings commitments u) (\<lambda>_. True)"
proof -
  let ?R = "num_whir_rounds p" and ?qs = "query_phase_pow_witnesses w"
  note bounds = wf_params_bounds [OF params]
  have kR: "num_whir_sumcheck_rounds p \<le> log_stacked_height p" "num_whir_sumcheck_rounds p = ?R * k_whir p" "0 < k_whir p"
    using params by (simp_all add: wf_params_def num_whir_sumcheck_rounds_def k_whir_def)
  have lens: "length ?qs = ?R" "length (whir_rounds (whir p)) = ?R" "length (folding_pow_witnesses w) = num_whir_sumcheck_rounds p"
    "length (whir_sumcheck_polys w) = num_whir_sumcheck_rounds p"
    using shape by (simp_all add: shaped_whir_def num_whir_rounds_def)
  have pre: "whir_preconditions p w = Ok ()"
    unfolding whir_preconditions_def bounds(7) rbind.simps
    using kR lens by (simp add: sub64_def)
  have grind: "grindable X (mu_pow_bits (whir p))" using prot by (simp add: wf_protocol_def)
  have rounds: "vsafe inv (vfor (whir_round T X h p w commitments (map length openings) mus) (enumerated (zip ?qs (whir_rounds (whir p)))) s)
      (whir_inv p ?R)" if "whir_inv p 0 s" and "length mus = sum_list (map length openings)" for s and mus :: "'ef list"
  proof -
    have len: "length (zip ?qs (whir_rounds (whir p))) = ?R" using lens by simp
    have "vsafe inv (vfor (whir_round T X h p w commitments (map length openings) mus) (enumerated (zip ?qs (whir_rounds (whir p)))) s)
      (whir_inv p (length (zip ?qs (whir_rounds (whir p)))))"
    proof (rule vsafe_for_enumerated [where J = "whir_inv p"])
      fix i and s' :: "('f, 'ef) whir_state" assume i: "i < length (zip ?qs (whir_rounds (whir p)))" and s': "whir_inv p i s'"
      then have i': "i < ?R" and "zip ?qs (whir_rounds (whir p)) ! i = (?qs ! i, whir_rounds (whir p) ! i)" using lens by simp_all
      with safe_whir_round [OF params prot shape digests i' that(2) s', where pow = "?qs ! i"] i len
      show "vsafe inv (whir_round T X h p w commitments (map length openings) mus (i, zip ?qs (whir_rounds (whir p)) ! i) s') (whir_inv p (Suc i))"
        by simp
    qed (rule that(1))
    then show ?thesis unfolding len .
  qed
  show ?thesis
    unfolding verify_whir_def Let_def
    apply (rule vsafe_bind [OF safe_witness [OF grind]])
    apply (rule vsafe_check_bind)
    apply (rule vsafe_bind [OF safe_sample_ext])
    apply (rule vsafe_lift_bind [OF pre])
    apply (rule vsafe_bind [OF rounds])
      apply (simp add: whir_inv_def lens kR(2))
     apply simp
    apply (rule vsafe_lift_safe)
    apply (rule safe_whir_conclusion [OF params shape _ u])
    apply assumption
    done
qed

end

end
