(* ===== verification/Verifier.thy ===== *)
theory Verifier
  imports WhirSafety "HOL-Library.Product_Lexorder"
begin

text \<open>
  The verifier of a proof (\<open>verify\<close> in \<open>verifier/mod.rs\<close>): the checks on the parameters, the
  shape and the trace heights, the preamble of the transcript, and the three reductions in
  turn. \<open>h\<close> is the Merkle hasher and \<open>config_params\<close> the parameters of the configuration.
\<close>

datatype 'ef verifier_error =
    SystemParamsMismatch
  | TraceHeightsTooLarge
  | PreprocessedTraceHeightMismatch
  | EmptyTraces
  | ProofShapeError proof_shape_error
  | BatchConstraintError "'ef batch_error"
  | StackedReductionError "'ef stacked_error"
  | WhirError verify_whir_error

section \<open>The order of the traces\<close>

text \<open>\<open>(is_none, Reverse(log_height), air_id)\<close>; absent traces have no height, and all the same key there.\<close>

definition air_order_key :: "'d trace_vdata option list \<Rightarrow> nat \<Rightarrow> bool \<times> int \<times> nat" where
  "air_order_key vdata air_id = (case vdata ! air_id of
     None \<Rightarrow> (True, 0, air_id)
   | Some v \<Rightarrow> (False, - int (log_height v), air_id))"

definition sorted_air_ids :: "nat \<Rightarrow> 'd trace_vdata option list \<Rightarrow> nat \<Rightarrow> (nat list, 'e) res" where
  "sorted_air_ids num_airs vdata num_traces =
     rbind (rmap (index vdata) [0..<num_airs]) (\<lambda>_.
     Ok (take num_traces (sort_key (air_order_key vdata) [0..<num_airs])))"

definition present_vdata :: "'d trace_vdata option list \<Rightarrow> nat \<Rightarrow> ('d trace_vdata, 'e) res" where
  "present_vdata vdata air_id = rbind (index vdata air_id) unwrap"

section \<open>The trace heights\<close>

text \<open>
  \<open>(1 << n) as u64\<close>: the literal has no type of its own and is an \<open>i32\<close>, so the shift panics
  from 32 on, and the sign bit is extended.
\<close>

definition shl_i32_as_u64 :: "nat \<Rightarrow> (nat, 'e) res" where
  "shl_i32_as_u64 n =
     (if 32 \<le> n then Panic else if n = 31 then Ok (2 ^ 64 - 2 ^ 31) else Ok (2 ^ n))"

definition weighted_height ::
  "nat \<Rightarrow> 'd trace_vdata option list \<Rightarrow> linear_constraint \<Rightarrow> nat \<Rightarrow> (nat, 'e) res" where
  "weighted_height skip vdata c air_id =
     rbind (present_vdata vdata air_id) (\<lambda>v.
     rbind (shl_i32_as_u64 (max (log_height v) skip)) (\<lambda>n.
     rbind (index (coefficients c) air_id) (\<lambda>k. mul64 n k)))"

definition check_heights ::
  "nat \<Rightarrow> 'd trace_vdata option list \<Rightarrow> nat list \<Rightarrow> linear_constraint list \<Rightarrow> (unit, 'ef verifier_error) res" where
  "check_heights skip vdata ids = rall (\<lambda>c.
     rbind (rfold (\<lambda>air_id acc. rbind (weighted_height skip vdata c air_id) (add64 acc)) ids 0) (\<lambda>sum.
     ensure_that (sum < threshold c) TraceHeightsTooLarge))"

section \<open>The preamble of the transcript\<close>

definition observe_vdata ::
  "('ts, 'f::field, 'd) transcript_ops \<Rightarrow> nat \<Rightarrow> ('f, 'd) stark_verifying_key \<Rightarrow> 'd trace_vdata \<Rightarrow> nat
     \<Rightarrow> (unit, 'ts, 'ef verifier_error) vm" where
  "observe_vdata T skip avk v num_pvs =
     vbind (case preprocessed_data avk of
         Some pdata \<Rightarrow>
           (let lifted = hypercube_dim pdata + int skip in
            vbind (vassert (- (2 ^ 63) \<le> lifted \<and> lifted < 2 ^ 63)) (\<lambda>_.
            vbind (vcheck (nat (lifted mod 2 ^ 64) = log_height v) PreprocessedTraceHeightMismatch) (\<lambda>_.
            v_observe_commit T (prep_commit pdata))))
       | None \<Rightarrow> v_observe T (of_nat (log_height v))) (\<lambda>_.
     vbind (vassert (length (tw_cached_mains (vp_width (vk_params avk))) = length (cached_commitments v))) (\<lambda>_.
     vbind (vdo_all (v_observe_commit T) (cached_commitments v)) (\<lambda>_.
     vassert (num_public_values (vk_params avk) = num_pvs))))"

definition observe_air ::
  "('ts, 'f::field, 'd) transcript_ops \<Rightarrow> nat \<Rightarrow> 'd trace_vdata option \<times> ('f, 'd) stark_verifying_key \<times> 'f list
     \<Rightarrow> (unit, 'ts, 'ef verifier_error) vm" where
  "observe_air T skip = (\<lambda>(vdata, avk, pvs).
     vbind (if \<not> is_required avk then v_observe T (of_bool (vdata \<noteq> None)) else vret ()) (\<lambda>_.
     vbind (case vdata of Some v \<Rightarrow> observe_vdata T skip avk v (length pvs) | None \<Rightarrow> vret ()) (\<lambda>_.
     vdo_all (v_observe T) pvs)))"

section \<open>What the reductions are called with\<close>

definition n_per_trace :: "nat \<Rightarrow> 'd trace_vdata option list \<Rightarrow> nat list \<Rightarrow> (int list, 'e) res" where
  "n_per_trace skip vdata = rmap (\<lambda>air_id.
     rbind (present_vdata vdata air_id) (\<lambda>v. Ok (int (log_height v) - int skip)))"

definition need_rot_of_air ::
  "('f, 'd) stark_verifying_key list \<Rightarrow> 'd trace_vdata option list \<Rightarrow> nat \<Rightarrow> (bool list list, 'e) res" where
  "need_rot_of_air keys vdata air_id =
     rbind (index keys air_id) (\<lambda>vk.
     rbind (present_vdata vdata air_id) (\<lambda>v.
     let rot = need_rot (vk_params vk) in
     Ok ((if preprocessed_data vk \<noteq> None then [[rot]] else []) @ replicate (length (cached_commitments v)) [rot])))"

definition need_rot_per_commit ::
  "('f, 'd) stark_verifying_key list \<Rightarrow> 'd trace_vdata option list \<Rightarrow> nat list \<Rightarrow> (bool list list, 'e) res" where
  "need_rot_per_commit keys vdata ids =
     rbind (rmap (\<lambda>air_id. rbind (index keys air_id) (\<lambda>vk. Ok (need_rot (vk_params vk)))) ids) (\<lambda>per_trace.
     rbind (rmap (need_rot_of_air keys vdata) ids) (\<lambda>others. Ok (per_trace # concat others)))"

definition commits_of_air ::
  "('f, 'd) stark_verifying_key list \<Rightarrow> 'd trace_vdata option list \<Rightarrow> nat \<Rightarrow> ('d list, 'e) res" where
  "commits_of_air keys vdata air_id =
     rbind (index keys air_id) (\<lambda>vk.
     rbind (present_vdata vdata air_id) (\<lambda>v.
     Ok ((case preprocessed_data vk of Some pdata \<Rightarrow> [prep_commit pdata] | None \<Rightarrow> []) @ cached_commitments v)))"

definition u_cube_of :: "nat \<Rightarrow> 'ef::field list \<Rightarrow> ('ef list, 'e) res" where
  "u_cube_of skip u_prism =
     (case u_prism of [] \<Rightarrow> Panic | u0 # u_rest \<Rightarrow> Ok (exp_powers_of_2 skip u0 @ u_rest))"

section \<open>The verifier\<close>

definition verify ::
  "('ts, 'f::field, 'd) transcript_ops \<Rightarrow> ('f, 'ef::field) field_ext \<Rightarrow> ('f, 'd) merkle_hasher \<Rightarrow> system_params
     \<Rightarrow> ('f, 'd) multi_stark_vk \<Rightarrow> ('f, 'ef, 'd) stark_proof \<Rightarrow> (unit, 'ts, 'ef verifier_error) vm" where
  "verify T X h config_params vk pr =
     (let mvk = mvk_inner vk; p = mvk_params mvk; keys = per_air mvk; skip = l_skip p; vdata = proof_trace_vdata pr;
          num_airs = length keys; num_traces = length (filter (\<lambda>v. v \<noteq> None) vdata) in
      vbind (vcheck (config_params = p) SystemParamsMismatch) (\<lambda>_.
      vbind (vcheck (num_traces \<noteq> 0) EmptyTraces) (\<lambda>_.
      vbind (vlift (map_err ProofShapeError (verify_proof_shape mvk pr))) (\<lambda>layouts.
      vbind (vlift (sorted_air_ids num_airs vdata num_traces)) (\<lambda>ids.
      vbind (vlift (check_heights skip vdata ids (trace_height_constraints mvk))) (\<lambda>_.
      vbind (vlift (two_adic_generator X skip)) (\<lambda>omega_skip.
      vbind (vlift (shl64 1 skip)) (\<lambda>domain_size.
      let omega_skip_pows = powers domain_size omega_skip in
      vbind (v_observe_commit T (mvk_pre_hash vk)) (\<lambda>_.
      vbind (v_observe_commit T (common_main_commit pr)) (\<lambda>_.
      vbind (vdo_all (observe_air T skip) (zip vdata (zip keys (proof_public_values pr)))) (\<lambda>_.
      vbind (vlift (n_per_trace skip vdata ids)) (\<lambda>ns.
      vbind (vmap_err BatchConstraintError (verify_zerocheck_and_logup T X mvk (proof_public_values pr) (proof_gkr pr)
               (proof_batch_constraint pr) ids ns omega_skip_pows)) (\<lambda>r.
      vbind (vlift (need_rot_per_commit keys vdata ids)) (\<lambda>rots.
      vbind (vmap_err StackedReductionError (verify_stacked_reduction T X (proof_stacking pr) layouts rots skip (n_stack p)
               (column_openings (proof_batch_constraint pr)) r omega_skip_pows)) (\<lambda>u_prism.
      vbind (vlift (u_cube_of skip u_prism)) (\<lambda>u_cube.
      vbind (vlift (rmap (commits_of_air keys vdata) ids)) (\<lambda>commits.
      vmap_err WhirError (verify_whir T X h p (proof_whir pr) (stacking_openings (proof_stacking pr))
        (common_main_commit pr # concat commits) u_cube))))))))))))))))))"

end
