(* ===== verification/VerifierSafety.thy ===== *)
theory VerifierSafety
  imports Verifier
begin

text \<open>
  The traces in the order of \<open>verify\<close> are those of the shape check; with that, what the three
  reductions guarantee one after the other gives that \<open>verify\<close> never panics, and that an
  accepted proof respects the trace height constraints.
\<close>

section \<open>The order of the traces\<close>

lemma insort_lex_sorted:
  assumes "sorted (map (\<lambda>y. (f y, g y)) ys)" and "\<forall>y \<in> set ys. g x \<le> g y"
  shows "sorted (map (\<lambda>y. (f y :: 'b::linorder, g y :: 'c::linorder)) (insort_key f x ys))"
  using assms
proof (induction ys)
  case (Cons y ys)
  then show ?case by (auto simp: set_insort_key)
qed simp

text \<open>A stable sort by \<open>f\<close> of a list in the order of \<open>g\<close> is the sort by \<open>f\<close>, then \<open>g\<close>.\<close>

lemma stable_sort_lex:
  "sorted (map g xs) \<Longrightarrow> sorted (map (\<lambda>x. (f x :: 'b::linorder, g x :: 'c::linorder)) (sort_key f xs))"
  by (induction xs) (auto intro!: insort_lex_sorted)

lemma per_trace_order:
  "sorted (map (\<lambda>(i, _, v). (- int (log_height v), i)) (per_trace mvk pr))"
  "distinct (map fst (per_trace mvk pr))"
proof -
  let ?f = "\<lambda>(i, vk, v). map_option (\<lambda>v. (i :: nat, vk :: ('a, 'b) stark_verifying_key, v :: 'b trace_vdata)) v"
  let ?zs = "enumerated (zip (per_air mvk) (proof_trace_vdata pr))"
  let ?xs = "List.map_filter ?f ?zs"
  have "map fst (List.map_filter ?f zs) = map fst (filter (\<lambda>x. ?f x \<noteq> None) zs)" for zs
    by (induction zs) (auto simp: map_filter_simps split: option.splits)
  then have fst: "map fst ?xs = map fst (filter (\<lambda>x. ?f x \<noteq> None) ?zs)" .
  have "sorted (map fst ?zs)" "distinct (map fst ?zs)" by simp_all
  then have "sorted (map fst ?xs)" and dist: "distinct (map fst ?xs)"
    unfolding fst by (auto intro: sorted_filter distinct_map_filter)
  have "(\<lambda>(i, _, v). (- int (log_height v), i))
      = (\<lambda>x :: nat \<times> ('a, 'b) stark_verifying_key \<times> 'b trace_vdata. (case x of (_, _, v) \<Rightarrow> - int (log_height v), fst x))"
    by (auto simp: fun_eq_iff)
  then show "sorted (map (\<lambda>(i, _, v). (- int (log_height v), i)) (per_trace mvk pr))"
    unfolding per_trace_def using stable_sort_lex [OF \<open>sorted (map fst ?xs)\<close>] by simp
  from dist show "distinct (map fst (per_trace mvk pr))"
    unfolding per_trace_def distinct_map by simp
qed

lemma air_order_inj: "inj_on (air_order_key vdata) A"
  by (auto simp: inj_on_def air_order_key_def split: option.splits)

lemma sorted_air_ids_Ok:
  fixes pr :: "('f, 'ef, 'd) stark_proof"
  assumes len: "length (proof_trace_vdata pr) = length (per_air mvk)"
  shows "sorted_air_ids (length (per_air mvk)) (proof_trace_vdata pr) (length (filter (\<lambda>v. v \<noteq> None) (proof_trace_vdata pr)))
     = (Ok (air_ids (per_trace mvk pr)) :: (_, 'e) res)"
proof -
  let ?v = "proof_trace_vdata pr" and ?n = "length (per_air mvk)" and ?ts = "per_trace mvk pr"
  let ?k = "air_order_key ?v" and ?A = "filter (\<lambda>i. ?v ! i = None) [0..<?n]"
  have mem: "(i, vk, v) \<in> set ?ts \<longleftrightarrow> i < ?n \<and> per_air mvk ! i = vk \<and> ?v ! i = Some v" for i vk v
    by (rule per_trace_mem [OF len])
  have key: "map ?k (map fst ?ts) = map (\<lambda>(i, _, v). (False, - int (log_height v), i)) ?ts"
    unfolding map_map by (rule map_cong [OF refl]) (auto simp: mem air_order_key_def)
  have present: "i \<in> fst ` set ?ts \<longleftrightarrow> i < ?n \<and> ?v ! i \<noteq> None" for i
    using mem by (force simp: image_iff)
  have ids: "set (map fst ?ts) = {i. i < ?n \<and> ?v ! i \<noteq> None}" by (simp only: set_map set_eq_iff mem_Collect_eq present) blast
  have sorted: "sorted (map ?k (map fst ?ts @ ?A))"
    unfolding map_append sorted_append
  proof (intro conjI ballI)
    show "sorted (map ?k (map fst ?ts))"
      unfolding key using per_trace_order(1) [of mvk pr] by (simp add: sorted_map case_prod_beta)
    have eq: "map ?k ?A = map (\<lambda>i. (True, 0, i)) ?A"
      by (rule map_cong) (auto simp: air_order_key_def)
    show "sorted (map ?k ?A)"
      unfolding eq using sorted_filter [of "\<lambda>i. i" "[0..<?n]"] by (simp add: sorted_map)
  next
    fix x y assume "x \<in> set (map ?k (map fst ?ts))" and "y \<in> set (map ?k ?A)"
    then show "x \<le> y" unfolding key by (auto simp: air_order_key_def)
  qed
  have "sort_key ?k [0..<?n] = map fst ?ts @ ?A"
  proof (rule map_sorted_distinct_set_unique [of ?k])
    show "inj_on ?k (set (sort_key ?k [0..<?n]) \<union> set (map fst ?ts @ ?A))" by (rule air_order_inj)
    show "sorted (map ?k (sort_key ?k [0..<?n]))" by simp
    show "distinct (map ?k (sort_key ?k [0..<?n]))" by (simp add: distinct_map air_order_inj)
    have "set (map fst ?ts) \<inter> set ?A = {}" unfolding ids by auto
    then have "distinct (map fst ?ts @ ?A)"
      unfolding distinct_append by (intro conjI per_trace_order(2) distinct_filter) simp_all
    then show "distinct (map ?k (map fst ?ts @ ?A))" by (simp only: distinct_map air_order_inj)
    show "set (sort_key ?k [0..<?n]) = set (map fst ?ts @ ?A)"
      unfolding set_append ids by auto
  qed (rule sorted)
  moreover have "length (filter (\<lambda>v. v \<noteq> None) ?v) = length (map fst ?ts)"
  proof -
    have "length (filter (\<lambda>v. v \<noteq> None) ?v) = card {i. i < ?n \<and> ?v ! i \<noteq> None}"
      by (simp add: length_filter_conv_card len)
    also have "{i. i < ?n \<and> ?v ! i \<noteq> None} = set (map fst ?ts)" by (rule ids [symmetric])
    also have "card \<dots> = length (map fst ?ts)" by (rule distinct_card [OF per_trace_order(2)])
    finally show ?thesis .
  qed
  moreover have "rmap (index ?v) [0..<?n] = (Ok (map ((!) ?v) [0..<?n]) :: (_, 'e) res)"
    by (rule rmap_total) (simp add: len)
  ultimately show ?thesis by (simp add: sorted_air_ids_def air_ids_def)
qed

section \<open>What the reductions are called with\<close>

text \<open>The traces are those of the proof and of the key.\<close>

definition traces_match :: "('f, 'd) stark_verifying_key list \<Rightarrow> 'd trace_vdata option list \<Rightarrow> ('f, 'd) traces \<Rightarrow> bool" where
  "traces_match keys vdata traces \<longleftrightarrow> (\<forall>(i, vk, v) \<in> set traces. i < length keys \<and> keys ! i = vk \<and>
     i < length vdata \<and> vdata ! i = Some v \<and> wf_key vk \<and> length (cached_commitments v) = num_cached_mains vk)"

lemma rmap_air_ids:
  "(\<And>i vk v. (i, vk, v) \<in> set traces \<Longrightarrow> f i = Ok (g (i, vk, v))) \<Longrightarrow> rmap f (air_ids traces) = Ok (map g traces)"
proof (induction traces)
  case (Cons t traces)
  obtain i vk v where t: "t = (i, vk, v)" by (cases t)
  have "rmap f (air_ids traces) = Ok (map g traces)" by (rule Cons.IH) (simp add: Cons.prems)
  with Cons.prems [of i vk v] show ?case by (simp add: t air_ids_def)
qed (simp add: air_ids_def)

lemma present_vdata_Ok:
  "traces_match keys vdata traces \<Longrightarrow> (i, vk, v) \<in> set traces \<Longrightarrow> present_vdata vdata i = Ok v"
  by (auto simp: traces_match_def present_vdata_def)

lemma n_per_trace_Ok:
  "traces_match keys vdata traces \<Longrightarrow> n_per_trace skip vdata (air_ids traces) = Ok (hypercube_dims skip traces)"
  unfolding n_per_trace_def hypercube_dims_def by (rule rmap_air_ids) (simp add: present_vdata_Ok)

lemma need_rot_per_commit_Ok:
  assumes "traces_match keys vdata traces"
  shows "need_rot_per_commit keys vdata (air_ids traces) = (Ok (commit_rots traces) :: (_, 'e) res)"
proof -
  have keys: "index keys i = (Ok vk :: (_, 'e) res)" if "(i, vk, v) \<in> set traces" for i vk v
    using assms that by (auto simp: traces_match_def)
  have one: "rmap (\<lambda>i. rbind (index keys i) (\<lambda>vk. Ok (need_rot (vk_params vk)))) (air_ids traces)
      = (Ok (map (\<lambda>(_, vk, _). need_rot (vk_params vk)) traces) :: (_, 'e) res)"
    by (rule rmap_air_ids) (simp add: keys)
  have "rmap (need_rot_of_air keys vdata) (air_ids traces)
      = (Ok (map (\<lambda>(_, vk, _). map (\<lambda>_. [need_rot (vk_params vk)]) (other_widths vk)) traces) :: (_, 'e) res)"
  proof (rule rmap_air_ids)
    fix i vk v assume t: "(i, vk, v) \<in> set traces"
    then have vk: "wf_key vk" "length (cached_commitments v) = length (tw_cached_mains (vp_width (vk_params vk)))"
      using assms by (auto simp: traces_match_def num_cached_mains_def)
    have "map (\<lambda>_. b) xs = replicate (length xs) b" for b :: "bool list" and xs :: "nat list" by (induction xs) auto
    with vk show "need_rot_of_air keys vdata i
        = (Ok (case (i, vk, v) of (_, vk, _) \<Rightarrow> map (\<lambda>_. [need_rot (vk_params vk)]) (other_widths vk)) :: (_, 'e) res)"
      by (auto simp: need_rot_of_air_def keys [OF t] present_vdata_Ok [OF assms t] other_widths_def Let_def wf_key_def split: option.splits)
  qed
  with one show ?thesis by (simp add: need_rot_per_commit_def commit_rots_def)
qed

lemma commits_Ok:
  assumes "traces_match keys vdata traces"
  shows "\<exists>cs. rmap (commits_of_air keys vdata) (air_ids traces) = (Ok cs :: (_, 'e) res)"
proof -
  have "rmap (commits_of_air keys vdata) (air_ids traces)
      = (Ok (map (\<lambda>(i, vk, v). (case preprocessed_data vk of Some pdata \<Rightarrow> [prep_commit pdata] | None \<Rightarrow> []) @ cached_commitments v) traces) :: (_, 'e) res)"
  proof (rule rmap_air_ids)
    fix i vk v assume t: "(i, vk, v) \<in> set traces"
    with assms have "index keys i = (Ok vk :: (_, 'e) res)" by (auto simp: traces_match_def)
    then show "commits_of_air keys vdata i = (Ok (case (i, vk, v) of (i, vk, v) \<Rightarrow>
        (case preprocessed_data vk of Some pdata \<Rightarrow> [prep_commit pdata] | None \<Rightarrow> []) @ cached_commitments v) :: (_, 'e) res)"
      by (simp add: commits_of_air_def present_vdata_Ok [OF assms t])
  qed
  then show ?thesis ..
qed

lemma per_trace_match:
  assumes "shaped_vdata mvk pr" and "wf_mvk mvk"
  shows "traces_match (per_air mvk) (proof_trace_vdata pr) (per_trace mvk pr)"
  unfolding traces_match_def
proof (clarify, intro conjI)
  fix i vk v assume t: "(i, vk, v) \<in> set (per_trace mvk pr)"
  have len: "length (proof_trace_vdata pr) = length (per_air mvk)" using assms(1) by (simp add: shaped_vdata_def)
  from t show i: "i < length (per_air mvk)" "per_air mvk ! i = vk" "proof_trace_vdata pr ! i = Some v"
    by (simp_all add: per_trace_mem [OF len])
  with len show "i < length (proof_trace_vdata pr)" by simp
  from i assms(2) show "wf_key vk" by (auto simp: wf_mvk_def)
  from assms(1) i show "length (cached_commitments v) = num_cached_mains vk"
    by (auto simp: shaped_vdata_def dest!: spec [of _ i])
qed

section \<open>The trace heights\<close>

lemma rfold_add64_Ok:
  assumes "rfold (\<lambda>i acc. rbind (g i) (add64 acc)) is acc = (Ok s :: (_, 'e) res)"
  shows "\<exists>xs. rmap g is = (Ok xs :: (_, 'e) res) \<and> s = acc + sum_list xs"
  using assms
proof (induction "is" arbitrary: acc)
  case (Cons i "is")
  then obtain x where x: "g i = Ok x" and rest: "rfold (\<lambda>i acc. rbind (g i) (add64 acc)) is (acc + x) = Ok s"
    by (auto simp: rbind_Ok_iff add64_Ok_iff)
  from Cons.IH [OF rest] x show ?case by auto
qed simp

lemma rfold_add64:
  assumes "\<And>i. i \<in> set is \<Longrightarrow> g i = (Ok (x i) :: (_, 'e) res)" and "acc + sum_list (map x is) < 2 ^ 64"
  shows "rfold (\<lambda>i acc. rbind (g i) (add64 acc)) is acc = (Ok (acc + sum_list (map x is)) :: (_, 'e) res)"
  using assms
proof (induction "is" arbitrary: acc)
  case (Cons i "is")
  then have "acc + x i < 2 ^ 64" by simp
  with Cons show ?case by (simp add: add64_def add.assoc)
qed simp

lemma weighted_height_Ok:
  assumes "traces_match keys vdata traces" and "(i, vk, v) \<in> set traces"
    and "max (log_height v) skip < 31" and "length (coefficients c) = length keys"
  shows "weighted_height skip vdata c i = (mul64 (2 ^ max (log_height v) skip) (coefficients c ! i) :: (_, 'e) res)"
proof -
  have "i < length keys" using assms(1,2) by (auto simp: traces_match_def)
  moreover have "shl_i32_as_u64 (max (log_height v) skip) = (Ok (2 ^ max (log_height v) skip) :: (_, 'e) res)"
    using assms(3) unfolding shl_i32_as_u64_def by (cases "max (log_height v) skip = 31") (simp_all del: max_less_iff_conj)
  ultimately show ?thesis
    using assms(4) by (simp add: weighted_height_def present_vdata_Ok [OF assms(1,2)])
qed

lemma sum_distinct_le:
  assumes "distinct is" and "\<forall>i \<in> set is. i < length xs"
  shows "sum_list (map ((!) xs) is) \<le> (sum_list xs :: nat)"
proof -
  have "sum_list (map ((!) xs) is) = (\<Sum>i \<in> set is. xs ! i)" by (rule sum_list_distinct_conv_sum_set [OF assms(1)])
  also have "\<dots> \<le> (\<Sum>i < length xs. xs ! i)" using assms(2) by (intro sum_mono2) auto
  also have "\<dots> = sum_list xs" by (simp add: sum_list_sum_nth atLeast0LessThan)
  finally show ?thesis .
qed

lemma height_sum_Ok:
  assumes match: "traces_match keys vdata traces" and dist: "distinct (air_ids traces)" and skip: "skip \<le> ls" "ls < 31"
    and heights: "\<forall>(i, vk, v) \<in> set traces. log_height v \<le> ls"
    and len: "length (coefficients c) = length keys" and total: "sum_list (coefficients c) * 2 ^ ls < 2 ^ 64"
  shows "\<exists>s. rfold (\<lambda>i acc. rbind (weighted_height skip vdata c i) (add64 acc)) (air_ids traces) 0 = (Ok s :: (_, 'e) res)"
proof -
  let ?c = "coefficients c"
  let ?x = "\<lambda>i. 2 ^ max (log_height (the (vdata ! i))) skip * ?c ! i"
  have ids: "\<exists>vk v. (i, vk, v) \<in> set traces" if "i \<in> set (air_ids traces)" for i
    using that unfolding air_ids_def by force
  have at: "weighted_height skip vdata c i = (Ok (?x i) :: (_, 'e) res) \<and> ?x i \<le> 2 ^ ls * ?c ! i \<and> i < length ?c"
    if "i \<in> set (air_ids traces)" for i
  proof -
    from ids [OF that] obtain vk v where t: "(i, vk, v) \<in> set traces" by blast
    then have v: "vdata ! i = Some v" "i < length ?c" using match len by (auto simp: traces_match_def)
    have h: "max (log_height v) skip \<le> ls" using heights t skip by auto
    then have "(2::nat) ^ max (log_height v) skip \<le> 2 ^ ls" by (rule power_increasing) simp
    then have le: "2 ^ max (log_height v) skip * ?c ! i \<le> 2 ^ ls * ?c ! i" by (rule mult_le_mono1)
    have "?c ! i \<le> sum_list ?c" using v(2) by (simp add: member_le_sum_list)
    then have "2 ^ ls * ?c ! i \<le> sum_list ?c * 2 ^ ls" by (simp add: mult.commute)
    with le total have "2 ^ max (log_height v) skip * ?c ! i < 2 ^ 64" by linarith
    with le v weighted_height_Ok [OF match t _ len, of skip] h skip show ?thesis by (simp add: mul64_def)
  qed
  have "sum_list (map ?x (air_ids traces)) \<le> sum_list (map (\<lambda>i. 2 ^ ls * ?c ! i) (air_ids traces))"
    using at by (intro sum_list_mono) blast
  also have "\<dots> = 2 ^ ls * sum_list (map ((!) ?c) (air_ids traces))" by (simp add: sum_list_const_mult)
  also have "\<dots> \<le> 2 ^ ls * sum_list ?c" using sum_distinct_le [OF dist, of ?c] at by simp
  finally have "0 + sum_list (map ?x (air_ids traces)) < 2 ^ 64" using total by (simp add: mult.commute)
  then have "rfold (\<lambda>i acc. rbind (weighted_height skip vdata c i) (add64 acc)) (air_ids traces) 0
      = (Ok (0 + sum_list (map ?x (air_ids traces))) :: (_, 'e) res)"
    using at by (intro rfold_add64) blast+
  then show ?thesis ..
qed

lemma check_heights_safe:
  assumes "traces_match keys vdata traces" and "distinct (air_ids traces)" and "skip \<le> ls" "ls < 31"
    and "\<forall>(i, vk, v) \<in> set traces. log_height v \<le> ls"
    and "\<forall>c \<in> set cs. length (coefficients c) = length keys \<and> sum_list (coefficients c) * 2 ^ ls < 2 ^ 64"
  shows "check_heights skip vdata (air_ids traces) cs \<noteq> (Panic :: (unit, 'ef verifier_error) res)"
proof -
  have "rbind (rfold (\<lambda>i acc. rbind (weighted_height skip vdata c i) (add64 acc)) (air_ids traces) 0)
      (\<lambda>sum. ensure_that (sum < threshold c) TraceHeightsTooLarge) \<noteq> (Panic :: (_, 'ef verifier_error) res)" if "c \<in> set cs" for c
    using height_sum_Ok [OF assms(1-5), of c, where 'e = "'ef verifier_error"] assms(6) that by (auto simp: ensure_that_def split: if_splits)
  then show ?thesis unfolding check_heights_def by (intro rall_total)
qed

end
