(* ===== verification/AcceptedRun.thy ===== *)
theory AcceptedRun
  imports VerifierSafety
begin

text \<open>
  One run of the verifier from the key generator to acceptance, evaluated in the kernel: an AIR with one
  column, one constraint and one interaction over the rationals, a transcript whose samples are all zero, and
  the proof whose polynomials are all zero. It shows that the hypotheses of the properties about
  accepted proofs can hold together.
\<close>

definition toy_air :: "(rat, nat) air_keygen" where
  "toy_air = \<lparr>ak_name = ''zero'', ak_is_required = True, ak_prep = None, ak_cached_mains = [], ak_common_main = 1,
     ak_num_public_values = 0, ak_constraints = [(3, Variable (SymbolicVariable (Main 0 0) 0))], ak_interactions = [\<lparr>message = [(4, Variable (SymbolicVariable (Main 0 0) 0))], count = (5, Variable (SymbolicVariable (Main 0 0) 0)), bus_index = 5, count_weight = 2\<rparr>]\<rparr>"

definition toy_params :: "system_params" where
  "toy_params = \<lparr>l_skip = 1, n_stack = 0, w_stack = 8, log_blowup = 0,
     whir = \<lparr>whir_k = 1, whir_rounds = [\<lparr>num_queries = 0\<rparr>], mu_pow_bits = 0, query_phase_pow_bits = 0,
       folding_pow_bits = 0, whir_proximity = UniqueDecoding\<rparr>,
     logup = \<lparr>max_interaction_count = 100, log_max_message_length = 3, logup_pow_bits = 0\<rparr>, max_constraint_degree = 1\<rparr>"

definition toy_tower :: "(rat, rat) field_ext" where
  "toy_tower = \<lparr>fe_ops = \<lparr>f_order = 17, f_as_u64 = (\<lambda>_. 0), f_from_u64 = of_nat, ef_dimension = 1, ef_coefficients = (\<lambda>x. [x]), ef_from_coefficients = hd\<rparr>,
     fe_embed = (\<lambda>x. x), fe_adicity = 1, fe_gen = (\<lambda>l. if l = 0 then 1 else -1), fe_ext_adicity = 1, fe_ext_gen = (\<lambda>l. if l = 0 then 1 else -1)\<rparr>"

definition toy_transcript :: "(nat, rat, nat) transcript_ops" where
  "toy_transcript = \<lparr>t_observe = (\<lambda>s _. Some s), t_sample = (\<lambda>s. Some (0, s)), t_observe_commit = (\<lambda>s _. Some s)\<rparr>"

definition toy_proof :: "(rat, rat, nat) stark_proof" where
  "toy_proof = \<lparr>common_main_commit = 3, proof_trace_vdata = [Some \<lparr>log_height = 1, cached_commitments = []\<rparr>],
     proof_public_values = [[]],
     proof_gkr = \<lparr>logup_pow_witness = 0, q0_claim = 0, claims_per_layer = replicate 2 \<lparr>p_xi_0 = 0, p_xi_1 = 0, q_xi_0 = 0, q_xi_1 = 0\<rparr>, sumcheck_polys = [[(0, 0, 0)]]\<rparr>,
     proof_batch_constraint = \<lparr>numerator_term_per_air = [0], denominator_term_per_air = [0],
       batch_univariate_round_coeffs = [0, 0, 0], batch_sumcheck_round_polys = [], column_openings = [[[0]]]\<rparr>,
     proof_stacking = \<lparr>stacking_univariate_round_coeffs = [0, 0, 0], stacking_sumcheck_round_polys = [],
       stacking_openings = [[0]]\<rparr>,
     proof_whir = \<lparr>mu_pow_witness = 0, whir_sumcheck_polys = [(0, 0)], codeword_commits = [], ood_values = [],
       folding_pow_witnesses = [0], query_phase_pow_witnesses = [0],
       initial_round_opened_rows = [[]], initial_round_merkle_proofs = [[]],
       codeword_opened_values = [], codeword_merkle_proofs = [], final_poly = [0]\<rparr>\<rparr>"

definition toy_vk :: "(rat, nat) stark_verifying_key" where
  "toy_vk = \<lparr>preprocessed_data = None,
     vk_params = \<lparr>vp_width = \<lparr>tw_preprocessed = None, tw_cached_mains = [], tw_common_main = 1\<rparr>, num_public_values = 0, need_rot = False\<rparr>,
     vk_constraints = \<lparr>dag_constraints = \<lparr>dag_nodes = [VariableNode (SymbolicVariable (Main 0 0) 0)], constraint_idx = [0]\<rparr>,
       dag_interactions = [\<lparr>message = [0], count = 0, bus_index = 5, count_weight = 2\<rparr>]\<rparr>,
     vk_max_constraint_degree = 1, is_required = True, unused_variables = []\<rparr>"

definition toy_mvk :: "(rat, nat) multi_stark_vk0" where
  "toy_mvk = \<lparr>mvk_params = toy_params, per_air = [toy_vk], trace_height_constraints = [\<lparr>coefficients = [2], threshold = 17\<rparr>]\<rparr>"

lemma toy_generate: "\<exists>pk. generate_pk (\<lambda>_. 0) (\<lambda>_. []) 17 toy_params [toy_air] = Ok pk \<and> get_vk pk = \<lparr>mvk_inner = toy_mvk, mvk_pre_hash = 0\<rparr>"
  by (simp add: generate_pk_def all_height_constraints_def add_air_weights_def add_interaction_weight_def
      max_message_length_def bump_coefficient_def add32_def toy_params_def get_vk_def get_vk0_def toy_mvk_def toy_vk_def
      air_generate_pk_def toy_air_def air_trace_width_def main_width_def main_widths_def
      build_symbolic_constraints_dag_def add_expr.simps add_interaction_def dag_builder_new_def intern_node_def Let_def
      simplify_mul_def get_const_def is_const_def max_rotation_def find_unused_vars_def mark_present_def mark_cell_def
      max_constraint_degree_of_def max_of_def drop_address_def minimize_constraints_def minimize_step_def is_implied_by_def pre_hash_of_def absent_cells_def)

lemma toy_layout: "stacked_layout_new 1 1 [(1, 1)] = Ok \<lparr>layout_l_skip = 1, layout_height = 2, layout_width = 1,
    sorted_cols = [(0, 0, \<lparr>slice_col_idx = 0, slice_row_idx = 0, slice_log_height = 1\<rparr>)], mat_starts = [0]\<rparr>"
  by (simp add: stacked_layout_new_def place_matrix_def place_column_def max_width_def Let_def slice_len_of_def add64_def)

lemma toy_steps [simp]:
  "vop (sample_ext toy_transcript (fe_ops toy_tower)) = vret 0"
  "vact (\<lambda>s. observe_ext toy_transcript (fe_ops toy_tower) s x) = vret ()"
  "vact (\<lambda>s. t_observe toy_transcript s y) = vret ()"
  "vact (\<lambda>s. t_observe_commit toy_transcript s d) = vret ()"
  "vop (\<lambda>s. check_witness toy_transcript (fe_ops toy_tower) s 0 w) = vret True"
  by (auto simp: fun_eq_iff vop_def vact_def vret_def sample_ext_def observe_ext_def toy_transcript_def toy_tower_def check_witness_def)

lemma toy_binds:
  "vbind (vret x) f = f x" "vlift (Ok y) = vret y" "vbind (vlift (Ok x)) f = f x" "vcheck True e = vret ()" "vassert True = vret ()"
  by (auto simp: fun_eq_iff vbind_def vret_def vlift_def vcheck_def vassert_def ensure_that_def)

definition toy_layout_of :: stacked_layout where
  "toy_layout_of = \<lparr>layout_l_skip = 1, layout_height = 2, layout_width = 1,
    sorted_cols = [(0, 0, \<lparr>slice_col_idx = 0, slice_row_idx = 0, slice_log_height = 1\<rparr>)], mat_starts = [0]\<rparr>"

lemma toy_wf: "wf_mvk toy_mvk"
  by (simp add: wf_mvk_def toy_mvk_def toy_params_def toy_vk_def wf_params_def k_whir_def num_whir_rounds_def num_whir_sumcheck_rounds_def
      log_stacked_height_def num_interactions_def wf_key_def main_width_def wf_dag_def wf_var_def opened_cell_def main_widths_def
      interaction_in_range_def topological_def)

lemma toy_traces: "per_trace toy_mvk toy_proof = [(0, toy_vk, \<lparr>log_height = 1, cached_commitments = []\<rparr>)]"
  by (simp add: per_trace_def toy_mvk_def toy_proof_def map_filter_simps)

lemma toy_shape: "verify_proof_shape toy_mvk toy_proof = Ok [toy_layout_of]"
proof -
  have "\<exists>v. Some v \<in> set (proof_trace_vdata toy_proof)" by (simp add: toy_proof_def)
  moreover have "bit_length 2 = 2" by (simp add: bit_length_def log2_floor.simps)
  then have "well_shaped toy_mvk toy_proof [toy_layout_of]"
    using toy_layout
    by (simp add: well_shaped_def toy_traces Let_def) (simp add: shaped_vdata_def toy_mvk_def toy_proof_def toy_params_def toy_vk_def num_cached_mains_def log_stacked_height_def
        shaped_gkr_def interaction_total_def num_interactions_def shaped_batch_def shaped_parts_def other_widths_def rot_factor_def
        layouts_for_def commit_metas_def common_main_metas_def other_metas_def toy_layout_of_def shaped_stacking_def shaped_whir_def
        k_whir_def num_whir_rounds_def num_whir_sumcheck_rounds_def upt_conv_Cons)
  ultimately show ?thesis using verify_proof_shape_decides [OF toy_wf] by blast
qed

lemma vfor_enum: "vfor f (x # xs) s = vbind (f x s) (vfor f xs)" by simp
lemma vfor_Nil: "vfor f [] = vret" by (simp add: fun_eq_iff)

lemmas toy_defs = toy_proof_def toy_mvk_def toy_params_def toy_vk_def toy_layout_of_def
lemmas toy_eval = toy_binds vfor_Nil vdo_all_def Let_def add64_def sub64_def slice_def num_interactions_def
  lift_n_def upt_conv_Cons

lemma bit_length_2: "bit_length 2 = 2" by (simp add: bit_length_def log2_floor.simps)

lemma toy_n_logup: "calculate_n_logup 1 2 = Ok 1"
  by (simp add: calculate_n_logup_def bit_length_2 log2_ceil_def Let_def sub64_def add64_def)

lemma toy_gkr: "verify_gkr toy_transcript (fe_ops toy_tower) (proof_gkr toy_proof) 2 = vret (0, 0, [0, 0])"
  by (simp add: verify_gkr_def toy_defs toy_eval gkr_round_def verify_gkr_sumcheck_def gkr_subround_def observe_layer_claims_def
    compute_recursive_relations_def reduce_to_single_evaluation_def interpolate_linear_at_01_def interpolate_cubic_at_0123_def
    eval_eq_mle_def)

lemma toy_bit0: "trailing_zeros 0 = 64" "trailing_zeros 4 = 2"
  by (simp_all add: trailing_zeros.simps)

lemma toy_eq_3b: "eq_3b_per_trace toy_tower toy_mvk [0] [0] 1 [0, 0] = Ok [[1]]"
  by (simp add: eq_3b_per_trace_def eq_3b_trace_def eq_3b_interaction_def toy_defs toy_eval toy_bit0 shl64_def eval_eq_mle_def toy_tower_def)

lemma toy_eq_ns: "\<exists>a b. eq_ns toy_tower 1 [1, -1] [0, 0] [0] 0 = (Ok ([a], [b]) :: (_, 'e) res)"
  by (rule exI [of _ "1 / 2"])+
    (simp add: eq_ns_def toy_defs toy_eval eval_eq_sharp_uni_def eval_eq_mle_def scale_by_later_def toy_tower_def
      eq_sharp_other_def eq_sharp_value_def evals_eq_hypercube_serial_def eval_eq_uni_def)

lemma toy_trace: "eval_trace toy_tower toy_mvk [[]] 0 0 [0] [[1]] ([a], [b]) 0 0 0 [[0]] = Ok (0, 0, 0)"
  by (simp add: eval_trace_def toy_defs toy_eval trace_views_def trace_point_def evaluator_new_def two_adic_generator_def shl64_def
    checked_inverse_def column_openings_by_rot_def eval_constraints_def eval_nodes_def eval_interactions_def symbolic_constraints_of_def
    eval_num_denom_def evaluator_of_def ce_eval_var_def toy_tower_def to_symbolic_expressions_def view_at_def)

lemma toy_total: "total_interactions toy_mvk [0] [0] = Ok 2"
  by (simp add: total_interactions_def toy_defs toy_eval shl64_def)

lemma toy_step_by: "step_by 2 [0, 0, 0] = [0, 0 :: rat]" by (simp add: step_by_def div_ceil_def upt_conv_Cons)

lemma vmap_err_vret: "vmap_err g (vret x) = vret x"
  by (simp add: fun_eq_iff vmap_err_def vret_def)

lemma toy_gkr_claims: "gkr_claims toy_transcript (fe_ops toy_tower) (proof_gkr toy_proof) 2 2 0 = vret (0, 0, [0, 0])"
  by (simp add: gkr_claims_def toy_eval toy_gkr vmap_err_vret)

lemma toy_extend: "extend_xi toy_transcript (fe_ops toy_tower) 2 [0, 0] = vret [0, 0]"
  by (simp add: extend_xi_def toy_eval)

lemma toy_two: "gkr_claims T K g 2 (Suc (Suc 0)) a = gkr_claims T K g 2 2 a" "extend_xi T K (Suc (Suc 0)) xi = extend_xi T K 2 xi" by (simp_all add: numeral_2_eq_2)

lemma toy_zerocheck: "verify_zerocheck_and_logup toy_transcript toy_tower toy_mvk [[]] (proof_gkr toy_proof) (proof_batch_constraint toy_proof)
    [0] [0] [1, -1] = vret [0]"
proof -
  obtain a b where "eq_ns toy_tower 1 [1, -1] [0, 0] [0] 0 = (Ok ([a], [b]) :: (_, rat batch_error) res)" using toy_eq_ns by blast
  moreover have "l_skip (mvk_params toy_mvk) = 1" "max_constraint_degree (mvk_params toy_mvk) = 1"
    "logup (mvk_params toy_mvk) = logup toy_params" "per_air toy_mvk = [toy_vk]" "need_rot (vk_params toy_vk) = False"
    "numerator_term_per_air (proof_batch_constraint toy_proof) = [0]" "denominator_term_per_air (proof_batch_constraint toy_proof) = [0]"
    "column_openings (proof_batch_constraint toy_proof) = [[[0]]]" "batch_univariate_round_coeffs (proof_batch_constraint toy_proof) = [0, 0, 0]"
    "logup_pow_bits (logup toy_params) = 0"
    by (simp_all add: toy_defs)
  ultimately show ?thesis
  by (simp add: verify_zerocheck_and_logup_def toy_eval toy_total toy_n_logup [simplified] toy_gkr_claims toy_two toy_extend mul64_def
   subtract_terms_def mu_hash_def univariate_round_def sum_univ_domain_def univariate_degree_def
   final_evaluation_def toy_eq_3b [simplified] observe_common_main_def observe_pairs_def trace_round_def toy_trace [simplified] column_openings_by_rot_def toy_step_by horner_eval_def)
qed

lemma toy_q_coefficients:
  "\<exists>q. q_coefficients toy_tower 1 0 [toy_layout_of] [[0]] [0] [0] 0 [1] [[(0, False)]] = (Ok [[q]] :: (_, 'e) res)"
proof -
  have "\<exists>q. slice_coefficient toy_tower 1 0 [0] [0] 0 [1] (0, False) \<lparr>slice_col_idx = 0, slice_row_idx = 0, slice_log_height = 1\<rparr>
      = (Ok q :: (_, 'e) res)"
    by (simp add: slice_coefficient_def toy_eval eval_eq_mle_def eval_in_uni_def eval_eq_prism_def)
  then show ?thesis by (auto simp: q_coefficients_def layout_coefficients_def toy_layout_of_def toy_eval)
qed

lemma toy_stacked: "verify_stacked_reduction toy_transcript toy_tower (proof_stacking toy_proof) [toy_layout_of] [[False]] 1 0
   [[[0]]] [0] [1, -1] = vret [0]"
proof -
  obtain q where "q_coefficients toy_tower 1 0 [toy_layout_of] [[0]] [0] [0] 0 [1] [[(0, False)]] = (Ok [[q]] :: (_, rat stacked_error) res)"
    using toy_q_coefficients by blast
  moreover have "lambda_indices_per_layout [toy_layout_of] [[False]] = (Ok (1, [[(0, False)]]) :: (_, rat stacked_error) res)"
    by (simp add: lambda_indices_per_layout_def layout_lambdas_def toy_layout_of_def toy_eval)
  moreover have "stacked_claims [[False]] [[[0 :: rat]]] 1 = (Ok [(0, 0)] :: (_, rat stacked_error) res)"
    by (simp add: stacked_claims_def common_claims_def other_claims_def column_openings_by_rot_def)
  moreover have "stacking_univariate_round_coeffs (proof_stacking toy_proof) = [0, 0, 0]" "stacking_openings (proof_stacking toy_proof) = [[0]]"
    by (simp_all add: toy_proof_def)
  ultimately show ?thesis
  by (simp add: verify_stacked_reduction_def toy_eval claims_sum_def observe_openings_def powers_def toy_step_by [unfolded numeral_2_eq_2] horner_eval_def)
qed

definition toy_whir_state :: "(rat, rat) whir_state" where
  "toy_whir_state = \<lparr>ws_claim = 0, ws_log_rs_domain_size = 0, ws_sumcheck_polys = [], ws_folding_pows = [],
     ws_gammas = [0], ws_zs = [[]], ws_z0s = [], ws_alphas = [0]\<rparr>"

lemma toy_whir_round: "whir_round toy_transcript toy_tower h toy_params (proof_whir toy_proof) [3] [1] [1] (0, 0, \<lparr>num_queries = 0\<rparr>)
    \<lparr>ws_claim = 0, ws_log_rs_domain_size = 1, ws_sumcheck_polys = [(0, 0)], ws_folding_pows = [0],
                ws_gammas = [], ws_zs = [], ws_z0s = [], ws_alphas = []\<rparr> = vret toy_whir_state"
proof -
  have "two_adic_generator toy_tower 1 = (Ok (-1) :: (_, verify_whir_error) res)"
    by (simp add: two_adic_generator_def toy_tower_def)
  then show ?thesis
    by (simp add: whir_round_def toy_proof_def toy_params_def toy_eval num_whir_rounds_def k_whir_def whir_fold_round_def
      interpolate_quadratic_at_012_def whir_commit_phase_def toy_whir_state_def)
qed

lemma toy_whir_conclusion: "whir_conclusion toy_tower toy_params (proof_whir toy_proof) [0] toy_whir_state = Ok ()"
  by (simp add: whir_conclusion_def toy_proof_def toy_params_def toy_whir_state_def toy_eval log_final_poly_len_def num_whir_rounds_def num_whir_sumcheck_rounds_def
    k_whir_def log_stacked_height_def whir_final_value_def eval_mobius_eq_mle_def eval_mle_evals_at_point_def final_round_terms_def shl64_def)

lemma toy_whir: "verify_whir toy_transcript toy_tower h toy_params (proof_whir toy_proof) [[0]] [3] [0] = vret ()"
proof -
  have "whir_preconditions toy_params (proof_whir toy_proof) = (Ok () :: (_, verify_whir_error) res)"
    by (simp add: whir_preconditions_def toy_proof_def toy_params_def toy_eval log_final_poly_len_def num_whir_rounds_def num_whir_sumcheck_rounds_def
      k_whir_def log_stacked_height_def)
  moreover have "query_phase_pow_witnesses (proof_whir toy_proof) = [0]" "whir_rounds (whir toy_params) = [\<lparr>num_queries = 0\<rparr>]"
    "mu_pow_bits (whir toy_params) = 0" "log_stacked_height toy_params + log_blowup toy_params = 1"
    "whir_sumcheck_polys (proof_whir toy_proof) = [(0, 0)]" "folding_pow_witnesses (proof_whir toy_proof) = [0]"
    by (simp_all add: toy_proof_def toy_params_def log_stacked_height_def)
  ultimately show ?thesis using toy_whir_round toy_whir_conclusion
  by (simp add: verify_whir_def toy_eval batched_claim_def powers_def)
qed

lemma toy_accepted:
  "verify toy_transcript toy_tower h toy_params \<lparr>mvk_inner = toy_mvk, mvk_pre_hash = 0\<rparr> toy_proof = vret ()"
proof -
  have "sorted_air_ids 1 (proof_trace_vdata toy_proof) 1 = (Ok [0] :: (_, rat verifier_error) res)"
    using sorted_air_ids_Ok [of toy_proof toy_mvk, where 'e = "rat verifier_error"] toy_traces
    by (simp add: toy_proof_def toy_mvk_def air_ids_def)
  moreover have "check_heights 1 (proof_trace_vdata toy_proof) [0] (trace_height_constraints toy_mvk) = (Ok () :: (_, rat verifier_error) res)"
    by (simp add: check_heights_def weighted_height_def present_vdata_def shl_i32_as_u64_def mul64_def toy_proof_def toy_mvk_def toy_eval)
  moreover have "vdo_all (observe_air toy_transcript 1) (zip (proof_trace_vdata toy_proof) (zip [toy_vk] (proof_public_values toy_proof))) = (vret () :: (_, _, rat verifier_error) vm)"
    by (simp add: toy_proof_def toy_vk_def toy_eval observe_air_def observe_vdata_def)
  moreover have "n_per_trace 1 (proof_trace_vdata toy_proof) [0] = (Ok [0] :: (_, rat verifier_error) res)"
    by (simp add: n_per_trace_def toy_proof_def present_vdata_def)
  moreover have "need_rot_per_commit [toy_vk] (proof_trace_vdata toy_proof) [0] = (Ok [[False]] :: (_, rat verifier_error) res)"
    by (simp add: need_rot_per_commit_def need_rot_of_air_def toy_proof_def present_vdata_def toy_vk_def)
  moreover have "rmap (commits_of_air [toy_vk] (proof_trace_vdata toy_proof)) [0] = (Ok [[]] :: (_, rat verifier_error) res)"
    by (simp add: commits_of_air_def toy_proof_def present_vdata_def toy_vk_def)
  moreover have "two_adic_generator toy_tower 1 = (Ok (-1) :: (_, rat verifier_error) res)"
    by (simp add: two_adic_generator_def toy_tower_def)
  moreover have "per_air toy_mvk = [toy_vk]" "mvk_params toy_mvk = toy_params" "l_skip toy_params = 1" "n_stack toy_params = 0"
    "proof_public_values toy_proof = [[]]" "filter (\<lambda>v. \<exists>y. v = Some y) (proof_trace_vdata toy_proof) = [the (Some (hd (proof_trace_vdata toy_proof)))]" "common_main_commit toy_proof = 3"
    "column_openings (proof_batch_constraint toy_proof) = [[[0]]]" "stacking_openings (proof_stacking toy_proof) = [[0]]"
    by (simp_all add: toy_mvk_def toy_params_def toy_proof_def)
  ultimately show ?thesis using toy_zerocheck toy_stacked toy_whir toy_shape
    by (simp add: verify_def toy_eval vmap_err_vret u_cube_of_def shl64_def powers_def)
qed

end
