(* ===== verification/VerifierTop.thy ===== *)
theory VerifierTop
  imports VerifierSafety AcceptedRun
begin

text \<open>
  The top level: \<open>verify\<close> never panics for a generated key, whatever the proof, and what it
  accepts respects the bounds behind the trace height constraints.
\<close>

section \<open>What is known of a key and of the digests of a proof\<close>

definition wf_verifying_key :: "('d \<Rightarrow> bool) \<Rightarrow> ('f, 'd) multi_stark_vk \<Rightarrow> bool" where
  "wf_verifying_key wf_digest vk \<longleftrightarrow>
     (let mvk = mvk_inner vk; p = mvk_params mvk in
      wf_mvk mvk \<and> wf_digest (mvk_pre_hash vk) \<and>
      sum_list (map num_interactions (per_air mvk)) * 2 ^ log_stacked_height p < 2 ^ 63 \<and>
      (\<forall>avk \<in> set (per_air mvk). \<forall>pdata. preprocessed_data avk = Some pdata \<longrightarrow>
         wf_digest (prep_commit pdata) \<and> \<bar>hypercube_dim pdata\<bar> < 2 ^ 62) \<and>
      (\<forall>c \<in> set (trace_height_constraints mvk). length (coefficients c) = length (per_air mvk) \<and>
         sum_list (coefficients c) * 2 ^ log_stacked_height p < 2 ^ 64))"

definition wf_proof_digests :: "('d \<Rightarrow> bool) \<Rightarrow> ('f, 'ef, 'd) stark_proof \<Rightarrow> bool" where
  "wf_proof_digests wf_digest pr \<longleftrightarrow> wf_digest (common_main_commit pr) \<and>
     (\<forall>v. Some v \<in> set (proof_trace_vdata pr) \<longrightarrow> (\<forall>d \<in> set (cached_commitments v). wf_digest d)) \<and>
     (\<forall>d \<in> set (codeword_commits (proof_whir pr)). wf_digest d)"

context verifier_env
begin

section \<open>The preamble\<close>

lemma safe_observe_vdata:
  assumes "length (cached_commitments v) = num_cached_mains avk" and "\<forall>d \<in> set (cached_commitments v). wf_digest d"
    and "num_pvs = num_public_values (vk_params avk)" and "skip < 63"
    and "\<And>pdata. preprocessed_data avk = Some pdata \<Longrightarrow> wf_digest (prep_commit pdata) \<and> \<bar>hypercube_dim pdata\<bar> < 2 ^ 62"
  shows "vsafe inv (observe_vdata T skip avk v num_pvs) (\<lambda>_. True)"
proof -
  have head: "vsafe inv (case preprocessed_data avk of
         Some pdata \<Rightarrow>
           (let lifted = hypercube_dim pdata + int skip in
            vbind (vassert (- (2 ^ 63) \<le> lifted \<and> lifted < 2 ^ 63)) (\<lambda>_.
            vbind (vcheck (nat (lifted mod 2 ^ 64) = log_height v) PreprocessedTraceHeightMismatch) (\<lambda>_.
            v_observe_commit T (prep_commit pdata))))
       | None \<Rightarrow> v_observe T (of_nat (log_height v))) (\<lambda>_. True)"
  proof (cases "preprocessed_data avk")
    case None
    then show ?thesis by (simp add: safe_observe)
  next
    case (Some pdata)
    from assms(5) [OF Some] assms(4) have "- (2 ^ 63) \<le> hypercube_dim pdata + int skip \<and> hypercube_dim pdata + int skip < 2 ^ 63"
      by auto
    with assms(5) [OF Some] show ?thesis
      by (auto simp: Some Let_def intro!: vsafe_assert_bind vsafe_check_bind safe_observe_commit)
  qed
  have cached: "vsafe inv (vdo_all (v_observe_commit T) (cached_commitments v)) (\<lambda>_. True)"
    by (rule vsafe_do_all) (simp add: assms(2) safe_observe_commit)
  show ?thesis
    unfolding observe_vdata_def
    apply (rule vsafe_bind [OF head])
    apply (rule vsafe_assert_bind)
     apply (simp add: assms(1) num_cached_mains_def)
    apply (rule vsafe_bind [OF cached])
    apply (rule vsafe_assert)
    apply (simp add: assms(3))
    done
qed

lemma safe_observe_air:
  assumes "case vdata of None \<Rightarrow> True | Some v \<Rightarrow> length (cached_commitments v) = num_cached_mains avk \<and>
      (\<forall>d \<in> set (cached_commitments v). wf_digest d) \<and> length pvs = num_public_values (vk_params avk)"
    and "skip < 63"
    and "\<And>pdata. preprocessed_data avk = Some pdata \<Longrightarrow> wf_digest (prep_commit pdata) \<and> \<bar>hypercube_dim pdata\<bar> < 2 ^ 62"
  shows "vsafe inv (observe_air T skip (vdata, avk, pvs)) (\<lambda>_. True)"
proof -
  have "vsafe inv (case vdata of Some v \<Rightarrow> observe_vdata T skip avk v (length pvs) | None \<Rightarrow> vret ()) (\<lambda>_. True)"
    using assms by (auto intro!: vsafe_ret safe_observe_vdata split: option.splits)
  note vd = this
  show ?thesis
    unfolding observe_air_def prod.case
    apply (rule vsafe_bind [of _ _ "\<lambda>_. True"])
     apply (simp add: safe_observe vsafe_ret)
    apply (rule vsafe_bind [OF vd])
    apply (rule vsafe_do_all)
    apply (rule safe_observe)
    done
qed

lemma safe_preamble:
  fixes pr :: "('f, 'ef, 'd) stark_proof"
  assumes vk: "wf_verifying_key wf_digest vk" and shape: "shaped_vdata (mvk_inner vk) pr" and digests: "wf_proof_digests wf_digest pr"
  shows "vsafe inv (vdo_all (observe_air T (l_skip (mvk_params (mvk_inner vk))))
     (zip (proof_trace_vdata pr) (zip (per_air (mvk_inner vk)) (proof_public_values pr)))) (\<lambda>_. True)"
proof (rule vsafe_do_all)
  let ?mvk = "mvk_inner vk"
  fix x assume "x \<in> set (zip (proof_trace_vdata pr) (zip (per_air ?mvk) (proof_public_values pr)))"
  then obtain k where k: "k < length (proof_trace_vdata pr)" "k < length (per_air ?mvk)"
    "x = (proof_trace_vdata pr ! k, per_air ?mvk ! k, proof_public_values pr ! k)"
    by (auto simp: in_set_conv_nth)
  then obtain i where i: "i < length (per_air ?mvk)"
    "x = (proof_trace_vdata pr ! i, per_air ?mvk ! i, proof_public_values pr ! i)" "proof_trace_vdata pr ! i \<in> set (proof_trace_vdata pr)"
    using nth_mem by blast
  have "l_skip (mvk_params ?mvk) < 63" using vk by (auto simp: wf_verifying_key_def Let_def wf_mvk_def wf_params_def)
  moreover have "case proof_trace_vdata pr ! i of None \<Rightarrow> True
    | Some v \<Rightarrow> length (cached_commitments v) = num_cached_mains (per_air ?mvk ! i) \<and> (\<forall>d \<in> set (cached_commitments v). wf_digest d) \<and>
        length (proof_public_values pr ! i) = num_public_values (vk_params (per_air ?mvk ! i))"
  proof (cases "proof_trace_vdata pr ! i")
    case (Some v)
    with i(3) have "Some v \<in> set (proof_trace_vdata pr)" by simp
    with digests have "\<forall>d \<in> set (cached_commitments v). wf_digest d" by (auto simp: wf_proof_digests_def)
    with Some shape i(1) show ?thesis by (auto simp: shaped_vdata_def dest!: spec [of _ i])
  qed simp
  moreover have "wf_digest (prep_commit pdata) \<and> \<bar>hypercube_dim pdata\<bar> < 2 ^ 62" if "preprocessed_data (per_air ?mvk ! i) = Some pdata" for pdata
    using vk i(1) that nth_mem [OF i(1)] by (auto simp: wf_verifying_key_def Let_def)
  ultimately show "vsafe inv (observe_air T (l_skip (mvk_params ?mvk)) x) (\<lambda>_. True)"
    unfolding i(2) by (intro safe_observe_air)
qed

section \<open>The whole verifier\<close>

lemma safe_verify:
  fixes pr :: "('f, 'ef, 'd) stark_proof"
  assumes vk: "wf_verifying_key wf_digest vk" and prot: "wf_protocol X (mvk_params (mvk_inner vk))"
    and digests: "wf_proof_digests wf_digest pr"
  shows "vsafe inv (verify T X h config_params vk pr) (\<lambda>_. True)"
proof -
  let ?mvk = "mvk_inner vk"
  let ?p = "mvk_params ?mvk" and ?traces = "per_trace ?mvk pr" and ?vdata = "proof_trace_vdata pr"
  let ?skip = "l_skip ?p" and ?ls = "log_stacked_height ?p"
  have wf: "wf_mvk ?mvk" and params: "wf_params ?p" and hash: "wf_digest (mvk_pre_hash vk)"
    and ints: "sum_list (map num_interactions (per_air ?mvk)) * 2 ^ ?ls < 2 ^ 63"
    and coeffs: "\<forall>c \<in> set (trace_height_constraints ?mvk). length (coefficients c) = length (per_air ?mvk) \<and>
       sum_list (coefficients c) * 2 ^ ?ls < 2 ^ 64"
    using vk by (auto simp: wf_verifying_key_def Let_def wf_mvk_def)
  have small: "?skip \<le> ?ls" "?ls < 31" "?skip \<le> fe_adicity X" "?skip < 64"
    using prot by (auto simp: wf_protocol_def log_stacked_height_def)
  have shape: "vsafe inv (vlift (map_err ProofShapeError (verify_proof_shape ?mvk pr))) (\<lambda>layouts. well_shaped ?mvk pr layouts)"
    if "length (filter (\<lambda>v. v \<noteq> None) ?vdata) \<noteq> 0"
  proof -
    from that have "filter (\<lambda>v. v \<noteq> None) ?vdata \<noteq> []" by simp
    then have "\<exists>v. Some v \<in> set ?vdata" unfolding filter_empty_conv by auto
    from verify_proof_shape_decides [OF wf this] show ?thesis
      by (intro vsafe_lift) (auto simp: map_err_Panic_iff map_err_Ok_iff)
  qed
  have rest: "vsafe inv
      (vbind (vlift (sorted_air_ids (length (per_air ?mvk)) ?vdata (length (filter (\<lambda>v. v \<noteq> None) ?vdata)))) (\<lambda>ids.
      vbind (vlift (check_heights ?skip ?vdata ids (trace_height_constraints ?mvk))) (\<lambda>_.
      vbind (vlift (two_adic_generator X ?skip)) (\<lambda>omega_skip.
      vbind (vlift (shl64 1 ?skip)) (\<lambda>domain_size.
      vbind (v_observe_commit T (mvk_pre_hash vk)) (\<lambda>_.
      vbind (v_observe_commit T (common_main_commit pr)) (\<lambda>_.
      vbind (vdo_all (observe_air T ?skip) (zip ?vdata (zip (per_air ?mvk) (proof_public_values pr)))) (\<lambda>_.
      vbind (vlift (n_per_trace ?skip ?vdata ids)) (\<lambda>ns.
      vbind (vmap_err BatchConstraintError (verify_zerocheck_and_logup T X ?mvk (proof_public_values pr) (proof_gkr pr)
               (proof_batch_constraint pr) ids ns (powers domain_size omega_skip))) (\<lambda>r.
      vbind (vlift (need_rot_per_commit (per_air ?mvk) ?vdata ids)) (\<lambda>rots.
      vbind (vmap_err StackedReductionError (verify_stacked_reduction T X (proof_stacking pr) layouts rots ?skip (n_stack ?p)
               (column_openings (proof_batch_constraint pr)) r (powers domain_size omega_skip))) (\<lambda>u_prism.
      vbind (vlift (u_cube_of ?skip u_prism)) (\<lambda>u_cube.
      vbind (vlift (rmap (commits_of_air (per_air ?mvk) ?vdata) ids)) (\<lambda>commits.
      vmap_err WhirError (verify_whir T X h ?p (proof_whir pr) (stacking_openings (proof_stacking pr))
        (common_main_commit pr # concat commits) u_cube)))))))))))))) :: (unit, 'ts, 'ef verifier_error) vm) (\<lambda>_. True)"
    if some: "length (filter (\<lambda>v. v \<noteq> None) ?vdata) \<noteq> 0" and shaped: "well_shaped ?mvk pr layouts" for layouts
  proof -
    from some have "filter (\<lambda>v. v \<noteq> None) ?vdata \<noteq> []" by simp
    then have ex: "\<exists>v. Some v \<in> set ?vdata" unfolding filter_empty_conv by auto
    have shaped': "shaped_vdata ?mvk pr" "shaped_batch ?p ?traces (proof_batch_constraint pr)" "layouts_for ?p ?traces layouts"
      "shaped_stacking ?p layouts (proof_stacking pr)" "shaped_whir ?p (stacking_openings (proof_stacking pr)) (proof_whir pr)"
      using shaped by (simp_all add: well_shaped_def Let_def)
    have len: "length ?vdata = length (per_air ?mvk)" using shaped'(1) by (simp add: shaped_vdata_def)
    note key = per_trace_of_key [OF shaped'(1) ex]
    note match = per_trace_match [OF shaped'(1) wf]
    have heights: "\<forall>(i, vk, v) \<in> set ?traces. log_height v \<le> ?ls" using key by (auto simp: traces_of_key_def)
    have dist: "distinct (air_ids ?traces)" unfolding air_ids_def by (rule per_trace_order)
    have tot: "interaction_total ?skip ?traces < 2 ^ 63"
    proof -
      have "\<forall>(_, _, v) \<in> set ?traces. log_height v \<le> ?ls" using heights by auto
      from interaction_total_bound [OF refl this] ints show ?thesis by (simp add: log_stacked_height_def)
    qed
    have pvs: "public_values_fit ?traces (proof_public_values pr)"
      unfolding public_values_fit_def
    proof (clarify, intro conjI)
      fix i avk v assume "(i, avk, v) \<in> set ?traces"
      then have m: "i < length (per_air ?mvk)" "per_air ?mvk ! i = avk" "?vdata ! i = Some v" by (simp_all add: per_trace_mem [OF len])
      with shaped'(1) show "i < length (proof_public_values pr)"
        "length (proof_public_values pr ! i) = num_public_values (vk_params avk)"
        by (auto simp: shaped_vdata_def dest!: spec [of _ i])
    qed
    have pows: "length (powers (2 ^ ?skip) (fe_gen X ?skip)) = 2 ^ ?skip" by simp
    obtain cs where cs: "rmap (commits_of_air (per_air ?mvk) ?vdata) (air_ids ?traces) = (Ok cs :: (_, 'ef verifier_error) res)"
      using commits_Ok [OF match] by blast
    have whir_digests: "\<forall>d \<in> set (codeword_commits (proof_whir pr)). wf_digest d" and common: "wf_digest (common_main_commit pr)"
      using digests by (auto simp: wf_proof_digests_def)
    have heights_ok: "vsafe inv (vlift (check_heights ?skip ?vdata (air_ids ?traces) (trace_height_constraints ?mvk)) :: (unit, 'ts, 'ef verifier_error) vm)
        (\<lambda>_. True)"
      by (rule vsafe_lift [OF check_heights_safe [OF match dist small(1,2) heights coeffs]]) simp
    show ?thesis
      apply (rule vsafe_lift_bind [OF sorted_air_ids_Ok [OF len]])
      apply (rule vsafe_bind [OF heights_ok])
      apply (rule vsafe_lift_bind [OF generator_Ok [OF small(3)]])
      apply (rule vsafe_lift_bind [OF shl64_one(2) [OF small(4)]])
      apply (rule vsafe_bind [OF safe_observe_commit [OF hash]])
      apply (rule vsafe_bind [OF safe_observe_commit [OF common]])
      apply (rule vsafe_bind [OF safe_preamble [OF vk shaped'(1) digests]])
      apply (rule vsafe_lift_bind [OF n_per_trace_Ok [OF match]])
      apply (rule vsafe_bind [OF vsafe_map_err [OF safe_zerocheck [OF wf prot refl key tot shaped'(2) pvs]]])
      apply (rule vsafe_lift_bind [OF need_rot_per_commit_Ok [OF match]])
      apply (rule vsafe_bind [OF vsafe_map_err [OF safe_stacked_reduction [OF params prot key shaped'(2-4) _ pows]]])
       apply assumption
      subgoal for _ _ _ _ r u
        apply (cases u)
         apply simp
        subgoal for u0 us
          apply (rule vsafe_lift_bind [of _ "exp_powers_of_2 ?skip u0 @ us"])
           apply (simp add: u_cube_of_def)
          apply (rule vsafe_lift_bind [OF cs])
          apply (rule vsafe_map_err)
          apply (rule safe_verify_whir [OF params prot shaped'(5) whir_digests])
          apply (simp add: log_stacked_height_def)
          done
        done
      done
  qed
  show ?thesis
    unfolding verify_def Let_def
    by (intro vsafe_check_bind vsafe_bind [OF shape] rest)
qed

end

section \<open>Accepted heights\<close>

text \<open>The lifted height of every AIR, zero for an absent trace.\<close>

definition lifted_heights :: "nat \<Rightarrow> 'd trace_vdata option list \<Rightarrow> nat list" where
  "lifted_heights skip vdata = map (\<lambda>v. case v of None \<Rightarrow> 0 | Some v \<Rightarrow> 2 ^ max (log_height v) skip) vdata"

lemma weighted_height_value:
  assumes "weighted_height skip vdata c i = (Ok x :: (_, 'e) res)" and "\<forall>v. Some v \<in> set vdata \<longrightarrow> max (log_height v) skip < 31"
  shows "x = coefficients c ! i * lifted_heights skip vdata ! i"
proof -
  from assms(1) obtain v n where v: "i < length vdata" "vdata ! i = Some v" and n: "shl_i32_as_u64 (max (log_height v) skip) = (Ok n :: (_, 'e) res)"
    and x: "x = n * coefficients c ! i"
    by (auto simp: weighted_height_def present_vdata_def rbind_Ok_iff index_Ok_iff unwrap_Ok_iff mul64_Ok_iff)
  from v have "Some v \<in> set vdata" by (metis nth_mem)
  with assms(2) have "max (log_height v) skip < 31" by blast
  with n have "n = 2 ^ max (log_height v) skip"
    unfolding shl_i32_as_u64_def by (cases "max (log_height v) skip = 31") (simp_all del: max_less_iff_conj)
  with v x show ?thesis by (simp add: lifted_heights_def)
qed

lemma check_heights_satisfies:
  assumes ok: "check_heights skip vdata ids cs = (Ok u :: (_, 'ef verifier_error) res)" and c: "c \<in> set cs" and len: "length (coefficients c) = length vdata"
    and ids: "distinct ids" "set ids = {i. i < length vdata \<and> vdata ! i \<noteq> None}"
    and small: "\<forall>v. Some v \<in> set vdata \<longrightarrow> max (log_height v) skip < 31"
  shows "satisfies (lifted_heights skip vdata) c"
proof -
  let ?ns = "lifted_heights skip vdata" and ?c = "coefficients c"
  have ln: "length ?ns = length vdata" by (simp add: lifted_heights_def)
  from ok c obtain s where s: "rfold (\<lambda>i acc. rbind (weighted_height skip vdata c i) (add64 acc)) ids 0 = (Ok s :: (_, 'ef verifier_error) res)"
    "s < threshold c"
    by (auto simp: check_heights_def rall_Ok_iff rbind_Ok_iff ensure_that_def split: if_splits)
  from rfold_add64_Ok [OF s(1)] obtain xs where xs: "rmap (weighted_height skip vdata c) ids = (Ok xs :: (_, 'ef verifier_error) res)"
    "s = sum_list xs" by auto
  have "xs = map (\<lambda>i. ?c ! i * ?ns ! i) ids"
  proof (rule nth_equalityI)
    show l: "length xs = length (map (\<lambda>i. ?c ! i * ?ns ! i) ids)" using rmap_Ok_length [OF xs(1)] by simp
    fix k assume "k < length xs"
    with l rmap_Ok_nth [OF xs(1), of k] weighted_height_value [OF _ small] show "xs ! k = map (\<lambda>i. ?c ! i * ?ns ! i) ids ! k"
      by fastforce
  qed
  with xs(2) have "s = (\<Sum>i \<in> set ids. ?c ! i * ?ns ! i)" using sum_list_distinct_conv_sum_set [OF ids(1)] by simp
  also have "\<dots> = (\<Sum>i < length vdata. ?c ! i * ?ns ! i)"
    by (rule sum.mono_neutral_left) (auto simp: ids(2) lifted_heights_def)
  also have "\<dots> = sum_list (map2 (*) (map ((!) ?c) [0..<length vdata]) ?ns)" by (rule sum_list_map2_upt [OF ln, symmetric])
  also have "map ((!) ?c) [0..<length vdata] = ?c" using map_nth [of ?c] len by simp
  finally show ?thesis using s(2) by (simp add: satisfies_def)
qed

lemma verify_Ok_heights:
  fixes vk :: "('f::field, 'd) multi_stark_vk" and pr :: "('f, 'ef::field, 'd) stark_proof"
  assumes ok: "verify T X h config_params vk pr ts = Ok r" and c: "c \<in> set (trace_height_constraints (mvk_inner vk))"
    and len: "length (coefficients c) = length (per_air (mvk_inner vk))"
    and small: "log_stacked_height (mvk_params (mvk_inner vk)) < 31"
  shows "satisfies (lifted_heights (l_skip (mvk_params (mvk_inner vk))) (proof_trace_vdata pr)) c"
proof -
  let ?mvk = "mvk_inner vk" and ?vdata = "proof_trace_vdata pr"
  let ?skip = "l_skip (mvk_params ?mvk)"
  from ok obtain layouts ids where shape: "verify_proof_shape ?mvk pr = Ok layouts"
    and ids: "sorted_air_ids (length (per_air ?mvk)) ?vdata (length (filter (\<lambda>v. v \<noteq> None) ?vdata)) = (Ok ids :: (_, 'ef verifier_error) res)"
    and heights: "check_heights ?skip ?vdata ids (trace_height_constraints ?mvk) = (Ok () :: (_, 'ef verifier_error) res)"
    by (cases r) (auto simp: verify_def Let_def vbind_Ok_iff map_err_Ok_iff)
  from shape have "check_vdata ?mvk pr = Ok ()"
    by (auto simp: verify_proof_shape_def Let_def rbind_Ok_iff map_err_Ok_iff)
  then have shaped: "shaped_vdata ?mvk pr" by (simp add: check_vdata_iff)
  then have lens: "length ?vdata = length (per_air ?mvk)" by (simp add: shaped_vdata_def)
  have ids': "ids = air_ids (per_trace ?mvk pr)"
    using ids sorted_air_ids_Ok [OF lens, where 'e = "'ef verifier_error"] by simp
  have "set ids = {i. i < length ?vdata \<and> ?vdata ! i \<noteq> None}"
  proof (rule set_eqI)
    fix i
    have "i \<in> set ids \<longleftrightarrow> (\<exists>vk v. (i, vk, v) \<in> set (per_trace ?mvk pr))"
      unfolding ids' air_ids_def by force
    then show "i \<in> set ids \<longleftrightarrow> i \<in> {i. i < length ?vdata \<and> ?vdata ! i \<noteq> None}"
      by (simp add: per_trace_mem [OF lens] lens)
  qed
  moreover have "distinct ids" unfolding ids' air_ids_def by (rule per_trace_order)
  moreover have "max (log_height v) ?skip < 31" if "Some v \<in> set ?vdata" for v
  proof -
    from that obtain i where "i < length ?vdata" "?vdata ! i = Some v" by (auto simp: in_set_conv_nth)
    with shaped lens have "log_height v \<le> log_stacked_height (mvk_params ?mvk)" by (auto simp: shaped_vdata_def dest!: spec [of _ i])
    with small show ?thesis by (simp add: log_stacked_height_def)
  qed
  ultimately show ?thesis using check_heights_satisfies [OF heights c _ _] len lens by simp
qed

lemma generated_key_lengths:
  assumes "generate_pk hash postcard field_order params airs = Ok pk"
  shows "length (mpk_per_air pk) = length airs"
  using assms by (auto simp: generate_pk_def rbind_Ok_iff Let_def dest: rmap_Ok_length)

section \<open>Properties\<close>

text \<open>C1. The verifier is total: for a well-formed key and a protocol whose parameters fit the field, \<open>verify\<close> accepts or
  returns an error on every proof object, however malformed; no index, slice, shift, arithmetic
  overflow, length assertion or inversion in any of its phases panics.\<close>
theorem verify_never_panics:
  assumes "verifier_env T I wf_digest X" and "I ts" and "wf_verifying_key wf_digest vk"
    and "wf_protocol X (mvk_params (mvk_inner vk))" and "wf_proof_digests wf_digest pr"
  shows "verify T X h config_params vk pr ts \<noteq> Panic"
  by (rule vsafeD [OF verifier_env.safe_verify [OF assms(1,3-5)] assms(2)])

definition total_vk :: "(f17, f17 list) multi_stark_vk" where
  "total_vk = \<lparr>mvk_inner = sample_mvk\<lparr>mvk_params := sample_params\<lparr>log_blowup := 0\<rparr>\<rparr>, mvk_pre_hash = [1, 2]\<rparr>"

theorem verify_never_panics_witness:
  "verify (sponge_ops f17_sponge) f17_tower \<lparr>hash_slice = (\<lambda>xs. xs), compress = (\<lambda>a b. a @ b)\<rparr> sample_params total_vk sample_proof
     (sponge_from f17_sponge) \<noteq> Panic"
proof (rule verify_never_panics [OF f17_env.verifier_env_axioms sponge_inv_from [OF wf_f17_sponge]])
  have "wf_mvk (mvk_inner total_vk)"
    using wf_sample_mvk by (simp add: total_vk_def wf_mvk_def wf_params_def sample_mvk_def sample_params_def log_stacked_height_def
        k_whir_def num_whir_rounds_def num_whir_sumcheck_rounds_def)
  then show "wf_verifying_key (\<lambda>_. True) total_vk"
    by (simp add: wf_verifying_key_def total_vk_def sample_mvk_def sample_vk_def sample_params_def num_interactions_def log_stacked_height_def)
  show "wf_protocol f17_tower (mvk_params (mvk_inner total_vk))"
    using f17_nodes [of 4] by (simp add: wf_protocol_def total_vk_def sample_params_def log_stacked_height_def f17_tower_def grindable_def k_whir_def)
qed (simp add: wf_proof_digests_def)

text \<open>C3. Accepted heights are safe: if the verifier accepts a proof with the key generated for some AIRs, then the
  lifted heights of the traces in it keep the weighted number of interactions on every bus below
  the field order and the total number of interactions below the security limit.\<close>
theorem accepted_heights:
  fixes pr :: "('f::field, 'ef::field, 'd) stark_proof"
  assumes key: "generate_pk hash postcard field_order params airs = Ok pk" and pos: "0 < field_order mod 2 ^ 32"
    and small: "log_stacked_height params < 31"
    and ok: "verify T X h config_params (get_vk pk) pr ts = Ok r"
  shows "(\<forall>b. (\<Sum>a < length airs. air_bus_weight (airs ! a) b * lifted_heights (l_skip params) (proof_trace_vdata pr) ! a)
       < field_order mod 2 ^ 32) \<and>
     (\<Sum>a < length airs. length (ak_interactions (airs ! a)) * lifted_heights (l_skip params) (proof_trace_vdata pr) ! a)
       < max_interaction_count (logup params)"
proof -
  have mvk: "mvk_inner (get_vk pk) = get_vk0 pk" and p: "mpk_params pk = params"
    using key by (auto simp: get_vk_def generate_pk_def rbind_Ok_iff Let_def)
  have len: "length (per_air (get_vk0 pk)) = length airs" by (simp add: get_vk0_def generated_key_lengths [OF key])
  have lv: "length (lifted_heights (l_skip params) (proof_trace_vdata pr)) = length airs"
  proof -
    from ok have "\<exists>layouts. verify_proof_shape (get_vk0 pk) pr = Ok layouts"
      by (cases r) (auto simp: verify_def Let_def vbind_Ok_iff map_err_Ok_iff mvk)
    then have "check_vdata (get_vk0 pk) pr = Ok ()" by (auto simp: verify_proof_shape_def Let_def rbind_Ok_iff map_err_Ok_iff)
    then have "shaped_vdata (get_vk0 pk) pr" by (simp add: check_vdata_iff)
    then show ?thesis by (simp add: shaped_vdata_def lifted_heights_def len)
  qed
  note gen = generated_constraints [OF key lv pos]
  have "satisfies (lifted_heights (l_skip params) (proof_trace_vdata pr)) c" if c: "c \<in> set (mpk_trace_height_constraints pk)" for c
  proof -
    have "length (coefficients c) = length airs" using gen c by (auto simp: same_length_def)
    with verify_Ok_heights [OF ok, of c] c small show ?thesis by (simp add: mvk len) (simp add: get_vk0_def p)
  qed
  with gen show ?thesis by blast
qed

theorem accepted_heights_witness:
  "\<exists>pk. generate_pk (\<lambda>_. 0) (\<lambda>_. []) 17 toy_params [toy_air] = Ok pk \<and>
     (\<Sum>a < length [toy_air]. air_bus_weight ([toy_air] ! a) 5 * lifted_heights 1 (proof_trace_vdata toy_proof) ! a) < 17 mod 2 ^ 32"
proof -
  obtain pk where pk: "generate_pk (\<lambda>_. 0) (\<lambda>_. []) 17 toy_params [toy_air] = Ok pk"
    "get_vk pk = \<lparr>mvk_inner = toy_mvk, mvk_pre_hash = 0\<rparr>"
    using toy_generate by blast
  have ok: "verify toy_transcript toy_tower h toy_params (get_vk pk) toy_proof 0 = Ok ((), 0)"
    unfolding pk(2) toy_accepted by (simp add: vret_def)
  have "(\<Sum>a < length [toy_air]. air_bus_weight ([toy_air] ! a) 5 * lifted_heights (l_skip toy_params) (proof_trace_vdata toy_proof) ! a) < 17 mod 2 ^ 32"
    using accepted_heights [OF pk(1) _ _ ok] by (simp add: toy_params_def log_stacked_height_def)
  with pk(1) show ?thesis by (auto simp: toy_params_def)
qed

end
