(* ===== verification/MlePoly.thy ===== *)
theory MlePoly
  imports BinaryFold StackedLayout
begin

text \<open>
  Multilinear polynomials of the prover (\<open>prover/poly.rs\<close>): the in-place transforms between
  the coefficients of a multilinear polynomial and its values on the cube, the two evaluation routines and the
  tables of the kernels. The table of the Moebius kernel turns the sum over the cube that WHIR checks into
  the value at the opening point.
\<close>

section \<open>The code\<close>

text \<open>One layer of a butterfly on the cube, as a parallel loop over the chunks.\<close>

definition cube_layer :: "('a \<Rightarrow> 'a \<Rightarrow> 'a) \<Rightarrow> nat \<Rightarrow> 'a list \<Rightarrow> 'a list" where
  "cube_layer f step a =
     concat (map (\<lambda>chunk. take step chunk @ map2 f (take step chunk) (drop step chunk)) (chunks (2 * step) a))"

definition evals_to_coeffs_inplace :: "'a::field list \<Rightarrow> ('a list, 'e) res" where
  "evals_to_coeffs_inplace a =
     rbind (log2_strict (length a)) (\<lambda>n.
     Ok (fold (\<lambda>log_step. cube_layer (\<lambda>u v. v - u) (2 ^ log_step)) [0..<n] a))"

text \<open>The same loop nest with indices: \<open>a[v] += a[u]\<close>.\<close>

definition add_entry :: "nat \<Rightarrow> nat \<Rightarrow> 'a::field list \<Rightarrow> ('a list, 'e) res" where
  "add_entry u v a = rbind (index a u) (\<lambda>x. rbind (index a v) (\<lambda>y. Ok (a[v := y + x])))"

definition coeffs_to_evals_layer :: "nat \<Rightarrow> 'a::field list \<Rightarrow> ('a list, 'e) res" where
  "coeffs_to_evals_layer b a =
     (let step = 2 ^ b; span = 2 * step in
      rfold (\<lambda>k. let i = k * span in rfold (\<lambda>j. add_entry (i + j) (i + j + step)) [0..<step])
        [0..<div_ceil (length a) span] a)"

definition coeffs_to_evals_inplace :: "'a::field list \<Rightarrow> ('a list, 'e) res" where
  "coeffs_to_evals_inplace a =
     rbind (log2_strict (length a)) (\<lambda>n. rfold coeffs_to_evals_layer [0..<n] a)"

definition mle_from_evaluations :: "'a::field list \<Rightarrow> ('a list, 'e) res" where
  "mle_from_evaluations evals = rbind (assert_that (evals \<noteq> [])) (\<lambda>_. evals_to_coeffs_inplace evals)"

definition mle_eval_at_point :: "('f \<Rightarrow> 'ef::field) \<Rightarrow> 'f list \<Rightarrow> 'ef list \<Rightarrow> ('ef, 'e) res" where
  "mle_eval_at_point emb coeffs x =
     rbind (log2_strict (length coeffs)) (\<lambda>n.
     rbind (assert_that (n = length x)) (\<lambda>_.
     Ok (fold (\<lambda>(i, coeff) res. res + fold (\<lambda>(j, x_j) term. if odd (i div 2 ^ j) then term * x_j else term) (enumerated x) (emb coeff))
           (enumerated coeffs) 0)))"

definition eval_at_point_inplace :: "('f2 \<Rightarrow> 'f::field) \<Rightarrow> 'f list \<Rightarrow> 'f2 list \<Rightarrow> ('f, 'e) res" where
  "eval_at_point_inplace emb coeffs x =
     rbind (assert_that (length coeffs = 2 ^ length x)) (\<lambda>_.
     let (_, buf) = fold (\<lambda>x_j (len, buf). let len = len div 2 in
           (len, map2 (\<lambda>l r. l + r * emb x_j) (take len buf) (drop len buf) @ drop len buf)) (rev x) (2 ^ length x, coeffs)
     in index buf 0)"

text \<open>The vectors are filled from the front: after \<open>i\<close> coordinates their first \<open>2 ^ i\<close> entries are these lists.\<close>

definition evals_eq_hypercube :: "'a::field list \<Rightarrow> 'a list" where
  "evals_eq_hypercube x = fold (\<lambda>x_i out. map (\<lambda>lo. lo * (1 - x_i)) out @ map (\<lambda>lo. lo * x_i) out) x [1]"

definition evals_mobius_eq_hypercube :: "'a::field list \<Rightarrow> 'a list" where
  "evals_mobius_eq_hypercube u_tilde =
     fold (\<lambda>u_i out. map (\<lambda>prev. prev * (1 - 2 * u_i)) out @ map (\<lambda>prev. prev * u_i) out) u_tilde [1]"

section \<open>Layers\<close>

lemma chunks_append: "0 < n \<Longrightarrow> n dvd length xs \<Longrightarrow> chunks n (xs @ ys) = chunks n xs @ chunks n ys"
proof (induction n xs rule: chunks.induct)
  case (1 n xs)
  show ?case
  proof (cases "xs = []")
    case False
    then have "n \<le> length xs" using 1(3) by (auto dest: dvd_imp_le)
    moreover have "n dvd length (drop n xs)" using 1(3) by (simp add: dvd_diff_nat)
    ultimately show ?thesis
      using 1(1) 1(2) False by (simp add: chunks.simps [of n "xs @ ys"] chunks.simps [of n xs])
  qed (simp add: chunks.simps)
qed

lemma chunks_whole: "0 < n \<Longrightarrow> length xs = n \<Longrightarrow> chunks n xs = [xs]"
  using chunks_exact [of n xs 1] by simp

lemma cube_layer_append:
  "0 < step \<Longrightarrow> 2 * step dvd length lo \<Longrightarrow> cube_layer f step (lo @ hi) = cube_layer f step lo @ cube_layer f step hi"
  by (simp add: cube_layer_def chunks_append)

lemma chunks_length: "n dvd length xs \<Longrightarrow> c \<in> set (chunks n xs) \<Longrightarrow> length c = n"
proof (induction n xs rule: chunks.induct)
  case (1 n xs)
  show ?case
  proof (cases "n = 0 \<or> xs = []")
    case False
    then have "n \<le> length xs" using 1(2) by (auto dest: dvd_imp_le)
    moreover have "n dvd length (drop n xs)" using 1(2) by (simp add: dvd_diff_nat)
    ultimately show ?thesis using 1(1) 1(3) False by (auto simp: chunks.simps [of n xs])
  qed (use 1(3) in \<open>simp add: chunks.simps\<close>)
qed

lemma length_cube_layer:
  assumes "0 < step" and "2 * step dvd length a"
  shows "length (cube_layer f step a) = length a"
proof -
  have c: "\<forall>c \<in> set (chunks (2 * step) a). length c = 2 * step" using chunks_length [OF assms(2)] by blast
  then have "\<forall>c \<in> set (map (\<lambda>chunk. take step chunk @ map2 f (take step chunk) (drop step chunk)) (chunks (2 * step) a)). length c = 2 * step"
    by auto
  from length_concat_blocks [OF this] length_concat_blocks [OF c] concat_chunks [of "2 * step" a] assms(1)
  show ?thesis by (simp add: cube_layer_def)
qed

text \<open>All layers up to the size of the list, by its halves.\<close>

definition cube_layers :: "('a \<Rightarrow> 'a \<Rightarrow> 'a) \<Rightarrow> nat \<Rightarrow> 'a list \<Rightarrow> 'a list" where
  "cube_layers f n = fold (\<lambda>k. cube_layer f (2 ^ k)) [0..<n]"

lemma cube_layers_step [simp]: "cube_layers f 0 a = a" "cube_layers f (Suc n) a = cube_layer f (2 ^ n) (cube_layers f n a)"
  by (simp_all add: cube_layers_def)

lemma dvd_power_Suc: "k \<le> n \<Longrightarrow> 2 * 2 ^ k dvd (2 :: nat) ^ Suc n"
  by (simp flip: power_Suc add: le_imp_power_dvd)

lemma cube_layers_shape:
  "n \<le> m \<Longrightarrow> 2 ^ m dvd length a \<Longrightarrow> length (cube_layers f n a) = length a"
proof (induction n)
  case (Suc n)
  have "2 * 2 ^ n dvd (2 :: nat) ^ m" using Suc.prems(1) by (simp flip: power_Suc add: le_imp_power_dvd)
  with Suc show ?case by (simp add: length_cube_layer dvd_trans)
qed simp

lemma cube_layers_append:
  "n \<le> m \<Longrightarrow> 2 ^ m dvd length lo \<Longrightarrow> cube_layers f n (lo @ hi) = cube_layers f n lo @ cube_layers f n hi"
proof (induction n)
  case (Suc n)
  have "2 * 2 ^ n dvd (2 :: nat) ^ m" using Suc.prems(1) by (simp flip: power_Suc add: le_imp_power_dvd)
  moreover have "length (cube_layers f n lo) = length lo" using Suc.prems by (intro cube_layers_shape) simp_all
  ultimately show ?case using Suc by (simp add: cube_layer_append dvd_trans)
qed simp

lemma cube_layers_halves:
  assumes "length lo = 2 ^ n" and "length hi = 2 ^ n"
  shows "cube_layers f (Suc n) (lo @ hi) = cube_layers f n lo @ map2 f (cube_layers f n lo) (cube_layers f n hi)"
proof -
  have l: "length (cube_layers f n lo) = 2 ^ n" "length (cube_layers f n hi) = 2 ^ n"
    using assms by (simp_all add: cube_layers_shape [of n n])
  then have "chunks (2 * 2 ^ n) (cube_layers f n lo @ cube_layers f n hi) = [cube_layers f n lo @ cube_layers f n hi]"
    by (intro chunks_whole) simp_all
  with l show ?thesis by (simp add: cube_layers_append [of n n] assms cube_layer_def)
qed

lemma length_cube_layers [simp]: "length a = 2 ^ n \<Longrightarrow> length (cube_layers f n a) = 2 ^ n"
  using cube_layers_shape [of n n a] by simp

text \<open>Induction over lists of length \<open>2 ^ n\<close> by halves.\<close>

lemma halves_induct [consumes 1, case_names one halves]:
  assumes len: "length a = 2 ^ n" and one: "\<And>x. P 0 [x]"
    and step: "\<And>n lo hi. length lo = 2 ^ n \<Longrightarrow> length hi = 2 ^ n \<Longrightarrow> P n lo \<Longrightarrow> P n hi \<Longrightarrow> P (Suc n) (lo @ hi)"
  shows "P n a"
  using len
proof (induction n arbitrary: a)
  case 0
  then obtain x where "a = [x]" by (auto simp: length_Suc_conv)
  then show ?case by (simp add: one)
next
  case (Suc n)
  then have "length (take (2 ^ n) a) = 2 ^ n" "length (drop (2 ^ n) a) = 2 ^ n" by simp_all
  from step [OF this Suc.IH [OF this(1)] Suc.IH [OF this(2)]] show ?case by simp
qed

section \<open>The two transforms\<close>

abbreviation "to_coeffs \<equiv> cube_layers (\<lambda>u v. v - u :: 'a::field)"
abbreviation "to_evals \<equiv> cube_layers (\<lambda>u v. v + u :: 'a::field)"

lemma evals_to_coeffs_Ok: "length a = 2 ^ n \<Longrightarrow> evals_to_coeffs_inplace a = Ok (to_coeffs n a)"
  by (simp add: evals_to_coeffs_inplace_def cube_layers_def)

lemma add_entries:
  assumes "length lo = step" and "length hi = step"
  shows "m \<le> step \<Longrightarrow> rfold (\<lambda>j. add_entry (length pre + j) (length pre + j + step)) [0..<m] (pre @ lo @ hi @ post)
     = (Ok (pre @ lo @ map2 (\<lambda>u v. v + u) (take m lo) (take m hi) @ drop m hi @ post) :: (_, 'e) res)"
proof (induction m)
  case (Suc m)
  define hi' where "hi' = map2 (\<lambda>u v. v + u) (take m lo) (take m hi)"
  have m: "m < step" "length hi' = m" using Suc.prems assms by (simp_all add: hi'_def)
  have d: "drop m hi = hi ! m # drop (Suc m) hi" using m(1) assms(2) by (simp add: Cons_nth_drop_Suc)
  have "add_entry (length pre + m) (length pre + m + step) (pre @ lo @ hi' @ drop m hi @ post)
      = (Ok (pre @ lo @ (hi' @ [hi ! m + lo ! m]) @ drop (Suc m) hi @ post) :: (_, 'e) res)"
    using m assms by (simp add: add_entry_def nth_append list_update_append d add.commute)
  moreover have "hi' @ [hi ! m + lo ! m] = map2 (\<lambda>u v. v + u) (take (Suc m) lo) (take (Suc m) hi)"
    using m(1) assms by (simp add: hi'_def take_Suc_conv_app_nth)
  ultimately show ?case using Suc m(1) by (simp add: rfold_append hi'_def)
qed simp


lemma div_ceil_exact: "0 < b \<Longrightarrow> div_ceil (m * b) b = m"
  using div_mult_self1 [of b "b - 1" m] by (simp add: div_ceil_def add.commute mult.commute)

lemma add_blocks:
  assumes "length lo = step" and "length hi = step"
  shows "rfold (\<lambda>j. add_entry (length pre + j) (length pre + j + step)) [0..<step] (pre @ (lo @ hi) @ post)
     = (Ok (pre @ (lo @ map2 (\<lambda>u v. v + u) lo hi) @ post) :: (_, 'e) res)"
  using add_entries [OF assms order_refl, of pre post, where 'e = 'e] assms by simp

lemma coeffs_to_evals_layer_Ok:
  fixes a :: "'a::field list"
  assumes "2 ^ Suc b dvd length a"
  shows "coeffs_to_evals_layer b a = (Ok (cube_layer (\<lambda>u v. v + u) (2 ^ b) a) :: (_, 'e) res)"
proof -
  define step where "step = (2 :: nat) ^ b"
  let ?g = "\<lambda>chunk. take step chunk @ map2 (\<lambda>u v. v + u) (take step chunk) (drop step chunk)"
  have pos: "0 < step" by (simp add: step_def)
  obtain m where m: "length a = 2 ^ Suc b * m" using assms by (auto elim: dvdE)
  define cs where "cs = chunks (2 * step) a"
  have c: "\<forall>c \<in> set cs. length c = 2 * step"
    using chunks_length [of "2 * step" a] assms by (simp add: cs_def step_def)
  have cc: "concat cs = a" using pos by (simp add: cs_def concat_chunks)
  have lc: "length cs = m" using length_concat_blocks [OF c] cc m pos by (simp add: step_def)
  have run: "k \<le> m \<Longrightarrow> rfold (\<lambda>k. rfold (\<lambda>j. add_entry (k * (2 * step) + j) (k * (2 * step) + j + step)) [0..<step]) [0..<k] a
      = (Ok (concat (map ?g (take k cs)) @ concat (drop k cs)) :: (_, 'e) res)" for k
  proof (induction k)
    case 0
    then show ?case by (simp add: cc)
  next
    case (Suc k)
    define pre where "pre = concat (map ?g (take k cs))"
    have k: "k < length cs" using Suc.prems by (simp add: lc)
    then have lk: "length (cs ! k) = 2 * step" using c by simp
    have "\<forall>c \<in> set (map ?g (take k cs)). length c = 2 * step" using c by (auto dest: in_set_takeD)
    from length_concat_blocks [OF this] k have lp: "length pre = k * (2 * step)" by (simp add: pre_def)
    have "concat (drop k cs) = (take step (cs ! k) @ drop step (cs ! k)) @ concat (drop (Suc k) cs)"
      using k by (simp add: Cons_nth_drop_Suc [symmetric])
    moreover have "rfold (\<lambda>j. add_entry (k * (2 * step) + j) (k * (2 * step) + j + step)) [0..<step]
        (pre @ (take step (cs ! k) @ drop step (cs ! k)) @ concat (drop (Suc k) cs))
      = (Ok (pre @ ?g (cs ! k) @ concat (drop (Suc k) cs)) :: (_, 'e) res)"
      using add_blocks [of "take step (cs ! k)" step "drop step (cs ! k)" pre "concat (drop (Suc k) cs)", where 'e = 'e] lk
      unfolding lp by simp
    moreover have "concat (map ?g (take (Suc k) cs)) = pre @ ?g (cs ! k)"
      using k by (simp add: pre_def take_Suc_conv_app_nth)
    ultimately show ?case
      using Suc by (simp add: rfold_append pre_def [symmetric])
  qed
  have "div_ceil (length a) (2 * step) = m"
    using m pos div_ceil_exact [of "2 * step" m] by (simp add: step_def mult.commute)
  with run [of m] show ?thesis
    unfolding coeffs_to_evals_layer_def Let_def step_def [symmetric] cube_layer_def cs_def [symmetric] by (simp add: lc [symmetric])
qed

lemma coeffs_to_evals_Ok:
  assumes "length a = 2 ^ n"
  shows "coeffs_to_evals_inplace a = (Ok (to_evals n a) :: (_, 'e) res)"
proof -
  have "m \<le> n \<Longrightarrow> rfold coeffs_to_evals_layer [0..<m] a = (Ok (to_evals m a) :: (_, 'e) res)" for m
  proof (induction m)
    case (Suc m)
    have "length (to_evals m a) = 2 ^ n" using Suc.prems assms by (simp add: cube_layers_shape [of m n])
    moreover have "2 ^ Suc m dvd (2 :: nat) ^ n" using Suc.prems by (intro le_imp_power_dvd)
    ultimately show ?case using Suc by (simp add: rfold_append coeffs_to_evals_layer_Ok)
  qed simp
  then show ?thesis by (simp add: coeffs_to_evals_inplace_def assms)
qed

lemma map2_inverse:
  "(\<And>u v. g u (f u v) = v) \<Longrightarrow> length xs = length ys \<Longrightarrow> map2 g xs (map2 f xs ys) = ys"
  by (induction xs ys rule: list_induct2') auto

lemma map2_append_split:
  "length as = length bs \<Longrightarrow> map2 f (as @ cs) (bs @ ds) = map2 f as bs @ map2 f cs ds"
  by simp

lemma map2_medial:
  "(\<And>u v w z. f (h u v) (h w z) = h (f u w) (f v z)) \<Longrightarrow>
     map2 f (map2 h as bs) (map2 h cs ds) = map2 h (map2 f as cs) (map2 f bs ds)"
proof (induction as arbitrary: bs cs ds)
  case (Cons u as)
  then show ?case by (cases bs; cases cs; cases ds) simp_all
qed simp

lemma cube_layers_map2:
  assumes medial: "\<And>u v w z. f (h u v) (h w z) = h (f u w) (f v z)"
  shows "length a = 2 ^ n \<Longrightarrow> length b = 2 ^ n \<Longrightarrow> cube_layers f n (map2 h a b) = map2 h (cube_layers f n a) (cube_layers f n b)"
proof (induction n arbitrary: a b)
  case (Suc n)
  define a1 a2 b1 b2 where "a1 = take (2 ^ n) a" and "a2 = drop (2 ^ n) a" and "b1 = take (2 ^ n) b" and "b2 = drop (2 ^ n) b"
  have l: "length a1 = 2 ^ n" "length a2 = 2 ^ n" "length b1 = 2 ^ n" "length b2 = 2 ^ n" and e: "a = a1 @ a2" "b = b1 @ b2"
    using Suc.prems by (simp_all add: a1_def a2_def b1_def b2_def)
  show ?case unfolding e
    using l by (simp add: cube_layers_halves Suc.IH map2_medial [of f h, OF medial] del: cube_layers_step)
qed simp

lemma cube_layers_inverse:
  assumes inv: "\<And>u v. g u (f u v) = v" and medial: "\<And>u v w z. g (f u v) (f w z) = f (g u w) (g v z)" and len: "length a = 2 ^ n"
  shows "cube_layers g n (cube_layers f n a) = a"
  using len
proof (induction rule: halves_induct)
  case (halves n lo hi)
  then show ?case by (simp add: cube_layers_halves cube_layers_map2 [of g f, OF medial] map2_inverse inv del: cube_layers_step)
qed simp

lemma to_evals_to_coeffs [simp]: "length a = 2 ^ n \<Longrightarrow> to_evals n (to_coeffs n a) = a"
  by (rule cube_layers_inverse) simp_all

lemma to_coeffs_to_evals [simp]: "length a = 2 ^ n \<Longrightarrow> to_coeffs n (to_evals n a) = a"
  by (rule cube_layers_inverse) simp_all

section \<open>Evaluating coefficients\<close>

text \<open>The polynomial with these coefficients, one variable folded after the other.\<close>

definition mle_coeff :: "'a::field list \<Rightarrow> 'a list \<Rightarrow> 'a" where
  "mle_coeff c x = hd (fold fold_even_odd x c)"

lemma fold_even_odd_append:
  "even (length lo) \<Longrightarrow> fold_even_odd a (lo @ hi) = fold_even_odd a lo @ fold_even_odd a hi"
  by (induction a lo rule: fold_even_odd.induct) auto

lemma length_fold_even_odd: "length (fold_even_odd a c) = (length c + 1) div 2"
  by (induction a c rule: fold_even_odd.induct) auto

lemma fold_even_odds_append:
  "length lo = 2 ^ length x * m \<Longrightarrow> fold fold_even_odd x (lo @ hi) = fold fold_even_odd x lo @ fold fold_even_odd x hi"
  by (induction x arbitrary: lo hi) (simp_all add: fold_even_odd_append length_fold_even_odd)

lemma length_fold_even_odds: "length c = 2 ^ length x * m \<Longrightarrow> length (fold fold_even_odd x c) = m"
  by (induction x arbitrary: c) (simp_all add: length_fold_even_odd)

lemma fold_even_odds_single: "length c = 2 ^ length x \<Longrightarrow> fold fold_even_odd x c = [mle_coeff c x]"
  using length_fold_even_odds [of c x 1] by (simp add: mle_coeff_def) (metis list.sel(1) length_0_conv length_Suc_conv One_nat_def)

lemma mle_coeff_halves:
  assumes "length lo = 2 ^ length x" and "length hi = 2 ^ length x"
  shows "mle_coeff (lo @ hi) (x @ [a]) = mle_coeff lo x + a * mle_coeff hi x"
  using fold_even_odds_append [of lo x 1 hi] assms
  by (simp add: mle_coeff_def [of _ "x @ [a]"] fold_even_odds_single)

lemma mle_coeff_Nil [simp]: "mle_coeff [c] [] = c"
  by (simp add: mle_coeff_def)

text \<open>Induction over points and the halves of a vector.\<close>

lemma point_induct [consumes 1, case_names one halves]:
  assumes len: "length c = 2 ^ length x" and one: "\<And>c. P [c] []"
    and step: "\<And>x a lo hi. length lo = 2 ^ length x \<Longrightarrow> length hi = 2 ^ length x \<Longrightarrow> P lo x \<Longrightarrow> P hi x \<Longrightarrow> P (lo @ hi) (x @ [a])"
  shows "P c x"
  using len
proof (induction x arbitrary: c rule: rev_induct)
  case Nil
  then obtain v where "c = [v]" by (auto simp: length_Suc_conv)
  then show ?case by (simp add: one)
next
  case (snoc a x)
  then have "length (take (2 ^ length x) c) = 2 ^ length x" "length (drop (2 ^ length x) c) = 2 ^ length x" by simp_all
  from step [OF this snoc.IH [OF this(1)] snoc.IH [OF this(2)]] show ?case by simp
qed

lemma mle_sum_halves:
  assumes "length lo = 2 ^ length x" and "length hi = 2 ^ length x"
  shows "mle_sum (lo @ hi) (x @ [a]) = mle_sum lo x * (1 - a) + mle_sum hi x * a"
proof -
  have len: "length (lo @ hi) = 2 * 2 ^ length x" using assms by simp
  have "mle_sum (lo @ hi) (x @ [a]) = mle_sum (mle_fold a (lo @ hi)) x" by (rule mle_sum_snoc) (use assms in simp)
  also have "\<dots> = (\<Sum>i < 2 ^ length x. (lo ! i * (1 - a) + hi ! i * a) * eq_mle_value x (cube_point (length x) i))"
    unfolding mle_sum_def by (rule sum.cong) (use assms in \<open>simp_all add: mle_fold_nth [OF len] nth_append\<close>)
  finally show ?thesis unfolding mle_sum_def distrib_right sum.distrib sum_distrib_right by (simp only: mult_ac)
qed

lemma mle_sum_add:
  assumes "length xs = 2 ^ length x" and "length ys = 2 ^ length x"
  shows "mle_sum (map2 (\<lambda>u v. v + u) xs ys) x = mle_sum ys x + mle_sum xs x"
  using assms by (simp add: mle_sum_def distrib_right sum.distrib)

text \<open>The polynomial of a coefficient vector is the extension of its evaluations.\<close>

lemma mle_sum_to_evals:
  "length c = 2 ^ length x \<Longrightarrow> mle_sum (to_evals (length x) c) x = mle_coeff c x"
proof (induction rule: point_induct)
  case (one c)
  then show ?case by (simp add: mle_sum_def)
next
  case (halves x a lo hi)
  then show ?case
    by (simp add: cube_layers_halves mle_sum_halves mle_sum_add mle_coeff_halves del: cube_layers_step) (simp add: algebra_simps)
qed


subsection \<open>The two evaluation routines\<close>

lemma fold_add_enumerated:
  "fold (\<lambda>(i, c) res. res + g i c) (enumerated cs) a = a + (\<Sum>i < length cs. g i (cs ! i) :: 'a::comm_ring_1)"
proof (induction cs rule: rev_induct)
  case (snoc c cs)
  then show ?case by (simp add: nth_append add.assoc)
qed simp

text \<open>The monomial of a coefficient.\<close>

definition monomial :: "nat \<Rightarrow> 'a::field list \<Rightarrow> 'a" where
  "monomial i x = (\<Prod>j < length x. if odd (i div 2 ^ j) then x ! j else 1)"

lemma fold_monomial:
  "fold (\<lambda>(j, x_j) term. if odd (i div 2 ^ j) then term * x_j else term) (enumerated x) c = c * monomial i x"
proof (induction x rule: rev_induct)
  case (snoc a x)
  have "(\<Prod>j < length x. if odd (i div 2 ^ j) then (x @ [a]) ! j else 1) = monomial i x"
    unfolding monomial_def by (intro prod.cong) (auto simp: nth_append)
  with snoc show ?case by (simp add: monomial_def [of i "x @ [a]"] mult.assoc)
qed (simp add: monomial_def)

lemma monomial_snoc: "monomial i (x @ [a]) = monomial i x * (if odd (i div 2 ^ length x) then a else 1)"
  using fold_monomial [of i "x @ [a]" 1] fold_monomial [of i x 1] by (auto split: if_splits)

lemma monomial_add_high: "monomial (2 ^ length x + i) x = monomial i x"
proof -
  have "odd ((2 ^ length x + i) div 2 ^ j) \<longleftrightarrow> odd (i div 2 ^ j)" if "j < length x" for j
  proof -
    have "(2 :: nat) ^ length x = 2 * 2 ^ (length x - Suc j) * 2 ^ j"
      using that by (simp flip: power_add power_Suc)
    then have "(2 ^ length x + i) div 2 ^ j = 2 * 2 ^ (length x - Suc j) + i div 2 ^ j" by simp
    then show ?thesis by simp
  qed
  then show ?thesis unfolding monomial_def by (intro prod.cong) auto
qed

lemma mle_coeff_sum: "length c = 2 ^ length x \<Longrightarrow> mle_coeff c x = (\<Sum>i < 2 ^ length x. c ! i * monomial i x)"
proof (induction rule: point_induct)
  case (one c)
  then show ?case by (simp add: monomial_def)
next
  case (halves x a lo hi)
  have lo: "(lo @ hi) ! i * monomial i (x @ [a]) = lo ! i * monomial i x" if "i < 2 ^ length x" for i
    using that halves(1) by (simp add: nth_append monomial_snoc)
  have hi: "(lo @ hi) ! (2 ^ length x + i) * monomial (2 ^ length x + i) (x @ [a]) = a * (hi ! i * monomial i x)"
    if "i < 2 ^ length x" for i
    using that halves(1) by (simp add: nth_append monomial_snoc monomial_add_high)
  have "(\<Sum>i < 2 ^ length (x @ [a]). (lo @ hi) ! i * monomial i (x @ [a])) = mle_coeff lo x + a * mle_coeff hi x"
    unfolding length_append_singleton power_Suc sum_split_double halves sum_distrib_left
    using lo hi by (intro arg_cong2 [where f = "(+)"] sum.cong) simp_all
  then show ?case using halves by (simp add: mle_coeff_halves)
qed

lemma mle_eval_at_point_Ok:
  assumes "length c = 2 ^ length x"
  shows "mle_eval_at_point emb c x = (Ok (mle_coeff (map emb c) x) :: (_, 'e) res)"
proof -
  have "fold (\<lambda>(i, coeff) res. res + emb coeff * monomial i x) (enumerated c) 0 = (\<Sum>i < length c. emb (c ! i) * monomial i x)"
    using fold_add_enumerated [of "\<lambda>i coeff. emb coeff * monomial i x" c 0] by simp
  also have "\<dots> = mle_coeff (map emb c) x" using assms by (simp add: mle_coeff_sum)
  finally show ?thesis using assms by (simp add: mle_eval_at_point_def fold_monomial)
qed

lemma mle_coeff_linear:
  assumes "length lo = 2 ^ length x" and "length hi = 2 ^ length x"
  shows "mle_coeff (map2 (\<lambda>l r. l + r * a) lo hi) x = mle_coeff lo x + a * mle_coeff hi x"
  using assms by (simp add: mle_coeff_sum sum.distrib [symmetric] sum_distrib_left algebra_simps)

lemma eval_at_point_inplace_Ok:
  assumes "length c = 2 ^ length x"
  shows "eval_at_point_inplace emb c x = (Ok (mle_coeff c (map emb x)) :: (_, 'e) res)"
proof -
  let ?step = "\<lambda>x_j (len, buf). let len = len div 2 in
           (len, map2 (\<lambda>l r. l + r * emb x_j) (take len buf) (drop len buf) @ drop len buf)"
  have "2 ^ length x \<le> length buf \<Longrightarrow>
      index (snd (fold ?step (rev x) (2 ^ length x, buf))) 0 = (Ok (mle_coeff (take (2 ^ length x) buf) (map emb x)) :: (_, 'e) res)" for buf
  proof (induction x arbitrary: buf rule: rev_induct)
    case Nil
    then show ?case by (cases buf) simp_all
  next
    case (snoc a x)
    define n where "n = (2 :: nat) ^ length x"
    define new where "new = map2 (\<lambda>l r. l + r * emb a) (take n buf) (drop n buf)"
    have n: "2 * n \<le> length buf" using snoc.prems by (simp add: n_def)
    then have len: "length new = n" by (simp add: new_def)
    have two: "2 ^ length (x @ [a]) = 2 * n" by (simp add: n_def)
    have new: "new = map2 (\<lambda>l r. l + r * emb a) (take n buf) (take n (drop n buf))"
      unfolding new_def by (rule nth_equalityI) (use n in simp_all)
    have "take (2 * n) buf = take n buf @ take n (drop n buf)" by (simp add: mult_2 take_add)
    with mle_coeff_halves [of "take n buf" "map emb x" "take n (drop n buf)" "emb a"]
      mle_coeff_linear [of "take n buf" "map emb x" "take n (drop n buf)" "emb a"] n
    have "mle_coeff (take (2 * n) buf) (map emb (x @ [a])) = mle_coeff new (map emb x)"
      by (simp add: new n_def [symmetric])
    moreover have "index (snd (fold ?step (rev x) (n, new @ drop n buf))) 0 = (Ok (mle_coeff new (map emb x)) :: (_, 'e) res)"
      using snoc.IH [of "new @ drop n buf"] len n by (simp add: n_def [symmetric])
    ultimately show ?case unfolding two by (simp add: new_def [symmetric])
  qed
  from this [of c] assms show ?thesis by (simp add: eval_at_point_inplace_def case_prod_unfold)
qed

section \<open>The Moebius kernel\<close>

lemma sum_list_map2_nth: "length xs = length ys \<Longrightarrow> sum_list (map2 f xs ys) = (\<Sum>i < length xs. f (xs ! i) (ys ! i))"
  by (simp add: sum_list_sum_nth lessThan_atLeast0)

definition dot :: "'a::field list \<Rightarrow> 'a list \<Rightarrow> 'a" where
  "dot xs ys = sum_list (map2 (*) xs ys)"

lemma dot_append: "length xs = length ys \<Longrightarrow> dot (xs @ us) (ys @ vs) = dot xs ys + dot us vs"
  by (simp add: dot_def)

lemma dot_scale: "dot xs (map (\<lambda>y. y * a) ys) = dot xs ys * a"
  unfolding dot_def by (induction xs ys rule: list_induct2') (simp_all add: distrib_right)

lemma dot_add: "length xs = length ys \<Longrightarrow> length ys = length zs \<Longrightarrow> dot (map2 (\<lambda>u v. v + u) xs ys) zs = dot xs zs + dot ys zs"
  unfolding dot_def by (induction xs ys zs rule: list_induct3) (simp_all add: distrib_right)

lemma evals_mobius_snoc:
  "evals_mobius_eq_hypercube (u @ [a]) = map (\<lambda>y. y * (1 - 2 * a)) (evals_mobius_eq_hypercube u) @ map (\<lambda>y. y * a) (evals_mobius_eq_hypercube u)"
  by (simp add: evals_mobius_eq_hypercube_def)

lemma length_evals_mobius [simp]: "length (evals_mobius_eq_hypercube u) = 2 ^ length u"
  by (induction u rule: rev_induct) (simp_all add: evals_mobius_snoc, simp add: evals_mobius_eq_hypercube_def)

lemma mobius_decodes:
  "length c = 2 ^ length u \<Longrightarrow> dot (to_evals (length u) c) (evals_mobius_eq_hypercube u) = mle_sum c u"
proof (induction rule: point_induct)
  case (one c)
  then show ?case by (simp add: dot_def mle_sum_def evals_mobius_eq_hypercube_def)
next
  case (halves u a lo hi)
  then have "dot (to_evals (Suc (length u)) (lo @ hi)) (evals_mobius_eq_hypercube (u @ [a]))
      = mle_sum lo u * (1 - 2 * a) + (mle_sum lo u + mle_sum hi u) * a"
    by (simp add: cube_layers_halves evals_mobius_snoc dot_append dot_scale dot_add del: cube_layers_step)
  with halves show ?case by (simp add: mle_sum_halves) (simp add: algebra_simps)
qed


section \<open>The tables are multilinear extensions\<close>

lemma mle_sum_scale: "length xs = 2 ^ length x \<Longrightarrow> mle_sum (map (\<lambda>v. v * a) xs) x = mle_sum xs x * a"
  unfolding mle_sum_def sum_distrib_right by (rule sum.cong) simp_all

definition mobius_value :: "'a::field list \<Rightarrow> 'a list \<Rightarrow> 'a" where
  "mobius_value u x = fold (\<lambda>(u_i, x_i) acc. acc * ((1 - 2 * u_i) * (1 - x_i) + u_i * x_i)) (zip u x) 1"

lemma eval_mobius_Ok: "length u = length x \<Longrightarrow> eval_mobius_eq_mle u x = Ok (mobius_value u x)"
  by (simp add: eval_mobius_eq_mle_def mobius_value_def)

lemma mle_sum_mobius: "length u = length x \<Longrightarrow> mle_sum (evals_mobius_eq_hypercube u) x = mobius_value u x"
proof (induction u arbitrary: x rule: rev_induct)
  case Nil
  then show ?case by (simp add: mle_sum_def evals_mobius_eq_hypercube_def mobius_value_def)
next
  case (snoc a u)
  then obtain y b where x: "x = y @ [b]" "length u = length y" by (metis length_append_singleton length_Suc_conv_rev)
  with snoc.IH [OF x(2)] show ?case
    by (simp add: evals_mobius_snoc mle_sum_halves mle_sum_scale mobius_value_def) (simp add: algebra_simps)
qed

lemma evals_eq_hypercube_serial_eq: "evals_eq_hypercube x = evals_eq_hypercube_serial x"
  by (simp add: evals_eq_hypercube_def evals_eq_hypercube_serial_def)

lemma mle_sum_eq: "length u = length x \<Longrightarrow> mle_sum (evals_eq_hypercube u) x = eq_mle_value u x"
proof (induction u arbitrary: x rule: rev_induct)
  case Nil
  then show ?case by (simp add: mle_sum_def evals_eq_hypercube_def)
next
  case (snoc a u)
  then obtain y b where x: "x = y @ [b]" "length u = length y" by (metis length_append_singleton length_Suc_conv_rev)
  with snoc.IH [OF x(2)] show ?case
    by (simp add: evals_eq_hypercube_serial_eq hypercube_fold_append mle_sum_halves mle_sum_scale eq_mle_append) (simp add: algebra_simps)
qed

section \<open>Properties\<close>

text \<open>C21. \<open>Mle::from_evaluations\<close> and the two evaluation routines. For evaluations on a cube the in-place
  transform to coefficients succeeds, the transform back returns the evaluations, and the naive and the in-place
  evaluation of the coefficients at any point are both the value that the verifier computes
  from the evaluations directly (\<open>eval_mle_evals_at_point\<close>).\<close>
theorem mle_from_evaluations_correct:
  fixes evals x :: "'a::field list"
  assumes "length evals = 2 ^ length x"
  shows "\<exists>c v. mle_from_evaluations evals = (Ok c :: (_, 'e) res) \<and> coeffs_to_evals_inplace c = (Ok evals :: (_, 'e) res) \<and>
     eval_mle_evals_at_point evals x = (Ok v :: (_, 'e) res) \<and>
     mle_eval_at_point (\<lambda>f. f) c x = (Ok v :: (_, 'e) res) \<and> eval_at_point_inplace (\<lambda>f. f) c x = (Ok v :: (_, 'e) res)"
proof -
  define c where "c = to_coeffs (length x) evals"
  have c: "length c = 2 ^ length x" "to_evals (length x) c = evals" using assms by (simp_all add: c_def)
  from assms have "evals \<noteq> []" by auto
  with assms have "mle_from_evaluations evals = (Ok c :: (_, 'e) res)"
    by (simp add: mle_from_evaluations_def evals_to_coeffs_Ok c_def)
  moreover have "mle_sum evals x = mle_coeff c x" using mle_sum_to_evals [OF c(1)] by (simp add: c(2))
  ultimately show ?thesis
    using c assms by (simp add: coeffs_to_evals_Ok [OF c(1)] eval_mle_sum mle_eval_at_point_Ok eval_at_point_inplace_Ok)
qed

theorem mle_from_evaluations_correct_witness:
  "\<exists>c v. mle_from_evaluations [1, 2, 3, 5 :: f17] = (Ok c :: (_, unit) res) \<and> coeffs_to_evals_inplace c = (Ok [1, 2, 3, 5] :: (_, unit) res) \<and>
     eval_mle_evals_at_point [1, 2, 3, 5] [4, 6] = (Ok v :: (_, unit) res) \<and>
     mle_eval_at_point (\<lambda>f. f) c [4, 6] = (Ok v :: (_, unit) res) \<and> eval_at_point_inplace (\<lambda>f. f) c [4, 6] = (Ok v :: (_, unit) res)"
  by (rule mle_from_evaluations_correct) simp

text \<open>C18. The Moebius kernel. Summing the kernel table of \<open>u\<close> against the cube evaluations of a coefficient vector
  gives the value at \<open>u\<close> of the multilinear extension that has the vector itself as its evaluations, and the table is
  the one whose extension \<open>eval_mobius_eq_mle\<close> computes at any point; so the prover's inner product and the verifier's
  final check of WHIR agree.\<close>
theorem mobius_kernel_decodes:
  fixes c u x :: "'a::field list"
  assumes "length c = 2 ^ length u" and "length x = length u"
  shows "\<exists>F v. coeffs_to_evals_inplace c = (Ok F :: (_, 'e) res) \<and> eval_mle_evals_at_point c u = (Ok v :: (_, 'e) res) \<and>
     sum_list (map2 (*) F (evals_mobius_eq_hypercube u)) = v \<and>
     eval_mle_evals_at_point (evals_mobius_eq_hypercube u) x = (eval_mobius_eq_mle u x :: (_, 'e) res)"
  using mobius_decodes [OF assms(1)] assms
  by (simp add: coeffs_to_evals_Ok eval_mle_sum dot_def mle_sum_mobius eval_mobius_Ok)

theorem mobius_kernel_decodes_witness:
  "\<exists>F v. coeffs_to_evals_inplace [1, 2, 3, 5 :: f17] = (Ok F :: (_, unit) res) \<and> eval_mle_evals_at_point [1, 2, 3, 5] [4, 6 :: f17] = (Ok v :: (_, unit) res) \<and>
     sum_list (map2 (*) F (evals_mobius_eq_hypercube [4, 6])) = v \<and>
     eval_mle_evals_at_point (evals_mobius_eq_hypercube [4, 6]) [7, 9] = (eval_mobius_eq_mle [4, 6] [7, 9 :: f17] :: (_, unit) res)"
  by (rule mobius_kernel_decodes) simp_all

end
