(* ===== verification/Dft.thy ===== *)
theory Dft
  imports FieldTower
begin

text \<open>
  The serial Bowers FFT of \<open>dft/radix_2_bowers_serial.rs\<close>, on matrices in row-major order. The
  butterflies, the bit reversal of an index and of a slice and the zero padding are Plonky3's and arguments of the
  definitions; the locale \<open>bowers\<close> states their documented behaviour. The DFT is the list of
  the values at the powers of the generator, and the inverse DFT is its inverse.
\<close>

record 'a row_major =
  rm_values :: "'a list"
  rm_width :: nat

record 'a fft_ops =
  dif_butterfly :: "'a \<Rightarrow> 'a \<times> 'a \<Rightarrow> 'a \<times> 'a"
  dit_butterfly :: "'a \<Rightarrow> 'a \<times> 'a \<Rightarrow> 'a \<times> 'a"
  twiddle_free_butterfly :: "'a \<times> 'a \<Rightarrow> 'a \<times> 'a"
  reverse_bits_len :: "nat \<Rightarrow> nat \<Rightarrow> nat"
  reverse_slice_index_bits :: "'a list \<Rightarrow> 'a list"
  bit_reversed_zero_pad :: "nat \<Rightarrow> 'a row_major \<Rightarrow> 'a row_major"
  fft_gen :: "nat \<Rightarrow> 'a"
  fft_adicity :: nat

section \<open>The code\<close>

definition rm_height :: "'a row_major \<Rightarrow> nat" where
  "rm_height mat = length (rm_values mat) div rm_width mat"

definition fft_generator :: "'a fft_ops \<Rightarrow> nat \<Rightarrow> ('a, 'e) res" where
  "fft_generator P bits = rbind (assert_that (bits \<le> fft_adicity P)) (\<lambda>_. Ok (fft_gen P bits))"

text \<open>One block of a layer: the rows of the first half with the rows of the second half.\<close>

definition butterfly_block ::
  "'a fft_ops \<Rightarrow> ('a \<Rightarrow> 'a \<times> 'a \<Rightarrow> 'a \<times> 'a) \<Rightarrow> 'a list \<Rightarrow> nat \<Rightarrow> nat \<times> 'a list \<Rightarrow> ('a list, 'e) res" where
  "butterfly_block P butterfly twiddles half_len = (\<lambda>(block, chunk).
     rbind (if block = 0 then Ok (twiddle_free_butterfly P)
            else rbind (index twiddles block) (\<lambda>tw. Ok (butterfly tw))) (\<lambda>b.
     let pairs = map b (zip (take half_len chunk) (drop half_len chunk)) in
     Ok (map fst pairs @ map snd pairs)))"

definition butterfly_layer ::
  "'a fft_ops \<Rightarrow> ('a \<Rightarrow> 'a \<times> 'a \<Rightarrow> 'a \<times> 'a) \<Rightarrow> 'a list \<Rightarrow> nat \<Rightarrow> 'a row_major \<Rightarrow> ('a row_major, 'e) res" where
  "butterfly_layer P butterfly twiddles half_block_size mat =
     (let half_len = half_block_size * rm_width mat in
      rbind (rmap (butterfly_block P butterfly twiddles half_len) (enumerated (chunks (2 * half_len) (rm_values mat)))) (\<lambda>blocks.
      Ok (mat\<lparr>rm_values := concat blocks\<rparr>)))"

definition bowers_g :: "'a::field fft_ops \<Rightarrow> 'a row_major \<Rightarrow> ('a row_major, 'e) res" where
  "bowers_g P mat =
     (let h = rm_height mat in
      rbind (log2_strict h) (\<lambda>log_h.
      rbind (fft_generator P log_h) (\<lambda>root.
      let twiddles = reverse_slice_index_bits P (powers (h div 2) root) in
      rfold (\<lambda>log_half. butterfly_layer P (dif_butterfly P) twiddles (2 ^ log_half)) [0..<log_h] mat)))"

definition bowers_g_t :: "'a::field fft_ops \<Rightarrow> 'a row_major \<Rightarrow> ('a row_major, 'e) res" where
  "bowers_g_t P mat =
     (let h = rm_height mat in
      rbind (log2_strict h) (\<lambda>log_h.
      rbind (fft_generator P log_h) (\<lambda>root.
      rbind (checked_inverse root) (\<lambda>root_inv.
      let twiddles = reverse_slice_index_bits P (powers (h div 2) root_inv) in
      rfold (\<lambda>log_half. butterfly_layer P (dit_butterfly P) twiddles (2 ^ log_half)) (rev [0..<log_h]) mat))))"

definition scale_slice_in_place :: "'a::field \<Rightarrow> 'a list \<Rightarrow> 'a list" where
  "scale_slice_in_place s xs = map (\<lambda>x. x * s) xs"

definition divide_by_height :: "'a::field row_major \<Rightarrow> ('a row_major, 'e) res" where
  "divide_by_height mat =
     rbind (log2_strict (rm_height mat)) (\<lambda>log_h.
     Ok (mat\<lparr>rm_values := scale_slice_in_place (1 / 2 ^ log_h) (rm_values mat)\<rparr>))"

definition swap_rows :: "nat \<Rightarrow> nat \<Rightarrow> nat \<Rightarrow> 'a list \<Rightarrow> 'a list" where
  "swap_rows w i j values =
     fold (\<lambda>t vs. vs[i * w + t := vs ! (j * w + t), j * w + t := vs ! (i * w + t)]) [0..<w] values"

definition reverse_matrix_index_bits :: "'a fft_ops \<Rightarrow> 'a row_major \<Rightarrow> ('a row_major, 'e) res" where
  "reverse_matrix_index_bits P mat =
     (let w = rm_width mat; h = rm_height mat in
      rbind (log2_strict h) (\<lambda>log_h.
      Ok (mat\<lparr>rm_values := fold (\<lambda>i vs. let j = reverse_bits_len P i log_h in if i < j then swap_rows w i j vs else vs)
                              [0..<h] (rm_values mat)\<rparr>)))"

definition dft_batch :: "'a::field fft_ops \<Rightarrow> 'a row_major \<Rightarrow> ('a row_major, 'e) res" where
  "dft_batch P mat = rbind (reverse_matrix_index_bits P mat) (bowers_g P)"

definition idft_batch :: "'a::field fft_ops \<Rightarrow> 'a row_major \<Rightarrow> ('a row_major, 'e) res" where
  "idft_batch P mat =
     rbind (bowers_g_t P mat) (\<lambda>mat. rbind (divide_by_height mat) (reverse_matrix_index_bits P))"

definition dft :: "'a::field fft_ops \<Rightarrow> 'a list \<Rightarrow> ('a list, 'e) res" where
  "dft P vec = rbind (dft_batch P \<lparr>rm_values = vec, rm_width = 1\<rparr>) (\<lambda>mat. Ok (rm_values mat))"

definition idft :: "'a::field fft_ops \<Rightarrow> 'a list \<Rightarrow> ('a list, 'e) res" where
  "idft P vec = rbind (idft_batch P \<lparr>rm_values = vec, rm_width = 1\<rparr>) (\<lambda>mat. Ok (rm_values mat))"

definition lde_batch :: "'a::field fft_ops \<Rightarrow> 'a row_major \<Rightarrow> nat \<Rightarrow> ('a row_major, 'e) res" where
  "lde_batch P mat added_bits =
     rbind (bowers_g_t P mat) (\<lambda>mat. rbind (divide_by_height mat) (\<lambda>mat.
     bowers_g P (bit_reversed_zero_pad P added_bits mat)))"

definition scale_row :: "nat \<Rightarrow> 'a::field \<Rightarrow> 'a row_major \<Rightarrow> 'a row_major" where
  "scale_row r weight mat = mat\<lparr>rm_values :=
     fold (\<lambda>t vs. vs[r * rm_width mat + t := vs ! (r * rm_width mat + t) * weight]) [0..<rm_width mat] (rm_values mat)\<rparr>"

definition coset_lde_batch :: "'a::field fft_ops \<Rightarrow> 'a row_major \<Rightarrow> nat \<Rightarrow> 'a \<Rightarrow> ('a row_major, 'e) res" where
  "coset_lde_batch P mat added_bits shift =
     (let h = rm_height mat in
      rbind (log2_strict h) (\<lambda>log_h.
      let h_inv = 1 / 2 ^ log_h in
      rbind (bowers_g_t P mat) (\<lambda>mat.
      let mat = fold (\<lambda>i. scale_row (reverse_bits_len P i log_h) (h_inv * shift ^ i)) [0..<h] mat in
      bowers_g P (bit_reversed_zero_pad P added_bits mat))))"

definition bit_reversed_twiddles :: "'a::field fft_ops \<Rightarrow> nat \<Rightarrow> 'a \<Rightarrow> 'a list" where
  "bit_reversed_twiddles P n base = reverse_slice_index_bits P (powers (2 ^ n div 2) base)"

section \<open>What is relied on of Plonky3\<close>

locale bowers = two_adic "fft_gen P" "fft_adicity P" for P :: "'a::field fft_ops" +
  assumes dif: "dif_butterfly P tw (a, b) = (a + b, (a - b) * tw)"
    and dit: "dit_butterfly P tw (a, b) = (a + b * tw, a - b * tw)"
    and twiddle_free: "twiddle_free_butterfly P (a, b) = (a + b, a - b)"
    and reverse_less: "x < 2 ^ n \<Longrightarrow> reverse_bits_len P x n < 2 ^ n"
    and reverse_bit: "x < 2 ^ n \<Longrightarrow> k < n \<Longrightarrow> bit (reverse_bits_len P x n) k \<longleftrightarrow> bit x (n - 1 - k)"
    and reverse_slice: "length xs = 2 ^ n \<Longrightarrow> reverse_slice_index_bits P xs = map (\<lambda>i. xs ! reverse_bits_len P i n) [0..<2 ^ n]"
    and zero_pad: "length vs = w * 2 ^ n \<Longrightarrow> bit_reversed_zero_pad P added \<lparr>rm_values = vs, rm_width = w\<rparr> =
        \<lparr>rm_values = concat (map (\<lambda>i. take w (drop (i * w) vs) @ replicate ((2 ^ added - 1) * w) 0) [0..<2 ^ n]), rm_width = w\<rparr>"
begin

lemma reverse_reverse: "x < 2 ^ n \<Longrightarrow> reverse_bits_len P (reverse_bits_len P x n) n = x"
proof (rule bit_eqI)
  fix k
  assume x: "x < 2 ^ n"
  show "bit (reverse_bits_len P (reverse_bits_len P x n) n) k \<longleftrightarrow> bit x k"
  proof (cases "k < n")
    case True
    then have "n - 1 - k < n" "n - 1 - (n - 1 - k) = k" by auto
    with x True show ?thesis by (simp add: reverse_bit reverse_less)
  next
    case False
    have "\<not> bit y k" if "y < 2 ^ n" for y :: nat
      using that False by (metis bit_take_bit_iff take_bit_nat_eq_self)
    with x show ?thesis by (simp add: reverse_less)
  qed
qed

lemma reverse_low:
  assumes "x < 2 ^ n"
  shows "reverse_bits_len P x (Suc n) = 2 * reverse_bits_len P x n"
proof (rule bit_eqI)
  fix k
  have x: "x < 2 ^ Suc n" using assms by simp
  have high: "\<not> bit y k" if "y < 2 ^ m" "m \<le> k" for y m k :: nat
    using that by (metis bit_take_bit_iff linorder_not_le take_bit_nat_eq_self)
  show "bit (reverse_bits_len P x (Suc n)) k \<longleftrightarrow> bit (2 * reverse_bits_len P x n) k"
  proof (cases k)
    case 0
    with reverse_bit [OF x, of 0] high [OF assms, of n] show ?thesis by (simp add: bit_double_iff)
  next
    case (Suc j)
    show ?thesis
    proof (cases "j < n")
      case True
      with Suc reverse_bit [OF x, of k] reverse_bit [OF assms, of j] show ?thesis by (simp add: bit_double_iff)
    next
      case False
      with Suc high [OF reverse_less [OF x], of k] high [OF reverse_less [OF assms], of j]
      show ?thesis by (simp add: bit_double_iff)
    qed
  qed
qed

lemma reverse_high:
  assumes "x < 2 ^ n"
  shows "reverse_bits_len P (x + 2 ^ n) (Suc n) = Suc (2 * reverse_bits_len P x n)"
proof (rule bit_eqI)
  fix k
  let ?y = "x + 2 ^ n" and ?r = "reverse_bits_len P x n"
  have y: "?y < 2 ^ Suc n" using assms by simp
  have high: "\<not> bit y k" if "y < 2 ^ m" "m \<le> k" for y m k :: nat
    using that by (metis bit_take_bit_iff linorder_not_le take_bit_nat_eq_self)
  have r: "Suc (2 * ?r) < 2 ^ Suc n" using reverse_less [OF assms] by simp
  have low: "bit ?y j \<longleftrightarrow> bit x j" if "j < n" for j
  proof -
    have "?y = x + 2 ^ (n - j) * 2 ^ j" using that by (simp flip: power_add)
    then have "?y div 2 ^ j = x div 2 ^ j + 2 ^ (n - j)" by simp
    with that show ?thesis by (simp add: bit_iff_odd)
  qed
  have top: "bit ?y n" using assms by (simp add: bit_iff_odd)
  show "bit (reverse_bits_len P ?y (Suc n)) k \<longleftrightarrow> bit (Suc (2 * ?r)) k"
  proof (cases "k < Suc n")
    case k: True
    show ?thesis
    proof (cases k)
      case 0
      with reverse_bit [OF y, of 0] top show ?thesis by (simp add: bit_0)
    next
      case (Suc j)
      have "bit (Suc (2 * ?r)) (Suc j) \<longleftrightarrow> bit ?r j" by (simp add: bit_Suc)
      with Suc k reverse_bit [OF y, of k] reverse_bit [OF assms, of j] low [of "n - 1 - j"] show ?thesis by simp
    qed
  next
    case False
    with high [OF reverse_less [OF y], of k] high [OF r, of k] show ?thesis by simp
  qed
qed

text \<open>What a layer does to each pair of entries: \<open>s\<close> is the length of half a block.\<close>

lemma butterfly_layer_nth:
  assumes len: "length vs = 2 * s * N" and s: "s = half * w" "0 < s" and tw: "N \<le> 1 \<or> N \<le> length twiddles"
    and f: "\<And>b x. b < N \<Longrightarrow> (if b = 0 then twiddle_free_butterfly P else butterfly (twiddles ! b)) x = f b x"
  shows "\<exists>vs'. butterfly_layer P butterfly twiddles half \<lparr>rm_values = vs, rm_width = w\<rparr> = (Ok \<lparr>rm_values = vs', rm_width = w\<rparr> :: (_, 'e) res) \<and>
    length vs' = length vs \<and> (\<forall>b < N. \<forall>t < s.
      vs' ! (2 * s * b + t) = fst (f b (vs ! (2 * s * b + t), vs ! (2 * s * b + s + t))) \<and>
      vs' ! (2 * s * b + s + t) = snd (f b (vs ! (2 * s * b + t), vs ! (2 * s * b + s + t))))"
proof -
  define chunk where "chunk b = take (2 * s) (drop (b * (2 * s)) vs)" for b
  define block where "block b = (let pairs = map (f b) (zip (take s (chunk b)) (drop s (chunk b))) in map fst pairs @ map snd pairs)" for b
  have chunks: "chunks (2 * s) vs = map chunk [0..<N]"
    unfolding chunk_def by (rule chunks_exact) (use s len in \<open>simp_all add: mult.commute mult.left_commute\<close>)
  have len_chunk: "length (chunk b) = 2 * s" if "b < N" for b
  proof -
    have "(b + 1) * (2 * s) \<le> N * (2 * s)" using that by (intro mult_le_mono1) simp
    then show ?thesis by (simp add: chunk_def len algebra_simps)
  qed
  have chunk_nth: "chunk b ! t = vs ! (2 * s * b + t)" if "b < N" "t < 2 * s" for b t
  proof -
    have "b * (2 * s) \<le> N * (2 * s)" using that(1) by (intro mult_le_mono1) simp
    then have "b * (2 * s) \<le> length vs" by (simp add: len mult.commute)
    with that(2) show ?thesis by (simp add: chunk_def mult.commute)
  qed
  have f0: "twiddle_free_butterfly P x = f 0 x" if "0 < N" for x using f [of 0] that by simp
  have "butterfly_block P butterfly twiddles s (b, chunk b) = (Ok (block b) :: (_, 'e) res)" if b: "b < N" for b
  proof (cases "b = 0")
    case True
    with b f0 show ?thesis by (simp add: butterfly_block_def block_def Let_def cong: map_cong)
  next
    case False
    with b tw have "b < length twiddles" by auto
    moreover have "butterfly (twiddles ! b) x = f b x" for x using f [OF b, of x] False by simp
    ultimately show ?thesis using False by (simp add: butterfly_block_def block_def Let_def cong: map_cong)
  qed
  then have "rmap (butterfly_block P butterfly twiddles s) (enumerated (map chunk [0..<N])) = (Ok (map (block \<circ> fst) (enumerated (map chunk [0..<N]))) :: (_, 'e) res)"
    by (intro rmap_total) (auto simp: set_zip)
  moreover have "map (block \<circ> fst) (enumerated (map chunk [0..<N])) = map block [0..<N]"
    by (intro nth_equalityI) simp_all
  ultimately have run: "butterfly_layer P butterfly twiddles half \<lparr>rm_values = vs, rm_width = w\<rparr>
      = (Ok \<lparr>rm_values = concat (map block [0..<N]), rm_width = w\<rparr> :: (_, 'e) res)"
    by (simp add: butterfly_layer_def Let_def s(1) [symmetric] chunks)
  have len_block: "length (block b) = 2 * s" if "b < N" for b
    using len_chunk [OF that] by (simp add: block_def Let_def)
  then have all: "\<forall>x \<in> set (map block [0..<N]). length x = 2 * s" by simp
  have at: "concat (map block [0..<N]) ! (2 * s * b + t) = block b ! t" if "b < N" "t < 2 * s" for b t
    using concat_nth_block [OF all, of b t] that by (simp add: mult.commute)
  show ?thesis
  proof (intro exI [of _ "concat (map block [0..<N])"] conjI allI impI)
    show "butterfly_layer P butterfly twiddles half \<lparr>rm_values = vs, rm_width = w\<rparr>
      = (Ok \<lparr>rm_values = concat (map block [0..<N]), rm_width = w\<rparr> :: (_, 'e) res)" by (rule run)
    show "length (concat (map block [0..<N])) = length vs" using length_concat_blocks [OF all] by (simp add: len)
    fix b t assume bt: "b < N" "t < s"
    show "concat (map block [0..<N]) ! (2 * s * b + t) = fst (f b (vs ! (2 * s * b + t), vs ! (2 * s * b + s + t)))"
      using at [OF bt(1), of t] bt len_chunk chunk_nth [OF bt(1), of t] chunk_nth [OF bt(1), of "s + t"]
      by (simp add: block_def Let_def nth_append add.assoc)
    show "concat (map block [0..<N]) ! (2 * s * b + s + t) = snd (f b (vs ! (2 * s * b + t), vs ! (2 * s * b + s + t)))"
      using at [OF bt(1), of "s + t"] bt len_chunk chunk_nth [OF bt(1), of t] chunk_nth [OF bt(1), of "s + t"]
      by (simp add: block_def Let_def nth_append add.assoc)
  qed
qed

lemma reverse_zero [simp]: "reverse_bits_len P 0 n = 0"
proof (rule bit_eqI)
  fix k
  show "bit (reverse_bits_len P 0 n) k \<longleftrightarrow> bit (0 :: nat) k"
    using reverse_bit [of 0 n k] reverse_less [of 0 n]
    by (cases "k < n") (auto, metis bit_take_bit_iff take_bit_nat_eq_self)
qed

lemma reverse_shift: "x < 2 ^ d \<Longrightarrow> reverse_bits_len P x (d + k) = 2 ^ k * reverse_bits_len P x d"
proof (induction k)
  case (Suc k)
  have "x < 2 ^ (d + k)" using Suc.prems by (metis le_add1 less_le_trans one_le_numeral power_increasing)
  with Suc show ?case using reverse_low [of x "d + k"] by simp
qed simp

lemma gen_half:
  assumes "0 < n" and "n \<le> fft_adicity P"
  shows "fft_gen P n ^ 2 ^ (n - 1) = - 1"
proof -
  let ?z = "fft_gen P n ^ 2 ^ (n - 1)"
  have "2 ^ (n - 1) * 2 = (2 :: nat) ^ n" using assms(1) by (cases n) simp_all
  then have "?z * ?z = 1" using gen_order [OF assms(2)] by (simp flip: power_add add: mult_2_right)
  then have "(?z - 1) * (?z + 1) = 0" by (simp add: algebra_simps)
  moreover have "?z \<noteq> 1"
    using gen_pow_eq_iff [OF assms(2), of "2 ^ (n - 1)" 0] assms(1) by simp
  ultimately show ?thesis by (simp add: eq_neg_iff_add_eq_0)
qed

lemma twiddles:
  assumes "0 < n"
  shows "length (bit_reversed_twiddles P n rt) = 2 ^ (n - 1)"
    and "b < 2 ^ (n - 1) \<Longrightarrow> bit_reversed_twiddles P n rt ! b = rt ^ reverse_bits_len P b (n - 1)"
proof -
  have "2 ^ n div 2 = (2 :: nat) ^ (n - 1)" using assms by (cases n) simp_all
  then have "bit_reversed_twiddles P n rt = map (\<lambda>i. powers (2 ^ (n - 1)) rt ! reverse_bits_len P i (n - 1)) [0..<2 ^ (n - 1)]"
    unfolding bit_reversed_twiddles_def using reverse_slice [of "powers (2 ^ (n - 1)) rt" "n - 1"] by simp
  then show "length (bit_reversed_twiddles P n rt) = 2 ^ (n - 1)"
    "b < 2 ^ (n - 1) \<Longrightarrow> bit_reversed_twiddles P n rt ! b = rt ^ reverse_bits_len P b (n - 1)"
    by (simp_all add: reverse_less nth_powers)
qed

text \<open>The layer of half block size \<open>2 ^ k\<close>, where \<open>2 ^ d\<close> blocks remain: both networks.\<close>

lemma network_layer:
  assumes n: "n = Suc (d + k)" and len: "length vs = w * 2 ^ n" and w: "0 < w"
    and butterfly: "\<And>tw a b. butterfly tw (a, b) = g tw a b" and free: "\<And>a b. g 1 a b = (a + b, a - b)"
  defines "s \<equiv> w * 2 ^ k"
  shows "\<exists>vs'. butterfly_layer P butterfly (bit_reversed_twiddles P n rt) (2 ^ k) \<lparr>rm_values = vs, rm_width = w\<rparr>
      = (Ok \<lparr>rm_values = vs', rm_width = w\<rparr> :: (_, 'e) res) \<and> length vs' = length vs \<and>
    (\<forall>b < 2 ^ d. \<forall>t < s. (vs' ! (2 * s * b + t), vs' ! (2 * s * b + s + t))
       = g (rt ^ (2 ^ k * reverse_bits_len P b d)) (vs ! (2 * s * b + t)) (vs ! (2 * s * b + s + t)))"
proof -
  let ?f = "\<lambda>b (x, y). g (rt ^ (2 ^ k * reverse_bits_len P b d)) x y"
  have "length vs = 2 * s * 2 ^ d" by (simp add: len s_def n power_add)
  moreover have "(2 :: nat) ^ d \<le> length (bit_reversed_twiddles P n rt)" using twiddles(1) [of n rt] n by simp
  moreover have "(if b = 0 then twiddle_free_butterfly P else butterfly (bit_reversed_twiddles P n rt ! b)) x = ?f b x" if "b < 2 ^ d" for b x
  proof -
    have "b < 2 ^ (n - 1)" using that n by (metis diff_Suc_1 le_add1 less_le_trans one_le_numeral power_increasing)
    then have "bit_reversed_twiddles P n rt ! b = rt ^ (2 ^ k * reverse_bits_len P b d)"
      using twiddles(2) [of n b rt] n reverse_shift [OF that, of k] by simp
    then show ?thesis by (cases x) (simp add: butterfly twiddle_free free)
  qed
  ultimately obtain vs' where "butterfly_layer P butterfly (bit_reversed_twiddles P n rt) (2 ^ k) \<lparr>rm_values = vs, rm_width = w\<rparr>
      = (Ok \<lparr>rm_values = vs', rm_width = w\<rparr> :: (_, 'e) res)" "length vs' = length vs"
    "\<forall>b < 2 ^ d. \<forall>t < s. vs' ! (2 * s * b + t) = fst (?f b (vs ! (2 * s * b + t), vs ! (2 * s * b + s + t))) \<and>
      vs' ! (2 * s * b + s + t) = snd (?f b (vs ! (2 * s * b + t), vs ! (2 * s * b + s + t)))"
    using butterfly_layer_nth [of vs s "2 ^ d" "2 ^ k" w "bit_reversed_twiddles P n rt" butterfly ?f, where 'e = 'e] w
    by (auto simp: s_def mult.commute)
  then show ?thesis by (intro exI [of _ vs']) simp
qed

abbreviation (input) "dif_layers n w vs ks \<equiv>
  rfold (\<lambda>k. butterfly_layer P (dif_butterfly P) (bit_reversed_twiddles P n (fft_gen P n)) (2 ^ k)) ks \<lparr>rm_values = vs, rm_width = w\<rparr>"

lemma bowers_layers:
  assumes n: "n \<le> fft_adicity P" and w: "0 < w"
  shows "d \<le> n \<Longrightarrow> length vs = w * 2 ^ n \<Longrightarrow>
    \<exists>out. dif_layers n w vs [n - d..<n] = (Ok \<lparr>rm_values = out, rm_width = w\<rparr> :: (_, 'e) res) \<and> length out = length vs \<and>
      (\<forall>t < w * 2 ^ (n - d). \<forall>j < 2 ^ d. out ! (t + w * 2 ^ (n - d) * j)
         = (\<Sum>i < 2 ^ d. vs ! (w * 2 ^ (n - d) * reverse_bits_len P i d + t) * (fft_gen P n ^ 2 ^ (n - d)) ^ (i * j)))"
proof (induction d arbitrary: vs)
  case 0
  then show ?case by simp
next
  case (Suc d)
  define k where "k = n - Suc d"
  have k: "n = Suc (d + k)" "n - d = Suc k" "n - Suc d = k" using Suc.prems(1) by (simp_all add: k_def)
  define s where "s = w * 2 ^ k"
  define z where "z = fft_gen P n ^ 2 ^ k"
  have s2: "w * 2 ^ (n - d) = 2 * s" by (simp add: k(2) s_def)
  have z2: "fft_gen P n ^ 2 ^ (n - d) = z * z"
    by (simp add: k(2) z_def mult_2 power_add)
  have zd: "z ^ 2 ^ d = - 1"
  proof -
    have "2 ^ k * 2 ^ d = (2 :: nat) ^ (n - 1)" by (simp add: k(1) power_add mult.commute)
    then show ?thesis using gen_half [OF _ n] k(1) by (simp add: z_def flip: power_mult)
  qed
  from network_layer [OF k(1) Suc.prems(2) w, of "dif_butterfly P" "\<lambda>tw a b. (a + b, (a - b) * tw)" "fft_gen P n", where 'e = 'e]
  obtain vs1 where layer: "butterfly_layer P (dif_butterfly P) (bit_reversed_twiddles P n (fft_gen P n)) (2 ^ k) \<lparr>rm_values = vs, rm_width = w\<rparr>
      = (Ok \<lparr>rm_values = vs1, rm_width = w\<rparr> :: (_, 'e) res)" and len1: "length vs1 = length vs"
    and vs1: "\<forall>b < 2 ^ d. \<forall>t < s. vs1 ! (2 * s * b + t) = vs ! (2 * s * b + t) + vs ! (2 * s * b + s + t) \<and>
      vs1 ! (2 * s * b + s + t) = (vs ! (2 * s * b + t) - vs ! (2 * s * b + s + t)) * z ^ reverse_bits_len P b d"
    by (auto simp: dif s_def z_def power_mult)
  have "d \<le> n" "length vs1 = w * 2 ^ n" using Suc.prems len1 by simp_all
  from Suc.IH [OF this] obtain out where rest: "dif_layers n w vs1 [Suc k..<n] = (Ok \<lparr>rm_values = out, rm_width = w\<rparr> :: (_, 'e) res)"
    and len_out: "length out = length vs1"
    and out: "\<And>t j. t < 2 * s \<Longrightarrow> j < 2 ^ d \<Longrightarrow> out ! (t + 2 * s * j)
         = (\<Sum>i < 2 ^ d. vs1 ! (2 * s * reverse_bits_len P i d + t) * (z * z) ^ (i * j))"
    unfolding s2 z2 unfolding k(2) by blast
  have "[n - Suc d..<n] = k # [Suc k..<n]" using k by (simp add: upt_conv_Cons)
  then have run: "dif_layers n w vs [n - Suc d..<n] = (Ok \<lparr>rm_values = out, rm_width = w\<rparr> :: (_, 'e) res)"
    using layer rest by simp
  have "out ! (t + s * j) = (\<Sum>i < 2 ^ Suc d. vs ! (s * reverse_bits_len P i (Suc d) + t) * z ^ (i * j))"
    if t: "t < s" and j: "j < 2 ^ Suc d" for t j
  proof -
    let ?b = "\<lambda>i. reverse_bits_len P i d"
    define j' e where "j' = j div 2" and "e = j mod 2"
    have j': "j' < 2 ^ d" "j = 2 * j' + e" "e < 2" using j by (auto simp: j'_def e_def)
    let ?x = "\<lambda>i. vs ! (2 * s * ?b i + t)" and ?y = "\<lambda>i. vs ! (2 * s * ?b i + s + t)"
    have b: "i < 2 ^ d \<Longrightarrow> ?b i < 2 ^ d \<and> reverse_bits_len P (?b i) d = i" for i
      by (simp add: reverse_less reverse_reverse)
    have "(\<Sum>i < 2 ^ Suc d. vs ! (s * reverse_bits_len P i (Suc d) + t) * z ^ (i * j))
        = (\<Sum>i < 2 ^ d. ?x i * z ^ (i * j)) + (\<Sum>i < 2 ^ d. ?y i * z ^ ((2 ^ d + i) * j))"
      unfolding power_Suc sum_split_double
      using reverse_low reverse_high by (intro arg_cong2 [of _ _ _ _ "(+)"] sum.cong) (simp_all add: add.commute algebra_simps)
    also have "\<dots> = (\<Sum>i < 2 ^ d. (?x i + ?y i * (- 1) ^ j) * z ^ (i * j))"
    proof -
      have "z ^ ((2 ^ d + i) * j) = (- 1) ^ j * z ^ (i * j)" for i
        by (simp add: add_mult_distrib power_add power_mult zd)
      then show ?thesis by (simp add: sum.distrib [symmetric] distrib_right mult.assoc)
    qed
    also have "\<dots> = (\<Sum>i < 2 ^ d. vs1 ! (2 * s * ?b i + (t + e * s)) * (z * z) ^ (i * j'))"
    proof (rule sum.cong [OF refl])
      fix i :: nat assume "i \<in> {..<2 ^ d}"
      then have i: "?b i < 2 ^ d" "reverse_bits_len P (?b i) d = i" using b by auto
      have pow: "z ^ (i * j) = (z * z) ^ (i * j') * z ^ (i * e)"
      proof -
        have "i * j = 2 * (i * j') + i * e" by (simp add: j'(2) algebra_simps)
        then show ?thesis by (simp only: power_add power_mult power2_eq_square)
      qed
      have "e = 0 \<or> e = 1" using j'(3) by auto
      then show "(?x i + ?y i * (- 1) ^ j) * z ^ (i * j) = vs1 ! (2 * s * ?b i + (t + e * s)) * (z * z) ^ (i * j')"
      proof -
        have "vs1 ! (2 * s * ?b i + t) = ?x i + ?y i" and "vs1 ! (2 * s * ?b i + s + t) = (?x i - ?y i) * z ^ i"
          using vs1 i t by auto
        moreover have "2 * s * ?b i + (t + s) = 2 * s * ?b i + s + t" by simp
        moreover have "(- 1 :: 'a) ^ j = (- 1) ^ e" by (simp add: j'(2) power_add power_mult)
        ultimately show ?thesis using \<open>e = 0 \<or> e = 1\<close> unfolding pow
          by (elim disjE) (simp_all add: mult.assoc mult.commute [of "z ^ i"] add.assoc add.commute [of s t])
      qed
    qed
    also have "\<dots> = out ! ((t + e * s) + 2 * s * j')"
      using out [of "t + e * s" j'] t j' by (cases e) (auto simp: less_Suc_eq)
    also have "(t + e * s) + 2 * s * j' = t + s * j" by (simp add: j'(2) algebra_simps)
    finally show ?thesis by simp
  qed
  with run len1 len_out show ?case unfolding k(3) s_def [symmetric] z_def [symmetric] by auto
qed

text \<open>A layer of the other network, with the inverse twiddles, undoes a layer up to a factor of 2.\<close>

lemma layer_undo:
  assumes n: "n = Suc (d + k)" and len: "length vs = w * 2 ^ n" and w: "0 < w"
    and f1: "\<And>tw a b. f1 tw (a, b) = g1 tw a b" "\<And>a b. g1 1 a b = (a + b, a - b)"
    and f2: "\<And>tw a b. f2 tw (a, b) = g2 tw a b" "\<And>a b. g2 1 a b = (a + b, a - b)"
    and undo: "\<And>e a b a' b'. g1 (r1 ^ e) a b = (a', b') \<Longrightarrow> g2 (r2 ^ e) (c * a') (c * b') = (2 * c * a, 2 * c * b)"
  shows "\<exists>vs'. butterfly_layer P f1 (bit_reversed_twiddles P n r1) (2 ^ k) \<lparr>rm_values = vs, rm_width = w\<rparr>
      = (Ok \<lparr>rm_values = vs', rm_width = w\<rparr> :: (_, 'e) res) \<and> length vs' = length vs \<and>
    butterfly_layer P f2 (bit_reversed_twiddles P n r2) (2 ^ k) \<lparr>rm_values = map (\<lambda>x. c * x) vs', rm_width = w\<rparr>
      = (Ok \<lparr>rm_values = map (\<lambda>x. 2 * c * x) vs, rm_width = w\<rparr> :: (_, 'e) res)"
proof -
  define s where "s = w * 2 ^ k"
  have s: "0 < s" "length vs = 2 ^ d * (2 * s)" using w by (simp_all add: s_def len n power_add)
  from network_layer [OF n len w, of f1 g1 r1, where 'e = 'e] f1 obtain vs' where
    l1: "butterfly_layer P f1 (bit_reversed_twiddles P n r1) (2 ^ k) \<lparr>rm_values = vs, rm_width = w\<rparr>
      = (Ok \<lparr>rm_values = vs', rm_width = w\<rparr> :: (_, 'e) res)" "length vs' = length vs"
    and p1: "\<And>b t. b < 2 ^ d \<Longrightarrow> t < s \<Longrightarrow> g1 (r1 ^ (2 ^ k * reverse_bits_len P b d)) (vs ! (2 * s * b + t)) (vs ! (2 * s * b + s + t))
       = (vs' ! (2 * s * b + t), vs' ! (2 * s * b + s + t))"
    unfolding s_def by metis
  have "length (map (\<lambda>x. c * x) vs') = w * 2 ^ n" using l1(2) len by simp
  from network_layer [OF n this w, of f2 g2 r2, where 'e = 'e] f2 obtain us where
    l2: "butterfly_layer P f2 (bit_reversed_twiddles P n r2) (2 ^ k) \<lparr>rm_values = map (\<lambda>x. c * x) vs', rm_width = w\<rparr>
      = (Ok \<lparr>rm_values = us, rm_width = w\<rparr> :: (_, 'e) res)" "length us = length vs'"
    and p2: "\<And>b t. b < 2 ^ d \<Longrightarrow> t < s \<Longrightarrow> (us ! (2 * s * b + t), us ! (2 * s * b + s + t))
       = g2 (r2 ^ (2 ^ k * reverse_bits_len P b d)) (map (\<lambda>x. c * x) vs' ! (2 * s * b + t)) (map (\<lambda>x. c * x) vs' ! (2 * s * b + s + t))"
    unfolding s_def by (metis length_map)
  have "us = map (\<lambda>x. 2 * c * x) vs"
  proof (rule nth_equalityI)
    show "length us = length (map (\<lambda>x. 2 * c * x) vs)" using l1(2) l2(2) by simp
    fix p assume "p < length us"
    then have p: "p < 2 ^ d * (2 * s)" using l1(2) l2(2) s(2) by simp
    define b q where "b = p div (2 * s)" and "q = p mod (2 * s)"
    have b: "b < 2 ^ d" using p by (simp add: b_def less_mult_imp_div_less)
    have q: "q < 2 * s" "p = 2 * s * b + q" using s(1) by (simp_all add: b_def q_def)
    have in_range: "2 * s * b + u < length vs" if "u < 2 * s" for u
    proof -
      have "2 * s * b + u < (b + 1) * (2 * s)" using that by (simp add: algebra_simps)
      also have "\<dots> \<le> 2 ^ d * (2 * s)" using b by (intro mult_le_mono1) simp
      finally show ?thesis by (simp add: s(2))
    qed
    have pair: "(us ! (2 * s * b + t), us ! (2 * s * b + s + t)) = (2 * c * vs ! (2 * s * b + t), 2 * c * vs ! (2 * s * b + s + t))"
      if t: "t < s" for t
    proof -
      have "map (\<lambda>x. c * x) vs' ! (2 * s * b + t) = c * vs' ! (2 * s * b + t)"
        "map (\<lambda>x. c * x) vs' ! (2 * s * b + s + t) = c * vs' ! (2 * s * b + s + t)"
        using in_range [of t] in_range [of "s + t"] t l1(2) by (simp_all add: add.assoc)
      with p2 [OF b t] undo [OF p1 [OF b t]] show ?thesis by simp
    qed
    show "us ! p = map (\<lambda>x. 2 * c * x) vs ! p"
    proof (cases "q < s")
      case True
      with pair [of q] in_range [of q] q show ?thesis by simp
    next
      case False
      then have "q - s < s" "2 * s * b + s + (q - s) = p" using q by simp_all
      with pair [of "q - s"] in_range [of q] q show ?thesis by simp
    qed
  qed
  with l1 l2(1) show ?thesis by blast
qed

lemma network_undo:
  assumes w: "0 < w"
    and f1: "\<And>tw a b. f1 tw (a, b) = g1 tw a b" "\<And>a b. g1 1 a b = (a + b, a - b)"
    and f2: "\<And>tw a b. f2 tw (a, b) = g2 tw a b" "\<And>a b. g2 1 a b = (a + b, a - b)"
    and undo: "\<And>c e a b a' b'. g1 (r1 ^ e) a b = (a', b') \<Longrightarrow> g2 (r2 ^ e) (c * a') (c * b') = (2 * c * a, 2 * c * b)"
  defines "L1 \<equiv> \<lambda>n k. butterfly_layer P f1 (bit_reversed_twiddles P n r1) (2 ^ k)"
    and "L2 \<equiv> \<lambda>n k. butterfly_layer P f2 (bit_reversed_twiddles P n r2) (2 ^ k)"
  shows "set ks \<subseteq> {..<n} \<Longrightarrow> length vs = w * 2 ^ n \<Longrightarrow> \<exists>out. rfold (L1 n) ks \<lparr>rm_values = vs, rm_width = w\<rparr>
      = (Ok \<lparr>rm_values = out, rm_width = w\<rparr> :: (_, 'e) res) \<and> length out = length vs \<and>
    rfold (L2 n) (rev ks) \<lparr>rm_values = map (\<lambda>x. c * x) out, rm_width = w\<rparr>
      = (Ok \<lparr>rm_values = map (\<lambda>x. 2 ^ length ks * c * x) vs, rm_width = w\<rparr> :: (_, 'e) res)"
proof (induction ks arbitrary: vs c)
  case Nil
  then show ?case by simp
next
  case (Cons k ks)
  then obtain d where n: "n = Suc (d + k)" by (metis add.commute add_Suc_right insert_subset less_imp_Suc_add list.simps(15) lessThan_iff)
  from layer_undo [where ?f1.0 = f1 and ?g1.0 = g1 and ?f2.0 = f2 and ?g2.0 = g2 and ?r1.0 = r1 and ?r2.0 = r2 and c = "2 ^ length ks * c" and 'e = 'e,
      OF n Cons.prems(2) w f1 f2 undo] obtain vs' where
    step: "L1 n k \<lparr>rm_values = vs, rm_width = w\<rparr> = (Ok \<lparr>rm_values = vs', rm_width = w\<rparr> :: (_, 'e) res)" "length vs' = length vs"
    "L2 n k \<lparr>rm_values = map (\<lambda>x. 2 ^ length ks * c * x) vs', rm_width = w\<rparr>
      = (Ok \<lparr>rm_values = map (\<lambda>x. 2 * (2 ^ length ks * c) * x) vs, rm_width = w\<rparr> :: (_, 'e) res)"
    unfolding L1_def L2_def by blast
  have "set ks \<subseteq> {..<n}" "length vs' = w * 2 ^ n" using Cons.prems step(2) by simp_all
  from Cons.IH [OF this, of c] obtain out where
    "rfold (L1 n) ks \<lparr>rm_values = vs', rm_width = w\<rparr> = (Ok \<lparr>rm_values = out, rm_width = w\<rparr> :: (_, 'e) res)" "length out = length vs'"
    "rfold (L2 n) (rev ks) \<lparr>rm_values = map (\<lambda>x. c * x) out, rm_width = w\<rparr>
      = (Ok \<lparr>rm_values = map (\<lambda>x. 2 ^ length ks * c * x) vs', rm_width = w\<rparr> :: (_, 'e) res)" by blast
  with step show ?case by (auto simp: rfold_append mult.assoc)
qed

section \<open>Bit reversal of the rows\<close>

lemma swap_rows_nth:
  assumes "i < j" and "j < N" and len: "length vs = N * w" and rt: "r < N" "t < w"
  shows "swap_rows w i j vs ! (r * w + t) = vs ! ((if r = i then j else if r = j then i else r) * w + t)"
    and "length (swap_rows w i j vs) = length vs"
proof -
  let ?step = "\<lambda>t vs. vs[i * w + t := vs ! (j * w + t), j * w + t := vs ! (i * w + t)]"
  have cell: "a * w + u < N * w" if "a < N" "u < w" for a u
  proof -
    have "a * w + u < (a + 1) * w" using that(2) by simp
    also have "\<dots> \<le> N * w" using that(1) by (intro mult_le_mono1) simp
    finally show ?thesis .
  qed
  have same: "a * w + u = b * w + v \<longleftrightarrow> a = b \<and> u = v" if "u < w" "v < w" for a b u v
    using that by (metis add_left_cancel div_mult_self3 div_less add.commute add.right_neutral less_nat_zero_code)
  have "m \<le> w \<Longrightarrow> length (fold ?step [0..<m] vs) = length vs \<and> (\<forall>r < N. \<forall>t < w. fold ?step [0..<m] vs ! (r * w + t)
      = vs ! ((if t < m then if r = i then j else if r = j then i else r else r) * w + t))" for m
  proof (induction m)
    case (Suc m)
    then have m: "m < w" and IH: "length (fold ?step [0..<m] vs) = length vs"
      "\<And>r t. r < N \<Longrightarrow> t < w \<Longrightarrow> fold ?step [0..<m] vs ! (r * w + t)
        = vs ! ((if t < m then if r = i then j else if r = j then i else r else r) * w + t)" by auto
    have ij: "i < N" "i \<noteq> j" using assms(1,2) by auto
    show ?case
    proof (intro conjI allI impI)
      fix r t :: nat assume "r < N" "t < w"
      then show "fold ?step [0..<Suc m] vs ! (r * w + t) = vs ! ((if t < Suc m then if r = i then j else if r = j then i else r else r) * w + t)"
        using ij assms(2) m cell [of i m] cell [of j m] cell [of r t]
        by (auto simp: nth_list_update same IH len less_Suc_eq)
    qed (simp add: IH(1))
  qed simp
  from this [of w] rt show "swap_rows w i j vs ! (r * w + t) = vs ! ((if r = i then j else if r = j then i else r) * w + t)"
    "length (swap_rows w i j vs) = length vs"
    by (simp_all add: swap_rows_def)
qed

lemma reverse_rows:
  assumes len: "length vs = w * 2 ^ n" and w: "0 < w"
  shows "\<exists>vs'. reverse_matrix_index_bits P \<lparr>rm_values = vs, rm_width = w\<rparr> = (Ok \<lparr>rm_values = vs', rm_width = w\<rparr> :: (_, 'e) res) \<and>
    length vs' = length vs \<and> (\<forall>i < 2 ^ n. \<forall>t < w. vs' ! (i * w + t) = vs ! (reverse_bits_len P i n * w + t))"
proof -
  let ?rev = "\<lambda>i. reverse_bits_len P i n"
  let ?step = "\<lambda>i vs. let j = ?rev i in if i < j then swap_rows w i j vs else vs"
  have "m \<le> 2 ^ n \<Longrightarrow> length (fold ?step [0..<m] vs) = length vs \<and> (\<forall>r < 2 ^ n. \<forall>t < w. fold ?step [0..<m] vs ! (r * w + t)
      = vs ! ((if r < m \<or> ?rev r < m then ?rev r else r) * w + t))" for m
  proof (induction m)
    case (Suc m)
    let ?vs = "fold ?step [0..<m] vs"
    from Suc have m: "m < 2 ^ n" and IH: "length ?vs = 2 ^ n * w"
      "\<And>r t. r < 2 ^ n \<Longrightarrow> t < w \<Longrightarrow> ?vs ! (r * w + t) = vs ! ((if r < m \<or> ?rev r < m then ?rev r else r) * w + t)"
      by (auto simp: len mult.commute)
    have mirror: "?rev r = q \<longleftrightarrow> r = ?rev q" if "r < 2 ^ n" "q < 2 ^ n" for r q
      using that reverse_reverse by metis
    show ?case
    proof (cases "m < ?rev m")
      case True
      note sw = swap_rows_nth [OF True reverse_less [OF m] IH(1)]
      show ?thesis
      proof (intro conjI allI impI)
        show "length (fold ?step [0..<Suc m] vs) = length vs"
          using sw(2) [of 0 0] w True IH(1) len by (simp add: Let_def mult.commute)
        fix r t :: nat assume rt: "r < 2 ^ n" "t < w"
        have "fold ?step [0..<Suc m] vs ! (r * w + t) = ?vs ! ((if r = m then ?rev m else if r = ?rev m then m else r) * w + t)"
          using sw(1) [OF rt] True by (simp add: Let_def)
        also have "\<dots> = vs ! ((if r < Suc m \<or> ?rev r < Suc m then ?rev r else r) * w + t)"
          using rt True m reverse_less [OF m] mirror [of r m] reverse_reverse [OF m] by (auto simp: IH(2) less_Suc_eq)
        finally show "fold ?step [0..<Suc m] vs ! (r * w + t) = vs ! ((if r < Suc m \<or> ?rev r < Suc m then ?rev r else r) * w + t)" .
      qed
    next
      case False
      have "(if r < m \<or> ?rev r < m then ?rev r else r) = (if r < Suc m \<or> ?rev r < Suc m then ?rev r else r)" if "r < 2 ^ n" for r
        using that False mirror [of r m] m reverse_reverse [OF m] by (auto simp: less_Suc_eq)
      with False IH len show ?thesis by (simp add: Let_def mult.commute)
    qed
  qed simp
  from this [of "2 ^ n"] len w show ?thesis
    by (simp add: reverse_matrix_index_bits_def rm_height_def Let_def)
qed

section \<open>The transforms\<close>

lemma height_power: "0 < w \<Longrightarrow> rm_height \<lparr>rm_values = vs, rm_width = w\<rparr> = length vs div w"
  by (simp add: rm_height_def)

lemma bowers_g_layers:
  assumes "n \<le> fft_adicity P" and "0 < w" and "length vs = w * 2 ^ n"
  shows "bowers_g P \<lparr>rm_values = vs, rm_width = w\<rparr> = (dif_layers n w vs [0..<n] :: (_, 'e) res)"
  using assms by (simp add: bowers_g_def height_power fft_generator_def bit_reversed_twiddles_def Let_def)

lemma gen_nonzero: "n \<le> fft_adicity P \<Longrightarrow> fft_gen P n \<noteq> 0"
  using gen_order [of n] by (auto simp: power_0_left)

lemma bowers_g_t_layers:
  assumes "n \<le> fft_adicity P" and "0 < w" and "length vs = w * 2 ^ n"
  shows "bowers_g_t P \<lparr>rm_values = vs, rm_width = w\<rparr>
     = (rfold (\<lambda>k. butterfly_layer P (dit_butterfly P) (bit_reversed_twiddles P n (inverse (fft_gen P n))) (2 ^ k)) (rev [0..<n])
         (\<lparr>rm_values = vs, rm_width = w\<rparr>) :: (_, 'e) res)"
  using assms gen_nonzero [OF assms(1)]
  by (simp add: bowers_g_t_def height_power fft_generator_def bit_reversed_twiddles_def checked_inverse_def Let_def)

text \<open>The two networks undo each other up to the number of rows.\<close>

lemma g_after_g_t:
  assumes n: "n \<le> fft_adicity P" and w: "0 < w" and len: "length vs = w * 2 ^ n"
  shows "\<exists>out. bowers_g_t P \<lparr>rm_values = vs, rm_width = w\<rparr> = (Ok \<lparr>rm_values = out, rm_width = w\<rparr> :: (_, 'e) res) \<and>
    length out = length vs \<and>
    bowers_g P \<lparr>rm_values = map (\<lambda>x. 1 / 2 ^ n * x) out, rm_width = w\<rparr> = (Ok \<lparr>rm_values = vs, rm_width = w\<rparr> :: (_, 'e) res)"
proof -
  have undo: "(\<lambda>tw a b. (a + b, (a - b) * tw)) (fft_gen P n ^ e) (c * a') (c * b') = (2 * c * a, 2 * c * b)"
    if "(\<lambda>tw a b. (a + b * tw, a - b * tw)) (inverse (fft_gen P n) ^ e) a b = (a', b')" for c e a b a' b'
  proof -
    let ?x = "fft_gen P n ^ e" and ?y = "inverse (fft_gen P n) ^ e"
    have xy: "?y * ?x = 1" using gen_nonzero [OF n] by (simp flip: power_mult_distrib)
    have "(c * (a + b * ?y) - c * (a - b * ?y)) * ?x = 2 * c * b * (?y * ?x)" by (simp only: algebra_simps) simp
    then have "(c * (a + b * ?y) - c * (a - b * ?y)) * ?x = 2 * c * b" unfolding xy by simp
    with that show ?thesis by (auto simp: algebra_simps)
  qed
  have sub: "set (rev [0..<n]) \<subseteq> {..<n}" by auto
  have "\<exists>out. rfold (\<lambda>k. butterfly_layer P (dit_butterfly P) (bit_reversed_twiddles P n (inverse (fft_gen P n))) (2 ^ k)) (rev [0..<n])
       \<lparr>rm_values = vs, rm_width = w\<rparr> = (Ok \<lparr>rm_values = out, rm_width = w\<rparr> :: (_, 'e) res) \<and> length out = length vs \<and>
     dif_layers n w (map (\<lambda>x. 1 / 2 ^ n * x) out) (rev (rev [0..<n]))
      = (Ok \<lparr>rm_values = map (\<lambda>x. 2 ^ length (rev [0..<n]) * (1 / 2 ^ n) * x) vs, rm_width = w\<rparr> :: (_, 'e) res)"
    by (rule network_undo [where ?g1.0 = "\<lambda>tw a b. (a + b * tw, a - b * tw)" and ?g2.0 = "\<lambda>tw a b. (a + b, (a - b) * tw)",
        OF w _ _ _ _ undo sub len]) (simp_all add: dit dif)
  then obtain out where "bowers_g_t P \<lparr>rm_values = vs, rm_width = w\<rparr> = (Ok \<lparr>rm_values = out, rm_width = w\<rparr> :: (_, 'e) res)"
    "length out = length vs" "dif_layers n w (map (\<lambda>x. 1 / 2 ^ n * x) out) [0..<n]
      = (Ok \<lparr>rm_values = map (\<lambda>x. 2 ^ length (rev [0..<n]) * (1 / 2 ^ n) * x) vs, rm_width = w\<rparr> :: (_, 'e) res)"
    unfolding bowers_g_t_layers [OF n w len] rev_rev_ident by blast
  moreover have "map (\<lambda>x. 2 ^ length (rev [0..<n]) * (1 / 2 ^ n) * x) vs = vs"
    using two_nonzero by (simp add: map_idI)
  ultimately show ?thesis using bowers_g_layers [OF n w, of "map (\<lambda>x. 1 / 2 ^ n * x) out", where 'e = 'e] len by auto
qed

lemma g_t_after_g:
  assumes n: "n \<le> fft_adicity P" and w: "0 < w" and len: "length vs = w * 2 ^ n"
    and out: "bowers_g P \<lparr>rm_values = vs, rm_width = w\<rparr> = (Ok \<lparr>rm_values = out, rm_width = w\<rparr> :: (_, 'e) res)"
  shows "bowers_g_t P \<lparr>rm_values = out, rm_width = w\<rparr> = (Ok \<lparr>rm_values = map (\<lambda>x. 2 ^ n * x) vs, rm_width = w\<rparr> :: (_, 'e) res)"
proof -
  have undo: "(\<lambda>tw a b. (a + b * tw, a - b * tw)) (inverse (fft_gen P n) ^ e) (c * a') (c * b') = (2 * c * a, 2 * c * b)"
    if "(\<lambda>tw a b. (a + b, (a - b) * tw)) (fft_gen P n ^ e) a b = (a', b')" for c e a b a' b'
  proof -
    let ?x = "fft_gen P n ^ e" and ?y = "inverse (fft_gen P n) ^ e"
    have xy: "?x * ?y = 1" using gen_nonzero [OF n] by (simp flip: power_mult_distrib)
    have "c * ((a - b) * ?x) * ?y = c * (a - b) * (?x * ?y)" by (simp only: mult.assoc)
    then have "c * ((a - b) * ?x) * ?y = c * (a - b)" unfolding xy by simp
    with that show ?thesis by (auto simp: algebra_simps)
  qed
  have sub: "set [0..<n] \<subseteq> {..<n}" by auto
  have "\<exists>out. dif_layers n w vs [0..<n] = (Ok \<lparr>rm_values = out, rm_width = w\<rparr> :: (_, 'e) res) \<and> length out = length vs \<and>
    rfold (\<lambda>k. butterfly_layer P (dit_butterfly P) (bit_reversed_twiddles P n (inverse (fft_gen P n))) (2 ^ k)) (rev [0..<n])
       \<lparr>rm_values = map (\<lambda>x. 1 * x) out, rm_width = w\<rparr>
      = (Ok \<lparr>rm_values = map (\<lambda>x. 2 ^ length [0..<n] * 1 * x) vs, rm_width = w\<rparr> :: (_, 'e) res)"
    by (rule network_undo [where ?g2.0 = "\<lambda>tw a b. (a + b * tw, a - b * tw)" and ?g1.0 = "\<lambda>tw a b. (a + b, (a - b) * tw)",
        OF w _ _ _ _ undo sub len]) (simp_all add: dit dif)
  then obtain out' where o: "dif_layers n w vs [0..<n] = (Ok \<lparr>rm_values = out', rm_width = w\<rparr> :: (_, 'e) res)"
    "length out' = length vs"
    "rfold (\<lambda>k. butterfly_layer P (dit_butterfly P) (bit_reversed_twiddles P n (inverse (fft_gen P n))) (2 ^ k)) (rev [0..<n])
       \<lparr>rm_values = map (\<lambda>x. 1 * x) out', rm_width = w\<rparr> = (Ok \<lparr>rm_values = map (\<lambda>x. 2 ^ n * x) vs, rm_width = w\<rparr> :: (_, 'e) res)"
    by auto
  with out have "out' = out" by (simp add: bowers_g_layers [OF n w len])
  with o show ?thesis using bowers_g_t_layers [OF n w, of out, where 'e = 'e] len by simp
qed

lemma reverse_twice:
  assumes len: "length vs = w * 2 ^ n" and w: "0 < w"
    and r: "reverse_matrix_index_bits P \<lparr>rm_values = vs, rm_width = w\<rparr> = (Ok \<lparr>rm_values = vs', rm_width = w\<rparr> :: (_, 'e) res)"
  shows "length vs' = length vs \<and>
    reverse_matrix_index_bits P \<lparr>rm_values = vs', rm_width = w\<rparr> = (Ok \<lparr>rm_values = vs, rm_width = w\<rparr> :: (_, 'e) res)"
proof -
  from reverse_rows [OF len w, where 'e = 'e] r have v': "length vs' = w * 2 ^ n"
    "\<And>i t. i < 2 ^ n \<Longrightarrow> t < w \<Longrightarrow> vs' ! (i * w + t) = vs ! (reverse_bits_len P i n * w + t)" using len by auto
  from reverse_rows [OF v'(1) w, where 'e = 'e] obtain us where
    us: "reverse_matrix_index_bits P \<lparr>rm_values = vs', rm_width = w\<rparr> = (Ok \<lparr>rm_values = us, rm_width = w\<rparr> :: (_, 'e) res)" "length us = length vs'"
    "\<And>i t. i < 2 ^ n \<Longrightarrow> t < w \<Longrightarrow> us ! (i * w + t) = vs' ! (reverse_bits_len P i n * w + t)" by auto
  have "us = vs"
  proof (rule nth_equalityI)
    fix p assume "p < length us"
    then have p: "p < 2 ^ n * w" using us(2) v'(1) by (simp add: mult.commute)
    then have "p div w < 2 ^ n" "p mod w < w" using w by (simp_all add: less_mult_imp_div_less)
    with us(3) v'(2) [OF reverse_less] reverse_reverse have "us ! (p div w * w + p mod w) = vs ! (p div w * w + p mod w)"
      by metis
    then show "us ! p = vs ! p" by simp
  qed (simp add: us(2) v'(1) len)
  with us v'(1) len show ?thesis by simp
qed

lemma dft_batch_Ok:
  assumes n: "n \<le> fft_adicity P" and w: "0 < w" and len: "length vs = w * 2 ^ n"
  shows "\<exists>out. dft_batch P \<lparr>rm_values = vs, rm_width = w\<rparr> = (Ok \<lparr>rm_values = out, rm_width = w\<rparr> :: (_, 'e) res) \<and>
    length out = length vs \<and>
    (\<forall>j < 2 ^ n. \<forall>t < w. out ! (j * w + t) = (\<Sum>i < 2 ^ n. vs ! (i * w + t) * fft_gen P n ^ (i * j)))"
proof -
  from reverse_rows [OF len w, where 'e = 'e] obtain vs' where
    v': "reverse_matrix_index_bits P \<lparr>rm_values = vs, rm_width = w\<rparr> = (Ok \<lparr>rm_values = vs', rm_width = w\<rparr> :: (_, 'e) res)" "length vs' = w * 2 ^ n"
    "\<And>i t. i < 2 ^ n \<Longrightarrow> t < w \<Longrightarrow> vs' ! (i * w + t) = vs ! (reverse_bits_len P i n * w + t)" using len by auto
  from bowers_layers [OF n w order_refl v'(2), where 'e = 'e] obtain out where
    out: "bowers_g P \<lparr>rm_values = vs', rm_width = w\<rparr> = (Ok \<lparr>rm_values = out, rm_width = w\<rparr> :: (_, 'e) res)" "length out = length vs'"
    "\<And>t j. t < w \<Longrightarrow> j < 2 ^ n \<Longrightarrow> out ! (t + w * j) = (\<Sum>i < 2 ^ n. vs' ! (w * reverse_bits_len P i n + t) * fft_gen P n ^ (i * j))"
    unfolding bowers_g_layers [OF n w v'(2)] by auto
  have "out ! (j * w + t) = (\<Sum>i < 2 ^ n. vs ! (i * w + t) * fft_gen P n ^ (i * j))" if "j < 2 ^ n" "t < w" for j t
  proof -
    have "out ! (j * w + t) = (\<Sum>i < 2 ^ n. vs' ! (reverse_bits_len P i n * w + t) * fft_gen P n ^ (i * j))"
      using out(3) [of t j] that by (simp add: add.commute mult.commute)
    also have "\<dots> = (\<Sum>i < 2 ^ n. vs ! (i * w + t) * fft_gen P n ^ (i * j))"
      using that by (intro sum.cong) (simp_all add: v'(3) reverse_less reverse_reverse)
    finally show ?thesis .
  qed
  with v' out len show ?thesis by (simp add: dft_batch_def)
qed

lemma divide_by_height_Ok:
  "0 < w \<Longrightarrow> length vs = w * 2 ^ n \<Longrightarrow> divide_by_height \<lparr>rm_values = vs, rm_width = w\<rparr>
     = (Ok \<lparr>rm_values = map (\<lambda>x. 1 / 2 ^ n * x) vs, rm_width = w\<rparr> :: (_, 'e) res)"
  by (simp add: divide_by_height_def height_power scale_slice_in_place_def mult.commute)

lemma idft_batch_Ok:
  assumes n: "n \<le> fft_adicity P" and w: "0 < w" and len: "length vs = w * 2 ^ n"
  shows "\<exists>cs. idft_batch P \<lparr>rm_values = vs, rm_width = w\<rparr> = (Ok \<lparr>rm_values = cs, rm_width = w\<rparr> :: (_, 'e) res) \<and>
    length cs = length vs \<and> dft_batch P \<lparr>rm_values = cs, rm_width = w\<rparr> = (Ok \<lparr>rm_values = vs, rm_width = w\<rparr> :: (_, 'e) res)"
proof -
  from g_after_g_t [OF assms, where 'e = 'e] obtain out where
    out: "bowers_g_t P \<lparr>rm_values = vs, rm_width = w\<rparr> = (Ok \<lparr>rm_values = out, rm_width = w\<rparr> :: (_, 'e) res)" "length out = w * 2 ^ n"
    "bowers_g P \<lparr>rm_values = map (\<lambda>x. 1 / 2 ^ n * x) out, rm_width = w\<rparr> = (Ok \<lparr>rm_values = vs, rm_width = w\<rparr> :: (_, 'e) res)"
    using len by auto
  let ?d = "map (\<lambda>x. 1 / 2 ^ n * x) out"
  have ld: "length ?d = w * 2 ^ n" using out(2) by simp
  from reverse_rows [OF ld w, where 'e = 'e] obtain cs where
    "reverse_matrix_index_bits P \<lparr>rm_values = ?d, rm_width = w\<rparr> = (Ok \<lparr>rm_values = cs, rm_width = w\<rparr> :: (_, 'e) res)" by auto
  with reverse_twice [OF ld w this] out len show ?thesis
    by (auto simp: idft_batch_def dft_batch_def divide_by_height_Ok [OF w out(2)])
qed

lemma idft_dft_batch:
  assumes n: "n \<le> fft_adicity P" and w: "0 < w" and len: "length vs = w * 2 ^ n"
    and out: "dft_batch P \<lparr>rm_values = vs, rm_width = w\<rparr> = (Ok \<lparr>rm_values = out, rm_width = w\<rparr> :: (_, 'e) res)"
  shows "idft_batch P \<lparr>rm_values = out, rm_width = w\<rparr> = (Ok \<lparr>rm_values = vs, rm_width = w\<rparr> :: (_, 'e) res)"
proof -
  from reverse_rows [OF len w, where 'e = 'e] obtain vs' where
    v': "reverse_matrix_index_bits P \<lparr>rm_values = vs, rm_width = w\<rparr> = (Ok \<lparr>rm_values = vs', rm_width = w\<rparr> :: (_, 'e) res)" "length vs' = w * 2 ^ n"
    using len by auto
  with out have "bowers_g P \<lparr>rm_values = vs', rm_width = w\<rparr> = (Ok \<lparr>rm_values = out, rm_width = w\<rparr> :: (_, 'e) res)" by (simp add: dft_batch_def)
  from g_t_after_g [OF n w v'(2) this] have "bowers_g_t P \<lparr>rm_values = out, rm_width = w\<rparr>
      = (Ok \<lparr>rm_values = map (\<lambda>x. 2 ^ n * x) vs', rm_width = w\<rparr> :: (_, 'e) res)" .
  moreover have "map (\<lambda>x. 1 / 2 ^ n * x) (map (\<lambda>x. 2 ^ n * x) vs') = vs'" using two_nonzero by (simp add: map_idI)
  then have "divide_by_height \<lparr>rm_values = map (\<lambda>x. 2 ^ n * x) vs', rm_width = w\<rparr> = (Ok \<lparr>rm_values = vs', rm_width = w\<rparr> :: (_, 'e) res)"
    using divide_by_height_Ok [OF w, of "map (\<lambda>x. 2 ^ n * x) vs'" n, where 'e = 'e] v'(2)
    by (simp only: length_map)
  ultimately show ?thesis using reverse_twice [OF len w v'(1)] by (simp add: idft_batch_def)
qed

lemma scale_row_nth:
  assumes len: "length vs = N * w" and r: "r < N" and at: "a < N" "t < w"
  shows "rm_values (scale_row r c \<lparr>rm_values = vs, rm_width = w\<rparr>) ! (a * w + t) = vs ! (a * w + t) * (if a = r then c else 1)"
    and "length (rm_values (scale_row r c \<lparr>rm_values = vs, rm_width = w\<rparr>)) = length vs"
proof -
  let ?step = "\<lambda>t vs. vs[r * w + t := vs ! (r * w + t) * c]"
  have cell: "a * w + u < N * w" if "a < N" "u < w" for a u
  proof -
    have "a * w + u < (a + 1) * w" using that(2) by simp
    also have "\<dots> \<le> N * w" using that(1) by (intro mult_le_mono1) simp
    finally show ?thesis .
  qed
  have same: "a * w + u = b * w + v \<longleftrightarrow> a = b \<and> u = v" if "u < w" "v < w" for a b u v
    using that by (metis add_left_cancel div_mult_self3 div_less add.commute add.right_neutral less_nat_zero_code)
  have "m \<le> w \<Longrightarrow> length (fold ?step [0..<m] vs) = length vs \<and> (\<forall>a < N. \<forall>t < w. fold ?step [0..<m] vs ! (a * w + t)
      = vs ! (a * w + t) * (if a = r \<and> t < m then c else 1))" for m
  proof (induction m)
    case (Suc m)
    with r cell show ?case by (auto simp: nth_list_update same len less_Suc_eq)
  qed simp
  from this [of w] at show "rm_values (scale_row r c \<lparr>rm_values = vs, rm_width = w\<rparr>) ! (a * w + t) = vs ! (a * w + t) * (if a = r then c else 1)"
    "length (rm_values (scale_row r c \<lparr>rm_values = vs, rm_width = w\<rparr>)) = length vs"
    by (simp_all add: scale_row_def)
qed

lemma scale_rows:
  assumes len: "length vs = 2 ^ n * w"
  shows "m \<le> 2 ^ n \<Longrightarrow> \<exists>us. fold (\<lambda>i. scale_row (reverse_bits_len P i n) (c i)) [0..<m] \<lparr>rm_values = vs, rm_width = w\<rparr>
      = \<lparr>rm_values = us, rm_width = w\<rparr> \<and> length us = length vs \<and>
    (\<forall>a < 2 ^ n. \<forall>t < w. us ! (a * w + t) = vs ! (a * w + t) * (if reverse_bits_len P a n < m then c (reverse_bits_len P a n) else 1))"
proof (induction m)
  case (Suc m)
  let ?rev = "\<lambda>i. reverse_bits_len P i n"
  from Suc obtain us where us: "fold (\<lambda>i. scale_row (?rev i) (c i)) [0..<m] \<lparr>rm_values = vs, rm_width = w\<rparr> = \<lparr>rm_values = us, rm_width = w\<rparr>"
    "length us = 2 ^ n * w"
    "\<And>a t. a < 2 ^ n \<Longrightarrow> t < w \<Longrightarrow> us ! (a * w + t) = vs ! (a * w + t) * (if ?rev a < m then c (?rev a) else 1)"
    using len by auto
  have m: "m < 2 ^ n" using Suc.prems by simp
  let ?mat = "scale_row (?rev m) (c m) \<lparr>rm_values = us, rm_width = w\<rparr>"
  have eq: "a = ?rev m \<longleftrightarrow> ?rev a = m" if "a < 2 ^ n" for a using that m reverse_reverse by metis
  have "?mat = \<lparr>rm_values = rm_values ?mat, rm_width = w\<rparr>" by (simp add: scale_row_def)
  moreover have "rm_values ?mat ! (a * w + t) = vs ! (a * w + t) * (if ?rev a < Suc m then c (?rev a) else 1)"
    if "a < 2 ^ n" "t < w" for a t
    using that scale_row_nth(1) [OF us(2) reverse_less [OF m] that, of "c m"] by (auto simp: us(3) eq less_Suc_eq)
  moreover have "length (rm_values ?mat) = length vs"
  proof (cases "w = 0")
    case False
    then show ?thesis using scale_row_nth(2) [OF us(2) reverse_less [OF m], of 0 0 "c m"] us(2) len by simp
  qed (use us(2) len in \<open>simp add: scale_row_def\<close>)
  ultimately show ?case using us(1) by auto
qed simp

lemma reverse_padded:
  assumes "i < 2 ^ (n + k)" and "reverse_bits_len P i (n + k) = 2 ^ k * q" and "q < 2 ^ n"
  shows "i < 2 ^ n \<and> reverse_bits_len P i n = q"
proof -
  let ?x = "reverse_bits_len P q n"
  have x: "?x < 2 ^ n" by (rule reverse_less [OF assms(3)])
  have "reverse_bits_len P ?x (n + k) = 2 ^ k * q"
    using reverse_shift [OF x, of k] by (simp add: reverse_reverse [OF assms(3)])
  moreover have "?x < 2 ^ (n + k)" using x by (metis le_add1 less_le_trans one_le_numeral power_increasing)
  ultimately have "i = ?x" using assms(1,2) reverse_reverse by metis
  with x show ?thesis by (simp add: reverse_reverse [OF assms(3)])
qed

lemma padded_nth:
  assumes len: "length vs = w * 2 ^ n" and w: "0 < w"
  shows "\<exists>us. bit_reversed_zero_pad P k \<lparr>rm_values = vs, rm_width = w\<rparr> = \<lparr>rm_values = us, rm_width = w\<rparr> \<and> length us = w * 2 ^ (n + k) \<and>
    (\<forall>q < 2 ^ n. \<forall>p < 2 ^ k. \<forall>t < w. us ! ((2 ^ k * q + p) * w + t) = (if p = 0 then vs ! (q * w + t) else 0))"
proof -
  define row where "row i = take w (drop (i * w) vs) @ replicate ((2 ^ k - 1) * w) 0" for i
  have in_range: "q * w + w \<le> length vs" if "q < 2 ^ n" for q
  proof -
    have "(q + 1) * w \<le> 2 ^ n * w" using that by (intro mult_le_mono1) simp
    then show ?thesis by (simp add: len algebra_simps)
  qed
  have len_row: "length (row q) = 2 ^ k * w" if "q < 2 ^ n" for q
  proof -
    have "w + (2 ^ k - 1) * w = 2 ^ k * w" by (metis add.commute le_add_diff_inverse2 mult_Suc one_le_numeral one_le_power plus_1_eq_Suc)
    with in_range [OF that] show ?thesis by (simp add: row_def)
  qed
  then have all: "\<forall>x \<in> set (map row [0..<2 ^ n]). length x = 2 ^ k * w" by simp
  show ?thesis
  proof (intro exI [of _ "concat (map row [0..<2 ^ n])"] conjI allI impI)
    show "bit_reversed_zero_pad P k \<lparr>rm_values = vs, rm_width = w\<rparr> = \<lparr>rm_values = concat (map row [0..<2 ^ n]), rm_width = w\<rparr>"
      unfolding row_def by (rule zero_pad [OF len])
    show "length (concat (map row [0..<2 ^ n])) = w * 2 ^ (n + k)"
      using length_concat_blocks [OF all] by (simp add: power_add)
    fix q p t :: nat assume q: "q < 2 ^ n" and p: "p < 2 ^ k" and t: "t < w"
    have "p * w + t < 2 ^ k * w"
    proof -
      have "p * w + t < (p + 1) * w" using t by simp
      also have "\<dots> \<le> 2 ^ k * w" using p by (intro mult_le_mono1) simp
      finally show ?thesis .
    qed
    with concat_nth_block [OF all, of q "p * w + t"] q have "concat (map row [0..<2 ^ n]) ! ((2 ^ k * q + p) * w + t) = row q ! (p * w + t)"
      by (simp add: algebra_simps)
    also have "\<dots> = (if p = 0 then vs ! (q * w + t) else 0)"
    proof (cases p)
      case (Suc p')
      have "p * w + t - w < (2 ^ k - 1) * w" using Suc \<open>p * w + t < 2 ^ k * w\<close> by (simp add: diff_mult_distrib)
      moreover have "length (take w (drop (q * w) vs)) = w" using in_range [OF q] by simp
      ultimately show ?thesis using Suc t by (simp add: row_def nth_append)
    qed (use in_range [OF q] t in \<open>simp add: row_def nth_append\<close>)
    finally show "concat (map row [0..<2 ^ n]) ! ((2 ^ k * q + p) * w + t) = (if p = 0 then vs ! (q * w + t) else 0)" .
  qed
qed

lemma coset_lde_batch_Ok:
  assumes n: "n + k \<le> fft_adicity P" and w: "0 < w" and len: "length vs = w * 2 ^ n"
    and cs: "idft_batch P \<lparr>rm_values = vs, rm_width = w\<rparr> = (Ok \<lparr>rm_values = cs, rm_width = w\<rparr> :: (_, 'e) res)"
  shows "\<exists>out. coset_lde_batch P \<lparr>rm_values = vs, rm_width = w\<rparr> k shift = (Ok \<lparr>rm_values = out, rm_width = w\<rparr> :: (_, 'e) res) \<and>
    length out = w * 2 ^ (n + k) \<and>
    (\<forall>j < 2 ^ (n + k). \<forall>t < w. out ! (j * w + t) = (\<Sum>i < 2 ^ n. cs ! (i * w + t) * (shift * fft_gen P (n + k) ^ j) ^ i))"
proof -
  have n': "n \<le> fft_adicity P" using n by simp
  from g_after_g_t [OF n' w len, where 'e = 'e] obtain ys where
    ys: "bowers_g_t P \<lparr>rm_values = vs, rm_width = w\<rparr> = (Ok \<lparr>rm_values = ys, rm_width = w\<rparr> :: (_, 'e) res)" "length ys = w * 2 ^ n"
    using len by auto
  let ?d = "map (\<lambda>x. 1 / 2 ^ n * x) ys"
  have ld: "length ?d = w * 2 ^ n" using ys(2) by simp
  have "reverse_matrix_index_bits P \<lparr>rm_values = ?d, rm_width = w\<rparr> = (Ok \<lparr>rm_values = cs, rm_width = w\<rparr> :: (_, 'e) res)"
    using cs divide_by_height_Ok [OF w ys(2), where 'e = 'e] by (simp add: idft_batch_def ys(1))
  with reverse_rows [OF ld w, where 'e = 'e]
  have cs_nth: "cs ! (i * w + t) = ?d ! (reverse_bits_len P i n * w + t)" if "i < 2 ^ n" "t < w" for i t
    using that by auto
  have cell: "a * w + t < 2 ^ n * w" if "a < 2 ^ n" "t < w" for a t
  proof -
    have "a * w + t < (a + 1) * w" using that(2) by simp
    also have "\<dots> \<le> 2 ^ n * w" using that(1) by (intro mult_le_mono1) simp
    finally show ?thesis .
  qed
  let ?c = "\<lambda>i. 1 / 2 ^ n * shift ^ i"
  have "length ys = 2 ^ n * w" using ys(2) by (simp add: mult.commute)
  from scale_rows [OF this order_refl, of ?c] obtain zs where
    zs: "fold (\<lambda>i. scale_row (reverse_bits_len P i n) (?c i)) [0..<2 ^ n] \<lparr>rm_values = ys, rm_width = w\<rparr> = \<lparr>rm_values = zs, rm_width = w\<rparr>"
    "length zs = w * 2 ^ n"
    and zs_nth: "\<And>a t. a < 2 ^ n \<Longrightarrow> t < w \<Longrightarrow> zs ! (a * w + t) = ys ! (a * w + t) * ?c (reverse_bits_len P a n)"
    using ys(2) reverse_less by auto
  have coeff: "zs ! (reverse_bits_len P i n * w + t) = cs ! (i * w + t) * shift ^ i" if "i < 2 ^ n" "t < w" for i t
  proof -
    have "zs ! (reverse_bits_len P i n * w + t) = ys ! (reverse_bits_len P i n * w + t) * ?c i"
      using zs_nth [OF reverse_less [OF that(1)] that(2)] by (simp only: reverse_reverse [OF that(1)])
    moreover have "reverse_bits_len P i n * w + t < length ys"
      using cell [OF reverse_less [OF that(1)] that(2)] ys(2) by (simp add: mult.commute)
    ultimately show ?thesis using that by (simp add: cs_nth)
  qed
  from padded_nth [OF zs(2) w, of k] obtain us where
    us: "bit_reversed_zero_pad P k \<lparr>rm_values = zs, rm_width = w\<rparr> = \<lparr>rm_values = us, rm_width = w\<rparr>" "length us = w * 2 ^ (n + k)"
    and us_nth: "\<And>q p t. q < 2 ^ n \<Longrightarrow> p < 2 ^ k \<Longrightarrow> t < w \<Longrightarrow> us ! ((2 ^ k * q + p) * w + t) = (if p = 0 then zs ! (q * w + t) else 0)"
    by auto
  from bowers_layers [OF n w order_refl us(2), where 'e = 'e] obtain out where
    out: "bowers_g P \<lparr>rm_values = us, rm_width = w\<rparr> = (Ok \<lparr>rm_values = out, rm_width = w\<rparr> :: (_, 'e) res)" "length out = w * 2 ^ (n + k)"
    "\<And>t j. t < w \<Longrightarrow> j < 2 ^ (n + k) \<Longrightarrow> out ! (t + w * j)
        = (\<Sum>i < 2 ^ (n + k). us ! (w * reverse_bits_len P i (n + k) + t) * fft_gen P (n + k) ^ (i * j))"
    unfolding bowers_g_layers [OF n w us(2)] using us(2) by auto
  have "out ! (j * w + t) = (\<Sum>i < 2 ^ n. cs ! (i * w + t) * (shift * fft_gen P (n + k) ^ j) ^ i)" if j: "j < 2 ^ (n + k)" and t: "t < w" for j t
  proof -
    let ?summand = "\<lambda>i. us ! (w * reverse_bits_len P i (n + k) + t) * fft_gen P (n + k) ^ (i * j)"
    have zero: "?summand i = 0" if "i < 2 ^ (n + k)" "\<not> i < 2 ^ n" for i
    proof -
      let ?r = "reverse_bits_len P i (n + k)"
      have r: "?r < 2 ^ (n + k)" by (rule reverse_less [OF that(1)])
      then have q: "?r div 2 ^ k < 2 ^ n" by (simp add: power_add less_mult_imp_div_less)
      have "?r mod 2 ^ k \<noteq> 0"
        using reverse_padded [OF that(1), of "?r div 2 ^ k"] q that(2) by (metis add.right_neutral mult_div_mod_eq)
      moreover have "?r = 2 ^ k * (?r div 2 ^ k) + ?r mod 2 ^ k" by simp
      ultimately have "us ! (?r * w + t) = 0" using us_nth [OF q, of "?r mod 2 ^ k" t] t by simp
      then show ?thesis by (simp add: mult.commute)
    qed
    have "out ! (j * w + t) = (\<Sum>i < 2 ^ (n + k). ?summand i)" using out(3) [OF t j] by (simp add: add.commute mult.commute)
    also have "\<dots> = (\<Sum>i < 2 ^ n. ?summand i)"
      by (rule sum.mono_neutral_right) (auto simp: zero power_add intro: less_le_trans)
    also have "\<dots> = (\<Sum>i < 2 ^ n. cs ! (i * w + t) * (shift * fft_gen P (n + k) ^ j) ^ i)"
    proof (rule sum.cong [OF refl])
      fix i :: nat assume "i \<in> {..<2 ^ n}"
      then have i: "i < 2 ^ n" by simp
      have "us ! (w * reverse_bits_len P i (n + k) + t) = zs ! (reverse_bits_len P i n * w + t)"
        using us_nth [OF reverse_less [OF i], of 0 t] t by (simp add: reverse_shift [OF i] mult.commute mult.left_commute)
      then show "?summand i = cs ! (i * w + t) * (shift * fft_gen P (n + k) ^ j) ^ i"
        by (simp add: coeff [OF i t] power_mult_distrib power_mult [symmetric] mult.commute [of i j])
    qed
    finally show ?thesis .
  qed
  moreover have "coset_lde_batch P \<lparr>rm_values = vs, rm_width = w\<rparr> k shift = (Ok \<lparr>rm_values = out, rm_width = w\<rparr> :: (_, 'e) res)"
    using ys(1) zs(1) us(1) out(1) len w by (simp add: coset_lde_batch_def height_power Let_def)
  ultimately show ?thesis using out(2) by blast
qed

text \<open>The transforms of one column.\<close>

lemma dft_Ok:
  assumes "n \<le> fft_adicity P" and "length cs = 2 ^ n"
  shows "dft P cs = (Ok (map (\<lambda>j. horner_eval cs (fft_gen P n ^ j)) [0..<2 ^ n]) :: (_, 'e) res)"
proof -
  from dft_batch_Ok [OF assms(1), of 1 cs, where 'e = 'e] assms(2) obtain out where
    out: "dft_batch P \<lparr>rm_values = cs, rm_width = 1\<rparr> = (Ok \<lparr>rm_values = out, rm_width = 1\<rparr> :: (_, 'e) res)" "length out = 2 ^ n"
    "\<And>j. j < 2 ^ n \<Longrightarrow> out ! j = (\<Sum>i < 2 ^ n. cs ! i * fft_gen P n ^ (i * j))" by auto
  have "out = map (\<lambda>j. horner_eval cs (fft_gen P n ^ j)) [0..<2 ^ n]"
    by (rule nth_equalityI) (simp_all add: out(2,3) horner_eval_sum assms(2) power_mult [symmetric] mult.commute)
  with out(1) show ?thesis by (simp add: dft_def)
qed

lemma idft_Ok:
  assumes "n \<le> fft_adicity P" and "length vs = 2 ^ n"
  shows "\<exists>cs. idft P vs = (Ok cs :: (_, 'e) res) \<and> length cs = 2 ^ n \<and> dft P cs = (Ok vs :: (_, 'e) res)"
  using idft_batch_Ok [OF assms(1), of 1 vs, where 'e = 'e] assms(2) by (auto simp: idft_def dft_def)

lemma idft_dft:
  assumes "n \<le> fft_adicity P" and "length cs = 2 ^ n" and "dft P cs = (Ok vs :: (_, 'e) res)"
  shows "idft P vs = (Ok cs :: (_, 'e) res)"
proof -
  from dft_batch_Ok [OF assms(1), of 1 cs, where 'e = 'e] assms(2) obtain out where
    out: "dft_batch P \<lparr>rm_values = cs, rm_width = 1\<rparr> = (Ok \<lparr>rm_values = out, rm_width = 1\<rparr> :: (_, 'e) res)" by auto
  with assms(3) have "out = vs" by (simp add: dft_def)
  with idft_dft_batch [OF assms(1) _ _ out] assms(2) show ?thesis by (simp add: idft_def)
qed

end

section \<open>An instance for every two-adic field\<close>

fun bit_rev :: "nat \<Rightarrow> nat \<Rightarrow> nat" where
  "bit_rev x 0 = 0"
| "bit_rev x (Suc n) = (if odd x then 2 ^ n else 0) + bit_rev (x div 2) n"

lemma bit_rev_less: "bit_rev x n < 2 ^ n"
proof (induction n arbitrary: x)
  case (Suc n)
  from Suc [of "x div 2"] show ?case by simp
qed simp

lemma bit_rev_bit: "k < n \<Longrightarrow> bit (bit_rev x n) k \<longleftrightarrow> bit x (n - 1 - k)"
proof (induction n arbitrary: x k)
  case (Suc n)
  let ?r = "bit_rev (x div 2) n"
  have r: "?r < 2 ^ n" by (rule bit_rev_less)
  have split: "bit (bit_rev x (Suc n)) j \<longleftrightarrow> (if j < n then bit ?r j else odd x)" if "j \<le> n" for j
  proof (cases "odd x")
    case True
    have "?r + 2 ^ n = ?r + 2 ^ (n - j) * 2 ^ j" using that by (simp flip: power_add)
    then have "(2 ^ n + ?r) div 2 ^ j = ?r div 2 ^ j + 2 ^ (n - j)" by (simp add: add.commute)
    with True that r show ?thesis by (auto simp: bit_iff_odd)
  qed (use r that in \<open>auto simp: bit_iff_odd\<close>)
  show ?case
  proof (cases "k < n")
    case True
    then have "Suc n - 1 - k = Suc (n - 1 - k)" by simp
    with True Suc.IH [OF True, of "x div 2"] split [of k] show ?thesis by (simp add: bit_Suc)
  next
    case False
    with Suc.prems have "k = n" by simp
    with split [of k] show ?thesis by (simp add: bit_0)
  qed
qed simp

definition plain_fft :: "(nat \<Rightarrow> 'a) \<Rightarrow> nat \<Rightarrow> 'a::field fft_ops" where
  "plain_fft gen adicity = \<lparr>dif_butterfly = (\<lambda>tw (a, b). (a + b, (a - b) * tw)), dit_butterfly = (\<lambda>tw (a, b). (a + b * tw, a - b * tw)),
     twiddle_free_butterfly = (\<lambda>(a, b). (a + b, a - b)), reverse_bits_len = bit_rev,
     reverse_slice_index_bits = (\<lambda>xs. map (\<lambda>i. xs ! bit_rev i (log2_floor (length xs))) [0..<length xs]),
     bit_reversed_zero_pad = (\<lambda>added mat. mat\<lparr>rm_values := concat (map (\<lambda>i. take (rm_width mat) (drop (i * rm_width mat) (rm_values mat))
         @ replicate ((2 ^ added - 1) * rm_width mat) 0) [0..<rm_height mat])\<rparr>),
     fft_gen = gen, fft_adicity = adicity\<rparr>"

lemma plain_fft_simps [simp]: "fft_gen (plain_fft gen adicity) = gen" "fft_adicity (plain_fft gen adicity) = adicity"
  by (simp_all add: plain_fft_def)

lemma two_adic_bowers: "two_adic gen adicity \<Longrightarrow> bowers (plain_fft gen adicity)"
  unfolding bowers_def bowers_axioms_def plain_fft_def
  by (auto simp: bit_rev_less bit_rev_bit rm_height_def)

interpretation f17_bowers: bowers "plain_fft f17_gen 4"
  by (rule two_adic_bowers [OF f17_two_adic.two_adic_axioms])

section \<open>Properties\<close>

text \<open>C17. The Bowers networks compute the DFT: for a coefficient vector whose length is a power of two in the
  field's range, \<open>dft\<close> returns the values of the polynomial at the powers of the generator in
  natural order, and \<open>idft\<close> takes these values back to the coefficients.\<close>
theorem dft_reference:
  assumes "bowers P" and "n \<le> fft_adicity P" and "length cs = 2 ^ n"
  shows "dft P cs = (Ok (map (\<lambda>j. horner_eval cs (fft_gen P n ^ j)) [0..<2 ^ n]) :: (_, 'e) res) \<and>
     idft P (map (\<lambda>j. horner_eval cs (fft_gen P n ^ j)) [0..<2 ^ n]) = (Ok cs :: (_, 'e) res)"
  by (intro conjI bowers.dft_Ok [OF assms] bowers.idft_dft [OF assms] )

theorem dft_reference_witness:
  "dft (plain_fft f17_gen 4) [1, 2, 3, 4] = (Ok (map (\<lambda>j. horner_eval [1, 2, 3, 4] (f17_gen 2 ^ j)) [0..<2 ^ 2]) :: (_, unit) res) \<and>
     idft (plain_fft f17_gen 4) (map (\<lambda>j. horner_eval [1, 2, 3, 4] (f17_gen 2 ^ j)) [0..<2 ^ 2]) = (Ok [1, 2, 3, 4] :: (_, unit) res)"
  using dft_reference [OF f17_bowers.bowers_axioms, of 2 "[1, 2, 3, 4]", where 'e = unit] by simp

text \<open>C20. The coset low-degree extension is one: every column of the input is the list of values, on the subgroup of
  the height of the matrix, of a polynomial of smaller degree, and the output has \<open>2 ^ added_bits\<close> times as
  many rows, the values of the same polynomials on the coset \<open>shift * H\<close> of the larger subgroup \<open>H\<close>.\<close>
theorem coset_lde_extends:
  assumes "bowers P" and "n + added \<le> fft_adicity P" and "0 < w" and "length vs = w * 2 ^ n"
  shows "\<exists>cs out. coset_lde_batch P \<lparr>rm_values = vs, rm_width = w\<rparr> added shift = (Ok \<lparr>rm_values = out, rm_width = w\<rparr> :: (_, 'e) res) \<and>
     length out = w * 2 ^ (n + added) \<and>
     (\<forall>t < w. length (cs t) = 2 ^ n \<and>
        (\<forall>j < 2 ^ n. vs ! (j * w + t) = horner_eval (cs t) (fft_gen P n ^ j)) \<and>
        (\<forall>j < 2 ^ (n + added). out ! (j * w + t) = horner_eval (cs t) (shift * fft_gen P (n + added) ^ j)))"
proof -
  have n: "n \<le> fft_adicity P" using assms(2) by simp
  from bowers.idft_batch_Ok [OF assms(1) n assms(3,4), where 'e = 'e] obtain cs where
    cs: "idft_batch P \<lparr>rm_values = vs, rm_width = w\<rparr> = (Ok \<lparr>rm_values = cs, rm_width = w\<rparr> :: (_, 'e) res)" "length cs = w * 2 ^ n"
    "dft_batch P \<lparr>rm_values = cs, rm_width = w\<rparr> = (Ok \<lparr>rm_values = vs, rm_width = w\<rparr> :: (_, 'e) res)" using assms(4) by auto
  from bowers.coset_lde_batch_Ok [OF assms cs(1), of shift] obtain out where
    out: "coset_lde_batch P \<lparr>rm_values = vs, rm_width = w\<rparr> added shift = (Ok \<lparr>rm_values = out, rm_width = w\<rparr> :: (_, 'e) res)"
    "length out = w * 2 ^ (n + added)"
    "\<forall>j < 2 ^ (n + added). \<forall>t < w. out ! (j * w + t) = (\<Sum>i < 2 ^ n. cs ! (i * w + t) * (shift * fft_gen P (n + added) ^ j) ^ i)" by auto
  let ?c = "\<lambda>t. map (\<lambda>i. cs ! (i * w + t)) [0..<2 ^ n]"
  have "horner_eval (?c t) x = (\<Sum>i < 2 ^ n. cs ! (i * w + t) * x ^ i)" for t x by (simp add: horner_eval_sum)
  with bowers.dft_batch_Ok [OF assms(1) n assms(3) cs(2), where 'e = 'e] cs(3) out show ?thesis
    by (intro exI [of _ ?c] exI [of _ out]) (simp add: power_mult [symmetric] mult.commute)
qed

theorem coset_lde_extends_witness:
  "\<exists>cs out. coset_lde_batch (plain_fft f17_gen 4) \<lparr>rm_values = [1, 2, 3, 4], rm_width = 2\<rparr> 2 3
       = (Ok \<lparr>rm_values = out, rm_width = 2\<rparr> :: (_, unit) res) \<and> length out = 16 \<and> length (cs (1 :: nat)) = 2 \<and>
     [1, 2, 3, 4] ! 3 = horner_eval (cs 1) (f17_gen 1) \<and> out ! 7 = horner_eval (cs 1) (3 * f17_gen 3 ^ 3)"
proof -
  from coset_lde_extends [OF f17_bowers.bowers_axioms, of 1 2 2 "[1, 2, 3, 4]" 3, where 'e = unit]
  obtain cs out where *: "coset_lde_batch (plain_fft f17_gen 4) \<lparr>rm_values = [1, 2, 3, 4], rm_width = 2\<rparr> 2 3
       = (Ok \<lparr>rm_values = out, rm_width = 2\<rparr> :: (_, unit) res)" "length out = 16"
    and all: "\<forall>t < 2. length (cs t) = 2 \<and> (\<forall>j < 2. [1, 2, 3, 4] ! (j * 2 + t) = horner_eval (cs t) (f17_gen 1 ^ j)) \<and>
      (\<forall>j < 8. out ! (j * 2 + t) = horner_eval (cs t) (3 * f17_gen 3 ^ j))"
    by (auto simp: eval_nat_numeral)
  have "(1 :: nat) < 2" "(3 :: nat) < 8" by simp_all
  with all have v: "length (cs 1) = 2" "[1, 2, 3, 4] ! (1 * 2 + 1) = horner_eval (cs 1) (f17_gen 1 ^ 1)"
    "out ! (3 * 2 + 1) = horner_eval (cs 1) (3 * f17_gen 3 ^ 3)" by blast+
  from v(2,3) have "[1, 2, 3, 4] ! 3 = horner_eval (cs 1) (f17_gen 1)" "out ! 7 = horner_eval (cs 1) (3 * f17_gen 3 ^ 3)" by simp_all
  with * v(1) show ?thesis by blast
qed

end
