(* ===== verification/PlePoly.thy ===== *)
theory PlePoly
  imports MlePoly Dft SumcheckRound
begin

text \<open>
  Prismalinear polynomials (\<open>prover/poly.rs\<close>): in a coefficient vector the low \<open>l_skip\<close> bits of
  the index are the power of the univariate variable, the high bits a monomial of the multilinear ones. The message that the
  Reed-Solomon code encodes (\<open>eval_to_coeff_rs_message\<close>) has the same value at an opening point. Plonky3's
  transforms are the parameter \<open>subgroup_dft\<close>; its contract is the locale \<open>subgroup_transform\<close>,
  which the development's own transform of \<open>dft/radix_2_bowers_serial.rs\<close> satisfies.
\<close>

section \<open>The code\<close>

record 'a subgroup_dft =
  sd_dft :: "'a list \<Rightarrow> 'a list"
  sd_idft :: "'a list \<Rightarrow> 'a list"

definition ple_from_evaluations :: "'a::field subgroup_dft \<Rightarrow> nat \<Rightarrow> 'a list \<Rightarrow> ('a list, 'e) res" where
  "ple_from_evaluations D ls evals =
     rbind (log2_strict (length evals)) (\<lambda>prism_dim.
     rbind (assert_that (ls \<le> prism_dim)) (\<lambda>_.
     let buf = concat (map (sd_idft D) (chunks (2 ^ ls) evals)) in
     Ok (fold (\<lambda>i. cube_layer (\<lambda>u v. v - u) (2 ^ (ls + i))) [0..<prism_dim - ls] buf)))"

text \<open>\<open>i.trailing_zeros() >= ls\<close> is divisibility by \<open>2 ^ ls\<close>.\<close>

definition ple_eval_at_point :: "('f \<Rightarrow> 'ef::field) \<Rightarrow> 'f list \<Rightarrow> nat \<Rightarrow> 'ef \<Rightarrow> 'ef list \<Rightarrow> ('ef, 'e) res" where
  "ple_eval_at_point emb coeffs ls z x =
     rbind (log2_strict (length coeffs)) (\<lambda>dim.
     rbind (assert_that (ls + length x = dim)) (\<lambda>_.
     Ok (fst (fold (\<lambda>(i, coeff) (res, z_pow).
           let z_pow = if 2 ^ ls dvd i then 1 else z_pow; i_x = i div 2 ^ ls;
               term = fold (\<lambda>(j, x_j) term. if odd (i_x div 2 ^ j) then term * x_j else term) (enumerated x) (z_pow * emb coeff)
           in (res + term, z_pow * z)) (enumerated coeffs) (0, 1)))))"

definition eval_to_coeff_rs_message :: "'a::field subgroup_dft \<Rightarrow> nat \<Rightarrow> 'a list \<Rightarrow> ('a list, 'e) res" where
  "eval_to_coeff_rs_message D ls evals =
     rbind (assert_that (evals \<noteq> [])) (\<lambda>_.
     rbind (log2_strict (length evals)) (\<lambda>prism_dim.
     rbind (assert_that (ls \<le> prism_dim)) (\<lambda>_.
     let buf = concat (map (sd_idft D) (chunks (2 ^ ls) evals)) in
     rbind (rmap coeffs_to_evals_inplace (chunks (2 ^ ls) buf)) (\<lambda>blocks.
     Ok (concat blocks)))))"

text \<open>The table of the interpolation kernel; it is filled from the front like the tables on the cube.\<close>

definition evals_eq_hyperprism :: "('f \<Rightarrow> 'ef::field) \<Rightarrow> 'f list \<Rightarrow> 'ef \<Rightarrow> 'ef list \<Rightarrow> ('ef list, 'e) res" where
  "evals_eq_hyperprism emb omega_pows z x =
     rbind (log2_strict (length omega_pows)) (\<lambda>ls.
     Ok (fold (\<lambda>x_i out. map (\<lambda>eq_prev. eq_prev * (1 - x_i)) out @ map (\<lambda>eq_prev. eq_prev * x_i) out) x
           (map (\<lambda>omega_pow. eval_eq_uni ls z (emb omega_pow)) omega_pows)))"

definition eq_sharp_uni_poly :: "'a::field fft_ops \<Rightarrow> 'a list \<Rightarrow> ('a list, 'e) res" where
  "eq_sharp_uni_poly P xi_1 = idft P (evals_eq_hypercube_serial xi_1)"

section \<open>The transforms of Plonky3\<close>

locale subgroup_transform = two_adic gen adicity for gen :: "nat \<Rightarrow> 'a::field" and adicity +
  fixes D :: "'a subgroup_dft"
  assumes dft_values: "n \<le> adicity \<Longrightarrow> length cs = 2 ^ n \<Longrightarrow> sd_dft D cs = map (\<lambda>j. horner_eval cs (gen n ^ j)) [0..<2 ^ n]"
    and idft_inverts: "n \<le> adicity \<Longrightarrow> length vs = 2 ^ n \<Longrightarrow> length (sd_idft D vs) = 2 ^ n \<and> sd_dft D (sd_idft D vs) = vs"
begin

lemma idft_length: "n \<le> adicity \<Longrightarrow> length vs = 2 ^ n \<Longrightarrow> length (sd_idft D vs) = 2 ^ n"
  using idft_inverts by blast

lemma idft_nth: "n \<le> adicity \<Longrightarrow> length vs = 2 ^ n \<Longrightarrow> i < 2 ^ n \<Longrightarrow> horner_eval (sd_idft D vs) (gen n ^ i) = vs ! i"
proof -
  assume n: "n \<le> adicity" "length vs = 2 ^ n" and i: "i < 2 ^ n"
  have "sd_dft D (sd_idft D vs) ! i = horner_eval (sd_idft D vs) (gen n ^ i)"
    using dft_values [OF n(1) idft_length [OF n]] i by simp
  then show ?thesis using idft_inverts [OF n] by simp
qed

end

text \<open>The serial transform of the repository.\<close>

definition serial_dft :: "'a::field fft_ops \<Rightarrow> 'a subgroup_dft" where
  "serial_dft P = \<lparr>sd_dft = (\<lambda>cs. case (dft P cs :: (_, unit) res) of Ok vs \<Rightarrow> vs | _ \<Rightarrow> cs),
     sd_idft = (\<lambda>vs. case (idft P vs :: (_, unit) res) of Ok cs \<Rightarrow> cs | _ \<Rightarrow> vs)\<rparr>"

lemma serial_transform: "bowers P \<Longrightarrow> subgroup_transform (fft_gen P) (fft_adicity P) (serial_dft P)"
proof (intro subgroup_transform.intro subgroup_transform_axioms.intro)
  assume P: "bowers P"
  then show "two_adic (fft_gen P) (fft_adicity P)" by (simp add: bowers_def)
  show "sd_dft (serial_dft P) cs = map (\<lambda>j. horner_eval cs (fft_gen P n ^ j)) [0..<2 ^ n]"
    if "n \<le> fft_adicity P" "length cs = 2 ^ n" for n cs
    using bowers.dft_Ok [OF P that, where 'e = unit] by (simp add: serial_dft_def)
  show "length (sd_idft (serial_dft P) vs) = 2 ^ n \<and> sd_dft (serial_dft P) (sd_idft (serial_dft P) vs) = vs"
    if "n \<le> fft_adicity P" "length vs = 2 ^ n" for n vs
    using bowers.idft_Ok [OF P that, where 'e = unit] by (auto simp: serial_dft_def)
qed

interpretation f17_serial: subgroup_transform f17_gen 4 "serial_dft (plain_fft f17_gen 4)"
  using serial_transform [OF f17_bowers.bowers_axioms] by simp

section \<open>Layers of blocks\<close>

lemma concat_concat: "concat (concat xss) = concat (map concat xss)"
  by (induction xss) simp_all

lemma take_concat_blocks: "\<forall>b \<in> set bs. length b = N \<Longrightarrow> take (k * N) (concat bs) = concat (take k bs)"
proof (induction bs arbitrary: k)
  case (Cons b bs)
  then show ?case by (cases k) auto
qed simp

lemma drop_concat_blocks: "\<forall>b \<in> set bs. length b = N \<Longrightarrow> drop (k * N) (concat bs) = concat (drop k bs)"
proof (induction bs arbitrary: k)
  case (Cons b bs)
  then show ?case by (cases k) auto
qed simp

lemma chunks_concat:
  "\<forall>b \<in> set bs. length b = N \<Longrightarrow> 0 < N \<Longrightarrow> 0 < k \<Longrightarrow> chunks (k * N) (concat bs) = map concat (chunks k bs)"
proof (induction k bs rule: chunks.induct)
  case (1 k bs)
  show ?case
  proof (cases "bs = []")
    case False
    then have "concat bs \<noteq> []" using "1.prems" by (cases bs) auto
    with False 1 take_concat_blocks [OF "1.prems"(1), of k] drop_concat_blocks [OF "1.prems"(1), of k] show ?thesis
      by (simp add: chunks.simps [of "k * N"] chunks.simps [of k bs] in_set_dropD)
  qed (simp add: chunks.simps)
qed

lemma chunks_blocks: "\<forall>b \<in> set bs. length b = N \<Longrightarrow> 0 < N \<Longrightarrow> chunks N (concat bs) = bs"
proof -
  assume b: "\<forall>b \<in> set bs. length b = N" "0 < N"
  have "length bs = length bs * 1" by simp
  from chunks_exact [OF _ this] have "chunks 1 bs = map (\<lambda>i. take 1 (drop i bs)) [0..<length bs]" by simp
  then have "map concat (chunks 1 bs) = bs" by (intro nth_equalityI) (simp_all add: take_Suc_conv_app_nth hd_drop_conv_nth take_Suc)
  with chunks_concat [OF b, of 1] show ?thesis by simp
qed

lemma map2_concat:
  "length as = length bs \<Longrightarrow> \<forall>b \<in> set as. length b = N \<Longrightarrow> \<forall>b \<in> set bs. length b = N \<Longrightarrow>
     map2 f (concat as) (concat bs) = concat (map2 (map2 f) as bs)"
  by (induction as bs rule: list_induct2) auto

lemma cube_layer_blocks:
  assumes b: "\<forall>b \<in> set bs. length b = N" and N: "0 < N" and s: "0 < s" "2 * s dvd length bs"
  shows "cube_layer f (s * N) (concat bs) = concat (cube_layer (map2 f) s bs) \<and> (\<forall>b \<in> set (cube_layer (map2 f) s bs). length b = N)"
proof -
  let ?g = "\<lambda>c. take s c @ map2 (map2 f) (take s c) (drop s c)"
  have c: "length c = 2 * s \<and> (\<forall>b \<in> set c. length b = N)" if "c \<in> set (chunks (2 * s) bs)" for c
  proof -
    have "set c \<subseteq> set (concat (chunks (2 * s) bs))" using that by auto
    then have "set c \<subseteq> set bs" using s(1) by (simp add: concat_chunks)
    with b chunks_length [OF s(2) that] show ?thesis by auto
  qed
  have "take (s * N) (concat c) @ map2 f (take (s * N) (concat c)) (drop (s * N) (concat c)) = concat (?g c)"
    if "c \<in> set (chunks (2 * s) bs)" for c
    unfolding take_concat_blocks [OF conjunct2 [OF c [OF that]]] drop_concat_blocks [OF conjunct2 [OF c [OF that]]] concat_append
    by (subst map2_concat [of _ _ N]) (use c [OF that] in \<open>auto dest: in_set_takeD in_set_dropD\<close>)
  moreover have "chunks (2 * (s * N)) (concat bs) = map concat (chunks (2 * s) bs)"
    using chunks_concat [OF b N, of "2 * s"] s(1) by (simp add: mult.assoc)
  ultimately have "cube_layer f (s * N) (concat bs) = concat (cube_layer (map2 f) s bs)"
    by (simp add: cube_layer_def comp_def concat_concat cong: map_cong)
  moreover have "\<forall>b \<in> set (?g c). length b = N" if "c \<in> set (chunks (2 * s) bs)" for c
    using c [OF that] by (auto dest!: in_set_takeD in_set_dropD simp: set_zip)
  ultimately show ?thesis by (auto simp: cube_layer_def)
qed

lemma cube_layers_blocks:
  assumes b: "\<forall>b \<in> set bs. length b = N" and N: "0 < N" and len: "length bs = 2 ^ n" and le: "m \<le> n"
  shows "fold (\<lambda>i. cube_layer f (2 ^ i * N)) [0..<m] (concat bs) = concat (cube_layers (map2 f) m bs) \<and>
     (\<forall>b \<in> set (cube_layers (map2 f) m bs). length b = N)"
  using le
proof (induction m)
  case (Suc m)
  have "length (cube_layers (map2 f) m bs) = 2 ^ n" using Suc.prems len by (simp add: cube_layers_shape [of m n])
  moreover have "2 ^ Suc m dvd (2 :: nat) ^ n" using Suc.prems by (intro le_imp_power_dvd)
  ultimately show ?case
    using Suc cube_layer_blocks [of "cube_layers (map2 f) m bs" N "2 ^ m" f] N by simp
qed (simp add: b)

text \<open>A map that is compatible with the operation goes through all layers.\<close>

lemma cube_layers_hom:
  assumes hom: "\<And>u v. length u = N \<Longrightarrow> length v = N \<Longrightarrow> h (map2 f u v) = g (h u) (h v)"
  shows "length bs = 2 ^ n \<Longrightarrow> \<forall>b \<in> set bs. length b = N \<Longrightarrow>
     map h (cube_layers (map2 f) n bs) = cube_layers g n (map h bs) \<and> (\<forall>b \<in> set (cube_layers (map2 f) n bs). length b = N)"
proof (induction rule: halves_induct)
  case (halves n lo hi)
  let ?L = "cube_layers (map2 f) n lo" and ?H = "cube_layers (map2 f) n hi"
  have IH: "map h ?L = cube_layers g n (map h lo)" "map h ?H = cube_layers g n (map h hi)"
    "\<forall>b \<in> set ?L. length b = N" "\<forall>b \<in> set ?H. length b = N" using halves by auto
  have len: "length ?L = length ?H" using halves(1,2) by simp
  have "map h (map2 (map2 f) ls hs) = map2 g (map h ls) (map h hs)"
    if "length ls = length hs" "\<forall>b \<in> set ls. length b = N" "\<forall>b \<in> set hs. length b = N" for ls hs
    using that by (induction ls hs rule: list_induct2) (simp_all add: hom)
  from this [OF len IH(3,4)] have "map h (map2 (map2 f) ?L ?H) = map2 g (map h ?L) (map h ?H)" .
  moreover have "\<forall>b \<in> set (map2 (map2 f) ?L ?H). length b = N"
  proof -
    have "length u = N \<and> length v = N" if "(u, v) \<in> set (zip ?L ?H)" for u v
      using that IH(3,4) by (blast dest: set_zip_leftD set_zip_rightD)
    then show ?thesis by auto
  qed
  ultimately show ?case using halves(1,2) IH by (auto simp: cube_layers_halves simp del: cube_layers_step)
qed simp

lemma map_cube_layers:
  assumes "\<And>u v. e (f u v) = g (e u) (e v)"
  shows "length a = 2 ^ n \<Longrightarrow> map e (cube_layers f n a) = cube_layers g n (map e a)"
proof (induction rule: halves_induct)
  case (halves n lo hi)
  have "map e (map2 f xs ys) = map2 g (map e xs) (map e ys)" for xs ys
    by (induction xs ys rule: list_induct2') (simp_all add: assms)
  with halves show ?case by (simp add: cube_layers_halves del: cube_layers_step)
qed simp

section \<open>The value of a prismalinear polynomial\<close>

lemma ple_loop:
  assumes "0 < (N :: nat)"
  shows "fold (\<lambda>(i, coeff) (res, z_pow). let z_pow = if N dvd i then 1 else z_pow; i_x = i div N
           in (res + z_pow * emb coeff * monomial i_x x, z_pow * z)) (enumerated coeffs) (0, 1)
     = (\<Sum>i < length coeffs. z ^ (i mod N) * emb (coeffs ! i) * monomial (i div N) x,
        if coeffs = [] then 1 else z ^ ((length coeffs - 1) mod N) * z)"
proof (induction coeffs rule: rev_induct)
  case (snoc c cs)
  have "z ^ ((length cs - 1) mod N) * z = z ^ (length cs mod N)" if "\<not> N dvd length cs"
  proof -
    from that have "cs \<noteq> []" by auto
    then obtain k where k: "length cs = Suc k" by (cases cs) auto
    with that have "Suc (k mod N) \<noteq> N" by (metis dvd_eq_mod_eq_0 mod_Suc)
    then show ?thesis using k by (simp add: mod_Suc mult.commute)
  qed
  then show ?case
    using snoc by (cases "cs = []") (auto simp: Let_def nth_append dvd_eq_mod_eq_0)
qed simp

lemma sum_blocks: "(\<Sum>i < M * N. f i) = (\<Sum>b < M. \<Sum>r < N. f (b * N + r :: nat))" for f :: "nat \<Rightarrow> 'a::comm_monoid_add"
proof (induction M)
  case (Suc M)
  have "{..<Suc M * N} = {..<M * N} \<union> {M * N..<M * N + N}" by auto
  then have "sum f {..<Suc M * N} = sum f {..<M * N} + sum f {M * N..<M * N + N}"
    by (simp add: sum.union_disjoint ivl_disj_int)
  also have "sum f {M * N..<M * N + N} = (\<Sum>r < N. f (M * N + r))"
    using sum.shift_bounds_nat_ivl [of f 0 "M * N" N] by (simp add: lessThan_atLeast0 add.commute)
  finally show ?case by (simp add: Suc)
qed simp

lemma ple_eval_Ok:
  assumes b: "\<forall>b \<in> set bs. length b = 2 ^ l" and len: "length bs = 2 ^ length x"
  shows "ple_eval_at_point emb (concat bs) l z x = (Ok (mle_coeff (map (\<lambda>b. horner_eval (map emb b) z) bs) x) :: (_, 'e) res)"
proof -
  let ?N = "2 ^ l :: nat"
  have lc: "length (concat bs) = 2 ^ length x * ?N" using length_concat_blocks [OF b] len by simp
  have "(\<Sum>i < length (concat bs). z ^ (i mod ?N) * emb (concat bs ! i) * monomial (i div ?N) x)
      = (\<Sum>c < 2 ^ length x. \<Sum>r < ?N. z ^ r * emb (bs ! c ! r) * monomial c x)"
    unfolding lc sum_blocks by (intro sum.cong refl) (simp add: concat_nth_block [OF b] len)
  also have "\<dots> = (\<Sum>c < 2 ^ length x. horner_eval (map emb (bs ! c)) z * monomial c x)"
  proof (intro sum.cong refl)
    fix c assume "c \<in> {..<2 ^ length x :: nat}"
    then have "length (bs ! c) = ?N" using b len by simp
    then show "(\<Sum>r < ?N. z ^ r * emb (bs ! c ! r) * monomial c x) = horner_eval (map emb (bs ! c)) z * monomial c x"
      by (simp add: horner_eval_sum sum_distrib_right mult.commute [of "z ^ _"])
  qed
  also have "\<dots> = mle_coeff (map (\<lambda>b. horner_eval (map emb b) z) bs) x"
    using len by (simp add: mle_coeff_sum)
  finally have sum: "(\<Sum>i < length (concat bs). z ^ (i mod ?N) * emb (concat bs ! i) * monomial (i div ?N) x) = \<dots>" .
  have "log2_strict (length (concat bs)) = (Ok (l + length x) :: (_, 'e) res)" unfolding lc by (simp flip: power_add add: add.commute)
  with ple_loop [of ?N emb x z "concat bs"] show ?thesis
    unfolding ple_eval_at_point_def fold_monomial by (simp only: rbind.simps assert_that_simps if_True simp_thms sum) (simp add: sum)
qed

lemma mle_sum_blocks:
  assumes b: "\<forall>b \<in> set bs. length b = 2 ^ length p" and len: "length bs = 2 ^ length x"
  shows "mle_sum (concat bs) (p @ x) = mle_sum (map (\<lambda>b. mle_sum b p) bs) x"
  using len b
proof (induction rule: point_induct)
  case (one c)
  then show ?case by (simp add: mle_sum_def [of _ "[]"])
next
  case (halves x a lo hi)
  have "length (concat lo) = 2 ^ length (p @ x)" "length (concat hi) = 2 ^ length (p @ x)"
    using halves length_concat_blocks [of lo "2 ^ length p"] length_concat_blocks [of hi "2 ^ length p"] by (simp_all add: power_add)
  from mle_sum_halves [OF this, of a] halves show ?case by (simp add: mle_sum_halves)
qed

lemma horner_fold_even_odd: "horner_eval (fold_even_odd z c) (z * z) = horner_eval c z"
  by (induction z c rule: fold_even_odd.induct) (simp_all add: horner_Cons algebra_simps)

text \<open>At the point \<open>z, z\<^sup>2, z\<^sup>4, \<dots>\<close> the multilinear polynomial is the univariate one.\<close>

lemma mle_coeff_powers: "length c = 2 ^ n \<Longrightarrow> mle_coeff c (exp_powers_of_2 n z) = horner_eval c z"
proof (induction n arbitrary: c z)
  case 0
  then show ?case by (auto simp: length_Suc_conv horner_Cons)
next
  case (Suc n)
  have "length (fold_even_odd z c) = 2 ^ n" using Suc.prems by (simp add: length_fold_even_odd)
  from Suc.IH [OF this, of "z * z"] show ?case by (simp add: mle_coeff_def horner_fold_even_odd)
qed


section \<open>The interpolation kernel\<close>

lemma eval_eq_uni_commute: "eval_eq_uni l x y = eval_eq_uni l y x"
proof -
  have "(\<Sum>k = 1..<2 ^ l. x ^ (2 ^ l - k) * y ^ k) = (\<Sum>k = 1..<2 ^ l. y ^ (2 ^ l - k) * x ^ k)"
    by (rule sum.reindex_bij_witness [of _ "\<lambda>k. 2 ^ l - k" "\<lambda>k. 2 ^ l - k"]) auto
  then show ?thesis by (simp add: eval_eq_uni_sum eq_uni_sum_def)
qed

context two_adic
begin

lemma lagrange_kernel:
  assumes l: "l \<le> adicity" and len: "length c = 2 ^ l"
  shows "horner_eval c z = (\<Sum>i < 2 ^ l. eval_eq_uni l z (gen l ^ i) * horner_eval c (gen l ^ i))"
proof (rule poly_fn_unique [of "2 ^ l - 1" "horner_eval c"
      "\<lambda>z. \<Sum>i < 2 ^ l. eval_eq_uni l z (gen l ^ i) * horner_eval c (gen l ^ i)" "\<lambda>i. gen l ^ i"])
  show "poly_fn (2 ^ l - 1) (horner_eval c)" using len by (auto simp: poly_fn_def)
  have "poly_fn (2 ^ l - 1) (\<lambda>z. eval_eq_uni l z (gen l ^ i))" for i
    unfolding poly_fn_def using eq_uni_poly_eval [of l "gen l ^ i"] length_eq_uni_poly [of l "gen l ^ i"]
    by (intro exI [of _ "eq_uni_poly l (gen l ^ i)"]) (simp add: eval_eq_uni_commute)
  then show "poly_fn (2 ^ l - 1) (\<lambda>z. \<Sum>i < 2 ^ l. eval_eq_uni l z (gen l ^ i) * horner_eval c (gen l ^ i))"
    by (intro poly_fn_sum) (simp_all only: mult.commute [of "eval_eq_uni _ _ _"] poly_fn_smult finite_lessThan)
  show "inj_on (\<lambda>i. gen l ^ i) {..2 ^ l - 1}" using gen_inject [OF l] by (auto simp: inj_on_def le_eq_less_or_eq less_diff_conv)
  show "horner_eval c (gen l ^ j) = (\<Sum>i < 2 ^ l. eval_eq_uni l (gen l ^ j) (gen l ^ i) * horner_eval c (gen l ^ i))"
    if "j \<le> 2 ^ l - 1" for j
  proof -
    have "0 < (2 :: nat) ^ l" by simp
    with that have j: "j < 2 ^ l" by linarith
    have "(\<Sum>i < 2 ^ l. eval_eq_uni l (gen l ^ j) (gen l ^ i) * horner_eval c (gen l ^ i))
        = (\<Sum>i < 2 ^ l. if j = i then horner_eval c (gen l ^ i) else 0)"
      using j by (intro sum.cong) (simp_all add: eq_uni_gen [OF l])
    then show ?thesis using j by simp
  qed
qed

end

text \<open>The entries of the table.\<close>

definition hyperprism_table :: "(nat \<Rightarrow> 'a::field) \<Rightarrow> nat \<Rightarrow> 'a \<Rightarrow> 'a list \<Rightarrow> 'a list" where
  "hyperprism_table g l z x = concat (map (\<lambda>e. map (\<lambda>i. eval_eq_uni l z (g l ^ i) * e) [0..<2 ^ l]) (evals_eq_hypercube x))"

lemma hyperprism_table_snoc:
  "hyperprism_table g l z (x @ [a]) = map (\<lambda>e. e * (1 - a)) (hyperprism_table g l z x) @ map (\<lambda>e. e * a) (hyperprism_table g l z x)"
  by (simp add: hyperprism_table_def evals_eq_hypercube_serial_eq hypercube_fold_append map_concat comp_def mult.assoc)

lemma length_hyperprism_table: "length (hyperprism_table g l z x) = 2 ^ (l + length x)"
proof -
  have "\<forall>b \<in> set (map (\<lambda>e. map (\<lambda>i. eval_eq_uni l z (g l ^ i) * e) [0..<2 ^ l]) (evals_eq_hypercube x)). length b = 2 ^ l" by simp
  from length_concat_blocks [OF this] show ?thesis
    by (simp add: hyperprism_table_def evals_eq_hypercube_serial_eq power_add mult.commute)
qed

lemma evals_eq_hyperprism_Ok:
  "evals_eq_hyperprism emb (map (\<lambda>i. g l ^ i) [0..<2 ^ l]) z x = (Ok (hyperprism_table (\<lambda>l. emb (g l)) l z x) :: (_, 'e) res)"
  if "\<And>a n. emb (a ^ n) = emb a ^ n"
proof -
  have "fold (\<lambda>x_i out. map (\<lambda>eq_prev. eq_prev * (1 - x_i)) out @ map (\<lambda>eq_prev. eq_prev * x_i) out) x
      (map (\<lambda>omega_pow. eval_eq_uni l z (emb omega_pow)) (map (\<lambda>i. g l ^ i) [0..<2 ^ l])) = hyperprism_table (\<lambda>l. emb (g l)) l z x"
    by (induction x rule: rev_induct)
      (simp_all add: hyperprism_table_snoc, simp add: hyperprism_table_def evals_eq_hypercube_def that)
  then show ?thesis by (simp add: evals_eq_hyperprism_def del: map_map)
qed


section \<open>Interpolation and the message of the code\<close>

lemma sum_list_blocks:
  "length bs = length ws \<Longrightarrow> \<forall>b \<in> set bs. length b = N \<Longrightarrow> \<forall>w \<in> set ws. length w = N \<Longrightarrow>
     sum_list (map2 f (concat bs) (concat ws)) = sum_list (map2 (\<lambda>b w. sum_list (map2 f b w)) bs ws)"
  by (induction bs ws rule: list_induct2) simp_all

text \<open>The values of the rows of the prism at \<open>z\<close>.\<close>

definition prism_values :: "('f::field, 'ef::field) field_ext \<Rightarrow> 'f subgroup_dft \<Rightarrow> nat \<Rightarrow> 'f list \<Rightarrow> 'ef \<Rightarrow> 'ef list" where
  "prism_values X D l evals z = map (\<lambda>b. horner_eval (map (fe_embed X) (sd_idft D b)) z) (chunks (2 ^ l) evals)"

context field_tower
begin

lemma horner_embed: "horner_eval (map (fe_embed X) c) (fe_embed X t) = fe_embed X (horner_eval c t)"
  by (induction c) (simp_all add: horner_Cons)

lemma horner_embed_diff:
  "length u = length v \<Longrightarrow> horner_eval (map (fe_embed X) (map2 (\<lambda>u v. v - u) u v)) z
     = horner_eval (map (fe_embed X) v) z - horner_eval (map (fe_embed X) u) z"
  by (induction u v rule: list_induct2) (simp_all add: horner_Cons right_diff_distrib)

lemma prism_blocks:
  assumes D: "subgroup_transform (fe_gen X) (fe_adicity X) D" and l: "l \<le> fe_adicity X" and len: "length evals = 2 ^ (l + n)"
  shows "\<forall>b \<in> set (chunks (2 ^ l) evals). length b = 2 ^ l" "length (chunks (2 ^ l) evals) = 2 ^ n"
    "\<forall>b \<in> set (map (sd_idft D) (chunks (2 ^ l) evals)). length b = 2 ^ l"
proof -
  show b: "\<forall>b \<in> set (chunks (2 ^ l) evals). length b = 2 ^ l"
    using chunks_length [of "2 ^ l" evals] len by (simp add: power_add)
  show "length (chunks (2 ^ l) evals) = 2 ^ n"
    using length_concat_blocks [OF b] concat_chunks [of "2 ^ l" evals] len by (simp add: power_add)
  show "\<forall>b \<in> set (map (sd_idft D) (chunks (2 ^ l) evals)). length b = 2 ^ l"
    using subgroup_transform.idft_length [OF D l] b by auto
qed

lemma ple_value:
  assumes D: "subgroup_transform (fe_gen X) (fe_adicity X) D" and l: "l \<le> fe_adicity X" and len: "length evals = 2 ^ (l + length x)"
  shows "\<exists>c. ple_from_evaluations D l evals = (Ok c :: (_, 'e) res) \<and>
    (\<forall>z y. length y = length x \<longrightarrow> ple_eval_at_point (fe_embed X) c l z y = (Ok (mle_sum (prism_values X D l evals z) y) :: (_, 'e) res))"
proof -
  let ?I = "map (sd_idft D) (chunks (2 ^ l) evals)" and ?n = "length x"
  note blocks = prism_blocks [OF D l len]
  define bs where "bs = cube_layers (map2 (\<lambda>u v. v - u)) ?n ?I"
  have lI: "length ?I = 2 ^ ?n" using blocks(2) by simp
  have run: "fold (\<lambda>i. cube_layer (\<lambda>u v. v - u) (2 ^ i * 2 ^ l)) [0..<?n] (concat ?I) = concat bs" "\<forall>b \<in> set bs. length b = 2 ^ l"
    using cube_layers_blocks [OF blocks(3) _ lI order_refl, of "\<lambda>u v. v - u"] by (simp_all add: bs_def)
  have "ple_from_evaluations D l evals = (Ok (concat bs) :: (_, 'e) res)"
  proof -
    have "ple_from_evaluations D l evals = (Ok (fold (\<lambda>i. cube_layer (\<lambda>u v. v - u) (2 ^ (l + i))) [0..<?n] (concat ?I)) :: (_, 'e) res)"
      by (simp add: ple_from_evaluations_def len)
    moreover have "(2 :: nat) ^ (l + i) = 2 ^ i * 2 ^ l" for i by (simp add: power_add)
    ultimately show ?thesis using run(1) by simp
  qed
  moreover have "ple_eval_at_point (fe_embed X) (concat bs) l z y = (Ok (mle_sum (prism_values X D l evals z) y) :: (_, 'e) res)"
    if y: "length y = length x" for z y
  proof -
    let ?h = "\<lambda>b. horner_eval (map (fe_embed X) b) z"
    have "map ?h bs = to_coeffs ?n (map ?h ?I)"
      unfolding bs_def using cube_layers_hom [of "2 ^ l" ?h "\<lambda>u v. v - u" "\<lambda>u v. v - u" ?I ?n] horner_embed_diff lI blocks(3) by simp
    also have "map ?h ?I = prism_values X D l evals z" by (simp add: prism_values_def)
    finally have "map ?h bs = to_coeffs (length y) (prism_values X D l evals z)" using y by simp
    moreover have lv: "length (prism_values X D l evals z) = 2 ^ length y" using blocks(2) y by (simp add: prism_values_def)
    moreover have "length bs = 2 ^ length y" using lI y by (simp add: bs_def)
    ultimately show ?thesis
      using ple_eval_Ok [OF run(2), of y "fe_embed X" z] mle_sum_to_evals [of "to_coeffs (length y) (prism_values X D l evals z)" y] by simp
  qed
  ultimately show ?thesis by blast
qed

lemma prism_values_grid:
  assumes D: "subgroup_transform (fe_gen X) (fe_adicity X) D" and l: "l \<le> fe_adicity X" and len: "length evals = 2 ^ (l + n)"
    and i: "i < 2 ^ l" and b: "b < 2 ^ n"
  shows "prism_values X D l evals (fe_embed X (fe_gen X l ^ i)) ! b = fe_embed X (evals ! (b * 2 ^ l + i))"
proof -
  note blocks = prism_blocks [OF D l len]
  have "evals ! (b * 2 ^ l + i) = chunks (2 ^ l) evals ! b ! i"
    using concat_nth_block [OF blocks(1), of b i] b i blocks(2) by (simp add: concat_chunks)
  moreover have "length (chunks (2 ^ l) evals ! b) = 2 ^ l" using blocks(1,2) b by simp
  ultimately show ?thesis
    using subgroup_transform.idft_nth [OF D l _ i] b blocks(2) unfolding prism_values_def by (simp add: horner_embed del: embed_power)
qed

lemma mle_sum_corner: "j < 2 ^ length x \<Longrightarrow> mle_sum vs (cube_point (length x) j) = vs ! j" for vs x :: "'ef list"
proof -
  assume j: "j < 2 ^ length x"
  have "mle_sum vs (cube_point (length x) j) = (\<Sum>i < 2 ^ length x. if i = j then vs ! i else 0)"
    unfolding mle_sum_def length_cube_point by (rule sum.cong) (use j in \<open>auto simp: eq_mle_cube\<close>)
  with j show ?thesis by simp
qed

lemma prism_values_table:
  assumes D: "subgroup_transform (fe_gen X) (fe_adicity X) D" and l: "l \<le> fe_adicity X" and len: "length evals = 2 ^ (l + length x)"
  shows "mle_sum (prism_values X D l evals z) x
     = sum_list (map2 (\<lambda>e k. fe_embed X e * k) evals (hyperprism_table (\<lambda>l. fe_embed X (fe_gen X l)) l z x))"
proof -
  let ?g = "\<lambda>l. fe_embed X (fe_gen X l)" and ?bs = "chunks (2 ^ l) evals"
  let ?row = "\<lambda>e. map (\<lambda>i. eval_eq_uni l z (?g l ^ i) * e) [0..<2 ^ l]"
  note blocks = prism_blocks [OF D l len]
  have val: "prism_values X D l evals z ! b = (\<Sum>i < 2 ^ l. eval_eq_uni l z (?g l ^ i) * fe_embed X (?bs ! b ! i))" if b: "b < 2 ^ length x" for b
  proof -
    have lb: "length (?bs ! b) = 2 ^ l" using blocks(1,2) b by simp
    have "horner_eval (map (fe_embed X) (sd_idft D (?bs ! b))) (?g l ^ i) = fe_embed X (?bs ! b ! i)" if "i < 2 ^ l" for i
      using horner_embed [of "sd_idft D (?bs ! b)" "fe_gen X l ^ i"] subgroup_transform.idft_nth [OF D l lb that] by simp
    with ext.lagrange_kernel [OF l, of "map (fe_embed X) (sd_idft D (?bs ! b))" z] subgroup_transform.idft_length [OF D l lb] b blocks(2)
    show ?thesis by (simp add: prism_values_def)
  qed
  have "sum_list (map2 (\<lambda>e k. fe_embed X e * k) evals (hyperprism_table ?g l z x))
      = sum_list (map2 (\<lambda>b w. sum_list (map2 (\<lambda>e k. fe_embed X e * k) b w)) ?bs (map ?row (evals_eq_hypercube x)))"
    unfolding hyperprism_table_def
    using sum_list_blocks [of ?bs "map ?row (evals_eq_hypercube x)" "2 ^ l" "\<lambda>e k. fe_embed X e * k"] blocks(1,2)
    by (simp add: concat_chunks evals_eq_hypercube_serial_eq)
  also have "\<dots> = (\<Sum>b < 2 ^ length x. \<Sum>i < 2 ^ l. fe_embed X (?bs ! b ! i) * (eval_eq_uni l z (?g l ^ i) * evals_eq_hypercube x ! b))"
    using blocks(1,2) by (simp add: sum_list_map2_nth evals_eq_hypercube_serial_eq)
  also have "\<dots> = (\<Sum>b < 2 ^ length x. prism_values X D l evals z ! b * eq_mle_value x (cube_point (length x) b))"
  proof (intro sum.cong refl)
    fix b assume "b \<in> {..<2 ^ length x :: nat}"
    then have b: "b < 2 ^ length x" by simp
    show "(\<Sum>i < 2 ^ l. fe_embed X (?bs ! b ! i) * (eval_eq_uni l z (?g l ^ i) * evals_eq_hypercube x ! b))
        = prism_values X D l evals z ! b * eq_mle_value x (cube_point (length x) b)"
      unfolding val [OF b] sum_distrib_right evals_eq_hypercube_serial_eq hypercube_nth [OF b]
      by (intro sum.cong refl) (simp only: mult_ac)
  qed
  finally show ?thesis by (simp add: mle_sum_def)
qed

lemma rs_message_run:
  assumes D: "subgroup_transform (fe_gen X) (fe_adicity X) D" and l: "l \<le> fe_adicity X" and len: "length evals = 2 ^ (l + n)"
  shows "eval_to_coeff_rs_message D l evals = (Ok (concat (map (to_evals l) (map (sd_idft D) (chunks (2 ^ l) evals)))) :: (_, 'e) res)"
proof -
  let ?I = "map (sd_idft D) (chunks (2 ^ l) evals)"
  note blocks = prism_blocks [OF D l len]
  have "rmap coeffs_to_evals_inplace ?I = (Ok (map (to_evals l) ?I) :: (_, 'e) res)"
    by (rule rmap_total) (use blocks(3) in \<open>auto intro: coeffs_to_evals_Ok\<close>)
  moreover from len have "evals \<noteq> []" by auto
  ultimately show ?thesis using chunks_blocks [OF blocks(3)] by (simp add: eval_to_coeff_rs_message_def len)
qed

lemma rs_message_value:
  assumes D: "subgroup_transform (fe_gen X) (fe_adicity X) D" and l: "l \<le> fe_adicity X" and len: "length evals = 2 ^ (l + length x)"
  shows "\<exists>m. eval_to_coeff_rs_message D l evals = (Ok m :: (_, 'e) res) \<and> length m = 2 ^ (l + length x) \<and>
    (\<forall>z. mle_sum (map (fe_embed X) m) (exp_powers_of_2 l z @ x) = mle_sum (prism_values X D l evals z) x)"
proof -
  let ?I = "map (sd_idft D) (chunks (2 ^ l) evals)" and ?n = "length x"
  note blocks = prism_blocks [OF D l len]
  define ms where "ms = map (to_evals l) ?I"
  have run: "eval_to_coeff_rs_message D l evals = (Ok (concat ms) :: (_, 'e) res)"
    using rs_message_run [OF assms] by (simp add: ms_def)
  have lms: "\<forall>b \<in> set ms. length b = 2 ^ l" "length ms = 2 ^ ?n" using blocks(2,3) by (auto simp: ms_def)
  have "mle_sum (map (fe_embed X) (concat ms)) (exp_powers_of_2 l z @ x) = mle_sum (prism_values X D l evals z) x" for z
  proof -
    have "mle_sum (map (fe_embed X) (to_evals l b)) (exp_powers_of_2 l z) = horner_eval (map (fe_embed X) b) z"
      if b: "b \<in> set ?I" for b
    proof -
      have lb: "length b = 2 ^ l" using b blocks(3) by blast
      then have "map (fe_embed X) (to_evals l b) = to_evals l (map (fe_embed X) b)" by (intro map_cube_layers) simp_all
      with mle_sum_to_evals [of "map (fe_embed X) b" "exp_powers_of_2 l z"] lb show ?thesis by (simp add: mle_coeff_powers)
    qed
    then have "map (\<lambda>b. mle_sum b (exp_powers_of_2 l z)) (map (map (fe_embed X)) ms) = prism_values X D l evals z"
      by (auto simp: ms_def prism_values_def)
    with mle_sum_blocks [of "map (map (fe_embed X)) ms" "exp_powers_of_2 l z" x] lms show ?thesis by (simp add: map_concat)
  qed
  moreover have "length (concat ms) = 2 ^ (l + ?n)" using length_concat_blocks [OF lms(1)] lms(2) by (simp add: power_add)
  ultimately show ?thesis using run by blast
qed

end

section \<open>Properties\<close>

text \<open>C19. Prismalinear polynomials. The coefficients that \<open>Ple::from_evaluations\<close> computes are those of a polynomial
  which \<open>eval_at_point\<close> evaluates, at any point, to the sum of the evaluations weighted with the table of
  \<open>evals_eq_hyperprism\<close>, and at a point of the prism to the evaluation given for it. The message
  that \<open>eval_to_coeff_rs_message\<close> computes from the same evaluations has the same value at the opening point
  whose first coordinates are the powers \<open>z, z\<^sup>2, z\<^sup>4, \<dots>\<close>, so opening the message opens the polynomial.\<close>

theorem ple_and_rs_message:
  fixes X :: "('f::field, 'ef::field) field_ext"
  assumes "field_tower X" and "subgroup_transform (fe_gen X) (fe_adicity X) D" and "l \<le> fe_adicity X"
    and "length evals = 2 ^ (l + length x)"
  shows "\<exists>c m w v. ple_from_evaluations D l evals = (Ok c :: (_, 'e) res) \<and> eval_to_coeff_rs_message D l evals = (Ok m :: (_, 'e) res) \<and>
     evals_eq_hyperprism (fe_embed X) (map (\<lambda>i. fe_gen X l ^ i) [0..<2 ^ l]) z x = (Ok w :: (_, 'e) res) \<and>
     ple_eval_at_point (fe_embed X) c l z x = (Ok v :: (_, 'e) res) \<and>
     v = sum_list (map2 (\<lambda>e k. fe_embed X e * k) evals w) \<and>
     eval_mle_evals_at_point (map (fe_embed X) m) (exp_powers_of_2 l z @ x) = (Ok v :: (_, 'e) res) \<and>
     (\<forall>i < 2 ^ l. \<forall>b < 2 ^ length x. ple_eval_at_point (fe_embed X) c l (fe_embed X (fe_gen X l ^ i)) (cube_point (length x) b)
        = (Ok (fe_embed X (evals ! (b * 2 ^ l + i))) :: (_, 'e) res))"
proof -
  obtain c where c: "ple_from_evaluations D l evals = (Ok c :: (_, 'e) res)"
    "\<And>z y. length y = length x \<Longrightarrow> ple_eval_at_point (fe_embed X) c l z y = (Ok (mle_sum (prism_values X D l evals z) y) :: (_, 'e) res)"
    using field_tower.ple_value [OF assms, where 'e = 'e] by blast
  obtain m where m: "eval_to_coeff_rs_message D l evals = (Ok m :: (_, 'e) res)" "length m = 2 ^ (l + length x)"
    "\<And>z. mle_sum (map (fe_embed X) m) (exp_powers_of_2 l z @ x) = mle_sum (prism_values X D l evals z) x"
    using field_tower.rs_message_value [OF assms, where 'e = 'e] by blast
  have w: "evals_eq_hyperprism (fe_embed X) (map (\<lambda>i. fe_gen X l ^ i) [0..<2 ^ l]) z x
      = (Ok (hyperprism_table (\<lambda>l. fe_embed X (fe_gen X l)) l z x) :: (_, 'e) res)"
    by (rule evals_eq_hyperprism_Ok) (rule field_tower.embed_power [OF assms(1)])
  have "ple_eval_at_point (fe_embed X) c l (fe_embed X (fe_gen X l ^ i)) (cube_point (length x) b)
        = (Ok (fe_embed X (evals ! (b * 2 ^ l + i))) :: (_, 'e) res)" if "i < 2 ^ l" "b < 2 ^ length x" for i b
    using field_tower.mle_sum_corner [OF assms(1) that(2)] field_tower.prism_values_grid [OF assms that] by (simp add: c(2))
  moreover have "eval_mle_evals_at_point (map (fe_embed X) m) (exp_powers_of_2 l z @ x) = (Ok (mle_sum (prism_values X D l evals z) x) :: (_, 'e) res)"
    using m(2,3) by (simp add: eval_mle_sum)
  ultimately show ?thesis
    using c m(1) w field_tower.prism_values_table [OF assms, of z] by blast
qed

theorem ple_and_rs_message_witness:
  "\<exists>c m w v. ple_from_evaluations (serial_dft (plain_fft f17_gen 4)) 1 [1, 2, 3, 4] = (Ok c :: (_, unit) res) \<and>
     eval_to_coeff_rs_message (serial_dft (plain_fft f17_gen 4)) 1 [1, 2, 3, 4] = (Ok m :: (_, unit) res) \<and>
     evals_eq_hyperprism (\<lambda>v. v) [1, 16] 7 [9] = (Ok w :: (_, unit) res) \<and>
     ple_eval_at_point (\<lambda>v. v) c 1 7 [9] = (Ok v :: (_, unit) res) \<and> v = sum_list (map2 (\<lambda>e k. e * k) [1, 2, 3, 4] w) \<and>
     eval_mle_evals_at_point m [7, 9] = (Ok v :: (_, unit) res)"
proof -
  have "fe_gen f17_tower = f17_gen" "fe_adicity f17_tower = 4" "fe_embed f17_tower = (\<lambda>v. v)" by (simp_all add: f17_tower_def)
  moreover have "map (\<lambda>i. f17_gen 1 ^ i) [0..<2 ^ 1] = [1, 16]"
    by (simp add: upt_rec f17_gen_table f17_numeral f17_one)
  ultimately show ?thesis
    using ple_and_rs_message [OF f17_tower.field_tower_axioms, of "serial_dft (plain_fft f17_gen 4)" 1 "[1, 2, 3, 4]" "[9]" 7, where 'e = unit]
      f17_serial.subgroup_transform_axioms by (simp del: exp_powers_of_2.simps) (simp add: eval_nat_numeral, blast)
qed

end
