(* ===== verification/PcsCommit.thy ===== *)
theory PcsCommit
  imports PlePoly Merkle
begin

text \<open>
  The polynomial commitment of the prover (\<open>prover/stacked_pcs.rs\<close>): the traces are stacked, every column of
  the stacked matrix is encoded with the Reed-Solomon code and the rows of the codeword matrix are the leaves of a
  Merkle tree. \<open>D\<close> stands for Plonky3's \<open>Radix2Bowers\<close> and \<open>Radix2DitParallel\<close>.
\<close>

section \<open>The code\<close>

record ('f, 'd) stacked_pcs_data =
  pcs_layout :: stacked_layout
  pcs_matrix :: "'f col_matrix"
  pcs_tree :: "('f, 'd) merkle_tree"

definition pcs_commit :: "('f, 'd) stacked_pcs_data \<Rightarrow> ('d, stacked_pcs_error) res" where
  "pcs_commit d = merkle_root (pcs_tree d)"

definition resize :: "nat \<Rightarrow> 'a \<Rightarrow> 'a list \<Rightarrow> 'a list" where
  "resize n x xs = take n xs @ replicate (n - length xs) x"

text \<open>\<open>checked_shl\<close> only rejects a shift of 64 or more; the bits that are shifted out are lost.\<close>

definition rs_code_matrix ::
  "'f::field subgroup_dft \<Rightarrow> nat \<Rightarrow> nat \<Rightarrow> 'f col_matrix \<Rightarrow> ('f col_matrix, stacked_pcs_error) res" where
  "rs_code_matrix D ls blowup eval_matrix =
     (let height = cm_height eval_matrix in
      if 64 \<le> blowup then Err (RsCodeShiftOverflow height blowup)
      else let rs_height = (height * 2 ^ blowup) mod 2 ^ 64 in
        rbind (rmap (\<lambda>column_evals. rbind (eval_to_coeff_rs_message D ls column_evals) (\<lambda>coeffs.
                 Ok (sd_dft D (resize rs_height 0 coeffs)))) (chunks height (cm_values eval_matrix))) (\<lambda>codewords.
        col_matrix_new (concat codewords) (cm_width eval_matrix)))"

definition stacked_commit ::
  "'f::field subgroup_dft \<Rightarrow> ('f, 'd) merkle_hasher \<Rightarrow> nat \<Rightarrow> nat \<Rightarrow> nat \<Rightarrow> nat \<Rightarrow> 'f col_matrix list
     \<Rightarrow> ('d \<times> ('f, 'd) stacked_pcs_data, stacked_pcs_error) res" where
  "stacked_commit D h ls stack blowup k traces =
     rbind (stacked_matrix ls stack traces) (\<lambda>(q_trace, layout).
     rbind (rs_code_matrix D ls blowup q_trace) (\<lambda>rs_matrix.
     rbind (shl64 1 k) (\<lambda>rows.
     rbind (merkle_tree_new h (\<lambda>x. [x]) rs_matrix rows) (\<lambda>tree.
     rbind (merkle_root tree) (\<lambda>root.
     Ok (root, \<lparr>pcs_layout = layout, pcs_matrix = q_trace, pcs_tree = tree\<rparr>))))))"

section \<open>The codewords\<close>

lemma columns_of_concat:
  assumes "\<forall>b \<in> set bs. length b = h" and "0 < h"
  shows "columns_of \<lparr>cm_values = concat bs, cm_width = length bs, cm_height = h\<rparr> = bs"
proof -
  have "length (concat bs) = length bs * h" by (rule length_concat_blocks [OF assms(1)])
  from chunks_exact [OF assms(2) this] chunks_blocks [OF assms] show ?thesis by (simp add: columns_of_def)
qed

lemma chunks_columns: "wf_col_matrix M \<Longrightarrow> chunks (cm_height M) (cm_values M) = columns_of M"
proof -
  assume M: "wf_col_matrix M"
  then have "0 < cm_height M" by (auto simp: wf_col_matrix_def is_pow2_iff)
  from chunks_exact [OF this, of "cm_values M" "cm_width M"] M show ?thesis by (simp add: wf_col_matrix_def columns_of_def)
qed

lemma length_resize [simp]: "length (resize n x xs) = n"
  by (simp add: resize_def)

lemma horner_zeros: "horner_eval (replicate n 0) t = 0"
  by (induction n) (simp_all add: horner_Cons)

lemma horner_resize: "length xs \<le> n \<Longrightarrow> horner_eval (resize n 0 xs) t = horner_eval xs t"
  by (simp add: resize_def horner_append horner_zeros)

text \<open>What is sent to the code for a column.\<close>

definition rs_message :: "'f::field subgroup_dft \<Rightarrow> nat \<Rightarrow> 'f list \<Rightarrow> 'f list" where
  "rs_message D ls col = (case (eval_to_coeff_rs_message D ls col :: (_, unit) res) of Ok m \<Rightarrow> m | _ \<Rightarrow> [])"

context field_tower
begin

lemma rs_message_Ok:
  assumes D: "subgroup_transform (fe_gen X) (fe_adicity X) D" and l: "l \<le> fe_adicity X" and len: "length evals = 2 ^ (l + n)"
  shows "eval_to_coeff_rs_message D l evals = (Ok (rs_message D l evals) :: (_, 'e) res)" "length (rs_message D l evals) = 2 ^ (l + n)"
proof -
  note run = rs_message_run [OF D l len]
  show "eval_to_coeff_rs_message D l evals = (Ok (rs_message D l evals) :: (_, 'e) res)"
    unfolding rs_message_def run by simp
  note blocks = prism_blocks [OF D l len]
  have "\<forall>b \<in> set (map (to_evals l) (map (sd_idft D) (chunks (2 ^ l) evals))). length b = 2 ^ l" using blocks(3) by auto
  from length_concat_blocks [OF this] blocks(2) show "length (rs_message D l evals) = 2 ^ (l + n)"
    unfolding rs_message_def run by (simp add: power_add)
qed

lemma rs_code_matrix_Ok:
  assumes D: "subgroup_transform (fe_gen X) (fe_adicity X) D" and M: "wf_col_matrix M" "cm_height M = 2 ^ (l + n)"
    and size: "l + n + b \<le> fe_adicity X" "l + n + b < 64"
  shows "\<exists>R. rs_code_matrix D l b M = Ok R \<and> wf_col_matrix R \<and> cm_width R = cm_width M \<and> cm_height R = 2 ^ (l + n + b) \<and>
    (\<forall>c < cm_width M. \<forall>j < 2 ^ (l + n + b). columns_of R ! c ! j
       = horner_eval (rs_message D l (columns_of M ! c)) (fe_gen X (l + n + b) ^ j))"
proof -
  let ?N = "2 ^ (l + n + b) :: nat" and ?w = "\<lambda>col. sd_dft D (resize (2 ^ (l + n + b)) 0 (rs_message D l col))"
  have h: "(cm_height M * 2 ^ b) mod 2 ^ 64 = ?N"
  proof -
    have "(2 :: nat) ^ (l + n + b) < 2 ^ 64" using size(2) by (rule power_strict_increasing) simp
    then show ?thesis by (simp only: M(2) power_add [symmetric] mod_less)
  qed
  have l: "l \<le> fe_adicity X" using size(1) by simp
  have col: "length col = 2 ^ (l + n)" if "col \<in> set (columns_of M)" for col
    using that length_column [OF M(1)] M(2) by (auto simp: in_set_conv_nth)
  have msg: "eval_to_coeff_rs_message D l col = (Ok (rs_message D l col) :: (_, stacked_pcs_error) res)" "length (rs_message D l col) = 2 ^ (l + n)"
    if "col \<in> set (columns_of M)" for col
    using rs_message_Ok [OF D l col [OF that]] by simp_all
  have word: "?w col = map (\<lambda>j. horner_eval (rs_message D l col) (fe_gen X (l + n + b) ^ j)) [0..<?N]" if "col \<in> set (columns_of M)" for col
    using subgroup_transform.dft_values [OF D size(1), of "resize ?N 0 (rs_message D l col)"] msg(2) [OF that]
    by (simp add: horner_resize power_increasing)
  have blocks: "\<forall>x \<in> set (map ?w (columns_of M)). length x = ?N" using word by auto
  define R where "R = \<lparr>cm_values = concat (map ?w (columns_of M)), cm_width = cm_width M, cm_height = ?N\<rparr>"
  have "rmap (\<lambda>col. rbind (eval_to_coeff_rs_message D l col) (\<lambda>coeffs. Ok (sd_dft D (resize ?N 0 coeffs)))) (columns_of M)
      = (Ok (map ?w (columns_of M)) :: (_, stacked_pcs_error) res)"
    by (rule rmap_total) (simp add: msg(1))
  moreover have "col_matrix_new (concat (map ?w (columns_of M))) (cm_width M) = (Ok R :: (_, stacked_pcs_error) res)"
    unfolding R_def by (rule col_matrix_new_total)
      (use M(1) length_concat_blocks [OF blocks] in \<open>simp_all add: wf_col_matrix_def\<close>)
  ultimately have run: "rs_code_matrix D l b M = Ok R"
    using size(2) unfolding rs_code_matrix_def Let_def h chunks_columns [OF M(1)] by simp
  have cols: "columns_of R = map ?w (columns_of M)"
    using columns_of_concat [OF blocks] by (simp add: R_def)
  have "wf_col_matrix R" using M(1) length_concat_blocks [OF blocks] by (simp add: R_def wf_col_matrix_def)
  with run cols word show ?thesis by (auto simp: R_def)
qed

end

end
