(* ===== verification/WhirProver.thy ===== *)
theory WhirProver
  imports PcsCommit WhirSafety
begin

text \<open>
  The WHIR prover (\<open>prove_whir_opening\<close> in \<open>prover/whir.rs\<close>). The vectors the code pushes to
  are the fields of the proof that is being built, \<open>wp_proof\<close>. \<open>pick\<close> is the choice of the parallel
  grinding loop, \<open>D\<close> and \<open>E\<close> are Plonky3's transforms over the base and the extension field.
\<close>

section \<open>Errors and state\<close>

datatype whir_prover_error =
    WhirStackedPcs stacked_pcs_error
  | TryIntoFailed
  | TreeHeightMismatch nat nat
  | RsTreeNone
  | TreeWidthNotOne nat
  | Z0None
  | FinalPolyNone
  | UPrismaEmpty

record ('f, 'ef, 'd) whir_prover_state =
  wp_f_evals :: "'ef list"
  wp_w_evals :: "'ef list"
  wp_m :: nat
  wp_log_rs_domain_size :: nat
  wp_rs_tree :: "('ef, 'd) merkle_tree option"
  wp_final_poly :: "'ef list option"
  wp_proof :: "('f, 'ef, 'd) whir_proof"

abbreviation v_grind ::
    "('ts, 'f, 'd) transcript_ops \<Rightarrow> ('f::zero, 'ef) field_ops \<Rightarrow> ('f list \<Rightarrow> 'f) \<Rightarrow> nat \<Rightarrow> ('f, 'ts, 'e) vm" where
  "v_grind T K pick bits \<equiv> vop (\<lambda>s. grind T K pick 0 s bits)"

abbreviation pcs_call :: "('a, stacked_pcs_error) res \<Rightarrow> ('a, whir_prover_error) res" where
  "pcs_call r \<equiv> map_err WhirStackedPcs r"

section \<open>Sumcheck\<close>

definition round_poly_at :: "'ef::field list \<Rightarrow> 'ef list \<Rightarrow> nat \<Rightarrow> nat \<Rightarrow> ('ef, 'e) res" where
  "round_poly_at f_evals w_evals hdim x =
     rbind (shl64 1 hdim) (\<lambda>n.
     rfold (\<lambda>y acc.
       rbind (index f_evals (2 * y)) (\<lambda>f_0.
       rbind (index f_evals (2 * y + 1)) (\<lambda>f_1.
       let f_x = f_0 + (f_1 - f_0) * of_nat x in
       rbind (index w_evals (2 * y)) (\<lambda>w_0.
       rbind (index w_evals (2 * y + 1)) (\<lambda>w_1.
       let w_x = w_0 + (w_1 - w_0) * of_nat x in
       Ok (acc + f_x * w_x)))))) [0..<n] 0)"

text \<open>The in-place folding: position \<open>y\<close> is written after positions \<open>2 y\<close> and \<open>2 y + 1\<close> are read.\<close>

definition fold_in_place :: "'ef::field \<Rightarrow> 'ef list \<Rightarrow> ('ef list, 'e) res" where
  "fold_in_place alpha evals =
     (let half = length evals div 2 in
      rbind (rfold (\<lambda>y evals.
        rbind (index evals (2 * y)) (\<lambda>eval_0.
        rbind (index evals (2 * y + 1)) (\<lambda>eval_1.
        rbind (index evals y) (\<lambda>_.
        Ok (evals[y := eval_0 + alpha * (eval_1 - eval_0)]))))) [0..<half] evals) (\<lambda>evals.
      Ok (take half evals)))"

definition prove_fold_round ::
  "('ts, 'f, 'd) transcript_ops \<Rightarrow> ('f::zero, 'ef::field) field_ops \<Rightarrow> ('f list \<Rightarrow> 'f) \<Rightarrow> system_params \<Rightarrow> nat
     \<Rightarrow> ('f, 'ef, 'd) whir_prover_state \<Rightarrow> (('f, 'ef, 'd) whir_prover_state, 'ts, whir_prover_error) vm" where
  "prove_fold_round T K pick p rnd s =
     vbind (vlift (sub64 (wp_m s) rnd)) (\<lambda>dim.
     vbind (vlift (shl64 1 dim)) (\<lambda>n.
     vbind (vassert (length (wp_f_evals s) = n)) (\<lambda>_.
     vbind (vlift (sub64 dim 1)) (\<lambda>hdim.
     vbind (vlift (round_poly_at (wp_f_evals s) (wp_w_evals s) hdim 1)) (\<lambda>ev1.
     vbind (vlift (round_poly_at (wp_f_evals s) (wp_w_evals s) hdim 2)) (\<lambda>ev2.
     vbind (v_observe_ext T K ev1) (\<lambda>_.
     vbind (v_observe_ext T K ev2) (\<lambda>_.
     vbind (v_grind T K pick (folding_pow_bits (whir p))) (\<lambda>pow_witness.
     vbind (v_sample_ext T K) (\<lambda>alpha.
     vbind (vlift (fold_in_place alpha (wp_f_evals s))) (\<lambda>f_evals.
     vbind (vlift (fold_in_place alpha (wp_w_evals s))) (\<lambda>w_evals.
     vret (s\<lparr>wp_f_evals := f_evals, wp_w_evals := w_evals,
         wp_proof := (wp_proof s)\<lparr>whir_sumcheck_polys := whir_sumcheck_polys (wp_proof s) @ [(ev1, ev2)],
                      folding_pow_witnesses := folding_pow_witnesses (wp_proof s) @ [pow_witness]\<rparr>\<rparr>)))))))))))))"

section \<open>The next codeword\<close>

text \<open>The result is the new tree and the out-of-domain point, which the last round does not have.\<close>

definition prove_commit ::
  "('ts, 'f, 'd) transcript_ops \<Rightarrow> ('f, 'ef::field) field_ops \<Rightarrow> 'ef subgroup_dft \<Rightarrow> ('f, 'd) merkle_hasher \<Rightarrow> nat \<Rightarrow> bool
     \<Rightarrow> ('f, 'ef, 'd) whir_prover_state
     \<Rightarrow> (('ef, 'd) merkle_tree option \<times> 'ef option \<times> ('f, 'ef, 'd) whir_prover_state, 'ts, whir_prover_error) vm" where
  "prove_commit T K E h k is_last_round s =
     vbind (vlift (mle_from_evaluations (wp_f_evals s))) (\<lambda>g_mle.
     if is_last_round then
       vbind (vdo_all (v_observe_ext T K) g_mle) (\<lambda>_. vret (None, None, s\<lparr>wp_final_poly := Some g_mle\<rparr>))
     else
       vbind (vlift (sub64 (wp_m s) k)) (\<lambda>dim.
       vbind (vlift (shl64 1 dim)) (\<lambda>n.
       vbind (vassert (length g_mle = n)) (\<lambda>_.
       vbind (vlift (sub64 (wp_log_rs_domain_size s) 1)) (\<lambda>log_rs.
       vbind (vlift (shl64 1 log_rs)) (\<lambda>size.
       let g_rs = sd_dft E (resize size 0 g_mle) in
       vbind (vlift (shl64 1 k)) (\<lambda>rows.
       vbind (vlift (col_matrix_new g_rs 1)) (\<lambda>M.
       vbind (vlift (pcs_call (merkle_tree_new h (ef_coefficients K) M rows))) (\<lambda>g_tree.
       vbind (vlift (pcs_call (merkle_root g_tree))) (\<lambda>g_commit.
       vbind (v_observe_commit T g_commit) (\<lambda>_.
       vbind (v_sample_ext T K) (\<lambda>z_0.
       vbind (vlift (mle_eval_at_point (\<lambda>x. x) g_mle (exp_powers_of_2 dim z_0))) (\<lambda>g_opened_value.
       vbind (v_observe_ext T K g_opened_value) (\<lambda>_.
       vret (Some g_tree, Some z_0, s\<lparr>wp_proof := (wp_proof s)\<lparr>codeword_commits := codeword_commits (wp_proof s) @ [g_commit],
                      ood_values := ood_values (wp_proof s) @ [g_opened_value]\<rparr>\<rparr>)))))))))))))))"

section \<open>The queries\<close>

text \<open>\<open>xs[i].push(x)\<close>\<close>

definition push_at :: "nat \<Rightarrow> 'a \<Rightarrow> 'a list list \<Rightarrow> ('a list list, 'e) res" where
  "push_at i x xss = rbind (index xss i) (\<lambda>xs. Ok (xss[i := xs @ [x]]))"

definition open_committed ::
  "nat \<Rightarrow> nat \<Rightarrow> nat \<Rightarrow> nat \<Rightarrow> nat \<times> 'f::zero col_matrix \<times> ('f, 'd) merkle_tree \<Rightarrow> ('f, 'ef, 'd) whir_proof
     \<Rightarrow> (('f, 'ef, 'd) whir_proof, whir_prover_error) res" where
  "open_committed log_rs depth query_idx i = (\<lambda>(com_idx, _, tree) w.
     rbind (index (initial_round_merkle_proofs w) com_idx) (\<lambda>paths.
     rbind (assert_that (length paths = query_idx)) (\<lambda>_.
     let tree_height = cm_height (backing_matrix tree) in
     rbind (shl64 1 log_rs) (\<lambda>expected.
     rbind (ensure_that (tree_height = expected) (TreeHeightMismatch tree_height expected)) (\<lambda>_.
     rbind (pcs_call (get_opened_rows tree i)) (\<lambda>opened_rows.
     rbind (push_at com_idx opened_rows (initial_round_opened_rows w)) (\<lambda>rows.
     rbind (proof_depth tree) (\<lambda>d.
     rbind (assert_that (d = depth)) (\<lambda>_.
     rbind (pcs_call (query_merkle_proof tree i)) (\<lambda>path.
     rbind (assert_that (length path = depth)) (\<lambda>_.
     rbind (push_at com_idx path (initial_round_merkle_proofs w)) (\<lambda>paths.
     Ok (w\<lparr>initial_round_opened_rows := rows, initial_round_merkle_proofs := paths\<rparr>)))))))))))))"

definition open_codeword ::
  "nat \<Rightarrow> nat \<Rightarrow> ('ef::zero, 'd) merkle_tree option \<Rightarrow> nat \<Rightarrow> ('f, 'ef, 'd) whir_proof \<Rightarrow> (('f, 'ef, 'd) whir_proof, whir_prover_error) res" where
  "open_codeword rnd depth rs_tree i w =
     (case rs_tree of None \<Rightarrow> Err RsTreeNone
      | Some tree \<Rightarrow>
          let width = cm_width (backing_matrix tree) in
          rbind (ensure_that (width = 1) (TreeWidthNotOne width)) (\<lambda>_.
          rbind (pcs_call (get_opened_rows tree i)) (\<lambda>opened_rows.
          rbind (sub64 rnd 1) (\<lambda>prev.
          rbind (push_at prev (concat opened_rows) (codeword_opened_values w)) (\<lambda>opened.
          rbind (proof_depth tree) (\<lambda>d.
          rbind (assert_that (d = depth)) (\<lambda>_.
          rbind (pcs_call (query_merkle_proof tree i)) (\<lambda>path.
          rbind (assert_that (length path = depth)) (\<lambda>_.
          rbind (push_at prev path (codeword_merkle_proofs w)) (\<lambda>paths.
          Ok (w\<lparr>codeword_opened_values := opened, codeword_merkle_proofs := paths\<rparr>)))))))))))"

definition prove_query ::
  "('f::zero col_matrix \<times> ('f, 'd) merkle_tree) list \<Rightarrow> nat \<Rightarrow> nat \<Rightarrow> nat \<Rightarrow> ('ef::zero, 'd) merkle_tree option
     \<Rightarrow> nat \<times> nat \<Rightarrow> ('f, 'ef, 'd) whir_proof \<Rightarrow> (('f, 'ef, 'd) whir_proof, whir_prover_error) res" where
  "prove_query committed_mats log_rs k rnd rs_tree = (\<lambda>(query_idx, i) w.
     let depth = log_rs - k in
     if rnd = 0 then rfold (open_committed log_rs depth query_idx i) (enumerated committed_mats) w
     else open_codeword rnd depth rs_tree i w)"

section \<open>The weight polynomial\<close>

text \<open>The evaluations of \<open>eq\<close> are computed in the field of \<open>z\<close> and enter through \<open>emb\<close>.\<close>

definition w_evals_accumulate :: "('a::field \<Rightarrow> 'ef::field) \<Rightarrow> 'a \<Rightarrow> 'ef \<Rightarrow> 'ef list \<Rightarrow> ('ef list, 'e) res" where
  "w_evals_accumulate emb z gamma w_evals =
     rbind (log2_strict (length w_evals)) (\<lambda>dim.
     let evals = evals_eq_hypercube (exp_powers_of_2 dim z); n = min (length w_evals) (length evals) in
     Ok (map2 (\<lambda>w x. w + gamma * emb x) (take n w_evals) (take n evals) @ drop n w_evals))"

section \<open>A round\<close>

definition prove_whir_round ::
  "('ts, 'f, 'd) transcript_ops \<Rightarrow> ('f::field, 'ef::field) field_ext \<Rightarrow> 'ef subgroup_dft \<Rightarrow> ('f, 'd) merkle_hasher
     \<Rightarrow> ('f list \<Rightarrow> 'f) \<Rightarrow> system_params \<Rightarrow> ('f col_matrix \<times> ('f, 'd) merkle_tree) list \<Rightarrow> nat \<times> whir_round_config
     \<Rightarrow> ('f, 'ef, 'd) whir_prover_state \<Rightarrow> (('f, 'ef, 'd) whir_prover_state, 'ts, whir_prover_error) vm" where
  "prove_whir_round T X E h pick p committed_mats = (\<lambda>(rnd, round_params) s.
     (let K = fe_ops X; k = k_whir p; log_rs = wp_log_rs_domain_size s in
      vbind (vlift (sub64 (num_whir_rounds p) 1)) (\<lambda>last_round.
      let is_last_round = (rnd = last_round) in
      vbind (vfor (prove_fold_round T K pick p) [0..<k] s) (\<lambda>s.
      vbind (prove_commit T K E h k is_last_round s) (\<lambda>(g_tree, z_0, s).
      vbind (vlift (sub64 log_rs k)) (\<lambda>bits.
      vbind (vlift (two_adic_generator X bits)) (\<lambda>omega.
      vbind (v_grind T K pick (query_phase_pow_bits (whir p))) (\<lambda>pow_witness.
      vbind (vmapM (\<lambda>_. v_sample_bits T K bits) [0..<num_queries round_params]) (\<lambda>query_indices.
      let w = (wp_proof s)\<lparr>query_phase_pow_witnesses := query_phase_pow_witnesses (wp_proof s) @ [pow_witness]\<rparr>;
          w = (if is_last_round then w
               else w\<lparr>codeword_opened_values := codeword_opened_values w @ [[]],
                      codeword_merkle_proofs := codeword_merkle_proofs w @ [[]]\<rparr>) in
      vbind (vlift (rfold (prove_query committed_mats log_rs k rnd (wp_rs_tree s)) (enumerated query_indices) w)) (\<lambda>w.
      vbind (v_sample_ext T K) (\<lambda>gamma.
      vbind (vlift (if is_last_round then Ok (wp_w_evals s)
               else case z_0 of None \<Rightarrow> Err Z0None
               | Some z_0 \<Rightarrow>
                   rbind (w_evals_accumulate (\<lambda>x. x) z_0 gamma (wp_w_evals s)) (\<lambda>w_evals.
                   rfold (\<lambda>(i, z_i). w_evals_accumulate (fe_embed X) z_i (gamma ^ (i + 2)))
                     (enumerated (map (\<lambda>i. omega ^ i) query_indices)) w_evals))) (\<lambda>w_evals.
      vbind (vlift (sub64 (wp_m s) k)) (\<lambda>m.
      vbind (vlift (sub64 log_rs 1)) (\<lambda>log_rs.
      vret (s\<lparr>wp_w_evals := w_evals, wp_m := m, wp_log_rs_domain_size := log_rs, wp_rs_tree := g_tree, wp_proof := w\<rparr>)))))))))))))))"

section \<open>The prover\<close>

definition initial_mles :: "'f::field subgroup_dft \<Rightarrow> nat \<Rightarrow> ('f col_matrix \<times> ('f, 'd) merkle_tree) list \<Rightarrow> ('f list list, 'e) res" where
  "initial_mles D ls committed_mats =
     rbind (rmap (\<lambda>(mat, _). rmap (\<lambda>j. rbind (cm_column mat j) (\<lambda>col.
         rbind (eval_to_coeff_rs_message D ls col) coeffs_to_evals_inplace)) [0..<cm_width mat]) committed_mats) (\<lambda>mles.
     Ok (concat mles))"

definition initial_f_evals :: "('f \<Rightarrow> 'ef::field) \<Rightarrow> 'f list list \<Rightarrow> 'ef list \<Rightarrow> nat \<Rightarrow> ('ef list, 'e) res" where
  "initial_f_evals emb mles mu_powers n =
     rmap (\<lambda>i. rfold (\<lambda>(mle_j, mu_j) acc. rbind (index mle_j i) (\<lambda>x. Ok (acc + mu_j * emb x))) (zip mles mu_powers) 0) [0..<n]"

definition prove_whir_opening ::
  "('ts, 'f, 'd) transcript_ops \<Rightarrow> ('f::field, 'ef::field) field_ext \<Rightarrow> 'f subgroup_dft \<Rightarrow> 'ef subgroup_dft \<Rightarrow> ('f, 'd) merkle_hasher
     \<Rightarrow> ('f list \<Rightarrow> 'f) \<Rightarrow> system_params \<Rightarrow> ('f col_matrix \<times> ('f, 'd) merkle_tree) list \<Rightarrow> 'ef list
     \<Rightarrow> (('f, 'ef, 'd) whir_proof, 'ts, whir_prover_error) vm" where
  "prove_whir_opening T X D E h pick p committed_mats u =
     (let K = fe_ops X in
      vbind (v_grind T K pick (mu_pow_bits (whir p))) (\<lambda>mu_pow_witness.
      vbind (v_sample_ext T K) (\<lambda>mu.
      let total_width = sum_list (map (\<lambda>(mat, _). cm_width mat) committed_mats);
          mu_powers = powers total_width mu in
      vbind (vlift (index committed_mats 0)) (\<lambda>(mat0, _).
      let height = cm_height mat0 in
      vbind (vassert (\<forall>(mat, _) \<in> set committed_mats. cm_height mat = height)) (\<lambda>_.
      vbind (vlift (log2_strict height)) (\<lambda>m.
      vbind (vlift (initial_mles D (l_skip p) committed_mats)) (\<lambda>mles.
      vbind (vlift (shl64 1 m)) (\<lambda>n.
      vbind (vlift (initial_f_evals (fe_embed X) mles mu_powers n)) (\<lambda>f_evals.
      vbind (vlift (sub64 (num_whir_rounds p) 1)) (\<lambda>_.
      vbind (vfor (prove_whir_round T X E h pick p committed_mats) (enumerated (whir_rounds (whir p)))
               \<lparr>wp_f_evals = f_evals, wp_w_evals = evals_mobius_eq_hypercube u, wp_m = m,
                wp_log_rs_domain_size = m + log_blowup p, wp_rs_tree = None, wp_final_poly = None,
                wp_proof = \<lparr>mu_pow_witness = mu_pow_witness, whir_sumcheck_polys = [], codeword_commits = [], ood_values = [],
                  folding_pow_witnesses = [], query_phase_pow_witnesses = [],
                  initial_round_opened_rows = replicate (length committed_mats) [],
                  initial_round_merkle_proofs = replicate (length committed_mats) [],
                  codeword_opened_values = [], codeword_merkle_proofs = [], final_poly = []\<rparr>\<rparr>) (\<lambda>s.
      case wp_final_poly s of
        None \<Rightarrow> vlift (Err FinalPolyNone)
      | Some coeffs \<Rightarrow> vret ((wp_proof s)\<lparr>final_poly := coeffs\<rparr>))))))))))))"

end
