(* ===== verification/PairFolding.thy ===== *)
theory PairFolding
  imports MlePoly
begin

text \<open>
  Folding a table of values on the cube: binding its first variable replaces neighbouring entries by a
  combination. Folding values folds coefficients, folds the tables of the kernels to smaller
  tables with a constant factor, and bound to all coordinates of a point gives the value at the point.
\<close>

section \<open>Folding evaluations\<close>

fun fold_pairs :: "'a::field \<Rightarrow> 'a list \<Rightarrow> 'a list" where
  "fold_pairs a (x # y # zs) = (x + a * (y - x)) # fold_pairs a zs"
| "fold_pairs a zs = []"

lemmas pairs_induct [case_names pair nil one] = fold_pairs.induct

lemma length_fold_pairs [simp]: "length (fold_pairs a xs) = length xs div 2"
  by (induction a xs rule: fold_pairs.induct) auto

lemma fold_pairs_nth: "i < length xs div 2 \<Longrightarrow> fold_pairs a xs ! i = xs ! (2 * i) + a * (xs ! (2 * i + 1) - xs ! (2 * i))"
proof (induction a xs arbitrary: i rule: fold_pairs.induct)
  case (1 a x y zs)
  then show ?case by (cases i) auto
qed auto

text \<open>The in-place loop: position \<open>y\<close> is written after positions \<open>2 y\<close> and \<open>2 y + 1\<close> are read.\<close>

lemma fold_loop:
  assumes "i \<le> length xs div 2"
  shows "rfold (\<lambda>y t. rbind (index t (2 * y)) (\<lambda>t_0. rbind (index t (2 * y + 1)) (\<lambda>t_1. rbind (index t y) (\<lambda>_.
        Ok (t[y := t_0 + a * (t_1 - t_0)]))))) [0..<i] xs = (Ok (take i (fold_pairs a xs) @ drop i xs) :: (_, 'e) res)"
  using assms
proof (induction i)
  case (Suc i)
  let ?cur = "take i (fold_pairs a xs) @ drop i xs"
  have i: "i < length xs div 2" "2 * i + 1 < length xs" using Suc.prems by auto
  then have at: "?cur ! (2 * i) = xs ! (2 * i)" "?cur ! (2 * i + 1) = xs ! (2 * i + 1)" by (simp_all add: nth_append mult_2)
  have "?cur[i := fold_pairs a xs ! i] = take (Suc i) (fold_pairs a xs) @ drop (Suc i) xs"
    using i by (simp add: list_update_append take_Suc_conv_app_nth Cons_nth_drop_Suc [symmetric])
  with Suc.IH i at fold_pairs_nth [OF i(1)] show ?case by (simp add: rfold_append)
qed simp

lemma fold_pairs_append: "even (length lo) \<Longrightarrow> fold_pairs a (lo @ hi) = fold_pairs a lo @ fold_pairs a hi"
  by (induction a lo rule: fold_pairs.induct) auto

lemma fold_pairs_add:
  "length xs = length ys \<Longrightarrow> fold_pairs a (map2 (\<lambda>u v. v + u) xs ys) = map2 (\<lambda>u v. v + u) (fold_pairs a xs) (fold_pairs a ys)"
proof (induction a xs arbitrary: ys rule: pairs_induct)
  case (pair a x y zs)
  then obtain x' y' zs' where "ys = x' # y' # zs'" "length zs = length zs'" by (auto simp: length_Suc_conv Suc_length_conv)
  with pair show ?case by (simp add: algebra_simps)
next
  case (one a x)
  then show ?case by (auto simp: length_Suc_conv Suc_length_conv)
qed simp

lemma fold_pairs_scale: "fold_pairs a (map (\<lambda>v. v * c) xs) = map (\<lambda>v. v * c) (fold_pairs a xs)"
  by (induction a xs rule: fold_pairs.induct) (simp_all add: algebra_simps)

text \<open>Folding evaluations folds coefficients.\<close>

lemma fold_pairs_to_evals:
  "length c = 2 ^ Suc n \<Longrightarrow> fold_pairs a (to_evals (Suc n) c) = to_evals n (fold_even_odd a c)"
proof (induction n arbitrary: c)
  case 0
  then obtain p q where "c = [p] @ [q]" by (auto simp: length_Suc_conv numeral_2_eq_2)
  then show ?case using cube_layers_halves [of "[p]" 0 "[q]" "\<lambda>u v. v + u"] by (simp del: cube_layers_step) simp
next
  case (Suc n)
  define lo hi where "lo = take (2 ^ Suc n) c" and "hi = drop (2 ^ Suc n) c"
  have c: "c = lo @ hi" "length lo = 2 ^ Suc n" "length hi = 2 ^ Suc n" using Suc.prems by (simp_all add: lo_def hi_def)
  have l: "length (fold_even_odd a lo) = 2 ^ n" "length (fold_even_odd a hi) = 2 ^ n"
    using c by (simp_all add: length_fold_even_odd)
  have e: "even (length (to_evals (Suc n) lo))" using length_cube_layers [OF c(2)] by simp
  have "fold_pairs a (to_evals (Suc (Suc n)) (lo @ hi))
      = fold_pairs a (to_evals (Suc n) lo) @ map2 (\<lambda>u v. v + u) (fold_pairs a (to_evals (Suc n) lo)) (fold_pairs a (to_evals (Suc n) hi))"
    unfolding cube_layers_halves [OF c(2,3)] fold_pairs_append [OF e]
    by (subst fold_pairs_add) (simp_all only: length_cube_layers [OF c(2)] length_cube_layers [OF c(3)])
  also have "\<dots> = to_evals (Suc n) (fold_even_odd a lo @ fold_even_odd a hi)"
    unfolding Suc.IH [OF c(2)] Suc.IH [OF c(3)] cube_layers_halves [OF l] ..
  finally show ?case using c(2) by (simp add: c(1) fold_even_odd_append del: cube_layers_step)
qed

lemma fold_pairs_all:
  "length c = 2 ^ (length as + n) \<Longrightarrow> fold fold_pairs as (to_evals (length as + n) c) = to_evals n (fold fold_even_odd as c)"
proof (induction as arbitrary: c)
  case (Cons a as)
  then have "length (fold_even_odd a c) = 2 ^ (length as + n)" by (simp add: length_fold_even_odd)
  with Cons show ?case by (simp add: fold_pairs_to_evals del: cube_layers_step)
qed simp

section \<open>Folding the tables\<close>

definition product_table :: "('a \<Rightarrow> 'a) \<Rightarrow> ('a \<Rightarrow> 'a) \<Rightarrow> 'a::field list \<Rightarrow> 'a list" where
  "product_table g0 g1 x = fold (\<lambda>x_i out. map (\<lambda>v. v * g0 x_i) out @ map (\<lambda>v. v * g1 x_i) out) x [1]"

lemma mobius_table: "evals_mobius_eq_hypercube = product_table (\<lambda>u. 1 - 2 * u) (\<lambda>u. u)"
  by (simp add: fun_eq_iff evals_mobius_eq_hypercube_def product_table_def)

lemma eq_table: "evals_eq_hypercube = product_table (\<lambda>u. 1 - u) (\<lambda>u. u)"
  by (simp add: fun_eq_iff evals_eq_hypercube_def product_table_def)

lemma product_table_snoc:
  "product_table g0 g1 (x @ [b]) = map (\<lambda>v. v * g0 b) (product_table g0 g1 x) @ map (\<lambda>v. v * g1 b) (product_table g0 g1 x)"
  by (simp add: product_table_def)

lemma length_product_table [simp]: "length (product_table g0 g1 x) = 2 ^ length x"
  by (induction x rule: rev_induct) (simp_all add: product_table_snoc, simp add: product_table_def)

lemma fold_product_table:
  "fold_pairs a (product_table g0 g1 (p # ps)) = map (\<lambda>v. v * (g0 p * (1 - a) + g1 p * a)) (product_table g0 g1 ps)"
proof (induction ps rule: rev_induct)
  case Nil
  then show ?case by (simp add: product_table_def algebra_simps)
next
  case (snoc b ps)
  have "even (length (product_table g0 g1 (p # ps)))" by simp
  with snoc product_table_snoc [of g0 g1 "p # ps" b] show ?case
    by (simp add: fold_pairs_append fold_pairs_scale product_table_snoc mult_ac)
qed

fun table_factor :: "('a \<Rightarrow> 'a) \<Rightarrow> ('a \<Rightarrow> 'a) \<Rightarrow> 'a::field list \<Rightarrow> 'a list \<Rightarrow> 'a" where
  "table_factor g0 g1 (p # ps) (a # as) = (g0 p * (1 - a) + g1 p * a) * table_factor g0 g1 ps as"
| "table_factor g0 g1 ps as = 1"

lemma fold_pairs_scale_all: "fold fold_pairs as (map (\<lambda>v. v * c) xs) = map (\<lambda>v. v * c) (fold fold_pairs as xs)"
  by (induction as arbitrary: xs) (simp_all add: fold_pairs_scale)

lemma fold_pairs_table:
  "length ps = length as \<Longrightarrow> fold fold_pairs as (product_table g0 g1 (ps @ qs)) = map (\<lambda>v. v * table_factor g0 g1 ps as) (product_table g0 g1 qs)"
proof (induction ps as rule: list_induct2)
  case (Cons p ps a as)
  then show ?case by (simp add: fold_product_table fold_pairs_scale_all mult_ac)
qed simp

lemma table_factor_eq: "length ps = length as \<Longrightarrow> table_factor (\<lambda>u. 1 - u) (\<lambda>u. u) ps as = eq_mle_value ps as"
  by (induction ps as rule: list_induct2) (simp_all add: algebra_simps)

lemma mobius_value_simps [simp]:
  "mobius_value [] x = 1"
  "mobius_value (a # u) (b # x) = ((1 - 2 * a) * (1 - b) + a * b) * mobius_value u x"
proof -
  have f: "(\<lambda>(u_i, x_i) acc. acc * ((1 - 2 * u_i) * (1 - x_i) + u_i * x_i))
      = (\<lambda>q acc. acc * (case q of (u_i, x_i) \<Rightarrow> (1 - 2 * u_i) * (1 - x_i) + u_i * x_i))" for dummy :: 'a by (auto simp: fun_eq_iff)
  show "mobius_value (a # u) (b # x) = ((1 - 2 * a) * (1 - b) + a * b) * mobius_value u x"
    unfolding mobius_value_def f by (simp add: fold_mult_init [of _ _ "(1 - 2 * a) * (1 - b) + a * b"])
qed (simp add: mobius_value_def)

lemma table_factor_mobius: "length ps = length as \<Longrightarrow> table_factor (\<lambda>u. 1 - 2 * u) (\<lambda>u. u) ps as = mobius_value ps as"
  by (induction ps as rule: list_induct2) simp_all

section \<open>Inner products of folded vectors\<close>

lemma dot_nth: "length xs = length ys \<Longrightarrow> dot xs ys = (\<Sum>i < length xs. xs ! i * ys ! i)"
  by (simp add: dot_def sum_list_map2_nth)

lemma dot_pairs: "length xs = length ys \<Longrightarrow> even (length xs) \<Longrightarrow> dot xs ys = dot (fold_pairs 0 xs) (fold_pairs 0 ys) + dot (fold_pairs 1 xs) (fold_pairs 1 ys)"
proof (induction "0 :: 'a" xs arbitrary: ys rule: pairs_induct)
  case (pair x y zs)
  then obtain x' y' zs' where "ys = x' # y' # zs'" "length zs = length zs'" by (auto simp: length_Suc_conv Suc_length_conv)
  with pair show ?case by (simp add: dot_def)
next
  case (one v)
  then show ?case by (cases ys) auto
qed (simp add: dot_def)

text \<open>It has degree 2.\<close>

lemma dot_fold_quadratic:
  assumes "length xs = length ys"
  shows "\<exists>a b c. \<forall>t. dot (fold_pairs t xs) (fold_pairs t ys) = a + b * t + c * t * t"
  using assms
proof (induction "0 :: 'a" xs arbitrary: ys rule: pairs_induct)
  case (pair x y zs)
  then obtain x' y' zs' where ys: "ys = x' # y' # zs'" "length zs = length zs'" by (auto simp: length_Suc_conv Suc_length_conv)
  with pair obtain a b c where IH: "\<And>t. dot (fold_pairs t zs) (fold_pairs t zs') = a + b * t + c * t * t" by blast
  have "dot (fold_pairs t (x # y # zs)) (fold_pairs t ys)
      = (x * x' + a) + (x * (y' - x') + (y - x) * x' + b) * t + ((y - x) * (y' - x') + c) * t * t" for t
    using IH [of t] by (simp add: ys dot_def algebra_simps)
  then show ?case by blast
next
  case (one x)
  then show ?case by (intro exI [of _ 0]) (auto simp: length_Suc_conv Suc_length_conv dot_def)
qed (auto intro!: exI [of _ 0] simp: dot_def)

section \<open>Binding all variables\<close>

lemma fold_pairs_point:
  assumes "length f = 2 ^ length x"
  shows "fold fold_pairs x f = [mle_sum f x]"
proof -
  define c where "c = to_coeffs (length x) f"
  have c: "length c = 2 ^ length x" "to_evals (length x) c = f" using assms by (simp_all add: c_def)
  with fold_pairs_all [of c x 0] fold_even_odds_single [OF c(1)] mle_sum_to_evals [OF c(1)] show ?thesis by simp
qed

lemma mle_sum_Cons: "length f = 2 ^ Suc (length x) \<Longrightarrow> mle_sum f (a # x) = mle_sum (fold_pairs a f) x"
  using fold_pairs_point [of f "a # x"] fold_pairs_point [of "fold_pairs a f" x] by simp

text \<open>Binding the first variable last: the even and the odd entries.\<close>

lemma mle_sum_split:
  assumes len: "length f = 2 * 2 ^ length x"
  shows "mle_sum f (a # x) = interpolate_linear_at_01
     (mle_sum (map (\<lambda>i. f ! (2 * i)) [0..<2 ^ length x]) x, mle_sum (map (\<lambda>i. f ! (2 * i + 1)) [0..<2 ^ length x]) x) a"
proof -
  have "mle_sum f (a # x) = mle_sum (fold_pairs a f) x" using len by (simp add: mle_sum_Cons)
  also have "\<dots> = (\<Sum>i < 2 ^ length x. (f ! (2 * i) + a * (f ! (2 * i + 1) - f ! (2 * i))) * eq_mle_value x (cube_point (length x) i))"
    unfolding mle_sum_def using len by (simp add: fold_pairs_nth)
  finally show ?thesis
    by (simp add: interpolate_linear_at_01_def mle_sum_def sum_distrib_left sum_distrib_right sum.distrib [symmetric]
        sum_subtractf [symmetric] algebra_simps)
qed

lemma dot_eq_table: "length f = 2 ^ length x \<Longrightarrow> dot f (evals_eq_hypercube x) = mle_sum f x"
  by (simp add: dot_nth evals_eq_hypercube_serial_eq mle_sum_def hypercube_nth)

lemma eq_table_point: "length p = length x \<Longrightarrow> fold fold_pairs x (evals_eq_hypercube p) = [eq_mle_value p x]"
  using fold_pairs_table [of p x "\<lambda>u. 1 - u" "\<lambda>u. u" "[]"]
  by (simp add: eq_table table_factor_eq) (simp add: product_table_def)

end
