(* ===== verification/WhirFold.thy ===== *)
theory WhirFold
  imports WhirProver PairFolding
begin

text \<open>
  What the folding of the WHIR prover does: the in-place loop folds neighbouring evaluations, and the round
  polynomial of the sumcheck is the inner product of the folded vectors.
\<close>

section \<open>The in-place loop\<close>

lemma fold_in_place_Ok: "fold_in_place a xs = (Ok (fold_pairs a xs) :: (_, 'e) res)"
  using fold_loop [of "length xs div 2" xs a, where 'e = 'e] by (simp add: fold_in_place_def Let_def)

section \<open>The round polynomial\<close>

lemma round_poly_Ok:
  assumes "length f = 2 * 2 ^ d" and "length w = 2 * 2 ^ d" and "d < 64"
  shows "round_poly_at f w d x = (Ok (dot (fold_pairs (of_nat x) f) (fold_pairs (of_nat x) w)) :: (_, 'e) res)"
proof -
  let ?F = "fold_pairs (of_nat x) f" and ?W = "fold_pairs (of_nat x) w"
  let ?step = "\<lambda>y acc. rbind (index f (2 * y)) (\<lambda>f_0. rbind (index f (2 * y + 1)) (\<lambda>f_1.
       let f_x = f_0 + (f_1 - f_0) * of_nat x in rbind (index w (2 * y)) (\<lambda>w_0. rbind (index w (2 * y + 1)) (\<lambda>w_1.
       let w_x = w_0 + (w_1 - w_0) * of_nat x in Ok (acc + f_x * w_x)))))"
  have "i \<le> 2 ^ d \<Longrightarrow> rfold ?step [0..<i] 0 = (Ok (\<Sum>j < i. ?F ! j * ?W ! j) :: (_, 'e) res)" for i
  proof (induction i)
    case (Suc i)
    then have "2 * i + 1 < length f" "2 * i + 1 < length w" "i < length f div 2" "i < length w div 2" using assms by auto
    with Suc show ?case by (simp add: rfold_append Let_def fold_pairs_nth mult.commute [of "of_nat x"])
  qed simp
  from this [of "2 ^ d"] assms show ?thesis by (simp add: round_poly_at_def dot_nth)
qed

lemma sumcheck_round_step:
  assumes "(2 :: 'a::field) \<noteq> 0" and "length f = length w" and "even (length f)"
  shows "interpolate_quadratic_at_012 (dot f w - dot (fold_pairs 1 f) (fold_pairs 1 w), dot (fold_pairs 1 f) (fold_pairs 1 w),
      dot (fold_pairs 2 f) (fold_pairs 2 w)) alpha = dot (fold_pairs alpha f) (fold_pairs alpha (w :: 'a list))"
proof -
  obtain a b c where q: "\<And>t. dot (fold_pairs t f) (fold_pairs t w) = a + b * t + c * t * t"
    using dot_fold_quadratic [OF assms(2)] by blast
  then have h: "dot (fold_pairs t f) (fold_pairs t w) = horner_eval [a, b, c] t" for t by (simp add: horner_Cons algebra_simps)
  have "dot f w - dot (fold_pairs 1 f) (fold_pairs 1 w) = dot (fold_pairs 0 f) (fold_pairs 0 w)"
    using dot_pairs [OF assms(2,3)] by simp
  then show ?thesis unfolding h by (simp only: interpolate_quadratic_exact [OF assms(1)])
qed

end
