(* ===== verification/WhirValues.thy ===== *)
theory WhirValues
  imports WhirFold
begin

text \<open>
  The algebra of the final check of WHIR: what the weights that the prover accumulates contribute to the inner product with the
  final polynomial, and that \<open>verify_whir\<close> computes this from the challenges.
\<close>

section \<open>Powers and tables\<close>

lemma exp_powers_append: "exp_powers_of_2 (k + n) z = exp_powers_of_2 k z @ exp_powers_of_2 n (z ^ 2 ^ k)"
proof (induction k arbitrary: z)
  case (Suc k)
  have "(z * z) ^ 2 ^ k = z ^ 2 ^ Suc k" by (simp add: power_mult_distrib power_add [symmetric] mult_2)
  with Suc show ?case by simp
qed simp

lemma butlast_exp_powers: "butlast (exp_powers_of_2 (k + 1) z) = exp_powers_of_2 k z"
  using exp_powers_append [of k 1 z] by simp

lemma length_evals_eq [simp]: "length (evals_eq_hypercube p) = 2 ^ length p"
  by (simp add: evals_eq_hypercube_serial_eq)

lemma mle_sum_powers: "length g = 2 ^ n \<Longrightarrow> mle_sum (to_evals n g) (exp_powers_of_2 n z) = horner_eval g z"
  using mle_sum_to_evals [of g "exp_powers_of_2 n z"] by (simp add: mle_coeff_powers)

lemma dot_scaled: "dot f (map (\<lambda>v. v * c) xs) = dot f xs * c"
  by (rule dot_scale)

lemma dot_add_right: "length xs = length ys \<Longrightarrow> length f = length xs \<Longrightarrow>
     dot f (map2 (\<lambda>w x. w + c * x) xs ys) = dot f xs + c * dot f ys"
  by (simp add: dot_nth distrib_left sum.distrib sum_distrib_left mult_ac)

lemma fold_pairs_combine:
  "length xs = length ys \<Longrightarrow> fold_pairs a (map2 (\<lambda>w x. w + c * x) xs ys) = map2 (\<lambda>w x. w + c * x) (fold_pairs a xs) (fold_pairs a ys)"
proof (induction a xs arbitrary: ys rule: pairs_induct)
  case (pair a x y zs)
  then obtain x' y' zs' where "ys = x' # y' # zs'" "length zs = length zs'" by (auto simp: length_Suc_conv Suc_length_conv)
  with pair show ?case by (simp add: algebra_simps)
next
  case (one a x)
  then show ?case by (auto simp: length_Suc_conv Suc_length_conv)
qed simp

lemma fold_pairs_combine_all:
  "length xs = length ys \<Longrightarrow>
     fold fold_pairs as (map2 (\<lambda>w x. w + c * x) xs ys) = map2 (\<lambda>w x. w + c * x) (fold fold_pairs as xs) (fold fold_pairs as ys)"
  by (induction as arbitrary: xs ys) (simp_all add: fold_pairs_combine)

lemma length_fold_pairs_all: "length xs = 2 ^ (length as + n) \<Longrightarrow> length (fold fold_pairs as xs) = 2 ^ n"
  by (induction as arbitrary: xs) simp_all

section \<open>The contribution of a weight\<close>

text \<open>A weight vector is folded with the later challenges and multiplied with the final evaluations.\<close>

definition contribution :: "'a::field list \<Rightarrow> 'a list \<Rightarrow> 'a list \<Rightarrow> 'a" where
  "contribution f as w = dot f (fold fold_pairs as w)"

lemma contribution_combine:
  assumes "length w = 2 ^ (length as + n)" and "length t = 2 ^ (length as + n)" and "length f = 2 ^ n"
  shows "contribution f as (map2 (\<lambda>w x. w + c * x) w t) = contribution f as w + c * contribution f as t"
  using assms by (simp add: contribution_def fold_pairs_combine_all dot_add_right length_fold_pairs_all [where n = n])

definition constraint_value :: "'a::field list \<Rightarrow> 'a list \<Rightarrow> 'a \<Rightarrow> 'a" where
  "constraint_value g as z = eq_mle_value as (exp_powers_of_2 (length as) z) * horner_eval g (z ^ 2 ^ length as)"

lemma constraint_weight_value: "constraint_weight g as z = Ok (constraint_value g as z)"
  by (simp only: constraint_weight_Ok butlast_exp_powers constraint_value_def)

lemma contribution_eq:
  assumes "length g = 2 ^ n"
  shows "contribution (to_evals n g) as (evals_eq_hypercube (exp_powers_of_2 (length as + n) z)) = constraint_value g as z"
proof -
  have "fold fold_pairs as (evals_eq_hypercube (exp_powers_of_2 (length as + n) z))
      = map (\<lambda>v. v * eq_mle_value (exp_powers_of_2 (length as) z) as) (evals_eq_hypercube (exp_powers_of_2 n (z ^ 2 ^ length as)))"
    unfolding exp_powers_append eq_table by (simp add: fold_pairs_table table_factor_eq)
  then show ?thesis
    using assms by (simp add: contribution_def dot_scale dot_eq_table mle_sum_powers constraint_value_def eq_mle_commute [of as])
qed

lemma contribution_mobius:
  assumes "length g = 2 ^ n" and "length u = length as + n"
  shows "contribution (to_evals n g) as (evals_mobius_eq_hypercube u) = mobius_value (take (length as) u) as * mle_sum g (drop (length as) u)"
proof -
  have "fold fold_pairs as (evals_mobius_eq_hypercube u)
      = map (\<lambda>v. v * mobius_value (take (length as) u) as) (evals_mobius_eq_hypercube (drop (length as) u))"
    unfolding mobius_table
    using fold_pairs_table [of "take (length as) u" as "\<lambda>u. 1 - 2 * u" "\<lambda>u. u" "drop (length as) u"] assms(2)
    by (simp add: table_factor_mobius del: mult_2)
  then show ?thesis
    using assms mobius_decodes [of g "drop (length as) u"] by (simp add: contribution_def dot_scale mult.commute)
qed

section \<open>The terms of the rounds\<close>

text \<open>The contribution of what a round adds to the weight, given the challenges of the later rounds.\<close>

definition round_value :: "('f \<Rightarrow> 'a) \<Rightarrow> 'a::field list \<Rightarrow> 'a list \<Rightarrow> 'a \<times> 'a option \<times> 'f list \<Rightarrow> 'a" where
  "round_value emb g as = (\<lambda>(gamma, z0, zs).
     (case z0 of None \<Rightarrow> 0 | Some z \<Rightarrow> gamma * constraint_value g as z)
     + (\<Sum>i < length zs. gamma ^ (i + 2) * constraint_value g as (emb (zs ! i))))"

fun rounds_value :: "('f \<Rightarrow> 'a) \<Rightarrow> 'a::field list \<Rightarrow> nat \<Rightarrow> 'a list \<Rightarrow> ('a \<times> 'a option \<times> 'f list) list \<Rightarrow> 'a" where
  "rounds_value emb g k as [] = 0"
| "rounds_value emb g k as (r # rs) = round_value emb g (drop k as) r + rounds_value emb g k (drop k as) rs"

definition round_data :: "('f, 'ef) whir_state \<Rightarrow> ('ef \<times> 'ef option \<times> 'f list) list" where
  "round_data s = zip (ws_gammas s) (zip (map Some (ws_z0s s) @ [None]) (ws_zs s))"

lemma rounds_value_snoc:
  "rounds_value emb g k as (rs @ [r]) = rounds_value emb g k as rs + round_value emb g (drop (k * Suc (length rs)) as) r"
  by (induction rs arbitrary: as) (simp_all add: ac_simps)

lemma rounds_value_sum:
  "rounds_value emb g k as rs = (\<Sum>i < length rs. round_value emb g (drop (k * Suc i) as) (rs ! i))"
proof (induction rs rule: rev_induct)
  case (snoc r rs)
  then show ?case by (simp add: rounds_value_snoc nth_append)
qed simp

context field_tower
begin

lemma final_round_terms_Ok:
  assumes i: "i < num_whir_rounds p" and s: "whir_inv p (num_whir_rounds p) s" and t: "t = k_whir p * num_whir_rounds p"
  shows "final_round_terms X p g s t i (acc, k_whir p * Suc i)
     = (Ok (acc + round_value (fe_embed X) g (drop (k_whir p * Suc i) (ws_alphas s)) (round_data s ! i), k_whir p * Suc (Suc i)) :: (_, 'e) res)"
proof -
  let ?k = "k_whir p" and ?R = "num_whir_rounds p"
  have zs: "map length (ws_zs s) = map num_queries (whir_rounds (whir p))" and len: "length (ws_gammas s) = ?R"
    "length (ws_alphas s) = t" "length (ws_z0s s) = ?R - 1"
    using s t by (auto simp: whir_inv_def num_whir_rounds_def mult.commute)
  have lz: "length (ws_zs s) = ?R" using zs by (auto simp: num_whir_rounds_def dest: map_eq_imp_length_eq)
  have nq: "length (ws_zs s ! i) = num_queries (whir_rounds (whir p) ! i)"
    using arg_cong [OF zs, of "\<lambda>xs. xs ! i"] i lz by (simp add: num_whir_rounds_def)
  have le: "?k * Suc i \<le> t" unfolding t using i by (intro mult_le_mono2) simp
  define slc where "slc = drop (?k * Suc i) (ws_alphas s)"
  have slice: "slice (ws_alphas s) (?k * Suc i) t = (Ok slc :: (_, 'e) res)"
    using le len(2) by (simp add: slice_def slc_def)
  have queries: "rfold (\<lambda>(n, zi) acc. rbind (constraint_weight g slc (fe_embed X zi)) (\<lambda>x. Ok (acc + gamma ^ (n + 2) * x))) (enumerated zis) a
      = (Ok (a + (\<Sum>n < length zis. gamma ^ (n + 2) * constraint_value g slc (fe_embed X (zis ! n)))) :: (_, 'e) res)" for zis gamma a
  proof (induction zis rule: rev_induct)
    case (snoc z zis)
    then show ?case by (simp add: rfold_append nth_append constraint_weight_value add.assoc)
  qed simp
  define last where "last = ?R - 1"
  have data: "round_data s ! i = (ws_gammas s ! i, if i = last then None else Some (ws_z0s s ! i), ws_zs s ! i)"
    using i len lz by (auto simp: round_data_def nth_append last_def)
  have sub: "sub64 ?R 1 = (Ok last :: (_, 'e) res)" using i by (simp add: sub64_def last_def)
  have rest: "rbind (index (whir_rounds (whir p)) i) (\<lambda>round_params.
     rbind (assert_that (length (ws_zs s ! i) = num_queries round_params)) (\<lambda>_.
     rbind (rfold (\<lambda>(n, zi) acc. rbind (constraint_weight g slc (fe_embed X zi)) (\<lambda>x. Ok (acc + (ws_gammas s ! i) ^ (n + 2) * x)))
         (enumerated (ws_zs s ! i)) a) (\<lambda>acc. Ok (acc, ?k * Suc i + ?k))))
     = (Ok (a + (\<Sum>n < length (ws_zs s ! i). (ws_gammas s ! i) ^ (n + 2) * constraint_value g slc (fe_embed X (ws_zs s ! i ! n))), ?k * Suc (Suc i)) :: (_, 'e) res)" for a
    using i nq unfolding queries by (simp add: num_whir_rounds_def)
  show ?thesis
  proof (cases "i = last")
    case True
    show ?thesis
      unfolding final_round_terms_def prod.case data round_value_def slc_def [symmetric]
      by (simp only: index_in_range lz len(1) i rbind.simps slice sub rest True [symmetric] if_True if_False simp_thms option.case add_0_left)
  next
    case False
    then have z: "i < length (ws_z0s s)" using i len(3) by (simp add: last_def)
    show ?thesis
      unfolding final_round_terms_def prod.case data round_value_def slc_def [symmetric]
      by (simp only: index_in_range lz len(1) i z rbind.simps slice sub rest if_True if_False simp_thms option.case False constraint_weight_value [of g slc "ws_z0s s ! i"] add.assoc)
  qed
qed

lemma whir_final_value_Ok:
  assumes params: "wf_params p" and s: "whir_inv p (num_whir_rounds p) s"
    and u: "length u = log_stacked_height p" and g: "length g = 2 ^ (log_stacked_height p - num_whir_sumcheck_rounds p)"
  shows "whir_final_value X p g u s = (Ok (contribution (to_evals (log_stacked_height p - num_whir_sumcheck_rounds p) g) (ws_alphas s)
       (evals_mobius_eq_hypercube u) + rounds_value (fe_embed X) g (k_whir p) (ws_alphas s) (round_data s)) :: (_, 'e) res)"
proof -
  let ?k = "k_whir p" and ?R = "num_whir_rounds p"
  let ?t = "?k * ?R"
  have t: "?t \<le> log_stacked_height p" "num_whir_sumcheck_rounds p = ?t"
    using params by (simp_all add: wf_params_def num_whir_sumcheck_rounds_def k_whir_def mult.commute)
  have la: "length (ws_alphas s) = ?t" using s by (simp add: whir_inv_def mult.commute)
  have sl: "slice u 0 ?t = (Ok (take ?t u) :: (_, 'e) res)" "slice (ws_alphas s) 0 ?t = (Ok (ws_alphas s) :: (_, 'e) res)"
    "slice u ?t (length u) = (Ok (drop ?t u) :: (_, 'e) res)"
    using t(1) la u by (simp_all add: slice_def)
  have suffix: "eval_mle_evals_at_point g (drop ?t u) = (Ok (mle_sum g (drop ?t u)) :: (_, 'e) res)"
    using eval_mle_sum [of g "drop ?t u"] g u t(2) by simp
  have mob: "eval_mobius_eq_mle (take ?t u) (ws_alphas s) = (Ok (mobius_value (take ?t u) (ws_alphas s)) :: (_, 'e) res)"
    by (rule eval_mobius_Ok) (use la u t(1) in simp)
  have ld: "length (round_data s) = ?R"
  proof -
    have "length (ws_zs s) = ?R" using s by (auto simp: whir_inv_def num_whir_rounds_def dest: map_eq_imp_length_eq)
    then show ?thesis using s wf_params_bounds(3) [OF params] by (auto simp: round_data_def whir_inv_def)
  qed
  have loop: "n \<le> ?R \<Longrightarrow> rfold (final_round_terms X p g s ?t) [0..<n] (a, ?k)
      = (Ok (a + (\<Sum>i < n. round_value (fe_embed X) g (drop (?k * Suc i) (ws_alphas s)) (round_data s ! i)), ?k * Suc n) :: (_, 'e) res)" for n a
  proof (induction n)
    case (Suc n)
    then have n: "n < ?R" by simp
    from Suc show ?case
      by (simp only: upt_Suc_append le0 rfold_append rbind.simps rfold.simps final_round_terms_Ok [OF n s refl] sum.lessThan_Suc add.assoc Suc_leD)
  qed simp
  have "contribution (to_evals (log_stacked_height p - num_whir_sumcheck_rounds p) g) (ws_alphas s) (evals_mobius_eq_hypercube u)
      = mobius_value (take ?t u) (ws_alphas s) * mle_sum g (drop ?t u)"
    using contribution_mobius [OF g, of u "ws_alphas s"] la u t by simp
  then show ?thesis
    unfolding whir_final_value_def Let_def sl rbind.simps mob suffix
    using loop [of ?R] ld by (simp add: rounds_value_sum)
qed

end

end
