(* ===== verification/WhirParties.thy ===== *)
theory WhirParties
  imports WhirValues
begin

text \<open>
  The two parties of WHIR, run side by side with the transcript in the same state: the locale
  \<open>whir_parties\<close> says what both rely on; here are the sumcheck rounds and the commitment of a round.
\<close>

declare run_simps [simp]

section \<open>Trees and their openings\<close>

text \<open>Every query of the tree opens the rows \<open>row_at\<close> and the opening verifies against the rt.\<close>

definition tree_opens ::
  "('f, 'd) merkle_hasher \<Rightarrow> ('ef \<Rightarrow> 'f list) \<Rightarrow> nat \<Rightarrow> nat \<Rightarrow> (nat \<Rightarrow> 'ef::zero list) \<Rightarrow> ('ef, 'd) merkle_tree \<Rightarrow> 'd \<Rightarrow> bool" where
  "tree_opens h coeffs bits rows row_at t rt \<longleftrightarrow> length (digest_layers t) = Suc bits \<and>
     (\<forall>q < 2 ^ bits. get_opened_rows t q = Ok (map (\<lambda>j. row_at (j * 2 ^ bits + q)) [0..<rows]) \<and>
       (\<exists>path d. query_merkle_proof t q = Ok path \<and> length path = bits \<and>
          tree_compress h (map (\<lambda>j. hash_slice h (concat (map coeffs (row_at (j * 2 ^ bits + q))))) [0..<rows]) = (Ok d :: ('d, verify_whir_error) res) \<and>
          merkle_verify h rt q d path = Ok ()))"

lemma tree_opens_new:
  fixes M :: "'ef::zero col_matrix" and h :: "('f, 'd) merkle_hasher"
  assumes M: "wf_col_matrix M" "cm_height M = 2 ^ a" and r: "r \<le> a"
  shows "\<exists>t rt. merkle_tree_new h coeffs M (2 ^ r) = Ok t \<and> merkle_root t = Ok rt \<and> backing_matrix t = M \<and>
     tree_opens h coeffs (a - r) (2 ^ r) (row_of M) t rt"
proof -
  note one = merkle_opening_complete [OF M refl r, of _ h coeffs]
  from one [of 0] obtain t rt where t: "merkle_tree_new h coeffs M (2 ^ r) = Ok t" "merkle_root t = Ok rt" "backing_matrix t = M"
    "length (digest_layers t) = Suc (a - r)" by auto
  moreover have "get_opened_rows t q = Ok (map (\<lambda>j. row_of M (j * 2 ^ (a - r) + q)) [0..<2 ^ r]) \<and>
       (\<exists>path d. query_merkle_proof t q = Ok path \<and> length path = a - r \<and>
          tree_compress h (map (\<lambda>j. hash_slice h (concat (map coeffs (row_of M (j * 2 ^ (a - r) + q))))) [0..<2 ^ r]) = (Ok d :: ('d, verify_whir_error) res) \<and>
          merkle_verify h rt q d path = Ok ())" if "q < 2 ^ (a - r)" for q
    using one [OF that] t unfolding leaf_hash_def by auto
  ultimately show ?thesis unfolding tree_opens_def by blast
qed

lemma tree_opens_cong:
  fixes h :: "('f, 'd) merkle_hasher"
  assumes "\<And>i. i < rows * 2 ^ bits \<Longrightarrow> row_at i = row_at' i" and "tree_opens h coeffs bits rows row_at t rt"
  shows "tree_opens h coeffs bits rows row_at' t rt"
proof -
  have rows: "map (\<lambda>j. row_at (j * 2 ^ bits + q)) [0..<rows] = map (\<lambda>j. row_at' (j * 2 ^ bits + q)) [0..<rows]"
    and leaves: "map (\<lambda>j. hash_slice h (concat (map coeffs (row_at (j * 2 ^ bits + q))))) [0..<rows]
      = map (\<lambda>j. hash_slice h (concat (map coeffs (row_at' (j * 2 ^ bits + q))))) [0..<rows]" if "q < 2 ^ bits" for q
    using that by (auto intro!: map_cong simp: assms(1) cell_index_less)
  note t = assms(2) [unfolded tree_opens_def]
  show ?thesis
    unfolding tree_opens_def
  proof (intro conjI allI impI)
    fix q :: nat assume q: "q < 2 ^ bits"
    show "get_opened_rows t q = Ok (map (\<lambda>j. row_at' (j * 2 ^ bits + q)) [0..<rows])"
      unfolding rows [OF q, symmetric] using t q by blast
    show "\<exists>path d. query_merkle_proof t q = Ok path \<and> length path = bits \<and>
        tree_compress h (map (\<lambda>j. hash_slice h (concat (map coeffs (row_at' (j * 2 ^ bits + q))))) [0..<rows]) = (Ok d :: ('d, verify_whir_error) res) \<and>
        merkle_verify h rt q d path = Ok ()"
      unfolding leaves [OF q, symmetric] using t q by blast
  qed (use t in blast)
qed

text \<open>A tree over the values of a polynomial on the domain of size \<open>2 ^ L\<close>.\<close>

definition codeword_at :: "('f::field, 'ef::field) field_ext \<Rightarrow> 'ef list \<Rightarrow> nat \<Rightarrow> nat \<Rightarrow> 'ef list" where
  "codeword_at X g L i = [horner_eval g (fe_embed X (fe_gen X L ^ i))]"

section \<open>The two parties\<close>

text \<open>
  What completeness needs: Plonky3's transforms on both fields, generators that are squares of each other, digests
  that the transcript can observe, and a grinding loop that finds a witness.
\<close>

locale whir_parties = verifier_env T inv wf_digest X
  for T :: "('ts, 'f::field, 'd) transcript_ops" and inv :: "'ts \<Rightarrow> bool" and wf_digest :: "'d \<Rightarrow> bool"
    and X :: "('f, 'ef::field) field_ext" +
  fixes D :: "'f subgroup_dft" and E :: "'ef subgroup_dft" and h :: "('f, 'd) merkle_hasher" and pick :: "'f list \<Rightarrow> 'f"
    and p :: system_params
  assumes D_transform: "subgroup_transform (fe_gen X) (fe_adicity X) D"
    and E_transform: "subgroup_transform (\<lambda>l. fe_embed X (fe_gen X l)) (fe_adicity X) E"
    and gen_square: "l < fe_adicity X \<Longrightarrow> fe_gen X (Suc l) ^ 2 = fe_gen X l"
    and params: "wf_params p" and prot: "wf_protocol X p"
    and hash_digest: "wf_digest (hash_slice h xs)" and compress_digest: "wf_digest (compress h a b)"
    and grind_total: "bits = mu_pow_bits (whir p) \<or> bits = folding_pow_bits (whir p) \<or> bits = query_phase_pow_bits (whir p) \<Longrightarrow>
      inv s \<Longrightarrow> \<exists>w s'. grind T (fe_ops X) pick 0 s bits = Some (w, s') \<and> inv s'"
begin

abbreviation "K \<equiv> fe_ops X"

lemma grind_accepted: "grind T K pick 0 s bits = Some (w, s') \<Longrightarrow> check_witness T K s bits w = Some (True, s')"
  unfolding grind_def
  by (auto simp: check_witness_def [of _ _ _ 0] split: if_splits list.splits option.splits) (auto split: bind_splits if_splits)

lemma run_grind:
  assumes "bits = mu_pow_bits (whir p) \<or> bits = folding_pow_bits (whir p) \<or> bits = query_phase_pow_bits (whir p)" and "inv ts"
  shows "\<exists>w ts'. v_grind T K pick bits ts = (Ok (w, ts') :: (_, 'e) res) \<and> v_check_witness T K bits w ts = (Ok (True, ts') :: (_, 'g) res) \<and> inv ts'"
proof -
  from grind_total [OF assms] obtain w s' where g: "grind T K pick 0 ts bits = Some (w, s')" "inv s'" by blast
  from grind_accepted [OF g(1)] g show ?thesis by (auto simp: vop_def)
qed

lemma run_observe: "inv ts \<Longrightarrow> \<exists>ts'. v_observe_ext T K x ts = (Ok ((), ts') :: (_, 'e) res) \<and> v_observe_ext T K x ts = (Ok ((), ts') :: (_, 'g) res) \<and> inv ts'"
  by (rule both_observe)

lemma run_sample: "inv ts \<Longrightarrow> \<exists>x ts'. v_sample_ext T K ts = (Ok (x, ts') :: (_, 'e) res) \<and> v_sample_ext T K ts = (Ok (x, ts') :: (_, 'g) res) \<and> inv ts'"
  by (rule both_sample)

lemma run_commit:
  "inv ts \<Longrightarrow> wf_digest d \<Longrightarrow> \<exists>ts'. v_observe_commit T d ts = (Ok ((), ts') :: (_, 'e) res) \<and> v_observe_commit T d ts = (Ok ((), ts') :: (_, 'g) res) \<and> inv ts'"
  using observe_commit_total [of ts d] by (auto simp: vact_def)

lemma run_bits:
  "inv ts \<Longrightarrow> grindable X bits \<Longrightarrow> \<exists>i ts'. v_sample_bits T K bits ts = (Ok (i, ts') :: (_, 'e) res) \<and>
     v_sample_bits T K bits ts = (Ok (i, ts') :: (_, 'g) res) \<and> i < 2 ^ bits \<and> inv ts'"
  using sample_bits_total [of ts bits K] by (auto simp: vop_def grindable_def)

section \<open>The sumcheck rounds\<close>

lemma run_fold_round:
  fixes s :: "('f, 'ef, 'd) whir_prover_state"
  assumes inv: "inv ts" and f: "length (wp_f_evals s) = 2 ^ (wp_m s - j)" and w: "length (wp_w_evals s) = 2 ^ (wp_m s - j)"
    and j: "j < wp_m s" "wp_m s < 64"
  shows "\<exists>ev pow alpha ts'. inv ts' \<and>
     prove_fold_round T K pick p j s ts = Ok (s\<lparr>wp_f_evals := fold_pairs alpha (wp_f_evals s), wp_w_evals := fold_pairs alpha (wp_w_evals s),
         wp_proof := (wp_proof s)\<lparr>whir_sumcheck_polys := whir_sumcheck_polys (wp_proof s) @ [ev],
                      folding_pow_witnesses := folding_pow_witnesses (wp_proof s) @ [pow]\<rparr>\<rparr>, ts') \<and>
     (\<forall>as polys pows. whir_fold_round T K p (dot (wp_f_evals s) (wp_w_evals s), as, ev # polys, pow # pows) ts
        = Ok ((dot (fold_pairs alpha (wp_f_evals s)) (fold_pairs alpha (wp_w_evals s)), as @ [alpha], polys, pows), ts'))"
proof -
  let ?f = "wp_f_evals s" and ?w = "wp_w_evals s"
  define ev where "ev t = dot (fold_pairs t ?f) (fold_pairs t ?w)" for t
  obtain d where d: "wp_m s - j = Suc d" using j(1) by (metis Suc_diff_Suc)
  have d64: "d < 64" "Suc d < 64" using d j by auto
  from run_observe [OF inv, where 'e = whir_prover_error and 'g = verify_whir_error, of "ev 1"] obtain ts1 where
    ts1: "v_observe_ext T K (ev 1) ts = (Ok ((), ts1) :: (_, whir_prover_error) res)"
      "v_observe_ext T K (ev 1) ts = (Ok ((), ts1) :: (_, verify_whir_error) res)" "inv ts1" by blast
  from run_observe [OF ts1(3), where 'e = whir_prover_error and 'g = verify_whir_error, of "ev 2"] obtain ts2 where
    ts2: "v_observe_ext T K (ev 2) ts1 = (Ok ((), ts2) :: (_, whir_prover_error) res)"
      "v_observe_ext T K (ev 2) ts1 = (Ok ((), ts2) :: (_, verify_whir_error) res)" "inv ts2" by blast
  from run_grind [of "folding_pow_bits (whir p)", OF _ ts2(3), where 'e = whir_prover_error and 'g = verify_whir_error] obtain pow ts3 where
    ts3: "v_grind T K pick (folding_pow_bits (whir p)) ts2 = (Ok (pow, ts3) :: (_, whir_prover_error) res)"
      "v_check_witness T K (folding_pow_bits (whir p)) pow ts2 = (Ok (True, ts3) :: (_, verify_whir_error) res)" "inv ts3" by blast
  from run_sample [OF ts3(3), where 'e = whir_prover_error and 'g = verify_whir_error] obtain alpha ts4 where
    ts4: "v_sample_ext T K ts3 = (Ok (alpha, ts4) :: (_, whir_prover_error) res)"
      "v_sample_ext T K ts3 = (Ok (alpha, ts4) :: (_, verify_whir_error) res)" "inv ts4" by blast
  have len: "length ?f = 2 * 2 ^ d" "length ?w = 2 * 2 ^ d" using f w d by simp_all
  have sub: "sub64 (wp_m s) j = (Ok (Suc d) :: (_, whir_prover_error) res)" "sub64 (Suc d) 1 = (Ok d :: (_, whir_prover_error) res)"
    "shl64 1 (Suc d) = (Ok (2 ^ Suc d) :: (_, whir_prover_error) res)"
    using j d d64 shl64_one(2) [OF d64(2)] by (simp_all add: sub64_def)
  have polys: "round_poly_at ?f ?w d 1 = (Ok (ev 1) :: (_, whir_prover_error) res)" "round_poly_at ?f ?w d 2 = (Ok (ev 2) :: (_, whir_prover_error) res)"
    using round_poly_Ok [OF len d64(1), of 1] round_poly_Ok [OF len d64(1), of 2] by (simp_all add: ev_def)
  have prover: "prove_fold_round T K pick p j s ts = Ok (s\<lparr>wp_f_evals := fold_pairs alpha ?f, wp_w_evals := fold_pairs alpha ?w,
         wp_proof := (wp_proof s)\<lparr>whir_sumcheck_polys := whir_sumcheck_polys (wp_proof s) @ [(ev 1, ev 2)],
                      folding_pow_witnesses := folding_pow_witnesses (wp_proof s) @ [pow]\<rparr>\<rparr>, ts4)"
    unfolding prove_fold_round_def vbind_def vlift_run sub polys rbind.simps prod.case
    by (simp add: len vassert_run ts1 ts2 ts3 ts4 sub polys fold_in_place_Ok)
  have step: "interpolate_quadratic_at_012 (dot ?f ?w - ev 1, ev 1, ev 2) alpha = dot (fold_pairs alpha ?f) (fold_pairs alpha ?w)"
    unfolding ev_def by (rule sumcheck_round_step) (use ext_two_nonzero len in simp_all)
  have "whir_fold_round T K p (dot ?f ?w, as, (ev 1, ev 2) # polys, pow # pows) ts
      = Ok ((dot (fold_pairs alpha ?f) (fold_pairs alpha ?w), as @ [alpha], polys, pows), ts4)" for as polys pows
    unfolding whir_fold_round_def prod.case list.case
    by (simp add: vbind_def ts1 ts2 ts3 ts4 vcheck_run step)
  with prover ts4(3) show ?thesis by blast
qed

lemma run_fold_rounds:
  fixes s :: "('f, 'ef, 'd) whir_prover_state"
  assumes "inv ts" and "length (wp_f_evals s) = 2 ^ (wp_m s - j)" and "length (wp_w_evals s) = 2 ^ (wp_m s - j)"
    and "j + n \<le> wp_m s" and "wp_m s < 64"
  shows "\<exists>evs pows alphas ts'. inv ts' \<and> length alphas = n \<and> length evs = n \<and> length pows = n \<and>
     vfor (prove_fold_round T K pick p) [j..<j + n] s ts
       = Ok (s\<lparr>wp_f_evals := fold fold_pairs alphas (wp_f_evals s), wp_w_evals := fold fold_pairs alphas (wp_w_evals s),
         wp_proof := (wp_proof s)\<lparr>whir_sumcheck_polys := whir_sumcheck_polys (wp_proof s) @ evs,
                      folding_pow_witnesses := folding_pow_witnesses (wp_proof s) @ pows\<rparr>\<rparr>, ts') \<and>
     (\<forall>as polys pows'. vfor (\<lambda>_. whir_fold_round T K p) [j..<j + n] (dot (wp_f_evals s) (wp_w_evals s), as, evs @ polys, pows @ pows') ts
        = Ok ((dot (fold fold_pairs alphas (wp_f_evals s)) (fold fold_pairs alphas (wp_w_evals s)), as @ alphas, polys, pows'), ts'))"
  using assms
proof (induction n arbitrary: j s ts)
  case 0
  then show ?case by (intro exI [of _ "[]"] exI [of _ ts]) simp
next
  case (Suc n)
  have j: "j < wp_m s" using Suc.prems(4) by simp
  from run_fold_round [OF Suc.prems(1-3) j Suc.prems(5)] obtain ev pow alpha ts1 where
    one: "inv ts1" "prove_fold_round T K pick p j s ts = Ok (s\<lparr>wp_f_evals := fold_pairs alpha (wp_f_evals s), wp_w_evals := fold_pairs alpha (wp_w_evals s),
         wp_proof := (wp_proof s)\<lparr>whir_sumcheck_polys := whir_sumcheck_polys (wp_proof s) @ [ev],
                      folding_pow_witnesses := folding_pow_witnesses (wp_proof s) @ [pow]\<rparr>\<rparr>, ts1)"
    "\<And>as polys pows. whir_fold_round T K p (dot (wp_f_evals s) (wp_w_evals s), as, ev # polys, pow # pows) ts
        = Ok ((dot (fold_pairs alpha (wp_f_evals s)) (fold_pairs alpha (wp_w_evals s)), as @ [alpha], polys, pows), ts1)" by blast
  define s1 where "s1 = s\<lparr>wp_f_evals := fold_pairs alpha (wp_f_evals s), wp_w_evals := fold_pairs alpha (wp_w_evals s),
         wp_proof := (wp_proof s)\<lparr>whir_sumcheck_polys := whir_sumcheck_polys (wp_proof s) @ [ev],
                      folding_pow_witnesses := folding_pow_witnesses (wp_proof s) @ [pow]\<rparr>\<rparr>"
  have half: "(2 :: nat) ^ (wp_m s - j) div 2 = 2 ^ (wp_m s - Suc j)" using j by (subst Suc_diff_Suc [symmetric]) simp_all
  have "length (wp_f_evals s1) = 2 ^ (wp_m s1 - Suc j)" "length (wp_w_evals s1) = 2 ^ (wp_m s1 - Suc j)" "Suc j + n \<le> wp_m s1" "wp_m s1 < 64"
    using Suc.prems half by (simp_all add: s1_def)
  from Suc.IH [OF one(1) this] obtain evs pows alphas ts' where
    rest: "inv ts'" "length alphas = n" "length evs = n" "length pows = n"
     "vfor (prove_fold_round T K pick p) [Suc j..<Suc j + n] s1 ts1
       = Ok (s1\<lparr>wp_f_evals := fold fold_pairs alphas (wp_f_evals s1), wp_w_evals := fold fold_pairs alphas (wp_w_evals s1),
         wp_proof := (wp_proof s1)\<lparr>whir_sumcheck_polys := whir_sumcheck_polys (wp_proof s1) @ evs,
                      folding_pow_witnesses := folding_pow_witnesses (wp_proof s1) @ pows\<rparr>\<rparr>, ts')"
     "\<And>as polys pows'. vfor (\<lambda>_. whir_fold_round T K p) [Suc j..<Suc j + n] (dot (wp_f_evals s1) (wp_w_evals s1), as, evs @ polys, pows @ pows') ts1
        = Ok ((dot (fold fold_pairs alphas (wp_f_evals s1)) (fold fold_pairs alphas (wp_w_evals s1)), as @ alphas, polys, pows'), ts')" by blast
  have range: "[j..<j + Suc n] = j # [Suc j..<Suc j + n]" by (simp add: upt_conv_Cons)
  show ?case
    unfolding range
    by (intro exI [of _ "ev # evs"] exI [of _ "pow # pows"] exI [of _ "alpha # alphas"] exI [of _ ts'])
      (use rest one in \<open>simp add: vbind_def s1_def\<close>)
qed

section \<open>The commitment of a round\<close>

lemma root_digest: "tree_opens h coeffs bits rows row_at t rt \<Longrightarrow> wf_digest rt"
proof -
  assume t: "tree_opens h coeffs bits rows row_at t rt"
  then obtain path d where
    d: "tree_compress h (map (\<lambda>j. hash_slice h (concat (map coeffs (row_at (j * 2 ^ bits + 0))))) [0..<rows]) = (Ok d :: ('d, verify_whir_error) res)"
    and v: "merkle_verify h rt 0 d path = Ok ()" unfolding tree_opens_def by force
  have pairs: "\<forall>x \<in> set ds. wf_digest x \<Longrightarrow> \<forall>x \<in> set (compress_pairs h ds). wf_digest x" for ds
    by (induction ds rule: induct_list012) (auto simp: compress_digest)
  have levels: "\<forall>x \<in> set ds. wf_digest x \<Longrightarrow> \<forall>x \<in> set (compress_levels h ds). wf_digest x" for ds
  proof (induction "length ds" arbitrary: ds rule: less_induct)
    case less
    show ?case
    proof (cases "1 < length ds")
      case True
      then show ?thesis using less(1) [of "compress_pairs h ds"] pairs [OF less(2)] by (simp add: compress_levels_step)
    next
      case False
      then show ?thesis using less(2) by (subst compress_levels.simps) simp
    qed
  qed
  have "\<forall>x \<in> set (map (\<lambda>j. hash_slice h (concat (map coeffs (row_at (j * 2 ^ bits + 0))))) [0..<rows]). wf_digest x"
    by (auto simp: hash_digest)
  from levels [OF this] d have "wf_digest d"
    by (auto simp: tree_compress_def Let_def res_simps split: if_splits)
  moreover have "wf_digest x \<Longrightarrow> wf_digest (fst (fold (merkle_step h) path (x, i)))" for x i
    by (induction path arbitrary: x i) (auto simp: merkle_step_def compress_digest)
  ultimately show ?thesis using v by (auto simp: merkle_verify_def split: prod.splits if_splits) (metis fst_conv)
qed

lemma run_commit_phase:
  fixes s :: "('f, 'ef, 'd) whir_prover_state"
  assumes inv: "inv ts" and f: "length (wp_f_evals s) = 2 ^ n" and n: "wp_m s - k = n" "k \<le> wp_m s" and L: "wp_log_rs_domain_size s = Suc L"
    and le: "n \<le> L" "k \<le> L" "L \<le> fe_adicity X" "L < 64"
  shows "\<exists>t rt z0 ts'. inv ts' \<and> cm_width (backing_matrix t) = 1 \<and>
     tree_opens h (ef_coefficients K) (L - k) (2 ^ k) (codeword_at X (to_coeffs n (wp_f_evals s)) L) t rt \<and>
     prove_commit T K E h k False s ts = Ok ((Some t, Some z0, s\<lparr>wp_proof := (wp_proof s)\<lparr>codeword_commits := codeword_commits (wp_proof s) @ [rt],
                      ood_values := ood_values (wp_proof s) @ [mle_sum (wp_f_evals s) (exp_powers_of_2 n z0)]\<rparr>\<rparr>), ts') \<and>
     (\<forall>w rnd. rnd < length (codeword_commits w) \<longrightarrow> codeword_commits w ! rnd = rt \<longrightarrow> rnd < length (ood_values w) \<longrightarrow>
        ood_values w ! rnd = mle_sum (wp_f_evals s) (exp_powers_of_2 n z0) \<longrightarrow>
        whir_commit_phase T K w False rnd ts = (Ok (Some (z0, mle_sum (wp_f_evals s) (exp_powers_of_2 n z0)), ts') :: (_, verify_whir_error) res))"
proof -
  let ?f = "wp_f_evals s"
  define g where "g = to_coeffs n ?f"
  have g: "length g = 2 ^ n" "to_evals n g = ?f" using f by (simp_all add: g_def)
  from f have "?f \<noteq> []" by auto
  then have mle: "mle_from_evaluations ?f = (Ok g :: (_, whir_prover_error) res)"
    using f by (simp add: mle_from_evaluations_def evals_to_coeffs_Ok g_def)
  define code where "code = map (\<lambda>j. horner_eval g (fe_embed X (fe_gen X L) ^ j)) [0..<2 ^ L]"
  have dft: "sd_dft E (resize (2 ^ L) 0 g) = code"
    using subgroup_transform.dft_values [OF E_transform le(3), of "resize (2 ^ L) 0 g"] g(1) le(1)
    by (simp add: code_def horner_resize power_increasing)
  define M where "M = \<lparr>cm_values = code, cm_width = 1, cm_height = 2 ^ L\<rparr>"
  have M: "wf_col_matrix M" "cm_height M = 2 ^ L" "col_matrix_new code 1 = (Ok M :: (_, whir_prover_error) res)"
    by (simp_all add: col_matrix_new_Ok M_def wf_col_matrix_def code_def)
  from tree_opens_new [OF M(1,2) le(2), of h "ef_coefficients K"] obtain t rt where
    t: "merkle_tree_new h (ef_coefficients K) M (2 ^ k) = Ok t" "merkle_root t = Ok rt" "backing_matrix t = M"
    "tree_opens h (ef_coefficients K) (L - k) (2 ^ k) (row_of M) t rt" by blast
  have "columns_of M ! 0 = code" by (simp add: columns_of_def M_def code_def)
  then have "row_of M i = codeword_at X g L i" if "i < 2 ^ L" for i
    using that by (simp add: row_of_def codeword_at_def) (simp add: M_def code_def)
  moreover have "2 ^ k * 2 ^ (L - k) = (2 :: nat) ^ L" using le(2) by (simp flip: power_add)
  ultimately have opens: "tree_opens h (ef_coefficients K) (L - k) (2 ^ k) (codeword_at X g L) t rt"
    using t(4) by (intro tree_opens_cong [OF _ t(4)]) simp
  from run_commit [OF inv root_digest [OF opens], where 'e = whir_prover_error and 'g = verify_whir_error] obtain ts1 where
    ts1: "v_observe_commit T rt ts = (Ok ((), ts1) :: (_, whir_prover_error) res)"
      "v_observe_commit T rt ts = (Ok ((), ts1) :: (_, verify_whir_error) res)" "inv ts1" by blast
  from run_sample [OF ts1(3), where 'e = whir_prover_error and 'g = verify_whir_error] obtain z0 ts2 where
    ts2: "v_sample_ext T K ts1 = (Ok (z0, ts2) :: (_, whir_prover_error) res)"
      "v_sample_ext T K ts1 = (Ok (z0, ts2) :: (_, verify_whir_error) res)" "inv ts2" by blast
  define y0 where "y0 = mle_sum ?f (exp_powers_of_2 n z0)"
  have y0: "mle_eval_at_point (\<lambda>x. x) g (exp_powers_of_2 n z0) = (Ok y0 :: (_, whir_prover_error) res)"
    using mle_sum_to_evals [of g "exp_powers_of_2 n z0"] g by (simp add: y0_def mle_eval_at_point_Ok)
  from run_observe [OF ts2(3), where 'e = whir_prover_error and 'g = verify_whir_error, of y0] obtain ts3 where
    ts3: "v_observe_ext T K y0 ts2 = (Ok ((), ts3) :: (_, whir_prover_error) res)"
      "v_observe_ext T K y0 ts2 = (Ok ((), ts3) :: (_, verify_whir_error) res)" "inv ts3" by blast
  have arith: "sub64 (wp_m s) k = (Ok n :: (_, whir_prover_error) res)" "shl64 1 n = (Ok (2 ^ n) :: (_, whir_prover_error) res)"
    "sub64 (Suc L) 1 = (Ok L :: (_, whir_prover_error) res)" "shl64 1 L = (Ok (2 ^ L) :: (_, whir_prover_error) res)"
    "shl64 1 k = (Ok (2 ^ k) :: (_, whir_prover_error) res)"
    using n le by (simp_all add: sub64_def)
  have calls: "pcs_call (merkle_tree_new h (ef_coefficients K) M (2 ^ k)) = Ok t" "pcs_call (merkle_root t) = Ok rt"
    by (simp_all add: t)
  have prover: "prove_commit T K E h k False s ts = Ok ((Some t, Some z0, s\<lparr>wp_proof := (wp_proof s)\<lparr>codeword_commits := codeword_commits (wp_proof s) @ [rt],
                      ood_values := ood_values (wp_proof s) @ [y0]\<rparr>\<rparr>), ts3)"
    unfolding prove_commit_def vbind_def vlift_run mle L rbind.simps prod.case arith dft M calls Let_def if_False
    by (simp add: g(1) vassert_run arith dft M calls ts1 ts2 ts3 y0)
  have "whir_commit_phase T K w False rnd ts = (Ok (Some (z0, y0), ts3) :: (_, verify_whir_error) res)"
    if "rnd < length (codeword_commits w)" "codeword_commits w ! rnd = rt" "rnd < length (ood_values w)" "ood_values w ! rnd = y0" for w rnd
    unfolding whir_commit_phase_def vbind_def using that by (simp add: ts1 ts2 ts3)
  moreover have "cm_width (backing_matrix t) = 1" by (simp add: t M_def)
  ultimately show ?thesis using prover opens ts3(3) unfolding g_def y0_def by blast
qed

lemma run_final_phase:
  fixes s :: "('f, 'ef, 'd) whir_prover_state"
  assumes inv: "inv ts" and f: "length (wp_f_evals s) = 2 ^ n"
  shows "\<exists>ts'. inv ts' \<and> prove_commit T K E h k True s ts = Ok ((None, None, s\<lparr>wp_final_poly := Some (to_coeffs n (wp_f_evals s))\<rparr>), ts') \<and>
     (\<forall>w rnd. final_poly w = to_coeffs n (wp_f_evals s) \<longrightarrow> whir_commit_phase T K w True rnd ts = (Ok (None, ts') :: (_, verify_whir_error) res))"
proof -
  let ?g = "to_coeffs n (wp_f_evals s)"
  from f have "wp_f_evals s \<noteq> []" by auto
  then have mle: "mle_from_evaluations (wp_f_evals s) = (Ok ?g :: (_, whir_prover_error) res)"
    using f by (simp add: mle_from_evaluations_def evals_to_coeffs_Ok)
  have "\<exists>ts'. vdo_all (v_observe_ext T K) xs ts = (Ok ((), ts') :: (_, whir_prover_error) res) \<and>
      vdo_all (v_observe_ext T K) xs ts = (Ok ((), ts') :: (_, verify_whir_error) res) \<and> inv ts'" for xs
    using inv
  proof (induction xs arbitrary: ts)
    case (Cons x xs)
    from run_observe [OF Cons.prems, where 'e = whir_prover_error and 'g = verify_whir_error, of x] obtain ts1 where
      ts1: "v_observe_ext T K x ts = (Ok ((), ts1) :: (_, whir_prover_error) res)"
        "v_observe_ext T K x ts = (Ok ((), ts1) :: (_, verify_whir_error) res)" "inv ts1" by blast
    from Cons.IH [OF ts1(3)] show ?case by (simp add: vdo_all_def vbind_def ts1)
  qed (simp add: vdo_all_def)
  then obtain ts' where ts': "vdo_all (v_observe_ext T K) ?g ts = (Ok ((), ts') :: (_, whir_prover_error) res)"
    "vdo_all (v_observe_ext T K) ?g ts = (Ok ((), ts') :: (_, verify_whir_error) res)" "inv ts'" by blast
  have "prove_commit T K E h k True s ts = Ok ((None, None, s\<lparr>wp_final_poly := Some ?g\<rparr>), ts')"
    unfolding prove_commit_def vbind_def by (simp add: mle ts')
  moreover have "whir_commit_phase T K w True rnd ts = (Ok (None, ts') :: (_, verify_whir_error) res)" if "final_poly w = ?g" for w rnd
    unfolding whir_commit_phase_def vbind_def by (simp add: that ts')
  ultimately show ?thesis using ts'(3) by blast
qed

end

end
