(* ===== verification/WhirQueries.thy ===== *)
theory WhirQueries
  imports WhirParties
begin

text \<open>
  The queries of WHIR: what the prover opens at a sampled position is accepted by the verifier, whose folded
  value there is the value of the folded polynomial. In the first round the rows of all commitments are combined with the powers
  of the batching challenge.
\<close>

section \<open>Linear combinations of polynomials\<close>

fun lincomb :: "nat \<Rightarrow> ('a::field \<times> 'a list) list \<Rightarrow> 'a list" where
  "lincomb n [] = replicate n 0"
| "lincomb n ((mu, m) # xs) = map2 (\<lambda>u v. v + u) (map (\<lambda>x. mu * x) m) (lincomb n xs)"

lemma length_lincomb: "\<forall>(mu, m) \<in> set xs. length m = n \<Longrightarrow> length (lincomb n xs) = n"
  by (induction n xs rule: lincomb.induct) auto

lemma horner_add: "length u = length v \<Longrightarrow> horner_eval (map2 (\<lambda>u v. v + u) u v) t = horner_eval v t + horner_eval u t"
  by (induction u v rule: list_induct2) (simp_all add: horner_Cons algebra_simps)

lemma horner_lincomb:
  "\<forall>(mu, m) \<in> set xs. length m = n \<Longrightarrow> horner_eval (lincomb n xs) t = (\<Sum>(mu, m) \<leftarrow> xs. mu * horner_eval m t)"
proof (induction n xs rule: lincomb.induct)
  case (2 n mu m xs)
  then show ?case using length_lincomb [of xs n] by (simp add: horner_add horner_map_smult)
qed (simp add: horner_zeros)

lemma mle_sum_smult: "length m = 2 ^ length x \<Longrightarrow> mle_sum (map (\<lambda>v. mu * v) m) x = mu * mle_sum m x"
  using mle_sum_scale [of m x mu] by (simp add: mult.commute)

lemma mle_sum_lincomb:
  "\<forall>(mu, m) \<in> set xs. length m = n \<Longrightarrow> n = 2 ^ length x \<Longrightarrow> mle_sum (lincomb n xs) x = (\<Sum>(mu, m) \<leftarrow> xs. mu * mle_sum m x)"
proof (induction n xs rule: lincomb.induct)
  case (2 n mu m xs)
  then show ?case using length_lincomb [of xs n] by (simp add: mle_sum_add mle_sum_smult)
qed (simp add: mle_sum_def)

lemma lincomb_nth:
  "\<forall>(mu, m) \<in> set xs. length m = n \<Longrightarrow> i < n \<Longrightarrow> lincomb n xs ! i = (\<Sum>(mu, m) \<leftarrow> xs. mu * m ! i)"
proof (induction n xs rule: lincomb.induct)
  case (2 n mu m xs)
  then show ?case using length_lincomb [of xs n] by simp
qed simp

lemma to_evals_zeros: "to_evals n (replicate (2 ^ n) 0) = replicate (2 ^ n) (0 :: 'a::field)"
proof (induction n)
  case (Suc n)
  have "replicate (2 ^ Suc n) (0 :: 'a) = replicate (2 ^ n) 0 @ replicate (2 ^ n) 0" by (simp add: replicate_add [symmetric] mult_2)
  moreover have "map2 (\<lambda>u v. v + u) (replicate (2 ^ n) 0) (replicate (2 ^ n) (0 :: 'a)) = replicate (2 ^ n) 0"
    by (rule nth_equalityI) simp_all
  ultimately show ?case using Suc by (simp only: cube_layers_halves length_replicate)
qed simp

lemma to_evals_lincomb:
  "\<forall>(mu, m) \<in> set xs. length m = 2 ^ n \<Longrightarrow> to_evals n (lincomb (2 ^ n) xs) = lincomb (2 ^ n) (map (\<lambda>(mu, m). (mu, to_evals n m)) xs)"
proof (induction xs)
  case (Cons x xs)
  obtain mu m where x: "x = (mu, m)" by force
  have len: "length m = 2 ^ n" "length (lincomb (2 ^ n) xs) = 2 ^ n" using Cons.prems length_lincomb [of xs "2 ^ n"] by (auto simp: x)
  have "map (\<lambda>x. mu * x) (to_evals n m) = to_evals n (map (\<lambda>x. mu * x) m)"
    by (rule map_cube_layers [OF _ len(1)]) (simp add: distrib_left)
  with Cons len show ?case by (simp add: x cube_layers_map2)
qed (simp add: to_evals_zeros)

section \<open>The generators\<close>

context whir_parties
begin

lemma gen_power: "k \<le> L \<Longrightarrow> L \<le> fe_adicity X \<Longrightarrow> fe_gen X L ^ 2 ^ (L - k) = fe_gen X k"
proof (induction "L - k" arbitrary: L)
  case (Suc n)
  then obtain L' where L: "L = Suc L'" by (cases L) auto
  with Suc have le: "k \<le> L'" "L' \<le> fe_adicity X" "L' - k = n" "L' < fe_adicity X" by auto
  have "fe_gen X L ^ 2 ^ (L - k) = (fe_gen X L ^ 2) ^ 2 ^ (L' - k)"
    using le by (simp add: L Suc_diff_le power_mult [symmetric])
  also have "\<dots> = fe_gen X k" unfolding L gen_square [OF le(4)] using Suc(1) [OF le(3) [symmetric] le(1,2)] by simp
  finally show ?case .
qed simp

lemma gen_fold: "k \<le> L \<Longrightarrow> L \<le> fe_adicity X \<Longrightarrow> (fe_gen X L ^ i) ^ 2 ^ k = fe_gen X (L - k) ^ i"
  using gen_power [of "L - k" L] by (metis diff_diff_cancel diff_le_self mult.commute power_mult)

lemma query_point:
  "k \<le> L \<Longrightarrow> L \<le> fe_adicity X \<Longrightarrow> fe_gen X L ^ (j * 2 ^ (L - k) + i) = fe_gen X k ^ j * fe_gen X L ^ i"
proof -
  assume L: "k \<le> L" "L \<le> fe_adicity X"
  have "fe_gen X L ^ (j * 2 ^ (L - k)) = (fe_gen X L ^ 2 ^ (L - k)) ^ j" by (simp add: power_mult [symmetric] mult.commute)
  then show ?thesis using gen_power [OF L] by (simp add: power_add)
qed

text \<open>The values of a polynomial at the points of a query fold to the value of the folded polynomial.\<close>

lemma fold_query:
  fixes alphas :: "'ef list"
  assumes "length alphas = k" and "0 < k" and "k \<le> L" and "L \<le> fe_adicity X" and "k < 64"
  shows "binary_k_fold X (map (\<lambda>j. horner_eval g (fe_embed X (fe_gen X L ^ (j * 2 ^ (L - k) + i)))) [0..<2 ^ k]) alphas (fe_gen X L ^ i)
     = (Ok (horner_eval (fold fold_even_odd alphas g) (fe_embed X (fe_gen X (L - k) ^ i))) :: (_, 'e) res)"
proof -
  have "binary_k_fold X (map (\<lambda>j. horner_eval g (fe_embed X (fe_gen X L ^ (j * 2 ^ (L - k) + i)))) [0..<2 ^ k]) alphas (fe_gen X L ^ i)
      = (Ok (horner_eval (fold fold_even_odd alphas g) (fe_embed X ((fe_gen X L ^ i) ^ 2 ^ k))) :: (_, 'e) res)"
    using assms gen_nonzero [of L]
    by (intro binary_k_fold_Ok) (simp_all only: query_point power_not_zero not_False_eq_True le_trans)
  then show ?thesis by (simp only: gen_fold assms(3,4))
qed

end

section \<open>What the prover opens\<close>

definition opened_rows_of :: "('ef::zero, 'd) merkle_tree \<Rightarrow> nat \<Rightarrow> 'ef list list" where
  "opened_rows_of t i = (case get_opened_rows t i of Ok rows \<Rightarrow> rows | _ \<Rightarrow> [])"

definition merkle_path_of :: "('ef, 'd) merkle_tree \<Rightarrow> nat \<Rightarrow> 'd list" where
  "merkle_path_of t i = (case query_merkle_proof t i of Ok path \<Rightarrow> path | _ \<Rightarrow> [])"

lemma tree_opensD:
  fixes h :: "('f, 'd) merkle_hasher"
  assumes "tree_opens h coeffs bits rows row_at t rt" and "i < 2 ^ bits"
  shows "get_opened_rows t i = Ok (opened_rows_of t i)" "opened_rows_of t i = map (\<lambda>j. row_at (j * 2 ^ bits + i)) [0..<rows]"
    "query_merkle_proof t i = Ok (merkle_path_of t i)" "length (merkle_path_of t i) = bits"
    "\<exists>d. tree_compress h (map (\<lambda>row. hash_slice h (concat (map coeffs row))) (opened_rows_of t i)) = (Ok d :: ('d, verify_whir_error) res) \<and>
       merkle_verify h rt i d (merkle_path_of t i) = Ok ()"
    "proof_depth t = (Ok bits :: (_, 'e) res)"
  using assms by (auto simp: tree_opens_def opened_rows_of_def merkle_path_of_def comp_def proof_depth_def sub64_def)

lemma run_open_codeword:
  assumes t: "tree_opens h coeffs bits rows row_at t rt" and width: "cm_width (backing_matrix t) = 1"
    and r: "0 < rnd" "rnd - 1 < length (codeword_opened_values w)" "rnd - 1 < length (codeword_merkle_proofs w)"
    and bits: "log_rs - k = bits"
  shows "\<forall>i \<in> set idxs. i < 2 ^ bits \<Longrightarrow>
     rfold (prove_query mats log_rs k rnd (Some t)) (enumerated idxs) w = Ok (w\<lparr>
       codeword_opened_values := (codeword_opened_values w)[rnd - 1 := codeword_opened_values w ! (rnd - 1) @ map (\<lambda>i. concat (opened_rows_of t i)) idxs],
       codeword_merkle_proofs := (codeword_merkle_proofs w)[rnd - 1 := codeword_merkle_proofs w ! (rnd - 1) @ map (merkle_path_of t) idxs]\<rparr>)"
proof (induction idxs rule: rev_induct)
  case (snoc i idxs)
  then have i: "i < 2 ^ bits" by simp
  note open1 = tree_opensD(1,3,4) [OF t i]
  have depth: "proof_depth t = (Ok bits :: (_, whir_prover_error) res)" by (rule tree_opensD(6) [OF t i])
  have sub: "sub64 rnd (Suc 0) = (Ok (rnd - Suc 0) :: (_, whir_prover_error) res)" using r(1) by (simp add: sub64_def)
  define w1 where "w1 = w\<lparr>
       codeword_opened_values := (codeword_opened_values w)[rnd - 1 := codeword_opened_values w ! (rnd - 1) @ map (\<lambda>i. concat (opened_rows_of t i)) idxs],
       codeword_merkle_proofs := (codeword_merkle_proofs w)[rnd - 1 := codeword_merkle_proofs w ! (rnd - 1) @ map (merkle_path_of t) idxs]\<rparr>"
  have "prove_query mats log_rs k rnd (Some t) (length idxs, i) w1 = Ok (w\<lparr>
       codeword_opened_values := (codeword_opened_values w)[rnd - 1 := codeword_opened_values w ! (rnd - 1) @ map (\<lambda>i. concat (opened_rows_of t i)) (idxs @ [i])],
       codeword_merkle_proofs := (codeword_merkle_proofs w)[rnd - 1 := codeword_merkle_proofs w ! (rnd - 1) @ map (merkle_path_of t) (idxs @ [i])]\<rparr>)"
    using r unfolding prove_query_def open_codeword_def
    by (simp add: bits width open1 depth sub push_at_def w1_def)
  with snoc show ?case by (simp add: rfold_append w1_def)
next
  case Nil
  then show ?case using r by simp
qed

section \<open>Opening all commitments\<close>

text \<open>The matrix, its tree and its root, as \<open>stacked_commit\<close> makes them.\<close>

definition committed ::
  "('f::field, 'ef) field_ext \<Rightarrow> 'f subgroup_dft \<Rightarrow> ('f, 'd) merkle_hasher \<Rightarrow> system_params \<Rightarrow> 'f col_matrix \<times> ('f, 'd) merkle_tree \<Rightarrow> 'd \<Rightarrow> bool" where
  "committed X D h p = (\<lambda>(M, t) rt. wf_col_matrix M \<and> cm_height M = 2 ^ log_stacked_height p \<and>
     (\<exists>R. rs_code_matrix D (l_skip p) (log_blowup p) M = Ok R \<and> merkle_tree_new h (\<lambda>x. [x]) R (2 ^ k_whir p) = Ok t \<and> merkle_root t = Ok rt))"

definition column_messages :: "'f::field subgroup_dft \<Rightarrow> system_params \<Rightarrow> 'f col_matrix \<Rightarrow> 'f list list" where
  "column_messages D p M = map (rs_message D (l_skip p)) (columns_of M)"

text \<open>The messages of all columns, and their combination with the powers of the batching challenge.\<close>

definition all_messages :: "'f::field subgroup_dft \<Rightarrow> system_params \<Rightarrow> ('f col_matrix \<times> ('f, 'd) merkle_tree) list \<Rightarrow> 'f list list" where
  "all_messages D p mats = concat (map (\<lambda>(M, _). column_messages D p M) mats)"

definition batched_message ::
  "('f::field, 'ef::field) field_ext \<Rightarrow> 'f subgroup_dft \<Rightarrow> system_params \<Rightarrow> ('f col_matrix \<times> ('f, 'd) merkle_tree) list \<Rightarrow> 'ef list \<Rightarrow> 'ef list" where
  "batched_message X D p mats mus = lincomb (2 ^ log_stacked_height p) (zip mus (map (map (fe_embed X)) (all_messages D p mats)))"

lemma run_open_committed:
  fixes w :: "('f::field, 'ef, 'd) whir_proof"
  assumes open1: "\<forall>(M, t) \<in> set mats. cm_height (backing_matrix t) = 2 ^ log_rs \<and> get_opened_rows t i = Ok (opened_rows_of t i) \<and>
       query_merkle_proof t i = Ok (merkle_path_of t i) \<and> length (merkle_path_of t i) = depth \<and> length (digest_layers t) = Suc depth"
    and len: "length (initial_round_opened_rows w) = length mats" "length (initial_round_merkle_proofs w) = length mats"
    and q: "\<forall>paths \<in> set (initial_round_merkle_proofs w). length paths = q" and "log_rs < 64"
  shows "rfold (open_committed log_rs depth q i) (enumerated mats) w = Ok (w\<lparr>
     initial_round_opened_rows := map2 (\<lambda>rows (M, t). rows @ [opened_rows_of t i]) (initial_round_opened_rows w) mats,
     initial_round_merkle_proofs := map2 (\<lambda>paths (M, t). paths @ [merkle_path_of t i]) (initial_round_merkle_proofs w) mats\<rparr>)"
proof -
  let ?O = "initial_round_opened_rows w" and ?P = "initial_round_merkle_proofs w"
  let ?o = "\<lambda>rows (M :: 'f col_matrix, t :: ('f, 'd) merkle_tree). rows @ [opened_rows_of t i]"
  let ?p = "\<lambda>paths (M :: 'f col_matrix, t :: ('f, 'd) merkle_tree). paths @ [merkle_path_of t i]"
  have "c \<le> length mats \<Longrightarrow> rfold (open_committed log_rs depth q i) (take c (enumerated mats)) w = Ok (w\<lparr>
     initial_round_opened_rows := map2 ?o (take c ?O) (take c mats) @ drop c ?O,
     initial_round_merkle_proofs := map2 ?p (take c ?P) (take c mats) @ drop c ?P\<rparr>)" for c
  proof (induction c)
    case (Suc c)
    then have c: "c < length mats" by simp
    obtain M t where Mt: "mats ! c = (M, t)" by force
    with c have mem: "(M, t) \<in> set mats" by (metis nth_mem)
    with open1 have t: "cm_height (backing_matrix t) = 2 ^ log_rs" "get_opened_rows t i = Ok (opened_rows_of t i)"
       "query_merkle_proof t i = Ok (merkle_path_of t i)" "length (merkle_path_of t i) = depth" "length (digest_layers t) = Suc depth" by auto
    define O1 P1 where "O1 = map2 ?o (take c ?O) (take c mats)" and "P1 = map2 ?p (take c ?P) (take c mats)"
    have l1: "length O1 = c" "length P1 = c" using c len by (simp_all add: O1_def P1_def)
    have at: "(O1 @ drop c ?O) ! c = ?O ! c" "(P1 @ drop c ?P) ! c = ?P ! c" "c < length (O1 @ drop c ?O)" "c < length (P1 @ drop c ?P)"
      using c len l1 by (simp_all add: nth_append)
    have "length (?P ! c) = q" using q c len by simp
    with at t assms(5) have "open_committed log_rs depth q i (c, M, t) (w\<lparr>initial_round_opened_rows := O1 @ drop c ?O, initial_round_merkle_proofs := P1 @ drop c ?P\<rparr>)
        = Ok (w\<lparr>initial_round_opened_rows := (O1 @ drop c ?O)[c := ?O ! c @ [opened_rows_of t i]],
                initial_round_merkle_proofs := (P1 @ drop c ?P)[c := ?P ! c @ [merkle_path_of t i]]\<rparr>)"
      by (simp add: open_committed_def push_at_def proof_depth_def sub64_def)
    moreover have "(O1 @ drop c ?O)[c := ?O ! c @ [opened_rows_of t i]] = map2 ?o (take (Suc c) ?O) (take (Suc c) mats) @ drop (Suc c) ?O"
      "(P1 @ drop c ?P)[c := ?P ! c @ [merkle_path_of t i]] = map2 ?p (take (Suc c) ?P) (take (Suc c) mats) @ drop (Suc c) ?P"
      using c len l1 Mt by (simp_all add: O1_def P1_def list_update_append take_Suc_conv_app_nth Cons_nth_drop_Suc [symmetric])
    moreover have "take (Suc c) (enumerated mats) = take c (enumerated mats) @ [(c, M, t)]"
      using c Mt by (simp add: take_Suc_conv_app_nth)
    ultimately show ?case using Suc c by (simp add: rfold_append O1_def P1_def)
  qed simp
  from this [of "length mats"] len show ?thesis by simp
qed

lemma run_open_initial:
  fixes w :: "('f::field, 'ef::zero, 'd) whir_proof"
  assumes open1: "\<forall>i \<in> set idxs. \<forall>(M, t) \<in> set mats. cm_height (backing_matrix t) = 2 ^ log_rs \<and> get_opened_rows t i = Ok (opened_rows_of t i) \<and>
       query_merkle_proof t i = Ok (merkle_path_of t i) \<and> length (merkle_path_of t i) = log_rs - k \<and> length (digest_layers t) = Suc (log_rs - k)"
    and w: "initial_round_opened_rows w = replicate (length mats) []" "initial_round_merkle_proofs w = replicate (length mats) []" and "log_rs < 64"
  shows "rfold (prove_query mats log_rs k 0 rs_tree) (enumerated idxs) w = Ok (w\<lparr>
     initial_round_opened_rows := map (\<lambda>(M, t). map (opened_rows_of t) idxs) mats,
     initial_round_merkle_proofs := map (\<lambda>(M, t). map (merkle_path_of t) idxs) mats\<rparr>)"
  using open1
proof (induction idxs rule: rev_induct)
  case Nil
  with w show ?case by (cases w) (simp add: map_replicate_const)
next
  case (snoc i idxs)
  define w1 where "w1 = w\<lparr>initial_round_opened_rows := map (\<lambda>(M, t). map (opened_rows_of t) idxs) mats,
     initial_round_merkle_proofs := map (\<lambda>(M, t). map (merkle_path_of t) idxs) mats\<rparr>"
  have "rfold (prove_query mats log_rs k 0 rs_tree) (enumerated idxs) w = Ok w1" unfolding w1_def using snoc by auto
  moreover have "rfold (open_committed log_rs (log_rs - k) (length idxs) i) (enumerated mats) w1 = Ok (w1\<lparr>
     initial_round_opened_rows := map2 (\<lambda>rows (M, t). rows @ [opened_rows_of t i]) (initial_round_opened_rows w1) mats,
     initial_round_merkle_proofs := map2 (\<lambda>paths (M, t). paths @ [merkle_path_of t i]) (initial_round_merkle_proofs w1) mats\<rparr>)"
    by (rule run_open_committed) (use snoc.prems assms(4) in \<open>auto simp: w1_def\<close>)
  moreover have "map2 (\<lambda>rows (M, t). rows @ [opened_rows_of t i]) (map (\<lambda>(M, t). map (opened_rows_of t) idxs) mats) mats
      = map (\<lambda>(M, t). map (opened_rows_of t) (idxs @ [i])) mats" for mats :: "('f col_matrix \<times> ('f, 'd) merkle_tree) list"
    by (induction mats) auto
  moreover have "map2 (\<lambda>paths (M, t). paths @ [merkle_path_of t i]) (map (\<lambda>(M, t). map (merkle_path_of t) idxs) mats) mats
      = map (\<lambda>(M, t). map (merkle_path_of t) (idxs @ [i])) mats" for mats :: "('f col_matrix \<times> ('f, 'd) merkle_tree) list"
    by (induction mats) auto
  ultimately show ?case by (simp add: rfold_append prove_query_def w1_def)
qed

section \<open>What the verifier computes\<close>

lemma add_columns:
  fixes X :: "('f, 'ef::field) field_ext"
  assumes "length rows = 2 ^ k" and "\<forall>row \<in> set rows. length row = width" and "k < 64" and "length vals = 2 ^ k" and "width \<le> length mus"
  shows "c \<le> width \<Longrightarrow> rfold (add_opened_column X k rows) [0..<c] (vals, mus)
     = (Ok (map (\<lambda>j. vals ! j + (\<Sum>(mu, x) \<leftarrow> zip (take c mus) (take c (rows ! j)). mu * fe_embed X x)) [0..<2 ^ k], drop c mus) :: (_, 'e) res)"
proof (induction c)
  case 0
  have "map (\<lambda>j. vals ! j) [0..<2 ^ k] = vals" using assms(4) by (metis map_nth)
  then show ?case by simp
next
  case (Suc c)
  define vs where "vs = map (\<lambda>j. vals ! j + (\<Sum>(mu, x) \<leftarrow> zip (take c mus) (take c (rows ! j)). mu * fe_embed X x)) [0..<2 ^ k]"
  have c: "c < width" "c < length mus" using Suc.prems assms(5) by auto
  have row: "length (rows ! j) = width" if "j < 2 ^ k" for j using assms(1,2) that by simp
  have "n \<le> 2 ^ k \<Longrightarrow> rfold (\<lambda>j vals. rbind (index rows j) (\<lambda>row. rbind (index row c) (\<lambda>x. rbind (index vals j) (\<lambda>v.
         Ok (vals[j := v + mus ! c * fe_embed X x]))))) [0..<n] vs
      = (Ok (map (\<lambda>j. vs ! j + mus ! c * fe_embed X (rows ! j ! c)) [0..<n] @ drop n vs) :: (_, 'e) res)" for n
  proof (induction n)
    case (Suc n)
    then have n: "n < 2 ^ k" "n < length vs" by (simp_all add: vs_def)
    with Suc c assms(1) row [OF n(1)] show ?case
      by (simp add: rfold_append nth_append list_update_append Cons_nth_drop_Suc [symmetric])
  qed simp
  from this [of "2 ^ k"] have loop: "rfold (\<lambda>j vals. rbind (index rows j) (\<lambda>row. rbind (index row c) (\<lambda>x. rbind (index vals j) (\<lambda>v.
         Ok (vals[j := v + mus ! c * fe_embed X x]))))) [0..<2 ^ k] vs
      = (Ok (map (\<lambda>j. vs ! j + mus ! c * fe_embed X (rows ! j ! c)) [0..<2 ^ k]) :: (_, 'e) res)" by (simp add: vs_def)
  have "add_opened_column X k rows c (vs, drop c mus) = (Ok (map (\<lambda>j. vs ! j + mus ! c * fe_embed X (rows ! j ! c)) [0..<2 ^ k], drop (Suc c) mus) :: (_, 'e) res)"
    using c assms(3) by (simp add: add_opened_column_def loop drop_drop)
  moreover have "map (\<lambda>j. vs ! j + mus ! c * fe_embed X (rows ! j ! c)) [0..<2 ^ k]
      = map (\<lambda>j. vals ! j + (\<Sum>(mu, x) \<leftarrow> zip (take (Suc c) mus) (take (Suc c) (rows ! j)). mu * fe_embed X x)) [0..<2 ^ k]"
    using c row by (intro map_cong refl) (simp add: vs_def take_Suc_conv_app_nth add.assoc)
  ultimately show ?case using Suc c by (simp add: rfold_append vs_def)
qed

context whir_parties
begin

abbreviation "L0 \<equiv> log_stacked_height p + log_blowup p"
abbreviation "k \<equiv> k_whir p"

lemma sizes: "0 < k" "k < 63" "k \<le> L0" "L0 \<le> fe_adicity X" "L0 < 63" "L0 - k < 32" "l_skip p \<le> fe_adicity X" "log_blowup p < 64"
proof -
  show "0 < k" using params by (simp add: wf_params_def)
  show "k < 63" by (rule wf_params_bounds(1) [OF params])
  show "k \<le> L0" using wf_params_bounds(4) [OF params] by simp
  show "L0 < 63" "log_blowup p < 64" using params by (simp_all add: wf_params_def log_stacked_height_def)
  show a: "L0 \<le> fe_adicity X" using prot by (simp add: wf_protocol_def)
  show "L0 - k < 32" using prot by (simp add: wf_protocol_def grindable_def)
  show "l_skip p \<le> fe_adicity X" using a by (simp add: log_stacked_height_def)
qed

lemma committed_opens:
  assumes "committed X D h p (M, t) rt"
  shows "tree_opens h (\<lambda>x. [x]) (L0 - k) (2 ^ k) (\<lambda>i. map (\<lambda>m. horner_eval m (fe_gen X L0 ^ i)) (column_messages D p M)) t rt"
    "cm_height (backing_matrix t) = 2 ^ L0"
proof -
  from assms obtain R where M: "wf_col_matrix M" "cm_height M = 2 ^ log_stacked_height p" and
    R: "rs_code_matrix D (l_skip p) (log_blowup p) M = Ok R" and t: "merkle_tree_new h (\<lambda>x. [x]) R (2 ^ k) = Ok t" "merkle_root t = Ok rt"
    by (auto simp: committed_def)
  have "cm_height M = 2 ^ (l_skip p + n_stack p)" using M(2) by (simp add: log_stacked_height_def)
  from rs_code_matrix_Ok [OF D_transform M(1) this, of "log_blowup p"] sizes(4,5) R
  have R': "wf_col_matrix R" "cm_width R = cm_width M" "cm_height R = 2 ^ L0"
    "\<forall>c < cm_width M. \<forall>j < 2 ^ L0. columns_of R ! c ! j = horner_eval (rs_message D (l_skip p) (columns_of M ! c)) (fe_gen X L0 ^ j)"
    by (auto simp: log_stacked_height_def)
  from tree_opens_new [OF R'(1,3) sizes(3), of h "\<lambda>x. [x]"] t
  have opens: "backing_matrix t = R" "tree_opens h (\<lambda>x. [x]) (L0 - k) (2 ^ k) (row_of R) t rt" by auto
  show "cm_height (backing_matrix t) = 2 ^ L0" using opens(1) R'(3) by simp
  have "row_of R i = map (\<lambda>m. horner_eval m (fe_gen X L0 ^ i)) (column_messages D p M)" if "i < 2 ^ L0" for i
    using R'(2,4) that by (intro nth_equalityI) (simp_all add: row_of_def column_messages_def)
  moreover have "2 ^ k * 2 ^ (L0 - k) = (2 :: nat) ^ L0" using sizes(3) by (simp flip: power_add)
  ultimately show "tree_opens h (\<lambda>x. [x]) (L0 - k) (2 ^ k) (\<lambda>i. map (\<lambda>m. horner_eval m (fe_gen X L0 ^ i)) (column_messages D p M)) t rt"
    by (intro tree_opens_cong [OF _ opens(2)]) simp
qed

text \<open>The rows of all commitments at one query.\<close>

lemma open_commitments:
  assumes com: "list_all2 (committed X D h p) mats rts" and i: "idxs ! q = i" "q < length idxs" "i < 2 ^ (L0 - k)"
    and vals: "length vals = 2 ^ k" and mus: "length mus = sum_list (map (\<lambda>(M, _). cm_width M) mats) + extra"
  shows "rfold (open_commitment X h k q i) (zip rts (zip (map (\<lambda>(M, _). cm_width M) mats)
       (zip (map (\<lambda>(M, t). map (opened_rows_of t) idxs) mats) (map (\<lambda>(M, t). map (merkle_path_of t) idxs) mats)))) (vals, mus)
     = Ok (map (\<lambda>j. vals ! j + (\<Sum>(mu, m) \<leftarrow> zip mus (concat (map (\<lambda>(M, _). column_messages D p M) mats)).
          mu * fe_embed X (horner_eval m (fe_gen X L0 ^ (j * 2 ^ (L0 - k) + i))))) [0..<2 ^ k], drop (sum_list (map (\<lambda>(M, _). cm_width M) mats)) mus)"
  using com vals mus
proof (induction mats rts arbitrary: vals mus rule: list_all2_induct)
  case Nil
  then have "map (\<lambda>j. vals ! j) [0..<2 ^ k] = vals" by (metis map_nth)
  then show ?case by simp
next
  case (Cons Mt mats rt rts)
  obtain M t where Mt: "Mt = (M, t)" by force
  note opens = committed_opens [OF Cons.hyps(1) [unfolded Mt]]
  note at = tree_opensD [OF opens(1) i(3)]
  let ?pt = "\<lambda>j. fe_gen X L0 ^ (j * 2 ^ (L0 - k) + i)"
  have rows: "opened_rows_of t i = map (\<lambda>j. map (\<lambda>m. horner_eval m (?pt j)) (column_messages D p M)) [0..<2 ^ k]" by (rule at(2))
  have width: "length (column_messages D p M) = cm_width M" by (simp add: column_messages_def)
  have leaves: "map (\<lambda>row. hash_slice h (concat (map (\<lambda>x. [x]) row))) rs = map (hash_slice h) rs" for rs by simp
  obtain d where d: "tree_compress h (map (hash_slice h) (opened_rows_of t i)) = (Ok d :: ('d, verify_whir_error) res)"
    "merkle_verify h rt i d (merkle_path_of t i) = Ok ()" using at(5) unfolding leaves by blast
  have "i < 2 ^ 32"
  proof -
    have "(2 :: nat) ^ (L0 - k) \<le> 2 ^ 32" using sizes(6) by (intro power_increasing) simp_all
    with i(3) show ?thesis by linarith
  qed
  then have idx: "i mod 2 ^ 32 = i" by simp
  have cols: "rfold (add_opened_column X k (opened_rows_of t i)) [0..<cm_width M] (vals, mus)
      = (Ok (map (\<lambda>j. vals ! j + (\<Sum>(mu, x) \<leftarrow> zip (take (cm_width M) mus) (take (cm_width M) (opened_rows_of t i ! j)). mu * fe_embed X x)) [0..<2 ^ k],
          drop (cm_width M) mus) :: (_, verify_whir_error) res)"
    by (rule add_columns [where width = "cm_width M"]) (use Cons.prems sizes(2) width in \<open>auto simp: rows Mt\<close>)
  define vals1 where "vals1 = map (\<lambda>j. vals ! j + (\<Sum>(mu, m) \<leftarrow> zip (take (cm_width M) mus) (column_messages D p M). mu * fe_embed X (horner_eval m (?pt j)))) [0..<2 ^ k]"
  have v1: "map (\<lambda>j. vals ! j + (\<Sum>(mu, x) \<leftarrow> zip (take (cm_width M) mus) (take (cm_width M) (opened_rows_of t i ! j)). mu * fe_embed X x)) [0..<2 ^ k] = vals1"
    unfolding vals1_def by (intro map_cong refl) (simp add: rows width zip_map2 comp_def split_def)
  have one: "open_commitment X h k q i (rt, cm_width M, map (opened_rows_of t) idxs, map (merkle_path_of t) idxs) (vals, mus)
      = Ok (vals1, drop (cm_width M) mus)"
    unfolding open_commitment_def using i(1,2) d cols idx by (simp add: v1)
  have split: "zip mus (column_messages D p M @ rest) = zip (take (cm_width M) mus) (column_messages D p M) @ zip (drop (cm_width M) mus) rest" for rest
    by (simp add: zip_append2 width)
  have "length vals1 = 2 ^ k" "length (drop (cm_width M) mus) = sum_list (map (\<lambda>(M, _). cm_width M) mats) + extra"
    using Cons.prems by (simp_all add: vals1_def Mt)
  from Cons.IH [OF this] one show ?case
    by (simp add: Mt split vals1_def add.assoc add.commute [of "cm_width M"])
qed

lemma message_length:
  assumes "list_all2 (committed X D h p) mats rts" and "m \<in> set (all_messages D p mats)"
  shows "length m = 2 ^ log_stacked_height p"
proof -
  from assms(2) obtain M t col where m: "(M, t) \<in> set mats" "col \<in> set (columns_of M)" "m = rs_message D (l_skip p) col"
    by (auto simp: all_messages_def column_messages_def)
  from assms(1) m(1) obtain rt where "committed X D h p (M, t) rt" by (auto simp: list_all2_conv_all_nth in_set_conv_nth)
  then have M: "wf_col_matrix M" "cm_height M = 2 ^ (l_skip p + n_stack p)" by (auto simp: committed_def log_stacked_height_def)
  then have "length col = 2 ^ (l_skip p + n_stack p)" using m(2) length_column [OF M(1)] by (auto simp: in_set_conv_nth)
  from rs_message_Ok(2) [OF D_transform sizes(7) this] show ?thesis by (simp add: m(3) log_stacked_height_def)
qed

lemma batched_lengths:
  assumes "list_all2 (committed X D h p) mats rts"
  shows "\<forall>(mu, m) \<in> set (zip mus (map (map (fe_embed X)) (all_messages D p mats))). length m = 2 ^ log_stacked_height p"
  using message_length [OF assms] by (auto dest!: set_zip_rightD)

lemma horner_batched:
  assumes "list_all2 (committed X D h p) mats rts"
  shows "horner_eval (batched_message X D p mats mus) (fe_embed X x) = (\<Sum>(mu, m) \<leftarrow> zip mus (all_messages D p mats). mu * fe_embed X (horner_eval m x))"
  unfolding batched_message_def horner_lincomb [OF batched_lengths [OF assms]]
  by (simp add: zip_map2 comp_def split_def horner_embed)

text \<open>A query of the first round and one of a later round.\<close>

lemma initial_query_Ok:
  fixes w :: "('f, 'ef, 'd) whir_proof"
  assumes com: "list_all2 (committed X D h p) mats rts" and i: "idxs ! q = i" "q < length idxs" "i < 2 ^ (L0 - k)"
    and mus: "length mus = sum_list (map (\<lambda>(M, _). cm_width M) mats)" and alphas: "length alphas = k"
    and w: "initial_round_opened_rows w = map (\<lambda>(M, t). map (opened_rows_of t) idxs) mats"
      "initial_round_merkle_proofs w = map (\<lambda>(M, t). map (merkle_path_of t) idxs) mats"
  shows "initial_query_value X h k w rts (map (\<lambda>(M, _). cm_width M) mats) mus alphas q i (fe_gen X L0 ^ i)
     = Ok (horner_eval (fold fold_even_odd alphas (batched_message X D p mats mus)) (fe_embed X (fe_gen X (L0 - k) ^ i)))"
proof -
  have lm: "length mus = sum_list (map (\<lambda>(M, _). cm_width M) mats) + 0" using mus by simp
  have "map (\<lambda>j. replicate (2 ^ k) 0 ! j + (\<Sum>(mu, m) \<leftarrow> zip mus (concat (map (\<lambda>(M, _). column_messages D p M) mats)).
          mu * fe_embed X (horner_eval m (fe_gen X L0 ^ (j * 2 ^ (L0 - k) + i))))) [0..<2 ^ k]
      = map (\<lambda>j. horner_eval (batched_message X D p mats mus) (fe_embed X (fe_gen X L0 ^ (j * 2 ^ (L0 - k) + i)))) [0..<2 ^ k]"
    unfolding horner_batched [OF com] all_messages_def by (intro map_cong refl) simp
  with open_commitments [OF com i, of "replicate (2 ^ k) 0" mus 0] mus sizes(2) show ?thesis
    unfolding initial_query_value_def w
    by (simp add: fold_query [OF alphas sizes(1,3,4)] del: embed_power embed_mult)
qed

lemma codeword_query_Ok:
  fixes w :: "('f, 'ef, 'd) whir_proof"
  assumes t: "tree_opens h (ef_coefficients K) (L - k) (2 ^ k) (codeword_at X g L) t rt" and L: "k \<le> L" "L \<le> L0"
    and i: "idxs ! q = i" "q < length idxs" "i < 2 ^ (L - k)" and alphas: "length alphas = k" and rnd: "0 < rnd"
    and w: "rnd - 1 < length (codeword_opened_values w)" "codeword_opened_values w ! (rnd - 1) = map (\<lambda>i. concat (opened_rows_of t i)) idxs"
      "rnd - 1 < length (codeword_merkle_proofs w)" "codeword_merkle_proofs w ! (rnd - 1) = map (merkle_path_of t) idxs"
      "rnd - 1 < length (codeword_commits w)" "codeword_commits w ! (rnd - 1) = rt"
  shows "codeword_query_value X h w alphas rnd q i (fe_gen X L ^ i)
     = Ok (horner_eval (fold fold_even_odd alphas g) (fe_embed X (fe_gen X (L - k) ^ i)))"
proof -
  note at = tree_opensD [OF t i(3)]
  let ?v = "\<lambda>j. horner_eval g (fe_embed X (fe_gen X L ^ (j * 2 ^ (L - k) + i)))"
  have vals: "concat (opened_rows_of t i) = map ?v [0..<2 ^ k]"
    unfolding at(2) codeword_at_def by (simp add: comp_def concat_map_singleton)
  have "map (\<lambda>row. hash_slice h (concat (map (ef_coefficients K) row))) (opened_rows_of t i) = map (\<lambda>v. hash_slice h (ef_coefficients K v)) (map ?v [0..<2 ^ k])"
    unfolding at(2) codeword_at_def by simp
  then obtain d where d: "tree_compress h (map (\<lambda>v. hash_slice h (ef_coefficients K v)) (map ?v [0..<2 ^ k])) = (Ok d :: ('d, verify_whir_error) res)"
    "merkle_verify h rt i d (merkle_path_of t i) = Ok ()" using at(5) by auto
  have "i < 2 ^ 32"
  proof -
    have "(2 :: nat) ^ (L - k) \<le> 2 ^ 32" using sizes(6) L(2) by (intro power_increasing) simp_all
    with i(3) show ?thesis by linarith
  qed
  then have idx: "i mod 2 ^ 32 = i" by simp
  have ad: "L \<le> fe_adicity X" using L(2) sizes(4) by simp
  have sub: "sub64 rnd 1 = (Ok (rnd - 1) :: (_, verify_whir_error) res)" using rnd by (simp add: sub64_def)
  have q: "index (codeword_opened_values w ! (rnd - 1)) q = (Ok (map ?v [0..<2 ^ k]) :: (_, verify_whir_error) res)"
    "index (codeword_merkle_proofs w ! (rnd - 1)) q = (Ok (merkle_path_of t i) :: (_, verify_whir_error) res)"
    using i w by (simp_all add: vals)
  have "k < 64" using sizes(2) by simp
  from fold_query [OF alphas sizes(1) L(1) ad this, where 'e = verify_whir_error, of g i]
  show ?thesis
    unfolding codeword_query_value_def sub rbind.simps index_in_range [OF w(1)] index_in_range [OF w(3)] index_in_range [OF w(5)] q d(1) w(6) idx d(2)
    by simp
qed

end

end
