(* ===== verification/WhirWeights.thy ===== *)
theory WhirWeights
  imports WhirQueries "HOL-Library.Sublist"
begin

text \<open>
  What a round of WHIR adds to the weights, and the sampling of its queries by both parties.
\<close>

section \<open>The weights of a round\<close>

definition add_point :: "nat \<Rightarrow> 'a::field \<Rightarrow> 'a \<Rightarrow> 'a list \<Rightarrow> 'a list" where
  "add_point n c z w = map2 (\<lambda>w x. w + c * x) w (evals_eq_hypercube (exp_powers_of_2 n z))"

definition add_points :: "('f \<Rightarrow> 'a::field) \<Rightarrow> nat \<Rightarrow> 'a \<Rightarrow> 'f list \<Rightarrow> 'a list \<Rightarrow> 'a list" where
  "add_points emb n gamma zs w = fold (\<lambda>(i, z). add_point n (gamma ^ (i + 2)) (emb z)) (enumerated zs) w"

lemma length_add_point [simp]: "length w = 2 ^ n \<Longrightarrow> length (add_point n c z w) = 2 ^ n"
  by (simp add: add_point_def)

lemma add_points_snoc: "add_points emb n gamma (zs @ [z]) w = add_point n (gamma ^ (length zs + 2)) (emb z) (add_points emb n gamma zs w)"
  by (simp add: add_points_def)

lemma length_add_points [simp]: "length w = 2 ^ n \<Longrightarrow> length (add_points emb n gamma zs w) = 2 ^ n"
  by (induction zs rule: rev_induct) (simp_all add: add_points_snoc, simp add: add_points_def)

lemma accumulate_Ok:
  assumes "length w = 2 ^ n" and "map emb (evals_eq_hypercube (exp_powers_of_2 n z)) = evals_eq_hypercube (exp_powers_of_2 n z')"
  shows "w_evals_accumulate emb z gamma w = (Ok (add_point n gamma z' w) :: (_, 'e) res)"
proof -
  have "map2 (\<lambda>w x. w + gamma * emb x) w (evals_eq_hypercube (exp_powers_of_2 n z)) = add_point n gamma z' w"
    unfolding add_point_def assms(2) [symmetric] by (simp add: zip_map2 comp_def split_def)
  with assms(1) show ?thesis by (simp add: w_evals_accumulate_def)
qed

lemma accumulate_all_Ok:
  assumes "length w = 2 ^ n" and "\<And>z. map emb (evals_eq_hypercube (exp_powers_of_2 n z)) = evals_eq_hypercube (exp_powers_of_2 n (emb z))"
  shows "rfold (\<lambda>(i, z_i). w_evals_accumulate emb z_i (gamma ^ (i + 2))) (enumerated zs) w = (Ok (add_points emb n gamma zs w) :: (_, 'e) res)"
proof (induction zs rule: rev_induct)
  case (snoc z zs)
  then show ?case
    using accumulate_Ok [OF _ assms(2), of "add_points emb n gamma zs w" z "gamma ^ (length zs + 2)", where 'e = 'e] assms(1)
    by (simp add: rfold_append add_points_snoc)
qed (simp add: add_points_def)

text \<open>What the points contribute.\<close>

lemma contribution_point:
  assumes "length w = 2 ^ (length as + n)" and "length g = 2 ^ n"
  shows "contribution (to_evals n g) as (add_point (length as + n) c z w) = contribution (to_evals n g) as w + c * constraint_value g as z"
  unfolding add_point_def using assms
  by (subst contribution_combine [where n = n]) (simp_all add: contribution_eq)

lemma contribution_points:
  assumes "length w = 2 ^ (length as + n)" and "length g = 2 ^ n"
  shows "contribution (to_evals n g) as (add_points emb (length as + n) gamma zs w)
     = contribution (to_evals n g) as w + (\<Sum>i < length zs. gamma ^ (i + 2) * constraint_value g as (emb (zs ! i)))"
proof (induction zs rule: rev_induct)
  case (snoc z zs)
  then show ?case using assms by (simp add: add_points_snoc contribution_point nth_append add.assoc)
qed (simp add: add_points_def)

lemma contribution_Nil: "contribution f [] w = dot f w"
  by (simp add: contribution_def)

lemma constraint_value_Nil: "constraint_value g [] z = horner_eval g z"
  by (simp add: constraint_value_def)

lemma contribution_append: "contribution f (as @ bs) w = contribution f bs (fold fold_pairs as w)"
  by (simp add: contribution_def)

context field_tower
begin

lemma embed_eq_table: "map (fe_embed X) (evals_eq_hypercube x) = evals_eq_hypercube (map (fe_embed X) x)"
proof (induction x rule: rev_induct)
  case Nil
  then show ?case by (simp add: eq_table product_table_def)
next
  case (snoc a x)
  have scale: "map (fe_embed X) (map (\<lambda>v. v * b) T) = map (\<lambda>v. v * fe_embed X b) (map (fe_embed X) T)" for b T by simp
  from snoc show ?case unfolding eq_table product_table_snoc map_append scale by (simp add: product_table_snoc)
qed

lemma embed_exp_powers: "map (fe_embed X) (exp_powers_of_2 n z) = exp_powers_of_2 n (fe_embed X z)"
  by (induction n arbitrary: z) simp_all

end

section \<open>Sampling and answering the queries\<close>

context whir_parties
begin

lemma run_queries:
  assumes "inv ts" and bits: "k \<le> L" "grindable X (L - k)"
  shows "\<exists>idxs ts'. inv ts' \<and> length idxs = n \<and> (\<forall>i \<in> set idxs. i < 2 ^ (L - k)) \<and>
     vmapM (\<lambda>_. v_sample_bits T K (L - k)) [j..<j + n] ts = (Ok (idxs, ts') :: (_, whir_prover_error) res) \<and>
     (\<forall>qv y zs ys. (\<forall>q < n. qv (j + q) (idxs ! q) (omega ^ (idxs ! q)) = Ok (y (idxs ! q))) \<longrightarrow>
        vfor (whir_query T X k L omega qv) [j..<j + n] (zs, ys) ts
          = (Ok ((zs @ map (\<lambda>i. (omega ^ i) ^ 2 ^ k) idxs, ys @ map y idxs), ts') :: (_, verify_whir_error) res))"
  using assms(1)
proof (induction n arbitrary: j ts)
  case 0
  then show ?case by (intro exI [of _ "[]"] exI [of _ ts]) simp
next
  case (Suc n)
  from run_bits [OF Suc.prems bits(2), where 'e = whir_prover_error and 'g = verify_whir_error] obtain i ts1 where
    one: "v_sample_bits T K (L - k) ts = (Ok (i, ts1) :: (_, whir_prover_error) res)"
      "v_sample_bits T K (L - k) ts = (Ok (i, ts1) :: (_, verify_whir_error) res)" "i < 2 ^ (L - k)" "inv ts1" by blast
  from Suc.IH [OF one(4), of "Suc j"] obtain idxs ts' where
    rest: "inv ts'" "length idxs = n" "\<forall>i \<in> set idxs. i < 2 ^ (L - k)"
     "vmapM (\<lambda>_. v_sample_bits T K (L - k)) [Suc j..<Suc j + n] ts1 = (Ok (idxs, ts') :: (_, whir_prover_error) res)"
     "\<And>qv y zs ys. (\<forall>q < n. qv (Suc j + q) (idxs ! q) (omega ^ (idxs ! q)) = Ok (y (idxs ! q))) \<Longrightarrow>
        vfor (whir_query T X k L omega qv) [Suc j..<Suc j + n] (zs, ys) ts1
          = (Ok ((zs @ map (\<lambda>i. (omega ^ i) ^ 2 ^ k) idxs, ys @ map y idxs), ts') :: (_, verify_whir_error) res)" by blast
  have range: "[j..<j + Suc n] = j # [Suc j..<Suc j + n]" by (simp add: upt_conv_Cons)
  have sub: "sub64 L k = (Ok (L - k) :: (_, verify_whir_error) res)" using bits(1) by (simp add: sub64_def)
  have verifier: "vfor (whir_query T X k L omega qv) [j..<j + Suc n] (zs, ys) ts
      = (Ok ((zs @ map (\<lambda>i. (omega ^ i) ^ 2 ^ k) (i # idxs), ys @ map y (i # idxs)), ts') :: (_, verify_whir_error) res)"
    if qv: "\<forall>q < Suc n. qv (j + q) ((i # idxs) ! q) (omega ^ ((i # idxs) ! q)) = Ok (y ((i # idxs) ! q))" for qv y zs ys
  proof -
    from qv have v0: "qv j i (omega ^ i) = Ok (y i)" by (metis add.right_neutral nth_Cons_0 zero_less_Suc)
    have vs: "\<forall>q < n. qv (Suc j + q) (idxs ! q) (omega ^ (idxs ! q)) = Ok (y (idxs ! q))"
    proof (intro allI impI)
      fix q assume "q < n"
      then have "Suc q < Suc n" by simp
      from qv [rule_format, OF this] show "qv (Suc j + q) (idxs ! q) (omega ^ (idxs ! q)) = Ok (y (idxs ! q))" by simp
    qed
    have "whir_query T X k L omega qv j (zs, ys) ts = (Ok ((zs @ [(omega ^ i) ^ 2 ^ k], ys @ [y i]), ts1) :: (_, verify_whir_error) res)"
      unfolding whir_query_def vbind_def by (simp add: sub one v0)
    with rest(5) [of qv y, OF vs] show ?thesis unfolding range by (simp add: vbind_def)
  qed
  have "vmapM (\<lambda>_. v_sample_bits T K (L - k)) [j..<j + Suc n] ts = (Ok (i # idxs, ts') :: (_, whir_prover_error) res)"
    unfolding range using rest(4) one by (simp add: vbind_def)
  with verifier rest one show ?case by (intro exI [of _ "i # idxs"] exI [of _ ts']) auto
qed

end

end
