(* ===== verification/WhirRounds.thy ===== *)
theory WhirRounds
  imports WhirWeights
begin

text \<open>
  One round of WHIR: \<open>prove_whir_round\<close> returns, and \<open>whir_round\<close> accepts what it put into the proof, whatever the later rounds
  append to it.
\<close>

section \<open>The proof as it grows\<close>

text \<open>The final proof extends the proof after \<open>n\<close> rounds; the last codeword is not opened yet.\<close>

definition agrees :: "nat \<Rightarrow> ('f, 'ef, 'd) whir_proof \<Rightarrow> ('f, 'ef, 'd) whir_proof \<Rightarrow> bool" where
  "agrees n w fin \<longleftrightarrow> mu_pow_witness fin = mu_pow_witness w \<and> prefix (whir_sumcheck_polys w) (whir_sumcheck_polys fin) \<and>
     prefix (folding_pow_witnesses w) (folding_pow_witnesses fin) \<and>
     prefix (query_phase_pow_witnesses w) (query_phase_pow_witnesses fin) \<and>
     prefix (codeword_commits w) (codeword_commits fin) \<and> prefix (ood_values w) (ood_values fin) \<and>
     (0 < n \<longrightarrow> initial_round_opened_rows fin = initial_round_opened_rows w \<and> initial_round_merkle_proofs fin = initial_round_merkle_proofs w) \<and>
     (\<forall>i. i + 1 < n \<longrightarrow> i < length (codeword_opened_values fin) \<and> codeword_opened_values fin ! i = codeword_opened_values w ! i \<and>
        i < length (codeword_merkle_proofs fin) \<and> codeword_merkle_proofs fin ! i = codeword_merkle_proofs w ! i)"

text \<open>What the queries of a round need of the proof and of the tree of the previous round.\<close>

definition ready ::
  "('f::field, 'ef::field) field_ext \<Rightarrow> ('f, 'd) merkle_hasher \<Rightarrow> system_params \<Rightarrow> nat \<Rightarrow> 'ef list \<Rightarrow> nat \<Rightarrow> 'ef list
     \<Rightarrow> ('ef, 'd) merkle_tree option \<Rightarrow> ('f, 'ef, 'd) whir_proof \<Rightarrow> bool" where
  "ready X h p coms c0 rnd c rs_tree w \<longleftrightarrow>
     (if rnd = 0 then c = c0 \<and> initial_round_opened_rows w = replicate coms [] \<and> initial_round_merkle_proofs w = replicate coms []
      else \<exists>t. rs_tree = Some t \<and> cm_width (backing_matrix t) = 1 \<and> rnd - 1 < length (codeword_commits w) \<and>
        tree_opens h (ef_coefficients (fe_ops X)) (log_stacked_height p + log_blowup p - rnd - k_whir p) (2 ^ k_whir p)
          (codeword_at X c (log_stacked_height p + log_blowup p - rnd)) t (codeword_commits w ! (rnd - 1)) \<and>
        rnd - 1 < length (codeword_opened_values w) \<and> codeword_opened_values w ! (rnd - 1) = [] \<and>
        rnd - 1 < length (codeword_merkle_proofs w) \<and> codeword_merkle_proofs w ! (rnd - 1) = [])"

text \<open>What answering the queries of a round changes.\<close>

definition answered :: "nat \<Rightarrow> ('f, 'ef, 'd) whir_proof \<Rightarrow> ('f, 'ef, 'd) whir_proof \<Rightarrow> bool" where
  "answered rnd w w' \<longleftrightarrow> (\<exists>rows paths vals cpaths.
     w' = w\<lparr>initial_round_opened_rows := rows, initial_round_merkle_proofs := paths,
            codeword_opened_values := vals, codeword_merkle_proofs := cpaths\<rparr> \<and>
     (0 < rnd \<longrightarrow> rows = initial_round_opened_rows w \<and> paths = initial_round_merkle_proofs w) \<and>
     length vals = length (codeword_opened_values w) \<and> length cpaths = length (codeword_merkle_proofs w) \<and>
     (\<forall>i. i + 1 \<noteq> rnd \<longrightarrow> vals ! i = codeword_opened_values w ! i \<and> cpaths ! i = codeword_merkle_proofs w ! i))"

context whir_parties
begin

lemma run_answers:
  fixes w :: "('f, 'ef, 'd) whir_proof"
  assumes com: "list_all2 (committed X D h p) mats rts" and mus: "length mus = sum_list (map (\<lambda>(M, _). cm_width M) mats)"
    and r: "k \<le> L0 - rnd" and ready: "ready X h p (length mats) (batched_message X D p mats mus) rnd c rs_tree w"
    and idxs: "\<forall>i \<in> set idxs. i < 2 ^ (L0 - rnd - k)"
  shows "\<exists>w'. rfold (prove_query mats (L0 - rnd) k rnd rs_tree) (enumerated idxs) w = Ok w' \<and> answered rnd w w' \<and>
     (\<forall>fin alphas q. agrees (Suc rnd) w' fin \<longrightarrow> length alphas = k \<longrightarrow> q < length idxs \<longrightarrow>
        (if rnd = 0 then initial_query_value X h k fin rts (map (\<lambda>(M, _). cm_width M) mats) mus alphas
         else codeword_query_value X h fin alphas rnd) q (idxs ! q) (fe_gen X (L0 - rnd) ^ (idxs ! q))
        = Ok (horner_eval (fold fold_even_odd alphas c) (fe_embed X (fe_gen X (L0 - rnd - k) ^ (idxs ! q)))))"
proof (cases "rnd = 0")
  case True
  with ready have w: "initial_round_opened_rows w = replicate (length mats) []" "initial_round_merkle_proofs w = replicate (length mats) []"
    and c: "c = batched_message X D p mats mus" by (simp_all add: ready_def)
  have open1: "\<forall>i \<in> set idxs. \<forall>(M, t) \<in> set mats. cm_height (backing_matrix t) = 2 ^ L0 \<and> get_opened_rows t i = Ok (opened_rows_of t i) \<and>
       query_merkle_proof t i = Ok (merkle_path_of t i) \<and> length (merkle_path_of t i) = L0 - k \<and> length (digest_layers t) = Suc (L0 - k)"
  proof (intro ballI, clarify)
    fix i M t assume i: "i \<in> set idxs" and "(M, t) \<in> set mats"
    then obtain rt where "committed X D h p (M, t) rt" using com by (auto simp: list_all2_conv_all_nth in_set_conv_nth)
    note opens = committed_opens [OF this]
    have "i < 2 ^ (L0 - k)" using idxs i True by simp
    note at = tree_opensD [OF opens(1) this]
    show "cm_height (backing_matrix t) = 2 ^ L0 \<and> get_opened_rows t i = Ok (opened_rows_of t i) \<and>
       query_merkle_proof t i = Ok (merkle_path_of t i) \<and> length (merkle_path_of t i) = L0 - k \<and> length (digest_layers t) = Suc (L0 - k)"
      using at(1,3,4) opens by (simp add: tree_opens_def)
  qed
  have "L0 < 64" using sizes(5) by simp
  note run = run_open_initial [OF open1 w this, of rs_tree]
  define w' where "w' = w\<lparr>initial_round_opened_rows := map (\<lambda>(M, t). map (opened_rows_of t) idxs) mats,
     initial_round_merkle_proofs := map (\<lambda>(M, t). map (merkle_path_of t) idxs) mats\<rparr>"
  have "answered rnd w w'" unfolding answered_def w'_def
    by (rule exI, rule exI, rule exI [of _ "codeword_opened_values w"], rule exI [of _ "codeword_merkle_proofs w"]) (use True in simp)
  moreover have "initial_query_value X h k fin rts (map (\<lambda>(M, _). cm_width M) mats) mus alphas q (idxs ! q) (fe_gen X L0 ^ (idxs ! q))
      = Ok (horner_eval (fold fold_even_odd alphas c) (fe_embed X (fe_gen X (L0 - k) ^ (idxs ! q))))"
    if "agrees (Suc rnd) w' fin" "length alphas = k" "q < length idxs" for fin alphas q
    unfolding c
    by (rule initial_query_Ok [OF com refl that(3) _ mus that(2)]) (use idxs that(1,3) True in \<open>auto simp: agrees_def w'_def\<close>)
  ultimately show ?thesis using run True by (auto simp: w'_def)
next
  case False
  with ready obtain t where t: "rs_tree = Some t" "cm_width (backing_matrix t) = 1" "rnd - 1 < length (codeword_commits w)"
    "tree_opens h (ef_coefficients K) (L0 - rnd - k) (2 ^ k) (codeword_at X c (L0 - rnd)) t (codeword_commits w ! (rnd - 1))"
    and w: "rnd - 1 < length (codeword_opened_values w)" "codeword_opened_values w ! (rnd - 1) = []"
      "rnd - 1 < length (codeword_merkle_proofs w)" "codeword_merkle_proofs w ! (rnd - 1) = []"
    by (auto simp: ready_def)
  have r0: "0 < rnd" using False by simp
  note run = run_open_codeword [OF t(4,2) r0 w(1,3) refl idxs, of mats]
  define w' where "w' = w\<lparr>codeword_opened_values := (codeword_opened_values w)[rnd - 1 := map (\<lambda>i. concat (opened_rows_of t i)) idxs],
       codeword_merkle_proofs := (codeword_merkle_proofs w)[rnd - 1 := map (merkle_path_of t) idxs]\<rparr>"
  have "rfold (prove_query mats (L0 - rnd) k rnd rs_tree) (enumerated idxs) w = Ok w'"
    using run unfolding w(2,4) append_Nil t(1) w'_def .
  moreover have "answered rnd w w'" unfolding answered_def w'_def
    by (rule exI [of _ "initial_round_opened_rows w"], rule exI [of _ "initial_round_merkle_proofs w"], rule exI, rule exI)
      (use r0 in \<open>auto intro!: nth_list_update_neq\<close>)
  moreover have "codeword_query_value X h fin alphas rnd q (idxs ! q) (fe_gen X (L0 - rnd) ^ (idxs ! q))
      = Ok (horner_eval (fold fold_even_odd alphas c) (fe_embed X (fe_gen X (L0 - rnd - k) ^ (idxs ! q))))"
    if ag: "agrees (Suc rnd) w' fin" "length alphas = k" "q < length idxs" for fin alphas q
  proof (rule codeword_query_Ok [OF t(4) r _ refl ag(3) _ ag(2) r0])
    have "rnd - 1 + 1 < Suc rnd" using r0 by simp
    with ag(1) w show "rnd - 1 < length (codeword_opened_values fin)" "codeword_opened_values fin ! (rnd - 1) = map (\<lambda>i. concat (opened_rows_of t i)) idxs"
      "rnd - 1 < length (codeword_merkle_proofs fin)" "codeword_merkle_proofs fin ! (rnd - 1) = map (merkle_path_of t) idxs"
      by (auto simp: agrees_def w'_def)
    from ag(1) t(3) show "rnd - 1 < length (codeword_commits fin)" "codeword_commits fin ! (rnd - 1) = codeword_commits w ! (rnd - 1)"
      by (auto simp: agrees_def w'_def prefix_def nth_append)
  qed (use idxs ag(3) in simp_all)
  ultimately show ?thesis using False by auto
qed

section \<open>The commitment\<close>

lemma run_commit_round:
  fixes s :: "('f, 'ef, 'd) whir_prover_state"
  assumes inv: "inv ts" and f: "wp_f_evals s = to_evals n c" "length c = 2 ^ n" and m: "\<not> fin_rnd \<Longrightarrow> wp_m s - k = n \<and> k \<le> wp_m s"
    and L: "\<not> fin_rnd \<Longrightarrow> wp_log_rs_domain_size s = Suc L \<and> n \<le> L \<and> k \<le> L" "L \<le> L0"
  shows "\<exists>tree z0 coms oods ts'. inv ts' \<and>
     prove_commit T K E h k fin_rnd s ts = Ok ((tree, z0, s\<lparr>wp_final_poly := (if fin_rnd then Some c else wp_final_poly s),
         wp_proof := (wp_proof s)\<lparr>codeword_commits := codeword_commits (wp_proof s) @ coms, ood_values := ood_values (wp_proof s) @ oods\<rparr>\<rparr>), ts') \<and>
     (if fin_rnd then z0 = None \<and> coms = [] \<and> oods = []
      else \<exists>z t rt. z0 = Some z \<and> coms = [rt] \<and> oods = [horner_eval c z] \<and> tree = Some t \<and> cm_width (backing_matrix t) = 1 \<and>
        tree_opens h (ef_coefficients K) (L - k) (2 ^ k) (codeword_at X c L) t rt) \<and>
     (\<forall>fin rnd. length (codeword_commits (wp_proof s)) = rnd \<longrightarrow> length (ood_values (wp_proof s)) = rnd \<longrightarrow>
        prefix (codeword_commits (wp_proof s) @ coms) (codeword_commits fin) \<longrightarrow> prefix (ood_values (wp_proof s) @ oods) (ood_values fin) \<longrightarrow>
        (fin_rnd \<longrightarrow> final_poly fin = c) \<longrightarrow>
        whir_commit_phase T K fin fin_rnd rnd ts = (Ok (map_option (\<lambda>z. (z, horner_eval c z)) z0, ts') :: (_, verify_whir_error) res))"
proof (cases fin_rnd)
  case True
  have len: "length (wp_f_evals s) = 2 ^ n" by (simp add: f)
  have coeffs: "to_coeffs n (wp_f_evals s) = c" using f by simp
  from run_final_phase [OF inv len] obtain ts' where
    ts': "inv ts'" "prove_commit T K E h k True s ts = Ok ((None, None, s\<lparr>wp_final_poly := Some c\<rparr>), ts')"
     "\<And>w rnd. final_poly w = c \<Longrightarrow> whir_commit_phase T K w True rnd ts = (Ok (None, ts') :: (_, verify_whir_error) res)"
    unfolding coeffs by blast
  have "s\<lparr>wp_final_poly := Some c\<rparr> = s\<lparr>wp_final_poly := Some c,
         wp_proof := (wp_proof s)\<lparr>codeword_commits := codeword_commits (wp_proof s) @ [], ood_values := ood_values (wp_proof s) @ []\<rparr>\<rparr>" by simp
  with ts' True show ?thesis
    by (intro exI [of _ None] exI [of _ "[]"] exI [of _ ts']) simp
next
  case False
  have len: "length (wp_f_evals s) = 2 ^ n" by (simp add: f)
  have coeffs: "to_coeffs n (wp_f_evals s) = c" using f by simp
  have ood: "mle_sum (wp_f_evals s) (exp_powers_of_2 n z) = horner_eval c z" for z unfolding f by (rule mle_sum_powers) (rule f(2))
  have "L \<le> fe_adicity X" "L < 64" using L(2) sizes(4,5) by simp_all
  from run_commit_phase [OF inv len _ _ _ _ _ this] m L False obtain t rt z0 ts' where
    ts': "inv ts'" "cm_width (backing_matrix t) = 1" "tree_opens h (ef_coefficients K) (L - k) (2 ^ k) (codeword_at X c L) t rt"
     "prove_commit T K E h k False s ts = Ok ((Some t, Some z0, s\<lparr>wp_proof := (wp_proof s)\<lparr>codeword_commits := codeword_commits (wp_proof s) @ [rt],
                      ood_values := ood_values (wp_proof s) @ [horner_eval c z0]\<rparr>\<rparr>), ts')"
     "\<And>w rnd. rnd < length (codeword_commits w) \<Longrightarrow> codeword_commits w ! rnd = rt \<Longrightarrow> rnd < length (ood_values w) \<Longrightarrow>
        ood_values w ! rnd = horner_eval c z0 \<Longrightarrow>
        whir_commit_phase T K w False rnd ts = (Ok (Some (z0, horner_eval c z0), ts') :: (_, verify_whir_error) res)"
    unfolding coeffs ood by blast
  have "whir_commit_phase T K fin False rnd ts = (Ok (Some (z0, horner_eval c z0), ts') :: (_, verify_whir_error) res)"
    if "length (codeword_commits (wp_proof s)) = rnd" "length (ood_values (wp_proof s)) = rnd"
      "prefix (codeword_commits (wp_proof s) @ [rt]) (codeword_commits fin)" "prefix (ood_values (wp_proof s) @ [horner_eval c z0]) (ood_values fin)" for fin rnd
    by (rule ts'(5)) (use that in \<open>auto simp: prefix_def nth_append\<close>)
  with ts' False show ?thesis
    by (intro exI [of _ "Some t"] exI [of _ "Some z0"] exI [of _ "[rt]"] exI [of _ "[horner_eval c z0]"] exI [of _ ts']) simp
qed

end

section \<open>The weights after a round\<close>

definition new_weights :: "('f \<Rightarrow> 'a::field) \<Rightarrow> nat \<Rightarrow> 'a \<times> 'a option \<times> 'f list \<Rightarrow> 'a list \<Rightarrow> 'a list" where
  "new_weights emb n = (\<lambda>(gamma, z0, zs) w. add_points emb n gamma zs (case z0 of None \<Rightarrow> w | Some z \<Rightarrow> add_point n gamma z w))"

lemma length_new_weights: "length w = 2 ^ n \<Longrightarrow> length (new_weights emb n d w) = 2 ^ n"
  by (auto simp: new_weights_def split: prod.splits option.splits)

lemma contribution_new_weights:
  assumes "length w = 2 ^ (length as + n)" and "length g = 2 ^ n"
  shows "contribution (to_evals n g) as (new_weights emb (length as + n) d w) = contribution (to_evals n g) as w + round_value emb g as d"
  using assms
  by (auto simp: new_weights_def round_value_def contribution_points contribution_point split: prod.splits option.splits)

lemma claim_update:
  "fold (\<lambda>(i, yi) acc. acc + yi * gamma ^ (i + 2)) (enumerated (map (\<lambda>z. horner_eval g (emb z)) zs)) claim
     = claim + (\<Sum>i < length zs. gamma ^ (i + 2) * constraint_value g [] (emb (zs ! i)))"
proof (induction zs rule: rev_induct)
  case (snoc z zs)
  then show ?case by (simp add: nth_append constraint_value_Nil mult.commute)
qed simp

lemma round_claim:
  assumes "length w = 2 ^ n" and "length g = 2 ^ n"
  shows "fold (\<lambda>(i, yi) acc. acc + yi * gamma ^ (i + 2)) (enumerated (map (\<lambda>z. horner_eval g (emb z)) zs))
       (case map_option (\<lambda>z. (z, horner_eval g z)) z0 of None \<Rightarrow> dot (to_evals n g) w | Some (z, y) \<Rightarrow> dot (to_evals n g) w + y * gamma)
     = dot (to_evals n g) (new_weights emb n (gamma, z0, zs) w)"
  unfolding claim_update
  using contribution_new_weights [of w "[]" n g emb "(gamma, z0, zs)"] assms
  by (simp add: contribution_Nil round_value_def constraint_value_Nil mult.commute split: option.splits)

end
