(* ===== verification/WhirStep.thy ===== *)
theory WhirStep
  imports WhirRounds
begin

text \<open>
  A whole round of WHIR, run by both parties: \<open>prove_whir_round\<close> returns, and \<open>whir_round\<close> accepts every proof that extends
  what it wrote.
\<close>

section \<open>The prover between two rounds\<close>

text \<open>\<open>c\<close> are the coefficients of the folded polynomial and \<open>W\<close> the weights, which the last round leaves unchanged in the code.\<close>

definition round_inv ::
  "('f::field, 'ef::field) field_ext \<Rightarrow> ('f, 'd) merkle_hasher \<Rightarrow> system_params \<Rightarrow> nat \<Rightarrow> 'ef list \<Rightarrow> nat \<Rightarrow> 'ef list \<Rightarrow> 'ef list
     \<Rightarrow> ('f, 'ef, 'd) whir_prover_state \<Rightarrow> bool" where
  "round_inv X h p coms c0 r c W s \<longleftrightarrow>
     (let m = log_stacked_height p - k_whir p * r; R = num_whir_rounds p; w = wp_proof s in
      length c = 2 ^ m \<and> length W = 2 ^ m \<and> wp_f_evals s = to_evals m c \<and> (r < R \<longrightarrow> wp_w_evals s = W) \<and> wp_m s = m \<and>
      wp_log_rs_domain_size s = log_stacked_height p + log_blowup p - r \<and>
      length (whir_sumcheck_polys w) = k_whir p * r \<and> length (folding_pow_witnesses w) = k_whir p * r \<and>
      length (query_phase_pow_witnesses w) = r \<and> length (codeword_commits w) = min r (R - 1) \<and> length (ood_values w) = min r (R - 1) \<and>
      length (codeword_opened_values w) = min r (R - 1) \<and> length (codeword_merkle_proofs w) = min r (R - 1) \<and>
      (r < R \<longrightarrow> ready X h p coms c0 r c (wp_rs_tree s) w) \<and> (r = R \<longrightarrow> wp_final_poly s = Some c))"

text \<open>The verifier before the same round: what it has consumed, and the claim.\<close>

definition claim_inv :: "system_params \<Rightarrow> nat \<Rightarrow> 'ef::field list \<Rightarrow> 'ef list \<Rightarrow> ('f, 'ef, 'd) whir_proof \<Rightarrow> ('f, 'ef, 'd) whir_proof
     \<Rightarrow> ('f, 'ef) whir_state \<Rightarrow> bool" where
  "claim_inv p r c W w fin v \<longleftrightarrow> ws_claim v = dot (to_evals (log_stacked_height p - k_whir p * r) c) W \<and>
     whir_sumcheck_polys fin = whir_sumcheck_polys w @ ws_sumcheck_polys v \<and>
     folding_pow_witnesses fin = folding_pow_witnesses w @ ws_folding_pows v \<and>
     ws_log_rs_domain_size v = log_stacked_height p + log_blowup p - r"

text \<open>The verifier's state after a round.\<close>

definition after_round :: "system_params \<Rightarrow> nat \<Rightarrow> 'ef::field list \<Rightarrow> 'ef list \<Rightarrow> 'ef list \<Rightarrow> 'ef \<times> 'ef option \<times> 'f list \<Rightarrow> ('f, 'ef) whir_state \<Rightarrow> ('f, 'ef) whir_state" where
  "after_round p r c W alphas = (\<lambda>(gamma, z0, zs) v.
     \<lparr>ws_claim = dot (to_evals (log_stacked_height p - k_whir p * Suc r) c) W, ws_log_rs_domain_size = ws_log_rs_domain_size v - 1,
      ws_sumcheck_polys = drop (k_whir p) (ws_sumcheck_polys v), ws_folding_pows = drop (k_whir p) (ws_folding_pows v),
      ws_gammas = ws_gammas v @ [gamma], ws_zs = ws_zs v @ [zs],
      ws_z0s = ws_z0s v @ (case z0 of None \<Rightarrow> [] | Some z \<Rightarrow> [z]), ws_alphas = ws_alphas v @ alphas\<rparr>)"

text \<open>What a round appends to the proof before its queries are answered; \<open>e\<close> new codewords can be opened later.\<close>

definition extended ::
  "('f, 'ef, 'd) whir_proof \<Rightarrow> ('ef \<times> 'ef) list \<Rightarrow> 'f list \<Rightarrow> 'd list \<Rightarrow> 'ef list \<Rightarrow> 'f \<Rightarrow> nat \<Rightarrow> ('f, 'ef, 'd) whir_proof" where
  "extended w evs pows coms oods pow e = w\<lparr>whir_sumcheck_polys := whir_sumcheck_polys w @ evs,
     folding_pow_witnesses := folding_pow_witnesses w @ pows, codeword_commits := codeword_commits w @ coms,
     ood_values := ood_values w @ oods, query_phase_pow_witnesses := query_phase_pow_witnesses w @ [pow],
     codeword_opened_values := codeword_opened_values w @ replicate e [], codeword_merkle_proofs := codeword_merkle_proofs w @ replicate e []\<rparr>"

lemma answered_fields:
  assumes "answered r w w'"
  shows "whir_sumcheck_polys w' = whir_sumcheck_polys w" "folding_pow_witnesses w' = folding_pow_witnesses w"
    "codeword_commits w' = codeword_commits w" "ood_values w' = ood_values w"
    "query_phase_pow_witnesses w' = query_phase_pow_witnesses w"
    "length (codeword_opened_values w') = length (codeword_opened_values w)" "length (codeword_merkle_proofs w') = length (codeword_merkle_proofs w)"
    "i + 1 \<noteq> r \<Longrightarrow> codeword_opened_values w' ! i = codeword_opened_values w ! i"
    "i + 1 \<noteq> r \<Longrightarrow> codeword_merkle_proofs w' ! i = codeword_merkle_proofs w ! i"
    "0 < r \<Longrightarrow> initial_round_opened_rows w' = initial_round_opened_rows w" "0 < r \<Longrightarrow> initial_round_merkle_proofs w' = initial_round_merkle_proofs w"
    "mu_pow_witness w' = mu_pow_witness w"
  using assms by (auto simp: answered_def)

lemma ready_extended: "ready X h p n c0 r c t w \<Longrightarrow> ready X h p n c0 r c t (extended w evs pows coms oods pow e)"
  by (cases "r = 0") (auto simp: ready_def extended_def nth_append)

lemma agrees_step:
  assumes ans: "answered r (extended w evs pows coms oods pow e) w'" and ag: "agrees (Suc r) w' fin"
    and len: "length (codeword_opened_values w) = r" "length (codeword_merkle_proofs w) = r"
  shows "agrees r w fin"
proof -
  note eqs = answered_fields [OF ans]
  have "i < length (codeword_opened_values fin) \<and> codeword_opened_values fin ! i = codeword_opened_values w ! i \<and>
        i < length (codeword_merkle_proofs fin) \<and> codeword_merkle_proofs fin ! i = codeword_merkle_proofs w ! i" if "i + 1 < r" for i
    using ag that len eqs(8,9) [of i] by (auto simp: agrees_def extended_def nth_append)
  with ag eqs(1-5,10-12) show ?thesis by (auto simp: agrees_def extended_def dest: append_prefixD)
qed

context whir_parties
begin

abbreviation "R \<equiv> num_whir_rounds p"
abbreviation "hs \<equiv> log_stacked_height p"

lemma round_sizes:
  assumes "r < R"
  shows "k * Suc r \<le> hs" "hs - k * Suc r \<le> L0 - Suc r" "k \<le> L0 - r" "r < L0" "hs - k * r = k + (hs - k * Suc r)"
    "Suc r < R \<Longrightarrow> k \<le> L0 - Suc r" "grindable X (L0 - r - k)" "hs - k * r < 64"
proof -
  have le: "R * k \<le> hs" using params by (simp add: wf_params_def num_whir_sumcheck_rounds_def k_whir_def)
  have "Suc r * k \<le> R * k" using assms by (intro mult_le_mono1) simp
  with le show kr: "k * Suc r \<le> hs" by (simp add: mult.commute)
  have b: "R + k \<le> hs + 1" by (rule wf_params_bounds(6) [OF params])
  have "1 * Suc r \<le> k * Suc r" using sizes(1) by (intro mult_le_mono1) simp
  then show "hs - k * Suc r \<le> L0 - Suc r" by simp
  show "k \<le> L0 - r" "Suc r < R \<Longrightarrow> k \<le> L0 - Suc r" using b assms by auto
  show "r < L0" using b assms sizes(1) by simp
  show "hs - k * r = k + (hs - k * Suc r)" using kr by simp
  show "grindable X (L0 - r - k)"
  proof (rule grindable_mono)
    show "grindable X (L0 - k)" using prot by (simp add: wf_protocol_def)
  qed simp
  show "hs - k * r < 64" using sizes(5) by simp
qed

lemma round_inv_step:
  assumes s: "round_inv X h p coms c0 r c W s" and r: "r < R" and ans: "answered r (extended (wp_proof s) evs pows cms oods pow e) w'"
    and lens: "length evs = k" "length pows = k" "length cms = e" "length oods = e" "e = (if r = R - 1 then 0 else 1)"
    and c: "length c1 = 2 ^ (hs - k * Suc r)" and W: "length W1 = 2 ^ (hs - k * Suc r)"
    and s1: "wp_f_evals s1 = to_evals (hs - k * Suc r) c1" "r \<noteq> R - 1 \<Longrightarrow> wp_w_evals s1 = W1" "wp_m s1 = hs - k * Suc r"
      "wp_log_rs_domain_size s1 = L0 - Suc r" "wp_proof s1 = w'" "r = R - 1 \<Longrightarrow> wp_final_poly s1 = Some c1"
    and tree: "r \<noteq> R - 1 \<Longrightarrow> \<exists>t rt. cms = [rt] \<and> wp_rs_tree s1 = Some t \<and> cm_width (backing_matrix t) = 1 \<and>
        tree_opens h (ef_coefficients K) (L0 - Suc r - k) (2 ^ k) (codeword_at X c1 (L0 - Suc r)) t rt"
  shows "round_inv X h p coms c0 (Suc r) c1 W1 s1"
proof -
  note eqs = answered_fields [OF ans]
  have old: "length (codeword_commits (wp_proof s)) = r" "length (ood_values (wp_proof s)) = r"
    "length (codeword_opened_values (wp_proof s)) = r" "length (codeword_merkle_proofs (wp_proof s)) = r"
    "length (whir_sumcheck_polys (wp_proof s)) = k * r" "length (folding_pow_witnesses (wp_proof s)) = k * r"
    "length (query_phase_pow_witnesses (wp_proof s)) = r"
    using s r by (simp_all add: round_inv_def Let_def)
  have e: "r + e = min (Suc r) (R - 1)" using r lens(5) by auto
  have "ready X h p coms c0 (Suc r) c1 (wp_rs_tree s1) w'" if "Suc r < R"
  proof -
    have "r \<noteq> R - 1" "e = 1" using that lens(5) by simp_all
    then show ?thesis using tree eqs(8,9) [of r] old
      by (auto simp: ready_def eqs extended_def nth_append)
  qed
  moreover have "Suc r < R \<Longrightarrow> wp_w_evals s1 = W1" "Suc r = R \<Longrightarrow> wp_final_poly s1 = Some c1" using s1(2,6) by auto
  ultimately show ?thesis
    unfolding round_inv_def Let_def s1(5) eqs using e c W s1(1,3,4) old lens(1-4)
    by (intro conjI impI) (simp_all add: extended_def)
qed

lemma run_weights:
  assumes "length W = 2 ^ n"
  shows "rbind (w_evals_accumulate (\<lambda>x. x) z0 gamma W) (\<lambda>w_evals. rfold (\<lambda>(i, z_i). w_evals_accumulate (fe_embed X) z_i (gamma ^ (i + 2))) (enumerated zs) w_evals)
     = (Ok (new_weights (fe_embed X) n (gamma, Some z0, zs) W) :: (_, 'e) res)"
proof -
  have self: "map (\<lambda>x. x) (evals_eq_hypercube (exp_powers_of_2 n z0)) = evals_eq_hypercube (exp_powers_of_2 n z0)" by simp
  have emb: "map (fe_embed X) (evals_eq_hypercube (exp_powers_of_2 n z)) = evals_eq_hypercube (exp_powers_of_2 n (fe_embed X z))" for z
    by (simp add: embed_eq_table embed_exp_powers)
  have len: "length (add_point n gamma z0 W) = 2 ^ n" using assms by simp
  show ?thesis
    unfolding accumulate_Ok [OF assms self] rbind.simps accumulate_all_Ok [OF len emb] by (simp add: new_weights_def)
qed

lemma length_fold_even_odd_all: "length c = 2 ^ (length as + n) \<Longrightarrow> length (fold fold_even_odd as c) = 2 ^ n"
  by (induction as arbitrary: c) (simp_all add: length_fold_even_odd)

section \<open>The two halves of a round\<close>

text \<open>The sumcheck rounds and the commitment.\<close>

lemma run_head:
  fixes s :: "('f, 'ef, 'd) whir_prover_state"
  assumes inv: "inv ts" and r: "r < R" and s: "round_inv X h p n_coms c0 r c W s"
  defines "n \<equiv> hs - k * Suc r"
  shows "\<exists>alphas evs pows tree z0 coms oods s2 ts1 ts2. let c1 = fold fold_even_odd alphas c; Wf = fold fold_pairs alphas W in
     inv ts2 \<and> length alphas = k \<and> length evs = k \<and> length pows = k \<and>
     vfor (prove_fold_round T K pick p) [0..<k] s ts = Ok (s2, ts1) \<and>
     prove_commit T K E h k (r = R - 1) s2 ts1 = Ok ((tree, z0, s\<lparr>wp_f_evals := to_evals n c1, wp_w_evals := Wf,
         wp_final_poly := (if r = R - 1 then Some c1 else wp_final_poly s),
         wp_proof := (wp_proof s)\<lparr>whir_sumcheck_polys := whir_sumcheck_polys (wp_proof s) @ evs,
                      folding_pow_witnesses := folding_pow_witnesses (wp_proof s) @ pows,
                      codeword_commits := codeword_commits (wp_proof s) @ coms, ood_values := ood_values (wp_proof s) @ oods\<rparr>\<rparr>), ts2) \<and>
     (if r = R - 1 then z0 = None \<and> coms = [] \<and> oods = []
      else \<exists>z t rt. z0 = Some z \<and> coms = [rt] \<and> oods = [horner_eval c1 z] \<and> tree = Some t \<and> cm_width (backing_matrix t) = 1 \<and>
        tree_opens h (ef_coefficients K) (L0 - Suc r - k) (2 ^ k) (codeword_at X c1 (L0 - Suc r)) t rt) \<and>
     (\<forall>polys pows'. vfor (\<lambda>_. whir_fold_round T K p) [0..<k] (dot (to_evals (hs - k * r) c) W, [], evs @ polys, pows @ pows') ts
        = Ok ((dot (to_evals n c1) Wf, alphas, polys, pows'), ts1)) \<and>
     (\<forall>fin. prefix (codeword_commits (wp_proof s) @ coms) (codeword_commits fin) \<longrightarrow> prefix (ood_values (wp_proof s) @ oods) (ood_values fin) \<longrightarrow>
        (r = R - 1 \<longrightarrow> final_poly fin = c1) \<longrightarrow>
        whir_commit_phase T K fin (r = R - 1) r ts1 = (Ok (map_option (\<lambda>z. (z, horner_eval c1 z)) z0, ts2) :: (_, verify_whir_error) res))"
proof -
  note size = round_sizes [OF r]
  have m: "hs - k * r = k + n" unfolding n_def by (rule size(5))
  have st: "length c = 2 ^ (k + n)" "length W = 2 ^ (k + n)" "wp_f_evals s = to_evals (k + n) c" "wp_w_evals s = W" "wp_m s = k + n"
    "wp_log_rs_domain_size s = L0 - r" "length (codeword_commits (wp_proof s)) = r" "length (ood_values (wp_proof s)) = r"
    using s r by (simp_all add: round_inv_def Let_def m)
  have "length (wp_f_evals s) = 2 ^ (wp_m s - 0)" "length (wp_w_evals s) = 2 ^ (wp_m s - 0)" "0 + k \<le> wp_m s" "wp_m s < 64"
    using st size(8) by (simp_all add: m)
  from run_fold_rounds [OF inv this] obtain evs pows alphas ts1 where f1: "inv ts1" "length alphas = k" "length evs = k" "length pows = k"
     "vfor (prove_fold_round T K pick p) [0..<0 + k] s ts
       = Ok (s\<lparr>wp_f_evals := fold fold_pairs alphas (wp_f_evals s), wp_w_evals := fold fold_pairs alphas (wp_w_evals s),
         wp_proof := (wp_proof s)\<lparr>whir_sumcheck_polys := whir_sumcheck_polys (wp_proof s) @ evs,
                      folding_pow_witnesses := folding_pow_witnesses (wp_proof s) @ pows\<rparr>\<rparr>, ts1)"
     "\<And>as polys pows'. vfor (\<lambda>_. whir_fold_round T K p) [0..<0 + k] (dot (wp_f_evals s) (wp_w_evals s), as, evs @ polys, pows @ pows') ts
        = Ok ((dot (fold fold_pairs alphas (wp_f_evals s)) (fold fold_pairs alphas (wp_w_evals s)), as @ alphas, polys, pows'), ts1)" by blast
  define c1 where "c1 = fold fold_even_odd alphas c"
  have c1: "length c1 = 2 ^ n" "fold fold_pairs alphas (wp_f_evals s) = to_evals n c1"
    using fold_pairs_all [of c alphas n] length_fold_even_odd_all [of c alphas n] st(1,3) f1(2) by (simp_all add: c1_def)
  define s2 where "s2 = s\<lparr>wp_f_evals := to_evals n c1, wp_w_evals := fold fold_pairs alphas W,
         wp_proof := (wp_proof s)\<lparr>whir_sumcheck_polys := whir_sumcheck_polys (wp_proof s) @ evs,
                      folding_pow_witnesses := folding_pow_witnesses (wp_proof s) @ pows\<rparr>\<rparr>"
  have fold: "vfor (prove_fold_round T K pick p) [0..<k] s ts = Ok (s2, ts1)"
    "\<And>polys pows'. vfor (\<lambda>_. whir_fold_round T K p) [0..<k] (dot (to_evals (hs - k * r) c) W, [], evs @ polys, pows @ pows') ts
        = Ok ((dot (to_evals n c1) (fold fold_pairs alphas W), alphas, polys, pows'), ts1)"
    using f1(5) f1(6) [of "[]"] unfolding c1(2) by (simp_all add: s2_def st m)
  have "wp_m s2 - k = n \<and> k \<le> wp_m s2" "L0 - Suc r \<le> L0" "wp_f_evals s2 = to_evals n c1" by (simp_all add: s2_def st(5))
  moreover have "r \<noteq> R - 1 \<Longrightarrow> wp_log_rs_domain_size s2 = Suc (L0 - Suc r) \<and> n \<le> L0 - Suc r \<and> k \<le> L0 - Suc r"
    using r size(2,4,6) by (simp add: s2_def st(6) n_def Suc_diff_Suc)
  ultimately have head: "wp_f_evals s2 = to_evals n c1" "r \<noteq> R - 1 \<Longrightarrow> wp_m s2 - k = n \<and> k \<le> wp_m s2"
    "r \<noteq> R - 1 \<Longrightarrow> wp_log_rs_domain_size s2 = Suc (L0 - Suc r) \<and> n \<le> L0 - Suc r \<and> k \<le> L0 - Suc r" "L0 - Suc r \<le> L0" by blast+
  from run_commit_round [OF f1(1) head(1) c1(1) head(2,3,4)] obtain tree z0 coms oods ts2 where commit: "inv ts2"
     "prove_commit T K E h k (r = R - 1) s2 ts1 = Ok ((tree, z0, s2\<lparr>wp_final_poly := (if r = R - 1 then Some c1 else wp_final_poly s2),
         wp_proof := (wp_proof s2)\<lparr>codeword_commits := codeword_commits (wp_proof s2) @ coms, ood_values := ood_values (wp_proof s2) @ oods\<rparr>\<rparr>), ts2)"
     "if r = R - 1 then z0 = None \<and> coms = [] \<and> oods = []
      else \<exists>z t rt. z0 = Some z \<and> coms = [rt] \<and> oods = [horner_eval c1 z] \<and> tree = Some t \<and> cm_width (backing_matrix t) = 1 \<and>
        tree_opens h (ef_coefficients K) (L0 - Suc r - k) (2 ^ k) (codeword_at X c1 (L0 - Suc r)) t rt"
     "\<And>fin rnd. length (codeword_commits (wp_proof s2)) = rnd \<Longrightarrow> length (ood_values (wp_proof s2)) = rnd \<Longrightarrow>
        prefix (codeword_commits (wp_proof s2) @ coms) (codeword_commits fin) \<Longrightarrow> prefix (ood_values (wp_proof s2) @ oods) (ood_values fin) \<Longrightarrow>
        (r = R - 1 \<longrightarrow> final_poly fin = c1) \<Longrightarrow>
        whir_commit_phase T K fin (r = R - 1) rnd ts1 = (Ok (map_option (\<lambda>z. (z, horner_eval c1 z)) z0, ts2) :: (_, verify_whir_error) res)"
    by blast
  have verifier: "whir_commit_phase T K fin (r = R - 1) r ts1 = (Ok (map_option (\<lambda>z. (z, horner_eval c1 z)) z0, ts2) :: (_, verify_whir_error) res)"
    if "prefix (codeword_commits (wp_proof s) @ coms) (codeword_commits fin)" "prefix (ood_values (wp_proof s) @ oods) (ood_values fin)"
      "r = R - 1 \<longrightarrow> final_poly fin = c1" for fin
    by (rule commit(4)) (use that st(7,8) in \<open>simp_all add: s2_def\<close>)
  have final: "s2\<lparr>wp_final_poly := (if r = R - 1 then Some c1 else wp_final_poly s2),
         wp_proof := (wp_proof s2)\<lparr>codeword_commits := codeword_commits (wp_proof s2) @ coms, ood_values := ood_values (wp_proof s2) @ oods\<rparr>\<rparr>
      = s\<lparr>wp_f_evals := to_evals n c1, wp_w_evals := fold fold_pairs alphas W, wp_final_poly := (if r = R - 1 then Some c1 else wp_final_poly s),
         wp_proof := (wp_proof s)\<lparr>whir_sumcheck_polys := whir_sumcheck_polys (wp_proof s) @ evs,
                      folding_pow_witnesses := folding_pow_witnesses (wp_proof s) @ pows,
                      codeword_commits := codeword_commits (wp_proof s) @ coms, ood_values := ood_values (wp_proof s) @ oods\<rparr>\<rparr>"
    by (simp add: s2_def)
  show ?thesis
    unfolding Let_def
    by (rule exI [of _ alphas], rule exI [of _ evs], rule exI [of _ pows], rule exI [of _ tree], rule exI [of _ z0], rule exI [of _ coms],
        rule exI [of _ oods], rule exI [of _ s2], rule exI [of _ ts1], rule exI [of _ ts2], unfold c1_def [symmetric])
      (intro conjI commit(1,3) f1(2-4) fold(1) commit(2) [unfolded final], use fold(2) in blast, use verifier in blast)
qed

text \<open>The queries, and the challenge that combines their values.\<close>

lemma run_tail:
  fixes w :: "('f, 'ef, 'd) whir_proof"
  assumes inv: "inv ts" and com: "list_all2 (committed X D h p) mats rts" and mus: "length mus = sum_list (map (\<lambda>(M, _). cm_width M) mats)"
    and r: "r < R" and ready: "\<And>pow. ready X h p (length mats) (batched_message X D p mats mus) r c rs_tree (extended w evs pows coms oods pow e)"
    and old: "length (query_phase_pow_witnesses w) = r"
  shows "\<exists>pow idxs gamma w' ts1 ts2 ts3. inv ts3 \<and>
     v_grind T K pick (query_phase_pow_bits (whir p)) ts = (Ok (pow, ts1) :: (_, whir_prover_error) res) \<and>
     vmapM (\<lambda>_. v_sample_bits T K (L0 - r - k)) [0..<nq] ts1 = (Ok (idxs, ts2) :: (_, whir_prover_error) res) \<and> length idxs = nq \<and>
     rfold (prove_query mats (L0 - r) k r rs_tree) (enumerated idxs) (extended w evs pows coms oods pow e) = Ok w' \<and>
     answered r (extended w evs pows coms oods pow e) w' \<and> v_sample_ext T K ts2 = (Ok (gamma, ts3) :: (_, whir_prover_error) res) \<and>
     v_sample_ext T K ts2 = (Ok (gamma, ts3) :: (_, verify_whir_error) res) \<and>
     (\<forall>fin alphas. agrees (Suc r) w' fin \<longrightarrow> length alphas = k \<longrightarrow>
        v_check_witness T K (query_phase_pow_bits (whir p)) (query_phase_pow_witnesses fin ! r) ts = (Ok (True, ts1) :: (_, verify_whir_error) res) \<and>
        vfor (whir_query T X k (L0 - r) (fe_gen X (L0 - r))
            (if r = 0 then initial_query_value X h k fin rts (map (\<lambda>(M, _). cm_width M) mats) mus alphas else codeword_query_value X h fin alphas r))
          [0..<nq] ([], []) ts1 = Ok ((map (\<lambda>i. fe_gen X (L0 - r - k) ^ i) idxs,
            map (\<lambda>z. horner_eval (fold fold_even_odd alphas c) (fe_embed X z)) (map (\<lambda>i. fe_gen X (L0 - r - k) ^ i) idxs)), ts2))"
proof -
  note size = round_sizes [OF r]
  from run_grind [of "query_phase_pow_bits (whir p)", OF _ inv, where 'e = whir_prover_error and 'g = verify_whir_error] obtain pow ts1 where
    grind: "v_grind T K pick (query_phase_pow_bits (whir p)) ts = (Ok (pow, ts1) :: (_, whir_prover_error) res)"
      "v_check_witness T K (query_phase_pow_bits (whir p)) pow ts = (Ok (True, ts1) :: (_, verify_whir_error) res)" "inv ts1" by blast
  from run_queries [OF grind(3) size(3,7), of nq 0 "fe_gen X (L0 - r)"] obtain idxs ts2 where
    queries: "inv ts2" "length idxs = nq" "\<forall>i \<in> set idxs. i < 2 ^ (L0 - r - k)"
     "vmapM (\<lambda>_. v_sample_bits T K (L0 - r - k)) [0..<nq] ts1 = (Ok (idxs, ts2) :: (_, whir_prover_error) res)"
     "\<And>qv y. (\<forall>q < nq. qv q (idxs ! q) (fe_gen X (L0 - r) ^ (idxs ! q)) = Ok (y (idxs ! q))) \<Longrightarrow>
        vfor (whir_query T X k (L0 - r) (fe_gen X (L0 - r)) qv) [0..<nq] ([], []) ts1
          = (Ok ((map (\<lambda>i. (fe_gen X (L0 - r) ^ i) ^ 2 ^ k) idxs, map y idxs), ts2) :: (_, verify_whir_error) res)"
    by (metis (no_types, lifting) add_0 append_Nil)
  from run_sample [OF queries(1), where 'e = whir_prover_error and 'g = verify_whir_error] obtain gamma ts3 where
    gamma: "v_sample_ext T K ts2 = (Ok (gamma, ts3) :: (_, whir_prover_error) res)"
      "v_sample_ext T K ts2 = (Ok (gamma, ts3) :: (_, verify_whir_error) res)" "inv ts3" by blast
  from run_answers [OF com mus size(3) ready queries(3)] obtain w' where
    w': "rfold (prove_query mats (L0 - r) k r rs_tree) (enumerated idxs) (extended w evs pows coms oods pow e) = Ok w'"
      "answered r (extended w evs pows coms oods pow e) w'"
      "\<And>fin alphas q. agrees (Suc r) w' fin \<Longrightarrow> length alphas = k \<Longrightarrow> q < length idxs \<Longrightarrow>
        (if r = 0 then initial_query_value X h k fin rts (map (\<lambda>(M, _). cm_width M) mats) mus alphas
         else codeword_query_value X h fin alphas r) q (idxs ! q) (fe_gen X (L0 - r) ^ (idxs ! q))
        = Ok (horner_eval (fold fold_even_odd alphas c) (fe_embed X (fe_gen X (L0 - r - k) ^ (idxs ! q))))" by blast
  have ad: "L0 - r \<le> fe_adicity X" using sizes(4) by simp
  have verifier: "v_check_witness T K (query_phase_pow_bits (whir p)) (query_phase_pow_witnesses fin ! r) ts = (Ok (True, ts1) :: (_, verify_whir_error) res)"
    "vfor (whir_query T X k (L0 - r) (fe_gen X (L0 - r))
            (if r = 0 then initial_query_value X h k fin rts (map (\<lambda>(M, _). cm_width M) mats) mus alphas else codeword_query_value X h fin alphas r))
          [0..<nq] ([], []) ts1 = Ok ((map (\<lambda>i. fe_gen X (L0 - r - k) ^ i) idxs,
            map (\<lambda>z. horner_eval (fold fold_even_odd alphas c) (fe_embed X z)) (map (\<lambda>i. fe_gen X (L0 - r - k) ^ i) idxs)), ts2)"
    if ag: "agrees (Suc r) w' fin" and la: "length alphas = k" for fin alphas
  proof -
    from ag old have "query_phase_pow_witnesses fin ! r = pow"
      by (auto simp: agrees_def answered_fields(5) [OF w'(2)] extended_def prefix_def nth_append)
    with grind show "v_check_witness T K (query_phase_pow_bits (whir p)) (query_phase_pow_witnesses fin ! r) ts = (Ok (True, ts1) :: (_, verify_whir_error) res)" by simp
    show "vfor (whir_query T X k (L0 - r) (fe_gen X (L0 - r))
            (if r = 0 then initial_query_value X h k fin rts (map (\<lambda>(M, _). cm_width M) mats) mus alphas else codeword_query_value X h fin alphas r))
          [0..<nq] ([], []) ts1 = Ok ((map (\<lambda>i. fe_gen X (L0 - r - k) ^ i) idxs,
            map (\<lambda>z. horner_eval (fold fold_even_odd alphas c) (fe_embed X z)) (map (\<lambda>i. fe_gen X (L0 - r - k) ^ i) idxs)), ts2)"
      using queries(5) [of "if r = 0 then initial_query_value X h k fin rts (map (\<lambda>(M, _). cm_width M) mats) mus alphas else codeword_query_value X h fin alphas r"
          "\<lambda>i. horner_eval (fold fold_even_odd alphas c) (fe_embed X (fe_gen X (L0 - r - k) ^ i))"] w'(3) [OF ag la] queries(2)
      by (simp only: gen_fold [OF size(3) ad] map_map comp_def) blast
  qed
  show ?thesis
    by (rule exI [of _ pow], rule exI [of _ idxs], rule exI [of _ gamma], rule exI [of _ w'], rule exI [of _ ts1], rule exI [of _ ts2], rule exI [of _ ts3])
      (intro conjI gamma grind(1) queries(2,4) w'(1,2), use verifier in blast)
qed

section \<open>A round\<close>

lemma run_round:
  fixes s :: "('f, 'ef, 'd) whir_prover_state"
  assumes inv: "inv ts" and com: "list_all2 (committed X D h p) mats rts" and mus: "length mus = sum_list (map (\<lambda>(M, _). cm_width M) mats)"
    and r: "r < R" and s: "round_inv X h p (length mats) (batched_message X D p mats mus) r c W s"
  defines "n \<equiv> hs - k * Suc r" and "nq \<equiv> num_queries (whir_rounds (whir p) ! r)"
  shows "\<exists>alphas gamma z0 zs s1 ts1. let c1 = fold fold_even_odd alphas c; W1 = new_weights (fe_embed X) n (gamma, z0, zs) (fold fold_pairs alphas W) in
     inv ts1 \<and> prove_whir_round T X E h pick p mats (r, whir_rounds (whir p) ! r) s ts = Ok (s1, ts1) \<and>
     round_inv X h p (length mats) (batched_message X D p mats mus) (Suc r) c1 W1 s1 \<and>
     length alphas = k \<and> length zs = nq \<and> (z0 = None \<longleftrightarrow> r = R - 1) \<and>
     (\<forall>fin. agrees (Suc r) (wp_proof s1) fin \<longrightarrow> (Suc r = R \<longrightarrow> final_poly fin = c1) \<longrightarrow>
        agrees r (wp_proof s) fin \<and> (\<forall>v. claim_inv p r c W (wp_proof s) fin v \<longrightarrow>
          whir_round T X h p fin rts (map (\<lambda>(M, _). cm_width M) mats) mus (r, query_phase_pow_witnesses fin ! r, whir_rounds (whir p) ! r) v ts
            = Ok (after_round p r c1 W1 alphas (gamma, z0, zs) v, ts1) \<and>
          claim_inv p (Suc r) c1 W1 (wp_proof s1) fin (after_round p r c1 W1 alphas (gamma, z0, zs) v)))"
proof -
  note size = round_sizes [OF r]
  from run_head [OF inv r s] obtain alphas evs pows tree z0 coms oods s2 ts1 ts2 where head: "inv ts2" "length alphas = k" "length evs = k" "length pows = k"
     "vfor (prove_fold_round T K pick p) [0..<k] s ts = Ok (s2, ts1)"
     "prove_commit T K E h k (r = R - 1) s2 ts1 = Ok ((tree, z0, s\<lparr>wp_f_evals := to_evals (hs - k * Suc r) (fold fold_even_odd alphas c), wp_w_evals := fold fold_pairs alphas W,
         wp_final_poly := (if r = R - 1 then Some (fold fold_even_odd alphas c) else wp_final_poly s),
         wp_proof := (wp_proof s)\<lparr>whir_sumcheck_polys := whir_sumcheck_polys (wp_proof s) @ evs,
                      folding_pow_witnesses := folding_pow_witnesses (wp_proof s) @ pows,
                      codeword_commits := codeword_commits (wp_proof s) @ coms, ood_values := ood_values (wp_proof s) @ oods\<rparr>\<rparr>), ts2)"
     "if r = R - 1 then z0 = None \<and> coms = [] \<and> oods = []
      else \<exists>z t rt. z0 = Some z \<and> coms = [rt] \<and> oods = [horner_eval (fold fold_even_odd alphas c) z] \<and> tree = Some t \<and> cm_width (backing_matrix t) = 1 \<and>
        tree_opens h (ef_coefficients K) (L0 - Suc r - k) (2 ^ k) (codeword_at X (fold fold_even_odd alphas c) (L0 - Suc r)) t rt"
     "\<And>polys pows'. vfor (\<lambda>_. whir_fold_round T K p) [0..<k] (dot (to_evals (hs - k * r) c) W, [], evs @ polys, pows @ pows') ts
        = Ok ((dot (to_evals (hs - k * Suc r) (fold fold_even_odd alphas c)) (fold fold_pairs alphas W), alphas, polys, pows'), ts1)"
     "\<And>fin. prefix (codeword_commits (wp_proof s) @ coms) (codeword_commits fin) \<Longrightarrow> prefix (ood_values (wp_proof s) @ oods) (ood_values fin) \<Longrightarrow>
        (r = R - 1 \<longrightarrow> final_poly fin = fold fold_even_odd alphas c) \<Longrightarrow>
        whir_commit_phase T K fin (r = R - 1) r ts1 = (Ok (map_option (\<lambda>z. (z, horner_eval (fold fold_even_odd alphas c) z)) z0, ts2) :: (_, verify_whir_error) res)"
    unfolding Let_def by blast
  define c1 Wf where "c1 = fold fold_even_odd alphas c" and "Wf = fold fold_pairs alphas W"
  note head = head [folded c1_def Wf_def n_def]
  have m: "hs - k * r = k + n" unfolding n_def by (rule size(5))
  have st: "length c = 2 ^ (k + n)" "length W = 2 ^ (k + n)" "wp_m s = k + n" "wp_log_rs_domain_size s = L0 - r"
    using s r by (simp_all add: round_inv_def Let_def m)
  have len: "length c1 = 2 ^ n" "length Wf = 2 ^ n"
    using length_fold_even_odd_all [of c alphas n] length_fold_pairs_all [of W alphas n] st head(2) by (simp_all add: c1_def Wf_def)
  define e :: nat where "e = (if r = R - 1 then 0 else 1)"
  have old: "length (query_phase_pow_witnesses (wp_proof s)) = r" "length (codeword_commits (wp_proof s)) = r" "length (codeword_opened_values (wp_proof s)) = r"
    "length (codeword_merkle_proofs (wp_proof s)) = r"
    using s r by (simp_all add: round_inv_def Let_def)
  have ready: "ready X h p (length mats) (batched_message X D p mats mus) r c (wp_rs_tree s) (extended (wp_proof s) evs pows coms oods pow e)" for pow
    using s r by (intro ready_extended) (simp add: round_inv_def Let_def)
  from run_tail [OF head(1) com mus r ready old(1), of nq] obtain pow idxs gamma w' ts3 ts4 ts5 where tail: "inv ts5"
     "v_grind T K pick (query_phase_pow_bits (whir p)) ts2 = (Ok (pow, ts3) :: (_, whir_prover_error) res)"
     "vmapM (\<lambda>_. v_sample_bits T K (L0 - r - k)) [0..<nq] ts3 = (Ok (idxs, ts4) :: (_, whir_prover_error) res)" "length idxs = nq"
     "rfold (prove_query mats (L0 - r) k r (wp_rs_tree s)) (enumerated idxs) (extended (wp_proof s) evs pows coms oods pow e) = Ok w'"
     "answered r (extended (wp_proof s) evs pows coms oods pow e) w'" "v_sample_ext T K ts4 = (Ok (gamma, ts5) :: (_, whir_prover_error) res)"
     "v_sample_ext T K ts4 = (Ok (gamma, ts5) :: (_, verify_whir_error) res)"
     "\<And>fin alphas. agrees (Suc r) w' fin \<Longrightarrow> length alphas = k \<Longrightarrow>
        v_check_witness T K (query_phase_pow_bits (whir p)) (query_phase_pow_witnesses fin ! r) ts2 = (Ok (True, ts3) :: (_, verify_whir_error) res) \<and>
        vfor (whir_query T X k (L0 - r) (fe_gen X (L0 - r))
            (if r = 0 then initial_query_value X h k fin rts (map (\<lambda>(M, _). cm_width M) mats) mus alphas else codeword_query_value X h fin alphas r))
          [0..<nq] ([], []) ts3 = Ok ((map (\<lambda>i. fe_gen X (L0 - r - k) ^ i) idxs,
            map (\<lambda>z. horner_eval (fold fold_even_odd alphas c) (fe_embed X z)) (map (\<lambda>i. fe_gen X (L0 - r - k) ^ i) idxs)), ts4)"
    by blast
  note answers = tail(9) [OF _ head(2), folded c1_def]
  define zs where "zs = map (\<lambda>i. fe_gen X (L0 - r - k) ^ i) idxs"
  define W1 where "W1 = new_weights (fe_embed X) n (gamma, z0, zs) Wf"
  define s3 where "s3 = s\<lparr>wp_f_evals := to_evals n c1, wp_w_evals := Wf, wp_final_poly := (if r = R - 1 then Some c1 else wp_final_poly s),
         wp_proof := (wp_proof s)\<lparr>whir_sumcheck_polys := whir_sumcheck_polys (wp_proof s) @ evs,
                      folding_pow_witnesses := folding_pow_witnesses (wp_proof s) @ pows,
                      codeword_commits := codeword_commits (wp_proof s) @ coms, ood_values := ood_values (wp_proof s) @ oods\<rparr>\<rparr>"
  note head = head [folded s3_def]
  define s1 where "s1 = s\<lparr>wp_f_evals := to_evals n c1, wp_w_evals := (if r = R - 1 then Wf else W1), wp_m := n, wp_log_rs_domain_size := L0 - Suc r,
     wp_rs_tree := tree, wp_final_poly := (if r = R - 1 then Some c1 else wp_final_poly s), wp_proof := w'\<rparr>"
  have prover: "prove_whir_round T X E h pick p mats (r, whir_rounds (whir p) ! r) s ts = Ok (s1, ts5)"
  proof -
    have arith: "sub64 R 1 = (Ok (R - 1) :: (_, whir_prover_error) res)" "sub64 (L0 - r) k = (Ok (L0 - r - k) :: (_, whir_prover_error) res)"
      "sub64 (wp_m s) k = (Ok n :: (_, whir_prover_error) res)" "sub64 (L0 - r) 1 = (Ok (L0 - Suc r) :: (_, whir_prover_error) res)"
      using r st size(3,4) by (simp_all add: sub64_def m)
    have ext: "(let w = (wp_proof s3)\<lparr>query_phase_pow_witnesses := query_phase_pow_witnesses (wp_proof s3) @ [pow]\<rparr> in
        if r = R - 1 then w
        else w\<lparr>codeword_opened_values := codeword_opened_values w @ [[]], codeword_merkle_proofs := codeword_merkle_proofs w @ [[]]\<rparr>)
      = extended (wp_proof s) evs pows coms oods pow e"
      by (simp add: s3_def extended_def e_def)
    have weights: "(if r = R - 1 then Ok Wf else case z0 of None \<Rightarrow> Err Z0None
               | Some z_0 \<Rightarrow>
                   rbind (w_evals_accumulate (\<lambda>x. x) z_0 gamma Wf) (\<lambda>w_evals.
                   rfold (\<lambda>(i, z_i). w_evals_accumulate (fe_embed X) z_i (gamma ^ (i + 2)))
                     (enumerated (map (\<lambda>i. fe_gen X (L0 - r - k) ^ i) idxs)) w_evals))
        = (Ok (if r = R - 1 then Wf else W1) :: (_, whir_prover_error) res)"
    proof (cases "r = R - 1")
      case False
      with head(7) obtain z where "z0 = Some z" by auto
      with False show ?thesis by (simp only: if_False option.case zs_def [symmetric] run_weights [OF len(2)] W1_def)
    qed simp
    have sel: "wp_w_evals s3 = Wf" "wp_rs_tree s3 = wp_rs_tree s" "wp_m s3 = wp_m s" by (simp_all add: s3_def)
    have gen: "two_adic_generator X (L0 - r - k) = (Ok (fe_gen X (L0 - r - k)) :: (_, whir_prover_error) res)"
      using sizes(4) by (intro generator_Ok) simp
    show ?thesis
      unfolding prove_whir_round_def prod.case Let_def [of K] Let_def [of k] Let_def [of "wp_log_rs_domain_size s"] Let_def [of "r = R - 1"]
      apply (simp only: arith vbind_def vlift_run head(5,6) rbind.simps prod.case gen tail(2,3) ext [unfolded Let_def] Let_def sel tail(5,7) weights st(4)
         nq_def [symmetric])
      by (simp add: s1_def s3_def)
  qed
  have inv1: "round_inv X h p (length mats) (batched_message X D p mats mus) (Suc r) c1 W1 s1"
    by (rule round_inv_step [OF s r tail(6) head(3,4) _ _ e_def]) (use head(7) len in \<open>auto simp: e_def s1_def n_def W1_def length_new_weights\<close>)
  have verifier: "whir_round T X h p fin rts (map (\<lambda>(M, _). cm_width M) mats) mus (r, query_phase_pow_witnesses fin ! r, whir_rounds (whir p) ! r) v ts
        = Ok (after_round p r c1 W1 alphas (gamma, z0, zs) v, ts5)"
    "claim_inv p (Suc r) c1 W1 w' fin (after_round p r c1 W1 alphas (gamma, z0, zs) v)"
    if "agrees (Suc r) w' fin" "Suc r = R \<longrightarrow> final_poly fin = c1" "claim_inv p r c W (wp_proof s) fin v" for fin v
  proof -
    note ag = that(1) and v = that(3) [unfolded claim_inv_def]
    note eqs = answered_fields [OF tail(6)]
    from ag have "prefix (whir_sumcheck_polys (wp_proof s) @ evs) (whir_sumcheck_polys fin)" "prefix (folding_pow_witnesses (wp_proof s) @ pows) (folding_pow_witnesses fin)"
      by (simp_all add: agrees_def eqs extended_def)
    with v obtain polys pows' where rest: "ws_sumcheck_polys v = evs @ polys" "ws_folding_pows v = pows @ pows'" by (auto simp: prefix_def)
    have phase: "whir_commit_phase T K fin (r = R - 1) r ts1 = (Ok (map_option (\<lambda>z. (z, horner_eval c1 z)) z0, ts2) :: (_, verify_whir_error) res)"
      by (rule head(9)) (use ag that(2) r in \<open>auto simp: agrees_def eqs extended_def\<close>)
    have arith: "sub64 R 1 = (Ok (R - 1) :: (_, verify_whir_error) res)" "sub64 (L0 - r) 1 = (Ok (L0 - Suc r) :: (_, verify_whir_error) res)"
      "two_adic_generator X (L0 - r) = (Ok (fe_gen X (L0 - r)) :: (_, verify_whir_error) res)"
      using r size(4) sizes(4) by (simp_all add: sub64_def generator_Ok)
    note claim = round_claim [OF len(2,1), of gamma "fe_embed X" zs z0]
    show "whir_round T X h p fin rts (map (\<lambda>(M, _). cm_width M) mats) mus (r, query_phase_pow_witnesses fin ! r, whir_rounds (whir p) ! r) v ts
        = Ok (after_round p r c1 W1 alphas (gamma, z0, zs) v, ts5)"
      unfolding whir_round_def prod.case Let_def [of K] Let_def [of k] Let_def [of "ws_log_rs_domain_size v"]
      apply (simp only: v rest arith vbind_def vlift_run rbind.simps prod.case head(8) phase answers [OF ag] nq_def [symmetric] tail(8) vcheck_run Let_def zs_def [symmetric]
         claim W1_def [symmetric])
      using v head(3,4) by (simp add: after_round_def n_def rest split: option.splits)
    show "claim_inv p (Suc r) c1 W1 w' fin (after_round p r c1 W1 alphas (gamma, z0, zs) v)"
      using v by (simp add: claim_inv_def after_round_def eqs extended_def rest head(3,4))
  qed
  have "agrees r (wp_proof s) fin" if "agrees (Suc r) w' fin" for fin by (rule agrees_step [OF tail(6) that old(3,4)])
  with prover inv1 verifier tail(1,4) head(2,7) show ?thesis
    unfolding Let_def
    apply (intro exI [of _ alphas] exI [of _ gamma] exI [of _ z0] exI [of _ zs] exI [of _ s1] exI [of _ ts5])
    unfolding c1_def [symmetric] Wf_def [symmetric] W1_def [symmetric]
    apply (auto simp: s1_def zs_def nq_def split: if_splits)
    done
qed

end

end
