(* ===== verification/WhirComplete.thy ===== *)
theory WhirComplete
  imports WhirStep
begin

text \<open>
  Completeness of WHIR: from any state of the transcript, the proof that \<open>prove_whir_opening\<close> returns for
  committed matrices is accepted by \<open>verify_whir\<close> from the same state, for the true values at the opening point.
\<close>

section \<open>What the verifier has collected\<close>

definition collected :: "system_params \<Rightarrow> nat \<Rightarrow> ('f, 'ef) whir_state \<Rightarrow> bool" where
  "collected p n v \<longleftrightarrow> length (ws_gammas v) = n \<and> map length (ws_zs v) = map num_queries (take n (whir_rounds (whir p))) \<and>
     length (ws_z0s v) = min n (num_whir_rounds p - 1) \<and> length (ws_alphas v) = n * k_whir p"

lemma collected_zs: "collected p n v \<Longrightarrow> n \<le> num_whir_rounds p \<Longrightarrow> length (ws_zs v) = n"
  by (auto simp: collected_def num_whir_rounds_def dest: map_eq_imp_length_eq)

lemma collected_after:
  assumes "collected p r v" and "r < num_whir_rounds p" and "length alphas = k_whir p"
    and "length zs = num_queries (whir_rounds (whir p) ! r)" and "z0 = None \<longleftrightarrow> r = num_whir_rounds p - 1"
  shows "collected p (Suc r) (after_round p r c W alphas (gamma, z0, zs) v)"
proof -
  have "take (Suc r) (whir_rounds (whir p)) = take r (whir_rounds (whir p)) @ [whir_rounds (whir p) ! r]"
    using assms(2) by (simp add: num_whir_rounds_def take_Suc_conv_app_nth)
  with assms show ?thesis by (auto simp: collected_def after_round_def split: option.splits)
qed

lemma round_data_after:
  assumes v: "collected p r v" and r: "r < num_whir_rounds p" and z0: "z0 = None \<longleftrightarrow> r = num_whir_rounds p - 1"
  shows "round_data (after_round p r c W alphas (gamma, z0, zs) v) = round_data v @ [(gamma, z0, zs)]"
proof -
  have len: "length (ws_gammas v) = r" "length (ws_z0s v) = r" "length (ws_zs v) = r"
    using v r collected_zs [OF v] by (auto simp: collected_def)
  then show ?thesis
    by (cases z0) (simp_all add: round_data_def after_round_def zip_append1 zip_append2)
qed

text \<open>What the weights contribute, whatever the later challenges and the final polynomial are.\<close>

definition weights_inv :: "('f \<Rightarrow> 'ef) \<Rightarrow> system_params \<Rightarrow> nat \<Rightarrow> 'ef::field list \<Rightarrow> 'ef list \<Rightarrow> ('f, 'ef) whir_state \<Rightarrow> bool" where
  "weights_inv emb p n W0 W v \<longleftrightarrow> (\<forall>g as m. length as + m = log_stacked_height p - k_whir p * n \<longrightarrow> length g = 2 ^ m \<longrightarrow>
     contribution (to_evals m g) as W = contribution (to_evals m g) (ws_alphas v @ as) W0 + rounds_value emb g (k_whir p) (ws_alphas v @ as) (round_data v))"

lemma weights_inv_after:
  assumes inv: "weights_inv emb p r W0 W v" and v: "collected p r v" and r: "r < num_whir_rounds p" and z0: "z0 = None \<longleftrightarrow> r = num_whir_rounds p - 1"
    and alphas: "length alphas = k_whir p" and m: "log_stacked_height p - k_whir p * r = k_whir p + n" and n: "n = log_stacked_height p - k_whir p * Suc r"
    and W: "length W = 2 ^ (k_whir p + n)"
  shows "weights_inv emb p (Suc r) W0 (new_weights emb n (gamma, z0, zs) (fold fold_pairs alphas W)) (after_round p r c W1 alphas (gamma, z0, zs) v)"
  unfolding weights_inv_def
proof (intro allI impI)
  fix g as :: "'b list" and l assume l: "length as + l = log_stacked_height p - k_whir p * Suc r" and g: "length g = 2 ^ l"
  let ?d = "(gamma, z0, zs)"
  have len: "length (fold fold_pairs alphas W) = 2 ^ (length as + l)" using length_fold_pairs_all [of W alphas n] W alphas l n by simp
  have "contribution (to_evals l g) as (new_weights emb n ?d (fold fold_pairs alphas W)) = contribution (to_evals l g) (alphas @ as) W + round_value emb g as ?d"
    using contribution_new_weights [OF len g, of emb ?d] l n by (simp add: contribution_append)
  also have "contribution (to_evals l g) (alphas @ as) W = contribution (to_evals l g) (ws_alphas v @ alphas @ as) W0
      + rounds_value emb g (k_whir p) (ws_alphas v @ alphas @ as) (round_data v)"
    using inv [unfolded weights_inv_def, rule_format, of "alphas @ as" l g] l g alphas m n by simp
  also have "\<dots> + round_value emb g as ?d = contribution (to_evals l g) (ws_alphas v @ alphas @ as) W0
      + rounds_value emb g (k_whir p) (ws_alphas v @ alphas @ as) (round_data v @ [?d])"
  proof -
    have "length (round_data v) = r" using v r collected_zs [OF v] by (auto simp: round_data_def collected_def)
    moreover have "drop (k_whir p * Suc r) (ws_alphas v @ alphas @ as) = as" using v alphas by (simp add: collected_def mult.commute)
    ultimately show ?thesis by (simp only: rounds_value_snoc add.assoc)
  qed
  finally show "contribution (to_evals l g) as (new_weights emb n ?d (fold fold_pairs alphas W))
      = contribution (to_evals l g) (ws_alphas (after_round p r c W1 alphas ?d v) @ as) W0
        + rounds_value emb g (k_whir p) (ws_alphas (after_round p r c W1 alphas ?d v) @ as) (round_data (after_round p r c W1 alphas ?d v))"
    unfolding round_data_after [OF v r z0] by (simp add: after_round_def)
qed

section \<open>The initial polynomial\<close>

lemma rfold_sum:
  "\<forall>(mle, mu) \<in> set xs. i < length mle \<Longrightarrow>
     rfold (\<lambda>(mle_j, mu_j) acc. rbind (index mle_j i) (\<lambda>x. Ok (acc + mu_j * emb x))) xs a
       = (Ok (a + (\<Sum>(mu, m) \<leftarrow> map (\<lambda>(mle, mu). (mu, map emb mle)) xs. mu * m ! i)) :: (_, 'e) res)"
proof (induction xs arbitrary: a)
  case (Cons x xs)
  then show ?case by (cases x) (simp add: add.assoc)
qed simp

lemma initial_f_evals_Ok:
  assumes "\<forall>m \<in> set mles. length m = 2 ^ n"
  shows "initial_f_evals emb mles mus (2 ^ n) = (Ok (lincomb (2 ^ n) (zip mus (map (map emb) mles))) :: (_, 'e) res)"
proof -
  have swap: "map (\<lambda>(mle, mu). (mu, map emb mle)) (zip mles mus) = zip mus (map (map emb) mles)"
    by (simp add: list_eq_iff_nth_eq split_def)
  have len: "\<forall>(mu, m) \<in> set (zip mus (map (map emb) mles)). length m = 2 ^ n" using assms by (auto dest!: set_zip_rightD)
  have "initial_f_evals emb mles mus (2 ^ n) = (Ok (map (\<lambda>i. lincomb (2 ^ n) (zip mus (map (map emb) mles)) ! i) [0..<2 ^ n]) :: (_, 'e) res)"
    unfolding initial_f_evals_def
  proof (rule rmap_total)
    fix i assume "i \<in> set [0..<2 ^ n :: nat]"
    then have i: "i < 2 ^ n" by simp
    with assms have "\<forall>(mle, mu) \<in> set (zip mles mus). i < length mle" by (auto dest!: set_zip_leftD)
    from rfold_sum [OF this, of emb 0, where 'e = 'e]
    show "rfold (\<lambda>(mle_j, mu_j) acc. rbind (index mle_j i) (\<lambda>x. Ok (acc + mu_j * emb x))) (zip mles mus) 0
        = (Ok (lincomb (2 ^ n) (zip mus (map (map emb) mles)) ! i) :: (_, 'e) res)"
      unfolding swap lincomb_nth [OF len i] by simp
  qed
  also have "map (\<lambda>i. lincomb (2 ^ n) (zip mus (map (map emb) mles)) ! i) [0..<2 ^ n] = lincomb (2 ^ n) (zip mus (map (map emb) mles))"
    using length_lincomb [OF len] by (metis map_nth)
  finally show ?thesis .
qed

context whir_parties
begin

lemma initial_mles_Ok:
  fixes mats :: "('f col_matrix \<times> ('f, 'd) merkle_tree) list"
  assumes com: "list_all2 (committed X D h p) mats rts"
  shows "initial_mles D (l_skip p) mats = (Ok (map (to_evals hs) (all_messages D p mats)) :: (_, 'e) res)"
proof -
  have col: "rmap (\<lambda>j. rbind (cm_column M j) (\<lambda>col. rbind (eval_to_coeff_rs_message D (l_skip p) col) coeffs_to_evals_inplace)) [0..<cm_width M]
      = (Ok (map (to_evals hs) (column_messages D p M)) :: (_, 'e) res)" if "(M, t) \<in> set mats" for M t
  proof -
    from com that obtain rt where "committed X D h p (M, t) rt" by (auto simp: list_all2_conv_all_nth in_set_conv_nth)
    then have M: "wf_col_matrix M" "cm_height M = 2 ^ (l_skip p + n_stack p)" by (auto simp: committed_def log_stacked_height_def)
    have "rmap (\<lambda>j. rbind (cm_column M j) (\<lambda>col. rbind (eval_to_coeff_rs_message D (l_skip p) col) coeffs_to_evals_inplace)) [0..<cm_width M]
        = (Ok (map (\<lambda>j. to_evals hs (rs_message D (l_skip p) (columns_of M ! j))) [0..<cm_width M]) :: (_, 'e) res)"
    proof (rule rmap_total)
      fix j assume "j \<in> set [0..<cm_width M]"
      then have j: "j < cm_width M" by simp
      then have "length (columns_of M ! j) = 2 ^ (l_skip p + n_stack p)" using length_column [OF M(1)] M(2) by simp
      note msg = rs_message_Ok [OF D_transform sizes(7) this]
      have run: "eval_to_coeff_rs_message D (l_skip p) (columns_of M ! j) = (Ok (rs_message D (l_skip p) (columns_of M ! j)) :: (_, 'e) res)" by (rule msg(1))
      from msg(2) j M(1) show "rbind (cm_column M j) (\<lambda>col. rbind (eval_to_coeff_rs_message D (l_skip p) col) coeffs_to_evals_inplace)
          = (Ok (to_evals hs (rs_message D (l_skip p) (columns_of M ! j))) :: (_, 'e) res)"
        by (simp add: cm_column_Ok log_stacked_height_def run coeffs_to_evals_Ok)
    qed
    also have "map (\<lambda>j. to_evals hs (rs_message D (l_skip p) (columns_of M ! j))) [0..<cm_width M] = map (to_evals hs) (column_messages D p M)"
      by (rule nth_equalityI) (simp_all add: column_messages_def)
    finally show ?thesis .
  qed
  have "rmap (\<lambda>(mat, _). rmap (\<lambda>j. rbind (cm_column mat j) (\<lambda>col. rbind (eval_to_coeff_rs_message D (l_skip p) col) coeffs_to_evals_inplace)) [0..<cm_width mat]) mats
      = (Ok (map (\<lambda>(M, t). map (to_evals hs) (column_messages D p M)) mats) :: (_, 'e) res)"
    by (rule rmap_total) (use col in auto)
  then show ?thesis
    by (simp add: initial_mles_def all_messages_def map_concat comp_def split_def)
qed

lemma initial_evals:
  assumes com: "list_all2 (committed X D h p) mats rts"
  shows "initial_f_evals (fe_embed X) (map (to_evals hs) (all_messages D p mats)) mus (2 ^ hs) = (Ok (to_evals hs (batched_message X D p mats mus)) :: (_, 'e) res)"
proof -
  note len = message_length [OF com]
  have "\<forall>m \<in> set (map (to_evals hs) (all_messages D p mats)). length m = 2 ^ hs" using len by auto
  note run = initial_f_evals_Ok [OF this, of "fe_embed X" mus, where 'e = 'e]
  have emb: "map (fe_embed X) (to_evals hs m) = to_evals hs (map (fe_embed X) m)" if "length m = 2 ^ hs" for m
    by (rule map_cube_layers [OF _ that]) simp
  have "map (map (fe_embed X)) (map (to_evals hs) (all_messages D p mats)) = map (\<lambda>m. to_evals hs (map (fe_embed X) m)) (all_messages D p mats)"
    using len emb by simp
  then have "zip mus (map (map (fe_embed X)) (map (to_evals hs) (all_messages D p mats)))
      = map (\<lambda>(mu, m). (mu, to_evals hs m)) (zip mus (map (map (fe_embed X)) (all_messages D p mats)))"
    by (simp add: list_eq_iff_nth_eq split_def)
  then show ?thesis
    unfolding run batched_message_def to_evals_lincomb [OF batched_lengths [OF com]] by simp
qed

lemma batched_message_length:
  "list_all2 (committed X D h p) mats rts \<Longrightarrow> length (batched_message X D p mats mus) = 2 ^ hs"
  unfolding batched_message_def by (rule length_lincomb [OF batched_lengths])

section \<open>All rounds\<close>

lemma rbind_Ok_right: "rbind m Ok = m"
  by (cases m) simp_all

lemma vfor_take_Suc:
  assumes "i < length xs"
  shows "vfor f (take (Suc i) (enumerated xs)) s = vbind (vfor f (take i (enumerated xs)) s) (f (i, xs ! i))"
proof -
  have app: "vfor f (ys @ zs) s = vbind (vfor f ys s) (vfor f zs)" for ys zs s
    by (induction ys arbitrary: s) (simp_all add: fun_eq_iff vbind_def vret_def rbind_assoc split_def)
  have one: "vfor f [x] = f x" for x by (simp add: fun_eq_iff vbind_def vret_def rbind_Ok_right)
  have "take (Suc i) (enumerated xs) = take i (enumerated xs) @ [(i, xs ! i)]" using assms by (simp add: take_Suc_conv_app_nth)
  then show ?thesis by (simp only: app one)
qed

lemma run_rounds:
  fixes s0 :: "('f, 'ef, 'd) whir_prover_state"
  assumes inv: "inv ts" and com: "list_all2 (committed X D h p) mats rts" and mus: "length mus = sum_list (map (\<lambda>(M, _). cm_width M) mats)"
    and s0: "round_inv X h p (length mats) (batched_message X D p mats mus) 0 (batched_message X D p mats mus) W0 s0"
  shows "n \<le> R \<Longrightarrow> \<exists>c W s ts'. inv ts' \<and>
     vfor (prove_whir_round T X E h pick p mats) (take n (enumerated (whir_rounds (whir p)))) s0 ts = Ok (s, ts') \<and>
     round_inv X h p (length mats) (batched_message X D p mats mus) n c W s \<and>
     (\<forall>fin. agrees n (wp_proof s) fin \<longrightarrow> (n = R \<longrightarrow> final_poly fin = c) \<longrightarrow> agrees 0 (wp_proof s0) fin) \<and>
     (\<forall>fin v0. agrees n (wp_proof s) fin \<longrightarrow> (n = R \<longrightarrow> final_poly fin = c) \<longrightarrow>
        claim_inv p 0 (batched_message X D p mats mus) W0 (wp_proof s0) fin v0 \<longrightarrow> collected p 0 v0 \<longrightarrow>
        (\<exists>v. vfor (whir_round T X h p fin rts (map (\<lambda>(M, _). cm_width M) mats) mus)
            (take n (enumerated (zip (query_phase_pow_witnesses fin) (whir_rounds (whir p))))) v0 ts = Ok (v, ts') \<and>
          claim_inv p n c W (wp_proof s) fin v \<and> collected p n v \<and> weights_inv (fe_embed X) p n W0 W v))"
proof (induction n)
  case 0
  have "weights_inv (fe_embed X) p 0 W0 W0 v0" if "collected p 0 v0" for v0 :: "('f, 'ef) whir_state"
    using that by (simp add: weights_inv_def collected_def round_data_def)
  then show ?case using inv s0
    by (intro exI [of _ "batched_message X D p mats mus"] exI [of _ W0] exI [of _ s0] exI [of _ ts]) auto
next
  case (Suc r)
  then obtain c W s ts1 where IH: "inv ts1"
     "vfor (prove_whir_round T X E h pick p mats) (take r (enumerated (whir_rounds (whir p)))) s0 ts = Ok (s, ts1)"
     "round_inv X h p (length mats) (batched_message X D p mats mus) r c W s"
     "\<And>fin. agrees r (wp_proof s) fin \<Longrightarrow> (r = R \<longrightarrow> final_poly fin = c) \<Longrightarrow> agrees 0 (wp_proof s0) fin"
     "\<And>fin v0. agrees r (wp_proof s) fin \<Longrightarrow> (r = R \<longrightarrow> final_poly fin = c) \<Longrightarrow>
        claim_inv p 0 (batched_message X D p mats mus) W0 (wp_proof s0) fin v0 \<Longrightarrow> collected p 0 v0 \<Longrightarrow>
        \<exists>v. vfor (whir_round T X h p fin rts (map (\<lambda>(M, _). cm_width M) mats) mus)
            (take r (enumerated (zip (query_phase_pow_witnesses fin) (whir_rounds (whir p))))) v0 ts = Ok (v, ts1) \<and>
          claim_inv p r c W (wp_proof s) fin v \<and> collected p r v \<and> weights_inv (fe_embed X) p r W0 W v"
    by fastforce
  have r: "r < R" using Suc.prems by simp
  from run_round [OF IH(1) com mus r IH(3)] obtain alphas gamma z0 zs s1 ts2 where
    step0: "let c1 = fold fold_even_odd alphas c; W1 = new_weights (fe_embed X) (hs - k * Suc r) (gamma, z0, zs) (fold fold_pairs alphas W) in
     inv ts2 \<and> prove_whir_round T X E h pick p mats (r, whir_rounds (whir p) ! r) s ts1 = Ok (s1, ts2) \<and>
     round_inv X h p (length mats) (batched_message X D p mats mus) (Suc r) c1 W1 s1 \<and>
     length alphas = k \<and> length zs = num_queries (whir_rounds (whir p) ! r) \<and> (z0 = None \<longleftrightarrow> r = R - 1) \<and>
     (\<forall>fin. agrees (Suc r) (wp_proof s1) fin \<longrightarrow> (Suc r = R \<longrightarrow> final_poly fin = c1) \<longrightarrow>
        agrees r (wp_proof s) fin \<and> (\<forall>v. claim_inv p r c W (wp_proof s) fin v \<longrightarrow>
          whir_round T X h p fin rts (map (\<lambda>(M, _). cm_width M) mats) mus (r, query_phase_pow_witnesses fin ! r, whir_rounds (whir p) ! r) v ts1
            = Ok (after_round p r c1 W1 alphas (gamma, z0, zs) v, ts2) \<and>
          claim_inv p (Suc r) c1 W1 (wp_proof s1) fin (after_round p r c1 W1 alphas (gamma, z0, zs) v)))"
    by (elim exE) (rule that)
  define c1 W1 where "c1 = fold fold_even_odd alphas c" and "W1 = new_weights (fe_embed X) (hs - k * Suc r) (gamma, z0, zs) (fold fold_pairs alphas W)"
  note step1 = step0 [folded c1_def, folded W1_def, unfolded Let_def]
  note step = step1 [THEN conjunct1]
    step1 [THEN conjunct2, THEN conjunct1]
    step1 [THEN conjunct2, THEN conjunct2, THEN conjunct1]
    step1 [THEN conjunct2, THEN conjunct2, THEN conjunct2, THEN conjunct1]
    step1 [THEN conjunct2, THEN conjunct2, THEN conjunct2, THEN conjunct2, THEN conjunct1]
    step1 [THEN conjunct2, THEN conjunct2, THEN conjunct2, THEN conjunct2, THEN conjunct2, THEN conjunct1]
  have both: "agrees r (wp_proof s) fin \<and> (\<forall>v. claim_inv p r c W (wp_proof s) fin v \<longrightarrow>
          whir_round T X h p fin rts (map (\<lambda>(M, _). cm_width M) mats) mus (r, query_phase_pow_witnesses fin ! r, whir_rounds (whir p) ! r) v ts1
            = Ok (after_round p r c1 W1 alphas (gamma, z0, zs) v, ts2) \<and>
          claim_inv p (Suc r) c1 W1 (wp_proof s1) fin (after_round p r c1 W1 alphas (gamma, z0, zs) v))"
    if "agrees (Suc r) (wp_proof s1) fin" "Suc r = R \<longrightarrow> final_poly fin = c1" for fin
    using step1 that by (elim conjE allE [of _ fin]) (drule mp, assumption, drule mp, assumption, assumption)
  have rl: "r < length (whir_rounds (whir p))" using r by (simp add: num_whir_rounds_def)
  have prover: "vfor (prove_whir_round T X E h pick p mats) (take (Suc r) (enumerated (whir_rounds (whir p)))) s0 ts = Ok (s1, ts2)"
    unfolding vfor_take_Suc [OF rl] vbind_def IH(2) by (simp add: step(2))
  have verifier: "\<exists>v. vfor (whir_round T X h p fin rts (map (\<lambda>(M, _). cm_width M) mats) mus)
            (take (Suc r) (enumerated (zip (query_phase_pow_witnesses fin) (whir_rounds (whir p))))) v0 ts = Ok (v, ts2) \<and>
          claim_inv p (Suc r) c1 W1 (wp_proof s1) fin v \<and> collected p (Suc r) v \<and> weights_inv (fe_embed X) p (Suc r) W0 W1 v"
    if ag: "agrees (Suc r) (wp_proof s1) fin" and final: "Suc r = R \<longrightarrow> final_poly fin = c1"
      and v0: "claim_inv p 0 (batched_message X D p mats mus) W0 (wp_proof s0) fin v0" "collected p 0 v0" for fin v0
  proof -
    note st = both [OF ag final]
    from st have "agrees r (wp_proof s) fin" by blast
    from IH(5) [OF this _ v0] r obtain v where v: "vfor (whir_round T X h p fin rts (map (\<lambda>(M, _). cm_width M) mats) mus)
            (take r (enumerated (zip (query_phase_pow_witnesses fin) (whir_rounds (whir p))))) v0 ts = Ok (v, ts1)"
          "claim_inv p r c W (wp_proof s) fin v" "collected p r v" "weights_inv (fe_embed X) p r W0 W v" by auto
    have "length (query_phase_pow_witnesses (wp_proof s1)) = Suc r" using step(3) by (simp add: round_inv_def Let_def)
    with ag have "r < length (query_phase_pow_witnesses fin)" by (auto simp: agrees_def prefix_def)
    then have zl: "r < length (zip (query_phase_pow_witnesses fin) (whir_rounds (whir p)))"
      "zip (query_phase_pow_witnesses fin) (whir_rounds (whir p)) ! r = (query_phase_pow_witnesses fin ! r, whir_rounds (whir p) ! r)"
      using rl by simp_all
    have len: "length W = 2 ^ (k + (hs - k * Suc r))" using IH(3) r by (simp only: round_inv_def Let_def round_sizes(5) [OF r])
    have weights: "weights_inv (fe_embed X) p (Suc r) W0 W1 (after_round p r c1 W1 alphas (gamma, z0, zs) v)"
      using weights_inv_after [OF v(4,3) r step(6,4) round_sizes(5) [OF r] refl len] by (simp only: W1_def)
    have "vfor (whir_round T X h p fin rts (map (\<lambda>(M, _). cm_width M) mats) mus)
            (take (Suc r) (enumerated (zip (query_phase_pow_witnesses fin) (whir_rounds (whir p))))) v0 ts
          = Ok (after_round p r c1 W1 alphas (gamma, z0, zs) v, ts2)"
      unfolding vfor_take_Suc [OF zl(1)] vbind_def v(1) zl(2) using st v(2) by simp
    with st v(2) weights collected_after [OF v(3) r step(4,5,6)] show ?thesis by blast
  qed
  have "agrees 0 (wp_proof s0) fin" if "agrees (Suc r) (wp_proof s1) fin" "Suc r = R \<longrightarrow> final_poly fin = c1" for fin
    using IH(4) [of fin] both [OF that] r by simp
  then show ?case using step(1,3) prover verifier by blast
qed

section \<open>Both runs\<close>

lemma run_openings:
  assumes com: "list_all2 (committed X D h p) mats rts" and u: "length u = hs"
    and op: "list_all2 (\<lambda>(M, t) os. list_all2 (\<lambda>m v. eval_mle_evals_at_point (map (fe_embed X) m) u = (Ok v :: (_, verify_whir_error) res))
        (column_messages D p M) os) mats openings"
  shows "map length openings = map (\<lambda>(M, _). cm_width M) mats" "batched_claim openings mus = mle_sum (batched_message X D p mats mus) u"
proof -
  have val: "eval_mle_evals_at_point (map (fe_embed X) m) u = (Ok (mle_sum (map (fe_embed X) m) u) :: (_, verify_whir_error) res)"
    if "m \<in> set (all_messages D p mats)" for m
    using message_length [OF com that] u by (intro eval_mle_sum) simp
  have cat: "openings = map (\<lambda>(M, _). map (\<lambda>m. mle_sum (map (fe_embed X) m) u) (column_messages D p M)) mats"
  proof (rule nth_equalityI)
    show len: "length openings = length (map (\<lambda>(M, _). map (\<lambda>m. mle_sum (map (fe_embed X) m) u) (column_messages D p M)) mats)"
      using op by (simp add: list_all2_lengthD)
    fix c assume "c < length openings"
    with len have c: "c < length mats" by simp
    obtain M t where Mt: "mats ! c = (M, t)" by force
    from op c Mt have os: "list_all2 (\<lambda>m v. eval_mle_evals_at_point (map (fe_embed X) m) u = (Ok v :: (_, verify_whir_error) res)) (column_messages D p M) (openings ! c)"
      by (auto dest: list_all2_nthD)
    have "m \<in> set (column_messages D p M) \<Longrightarrow> m \<in> set (all_messages D p mats)" for m
      using c Mt by (force simp: all_messages_def in_set_conv_nth)
    with val os have "list_all2 (\<lambda>m v. mle_sum (map (fe_embed X) m) u = v) (column_messages D p M) (openings ! c)"
      by (fastforce simp: list_all2_conv_all_nth)
    then show "openings ! c = map (\<lambda>(M, _). map (\<lambda>m. mle_sum (map (fe_embed X) m) u) (column_messages D p M)) mats ! c"
      using c Mt by (simp add: list_eq_iff_nth_eq list_all2_conv_all_nth)
  qed
  then show "map length openings = map (\<lambda>(M, _). cm_width M) mats" by (auto simp: column_messages_def)
  have concat: "concat openings = map (\<lambda>m. mle_sum (map (fe_embed X) m) u) (all_messages D p mats)"
    unfolding cat all_messages_def by (simp add: map_concat comp_def split_def)
  have claim: "fold (\<lambda>(opening, mu_pow) acc. acc + mu_pow * opening) (zip os mus) a = a + (\<Sum>(mu, v) \<leftarrow> zip mus os. mu * v)" for os mus :: "'ef list" and a
    by (induction os mus arbitrary: a rule: list_induct2') (simp_all add: add.assoc)
  show "batched_claim openings mus = mle_sum (batched_message X D p mats mus) u"
    unfolding batched_claim_def claim batched_message_def mle_sum_lincomb [OF batched_lengths [OF com] arg_cong [OF u, of "power 2", symmetric]] concat
    by (simp add: zip_map2 comp_def split_def)
qed

lemma run_conclusion:
  fixes fin :: "('f, 'ef, 'd) whir_proof"
  assumes u: "length u = hs" and c: "length c = 2 ^ (hs - k * R)" and fin: "final_poly fin = c" and polys: "whir_sumcheck_polys fin = whir_sumcheck_polys w"
      "folding_pow_witnesses fin = folding_pow_witnesses w"
    and v: "claim_inv p R c W w fin v" "collected p R v" "weights_inv (fe_embed X) p R (evals_mobius_eq_hypercube u) W v"
  shows "whir_conclusion X p fin u v = Ok ()"
proof -
  note bounds = wf_params_bounds [OF params]
  have n: "num_whir_sumcheck_rounds p = k * R" by (simp add: num_whir_sumcheck_rounds_def k_whir_def mult.commute)
  have zs: "length (ws_zs v) = R" by (rule collected_zs [OF v(2)]) simp
  have left: "ws_sumcheck_polys v = []" "ws_folding_pows v = []" using v(1) polys by (simp_all add: claim_inv_def)
  have inv: "whir_inv p R v" using v(1,2) left by (simp add: whir_inv_def claim_inv_def collected_def)
  have "ws_claim v = contribution (to_evals (hs - k * R) c) [] W" using v(1) by (simp add: claim_inv_def contribution_Nil)
  also have "\<dots> = contribution (to_evals (hs - k * R) c) (ws_alphas v) (evals_mobius_eq_hypercube u) + rounds_value (fe_embed X) c k (ws_alphas v) (round_data v)"
    using v(3) [unfolded weights_inv_def, rule_format, of "[]" "hs - k * R" c] c by simp
  finally have "whir_final_value X p c u v = (Ok (ws_claim v) :: (_, verify_whir_error) res)"
    using whir_final_value_Ok [OF params inv u, of c, where 'e = verify_whir_error] c n by simp
  then show ?thesis
    unfolding whir_conclusion_def bounds(7) rbind.simps
    using bounds(2,3) c fin n zs v(2) left by (simp add: sub64_def collected_def mult.commute)
qed

lemma whir_completeness:
  fixes u :: "'ef list" and mats :: "('f col_matrix \<times> ('f, 'd) merkle_tree) list"
  assumes inv: "inv ts" and mats: "mats \<noteq> []" and com: "list_all2 (committed X D h p) mats rts" and u: "length u = hs"
    and op: "list_all2 (\<lambda>(M, t) os. list_all2 (\<lambda>m v. eval_mle_evals_at_point (map (fe_embed X) m) u = (Ok v :: (_, verify_whir_error) res))
        (column_messages D p M) os) mats openings"
  shows "\<exists>w ts'. inv ts' \<and> prove_whir_opening T X D E h pick p mats u ts = Ok (w, ts') \<and> verify_whir T X h p w openings rts u ts = Ok ((), ts')"
proof -
  let ?W0 = "evals_mobius_eq_hypercube u" and ?widths = "map (\<lambda>(M, _). cm_width M) mats"
  note bounds = wf_params_bounds [OF params]
  from run_grind [of "mu_pow_bits (whir p)", OF _ inv, where 'e = whir_prover_error and 'g = verify_whir_error] obtain pow ts1 where
    grind: "v_grind T K pick (mu_pow_bits (whir p)) ts = (Ok (pow, ts1) :: (_, whir_prover_error) res)"
      "v_check_witness T K (mu_pow_bits (whir p)) pow ts = (Ok (True, ts1) :: (_, verify_whir_error) res)" "inv ts1" by blast
  from run_sample [OF grind(3), where 'e = whir_prover_error and 'g = verify_whir_error] obtain mu ts2 where
    mu: "v_sample_ext T K ts1 = (Ok (mu, ts2) :: (_, whir_prover_error) res)"
      "v_sample_ext T K ts1 = (Ok (mu, ts2) :: (_, verify_whir_error) res)" "inv ts2" by blast
  define mus where "mus = powers (sum_list ?widths) mu"
  have lmus: "length mus = sum_list ?widths" by (simp add: mus_def powers_def)
  define c0 where "c0 = batched_message X D p mats mus"
  have lc0: "length c0 = 2 ^ hs" unfolding c0_def by (rule batched_message_length [OF com])
  define w0 :: "('f, 'ef, 'd) whir_proof" where "w0 = \<lparr>mu_pow_witness = pow, whir_sumcheck_polys = [], codeword_commits = [], ood_values = [],
                  folding_pow_witnesses = [], query_phase_pow_witnesses = [],
                  initial_round_opened_rows = replicate (length mats) [], initial_round_merkle_proofs = replicate (length mats) [],
                  codeword_opened_values = [], codeword_merkle_proofs = [], final_poly = []\<rparr>"
  define s0 where "s0 = \<lparr>wp_f_evals = to_evals hs c0, wp_w_evals = ?W0, wp_m = hs, wp_log_rs_domain_size = L0, wp_rs_tree = None, wp_final_poly = None, wp_proof = w0\<rparr>"
  have s0: "round_inv X h p (length mats) c0 0 c0 ?W0 s0"
    using lc0 u bounds(3) by (simp add: round_inv_def Let_def s0_def w0_def ready_def)
  from run_rounds [OF mu(3) com lmus s0 [unfolded c0_def], of R, folded c0_def] obtain c W s ts3 where rounds: "inv ts3"
     "vfor (prove_whir_round T X E h pick p mats) (take R (enumerated (whir_rounds (whir p)))) s0 ts2 = Ok (s, ts3)"
     "round_inv X h p (length mats) c0 R c W s"
     "\<And>fin. agrees R (wp_proof s) fin \<Longrightarrow> final_poly fin = c \<Longrightarrow> agrees 0 (wp_proof s0) fin"
     "\<And>fin v0. agrees R (wp_proof s) fin \<Longrightarrow> final_poly fin = c \<Longrightarrow> claim_inv p 0 c0 ?W0 (wp_proof s0) fin v0 \<Longrightarrow> collected p 0 v0 \<Longrightarrow>
        \<exists>v. vfor (whir_round T X h p fin rts ?widths mus)
            (take R (enumerated (zip (query_phase_pow_witnesses fin) (whir_rounds (whir p))))) v0 ts2 = Ok (v, ts3) \<and>
          claim_inv p R c W (wp_proof s) fin v \<and> collected p R v \<and> weights_inv (fe_embed X) p R ?W0 W v"
    by auto
  define fin where "fin = (wp_proof s)\<lparr>final_poly := c\<rparr>"
  have s: "wp_final_poly s = Some c" "length c = 2 ^ (hs - k * R)" "length (query_phase_pow_witnesses fin) = R" "length (folding_pow_witnesses fin) = k * R"
    "length (codeword_opened_values fin) = R - 1" "length (codeword_merkle_proofs fin) = R - 1"
    using rounds(3) by (simp_all add: round_inv_def Let_def fin_def)
  have ag: "agrees R (wp_proof s) fin" using s(5,6) by (auto simp: agrees_def fin_def)
  have pow: "mu_pow_witness fin = pow" using rounds(4) [OF ag] by (simp add: fin_def agrees_def s0_def w0_def)
  have "take R (enumerated (whir_rounds (whir p))) = enumerated (whir_rounds (whir p))" by (simp add: num_whir_rounds_def)
  note run = rounds(2) [unfolded this]
  obtain M0 t0 where first: "mats ! 0 = (M0, t0)" by force
  have height: "cm_height M = 2 ^ hs" if "(M, t) \<in> set mats" for M t
    using that com by (auto simp: list_all2_conv_all_nth in_set_conv_nth committed_def)
  have h0: "cm_height M0 = 2 ^ hs" using height [of M0 t0] first mats by (metis length_greater_0_conv nth_mem)
  have all: "\<forall>(mat, _) \<in> set mats. cm_height mat = 2 ^ hs" using height by auto
  have arith: "index mats 0 = (Ok (M0, t0) :: (_, whir_prover_error) res)" "log2_strict (2 ^ hs) = (Ok hs :: (_, whir_prover_error) res)"
    "shl64 1 hs = (Ok (2 ^ hs) :: (_, whir_prover_error) res)" "sub64 R 1 = (Ok (R - 1) :: (_, whir_prover_error) res)"
    using mats first bounds(2,3) by (simp_all add: sub64_def index_in_range)
  have sums: "sum_list (map (\<lambda>(mat, _). cm_width mat) mats) = sum_list ?widths" by (rule refl)
  have evals: "initial_f_evals (fe_embed X) (map (to_evals hs) (all_messages D p mats)) mus (2 ^ hs) = (Ok (to_evals hs c0) :: (_, whir_prover_error) res)"
    unfolding c0_def by (rule initial_evals [OF com])
  have prover: "prove_whir_opening T X D E h pick p mats u ts = Ok (fin, ts3)"
    unfolding prove_whir_opening_def Let_def
    by (simp only: vbind_def grind(1) mu(1) rbind.simps prod.case vlift_run arith h0 vassert_run [OF all] initial_mles_Ok [OF com] mus_def [symmetric] evals
          w0_def [symmetric] s0_def [symmetric] run s(1) option.case vret_run fin_def)
  let ?v0 = "\<lparr>ws_claim = batched_claim openings mus, ws_log_rs_domain_size = L0, ws_sumcheck_polys = whir_sumcheck_polys fin,
      ws_folding_pows = folding_pow_witnesses fin, ws_gammas = [], ws_zs = [], ws_z0s = [], ws_alphas = []\<rparr>"
  note openings = run_openings [OF com u op]
  have "claim_inv p 0 c0 ?W0 (wp_proof s0) fin ?v0" "collected p 0 ?v0"
    using mobius_decodes [of c0 u] lc0 u by (simp_all add: claim_inv_def collected_def s0_def w0_def openings(2) c0_def)
  from rounds(5) [OF ag _ this] obtain v where v: "vfor (whir_round T X h p fin rts ?widths mus)
            (take R (enumerated (zip (query_phase_pow_witnesses fin) (whir_rounds (whir p))))) ?v0 ts2 = Ok (v, ts3)"
          "claim_inv p R c W (wp_proof s) fin v" "collected p R v" "weights_inv (fe_embed X) p R ?W0 W v" by (auto simp: fin_def)
  have len: "length (zip (query_phase_pow_witnesses fin) (whir_rounds (whir p))) = R" using s(3) by (simp add: num_whir_rounds_def)
  have "take R (enumerated (zip (query_phase_pow_witnesses fin) (whir_rounds (whir p)))) = enumerated (zip (query_phase_pow_witnesses fin) (whir_rounds (whir p)))"
    unfolding len by (rule take_all) (simp add: len)
  note vrun = v(1) [unfolded this]
  have pre: "whir_preconditions p fin = (Ok () :: (_, verify_whir_error) res)"
    unfolding whir_preconditions_def bounds(7) rbind.simps
    using params s(3,4) by (simp add: sub64_def wf_params_def num_whir_sumcheck_rounds_def k_whir_def mult.commute)
  have conclusion: "whir_conclusion X p fin u v = Ok ()"
    by (rule run_conclusion [OF u s(2) _ _ _ v(2-4)]) (simp_all add: fin_def)
  have "verify_whir T X h p fin openings rts u ts = Ok ((), ts3)"
    unfolding verify_whir_def Let_def pow openings(1)
    by (simp only: vbind_def grind(2) mu(2) rbind.simps prod.case vlift_run vcheck_run [OF TrueI] pre mus_def [symmetric] vrun conclusion)
  with prover rounds(1) show ?thesis by blast
qed

text \<open>What \<open>stacked_commit\<close> returns is a commitment that the parties can open.\<close>

lemma stacked_commit_committed:
  fixes traces :: "'f col_matrix list"
  assumes traces: "\<forall>t \<in> set traces. wf_col_matrix t" "sorted_wrt (\<lambda>a b. cm_height b \<le> cm_height a) traces"
      "\<forall>t \<in> set traces. cm_height t \<le> 2 ^ hs" "traces \<noteq> []"
    and cells: "div_ceil (total_len (l_skip p) (all_columns (metas_of traces))) (2 ^ hs) * 2 ^ hs < 2 ^ 64"
  shows "\<exists>rt d. stacked_commit D h (l_skip p) (n_stack p) (log_blowup p) k traces = Ok (rt, d) \<and> pcs_commit d = Ok rt \<and>
     committed X D h p (pcs_matrix d, pcs_tree d) rt"
proof -
  have hs: "hs = l_skip p + n_stack p" by (simp add: log_stacked_height_def)
  have "l_skip p + n_stack p < 63" using sizes(5) by (simp add: log_stacked_height_def)
  from stacked_matrix_Ok [OF traces(1,2) traces(3) [unfolded hs] this traces(4) cells [unfolded hs]] obtain M L where
    M: "stacked_matrix (l_skip p) (n_stack p) traces = Ok (M, L)" "wf_col_matrix M" "cm_height M = 2 ^ (l_skip p + n_stack p)" by blast
  have size: "l_skip p + n_stack p + log_blowup p \<le> fe_adicity X" "l_skip p + n_stack p + log_blowup p < 64"
    using sizes(4,5) by (simp_all add: hs)
  from rs_code_matrix_Ok [OF D_transform M(2,3) size] obtain N where
    N: "rs_code_matrix D (l_skip p) (log_blowup p) M = Ok N" "wf_col_matrix N" "cm_height N = 2 ^ L0" by (auto simp: hs)
  from tree_opens_new [OF N(2,3) sizes(3), of h "\<lambda>x. [x]"] obtain t rt where
    t: "merkle_tree_new h (\<lambda>x. [x]) N (2 ^ k) = Ok t" "merkle_root t = Ok rt" by blast
  have "stacked_commit D h (l_skip p) (n_stack p) (log_blowup p) k traces = Ok (rt, \<lparr>pcs_layout = L, pcs_matrix = M, pcs_tree = t\<rparr>)"
    using M(1) N(1) t sizes(2) by (simp add: stacked_commit_def)
  moreover have "committed X D h p (M, t) rt" using M(2,3) N(1) t by (auto simp: committed_def hs)
  ultimately show ?thesis using t(2) by (auto simp: pcs_commit_def)
qed

lemma commit_and_open:
  fixes traces :: "'f col_matrix list"
  assumes inv: "inv ts" and traces: "\<forall>t \<in> set traces. wf_col_matrix t" "sorted_wrt (\<lambda>a b. cm_height b \<le> cm_height a) traces"
      "\<forall>t \<in> set traces. cm_height t \<le> 2 ^ hs" "traces \<noteq> []"
    and cells: "div_ceil (total_len (l_skip p) (all_columns (metas_of traces))) (2 ^ hs) * 2 ^ hs < 2 ^ 64" and u: "length u = hs"
  shows "\<exists>rt d vals w ts'. stacked_commit D h (l_skip p) (n_stack p) (log_blowup p) k traces = Ok (rt, d) \<and>
     list_all2 (\<lambda>m v. eval_mle_evals_at_point (map (fe_embed X) m) u = (Ok v :: (_, verify_whir_error) res)) (column_messages D p (pcs_matrix d)) vals \<and>
     prove_whir_opening T X D E h pick p [(pcs_matrix d, pcs_tree d)] u ts = Ok (w, ts') \<and>
     verify_whir T X h p w [vals] [rt] u ts = Ok ((), ts')"
proof -
  from stacked_commit_committed [OF traces cells] obtain rt d where
    d: "stacked_commit D h (l_skip p) (n_stack p) (log_blowup p) k traces = Ok (rt, d)" "committed X D h p (pcs_matrix d, pcs_tree d) rt" by blast
  define vals where "vals = map (\<lambda>m. mle_sum (map (fe_embed X) m) u) (column_messages D p (pcs_matrix d))"
  have com: "list_all2 (committed X D h p) [(pcs_matrix d, pcs_tree d)] [rt]" using d(2) by simp
  have "eval_mle_evals_at_point (map (fe_embed X) m) u = (Ok (mle_sum (map (fe_embed X) m) u) :: (_, verify_whir_error) res)"
    if "m \<in> set (column_messages D p (pcs_matrix d))" for m
    using message_length [OF com, of m] that u by (intro eval_mle_sum) (simp add: all_messages_def)
  then have vals: "list_all2 (\<lambda>m v. eval_mle_evals_at_point (map (fe_embed X) m) u = (Ok v :: (_, verify_whir_error) res)) (column_messages D p (pcs_matrix d)) vals"
    by (auto simp: vals_def list_all2_map2 list_all2_same)
  then have "list_all2 (\<lambda>(M, t) os. list_all2 (\<lambda>m v. eval_mle_evals_at_point (map (fe_embed X) m) u = (Ok v :: (_, verify_whir_error) res))
        (column_messages D p M) os) [(pcs_matrix d, pcs_tree d)] [vals]" by simp
  from whir_completeness [OF inv _ com u this] d(1) vals show ?thesis by blast
qed

end

section \<open>An instance\<close>

definition small_params :: system_params where
  "small_params = \<lparr>l_skip = 1, n_stack = 1, w_stack = 8, log_blowup = 1,
     whir = \<lparr>whir_k = 1, whir_rounds = [\<lparr>num_queries = 2\<rparr>, \<lparr>num_queries = 1\<rparr>], mu_pow_bits = 0, query_phase_pow_bits = 0,
       folding_pow_bits = 0, whir_proximity = UniqueDecoding\<rparr>,
     logup = \<lparr>max_interaction_count = 100, log_max_message_length = 3, logup_pow_bits = 0\<rparr>, max_constraint_degree = 1\<rparr>"

abbreviation f17_hasher :: "(f17, f17 list) merkle_hasher" where
  "f17_hasher \<equiv> \<lparr>hash_slice = (\<lambda>xs. xs), compress = (\<lambda>a b. a @ b)\<rparr>"

interpretation f17_parties: whir_parties "sponge_ops f17_sponge" "sponge_inv f17_sponge" "\<lambda>_. True" f17_tower
    "serial_dft (plain_fft f17_gen 4)" "serial_dft (plain_fft f17_gen 4)" f17_hasher hd small_params
proof (intro whir_parties.intro f17_env.verifier_env_axioms whir_parties_axioms.intro)
  show "subgroup_transform (fe_gen f17_tower) (fe_adicity f17_tower) (serial_dft (plain_fft f17_gen 4))"
    "subgroup_transform (\<lambda>l. fe_embed f17_tower (fe_gen f17_tower l)) (fe_adicity f17_tower) (serial_dft (plain_fft f17_gen 4))"
    using f17_serial.subgroup_transform_axioms by (simp_all add: f17_tower_def)
  show "fe_gen f17_tower (Suc l) ^ 2 = fe_gen f17_tower l" if "l < fe_adicity f17_tower" for l
  proof -
    have "4 - l = Suc (4 - Suc l)" using that by (simp add: f17_tower_def)
    then have "(2 :: nat) ^ (4 - l) = 2 ^ (4 - Suc l) * 2" by simp
    then show ?thesis by (simp only: f17_tower_def field_ext.simps f17_gen_def power_mult)
  qed
  show "wf_params small_params"
    by (simp add: wf_params_def small_params_def log_stacked_height_def k_whir_def num_whir_rounds_def num_whir_sumcheck_rounds_def)
  show "wf_protocol f17_tower small_params"
    using f17_nodes [of "Suc (Suc 0)"] by (simp add: wf_protocol_def small_params_def log_stacked_height_def f17_tower_def grindable_def k_whir_def)
  show "\<exists>w s'. grind (sponge_ops f17_sponge) (fe_ops f17_tower) hd 0 s bits = Some (w, s') \<and> sponge_inv f17_sponge s'"
    if "bits = mu_pow_bits (whir small_params) \<or> bits = folding_pow_bits (whir small_params) \<or> bits = query_phase_pow_bits (whir small_params)"
      and "sponge_inv f17_sponge s" for bits s
    using that by (auto simp: grind_def small_params_def f17_tower_def)
qed simp_all

section \<open>Properties\<close>

text \<open>C2. Completeness of the opening protocol: over Plonky3's transforms, from every state of the transcript, \<open>prove_whir_opening\<close> returns a
  proof for committed matrices, and \<open>verify_whir\<close>, started in the same state with the roots and the true values of
  the committed columns at the opening point, accepts it and ends in the prover's transcript state. This holds for every number of
  rounds, folding factor, query schedule and hash function; the grinding loop must find its witnesses.\<close>
theorem whir_complete:
  assumes "whir_parties T I wf_digest X D E h pick p" and "I ts" and "mats \<noteq> []" and "list_all2 (committed X D h p) mats roots"
    and "length u = log_stacked_height p"
    and "list_all2 (\<lambda>(M, t) vals. list_all2 (\<lambda>m v. eval_mle_evals_at_point (map (fe_embed X) m) u = (Ok v :: (_, verify_whir_error) res))
        (column_messages D p M) vals) mats openings"
  shows "\<exists>w ts'. prove_whir_opening T X D E h pick p mats u ts = Ok (w, ts') \<and> verify_whir T X h p w openings roots u ts = Ok ((), ts')"
  using whir_parties.whir_completeness [OF assms] by blast

lemma f17_committed:
  "\<exists>t rt. committed f17_tower (serial_dft (plain_fft f17_gen 4)) f17_hasher small_params (\<lparr>cm_values = [3, 1, 4, 1], cm_width = 1, cm_height = 4\<rparr>, t) rt"
proof -
  let ?M = "\<lparr>cm_values = [3, 1, 4, 1], cm_width = 1, cm_height = 4\<rparr> :: f17 col_matrix" and ?D = "serial_dft (plain_fft f17_gen 4)"
  have "is_pow2 (2 ^ 2)" by (rule is_pow2_power)
  then have M: "wf_col_matrix ?M" "cm_height ?M = 2 ^ (1 + 1)" by (simp_all add: wf_col_matrix_def)
  from f17_tower.rs_code_matrix_Ok [OF f17_parties.D_transform M, of 1] obtain R where R: "rs_code_matrix ?D 1 1 ?M = Ok R" "wf_col_matrix R" "cm_height R = 2 ^ 3"
    by (auto simp: f17_tower_def numeral_3_eq_3)
  from tree_opens_new [OF R(2,3), of 1 f17_hasher "\<lambda>x. [x]"] obtain t rt where
    "merkle_tree_new f17_hasher (\<lambda>x. [x]) R (2 ^ 1) = Ok t" "merkle_root t = Ok rt" by auto
  with R(1) have "committed f17_tower ?D f17_hasher small_params (?M, t) rt"
    using M by (simp add: committed_def small_params_def log_stacked_height_def k_whir_def)
  then show ?thesis by blast
qed

theorem whir_complete_witness:
  "\<exists>t rt v w ts'. prove_whir_opening (sponge_ops f17_sponge) f17_tower (serial_dft (plain_fft f17_gen 4)) (serial_dft (plain_fft f17_gen 4)) f17_hasher hd small_params
       [(\<lparr>cm_values = [3, 1, 4, 1], cm_width = 1, cm_height = 4\<rparr>, t)] [5, 7] (sponge_from f17_sponge) = Ok (w, ts') \<and>
     verify_whir (sponge_ops f17_sponge) f17_tower f17_hasher small_params w [[v]] [rt] [5, 7] (sponge_from f17_sponge) = Ok ((), ts')"
proof -
  let ?M = "\<lparr>cm_values = [3, 1, 4, 1], cm_width = 1, cm_height = 4\<rparr> :: f17 col_matrix"
  let ?D = "serial_dft (plain_fft f17_gen 4)"
  from f17_committed obtain t rt where com: "committed f17_tower ?D f17_hasher small_params (?M, t) rt" by blast
  define m where "m = rs_message ?D 1 (columns_of ?M ! 0)"
  have cols: "column_messages ?D small_params \<lparr>cm_values = [3, 1, 4, 1], cm_width = Suc 0, cm_height = 4\<rparr> = [m]" by (simp add: column_messages_def m_def columns_of_def small_params_def)
  have "length (columns_of ?M ! 0) = 2 ^ (1 + 1)" by (simp add: columns_of_def)
  from f17_tower.rs_message_Ok(2) [OF f17_parties.D_transform _ this] have "length m = 2 ^ length [5, 7 :: f17]"
    by (simp add: m_def f17_tower_def)
  then have val: "eval_mle_evals_at_point (map (fe_embed f17_tower) m) [5, 7] = (Ok (mle_sum (map (fe_embed f17_tower) m) [5, 7]) :: (_, verify_whir_error) res)"
    by (intro eval_mle_sum) simp
  have "list_all2 (\<lambda>(M, t) vals. list_all2 (\<lambda>m v. eval_mle_evals_at_point (map (fe_embed f17_tower) m) [5, 7] = (Ok v :: (_, verify_whir_error) res))
        (column_messages ?D small_params M) vals) [(?M, t)] [[mle_sum (map (fe_embed f17_tower) m) [5, 7]]]"
    by (simp add: cols val)
  moreover have "length [5, 7 :: f17] = log_stacked_height small_params" by (simp add: small_params_def log_stacked_height_def)
  ultimately show ?thesis
    using whir_complete [OF f17_parties.whir_parties_axioms sponge_inv_from [OF wf_f17_sponge], of "[(?M, t)]" "[rt]" "[5, 7]"] com by blast
qed

text \<open>C4. Committing and opening compose: for any traces sorted by height that fit the stacked height, \<open>stacked_commit\<close> succeeds, and opening what it
  returns at any point produces a proof that the verifier accepts against the root it returned.\<close>
theorem stacked_commit_opens:
  assumes "whir_parties T I wf_digest X D E h pick p" and "I ts"
    and "\<forall>t \<in> set traces. wf_col_matrix t" and "sorted_wrt (\<lambda>a b. cm_height b \<le> cm_height a) traces"
    and "\<forall>t \<in> set traces. cm_height t \<le> 2 ^ log_stacked_height p" and "traces \<noteq> []"
    and "div_ceil (total_len (l_skip p) (all_columns (metas_of traces))) (2 ^ log_stacked_height p) * 2 ^ log_stacked_height p < 2 ^ 64"
    and "length u = log_stacked_height p"
  shows "\<exists>rt d vals w ts'. stacked_commit D h (l_skip p) (n_stack p) (log_blowup p) (k_whir p) traces = Ok (rt, d) \<and>
     list_all2 (\<lambda>m v. eval_mle_evals_at_point (map (fe_embed X) m) u = (Ok v :: (_, verify_whir_error) res)) (column_messages D p (pcs_matrix d)) vals \<and>
     prove_whir_opening T X D E h pick p [(pcs_matrix d, pcs_tree d)] u ts = Ok (w, ts') \<and>
     verify_whir T X h p w [vals] [rt] u ts = Ok ((), ts')"
  by (rule whir_parties.commit_and_open [OF assms])

theorem stacked_commit_opens_witness:
  "\<exists>rt d vals w ts'. stacked_commit (serial_dft (plain_fft f17_gen 4)) f17_hasher 1 1 1 1
       [\<lparr>cm_values = [3, 1, 4, 1], cm_width = 1, cm_height = 4\<rparr>, \<lparr>cm_values = [5, 9], cm_width = 1, cm_height = 2\<rparr>] = Ok (rt, d) \<and>
     list_all2 (\<lambda>m v. eval_mle_evals_at_point (map (fe_embed f17_tower) m) [5, 7] = (Ok v :: (_, verify_whir_error) res))
       (column_messages (serial_dft (plain_fft f17_gen 4)) small_params (pcs_matrix d)) vals \<and>
     prove_whir_opening (sponge_ops f17_sponge) f17_tower (serial_dft (plain_fft f17_gen 4)) (serial_dft (plain_fft f17_gen 4)) f17_hasher hd small_params
       [(pcs_matrix d, pcs_tree d)] [5, 7] (sponge_from f17_sponge) = Ok (w, ts') \<and>
     verify_whir (sponge_ops f17_sponge) f17_tower f17_hasher small_params w [vals] [rt] [5, 7] (sponge_from f17_sponge) = Ok ((), ts')"
proof -
  let ?t = "[\<lparr>cm_values = [3, 1, 4, 1 :: f17], cm_width = 1, cm_height = 4\<rparr>, \<lparr>cm_values = [5, 9], cm_width = 1, cm_height = 2\<rparr>]"
  have p: "is_pow2 4" "is_pow2 2" using is_pow2_power [of 2] is_pow2_power [of 1] by simp_all
  have l: "log2_floor 4 = 2" "log2_floor 2 = 1" using log2_floor_power [of 2] log2_floor_power [of 1] by simp_all
  have tot: "total_len 1 (all_columns (metas_of ?t)) = 6"
    by (simp add: metas_of_def l all_columns_from total_len_mat_columns lifted_len_def)
  have c: "l_skip small_params = 1" "n_stack small_params = 1" "log_blowup small_params = 1" "k_whir small_params = 1" "log_stacked_height small_params = 2"
    by (simp_all add: small_params_def k_whir_def log_stacked_height_def)
  have "\<forall>t \<in> set ?t. wf_col_matrix t" using p by (simp add: wf_col_matrix_def)
  from stacked_commit_opens [OF f17_parties.whir_parties_axioms sponge_inv_from [OF wf_f17_sponge] this, of "[5, 7]", unfolded c tot]
  show ?thesis by (simp add: div_ceil_def)
qed

end
