(* ===== verification/SumcheckProver.thy ===== *)
theory SumcheckProver
  imports PairFolding GkrVerifier
begin

text \<open>
  The prover's sumcheck (\<open>prover/sumcheck.rs\<close>): the round polynomial of an expression in
  multilinear columns, given by its values at \<open>1, \<dots>, d\<close>, the folding of the columns at the challenge and the plain
  sumcheck of a table. The parallel loops are maps; their reduction adds the terms in order. The expression is the
  closure \<open>w\<close>, and an array of \<open>WD\<close> results is a list of \<open>wd\<close> entries.
\<close>

section \<open>The code\<close>

text \<open>\<open>chunks_exact(n)\<close>, which panics for \<open>n = 0\<close> and leaves out an incomplete last chunk.\<close>

definition chunks_exact_list :: "nat \<Rightarrow> 'a list \<Rightarrow> ('a list list, 'e) res" where
  "chunks_exact_list n xs =
     rbind (assert_that (n \<noteq> 0)) (\<lambda>_. Ok (map (\<lambda>i. take n (drop (i * n) xs)) [0..<length xs div n]))"

text \<open>Linear interpolation of every column at \<open>x\<close>, for the pair of rows \<open>y\<close>.\<close>

definition rows_at :: "'f::field \<Rightarrow> nat \<Rightarrow> 'f col_matrix list \<Rightarrow> ('f list list, 'e) res" where
  "rows_at x y = rmap (\<lambda>mat.
     rbind (chunks_exact_list (cm_height mat) (cm_values mat)) (rmap (\<lambda>col.
       rbind (index col (2 * y)) (\<lambda>t_0.
       rbind (index col (2 * y + 1)) (\<lambda>t_1.
       Ok (t_0 + (t_1 - t_0) * x))))))"

definition hypercube_sum :: "'f::field list list \<Rightarrow> 'f list list \<Rightarrow> 'f list list" where
  "hypercube_sum acc x = map2 (\<lambda>acc x. map2 (+) acc x) acc x"

definition sumcheck_round_poly_evals ::
  "nat \<Rightarrow> nat \<Rightarrow> nat \<Rightarrow> 'f::field col_matrix list \<Rightarrow> ('f \<Rightarrow> nat \<Rightarrow> 'f list list \<Rightarrow> ('f list, 'e) res) \<Rightarrow> ('f list list, 'e) res" where
  "sumcheck_round_poly_evals wd n d mats w =
     rbind (rall (\<lambda>mat. rbind (shl64 1 n) (\<lambda>size. assert_that (cm_height mat = size))) mats) (\<lambda>_.
     if n = 0 then
       rbind (w 1 0 (map cm_values mats)) (\<lambda>vals. Ok (map (replicate d) vals))
     else
       rbind (shl64 1 (n - 1)) (\<lambda>rows.
       rbind (rmap (\<lambda>y. rmap (\<lambda>x. rbind (rows_at (of_nat x) y mats) (\<lambda>row. w (of_nat x) y row)) [1..<Suc d]) [0..<rows]) (\<lambda>evals.
       let evals = fold (\<lambda>x acc. hypercube_sum acc x) evals (replicate d (replicate wd 0)) in
       rmap (\<lambda>i. rmap (\<lambda>eval. index eval i) evals) [0..<wd])))"

definition fold_mle_evals :: "'ef::field col_matrix \<Rightarrow> 'ef \<Rightarrow> ('ef col_matrix, 'e) res" where
  "fold_mle_evals mat r =
     (if cm_height mat \<le> 1 then Ok mat else
      rbind (chunks_exact_list (cm_height mat) (cm_values mat)) (\<lambda>cols.
      rbind (rmap (\<lambda>t. rbind (chunks_exact_list 2 t) (rmap (\<lambda>t_01.
          rbind (index t_01 0) (\<lambda>t_0.
          rbind (index t_01 1) (\<lambda>t_1.
          Ok (t_0 + (t_1 - t_0) * r)))))) cols) (\<lambda>folded.
      col_matrix_new (concat folded) (cm_width mat))))"

definition batch_fold_mle_evals :: "'ef::field col_matrix list \<Rightarrow> 'ef \<Rightarrow> ('ef col_matrix list, 'e) res" where
  "batch_fold_mle_evals mats r = rmap (\<lambda>mat. fold_mle_evals mat r) mats"

text \<open>In place every column keeps its height, and its first half holds the folded column.\<close>

definition fold_mle_evals_inplace :: "'ef::field col_matrix \<Rightarrow> 'ef \<Rightarrow> ('ef col_matrix, 'e) res" where
  "fold_mle_evals_inplace mat r =
     (if cm_height mat \<le> 1 then Ok mat else
      rbind (chunks_exact_list (cm_height mat) (cm_values mat)) (\<lambda>cols.
      rbind (rmap (\<lambda>t. rfold (\<lambda>y t.
          rbind (index t (2 * y)) (\<lambda>t_0.
          rbind (index t (2 * y + 1)) (\<lambda>t_1.
          rbind (index t y) (\<lambda>_.
          Ok (t[y := t_0 + (t_1 - t_0) * r]))))) [0..<cm_height mat div 2] t) cols) (\<lambda>folded.
      Ok (mat\<lparr>cm_values := concat folded @ drop (length (concat folded)) (cm_values mat)\<rparr>))))"

subsection \<open>The plain sumcheck\<close>

datatype sumcheck_error =
    MultilinearRoundPolyLen nat
  | MultilinearFinalEvalLen nat
  | PrismalinearDimTooSmall nat nat
  | PrismalinearRoundPolyLen nat
  | PrismalinearRLen nat nat
  | PrismalinearFinalEvalLen nat

record 'ef sumcheck_cube_proof =
  cube_sum_claim :: 'ef
  cube_round_polys :: "'ef list list"
  cube_eval_claim :: 'ef

definition prove_sumcheck_round ::
  "('ts, 'f, 'd) transcript_ops \<Rightarrow> ('f, 'ef::field) field_ops \<Rightarrow> nat \<Rightarrow> nat \<Rightarrow> 'ef list list \<times> 'ef list \<times> 'ef col_matrix
     \<Rightarrow> ('ef list list \<times> 'ef list \<times> 'ef col_matrix, 'ts, sumcheck_error) vm" where
  "prove_sumcheck_round T K n rnd = (\<lambda>(round_polys_eval, r, current_evals).
     vbind (vlift (sumcheck_round_poly_evals 1 (n - rnd) 1 [current_evals]
       (\<lambda>_ _ evals. rbind (index evals 0) (\<lambda>row. rbind (index row 0) (\<lambda>v. Ok [v]))))) (\<lambda>polys.
     vbind (vlift (index polys 0)) (\<lambda>s.
     vbind (vcheck (length s = 1) (MultilinearRoundPolyLen (length s))) (\<lambda>_.
     vbind (vlift (index s 0)) (\<lambda>s_0.
     vbind (v_observe_ext T K s_0) (\<lambda>_.
     vbind (v_sample_ext T K) (\<lambda>r_round.
     vbind (vlift (fold_mle_evals current_evals r_round)) (\<lambda>current_evals.
     vret (round_polys_eval @ [s], r @ [r_round], current_evals)))))))))"

definition sumcheck_multilinear ::
  "('ts, 'f, 'd) transcript_ops \<Rightarrow> ('f, 'ef::field) field_ops \<Rightarrow> ('b::field \<Rightarrow> 'ef) \<Rightarrow> 'b list
     \<Rightarrow> ('ef sumcheck_cube_proof \<times> 'ef list, 'ts, sumcheck_error) vm" where
  "sumcheck_multilinear T K emb evals =
     vbind (vlift (log2_strict (length evals))) (\<lambda>n.
     vbind (vlift (col_matrix_new (map emb evals) 1)) (\<lambda>current_evals.
     let sum_claim = emb (fold (\<lambda>x acc. acc + x) evals 0) in
     vbind (v_observe_ext T K sum_claim) (\<lambda>_.
     vbind (vfor (prove_sumcheck_round T K n) [0..<n] ([], [], current_evals)) (\<lambda>(round_polys_eval, r, current_evals).
     vbind (vcheck (length (cm_values current_evals) = 1) (MultilinearFinalEvalLen (length (cm_values current_evals)))) (\<lambda>_.
     vbind (vlift (index (cm_values current_evals) 0)) (\<lambda>eval_claim.
     vbind (v_observe_ext T K eval_claim) (\<lambda>_.
     vret (\<lparr>cube_sum_claim = sum_claim, cube_round_polys = round_polys_eval, cube_eval_claim = eval_claim\<rparr>, r))))))))"

section \<open>Matrices by their columns\<close>

definition mat_of :: "nat \<Rightarrow> 'f list list \<Rightarrow> 'f col_matrix" where
  "mat_of h cs = \<lparr>cm_values = concat cs, cm_width = length cs, cm_height = h\<rparr>"

lemma mat_of_simps [simp]: "cm_values (mat_of h cs) = concat cs" "cm_width (mat_of h cs) = length cs" "cm_height (mat_of h cs) = h"
  by (simp_all add: mat_of_def)

lemma chunks_exact_columns:
  assumes "0 < h" and "\<forall>c \<in> set cs. length c = h"
  shows "chunks_exact_list h (concat cs) = (Ok cs :: (_, 'e) res)"
proof -
  have "length (concat cs) = length cs * h" using length_concat_blocks [OF assms(2)] by simp
  moreover have "map (\<lambda>i. take h (drop (i * h) (concat cs))) [0..<length cs] = cs"
    using assms(2)
  proof (induction cs)
    case (Cons c cs)
    then show ?case by (simp add: upt_conv_Cons map_Suc_upt [symmetric] comp_def add.commute del: upt_Suc)
  qed simp
  ultimately show ?thesis using assms(1) by (simp add: chunks_exact_list_def)
qed

lemma col_matrix_new_mat_of:
  "cs \<noteq> [] \<Longrightarrow> is_pow2 h \<Longrightarrow> \<forall>c \<in> set cs. length c = h \<Longrightarrow> col_matrix_new (concat cs) (length cs) = (Ok (mat_of h cs) :: (_, 'e) res)"
  using col_matrix_new_total [of "length cs" h "concat cs"] length_concat_blocks [of cs h] by (simp add: mat_of_def)

lemma chunk_pairs:
  assumes "length t = 2 * h"
  shows "rbind (chunks_exact_list 2 t) (rmap (\<lambda>t_01. rbind (index t_01 0) (\<lambda>t_0. rbind (index t_01 1) (\<lambda>t_1.
      Ok (t_0 + (t_1 - t_0) * r))))) = (Ok (fold_pairs r t) :: (_, 'e) res)"
proof -
  let ?c = "\<lambda>i. take 2 (drop (i * 2) t)"
  have "rmap (\<lambda>t_01. rbind (index t_01 0) (\<lambda>t_0. rbind (index t_01 1) (\<lambda>t_1. Ok (t_0 + (t_1 - t_0) * r)))) (map ?c [0..<h])
      = (Ok (map (\<lambda>t_01. t_01 ! 0 + (t_01 ! 1 - t_01 ! 0) * r) (map ?c [0..<h])) :: (_, 'e) res)"
    by (rule rmap_total) (use assms in auto)
  moreover have "map (\<lambda>t_01. t_01 ! 0 + (t_01 ! 1 - t_01 ! 0) * r) (map ?c [0..<h]) = fold_pairs r t"
    by (rule nth_equalityI) (use assms in \<open>simp_all add: fold_pairs_nth mult.commute\<close>)
  ultimately show ?thesis using assms by (simp add: chunks_exact_list_def)
qed

lemma fold_mle_evals_Ok:
  assumes "cs \<noteq> []" and "is_pow2 h" and "\<forall>c \<in> set cs. length c = 2 * h"
  shows "fold_mle_evals (mat_of (2 * h) cs) r = (Ok (mat_of h (map (fold_pairs r) cs)) :: (_, 'e) res)"
proof -
  have h: "0 < h" using assms(2) by (auto simp: is_pow2_iff)
  have "rmap (\<lambda>t. rbind (chunks_exact_list 2 t) (rmap (\<lambda>t_01. rbind (index t_01 0) (\<lambda>t_0. rbind (index t_01 1) (\<lambda>t_1.
      Ok (t_0 + (t_1 - t_0) * r)))))) cs = (Ok (map (fold_pairs r) cs) :: (_, 'e) res)"
    by (rule rmap_total) (rule chunk_pairs [of _ h], use assms(3) in blast)
  with h assms chunks_exact_columns [of "2 * h" cs, where 'e = 'e] col_matrix_new_mat_of [of "map (fold_pairs r) cs" h, where 'e = 'e]
  show ?thesis by (simp add: fold_mle_evals_def)
qed

lemma fold_mle_evals_inplace_Ok:
  assumes "1 < 2 * h" and "\<forall>c \<in> set cs. length c = 2 * h"
  shows "fold_mle_evals_inplace (mat_of (2 * h) cs) r
     = (Ok (mat_of (2 * h) (map (\<lambda>c. fold_pairs r c @ drop h c) cs)) :: (_, 'e) res)"
proof -
  let ?step = "\<lambda>y t. rbind (index t (2 * y)) (\<lambda>t_0. rbind (index t (2 * y + 1)) (\<lambda>t_1. rbind (index t y) (\<lambda>_.
        Ok (t[y := t_0 + (t_1 - t_0) * r]))))"
  let ?new = "map (\<lambda>c. fold_pairs r c @ drop h c) cs"
  have h: "0 < h" using assms(1) by simp
  have "rfold ?step [0..<h] c = (Ok (fold_pairs r c @ drop h c) :: (_, 'e) res)" if "c \<in> set cs" for c
  proof -
    have flip: "t_0 + (t_1 - t_0) * r = t_0 + r * (t_1 - t_0)" for t_0 t_1 by (simp only: mult.commute)
    have "h \<le> length c div 2" "length (fold_pairs r c) = h" using assms(2) that by auto
    with fold_loop [of h c r, where 'e = 'e] show ?thesis unfolding flip by simp
  qed
  then have "rmap (rfold ?step [0..<h]) cs = (Ok ?new :: (_, 'e) res)" by (rule rmap_total)
  moreover have "\<forall>c \<in> set ?new. length c = 2 * h" using assms(2) by auto
  then have "length (concat ?new) = length (concat cs)"
    using length_concat_blocks [OF assms(2)] length_concat_blocks [of ?new "2 * h"] by (simp only: length_map)
  then have "concat ?new @ drop (length (concat ?new)) (concat cs) = concat ?new" by simp
  moreover have "chunks_exact_list (2 * h) (concat cs) = (Ok cs :: (_, 'e) res)" using h assms(2) by (simp add: chunks_exact_columns)
  moreover have "\<not> 2 * h \<le> 1" "2 * h div 2 = h" using assms(1) by simp_all
  ultimately have "fold_mle_evals_inplace (mat_of (2 * h) cs) r = (Ok (mat_of (2 * h) cs\<lparr>cm_values := concat ?new\<rparr>) :: (_, 'e) res)"
    by (simp only: fold_mle_evals_inplace_def mat_of_simps if_False rbind.simps)
  then show ?thesis by (simp add: mat_of_def)
qed

section \<open>The round polynomial\<close>

lemma rmap_map: "rmap f (map g xs) = rmap (\<lambda>x. f (g x)) xs"
  by (induction xs) simp_all

text \<open>The sum over \<open>n\<close> rows of an expression in the entries of several groups of columns.\<close>

definition rows_sum :: "('f list list \<Rightarrow> 'f::field) \<Rightarrow> nat \<Rightarrow> 'f list list list \<Rightarrow> 'f" where
  "rows_sum W n css = (\<Sum>y < n. W (map (map (\<lambda>c. c ! y)) css))"

abbreviation fold_columns :: "'f::field \<Rightarrow> 'f list list list \<Rightarrow> 'f list list list" where
  "fold_columns r css \<equiv> map (map (fold_pairs r)) css"

lemma rows_sum_halves:
  assumes "\<forall>cs \<in> set css. \<forall>c \<in> set cs. length c = 2 * n"
  shows "rows_sum W (2 * n) css = rows_sum W n (fold_columns 0 css) + rows_sum W n (fold_columns 1 css)"
proof -
  have "map (map (\<lambda>c. c ! y)) (fold_columns 0 css) = map (map (\<lambda>c. c ! (2 * y))) css"
    "map (map (\<lambda>c. c ! y)) (fold_columns 1 css) = map (map (\<lambda>c. c ! (2 * y + 1))) css" if "y < n" for y
    using assms that by (simp_all add: fold_pairs_nth)
  then have "rows_sum W n (fold_columns 0 css) + rows_sum W n (fold_columns 1 css)
      = (\<Sum>y < n. W (map (map (\<lambda>c. c ! (2 * y))) css) + W (map (map (\<lambda>c. c ! (2 * y + 1))) css))"
    by (simp add: rows_sum_def sum.distrib del: map_map)
  also have "\<dots> = rows_sum W (2 * n) css"
    unfolding rows_sum_def by (induction n) simp_all
  finally show ?thesis by simp
qed

lemma rows_at_Ok:
  assumes "0 < h" and "\<forall>cs \<in> set css. \<forall>c \<in> set cs. length c = 2 * h" and "y < h"
  shows "rows_at x y (map (mat_of (2 * h)) css) = (Ok (map (map (\<lambda>c. c ! y)) (fold_columns x css)) :: (_, 'e) res)"
proof -
  have col: "rmap (\<lambda>col. rbind (index col (2 * y)) (\<lambda>t_0. rbind (index col (2 * y + 1)) (\<lambda>t_1. Ok (t_0 + (t_1 - t_0) * x)))) cs
      = (Ok (map (\<lambda>c. fold_pairs x c ! y) cs) :: (_, 'e) res)" if "cs \<in> set css" for cs
  proof (rule rmap_total)
    fix c assume "c \<in> set cs"
    then have "length c = 2 * h" using assms(2) that by blast
    then show "rbind (index c (2 * y)) (\<lambda>t_0. rbind (index c (2 * y + 1)) (\<lambda>t_1. Ok (t_0 + (t_1 - t_0) * x))) = (Ok (fold_pairs x c ! y) :: (_, 'e) res)"
      using assms(3) by (simp add: fold_pairs_nth mult.commute)
  qed
  have "rows_at x y (map (mat_of (2 * h)) css)
      = rmap (\<lambda>cs. rbind (chunks_exact_list (2 * h) (concat cs)) (rmap (\<lambda>col. rbind (index col (2 * y)) (\<lambda>t_0. rbind (index col (2 * y + 1)) (\<lambda>t_1.
          Ok (t_0 + (t_1 - t_0) * x)))))) css"
    by (simp add: rows_at_def rmap_map)
  also have "\<dots> = (Ok (map (\<lambda>cs. map (\<lambda>c. fold_pairs x c ! y) cs) css) :: (_, 'e) res)"
    by (rule rmap_total) (use assms col in \<open>simp add: chunks_exact_columns\<close>)
  finally show ?thesis by (simp add: comp_def)
qed

lemma sum_of_rows:
  "fold (\<lambda>x acc. hypercube_sum acc x) (map (\<lambda>y. map (\<lambda>x. [v x y]) xs) [0..<n]) (replicate (length xs) [0])
     = map (\<lambda>x. [\<Sum>y < n. v x y]) xs"
proof (induction n)
  case 0
  then show ?case by (simp add: map_replicate_const)
next
  case (Suc n)
  then show ?case by (simp add: hypercube_sum_def map2_map_map add.commute)
qed

lemma round_poly_evals_Ok:
  fixes w :: "'f::field \<Rightarrow> nat \<Rightarrow> 'f list list \<Rightarrow> ('f list, 'e) res"
  assumes len: "\<forall>cs \<in> set css. \<forall>c \<in> set cs. length c = 2 * 2 ^ m" and m: "Suc m < 64"
    and w: "\<And>x y. y < 2 ^ m \<Longrightarrow> w x y (map (map (\<lambda>c. c ! y)) (fold_columns x css)) = Ok [W (map (map (\<lambda>c. c ! y)) (fold_columns x css))]"
  shows "sumcheck_round_poly_evals 1 (Suc m) d (map (mat_of (2 * 2 ^ m)) css) w
     = Ok [map (\<lambda>x. rows_sum W (2 ^ m) (fold_columns (of_nat x) css)) [1..<Suc d]]"
proof -
  define v where "v x y = W (map (map (\<lambda>c. c ! y)) (fold_columns (of_nat x) css))" for x y :: nat
  have heights: "rall (\<lambda>mat. rbind (shl64 1 (Suc m)) (\<lambda>size. assert_that (cm_height mat = size))) (map (mat_of (2 * 2 ^ m)) css)
      = (Ok () :: (unit, 'e) res)"
    unfolding rall_Ok_iff using m shl64_one(2) [OF m] by (auto simp: assert_that_def)
  have row: "rmap (\<lambda>x. rbind (rows_at (of_nat x) y (map (mat_of (2 * 2 ^ m)) css)) (\<lambda>row. w (of_nat x) y row)) [1..<Suc d]
      = Ok (map (\<lambda>x. [v x y]) [1..<Suc d])" if "y < 2 ^ m" for y
    by (rule rmap_total) (simp only: rows_at_Ok [OF _ len that] rbind.simps w [OF that] v_def zero_less_power zero_less_numeral)
  have evals: "rmap (\<lambda>y. rmap (\<lambda>x. rbind (rows_at (of_nat x) y (map (mat_of (2 * 2 ^ m)) css)) (\<lambda>row. w (of_nat x) y row)) [1..<Suc d]) [0..<2 ^ m]
      = Ok (map (\<lambda>y. map (\<lambda>x. [v x y]) [1..<Suc d]) [0..<2 ^ m])"
    by (rule rmap_total) (rule row, simp)
  have "fold (\<lambda>x acc. hypercube_sum acc x) (map (\<lambda>y. map (\<lambda>x. [v x y]) [1..<Suc d]) [0..<2 ^ m]) (replicate d (replicate 1 0))
      = map (\<lambda>x. [\<Sum>y < 2 ^ m. v x y]) [1..<Suc d]"
    using sum_of_rows [of v "[1..<Suc d]" "2 ^ m"] by (simp del: upt_Suc)
  moreover have "rmap (\<lambda>eval. index eval 0) (map (\<lambda>x. [\<Sum>y < 2 ^ m. v x y]) [1..<Suc d]) = (Ok (map hd (map (\<lambda>x. [\<Sum>y < 2 ^ m. v x y]) [1..<Suc d])) :: (_, 'e) res)"
    by (rule rmap_total) auto
  ultimately show ?thesis
    unfolding sumcheck_round_poly_evals_def heights rbind.simps using m evals
    by (simp add: v_def rows_sum_def comp_def upt_rec [of 0 "Suc 0"] del: upt_Suc)
qed

section \<open>The plain sumcheck\<close>

lemma sum_list_pairs: "even (length c) \<Longrightarrow> sum_list c = sum_list (fold_pairs 0 c) + sum_list (fold_pairs 1 c)" for c :: "'a::field list"
  by (induction "0 :: 'a" c rule: fold_pairs.induct) simp_all

lemma sum_list_fold_pairs:
  "sum_list (fold_pairs a c) = sum_list (fold_pairs 0 c) + (sum_list (fold_pairs 1 c) - sum_list (fold_pairs 0 c)) * a" for c :: "'a::field list"
  by (induction a c rule: fold_pairs.induct) (simp_all add: algebra_simps)

lemma rows_sum_single: "length c = n \<Longrightarrow> rows_sum (\<lambda>row. row ! 0 ! 0) n [[c]] = sum_list c"
  by (simp add: rows_sum_def sum_list_sum_nth lessThan_atLeast0)

text \<open>The claim that a verifier keeps: it infers the value at 0 from the previous claim.\<close>

definition next_linear_claim :: "'a::field list \<times> 'a \<Rightarrow> 'a \<Rightarrow> 'a" where
  "next_linear_claim = (\<lambda>(s, r) claim. interpolate_linear_at_01 (claim - s ! 0, s ! 0) r)"

context transcript
begin

lemma run_prover_round:
  fixes c :: "'ef::field list"
  assumes inv: "inv ts" and c: "length c = 2 ^ Suc m" and m: "Suc m < 64" and n: "n - rnd = Suc m"
  shows "\<exists>s r ts'. inv ts' \<and>
     prove_sumcheck_round T K n rnd (polys, rs, mat_of (2 ^ Suc m) [c]) ts
       = Ok ((polys @ [s], rs @ [r], mat_of (2 ^ m) [fold_pairs r c]), ts') \<and>
     next_linear_claim (s, r) (sum_list c) = sum_list (fold_pairs r c)"
proof -
  let ?w = "(\<lambda>_ _ evals. rbind (index evals 0) (\<lambda>row. rbind (index row 0) (\<lambda>v. Ok [v])))
    :: 'ef \<Rightarrow> nat \<Rightarrow> 'ef list list \<Rightarrow> ('ef list, sumcheck_error) res"
  define s_0 where "s_0 = sum_list (fold_pairs 1 c)"
  have polys: "sumcheck_round_poly_evals 1 (Suc m) 1 [mat_of (2 ^ Suc m) [c]] ?w = Ok [[s_0]]"
    using round_poly_evals_Ok [of "[[c]]" m ?w "\<lambda>row. row ! 0 ! 0" 1] c m
    by (simp add: s_0_def rows_sum_single)
  from both_observe [OF inv, where 'e = sumcheck_error, of K s_0] obtain ts1 where
    ts1: "v_observe_ext T K s_0 ts = (Ok ((), ts1) :: (_, sumcheck_error) res)" "inv ts1" by blast
  from both_sample [OF ts1(2), where 'e = sumcheck_error, of K] obtain r ts2 where
    ts2: "v_sample_ext T K ts1 = (Ok (r, ts2) :: (_, sumcheck_error) res)" "inv ts2" by blast
  have folded: "fold_mle_evals (mat_of (2 ^ Suc m) [c]) r = (Ok (mat_of (2 ^ m) [fold_pairs r c]) :: (_, sumcheck_error) res)"
    using fold_mle_evals_Ok [of "[c]" "2 ^ m" r, where 'e = sumcheck_error] c by simp
  have "prove_sumcheck_round T K n rnd (polys, rs, mat_of (2 ^ Suc m) [c]) ts
      = Ok ((polys @ [[s_0]], rs @ [r], mat_of (2 ^ m) [fold_pairs r c]), ts2)"
    unfolding prove_sumcheck_round_def prod.case n polys
    by (simp only: vbind_def vlift_def vcheck_def ensure_that_def vret_def folded polys rbind.simps prod.case ts1 ts2) (simp add: ts1 ts2 folded del: power_Suc)
  moreover have "next_linear_claim ([s_0], r) (sum_list c) = sum_list (fold_pairs r c)"
    using sum_list_pairs [of c] c sum_list_fold_pairs [of r c] by (simp add: next_linear_claim_def interpolate_linear_at_01_def s_0_def algebra_simps)
  ultimately show ?thesis using ts2(2) by blast
qed

lemma run_sumcheck_rounds:
  fixes c :: "'ef::field list"
  assumes "inv ts" and "length c = 2 ^ m" and "m < 64" and "n = k + m"
  shows "\<exists>ss rs' ts'. inv ts' \<and> length ss = m \<and> length rs' = m \<and>
     vfor (prove_sumcheck_round T K n) [k..<k + m] (polys, rs, mat_of (2 ^ m) [c]) ts
       = Ok ((polys @ ss, rs @ rs', mat_of 1 [fold fold_pairs rs' c]), ts') \<and>
     fold next_linear_claim (zip ss rs') (sum_list c) = sum_list (fold fold_pairs rs' c)"
  using assms
proof (induction m arbitrary: k ts c polys rs)
  case 0
  then show ?case by (intro exI [of _ "[]"] exI [of _ ts]) (simp add: vret_def)
next
  case (Suc m)
  have "n - k = Suc m" using Suc.prems(4) by simp
  from run_prover_round [OF Suc.prems(1,2,3) this, of K polys rs] obtain s r ts1 where
    one: "inv ts1" "prove_sumcheck_round T K n k (polys, rs, mat_of (2 ^ Suc m) [c]) ts
       = Ok ((polys @ [s], rs @ [r], mat_of (2 ^ m) [fold_pairs r c]), ts1)"
     "next_linear_claim (s, r) (sum_list c) = sum_list (fold_pairs r c)" by blast
  have "length (fold_pairs r c) = 2 ^ m" "m < 64" "n = Suc k + m" using Suc.prems by simp_all
  from Suc.IH [OF one(1) this, of "polys @ [s]" "rs @ [r]"] obtain ss rs' ts' where
    rest: "inv ts'" "length ss = m" "length rs' = m"
     "vfor (prove_sumcheck_round T K n) [Suc k..<Suc k + m] (polys @ [s], rs @ [r], mat_of (2 ^ m) [fold_pairs r c]) ts1
       = Ok (((polys @ [s]) @ ss, (rs @ [r]) @ rs', mat_of 1 [fold fold_pairs rs' (fold_pairs r c)]), ts')"
     "fold next_linear_claim (zip ss rs') (sum_list (fold_pairs r c)) = sum_list (fold fold_pairs rs' (fold_pairs r c))" by blast
  have range: "[k..<k + Suc m] = k # [Suc k..<Suc k + m]" by (simp add: upt_conv_Cons)
  show ?case
    unfolding range by (rule exI [of _ "s # ss"], rule exI [of _ "r # rs'"], rule exI [of _ ts'])
      (use one rest in \<open>simp add: vbind_def\<close>)
qed

lemma run_sumcheck_multilinear:
  fixes K :: "('f, 'ef::field) field_ops" and emb :: "'b::field \<Rightarrow> 'ef"
  assumes inv: "inv ts" and len: "length evals = 2 ^ n" and n: "n < 64" and emb: "emb 0 = 0" "\<And>a b. emb (a + b) = emb a + emb b"
  shows "\<exists>pf r ts'. inv ts' \<and> sumcheck_multilinear T K emb evals ts = Ok ((pf, r), ts') \<and> length r = n \<and> length (cube_round_polys pf) = n \<and>
     cube_sum_claim pf = sum_list (map emb evals) \<and> mle_sum (map emb evals) r = cube_eval_claim pf \<and>
     fold next_linear_claim (zip (cube_round_polys pf) r) (cube_sum_claim pf) = cube_eval_claim pf"
proof -
  let ?c = "map emb evals"
  define S where "S = sum_list ?c"
  have "emb (fold (\<lambda>x acc. acc + x) xs a) = emb a + sum_list (map emb xs)" for xs a
    by (induction xs arbitrary: a) (simp_all add: emb add.assoc)
  then have S: "emb (fold (\<lambda>x acc. acc + x) evals 0) = S" by (simp add: S_def emb)
  have new: "col_matrix_new ?c 1 = (Ok (mat_of (2 ^ n) [?c]) :: (_, sumcheck_error) res)"
    using col_matrix_new_mat_of [of "[?c]" "2 ^ n", where 'e = sumcheck_error] len by simp
  from both_observe [OF inv, where 'e = sumcheck_error, of K S] obtain ts1 where
    ts1: "v_observe_ext T K S ts = (Ok ((), ts1) :: (_, sumcheck_error) res)" "inv ts1" by blast
  have c: "length ?c = 2 ^ n" by (simp add: len)
  have zero: "n = 0 + n" by simp
  from run_sumcheck_rounds [OF ts1(2) c n zero, of K "[]" "[]"] obtain ss rs ts2 where
    loop: "inv ts2" "length ss = n" "length rs = n"
     "vfor (prove_sumcheck_round T K n) [0..<n] ([], [], mat_of (2 ^ n) [?c]) ts1 = Ok ((ss, rs, mat_of 1 [fold fold_pairs rs ?c]), ts2)"
     "fold next_linear_claim (zip ss rs) (sum_list ?c) = sum_list (fold fold_pairs rs ?c)" by auto
  define v where "v = mle_sum ?c rs"
  have v: "fold fold_pairs rs ?c = [v]" using fold_pairs_point [of ?c rs] c loop(3) by (simp add: v_def)
  from both_observe [OF loop(1), where 'e = sumcheck_error, of K v] obtain ts3 where
    ts3: "v_observe_ext T K v ts2 = (Ok ((), ts3) :: (_, sumcheck_error) res)" "inv ts3" by blast
  have "sumcheck_multilinear T K emb evals ts
      = Ok ((\<lparr>cube_sum_claim = S, cube_round_polys = ss, cube_eval_claim = v\<rparr>, rs), ts3)"
    unfolding sumcheck_multilinear_def Let_def S len log2_strict_power
    by (simp only: vbind_def vlift_def rbind.simps prod.case new ts1 loop(4) v)
      (simp add: vcheck_def vlift_def ensure_that_def ts3 vret_def)
  with loop v ts3(2) show ?thesis unfolding S_def by (intro exI conjI) (assumption | simp add: v_def)+
qed

end

section \<open>Properties\<close>

text \<open>C24. The plain sumcheck of \<open>sumcheck_multilinear\<close>. For a table of \<open>2 ^ n\<close> values and any transcript state it returns; the
  claimed sum is the sum of the table, the claims that a verifier keeps, inferring every value at 0 from the previous claim,
  end in the final evaluation, and that evaluation is what \<open>eval_mle_evals_at_point\<close> computes at the
  sampled point.\<close>
theorem sumcheck_multilinear_correct:
  fixes K :: "('f, 'ef::field) field_ops" and emb :: "'b::field \<Rightarrow> 'ef"
  assumes "transcript T I wf_digest" and "I ts" and "length evals = 2 ^ n" and "n < 64"
    and "emb 0 = 0" and "\<And>a b. emb (a + b) = emb a + emb b"
  shows "\<exists>pf r ts'. sumcheck_multilinear T K emb evals ts = Ok ((pf, r), ts') \<and> length r = n \<and>
     cube_sum_claim pf = sum_list (map emb evals) \<and>
     eval_mle_evals_at_point (map emb evals) r = (Ok (cube_eval_claim pf) :: (_, 'e) res) \<and>
     length (cube_round_polys pf) = n \<and>
     fold next_linear_claim (zip (cube_round_polys pf) r) (cube_sum_claim pf) = cube_eval_claim pf"
proof -
  from transcript.run_sumcheck_multilinear [OF assms, of K] obtain pf r ts' where
    run: "sumcheck_multilinear T K emb evals ts = Ok ((pf, r), ts')" "length r = n" "length (cube_round_polys pf) = n"
      "cube_sum_claim pf = sum_list (map emb evals)" "mle_sum (map emb evals) r = cube_eval_claim pf"
      "fold next_linear_claim (zip (cube_round_polys pf) r) (cube_sum_claim pf) = cube_eval_claim pf" by blast
  then have "eval_mle_evals_at_point (map emb evals) r = (Ok (cube_eval_claim pf) :: (_, 'e) res)"
    using assms(3) by (simp add: eval_mle_sum)
  with run show ?thesis by blast
qed

theorem sumcheck_multilinear_correct_witness:
  "\<exists>pf r ts'. sumcheck_multilinear (sponge_ops f17_sponge) f17_ops (\<lambda>x. x) [1, 2, 3, 5 :: f17] (sponge_from f17_sponge) = Ok ((pf, r), ts') \<and>
     length r = 2 \<and> cube_sum_claim pf = 11 \<and> eval_mle_evals_at_point [1, 2, 3, 5] r = (Ok (cube_eval_claim pf) :: (_, unit) res) \<and>
     length (cube_round_polys pf) = 2 \<and>
     fold next_linear_claim (zip (cube_round_polys pf) r) (cube_sum_claim pf) = cube_eval_claim pf"
  using sumcheck_multilinear_correct [OF f17_duplex.transcript_axioms sponge_inv_from [OF wf_f17_sponge],
      of "[1, 2, 3, 5]" 2 "\<lambda>x. x" f17_ops, where 'e = unit]
  by simp

end
