(* ===== verification/GkrProver.thy ===== *)
theory GkrProver
  imports SumcheckProver PcsCommit
begin

text \<open>
  The prover of the fractional sumcheck (\<open>prover/logup_zerocheck/fractional_sumcheck_gkr.rs\<close>): a segment tree
  of fractions in projective coordinates and one batched sumcheck per layer. Run beside \<open>verify_gkr\<close> from the same
  transcript state, it convinces the verifier whenever the fractions add up to zero.
\<close>

section \<open>The code\<close>

text \<open>The error type of the whole module.\<close>

datatype logup_zerocheck_error =
    LogupStackedPcs stacked_pcs_error
  | NonZeroRootSum
  | PreprocessedIndexOutOfBounds nat nat
  | MainPartitionIndexOutOfBounds nat nat nat
  | PublicValueIndexOutOfBounds nat nat
  | ChallengeNotSupported
  | InteractionsLayoutMissing nat nat
  | EqNsEmpty nat
  | EqSharpNsEmpty nat
  | MatEvalsPopNone
  | ClaimLenNotOne nat
  | RLenMismatch nat nat

record 'ef frac =
  fr_p :: 'ef
  fr_q :: 'ef

record 'ef frac_sumcheck_proof =
  fractional_sum :: "'ef \<times> 'ef"
  frac_claims_per_layer :: "'ef gkr_layer_claims list"
  frac_sumcheck_polys :: "('ef \<times> 'ef \<times> 'ef) list list"

definition frac_add :: "'ef::field frac \<Rightarrow> 'ef frac \<Rightarrow> 'ef frac" where
  "frac_add a b = \<lparr>fr_p = fr_p a * fr_q b + fr_q a * fr_p b, fr_q = fr_q a * fr_q b\<rparr>"

text \<open>The segment tree: layer \<open>i\<close> starts at \<open>2 ^ i\<close>, index 0 is not used.\<close>

definition frac_tree :: "nat \<Rightarrow> 'ef::field frac list \<Rightarrow> ('ef frac list, 'e) res" where
  "frac_tree total_rounds evals =
     rbind (shl64 2 total_rounds) (\<lambda>size.
     rbind (shl64 1 total_rounds) (\<lambda>leaves.
     let tree_evals = replicate size \<lparr>fr_p = 0, fr_q = 0\<rparr> in
     rbind (assert_that (leaves \<le> size \<and> size - leaves = length evals)) (\<lambda>_.
     let tree_evals = take leaves tree_evals @ evals in
     rfold (\<lambda>node_idx tree_evals.
       rbind (index tree_evals (2 * node_idx)) (\<lambda>l.
       rbind (index tree_evals (2 * node_idx + 1)) (\<lambda>r.
       rbind (index tree_evals node_idx) (\<lambda>_.
       Ok (tree_evals[node_idx := frac_add l r]))))) (rev [1..<leaves]) tree_evals)))"

text \<open>The columns \<open>p_j0, q_j0, p_j1, q_j1\<close> of a layer.\<close>

definition layer_columns :: "'ef::field frac list \<Rightarrow> nat \<Rightarrow> ('ef col_matrix, 'e) res" where
  "layer_columns tree_evals eval_size =
     rbind (slice tree_evals (2 * eval_size) (4 * eval_size)) (\<lambda>segment.
     rbind (rmap (\<lambda>x.
       rbind (index segment (2 * x)) (\<lambda>l.
       rbind (index segment (2 * x + 1)) (\<lambda>r.
       Ok (l, r)))) [0..<eval_size]) (\<lambda>pairs.
     col_matrix_new (map (\<lambda>(l, r). fr_p l) pairs @ map (\<lambda>(l, r). fr_q l) pairs @
                     map (\<lambda>(l, r). fr_p r) pairs @ map (\<lambda>(l, r). fr_q r) pairs) 4))"

definition batched_fraction :: "'ef::field \<Rightarrow> 'ef \<Rightarrow> nat \<Rightarrow> 'ef list list \<Rightarrow> ('ef list, 'e) res" where
  "batched_fraction lambda _ _ row =
     rbind (index row 0) (\<lambda>eq_row.
     rbind (index eq_row 0) (\<lambda>eq_xi.
     rbind (index row 1) (\<lambda>pq.
     case pq of
       [p_j0, q_j0, p_j1, q_j1] \<Rightarrow>
         let p_prev = p_j0 * q_j1 + p_j1 * q_j0; q_prev = q_j0 * q_j1 in Ok [eq_xi * (p_prev + lambda * q_prev)]
     | _ \<Rightarrow> Panic)))"

definition prove_gkr_subround ::
  "('ts, 'f, 'd) transcript_ops \<Rightarrow> ('f, 'ef::field) field_ops \<Rightarrow> nat \<Rightarrow> 'ef \<Rightarrow> nat
     \<Rightarrow> ('ef \<times> 'ef \<times> 'ef) list \<times> 'ef list \<times> 'ef col_matrix \<times> 'ef col_matrix
     \<Rightarrow> (('ef \<times> 'ef \<times> 'ef) list \<times> 'ef list \<times> 'ef col_matrix \<times> 'ef col_matrix, 'ts, logup_zerocheck_error) vm" where
  "prove_gkr_subround T K n lambda sumcheck_rnd = (\<lambda>(round_polys_eval, r_vec, pq_j_evals, eq_xis).
     vbind (vlift (sumcheck_round_poly_evals 1 (n - sumcheck_rnd) 3 [eq_xis, pq_j_evals] (batched_fraction lambda))) (\<lambda>polys.
     vbind (vlift (index polys 0)) (\<lambda>s_evals.
     vbind (vlift (case s_evals of [e1, e2, e3] \<Rightarrow> Ok (e1, e2, e3) | _ \<Rightarrow> Panic)) (\<lambda>(e1, e2, e3).
     vbind (vdo_all (v_observe_ext T K) [e1, e2, e3]) (\<lambda>_.
     vbind (v_sample_ext T K) (\<lambda>r_round.
     vbind (vlift (fold_mle_evals pq_j_evals r_round)) (\<lambda>pq_j_evals.
     vbind (vlift (fold_mle_evals eq_xis r_round)) (\<lambda>eq_xis.
     vret (round_polys_eval @ [(e1, e2, e3)], r_vec @ [r_round], pq_j_evals, eq_xis)))))))))"

text \<open>\<open>pq_j_evals.column(c)[0]\<close>\<close>

definition column_head :: "'ef col_matrix \<Rightarrow> nat \<Rightarrow> ('ef, 'e) res" where
  "column_head M c = rbind (cm_column M c) (\<lambda>col. index col 0)"

definition prove_gkr_round ::
  "('ts, 'f, 'd) transcript_ops \<Rightarrow> ('f, 'ef::field) field_ops \<Rightarrow> 'ef frac list \<Rightarrow> nat
     \<Rightarrow> 'ef gkr_layer_claims list \<times> ('ef \<times> 'ef \<times> 'ef) list list \<times> 'ef list
     \<Rightarrow> ('ef gkr_layer_claims list \<times> ('ef \<times> 'ef \<times> 'ef) list list \<times> 'ef list, 'ts, logup_zerocheck_error) vm" where
  "prove_gkr_round T K tree_evals rnd = (\<lambda>(claims, polys, xi_prev).
     vbind (vlift (shl64 1 rnd)) (\<lambda>eval_size.
     vbind (v_sample_ext T K) (\<lambda>lambda.
     vbind (vlift (layer_columns tree_evals eval_size)) (\<lambda>pq_j_evals.
     vbind (vlift (col_matrix_new (evals_eq_hypercube xi_prev) 1)) (\<lambda>eq_xis.
     vbind (vfor (prove_gkr_subround T K rnd lambda) [0..<rnd] ([], [], pq_j_evals, eq_xis)) (\<lambda>(round_polys_eval, rho, pq_j_evals, _).
     vbind (vlift (column_head pq_j_evals 0)) (\<lambda>p0.
     vbind (vlift (column_head pq_j_evals 1)) (\<lambda>q0.
     vbind (vlift (column_head pq_j_evals 2)) (\<lambda>p1.
     vbind (vlift (column_head pq_j_evals 3)) (\<lambda>q1.
     let layer = \<lparr>p_xi_0 = p0, p_xi_1 = p1, q_xi_0 = q0, q_xi_1 = q1\<rparr> in
     vbind (observe_layer_claims T K layer) (\<lambda>_.
     vbind (v_sample_ext T K) (\<lambda>mu.
     vret (claims @ [layer], polys @ [round_polys_eval], mu # rho)))))))))))))"

definition fractional_sumcheck ::
  "('ts, 'f, 'd) transcript_ops \<Rightarrow> ('f, 'ef::field) field_ops \<Rightarrow> 'ef frac list \<Rightarrow> bool
     \<Rightarrow> ('ef frac_sumcheck_proof \<times> 'ef list, 'ts, logup_zerocheck_error) vm" where
  "fractional_sumcheck T K evals assert_zero =
     (if evals = [] then
        vret (\<lparr>fractional_sum = (0, 1), frac_claims_per_layer = [], frac_sumcheck_polys = []\<rparr>, [])
      else
        vbind (vlift (log2_strict (length evals))) (\<lambda>total_rounds.
        vbind (vlift (frac_tree total_rounds evals)) (\<lambda>tree_evals.
        vbind (vlift (index tree_evals 1)) (\<lambda>frac_sum.
        vbind (if assert_zero then vcheck (fr_p frac_sum = 0) NonZeroRootSum
               else v_observe_ext T K (fr_p frac_sum)) (\<lambda>_.
        vbind (v_observe_ext T K (fr_q frac_sum)) (\<lambda>_.
        vbind (vlift (index tree_evals 2)) (\<lambda>l.
        vbind (vlift (index tree_evals 3)) (\<lambda>r.
        let layer = \<lparr>p_xi_0 = fr_p l, p_xi_1 = fr_p r, q_xi_0 = fr_q l, q_xi_1 = fr_q r\<rparr> in
        vbind (observe_layer_claims T K layer) (\<lambda>_.
        vbind (v_sample_ext T K) (\<lambda>mu_1.
        vbind (vfor (prove_gkr_round T K tree_evals) [1..<total_rounds] ([layer], [], [mu_1])) (\<lambda>(claims, polys, xi_prev).
        vret (\<lparr>fractional_sum = (fr_p frac_sum, fr_q frac_sum), frac_claims_per_layer = claims, frac_sumcheck_polys = polys\<rparr>,
              xi_prev))))))))))))"

section \<open>The tree\<close>

definition is_frac_tree :: "nat \<Rightarrow> 'ef::field frac list \<Rightarrow> 'ef frac list \<Rightarrow> bool" where
  "is_frac_tree n evals t \<longleftrightarrow> length t = 2 * 2 ^ n \<and> drop (2 ^ n) t = evals \<and>
     (\<forall>i. 0 < i \<and> i < 2 ^ n \<longrightarrow> t ! i = frac_add (t ! (2 * i)) (t ! (2 * i + 1)))"

lemma frac_tree_Ok:
  assumes len: "length evals = 2 ^ n" and n: "n < 63"
  shows "\<exists>t. frac_tree n evals = (Ok t :: (_, 'e) res) \<and> is_frac_tree n evals t"
proof -
  let ?n = "2 ^ n :: nat"
  let ?step = "\<lambda>node_idx tree_evals.
       rbind (index tree_evals (2 * node_idx)) (\<lambda>l. rbind (index tree_evals (2 * node_idx + 1)) (\<lambda>r. rbind (index tree_evals node_idx) (\<lambda>_.
       Ok (tree_evals[node_idx := frac_add l r]))))"
  define t0 where "t0 = replicate ?n \<lparr>fr_p = 0, fr_q = 0\<rparr> @ evals"
  have t0: "length t0 = 2 * ?n" "drop ?n t0 = evals" by (simp_all add: t0_def len)
  have "k < ?n \<Longrightarrow> \<exists>t. rfold ?step (rev [?n - k..<?n]) t0 = (Ok t :: (_, 'e) res) \<and> length t = 2 * ?n \<and> drop ?n t = evals \<and>
      (\<forall>i. ?n - k \<le> i \<and> i < ?n \<longrightarrow> t ! i = frac_add (t ! (2 * i)) (t ! (2 * i + 1)))" for k
  proof (induction k)
    case 0
    then show ?case using t0 by auto
  next
    case (Suc k)
    then obtain t where t: "rfold ?step (rev [?n - k..<?n]) t0 = (Ok t :: (_, 'e) res)" "length t = 2 * ?n" "drop ?n t = evals"
      "\<And>i. ?n - k \<le> i \<Longrightarrow> i < ?n \<Longrightarrow> t ! i = frac_add (t ! (2 * i)) (t ! (2 * i + 1))" by auto
    define j where "j = ?n - Suc k"
    have j: "0 < j" "j < ?n" "?n - k = Suc j" using Suc.prems by (auto simp: j_def)
    define t' where "t' = t[j := frac_add (t ! (2 * j)) (t ! (2 * j + 1))]"
    have range: "rev [j..<?n] = rev [Suc j..<?n] @ [j]" using j by (simp add: upt_conv_Cons)
    have "rfold ?step (rev [j..<?n]) t0 = (Ok t' :: (_, 'e) res)"
      unfolding range rfold_append using t(1,2) j by (simp add: t'_def)
    moreover have "t' ! i = frac_add (t' ! (2 * i)) (t' ! (2 * i + 1))" if "j \<le> i" "i < ?n" for i
      using that t(2,4) j by (cases "i = j") (simp_all add: t'_def)
    ultimately show ?case using t(2,3) j(2) unfolding j_def [symmetric] by (simp add: t'_def)
  qed
  from this [of "?n - 1"] obtain t where "rfold ?step (rev [1..<?n]) t0 = (Ok t :: (_, 'e) res)" "is_frac_tree n evals t"
    by (auto simp: is_frac_tree_def Suc_le_eq)
  moreover have "shl64 2 n = (Ok (2 * ?n) :: (nat, 'e) res)"
    using power_strict_increasing [of "Suc n" 64 "2 :: nat"] n by (simp add: shl64_def)
  moreover have "take ?n (replicate (2 * ?n) \<lparr>fr_p = 0, fr_q = 0\<rparr>) @ evals = t0" by (simp add: t0_def)
  ultimately show ?thesis using n len by (simp add: frac_tree_def Let_def)
qed

definition tree_layer :: "'ef frac list \<Rightarrow> nat \<Rightarrow> 'ef frac list" where
  "tree_layer t j = take (2 ^ j) (drop (2 ^ j) t)"

lemma tree_layer:
  assumes "is_frac_tree n evals t" and "j \<le> n"
  shows "length (tree_layer t j) = 2 ^ j"
    and "j < n \<Longrightarrow> x < 2 ^ j \<Longrightarrow> tree_layer t j ! x = frac_add (tree_layer t (Suc j) ! (2 * x)) (tree_layer t (Suc j) ! (2 * x + 1))"
    and "x < 2 ^ j \<Longrightarrow> tree_layer t j ! x = t ! (2 ^ j + x)"
    and "tree_layer t n = evals"
proof -
  have t: "length t = 2 * 2 ^ n" "drop (2 ^ n) t = evals"
    "\<And>i. 0 < i \<Longrightarrow> i < 2 ^ n \<Longrightarrow> t ! i = frac_add (t ! (2 * i)) (t ! (2 * i + 1))"
    using assms(1) by (simp_all add: is_frac_tree_def)
  have pow: "(2 :: nat) ^ j \<le> 2 ^ n" using assms(2) by (simp add: power_increasing)
  show "length (tree_layer t j) = 2 ^ j" unfolding tree_layer_def length_take length_drop t(1) using pow by linarith
  have at: "tree_layer t j ! x = t ! (2 ^ j + x)" if "x < 2 ^ j" for x
  proof -
    have "2 ^ j \<le> length t" using pow t(1) by linarith
    then show ?thesis using that by (simp add: tree_layer_def)
  qed
  show "tree_layer t n = evals" using t by (auto simp: tree_layer_def)
  show "tree_layer t j ! x = t ! (2 ^ j + x)" if "x < 2 ^ j" using at [OF that] .
  assume j: "j < n" and x: "x < 2 ^ j"
  have pow2: "2 * (2 :: nat) ^ j \<le> 2 ^ n" using j by (simp flip: power_Suc add: power_increasing)
  then have "t ! (2 ^ j + x) = frac_add (t ! (2 * (2 ^ j + x))) (t ! (2 * (2 ^ j + x) + 1))"
    using x by (intro t(3)) simp_all
  moreover have "tree_layer t (Suc j) ! y = t ! (2 * 2 ^ j + y)" if "y < 2 * 2 ^ j" for y
  proof -
    have "2 * 2 ^ j \<le> length t" using pow2 t(1) by linarith
    then show ?thesis using that by (simp add: tree_layer_def)
  qed
  ultimately show "tree_layer t j ! x = frac_add (tree_layer t (Suc j) ! (2 * x)) (tree_layer t (Suc j) ! (2 * x + 1))"
    using x at by (simp add: algebra_simps)
qed

section \<open>The sum of the fractions\<close>

lemma sum_list_pairs_nth: "length xs = 2 * n \<Longrightarrow> (\<Sum>x < n. f (xs ! (2 * x)) + f (xs ! (2 * x + 1))) = (\<Sum>i < 2 * n. f (xs ! i))"
  for f :: "'a \<Rightarrow> 'b::comm_monoid_add"
proof -
  have "(\<Sum>x < n. f (xs ! (2 * x)) + f (xs ! (2 * x + 1))) = (\<Sum>i < 2 * n. f (xs ! i))" for n
    by (induction n) (simp_all add: add.assoc)
  then show ?thesis .
qed

lemma tree_sums:
  fixes evals :: "'ef::field frac list"
  assumes t: "is_frac_tree n evals t" and len: "length evals = 2 ^ n" and q: "\<forall>f \<in> set evals. fr_q f \<noteq> 0" and j: "j \<le> n"
  shows "(\<forall>x < 2 ^ j. fr_q (tree_layer t j ! x) \<noteq> 0) \<and>
     (\<Sum>x < 2 ^ j. fr_p (tree_layer t j ! x) / fr_q (tree_layer t j ! x)) = (\<Sum>f \<leftarrow> evals. fr_p f / fr_q f)"
  using j
proof (induction "n - j" arbitrary: j)
  case 0
  then have "j = n" by simp
  with tree_layer(4) [OF t order_refl] len q show ?case by (simp add: sum_list_sum_nth lessThan_atLeast0)
next
  case (Suc k)
  then have j: "j < n" "Suc j \<le> n" "k = n - Suc j" by simp_all
  let ?L = "tree_layer t (Suc j)"
  from Suc.hyps(1) [OF j(3,2)] have next_layer: "\<And>x. x < 2 * 2 ^ j \<Longrightarrow> fr_q (?L ! x) \<noteq> 0"
    "(\<Sum>x < 2 * 2 ^ j. fr_p (?L ! x) / fr_q (?L ! x)) = (\<Sum>f \<leftarrow> evals. fr_p f / fr_q f)" by simp_all
  have one: "tree_layer t j ! x = frac_add (?L ! (2 * x)) (?L ! (2 * x + 1))" if "x < 2 ^ j" for x
    using tree_layer(2) [OF t Suc.prems j(1) that] .
  have q: "fr_q (tree_layer t j ! x) \<noteq> 0" if "x < 2 ^ j" for x
    using next_layer(1) [of "2 * x"] next_layer(1) [of "2 * x + 1"] that by (simp add: one frac_add_def)
  have "fr_p (tree_layer t j ! x) / fr_q (tree_layer t j ! x)
      = fr_p (?L ! (2 * x)) / fr_q (?L ! (2 * x)) + fr_p (?L ! (2 * x + 1)) / fr_q (?L ! (2 * x + 1))" if "x < 2 ^ j" for x
    using next_layer(1) [of "2 * x"] next_layer(1) [of "2 * x + 1"] that by (simp add: one frac_add_def add_frac_eq mult.commute)
  then have "(\<Sum>x < 2 ^ j. fr_p (tree_layer t j ! x) / fr_q (tree_layer t j ! x))
      = (\<Sum>x < 2 ^ j. fr_p (?L ! (2 * x)) / fr_q (?L ! (2 * x)) + fr_p (?L ! (2 * x + 1)) / fr_q (?L ! (2 * x + 1)))" by simp
  also have "\<dots> = (\<Sum>x < 2 * 2 ^ j. fr_p (?L ! x) / fr_q (?L ! x))"
    using sum_list_pairs_nth [of ?L "2 ^ j" "\<lambda>f. fr_p f / fr_q f"] tree_layer(1) [OF t j(2)] by simp
  finally show ?case using q next_layer(2) by simp
qed

lemma root_fraction:
  assumes "is_frac_tree n evals t" and "length evals = 2 ^ n" and "\<forall>f \<in> set evals. fr_q f \<noteq> 0"
  shows "fr_q (t ! 1) \<noteq> 0" and "fr_p (t ! 1) = 0 \<longleftrightarrow> (\<Sum>f \<leftarrow> evals. fr_p f / fr_q f) = 0"
  using tree_sums [OF assms, of 0] tree_layer(3) [OF assms(1), of 0 0] by auto

section \<open>The round polynomial is cubic\<close>

abbreviation fraction_value :: "'ef::field \<Rightarrow> 'ef list list \<Rightarrow> 'ef" where
  "fraction_value lambda row \<equiv> row ! 0 ! 0 * (row ! 1 ! 0 * row ! 1 ! 3 + row ! 1 ! 2 * row ! 1 ! 1 + lambda * (row ! 1 ! 1 * row ! 1 ! 3))"

lemma line_product: "\<exists>q0 q1 q2. \<forall>t. (a + t * a') * (b + t * b') = q0 + t * (q1 + t * q2)" for a :: "'a::field"
  by (rule exI [of _ "a * b"], rule exI [of _ "a * b' + a' * b"], rule exI [of _ "a' * b'"]) (simp add: algebra_simps)

lemma fraction_cubic:
  "\<exists>c0 c1 c2 c3. \<forall>t. (e + t * e') * ((a + t * a') * (d + t * d') + (c + t * c') * (b + t * b') + lambda * ((b + t * b') * (d + t * d')))
     = horner_eval [c0, c1, c2, c3] (t :: 'a::field)"
proof -
  from line_product [of a a' d d'] obtain u0 u1 u2 where u: "\<And>t. (a + t * a') * (d + t * d') = u0 + t * (u1 + t * u2)" by blast
  from line_product [of c c' b b'] obtain v0 v1 v2 where v: "\<And>t. (c + t * c') * (b + t * b') = v0 + t * (v1 + t * v2)" by blast
  from line_product [of b b' d d'] obtain w0 w1 w2 where w: "\<And>t. (b + t * b') * (d + t * d') = w0 + t * (w1 + t * w2)" by blast
  define z0 z1 z2 where "z0 = u0 + v0 + lambda * w0" and "z1 = u1 + v1 + lambda * w1" and "z2 = u2 + v2 + lambda * w2"
  have z: "(u0 + t * (u1 + t * u2)) + (v0 + t * (v1 + t * v2)) + lambda * (w0 + t * (w1 + t * w2)) = z0 + t * (z1 + t * z2)" for t
    by (simp add: z0_def z1_def z2_def algebra_simps)
  have "(e + t * e') * (z0 + t * (z1 + t * z2)) = horner_eval [e * z0, e * z1 + e' * z0, e * z2 + e' * z1, e' * z2] t" for t
    by (simp add: horner_Cons algebra_simps)
  then show ?thesis unfolding u v w z by blast
qed

lemma layer_sum_cubic:
  assumes "length e = 2 * n" and "length a = 2 * n" and "length b = 2 * n" and "length c = 2 * n" and "length d = 2 * n"
  shows "\<exists>c0 c1 c2 c3. \<forall>t. rows_sum (fraction_value lambda) n (fold_columns t [[e], [a, b, c, d]]) = horner_eval [c0, c1, c2, c3] (t :: 'a::field)"
proof -
  let ?summand = "\<lambda>y t. fraction_value lambda (map (map (\<lambda>c. c ! y)) (fold_columns t [[e], [a, b, c, d]]))"
  have one: "\<exists>c0 c1 c2 c3. \<forall>t. ?summand y t = horner_eval [c0, c1, c2, c3] t" if "y < n" for y
    using fraction_cubic [of "e ! (2 * y)" "e ! (2 * y + 1) - e ! (2 * y)" "a ! (2 * y)" "a ! (2 * y + 1) - a ! (2 * y)"
        "d ! (2 * y)" "d ! (2 * y + 1) - d ! (2 * y)" "c ! (2 * y)" "c ! (2 * y + 1) - c ! (2 * y)"
        "b ! (2 * y)" "b ! (2 * y + 1) - b ! (2 * y)" lambda] assms that
    by (simp add: fold_pairs_nth)
  have "k \<le> n \<Longrightarrow> \<exists>c0 c1 c2 c3. \<forall>t. (\<Sum>y < k. ?summand y t) = horner_eval [c0, c1, c2, c3] t" for k
  proof (induction k)
    case 0
    then show ?case by (intro exI [of _ 0]) (simp add: horner_Cons)
  next
    case (Suc k)
    then obtain a0 a1 a2 a3 where A: "\<And>t. (\<Sum>y < k. ?summand y t) = horner_eval [a0, a1, a2, a3] t" by auto
    from one [of k] Suc.prems obtain b0 b1 b2 b3 where B: "\<And>t. ?summand k t = horner_eval [b0, b1, b2, b3] t" by auto
    have "(\<Sum>y < Suc k. ?summand y t) = horner_eval [a0 + b0, a1 + b1, a2 + b2, a3 + b3] t" for t
      unfolding sum.lessThan_Suc A B by (simp add: horner_Cons algebra_simps)
    then show ?case by blast
  qed
  then show ?thesis unfolding rows_sum_def by blast
qed

lemma cubic_step:
  assumes six: "(6 :: 'a::field) \<noteq> 0" and len: "\<forall>c \<in> set (e # cols). length c = 2 * n" and cols: "length cols = 4"
  shows "interpolate_cubic_at_0123
      (rows_sum (fraction_value lambda) (2 * n) [[e], cols] - rows_sum (fraction_value lambda) n (fold_columns 1 [[e], cols]),
       rows_sum (fraction_value lambda) n (fold_columns 1 [[e], cols]), rows_sum (fraction_value lambda) n (fold_columns 2 [[e], cols]),
       rows_sum (fraction_value lambda) n (fold_columns 3 [[e], cols])) r
     = rows_sum (fraction_value lambda) n (fold_columns r [[e], cols :: 'a list list])"
proof -
  obtain a b c d where cols: "cols = [a, b, c, d]" using cols by (auto simp: length_Suc_conv numeral_eq_Suc)
  define s where "s t = rows_sum (fraction_value lambda) n (fold_columns t [[e], cols])" for t
  from len cols layer_sum_cubic [of e n a b c d lambda] obtain c0 c1 c2 c3
    where poly: "\<And>t. s t = horner_eval [c0, c1, c2, c3] t" by (auto simp: s_def)
  have "rows_sum (fraction_value lambda) (2 * n) [[e], cols] - s 1 = s 0"
    unfolding s_def by (subst rows_sum_halves) (use len in simp_all)
  then have "interpolate_cubic_at_0123 (rows_sum (fraction_value lambda) (2 * n) [[e], cols] - s 1, s 1, s 2, s 3) r = s r"
    by (simp only: poly interpolate_cubic_exact [OF six])
  then show ?thesis unfolding s_def .
qed

section \<open>The columns of a layer\<close>

definition entries :: "('ef frac \<Rightarrow> 'ef) \<Rightarrow> nat \<Rightarrow> nat \<Rightarrow> 'ef frac list \<Rightarrow> 'ef list" where
  "entries f n b seg = map (\<lambda>x. f (seg ! (2 * x + b))) [0..<n]"

definition four_columns :: "nat \<Rightarrow> 'ef frac list \<Rightarrow> 'ef list list" where
  "four_columns n seg = [entries fr_p n 0 seg, entries fr_q n 0 seg, entries fr_p n 1 seg, entries fr_q n 1 seg]"

lemma length_entries [simp]: "length (entries f n b seg) = n"
  by (simp add: entries_def)

lemma length_four_columns [simp]: "length (four_columns n seg) = 4"
  by (simp add: four_columns_def)

lemma layer_columns_Ok:
  assumes t: "is_frac_tree n evals t" and r: "r < n"
  shows "layer_columns t (2 ^ r) = (Ok (mat_of (2 ^ r) (four_columns (2 ^ r) (tree_layer t (Suc r)))) :: (_, 'e) res)"
proof -
  let ?seg = "tree_layer t (Suc r)"
  have "(4 :: nat) * 2 ^ r = 2 * 2 ^ Suc r" "2 ^ Suc r \<le> (2 :: nat) ^ n"
    using power_increasing [of "Suc r" n "2 :: nat"] r by simp_all
  moreover have "length t = 2 * 2 ^ n" using t by (simp add: is_frac_tree_def)
  ultimately have "4 * 2 ^ r \<le> length t" by linarith
  then have "slice t (2 * 2 ^ r) (4 * 2 ^ r) = (Ok ?seg :: (_, 'e) res)" by (simp add: slice_def tree_layer_def)
  moreover have "length ?seg = 2 * 2 ^ r" using tree_layer(1) [OF t, of "Suc r"] r by simp
  then have "rmap (\<lambda>x. rbind (index ?seg (2 * x)) (\<lambda>l. rbind (index ?seg (2 * x + 1)) (\<lambda>r. Ok (l, r)))) [0..<2 ^ r]
      = (Ok (map (\<lambda>x. (?seg ! (2 * x), ?seg ! (2 * x + 1))) [0..<2 ^ r]) :: (_, 'e) res)"
    by (intro rmap_total) simp
  moreover have "col_matrix_new (concat (four_columns (2 ^ r) ?seg)) 4 = (Ok (mat_of (2 ^ r) (four_columns (2 ^ r) ?seg)) :: (_, 'e) res)"
    using col_matrix_new_mat_of [of "four_columns (2 ^ r) ?seg" "2 ^ r", where 'e = 'e] unfolding length_four_columns
    by (simp add: four_columns_def)
  ultimately show ?thesis by (simp add: layer_columns_def four_columns_def entries_def comp_def)
qed

text \<open>The claims at the start and at the end of a round.\<close>

abbreviation layer_value :: "('ef::field frac \<Rightarrow> 'ef) \<Rightarrow> 'ef frac list \<Rightarrow> nat \<Rightarrow> 'ef list \<Rightarrow> 'ef" where
  "layer_value f t j x \<equiv> mle_sum (map f (tree_layer t j)) x"

lemma gkr_round_claim:
  assumes t: "is_frac_tree n evals t" and r: "length xi < n"
  shows "layer_value fr_p t (length xi) xi + lambda * layer_value fr_q t (length xi) xi
     = rows_sum (fraction_value lambda) (2 ^ length xi) [[evals_eq_hypercube xi], four_columns (2 ^ length xi) (tree_layer t (Suc (length xi)))]"
proof -
  let ?n = "2 ^ length xi :: nat" and ?L = "tree_layer t (length xi)"
  have len: "length ?L = ?n" using tree_layer(1) [OF t] r by simp
  have "layer_value fr_p t (length xi) xi + lambda * layer_value fr_q t (length xi) xi
      = (\<Sum>y < ?n. (fr_p (?L ! y) + lambda * fr_q (?L ! y)) * eq_mle_value xi (cube_point (length xi) y))"
    unfolding mle_sum_def sum_distrib_left sum.distrib [symmetric] using len by (simp add: algebra_simps)
  also have "\<dots> = rows_sum (fraction_value lambda) ?n [[evals_eq_hypercube xi], four_columns ?n (tree_layer t (Suc (length xi)))]"
    unfolding rows_sum_def
  proof (rule sum.cong)
    fix y assume "y \<in> {..<?n}"
    then have y: "y < ?n" by simp
    from tree_layer(2) [OF t _ r y] r have "?L ! y = frac_add (tree_layer t (Suc (length xi)) ! (2 * y)) (tree_layer t (Suc (length xi)) ! (2 * y + 1))" by simp
    moreover have "evals_eq_hypercube xi ! y = eq_mle_value xi (cube_point (length xi) y)"
      using y by (simp add: evals_eq_hypercube_serial_eq hypercube_nth)
    ultimately show "(fr_p (?L ! y) + lambda * fr_q (?L ! y)) * eq_mle_value xi (cube_point (length xi) y)
        = fraction_value lambda (map (map (\<lambda>c. c ! y)) [[evals_eq_hypercube xi], four_columns ?n (tree_layer t (Suc (length xi)))])"
      using y by (simp add: four_columns_def entries_def frac_add_def algebra_simps)
  qed simp
  finally show ?thesis .
qed

lemma next_claim:
  assumes t: "is_frac_tree n evals t" and r: "length rho < n"
  shows "layer_value f t (Suc (length rho)) (mu # rho) = interpolate_linear_at_01
     (mle_sum (entries f (2 ^ length rho) 0 (tree_layer t (Suc (length rho)))) rho,
      mle_sum (entries f (2 ^ length rho) 1 (tree_layer t (Suc (length rho)))) rho) mu"
proof -
  let ?seg = "tree_layer t (Suc (length rho))"
  have len: "length ?seg = 2 * 2 ^ length rho" using tree_layer(1) [OF t, of "Suc (length rho)"] r by simp
  then have "map (\<lambda>i. map f ?seg ! (2 * i)) [0..<2 ^ length rho] = entries f (2 ^ length rho) 0 ?seg"
    "map (\<lambda>i. map f ?seg ! (2 * i + 1)) [0..<2 ^ length rho] = entries f (2 ^ length rho) 1 ?seg"
    by (auto simp: entries_def)
  with mle_sum_split [of "map f ?seg" rho mu] len show ?thesis by simp
qed

section \<open>The two parties\<close>

context transcript
begin

lemma both_observe_all:
  "inv ts \<Longrightarrow> \<exists>ts'. vdo_all (v_observe_ext T K) xs ts = (Ok ((), ts') :: (_, 'e) res) \<and>
     vdo_all (v_observe_ext T K) xs ts = (Ok ((), ts') :: (_, 'g) res) \<and> inv ts'"
proof (induction xs arbitrary: ts)
  case (Cons x xs)
  from both_observe [OF Cons.prems, where 'e = 'e and 'g = 'g, of K x] obtain ts1 where
    ts1: "v_observe_ext T K x ts = (Ok ((), ts1) :: (_, 'e) res)" "v_observe_ext T K x ts = (Ok ((), ts1) :: (_, 'g) res)" "inv ts1" by blast
  from Cons.IH [OF ts1(3)] show ?case by (simp add: vdo_all_def vbind_def ts1)
qed (simp add: vdo_all_def vret_def)

lemma both_layer_claims:
  "inv ts \<Longrightarrow> \<exists>ts'. observe_layer_claims T K c ts = (Ok ((), ts') :: (_, 'e) res) \<and>
     observe_layer_claims T K c ts = (Ok ((), ts') :: (_, 'g) res) \<and> inv ts'"
proof -
  have unit: "rbind m (\<lambda>p. Ok ((), snd p)) = m" for m :: "(unit \<times> 'ts, 'i) res" by (cases m) auto
  have all: "observe_layer_claims T K c ts = vdo_all (v_observe_ext T K) [p_xi_0 c, q_xi_0 c, p_xi_1 c, q_xi_1 c] ts" for ts
    by (simp add: observe_layer_claims_def vdo_all_def vbind_def vret_def split_def unit)
  show "inv ts \<Longrightarrow> ?thesis" unfolding all by (rule both_observe_all)
qed

lemma run_gkr_subround:
  fixes K :: "('f, 'ef::field) field_ops" and e :: "'ef list"
  assumes inv: "inv ts" and len: "\<forall>c \<in> set (e # cols). length c = 2 * 2 ^ m" and cols: "length cols = 4" and m: "Suc m < 64"
    and n: "n - k = Suc m" and six: "(6 :: 'ef) \<noteq> 0" and k: "k < length xi"
  shows "\<exists>es r ts'. inv ts' \<and>
     prove_gkr_subround T K n lambda k (ps, rs, mat_of (2 * 2 ^ m) cols, mat_of (2 * 2 ^ m) [e]) ts
       = Ok ((ps @ [es], rs @ [r], mat_of (2 ^ m) (map (fold_pairs r) cols), mat_of (2 ^ m) [fold_pairs r e]), ts') \<and>
     (\<forall>g eq. gkr_subround T K xi (k, es) (rows_sum (fraction_value lambda) (2 * 2 ^ m) [[e], cols], g, eq) ts
       = (Ok ((rows_sum (fraction_value lambda) (2 ^ m) (fold_columns r [[e], cols]), g @ [r], eq * (xi ! k * r + (1 - xi ! k) * (1 - r))), ts')
           :: (_, 'ef gkr_error) res))"
proof -
  define s where "s t = rows_sum (fraction_value lambda) (2 ^ m) (fold_columns t [[e], cols])" for t
  obtain a b c d where abcd: "cols = [a, b, c, d]" using cols by (auto simp: length_Suc_conv numeral_eq_Suc)
  have len2: "\<forall>cs \<in> set [[e], cols]. \<forall>c \<in> set cs. length c = 2 * 2 ^ m" using len by auto
  have points: "[1..<Suc 3] = [1, 2, 3]" by (simp add: upt_conv_Cons)
  have polys: "sumcheck_round_poly_evals 1 (Suc m) 3 [mat_of (2 * 2 ^ m) [e], mat_of (2 * 2 ^ m) cols] (batched_fraction lambda)
      = (Ok [[s 1, s 2, s 3]] :: (_, logup_zerocheck_error) res)"
    using round_poly_evals_Ok [OF len2 m, of "batched_fraction lambda" "fraction_value lambda" 3] unfolding points
    by (simp add: abcd batched_fraction_def s_def)
  from both_observe_all [OF inv, where 'e = logup_zerocheck_error and 'g = "'ef gkr_error", of K "[s 1, s 2, s 3]"] obtain ts1 where
    ts1: "vdo_all (v_observe_ext T K) [s 1, s 2, s 3] ts = (Ok ((), ts1) :: (_, logup_zerocheck_error) res)"
      "vdo_all (v_observe_ext T K) [s 1, s 2, s 3] ts = (Ok ((), ts1) :: (_, 'ef gkr_error) res)" "inv ts1" by blast
  from both_sample [OF ts1(3), where 'e = logup_zerocheck_error and 'g = "'ef gkr_error", of K] obtain r ts2 where
    ts2: "v_sample_ext T K ts1 = (Ok (r, ts2) :: (_, logup_zerocheck_error) res)"
      "v_sample_ext T K ts1 = (Ok (r, ts2) :: (_, 'ef gkr_error) res)" "inv ts2" by blast
  have folded: "fold_mle_evals (mat_of (2 * 2 ^ m) cols) r = (Ok (mat_of (2 ^ m) (map (fold_pairs r) cols)) :: (_, logup_zerocheck_error) res)"
    "fold_mle_evals (mat_of (2 * 2 ^ m) [e]) r = (Ok (mat_of (2 ^ m) [fold_pairs r e]) :: (_, logup_zerocheck_error) res)"
    using fold_mle_evals_Ok [of cols "2 ^ m" r, where 'e = logup_zerocheck_error]
      fold_mle_evals_Ok [of "[e]" "2 ^ m" r, where 'e = logup_zerocheck_error] len abcd by auto
  have heads: "index [[s 1, s 2, s 3]] 0 = (Ok [s 1, s 2, s 3] :: (_, logup_zerocheck_error) res)" by simp
  have prover: "prove_gkr_subround T K n lambda k (ps, rs, mat_of (2 * 2 ^ m) cols, mat_of (2 * 2 ^ m) [e]) ts
      = Ok ((ps @ [(s 1, s 2, s 3)], rs @ [r], mat_of (2 ^ m) (map (fold_pairs r) cols), mat_of (2 ^ m) [fold_pairs r e]), ts2)"
    unfolding prove_gkr_subround_def prod.case n
    by (simp only: vbind_def vlift_def polys heads rbind.simps prod.case list.case ts1 ts2 folded vret_def)
  have at: "index xi k = (Ok (xi ! k) :: (_, 'ef gkr_error) res)" using k by simp
  have step: "interpolate_cubic_at_0123 (rows_sum (fraction_value lambda) (2 * 2 ^ m) [[e], cols] - s 1, s 1, s 2, s 3) r = s r"
    unfolding s_def by (rule cubic_step [OF six len cols])
  have "gkr_subround T K xi (k, s 1, s 2, s 3) (rows_sum (fraction_value lambda) (2 * 2 ^ m) [[e], cols], g, eq) ts
       = (Ok ((s r, g @ [r], eq * (xi ! k * r + (1 - xi ! k) * (1 - r))), ts2) :: (_, 'ef gkr_error) res)" for g eq
    unfolding gkr_subround_def prod.case
    by (simp only: vbind_def vlift_def rbind.simps prod.case ts1 ts2 at step vret_def)
  with prover ts2(3) show ?thesis unfolding s_def by blast
qed

lemma run_gkr_subrounds:
  fixes K :: "('f, 'ef::field) field_ops" and e :: "'ef list"
  assumes "inv ts" and "\<forall>c \<in> set (e # cols). length c = 2 ^ m" and "length cols = 4" and "m < 64"
    and "n = k + m" and six: "(6 :: 'ef) \<noteq> 0" and "n \<le> length xi"
  shows "\<exists>es rs' ts'. inv ts' \<and> length es = m \<and> length rs' = m \<and>
     vfor (prove_gkr_subround T K n lambda) [k..<k + m] (ps, rs, mat_of (2 ^ m) cols, mat_of (2 ^ m) [e]) ts
       = Ok ((ps @ es, rs @ rs', mat_of 1 (map (fold fold_pairs rs') cols), mat_of 1 [fold fold_pairs rs' e]), ts') \<and>
     (\<forall>g eq. vfor (gkr_subround T K xi) (zip [k..<k + m] es) (rows_sum (fraction_value lambda) (2 ^ m) [[e], cols], g, eq) ts
       = (Ok ((rows_sum (fraction_value lambda) 1 [[fold fold_pairs rs' e], map (fold fold_pairs rs') cols], g @ rs',
               eq * eq_mle_value (take m (drop k xi)) rs'), ts') :: (_, 'ef gkr_error) res))"
  using assms(1-5,7)
proof (induction m arbitrary: k ts e cols ps rs)
  case 0
  then show ?case by (intro exI [of _ "[]"] exI [of _ ts]) (simp add: vret_def)
next
  case (Suc m)
  have one_len: "\<forall>c \<in> set (e # cols). length c = 2 * 2 ^ m" using Suc.prems(2) by simp
  have nk: "n - k = Suc m" "k < length xi" using Suc.prems by simp_all
  from run_gkr_subround [OF Suc.prems(1) one_len Suc.prems(3,4) nk(1) six nk(2), of K lambda ps rs] obtain es r ts1 where
    one: "inv ts1"
     "prove_gkr_subround T K n lambda k (ps, rs, mat_of (2 * 2 ^ m) cols, mat_of (2 * 2 ^ m) [e]) ts
       = Ok ((ps @ [es], rs @ [r], mat_of (2 ^ m) (map (fold_pairs r) cols), mat_of (2 ^ m) [fold_pairs r e]), ts1)"
     "\<And>g eq. gkr_subround T K xi (k, es) (rows_sum (fraction_value lambda) (2 * 2 ^ m) [[e], cols], g, eq) ts
       = (Ok ((rows_sum (fraction_value lambda) (2 ^ m) (fold_columns r [[e], cols]), g @ [r], eq * (xi ! k * r + (1 - xi ! k) * (1 - r))), ts1)
           :: (_, 'ef gkr_error) res)" by blast
  have "\<forall>c \<in> set (fold_pairs r e # map (fold_pairs r) cols). length c = 2 ^ m" "length (map (fold_pairs r) cols) = 4" "m < 64" "n = Suc k + m"
    using Suc.prems by auto
  from Suc.IH [OF one(1) this Suc.prems(6), of "ps @ [es]" "rs @ [r]"] obtain es' rs' ts' where
    rest: "inv ts'" "length es' = m" "length rs' = m"
     "vfor (prove_gkr_subround T K n lambda) [Suc k..<Suc k + m] (ps @ [es], rs @ [r], mat_of (2 ^ m) (map (fold_pairs r) cols), mat_of (2 ^ m) [fold_pairs r e]) ts1
       = Ok (((ps @ [es]) @ es', (rs @ [r]) @ rs', mat_of 1 (map (fold fold_pairs rs') (map (fold_pairs r) cols)), mat_of 1 [fold fold_pairs rs' (fold_pairs r e)]), ts')"
     "\<And>g eq. vfor (gkr_subround T K xi) (zip [Suc k..<Suc k + m] es')
         (rows_sum (fraction_value lambda) (2 ^ m) [[fold_pairs r e], map (fold_pairs r) cols], g, eq) ts1
       = (Ok ((rows_sum (fraction_value lambda) 1 [[fold fold_pairs rs' (fold_pairs r e)], map (fold fold_pairs rs') (map (fold_pairs r) cols)], g @ rs',
               eq * eq_mle_value (take m (drop (Suc k) xi)) rs'), ts') :: (_, 'ef gkr_error) res)" by blast
  have range: "[k..<k + Suc m] = k # [Suc k..<Suc k + m]" by (simp add: upt_conv_Cons)
  have drop: "take (Suc m) (drop k xi) = xi ! k # take m (drop (Suc k) xi)" using nk(2) by (simp add: Cons_nth_drop_Suc [symmetric])
  have twice: "(2 :: nat) ^ Suc m = 2 * 2 ^ m" by simp
  have eq: "eq * (xi ! k * r + (1 - xi ! k) * (1 - r)) * eq_mle_value (take m (drop (Suc k) xi)) rs'
      = eq * eq_mle_value (take (Suc m) (drop k xi)) (r # rs')" for eq
    unfolding drop by (simp add: algebra_simps)
  have prover: "vfor (prove_gkr_subround T K n lambda) [k..<k + Suc m] (ps, rs, mat_of (2 ^ Suc m) cols, mat_of (2 ^ Suc m) [e]) ts
      = Ok ((ps @ es # es', rs @ r # rs', mat_of 1 (map (fold fold_pairs (r # rs')) cols), mat_of 1 [fold fold_pairs (r # rs') e]), ts')"
    unfolding range twice vfor.simps vbind_def one(2) rbind.simps prod.case rest(4) by simp
  have "vfor (gkr_subround T K xi) (zip [k..<k + Suc m] (es # es')) (rows_sum (fraction_value lambda) (2 ^ Suc m) [[e], cols], g, eq) ts
      = (Ok ((rows_sum (fraction_value lambda) 1 [[fold fold_pairs (r # rs') e], map (fold fold_pairs (r # rs')) cols], g @ r # rs',
               eq * eq_mle_value (take (Suc m) (drop k xi)) (r # rs')), ts') :: (_, 'ef gkr_error) res)" for g eq
    unfolding range twice zip_Cons_Cons vfor.simps vbind_def one(3) rbind.simps prod.case list.map rest(5) eq by simp
  with prover rest(1-3) show ?case by (intro exI [of _ "es # es'"] exI [of _ "r # rs'"] exI [of _ ts']) (simp add: comp_def)
qed

lemma run_gkr_round:
  fixes K :: "('f, 'ef::field) field_ops"
  assumes inv: "inv ts" and t: "is_frac_tree n evals t" and xi: "0 < length xi" "length xi < n" and n: "n < 64" and six: "(6 :: 'ef) \<noteq> 0"
  shows "\<exists>layer es rho mu ts'. inv ts' \<and> length rho = length xi \<and>
     prove_gkr_round T K t (length xi) (cs, ps, xi) ts = Ok ((cs @ [layer], ps @ [es], mu # rho), ts') \<and>
     (\<forall>p. length xi < length (claims_per_layer p) \<longrightarrow> claims_per_layer p ! length xi = layer \<longrightarrow>
        length xi - 1 < length (sumcheck_polys p) \<longrightarrow> sumcheck_polys p ! (length xi - 1) = es \<longrightarrow>
        gkr_round T K p (length xi) (layer_value fr_p t (length xi) xi, layer_value fr_q t (length xi) xi, xi) ts
          = Ok ((layer_value fr_p t (Suc (length xi)) (mu # rho), layer_value fr_q t (Suc (length xi)) (mu # rho), mu # rho), ts'))"
proof -
  let ?r = "length xi" and ?n = "2 ^ length xi :: nat"
  define seg where "seg = tree_layer t (Suc ?r)"
  define cols where "cols = four_columns ?n seg"
  define e where "e = evals_eq_hypercube xi"
  have e: "length e = ?n" by (simp add: e_def evals_eq_hypercube_serial_eq)
  from both_sample [OF inv, where 'e = logup_zerocheck_error and 'g = "'ef gkr_error", of K] obtain lambda ts1 where
    ts1: "v_sample_ext T K ts = (Ok (lambda, ts1) :: (_, logup_zerocheck_error) res)"
      "v_sample_ext T K ts = (Ok (lambda, ts1) :: (_, 'ef gkr_error) res)" "inv ts1" by blast
  have len: "\<forall>c \<in> set (e # cols). length c = ?n" "length cols = 4" by (auto simp: e cols_def four_columns_def)
  have r64: "?r < 64" "?r = 0 + ?r" "?r \<le> length xi" using xi n by simp_all
  from run_gkr_subrounds [OF ts1(3) len r64(1,2) six r64(3), of K lambda "[]" "[]"] obtain es rho ts2 where
    loop: "inv ts2" "length es = ?r" "length rho = ?r"
     "vfor (prove_gkr_subround T K ?r lambda) [0..<?r] ([], [], mat_of ?n cols, mat_of ?n [e]) ts1
       = Ok ((es, rho, mat_of 1 (map (fold fold_pairs rho) cols), mat_of 1 [fold fold_pairs rho e]), ts2)"
     "vfor (gkr_subround T K xi) (enumerated es) (rows_sum (fraction_value lambda) ?n [[e], cols], [], 1) ts1
       = (Ok ((rows_sum (fraction_value lambda) 1 [[fold fold_pairs rho e], map (fold fold_pairs rho) cols], rho, eq_mle_value xi rho), ts2)
           :: (_, 'ef gkr_error) res)" by auto
  define p0 q0 p1 q1 where "p0 = mle_sum (entries fr_p ?n 0 seg) rho" and "q0 = mle_sum (entries fr_q ?n 0 seg) rho"
    and "p1 = mle_sum (entries fr_p ?n 1 seg) rho" and "q1 = mle_sum (entries fr_q ?n 1 seg) rho"
  have bound: "map (fold fold_pairs rho) cols = [[p0], [q0], [p1], [q1]]" "fold fold_pairs rho e = [eq_mle_value xi rho]"
    using loop(3) fold_pairs_point [of _ rho] eq_table_point [of xi rho]
    by (simp_all add: cols_def four_columns_def p0_def q0_def p1_def q1_def e_def)
  define layer where "layer = \<lparr>p_xi_0 = p0, p_xi_1 = p1, q_xi_0 = q0, q_xi_1 = q1\<rparr>"
  from both_layer_claims [OF loop(1), where 'e = logup_zerocheck_error and 'g = "'ef gkr_error", of K layer] obtain ts3 where
    ts3: "observe_layer_claims T K layer ts2 = (Ok ((), ts3) :: (_, logup_zerocheck_error) res)"
      "observe_layer_claims T K layer ts2 = (Ok ((), ts3) :: (_, 'ef gkr_error) res)" "inv ts3" by blast
  from both_sample [OF ts3(3), where 'e = logup_zerocheck_error and 'g = "'ef gkr_error", of K] obtain mu ts4 where
    ts4: "v_sample_ext T K ts3 = (Ok (mu, ts4) :: (_, logup_zerocheck_error) res)"
      "v_sample_ext T K ts3 = (Ok (mu, ts4) :: (_, 'ef gkr_error) res)" "inv ts4" by blast
  have steps: "shl64 1 ?r = (Ok ?n :: (_, logup_zerocheck_error) res)"
    "layer_columns t ?n = (Ok (mat_of ?n cols) :: (_, logup_zerocheck_error) res)"
    "col_matrix_new (evals_eq_hypercube xi) 1 = (Ok (mat_of ?n [e]) :: (_, logup_zerocheck_error) res)"
    using r64 layer_columns_Ok [OF t xi(2)] col_matrix_new_mat_of [of "[e]" ?n, where 'e = logup_zerocheck_error] e
    by (simp_all add: cols_def seg_def e_def)
  have heads: "column_head (mat_of 1 [[p0], [q0], [p1], [q1]]) 0 = (Ok p0 :: (_, logup_zerocheck_error) res)"
    "column_head (mat_of 1 [[p0], [q0], [p1], [q1]]) 1 = (Ok q0 :: (_, logup_zerocheck_error) res)"
    "column_head (mat_of 1 [[p0], [q0], [p1], [q1]]) 2 = (Ok p1 :: (_, logup_zerocheck_error) res)"
    "column_head (mat_of 1 [[p0], [q0], [p1], [q1]]) 3 = (Ok q1 :: (_, logup_zerocheck_error) res)"
    by (simp_all add: column_head_def cm_column_def slice_def Let_def)
  have prover: "prove_gkr_round T K t ?r (cs, ps, xi) ts = Ok ((cs @ [layer], ps @ [es], mu # rho), ts4)"
    unfolding prove_gkr_round_def prod.case
    by (simp only: vbind_def vlift_def steps rbind.simps prod.case ts1 loop(4) bound heads Let_def layer_def [symmetric] ts3 ts4 vret_def)
  have claim: "layer_value fr_p t ?r xi + lambda * layer_value fr_q t ?r xi = rows_sum (fraction_value lambda) ?n [[e], cols]"
    unfolding e_def cols_def seg_def by (rule gkr_round_claim [OF t xi(2)])
  have new_claim: "rows_sum (fraction_value lambda) 1 [[fold fold_pairs rho e], map (fold fold_pairs rho) cols]
      = (p0 * q1 + p1 * q0 + lambda * (q0 * q1)) * eq_mle_value xi rho"
    unfolding bound by (simp add: rows_sum_def)
  have next_claims: "layer_value fr_p t (Suc ?r) (mu # rho) = interpolate_linear_at_01 (p0, p1) mu"
    "layer_value fr_q t (Suc ?r) (mu # rho) = interpolate_linear_at_01 (q0, q1) mu"
    using next_claim [OF t, of rho _ mu] loop(3) xi(2) by (simp_all add: p0_def p1_def q0_def q1_def seg_def)
  have "gkr_round T K p ?r (layer_value fr_p t ?r xi, layer_value fr_q t ?r xi, xi) ts
      = Ok ((layer_value fr_p t (Suc ?r) (mu # rho), layer_value fr_q t (Suc ?r) (mu # rho), mu # rho), ts4)"
    if p: "?r < length (claims_per_layer p)" "claims_per_layer p ! ?r = layer" "?r - 1 < length (sumcheck_polys p)" "sumcheck_polys p ! (?r - 1) = es" for p
  proof -
    have polys: "index (sumcheck_polys p) (?r - 1) = (Ok es :: (_, 'ef gkr_error) res)" using p(3,4) by simp
    have "verify_gkr_sumcheck T K p ?r (rows_sum (fraction_value lambda) ?n [[e], cols]) xi ts1
        = Ok (((p0 * q1 + p1 * q0 + lambda * (q0 * q1)) * eq_mle_value xi rho, rho, eq_mle_value xi rho), ts2)"
      unfolding verify_gkr_sumcheck_def vbind_assert_run [OF xi(1)] vbind_assert_run [OF refl] polys vbind_lift_run
        vbind_check_run [OF loop(2)] loop(5) new_claim ..
    moreover have "eval_eq_mle xi rho = (Ok (eq_mle_value xi rho) :: (_, 'ef gkr_error) res)" using loop(3) by (simp add: eval_eq_mle_Ok)
    ultimately show ?thesis
      unfolding gkr_round_def prod.case using p
      by (simp add: vbind_def ts1 claim run_simps vassert_run vcheck_run ts3 ts4 compute_recursive_relations_def reduce_to_single_evaluation_def next_claims)
        (simp add: layer_def ts3 ts4 vcheck_run)
  qed
  with prover loop(3) ts4(3) show ?thesis by blast
qed

lemma run_gkr_rounds:
  fixes K :: "('f, 'ef::field) field_ops"
  assumes "inv ts" and t: "is_frac_tree n evals t" and n: "n < 64" and six: "(6 :: 'ef) \<noteq> 0"
    and "0 < length xi" and "length xi + m = n"
  shows "\<exists>layers ess xi' ts'. inv ts' \<and> length layers = m \<and> length ess = m \<and> length xi' = n \<and>
     vfor (prove_gkr_round T K t) [length xi..<length xi + m] (cs, ps, xi) ts = Ok ((cs @ layers, ps @ ess, xi'), ts') \<and>
     (\<forall>p c0 e0. claims_per_layer p = c0 @ layers \<longrightarrow> length c0 = length xi \<longrightarrow> sumcheck_polys p = e0 @ ess \<longrightarrow> length e0 = length xi - 1 \<longrightarrow>
        vfor (gkr_round T K p) [length xi..<length xi + m] (layer_value fr_p t (length xi) xi, layer_value fr_q t (length xi) xi, xi) ts
          = Ok ((layer_value fr_p t n xi', layer_value fr_q t n xi', xi'), ts'))"
  using assms(1,5,6)
proof (induction m arbitrary: xi ts cs ps)
  case 0
  then show ?case by (intro exI [of _ "[]"] exI [of _ xi] exI [of _ ts]) (simp add: vret_def)
next
  case (Suc m)
  have lt: "length xi < n" using Suc.prems(3) by simp
  from run_gkr_round [OF Suc.prems(1) t Suc.prems(2) lt n six, of K cs ps] obtain layer es rho mu ts1 where
    one: "inv ts1" "length rho = length xi"
     "prove_gkr_round T K t (length xi) (cs, ps, xi) ts = Ok ((cs @ [layer], ps @ [es], mu # rho), ts1)"
     "\<And>p. length xi < length (claims_per_layer p) \<Longrightarrow> claims_per_layer p ! length xi = layer \<Longrightarrow>
        length xi - 1 < length (sumcheck_polys p) \<Longrightarrow> sumcheck_polys p ! (length xi - 1) = es \<Longrightarrow>
        gkr_round T K p (length xi) (layer_value fr_p t (length xi) xi, layer_value fr_q t (length xi) xi, xi) ts
          = Ok ((layer_value fr_p t (Suc (length xi)) (mu # rho), layer_value fr_q t (Suc (length xi)) (mu # rho), mu # rho), ts1)" by blast
  have "0 < length (mu # rho)" "length (mu # rho) + m = n" using Suc.prems(3) one(2) by simp_all
  from Suc.IH [OF one(1) this, of "cs @ [layer]" "ps @ [es]"] obtain layers ess xi' ts' where
    rest: "inv ts'" "length layers = m" "length ess = m" "length xi' = n"
     "vfor (prove_gkr_round T K t) [length (mu # rho)..<length (mu # rho) + m] (cs @ [layer], ps @ [es], mu # rho) ts1
        = Ok (((cs @ [layer]) @ layers, (ps @ [es]) @ ess, xi'), ts')"
     "\<And>p c0 e0. claims_per_layer p = c0 @ layers \<Longrightarrow> length c0 = length (mu # rho) \<Longrightarrow> sumcheck_polys p = e0 @ ess \<Longrightarrow> length e0 = length (mu # rho) - 1 \<Longrightarrow>
        vfor (gkr_round T K p) [length (mu # rho)..<length (mu # rho) + m]
          (layer_value fr_p t (length (mu # rho)) (mu # rho), layer_value fr_q t (length (mu # rho)) (mu # rho), mu # rho) ts1
          = Ok ((layer_value fr_p t n xi', layer_value fr_q t n xi', xi'), ts')" by blast
  have range: "[length xi..<length xi + Suc m] = length xi # [length (mu # rho)..<length (mu # rho) + m]"
    using one(2) by (simp add: upt_conv_Cons)
  have prover: "vfor (prove_gkr_round T K t) [length xi..<length xi + Suc m] (cs, ps, xi) ts = Ok ((cs @ layer # layers, ps @ es # ess, xi'), ts')"
    unfolding range vfor.simps vbind_def one(3) rbind.simps prod.case rest(5) by simp
  have "vfor (gkr_round T K p) [length xi..<length xi + Suc m] (layer_value fr_p t (length xi) xi, layer_value fr_q t (length xi) xi, xi) ts
      = Ok ((layer_value fr_p t n xi', layer_value fr_q t n xi', xi'), ts')"
    if p: "claims_per_layer p = c0 @ layer # layers" "length c0 = length xi" "sumcheck_polys p = e0 @ es # ess" "length e0 = length xi - 1" for p c0 e0
  proof -
    have "gkr_round T K p (length xi) (layer_value fr_p t (length xi) xi, layer_value fr_q t (length xi) xi, xi) ts
        = Ok ((layer_value fr_p t (length (mu # rho)) (mu # rho), layer_value fr_q t (length (mu # rho)) (mu # rho), mu # rho), ts1)"
      using one(4) [of p] p one(2) by (simp add: nth_append)
    moreover have "vfor (gkr_round T K p) [length (mu # rho)..<length (mu # rho) + m]
          (layer_value fr_p t (length (mu # rho)) (mu # rho), layer_value fr_q t (length (mu # rho)) (mu # rho), mu # rho) ts1
          = Ok ((layer_value fr_p t n xi', layer_value fr_q t n xi', xi'), ts')"
      by (rule rest(6) [of p "c0 @ [layer]" "e0 @ [es]"]) (use p one(2) Suc.prems(2) in simp_all)
    ultimately show ?thesis unfolding range vfor.simps vbind_def by (simp only: rbind.simps prod.case)
  qed
  with prover rest(1-4) show ?case
    by (intro exI [of _ "layer # layers"] exI [of _ "es # ess"] exI [of _ xi'] exI [of _ ts']) simp
qed

text \<open>The whole protocol.\<close>

lemma run_fractional_sumcheck:
  fixes K :: "('f, 'ef::field) field_ops" and evals :: "'ef frac list"
  assumes inv: "inv ts" and len: "length evals = 2 ^ n" and n: "0 < n" "n < 63" and six: "(6 :: 'ef) \<noteq> 0"
    and q: "\<forall>f \<in> set evals. fr_q f \<noteq> 0" and zero: "(\<Sum>f \<leftarrow> evals. fr_p f / fr_q f) = 0"
  shows "\<exists>pf xi ts'. inv ts' \<and> length xi = n \<and> fractional_sumcheck T K evals True ts = Ok ((pf, xi), ts') \<and>
     fst (fractional_sum pf) = 0 \<and> snd (fractional_sum pf) \<noteq> 0 \<and>
     verify_gkr T K \<lparr>logup_pow_witness = w, q0_claim = snd (fractional_sum pf), claims_per_layer = frac_claims_per_layer pf,
        sumcheck_polys = frac_sumcheck_polys pf\<rparr> n ts = Ok ((mle_sum (map fr_p evals) xi, mle_sum (map fr_q evals) xi, xi), ts')"
proof -
  from frac_tree_Ok [OF len n(2), where 'e = logup_zerocheck_error] obtain t
    where tree: "frac_tree n evals = (Ok t :: (_, logup_zerocheck_error) res)" and t: "is_frac_tree n evals t" by blast
  have lt: "length t = 2 * 2 ^ n" "t ! 1 = frac_add (t ! 2) (t ! 3)"
  proof -
    show "length t = 2 * 2 ^ n" using t by (simp add: is_frac_tree_def)
    have "(0 :: nat) < 1 \<and> 1 < (2 :: nat) ^ n" using one_less_power [of "2 :: nat" n] n(1) by simp
    then have "t ! 1 = frac_add (t ! (2 * 1)) (t ! (2 * 1 + 1))" using t unfolding is_frac_tree_def by blast
    then show "t ! 1 = frac_add (t ! 2) (t ! 3)" by (simp add: numeral_3_eq_3)
  qed
  have "4 \<le> length t" unfolding lt using n(1) by (cases n) simp_all
  then have at: "index t 1 = (Ok (t ! 1) :: (_, logup_zerocheck_error) res)" "index t 2 = (Ok (t ! 2) :: (_, logup_zerocheck_error) res)"
    "index t 3 = (Ok (t ! 3) :: (_, logup_zerocheck_error) res)" by simp_all
  define Q where "Q = fr_q (t ! 1)"
  have root: "fr_p (t ! 1) = 0" "Q \<noteq> 0" using root_fraction [OF t len q] zero by (simp_all add: Q_def)
  define layer where "layer = \<lparr>p_xi_0 = fr_p (t ! 2), p_xi_1 = fr_p (t ! 3), q_xi_0 = fr_q (t ! 2), q_xi_1 = fr_q (t ! 3)\<rparr>"
  have relations: "compute_recursive_relations layer = (0, Q)"
    using root(1) unfolding compute_recursive_relations_def layer_def Q_def lt(2) frac_add_def by (simp add: mult.commute)
  from both_observe [OF inv, where 'e = logup_zerocheck_error and 'g = "'ef gkr_error", of K Q] obtain ts1 where
    ts1: "v_observe_ext T K Q ts = (Ok ((), ts1) :: (_, logup_zerocheck_error) res)"
      "v_observe_ext T K Q ts = (Ok ((), ts1) :: (_, 'ef gkr_error) res)" "inv ts1" by blast
  from both_layer_claims [OF ts1(3), where 'e = logup_zerocheck_error and 'g = "'ef gkr_error", of K layer] obtain ts2 where
    ts2: "observe_layer_claims T K layer ts1 = (Ok ((), ts2) :: (_, logup_zerocheck_error) res)"
      "observe_layer_claims T K layer ts1 = (Ok ((), ts2) :: (_, 'ef gkr_error) res)" "inv ts2" by blast
  from both_sample [OF ts2(3), where 'e = logup_zerocheck_error and 'g = "'ef gkr_error", of K] obtain mu ts3 where
    ts3: "v_sample_ext T K ts2 = (Ok (mu, ts3) :: (_, logup_zerocheck_error) res)"
      "v_sample_ext T K ts2 = (Ok (mu, ts3) :: (_, 'ef gkr_error) res)" "inv ts3" by blast
  have first_layer: "tree_layer t 1 ! 0 = t ! 2" "tree_layer t 1 ! 1 = t ! 3"
    using tree_layer(3) [OF t, of 1] n(1) by (simp_all add: numeral_2_eq_2 numeral_3_eq_3)
  have start: "reduce_to_single_evaluation layer mu = (layer_value fr_p t 1 [mu], layer_value fr_q t 1 [mu])"
    using next_claim [OF t, of "[]" _ mu] n(1) first_layer
    by (simp add: reduce_to_single_evaluation_def layer_def entries_def mle_sum_def)
  have m: "length [mu] + (n - 1) = n" "0 < length [mu]" "n < 64" using n by simp_all
  from run_gkr_rounds [OF ts3(3) t m(3) six m(2,1), of K "[layer]" "[]", unfolded m(1)] obtain layers ess xi ts' where
    rounds: "inv ts'" "length layers = n - 1" "length ess = n - 1" "length xi = n"
     and run: "vfor (prove_gkr_round T K t) [length [mu]..<n] ([layer], [], [mu]) ts3 = Ok (([layer] @ layers, [] @ ess, xi), ts')"
     and accept: "\<And>p c0 e0. claims_per_layer p = c0 @ layers \<Longrightarrow> length c0 = length [mu] \<Longrightarrow> sumcheck_polys p = e0 @ ess \<Longrightarrow> length e0 = length [mu] - 1 \<Longrightarrow>
        vfor (gkr_round T K p) [length [mu]..<n] (layer_value fr_p t (length [mu]) [mu], layer_value fr_q t (length [mu]) [mu], [mu]) ts3
          = Ok ((layer_value fr_p t n xi, layer_value fr_q t n xi, xi), ts')" by blast
  have one: "length [mu] = 1" by simp
  have run: "vfor (prove_gkr_round T K t) [1..<n] ([layer], [], [mu]) ts3 = Ok ((layer # layers, ess, xi), ts')"
    using run unfolding one append.simps .
  have accept: "vfor (gkr_round T K p) [1..<n] (layer_value fr_p t 1 [mu], layer_value fr_q t 1 [mu], [mu]) ts3
          = Ok ((layer_value fr_p t n xi, layer_value fr_q t n xi, xi), ts')"
    if "claims_per_layer p = layer # layers" "sumcheck_polys p = ess" for p
    using accept [of p "[layer]" "[]"] that unfolding one by simp
  define pf where "pf = \<lparr>fractional_sum = (0, Q), frac_claims_per_layer = layer # layers, frac_sumcheck_polys = ess\<rparr>"
  have "evals \<noteq> []" using len by auto
  then have prover: "fractional_sumcheck T K evals True ts = Ok ((pf, xi), ts')"
    unfolding fractional_sumcheck_def if_not_P [OF \<open>evals \<noteq> []\<close>] len log2_strict_power
    by (simp only: vbind_def vlift_def tree at rbind.simps prod.case if_True root(1) vcheck_def ensure_that_def ts1 ts2 ts3
        layer_def [symmetric] Q_def [symmetric] Let_def run vret_def pf_def simp_thms)
  define p where "p = \<lparr>logup_pow_witness = w, q0_claim = Q, claims_per_layer = layer # layers, sumcheck_polys = ess\<rparr>"
  have p: "q0_claim p = Q" "claims_per_layer p = layer # layers" "sumcheck_polys p = ess" by (simp_all add: p_def)
  have checks: "0 < n" "length (layer # layers) = n" "length ess = n - 1" "(0 :: 'ef) = 0" "Q = Q" using rounds(2,3) n by simp_all
  have heads: "index (layer # layers) 0 = (Ok layer :: (_, 'ef gkr_error) res)" by simp
  have "verify_gkr T K p n ts = Ok ((layer_value fr_p t n xi, layer_value fr_q t n xi, xi), ts')"
    unfolding verify_gkr_def p vbind_assert_run [OF checks(1)] vbind_check_run [OF checks(2)] vbind_check_run [OF checks(3)] heads
      vbind_run [of "v_observe_ext T K Q", OF ts1(2)] vbind_lift_run vbind_run [of "observe_layer_claims T K layer", OF ts2(2)]
      relations Let_def prod.case vbind_check_run [OF checks(4)] vbind_check_run [OF checks(5)] vbind_run [of "v_sample_ext T K", OF ts3(2)]
      start by (rule accept) (simp_all add: p)
  then have "verify_gkr T K p n ts = Ok ((mle_sum (map fr_p evals) xi, mle_sum (map fr_q evals) xi, xi), ts')"
    by (simp add: tree_layer(4) [OF t order_refl])
  with prover rounds(1,4) root show ?thesis by (intro exI [of _ pf] exI [of _ xi] exI [of _ ts']) (simp add: pf_def p_def)
qed

end

section \<open>Properties\<close>

text \<open>C5. The GKR prover convinces the GKR verifier. Let \<open>2 ^ n\<close> fractions with non-zero denominators add up to zero. From
  any transcript state \<open>fractional_sumcheck\<close> returns, and \<open>verify_gkr\<close>, started in the same state, accepts what it
  returned and ends in the same state; both arrive at the same point, and the two claims that are left are the
  values there of the multilinear extensions of the numerators and of the denominators.\<close>
theorem gkr_complete:
  fixes K :: "('f, 'ef::field) field_ops" and evals :: "'ef frac list"
  assumes "transcript T I wf_digest" and "I ts" and "length evals = 2 ^ n" and "0 < n" and "n < 63" and "(6 :: 'ef) \<noteq> 0"
    and "\<forall>f \<in> set evals. fr_q f \<noteq> 0" and "(\<Sum>f \<leftarrow> evals. fr_p f / fr_q f) = 0"
  shows "\<exists>pf xi numer denom ts'. fractional_sumcheck T K evals True ts = Ok ((pf, xi), ts') \<and>
     verify_gkr T K \<lparr>logup_pow_witness = w, q0_claim = snd (fractional_sum pf), claims_per_layer = frac_claims_per_layer pf,
        sumcheck_polys = frac_sumcheck_polys pf\<rparr> n ts = Ok ((numer, denom, xi), ts') \<and>
     eval_mle_evals_at_point (map fr_p evals) xi = (Ok numer :: (_, 'e) res) \<and>
     eval_mle_evals_at_point (map fr_q evals) xi = (Ok denom :: (_, 'e) res)"
proof -
  from transcript.run_fractional_sumcheck [OF assms, of K w] obtain pf xi ts' where
    run: "length xi = n" "fractional_sumcheck T K evals True ts = Ok ((pf, xi), ts')"
     "verify_gkr T K \<lparr>logup_pow_witness = w, q0_claim = snd (fractional_sum pf), claims_per_layer = frac_claims_per_layer pf,
        sumcheck_polys = frac_sumcheck_polys pf\<rparr> n ts = Ok ((mle_sum (map fr_p evals) xi, mle_sum (map fr_q evals) xi, xi), ts')" by blast
  have "eval_mle_evals_at_point (map f evals) xi = (Ok (mle_sum (map f evals) xi) :: (_, 'e) res)" for f :: "'ef frac \<Rightarrow> 'ef"
    using run(1) assms(3) by (simp add: eval_mle_sum)
  with run(2,3) show ?thesis by blast
qed

definition sample_fractions :: "f17 frac list" where
  "sample_fractions = [\<lparr>fr_p = 1, fr_q = 1\<rparr>, \<lparr>fr_p = - 1, fr_q = 1\<rparr>, \<lparr>fr_p = 2, fr_q = 3\<rparr>, \<lparr>fr_p = - 2, fr_q = 3\<rparr>]"

lemma sample_fractions_zero:
  "length sample_fractions = 2 ^ 2" "\<forall>f \<in> set sample_fractions. fr_q f \<noteq> 0" "(\<Sum>f \<leftarrow> sample_fractions. fr_p f / fr_q f) = 0"
  by (simp_all add: sample_fractions_def) (simp add: f17_numeral f17_zero_iff)

theorem gkr_complete_witness:
  "\<exists>pf xi numer denom ts'. fractional_sumcheck (sponge_ops f17_sponge) f17_ops sample_fractions True (sponge_from f17_sponge) = Ok ((pf, xi), ts') \<and>
     verify_gkr (sponge_ops f17_sponge) f17_ops \<lparr>logup_pow_witness = 0, q0_claim = snd (fractional_sum pf), claims_per_layer = frac_claims_per_layer pf,
        sumcheck_polys = frac_sumcheck_polys pf\<rparr> 2 (sponge_from f17_sponge) = Ok ((numer, denom, xi), ts') \<and>
     eval_mle_evals_at_point (map fr_p sample_fractions) xi = (Ok numer :: (_, unit) res) \<and>
     eval_mle_evals_at_point (map fr_q sample_fractions) xi = (Ok denom :: (_, unit) res)"
  using gkr_complete [OF f17_duplex.transcript_axioms sponge_inv_from [OF wf_f17_sponge] sample_fractions_zero(1) _ _ f17_nonzero(2)
      sample_fractions_zero(2,3), of f17_ops 0, where 'e = unit]
  by simp

text \<open>C38. What the GKR prover refuses. With \<open>assert_zero\<close>, fractions with non-zero denominators that do not add up to zero
  (\<open>2 ^ n\<close> of them, \<open>n < 63\<close>) give \<open>NonZeroRootSum\<close>. A number of fractions that is not a
  power of two makes it panic. A single fraction has no layer below the root: the prover panics, unless \<open>assert_zero\<close> is
  set and the numerator is not zero, when it returns \<open>NonZeroRootSum\<close> first. No fractions at all are the empty proof of
  the fraction 0/1, and the transcript stays as it was.\<close>
theorem fractional_sumcheck_errors:
  fixes K :: "('f, 'ef::field) field_ops" and evals :: "'ef frac list"
  assumes "transcript T I wf_digest" and "I ts"
  shows "(length evals = 2 ^ n \<longrightarrow> n < 63 \<longrightarrow> (\<forall>f \<in> set evals. fr_q f \<noteq> 0) \<longrightarrow> (\<Sum>f \<leftarrow> evals. fr_p f / fr_q f) \<noteq> 0 \<longrightarrow>
       fractional_sumcheck T K evals True ts = Err NonZeroRootSum) \<and>
     (evals \<noteq> [] \<longrightarrow> \<not> is_pow2 (length evals) \<longrightarrow> fractional_sumcheck T K evals zero ts = Panic) \<and>
     fractional_sumcheck T K [f] zero ts = (if zero \<and> fr_p f \<noteq> 0 then Err NonZeroRootSum else Panic) \<and>
     fractional_sumcheck T K [] zero ts = Ok ((\<lparr>fractional_sum = (0, 1), frac_claims_per_layer = [], frac_sumcheck_polys = []\<rparr>, []), ts)"
proof (intro conjI impI)
  assume len: "length evals = 2 ^ n" and n: "n < 63" and q: "\<forall>f \<in> set evals. fr_q f \<noteq> 0" and sum: "(\<Sum>f \<leftarrow> evals. fr_p f / fr_q f) \<noteq> 0"
  from frac_tree_Ok [OF len n, where 'e = logup_zerocheck_error] obtain t
    where tree: "frac_tree n evals = (Ok t :: (_, logup_zerocheck_error) res)" and t: "is_frac_tree n evals t" by blast
  have "fr_p (t ! 1) \<noteq> 0" using root_fraction [OF t len q] sum by simp
  moreover have "length t = 2 * 2 ^ n" using t by (simp add: is_frac_tree_def)
  then have "1 < length t" using one_le_power [of "2 :: nat" n] by linarith
  moreover have "evals \<noteq> []" using len by auto
  ultimately show "fractional_sumcheck T K evals True ts = Err NonZeroRootSum"
    by (simp add: fractional_sumcheck_def len vbind_def vlift_def tree vcheck_def ensure_that_def)
next
  assume "evals \<noteq> []" and "\<not> is_pow2 (length evals)"
  then show "fractional_sumcheck T K evals zero ts = Panic"
    by (simp add: fractional_sumcheck_def vbind_def vlift_def log2_strict_def)
next
  have tree: "frac_tree 0 [f] = (Ok [\<lparr>fr_p = 0, fr_q = 0\<rparr>, f] :: (_, logup_zerocheck_error) res)"
  proof -
    have "shl64 2 0 = (Ok 2 :: (nat, logup_zerocheck_error) res)" "shl64 1 0 = (Ok 1 :: (nat, logup_zerocheck_error) res)"
      by (simp_all add: shl64_def)
    then show ?thesis by (simp add: frac_tree_def Let_def)
  qed
  have one: "log2_strict (length [f]) = (Ok 0 :: (_, logup_zerocheck_error) res)" by (simp add: log2_strict_Ok_iff)
  have obs: "\<exists>s'. v_observe_ext T K x s = (Ok ((), s') :: (_, logup_zerocheck_error) res) \<and> I s'" if "I s" for x s
    using transcript.both_observe [OF assms(1) that, of K x] by blast
  from obs [OF assms(2), of "fr_p f"] obtain s1 where s1: "v_observe_ext T K (fr_p f) ts = (Ok ((), s1) :: (_, logup_zerocheck_error) res)" "I s1" by blast
  from obs [OF s1(2), of "fr_q f"] obtain s2 where s2: "v_observe_ext T K (fr_q f) s1 = (Ok ((), s2) :: (_, logup_zerocheck_error) res)" by blast
  from obs [OF assms(2), of "fr_q f"] obtain s3 where s3: "v_observe_ext T K (fr_q f) ts = (Ok ((), s3) :: (_, logup_zerocheck_error) res)" by blast
  show "fractional_sumcheck T K [f] zero ts = (if zero \<and> fr_p f \<noteq> 0 then Err NonZeroRootSum else Panic)"
    unfolding fractional_sumcheck_def one
    using s1(1) by (simp add: vbind_def vlift_def tree vcheck_def ensure_that_def s2 s3 index_def)
qed (simp add: fractional_sumcheck_def vret_def)

theorem fractional_sumcheck_errors_witness:
  "fractional_sumcheck (sponge_ops f17_sponge) f17_ops [\<lparr>fr_p = 1, fr_q = 1\<rparr>, \<lparr>fr_p = 1, fr_q = 1\<rparr>] True (sponge_from f17_sponge) = Err NonZeroRootSum \<and>
   fractional_sumcheck (sponge_ops f17_sponge) f17_ops [\<lparr>fr_p = 1, fr_q = 1\<rparr>, \<lparr>fr_p = 1, fr_q = 1\<rparr>, \<lparr>fr_p = 1, fr_q = 1\<rparr>] True (sponge_from f17_sponge) = Panic \<and>
   fractional_sumcheck (sponge_ops f17_sponge) f17_ops [\<lparr>fr_p = 0, fr_q = 1\<rparr>] True (sponge_from f17_sponge) = Panic \<and>
   fractional_sumcheck (sponge_ops f17_sponge) f17_ops [\<lparr>fr_p = 1, fr_q = 1\<rparr>] True (sponge_from f17_sponge) = Err NonZeroRootSum"
proof -
  note e = fractional_sumcheck_errors [OF f17_duplex.transcript_axioms sponge_inv_from [OF wf_f17_sponge], of _ _ f17_ops]
  have "(1 :: f17) + 1 \<noteq> 0" using f17_nonzero(1) by simp
  moreover have "\<not> is_pow2 (Suc (Suc (Suc 0)))" by (simp add: is_pow2.simps)
  ultimately show ?thesis
    using e [of "[\<lparr>fr_p = 1, fr_q = 1\<rparr>, \<lparr>fr_p = 1, fr_q = 1\<rparr>]" 1]
      e [of "[\<lparr>fr_p = 1, fr_q = 1\<rparr>, \<lparr>fr_p = 1, fr_q = 1\<rparr>, \<lparr>fr_p = 1, fr_q = 1\<rparr>]" 1 True "\<lparr>fr_p = 0, fr_q = 1\<rparr>"]
      e [of "[]" 1 True "\<lparr>fr_p = 1, fr_q = 1\<rparr>"] by simp
qed

end
