(* ===== verification/BatchInverse.thy ===== *)
theory BatchInverse
  imports PlePoly
begin

text \<open>
  Inverting many field elements with one inversion (\<open>utils/batch_inverse.rs\<close>), Montgomery's trick, on
  four interleaved sequences when the length allows it. Plonky3's \<open>FieldArray\<close> is the parameter
  \<open>field_array\<close>; its laws are the locale \<open>array_laws\<close>.
\<close>

section \<open>The code\<close>

record ('f, 'a) field_array =
  fa_pack :: "'f list \<Rightarrow> 'a list"
  fa_unpack :: "'a list \<Rightarrow> 'f list"
  fa_lanes :: "'a \<Rightarrow> 'f list"
  fa_of_lanes :: "'f list \<Rightarrow> 'a"
  fa_one :: 'a
  fa_mul :: "'a \<Rightarrow> 'a \<Rightarrow> 'a"

text \<open>The ring operations and the inversion are arguments, as in the code.\<close>

definition batch_inverse_general ::
  "'a \<Rightarrow> ('a \<Rightarrow> 'a \<Rightarrow> 'a) \<Rightarrow> ('a \<Rightarrow> ('a, 'e) res) \<Rightarrow> 'a list \<Rightarrow> 'a list \<Rightarrow> ('a list, 'e) res" where
  "batch_inverse_general one mul inv_of x result =
     (let n = length x in
      rbind (assert_that (length result = n)) (\<lambda>_.
      if n = 0 then Ok result else
      rbind (rfold (\<lambda>i result.
          rbind (index result (i - 1)) (\<lambda>r_prev.
          rbind (index x (i - 1)) (\<lambda>x_prev.
          rbind (index result i) (\<lambda>_. Ok (result[i := mul r_prev x_prev]))))) [1..<n] (result[0 := one])) (\<lambda>result.
      rbind (index result (n - 1)) (\<lambda>r_last.
      rbind (index x (n - 1)) (\<lambda>x_last.
      rbind (inv_of (mul r_last x_last)) (\<lambda>inv.
      rbind (rfold (\<lambda>i (result, inv).
          rbind (index result i) (\<lambda>r_i.
          rbind (index x i) (\<lambda>x_i. Ok (result[i := mul r_i inv], mul inv x_i)))) (rev [0..<n]) (result, inv)) (\<lambda>(result, _).
      Ok result)))))))"

definition batch_inverse_helper :: "('f::field, 'a) field_array \<Rightarrow> 'f list \<Rightarrow> 'f list \<Rightarrow> ('f list, 'e) res" where
  "batch_inverse_helper A x result =
     (let n = length x; width = 4 in
      rbind (assert_that (length result = n)) (\<lambda>_.
      if n mod width \<noteq> 0 then batch_inverse_general 1 (*) checked_inverse x result
      else
        let inv = (\<lambda>x_packed. rbind (batch_inverse_general 1 (*) checked_inverse (fa_lanes A x_packed) (replicate 4 0)) (\<lambda>r.
                     Ok (fa_of_lanes A r))) in
        rbind (batch_inverse_general (fa_one A) (fa_mul A) inv (fa_pack A x) (fa_pack A result)) (\<lambda>packed.
        Ok (fa_unpack A packed))))"

definition batch_multiplicative_inverse_serial :: "('f::field, 'a) field_array \<Rightarrow> 'f list \<Rightarrow> ('f list, 'e) res" where
  "batch_multiplicative_inverse_serial A x = batch_inverse_helper A x (replicate (length x) 0)"

section \<open>What the two loops leave\<close>

lemma forward_loop:
  assumes len: "length result = length x" and m: "0 < m" "m \<le> length x"
  shows "rfold (\<lambda>i result. rbind (index result (i - 1)) (\<lambda>r_prev. rbind (index x (i - 1)) (\<lambda>x_prev.
          rbind (index result i) (\<lambda>_. Ok (result[i := mul r_prev x_prev]))))) [1..<m] (result[0 := one])
     = (Ok (map (\<lambda>i. foldl mul one (take i x)) [0..<m] @ drop m result) :: (_, 'e) res)"
  using m
proof (induction m)
  case (Suc m)
  show ?case
  proof (cases "m = 0")
    case True
    with len Suc.prems show ?thesis by (cases result) simp_all
  next
    case False
    let ?cur = "map (\<lambda>i. foldl mul one (take i x)) [0..<m] @ drop m result"
    have range: "[1..<Suc m] = [1..<m] @ [m]" using False by simp
    have at: "?cur ! (m - 1) = foldl mul one (take (m - 1) x)" "m - 1 < length ?cur" "m < length ?cur" "m - 1 < length x" "m < length result"
      using False Suc.prems len by (simp_all add: nth_append)
    have next_product: "mul (foldl mul one (take (m - 1) x)) (x ! (m - 1)) = foldl mul one (take m x)"
      using at(4) False take_Suc_conv_app_nth [OF at(4)] by simp
    have "?cur[m := foldl mul one (take m x)] = map (\<lambda>i. foldl mul one (take i x)) [0..<Suc m] @ drop (Suc m) result"
      using at(5) by (simp add: list_update_append Cons_nth_drop_Suc [symmetric])
    then show ?thesis using Suc.IH False Suc.prems at unfolding range rfold_append by (simp add: next_product [unfolded One_nat_def])
  qed
qed simp

lemma backward_loop:
  assumes len: "length result = length x" and m: "m \<le> length x"
  shows "rfold (\<lambda>i (result, inv). rbind (index result i) (\<lambda>r_i. rbind (index x i) (\<lambda>x_i. Ok (result[i := mul r_i inv], mul inv x_i))))
       (rev [length x - m..<length x]) (result, v)
     = (Ok (take (length x - m) result @ map (\<lambda>i. mul (result ! i) (foldl mul v (rev (drop (Suc i) x)))) [length x - m..<length x],
            foldl mul v (rev (drop (length x - m) x))) :: (_, 'e) res)"
  using m
proof (induction m)
  case 0
  then show ?case by (simp add: len)
next
  case (Suc m)
  define j where "j = length x - Suc m"
  have j: "j < length x" "length x - m = Suc j" using Suc.prems by (auto simp: j_def)
  have range: "[j..<length x] = j # [Suc j..<length x]" using j(1) by (simp add: upt_conv_Cons)
  let ?tail = "map (\<lambda>i. mul (result ! i) (foldl mul v (rev (drop (Suc i) x)))) [Suc j..<length x]"
  have at: "(take (Suc j) result @ ?tail) ! j = result ! j" "j < length (take (Suc j) result @ ?tail)" using j len by (simp_all add: nth_append)
  have upd: "(take (Suc j) result @ ?tail)[j := y] = take j result @ y # ?tail" for y
    using j len by (simp add: take_Suc_conv_app_nth list_update_append)
  have "drop j x = x ! j # drop (Suc j) x" using j(1) by (simp add: Cons_nth_drop_Suc)
  then have v: "mul (foldl mul v (rev (drop (Suc j) x))) (x ! j) = foldl mul v (rev (drop j x))" by simp
  show ?case
    using Suc.IH Suc.prems at j(1) unfolding j_def [symmetric] j(2) range by (simp add: rfold_append range upd v)
qed

lemma batch_general_run:
  assumes "length result = length x" and "x \<noteq> []"
  shows "batch_inverse_general one mul inv_of x result = rbind (inv_of (foldl mul one x)) (\<lambda>v.
     Ok (map (\<lambda>i. mul (foldl mul one (take i x)) (foldl mul v (rev (drop (Suc i) x)))) [0..<length x]))"
proof -
  let ?pre = "map (\<lambda>i. foldl mul one (take i x)) [0..<length x]"
  have n: "0 < length x" using assms(2) by simp
  have last: "?pre ! (length x - 1) = foldl mul one (take (length x - 1) x)" using n by simp
  have "foldl mul one x = foldl mul one (take (Suc (length x - 1)) x)" using n by simp
  also have "\<dots> = mul (foldl mul one (take (length x - 1) x)) (x ! (length x - 1))"
    using n by (subst take_Suc_conv_app_nth) simp_all
  finally have total: "mul (foldl mul one (take (length x - 1) x)) (x ! (length x - 1)) = foldl mul one x" by simp
  have undo: "rfold (\<lambda>i (result, inv). rbind (index result i) (\<lambda>r_i. rbind (index x i) (\<lambda>x_i. Ok (result[i := mul r_i inv], mul inv x_i))))
       (rev [0..<length x]) (?pre, v)
     = (Ok (map (\<lambda>i. mul (foldl mul one (take i x)) (foldl mul v (rev (drop (Suc i) x)))) [0..<length x], foldl mul v (rev x)) :: (_, 'e) res)" for v
  proof -
    have "map (\<lambda>i. mul (?pre ! i) (foldl mul v (rev (drop (Suc i) x)))) [0..<length x]
        = map (\<lambda>i. mul (foldl mul one (take i x)) (foldl mul v (rev (drop (Suc i) x)))) [0..<length x]"
      by (rule map_cong) simp_all
    with backward_loop [of ?pre x "length x" mul v] show ?thesis by simp
  qed
  have step: "rfold (\<lambda>i result. rbind (index result (i - 1)) (\<lambda>r_prev. rbind (index x (i - 1)) (\<lambda>x_prev.
          rbind (index result i) (\<lambda>_. Ok (result[i := mul r_prev x_prev]))))) [1..<length x] (result[0 := one]) = (Ok ?pre :: (_, 'e) res)"
    using forward_loop [OF assms(1) n order_refl, of mul one] by (simp add: assms(1))
  have at: "index ?pre (length x - 1) = (Ok (foldl mul one (take (length x - 1) x)) :: (_, 'e) res)"
    "index x (length x - 1) = (Ok (x ! (length x - 1)) :: (_, 'e) res)" "length result = length x" "length x \<noteq> 0"
    using n last by (simp_all add: assms(1))
  show ?thesis
    unfolding batch_inverse_general_def Let_def at(3) step
    by (simp only: at(4) if_False assert_that_def simp_thms if_True rbind.simps step at(1,2) total undo prod.case)
qed

section \<open>Over a field\<close>

lemma foldl_times: "foldl (*) a xs = a * prod_list xs" for a :: "'f::field"
  by (induction xs arbitrary: a) (simp_all add: mult.assoc)

lemma prod_list_zero: "prod_list xs = 0 \<longleftrightarrow> 0 \<in> set xs" for xs :: "'f::field list"
  by (induction xs) auto

lemma prod_list_rev: "prod_list (rev xs) = prod_list xs" for xs :: "'f::field list"
  by (induction xs) (simp_all add: mult.commute)

text \<open>The product of all other entries.\<close>

lemma others_product:
  assumes "i < length x" and "0 \<notin> set x"
  shows "prod_list (take i x) * (inverse (prod_list x) * prod_list (drop (Suc i) x)) = inverse (x ! i :: 'f::field)"
proof -
  have x: "x = take i x @ x ! i # drop (Suc i) x" using assms(1) by (simp add: id_take_nth_drop)
  have nz: "prod_list (take i x) \<noteq> 0" "x ! i \<noteq> 0" "prod_list (drop (Suc i) x) \<noteq> 0"
    using assms by (auto simp: prod_list_zero dest: in_set_takeD in_set_dropD) (metis nth_mem)
  have "prod_list x = prod_list (take i x) * (x ! i * prod_list (drop (Suc i) x))" by (subst x) simp
  with nz show ?thesis by (simp add: field_simps)
qed

lemma batch_general_field:
  assumes "length result = length x"
  shows "batch_inverse_general 1 (*) checked_inverse x result = (if 0 \<in> set x then Panic else Ok (map inverse x) :: ('f::field list, 'e) res)"
proof (cases "x = []")
  case True
  with assms show ?thesis by (simp add: batch_inverse_general_def)
next
  case False
  have "map (\<lambda>i. foldl (*) 1 (take i x) * foldl (*) (inverse (prod_list x)) (rev (drop (Suc i) x))) [0..<length x] = map inverse x" if "0 \<notin> set x"
    by (rule nth_equalityI) (simp_all add: foldl_times prod_list_rev others_product that)
  then show ?thesis by (simp add: batch_general_run [OF assms False] foldl_times checked_inverse_def prod_list_zero)
qed

section \<open>Over arrays of four\<close>

locale array_laws =
  fixes A :: "('f::field, 'a) field_array"
  assumes lanes_length: "length (fa_lanes A a) = 4"
    and of_lanes: "length xs = 4 \<Longrightarrow> fa_lanes A (fa_of_lanes A xs) = xs"
    and unpack: "fa_unpack A as = concat (map (fa_lanes A) as)"
    and pack: "length xs mod 4 = 0 \<Longrightarrow> map (fa_lanes A) (fa_pack A xs) = chunks 4 xs"
    and one_lanes: "fa_lanes A (fa_one A) = replicate 4 1"
    and mul_lanes: "fa_lanes A (fa_mul A a b) = map2 (*) (fa_lanes A a) (fa_lanes A b)"
begin

lemma foldl_lanes: "k < 4 \<Longrightarrow> fa_lanes A (foldl (fa_mul A) a as) ! k = fa_lanes A a ! k * prod_list (map (\<lambda>b. fa_lanes A b ! k) as)"
  by (induction as arbitrary: a) (simp_all add: mul_lanes lanes_length mult.assoc)

lemma array_inverse:
  "rbind (batch_inverse_general 1 (*) checked_inverse (fa_lanes A a) (replicate 4 0)) (\<lambda>r. Ok (fa_of_lanes A r))
     = (if 0 \<in> set (fa_lanes A a) then Panic else Ok (fa_of_lanes A (map inverse (fa_lanes A a))) :: (_, 'e) res)"
  by (simp add: batch_general_field lanes_length)

lemma array_product: "k < 4 \<Longrightarrow> fa_lanes A (foldl (fa_mul A) (fa_one A) as) ! k = prod_list (map (\<lambda>b. fa_lanes A b ! k) as)"
  by (simp add: foldl_lanes one_lanes)

lemma array_product_zero:
  "0 \<in> set (fa_lanes A (foldl (fa_mul A) (fa_one A) as)) \<longleftrightarrow> (\<exists>a \<in> set as. 0 \<in> set (fa_lanes A a))"
proof -
  have "0 \<in> set (fa_lanes A (foldl (fa_mul A) (fa_one A) as)) \<longleftrightarrow> (\<exists>k<4. prod_list (map (\<lambda>b. fa_lanes A b ! k) as) = 0)"
    unfolding in_set_conv_nth lanes_length using array_product by force
  also have "\<dots> \<longleftrightarrow> (\<exists>k<4. \<exists>a \<in> set as. fa_lanes A a ! k = 0)"
    unfolding prod_list_zero by (force simp: image_iff)
  also have "\<dots> \<longleftrightarrow> (\<exists>a \<in> set as. 0 \<in> set (fa_lanes A a))"
    unfolding in_set_conv_nth lanes_length by blast
  finally show ?thesis .
qed

lemma array_entry:
  assumes "i < length as" and "\<forall>a \<in> set as. 0 \<notin> set (fa_lanes A a)"
  shows "fa_lanes A (fa_mul A (foldl (fa_mul A) (fa_one A) (take i as))
       (foldl (fa_mul A) (fa_of_lanes A (map inverse (fa_lanes A (foldl (fa_mul A) (fa_one A) as)))) (rev (drop (Suc i) as))))
     = map inverse (fa_lanes A (as ! i))"
proof (rule nth_equalityI)
  fix k
  assume "k < length (fa_lanes A (fa_mul A (foldl (fa_mul A) (fa_one A) (take i as))
       (foldl (fa_mul A) (fa_of_lanes A (map inverse (fa_lanes A (foldl (fa_mul A) (fa_one A) as)))) (rev (drop (Suc i) as)))))"
  then have k: "k < 4" by (simp add: lanes_length)
  let ?x = "map (\<lambda>b. fa_lanes A b ! k) as"
  have "0 \<notin> set ?x"
  proof
    assume "0 \<in> set ?x"
    then obtain a where "a \<in> set as" "fa_lanes A a ! k = 0" by auto
    with assms(2) k show False using nth_mem [of k "fa_lanes A a"] by (simp add: lanes_length)
  qed
  with others_product [of i ?x] assms(1) k
  show "fa_lanes A (fa_mul A (foldl (fa_mul A) (fa_one A) (take i as))
       (foldl (fa_mul A) (fa_of_lanes A (map inverse (fa_lanes A (foldl (fa_mul A) (fa_one A) as)))) (rev (drop (Suc i) as)))) ! k
     = map inverse (fa_lanes A (as ! i)) ! k"
    by (simp add: mul_lanes lanes_length foldl_lanes one_lanes of_lanes array_product prod_list_rev take_map drop_map rev_map [symmetric])
qed (simp add: mul_lanes lanes_length)

lemma batch_general_arrays:
  assumes "length result = length as"
  shows "rbind (batch_inverse_general (fa_one A) (fa_mul A)
       (\<lambda>a. rbind (batch_inverse_general 1 (*) checked_inverse (fa_lanes A a) (replicate 4 0)) (\<lambda>r. Ok (fa_of_lanes A r))) as result)
       (\<lambda>packed. Ok (fa_unpack A packed))
     = (if 0 \<in> set (concat (map (fa_lanes A) as)) then Panic else Ok (map inverse (concat (map (fa_lanes A) as))) :: (_, 'e) res)"
proof (cases "as = []")
  case True
  with assms show ?thesis by (simp add: batch_inverse_general_def unpack)
next
  case False
  let ?p = "foldl (fa_mul A) (fa_one A) as"
  let ?entry = "\<lambda>i. fa_mul A (foldl (fa_mul A) (fa_one A) (take i as)) (foldl (fa_mul A) (fa_of_lanes A (map inverse (fa_lanes A ?p))) (rev (drop (Suc i) as)))"
  have "map (\<lambda>i. fa_lanes A (?entry i)) [0..<length as] = map (\<lambda>a. map inverse (fa_lanes A a)) as" if "\<forall>a \<in> set as. 0 \<notin> set (fa_lanes A a)"
    by (rule nth_equalityI) (simp_all add: array_entry [OF _ that])
  then have "fa_unpack A (map ?entry [0..<length as]) = map inverse (concat (map (fa_lanes A) as))" if "\<forall>a \<in> set as. 0 \<notin> set (fa_lanes A a)"
    using that by (simp add: unpack comp_def map_concat)
  then show ?thesis
    by (simp add: batch_general_run [OF assms False] array_inverse array_product_zero)
qed

lemma helper_inverts:
  assumes "length result = length xs"
  shows "batch_inverse_helper A xs result = (if 0 \<in> set xs then Panic else Ok (map inverse xs) :: (_, 'e) res)"
proof (cases "length xs mod 4 = 0")
  case True
  then have "concat (map (fa_lanes A) (fa_pack A xs)) = xs" by (simp add: pack concat_chunks)
  moreover have "length (fa_pack A result) = length (fa_pack A xs)"
    using True assms arg_cong [OF pack [of xs], of length] arg_cong [OF pack [of result], of length] by (simp add: length_chunks)
  ultimately show ?thesis
    using True assms unfolding batch_inverse_helper_def Let_def
    by (simp only: assert_that_def if_True if_False rbind.simps simp_thms batch_general_arrays)
next
  case False
  with assms show ?thesis by (simp add: batch_inverse_helper_def batch_general_field)
qed

lemma serial_inverts: "batch_multiplicative_inverse_serial A xs = (if 0 \<in> set xs then Panic else Ok (map inverse xs) :: (_, 'e) res)"
  by (simp add: batch_multiplicative_inverse_serial_def helper_inverts)

end

text \<open>Quadruples are such arrays.\<close>

definition quad_lanes :: "'f \<times> 'f \<times> 'f \<times> 'f \<Rightarrow> 'f list" where
  "quad_lanes a = (case a of (w, x, y, z) \<Rightarrow> [w, x, y, z])"

definition quad_of_lanes :: "'f list \<Rightarrow> 'f \<times> 'f \<times> 'f \<times> 'f" where
  "quad_of_lanes xs = (xs ! 0, xs ! 1, xs ! 2, xs ! 3)"

definition quad_array :: "('f::field, 'f \<times> 'f \<times> 'f \<times> 'f) field_array" where
  "quad_array = \<lparr>fa_pack = (\<lambda>xs. map quad_of_lanes (chunks 4 xs)), fa_unpack = (\<lambda>as. concat (map quad_lanes as)),
     fa_lanes = quad_lanes, fa_of_lanes = quad_of_lanes, fa_one = (1, 1, 1, 1),
     fa_mul = (\<lambda>a b. quad_of_lanes (map2 (*) (quad_lanes a) (quad_lanes b)))\<rparr>"

lemma quad_round_trip: "length xs = 4 \<Longrightarrow> quad_lanes (quad_of_lanes xs) = xs"
  by (auto simp: quad_lanes_def quad_of_lanes_def length_Suc_conv numeral_eq_Suc)

lemma quad_lanes_length: "length (quad_lanes a) = 4"
  by (simp add: quad_lanes_def split: prod.splits)

lemma replicate_four: "replicate 4 x = [x, x, x, x]"
  by (simp add: numeral_eq_Suc)

interpretation quads: array_laws quad_array
proof unfold_locales
  fix xs :: "'a list"
  assume "length xs mod 4 = 0"
  then have "4 dvd length xs" by (rule mod_0_imp_dvd)
  then have "map (quad_lanes \<circ> quad_of_lanes) (chunks 4 xs) = chunks 4 xs"
    by (intro map_idI) (simp only: comp_apply quad_round_trip chunks_length)
  then show "map (fa_lanes quad_array) (fa_pack quad_array xs) = chunks 4 xs" by (simp add: quad_array_def)
qed (simp_all add: quad_array_def quad_lanes_length quad_round_trip, simp_all add: quad_lanes_def replicate_four)

section \<open>Leaving zeros alone\<close>

text \<open>
  \<open>batch_multiplicative_inverse_allowing_zero\<close>; the batch inversion it calls is Plonky3's, which
  inverts every entry and asserts that none is zero.
\<close>

definition batch_inverse_allowing_zero :: "'f::field list \<Rightarrow> ('f list, 'e) res" where
  "batch_inverse_allowing_zero xs =
     (let kept = filter (\<lambda>(i, v). v \<noteq> 0) (enumerated xs); nonzero_values = map snd kept; indices = map fst kept in
      rbind (rmap checked_inverse nonzero_values) (\<lambda>inverse_nonzero_values.
      rfold (\<lambda>(i, j) result.
          rbind (index inverse_nonzero_values i) (\<lambda>v.
          rbind (index result j) (\<lambda>_. Ok (result[j := v])))) (enumerated indices) xs))"

text \<open>An indexed write per position inverts the entries at those positions.\<close>

lemma scatter_inverses:
  assumes "vs = map (\<lambda>j. inverse (xs ! j)) js" and "\<forall>j \<in> set js. j < length xs"
  shows "\<exists>r. rfold (\<lambda>(i, j) result. rbind (index vs i) (\<lambda>v. rbind (index result j) (\<lambda>_. Ok (result[j := v])))) (enumerated js) xs
     = (Ok r :: (_, 'e) res) \<and> length r = length xs \<and> (\<forall>m < length xs. r ! m = (if m \<in> set js then inverse (xs ! m) else xs ! m))"
proof -
  let ?J = "\<lambda>k r. length r = length xs \<and> (\<forall>m < length xs. r ! m = (if m \<in> set (take k js) then inverse (xs ! m) else xs ! m))"
  have "\<exists>s'. (case (i, js ! i) of (i, j) \<Rightarrow> (\<lambda>result. rbind (index vs i) (\<lambda>v. rbind (index result j) (\<lambda>_. Ok (result[j := v]))))) s
      = (Ok s' :: (_, 'e) res) \<and> ?J (Suc i) s'" if "i < length js" "?J i s" for i s
    using that assms by (auto simp: take_Suc_conv_app_nth nth_list_update)
  from rfold_enumerated_inv [where J = ?J, OF this] show ?thesis by fastforce
qed

lemma allowing_zero_inverts: "batch_inverse_allowing_zero xs = (Ok (map (\<lambda>x. if x = 0 then x else inverse x) xs) :: (_, 'e) res)"
proof -
  let ?kept = "filter (\<lambda>(i, v). v \<noteq> 0) (enumerated xs)"
  let ?js = "map fst ?kept"
  have kept: "i < length xs \<and> v = xs ! i \<and> v \<noteq> 0" if "(i, v) \<in> set ?kept" for i v
    using that by (auto simp: enumerated_mem)
  have js: "m \<in> set ?js \<longleftrightarrow> xs ! m \<noteq> 0" if "m < length xs" for m
    using that by (force simp: image_iff enumerated_mem)
  have all_inverted: "rmap checked_inverse vs = (Ok (map inverse vs) :: (_, 'e) res)" if "0 \<notin> set vs" for vs :: "'a list"
    using that by (induction vs) (simp_all add: checked_inverse_def)
  have "0 \<notin> set (map snd ?kept)" by auto
  from all_inverted [OF this] have inverses: "rmap checked_inverse (map snd ?kept) = (Ok (map inverse (map snd ?kept)) :: (_, 'e) res)"
    .
  have "map inverse (map snd ?kept) = map (\<lambda>j. inverse (xs ! j)) ?js"
    using kept by auto
  moreover have in_range: "\<forall>j \<in> set ?js. j < length xs" using kept by auto
  ultimately obtain r where r: "rfold (\<lambda>(i, j) result. rbind (index (map inverse (map snd ?kept)) i) (\<lambda>v. rbind (index result j) (\<lambda>_. Ok (result[j := v])))) (enumerated ?js) xs
      = (Ok r :: (_, 'e) res)" "length r = length xs" "\<forall>m < length xs. r ! m = (if m \<in> set ?js then inverse (xs ! m) else xs ! m)"
    using scatter_inverses [of "map inverse (map snd ?kept)" xs ?js] in_range by blast
  have "r = map (\<lambda>x. if x = 0 then x else inverse x) xs"
    using r(2,3) js by (intro nth_equalityI) (simp_all del: set_map)
  with r(1) inverses show ?thesis by (simp add: batch_inverse_allowing_zero_def Let_def)
qed

end
