(* ===== verification/UniPoly.thy ===== *)
theory UniPoly
  imports PcsCommit
begin

text \<open>
  Products of univariate polynomials by the serial transform (\<open>prover/poly.rs\<close>): the product
  \<open>(1 - x) (1 - z x) \<dots> (1 - z ^ (n - 1) x)\<close>, which is computed by halving \<open>n\<close>. The recursion
  of the code does not end for \<open>n = 0\<close>, so it is a partial function: \<open>None\<close> is a call that never returns.
\<close>

section \<open>The code\<close>

definition next_linear_factor :: "'a::field \<Rightarrow> nat \<Rightarrow> 'a list \<Rightarrow> ('a list, 'e) res" where
  "next_linear_factor z n prev =
     (let zp = z ^ (n - 1); prev = prev @ [0] in
      rfold (\<lambda>i prev.
        rbind (index prev (i - 1)) (\<lambda>lower.
        let val = lower * zp in
        rbind (index prev i) (\<lambda>old. Ok (prev[i := old - val])))) (rev [1..<length prev]) prev)"

definition double_factors :: "'a::field fft_ops \<Rightarrow> 'a \<Rightarrow> nat \<Rightarrow> 'a list \<Rightarrow> ('a list, 'e) res" where
  "double_factors P z n prev =
     (let zp = z ^ (n div 2);
          another = map2 (*) prev (powers (length prev) zp);
          len = next_pow2 (length prev) * 2 in
      rbind (dft P (resize len 0 prev)) (\<lambda>prev.
      rbind (dft P (resize len 0 another)) (\<lambda>another.
      rbind (idft P (map2 (*) prev another)) (\<lambda>prev.
      Ok (take (n + 1) prev)))))"

partial_function (option) geometric_product :: "'a::field fft_ops \<Rightarrow> 'a \<Rightarrow> nat \<Rightarrow> ('a list, 'e) res option" where
  "geometric_product P z n =
     (if n = 1 then Some (Ok [1, - 1])
      else if odd n then Option.bind (geometric_product P z (n - 1)) (\<lambda>prev. Some (rbind prev (next_linear_factor z n)))
      else Option.bind (geometric_product P z (n div 2)) (\<lambda>prev. Some (rbind prev (double_factors P z n))))"

section \<open>Products of coefficient lists\<close>

fun poly_add :: "'a::field list \<Rightarrow> 'a list \<Rightarrow> 'a list" where
  "poly_add (a # as) (b # bs) = (a + b) # poly_add as bs"
| "poly_add [] bs = bs"
| "poly_add as [] = as"

fun poly_mul :: "'a::field list \<Rightarrow> 'a list \<Rightarrow> 'a list" where
  "poly_mul [] b = []"
| "poly_mul [a] b = map ((*) a) b"
| "poly_mul (a # a' # as) b = poly_add (map ((*) a) b) (0 # poly_mul (a' # as) b)"

lemma horner_map: "horner_eval (map ((*) a) b) x = a * horner_eval b x"
  by (induction b) (simp_all add: horner_Cons algebra_simps)

lemma horner_poly_add [simp]: "horner_eval (poly_add a b) x = horner_eval a x + horner_eval b x"
  by (induction a b rule: poly_add.induct) (simp_all add: horner_Cons algebra_simps)

lemma horner_poly_mul [simp]: "horner_eval (poly_mul a b) x = horner_eval a x * horner_eval b x"
  by (induction a b rule: poly_mul.induct) (simp_all add: horner_Cons horner_map algebra_simps)

lemma length_poly_add [simp]: "length (poly_add a b) = max (length a) (length b)"
  by (induction a b rule: poly_add.induct) simp_all

lemma length_poly_mul: "a \<noteq> [] \<Longrightarrow> b \<noteq> [] \<Longrightarrow> length (poly_mul a b) = length a + length b - 1"
  by (induction a b rule: poly_mul.induct) (auto simp: neq_Nil_conv)

text \<open>A polynomial is determined by its values at as many points as it has coefficients.\<close>

lemma horner_unique:
  assumes len: "length a = length b" and card: "length a \<le> card S" and agree: "\<And>x. x \<in> S \<Longrightarrow> horner_eval a x = horner_eval b x"
  shows "a = b"
proof (rule ccontr)
  assume differ: "a \<noteq> b"
  let ?d = "map2 (-) a b"
  have diff: "horner_eval ?d x = horner_eval a x - horner_eval b x" for x
    using len by (induction a b rule: list_induct2) (simp_all add: horner_Cons right_diff_distrib)
  from differ len obtain i where "i < length a" "a ! i \<noteq> b ! i" by (metis nth_equalityI)
  then have "?d ! i \<in> set ?d" "?d ! i \<noteq> 0" using len nth_mem [of i ?d] by simp_all
  then have "\<exists>c \<in> set ?d. c \<noteq> 0" by blast
  from root_count [OF this] have roots: "finite {x. horner_eval ?d x = 0}" "card {x. horner_eval ?d x = 0} \<le> length a - 1" using len by auto
  have "S \<subseteq> {x. horner_eval ?d x = 0}" by (auto simp: diff agree)
  then have "card S \<le> length a - 1" using roots card_mono order_trans by blast
  with card differ len show False by (cases a) auto
qed

context two_adic
begin

lemma values_unique:
  assumes n: "n \<le> adicity" and len: "length a = 2 ^ n" "length b = 2 ^ n"
    and agree: "\<And>j. j < 2 ^ n \<Longrightarrow> horner_eval a (gen n ^ j) = horner_eval b (gen n ^ j)"
  shows "a = b"
proof (rule horner_unique [of a b "(\<lambda>j. gen n ^ j) ` {..<2 ^ n}"])
  have "inj_on (\<lambda>j. gen n ^ j) {..<2 ^ n}" using gen_inject [OF n] by (auto intro: inj_onI)
  then show "length a \<le> card ((\<lambda>j. gen n ^ j) ` {..<2 ^ n})" by (simp add: card_image len)
qed (use len agree in auto)

end

text \<open>Pointwise multiplication of transforms multiplies polynomials.\<close>

context bowers
begin

lemma dft_product:
  assumes n: "n \<le> fft_adicity P" and a: "length a = 2 ^ n" and b: "length b = 2 ^ n"
    and c: "length c \<le> 2 ^ n" "\<And>x. horner_eval c x = horner_eval a x * horner_eval b x"
  shows "\<exists>va vb. dft P a = (Ok va :: (_, 'e) res) \<and> dft P b = (Ok vb :: (_, 'e) res) \<and> idft P (map2 (*) va vb) = (Ok (resize (2 ^ n) 0 c) :: (_, 'e) res)"
proof -
  let ?v = "\<lambda>cs. map (\<lambda>j. horner_eval cs (fft_gen P n ^ j)) [0..<2 ^ n]"
  let ?c = "resize (2 ^ n) 0 c"
  have "?v ?c = map2 (*) (?v a) (?v b)" by (rule nth_equalityI) (simp_all add: horner_resize c)
  moreover have "dft P ?c = (Ok (?v ?c) :: (_, 'e) res)" by (rule dft_Ok) (simp_all add: n)
  ultimately have "idft P (map2 (*) (?v a) (?v b)) = (Ok ?c :: (_, 'e) res)" by (intro idft_dft [OF n]) simp_all
  with dft_Ok [OF n a, where 'e = 'e] dft_Ok [OF n b, where 'e = 'e] show ?thesis by blast
qed

end

section \<open>The two steps\<close>

text \<open>The in-place loop, from the highest coefficient down.\<close>

lemma downward_loop:
  assumes len: "length cs = Suc n"
  shows "i \<le> n \<Longrightarrow> rfold (\<lambda>i prev. rbind (index prev (i - 1)) (\<lambda>lower. let val = lower * zp in rbind (index prev i) (\<lambda>old. Ok (prev[i := old - val]))))
       (rev [Suc n - i..<Suc n]) cs
     = (Ok (take (Suc n - i) cs @ map (\<lambda>j. cs ! j - cs ! (j - 1) * zp) [Suc n - i..<Suc n]) :: (_, 'e) res)"
proof (induction i)
  case 0
  then show ?case by (simp add: len)
next
  case (Suc i)
  define j where "j = Suc n - Suc i"
  have j: "0 < j" "j \<le> n" "Suc n - i = Suc j" using Suc.prems by (auto simp: j_def)
  have range: "[j..<Suc n] = j # [Suc j..<Suc n]" using j by (simp add: upt_conv_Cons)
  let ?cur = "take (Suc j) cs @ map (\<lambda>j. cs ! j - cs ! (j - 1) * zp) [Suc j..<Suc n]"
  have at: "?cur ! (j - 1) = cs ! (j - 1)" "?cur ! j = cs ! j" "j < length ?cur" "j - 1 < length ?cur"
    using j len by (auto simp: nth_append)
  have "?cur[j := cs ! j - cs ! (j - 1) * zp] = take j cs @ map (\<lambda>j. cs ! j - cs ! (j - 1) * zp) [j..<Suc n]"
    unfolding range using j len by (simp add: take_Suc_conv_app_nth list_update_append)
  then show ?case
    using Suc.IH Suc.prems at unfolding j_def [symmetric] j(3) range by (simp add: rfold_append range)
qed

lemma horner_shift: "horner_eval (0 # cs) x = x * horner_eval cs x"
  by (simp add: horner_Cons)

lemma next_linear_factor_Ok:
  "next_linear_factor z n prev = (Ok (map2 (\<lambda>old lower. old - lower * z ^ (n - 1)) (prev @ [0]) (0 # prev)) :: (_, 'e) res)"
proof -
  let ?zp = "z ^ (n - 1)" and ?cs = "prev @ [0]"
  have "rfold (\<lambda>i prev. rbind (index prev (i - 1)) (\<lambda>lower. let val = lower * ?zp in rbind (index prev i) (\<lambda>old. Ok (prev[i := old - val]))))
       (rev [1..<Suc (length prev)]) ?cs
     = (Ok (take 1 ?cs @ map (\<lambda>j. ?cs ! j - ?cs ! (j - 1) * ?zp) [1..<Suc (length prev)]) :: (_, 'e) res)"
    using downward_loop [of ?cs "length prev" "length prev" ?zp, where 'e = 'e] by simp
  moreover have "take 1 ?cs @ map (\<lambda>j. ?cs ! j - ?cs ! (j - 1) * ?zp) [1..<Suc (length prev)]
      = map2 (\<lambda>old lower. old - lower * ?zp) ?cs (0 # prev)"
  proof (rule nth_equalityI)
    fix i assume "i < length (take 1 ?cs @ map (\<lambda>j. ?cs ! j - ?cs ! (j - 1) * ?zp) [1..<Suc (length prev)])"
    then have i: "i < Suc (length prev)" by (auto simp del: upt_Suc)
    have first: "take 1 ?cs = [?cs ! 0]" by (cases prev) simp_all
    show "(take 1 ?cs @ map (\<lambda>j. ?cs ! j - ?cs ! (j - 1) * ?zp) [1..<Suc (length prev)]) ! i = map2 (\<lambda>old lower. old - lower * ?zp) ?cs (0 # prev) ! i"
      unfolding first using i by (cases i) (simp_all add: nth_append del: upt_Suc)
  qed (simp del: upt_Suc)
  ultimately show ?thesis by (simp add: next_linear_factor_def Let_def)
qed

lemma horner_minus_shift:
  "horner_eval (map2 (\<lambda>old lower. old - lower * c) (as @ [0]) (0 # as)) x = (1 - c * x) * horner_eval as x"
proof -
  have "horner_eval (map2 (\<lambda>old lower. old - lower * c) as' bs) x = horner_eval as' x - c * horner_eval bs x"
    if "length as' = length bs" for as' bs
    using that by (induction as' bs rule: list_induct2) (simp_all add: horner_Cons, simp add: algebra_simps)
  from this [of "as @ [0]" "0 # as"] show ?thesis
    using horner_resize [of as "Suc (length as)" x] by (simp add: resize_def horner_shift algebra_simps)
qed

lemma next_pow2_bounds:
  assumes "m \<le> 2 ^ k" and "0 < m"
  shows "\<exists>j \<le> k. next_pow2 m = 2 ^ j \<and> m \<le> 2 ^ j"
proof (cases "m \<le> 1")
  case False
  then have b: "2 ^ log2_floor (m - 1) \<le> m - 1" "m - 1 < 2 ^ Suc (log2_floor (m - 1))" using log2_floor_bounds [of "m - 1"] by simp_all
  then have "(2 :: nat) ^ log2_floor (m - 1) < 2 ^ k" using assms by linarith
  then have "log2_floor (m - 1) < k" by (simp add: power_strict_increasing_iff)
  moreover have "m \<le> 2 ^ Suc (log2_floor (m - 1))" using b False by linarith
  ultimately show ?thesis using False by (intro exI [of _ "Suc (log2_floor (m - 1))"]) (simp add: next_pow2_def)
qed (use assms in \<open>auto simp: next_pow2_def intro: exI [of _ 0]\<close>)

definition factors_at :: "'a::field \<Rightarrow> nat \<Rightarrow> 'a \<Rightarrow> 'a" where
  "factors_at z n x = (\<Prod>i < n. 1 - z ^ i * x)"

lemma factors_at_add: "factors_at z (m + n) x = factors_at z m x * factors_at z n (z ^ m * x)"
proof (induction n)
  case (Suc n)
  then show ?case by (simp add: factors_at_def power_add mult.assoc)
qed (simp add: factors_at_def)

lemma horner_powers: "horner_eval (map2 (*) cs (powers (length cs) c)) x = horner_eval cs (c * x)"
  by (simp add: horner_eval_sum powers_def power_mult_distrib mult_ac)

context bowers
begin

lemma double_factors_Ok:
  assumes n: "even n" "0 < n" "n < 2 ^ fft_adicity P" and len: "length prev = Suc (n div 2)"
    and prev: "\<And>x. horner_eval prev x = factors_at z (n div 2) x"
  shows "\<exists>cs. double_factors P z n prev = (Ok cs :: (_, 'e) res) \<and> length cs = Suc n \<and> (\<forall>x. horner_eval cs x = factors_at z n x)"
proof -
  obtain A where A: "fft_adicity P = Suc A" using n by (cases "fft_adicity P") auto
  have "n div 2 + 1 \<le> 2 ^ A" using n(3) by (simp add: A)
  then obtain j where j: "j \<le> A" "next_pow2 (Suc (n div 2)) = 2 ^ j" "Suc (n div 2) \<le> 2 ^ j"
    using next_pow2_bounds [of "Suc (n div 2)" A] by auto
  let ?N = "Suc j"
  let ?another = "map2 (*) prev (powers (length prev) (z ^ (n div 2)))"
  define prod where "prod = poly_mul prev ?another"
  have N: "?N \<le> fft_adicity P" using j(1) A by simp
  have half: "n div 2 + n div 2 = n" using n(1) by (auto elim: evenE)
  have prod: "length prod = Suc n" "horner_eval prod x = factors_at z n x" for x
  proof -
    have "length ?another = Suc (n div 2)" by (simp add: len powers_def)
    then have "prev \<noteq> []" "?another \<noteq> []" using len by (metis length_0_conv nat.simps(3))+
    from length_poly_mul [OF this] show "length prod = Suc n" using half len \<open>length ?another = _\<close> by (simp only: prod_def) simp
    show "horner_eval prod x = factors_at z n x"
      using factors_at_add [of z "n div 2" "n div 2" x] half by (simp add: prod_def horner_powers prev)
  qed
  have fits: "Suc n \<le> 2 ^ ?N" "length prev \<le> 2 ^ ?N" "length ?another \<le> 2 ^ ?N" using j(3) len half by (auto simp: powers_def)
  from dft_product [OF N, of "resize (2 ^ ?N) 0 prev" "resize (2 ^ ?N) 0 ?another" prod, where 'e = 'e] fits prod
  obtain va vb where "dft P (resize (2 ^ ?N) 0 prev) = (Ok va :: (_, 'e) res)" "dft P (resize (2 ^ ?N) 0 ?another) = (Ok vb :: (_, 'e) res)"
    "idft P (map2 (*) va vb) = (Ok (resize (2 ^ ?N) 0 prod) :: (_, 'e) res)"
    by (auto simp: horner_resize prod_def)
  moreover have "next_pow2 (length prev) * 2 = 2 ^ ?N" using j(2) len by simp
  moreover have "take (n + 1) (resize (2 ^ ?N) 0 prod) = prod" using fits(1) prod(1) by (simp add: resize_def)
  ultimately have "double_factors P z n prev = (Ok prod :: (_, 'e) res)" by (simp add: double_factors_def Let_def mult.commute [of "2 ^ j" 2])
  with prod show ?thesis by blast
qed

lemma geometric_product_Ok:
  assumes "0 < n" and "n < 2 ^ fft_adicity P"
  shows "\<exists>cs. geometric_product P z n = Some (Ok cs :: (_, 'e) res) \<and> length cs = Suc n \<and> (\<forall>x. horner_eval cs x = factors_at z n x)"
  using assms
proof (induction n rule: less_induct)
  case (less n)
  consider "n = 1" | "n \<noteq> 1" "odd n" | "n \<noteq> 1" "even n" by blast
  then show ?case
  proof cases
    case 1
    then show ?thesis by (subst geometric_product.simps) (simp add: factors_at_def horner_Cons)
  next
    case 2
    then have m: "n - 1 < n" "0 < n - 1" "n - 1 < 2 ^ fft_adicity P" "Suc (n - 1) = n" using less.prems by auto
    from less.IH [OF m(1-3)] obtain prev where
      prev: "geometric_product P z (n - 1) = Some (Ok prev :: (_, 'e) res)" "length prev = n" "\<And>x. horner_eval prev x = factors_at z (n - 1) x"
      using m(4) by auto
    have "factors_at z n x = factors_at z (n - 1) x * (1 - z ^ (n - 1) * x)" for x
      unfolding factors_at_def using prod.lessThan_Suc [of "\<lambda>i. 1 - z ^ i * x" "n - 1"] m(4) by simp
    with prev 2 show ?thesis
      by (subst geometric_product.simps) (simp add: next_linear_factor_Ok horner_minus_shift mult.commute)
  next
    case 3
    then have m: "n div 2 < n" "0 < n div 2" "n div 2 < 2 ^ fft_adicity P" using less.prems by auto
    from less.IH [OF m] obtain prev where
      prev: "geometric_product P z (n div 2) = Some (Ok prev :: (_, 'e) res)" "length prev = Suc (n div 2)" "\<And>x. horner_eval prev x = factors_at z (n div 2) x"
      by auto
    from double_factors_Ok [OF 3(2) less.prems prev(2,3), where 'e = 'e] prev(1) 3 show ?thesis
      by (subst geometric_product.simps) simp
  qed
qed

end

section \<open>Termination\<close>

lemma geometric_product_returns: "0 < n \<Longrightarrow> \<exists>r. geometric_product P z n = Some (r :: (_, 'e) res)"
proof (induction n rule: less_induct)
  case (less n)
  show ?case
  proof (cases "n = 1")
    case False
    then have "n - 1 < n \<and> 0 < n - 1" "n div 2 < n \<and> 0 < n div 2" using less.prems by auto
    with less.IH [of "n - 1"] less.IH [of "n div 2"] False show ?thesis by (subst geometric_product.simps) auto
  qed (subst geometric_product.simps, simp)
qed

lemma geometric_product_zero:
  assumes "geometric_product P z n = Some (r :: (_, 'e) res)"
  shows "n \<noteq> 0"
proof -
  have "(\<lambda>((P, z), n) r. n \<noteq> 0) ((P, z), n) r"
  proof (rule geometric_product.raw_induct [OF _ assms])
    fix rec :: "'a fft_ops \<Rightarrow> 'a \<Rightarrow> nat \<Rightarrow> ('a list, 'e) res option" and P z n y
    assume IH: "\<And>P z n y. rec P z n = Some y \<Longrightarrow> (\<lambda>((P, z), n) r. n \<noteq> 0) ((P, z), n) y"
      and step: "(if n = 1 then Some (Ok [1, - 1])
         else if odd n then Option.bind (rec P z (n - 1)) (\<lambda>prev. Some (rbind prev (next_linear_factor z n)))
         else Option.bind (rec P z (n div 2)) (\<lambda>prev. Some (rbind prev (double_factors P z n)))) = Some y"
    show "(\<lambda>((P, z), n) r. n \<noteq> 0) ((P, z), n) y"
    proof (cases "n = 0")
      case True
      with step obtain p where "rec P z 0 = Some p" by (auto simp: bind_eq_Some_conv)
      from IH [OF this] show ?thesis by simp
    qed simp
  qed
  then show ?thesis by simp
qed

section \<open>Properties\<close>

text \<open>C34. The recursion of \<open>geometric_sequence_linear_product_helper\<close> returns exactly for \<open>n \<noteq> 0\<close>: for \<open>n = 0\<close>, which is even, it
  calls itself with the same argument for ever. For \<open>0 < n < 2 ^ a\<close>, where \<open>a\<close> is the two-adicity of the field, it does not
  panic, and what it returns are the \<open>n + 1\<close> coefficients of the product of the factors \<open>1 - z ^ i x\<close>.\<close>
theorem geometric_product_terminates:
  fixes P :: "'a::field fft_ops"
  assumes "bowers P"
  shows "((\<exists>r. geometric_product P z n = Some (r :: ('a list, 'e) res)) \<longleftrightarrow> n \<noteq> 0) \<and>
     (n \<noteq> 0 \<longrightarrow> n < 2 ^ fft_adicity P \<longrightarrow>
        (\<exists>cs. geometric_product P z n = Some (Ok cs :: ('a list, 'e) res) \<and> length cs = n + 1 \<and>
          (\<forall>x. horner_eval cs x = (\<Prod>i < n. 1 - z ^ i * x))))"
proof (intro conjI impI)
  show "(\<exists>r. geometric_product P z n = Some (r :: ('a list, 'e) res)) \<longleftrightarrow> n \<noteq> 0"
    using geometric_product_returns [of n P z, where 'e = 'e] geometric_product_zero [of P z n, where 'e = 'e] by blast
  assume "n \<noteq> 0" "n < 2 ^ fft_adicity P"
  from bowers.geometric_product_Ok [OF assms _ this(2), of z, where 'e = 'e] this(1)
  show "\<exists>cs. geometric_product P z n = Some (Ok cs :: ('a list, 'e) res) \<and> length cs = n + 1 \<and>
        (\<forall>x. horner_eval cs x = (\<Prod>i < n. 1 - z ^ i * x))"
    by (auto simp: factors_at_def)
qed

theorem geometric_product_terminates_witness:
  "(\<exists>r. geometric_product (plain_fft f17_gen 4) (f17 3) 6 = Some (r :: (_, unit) res)) \<and>
   geometric_product (plain_fft f17_gen 4) (f17 3) 0 = (None :: (_, unit) res option) \<and>
   (\<exists>cs. geometric_product (plain_fft f17_gen 4) (f17 3) 6 = Some (Ok cs :: (_, unit) res) \<and> length cs = 7 \<and>
     (\<forall>x. horner_eval cs x = (\<Prod>i < 6. 1 - f17 3 ^ i * x)))"
proof -
  note run = geometric_product_terminates [OF f17_bowers.bowers_axioms, where 'e = unit]
  from run [of "f17 3" 6] run [of "f17 3" 0] show ?thesis by auto
qed

end
