(* ===== verification/Interpolation.thy ===== *)
theory Interpolation
  imports BatchInverse UniPoly
begin

text \<open>
  Interpolation in the prover (\<open>prover/poly.rs\<close>): through arbitrary points
  (\<open>lagrange_interpolate\<close>), through the points of a geometric progression
  (\<open>lagrange_basis_from_geometric_points\<close>) and through values on several cosets of a subgroup
  (\<open>from_geometric_cosets_evals_idft\<close>).
\<close>

section \<open>Through arbitrary points\<close>

text \<open>The in-place product with \<open>(x - point) * scale\<close>, from the highest coefficient down.\<close>

definition mul_linear_inplace :: "'f::field \<Rightarrow> 'f \<Rightarrow> 'f list \<Rightarrow> ('f list, 'e) res" where
  "mul_linear_inplace scale point poly =
     (let poly = poly @ [0] in
      rfold (\<lambda>k poly.
        rbind (index poly (k - 1)) (\<lambda>lower.
        let prev_coeff = lower * scale in
        rbind (index poly k) (\<lambda>old. Ok (poly[k := old + prev_coeff, k - 1 := - prev_coeff * point])))) (rev [1..<length poly]) poly)"

text \<open>The basis polynomial of position \<open>i\<close>; the counter runs through the inverted denominators.\<close>

definition lagrange_poly_at :: "('bf::field \<Rightarrow> 'f::field) \<Rightarrow> 'bf list \<Rightarrow> 'bf list \<Rightarrow> nat \<Rightarrow> ('f list, 'e) res" where
  "lagrange_poly_at emb points inv_denominators i =
     (let len = length points; inv_denom_start = i * (len - 1) in
      rbind (rfold (\<lambda>j (lagrange_poly, inv_idx).
          if i = j then Ok (lagrange_poly, inv_idx) else
          rbind (index inv_denominators (inv_denom_start + inv_idx)) (\<lambda>scale.
          rbind (index points j) (\<lambda>point.
          rbind (mul_linear_inplace (emb scale) (emb point) lagrange_poly) (\<lambda>lagrange_poly.
          Ok (lagrange_poly, inv_idx + 1))))) [0..<len] ([1], 0)) (\<lambda>(lagrange_poly, _).
      Ok lagrange_poly))"

definition add_scaled :: "'f::field \<Rightarrow> 'f list \<Rightarrow> 'f list \<Rightarrow> ('f list, 'e) res" where
  "add_scaled c poly coeffs =
     rfold (\<lambda>(k, coeff) coeffs. rbind (index coeffs k) (\<lambda>v. Ok (coeffs[k := v + c * coeff]))) (enumerated poly) coeffs"

definition denominators_of :: "'bf::field list \<Rightarrow> 'bf list" where
  "denominators_of points =
     concat (map (\<lambda>i. map (\<lambda>j. points ! i - points ! j) (filter (\<lambda>j. i \<noteq> j) [0..<length points])) [0..<length points])"

definition lagrange_interpolate ::
  "('bf::field, 'a) field_array \<Rightarrow> ('bf \<Rightarrow> 'f::field) \<Rightarrow> 'bf list \<Rightarrow> 'f list \<Rightarrow> ('f list, 'e) res" where
  "lagrange_interpolate A emb points evals =
     rbind (assert_that (length points = length evals)) (\<lambda>_.
     let len = length points in
     if len = 0 then Ok []
     else if len = 1 then rbind (index evals 0) (\<lambda>e. Ok [e])
     else
       rbind (batch_multiplicative_inverse_serial A (denominators_of points)) (\<lambda>inv_denominators.
       rfold (\<lambda>i coeffs.
         rbind (index evals i) (\<lambda>e.
         if e = 0 then Ok coeffs else
         rbind (lagrange_poly_at emb points inv_denominators i) (\<lambda>lagrange_poly.
         add_scaled e lagrange_poly coeffs))) [0..<len] (replicate len 0)))"

section \<open>The loops\<close>

text \<open>A loop over positions from the top down, with an invariant.\<close>

lemma rfold_down_inv:
  assumes "\<And>k s. a \<le> k \<Longrightarrow> k < b \<Longrightarrow> J (Suc k) s \<Longrightarrow> \<exists>s'. f k s = Ok s' \<and> J k s'" and "J b s" and "a \<le> b"
  shows "\<exists>s'. rfold f (rev [a..<b]) s = Ok s' \<and> J a s'"
proof -
  have "m \<le> b - a \<Longrightarrow> \<exists>s'. rfold f (rev [b - m..<b]) s = Ok s' \<and> J (b - m) s'" for m
  proof (induction m)
    case (Suc m)
    then obtain s1 where s1: "rfold f (rev [b - m..<b]) s = Ok s1" "J (b - m) s1" by auto
    have k: "a \<le> b - Suc m" "b - Suc m < b" "Suc (b - Suc m) = b - m" using Suc.prems by auto
    with assms(1) [of "b - Suc m" s1] s1(2) obtain s2 where "f (b - Suc m) s1 = Ok s2" "J (b - Suc m) s2" by auto
    moreover have "[b - Suc m..<b] = (b - Suc m) # [b - m..<b]" using k by (simp add: upt_conv_Cons)
    ultimately show ?case using s1(1) by (simp add: rfold_append)
  qed (simp add: assms(2))
  from this [of "b - a"] assms(3) show ?thesis by simp
qed

lemma rfold_up_inv:
  assumes "\<And>k s. k < b \<Longrightarrow> J k s \<Longrightarrow> \<exists>s'. f k s = Ok s' \<and> J (Suc k) s'" and "J 0 s"
  shows "\<exists>s'. rfold f [0..<b] s = Ok s' \<and> J b s'"
proof -
  have "m \<le> b \<Longrightarrow> \<exists>s'. rfold f [0..<m] s = Ok s' \<and> J m s'" for m
  proof (induction m)
    case (Suc m)
    then obtain s1 where s1: "rfold f [0..<m] s = Ok s1" "J m s1" by auto
    with assms(1) [of m s1] Suc.prems obtain s2 where "f m s1 = Ok s2" "J (Suc m) s2" by auto
    with s1(1) show ?case by (simp add: rfold_append)
  qed (simp add: assms(2))
  then show ?thesis by simp
qed

lemma mul_linear_Ok:
  "\<exists>q. mul_linear_inplace s c p = (Ok q :: (_, 'e) res) \<and> length q = Suc (length p) \<and> (\<forall>x. horner_eval q x = horner_eval p x * (x - c) * s)"
proof -
  let ?n = "length p"
  define r where "r i = (if i = 0 then 0 else p ! (i - 1) * s) + (if i < ?n then - (p ! i * s) * c else 0)" for i
  define J where "J k st \<longleftrightarrow> length st = Suc ?n \<and>
    (\<forall>i \<le> ?n. st ! i = (if k \<le> i then r i else if Suc i = k then (if i = ?n then 0 else - (p ! i * s) * c) else p ! i))" for k st
  let ?f = "\<lambda>k poly. rbind (index poly (k - 1)) (\<lambda>lower. let prev_coeff = lower * s in
        rbind (index poly k) (\<lambda>old. Ok (poly[k := old + prev_coeff, k - 1 := - prev_coeff * c]))) :: (_, 'e) res"
  have "\<exists>st'. ?f k st = Ok st' \<and> J k st'" if k: "1 \<le> k" "k < Suc ?n" and J: "J (Suc k) st" for k st
  proof -
    have st: "length st = Suc ?n" "st ! (k - 1) = p ! (k - 1)" "st ! k = (if k = ?n then 0 else - (p ! k * s) * c)"
      "\<And>i. i \<le> ?n \<Longrightarrow> k < i \<Longrightarrow> st ! i = r i" "\<And>i. i < k \<Longrightarrow> st ! i = p ! i"
      using J k by (auto simp: J_def)
    let ?new = "st[k := st ! k + p ! (k - 1) * s, k - 1 := - (p ! (k - 1) * s) * c]"
    have "J k ?new"
      unfolding J_def using k st by (auto simp: nth_list_update r_def)
    with k st(1,2) show ?thesis by (intro exI [of _ ?new]) (simp add: Let_def)
  qed
  moreover have "J (Suc ?n) (p @ [0])" by (auto simp: J_def nth_append)
  ultimately obtain q where q: "rfold ?f (rev [1..<Suc ?n]) (p @ [0]) = Ok q" "J 1 q"
    using rfold_down_inv [of 1 "Suc ?n" J ?f "p @ [0]"] by auto
  have q_nth: "length q = Suc ?n" "\<And>i. i < Suc ?n \<Longrightarrow> q ! i = r i"
    using q(2) by (auto simp: J_def r_def)
  have "horner_eval q x = horner_eval p x * (x - c) * s" for x
  proof -
    have "horner_eval q x = (\<Sum>i < Suc ?n. r i * x ^ i)" by (simp only: horner_eval_sum q_nth(1)) (simp add: q_nth(2) del: sum.lessThan_Suc)
    also have "\<dots> = (\<Sum>i < Suc ?n. (if i = 0 then 0 else p ! (i - 1) * s) * x ^ i) + (\<Sum>i < Suc ?n. (if i < ?n then - (p ! i * s) * c else 0) * x ^ i)"
      by (simp only: r_def distrib_right sum.distrib)
    also have "(\<Sum>i < Suc ?n. (if i = 0 then 0 else p ! (i - 1) * s) * x ^ i) = horner_eval p x * x * s"
      by (simp add: sum.lessThan_Suc_shift horner_eval_sum sum_distrib_left sum_distrib_right mult_ac del: sum.lessThan_Suc)
    also have "(\<Sum>i < Suc ?n. (if i < ?n then - (p ! i * s) * c else 0) * x ^ i) = - (horner_eval p x * c * s)"
      by (simp add: horner_eval_sum sum_distrib_left sum_distrib_right sum_negf [symmetric] mult_ac)
    finally show ?thesis by (simp add: algebra_simps)
  qed
  with q q_nth(1) show ?thesis by (simp add: mul_linear_inplace_def Let_def)
qed

lemma add_scaled_Ok:
  assumes "length poly = length coeffs"
  shows "add_scaled c poly coeffs = (Ok (map2 (\<lambda>v p. v + c * p) coeffs poly) :: (_, 'e) res)"
proof -
  let ?J = "\<lambda>k st. length st = length coeffs \<and> (\<forall>i < length coeffs. st ! i = (if i < k then coeffs ! i + c * poly ! i else coeffs ! i))"
  have "\<exists>s'. (case (i, poly ! i) of (k, coeff) \<Rightarrow> (\<lambda>coeffs. rbind (index coeffs k) (\<lambda>v. Ok (coeffs[k := v + c * coeff])))) s
      = (Ok s' :: (_, 'e) res) \<and> ?J (Suc i) s'" if "i < length poly" "?J i s" for i s
    using that assms by (auto simp: nth_list_update)
  then have "\<exists>st. add_scaled c poly coeffs = (Ok st :: (_, 'e) res) \<and> ?J (length poly) st"
    unfolding add_scaled_def by (rule rfold_enumerated_inv [where J = ?J]) (auto simp: assms)
  then obtain st where "add_scaled c poly coeffs = (Ok st :: (_, 'e) res)" "?J (length poly) st" by blast
  moreover from this(2) assms have "st = map2 (\<lambda>v p. v + c * p) coeffs poly" by (intro nth_equalityI) simp_all
  ultimately show ?thesis by simp
qed

lemma horner_add_scaled:
  "length poly = length coeffs \<Longrightarrow> horner_eval (map2 (\<lambda>v p. v + c * p) coeffs poly) x = horner_eval coeffs x + c * horner_eval poly x"
  by (simp add: horner_eval_sum sum.distrib sum_distrib_left algebra_simps)

section \<open>The denominators\<close>

lemma others_upt: "i < n \<Longrightarrow> filter (\<lambda>j. i \<noteq> j) [0..<n] = [0..<i] @ [Suc i..<n]"
proof -
  assume "i < n"
  then have "[0..<n] = [0..<i] @ i # [Suc i..<n]" using upt_add_eq_append [of 0 i "n - i"] by (simp add: upt_conv_Cons)
  then show ?thesis by simp
qed

text \<open>The denominator of the pair \<open>(i, j)\<close> is where the counter points.\<close>

lemma denominators_nth:
  assumes "i < length points" and "j < length points" and "i \<noteq> j"
  shows "index (map f (denominators_of points)) (i * (length points - 1) + (if j \<le> i then j else j - 1))
     = (Ok (f (points ! i - points ! j)) :: (_, 'e) res)"
proof -
  let ?n = "length points" and ?t = "if j \<le> i then j else j - 1"
  let ?bs = "map (\<lambda>i. map (\<lambda>j. points ! i - points ! j) (filter (\<lambda>j. i \<noteq> j) [0..<?n])) [0..<?n]"
  have blocks: "\<forall>b \<in> set ?bs. length b = ?n - 1" by (auto simp: others_upt)
  have t: "?t < ?n - 1" using assms by auto
  have "?bs ! i ! ?t = points ! i - points ! j"
    using assms by (auto simp: others_upt nth_append)
  moreover have "concat ?bs ! (i * (?n - 1) + ?t) = ?bs ! i ! ?t" using concat_nth_block [OF blocks _ t, of i] assms(1) by simp
  moreover have "i * (?n - 1) + ?t < length (concat ?bs)"
  proof -
    have "i * (?n - 1) + ?t < Suc i * (?n - 1)" using t by simp
    also have "\<dots> \<le> ?n * (?n - 1)" using assms(1) by (intro mult_le_mono1) simp
    finally show ?thesis using length_concat_blocks [OF blocks] by simp
  qed
  ultimately show ?thesis using assms(1) by (simp add: denominators_of_def)
qed

lemma denominators_zero: "0 \<in> set (denominators_of points) \<longleftrightarrow> \<not> distinct points"
  by (auto simp: denominators_of_def distinct_conv_nth image_iff)

section \<open>Lagrange interpolation\<close>

context field_tower
begin

lemma lagrange_poly_at_Ok:
  assumes i: "i < length points"
  shows "\<exists>L. lagrange_poly_at (fe_embed X) points (map inverse (denominators_of points)) i = (Ok L :: (_, 'e) res) \<and> length L = length points \<and>
    (\<forall>x. horner_eval L x = (\<Prod>j \<in> {..<length points} - {i}. (x - fe_embed X (points ! j)) * inverse (fe_embed X (points ! i) - fe_embed X (points ! j))))"
proof -
  let ?n = "length points" and ?e = "fe_embed X"
  let ?factor = "\<lambda>x j. (x - ?e (points ! j)) * inverse (?e (points ! i) - ?e (points ! j))"
  let ?idx = "\<lambda>k. if k \<le> i then k else k - 1"
  define J where "J k st \<longleftrightarrow> snd st = ?idx k \<and> length (fst st) = Suc (?idx k) \<and> (\<forall>x. horner_eval (fst st) x = (\<Prod>j \<in> {..<k} - {i}. ?factor x j))" for k and st :: "_ list \<times> nat"
  let ?f = "\<lambda>j (lagrange_poly, inv_idx). if i = j then Ok (lagrange_poly, inv_idx) else
          rbind (index (map inverse (denominators_of points)) (i * (?n - 1) + inv_idx)) (\<lambda>scale.
          rbind (index points j) (\<lambda>point.
          rbind (mul_linear_inplace (?e scale) (?e point) lagrange_poly) (\<lambda>lagrange_poly.
          Ok (lagrange_poly, inv_idx + 1)))) :: (_, 'e) res"
  have "\<exists>st'. ?f k st = Ok st' \<and> J (Suc k) st'" if k: "k < ?n" and J: "J k st" for k st
  proof (cases "i = k")
    case True
    with J show ?thesis by (cases st) (simp add: J_def lessThan_Suc)
  next
    case False
    obtain p c where st: "st = (p, c)" by (cases st)
    from mul_linear_Ok [of "?e (inverse (points ! i - points ! k))" "?e (points ! k)" p, where 'e = 'e] obtain q where
      q: "mul_linear_inplace (?e (inverse (points ! i - points ! k))) (?e (points ! k)) p = (Ok q :: (_, 'e) res)" "length q = Suc (length p)"
      "\<And>x. horner_eval q x = horner_eval p x * (x - ?e (points ! k)) * ?e (inverse (points ! i - points ! k))" by blast
    have c: "c = ?idx k" using J st by (simp add: J_def)
    have "{..<Suc k} - {i} = insert k ({..<k} - {i})" using False by auto
    then have "J (Suc k) (q, c + 1)" using J q False unfolding J_def st by (auto simp: mult_ac)
    moreover have "?f k st = Ok (q, c + 1)"
      using denominators_nth [OF i k False, of inverse, where 'e = 'e] q(1) False k by (simp add: st c)
    ultimately show ?thesis by blast
  qed
  moreover have "J 0 ([1], 0)" by (simp add: J_def horner_Cons)
  ultimately obtain st where st: "rfold ?f [0..<?n] ([1], 0) = Ok st" "J ?n st" using rfold_up_inv [of ?n J ?f "([1], 0)"] by blast
  obtain L c where Lc: "st = (L, c)" by (cases st)
  have "lagrange_poly_at ?e points (map inverse (denominators_of points)) i = (Ok L :: (_, 'e) res)"
    unfolding lagrange_poly_at_def Let_def by (simp only: st(1) rbind.simps Lc prod.case)
  moreover have "length L = ?n" "\<forall>x. horner_eval L x = (\<Prod>j \<in> {..<?n} - {i}. ?factor x j)"
    using st(2) i by (auto simp: J_def Lc)
  ultimately show ?thesis by blast
qed

text \<open>The basis polynomials are one at their own point and zero at the others.\<close>

lemma lagrange_basis_value:
  assumes "distinct points" and "i < length points" and "m < length points"
  shows "(\<Prod>j \<in> {..<length points} - {i}. (fe_embed X (points ! m) - fe_embed X (points ! j)) * inverse (fe_embed X (points ! i) - fe_embed X (points ! j)))
     = (if m = i then 1 else 0)"
proof (cases "m = i")
  case True
  with assms show ?thesis by (auto simp: nth_eq_iff_index_eq intro!: prod.neutral)
next
  case False
  with assms(3) have "\<exists>j \<in> {..<length points} - {i}. (fe_embed X (points ! m) - fe_embed X (points ! j)) *
      inverse (fe_embed X (points ! i) - fe_embed X (points ! j)) = 0" by (intro bexI [of _ m]) auto
  with False show ?thesis using prod_zero by (simp del: mult_eq_0_iff)
qed

lemma lagrange_interpolate_Ok:
  assumes A: "array_laws A" and len: "length points = length evals" and d: "distinct points"
  shows "\<exists>cs. lagrange_interpolate A (fe_embed X) points evals = (Ok cs :: (_, 'e) res) \<and> length cs = length evals \<and>
    (\<forall>m < length evals. horner_eval cs (fe_embed X (points ! m)) = evals ! m)"
proof -
  let ?n = "length points" and ?e = "fe_embed X"
  consider "?n = 0" | "?n = 1" | "?n \<noteq> 0" "?n \<noteq> 1" by blast
  then show ?thesis
  proof cases
    case 1
    with len show ?thesis by (simp add: lagrange_interpolate_def)
  next
    case 2
    with len obtain e where "evals = [e]" by (metis length_0_conv length_Suc_conv One_nat_def)
    with 2 show ?thesis by (simp add: lagrange_interpolate_def horner_Cons)
  next
    case 3
    define J where "J k cs \<longleftrightarrow> length cs = ?n \<and> (\<forall>m < ?n. horner_eval cs (?e (points ! m)) = (if m < k then evals ! m else 0))" for k cs
    let ?f = "\<lambda>i coeffs. rbind (index evals i) (\<lambda>e. if e = 0 then Ok coeffs else
         rbind (lagrange_poly_at ?e points (map inverse (denominators_of points)) i) (\<lambda>lagrange_poly.
         add_scaled e lagrange_poly coeffs)) :: (_, 'e) res"
    have "\<exists>st'. ?f k st = Ok st' \<and> J (Suc k) st'" if k: "k < ?n" and J: "J k st" for k st
    proof (cases "evals ! k = 0")
      case True
      with J k len show ?thesis by (auto simp: J_def less_Suc_eq)
    next
      case False
      from lagrange_poly_at_Ok [OF k, where 'e = 'e] obtain L where
        L: "lagrange_poly_at ?e points (map inverse (denominators_of points)) k = (Ok L :: (_, 'e) res)" "length L = ?n"
        "\<And>x. horner_eval L x = (\<Prod>j \<in> {..<?n} - {k}. (x - ?e (points ! j)) * inverse (?e (points ! k) - ?e (points ! j)))" by blast
      have "J (Suc k) (map2 (\<lambda>v p. v + evals ! k * p) st L)"
        using J L(2) unfolding J_def
        by (auto simp: horner_add_scaled L(3) lagrange_basis_value [OF d k] less_Suc_eq)
      moreover have "?f k st = Ok (map2 (\<lambda>v p. v + evals ! k * p) st L)"
        using J k len False L(1,2) by (simp add: J_def add_scaled_Ok)
      ultimately show ?thesis by blast
    qed
    moreover have "J 0 (replicate ?n 0)" by (simp add: J_def horner_zeros)
    ultimately obtain cs where cs: "rfold ?f [0..<?n] (replicate ?n 0) = Ok cs" "J ?n cs" using rfold_up_inv [of ?n J ?f] by blast
    have inv: "batch_multiplicative_inverse_serial A (denominators_of points) = (Ok (map inverse (denominators_of points)) :: (_, 'e) res)"
      using array_laws.serial_inverts [OF A, of "denominators_of points"] d by (simp add: denominators_zero)
    have "lagrange_interpolate A ?e points evals = (Ok cs :: (_, 'e) res)"
      using cs(1) 3 len unfolding lagrange_interpolate_def Let_def
      by (simp only: assert_that_def if_True if_False rbind.simps inv simp_thms)
    with cs(2) len show ?thesis by (simp add: J_def)
  qed
qed

lemma lagrange_interpolate_panics:
  assumes "array_laws A" and "length points \<noteq> length evals \<or> \<not> distinct points"
  shows "lagrange_interpolate A (fe_embed X) points evals = (Panic :: (_, 'e) res)"
proof (cases "length points = length evals")
  case True
  with assms(2) have nd: "\<not> distinct points" by simp
  then have "length points \<noteq> 0 \<and> length points \<noteq> 1" by (auto simp: length_Suc_conv)
  moreover have "batch_multiplicative_inverse_serial A (denominators_of points) = (Panic :: (_, 'e) res)"
    using array_laws.serial_inverts [OF assms(1), of "denominators_of points"] nd by (simp add: denominators_zero)
  ultimately show ?thesis using True by (simp add: lagrange_interpolate_def Let_def)
qed (simp add: lagrange_interpolate_def)

end

section \<open>The property\<close>

text \<open>C35. \<open>lagrange_interpolate\<close> returns a polynomial with as many coefficients as there are points, which takes
  every value at its point, exactly when there are as many values as points and the points are distinct; otherwise it panics.
\<close>

theorem lagrange_interpolate_exact:
  fixes X :: "('f::field, 'ef::field) field_ext"
  assumes "field_tower X" and "array_laws A"
  shows "if length points = length evals \<and> distinct points
    then \<exists>cs. lagrange_interpolate A (fe_embed X) points evals = (Ok cs :: ('ef list, 'e) res) \<and> length cs = length evals \<and>
      (\<forall>m < length evals. horner_eval cs (fe_embed X (points ! m)) = evals ! m)
    else lagrange_interpolate A (fe_embed X) points evals = (Panic :: ('ef list, 'e) res)"
  using field_tower.lagrange_interpolate_Ok [OF assms, of points evals, where 'e = 'e]
    field_tower.lagrange_interpolate_panics [OF assms, of points evals, where 'e = 'e] by auto

theorem lagrange_interpolate_exact_witness:
  "(\<exists>cs. lagrange_interpolate quad_array (fe_embed f17_tower) [2, 5, 3] [1, 0, 4] = (Ok cs :: (f17 list, unit) res) \<and> length cs = 3 \<and>
      horner_eval cs (fe_embed f17_tower 3) = 4) \<and>
   lagrange_interpolate quad_array (fe_embed f17_tower) [2, 5, 2] [1, 0, 4] = (Panic :: (f17 list, unit) res)"
proof -
  have d: "distinct [2, 5, 3 :: f17]" "\<not> distinct [2, 5, 2 :: f17]" by code_simp+
  note run = lagrange_interpolate_exact [OF f17_tower.field_tower_axioms quads.array_laws_axioms, where 'e = unit]
  from run [of "[2, 5, 3]" "[1, 0, 4]"] d(1) obtain cs where
    "lagrange_interpolate quad_array (fe_embed f17_tower) [2, 5, 3] [1, 0, 4] = (Ok cs :: (f17 list, unit) res)" "length cs = 3"
    "\<forall>m < 3. horner_eval cs (fe_embed f17_tower ([2, 5, 3] ! m)) = [1, 0, 4] ! m" by auto
  moreover from this(3) [rule_format, of 2] have "horner_eval cs (fe_embed f17_tower 3) = 4" by simp
  moreover from run [of "[2, 5, 2]" "[1, 0, 4]"] d(2) have
    "lagrange_interpolate quad_array (fe_embed f17_tower) [2, 5, 2] [1, 0, 4] = (Panic :: (f17 list, unit) res)" by (simp del: distinct.simps)
  ultimately show ?thesis by blast
qed

end
