(* ===== verification/CosetInterpolation.thy ===== *)
theory CosetInterpolation
  imports Interpolation
begin

text \<open>
  Interpolation through a geometric progression (\<open>lagrange_basis_from_geometric_points\<close>) and from the
  values on the cosets \<open>init * shift ^ i * D\<close> of a subgroup \<open>D\<close>
  (\<open>from_geometric_cosets_evals_idft\<close>, \<open>prover/poly.rs\<close>).
\<close>

section \<open>The basis\<close>

text \<open>\<open>n\<close> terms from \<open>start\<close> on, as the fold of the code collects them.\<close>

definition geometric_seq :: "nat \<Rightarrow> 'f::field \<Rightarrow> 'f \<Rightarrow> 'f list" where
  "geometric_seq n start ratio = fst (fold (\<lambda>_ (acc, pow). (acc @ [pow], pow * ratio)) [0..<n] ([], start))"

definition root_poly_step :: "'f::field \<Rightarrow> 'f list \<Rightarrow> ('f list, 'e) res" where
  "root_poly_step x root_poly =
     (let root_poly = root_poly @ [0] in
      rbind (rfold (\<lambda>k root_poly.
          rbind (index root_poly (k - 1)) (\<lambda>prev.
          rbind (index root_poly k) (\<lambda>old. Ok (root_poly[k := prev - x * old])))) (rev [1..<length root_poly]) root_poly) (\<lambda>root_poly.
      rbind (index root_poly 0) (\<lambda>old. Ok (root_poly[0 := - x * old]))))"

definition prefix_products :: "nat \<Rightarrow> 'f::field \<Rightarrow> ('f list, 'e) res" where
  "prefix_products width base =
     rfold (\<lambda>(i, base_pow) prefix.
       rbind (index prefix i) (\<lambda>p.
       rbind (index prefix (i + 1)) (\<lambda>_. Ok (prefix[i + 1 := p * (1 - base_pow)]))))
       (enumerated (drop 1 (powers width base))) (replicate width 1)"

text \<open>Synthetic division by \<open>X - x\<close>.\<close>

definition quotient_at :: "nat \<Rightarrow> 'f::field list \<Rightarrow> 'f \<Rightarrow> ('f list, 'e) res" where
  "quotient_at width root_poly x =
     rbind (index root_poly width) (\<lambda>top.
     rfold (\<lambda>k q.
       rbind (index root_poly (k + 1)) (\<lambda>r.
       rbind (index q (k + 1)) (\<lambda>above. Ok (q[k := r + x * above])))) (rev [0..<width - 1]) ((replicate width 0)[width - 1 := top]))"

definition geometric_quotient ::
  "'f::field \<Rightarrow> nat \<Rightarrow> 'f \<Rightarrow> 'f list \<Rightarrow> 'f list \<Rightarrow> nat \<times> 'f \<Rightarrow> ('f list, 'e) res" where
  "geometric_quotient base width init root_poly prefix = (\<lambda>(i, x).
     rbind (quotient_at width root_poly x) (\<lambda>q.
     let sign = (if i mod 2 = 0 then 1 else - 1) in
     rbind (mul64 i (width - 1)) (\<lambda>full.
     rbind (mul64 i (i + 1)) (\<lambda>twice.
     rbind (sub64 full (twice div 2)) (\<lambda>exp.
     let pow = base ^ exp; init_pow = init ^ (width - 1) in
     rbind (index prefix i) (\<lambda>below.
     rbind (index prefix (width - 1 - i)) (\<lambda>above.
     rbind (checked_inverse (sign * init_pow * pow * below * above)) (\<lambda>inv_denom.
     Ok (map (\<lambda>coeff. coeff * inv_denom) q)))))))))"

definition lagrange_basis_from_geometric_points :: "'f::field \<Rightarrow> nat \<Rightarrow> 'f \<Rightarrow> ('f list list, 'e) res" where
  "lagrange_basis_from_geometric_points base width init =
     (if width = 0 then Ok []
      else if width = 1 then Ok [[1]]
      else
        let points = geometric_seq width init base in
        rbind (rfold root_poly_step points [1]) (\<lambda>root_poly.
        rbind (prefix_products width base) (\<lambda>prefix.
        rmap (geometric_quotient base width init root_poly prefix) (enumerated points))))"

section \<open>The product of the linear factors\<close>

lemma geometric_seq_eq: "geometric_seq n start ratio = map (\<lambda>i. start * ratio ^ i) [0..<n]"
proof -
  have "fold (\<lambda>_ (acc, pow). (acc @ [pow], pow * ratio)) [0..<n] ([], start) = (map (\<lambda>i. start * ratio ^ i) [0..<n], start * ratio ^ n)"
    by (induction n) (simp_all add: mult_ac)
  then show ?thesis by (simp add: geometric_seq_def)
qed

definition linear_times :: "'f::field \<Rightarrow> 'f list \<Rightarrow> 'f list" where
  "linear_times x p = map2 (\<lambda>u v. u - x * v) (0 # p) (p @ [0])"

lemma length_linear_times [simp]: "length (linear_times x p) = Suc (length p)"
  by (simp add: linear_times_def)

lemma linear_times_nth:
  "i < Suc (length p) \<Longrightarrow> linear_times x p ! i = (if i = 0 then 0 else p ! (i - 1)) - x * (if i < length p then p ! i else 0)"
  by (cases i) (auto simp: linear_times_def nth_append)

lemma linear_times_commute: "linear_times x (linear_times y p) = linear_times y (linear_times x p)"
proof (rule nth_equalityI)
  fix i
  assume "i < length (linear_times x (linear_times y p))"
  then have i: "i < Suc (Suc (length p))" by simp
  consider "i = 0" | "i = 1" | j where "i = Suc (Suc j)" by (metis One_nat_def not0_implies_Suc)
  then show "linear_times x (linear_times y p) ! i = linear_times y (linear_times x p) ! i"
    by cases (use i in \<open>simp_all add: linear_times_nth algebra_simps\<close>)
qed simp

lemma horner_linear_times: "horner_eval (linear_times x p) t = (t - x) * horner_eval p t"
proof -
  have "horner_eval (map2 (\<lambda>u v. u - x * v) as bs) t = horner_eval as t - x * horner_eval bs t" if "length as = length bs" for as bs
    using that by (induction as bs rule: list_induct2) (simp_all add: horner_Cons, simp add: algebra_simps)
  from this [of "0 # p" "p @ [0]"] show ?thesis
    by (simp add: linear_times_def horner_Cons horner_append left_diff_distrib)
qed

lemma root_poly_step_Ok: "root_poly_step x p = (Ok (linear_times x p) :: (_, 'e) res)"
proof -
  let ?n = "length p"
  define J where "J k st \<longleftrightarrow> length st = Suc ?n \<and> (\<forall>i \<le> ?n. st ! i = (if k \<le> i then linear_times x p ! i else (p @ [0]) ! i))" for k st
  let ?f = "\<lambda>k root_poly. rbind (index root_poly (k - 1)) (\<lambda>prev.
          rbind (index root_poly k) (\<lambda>old. Ok (root_poly[k := prev - x * old]))) :: (_, 'e) res"
  have "\<exists>st'. ?f k st = Ok st' \<and> J k st'" if k: "1 \<le> k" "k < Suc ?n" and J: "J (Suc k) st" for k st
  proof -
    have st: "length st = Suc ?n" "st ! (k - 1) = p ! (k - 1)" "st ! k = (if k < ?n then p ! k else 0)"
      using J k by (auto simp: J_def nth_append)
    have "st[k := st ! (k - 1) - x * st ! k] ! i = (if k \<le> i then linear_times x p ! i else (p @ [0]) ! i)" if "i \<le> ?n" for i
    proof (cases "i = k")
      case True
      with k st that show ?thesis by (simp add: linear_times_nth)
    next
      case False
      with J that show ?thesis by (simp add: J_def)
    qed
    with st(1) have "J k (st[k := st ! (k - 1) - x * st ! k])" by (simp add: J_def)
    with k st(1) show ?thesis by simp
  qed
  moreover have "J (Suc ?n) (p @ [0])" by (auto simp: J_def)
  ultimately obtain q where q: "rfold ?f (rev [1..<Suc ?n]) (p @ [0]) = Ok q" "J 1 q"
    using rfold_down_inv [of 1 "Suc ?n" J ?f "p @ [0]"] by auto
  have len: "length q = Suc ?n" using q(2) by (simp add: J_def)
  moreover have "q[0 := - x * q ! 0] = linear_times x p"
    using q(2) by (intro nth_equalityI) (auto simp: J_def nth_list_update linear_times_nth nth_append)
  ultimately show ?thesis using q(1) by (simp add: root_poly_step_def Let_def)
qed

lemma root_poly_Ok: "rfold root_poly_step points p = (Ok (fold linear_times points p) :: (_, 'e) res)"
  by (induction points arbitrary: p) (simp_all add: root_poly_step_Ok)

lemma fold_linear_times_out: "fold linear_times ys (linear_times x p) = linear_times x (fold linear_times ys p)"
  by (induction ys arbitrary: p) (simp_all add: linear_times_commute [of _ x])

lemma horner_fold_linear_times: "horner_eval (fold linear_times ys p) t = (\<Prod>y \<leftarrow> ys. t - y) * horner_eval p t"
  by (induction ys arbitrary: p) (simp_all add: horner_linear_times)

lemma length_fold_linear_times: "length (fold linear_times ys p) = length p + length ys"
  by (induction ys arbitrary: p) simp_all

text \<open>Synthetic division undoes the product with a linear factor.\<close>

lemma quotient_at_Ok:
  assumes w: "length p = width" "0 < width"
  shows "quotient_at width (linear_times x p) x = (Ok p :: (_, 'e) res)"
proof -
  let ?r = "linear_times x p"
  define J where "J k st \<longleftrightarrow> length st = width \<and> (\<forall>i < width. k \<le> i \<longrightarrow> st ! i = p ! i)" for k st
  let ?f = "\<lambda>k q. rbind (index ?r (k + 1)) (\<lambda>r. rbind (index q (k + 1)) (\<lambda>above. Ok (q[k := r + x * above]))) :: (_, 'e) res"
  have "\<exists>st'. ?f k st = Ok st' \<and> J k st'" if k: "0 \<le> k" "k < width - 1" and J: "J (Suc k) st" for k st
  proof -
    have st: "length st = width" "st ! Suc k = p ! Suc k" using J k by (auto simp: J_def)
    have "J k (st[k := ?r ! Suc k + x * st ! Suc k])"
      using J k w unfolding J_def by (auto simp: nth_list_update linear_times_nth le_Suc_eq Suc_le_eq)
    with k st(1) w show ?thesis by simp
  qed
  moreover have "J (width - 1) ((replicate width 0)[width - 1 := ?r ! width])"
    using w by (auto simp: J_def linear_times_nth nth_list_update)
  ultimately obtain q where q: "rfold ?f (rev [0..<width - 1]) ((replicate width 0)[width - 1 := ?r ! width]) = Ok q" "J 0 q"
    using rfold_down_inv [of 0 "width - 1" J ?f "(replicate width 0)[width - 1 := ?r ! width]"] by auto
  from q(2) w have "q = p" by (intro nth_equalityI) (auto simp: J_def)
  with q(1) w show ?thesis by (simp add: quotient_at_def)
qed

section \<open>The denominators\<close>

definition prefix_prod :: "'f::field \<Rightarrow> nat \<Rightarrow> 'f" where
  "prefix_prod base k = (\<Prod>m < k. 1 - base ^ Suc m)"

lemma prefix_products_Ok: "0 < width \<Longrightarrow> prefix_products width base = (Ok (map (prefix_prod base) [0..<width]) :: (_, 'e) res)"
proof -
  assume w: "0 < width"
  let ?pows = "drop 1 (powers width base)"
  let ?f = "\<lambda>(i, base_pow) prefix. rbind (index prefix i) (\<lambda>p. rbind (index prefix (i + 1)) (\<lambda>_. Ok (prefix[i + 1 := p * (1 - base_pow)]))) :: (_, 'e) res"
  let ?J = "\<lambda>k st. length st = width \<and> (\<forall>i \<le> k. st ! i = prefix_prod base i)"
  have "\<exists>s'. ?f (i, ?pows ! i) st = Ok s' \<and> ?J (Suc i) s'" if i: "i < length ?pows" and J: "?J i st" for i st
  proof -
    have "Suc i < width" "?pows ! i = base ^ Suc i" using i by (simp_all add: powers_def del: upt_Suc)
    with J show ?thesis by (auto simp: nth_list_update prefix_prod_def le_Suc_eq)
  qed
  then have "\<exists>st. rfold ?f (enumerated ?pows) (replicate width 1) = Ok st \<and> ?J (length ?pows) st"
    by (rule rfold_enumerated_inv [where J = ?J]) (use w in \<open>auto simp: prefix_prod_def\<close>)
  then obtain st where st: "prefix_products width base = (Ok st :: (_, 'e) res)" "?J (length ?pows) st" by (auto simp: prefix_products_def)
  then have "st = map (prefix_prod base) [0..<width]"
    using w by (intro nth_equalityI) (auto simp: powers_def)
  with st(1) show ?thesis by simp
qed

lemma prod_below: "(\<Prod>j < i. c * base ^ i - c * base ^ j) = (- 1) ^ i * c ^ i * base ^ (\<Sum>j < i. j) * prefix_prod base i"
proof -
  have factor: "c * base ^ i - c * base ^ j = - 1 * c * base ^ j * (1 - base ^ Suc (i - Suc j))" if "j < i" for j
  proof -
    have "base ^ i = base ^ j * base ^ Suc (i - Suc j)" using that by (simp add: power_add [symmetric] del: power_Suc)
    then show ?thesis by (simp add: algebra_simps)
  qed
  have "(\<Prod>j < i. c * base ^ i - c * base ^ j) = (\<Prod>j < i. - 1 * c * base ^ j * (1 - base ^ Suc (i - Suc j)))"
    by (rule prod.cong [OF refl factor]) simp
  also have "\<dots> = (- 1) ^ i * c ^ i * (\<Prod>j < i. base ^ j) * (\<Prod>j < i. 1 - base ^ Suc (i - Suc j))"
    by (simp only: prod.distrib prod_constant card_lessThan)
  finally show ?thesis
    by (simp only: power_sum prefix_prod_def prod.nat_diff_reindex [of "\<lambda>j. 1 - base ^ Suc j"])
qed

lemma prod_above: "(\<Prod>j < m. c * base ^ i - c * base ^ (i + Suc j)) = c ^ m * base ^ (i * m) * prefix_prod base m"
proof -
  have "(\<Prod>j < m. c * base ^ i - c * base ^ (i + Suc j)) = (\<Prod>j < m. c * base ^ i * (1 - base ^ Suc j))"
    by (rule prod.cong) (simp_all add: power_add algebra_simps)
  then show ?thesis by (simp add: prod.distrib prefix_prod_def power_mult_distrib power_mult)
qed

lemma denominator_exponent: "i < (w :: nat) \<Longrightarrow> i * (w - 1) - i * (i + 1) div 2 = (\<Sum>j < i. j) + i * (w - 1 - i)"
proof -
  assume i: "i < w"
  have gauss: "2 * (\<Sum>j < i. j) + i = i * i" by (induction i) simp_all
  have "even (i * (i + 1))" by simp
  then have half: "2 * (i * (i + 1) div 2) = i * i + i" by simp
  obtain m where m: "w = Suc (i + m)" using i by (metis less_imp_Suc_add)
  have "2 * (i * (w - 1)) = 2 * (i * i) + 2 * (i * m)" by (simp add: m algebra_simps)
  with gauss half show ?thesis by (simp add: m)
qed

lemma denominator_value:
  assumes "i < w"
  shows "(if i mod 2 = 0 then 1 else - 1) * c ^ (w - 1) * base ^ (i * (w - 1) - i * (i + 1) div 2) * prefix_prod base i * prefix_prod base (w - 1 - i)
     = (\<Prod>j < i. c * base ^ i - c * base ^ j) * (\<Prod>j < w - 1 - i. c * base ^ i - c * base ^ (i + Suc j) :: 'f::field)"
proof -
  have "(if i mod 2 = 0 then 1 else - 1 :: 'f) = (- 1) ^ i" by (simp add: even_iff_mod_2_eq_zero uminus_power_if)
  moreover have "c ^ (w - 1) = c ^ i * c ^ (w - 1 - i)" using assms by (simp add: power_add [symmetric])
  ultimately show ?thesis by (simp only: denominator_exponent [OF assms] prod_below prod_above power_add [of base "\<Sum>j < i. j"]) (simp only: mult_ac)
qed

section \<open>The basis is dual to the points\<close>

lemma points_split:
  assumes "i < w"
  shows "[0..<w] = [0..<i] @ i # map (\<lambda>j. i + Suc j) [0..<w - 1 - i]"
proof -
  have "map (\<lambda>j. j + Suc i) [0..<w - 1 - i] = [Suc i..<w]" unfolding map_add_upt using assms by simp
  moreover have "[0..<w] = [0..<i] @ i # [Suc i..<w]" using assms upt_add_eq_append [of 0 i "w - i"] by (simp add: upt_conv_Cons)
  ultimately show ?thesis by (simp add: add.commute)
qed

lemma exponent_fits:
  assumes "i < (w :: nat)" and "w \<le> 2 ^ 32"
  shows "mul64 i (w - 1) = (Ok (i * (w - 1)) :: (_, 'e) res)" "mul64 i (i + 1) = (Ok (i * (i + 1)) :: (_, 'e) res)"
    "sub64 (i * (w - 1)) (i * (i + 1) div 2) = (Ok (i * (w - 1) - i * (i + 1) div 2) :: (_, 'e) res)"
proof -
  have "i * w < 2 ^ 32 * 2 ^ 32" using assms by (intro mult_less_le_imp_less) simp_all
  also have "(2 :: nat) ^ 32 * 2 ^ 32 = 2 ^ 64" by simp
  finally have lt: "i * w < 2 ^ 64" .
  have le: "i * (w - 1) \<le> i * w" "i * (i + 1) \<le> i * w" using assms(1) by (intro mult_le_mono2, simp)+
  show "mul64 i (w - 1) = (Ok (i * (w - 1)) :: (_, 'e) res)" "mul64 i (i + 1) = (Ok (i * (i + 1)) :: (_, 'e) res)"
    unfolding mul64_def using le_less_trans [OF le(1) lt] le_less_trans [OF le(2) lt] by (simp_all only: if_True)
  have "i \<le> i * i" "i * i \<le> i * (w - 1)" using assms(1) by (simp add: le_square, intro mult_le_mono2, simp)
  then have "i * (i + 1) \<le> 2 * (i * (w - 1))" unfolding add_mult_distrib2 by linarith
  then have "i * (i + 1) div 2 \<le> i * (w - 1)" by linarith
  then show "sub64 (i * (w - 1)) (i * (i + 1) div 2) = (Ok (i * (w - 1) - i * (i + 1) div 2) :: (_, 'e) res)" by (simp only: sub64_def if_True)
qed

lemma geometric_quotient_Ok:
  assumes i: "i < w" and w: "2 \<le> w" "w \<le> 2 ^ 32" and nz: "init \<noteq> 0" "base \<noteq> 0" and order: "\<forall>k. 0 < k \<and> k < w \<longrightarrow> base ^ k \<noteq> 1"
  shows "\<exists>q. geometric_quotient base w init (fold linear_times (geometric_seq w init base) [1]) (map (prefix_prod base) [0..<w]) (i, init * base ^ i)
      = (Ok q :: (_, 'e) res) \<and> length q = w \<and> (\<forall>m < w. horner_eval q (init * base ^ m) = (if m = i then 1 else 0))"
proof -
  let ?p = "\<lambda>j. init * base ^ j"
  let ?others = "map ?p [0..<i] @ map (\<lambda>j. ?p (i + Suc j)) [0..<w - 1 - i]"
  let ?q = "fold linear_times ?others [1]"
  let ?d = "(\<Prod>j < i. ?p i - ?p j) * (\<Prod>j < w - 1 - i. ?p i - ?p (i + Suc j))"
  have "geometric_seq w init base = map ?p [0..<i] @ ?p i # map (\<lambda>j. ?p (i + Suc j)) [0..<w - 1 - i]"
    unfolding geometric_seq_eq points_split [OF i] by simp
  then have root: "fold linear_times (geometric_seq w init base) [1] = linear_times (?p i) ?q" by (simp add: fold_linear_times_out)
  have len: "length ?q = w" using i by (simp add: length_fold_linear_times)
  have prefix_nz: "prefix_prod base k \<noteq> 0" if "k < w" for k
    unfolding prefix_prod_def using that order [rule_format, of "Suc _"] by (auto simp del: power_Suc)
  have d: "(if i mod 2 = 0 then 1 else - 1) * init ^ (w - 1) * base ^ (i * (w - 1) - i * (i + 1) div 2) * prefix_prod base i * prefix_prod base (w - 1 - i) = ?d"
    by (rule denominator_value [OF i])
  have d_nz: "?d \<noteq> 0"
    unfolding d [symmetric] using i nz prefix_nz [of i] prefix_nz [of "w - 1 - i"] by simp
  have value_at: "horner_eval ?q t = (\<Prod>j < i. t - ?p j) * (\<Prod>j < w - 1 - i. t - ?p (i + Suc j))" for t
    by (simp add: horner_fold_linear_times horner_Cons comp_def prod.list_conv_set_nth atLeast0LessThan del: power_Suc upt_Suc)
  have run: "geometric_quotient base w init (fold linear_times (geometric_seq w init base) [1]) (map (prefix_prod base) [0..<w]) (i, ?p i)
      = (Ok (map (\<lambda>coeff. coeff * inverse ?d) ?q) :: (_, 'e) res)"
  proof -
    have "index (map (prefix_prod base) [0..<w]) i = (Ok (prefix_prod base i) :: (_, 'e) res)"
      "index (map (prefix_prod base) [0..<w]) (w - 1 - i) = (Ok (prefix_prod base (w - 1 - i)) :: (_, 'e) res)" using i by simp_all
    moreover have "checked_inverse ?d = (Ok (inverse ?d) :: (_, 'e) res)" using d_nz by (simp only: checked_inverse_def if_False)
    moreover have "quotient_at w (linear_times (?p i) ?q) (?p i) = (Ok ?q :: (_, 'e) res)" using quotient_at_Ok [OF len] i by simp
    ultimately show ?thesis by (simp only: geometric_quotient_def exponent_fits [OF i w(2)] prod.case root Let_def rbind.simps d)
  qed
  have dual: "horner_eval (map (\<lambda>coeff. coeff * inverse ?d) ?q) (?p m) = (if m = i then 1 else 0)" if "m < w" for m
  proof (cases "m = i")
    case True
    then show ?thesis using d_nz by (simp only: horner_map_mult value_at right_inverse if_True simp_thms)
  next
    case False
    have "horner_eval ?q (?p m) = 0"
    proof (cases "m < i")
      case True
      then show ?thesis unfolding value_at by (auto intro: bexI [of _ m])
    next
      case above: False
      with False that have "i + Suc (m - Suc i) = m" "m - Suc i < w - 1 - i" by auto
      then show ?thesis unfolding value_at by (auto intro!: bexI [of _ "m - Suc i"] simp del: power_Suc)
    qed
    with False show ?thesis by (simp only: horner_map_mult mult_zero_left if_False)
  qed
  have "length (map (\<lambda>coeff. coeff * inverse ?d) ?q) = w" unfolding length_map by (rule len)
  with run dual show ?thesis by blast
qed

lemma lagrange_basis_Ok:
  assumes w: "w \<le> 2 ^ 32" and nz: "init \<noteq> 0" "base \<noteq> 0" and order: "\<forall>k. 0 < k \<and> k < w \<longrightarrow> base ^ k \<noteq> 1"
  shows "\<exists>Ls. lagrange_basis_from_geometric_points base w init = (Ok Ls :: (_, 'e) res) \<and> length Ls = w \<and>
    (\<forall>i < w. length (Ls ! i) = w \<and> (\<forall>m < w. horner_eval (Ls ! i) (init * base ^ m) = (if m = i then 1 else 0)))"
proof -
  consider "w = 0" | "w = 1" | "2 \<le> w" by linarith
  then show ?thesis
  proof cases
    case 3
    let ?points = "geometric_seq w init base"
    let ?q = "geometric_quotient base w init (fold linear_times ?points [1]) (map (prefix_prod base) [0..<w])"
    have each: "\<exists>q. ?q (i, ?points ! i) = (Ok q :: (_, 'e) res) \<and> length q = w \<and> (\<forall>m < w. horner_eval q (init * base ^ m) = (if m = i then 1 else 0))"
      if "i < w" for i
      using geometric_quotient_Ok [OF that 3 w nz order] that by (simp add: geometric_seq_eq)
    then have "\<forall>i. \<exists>q. i < w \<longrightarrow> ?q (i, ?points ! i) = (Ok q :: (_, 'e) res) \<and> length q = w \<and> (\<forall>m < w. horner_eval q (init * base ^ m) = (if m = i then 1 else 0))"
      by blast
    from choice [OF this] obtain L where
      L: "?q (i, ?points ! i) = (Ok (L i) :: (_, 'e) res)" "length (L i) = w" "\<forall>m < w. horner_eval (L i) (init * base ^ m) = (if m = i then 1 else 0)"
      if "i < w" for i by blast
    have "rmap ?q (enumerated ?points) = (Ok (map L [0..<w]) :: (_, 'e) res)"
    proof -
      have "enumerated ?points = map (\<lambda>i. (i, ?points ! i)) [0..<w]" by (rule nth_equalityI) (simp_all add: geometric_seq_eq)
      moreover have "rmap ?q (map (\<lambda>i. (i, ?points ! i)) ks) = (Ok (map L ks) :: (_, 'e) res)" if "\<forall>i \<in> set ks. i < w" for ks
        using that by (induction ks) (simp_all add: L(1))
      ultimately show ?thesis by simp
    qed
    then have "lagrange_basis_from_geometric_points base w init = (Ok (map L [0..<w]) :: (_, 'e) res)"
      using 3 by (simp add: lagrange_basis_from_geometric_points_def root_poly_Ok prefix_products_Ok)
    with L(2,3) show ?thesis by (intro exI [of _ "map L [0..<w]"]) simp
  qed (simp_all add: lagrange_basis_from_geometric_points_def horner_Cons)
qed

section \<open>Values on cosets\<close>

text \<open>Every column of the coefficients is multiplied by the powers of its inverted shift.\<close>

definition unshift_rows :: "('bf::field \<Rightarrow> 'f::field) \<Rightarrow> nat \<Rightarrow> 'bf list \<Rightarrow> 'f list list \<Rightarrow> 'f list list" where
  "unshift_rows emb width shift_invs rows =
     fst (fold (\<lambda>row (acc, shift_pows).
       (acc @ [map2 (*) row shift_pows], map2 (\<lambda>pow s. pow * emb s) shift_pows shift_invs)) rows ([], replicate width 1))"

definition across_cosets :: "('bf::field \<Rightarrow> 'f::field) \<Rightarrow> 'bf list list \<Rightarrow> nat \<Rightarrow> 'f list \<Rightarrow> ('f list, 'e) res" where
  "across_cosets emb lagrange_basis width row_vals =
     rfold (\<lambda>(i, v) poly_coeffs.
       if v = 0 then Ok poly_coeffs else
       rbind (index lagrange_basis i) (\<lambda>basis. add_scaled v (map emb basis) poly_coeffs)) (enumerated row_vals) (replicate width 0)"

definition scatter_row :: "nat \<Rightarrow> nat \<Rightarrow> 'f list \<Rightarrow> 'f list \<Rightarrow> ('f list, 'e) res" where
  "scatter_row height row_idx poly_coeffs coeffs =
     rfold (\<lambda>(coset_idx, coeff) coeffs.
       rbind (index coeffs (coset_idx * height + row_idx)) (\<lambda>_. Ok (coeffs[coset_idx * height + row_idx := coeff]))) (enumerated poly_coeffs) coeffs"

definition from_geometric_cosets_evals_idft ::
  "('bf::field \<Rightarrow> 'f::field) \<Rightarrow> 'f fft_ops \<Rightarrow> 'f row_major \<Rightarrow> 'bf \<Rightarrow> 'bf \<Rightarrow> ('f list, 'e) res" where
  "from_geometric_cosets_evals_idft emb P evals shift init =
     (let height = rm_height evals; width = rm_width evals in
      if height = 0 \<or> width = 0 then Ok []
      else
        rbind (log2_strict height) (\<lambda>log_height.
        rbind (idft_batch P evals) (\<lambda>coeffs_mat.
        rbind (checked_inverse shift) (\<lambda>shift_inv.
        rbind (checked_inverse init) (\<lambda>init_inv.
        let shift_invs = geometric_seq width init_inv shift_inv;
            rows = unshift_rows emb width shift_invs (chunks width (rm_values coeffs_mat));
            coset_base = shift ^ (2 ^ log_height); init_base = init ^ (2 ^ log_height) in
        rbind (lagrange_basis_from_geometric_points coset_base width init_base) (\<lambda>lagrange_basis.
        rfold (\<lambda>(row_idx, row_vals) coeffs.
          rbind (across_cosets emb lagrange_basis width row_vals) (\<lambda>poly_coeffs.
          scatter_row height row_idx poly_coeffs coeffs)) (enumerated rows) (replicate (height * width) 0)))))))"

lemma unshift_rows_eq:
  assumes "length shift_invs = width"
  shows "unshift_rows emb width shift_invs rows = map (\<lambda>(r, row). map2 (\<lambda>v s. v * emb s ^ r) row shift_invs) (enumerated rows)"
proof -
  have pows: "map2 (\<lambda>pow s. pow * emb s) (map (\<lambda>s. emb s ^ r) shift_invs) shift_invs = map (\<lambda>s. emb s ^ Suc r) shift_invs" for r
    by (rule nth_equalityI) (simp_all add: mult.commute)
  have "fold (\<lambda>row (acc, shift_pows). (acc @ [map2 (*) row shift_pows], map2 (\<lambda>pow s. pow * emb s) shift_pows shift_invs)) rows ([], replicate width 1)
      = (map (\<lambda>(r, row). map2 (\<lambda>v s. v * emb s ^ r) row shift_invs) (enumerated rows), map (\<lambda>s. emb s ^ length rows) shift_invs)"
  proof (induction rows rule: rev_induct)
    case Nil
    show ?case using assms by (simp add: map_replicate_const)
  next
    case (snoc row rows)
    have "map2 (*) row (map (\<lambda>s. emb s ^ length rows) shift_invs) = map2 (\<lambda>v s. v * emb s ^ length rows) row shift_invs"
      by (rule nth_equalityI) simp_all
    with snoc show ?case by (simp add: pows del: power_Suc)
  qed
  then show ?thesis by (simp add: unshift_rows_def)
qed

lemma scatter_row_Ok:
  assumes "\<And>c. c < length poly_coeffs \<Longrightarrow> c * height + row_idx < length coeffs" and "0 < height"
  shows "\<exists>out. scatter_row height row_idx poly_coeffs coeffs = (Ok out :: (_, 'e) res) \<and> length out = length coeffs \<and>
    (\<forall>c < length poly_coeffs. out ! (c * height + row_idx) = poly_coeffs ! c) \<and>
    (\<forall>m < length coeffs. (\<forall>c. m \<noteq> c * height + row_idx) \<longrightarrow> out ! m = coeffs ! m)"
proof -
  let ?J = "\<lambda>k st. length st = length coeffs \<and> (\<forall>c < k. st ! (c * height + row_idx) = poly_coeffs ! c) \<and>
    (\<forall>m < length coeffs. (\<forall>c. m \<noteq> c * height + row_idx) \<longrightarrow> st ! m = coeffs ! m)"
  have "\<exists>s'. (case (i, poly_coeffs ! i) of (coset_idx, coeff) \<Rightarrow> (\<lambda>coeffs.
       rbind (index coeffs (coset_idx * height + row_idx)) (\<lambda>_. Ok (coeffs[coset_idx * height + row_idx := coeff])))) s = (Ok s' :: (_, 'e) res) \<and> ?J (Suc i) s'"
    if "i < length poly_coeffs" "?J i s" for i s
    using that assms by (auto simp: nth_list_update less_Suc_eq)
  then have "\<exists>st. scatter_row height row_idx poly_coeffs coeffs = (Ok st :: (_, 'e) res) \<and> ?J (length poly_coeffs) st"
    unfolding scatter_row_def by (rule rfold_enumerated_inv [where J = ?J]) auto
  then show ?thesis by blast
qed

text \<open>A sum by remainders and quotients.\<close>

lemma horner_interleaved:
  assumes len: "length cs = height * width" and rows: "\<And>r c. r < height \<Longrightarrow> c < width \<Longrightarrow> cs ! (c * height + r) = Q r ! c"
    and Q: "\<And>r. r < height \<Longrightarrow> length (Q r) = width"
  shows "horner_eval cs x = (\<Sum>r < height. x ^ r * horner_eval (Q r) (x ^ height))"
proof -
  have "horner_eval cs x = (\<Sum>c < width. \<Sum>r < height. cs ! (c * height + r) * x ^ (c * height + r))"
    unfolding horner_eval_sum len mult.commute [of height width] by (rule sum_blocks)
  also have "\<dots> = (\<Sum>r < height. \<Sum>c < width. cs ! (c * height + r) * x ^ (c * height + r))" by (rule sum.swap)
  also have "\<dots> = (\<Sum>r < height. x ^ r * horner_eval (Q r) (x ^ height))"
    by (intro sum.cong) (simp_all add: horner_eval_sum Q rows sum_distrib_left power_add power_mult [symmetric] mult_ac)
  finally show ?thesis .
qed

context field_tower
begin

lemma across_cosets_Ok:
  assumes len: "length row = width" "length basis = width" and basis: "\<And>i. i < width \<Longrightarrow> length (basis ! i) = width"
  shows "\<exists>q. across_cosets (fe_embed X) basis width row = (Ok q :: (_, 'e) res) \<and> length q = width \<and>
    (\<forall>x. horner_eval q x = (\<Sum>i < width. row ! i * horner_eval (map (fe_embed X) (basis ! i)) x))"
proof -
  let ?J = "\<lambda>k st. length st = width \<and> (\<forall>x. horner_eval st x = (\<Sum>i < k. row ! i * horner_eval (map (fe_embed X) (basis ! i)) x))"
  have "\<exists>s'. (case (i, row ! i) of (i, v) \<Rightarrow> (\<lambda>poly_coeffs. if v = 0 then Ok poly_coeffs else
       rbind (index basis i) (\<lambda>basis. add_scaled v (map (fe_embed X) basis) poly_coeffs))) s = (Ok s' :: (_, 'e) res) \<and> ?J (Suc i) s'"
    if "i < length row" "?J i s" for i s
    using that len basis by (simp add: add_scaled_Ok horner_add_scaled)
  then have "\<exists>st. across_cosets (fe_embed X) basis width row = (Ok st :: (_, 'e) res) \<and> ?J (length row) st"
    unfolding across_cosets_def by (rule rfold_enumerated_inv [where J = ?J]) (auto simp: horner_zeros)
  with len show ?thesis by simp
qed

lemma scatter_rows_fill:
  assumes rows: "length rows = height"
    and Q: "\<And>r. r < height \<Longrightarrow> across_cosets (fe_embed X) basis width (rows ! r) = (Ok (Q r) :: (_, 'e) res)" "\<And>r. r < height \<Longrightarrow> length (Q r) = width"
  shows "\<exists>cs. rfold (\<lambda>(row_idx, row_vals) coeffs.
          rbind (across_cosets (fe_embed X) basis width row_vals) (\<lambda>poly_coeffs.
          scatter_row height row_idx poly_coeffs coeffs)) (enumerated rows) (replicate (height * width) 0) = (Ok cs :: (_, 'e) res) \<and>
    length cs = height * width \<and> (\<forall>r < height. \<forall>c < width. cs ! (c * height + r) = Q r ! c)"
proof -
  let ?J = "\<lambda>k st. length st = height * width \<and> (\<forall>r < k. \<forall>c < width. st ! (c * height + r) = Q r ! c)"
  let ?f = "\<lambda>(row_idx, row_vals) coeffs. rbind (across_cosets (fe_embed X) basis width row_vals) (\<lambda>poly_coeffs.
          scatter_row height row_idx poly_coeffs coeffs) :: (_, 'e) res"
  have "\<exists>s'. ?f (r, rows ! r) s = Ok s' \<and> ?J (Suc r) s'" if r': "r < length rows" and J: "?J r s" for r s
  proof -
    have r: "r < height" "0 < height" using r' rows by auto
    have at: "c * height + r' < height * width" if "c < width" "r' < height" for c r'
    proof -
      have "c * height + r' < Suc c * height" using that(2) by simp
      also have "\<dots> \<le> width * height" using that(1) by (intro mult_le_mono1) simp
      finally show ?thesis by (simp only: mult.commute)
    qed
    have "\<And>c. c < length (Q r) \<Longrightarrow> c * height + r < length s" using J Q(2) [OF r(1)] at r(1) by simp
    from scatter_row_Ok [OF this r(2), where 'e = 'e] obtain out where
      out: "scatter_row height r (Q r) s = (Ok out :: (_, 'e) res)" "length out = length s"
      "\<forall>c < length (Q r). out ! (c * height + r) = Q r ! c" "\<forall>m < length s. (\<forall>c. m \<noteq> c * height + r) \<longrightarrow> out ! m = s ! m"
      by blast
    have "out ! (c * height + r') = Q r' ! c" if r': "r' < r" "c < width" for r' c
    proof -
      have "c * height + r' \<noteq> c' * height + r" for c'
      proof
        assume "c * height + r' = c' * height + r"
        then have "(c * height + r') mod height = (c' * height + r) mod height" by simp
        with r r' show False by simp
      qed
      with out(4) J r' r at [of c r'] show ?thesis by simp
    qed
    with out(1-3) Q(1) [OF r(1)] Q(2) [OF r(1)] J show ?thesis by (auto simp: less_Suc_eq)
  qed
  then have "\<exists>st. rfold ?f (enumerated rows) (replicate (height * width) 0) = Ok st \<and> ?J (length rows) st"
    by (rule rfold_enumerated_inv [where J = ?J]) auto
  then show ?thesis by (simp only: rows)
qed

lemma scatter_rows_Ok:
  assumes rows: "length rows = height" and width: "\<And>r. r < height \<Longrightarrow> length (rows ! r) = width"
    and basis: "length basis = width" "\<And>i. i < width \<Longrightarrow> length (basis ! i) = width"
  shows "\<exists>cs. rfold (\<lambda>(row_idx, row_vals) coeffs.
          rbind (across_cosets (fe_embed X) basis width row_vals) (\<lambda>poly_coeffs.
          scatter_row height row_idx poly_coeffs coeffs)) (enumerated rows) (replicate (height * width) 0) = (Ok cs :: (_, 'e) res) \<and>
    length cs = height * width \<and>
    (\<forall>x. horner_eval cs x = (\<Sum>r < height. x ^ r * (\<Sum>i < width. rows ! r ! i * horner_eval (map (fe_embed X) (basis ! i)) (x ^ height))))"
proof -
  have "\<forall>r. \<exists>q. r < height \<longrightarrow> across_cosets (fe_embed X) basis width (rows ! r) = (Ok q :: (_, 'e) res) \<and> length q = width \<and>
    (\<forall>x. horner_eval q x = (\<Sum>i < width. rows ! r ! i * horner_eval (map (fe_embed X) (basis ! i)) x))"
    using across_cosets_Ok [OF width basis] by blast
  from choice [OF this] obtain Q where
    Q: "\<forall>r. r < height \<longrightarrow> across_cosets (fe_embed X) basis width (rows ! r) = (Ok (Q r) :: (_, 'e) res) \<and> length (Q r) = width \<and>
    (\<forall>x. horner_eval (Q r) x = (\<Sum>i < width. rows ! r ! i * horner_eval (map (fe_embed X) (basis ! i)) x))" ..
  have q: "\<And>r. r < height \<Longrightarrow> across_cosets (fe_embed X) basis width (rows ! r) = (Ok (Q r) :: (_, 'e) res)" "\<And>r. r < height \<Longrightarrow> length (Q r) = width"
    using Q by blast+
  from scatter_rows_fill [OF rows q] obtain cs where
    cs: "rfold (\<lambda>(row_idx, row_vals) coeffs. rbind (across_cosets (fe_embed X) basis width row_vals) (\<lambda>poly_coeffs.
          scatter_row height row_idx poly_coeffs coeffs)) (enumerated rows) (replicate (height * width) 0) = (Ok cs :: (_, 'e) res)"
    "length cs = height * width" "\<forall>r < height. \<forall>c < width. cs ! (c * height + r) = Q r ! c" by blast
  have "horner_eval cs x = (\<Sum>r < height. x ^ r * (\<Sum>i < width. rows ! r ! i * horner_eval (map (fe_embed X) (basis ! i)) (x ^ height)))" for x
  proof -
    have "horner_eval cs x = (\<Sum>r < height. x ^ r * horner_eval (Q r) (x ^ height))"
      using cs(3) q(2) by (intro horner_interleaved [OF cs(2)]) simp_all
    also have "\<dots> = (\<Sum>r < height. x ^ r * (\<Sum>i < width. rows ! r ! i * horner_eval (map (fe_embed X) (basis ! i)) (x ^ height)))"
      using Q by (intro sum.cong) simp_all
    finally show ?thesis .
  qed
  with cs show ?thesis by blast
qed

lemma cosets_interpolated:
  assumes P: "bowers P" and n: "n \<le> fft_adicity P" and w: "0 < w" "w \<le> 2 ^ 32" and len: "length vs = w * 2 ^ n"
    and nz: "shift \<noteq> 0" "init \<noteq> 0" and order: "\<forall>k. 0 < k \<and> k < w \<longrightarrow> (shift ^ 2 ^ n) ^ k \<noteq> 1"
  shows "\<exists>cs. from_geometric_cosets_evals_idft (fe_embed X) P \<lparr>rm_values = vs, rm_width = w\<rparr> shift init = (Ok cs :: (_, 'e) res) \<and>
    length cs = 2 ^ n * w \<and>
    (\<forall>i < w. \<forall>j < 2 ^ n. horner_eval cs (fe_embed X (init * shift ^ i) * fft_gen P n ^ j) = vs ! (j * w + i))"
proof -
  let ?e = "fe_embed X" and ?g = "fft_gen P n" and ?h = "2 ^ n :: nat"
  from bowers.idft_batch_Ok [OF P n w(1) len, where 'e = 'e] obtain cm where
    cm: "idft_batch P \<lparr>rm_values = vs, rm_width = w\<rparr> = (Ok \<lparr>rm_values = cm, rm_width = w\<rparr> :: (_, 'e) res)" "length cm = w * ?h"
    "dft_batch P \<lparr>rm_values = cm, rm_width = w\<rparr> = (Ok \<lparr>rm_values = vs, rm_width = w\<rparr> :: (_, 'e) res)" using len by auto
  from bowers.dft_batch_Ok [OF P n w(1) cm(2), where 'e = 'e] cm(3) have
    dft: "\<And>j t. j < ?h \<Longrightarrow> t < w \<Longrightarrow> vs ! (j * w + t) = (\<Sum>i < ?h. cm ! (i * w + t) * ?g ^ (i * j))" by auto
  let ?s = "\<lambda>i. init * shift ^ i"
  let ?invs = "geometric_seq w (inverse init) (inverse shift)"
  let ?rows = "unshift_rows ?e w ?invs (chunks w cm)"
  have chunks: "chunks w cm = map (\<lambda>i. take w (drop (i * w) cm)) [0..<?h]"
    using w cm(2) by (intro chunks_exact) (simp_all add: mult.commute)
  have row_len: "length (take w (drop (r * w) cm)) = w" if "r < ?h" for r
  proof -
    have "r * w + w \<le> w * ?h" using that mult_le_mono2 [of "Suc r" ?h w] by (simp add: mult.commute)
    then show ?thesis by (simp add: cm(2))
  qed
  have rows: "length ?rows = ?h" "\<And>r. r < ?h \<Longrightarrow> length (?rows ! r) = w"
    "\<And>r i. r < ?h \<Longrightarrow> i < w \<Longrightarrow> ?rows ! r ! i = cm ! (r * w + i) * ?e (inverse (?s i) ^ r)"
    using row_len by (simp_all add: unshift_rows_eq chunks geometric_seq_eq cm(2) power_inverse)
  have "init ^ ?h \<noteq> 0" "shift ^ ?h \<noteq> 0" using nz by simp_all
  from lagrange_basis_Ok [OF w(2) this order, where 'e = 'e] obtain Ls where
    Ls: "lagrange_basis_from_geometric_points (shift ^ ?h) w (init ^ ?h) = (Ok Ls :: (_, 'e) res)" "length Ls = w"
    "\<And>i. i < w \<Longrightarrow> length (Ls ! i) = w" "\<And>i m. i < w \<Longrightarrow> m < w \<Longrightarrow> horner_eval (Ls ! i) (init ^ ?h * (shift ^ ?h) ^ m) = (if m = i then 1 else 0)"
    by blast
  from scatter_rows_Ok [OF rows(1,2) Ls(2,3), where 'e = 'e] obtain cs where
    cs: "rfold (\<lambda>(row_idx, row_vals) coeffs. rbind (across_cosets ?e Ls w row_vals) (\<lambda>poly_coeffs.
          scatter_row ?h row_idx poly_coeffs coeffs)) (enumerated ?rows) (replicate (?h * w) 0) = (Ok cs :: (_, 'e) res)" "length cs = ?h * w"
    "\<And>x. horner_eval cs x = (\<Sum>r < ?h. x ^ r * (\<Sum>i < w. ?rows ! r ! i * horner_eval (map ?e (Ls ! i)) (x ^ ?h)))" by blast
  have run: "from_geometric_cosets_evals_idft ?e P \<lparr>rm_values = vs, rm_width = w\<rparr> shift init = (Ok cs :: (_, 'e) res)"
  proof -
    have "rm_height \<lparr>rm_values = vs, rm_width = w\<rparr> = ?h" using len w by (simp add: rm_height_def)
    moreover have "checked_inverse shift = (Ok (inverse shift) :: (_, 'e) res)" "checked_inverse init = (Ok (inverse init) :: (_, 'e) res)"
      using nz by (simp_all add: checked_inverse_def)
    moreover have "log2_strict ?h = (Ok n :: (_, 'e) res)" by simp
    moreover have "\<not> (?h = 0 \<or> w = 0)" using w by simp
    ultimately show ?thesis
      by (simp only: from_geometric_cosets_evals_idft_def Let_def row_major.simps if_False rbind.simps cm(1) Ls(1) cs(1))
  qed
  have "horner_eval cs (?e (?s i) * ?g ^ j) = vs ! (j * w + i)" if i: "i < w" and j: "j < ?h" for i j
  proof -
    have order_g: "?g ^ ?h = 1" by (rule bowers.axioms(1) [OF P, THEN two_adic.gen_order, OF n])
    have "(?g ^ j) ^ ?h = 1" by (simp add: power_mult [symmetric] mult.commute [of j]) (simp add: power_mult order_g)
    then have x: "(?e (?s i) * ?g ^ j) ^ ?h = ?e (init ^ ?h * (shift ^ ?h) ^ i)"
      by (simp add: power_mult_distrib power_mult [symmetric] mult.commute)
    have "horner_eval (map ?e (Ls ! m)) (?e (init ^ ?h * (shift ^ ?h) ^ i)) = (if m = i then 1 else 0)" if "m < w" for m
      unfolding horner_embed using Ls(4) [OF that i] by simp
    then have "(\<Sum>m < w. ?rows ! r ! m * horner_eval (map ?e (Ls ! m)) ((?e (?s i) * ?g ^ j) ^ ?h)) = ?rows ! r ! i" for r
      unfolding x using i
      by (subst sum.cong [OF refl, of _ _ "\<lambda>m. if m = i then ?rows ! r ! m else 0"]) (simp_all del: embed_mult embed_power)
    then have "horner_eval cs (?e (?s i) * ?g ^ j) = (\<Sum>r < ?h. (?e (?s i) * ?g ^ j) ^ r * ?rows ! r ! i)"
      unfolding cs(3) by simp
    also have "\<dots> = (\<Sum>r < ?h. cm ! (r * w + i) * ?g ^ (r * j))"
    proof (rule sum.cong)
      fix r assume "r \<in> {..<?h}"
      then have "(?e (?s i) * ?g ^ j) ^ r * ?rows ! r ! i = ?e (?s i * inverse (?s i)) ^ r * (cm ! (r * w + i) * (?g ^ j) ^ r)"
        using rows(3) [of r i] i by (simp only: lessThan_iff embed_mult embed_power power_mult_distrib mult_ac)
      also have "?s i * inverse (?s i) = 1" using nz by (intro right_inverse) simp
      finally show "(?e (?s i) * ?g ^ j) ^ r * ?rows ! r ! i = cm ! (r * w + i) * ?g ^ (r * j)"
        by (simp add: power_mult [symmetric] mult.commute [of j])
    qed simp
    also have "\<dots> = vs ! (j * w + i)" by (rule dft [OF j i, symmetric])
    finally show ?thesis .
  qed
  with run cs(2) show ?thesis by blast
qed

end

section \<open>The property\<close>

text \<open>C22. From the values on \<open>width\<close> cosets \<open>init * shift ^ i * D\<close> of the subgroup \<open>D\<close> of order \<open>2 ^ n\<close>, one coset per
  column, \<open>from_geometric_cosets_evals_idft\<close> returns, without a panic, as many coefficients as there are values, and the
  polynomial takes every value at its point, provided the cosets are distinct.
\<close>

theorem cosets_interpolate_exact:
  fixes X :: "('f::field, 'ef::field) field_ext"
  assumes "field_tower X" and "bowers P" and "n \<le> fft_adicity P" and "0 < w" and "w \<le> 2 ^ 32" and "length vs = w * 2 ^ n"
    and "shift \<noteq> 0" and "init \<noteq> 0" and "\<forall>k. 0 < k \<and> k < w \<longrightarrow> (shift ^ 2 ^ n) ^ k \<noteq> 1"
  shows "\<exists>cs. from_geometric_cosets_evals_idft (fe_embed X) P \<lparr>rm_values = vs, rm_width = w\<rparr> shift init = (Ok cs :: ('ef list, 'e) res) \<and>
    length cs = length vs \<and>
    (\<forall>i < w. \<forall>j < 2 ^ n. horner_eval cs (fe_embed X (init * shift ^ i) * fft_gen P n ^ j) = vs ! (j * w + i))"
  using field_tower.cosets_interpolated [OF assms(1-9), where 'e = 'e] assms(6) by (simp add: mult.commute)

theorem cosets_interpolate_exact_witness:
  "\<exists>cs. from_geometric_cosets_evals_idft (fe_embed f17_tower) (plain_fft f17_gen 4) \<lparr>rm_values = [5, 1, 0, 7], rm_width = 2\<rparr> 3 3
       = (Ok cs :: (f17 list, unit) res) \<and> length cs = 4 \<and>
    horner_eval cs (fe_embed f17_tower (3 * 3 ^ 1) * f17_gen 1 ^ 1) = 7"
proof -
  have order: "\<forall>k. 0 < k \<and> k < (2 :: nat) \<longrightarrow> ((3 :: f17) ^ 2 ^ 1) ^ k \<noteq> 1"
  proof (intro allI impI)
    fix k :: nat
    assume "0 < k \<and> k < 2"
    then have "k = 1" by simp
    moreover have "(3 :: f17) ^ 2 ^ 1 \<noteq> 1" by code_simp
    ultimately show "((3 :: f17) ^ 2 ^ 1) ^ k \<noteq> 1" by simp
  qed
  have "(3 :: f17) \<noteq> 0" by code_simp
  with cosets_interpolate_exact [OF f17_tower.field_tower_axioms f17_bowers.bowers_axioms, of 1 2 "[5, 1, 0, 7]" 3 3, where 'e = unit] order
  obtain cs where "from_geometric_cosets_evals_idft (fe_embed f17_tower) (plain_fft f17_gen 4) \<lparr>rm_values = [5, 1, 0, 7], rm_width = 2\<rparr> 3 3
       = (Ok cs :: (f17 list, unit) res)" "length cs = 4"
    "\<forall>i < 2. \<forall>j < 2 ^ 1. horner_eval cs (fe_embed f17_tower (3 * 3 ^ i) * f17_gen 1 ^ j) = [5, 1, 0, 7] ! (j * 2 + i)" by auto
  moreover from this(3) [rule_format, of 1 1] have "horner_eval cs (fe_embed f17_tower (3 * 3 ^ 1) * f17_gen 1 ^ 1) = 7" by simp
  ultimately show ?thesis by blast
qed

end
