(* ===== verification/ChirpInterpolation.thy ===== *)
theory ChirpInterpolation
  imports CosetInterpolation Config
begin

text \<open>
  Evaluation at, and interpolation from, the first \<open>n\<close> powers of a root of unity for any \<open>n\<close>
  (\<open>chirp_z\<close> and \<open>from_evals\<close> of \<open>prover/poly.rs\<close>): convolutions by the serial transform.
\<close>

section \<open>The code\<close>

definition chirp_z :: "('f::field, 'a) field_array \<Rightarrow> 'f fft_ops \<Rightarrow> 'f list \<Rightarrow> 'f \<Rightarrow> nat \<Rightarrow> ('f list, 'e) res" where
  "chirp_z A P poly omega n =
     (if n = 0 then Ok []
      else if poly = [] then Ok (replicate n 0)
      else
        let s = length poly + n in
        rbind (rmap (\<lambda>i. rbind (mul64 i (i - 1)) (\<lambda>twice. Ok (omega ^ (twice div 2)))) [0..<s]) (\<lambda>omega_powers.
        rbind (batch_multiplicative_inverse_serial A omega_powers) (\<lambda>omega_powers_inv.
        let p = map2 (*) poly omega_powers_inv; q = rev omega_powers;
            dft_deg = next_pow2 (length p + length q - 1) in
        rbind (dft P (resize dft_deg 0 p)) (\<lambda>p.
        rbind (dft P (resize dft_deg 0 q)) (\<lambda>q.
        rbind (idft P (map2 (*) p q)) (\<lambda>p.
        Ok (map2 (*) (rev (take n (drop n p))) omega_powers_inv)))))))"

text \<open>The quotients of \<open>from_evals\<close>; a division panics when the divisor is zero.\<close>

definition inverse_denominators :: "nat \<Rightarrow> nat \<Rightarrow> 'f::field list \<Rightarrow> ('f list \<times> 'f list, 'e) res" where
  "inverse_denominators n log_n omega_pows =
     rfold (\<lambda>i (positive_denoms, negative_denoms).
       rbind (index positive_denoms i) (\<lambda>pd.
       rbind (index omega_pows (i + 1)) (\<lambda>w_pos.
       rbind (checked_inverse (1 - w_pos)) (\<lambda>inv_pos.
       rbind (index positive_denoms (i + 1)) (\<lambda>_.
       rbind (index negative_denoms i) (\<lambda>nd.
       rbind (index omega_pows (2 ^ log_n - 1 - i)) (\<lambda>w_neg.
       rbind (checked_inverse (1 - w_neg)) (\<lambda>inv_neg.
       rbind (index negative_denoms (i + 1)) (\<lambda>_.
       Ok (positive_denoms[i + 1 := pd * inv_pos], negative_denoms[i + 1 := nd * inv_neg]))))))))))
       [0..<n - 1] (replicate n 1, replicate n 1)"

definition weighted_evals :: "'f::field list \<Rightarrow> 'f \<Rightarrow> 'f list \<Rightarrow> 'f list \<Rightarrow> ('f list, 'e) res" where
  "weighted_evals evals omega_inv positive_denoms negative_denoms =
     (let n = length evals in
      rmap (\<lambda>i.
        rbind (index evals i) (\<lambda>e.
        rbind (mul64 (n - 1) i) (\<lambda>exp.
        rbind (index negative_denoms i) (\<lambda>nd.
        rbind (index positive_denoms (n - 1 - i)) (\<lambda>pd.
        Ok (e * omega_inv ^ exp * nd * pd)))))) [0..<n])"

definition evals_rhs :: "('f::field, 'a) field_array \<Rightarrow> 'f fft_ops \<Rightarrow> 'f list \<Rightarrow> 'f \<Rightarrow> nat \<Rightarrow> ('f list, 'e) res" where
  "evals_rhs A P evals omega log_n =
     (let n = length evals; omega_pows = powers (2 ^ log_n + 1) omega in
      rbind (inverse_denominators n log_n omega_pows) (\<lambda>(positive_denoms, negative_denoms).
      rbind (index omega_pows (2 ^ log_n - 1)) (\<lambda>omega_inv.
      rbind (weighted_evals evals omega_inv positive_denoms negative_denoms) (\<lambda>y.
      chirp_z A P y omega n))))"

definition evals_product :: "'f::field fft_ops \<Rightarrow> nat \<Rightarrow> 'f list \<Rightarrow> 'f list \<Rightarrow> ('f list, 'e) res" where
  "evals_product P n denom rhs =
     (let len = next_pow2 (length denom + length rhs - 1) in
      rbind (dft P (resize len 0 denom)) (\<lambda>denom.
      rbind (dft P (resize len 0 rhs)) (\<lambda>rhs.
      rbind (idft P (map2 (*) denom rhs)) (\<lambda>res.
      Ok (rev (take n res))))))"

definition from_evals :: "('f::field, 'a) field_array \<Rightarrow> 'f fft_ops \<Rightarrow> 'f list \<Rightarrow> ('f list, 'e) res option" where
  "from_evals A P evals =
     (let n = length evals; log_n = log2_ceil n in
      case fft_generator P log_n of
        Err e \<Rightarrow> Some (Err e)
      | Panic \<Rightarrow> Some Panic
      | Ok omega \<Rightarrow>
          if n = 0 then Some (Ok [])
          else if n = 1 then Some (rbind (index evals 0) (\<lambda>e. Ok [e]))
          else (case evals_rhs A P evals omega log_n of
              Err e \<Rightarrow> Some (Err e)
            | Panic \<Rightarrow> Some Panic
            | Ok rhs \<Rightarrow> Option.bind (geometric_product P omega n) (\<lambda>denom.
                Some (rbind denom (\<lambda>denom. evals_product P n denom rhs)))))"

section \<open>The chirp transform\<close>

lemma length_poly_add_zero: "a \<noteq> [] \<Longrightarrow> b \<noteq> [] \<Longrightarrow> length (0 # poly_mul a b) = length a + length b"
  by (simp add: length_poly_mul)

lemma poly_add_nth: "t < length a \<Longrightarrow> t < length b \<Longrightarrow> poly_add a b ! t = a ! t + b ! t"
proof (induction a b arbitrary: t rule: poly_add.induct)
  case (1 a as b bs)
  then show ?case by (cases t) simp_all
qed simp_all

text \<open>A coefficient of a product at which the shorter factor is used up.\<close>

lemma poly_mul_nth:
  "a \<noteq> [] \<Longrightarrow> length a \<le> Suc t \<Longrightarrow> t < length b \<Longrightarrow> poly_mul a b ! t = (\<Sum>j < length a. a ! j * b ! (t - j))"
proof (induction a b arbitrary: t rule: poly_mul.induct)
  case (3 a a' as b)
  from 3(3,4) obtain u where u: "t = Suc u" by (cases t) auto
  have "b \<noteq> []" using 3(4) by auto
  then have b: "b \<noteq> []" "length (poly_mul (a' # as) b) = Suc (length as) + length b - 1"
    using length_poly_mul [of "a' # as" b] by auto
  have "poly_mul (a # a' # as) b ! t = a * b ! t + poly_mul (a' # as) b ! u"
    using 3(4) b u by (simp add: poly_add_nth)
  also have "poly_mul (a' # as) b ! u = (\<Sum>j < length (a' # as). (a' # as) ! j * b ! (u - j))"
    using "3.IH" [of u] 3(3,4) u by simp
  finally show ?case using u by (simp add: sum.lessThan_Suc_shift del: sum.lessThan_Suc)
qed simp_all

lemma triangle_add: "(k + j) * (k + j - 1) div 2 = k * (k - 1) div 2 + j * (j - 1) div 2 + j * (k :: nat)"
proof -
  have half: "2 * (m * (m - 1) div 2) = m * (m - 1)" for m :: nat by (cases m) simp_all
  have "(k + j) * (k + j - 1) = k * (k - 1) + j * (j - 1) + 2 * (j * k)"
    by (cases k; cases j) (simp_all add: algebra_simps)
  with half [of "k + j"] half [of k] half [of j] show ?thesis by linarith
qed

lemma triangle_fits:
  assumes "i < (2 :: nat) ^ 32"
  shows "mul64 i (i - 1) = (Ok (i * (i - 1)) :: (_, 'e) res)"
proof -
  have "i * (i - 1) \<le> i * 2 ^ 32" using assms by (intro mult_le_mono2) simp
  also have "\<dots> < 2 ^ 32 * 2 ^ 32" using assms by (simp only: mult_less_cancel2) simp
  also have "(2 :: nat) ^ 32 * 2 ^ 32 = 2 ^ 64" by simp
  finally show ?thesis by (simp only: mul64_def if_True)
qed

lemma resize_nth: "i < length xs \<Longrightarrow> length xs \<le> N \<Longrightarrow> resize N x xs ! i = xs ! i"
  by (simp add: resize_def nth_append)

lemma rev_window: "n + n \<le> length z \<Longrightarrow> k < n \<Longrightarrow> rev (take n (drop n z)) ! k = z ! (2 * n - 1 - k)"
proof -
  assume z: "n + n \<le> length z" and k: "k < n"
  then have "rev (take n (drop n z)) ! k = z ! (n + (n - Suc k))" by (simp add: rev_nth)
  also have "n + (n - Suc k) = 2 * n - 1 - k" using k by simp
  finally show ?thesis .
qed

context bowers
begin

lemma chirp_convolution:
  assumes A: "array_laws A" and nz: "omega \<noteq> 0" and n: "0 < n" "0 < m" "m + n \<le> 2 ^ 32" and len: "length poly = m"
    and fits: "m + (m + n) - 1 \<le> 2 ^ fft_adicity P"
  defines "w \<equiv> \<lambda>i. omega ^ (i * (i - 1) div 2)"
  shows "\<exists>N. m + (m + n) - 1 \<le> 2 ^ N \<and> chirp_z A P poly omega n = (Ok (map2 (*) (rev (take n (drop n
     (resize (2 ^ N) 0 (poly_mul (map2 (\<lambda>c i. c * inverse (w i)) poly [0..<m]) (map w (rev [0..<m + n]))))))) (map (inverse \<circ> w) [0..<m + n])) :: (_, 'e) res)"
proof -
  let ?s = "m + n"
  let ?p = "map2 (\<lambda>c i. c * inverse (w i)) poly [0..<m]" and ?q = "map w (rev [0..<?s])"
  have ws: "rmap (\<lambda>i. rbind (mul64 i (i - 1)) (\<lambda>twice. Ok (omega ^ (twice div 2)))) is = (Ok (map w is) :: (_, 'e) res)"
    if "\<forall>i \<in> set is. i < ?s" for "is"
    using that
  proof (induction "is")
    case (Cons i js)
    then have "i < ?s" by simp
    then have "i < 2 ^ 32" using n(3) by (rule less_le_trans)
    from triangle_fits [OF this, where 'e = 'e] have "rbind (mul64 i (i - 1)) (\<lambda>twice. Ok (omega ^ (twice div 2))) = (Ok (w i) :: (_, 'e) res)"
      by (simp only: rbind.simps w_def)
    moreover have "rmap (\<lambda>i. rbind (mul64 i (i - 1)) (\<lambda>twice. Ok (omega ^ (twice div 2)))) js = (Ok (map w js) :: (_, 'e) res)"
      using Cons by simp
    ultimately show ?case by (simp only: rmap.simps rbind.simps list.map)
  qed simp
  have "\<forall>i \<in> set [0..<?s]. i < ?s" by simp
  note ws = ws [OF this]
  have "0 \<notin> set (map w [0..<?s])" using nz by (auto simp: w_def)
  then have inv: "batch_multiplicative_inverse_serial A (map w [0..<?s]) = (Ok (map (inverse \<circ> w) [0..<?s]) :: (_, 'e) res)"
    using array_laws.serial_inverts [OF A, of "map w [0..<?s]"] by simp
  have p: "map2 (*) poly (map (inverse \<circ> w) [0..<?s]) = ?p"
    using len by (intro nth_equalityI) simp_all
  have lens: "length ?p = m" "length ?q = ?s" "?p \<noteq> []" "?q \<noteq> []" using len n by auto
  then have prod_len: "length (poly_mul ?p ?q) = m + ?s - 1" by (simp add: length_poly_mul)
  obtain N where N: "N \<le> fft_adicity P" "next_pow2 (m + ?s - 1) = 2 ^ N" "m + ?s - 1 \<le> 2 ^ N"
    using next_pow2_bounds [OF fits] n by auto
  have "length ?p \<le> 2 ^ N" "length ?q \<le> 2 ^ N" "length (poly_mul ?p ?q) \<le> 2 ^ N" using N(3) n prod_len unfolding lens(1,2) by linarith+
  with dft_product [OF N(1), of "resize (2 ^ N) 0 ?p" "resize (2 ^ N) 0 ?q" "poly_mul ?p ?q", where 'e = 'e] obtain va vb where
    v: "dft P (resize (2 ^ N) 0 ?p) = (Ok va :: (_, 'e) res)" "dft P (resize (2 ^ N) 0 ?q) = (Ok vb :: (_, 'e) res)"
    "idft P (map2 (*) va vb) = (Ok (resize (2 ^ N) 0 (poly_mul ?p ?q)) :: (_, 'e) res)"
    by (auto simp: horner_resize)
  have "chirp_z A P poly omega n = (Ok (map2 (*) (rev (take n (drop n (resize (2 ^ N) 0 (poly_mul ?p ?q))))) (map (inverse \<circ> w) [0..<?s])) :: (_, 'e) res)"
  proof -
    have ne: "n \<noteq> 0" "poly \<noteq> []" using n len by auto
    have reversed: "rev (map w [0..<?s]) = ?q" by (rule rev_map)
    show ?thesis
      unfolding chirp_z_def Let_def len ws
      by (simp only: reversed ne if_False inv rbind.simps p lens(1,2) N(2) v)
  qed
  with N(3) show ?thesis by blast
qed

lemma chirp_z_Ok:
  assumes A: "array_laws A" and nz: "omega \<noteq> 0" and n: "0 < n" "n \<le> 2 ^ 31" and len: "length poly = n"
    and fits: "3 * n - 1 \<le> 2 ^ fft_adicity P"
  shows "chirp_z A P poly omega n = (Ok (map (\<lambda>k. horner_eval poly (omega ^ k)) [0..<n]) :: (_, 'e) res)"
proof -
  define w where "w = (\<lambda>i. omega ^ (i * (i - 1) div 2))"
  have w: "w i \<noteq> 0" "w (k + j) = w k * w j * omega ^ (j * k)" for i j k
    using nz by (simp add: w_def) (simp only: w_def triangle_add power_add)
  let ?p = "map2 (\<lambda>c i. c * inverse (w i)) poly [0..<n]" and ?q = "map w (rev [0..<n + n])"
  have "n + n \<le> 2 ^ 32" "n + (n + n) - 1 \<le> 2 ^ fft_adicity P" using n(2) fits by auto
  from chirp_convolution [OF A nz n(1) n(1) this(1) len this(2), where 'e = 'e] obtain N where
    N: "n + (n + n) - 1 \<le> 2 ^ N" "chirp_z A P poly omega n = (Ok (map2 (*) (rev (take n (drop n
     (resize (2 ^ N) 0 (poly_mul ?p ?q))))) (map (inverse \<circ> w) [0..<n + n])) :: (_, 'e) res)"
    unfolding w_def by blast
  have lens: "length ?p = n" "length ?q = n + n" "?p \<noteq> []" "?q \<noteq> []" using len n by auto
  then have prod_len: "length (poly_mul ?p ?q) = n + (n + n) - 1" by (simp add: length_poly_mul)
  have "map2 (*) (rev (take n (drop n (resize (2 ^ N) 0 (poly_mul ?p ?q))))) (map (inverse \<circ> w) [0..<n + n])
      = map (\<lambda>k. horner_eval poly (omega ^ k)) [0..<n]" (is "?lhs = ?rhs")
  proof (rule nth_equalityI)
    have "n + n \<le> 2 ^ N" using N(1) n(1) by linarith
    then show "length ?lhs = length ?rhs" by (simp add: length_resize)
    then have "length ?lhs = n" by simp
    moreover fix k assume "k < length ?lhs"
    ultimately have k: "k < n" by simp
    let ?t = "2 * n - 1 - k"
    have t: "n \<le> ?t" "?t < n + n" "?t < length (poly_mul ?p ?q)" "?t < 2 ^ N" "?t < n + (n + n) - 1" using k n N(1) prod_len by auto
    have coefficient: "poly_mul ?p ?q ! ?t = (\<Sum>j < n. poly ! j * inverse (w j) * w (k + j))"
    proof -
      have "poly_mul ?p ?q ! ?t = (\<Sum>j < length ?p. ?p ! j * ?q ! (?t - j))"
        using t lens by (intro poly_mul_nth) simp_all
      also have "\<dots> = (\<Sum>j < n. poly ! j * inverse (w j) * w (k + j))"
        unfolding lens(1)
      proof (rule sum.cong [OF refl])
        fix j assume "j \<in> {..<n}"
        then have j: "j < n" by simp
        then have "?q ! (?t - j) = w (n + n - Suc (?t - j))" using k t by (simp add: rev_nth del: upt_Suc)
        also have "n + n - Suc (?t - j) = k + j" using k j by auto
        finally show "?p ! j * ?q ! (?t - j) = poly ! j * inverse (w j) * w (k + j)" using j len by simp
      qed
      finally show ?thesis .
    qed
    have "rev (take n (drop n (resize (2 ^ N) 0 (poly_mul ?p ?q)))) ! k = poly_mul ?p ?q ! ?t"
      using rev_window [of n "resize (2 ^ N) 0 (poly_mul ?p ?q)" k] k t(3) N(1) n(1) prod_len by (simp only: length_resize resize_nth)
    moreover have "length (rev (take n (drop n (resize (2 ^ N) 0 (poly_mul ?p ?q))))) = n"
      using N(1) n(1) by (simp add: length_resize)
    ultimately have "?lhs ! k = poly_mul ?p ?q ! ?t * inverse (w k)" using k by simp
    also have "\<dots> = (\<Sum>j < n. poly ! j * omega ^ (j * k))"
      unfolding coefficient sum_distrib_right using w(1) by (intro sum.cong) (simp_all add: w(2) field_simps)
    also have "\<dots> = ?rhs ! k" using k by (simp add: horner_eval_sum len power_mult [symmetric] mult.commute)
    finally show "?lhs ! k = ?rhs ! k" .
  qed
  with N(2) show ?thesis by simp
qed

text \<open>For another number of values than coefficients the window of the convolution is misplaced.\<close>

lemma chirp_z_misplaced:
  assumes A: "array_laws A" and nz: "omega \<noteq> 0" and fits: "2 \<le> fft_adicity P"
  shows "chirp_z A P [c] omega 2 = (Ok [0, c] :: (_, 'e) res)"
proof -
  have "(2 :: nat) ^ 2 \<le> 2 ^ fft_adicity P" using fits by (intro power_increasing) simp_all
  then have "1 + (1 + 2) - 1 \<le> (2 :: nat) ^ fft_adicity P" by simp
  note run = chirp_convolution [OF A nz _ _ _ _ this, of "[c]", where 'e = 'e]
  have lists: "map2 (\<lambda>c i. c * inverse (omega ^ (i * (i - 1) div 2))) [c] [0..<1] = [c]"
    "map (\<lambda>i. omega ^ (i * (i - 1) div 2)) (rev [0..<1 + 2]) = [omega, 1, 1]"
    "map (inverse \<circ> (\<lambda>i. omega ^ (i * (i - 1) div 2))) [0..<1 + 2] = [1, 1, inverse omega]"
    by (simp_all add: upt_rec)
  have mul: "poly_mul [c] [omega, 1, 1] = [c * omega, c, c]" by simp
  have "\<exists>N. 1 + (1 + 2) - 1 \<le> (2 :: nat) ^ N \<and> chirp_z A P [c] omega 2 = (Ok (map2 (*) (rev (take 2 (drop 2 (resize (2 ^ N) 0
      [c * omega, c, c])))) [1, 1, inverse omega]) :: (_, 'e) res)"
    using run unfolding lists mul by simp
  then obtain N where
    N: "1 + (1 + 2) - 1 \<le> (2 :: nat) ^ N" "chirp_z A P [c] omega 2 = (Ok (map2 (*) (rev (take 2 (drop 2 (resize (2 ^ N) 0
      [c * omega, c, c])))) [1, 1, inverse omega]) :: (_, 'e) res)" by blast
  have "(2 :: nat) ^ N \<noteq> 3"
  proof
    assume "(2 :: nat) ^ N = 3"
    then have "odd ((2 :: nat) ^ N)" by simp
    then have "N = 0" by (cases N) simp_all
    with N(1) show False by simp
  qed
  with N(1) have "4 \<le> (2 :: nat) ^ N" by linarith
  then obtain j where "(2 :: nat) ^ N = 4 + j" using le_Suc_ex by blast
  then have k: "2 ^ N = Suc (Suc (Suc (Suc j)))" by simp
  have "take 2 (drop 2 (resize (2 ^ N) 0 [c * omega, c, c])) = [c, 0]" unfolding k by (simp add: resize_def numeral_2_eq_2)
  with N(2) show ?thesis by simp
qed

end

section \<open>The denominators of \<open>from_evals\<close>\<close>

definition ratio_prod :: "'f::field \<Rightarrow> nat \<Rightarrow> 'f" where
  "ratio_prod z k = (\<Prod>t < k. inverse (1 - z ^ Suc t))"

context two_adic
begin

lemma gen_inverse: "l \<le> adicity \<Longrightarrow> t \<le> 2 ^ l \<Longrightarrow> gen l ^ (2 ^ l - t) = inverse (gen l) ^ t"
proof -
  assume l: "l \<le> adicity" "t \<le> 2 ^ l"
  then have "gen l ^ (2 ^ l - t) * gen l ^ t = 1" by (simp add: power_add [symmetric] gen_order)
  then show ?thesis by (metis inverse_unique mult.commute power_inverse)
qed

lemma gen_not_one: "l \<le> adicity \<Longrightarrow> 0 < t \<Longrightarrow> t < 2 ^ l \<Longrightarrow> gen l ^ t \<noteq> 1"
  using gen_inject [of l t 0] by auto

lemma inverse_denominators_Ok:
  assumes l: "l \<le> adicity" and n: "0 < n" "n \<le> 2 ^ l"
  shows "inverse_denominators n l (powers (2 ^ l + 1) (gen l))
     = (Ok (map (ratio_prod (gen l)) [0..<n], map (ratio_prod (inverse (gen l))) [0..<n]) :: (_, 'e) res)"
proof -
  let ?pows = "powers (2 ^ l + 1) (gen l)"
  let ?J = "\<lambda>k (st :: 'a list \<times> 'a list). length (fst st) = n \<and> length (snd st) = n \<and>
     (\<forall>i \<le> k. fst st ! i = ratio_prod (gen l) i \<and> snd st ! i = ratio_prod (inverse (gen l)) i)"
  let ?f = "\<lambda>i (positive_denoms, negative_denoms).
       rbind (index positive_denoms i) (\<lambda>pd.
       rbind (index ?pows (i + 1)) (\<lambda>w_pos.
       rbind (checked_inverse (1 - w_pos)) (\<lambda>inv_pos.
       rbind (index positive_denoms (i + 1)) (\<lambda>_.
       rbind (index negative_denoms i) (\<lambda>nd.
       rbind (index ?pows (2 ^ l - 1 - i)) (\<lambda>w_neg.
       rbind (checked_inverse (1 - w_neg)) (\<lambda>inv_neg.
       rbind (index negative_denoms (i + 1)) (\<lambda>_.
       Ok (positive_denoms[i + 1 := pd * inv_pos], negative_denoms[i + 1 := nd * inv_neg]))))))))) :: (_, 'e) res"
  have "\<exists>st'. ?f i st = Ok st' \<and> ?J (Suc i) st'" if i: "i < n - 1" and J: "?J i st" for i st
  proof -
    obtain ps ns where st: "st = (ps, ns)" by (cases st)
    have r: "Suc i < n" "Suc i < 2 ^ l" "2 ^ l - 1 - i = 2 ^ l - Suc i" "2 ^ l - Suc i < 2 ^ l" "0 < 2 ^ l - Suc i" using i n by auto
    have pow: "index ?pows (i + 1) = (Ok (gen l ^ Suc i) :: (_, 'e) res)" "index ?pows (2 ^ l - 1 - i) = (Ok (inverse (gen l) ^ Suc i) :: (_, 'e) res)"
      using r gen_inverse [OF l, of "Suc i"] by (simp_all add: powers_def del: upt_Suc power_Suc)
    have nz: "gen l ^ Suc i \<noteq> 1" "inverse (gen l) ^ Suc i \<noteq> 1"
      using gen_not_one [OF l, of "Suc i"] r(2) by (simp_all add: power_inverse del: power_Suc)
    have inv: "checked_inverse (1 - gen l ^ Suc i) = (Ok (inverse (1 - gen l ^ Suc i)) :: (_, 'e) res)"
      "checked_inverse (1 - inverse (gen l) ^ Suc i) = (Ok (inverse (1 - inverse (gen l) ^ Suc i)) :: (_, 'e) res)"
      using nz unfolding checked_inverse_def by (metis eq_iff_diff_eq_0)+
    have at: "index ps i = (Ok (ratio_prod (gen l) i) :: (_, 'e) res)" "index ns i = (Ok (ratio_prod (inverse (gen l)) i) :: (_, 'e) res)"
      "index ps (i + 1) = (Ok (ps ! Suc i) :: (_, 'e) res)" "index ns (i + 1) = (Ok (ns ! Suc i) :: (_, 'e) res)"
      using J r by (simp_all add: st)
    let ?ps = "ps[i + 1 := ratio_prod (gen l) i * inverse (1 - gen l ^ Suc i)]"
      and ?ns = "ns[i + 1 := ratio_prod (inverse (gen l)) i * inverse (1 - inverse (gen l) ^ Suc i)]"
    have "?f i st = Ok (?ps, ?ns)" unfolding st prod.case by (simp only: at pow inv rbind.simps)
    moreover have "?J (Suc i) (?ps, ?ns)"
      using J r by (auto simp: st nth_list_update ratio_prod_def le_Suc_eq simp del: power_Suc)
    ultimately show ?thesis by blast
  qed
  moreover have "?J 0 (replicate n 1, replicate n 1)" using n by (simp add: ratio_prod_def)
  ultimately obtain st where st: "rfold ?f [0..<n - 1] (replicate n 1, replicate n 1) = Ok st" "?J (n - 1) st"
    using rfold_up_inv [of "n - 1" ?J ?f "(replicate n 1, replicate n 1)"] by blast
  have "st = (map (ratio_prod (gen l)) [0..<n], map (ratio_prod (inverse (gen l))) [0..<n])"
    using st(2) n by (cases st) (auto intro!: nth_equalityI)
  with st(1) show ?thesis by (simp only: inverse_denominators_def)
qed

lemma weighted_evals_Ok:
  assumes n: "length evals = n" "n \<le> 2 ^ 32"
  shows "weighted_evals evals u (map (ratio_prod z) [0..<n]) (map (ratio_prod z') [0..<n])
     = (Ok (map (\<lambda>i. evals ! i * u ^ ((n - 1) * i) * ratio_prod z' i * ratio_prod z (n - 1 - i)) [0..<n]) :: (_, 'e) res)"
proof -
  have fits: "mul64 (n - 1) i = (Ok ((n - 1) * i) :: (_, 'e) res)" if "i < n" for i
    using exponent_fits(1) [OF that n(2), where 'e = 'e] by (simp only: mul64_def mult.commute)
  have "rmap (\<lambda>i. rbind (index evals i) (\<lambda>e. rbind (mul64 (n - 1) i) (\<lambda>exp. rbind (index (map (ratio_prod z') [0..<n]) i) (\<lambda>nd.
        rbind (index (map (ratio_prod z) [0..<n]) (n - 1 - i)) (\<lambda>pd. Ok (e * u ^ exp * nd * pd)))))) is
     = (Ok (map (\<lambda>i. evals ! i * u ^ ((n - 1) * i) * ratio_prod z' i * ratio_prod z (n - 1 - i)) is) :: (_, 'e) res)"
    if "\<forall>i \<in> set is. i < n" for "is"
    using that
  proof (induction "is")
    case (Cons i js)
    then have i: "i < n" by simp
    have at: "index evals i = (Ok (evals ! i) :: (_, 'e) res)" "index (map (ratio_prod z') [0..<n]) i = (Ok (ratio_prod z' i) :: (_, 'e) res)"
      "index (map (ratio_prod z) [0..<n]) (n - 1 - i) = (Ok (ratio_prod z (n - 1 - i)) :: (_, 'e) res)" using i n by simp_all
    from Cons have "rmap (\<lambda>i. rbind (index evals i) (\<lambda>e. rbind (mul64 (n - 1) i) (\<lambda>exp. rbind (index (map (ratio_prod z') [0..<n]) i) (\<lambda>nd.
        rbind (index (map (ratio_prod z) [0..<n]) (n - 1 - i)) (\<lambda>pd. Ok (e * u ^ exp * nd * pd)))))) js
     = (Ok (map (\<lambda>i. evals ! i * u ^ ((n - 1) * i) * ratio_prod z' i * ratio_prod z (n - 1 - i)) js) :: (_, 'e) res)" by simp
    then show ?case by (simp only: rmap.simps at rbind.simps fits [OF i] list.map)
  qed simp
  then show ?thesis unfolding weighted_evals_def Let_def n(1) by simp
qed

end

section \<open>The reversed interpolation\<close>

text \<open>The product of the factors \<open>1 - z x\<close> over a list.\<close>

definition one_minus :: "'f::field \<Rightarrow> 'f list \<Rightarrow> 'f list" where
  "one_minus c p = map2 (\<lambda>old lower. old - lower * c) (p @ [0]) (0 # p)"

lemma horner_one_minus: "horner_eval (one_minus c p) x = (1 - c * x) * horner_eval p x"
  by (simp add: one_minus_def horner_minus_shift)

lemma fold_one_minus:
  "length (fold one_minus zs p) = length p + length zs" "horner_eval (fold one_minus zs p) x = (\<Prod>z \<leftarrow> zs. 1 - z * x) * horner_eval p x"
  by (induction zs arbitrary: p) (simp_all add: one_minus_def [of _ _] horner_minus_shift)

lemma horner_rev: "x \<noteq> 0 \<Longrightarrow> horner_eval (rev cs) x = x ^ (length cs - 1) * horner_eval cs (inverse x)"
proof (induction cs)
  case (Cons c cs)
  have "x * x ^ (length cs - 1) * y = x ^ length cs * y" if "cs \<noteq> [] \<or> y = 0" for y
    using that by (cases cs) simp_all
  from this [of "horner_eval cs (inverse x)"] Cons show ?case
    by (simp add: horner_append horner_Cons distrib_left) (cases cs; simp add: field_simps)
qed simp

text \<open>
  The first \<open>n\<close> coefficients of the product of all factors with the power sums of the \<open>y i\<close>
  are those of the interpolation that leaves out one factor at a time.
\<close>

lemma reversed_product:
  assumes n: "0 < n" and len: "length y = n"
  shows "\<exists>R S. length R = n \<and> length S = n \<and>
    (\<forall>x. horner_eval R x = (\<Sum>i < n. y ! i * (\<Prod>j \<in> {..<n} - {i}. 1 - omega ^ j * x))) \<and>
    (\<forall>x. (\<Prod>j < n. 1 - omega ^ j * x) * horner_eval (map (\<lambda>k. horner_eval y (omega ^ k)) [0..<n]) x
       = horner_eval (R @ map uminus S) x)"
proof -
  let ?others = "\<lambda>i. fold one_minus (map (\<lambda>j. omega ^ j) (filter (\<lambda>j. i \<noteq> j) [0..<n])) [1]"
  let ?skip = "\<lambda>i x. \<Prod>j \<in> {..<n} - {i}. 1 - omega ^ j * x"
  let ?comb = "\<lambda>f. map (\<lambda>k. \<Sum>i < n. f i * ?others i ! k) [0..<n]"
  have others: "length (?others i) = n" "horner_eval (?others i) x = ?skip i x" if "i < n" for i x
  proof -
    show "length (?others i) = n" using that by (simp add: fold_one_minus(1) others_upt)
    have "(\<Prod>j \<leftarrow> filter (\<lambda>j. i \<noteq> j) [0..<n]. 1 - omega ^ j * x) = ?skip i x"
      by (subst prod.distinct_set_conv_list [symmetric]) (auto intro!: prod.cong)
    then show "horner_eval (?others i) x = ?skip i x" by (simp add: fold_one_minus(2) horner_Cons comp_def)
  qed
  have comb: "horner_eval (?comb f) x = (\<Sum>i < n. f i * ?skip i x)" for f x
  proof -
    have "horner_eval (?comb f) x = (\<Sum>k < n. \<Sum>i < n. f i * (?others i ! k * x ^ k))"
      by (simp add: horner_map_upt sum_distrib_right mult.assoc)
    also have "\<dots> = (\<Sum>i < n. \<Sum>k < n. f i * (?others i ! k * x ^ k))" by (rule sum.swap)
    also have "\<dots> = (\<Sum>i < n. f i * ?skip i x)"
      using others by (intro sum.cong) (simp_all add: sum_distrib_left [symmetric] horner_eval_sum [symmetric, where cs = "?others _", unfolded others(1)] horner_eval_sum)
    finally show ?thesis .
  qed
  let ?R = "?comb (\<lambda>i. y ! i)" and ?S = "?comb (\<lambda>i. y ! i * omega ^ (i * n))"
  have "(\<Prod>j < n. 1 - omega ^ j * x) * horner_eval (map (\<lambda>k. horner_eval y (omega ^ k)) [0..<n]) x = horner_eval (?R @ map uminus ?S) x" for x
  proof -
    have "horner_eval (map (\<lambda>k. horner_eval y (omega ^ k)) [0..<n]) x = (\<Sum>k < n. \<Sum>i < n. y ! i * (omega ^ i * x) ^ k)"
      unfolding horner_map_upt unfolding horner_eval_sum len sum_distrib_right
      by (intro sum.cong refl) (simp add: power_mult_distrib power_mult [symmetric] mult_ac)
    also have "\<dots> = (\<Sum>i < n. y ! i * (\<Sum>k < n. (omega ^ i * x) ^ k))"
      by (subst sum.swap) (simp add: sum_distrib_left)
    finally have sums: "horner_eval (map (\<lambda>k. horner_eval y (omega ^ k)) [0..<n]) x = (\<Sum>i < n. y ! i * (\<Sum>k < n. (omega ^ i * x) ^ k))" .
    have each: "(\<Prod>j < n. 1 - omega ^ j * x) * (y ! i * (\<Sum>k < n. (omega ^ i * x) ^ k))
        = y ! i * ?skip i x - x ^ n * (y ! i * omega ^ (i * n) * ?skip i x)" if "i < n" for i
    proof -
      have "(\<Prod>j < n. 1 - omega ^ j * x) = (1 - omega ^ i * x) * ?skip i x" using that by (subst prod.remove [of _ i]) simp_all
      then have "(\<Prod>j < n. 1 - omega ^ j * x) * (y ! i * (\<Sum>k < n. (omega ^ i * x) ^ k))
          = y ! i * ?skip i x * ((1 - omega ^ i * x) * (\<Sum>k < n. (omega ^ i * x) ^ k))" by (simp only: mult_ac)
      also have "(1 - omega ^ i * x) * (\<Sum>k < n. (omega ^ i * x) ^ k) = 1 - omega ^ (i * n) * x ^ n"
        using one_diff_power_eq [of "omega ^ i * x" n] by (simp only: power_mult_distrib power_mult)
      finally show ?thesis by (simp add: algebra_simps)
    qed
    have neg: "horner_eval (map uminus S) x = - horner_eval S x" for S :: "'a list" by (simp add: horner_eval_sum sum_negf)
    have "horner_eval (?R @ map uminus ?S) x = (\<Sum>i < n. y ! i * ?skip i x) - x ^ n * (\<Sum>i < n. y ! i * omega ^ (i * n) * ?skip i x)"
      unfolding horner_append neg comb by simp
    also have "\<dots> = (\<Sum>i < n. y ! i * ?skip i x - x ^ n * (y ! i * omega ^ (i * n) * ?skip i x))"
      by (simp add: sum_subtractf sum_distrib_left)
    also have "\<dots> = (\<Sum>i < n. (\<Prod>j < n. 1 - omega ^ j * x) * (y ! i * (\<Sum>k < n. (omega ^ i * x) ^ k)))"
      by (rule sum.cong) (simp_all add: each)
    also have "\<dots> = (\<Prod>j < n. 1 - omega ^ j * x) * horner_eval (map (\<lambda>k. horner_eval y (omega ^ k)) [0..<n]) x"
      unfolding sums sum_distrib_left ..
    finally show ?thesis ..
  qed
  moreover have "length ?R = n" "length ?S = n" by simp_all
  ultimately show ?thesis using comb by blast
qed

section \<open>Interpolation from the first powers\<close>

lemma log2_ceil_bounds: "n \<le> 2 ^ log2_ceil n" "m \<noteq> 0 \<Longrightarrow> m < n \<Longrightarrow> n \<le> 2 ^ k \<Longrightarrow> log2_ceil n \<le> k"
proof -
  show "n \<le> 2 ^ log2_ceil n"
    using bit_length_bounds [of "n - 1"] by (auto simp: log2_ceil_def)
  show "log2_ceil n \<le> k" if "m \<noteq> 0" "m < n" "n \<le> 2 ^ k"
    using that by (auto simp: log2_ceil_def bit_length_le_iff)
qed

context bowers
begin

lemma evals_product_Ok:
  assumes n: "2 \<le> n" and len: "length denom = Suc n" "length rhs = n" "length R = n" "length S = n"
    and product: "\<And>x. horner_eval denom x * horner_eval rhs x = horner_eval (R @ S) x" and fits: "2 * n \<le> 2 ^ fft_adicity P"
  shows "evals_product P n denom rhs = (Ok (rev R) :: (_, 'e) res)"
proof -
  obtain N where N: "N \<le> fft_adicity P" "next_pow2 (2 * n) = 2 ^ N" "2 * n \<le> 2 ^ N" using next_pow2_bounds [OF fits] n by auto
  have "length denom \<le> 2 ^ N" "length rhs \<le> 2 ^ N" "length (R @ S) \<le> 2 ^ N" using N(3) n len by simp_all
  with dft_product [OF N(1), of "resize (2 ^ N) 0 denom" "resize (2 ^ N) 0 rhs" "R @ S", where 'e = 'e] product obtain va vb where
    v: "dft P (resize (2 ^ N) 0 denom) = (Ok va :: (_, 'e) res)" "dft P (resize (2 ^ N) 0 rhs) = (Ok vb :: (_, 'e) res)"
    "idft P (map2 (*) va vb) = (Ok (resize (2 ^ N) 0 (R @ S)) :: (_, 'e) res)"
    by (auto simp: horner_resize)
  have "length denom + length rhs - 1 = 2 * n" using len by simp
  moreover have "take n (resize (2 ^ N) 0 (R @ S)) = R"
    using N(3) len by (simp add: resize_def)
  ultimately show ?thesis by (simp only: evals_product_def Let_def N(2) v rbind.simps)
qed

lemma from_evals_Ok:
  assumes A: "array_laws A" and n: "2 \<le> length evals" "length evals \<le> 2 ^ 31" and fits: "3 * length evals - 1 \<le> 2 ^ fft_adicity P"
  shows "\<exists>cs. from_evals A P evals = Some (Ok cs :: (_, 'e) res) \<and> length cs = length evals \<and>
    (\<forall>i < length evals. horner_eval cs (fft_gen P (log2_ceil (length evals)) ^ i) = evals ! i)"
proof -
  define n l where "n = length evals" and "l = log2_ceil n"
  define omega where "omega = fft_gen P l"
  have n': "2 \<le> n" "n \<le> 2 ^ 31" "n \<le> 2 ^ 32" "0 < n" "2 * n \<le> 2 ^ fft_adicity P" "n < 2 ^ fft_adicity P" "3 * n - 1 \<le> 2 ^ fft_adicity P"
    using n fits by (auto simp: n_def)
  have l: "n \<le> 2 ^ l" "l \<le> fft_adicity P" using log2_ceil_bounds(1) [of n] log2_ceil_bounds(2) [of 1 n "fft_adicity P"] n' by (simp_all add: l_def)
  have nz: "omega \<noteq> 0" using gen_nonzero [OF l(2)] by (simp add: omega_def)
  let ?y = "map (\<lambda>i. evals ! i * inverse omega ^ ((n - 1) * i) * ratio_prod (inverse omega) i * ratio_prod omega (n - 1 - i)) [0..<n]"
  let ?rhs = "map (\<lambda>k. horner_eval ?y (omega ^ k)) [0..<n]"
  have rhs: "evals_rhs A P evals omega l = (Ok ?rhs :: (_, 'e) res)"
  proof -
    have last_power: "index (powers (2 ^ l + 1) omega) (2 ^ l - 1) = (Ok (inverse omega) :: (_, 'e) res)"
      using gen_inverse [OF l(2), of 1] by (simp add: powers_def omega_def del: upt_Suc)
    have "chirp_z A P ?y omega n = (Ok ?rhs :: (_, 'e) res)" using chirp_z_Ok [OF A nz n'(4,2) _ n'(7), of ?y] by simp
    with last_power show ?thesis
      unfolding evals_rhs_def Let_def n_def [symmetric]
      by (simp only: inverse_denominators_Ok [OF l(2) n'(4) l(1), folded omega_def] weighted_evals_Ok [OF n_def [symmetric] n'(3)] rbind.simps prod.case)
  qed
  from geometric_product_Ok [OF n'(4,6), of omega, where 'e = 'e] obtain denom where
    denom: "geometric_product P omega n = Some (Ok denom :: (_, 'e) res)" "length denom = Suc n" "\<And>x. horner_eval denom x = factors_at omega n x" by blast
  from reversed_product [of n ?y omega] n' obtain R S where
    RS: "length R = n" "length S = n" "\<And>x. horner_eval R x = (\<Sum>i < n. ?y ! i * (\<Prod>j \<in> {..<n} - {i}. 1 - omega ^ j * x))"
    "\<And>x. (\<Prod>j < n. 1 - omega ^ j * x) * horner_eval ?rhs x = horner_eval (R @ map uminus S) x" by auto
  have "evals_product P n denom ?rhs = (Ok (rev R) :: (_, 'e) res)"
    using RS by (intro evals_product_Ok [OF n'(1) denom(2), where S = "map uminus S"]) (simp_all add: n' denom(3) factors_at_def)
  with rhs denom(1) have run: "from_evals A P evals = Some (Ok (rev R) :: (_, 'e) res)"
    using n' l(2) unfolding from_evals_def Let_def n_def [symmetric] l_def [symmetric] by (simp add: fft_generator_def omega_def)
  have "horner_eval (rev R) (omega ^ m) = evals ! m" if m: "m < n" for m
  proof -
    let ?x = "inverse omega ^ m"
    let ?skip = "\<lambda>i. \<Prod>j \<in> {..<n} - {i}. 1 - omega ^ j * ?x"
    have cancel: "omega ^ j * ?x = (if j < m then inverse omega ^ Suc (m - Suc j) else omega ^ (j - m))" for j
    proof (cases "j < m")
      case True
      then have "omega ^ m = omega ^ j * omega ^ Suc (m - Suc j)" by (simp only: power_add [symmetric]) simp
      with nz True show ?thesis by (simp add: power_inverse field_simps del: power_Suc)
    next
      case False
      with nz show ?thesis by (simp add: power_inverse power_diff field_simps)
    qed
    have others: "?skip i = 0" if "i < n" "i \<noteq> m" for i
      using that m by (intro prod_zero) (auto intro!: bexI [of _ m] simp: cancel)
    have split: "{..<n} - {m} = {..<m} \<union> {Suc m..<n}" using m by auto
    have "?skip m = (\<Prod>j < m. 1 - inverse omega ^ Suc (m - Suc j)) * (\<Prod>j \<in> {Suc m..<n}. 1 - omega ^ (j - m))"
      unfolding split by (subst prod.union_disjoint) (auto simp: cancel intro!: arg_cong2 [where f = "(*)"] prod.cong simp del: power_Suc)
    also have "(\<Prod>j < m. 1 - inverse omega ^ Suc (m - Suc j)) = (\<Prod>t < m. 1 - inverse omega ^ Suc t)"
      by (rule prod.nat_diff_reindex)
    also have "(\<Prod>j \<in> {Suc m..<n}. 1 - omega ^ (j - m)) = (\<Prod>t < n - 1 - m. 1 - omega ^ Suc t)"
      by (rule prod.reindex_bij_witness [of _ "\<lambda>t. t + Suc m" "\<lambda>j. j - Suc m"]) (auto simp: Suc_diff_Suc Suc_le_eq simp del: power_Suc)
    finally have skip: "?skip m = (\<Prod>t < m. 1 - inverse omega ^ Suc t) * (\<Prod>t < n - 1 - m. 1 - omega ^ Suc t)" .
    have not_one: "1 - omega ^ Suc t \<noteq> 0" "1 - inverse omega ^ Suc t \<noteq> 0" if "Suc t < n" for t
      using gen_not_one [OF l(2), of "Suc t"] that l(1) by (simp_all add: omega_def power_inverse del: power_Suc)
    have "ratio_prod (inverse omega) m * (\<Prod>t < m. 1 - inverse omega ^ Suc t) = 1"
      using not_one m by (simp add: ratio_prod_def prod.distrib [symmetric] del: power_Suc)
    moreover have "ratio_prod omega (n - 1 - m) * (\<Prod>t < n - 1 - m. 1 - omega ^ Suc t) = 1"
      using not_one by (simp add: ratio_prod_def prod.distrib [symmetric] del: power_Suc)
    ultimately have weights: "ratio_prod (inverse omega) m * ratio_prod omega (n - 1 - m) * ?skip m = 1"
      unfolding skip by (metis (no_types, lifting) mult.assoc mult.commute mult_1)
    have "horner_eval R ?x = ?y ! m * ?skip m"
    proof -
      have "(\<Sum>i < n. ?y ! i * ?skip i) = ?y ! m * ?skip m + (\<Sum>i \<in> {..<n} - {m}. ?y ! i * ?skip i)"
        using m by (intro sum.remove) simp_all
      moreover have "(\<Sum>i \<in> {..<n} - {m}. ?y ! i * ?skip i) = 0"
      proof (intro sum.neutral ballI)
        fix i assume "i \<in> {..<n} - {m}"
        then have "?skip i = 0" by (intro others) simp_all
        then show "?y ! i * ?skip i = 0" by (simp only: mult_zero_right)
      qed
      ultimately show ?thesis by (simp only: RS(3) add_0_right)
    qed
    also have "\<dots> = evals ! m * inverse omega ^ ((n - 1) * m)"
      using m weights by (simp add: mult.assoc)
    finally have "horner_eval (rev R) (omega ^ m) = (omega ^ m) ^ (n - 1) * (evals ! m * inverse omega ^ ((n - 1) * m))"
      using horner_rev [of "omega ^ m" R] nz RS(1) by (simp add: power_inverse)
    also have "\<dots> = evals ! m" using nz by (simp add: power_mult [symmetric] power_inverse mult.commute [of m])
    finally show ?thesis .
  qed
  with run RS(1) show ?thesis unfolding n_def [symmetric] l_def [symmetric] omega_def [symmetric] by auto
qed

end

section \<open>The property\<close>

text \<open>C23. From \<open>n\<close> values, \<open>2 \<le> n\<close> and \<open>3 n - 1\<close> at most the order of the two-adic subgroup, \<open>from_evals\<close> returns, without a panic and
  from a recursion that ends, \<open>n\<close> coefficients of a polynomial with those values at the first \<open>n\<close> powers of the generator. Its
  \<open>chirp_z\<close> returns the values of \<open>n\<close> coefficients at those powers; asked for two values of one coefficient, it does not return
  them but a zero and the second one.
\<close>

theorem from_evals_exact:
  fixes P :: "'f::field fft_ops"
  assumes "bowers P" and "array_laws A" and "2 \<le> n" and "n \<le> 2 ^ 31" and "3 * n - 1 \<le> 2 ^ fft_adicity P" and "length evals = n" and "omega \<noteq> 0"
  shows "(\<exists>cs. from_evals A P evals = Some (Ok cs :: ('f list, 'e) res) \<and> length cs = n \<and>
      (\<forall>i < n. horner_eval cs (fft_gen P (log2_ceil n) ^ i) = evals ! i)) \<and>
    chirp_z A P evals omega n = (Ok (map (\<lambda>k. horner_eval evals (omega ^ k)) [0..<n]) :: ('f list, 'e) res) \<and>
    chirp_z A P [c] omega 2 = (Ok [0, c] :: ('f list, 'e) res)"
proof (intro conjI)
  show "\<exists>cs. from_evals A P evals = Some (Ok cs :: ('f list, 'e) res) \<and> length cs = n \<and>
      (\<forall>i < n. horner_eval cs (fft_gen P (log2_ceil n) ^ i) = evals ! i)"
    using bowers.from_evals_Ok [OF assms(1,2), of evals, where 'e = 'e] assms by auto
  show "chirp_z A P evals omega n = (Ok (map (\<lambda>k. horner_eval evals (omega ^ k)) [0..<n]) :: ('f list, 'e) res)"
    using bowers.chirp_z_Ok [OF assms(1,2,7), of n evals, where 'e = 'e] assms by auto
  have "2 \<le> fft_adicity P"
  proof (rule ccontr)
    assume "\<not> 2 \<le> fft_adicity P"
    then have "(2 :: nat) ^ fft_adicity P \<le> 2 ^ 1" by (intro power_increasing) simp_all
    with assms(3,5) show False by simp
  qed
  then show "chirp_z A P [c] omega 2 = (Ok [0, c] :: ('f list, 'e) res)"
    by (rule bowers.chirp_z_misplaced [OF assms(1,2,7)])
qed

theorem from_evals_exact_witness:
  "(\<exists>cs. from_evals quad_array (plain_fft f17_gen 4) [4, 0, 9] = Some (Ok cs :: (f17 list, unit) res) \<and> length cs = 3 \<and>
      horner_eval cs (f17_gen (log2_ceil 3) ^ 2) = 9) \<and>
   chirp_z quad_array (plain_fft f17_gen 4) [7] (2 :: f17) 2 = (Ok [0, 7] :: (f17 list, unit) res)"
proof -
  have "(2 :: f17) \<noteq> 0" by code_simp
  with from_evals_exact [OF f17_bowers.bowers_axioms quads.array_laws_axioms, of 3 "[4, 0, 9]" 2 7, where 'e = unit] obtain cs where
    "from_evals quad_array (plain_fft f17_gen 4) [4, 0, 9] = Some (Ok cs :: (f17 list, unit) res)" "length cs = 3"
    "\<forall>i < 3. horner_eval cs (f17_gen (log2_ceil 3) ^ i) = [4, 0, 9] ! i"
    "chirp_z quad_array (plain_fft f17_gen 4) [7] (2 :: f17) 2 = (Ok [0, 7] :: (f17 list, unit) res)" by auto
  moreover from this(3) [rule_format, of 2] have "horner_eval cs (f17_gen (log2_ceil 3) ^ 2) = 9" by simp
  ultimately show ?thesis by blast
qed

end
