(* ===== verification/Spec2Isabelle.thy ===== *)
theory Spec2Isabelle
  imports ProofCanonical MultiField VerifierTop WhirComplete GkrProver ChirpInterpolation
begin

text \<open>
  A model of the STARK verifier of \<open>crates/stark-backend\<close>, of the parts of the crate that it depends
  on (proofs and their codec, the Fiat-Shamir transcript, keys and key generation, the stacked layout and its Merkle
  trees, the four phases of \<open>verify\<close>) and of three provers, those of the polynomial commitment (the serial transform, the
  polynomials, the stacked commitment and WHIR), of the multilinear sumcheck and of GKR. Paths below are relative to \<open>crates/stark-backend/src\<close>.

  The program and its parts. \<open>MultiStarkKeygenBuilder::generate_pk\<close> records the constraints of each AIR as
  symbolic expressions, turns them into a DAG and derives the verifying key with the trace height
  constraints. A prover stacks the columns of all traces into matrices of one height, commits to them with a Merkle tree, and
  produces a \<open>Proof\<close>. \<open>verify\<close> (\<open>verifier/mod.rs\<close>) checks the shape of the proof, replays the transcript and
  runs GKR for the LogUp sum, the batched zerocheck, the stacked reduction and WHIR; each phase hands the next a point
  and the claims at that point. The theories follow this order, one component after the other.

  Conventions (\<open>Prelude\<close>). A Rust call returns \<open>'a, 'e res\<close>: \<open>Ok\<close>, \<open>Err\<close> or \<open>Panic\<close>. Indexing, slicing, \<open>unwrap\<close>,
  \<open>assert!\<close>, \<open>debug_assert!\<close> and checked arithmetic are \<open>index\<close>, \<open>slice\<close>, \<open>unwrap\<close>, \<open>assert_that\<close>, \<open>add64\<close>, \<open>sub64\<close>,
  \<open>mul64\<close>, \<open>shl64\<close> and their 32-bit forms: the model is the build with debug assertions and overflow checks, in which every
  silent wrap-around of the release build is a \<open>Panic\<close>. \<open>usize\<close> is a \<open>nat\<close> below \<open>2 ^ 64\<close>; bytes and the
  bit tricks on them are words. Field elements are elements of a HOL field; what the code needs from Plonky3
  beyond the field operations is an argument (\<open>prime_field32_ops\<close>, \<open>field_ops\<close>, \<open>field_ext\<close>), and so are the hash function
  (\<open>merkle_hasher\<close>), the permutation of the sponge and the codec of the configuration (\<open>codec_config\<close>). Their documented laws
  are the assumptions of the locales, each of which is interpreted: bytes and BabyBear residues for the codecs, a field of
  17 elements (\<open>SmallField\<close>) with its two-adic generators for the algebra, small permutations for the sponges.

  The theories and the code they model:

  \<^item> \<open>Codec\<close>, \<open>FieldCodec\<close>: \<open>codec.rs\<close> and the codec of \<open>stark-sdk\<close>'s \<open>baby_bear_poseidon2.rs\<close>.
    A \<open>codec\<close> reads back what it wrote whatever follows; a \<open>canonical_codec\<close> accepts nothing else.
  \<^item> \<open>ProofTypes\<close>, \<open>ProofCodec\<close>, \<open>ProofRoundTrip\<close>, \<open>ProofCanonical\<close>: \<open>proof.rs\<close>. Every well-shaped proof is read back, and
    every accepted input is the encoding of what was read when the one length that a WHIR proof of a single round ignores is in use;
    otherwise any value of that length is accepted.
  \<^item> \<open>Transcript\<close>, \<open>MultiField\<close>: \<open>transcript/\<close>, \<open>multi_field_packing.rs\<close> and the large-field hasher of \<open>hasher.rs\<close>. A transcript is three
    operations on a state; the sponge refines the buffered challenger, the log of a recorder replays, grinding is
    sound, packing is injective, and no call on a multi-field transcript panics. Grinding searches a list of nonces that the
    caller gives.
  \<^item> \<open>PolyCommon\<close>, \<open>SmallField\<close>, \<open>FieldTower\<close>: \<open>poly_common.rs\<close>; what the kernels, the multilinear evaluation
    and the interpolation formulas compute on domain points and in general.
  \<^item> \<open>Symbolic\<close>, \<open>SymbolicDag\<close>, \<open>DagShape\<close>: \<open>air_builders/symbolic/\<close>, with an \<open>Arc\<close> as an address and its contents. Building the DAG keeps
    the value of every constraint and interaction.
  \<^item> \<open>Config\<close>, \<open>Keygen\<close>: \<open>config.rs\<close>, \<open>keygen/\<close>. The height constraints say what they should, and generated keys are well formed.
  \<^item> \<open>Matrix\<close>, \<open>StackedLayout\<close>, \<open>Merkle\<close>: \<open>prover/matrix.rs\<close>, \<open>prover/stacked_pcs.rs\<close>, \<open>hasher.rs\<close>. The layout is an
    injective placement that loses no column; an opening of the Merkle tree verifies, and two different openings of one position that
    both verify contain a collision among the hash calls of the two verifications.
  \<^item> \<open>ProofShape\<close>: \<open>verifier/proof_shape.rs\<close>. The check accepts exactly the proofs of the prescribed shape (\<open>well_shaped\<close>).
  \<^item> \<open>VerifierMonad\<close>, \<open>GkrVerifier\<close>, \<open>Evaluator\<close>, \<open>BatchConstraints\<close>, \<open>StackedReduction\<close>, \<open>BinaryFold\<close>, \<open>Whir\<close>, \<open>Verifier\<close>:
    \<open>verifier/\<close>. A step of the verifier is a function of the transcript state; one definition per stage of each function, composed as in the code.
  \<^item> \<open>SumcheckRound\<close>, \<open>BatchSafety\<close>, \<open>BatchEval\<close>, \<open>StackedSafety\<close>, \<open>WhirSafety\<close>, \<open>VerifierSafety\<close>: the correctness of the rounds (a round goes on with
    the true claim, or, from a false one, misses it for all but a few challenges) and, in
    the locale \<open>verifier_env\<close>, that no phase panics when the previous ones have succeeded.
  \<^item> \<open>Dft\<close>: \<open>dft/radix_2_bowers_serial.rs\<close>, with the operations of the field in \<open>fft_ops\<close>. The in-place butterflies compute the
    discrete Fourier transform.
  \<^item> \<open>MlePoly\<close>, \<open>PlePoly\<close>, \<open>PcsCommit\<close>: \<open>prover/poly.rs\<close> and the commitment of \<open>prover/stacked_pcs.rs\<close>. Plonky3's transforms are the
    parameter \<open>subgroup_dft\<close>; its law, that a transform evaluates on a coset, is proved of \<open>Dft\<close>.
  \<^item> \<open>WhirProver\<close>, \<open>WhirFold\<close>, \<open>WhirValues\<close>, \<open>WhirParties\<close>, \<open>WhirQueries\<close>, \<open>WhirWeights\<close>, \<open>WhirRounds\<close>, \<open>WhirStep\<close>,
    \<open>WhirComplete\<close>: \<open>prover/whir.rs\<close> beside \<open>verifier/whir.rs\<close>. \<open>WhirProver\<close> is the code; the others follow the prover and the
    verifier through one run in the locale \<open>whir_parties\<close>: folding a table of values commutes with binding a
    variable, each query opens, each round carries the claim. From any transcript state the prover returns, the
    verifier accepts what it returned, and both end in the same state; so does a commitment made by \<open>stacked_commit\<close>.
  \<^item> \<open>PairFolding\<close>, \<open>SumcheckProver\<close>, \<open>GkrProver\<close>: the folding of evaluations, \<open>sumcheck_multilinear\<close> of \<open>prover/sumcheck.rs\<close> and
    \<open>fractional_sumcheck\<close> of \<open>prover/logup_zerocheck/fractional_sumcheck_gkr.rs\<close>. The GKR prover convinces \<open>verify_gkr\<close> from any transcript state.
  \<^item> \<open>UniPoly\<close>, \<open>BatchInverse\<close>, \<open>Interpolation\<close>, \<open>CosetInterpolation\<close>, \<open>ChirpInterpolation\<close>: the univariate polynomials of
    \<open>prover/poly.rs\<close>. Batch inversion, and interpolation on any points, on cosets and on geometric points are exact or panic.
  \<^item> \<open>AcceptedRun\<close>, \<open>VerifierTop\<close>: one accepted run, from the key generator on; that \<open>verify\<close> never panics, and that an accepted
    proof respects the bounds on the trace heights.

  Loops are structural recursion over the list that the code iterates over; nothing uses fuel. The loops whose end depends on the
  input (\<open>count_samples\<close>, the halving of \<open>geometric_product\<close>) are \<open>partial_function (option)\<close>: \<open>None\<close> is a call that never returns, and which
  calls return is proved. The other loops of the code without such
  a list (\<open>while xi.len() != \<dots>\<close>, \<open>trailing_zeros\<close>, the halving of \<open>tree_compress\<close>, the retry of a rejected grinding nonce) are recursion on
  their measure or over the explicit range they run through.

  Soundness is stated per round on the verifier's own step, as a bounded set of challenges, fixed before the challenge is sampled, under
  which a false claim may survive; that challenges are random, and the probability of the whole protocol, is not.

  Not modelled: the rest of the prover (\<open>prover/logup_zerocheck\<close> apart from GKR, \<open>prover/stacked_reduction.rs\<close>, the univariate and prismalinear rounds of
  \<open>prover/sumcheck.rs\<close>) and the optimised backends
  (\<open>cpu-backend\<close>, \<open>cuda-backend\<close>), which run in parallel over traces or launch GPU kernels and are not trusted by the verifier; the floating-point soundness calculator and query counts
  (\<open>soundness/\<close>, parts of \<open>config.rs\<close>); the glue to Plonky3's \<open>AirBuilder\<close> traits, whose result, the list of symbolic expressions of an AIR, is an input of key
  generation; Lean rendering, metrics, logging, benchmarks and tests.
\<close>

end
